(* ===== verification/Prelude.thy ===== *)
theory Prelude
  imports Main "HOL-Library.Word" "HOL-Library.Signed_Division"
begin

text \<open>
  The vocabulary every component shares: C++ exceptions as values of \<open>error\<close>,
  fallible code as \<open>'a res\<close>, \<open>std::vector::operator[]\<close> and \<open>memcpy\<close> with their
  undefined behaviour as the error \<open>Undefined\<close>, and the list lemmas about slices,
  blits and rows of row-major buffers that the component proofs rest on.
  \<open>int64_t\<close> is \<open>int\<close> wherever an overflow would be undefined behaviour of the C++ and
  no claim depends on it; \<open>/\<close> and \<open>%\<close> are \<open>sdiv\<close> and \<open>smod\<close>, which truncate
  towards zero as C++ does.
\<close>

named_theorems mem_simps \<open>reads and writes of buffers inside their bounds\<close>
named_theorems res_simps \<open>evaluation of fallible code\<close>

section \<open>Errors as values\<close>

text \<open>
  The exceptions the sources throw, and \<open>Undefined\<close> for a read or write out of the
  bounds of a vector or buffer, which in C++ is undefined behaviour.
\<close>

datatype error =
    InvalidArgument string
  | RuntimeError string
  | OutOfRange string
  | LengthError
  | Undefined

type_synonym 'a res = "error + 'a"

definition res_bind :: "'a res \<Rightarrow> ('a \<Rightarrow> 'b res) \<Rightarrow> 'b res" where
  "res_bind m f = (case m of Inl e \<Rightarrow> Inl e | Inr x \<Rightarrow> f x)"

text \<open>A \<open>for\<close> loop whose body may throw: the first error ends it.\<close>

fun res_fold :: "('a \<Rightarrow> 's \<Rightarrow> 's res) \<Rightarrow> 'a list \<Rightarrow> 's \<Rightarrow> 's res" where
  "res_fold f [] s = Inr s"
| "res_fold f (x # xs) s = res_bind (f x s) (res_fold f xs)"

definition res_ok :: "'a res \<Rightarrow> bool" where
  "res_ok m \<longleftrightarrow> (case m of Inl _ \<Rightarrow> False | Inr _ \<Rightarrow> True)"

lemma res_bind_Inr [simp]: "res_bind (Inr x) f = f x"
  by (simp add: res_bind_def)

lemma res_bind_Inl [simp]: "res_bind (Inl e) f = Inl e"
  by (simp add: res_bind_def)

lemma res_bind_eq_Inr: "res_bind m f = Inr y \<longleftrightarrow> (\<exists>x. m = Inr x \<and> f x = Inr y)"
  by (cases m) auto

lemma res_guard_eq_Inr: "(if b then Inl err else m) = Inr x \<longleftrightarrow> \<not> b \<and> m = Inr x"
  by simp

lemma res_bind_cong [fundef_cong]:
  "m = m' \<Longrightarrow> (\<And>x. m' = Inr x \<Longrightarrow> f x = g x) \<Longrightarrow> res_bind m f = res_bind m' g"
  by (cases m') auto

lemma res_bindE:
  assumes "res_bind m f = Inr y"
  obtains x where "m = Inr x" and "f x = Inr y"
  using assms by (auto simp: res_bind_eq_Inr)

lemma res_bind_split:
  "P (res_bind m f) \<longleftrightarrow> (\<forall>e. m = Inl e \<longrightarrow> P (Inl e)) \<and> (\<forall>x. m = Inr x \<longrightarrow> P (f x))"
  by (cases m) auto

lemma res_bind_assoc: "res_bind (res_bind m f) g = res_bind m (\<lambda>x. res_bind (f x) g)"
  by (cases m) auto

lemma res_fold_append: "res_fold f (xs @ ys) s = res_bind (res_fold f xs s) (res_fold f ys)"
  by (induction xs arbitrary: s) (auto simp: res_bind_def split: sum.splits)

lemma res_fold_cong [fundef_cong]:
  "xs = ys \<Longrightarrow> s = t \<Longrightarrow> (\<And>x u. x \<in> set ys \<Longrightarrow> f x u = g x u) \<Longrightarrow> res_fold f xs s = res_fold g ys t"
proof (induction ys arbitrary: xs s t)
  case Nil
  then show ?case by simp
next
  case (Cons y ys)
  have "res_fold f ys = res_fold g ys"
    by (rule ext) (use Cons in auto)
  with Cons.prems show ?case by simp
qed

text \<open>The loop rule: an invariant over the number of iterations done.\<close>

lemma res_fold_upt_ok:
  assumes "P 0 s" and "\<And>i u. i < n \<Longrightarrow> P i u \<Longrightarrow> \<exists>u'. f i u = Inr u' \<and> P (Suc i) u'"
  shows "\<exists>u. res_fold f [0..<n] s = Inr u \<and> P n u"
  using assms
proof (induction n)
  case 0
  then show ?case by simp
next
  case (Suc n)
  then obtain u where u: "res_fold f [0..<n] s = Inr u" "P n u" by force
  from Suc.prems(2)[of n u] u obtain u' where "f n u = Inr u'" "P (Suc n) u'" by auto
  with u show ?case by (simp add: res_fold_append)
qed

text \<open>A loop that pushes one result per element, or fails with the first error.\<close>

fun res_mapM :: "('a \<Rightarrow> 'b res) \<Rightarrow> 'a list \<Rightarrow> 'b list res" where
  "res_mapM f [] = Inr []"
| "res_mapM f (x # xs) = res_bind (f x) (\<lambda>y. res_bind (res_mapM f xs) (\<lambda>ys. Inr (y # ys)))"

lemma res_mapM_ok: "(\<And>x. x \<in> set xs \<Longrightarrow> f x = Inr (g x)) \<Longrightarrow> res_mapM f xs = Inr (map g xs)"
  by (induction xs) auto

lemma res_mapM_map: "res_mapM f (map g xs) = res_mapM (\<lambda>x. f (g x)) xs"
  by (induction xs) auto

lemma res_mapM_length: "res_mapM f xs = Inr ys \<Longrightarrow> length ys = length xs"
  by (induction xs arbitrary: ys) (auto simp: res_bind_eq_Inr)

lemma res_mapM_nth: "res_mapM f xs = Inr ys \<Longrightarrow> i < length xs \<Longrightarrow> f (xs ! i) = Inr (ys ! i)"
  by (induction xs arbitrary: ys i) (auto simp: res_bind_eq_Inr nth_Cons split: nat.splits)

text \<open>An invariant of the body is an invariant of the loop, when the loop returns.\<close>

lemma res_fold_inv:
  assumes "res_fold f xs s = Inr t" and "P s"
    and "\<And>x u v. x \<in> set xs \<Longrightarrow> P u \<Longrightarrow> f x u = Inr v \<Longrightarrow> P v"
  shows "P t"
  using assms
proof (induction xs arbitrary: s)
  case Nil
  then show ?case by simp
next
  case (Cons x xs)
  from Cons.prems(1) obtain u where "f x s = Inr u" "res_fold f xs u = Inr t"
    by (auto simp: res_bind_eq_Inr)
  with Cons.prems show ?case
    by (intro Cons.IH[of u]) (auto intro: Cons.prems(3))
qed

section \<open>Vectors and buffers\<close>

text \<open>\<open>v[i]\<close> and \<open>v[i] = x\<close> of a \<open>std::vector\<close>: undefined outside \<open>[0, size)\<close>.\<close>

definition vec_get :: "'a list \<Rightarrow> int \<Rightarrow> 'a res" where
  "vec_get xs i = (if 0 \<le> i \<and> i < int (length xs) then Inr (xs ! nat i) else Inl Undefined)"

definition vec_set :: "'a list \<Rightarrow> int \<Rightarrow> 'a \<Rightarrow> 'a list res" where
  "vec_set xs i x = (if 0 \<le> i \<and> i < int (length xs) then Inr (xs[nat i := x]) else Inl Undefined)"

lemma vec_get_ok [mem_simps]: "0 \<le> i \<Longrightarrow> i < int (length xs) \<Longrightarrow> vec_get xs i = Inr (xs ! nat i)"
  by (simp add: vec_get_def)

lemma vec_get_nat [mem_simps]: "i < length xs \<Longrightarrow> vec_get xs (int i) = Inr (xs ! i)"
  by (simp add: vec_get_def)

lemma vec_get_eq_Inr: "vec_get xs i = Inr x \<longleftrightarrow> 0 \<le> i \<and> i < int (length xs) \<and> x = xs ! nat i"
  by (auto simp: vec_get_def)

lemma vec_set_ok [mem_simps]: "0 \<le> i \<Longrightarrow> i < int (length xs) \<Longrightarrow> vec_set xs i x = Inr (xs[nat i := x])"
  by (simp add: vec_set_def)

lemma vec_set_nat [mem_simps]: "i < length xs \<Longrightarrow> vec_set xs (int i) x = Inr (xs[i := x])"
  by (simp add: vec_set_def)

lemma vec_set_eq_Inr:
  "vec_set xs i x = Inr ys \<longleftrightarrow> 0 \<le> i \<and> i < int (length xs) \<and> ys = xs[nat i := x]"
  by (auto simp: vec_set_def)

definition slice :: "nat \<Rightarrow> nat \<Rightarrow> 'a list \<Rightarrow> 'a list" where
  "slice off n xs = take n (drop off xs)"

definition blit :: "nat \<Rightarrow> 'a list \<Rightarrow> 'a list \<Rightarrow> 'a list" where
  "blit off ys xs = take off xs @ ys @ drop (off + length ys) xs"

text \<open>
  \<open>memcpy(dst + doff, src + soff, n)\<close>, counted in elements: undefined when either
  range leaves its buffer.
\<close>

definition memcpy :: "'a list \<Rightarrow> int \<Rightarrow> 'a list \<Rightarrow> int \<Rightarrow> int \<Rightarrow> 'a list res" where
  "memcpy dst doff src soff n =
     (if 0 \<le> n \<and> 0 \<le> doff \<and> doff + n \<le> int (length dst) \<and> 0 \<le> soff \<and> soff + n \<le> int (length src)
      then Inr (blit (nat doff) (slice (nat soff) (nat n) src) dst)
      else Inl Undefined)"

lemma length_slice [simp]: "length (slice off n xs) = min n (length xs - off)"
  by (simp add: slice_def)

lemma length_blit [simp]: "off + length ys \<le> length xs \<Longrightarrow> length (blit off ys xs) = length xs"
  by (simp add: blit_def)

lemma nth_slice [simp]: "i < n \<Longrightarrow> off + i < length xs \<Longrightarrow> slice off n xs ! i = xs ! (off + i)"
  by (simp add: slice_def)

lemma nth_blit:
  "off + length ys \<le> length xs \<Longrightarrow> i < length xs \<Longrightarrow>
   blit off ys xs ! i = (if off \<le> i \<and> i < off + length ys then ys ! (i - off) else xs ! i)"
  by (auto simp: blit_def nth_append min_def)

lemma slice_all: "slice 0 (length xs) xs = xs"
  by (simp add: slice_def)

lemma slice_append1: "off + n \<le> length xs \<Longrightarrow> slice off n (xs @ ys) = slice off n xs"
  by (simp add: slice_def)

lemma slice_append2: "length xs \<le> off \<Longrightarrow> slice off n (xs @ ys) = slice (off - length xs) n ys"
  by (simp add: slice_def)

lemma slice_slice: "i + k \<le> n \<Longrightarrow> slice i k (slice off n xs) = slice (off + i) k xs"
  by (simp add: slice_def drop_take min_def add.commute)

lemma blit_append:
  assumes "off + length xs \<le> length d"
  shows "blit (off + length xs) ys (blit off xs d) = blit off (xs @ ys) d"
proof -
  have "take (off + length xs) (blit off xs d) = take off d @ xs"
    using assms by (simp add: blit_def)
  moreover have "drop (off + length xs + length ys) (blit off xs d) = drop (off + (length xs + length ys)) d"
    using assms by (simp add: blit_def min_def add.assoc add.commute add.left_commute)
  ultimately show ?thesis by (simp add: blit_def[of "off + length xs"]) (simp add: blit_def)
qed

lemma slice_map: "slice off n (map f xs) = map f (slice off n xs)"
  by (simp add: slice_def take_map drop_map)

lemma slice_blit_same:
  "off + length ys \<le> length xs \<Longrightarrow> n = length ys \<Longrightarrow> slice off n (blit off ys xs) = ys"
  by (simp add: slice_def blit_def)

lemma slice_blit_disjoint:
  assumes "off + length ys \<le> length xs" and "i + n \<le> off \<or> off + length ys \<le> i"
  shows "slice i n (blit off ys xs) = slice i n xs"
proof (rule nth_equalityI)
  show "length (slice i n (blit off ys xs)) = length (slice i n xs)"
    using assms(1) by simp
next
  fix k assume "k < length (slice i n (blit off ys xs))"
  then have "k < n" "i + k < length xs" using assms(1) by auto
  with assms show "slice i n (blit off ys xs) ! k = slice i n xs ! k"
    by (auto simp: nth_blit)
qed

lemma memcpy_ok [mem_simps]:
  "doff + n \<le> length dst \<Longrightarrow> soff + n \<le> length src \<Longrightarrow>
   memcpy dst (int doff) src (int soff) (int n) = Inr (blit doff (slice soff n src) dst)"
  by (simp add: memcpy_def flip: of_nat_add)

lemma length_filter_imp:
  "(\<And>x. x \<in> set xs \<Longrightarrow> P x \<Longrightarrow> Q x) \<Longrightarrow> length (filter P xs) \<le> length (filter Q xs)"
  by (induction xs) (auto simp: le_SucI)

section \<open>Rows of row-major buffers\<close>

definition row :: "nat \<Rightarrow> nat \<Rightarrow> 'a list \<Rightarrow> 'a list" where
  "row w r xs = slice (r * w) w xs"

definition rows :: "nat \<Rightarrow> nat \<Rightarrow> 'a list \<Rightarrow> 'a list list" where
  "rows w n xs = map (\<lambda>r. row w r xs) [0..<n]"

lemma length_rows [simp]: "length (rows w n xs) = n"
  by (simp add: rows_def)

lemma nth_rows [simp]: "r < n \<Longrightarrow> rows w n xs ! r = row w r xs"
  by (simp add: rows_def)

lemma row_in_bounds: "r < n \<Longrightarrow> n * w \<le> l \<Longrightarrow> r * w + w \<le> (l::nat)"
  by (metis Suc_leI add.commute le_trans mult_Suc mult_le_mono1)

lemma length_row: "n * w \<le> length xs \<Longrightarrow> r < n \<Longrightarrow> length (row w r xs) = w"
  using row_in_bounds[of r n w "length xs"] by (simp add: row_def)

lemma row_append1: "n * w \<le> length xs \<Longrightarrow> r < n \<Longrightarrow> row w r (xs @ ys) = row w r xs"
  using row_in_bounds[of r n w "length xs"] by (simp add: row_def slice_append1)

lemma row_append2: "length xs = n * w \<Longrightarrow> n \<le> r \<Longrightarrow> row w r (xs @ ys) = row w (r - n) ys"
  by (simp add: row_def slice_append2 diff_mult_distrib)

lemma rows_append:
  assumes "length xs = n * w"
  shows "rows w (n + m) (xs @ ys) = rows w n xs @ rows w m ys"
proof (rule nth_equalityI)
  fix r assume "r < length (rows w (n + m) (xs @ ys))"
  then show "rows w (n + m) (xs @ ys) ! r = (rows w n xs @ rows w m ys) ! r"
    using assms row_append1[of n w xs r ys] row_append2[of xs n w r ys] by (simp add: nth_append)
qed simp

lemma concat_rows_take: "n * w \<le> length xs \<Longrightarrow> concat (rows w n xs) = take (n * w) xs"
proof (induction n)
  case 0
  then show ?case by (simp add: rows_def)
next
  case (Suc n)
  then have "take (n * w) xs @ row w n xs = take (n * w + w) xs"
    by (simp add: row_def slice_def take_add)
  with Suc show ?case by (simp add: rows_def add.commute)
qed

lemma concat_rows: "length xs = n * w \<Longrightarrow> concat (rows w n xs) = xs"
  by (simp add: concat_rows_take)

lemma length_concat_uniform: "(\<And>x. x \<in> set xss \<Longrightarrow> length x = w) \<Longrightarrow> length (concat xss) = length xss * w"
  by (induction xss) auto

lemma rows_concat:
  assumes "\<And>x. x \<in> set xss \<Longrightarrow> length x = w" and "length xss = n"
  shows "rows w n (concat xss) = xss"
  using assms
proof (induction xss arbitrary: n)
  case Nil
  then show ?case by (simp add: rows_def)
next
  case (Cons x xss)
  then have "rows w (1 + length xss) (x @ concat xss) = rows w 1 x @ rows w (length xss) (concat xss)"
    by (intro rows_append) simp
  moreover have "rows w 1 x = [x]" using Cons.prems(1)[of x] by (simp add: rows_def row_def slice_def)
  ultimately show ?case using Cons by auto
qed

lemma row_concat:
  "(\<And>x. x \<in> set xss \<Longrightarrow> length x = w) \<Longrightarrow> r < length xss \<Longrightarrow> row w r (concat xss) = xss ! r"
  using rows_concat[of xss w "length xss"] nth_rows[of r "length xss" w "concat xss"] by simp

lemma rows_mem_length: "n * w \<le> length xs \<Longrightarrow> x \<in> set (rows w n xs) \<Longrightarrow> length x = w"
  by (auto simp: rows_def length_row)

lemma row_blit_same:
  "n * w \<le> length xs \<Longrightarrow> r < n \<Longrightarrow> length ys = w \<Longrightarrow> row w r (blit (r * w) ys xs) = ys"
  using row_in_bounds[of r n w "length xs"] by (simp add: row_def slice_blit_same)

lemma row_blit_other:
  assumes "n * w \<le> length xs" "r' < n" "length ys = w" "r \<noteq> r'"
  shows "row w r (blit (r' * w) ys xs) = row w r xs"
proof -
  have "r * w + w \<le> r' * w \<or> r' * w + w \<le> r * w"
    using assms(4) row_in_bounds[of r r' w "r' * w"] row_in_bounds[of r' r w "r * w"]
    by (cases "r < r'") auto
  then show ?thesis
    unfolding row_def using row_in_bounds[OF assms(2,1)] assms(3) by (intro slice_blit_disjoint) auto
qed

lemma row_eqI:
  assumes "length xs = n * w" "length ys = n * w" "\<And>r. r < n \<Longrightarrow> row w r xs = row w r ys"
  shows "xs = ys"
proof -
  have "rows w n xs = rows w n ys" using assms(3) by (simp add: rows_def)
  then have "concat (rows w n xs) = concat (rows w n ys)" by (rule arg_cong)
  then show ?thesis unfolding concat_rows[OF assms(1)] concat_rows[OF assms(2)] .
qed

text \<open>A loop that writes the rows of a buffer one after the other.\<close>

lemma res_fold_fill:
  assumes "\<And>r d. r < n \<Longrightarrow> length d = n * w \<Longrightarrow> f r d = Inr (blit (r * w) (g r) d)"
    and "\<And>r. r < n \<Longrightarrow> length (g r) = w" and "length d0 = n * w"
  shows "res_fold f [0..<n] d0 = Inr (concat (map g [0..<n]))"
proof -
  let ?P = "\<lambda>i d. length d = n * w \<and> (\<forall>j < i. row w j d = g j)"
  have "\<exists>d. res_fold f [0..<n] d0 = Inr d \<and> ?P n d"
  proof (rule res_fold_upt_ok[where P = ?P])
    show "?P 0 d0" using assms(3) by simp
    fix i d assume i: "i < n" and P: "?P i d"
    have "length (blit (i * w) (g i) d) = n * w"
      using P i assms(2) row_in_bounds[OF i, of w "n * w"] by simp
    moreover have "row w j (blit (i * w) (g i) d) = g j" if "j < Suc i" for j
      using that P i assms(2) row_blit_same[of n w d i "g i"] row_blit_other[of n w d i "g i" j]
      by (cases "j = i") auto
    ultimately show "\<exists>d'. f i d = Inr d' \<and> ?P (Suc i) d'" using assms(1)[OF i, of d] P by blast
  qed
  then obtain d where d: "res_fold f [0..<n] d0 = Inr d" "length d = n * w" "\<forall>j < n. row w j d = g j" by blast
  have "d = concat (map g [0..<n])"
  proof (rule row_eqI[OF d(2)])
    have "length (concat (map g [0..<n])) = length (map g [0..<n]) * w"
      using assms(2) by (intro length_concat_uniform) auto
    then show "length (concat (map g [0..<n])) = n * w" by simp
    fix r assume "r < n"
    then show "row w r d = row w r (concat (map g [0..<n]))"
      using d(3) row_concat[of "map g [0..<n]" w r] assms(2) by fastforce
  qed
  with d(1) show ?thesis by simp
qed

section \<open>Truncating division\<close>

lemma sdiv_nonneg [simp]: "0 \<le> a \<Longrightarrow> 0 < b \<Longrightarrow> a sdiv b = a div (b::int)"
  by (cases "a = 0") (simp_all add: signed_divide_int_def sgn_if)

lemma smod_nonneg [simp]: "0 \<le> a \<Longrightarrow> 0 < b \<Longrightarrow> a smod b = a mod (b::int)"
  by (cases "a = 0") (simp_all add: signed_modulo_int_def sgn_if)

text \<open>\<open>(tokens + bs - 1) / bs\<close> is the ceiling: the least count of blocks that holds them.\<close>

lemma div_le_iff_less_mult:
  fixes a b k :: int
  assumes "0 < b"
  shows "a div b \<le> k \<longleftrightarrow> a < (k + 1) * b"
proof
  assume "a div b \<le> k"
  then have "(a div b + 1) * b \<le> (k + 1) * b" using assms by (intro mult_right_mono) auto
  moreover have "a < (a div b + 1) * b"
    unfolding distrib_right using assms pos_mod_bound[of b a] div_mult_mod_eq[of a b] by linarith
  ultimately show "a < (k + 1) * b" by simp
next
  assume a: "a < (k + 1) * b"
  show "a div b \<le> k"
  proof (rule ccontr)
    assume "\<not> a div b \<le> k"
    then have "(k + 1) * b \<le> (a div b) * b" using assms by (intro mult_right_mono) auto
    moreover have "(a div b) * b \<le> a"
      using assms pos_mod_sign[of b a] div_mult_mod_eq[of a b] by linarith
    ultimately show False using a by simp
  qed
qed

lemma ceil_div_le_iff:
  fixes n bs k :: int
  assumes "0 < bs"
  shows "(n + bs - 1) div bs \<le> k \<longleftrightarrow> n \<le> k * bs"
  using div_le_iff_less_mult[OF assms, of "n + bs - 1" k] by (auto simp: algebra_simps)

end
