(* ===== verification/Floats.thy ===== *)
theory Floats
  imports Prelude
begin

text \<open>
  Floating point. A \<open>float\<close> is its 32-bit pattern and a \<open>double\<close> its 64-bit pattern:
  storage, copies, sign changes and comparisons are modelled exactly on the patterns.
  The rounding arithmetic and the math library belong to the target machine; they are
  the fields of the record \<open>fpu\<close>, an argument of every definition that computes with
  them, so that each theorem holds bit for bit for every such machine. Eigen is a
  third-party library: its two products are the fields of the record \<open>eigen\<close>.
\<close>

unbundle bit_operations_syntax

type_synonym f32 = "32 word"
type_synonym f64 = "64 word"

section \<open>Comparison of IEEE bit patterns\<close>

text \<open>
  The magnitude is the pattern without its sign bit; it is ordered as the values are, and
  a magnitude above the one of infinity is a NaN. A comparison with a NaN is false, and
  the two zeros are equal.
\<close>

definition f32_mag :: "f32 \<Rightarrow> int" where
  "f32_mag w = uint (w AND 0x7FFFFFFF)"

definition f32_nan :: "f32 \<Rightarrow> bool" where
  "f32_nan w \<longleftrightarrow> 0x7F800000 < f32_mag w"

definition f32_key :: "f32 \<Rightarrow> int" where
  "f32_key w = (if w AND 0x80000000 = 0 then f32_mag w else - f32_mag w)"

definition f32_lt :: "f32 \<Rightarrow> f32 \<Rightarrow> bool" where
  "f32_lt a b \<longleftrightarrow> \<not> f32_nan a \<and> \<not> f32_nan b \<and> f32_key a < f32_key b"

definition f32_eq :: "f32 \<Rightarrow> f32 \<Rightarrow> bool" where
  "f32_eq a b \<longleftrightarrow> \<not> f32_nan a \<and> \<not> f32_nan b \<and> f32_key a = f32_key b"

definition f64_mag :: "f64 \<Rightarrow> int" where
  "f64_mag w = uint (w AND 0x7FFFFFFFFFFFFFFF)"

definition f64_nan :: "f64 \<Rightarrow> bool" where
  "f64_nan w \<longleftrightarrow> 0x7FF0000000000000 < f64_mag w"

definition f64_key :: "f64 \<Rightarrow> int" where
  "f64_key w = (if w AND 0x8000000000000000 = 0 then f64_mag w else - f64_mag w)"

definition f64_lt :: "f64 \<Rightarrow> f64 \<Rightarrow> bool" where
  "f64_lt a b \<longleftrightarrow> \<not> f64_nan a \<and> \<not> f64_nan b \<and> f64_key a < f64_key b"

definition f64_le :: "f64 \<Rightarrow> f64 \<Rightarrow> bool" where
  "f64_le a b \<longleftrightarrow> \<not> f64_nan a \<and> \<not> f64_nan b \<and> f64_key a \<le> f64_key b"

text \<open>\<open>std::max(a, b)\<close> is \<open>a < b ? b : a\<close>; unary minus and \<open>fabs\<close> touch the sign bit.\<close>

definition f64_max :: "f64 \<Rightarrow> f64 \<Rightarrow> f64" where
  "f64_max a b = (if f64_lt a b then b else a)"

definition f32_max :: "f32 \<Rightarrow> f32 \<Rightarrow> f32" where
  "f32_max a b = (if f32_lt a b then b else a)"

definition f32_neg :: "f32 \<Rightarrow> f32" where
  "f32_neg w = w XOR 0x80000000"

definition f32_abs :: "f32 \<Rightarrow> f32" where
  "f32_abs w = w AND 0x7FFFFFFF"

abbreviation f32_one :: f32 where "f32_one \<equiv> 0x3F800000"
abbreviation f64_one :: f64 where "f64_one \<equiv> 0x3FF0000000000000"
abbreviation f64_minus_two :: f64 where "f64_minus_two \<equiv> 0xC000000000000000"
abbreviation f64_minus_inf :: f64 where "f64_minus_inf \<equiv> 0xFFF0000000000000"

lemma f32_lt_irrefl [simp]: "\<not> f32_lt a a"
  by (simp add: f32_lt_def)

lemma f32_lt_trans: "f32_lt a b \<Longrightarrow> f32_lt b c \<Longrightarrow> f32_lt a c"
  by (auto simp: f32_lt_def)

lemma f32_not_lt_trans:
  "\<not> f32_nan b \<Longrightarrow> \<not> f32_lt a b \<Longrightarrow> \<not> f32_lt b c \<Longrightarrow> \<not> f32_lt a c"
  by (auto simp: f32_lt_def)

section \<open>The machine's arithmetic and Eigen's products\<close>

text \<open>
  A compiler may contract a product and the sum it is used in into one fused operation:
  \<open>nvcc\<close> does so by default, a host compiler where the target has the instruction. Whether
  it does, and which product of two it fuses, is a fact of the machine. So the sums of
  products of the source are fields of their own: \<open>f_mad a b c\<close> and \<open>d_mad a b c\<close> are what
  the compiled \<open>a * b + c\<close> gives, \<open>d_msub a b c\<close> is \<open>a * b - c\<close>, \<open>d_mul_add a b c d\<close> is
  \<open>a * b + c * d\<close> and \<open>d_mul_sub a b c d\<close> is \<open>a * b - c * d\<close>, with one rounding or with all.
  The choice is the same wherever an expression of that form is compiled, and a product
  that is used elsewhere too (a score, which is also compared) is rounded by itself.
\<close>

record fpu =
  f_add :: "f32 \<Rightarrow> f32 \<Rightarrow> f32"
  f_mul :: "f32 \<Rightarrow> f32 \<Rightarrow> f32"
  f_div :: "f32 \<Rightarrow> f32 \<Rightarrow> f32"
  f_exp :: "f32 \<Rightarrow> f32"
  f_lround :: "f32 \<Rightarrow> int"
  f_mad :: "f32 \<Rightarrow> f32 \<Rightarrow> f32 \<Rightarrow> f32"
  d_add :: "f64 \<Rightarrow> f64 \<Rightarrow> f64"
  d_sub :: "f64 \<Rightarrow> f64 \<Rightarrow> f64"
  d_mul :: "f64 \<Rightarrow> f64 \<Rightarrow> f64"
  d_div :: "f64 \<Rightarrow> f64 \<Rightarrow> f64"
  d_mad :: "f64 \<Rightarrow> f64 \<Rightarrow> f64 \<Rightarrow> f64"
  d_msub :: "f64 \<Rightarrow> f64 \<Rightarrow> f64 \<Rightarrow> f64"
  d_mul_add :: "f64 \<Rightarrow> f64 \<Rightarrow> f64 \<Rightarrow> f64 \<Rightarrow> f64"
  d_mul_sub :: "f64 \<Rightarrow> f64 \<Rightarrow> f64 \<Rightarrow> f64 \<Rightarrow> f64"
  d_sqrt :: "f64 \<Rightarrow> f64"
  d_exp :: "f64 \<Rightarrow> f64"
  d_pow :: "f64 \<Rightarrow> f64 \<Rightarrow> f64"
  d_cos :: "f64 \<Rightarrow> f64"
  d_sin :: "f64 \<Rightarrow> f64"
  d_of_f :: "f32 \<Rightarrow> f64"
  f_of_d :: "f64 \<Rightarrow> f32"
  d_of_int :: "int \<Rightarrow> f64"

text \<open>
  \<open>mul_nt s i o x w\<close> is Eigen's \<open>xm * wm.transpose()\<close> for a row-major \<open>[s, i]\<close> and an
  \<open>[o, i]\<close> matrix, \<open>mul_nn m k n a b\<close> is \<open>am * bm\<close>, \<open>add_rowwise s o y b\<close> is
  \<open>ym.rowwise() += b\<close>. All return row-major buffers.
\<close>

record eigen =
  mul_nt :: "nat \<Rightarrow> nat \<Rightarrow> nat \<Rightarrow> f32 list \<Rightarrow> f32 list \<Rightarrow> f32 list"
  mul_nn :: "nat \<Rightarrow> nat \<Rightarrow> nat \<Rightarrow> f32 list \<Rightarrow> f32 list \<Rightarrow> f32 list"
  add_rowwise :: "nat \<Rightarrow> nat \<Rightarrow> f32 list \<Rightarrow> f32 list \<Rightarrow> f32 list"

text \<open>
  What the engine relies on when it batches rows: every row of the result is, bit for bit,
  the product of that row of \<open>x\<close> alone, and the sizes are the ones of the result. Eigen
  documents the mathematical product and its size; that the rounding of a row does not
  depend on how many rows are multiplied together is an assumption on the build of Eigen.
  The repository's tests of batched decoding make it too, when they ask for equal tokens.
\<close>

definition mul_nt_rowwise :: "eigen \<Rightarrow> bool" where
  "mul_nt_rowwise E \<longleftrightarrow> (\<forall>s i n x w. length x = s * i \<longrightarrow> length w = n * i \<longrightarrow>
     mul_nt E s i n x w = concat (map (\<lambda>r. mul_nt E 1 i n r w) (rows i s x)))"

definition mul_nt_sized :: "eigen \<Rightarrow> bool" where
  "mul_nt_sized E \<longleftrightarrow> (\<forall>s i n x w. length x = s * i \<longrightarrow> length w = n * i \<longrightarrow>
     length (mul_nt E s i n x w) = s * n)"

definition add_rowwise_rowwise :: "eigen \<Rightarrow> bool" where
  "add_rowwise_rowwise E \<longleftrightarrow> (\<forall>s n y b. length y = s * n \<longrightarrow> length b = n \<longrightarrow>
     add_rowwise E s n y b = concat (map (\<lambda>r. add_rowwise E 1 n r b) (rows n s y)))"

definition add_rowwise_sized :: "eigen \<Rightarrow> bool" where
  "add_rowwise_sized E \<longleftrightarrow> (\<forall>s n y b. length y = s * n \<longrightarrow> length b = n \<longrightarrow>
     length (add_rowwise E s n y b) = s * n)"

definition eigen_rowwise :: "eigen \<Rightarrow> bool" where
  "eigen_rowwise E \<longleftrightarrow>
     mul_nt_rowwise E \<and> mul_nt_sized E \<and> add_rowwise_rowwise E \<and> add_rowwise_sized E"

lemma eigen_mul_rows:
  assumes "eigen_rowwise E" "length x = s * i" "length w = n * i"
  shows "mul_nt E s i n x w = concat (map (\<lambda>r. mul_nt E 1 i n r w) (rows i s x))"
proof -
  have "mul_nt_rowwise E" using assms(1) by (simp add: eigen_rowwise_def)
  then show ?thesis unfolding mul_nt_rowwise_def using assms(2,3) by blast
qed

lemma eigen_mul_len:
  "eigen_rowwise E \<Longrightarrow> length x = i \<Longrightarrow> length w = n * i \<Longrightarrow> length (mul_nt E 1 i n x w) = n"
  by (simp add: eigen_rowwise_def mul_nt_sized_def)

lemma eigen_add_rows:
  assumes "eigen_rowwise E" "length y = s * n" "length b = n"
  shows "add_rowwise E s n y b = concat (map (\<lambda>r. add_rowwise E 1 n r b) (rows n s y))"
proof -
  have "add_rowwise_rowwise E" using assms(1) by (simp add: eigen_rowwise_def)
  then show ?thesis unfolding add_rowwise_rowwise_def using assms(2,3) by blast
qed

lemma eigen_add_len:
  "eigen_rowwise E \<Longrightarrow> length y = n \<Longrightarrow> length b = n \<Longrightarrow> length (add_rowwise E 1 n y b) = n"
  by (simp add: eigen_rowwise_def add_rowwise_sized_def)

end
