(* ===== verification/Tensors.thy ===== *)
theory Tensors
  imports Floats
begin

text \<open>
  \<open>include/engine/tensor.hpp\<close>: the row-major, fp32-backed dense tensor. The shape's
  product is computed without wrap-around: a product that leaves \<open>int64_t\<close> is undefined
  behaviour of the C++.
\<close>

record tensor =
  t_shape :: "int list"
  t_data :: "f32 list"

definition num_elements :: "int list \<Rightarrow> int" where
  "num_elements shape = (if shape = [] then 0 else foldl (\<lambda>n d. n * d) 1 shape)"

definition tensor_empty :: tensor where
  "tensor_empty = \<lparr>t_shape = [], t_data = []\<rparr>"

text \<open>The zero-filled constructor: a negative element count makes the vector throw.\<close>

definition tensor_zeros :: "int list \<Rightarrow> tensor res" where
  "tensor_zeros shape =
     (if num_elements shape < 0 then Inl LengthError
      else Inr \<lparr>t_shape = shape, t_data = replicate (nat (num_elements shape)) 0\<rparr>)"

definition tensor_make :: "int list \<Rightarrow> f32 list \<Rightarrow> tensor res" where
  "tensor_make shape dat =
     (if num_elements shape \<noteq> int (length dat)
      then Inl (InvalidArgument ''Tensor: shape does not match data size'')
      else Inr \<lparr>t_shape = shape, t_data = dat\<rparr>)"

definition ndim :: "tensor \<Rightarrow> nat" where
  "ndim t = length (t_shape t)"

definition dim :: "tensor \<Rightarrow> nat \<Rightarrow> int res" where
  "dim t i = (if i < length (t_shape t) then Inr (t_shape t ! i) else Inl (OutOfRange ''vector::at''))"

definition numel :: "tensor \<Rightarrow> int" where
  "numel t = num_elements (t_shape t)"

text \<open>Every tensor the constructors build holds as many elements as its shape says.\<close>

definition tensor_ok :: "tensor \<Rightarrow> bool" where
  "tensor_ok t \<longleftrightarrow> numel t = int (length (t_data t))"

lemma num_elements_1 [simp]: "num_elements [n] = n"
  by (simp add: num_elements_def)

lemma num_elements_2 [simp]: "num_elements [r, c] = r * c"
  by (simp add: num_elements_def)

lemma num_elements_Nil [simp]: "num_elements [] = 0"
  by (simp add: num_elements_def)

lemma tensor_zeros_ok: "tensor_zeros sh = Inr t \<Longrightarrow> tensor_ok t"
  by (auto simp: tensor_zeros_def tensor_ok_def numel_def split: if_splits)

lemma tensor_make_ok: "tensor_make sh d = Inr t \<Longrightarrow> tensor_ok t"
  by (auto simp: tensor_make_def tensor_ok_def numel_def split: if_splits)

section \<open>Matrices\<close>

text \<open>\<open>mat r c t\<close>: \<open>t\<close> is an \<open>[r, c]\<close> matrix; \<open>trows\<close> are its rows.\<close>

definition mat :: "nat \<Rightarrow> nat \<Rightarrow> tensor \<Rightarrow> bool" where
  "mat r c t \<longleftrightarrow> t_shape t = [int r, int c] \<and> length (t_data t) = r * c"

definition mk_mat :: "nat \<Rightarrow> nat \<Rightarrow> f32 list list \<Rightarrow> tensor" where
  "mk_mat r c xss = \<lparr>t_shape = [int r, int c], t_data = concat xss\<rparr>"

definition trows :: "nat \<Rightarrow> nat \<Rightarrow> tensor \<Rightarrow> f32 list list" where
  "trows r c t = rows c r (t_data t)"

lemma mat_dims [mem_simps]:
  assumes "mat r c t"
  shows "ndim t = 2" "dim t 0 = Inr (int r)" "dim t (Suc 0) = Inr (int c)"
    "numel t = int (r * c)" "t_shape t = [int r, int c]" "length (t_data t) = r * c"
  using assms by (simp_all add: mat_def ndim_def dim_def numel_def)

lemma mat_mk_mat:
  "length xss = r \<Longrightarrow> (\<And>x. x \<in> set xss \<Longrightarrow> length x = c) \<Longrightarrow> mat r c (mk_mat r c xss)"
  by (simp add: mat_def mk_mat_def length_concat_uniform)

lemma trows_mk_mat:
  "length xss = r \<Longrightarrow> (\<And>x. x \<in> set xss \<Longrightarrow> length x = c) \<Longrightarrow> trows r c (mk_mat r c xss) = xss"
  by (simp add: trows_def mk_mat_def rows_concat)

lemma mk_mat_trows: "mat r c t \<Longrightarrow> mk_mat r c (trows r c t) = t"
  by (cases t) (simp add: mat_def mk_mat_def trows_def concat_rows)

lemma length_trows [simp]: "length (trows r c t) = r"
  by (simp add: trows_def)

lemma trows_mem_length: "mat r c t \<Longrightarrow> x \<in> set (trows r c t) \<Longrightarrow> length x = c"
  by (auto simp: trows_def mat_def dest: rows_mem_length[rotated])

lemma tensor_zeros_mat [mem_simps]:
  "tensor_zeros [int r, int c] = Inr \<lparr>t_shape = [int r, int c], t_data = replicate (r * c) 0\<rparr>"
  by (simp add: tensor_zeros_def nat_mult_distrib not_less)

lemma mat_eqI: "mat r c t \<Longrightarrow> mat r c u \<Longrightarrow> trows r c t = trows r c u \<Longrightarrow> t = u"
  by (metis mk_mat_trows)

end
