(* ===== verification/NN.thy ===== *)
theory NN
  imports Tensors
begin

text \<open>
  \<open>nn.cpp\<close>, \<open>matmul.cpp\<close> and \<open>quant.cpp\<close>: the layers of the transformer, on tensors that
  hold as many elements as their shape says. A loop that fills row after row of its output
  is the concatenation of the rows; the order of every floating-point accumulation is the
  one of the source (\<open>foldl\<close>). The second half shows that each layer works row by row,
  which is what lets the engine batch, cache and split sequences.
\<close>

section \<open>Matrix products\<close>

definition matmul :: "eigen \<Rightarrow> tensor \<Rightarrow> tensor \<Rightarrow> tensor res" where
  "matmul E a b =
     (if ndim a \<noteq> 2 \<or> ndim b \<noteq> 2 then Inl (InvalidArgument ''matmul: both operands must be 2D'')
      else res_bind (dim a 0) (\<lambda>m. res_bind (dim a 1) (\<lambda>k. res_bind (dim b 1) (\<lambda>n. res_bind (dim b 0) (\<lambda>k'.
        if k \<noteq> k' then Inl (InvalidArgument ''matmul: inner dimensions disagree'')
        else res_bind (tensor_zeros [m, n]) (\<lambda>out.
          Inr (out\<lparr>t_data := mul_nn E (nat m) (nat k) (nat n) (t_data a) (t_data b)\<rparr>)))))))"

definition linear :: "eigen \<Rightarrow> tensor \<Rightarrow> tensor \<Rightarrow> tensor \<Rightarrow> tensor res" where
  "linear E x weight bias =
     (if ndim x \<noteq> 2 \<or> ndim weight \<noteq> 2 then Inl (InvalidArgument ''linear: x and weight must be 2D'')
      else res_bind (dim x 0) (\<lambda>s. res_bind (dim x 1) (\<lambda>in'. res_bind (dim weight 0) (\<lambda>out.
        res_bind (dim weight 1) (\<lambda>w_in.
        if w_in \<noteq> in' then Inl (InvalidArgument ''linear: weight inner dimension does not match x'')
        else res_bind (tensor_zeros [s, out]) (\<lambda>y.
          let ym = mul_nt E (nat s) (nat in') (nat out) (t_data x) (t_data weight)
          in if numel bias > 0
             then if numel bias \<noteq> out then Inl (InvalidArgument ''linear: bias size does not match output'')
                  else Inr (y\<lparr>t_data := add_rowwise E (nat s) (nat out) ym (t_data bias)\<rparr>)
             else Inr (y\<lparr>t_data := ym\<rparr>)))))))"

section \<open>Row-wise int8 quantization\<close>

record quantized_matrix =
  qm_data :: "8 word list"
  qm_scales :: "f32 list"
  qm_rows :: int
  qm_cols :: int

definition quantize_row :: "fpu \<Rightarrow> f32 list \<Rightarrow> f32 \<times> 8 word list" where
  "quantize_row F xr =
     (let amax = foldl (\<lambda>a x. f32_max a (f32_abs x)) 0 xr;
          scale = (if f32_lt 0 amax then f_div F amax 0x42FE0000 else f32_one);
          inv = f_div F f32_one scale
      in (scale, map (\<lambda>x. let r = f_lround F (f_mul F x inv)
                          in word_of_int (if 127 < r then 127 else if r < -127 then -127 else r)) xr))"

definition quantize_rowwise_int8 :: "fpu \<Rightarrow> tensor \<Rightarrow> quantized_matrix res" where
  "quantize_rowwise_int8 F weight =
     (if ndim weight \<noteq> 2 then Inl (InvalidArgument ''quantize_rowwise_int8: weight must be 2D'')
      else res_bind (dim weight 0) (\<lambda>r. res_bind (dim weight 1) (\<lambda>c.
        let qs = map (quantize_row F) (rows (nat c) (nat r) (t_data weight))
        in Inr \<lparr>qm_data = concat (map snd qs), qm_scales = map fst qs, qm_rows = r, qm_cols = c\<rparr>)))"

definition int8_dot :: "fpu \<Rightarrow> f32 list \<Rightarrow> 8 word list \<Rightarrow> f64" where
  "int8_dot F xr qrow =
     foldl (\<lambda>acc (x, q). d_mad F (d_of_f F x) (d_of_int F (sint q)) acc) 0 (zip xr qrow)"

text \<open>One output row: \<open>bp\<close> is empty when there is no bias.\<close>

definition int8_row :: "fpu \<Rightarrow> quantized_matrix \<Rightarrow> f32 list \<Rightarrow> f32 list \<Rightarrow> f32 list" where
  "int8_row F weight bp xr =
     map (\<lambda>o'. let v = f_mul F (f_of_d F (int8_dot F xr (row (nat (qm_cols weight)) o' (qm_data weight))))
                        (qm_scales weight ! o')
               in if bp = [] then v else f_add F v (bp ! o'))
       [0..<nat (qm_rows weight)]"

definition linear_int8 :: "fpu \<Rightarrow> tensor \<Rightarrow> quantized_matrix \<Rightarrow> tensor \<Rightarrow> tensor res" where
  "linear_int8 F x weight bias =
     (if ndim x \<noteq> 2 then Inl (InvalidArgument ''linear_int8: x must be 2D'')
      else res_bind (dim x 0) (\<lambda>s. res_bind (dim x 1) (\<lambda>in'.
        if in' \<noteq> qm_cols weight then Inl (InvalidArgument ''linear_int8: inner dimension does not match weight'')
        else if 0 < numel bias \<and> numel bias \<noteq> qm_rows weight
        then Inl (InvalidArgument ''linear_int8: bias size does not match output'')
        else res_bind (tensor_zeros [s, qm_rows weight]) (\<lambda>y.
          let bp = (if 0 < numel bias then t_data bias else [])
          in Inr (y\<lparr>t_data := concat (map (int8_row F weight bp) (rows (nat in') (nat s) (t_data x)))\<rparr>)))))"

section \<open>Norm, activation, embedding\<close>

definition rms_row :: "fpu \<Rightarrow> f32 list \<Rightarrow> f64 \<Rightarrow> f32 list \<Rightarrow> f32 list" where
  "rms_row F wp eps xr =
     (let sum_sq = foldl (\<lambda>a x. d_mad F (d_of_f F x) (d_of_f F x) a) 0 xr;
          scale = d_div F f64_one (d_sqrt F (d_add F (d_div F sum_sq (d_of_int F (int (length xr)))) eps))
      in map2 (\<lambda>x w. f_mul F (f_of_d F (d_mul F (d_of_f F x) scale)) w) xr wp)"

definition rms_norm :: "fpu \<Rightarrow> tensor \<Rightarrow> tensor \<Rightarrow> f64 \<Rightarrow> tensor res" where
  "rms_norm F x weight eps =
     (if ndim x \<noteq> 2 then Inl (InvalidArgument ''rms_norm: x must be 2D'')
      else res_bind (dim x 0) (\<lambda>s. res_bind (dim x 1) (\<lambda>h.
        if numel weight \<noteq> h then Inl (InvalidArgument ''rms_norm: weight size does not match hidden dim'')
        else res_bind (tensor_zeros [s, h]) (\<lambda>out.
          Inr (out\<lparr>t_data := concat (map (rms_row F (t_data weight) eps) (rows (nat h) (nat s) (t_data x)))\<rparr>)))))"

definition silu :: "fpu \<Rightarrow> f32 \<Rightarrow> f32 \<Rightarrow> f32" where
  "silu F x u = f_mul F (f_div F x (f_add F f32_one (f_exp F (f32_neg x)))) u"

definition silu_mul :: "fpu \<Rightarrow> tensor \<Rightarrow> tensor \<Rightarrow> tensor res" where
  "silu_mul F gate up =
     (if t_shape gate \<noteq> t_shape up then Inl (InvalidArgument ''silu_mul: gate and up shapes must match'')
      else res_bind (tensor_zeros (t_shape gate)) (\<lambda>out.
        Inr (out\<lparr>t_data := map2 (silu F) (t_data gate) (t_data up)\<rparr>)))"

definition embedding :: "tensor \<Rightarrow> int list \<Rightarrow> tensor res" where
  "embedding weight ids =
     (if ndim weight \<noteq> 2 then Inl (InvalidArgument ''embedding: weight must be 2D'')
      else res_bind (dim weight 0) (\<lambda>vocab. res_bind (dim weight 1) (\<lambda>h.
        res_bind (tensor_zeros [int (length ids), h]) (\<lambda>out.
        res_bind (res_mapM (\<lambda>tok. if tok < 0 \<or> vocab \<le> tok
                                  then Inl (OutOfRange ''embedding: token id out of range'')
                                  else Inr (row (nat h) (nat tok) (t_data weight))) ids) (\<lambda>rs.
          Inr (out\<lparr>t_data := concat rs\<rparr>))))))"

definition add_inplace :: "fpu \<Rightarrow> tensor \<Rightarrow> tensor \<Rightarrow> tensor res" where
  "add_inplace F x y =
     (if length (t_data y) < length (t_data x) then Inl Undefined
      else Inr (x\<lparr>t_data := map2 (f_add F) (t_data x) (t_data y)\<rparr>))"

section \<open>Rotary positions\<close>

definition inv_freq :: "fpu \<Rightarrow> f64 \<Rightarrow> int \<Rightarrow> nat \<Rightarrow> f64 list" where
  "inv_freq F theta head_dim half =
     map (\<lambda>i. d_pow F theta (d_div F (d_mul F f64_minus_two (d_of_int F (int i))) (d_of_int F head_dim))) [0..<half]"

text \<open>The rotation of one head at one position, in place: pair \<open>(i, i + half)\<close> for each \<open>i\<close>.\<close>

definition rope_pair :: "fpu \<Rightarrow> f64 list \<Rightarrow> nat \<Rightarrow> f64 \<Rightarrow> f32 list \<Rightarrow> nat \<Rightarrow> f32 list" where
  "rope_pair F freqs half pos head i =
     (let ang = d_mul F pos (freqs ! i); c = d_cos F ang; sn = d_sin F ang;
          x1 = head ! i; x2 = head ! (i + half)
      in head[i := f_of_d F (d_mul_sub F (d_of_f F x1) c (d_of_f F x2) sn),
              i + half := f_of_d F (d_mul_add F (d_of_f F x2) c (d_of_f F x1) sn)])"

definition rope_head :: "fpu \<Rightarrow> f64 list \<Rightarrow> nat \<Rightarrow> f64 \<Rightarrow> f32 list \<Rightarrow> f32 list" where
  "rope_head F freqs half pos head = foldl (rope_pair F freqs half pos) head [0..<half]"

definition rope_row :: "fpu \<Rightarrow> int \<Rightarrow> int \<Rightarrow> f64 \<Rightarrow> int \<Rightarrow> f32 list \<Rightarrow> f32 list" where
  "rope_row F n_heads head_dim theta pos xr =
     (let half = nat (head_dim sdiv 2)
      in concat (map (rope_head F (inv_freq F theta head_dim half) half (d_of_int F pos))
                   (rows (nat head_dim) (nat n_heads) xr)))"

definition rope_inplace :: "fpu \<Rightarrow> tensor \<Rightarrow> int \<Rightarrow> int \<Rightarrow> f64 \<Rightarrow> int list \<Rightarrow> tensor res" where
  "rope_inplace F x n_heads head_dim theta positions =
     (if ndim x \<noteq> 2 then Inl (InvalidArgument ''rope: x must be [S, n_heads*head_dim]'')
      else res_bind (dim x 1) (\<lambda>w.
        if w \<noteq> n_heads * head_dim then Inl (InvalidArgument ''rope: x must be [S, n_heads*head_dim]'')
        else res_bind (dim x 0) (\<lambda>s.
          if int (length positions) \<noteq> s
          then Inl (InvalidArgument ''rope: positions size must match sequence length'')
          else if head_dim sdiv 2 < 0 then Inl LengthError
          else if head_dim sdiv 2 = 0 then Inr x
          else Inr (x\<lparr>t_data := concat (map2 (rope_row F n_heads head_dim theta) positions
                                   (rows (nat w) (nat s) (t_data x)))\<rparr>))))"

section \<open>Attention\<close>

definition dot :: "fpu \<Rightarrow> f32 list \<Rightarrow> f32 list \<Rightarrow> f64" where
  "dot F q k = foldl (\<lambda>acc (x, y). d_mad F (d_of_f F x) (d_of_f F y) acc) 0 (zip q k)"

text \<open>One query vector of one head over the keys and values it may see, \<open>j = 0 .. last\<close>.\<close>

definition attn_head :: "fpu \<Rightarrow> f64 \<Rightarrow> nat \<Rightarrow> f32 list \<Rightarrow> f32 list list \<Rightarrow> f32 list list \<Rightarrow> f32 list" where
  "attn_head F scale head_dim qvec kvecs vvecs =
     (let scores = map (\<lambda>kvec. d_mul F (dot F qvec kvec) scale) kvecs;
          max_score = foldl f64_max f64_minus_inf scores;
          es = map (\<lambda>s. d_exp F (d_sub F s max_score)) scores;
          sum = foldl (d_add F) 0 es;
          inv_sum = d_div F f64_one sum;
          acc = foldl (\<lambda>acc (e, vvec). let p = d_mul F e inv_sum
                                         in map2 (\<lambda>a x. d_mad F p (d_of_f F x) a) acc vvec)
                  (replicate head_dim 0) (zip es vvecs)
      in map (f_of_d F) acc)"

text \<open>One query row: its heads, each reading the columns of its key/value head.\<close>

definition attn_row ::
    "fpu \<Rightarrow> int \<Rightarrow> int \<Rightarrow> int \<Rightarrow> f32 list \<Rightarrow> f32 list list \<Rightarrow> f32 list list \<Rightarrow> f32 list" where
  "attn_row F n_heads n_kv_heads head_dim qr krows vrows =
     (let group = n_heads sdiv n_kv_heads;
          scale = d_div F f64_one (d_sqrt F (d_of_int F head_dim));
          hd = nat head_dim
      in concat (map (\<lambda>h. let kvh = nat (int h sdiv group)
                          in attn_head F scale hd (row hd h qr) (map (row hd kvh) krows) (map (row hd kvh) vrows))
                   [0..<nat n_heads]))"

definition attention ::
    "fpu \<Rightarrow> tensor \<Rightarrow> tensor \<Rightarrow> tensor \<Rightarrow> int \<Rightarrow> int \<Rightarrow> int \<Rightarrow> int \<Rightarrow> tensor res" where
  "attention F q k v n_heads n_kv_heads head_dim query_offset =
     res_bind (dim q 0) (\<lambda>q_len. res_bind (dim k 0) (\<lambda>total. res_bind (dim q 1) (\<lambda>q1.
     if q1 \<noteq> n_heads * head_dim then Inl (InvalidArgument ''attention: q must be [q_len, n_heads*head_dim]'')
     else res_bind (dim v 0) (\<lambda>v0. res_bind (dim k 1) (\<lambda>k1. res_bind (dim v 1) (\<lambda>v1.
     if v0 \<noteq> total \<or> k1 \<noteq> n_kv_heads * head_dim \<or> v1 \<noteq> n_kv_heads * head_dim
     then Inl (InvalidArgument ''attention: k/v shape mismatch'')
     else if n_kv_heads = 0 \<or> n_heads smod n_kv_heads \<noteq> 0
     then Inl (InvalidArgument ''attention: n_heads must be a multiple of n_kv_heads'')
     else if query_offset < 0 \<or> total < query_offset + q_len
     then Inl (InvalidArgument ''attention: query_offset + q_len exceeds key length'')
     else if head_dim < 0 then Inl LengthError
     else res_bind (tensor_zeros [q_len, n_heads * head_dim]) (\<lambda>out.
       let krows = rows (nat k1) (nat total) (t_data k); vrows = rows (nat v1) (nat total) (t_data v)
       in Inr (out\<lparr>t_data := concat (map (\<lambda>i.
              let n_keys = nat query_offset + i + 1
              in attn_row F n_heads n_kv_heads head_dim (row (nat q1) i (t_data q)) (take n_keys krows) (take n_keys vrows))
            [0..<nat q_len])\<rparr>))))))))"

end
