(* ===== verification/Paging.thy ===== *)
theory Paging
  imports Tensors
begin

text \<open>
  The paged layout. A store holds \<open>num_blocks * block_size\<close> rows of \<open>kv_dim\<close> floats; a
  block table maps the logical row \<open>r\<close> to the physical row
  \<open>table[r / block_size] * block_size + r % block_size\<close>. \<open>PagedKVCache\<close> and
  \<open>BlockManager\<close> contain the same write and gather loops over this layout; they are
  defined here once. The lemmas give the two loops in terms of the rows of the store.
\<close>

section \<open>The loops\<close>

definition slot_offset :: "int \<Rightarrow> int \<Rightarrow> int list \<Rightarrow> int \<Rightarrow> int res" where
  "slot_offset block_size kv_dim table logical =
     res_bind (vec_get table (logical sdiv block_size)) (\<lambda>block.
       Inr ((block * block_size + logical smod block_size) * kv_dim))"

definition paged_write ::
    "int \<Rightarrow> int \<Rightarrow> int list \<Rightarrow> f32 list \<Rightarrow> int \<Rightarrow> f32 list \<Rightarrow> int \<Rightarrow> f32 list res" where
  "paged_write block_size kv_dim table store start src n =
     res_fold (\<lambda>r store.
       res_bind (slot_offset block_size kv_dim table (start + int r)) (\<lambda>off.
         memcpy store off src (int r * kv_dim) kv_dim)) [0..<nat n] store"

definition paged_gather :: "int \<Rightarrow> int \<Rightarrow> int list \<Rightarrow> f32 list \<Rightarrow> int \<Rightarrow> tensor res" where
  "paged_gather block_size kv_dim table store n_rows =
     res_bind (tensor_zeros [n_rows, kv_dim]) (\<lambda>out.
       res_fold (\<lambda>r out.
         res_bind (slot_offset block_size kv_dim table (int r)) (\<lambda>off.
           res_bind (memcpy (t_data out) (int r * kv_dim) store off kv_dim) (\<lambda>d.
             Inr (out\<lparr>t_data := d\<rparr>)))) [0..<nat n_rows] out)"

section \<open>Physical rows\<close>

definition phys :: "nat \<Rightarrow> int list \<Rightarrow> nat \<Rightarrow> nat" where
  "phys bs table r = nat (table ! (r div bs)) * bs + r mod bs"

definition table_ok :: "nat \<Rightarrow> int list \<Rightarrow> bool" where
  "table_ok nb table \<longleftrightarrow> (\<forall>b \<in> set table. 0 \<le> b \<and> b < int nb)"

text \<open>What a table holds: the rows a sequence sees, in logical order.\<close>

definition seq_rows :: "nat \<Rightarrow> nat \<Rightarrow> int list \<Rightarrow> f32 list \<Rightarrow> nat \<Rightarrow> f32 list list" where
  "seq_rows bs kv table store n = map (\<lambda>r. row kv (phys bs table r) store) [0..<n]"

lemma length_seq_rows [simp]: "length (seq_rows bs kv table store n) = n"
  by (simp add: seq_rows_def)

lemma nth_seq_rows [simp]: "r < n \<Longrightarrow> seq_rows bs kv table store n ! r = row kv (phys bs table r) store"
  by (simp add: seq_rows_def)

lemma take_seq_rows: "k \<le> n \<Longrightarrow> take k (seq_rows bs kv table store n) = seq_rows bs kv table store k"
  by (simp add: seq_rows_def take_map)

lemma row_index_lt: "0 < bs \<Longrightarrow> r < length table * bs \<Longrightarrow> r div bs < length table"
  by (simp add: less_mult_imp_div_less)

lemma phys_lt:
  assumes "table_ok nb table" "0 < bs" "r < length table * bs"
  shows "phys bs table r < nb * bs"
proof -
  from row_index_lt[OF assms(2,3)] have i: "r div bs < length table" .
  then have "table ! (r div bs) \<in> set table" by simp
  then have "nat (table ! (r div bs)) < nb" using assms(1) by (auto simp: table_ok_def)
  then have "nat (table ! (r div bs)) * bs + bs \<le> nb * bs" by (rule row_in_bounds) simp
  moreover have "r mod bs < bs" using assms(2) by simp
  ultimately show ?thesis by (simp add: phys_def)
qed

lemma phys_block: "0 < bs \<Longrightarrow> phys bs table r div bs = nat (table ! (r div bs))"
  by (simp add: phys_def)

lemma phys_slot: "0 < bs \<Longrightarrow> phys bs table r mod bs = r mod bs"
  by (simp add: phys_def)

lemma phys_append1:
  "0 < bs \<Longrightarrow> r < length table * bs \<Longrightarrow> phys bs (table @ ys) r = phys bs table r"
  by (simp add: phys_def nth_append row_index_lt)

lemma seq_rows_append_table:
  assumes "0 < bs" "n \<le> length table * bs"
  shows "seq_rows bs kv (table @ ys) store n = seq_rows bs kv table store n"
  by (rule nth_equalityI) (use assms in \<open>auto simp: phys_append1\<close>)

text \<open>Two logical rows share a physical row only in the same block and slot.\<close>

lemma phys_eq_iff:
  assumes "0 < bs" "table_ok nb table" "table_ok nb table'"
    and "r < length table * bs" "r' < length table' * bs"
  shows "phys bs table r = phys bs table' r' \<longleftrightarrow>
    table ! (r div bs) = table' ! (r' div bs) \<and> r mod bs = r' mod bs"
proof
  assume eq: "phys bs table r = phys bs table' r'"
  have "nat (table ! (r div bs)) = nat (table' ! (r' div bs))"
    using arg_cong[OF eq, of "\<lambda>p. p div bs"] assms(1) by (simp add: phys_block)
  moreover have "0 \<le> table ! (r div bs)" "0 \<le> table' ! (r' div bs)"
    using row_index_lt[OF assms(1,4)] row_index_lt[OF assms(1,5)] assms(2,3)
    by (simp_all add: table_ok_def)
  moreover have "r mod bs = r' mod bs"
    using arg_cong[OF eq, of "\<lambda>p. p mod bs"] assms(1) by (simp add: phys_slot)
  ultimately show "table ! (r div bs) = table' ! (r' div bs) \<and> r mod bs = r' mod bs" by simp
next
  assume "table ! (r div bs) = table' ! (r' div bs) \<and> r mod bs = r' mod bs"
  then show "phys bs table r = phys bs table' r'" by (simp add: phys_def)
qed

text \<open>From position \<open>s\<close> on, the blocks of the table occur once in it.\<close>

definition once_from :: "nat \<Rightarrow> int list \<Rightarrow> bool" where
  "once_from s table \<longleftrightarrow> (\<forall>i k. s \<le> i \<longrightarrow> i < length table \<longrightarrow> k < length table \<longrightarrow> table ! k = table ! i \<longrightarrow> k = i)"

lemma distinct_once_from: "distinct table \<Longrightarrow> once_from s table"
  by (simp add: once_from_def nth_eq_iff_index_eq)

lemma phys_inj_from:
  assumes "0 < bs" "table_ok nb table" "once_from (s div bs) table" "s \<le> r"
    and "r < length table * bs" "r' < length table * bs" "phys bs table r = phys bs table r'"
  shows "r = r'"
proof -
  from phys_eq_iff[OF assms(1,2,2,5,6)] assms(7)
  have "table ! (r div bs) = table ! (r' div bs)" "r mod bs = r' mod bs" by auto
  then have "r' div bs = r div bs"
    using assms(3) row_index_lt[OF assms(1,5)] row_index_lt[OF assms(1,6)] div_le_mono[OF assms(4), of bs]
    by (simp add: once_from_def)
  with \<open>r mod bs = r' mod bs\<close> show ?thesis by (metis div_mult_mod_eq)
qed

section \<open>What the loops do\<close>

lemma slot_offset_ok:
  assumes "0 < bs" "table_ok nb table" "r < length table * bs"
  shows "slot_offset (int bs) (int kv) table (int r) = Inr (int (phys bs table r * kv))"
proof -
  have "0 \<le> table ! (r div bs)"
    using assms(2) row_index_lt[OF assms(1,3)] by (simp add: table_ok_def)
  then show ?thesis
    using assms row_index_lt[OF assms(1,3)]
    by (simp add: slot_offset_def vec_get_nat phys_def algebra_simps flip: of_nat_div of_nat_mod)
qed

lemma paged_write_step:
  assumes "0 < bs" "table_ok nb table" "r < length table * bs" "length store = nb * bs * kv"
    and "length src = n * kv" "i < n"
  shows "res_bind (slot_offset (int bs) (int kv) table (int r)) (\<lambda>off.
           memcpy store off src (int i * int kv) (int kv))
       = Inr (blit (phys bs table r * kv) (row kv i src) store)"
proof -
  have "phys bs table r * kv + kv \<le> length store"
    using phys_lt[OF assms(2,1,3)] assms(4) by (metis row_in_bounds order_refl)
  moreover have "i * kv + kv \<le> length src" using assms(5,6) by (metis row_in_bounds order_refl)
  ultimately show ?thesis
    using memcpy_ok[of "phys bs table r * kv" kv store "i * kv" src]
    by (simp add: slot_offset_ok[OF assms(1-3)] row_def)
qed

text \<open>
  Writing \<open>n\<close> rows at logical row \<open>start\<close> of a table whose physical rows are distinct
  there: each written row holds its source row, every other row of the store is kept.
\<close>

lemma paged_write_ok:
  assumes "0 < bs" "table_ok nb table" "start + n \<le> length table * bs"
    and "length store = nb * bs * kv" "length src = n * kv"
    and inj: "\<And>i j. i < n \<Longrightarrow> j < n \<Longrightarrow> phys bs table (start + i) = phys bs table (start + j) \<Longrightarrow> i = j"
  shows "\<exists>store'. paged_write (int bs) (int kv) table store (int start) src (int n) = Inr store'
    \<and> length store' = length store
    \<and> (\<forall>i < n. row kv (phys bs table (start + i)) store' = row kv i src)
    \<and> (\<forall>p < nb * bs. (\<forall>i < n. p \<noteq> phys bs table (start + i)) \<longrightarrow> row kv p store' = row kv p store)"
proof -
  let ?P = "\<lambda>k (st :: f32 list). length st = length store
    \<and> (\<forall>i < k. row kv (phys bs table (start + i)) st = row kv i src)
    \<and> (\<forall>p < nb * bs. (\<forall>i < k. p \<noteq> phys bs table (start + i)) \<longrightarrow> row kv p st = row kv p store)"
  let ?f = "\<lambda>r st. res_bind (slot_offset (int bs) (int kv) table (int start + int r)) (\<lambda>off.
         memcpy st off src (int r * int kv) (int kv))"
  have "\<exists>u. res_fold ?f [0..<n] store = Inr u \<and> ?P n u"
  proof (rule res_fold_upt_ok[where P = ?P])
    show "?P 0 store" by simp
  next
    fix i st assume i: "i < n" and P: "?P i st"
    have r: "start + i < length table * bs" using assms(3) i by simp
    let ?st = "blit (phys bs table (start + i) * kv) (row kv i src) st"
    have len: "length st = nb * bs * kv" using P assms(4) by simp
    have f: "?f i st = Inr ?st"
      using paged_write_step[OF assms(1,2) r len assms(5) i] by simp
    have lrow: "length (row kv i src) = kv" using assms(5) i length_row[of n kv src i] by simp
    have plt: "phys bs table (start + i) < nb * bs" by (rule phys_lt[OF assms(2,1) r])
    have "phys bs table (start + i) * kv + kv \<le> length st"
      using plt len by (metis row_in_bounds order_refl)
    then have lst: "length ?st = length st" using lrow by simp
    have same: "row kv (phys bs table (start + i)) ?st = row kv i src"
      using row_blit_same[of "nb * bs" kv st] len plt lrow by simp
    have other: "row kv p ?st = row kv p st" if "p \<noteq> phys bs table (start + i)" for p
      using row_blit_other[of "nb * bs" kv st] len plt lrow that by simp
    have "row kv (phys bs table (start + j)) ?st = row kv j src" if "j < Suc i" for j
    proof (cases "j = i")
      case True
      then show ?thesis using same by simp
    next
      case False
      then have "j < i" using that by simp
      moreover have "phys bs table (start + j) \<noteq> phys bs table (start + i)"
        using inj[of j i] i \<open>j < i\<close> by auto
      ultimately show ?thesis using other P by simp
    qed
    moreover have "row kv p ?st = row kv p store"
      if "p < nb * bs" "\<forall>j < Suc i. p \<noteq> phys bs table (start + j)" for p
      using other[of p] P that by (simp add: less_Suc_eq)
    ultimately have "?P (Suc i) ?st" using lst P by simp
    with f show "\<exists>u'. ?f i st = Inr u' \<and> ?P (Suc i) u'" by blast
  qed
  then show ?thesis by (simp add: paged_write_def)
qed

lemma paged_gather_ok:
  assumes "0 < bs" "table_ok nb table" "n \<le> length table * bs" "length store = nb * bs * kv"
  shows "paged_gather (int bs) (int kv) table store (int n) = Inr (mk_mat n kv (seq_rows bs kv table store n))"
proof -
  let ?z = "\<lparr>t_shape = [int n, int kv], t_data = replicate (n * kv) (0 :: f32)\<rparr>"
  let ?P = "\<lambda>k out. t_shape out = [int n, int kv] \<and> length (t_data out) = n * kv
    \<and> (\<forall>i < k. row kv i (t_data out) = row kv (phys bs table i) store)"
  let ?f = "\<lambda>r out. res_bind (slot_offset (int bs) (int kv) table (int r)) (\<lambda>off.
           res_bind (memcpy (t_data out) (int r * int kv) store off (int kv)) (\<lambda>d.
             Inr (out\<lparr>t_data := d\<rparr>)))"
  have "\<exists>u. res_fold ?f [0..<n] ?z = Inr u \<and> ?P n u"
  proof (rule res_fold_upt_ok[where P = ?P])
    show "?P 0 ?z" by simp
  next
    fix i and out :: tensor assume i: "i < n" and P: "?P i out"
    have r: "i < length table * bs" using assms(3) i by simp
    have plt: "phys bs table i < nb * bs" by (rule phys_lt[OF assms(2,1) r])
    have "phys bs table i * kv + kv \<le> length store" using plt assms(4) by (metis row_in_bounds order_refl)
    moreover have ib: "i * kv + kv \<le> length (t_data out)" using i P by (metis row_in_bounds order_refl)
    ultimately have f: "?f i out = Inr (out\<lparr>t_data := blit (i * kv) (row kv (phys bs table i) store) (t_data out)\<rparr>)"
      using memcpy_ok[of "i * kv" kv "t_data out" "phys bs table i * kv" store]
      by (simp add: slot_offset_ok[OF assms(1,2) r] row_def)
    let ?d = "blit (i * kv) (row kv (phys bs table i) store) (t_data out)"
    have lrow: "length (row kv (phys bs table i) store) = kv"
      using plt assms(4) by (simp add: length_row[of "nb * bs"])
    have ld: "length ?d = n * kv" using ib lrow P by simp
    have "row kv j ?d = row kv (phys bs table j) store" if "j < Suc i" for j
    proof (cases "j = i")
      case True
      then show ?thesis using row_blit_same[of n kv "t_data out"] i P lrow by simp
    next
      case False
      then show ?thesis using row_blit_other[of n kv "t_data out" i] i P lrow that by simp
    qed
    with P ld f show "\<exists>u'. ?f i out = Inr u' \<and> ?P (Suc i) u'" by simp
  qed
  then obtain u where u: "res_fold ?f [0..<n] ?z = Inr u" "?P n u" by blast
  have "rows kv n (t_data u) = seq_rows bs kv table store n"
    using u(2) by (simp add: rows_def seq_rows_def)
  then have "t_data u = concat (seq_rows bs kv table store n)"
    using concat_rows[of "t_data u" n kv] u(2) by simp
  then have "u = mk_mat n kv (seq_rows bs kv table store n)"
    using u(2) by (cases u) (simp add: mk_mat_def)
  with u(1) show ?thesis by (simp add: paged_gather_def tensor_zeros_mat)
qed

text \<open>The two together: what is written at \<open>start\<close> extends what the table held before.\<close>

lemma paged_write_seq_rows:
  assumes "0 < bs" "table_ok nb table" "once_from (start div bs) table" "start + n \<le> length table * bs"
    and "length store = nb * bs * kv" "length src = n * kv"
  shows "\<exists>store'. paged_write (int bs) (int kv) table store (int start) src (int n) = Inr store'
    \<and> length store' = length store
    \<and> seq_rows bs kv table store' (start + n) = seq_rows bs kv table store start @ rows kv n src
    \<and> (\<forall>p < nb * bs. (\<forall>i < n. p \<noteq> phys bs table (start + i)) \<longrightarrow> row kv p store' = row kv p store)"
proof -
  have inj: "i = j" if "i < n" "j < n" "phys bs table (start + i) = phys bs table (start + j)" for i j
    using phys_inj_from[OF assms(1,2,3), of "start + i" "start + j"] that assms(4) by simp
  obtain store' where s: "paged_write (int bs) (int kv) table store (int start) src (int n) = Inr store'"
      "length store' = length store"
      "\<forall>i < n. row kv (phys bs table (start + i)) store' = row kv i src"
      "\<forall>p < nb * bs. (\<forall>i < n. p \<noteq> phys bs table (start + i)) \<longrightarrow> row kv p store' = row kv p store"
    using paged_write_ok[OF assms(1,2,4,5,6) inj] by blast
  have "seq_rows bs kv table store' (start + n) ! r = (seq_rows bs kv table store start @ rows kv n src) ! r"
    if r: "r < start + n" for r
  proof (cases "r < start")
    case True
    have "phys bs table r \<noteq> phys bs table (start + i)" if "i < n" for i
      using phys_inj_from[OF assms(1,2,3), of "start + i" r] that True assms(4) by auto
    then show ?thesis using s(4) r True phys_lt[OF assms(2,1), of r] assms(4) by (simp add: nth_append)
  next
    case False
    then show ?thesis using s(3)[rule_format, of "r - start"] r by (simp add: nth_append)
  qed
  then have "seq_rows bs kv table store' (start + n) = seq_rows bs kv table store start @ rows kv n src"
    by (intro nth_equalityI) simp_all
  with s show ?thesis by blast
qed

text \<open>A write is invisible through a table that shares none of the written blocks.\<close>

lemma seq_rows_frame:
  assumes "0 < bs" "table_ok nb table" "table_ok nb table'" "start + n \<le> length table * bs"
    and "m \<le> length table' * bs"
    and frame: "\<forall>p < nb * bs. (\<forall>i < n. p \<noteq> phys bs table (start + i)) \<longrightarrow> row kv p store' = row kv p store"
    and sep: "\<And>i r. i < n \<Longrightarrow> r < m \<Longrightarrow> table ! ((start + i) div bs) \<noteq> table' ! (r div bs)"
  shows "seq_rows bs kv table' store' m = seq_rows bs kv table' store m"
proof (rule nth_equalityI)
  fix r assume "r < length (seq_rows bs kv table' store' m)"
  then have r: "r < m" by simp
  have "phys bs table' r \<noteq> phys bs table (start + i)" if "i < n" for i
    using phys_eq_iff[OF assms(1,3,2), of r "start + i"] sep[OF that r] r that assms(4,5) by auto
  moreover have "phys bs table' r < nb * bs" using phys_lt[OF assms(3,1)] r assms(5) by simp
  ultimately show "seq_rows bs kv table' store' m ! r = seq_rows bs kv table' store m ! r"
    using frame r by simp
qed simp

end
