(* ===== verification/Block_Allocator.thy ===== *)
theory Block_Allocator
  imports Prelude
begin

text \<open>
  \<open>include/engine/block_allocator.hpp\<close>: the fixed pool of physical KV blocks with
  reference counts. \<open>free_list\<close> is the vector \<open>free_list_\<close> (its back is the last
  element), \<open>ref_counts\<close> is \<open>ref_count_\<close>. The locale \<open>block_pool\<close> is the contract the
  caches rely on; \<open>BlockAllocator\<close> is its first instance.
\<close>

section \<open>The allocator\<close>

record block_allocator =
  free_list :: "int list"
  ref_counts :: "int list"

text \<open>
  The constructor. The member initialiser builds \<open>ref_count_\<close> from the cast of
  \<open>num_blocks\<close> before the body tests the sign, so a negative count asks for at least
  \<open>2 ^ 63\<close> elements and the vector throws \<open>std::length_error\<close>; the test is never reached.
\<close>

definition allocator_new :: "int \<Rightarrow> block_allocator res" where
  "allocator_new num_blocks =
     (if num_blocks < 0 then Inl LengthError
      else Inr \<lparr>free_list = rev (map int [0..<nat num_blocks]),
                ref_counts = replicate (nat num_blocks) 0\<rparr>)"

definition num_blocks :: "block_allocator \<Rightarrow> int" where
  "num_blocks a = int (length (ref_counts a))"

definition num_free :: "block_allocator \<Rightarrow> int" where
  "num_free a = int (length (free_list a))"

definition allocate :: "block_allocator \<Rightarrow> (int \<times> block_allocator) res" where
  "allocate a =
     (if free_list a = [] then Inl (RuntimeError ''BlockAllocator: out of blocks'')
      else let b = last (free_list a)
           in res_bind (vec_set (ref_counts a) b 1)
                (\<lambda>rc. Inr (b, a\<lparr>free_list := butlast (free_list a), ref_counts := rc\<rparr>)))"

definition incref :: "int \<Rightarrow> block_allocator \<Rightarrow> block_allocator res" where
  "incref block a =
     res_bind (vec_get (ref_counts a) block) (\<lambda>rc.
       if rc = 0 then Inl (RuntimeError ''BlockAllocator: incref on a free block'')
       else res_bind (vec_set (ref_counts a) block (rc + 1)) (\<lambda>rcs. Inr (a\<lparr>ref_counts := rcs\<rparr>)))"

definition free :: "int \<Rightarrow> block_allocator \<Rightarrow> block_allocator res" where
  "free block a =
     res_bind (vec_get (ref_counts a) block) (\<lambda>rc.
       if rc = 0 then Inl (RuntimeError ''BlockAllocator: double free'')
       else res_bind (vec_set (ref_counts a) block (rc - 1)) (\<lambda>rcs.
         Inr (a\<lparr>ref_counts := rcs,
                free_list := (if rc - 1 = 0 then free_list a @ [block] else free_list a)\<rparr>)))"

definition ref_count :: "block_allocator \<Rightarrow> int \<Rightarrow> int res" where
  "ref_count a block = vec_get (ref_counts a) block"

section \<open>The contract of a pool\<close>

text \<open>
  What a client of a block pool relies on: \<open>refs\<close> counts the references a block has,
  \<open>avail\<close> how many allocations succeed from now on. An allocated block had no
  reference and gets one; releasing a held block drops one reference.
\<close>

locale block_pool =
  fixes alloc :: "'s \<Rightarrow> (int \<times> 's) res"
    and release :: "int \<Rightarrow> 's \<Rightarrow> 's res"
    and refs :: "'s \<Rightarrow> int \<Rightarrow> nat"
    and avail :: "'s \<Rightarrow> nat"
    and capacity :: "'s \<Rightarrow> nat"
    and inv :: "'s \<Rightarrow> bool"
  assumes alloc_some: "inv s \<Longrightarrow> 0 < avail s \<Longrightarrow>
      \<exists>b s'. alloc s = Inr (b, s') \<and> inv s' \<and> 0 \<le> b \<and> b < int (capacity s) \<and> capacity s' = capacity s
        \<and> refs s b = 0 \<and> refs s' = (refs s)(b := 1) \<and> avail s' = avail s - 1"
    and alloc_none: "inv s \<Longrightarrow> avail s = 0 \<Longrightarrow> \<exists>e. alloc s = Inl e"
    and release_held: "inv s \<Longrightarrow> 0 < refs s b \<Longrightarrow>
      \<exists>s'. release b s = Inr s' \<and> inv s' \<and> capacity s' = capacity s
        \<and> refs s' = (refs s)(b := refs s b - 1) \<and> avail s \<le> avail s'"

text \<open>A pool whose references can be shared.\<close>

locale counted_pool = block_pool +
  fixes share :: "int \<Rightarrow> 's \<Rightarrow> 's res"
  assumes share_held: "inv s \<Longrightarrow> 0 < refs s b \<Longrightarrow>
      \<exists>s'. share b s = Inr s' \<and> inv s' \<and> capacity s' = capacity s
        \<and> refs s' = (refs s)(b := Suc (refs s b)) \<and> avail s' = avail s"

text \<open>
  The loops of the clients: \<open>while (table.size() < need) table.push_back(allocate())\<close>,
  which runs \<open>need - size\<close> times, and the release of every block of a table.
\<close>

fun grow :: "('s \<Rightarrow> (int \<times> 's) res) \<Rightarrow> nat \<Rightarrow> int list \<Rightarrow> 's \<Rightarrow> (int list \<times> 's) res" where
  "grow alloc 0 table s = Inr (table, s)"
| "grow alloc (Suc k) table s = res_bind (alloc s) (\<lambda>(b, s'). grow alloc k (table @ [b]) s')"

definition grow_to :: "('s \<Rightarrow> (int \<times> 's) res) \<Rightarrow> int \<Rightarrow> int list \<Rightarrow> 's \<Rightarrow> (int list \<times> 's) res" where
  "grow_to alloc need table s = grow alloc (nat (need - int (length table))) table s"

context block_pool
begin

text \<open>Growing by \<open>k\<close> within the available blocks appends \<open>k\<close> fresh, distinct blocks.\<close>

lemma grow_some:
  assumes "inv s" and "k \<le> avail s"
  shows "\<exists>new s'. grow alloc k table s = Inr (table @ new, s') \<and> length new = k \<and> distinct new
    \<and> (\<forall>b \<in> set new. refs s b = 0 \<and> 0 \<le> b \<and> b < int (capacity s))
    \<and> inv s' \<and> capacity s' = capacity s \<and> avail s' = avail s - k
    \<and> refs s' = (\<lambda>b. if b \<in> set new then 1 else refs s b)"
  using assms
proof (induction k arbitrary: table s)
  case 0
  then show ?case by auto
next
  case (Suc k)
  then obtain b s1 where b: "alloc s = Inr (b, s1)" "inv s1" "0 \<le> b" "b < int (capacity s)"
      "capacity s1 = capacity s" "refs s b = 0" "refs s1 = (refs s)(b := 1)" "avail s1 = avail s - 1"
    using alloc_some[of s] by (auto simp: Suc_le_eq)
  from Suc.prems b(8) have "k \<le> avail s1" by simp
  from Suc.IH[OF b(2) this, of "table @ [b]"] obtain new s' where n:
      "grow alloc k (table @ [b]) s1 = Inr ((table @ [b]) @ new, s')" "length new = k" "distinct new"
      "\<forall>c \<in> set new. refs s1 c = 0 \<and> 0 \<le> c \<and> c < int (capacity s1)"
      "inv s'" "capacity s' = capacity s1" "avail s' = avail s1 - k"
      "refs s' = (\<lambda>c. if c \<in> set new then 1 else refs s1 c)"
    by blast
  have "b \<notin> set new" using n(4) b(7) by auto
  then show ?case using b n by (intro exI[of _ "b # new"] exI[of _ s']) (auto simp: fun_eq_iff split: if_splits)
qed

lemma grow_none:
  assumes "inv s" and "avail s < k"
  shows "\<exists>e. grow alloc k table s = Inl e"
  using assms
proof (induction k arbitrary: table s)
  case 0
  then show ?case by simp
next
  case (Suc k)
  show ?case
  proof (cases "avail s = 0")
    case True
    with alloc_none[OF Suc.prems(1)] show ?thesis by auto
  next
    case False
    with alloc_some[OF Suc.prems(1)] obtain b s1 where
      "alloc s = Inr (b, s1)" "inv s1" "avail s1 = avail s - 1" by auto
    with Suc False show ?thesis by auto
  qed
qed

text \<open>Releasing a table whose blocks are all held as often as they occur in it succeeds.\<close>

lemma release_all:
  assumes "inv s" and "\<And>b. count_list table b \<le> refs s b"
  shows "\<exists>s'. res_fold release table s = Inr s' \<and> inv s' \<and> capacity s' = capacity s
    \<and> refs s' = (\<lambda>b. refs s b - count_list table b) \<and> avail s \<le> avail s'"
  using assms
proof (induction table arbitrary: s)
  case Nil
  then show ?case by simp
next
  case (Cons b table)
  from Cons.prems(2)[of b] have "0 < refs s b" by simp
  with release_held[OF Cons.prems(1)] obtain s1 where s1: "release b s = Inr s1" "inv s1"
      "capacity s1 = capacity s" "refs s1 = (refs s)(b := refs s b - 1)" "avail s \<le> avail s1" by blast
  have "count_list table c \<le> refs s1 c" for c
    using Cons.prems(2)[of c] s1(4) by (auto split: if_splits)
  from Cons.IH[OF s1(2) this] s1 show ?case by (auto simp: fun_eq_iff)
qed

end
section \<open>The allocator is such a pool\<close>

text \<open>
  The free list holds each unreferenced block once and no other block.
\<close>

definition alloc_inv :: "block_allocator \<Rightarrow> bool" where
  "alloc_inv a \<longleftrightarrow> distinct (free_list a)
     \<and> (\<forall>b \<in> set (free_list a). 0 \<le> b \<and> b < num_blocks a)
     \<and> (\<forall>i < length (ref_counts a). 0 \<le> ref_counts a ! i \<and> (ref_counts a ! i = 0 \<longleftrightarrow> int i \<in> set (free_list a)))"

definition refs_of :: "block_allocator \<Rightarrow> int \<Rightarrow> nat" where
  "refs_of a b = (if 0 \<le> b \<and> b < num_blocks a then nat (ref_counts a ! nat b) else 0)"

lemma alloc_invD:
  assumes "alloc_inv a"
  shows "distinct (free_list a)" "\<And>b. b \<in> set (free_list a) \<Longrightarrow> 0 \<le> b \<and> b < num_blocks a"
    "\<And>i. i < length (ref_counts a) \<Longrightarrow> 0 \<le> ref_counts a ! i"
    "\<And>i. i < length (ref_counts a) \<Longrightarrow> ref_counts a ! i = 0 \<longleftrightarrow> int i \<in> set (free_list a)"
  using assms by (auto simp: alloc_inv_def)

lemma refs_of_zero_iff:
  assumes "alloc_inv a" and "0 \<le> b" "b < num_blocks a"
  shows "refs_of a b = 0 \<longleftrightarrow> b \<in> set (free_list a)"
  using alloc_invD(3,4)[OF assms(1), of "nat b"] assms(2,3)
  by (auto simp: refs_of_def num_blocks_def)

lemma refs_of_pos_range: "0 < refs_of a b \<Longrightarrow> 0 \<le> b \<and> b < num_blocks a"
  by (auto simp: refs_of_def split: if_splits)

lemma refs_of_pos:
  assumes "alloc_inv a" "0 < refs_of a b"
  shows "vec_get (ref_counts a) b = Inr (int (refs_of a b)) \<and> ref_counts a ! nat b = int (refs_of a b)"
proof -
  from refs_of_pos_range[OF assms(2)] have b: "0 \<le> b" "b < int (length (ref_counts a))"
    by (auto simp: num_blocks_def)
  then have "0 \<le> ref_counts a ! nat b" using alloc_invD(3)[OF assms(1), of "nat b"] by simp
  then have "ref_counts a ! nat b = int (refs_of a b)" using b by (simp add: refs_of_def num_blocks_def)
  then show ?thesis using b by (simp add: mem_simps)
qed

lemma refs_of_upd:
  assumes "0 \<le> b" "b < num_blocks a" "ref_counts a' = (ref_counts a)[nat b := c]"
  shows "refs_of a' = (refs_of a)(b := nat c)"
  using assms by (auto simp: refs_of_def num_blocks_def fun_eq_iff nth_list_update)

lemma alloc_new_inv:
  "allocator_new n = Inr a \<Longrightarrow> alloc_inv a \<and> num_blocks a = n \<and> num_free a = n \<and> refs_of a = (\<lambda>_. 0)"
proof -
  assume "allocator_new n = Inr a"
  then have a: "0 \<le> n" "a = \<lparr>free_list = rev (map int [0..<nat n]), ref_counts = replicate (nat n) 0\<rparr>"
    by (auto simp: allocator_new_def split: if_splits)
  then have "alloc_inv a" by (auto simp: alloc_inv_def num_blocks_def distinct_map inj_on_def)
  moreover have "refs_of a = (\<lambda>_. 0)" using a by (auto simp: refs_of_def num_blocks_def)
  ultimately show ?thesis using a by (simp add: num_blocks_def num_free_def)
qed

lemma allocate_some:
  assumes "alloc_inv a" "free_list a \<noteq> []"
  shows "\<exists>b a'. allocate a = Inr (b, a') \<and> alloc_inv a' \<and> 0 \<le> b \<and> b < num_blocks a \<and> b = last (free_list a)
    \<and> num_blocks a' = num_blocks a \<and> refs_of a b = 0 \<and> refs_of a' = (refs_of a)(b := 1)
    \<and> free_list a' = butlast (free_list a)"
proof -
  define b where "b = last (free_list a)"
  define a' where "a' = a\<lparr>free_list := butlast (free_list a), ref_counts := (ref_counts a)[nat b := 1]\<rparr>"
  have fl: "free_list a = butlast (free_list a) @ [b]" using assms(2) by (simp add: b_def)
  have bin: "b \<in> set (free_list a)" using assms(2) by (simp add: b_def)
  note inv = alloc_invD[OF assms(1)]
  have b: "0 \<le> b" "b < num_blocks a" using inv(2)[OF bin] by auto
  have set_fl: "set (free_list a) = insert b (set (butlast (free_list a)))"
    using fl by (metis list.simps(15) rotate1.simps(2) set_rotate1)
  have dist: "distinct (butlast (free_list a))" "b \<notin> set (butlast (free_list a))"
    using inv(1) fl by (metis distinct_append not_distinct_conv_prefix distinct1_rotate rotate1.simps(2) distinct.simps(2))+
  have "alloc_inv a'"
    unfolding alloc_inv_def
  proof (intro conjI ballI allI impI)
    show "distinct (free_list a')" using dist by (simp add: a'_def)
  next
    fix c assume "c \<in> set (free_list a')"
    then have "c \<in> set (free_list a)" by (simp add: a'_def set_fl)
    then show "0 \<le> c" "c < num_blocks a'" using inv(2) by (auto simp: a'_def num_blocks_def)
  next
    fix i assume i: "i < length (ref_counts a')"
    then show "0 \<le> ref_counts a' ! i" using inv(3) b by (auto simp: a'_def nth_list_update num_blocks_def)
    show "(ref_counts a' ! i = 0) = (int i \<in> set (free_list a'))"
    proof (cases "i = nat b")
      case True
      then show ?thesis using b i dist(2) by (simp add: a'_def)
    next
      case False
      then show ?thesis using b i inv(4)[of i] set_fl by (auto simp: a'_def)
    qed
  qed
  moreover have "allocate a = Inr (b, a')"
    using assms(2) b by (simp add: allocate_def b_def[symmetric] a'_def mem_simps num_blocks_def)
  moreover have "refs_of a' = (refs_of a)(b := 1)"
    using refs_of_upd[OF b, of a' 1] by (simp add: a'_def)
  moreover have "refs_of a b = 0" using refs_of_zero_iff[OF assms(1) b] bin by simp
  ultimately show ?thesis using b by (auto simp: b_def a'_def num_blocks_def)
qed

lemma incref_held:
  assumes "alloc_inv a" "0 < refs_of a b"
  shows "\<exists>a'. incref b a = Inr a' \<and> alloc_inv a' \<and> num_blocks a' = num_blocks a
    \<and> refs_of a' = (refs_of a)(b := Suc (refs_of a b)) \<and> free_list a' = free_list a"
proof -
  from refs_of_pos_range[OF assms(2)] have b: "0 \<le> b" "b < num_blocks a" by auto
  note rp = refs_of_pos[OF assms]
  define a' where "a' = a\<lparr>ref_counts := (ref_counts a)[nat b := int (refs_of a b) + 1]\<rparr>"
  note inv = alloc_invD[OF assms(1)]
  have "incref b a = Inr a'"
    using rp b assms(2) by (simp add: incref_def a'_def mem_simps num_blocks_def)
  moreover have "alloc_inv a'"
    using assms b rp inv(4)[of "nat b"]
    by (auto simp: alloc_inv_def a'_def num_blocks_def nth_list_update)
  moreover have "refs_of a' = (refs_of a)(b := Suc (refs_of a b))"
    using refs_of_upd[OF b, of a' "int (refs_of a b) + 1"] by (simp add: a'_def nat_add_distrib)
  ultimately show ?thesis by (auto simp: a'_def num_blocks_def)
qed

lemma free_held:
  assumes "alloc_inv a" "0 < refs_of a b"
  shows "\<exists>a'. free b a = Inr a' \<and> alloc_inv a' \<and> num_blocks a' = num_blocks a
    \<and> refs_of a' = (refs_of a)(b := refs_of a b - 1)
    \<and> free_list a' = (if refs_of a b = 1 then free_list a @ [b] else free_list a)"
proof -
  from refs_of_pos_range[OF assms(2)] have b: "0 \<le> b" "b < num_blocks a" by auto
  note rp = refs_of_pos[OF assms]
  note inv = alloc_invD[OF assms(1)]
  define fl where "fl = (if refs_of a b = 1 then free_list a @ [b] else free_list a)"
  define a' where "a' = a\<lparr>ref_counts := (ref_counts a)[nat b := int (refs_of a b) - 1], free_list := fl\<rparr>"
  have nin: "b \<notin> set (free_list a)" using refs_of_zero_iff[OF assms(1) b] assms(2) by simp
  have "free b a = Inr a'"
    using rp b assms(2) by (simp add: free_def a'_def fl_def mem_simps num_blocks_def)
  moreover have "alloc_inv a'"
    unfolding alloc_inv_def
  proof (intro conjI ballI allI impI)
    show "distinct (free_list a')" using inv(1) nin by (simp add: a'_def fl_def)
  next
    fix c assume "c \<in> set (free_list a')"
    then show "0 \<le> c" "c < num_blocks a'"
      using inv(2) b by (auto simp: a'_def fl_def num_blocks_def split: if_splits)
  next
    fix i assume i: "i < length (ref_counts a')"
    then show "0 \<le> ref_counts a' ! i" using inv(3) assms(2) b by (auto simp: a'_def nth_list_update num_blocks_def)
    show "(ref_counts a' ! i = 0) = (int i \<in> set (free_list a'))"
      using i b assms(2) nin inv(4)[of i] by (auto simp: a'_def fl_def nth_list_update num_blocks_def)
  qed
  moreover have "refs_of a' = (refs_of a)(b := refs_of a b - 1)"
    using refs_of_upd[OF b, of a' "int (refs_of a b) - 1"] assms(2)
    by (simp add: a'_def nat_diff_distrib)
  ultimately show ?thesis by (auto simp: a'_def fl_def num_blocks_def)
qed

lemma num_free_pos [simp]: "0 < nat (num_free a) \<longleftrightarrow> free_list a \<noteq> []"
  by (simp add: num_free_def)

interpretation ba: counted_pool allocate free refs_of "\<lambda>a. nat (num_free a)" "\<lambda>a. nat (num_blocks a)"
  alloc_inv incref
proof (unfold_locales, goal_cases)
  case (1 a)
  then show ?case using allocate_some[of a] by (auto simp: num_free_def num_blocks_def)
next
  case (2 a)
  then show ?case by (auto simp: num_free_def allocate_def)
next
  case (3 a b)
  then show ?case using free_held[of a b] by (auto simp: num_free_def num_blocks_def)
next
  case (4 a b)
  then show ?case using incref_held[of a b] by (auto simp: num_free_def num_blocks_def)
qed

text \<open>Operations on a block without references fail and name the reason.\<close>

lemma unreferenced_errors:
  assumes "alloc_inv a" "0 \<le> b" "b < num_blocks a" "refs_of a b = 0"
  shows "incref b a = Inl (RuntimeError ''BlockAllocator: incref on a free block'')"
    and "free b a = Inl (RuntimeError ''BlockAllocator: double free'')"
  using assms alloc_invD(3)[OF assms(1), of "nat b"]
  by (auto simp: incref_def free_def refs_of_def num_blocks_def mem_simps)

text \<open>Every block is free or referenced: the two counts add up to the pool.\<close>

lemma alloc_inv_conservation:
  assumes "alloc_inv a"
  shows "num_free a + int (card {b. 0 < refs_of a b}) = num_blocks a"
proof -
  let ?U = "{b. 0 \<le> b \<and> b < num_blocks a}" and ?H = "{b. 0 < refs_of a b}"
  have F: "set (free_list a) \<subseteq> ?U" using alloc_invD(2)[OF assms] by auto
  have "?H = ?U - set (free_list a)"
    using refs_of_pos_range[of a] refs_of_zero_iff[OF assms] F by fastforce
  moreover have "?U = {0..<num_blocks a}" by auto
  ultimately have "int (card ?H) = num_blocks a - int (card (set (free_list a)))"
    using F card_mono[of ?U "set (free_list a)"]
    by (simp add: card_Diff_subset num_blocks_def of_nat_diff)
  then show ?thesis using distinct_card[OF alloc_invD(1)[OF assms]] by (simp add: num_free_def)
qed

section \<open>Every reachable state\<close>

text \<open>One successful call on the allocator, and the states a client can reach.\<close>

inductive alloc_step :: "block_allocator \<Rightarrow> block_allocator \<Rightarrow> bool" where
  step_allocate: "allocate a = Inr (b, a') \<Longrightarrow> alloc_step a a'"
| step_incref: "incref b a = Inr a' \<Longrightarrow> alloc_step a a'"
| step_free: "free b a = Inr a' \<Longrightarrow> alloc_step a a'"

inductive alloc_reachable :: "int \<Rightarrow> block_allocator \<Rightarrow> bool" for n where
  reach_new: "allocator_new n = Inr a \<Longrightarrow> alloc_reachable n a"
| reach_step: "alloc_reachable n a \<Longrightarrow> alloc_step a a' \<Longrightarrow> alloc_reachable n a'"

inductive_cases alloc_stepE: "alloc_step a a'"

lemma incref_ok_held: "alloc_inv a \<Longrightarrow> incref b a = Inr a' \<Longrightarrow> 0 < refs_of a b"
  using alloc_invD(3)[of a "nat b"]
  by (auto simp: incref_def refs_of_def num_blocks_def res_bind_eq_Inr vec_get_eq_Inr order.order_iff_strict
      split: if_splits)

lemma free_ok_held: "alloc_inv a \<Longrightarrow> free b a = Inr a' \<Longrightarrow> 0 < refs_of a b"
  using alloc_invD(3)[of a "nat b"]
  by (auto simp: free_def refs_of_def num_blocks_def res_bind_eq_Inr vec_get_eq_Inr order.order_iff_strict
      split: if_splits)

lemma alloc_step_inv: "alloc_step a a' \<Longrightarrow> alloc_inv a \<Longrightarrow> alloc_inv a' \<and> num_blocks a' = num_blocks a"
proof (erule alloc_stepE)
  fix b assume "alloc_inv a" "allocate a = Inr (b, a')"
  then show ?thesis using allocate_some[of a] by (cases "free_list a = []") (auto simp: allocate_def)
next
  fix b assume "alloc_inv a" "incref b a = Inr a'"
  then show ?thesis using incref_held[of a b] incref_ok_held[of a b a'] by auto
next
  fix b assume "alloc_inv a" "free b a = Inr a'"
  then show ?thesis using free_held[of a b] free_ok_held[of a b a'] by auto
qed

lemma alloc_reachable_inv: "alloc_reachable n a \<Longrightarrow> alloc_inv a \<and> num_blocks a = n"
proof (induction rule: alloc_reachable.induct)
  case (reach_new a)
  then show ?case using alloc_new_inv by blast
next
  case (reach_step a a')
  then show ?case using alloc_step_inv by auto
qed

section \<open>Properties\<close>

text \<open>C26: In every state a client can reach from a pool of \<open>n\<close> blocks, the free list holds
  each block without references exactly once, free and referenced blocks add up to the
  pool, and a block that is handed out had no reference: no block is given to two owners.\<close>

theorem allocator_sound:
  assumes "alloc_reachable n a"
  shows "distinct (free_list a) \<and> set (free_list a) = {b. 0 \<le> b \<and> b < n \<and> refs_of a b = 0}
    \<and> num_free a + int (card {b. 0 < refs_of a b}) = n
    \<and> (\<forall>b a'. allocate a = Inr (b, a') \<longrightarrow> 0 \<le> b \<and> b < n \<and> refs_of a b = 0 \<and> refs_of a' = (refs_of a)(b := 1))
    \<and> ((\<exists>r. allocate a = Inr r) \<longleftrightarrow> 0 < num_free a)"
proof -
  from alloc_reachable_inv[OF assms] have ai: "alloc_inv a" and n: "num_blocks a = n" by auto
  have "set (free_list a) = {b. 0 \<le> b \<and> b < n \<and> refs_of a b = 0}"
    using alloc_invD(2)[OF ai] refs_of_zero_iff[OF ai] n by auto
  moreover have "0 \<le> b \<and> b < n \<and> refs_of a b = 0 \<and> refs_of a' = (refs_of a)(b := 1)"
    if "allocate a = Inr (b, a')" for b a'
    using that allocate_some[OF ai] n by (cases "free_list a = []") (auto simp: allocate_def)
  moreover have "(\<exists>r. allocate a = Inr r) \<longleftrightarrow> 0 < num_free a"
    using allocate_some[OF ai] by (cases "free_list a = []") (auto simp: num_free_def allocate_def)
  ultimately show ?thesis using alloc_invD(1)[OF ai] alloc_inv_conservation[OF ai] n by auto
qed

lemma allocator_sound_witness:
  "set (free_list \<lparr>free_list = [2, 1], ref_counts = [1, 0, 0]\<rparr>) =
     {b. 0 \<le> b \<and> b < 3 \<and> refs_of \<lparr>free_list = [2, 1], ref_counts = [1, 0, 0]\<rparr> b = 0}"
proof -
  have new: "allocator_new 3 = Inr \<lparr>free_list = [2, 1, 0], ref_counts = [0, 0, 0]\<rparr>"
    by (simp add: allocator_new_def upt_rec eval_nat_numeral)
  have "allocate \<lparr>free_list = [2, 1, 0], ref_counts = [0, 0, 0]\<rparr>
      = Inr (0, \<lparr>free_list = [2, 1], ref_counts = [1, 0, 0]\<rparr>)"
    by (simp add: allocate_def vec_set_def)
  then have "alloc_reachable 3 \<lparr>free_list = [2, 1], ref_counts = [1, 0, 0]\<rparr>"
    using alloc_step.step_allocate alloc_reachable.reach_new[OF new] alloc_reachable.reach_step by blast
  from allocator_sound[OF this] show ?thesis by blast
qed

text \<open>Dropping the only reference of the block just handed out restores the allocator
  exactly, a second drop is refused as a double free, and so is sharing a free block.\<close>

theorem allocate_free_inverse:
  assumes "alloc_inv a" "allocate a = Inr (b, a')"
  shows "free b a' = Inr a \<and> free b a = Inl (RuntimeError ''BlockAllocator: double free'')
    \<and> incref b a = Inl (RuntimeError ''BlockAllocator: incref on a free block'')
    \<and> (\<exists>a2. incref b a' = Inr a2 \<and> free b a2 = Inr a')"
proof -
  from assms have ne: "free_list a \<noteq> []" by (auto simp: allocate_def)
  from allocate_some[OF assms(1) ne] assms(2) have b: "0 \<le> b" "b < num_blocks a" "refs_of a b = 0"
    "b = last (free_list a)" by auto
  have a': "a' = a\<lparr>free_list := butlast (free_list a), ref_counts := (ref_counts a)[nat b := 1]\<rparr>"
    using assms(2) ne b by (auto simp: allocate_def vec_set_def num_blocks_def Let_def split: if_splits)
  have bl: "nat b < length (ref_counts a)" using b by (auto simp: num_blocks_def)
  have z: "ref_counts a ! nat b = 0"
    using b alloc_invD(3)[OF assms(1) bl] by (simp add: refs_of_def)
  have "(ref_counts a)[nat b := 0] = ref_counts a" using list_update_id[of "ref_counts a" "nat b"] z by simp
  then have "free b a' = Inr a"
    using b bl ne by (cases a) (simp add: a' free_def vec_get_def vec_set_def num_blocks_def)
  moreover have "\<exists>a2. incref b a' = Inr a2 \<and> free b a2 = Inr a'"
    using b bl by (simp add: a' incref_def free_def vec_get_def vec_set_def num_blocks_def)
  ultimately show ?thesis using unreferenced_errors[OF assms(1) b(1,2,3)] by simp
qed

lemma allocate_free_inverse_witness:
  "free 1 \<lparr>free_list = [2], ref_counts = [1, 1, 0]\<rparr> = Inr \<lparr>free_list = [2, 1], ref_counts = [1, 0, 0]\<rparr>"
proof -
  have "alloc_inv \<lparr>free_list = [2, 1], ref_counts = [1, 0, 0]\<rparr>"
    by (auto simp: alloc_inv_def num_blocks_def less_Suc_eq numeral_eq_Suc)
  moreover have "allocate \<lparr>free_list = [2, 1], ref_counts = [1, 0, 0]\<rparr>
      = Inr (1, \<lparr>free_list = [2], ref_counts = [1, 1, 0]\<rparr>)"
    by (simp add: allocate_def vec_set_def)
  ultimately show ?thesis using allocate_free_inverse by blast
qed

end
