(* ===== verification/KV_Cache.thy ===== *)
theory KV_Cache
  imports Tensors
begin

text \<open>
  \<open>include/engine/kv_cache.hpp\<close>: the contiguous per-layer key/value cache, and the
  contract \<open>kv_store\<close> that the cached forward needs of any cache it is instantiated with
  (it is a C++ template over the cache class). A pointer argument is the list of the
  floats it points to.
\<close>

section \<open>The contiguous cache\<close>

record kv_cache =
  kc_keys :: "f32 list list"
  kc_values :: "f32 list list"
  kc_kv_dim :: int
  kc_length :: int

definition kv_new :: "int \<Rightarrow> int \<Rightarrow> kv_cache res" where
  "kv_new num_layers kv_dim =
     (if num_layers < 0 then Inl LengthError
      else Inr \<lparr>kc_keys = replicate (nat num_layers) [], kc_values = replicate (nat num_layers) [],
                kc_kv_dim = kv_dim, kc_length = 0\<rparr>)"

definition kv_append :: "int \<Rightarrow> f32 list \<Rightarrow> f32 list \<Rightarrow> int \<Rightarrow> kv_cache \<Rightarrow> kv_cache res" where
  "kv_append layer k v n_rows c =
     (let n = n_rows * kc_kv_dim c in
      res_bind (vec_get (kc_keys c) layer) (\<lambda>kl.
      res_bind (vec_get (kc_values c) layer) (\<lambda>vl.
      if n < 0 \<or> int (length k) < n \<or> int (length v) < n then Inl Undefined
      else res_bind (vec_set (kc_keys c) layer (kl @ take (nat n) k)) (\<lambda>ks.
           res_bind (vec_set (kc_values c) layer (vl @ take (nat n) v)) (\<lambda>vs.
             Inr (c\<lparr>kc_keys := ks, kc_values := vs\<rparr>))))))"

definition kv_rows :: "int \<Rightarrow> kv_cache \<Rightarrow> int res" where
  "kv_rows layer c =
     res_bind (vec_get (kc_keys c) layer) (\<lambda>kl.
       if kc_kv_dim c = 0 then Inl Undefined else Inr (int (length kl) sdiv kc_kv_dim c))"

definition kv_key_tensor :: "int \<Rightarrow> kv_cache \<Rightarrow> tensor res" where
  "kv_key_tensor layer c =
     res_bind (kv_rows layer c) (\<lambda>r.
     res_bind (vec_get (kc_keys c) layer) (tensor_make [r, kc_kv_dim c]))"

definition kv_value_tensor :: "int \<Rightarrow> kv_cache \<Rightarrow> tensor res" where
  "kv_value_tensor layer c =
     res_bind (kv_rows layer c) (\<lambda>r.
     res_bind (vec_get (kc_values c) layer) (tensor_make [r, kc_kv_dim c]))"

definition kv_advance :: "int \<Rightarrow> kv_cache \<Rightarrow> kv_cache" where
  "kv_advance n c = c\<lparr>kc_length := kc_length c + n\<rparr>"

section \<open>The contract of a cache\<close>

text \<open>
  \<open>hist c l\<close> is what layer \<open>l\<close> holds: its key rows and its value rows, oldest first.
  \<open>room c m\<close> says that a layer can grow to \<open>m\<close> rows.
\<close>

locale kv_store =
  fixes append :: "int \<Rightarrow> f32 list \<Rightarrow> f32 list \<Rightarrow> int \<Rightarrow> 'c \<Rightarrow> 'c res"
    and key_tensor :: "int \<Rightarrow> 'c \<Rightarrow> tensor res"
    and value_tensor :: "int \<Rightarrow> 'c \<Rightarrow> tensor res"
    and advance :: "int \<Rightarrow> 'c \<Rightarrow> 'c"
    and len :: "'c \<Rightarrow> int"
    and hist :: "'c \<Rightarrow> nat \<Rightarrow> f32 list list \<times> f32 list list"
    and room :: "'c \<Rightarrow> nat \<Rightarrow> bool"
    and layers :: "'c \<Rightarrow> nat"
    and width :: "'c \<Rightarrow> nat"
    and inv :: "'c \<Rightarrow> bool"
  assumes append_ok: "inv c \<Longrightarrow> l < layers c \<Longrightarrow> length k = n * width c \<Longrightarrow> length v = n * width c \<Longrightarrow>
      room c (length (fst (hist c l)) + n) \<Longrightarrow>
      \<exists>c'. append (int l) k v (int n) c = Inr c' \<and> inv c' \<and> layers c' = layers c \<and> width c' = width c
        \<and> len c' = len c \<and> room c' = room c
        \<and> hist c' = (hist c)(l := (fst (hist c l) @ rows (width c) n k, snd (hist c l) @ rows (width c) n v))"
    and key_ok: "inv c \<Longrightarrow> l < layers c \<Longrightarrow>
      key_tensor (int l) c = Inr (mk_mat (length (fst (hist c l))) (width c) (fst (hist c l)))"
    and value_ok: "inv c \<Longrightarrow> l < layers c \<Longrightarrow>
      value_tensor (int l) c = Inr (mk_mat (length (fst (hist c l))) (width c) (snd (hist c l)))"
    and advance_ok: "inv c \<Longrightarrow> inv (advance i c) \<and> layers (advance i c) = layers c
      \<and> width (advance i c) = width c \<and> len (advance i c) = len c + i
      \<and> hist (advance i c) = hist c \<and> room (advance i c) = room c"
    and hist_ok: "inv c \<Longrightarrow> l < layers c \<Longrightarrow> length (snd (hist c l)) = length (fst (hist c l))
      \<and> (\<forall>x \<in> set (fst (hist c l)) \<union> set (snd (hist c l)). length x = width c)"

text \<open>
  A run of appends \<open>(layer, rows, keys, values)\<close>, and what it does to the contents.
\<close>

definition append_all ::
    "(int \<Rightarrow> f32 list \<Rightarrow> f32 list \<Rightarrow> int \<Rightarrow> 'c \<Rightarrow> 'c res) \<Rightarrow>
     (nat \<times> nat \<times> f32 list \<times> f32 list) list \<Rightarrow> 'c \<Rightarrow> 'c res" where
  "append_all app ops c = res_fold (\<lambda>(l, n, k, v). app (int l) k v (int n)) ops c"

definition append_rows ::
    "nat \<Rightarrow> nat \<times> nat \<times> f32 list \<times> f32 list \<Rightarrow> (nat \<Rightarrow> f32 list list \<times> f32 list list) \<Rightarrow>
     (nat \<Rightarrow> f32 list list \<times> f32 list list)" where
  "append_rows w op h =
     (case op of (l, n, k, v) \<Rightarrow> h(l := (fst (h l) @ rows w n k, snd (h l) @ rows w n v)))"

definition op_ok :: "nat \<Rightarrow> nat \<Rightarrow> nat \<times> nat \<times> f32 list \<times> f32 list \<Rightarrow> bool" where
  "op_ok nl w op = (case op of (l, n, k, v) \<Rightarrow> l < nl \<and> length k = n * w \<and> length v = n * w)"

definition op_rows :: "nat \<Rightarrow> (nat \<times> nat \<times> f32 list \<times> f32 list) list \<Rightarrow> nat" where
  "op_rows l ops = sum_list (map (\<lambda>(l', n, k, v). if l' = l then n else 0) ops)"

context kv_store
begin

lemma append_all_ok:
  assumes "inv c" "list_all (op_ok (layers c) (width c)) ops" "\<forall>m \<le> M. room c m"
    and "\<forall>l < layers c. length (fst (hist c l)) + op_rows l ops \<le> M"
  shows "\<exists>c'. append_all append ops c = Inr c' \<and> inv c' \<and> layers c' = layers c \<and> width c' = width c
    \<and> len c' = len c \<and> room c' = room c \<and> hist c' = fold (append_rows (width c)) ops (hist c)"
  using assms
proof (induction ops arbitrary: c)
  case Nil
  then show ?case by (simp add: append_all_def)
next
  case (Cons op ops)
  obtain l n k v where op: "op = (l, n, k, v)" by (cases op)
  have g: "l < layers c" "length k = n * width c" "length v = n * width c"
    using Cons.prems(2) by (simp_all add: op op_ok_def)
  have "length (fst (hist c l)) + n \<le> M" using Cons.prems(4) g(1) by (force simp: op op_rows_def)
  then have "room c (length (fst (hist c l)) + n)" using Cons.prems(3) by simp
  from append_ok[OF Cons.prems(1) g this] obtain c1 where c1: "append (int l) k v (int n) c = Inr c1" "inv c1"
    "layers c1 = layers c" "width c1 = width c" "len c1 = len c" "room c1 = room c"
    "hist c1 = append_rows (width c) op (hist c)" by (auto simp: append_rows_def op)
  have "length (fst (hist c1 i)) + op_rows i ops \<le> M" if "i < layers c1" for i
    using Cons.prems(4)[rule_format, of i] that c1(3,7) by (auto simp: append_rows_def op op_rows_def)
  with Cons.IH[OF c1(2)] Cons.prems c1 show ?case by (auto simp: append_all_def op)
qed

end
section \<open>The contiguous cache keeps it\<close>

definition kv_inv :: "kv_cache \<Rightarrow> bool" where
  "kv_inv c \<longleftrightarrow> 0 < kc_kv_dim c \<and> length (kc_values c) = length (kc_keys c)
     \<and> (\<forall>l < length (kc_keys c). length (kc_values c ! l) = length (kc_keys c ! l)
          \<and> nat (kc_kv_dim c) dvd length (kc_keys c ! l))"

definition kv_hist :: "kv_cache \<Rightarrow> nat \<Rightarrow> f32 list list \<times> f32 list list" where
  "kv_hist c l =
     (let w = nat (kc_kv_dim c)
      in (rows w (length (kc_keys c ! l) div w) (kc_keys c ! l),
          rows w (length (kc_keys c ! l) div w) (kc_values c ! l)))"

lemma kv_inv_layer:
  assumes "kv_inv c" "l < length (kc_keys c)"
  obtains w m where "kc_kv_dim c = int w" "0 < w" "length (kc_keys c ! l) = m * w"
    "length (kc_values c ! l) = m * w" "kv_hist c l = (rows w m (kc_keys c ! l), rows w m (kc_values c ! l))"
proof -
  from assms have w: "0 < kc_kv_dim c" and d: "nat (kc_kv_dim c) dvd length (kc_keys c ! l)"
    and v: "length (kc_values c ! l) = length (kc_keys c ! l)" by (auto simp: kv_inv_def)
  define w where "w = nat (kc_kv_dim c)"
  from d obtain m where "length (kc_keys c ! l) = w * m" by (auto simp: w_def)
  then show ?thesis using that[of w m] v \<open>0 < kc_kv_dim c\<close>
    by (simp add: w_def kv_hist_def Let_def mult.commute)
qed

lemma kv_append_ok:
  assumes "kv_inv c" "l < length (kc_keys c)" "length k = n * nat (kc_kv_dim c)" "length v = n * nat (kc_kv_dim c)"
  shows "\<exists>c'. kv_append (int l) k v (int n) c = Inr c' \<and> kv_inv c' \<and> length (kc_keys c') = length (kc_keys c)
    \<and> kc_kv_dim c' = kc_kv_dim c \<and> kc_length c' = kc_length c
    \<and> kv_hist c' = (kv_hist c)(l := (fst (kv_hist c l) @ rows (nat (kc_kv_dim c)) n k,
                                       snd (kv_hist c l) @ rows (nat (kc_kv_dim c)) n v))"
proof -
  from kv_inv_layer[OF assms(1,2)] obtain w m where w: "kc_kv_dim c = int w" "0 < w"
    and lk: "length (kc_keys c ! l) = m * w" and lv: "length (kc_values c ! l) = m * w"
    and h: "kv_hist c l = (rows w m (kc_keys c ! l), rows w m (kc_values c ! l))" by blast
  have lvs: "length (kc_values c) = length (kc_keys c)" using assms(1) by (simp add: kv_inv_def)
  define c' where "c' = c\<lparr>kc_keys := (kc_keys c)[l := kc_keys c ! l @ k],
                          kc_values := (kc_values c)[l := kc_values c ! l @ v]\<rparr>"
  have nw: "nat (int n * kc_kv_dim c) = n * w" using w by (simp add: nat_mult_distrib)
  have r: "kv_append (int l) k v (int n) c = Inr c'"
    using assms w lvs nw by (simp add: kv_append_def mem_simps c'_def Let_def not_less)
  have inv: "kv_inv c'"
    using assms w lk lv by (auto simp: kv_inv_def c'_def nth_list_update)
  have "kv_hist c' i = ((kv_hist c)(l := (fst (kv_hist c l) @ rows w n k, snd (kv_hist c l) @ rows w n v))) i" for i
  proof (cases "i = l")
    case True
    have "(m * w + n * w) div w = m + n" using w(2) by (simp add: div_mult_self3)
    then show ?thesis
      using True assms(2,3,4) w lvs lk lv h by (simp add: kv_hist_def c'_def rows_append)
  qed (simp add: kv_hist_def c'_def)
  then have "kv_hist c' = (kv_hist c)(l := (fst (kv_hist c l) @ rows w n k, snd (kv_hist c l) @ rows w n v))"
    by (rule ext)
  with r inv w show ?thesis by (simp add: c'_def)
qed

lemma kv_key_tensor_ok:
  assumes "kv_inv c" "l < length (kc_keys c)"
  shows "kv_key_tensor (int l) c = Inr (mk_mat (length (fst (kv_hist c l))) (nat (kc_kv_dim c)) (fst (kv_hist c l)))"
    and "kv_value_tensor (int l) c = Inr (mk_mat (length (fst (kv_hist c l))) (nat (kc_kv_dim c)) (snd (kv_hist c l)))"
proof -
  from kv_inv_layer[OF assms] obtain w m where w: "kc_kv_dim c = int w" "0 < w"
    and lk: "length (kc_keys c ! l) = m * w" and lv: "length (kc_values c ! l) = m * w"
    and h: "kv_hist c l = (rows w m (kc_keys c ! l), rows w m (kc_values c ! l))" by blast
  have lvs: "length (kc_values c) = length (kc_keys c)" using assms(1) by (simp add: kv_inv_def)
  have "int (length (kc_keys c ! l)) sdiv kc_kv_dim c = int m" using w lk by simp
  then have "kv_rows (int l) c = Inr (int m)" using assms(2) w by (simp add: kv_rows_def mem_simps)
  then show "kv_key_tensor (int l) c = Inr (mk_mat (length (fst (kv_hist c l))) (nat (kc_kv_dim c)) (fst (kv_hist c l)))"
    and "kv_value_tensor (int l) c = Inr (mk_mat (length (fst (kv_hist c l))) (nat (kc_kv_dim c)) (snd (kv_hist c l)))"
    using assms(2) w lk lv h lvs
    by (simp_all add: kv_key_tensor_def kv_value_tensor_def mem_simps tensor_make_def mk_mat_def concat_rows)
qed

lemma kv_hist_lengths:
  assumes "kv_inv c" "l < length (kc_keys c)"
  shows "length (snd (kv_hist c l)) = length (fst (kv_hist c l))
    \<and> (\<forall>x \<in> set (fst (kv_hist c l)) \<union> set (snd (kv_hist c l)). length x = nat (kc_kv_dim c))"
proof -
  from kv_inv_layer[OF assms] obtain w m where w: "kc_kv_dim c = int w"
    and lk: "length (kc_keys c ! l) = m * w" and lv: "length (kc_values c ! l) = m * w"
    and h: "kv_hist c l = (rows w m (kc_keys c ! l), rows w m (kc_values c ! l))" by blast
  then show ?thesis using rows_mem_length[of m w "kc_keys c ! l"] rows_mem_length[of m w "kc_values c ! l"]
    by auto
qed

interpretation kvc: kv_store kv_append kv_key_tensor kv_value_tensor kv_advance kc_length kv_hist
  "\<lambda>_ _. True" "\<lambda>c. length (kc_keys c)" "\<lambda>c. nat (kc_kv_dim c)" kv_inv
proof (unfold_locales, goal_cases)
  case (1 c l k n v)
  then show ?case using kv_append_ok[of c l k n v] by auto
next
  case (2 c l)
  then show ?case by (rule kv_key_tensor_ok)
next
  case (3 c l)
  then show ?case by (rule kv_key_tensor_ok)
next
  case (4 c n)
  then show ?case by (auto simp: kv_advance_def kv_inv_def kv_hist_def)
next
  case (5 c l)
  then show ?case by (rule kv_hist_lengths)
qed

lemma kv_new_inv:
  "0 \<le> n \<Longrightarrow> 0 < w \<Longrightarrow> \<exists>c. kv_new n w = Inr c \<and> kv_inv c \<and> length (kc_keys c) = nat n \<and> kc_kv_dim c = w
    \<and> kc_length c = 0 \<and> (\<forall>l < nat n. kv_hist c l = ([], []))"
  by (simp add: kv_new_def kv_inv_def kv_hist_def rows_def)

end
