(* ===== verification/Paged_KV_Cache.thy ===== *)
theory Paged_KV_Cache
  imports Paging Block_Allocator KV_Cache
begin

text \<open>
  \<open>paged_kv_cache.hpp\<close> and \<open>paged_kv_cache.cpp\<close>: the paged cache of one sequence.
  It keeps the contract \<open>kv_store\<close> that the contiguous cache keeps, as long as its pool
  has blocks, so the two are interchangeable under the cached forward.
\<close>

record paged_kv_cache =
  pk_num_layers :: int
  pk_kv_dim :: int
  pk_block_size :: int
  pk_alloc :: block_allocator
  pk_table :: "int list"
  pk_keys :: "f32 list list"
  pk_values :: "f32 list list"
  pk_filled :: "int list"
  pk_length :: int

text \<open>
  The constructor. The allocator is a member, so its error comes first; the sizes are
  tested in the body, before the stores are resized.
\<close>

definition paged_new :: "int \<Rightarrow> int \<Rightarrow> int \<Rightarrow> int \<Rightarrow> paged_kv_cache res" where
  "paged_new num_layers kv_dim block_size nblocks =
     res_bind (allocator_new nblocks) (\<lambda>al.
       if num_layers \<le> 0 \<or> kv_dim \<le> 0 \<or> block_size \<le> 0
       then Inl (InvalidArgument ''PagedKVCache: num_layers, kv_dim, block_size must be positive'')
       else let pool = replicate (nat (nblocks * block_size * kv_dim)) 0;
                stores = replicate (nat num_layers) pool
            in Inr \<lparr>pk_num_layers = num_layers, pk_kv_dim = kv_dim, pk_block_size = block_size,
                    pk_alloc = al, pk_table = [], pk_keys = stores, pk_values = stores,
                    pk_filled = replicate (nat num_layers) 0, pk_length = 0\<rparr>)"

definition ensure_blocks :: "int \<Rightarrow> paged_kv_cache \<Rightarrow> paged_kv_cache res" where
  "ensure_blocks n_rows c =
     (let needed = (n_rows + pk_block_size c - 1) sdiv pk_block_size c
      in res_bind (grow_to allocate needed (pk_table c) (pk_alloc c)) (\<lambda>(tbl, al).
           Inr (c\<lparr>pk_table := tbl, pk_alloc := al\<rparr>)))"

definition write_rows :: "paged_kv_cache \<Rightarrow> f32 list \<Rightarrow> int \<Rightarrow> f32 list \<Rightarrow> int \<Rightarrow> f32 list res" where
  "write_rows c store start_row src n_rows =
     paged_write (pk_block_size c) (pk_kv_dim c) (pk_table c) store start_row src n_rows"

definition paged_append :: "int \<Rightarrow> f32 list \<Rightarrow> f32 list \<Rightarrow> int \<Rightarrow> paged_kv_cache \<Rightarrow> paged_kv_cache res" where
  "paged_append layer k v n_rows c =
     res_bind (vec_get (pk_filled c) layer) (\<lambda>start.
     res_bind (ensure_blocks (start + n_rows) c) (\<lambda>c.
     res_bind (vec_get (pk_keys c) layer) (\<lambda>ks.
     res_bind (write_rows c ks start k n_rows) (\<lambda>ks'.
     res_bind (vec_set (pk_keys c) layer ks') (\<lambda>keys'.
     res_bind (vec_get (pk_values c) layer) (\<lambda>vs.
     res_bind (write_rows c vs start v n_rows) (\<lambda>vs'.
     res_bind (vec_set (pk_values c) layer vs') (\<lambda>values'.
     res_bind (vec_set (pk_filled c) layer (start + n_rows)) (\<lambda>filled'.
       Inr (c\<lparr>pk_keys := keys', pk_values := values', pk_filled := filled'\<rparr>))))))))))"

definition pk_gather :: "paged_kv_cache \<Rightarrow> f32 list \<Rightarrow> int \<Rightarrow> tensor res" where
  "pk_gather c store n_rows = paged_gather (pk_block_size c) (pk_kv_dim c) (pk_table c) store n_rows"

definition paged_key_tensor :: "int \<Rightarrow> paged_kv_cache \<Rightarrow> tensor res" where
  "paged_key_tensor layer c =
     res_bind (vec_get (pk_keys c) layer) (\<lambda>store.
     res_bind (vec_get (pk_filled c) layer) (pk_gather c store))"

definition paged_value_tensor :: "int \<Rightarrow> paged_kv_cache \<Rightarrow> tensor res" where
  "paged_value_tensor layer c =
     res_bind (vec_get (pk_values c) layer) (\<lambda>store.
     res_bind (vec_get (pk_filled c) layer) (pk_gather c store))"

definition paged_advance :: "int \<Rightarrow> paged_kv_cache \<Rightarrow> paged_kv_cache" where
  "paged_advance n_rows c = c\<lparr>pk_length := pk_length c + n_rows\<rparr>"

definition blocks_used :: "paged_kv_cache \<Rightarrow> int" where
  "blocks_used c = int (length (pk_table c))"

definition reserved_slots :: "paged_kv_cache \<Rightarrow> int" where
  "reserved_slots c = int (length (pk_table c)) * pk_block_size c"

section \<open>Invariant and contents\<close>

text \<open>
  The blocks of the table are distinct and referenced, every store has the pool's size,
  and no layer is filled past the table. \<open>bs\<close>, \<open>w\<close> and \<open>nb\<close> are the three sizes as
  natural numbers.
\<close>

definition paged_shape :: "nat \<Rightarrow> nat \<Rightarrow> nat \<Rightarrow> paged_kv_cache \<Rightarrow> bool" where
  "paged_shape bs w nb c \<longleftrightarrow> pk_block_size c = int bs \<and> 0 < bs \<and> pk_kv_dim c = int w \<and> 0 < w
     \<and> num_blocks (pk_alloc c) = int nb \<and> alloc_inv (pk_alloc c)
     \<and> distinct (pk_table c) \<and> (\<forall>b \<in> set (pk_table c). 0 < refs_of (pk_alloc c) b)
     \<and> length (pk_values c) = length (pk_keys c) \<and> length (pk_filled c) = length (pk_keys c)
     \<and> (\<forall>s \<in> set (pk_keys c) \<union> set (pk_values c). length s = nb * bs * w)
     \<and> (\<forall>f \<in> set (pk_filled c). 0 \<le> f \<and> f \<le> int (length (pk_table c) * bs))"

definition paged_inv :: "paged_kv_cache \<Rightarrow> bool" where
  "paged_inv c \<longleftrightarrow>
     paged_shape (nat (pk_block_size c)) (nat (pk_kv_dim c)) (nat (num_blocks (pk_alloc c))) c"

definition paged_hist :: "paged_kv_cache \<Rightarrow> nat \<Rightarrow> f32 list list \<times> f32 list list" where
  "paged_hist c l =
     (let bs = nat (pk_block_size c); w = nat (pk_kv_dim c); n = nat (pk_filled c ! l)
      in if l < length (pk_keys c)
         then (seq_rows bs w (pk_table c) (pk_keys c ! l) n, seq_rows bs w (pk_table c) (pk_values c ! l) n)
         else ([], []))"

text \<open>The rows the table and the free blocks can hold together.\<close>

definition paged_room :: "paged_kv_cache \<Rightarrow> nat \<Rightarrow> bool" where
  "paged_room c m \<longleftrightarrow> int m \<le> (blocks_used c + num_free (pk_alloc c)) * pk_block_size c"

lemma paged_shape_inv: "paged_shape bs w nb c \<Longrightarrow> paged_inv c"
  by (simp add: paged_inv_def paged_shape_def)

lemma paged_shapeD:
  assumes "paged_shape bs w nb c"
  shows "pk_block_size c = int bs" "0 < bs" "pk_kv_dim c = int w" "0 < w" "num_blocks (pk_alloc c) = int nb"
    "alloc_inv (pk_alloc c)" "distinct (pk_table c)"
    "\<And>b. b \<in> set (pk_table c) \<Longrightarrow> 0 < refs_of (pk_alloc c) b"
    "length (pk_values c) = length (pk_keys c)" "length (pk_filled c) = length (pk_keys c)"
    "\<And>l. l < length (pk_keys c) \<Longrightarrow> length (pk_keys c ! l) = nb * bs * w"
    "\<And>l. l < length (pk_keys c) \<Longrightarrow> length (pk_values c ! l) = nb * bs * w"
    "\<And>l. l < length (pk_keys c) \<Longrightarrow> 0 \<le> pk_filled c ! l"
    "\<And>l. l < length (pk_keys c) \<Longrightarrow> nat (pk_filled c ! l) \<le> length (pk_table c) * bs"
  using assms by (auto simp: paged_shape_def nat_le_iff)

lemma paged_shape_table_ok:
  assumes "paged_shape bs w nb c" shows "table_ok nb (pk_table c)"
  unfolding table_ok_def
proof
  fix b assume "b \<in> set (pk_table c)"
  from refs_of_pos_range[OF paged_shapeD(8)[OF assms this]] paged_shapeD(5)[OF assms]
  show "0 \<le> b \<and> b < int nb" by simp
qed

lemma paged_hist_shape:
  "paged_shape bs w nb c \<Longrightarrow> l < length (pk_keys c) \<Longrightarrow> paged_hist c l =
    (seq_rows bs w (pk_table c) (pk_keys c ! l) (nat (pk_filled c ! l)),
     seq_rows bs w (pk_table c) (pk_values c ! l) (nat (pk_filled c ! l)))"
  by (simp add: paged_hist_def paged_shapeD(1,3) Let_def)

text \<open>Growing the table keeps what it holds and takes the blocks from the pool.\<close>

lemma ensure_blocks_ok:
  assumes sh: "paged_shape bs w nb c" and room: "paged_room c m"
  shows "\<exists>new al. ensure_blocks (int m) c = Inr (c\<lparr>pk_table := pk_table c @ new, pk_alloc := al\<rparr>)
    \<and> paged_shape bs w nb (c\<lparr>pk_table := pk_table c @ new, pk_alloc := al\<rparr>)
    \<and> num_free al = num_free (pk_alloc c) - int (length new)
    \<and> m \<le> length (pk_table c @ new) * bs"
proof -
  note D = paged_shapeD[OF sh]
  let ?a = "pk_alloc c" and ?t = "pk_table c"
  define needed where "needed = (int m + int bs - 1) div int bs"
  define k where "k = nat (needed - int (length ?t))"
  have needed_le: "needed \<le> j \<longleftrightarrow> int m \<le> j * int bs" for j
    using ceil_div_le_iff[of "int bs" "int m" j] D(2) by (simp add: needed_def)
  have "needed \<le> int (length ?t) + num_free ?a"
    using room needed_le by (simp add: paged_room_def blocks_used_def D(1))
  then have kav: "k \<le> nat (num_free ?a)" by (simp add: k_def)
  from ba.grow_some[OF D(6) kav, of ?t] obtain new al where
    g: "grow allocate k ?t ?a = Inr (?t @ new, al)" "length new = k" "distinct new"
       "\<forall>b \<in> set new. refs_of ?a b = 0 \<and> 0 \<le> b \<and> b < int (nat (num_blocks ?a))"
       "alloc_inv al" "nat (num_blocks al) = nat (num_blocks ?a)"
       "nat (num_free al) = nat (num_free ?a) - k"
       "refs_of al = (\<lambda>b. if b \<in> set new then 1 else refs_of ?a b)"
    by blast
  have numb: "num_blocks al = int nb" using g(6) D(5) by (simp add: num_blocks_def)
  have "ensure_blocks (int m) c = Inr (c\<lparr>pk_table := ?t @ new, pk_alloc := al\<rparr>)"
    using g(1) D(1,2) by (simp add: ensure_blocks_def grow_to_def Let_def k_def needed_def)
  moreover have "paged_shape bs w nb (c\<lparr>pk_table := ?t @ new, pk_alloc := al\<rparr>)"
  proof -
    have "set new \<inter> set ?t = {}" using D(8) g(4) by fastforce
    moreover have "f \<le> (int (length ?t) + int (length new)) * int bs" if "f \<le> int (length ?t) * int bs" for f
      using that by (simp add: distrib_right add_increasing2)
    ultimately show ?thesis
      using sh g(3,5) numb unfolding paged_shape_def by (auto simp: g(8))
  qed
  moreover have "num_free al = num_free ?a - int (length new)"
    using g(2,7) kav by (simp add: num_free_def of_nat_diff)
  moreover have "m \<le> length (?t @ new) * bs"
  proof -
    have "needed \<le> int (length (?t @ new))" using g(2) by (simp add: k_def)
    then have "int m \<le> int (length (?t @ new) * bs)" using needed_le by simp
    then show ?thesis by (simp only: of_nat_le_iff)
  qed
  ultimately show ?thesis by blast
qed

lemma paged_append_ok:
  assumes sh: "paged_shape bs w nb c" and l: "l < length (pk_keys c)"
    and k: "length k = n * w" and v: "length v = n * w"
    and room: "paged_room c (nat (pk_filled c ! l) + n)"
  shows "\<exists>c'. paged_append (int l) k v (int n) c = Inr c' \<and> paged_shape bs w nb c'
    \<and> length (pk_keys c') = length (pk_keys c) \<and> pk_length c' = pk_length c
    \<and> blocks_used c' + num_free (pk_alloc c') = blocks_used c + num_free (pk_alloc c)
    \<and> paged_hist c' = (paged_hist c)(l := (fst (paged_hist c l) @ rows w n k, snd (paged_hist c l) @ rows w n v))"
proof -
  define m where "m = nat (pk_filled c ! l)"
  from ensure_blocks_ok[OF sh room[folded m_def]] obtain new al where
    eb: "ensure_blocks (int (m + n)) c = Inr (c\<lparr>pk_table := pk_table c @ new, pk_alloc := al\<rparr>)"
    and sh1: "paged_shape bs w nb (c\<lparr>pk_table := pk_table c @ new, pk_alloc := al\<rparr>)"
    and nfe: "num_free al = num_free (pk_alloc c) - int (length new)"
    and cov: "m + n \<le> length (pk_table c @ new) * bs" by blast
  define t where "t = pk_table c @ new"
  define c1 where "c1 = c\<lparr>pk_table := t, pk_alloc := al\<rparr>"
  have sh1: "paged_shape bs w nb c1" using sh1 by (simp add: c1_def t_def)
  note D = paged_shapeD[OF sh] and D1 = paged_shapeD[OF sh1]
  have tok: "table_ok nb t" using paged_shape_table_ok[OF sh1] by (simp add: c1_def)
  have dst: "distinct t" using D1(7) by (simp add: c1_def)
  have fm: "pk_filled c ! l = int m" using D(13)[OF l] by (simp add: m_def)
  from paged_write_seq_rows[OF D(2) tok distinct_once_from[OF dst] cov[folded t_def] D(11)[OF l] k] obtain ks where
    ks: "paged_write (int bs) (int w) t (pk_keys c ! l) (int m) k (int n) = Inr ks"
        "length ks = nb * bs * w" "seq_rows bs w t ks (m + n) = seq_rows bs w t (pk_keys c ! l) m @ rows w n k"
    using D(11)[OF l] by auto
  from paged_write_seq_rows[OF D(2) tok distinct_once_from[OF dst] cov[folded t_def] D(12)[OF l] v] obtain vs where
    vs: "paged_write (int bs) (int w) t (pk_values c ! l) (int m) v (int n) = Inr vs"
        "length vs = nb * bs * w" "seq_rows bs w t vs (m + n) = seq_rows bs w t (pk_values c ! l) m @ rows w n v"
    using D(12)[OF l] by auto
  define c' where "c' = c1\<lparr>pk_keys := (pk_keys c)[l := ks], pk_values := (pk_values c)[l := vs],
                            pk_filled := (pk_filled c)[l := int (m + n)]\<rparr>"
  have run: "paged_append (int l) k v (int n) c = Inr c'"
    using l D(9,10) fm eb ks(1) vs(1) D1(1,3)
    by (simp add: paged_append_def mem_simps write_rows_def c1_def[symmetric] t_def[symmetric] c'_def)
       (simp add: c1_def mem_simps D(9))
  have sh': "paged_shape bs w nb c'"
    unfolding paged_shape_def
  proof (intro conjI ballI)
    fix s assume "s \<in> set (pk_keys c') \<union> set (pk_values c')"
    then have "s \<in> insert ks (set (pk_keys c)) \<union> insert vs (set (pk_values c))"
      by (auto simp: c'_def c1_def dest: subsetD[OF set_update_subset_insert])
    then show "length s = nb * bs * w" using sh ks(2) vs(2) by (auto simp: paged_shape_def)
  next
    fix f assume "f \<in> set (pk_filled c')"
    then have "f \<in> insert (int (m + n)) (set (pk_filled c1))"
      by (auto simp: c'_def c1_def dest: subsetD[OF set_update_subset_insert])
    then show "0 \<le> f" "f \<le> int (length (pk_table c') * bs)"
      using sh1 cov by (auto simp: paged_shape_def c'_def c1_def t_def simp flip: of_nat_add of_nat_mult)
  qed (use D1 D in \<open>auto simp: c'_def c1_def\<close>)
  have "paged_hist c' i = ((paged_hist c)(l := (fst (paged_hist c l) @ rows w n k, snd (paged_hist c l) @ rows w n v))) i"
    for i
  proof (cases "i < length (pk_keys c)")
    case False
    then show ?thesis using l by (auto simp: paged_hist_def c'_def c1_def Let_def)
  next
    case i: True
    have old: "seq_rows bs w t st (nat (pk_filled c ! i)) = seq_rows bs w (pk_table c) st (nat (pk_filled c ! i))" for st
      unfolding t_def by (rule seq_rows_append_table[OF D(2) D(14)[OF i]])
    show ?thesis
    proof (cases "i = l")
      case True
      then show ?thesis
        using i ks(3) vs(3) old D(9,10)
        by (simp add: paged_hist_shape[OF sh] m_def[symmetric])
           (simp add: paged_hist_def c'_def c1_def nat_add_distrib D(1,3))
    next
      case False
      then show ?thesis
        using i old by (simp add: paged_hist_def c'_def c1_def Let_def D(1,3))
    qed
  qed
  then have "paged_hist c' = (paged_hist c)(l := (fst (paged_hist c l) @ rows w n k, snd (paged_hist c l) @ rows w n v))"
    by (rule ext)
  moreover have "blocks_used c' + num_free (pk_alloc c') = blocks_used c + num_free (pk_alloc c)"
    using nfe by (simp add: blocks_used_def c'_def c1_def t_def)
  ultimately show ?thesis using run sh' by (auto simp: c'_def c1_def)
qed

lemma paged_tensor_ok:
  assumes sh: "paged_shape bs w nb c" and l: "l < length (pk_keys c)"
  shows "paged_key_tensor (int l) c = Inr (mk_mat (nat (pk_filled c ! l)) w (fst (paged_hist c l)))"
    and "paged_value_tensor (int l) c = Inr (mk_mat (nat (pk_filled c ! l)) w (snd (paged_hist c l)))"
proof -
  note D = paged_shapeD[OF sh]
  have f: "pk_filled c ! l = int (nat (pk_filled c ! l))" using D(13)[OF l] by simp
  note g = paged_gather_ok[OF D(2) paged_shape_table_ok[OF sh] D(14)[OF l]]
  show "paged_key_tensor (int l) c = Inr (mk_mat (nat (pk_filled c ! l)) w (fst (paged_hist c l)))"
    using l D(9,10) g[OF D(11)[OF l]] D(1,3) f
    by (simp add: paged_key_tensor_def mem_simps pk_gather_def paged_hist_shape[OF sh l])
  show "paged_value_tensor (int l) c = Inr (mk_mat (nat (pk_filled c ! l)) w (snd (paged_hist c l)))"
    using l D(9,10) g[OF D(12)[OF l]] D(1,3) f
    by (simp add: paged_value_tensor_def mem_simps pk_gather_def paged_hist_shape[OF sh l])
qed

lemma seq_rows_mem_length:
  assumes "0 < bs" "table_ok nb t" "n \<le> length t * bs" "length st = nb * bs * w" "x \<in> set (seq_rows bs w t st n)"
  shows "length x = w"
proof -
  from assms(5) obtain r where r: "r < n" "x = row w (phys bs t r) st" by (auto simp: seq_rows_def)
  then have "phys bs t r < nb * bs" using phys_lt[OF assms(2,1)] assms(3) by simp
  then show ?thesis using r(2) length_row[of "nb * bs" w st] assms(4) by simp
qed

section \<open>The paged cache keeps the contract of the contiguous one\<close>

interpretation pkc: kv_store paged_append paged_key_tensor paged_value_tensor paged_advance pk_length paged_hist
  paged_room "\<lambda>c. length (pk_keys c)" "\<lambda>c. nat (pk_kv_dim c)" paged_inv
proof (unfold_locales, goal_cases)
  case (1 c l k n v)
  then have sh: "paged_shape (nat (pk_block_size c)) (nat (pk_kv_dim c)) (nat (num_blocks (pk_alloc c))) c"
    by (simp add: paged_inv_def)
  have h: "length (fst (paged_hist c l)) = nat (pk_filled c ! l)" using 1 by (simp add: paged_hist_shape[OF sh])
  from paged_append_ok[OF sh 1(2,3,4) 1(5)[unfolded h]] obtain c' where
    c': "paged_append (int l) k v (int n) c = Inr c'"
    "paged_shape (nat (pk_block_size c)) (nat (pk_kv_dim c)) (nat (num_blocks (pk_alloc c))) c'"
    "length (pk_keys c') = length (pk_keys c)" "pk_length c' = pk_length c"
    "blocks_used c' + num_free (pk_alloc c') = blocks_used c + num_free (pk_alloc c)"
    "paged_hist c' = (paged_hist c)(l := (fst (paged_hist c l) @ rows (nat (pk_kv_dim c)) n k,
                                           snd (paged_hist c l) @ rows (nat (pk_kv_dim c)) n v))" by blast
  have "pk_block_size c' = pk_block_size c" "pk_kv_dim c' = pk_kv_dim c"
    using paged_shapeD(1,3)[OF c'(2)] paged_shapeD(1,3)[OF sh] by simp_all
  with c' show ?case using paged_shape_inv[OF c'(2)] by (auto simp: paged_room_def fun_eq_iff)
next
  case (2 c l)
  then have sh: "paged_shape (nat (pk_block_size c)) (nat (pk_kv_dim c)) (nat (num_blocks (pk_alloc c))) c"
    by (simp add: paged_inv_def)
  show ?case using paged_tensor_ok(1)[OF sh 2(2)] 2(2) by (simp add: paged_hist_shape[OF sh])
next
  case (3 c l)
  then have sh: "paged_shape (nat (pk_block_size c)) (nat (pk_kv_dim c)) (nat (num_blocks (pk_alloc c))) c"
    by (simp add: paged_inv_def)
  show ?case using paged_tensor_ok(2)[OF sh 3(2)] 3(2) by (simp add: paged_hist_shape[OF sh])
next
  case (4 c i)
  then show ?case
    by (auto simp: paged_advance_def paged_inv_def paged_shape_def paged_hist_def paged_room_def blocks_used_def
        fun_eq_iff Let_def)
next
  case (5 c l)
  then have sh: "paged_shape (nat (pk_block_size c)) (nat (pk_kv_dim c)) (nat (num_blocks (pk_alloc c))) c"
    by (simp add: paged_inv_def)
  note D = paged_shapeD[OF sh]
  show ?case
    using 5(2) seq_rows_mem_length[OF D(2) paged_shape_table_ok[OF sh] D(14)[OF 5(2)] D(11)[OF 5(2)]]
      seq_rows_mem_length[OF D(2) paged_shape_table_ok[OF sh] D(14)[OF 5(2)] D(12)[OF 5(2)]]
    by (auto simp: paged_hist_shape[OF sh])
qed

lemma paged_new_inv:
  assumes "0 < n" "0 < w" "0 < bs" "0 \<le> nb"
  shows "\<exists>c. paged_new n w bs nb = Inr c \<and> paged_inv c \<and> length (pk_keys c) = nat n \<and> pk_kv_dim c = w
    \<and> pk_length c = 0 \<and> pk_block_size c = bs \<and> (\<forall>l < nat n. paged_hist c l = ([], []))
    \<and> (\<forall>m. paged_room c m \<longleftrightarrow> int m \<le> nb * bs)"
proof -
  obtain al where al: "allocator_new nb = Inr al" using assms(4) by (simp add: allocator_new_def)
  note an = alloc_new_inv[OF al]
  show ?thesis
    using assms al an
    by (auto simp: paged_new_def Let_def paged_inv_def paged_shape_def paged_hist_def seq_rows_def
        paged_room_def blocks_used_def nat_mult_distrib)
qed

section \<open>Properties\<close>

text \<open>C27: Paging is invisible. Run any sequence of appends on a new paged cache and on a new
  contiguous cache: as long as no layer receives more rows than the pool has slots, both
  succeed, and every layer then has the same key tensor and the same value tensor.\<close>

theorem paged_refines_contiguous:
  assumes "0 < nl" "0 < w" "0 < bs" "list_all (op_ok nl w) ops" "\<forall>l < nl. op_rows l ops \<le> nb * bs"
  shows "\<exists>p d. res_bind (paged_new (int nl) (int w) (int bs) (int nb)) (append_all paged_append ops) = Inr p
    \<and> res_bind (kv_new (int nl) (int w)) (append_all kv_append ops) = Inr d
    \<and> (\<forall>l < nl. paged_key_tensor (int l) p = kv_key_tensor (int l) d
         \<and> paged_value_tensor (int l) p = kv_value_tensor (int l) d
         \<and> (\<exists>t. paged_key_tensor (int l) p = Inr t))"
proof -
  from paged_new_inv[of "int nl" "int w" "int bs" "int nb"] assms obtain p0 where
    p0: "paged_new (int nl) (int w) (int bs) (int nb) = Inr p0" "paged_inv p0" "length (pk_keys p0) = nl"
    "pk_kv_dim p0 = int w" "\<forall>l < nl. paged_hist p0 l = ([], [])" "\<forall>m. paged_room p0 m \<longleftrightarrow> m \<le> nb * bs"
    by (auto simp flip: of_nat_mult)
  from kv_new_inv[of "int nl" "int w"] assms obtain d0 where
    d0: "kv_new (int nl) (int w) = Inr d0" "kv_inv d0" "length (kc_keys d0) = nl" "kc_kv_dim d0 = int w"
    "\<forall>l < nl. kv_hist d0 l = ([], [])" by auto
  have "\<exists>p. append_all paged_append ops p0 = Inr p \<and> paged_inv p \<and> length (pk_keys p) = length (pk_keys p0)
      \<and> nat (pk_kv_dim p) = nat (pk_kv_dim p0) \<and> pk_length p = pk_length p0 \<and> paged_room p = paged_room p0
      \<and> paged_hist p = fold (append_rows (nat (pk_kv_dim p0))) ops (paged_hist p0)"
    by (rule pkc.append_all_ok[of p0 ops "nb * bs"]) (use p0 assms(4,5) in simp_all)
  then obtain p where p: "append_all paged_append ops p0 = Inr p" "paged_inv p" "length (pk_keys p) = nl"
    "nat (pk_kv_dim p) = w" "paged_hist p = fold (append_rows w) ops (paged_hist p0)" using p0(3,4) by auto
  have "\<exists>d. append_all kv_append ops d0 = Inr d \<and> kv_inv d \<and> length (kc_keys d) = length (kc_keys d0)
      \<and> nat (kc_kv_dim d) = nat (kc_kv_dim d0) \<and> kc_length d = kc_length d0 \<and> True
      \<and> kv_hist d = fold (append_rows (nat (kc_kv_dim d0))) ops (kv_hist d0)"
    using kvc.append_all_ok[of d0 ops "nb * bs"] d0 assms(4,5) by simp
  then obtain d where d: "append_all kv_append ops d0 = Inr d" "kv_inv d" "length (kc_keys d) = nl"
    "nat (kc_kv_dim d) = w" "kv_hist d = fold (append_rows w) ops (kv_hist d0)" using d0(3,4) by auto
  have "\<forall>l < nl. f l = g l \<Longrightarrow> l < nl \<Longrightarrow> fold (append_rows w) ops f l = fold (append_rows w) ops g l" for f g l
    by (induction ops arbitrary: f g) (auto simp: append_rows_def split: prod.splits)
  then have "paged_hist p l = kv_hist d l" if "l < nl" for l
    using that p0(5) d0(5) p(5) d(5) by simp
  then show ?thesis
    using p0(1) d0(1) p d pkc.key_ok[OF p(2)] pkc.value_ok[OF p(2)] kvc.key_ok[OF d(2)] kvc.value_ok[OF d(2)]
    by simp
qed

lemma paged_refines_contiguous_witness:
  "\<exists>p d. res_bind (paged_new 1 1 2 2) (append_all paged_append [(0, 2, [7, 8], [1, 2]), (0, 1, [9], [3])]) = Inr p
    \<and> res_bind (kv_new 1 1) (append_all kv_append [(0, 2, [7, 8], [1, 2]), (0, 1, [9], [3])]) = Inr d
    \<and> paged_key_tensor 0 p = kv_key_tensor 0 d \<and> paged_value_tensor 0 p = kv_value_tensor 0 d"
  using paged_refines_contiguous[of 1 1 2 "[(0, 2, [7, 8], [1, 2]), (0, 1, [9], [3])]" 2]
  by (simp add: op_ok_def op_rows_def) blast

text \<open>A paged append needs the pool. When the rows asked for need more blocks than the
  table has and the pool has free, the append fails with the allocator's error.\<close>

theorem paged_append_out_of_blocks:
  assumes "paged_inv c" "l < length (pk_keys c)" "\<not> paged_room c (nat (pk_filled c ! l) + n)"
  shows "\<exists>e. paged_append (int l) k v (int n) c = Inl e"
proof -
  let ?bs = "nat (pk_block_size c)" and ?m = "nat (pk_filled c ! l) + n"
  from assms(1) have sh: "paged_shape ?bs (nat (pk_kv_dim c)) (nat (num_blocks (pk_alloc c))) c"
    by (simp add: paged_inv_def)
  note D = paged_shapeD[OF sh]
  define needed where "needed = (int ?m + int ?bs - 1) div int ?bs"
  have "needed \<le> j \<longleftrightarrow> int ?m \<le> j * int ?bs" for j
    using ceil_div_le_iff[of "int ?bs" "int ?m" j] D(2) by (simp add: needed_def)
  then have "blocks_used c + num_free (pk_alloc c) < needed"
    using assms(3) D(2) by (simp add: paged_room_def not_le flip: not_less)
  then have k: "nat (num_free (pk_alloc c)) < nat (needed - int (length (pk_table c)))"
    by (simp add: blocks_used_def num_free_def)
  from ba.grow_none[OF D(6) k, of "pk_table c"] obtain e where
    "grow allocate (nat (needed - int (length (pk_table c)))) (pk_table c) (pk_alloc c) = Inl e" by blast
  then have "ensure_blocks (int ?m) c = Inl e"
    using D(2) by (simp add: ensure_blocks_def grow_to_def needed_def)
  then show ?thesis
    using assms(2) D(10) D(13)[OF assms(2)] by (simp add: paged_append_def mem_simps)
qed

lemma paged_append_out_of_blocks_witness:
  "\<exists>c. paged_new 1 1 2 1 = Inr c \<and> (\<exists>e. paged_append 0 [1, 2, 3] [1, 2, 3] 3 c = Inl e)"
proof -
  from paged_new_inv[of 1 1 2 1] obtain c where c: "paged_new 1 1 2 1 = Inr c" "paged_inv c"
    "length (pk_keys c) = 1" "\<forall>m. paged_room c m \<longleftrightarrow> int m \<le> 2" by auto
  have "pk_filled c = [0]" using c(1) by (auto simp: paged_new_def allocator_new_def Let_def)
  then have "\<exists>e. paged_append (int 0) [1, 2, 3] [1, 2, 3] (int 3) c = Inl e"
    using c by (intro paged_append_out_of_blocks) auto
  then show ?thesis using c(1) by simp
qed

end
