(* ===== verification/Block_Manager.thy ===== *)
theory Block_Manager
  imports Paging Block_Allocator "HOL-Library.AList" "HOL-Library.Multiset"
begin

text \<open>
  \<open>block_manager.hpp\<close> and \<open>block_manager.cpp\<close>: one physical pool serving many
  sequences, with prefix caching. \<open>prefix_\<close> is an association list in the iteration
  order of the \<open>unordered_map\<close> (no result below depends on that order, because the
  ticks of the entries differ); a bucket is the list of its entries. A
  \<open>SequenceBlocks&\<close> argument is passed and returned.
\<close>

unbundle bit_operations_syntax

section \<open>State\<close>

record sequence_blocks =
  block_table :: "int list"
  seq_length :: int

record prefix_entry =
  pe_parent :: "64 word"
  pe_tokens :: "int list"
  pe_block :: int
  pe_last_used :: int

record block_manager =
  bm_num_layers :: int
  bm_kv_dim :: int
  bm_block_size :: int
  bm_alloc :: block_allocator
  bm_keys :: "f32 list list"
  bm_values :: "f32 list list"
  bm_prefix :: "(64 word \<times> prefix_entry list) list"
  bm_prefix_hits :: int
  bm_tick :: int

definition no_blocks :: sequence_blocks where
  "no_blocks = \<lparr>block_table = [], seq_length = 0\<rparr>"

definition bm_new :: "int \<Rightarrow> int \<Rightarrow> int \<Rightarrow> int \<Rightarrow> block_manager res" where
  "bm_new num_layers kv_dim block_size nblocks =
     res_bind (allocator_new nblocks) (\<lambda>al.
       if num_layers \<le> 0 \<or> kv_dim \<le> 0 \<or> block_size \<le> 0
       then Inl (InvalidArgument ''BlockManager: num_layers, kv_dim, block_size must be positive'')
       else let pool = replicate (nat (nblocks * block_size * kv_dim)) 0;
                stores = replicate (nat num_layers) pool
            in Inr \<lparr>bm_num_layers = num_layers, bm_kv_dim = kv_dim, bm_block_size = block_size,
                    bm_alloc = al, bm_keys = stores, bm_values = stores,
                    bm_prefix = [], bm_prefix_hits = 0, bm_tick = 0\<rparr>)"

definition free_blocks :: "block_manager \<Rightarrow> int" where
  "free_blocks m = num_free (bm_alloc m)"

definition blocks_for :: "block_manager \<Rightarrow> int \<Rightarrow> int" where
  "blocks_for m tokens = (tokens + bm_block_size m - 1) sdiv bm_block_size m"

definition can_append :: "block_manager \<Rightarrow> sequence_blocks \<Rightarrow> int \<Rightarrow> bool" where
  "can_append m seq n_new \<longleftrightarrow>
     blocks_for m (seq_length seq + n_new) - int (length (block_table seq)) \<le> num_free (bm_alloc m)"

section \<open>Eviction and allocation\<close>

text \<open>The entries of the cache in iteration order, each with its bucket and index.\<close>

definition located :: "(64 word \<times> prefix_entry list) list \<Rightarrow> (64 word \<times> nat \<times> prefix_entry) list" where
  "located pm = concat (map (\<lambda>(h, es). map (\<lambda>i. (h, i, es ! i)) [0..<length es]) pm)"

text \<open>
  The scan of \<open>evict_lru\<close>: \<open>None\<close> while nothing was found, else the victim's bucket, its
  index and the least \<open>last_used\<close> so far.
\<close>

definition evict_scan ::
    "block_allocator \<Rightarrow> 64 word \<times> nat \<times> prefix_entry \<Rightarrow> (64 word \<times> nat \<times> int) option \<Rightarrow>
     (64 word \<times> nat \<times> int) option res" where
  "evict_scan al c best =
     (case c of (h, i, e) \<Rightarrow>
       res_bind (ref_count al (pe_block e)) (\<lambda>rc.
         if rc = 1 \<and> (case best of None \<Rightarrow> True | Some (_, _, oldest) \<Rightarrow> pe_last_used e < oldest)
         then Inr (Some (h, i, pe_last_used e)) else Inr best))"

definition erase_at :: "nat \<Rightarrow> 'a list \<Rightarrow> 'a list" where
  "erase_at i xs = take i xs @ drop (Suc i) xs"

definition evict_lru :: "block_manager \<Rightarrow> block_manager res" where
  "evict_lru m =
     res_bind (res_fold (evict_scan (bm_alloc m)) (located (bm_prefix m)) None) (\<lambda>found.
       case found of
         None \<Rightarrow> Inr m
       | Some (victim_hash, victim_index, _) \<Rightarrow>
           (case map_of (bm_prefix m) victim_hash of
              None \<Rightarrow> Inl Undefined
            | Some bucket \<Rightarrow>
                res_bind (vec_get bucket (int victim_index)) (\<lambda>e.
                res_bind (free (pe_block e) (bm_alloc m)) (\<lambda>al.
                  let bucket' = erase_at victim_index bucket
                  in Inr (m\<lparr>bm_alloc := al,
                            bm_prefix := (if bucket' = [] then AList.delete victim_hash (bm_prefix m)
                                          else AList.update victim_hash bucket' (bm_prefix m))\<rparr>)))))"

definition allocate_block :: "block_manager \<Rightarrow> (int \<times> block_manager) res" where
  "allocate_block m =
     res_bind (if num_free (bm_alloc m) = 0 then evict_lru m else Inr m) (\<lambda>m.
     res_bind (allocate (bm_alloc m)) (\<lambda>(b, al). Inr (b, m\<lparr>bm_alloc := al\<rparr>)))"

definition reserve :: "sequence_blocks \<Rightarrow> int \<Rightarrow> block_manager \<Rightarrow> (sequence_blocks \<times> block_manager) res" where
  "reserve seq n_new m =
     res_bind (grow_to allocate_block (blocks_for m (seq_length seq + n_new)) (block_table seq) m)
       (\<lambda>(tbl, m). Inr (seq\<lparr>block_table := tbl\<rparr>, m))"

section \<open>Reading and writing a sequence\<close>

definition write_one ::
    "block_manager \<Rightarrow> f32 list \<Rightarrow> sequence_blocks \<Rightarrow> int \<Rightarrow> f32 list \<Rightarrow> int \<Rightarrow> f32 list res" where
  "write_one m store seq start src n =
     paged_write (bm_block_size m) (bm_kv_dim m) (block_table seq) store start src n"

definition bm_write ::
    "sequence_blocks \<Rightarrow> int \<Rightarrow> int \<Rightarrow> f32 list \<Rightarrow> f32 list \<Rightarrow> int \<Rightarrow> block_manager \<Rightarrow> block_manager res" where
  "bm_write seq layer start k v n m =
     res_bind (vec_get (bm_keys m) layer) (\<lambda>ks.
     res_bind (write_one m ks seq start k n) (\<lambda>ks'.
     res_bind (vec_set (bm_keys m) layer ks') (\<lambda>keys'.
     res_bind (vec_get (bm_values m) layer) (\<lambda>vs.
     res_bind (write_one m vs seq start v n) (\<lambda>vs'.
     res_bind (vec_set (bm_values m) layer vs') (\<lambda>values'.
       Inr (m\<lparr>bm_keys := keys', bm_values := values'\<rparr>)))))))"

definition gather_one :: "block_manager \<Rightarrow> f32 list \<Rightarrow> sequence_blocks \<Rightarrow> int \<Rightarrow> tensor res" where
  "gather_one m store seq n_rows =
     paged_gather (bm_block_size m) (bm_kv_dim m) (block_table seq) store n_rows"

definition gather_keys :: "block_manager \<Rightarrow> sequence_blocks \<Rightarrow> int \<Rightarrow> int \<Rightarrow> tensor res" where
  "gather_keys m seq layer n_rows =
     res_bind (vec_get (bm_keys m) layer) (\<lambda>store. gather_one m store seq n_rows)"

definition gather_values :: "block_manager \<Rightarrow> sequence_blocks \<Rightarrow> int \<Rightarrow> int \<Rightarrow> tensor res" where
  "gather_values m seq layer n_rows =
     res_bind (vec_get (bm_values m) layer) (\<lambda>store. gather_one m store seq n_rows)"

definition commit :: "sequence_blocks \<Rightarrow> int \<Rightarrow> sequence_blocks" where
  "commit seq n = seq\<lparr>seq_length := seq_length seq + n\<rparr>"

definition release_block :: "int \<Rightarrow> block_manager \<Rightarrow> block_manager res" where
  "release_block b m = res_bind (free b (bm_alloc m)) (\<lambda>al. Inr (m\<lparr>bm_alloc := al\<rparr>))"

definition share_block :: "int \<Rightarrow> block_manager \<Rightarrow> block_manager res" where
  "share_block b m = res_bind (incref b (bm_alloc m)) (\<lambda>al. Inr (m\<lparr>bm_alloc := al\<rparr>))"

definition bm_free :: "sequence_blocks \<Rightarrow> block_manager \<Rightarrow> (sequence_blocks \<times> block_manager) res" where
  "bm_free seq m =
     res_bind (res_fold release_block (block_table seq) m) (\<lambda>m.
       Inr (seq\<lparr>block_table := [], seq_length := 0\<rparr>, m))"

section \<open>Prefix caching\<close>

definition hash_token :: "64 word \<Rightarrow> int \<Rightarrow> 64 word" where
  "hash_token h token =
     (let val = word_of_int token :: 64 word
      in foldl (\<lambda>h shift. (h XOR (drop_bit shift val AND 0xff)) * 0x100000001b3) h
           [0, 8, 16, 24, 32, 40, 48, 56])"

definition hash_block :: "64 word \<Rightarrow> int list \<Rightarrow> 64 word" where
  "hash_block parent tokens = foldl hash_token (parent XOR 0xcbf29ce484222325) tokens"

definition entry_matches :: "64 word \<Rightarrow> int list \<Rightarrow> prefix_entry \<Rightarrow> bool" where
  "entry_matches parent span e \<longleftrightarrow>
     pe_parent e = parent \<and> length (pe_tokens e) = length span \<and> pe_tokens e = span"

text \<open>The search in a bucket: the first match is refreshed and its block returned.\<close>

fun touch_entry :: "(prefix_entry \<Rightarrow> bool) \<Rightarrow> int \<Rightarrow> prefix_entry list \<Rightarrow> (int \<times> prefix_entry list) option" where
  "touch_entry P tick [] = None"
| "touch_entry P tick (e # es) =
     (if P e then Some (pe_block e, e\<lparr>pe_last_used := tick\<rparr> # es)
      else map_option (\<lambda>(b, es'). (b, e # es')) (touch_entry P tick es))"

text \<open>
  The loop of \<open>acquire_shared_prefix\<close> over the full blocks of the tokens, with the parent
  hash, the sequence, the manager and the count of matched tokens as its state.
\<close>

fun acquire_loop ::
    "int list list \<Rightarrow> 64 word \<Rightarrow> sequence_blocks \<Rightarrow> block_manager \<Rightarrow> int \<Rightarrow>
     (sequence_blocks \<times> block_manager \<times> int) res" where
  "acquire_loop [] parent seq m matched = Inr (seq, m, matched)"
| "acquire_loop (span # spans) parent seq m matched =
     (let h = hash_block parent span
      in case map_of (bm_prefix m) h of
           None \<Rightarrow> Inr (seq, m, matched)
         | Some es \<Rightarrow>
             (case touch_entry (entry_matches parent span) (bm_tick m + 1) es of
                None \<Rightarrow> Inr (seq, m, matched)
              | Some (block, es') \<Rightarrow>
                  (let m = m\<lparr>bm_prefix := AList.update h es' (bm_prefix m), bm_tick := bm_tick m + 1\<rparr>
                   in if block < 0 then Inr (seq, m, matched)
                      else res_bind (share_block block m) (\<lambda>m.
                             acquire_loop spans h (seq\<lparr>block_table := block_table seq @ [block]\<rparr>) m
                               (matched + bm_block_size m)))))"

definition acquire_shared_prefix ::
    "sequence_blocks \<Rightarrow> int list \<Rightarrow> block_manager \<Rightarrow> (int \<times> sequence_blocks \<times> block_manager) res" where
  "acquire_shared_prefix seq tokens m =
     (if block_table seq \<noteq> [] \<or> seq_length seq \<noteq> 0 then Inr (0, seq, m)
      else let full_blocks = int (length tokens) sdiv bm_block_size m
           in res_bind (acquire_loop (rows (nat (bm_block_size m)) (nat full_blocks) tokens) 0 seq m 0)
                (\<lambda>(seq, m, matched).
                  Inr (matched, seq\<lparr>seq_length := matched\<rparr>,
                       if 0 < matched then m\<lparr>bm_prefix_hits := bm_prefix_hits m + 1\<rparr> else m)))"

fun register_loop ::
    "nat \<Rightarrow> int list list \<Rightarrow> 64 word \<Rightarrow> sequence_blocks \<Rightarrow> block_manager \<Rightarrow> block_manager res" where
  "register_loop b [] parent seq m = Inr m"
| "register_loop b (span # spans) parent seq m =
     (let h = hash_block parent span;
          es = (case map_of (bm_prefix m) h of None \<Rightarrow> [] | Some es \<Rightarrow> es)
      in if list_ex (entry_matches parent span) es
         then register_loop (Suc b) spans h seq m
         else res_bind (vec_get (block_table seq) (int b)) (\<lambda>block.
              res_bind (share_block block m) (\<lambda>m.
                let e = \<lparr>pe_parent = parent, pe_tokens = span, pe_block = block, pe_last_used = bm_tick m + 1\<rparr>
                in register_loop (Suc b) spans h seq
                     (m\<lparr>bm_prefix := AList.update h (es @ [e]) (bm_prefix m), bm_tick := bm_tick m + 1\<rparr>))))"

definition register_prefix :: "sequence_blocks \<Rightarrow> int list \<Rightarrow> block_manager \<Rightarrow> block_manager res" where
  "register_prefix seq tokens m =
     (let by_blocks = int (length (block_table seq));
          by_tokens = int (length tokens) sdiv bm_block_size m;
          full_blocks = (if by_blocks < by_tokens then by_blocks else by_tokens)
      in register_loop 0 (rows (nat (bm_block_size m)) (nat full_blocks) tokens) 0 seq m)"

definition clear_prefix_cache :: "block_manager \<Rightarrow> block_manager res" where
  "clear_prefix_cache m =
     res_bind (res_fold (\<lambda>e m. release_block (pe_block e) m) (concat (map snd (bm_prefix m))) m) (\<lambda>m.
       Inr (m\<lparr>bm_prefix := []\<rparr>))"

end
