(* ===== verification/Model.thy ===== *)
theory Model
  imports NN Paged_KV_Cache Block_Manager
begin

text \<open>
  \<open>model.hpp\<close>, \<open>model.cpp\<close>, the fields of \<open>model_config.hpp\<close> and the lookups of
  \<open>safetensors.cpp\<close>: a decoder-only transformer over named weights. \<open>forward_cached\<close> is a
  C++ template over the cache class; its model takes the operations of the cache as a
  record. In \<open>forward_batch\<close> a \<open>SequenceBlocks*\<close> is an address in a store of sequences
  (\<open>None\<close> is the null pointer), so two items may point to one sequence, as in the code.
\<close>

section \<open>Configuration and weights\<close>

record model_config =
  hidden_size :: int
  num_hidden_layers :: int
  num_attention_heads :: int
  num_key_value_heads :: int
  head_dim :: int
  intermediate_size :: int
  vocab_size :: int
  max_position_embeddings :: int
  rope_theta :: f64
  rms_norm_eps :: f64
  tie_word_embeddings :: bool
  attention_qkv_bias :: bool
  hidden_act :: string
  model_type :: string

type_synonym weights = "(string \<times> tensor) list"

definition st_contains :: "weights \<Rightarrow> string \<Rightarrow> bool" where
  "st_contains W name \<longleftrightarrow> map_of W name \<noteq> None"

definition st_get :: "weights \<Rightarrow> string \<Rightarrow> tensor res" where
  "st_get W name =
     (case map_of W name of
        None \<Rightarrow> Inl (RuntimeError (''safetensors: missing tensor '' @ [CHR 0x27] @ name @ [CHR 0x27]))
      | Some t \<Rightarrow> Inr t)"

record model =
  m_config :: model_config
  m_weights :: weights
  m_quantized :: bool
  m_quant :: "(string \<times> quantized_matrix) list"

definition from_safetensors :: "model_config \<Rightarrow> weights \<Rightarrow> model" where
  "from_safetensors c W = \<lparr>m_config = c, m_weights = W, m_quantized = False, m_quant = []\<rparr>"

fun to_string :: "nat \<Rightarrow> string" where
  "to_string n = (if n < 10 then [char_of (48 + n)] else to_string (n div 10) @ [char_of (48 + n mod 10)])"

declare to_string.simps [simp del]

definition layer_key :: "int \<Rightarrow> string \<Rightarrow> string" where
  "layer_key layer suffix = ''model.layers.'' @ to_string (nat layer) @ ''.'' @ suffix"

section \<open>Quantization of the projections\<close>

text \<open>\<open>emplace\<close> keeps an entry that is already there.\<close>

definition quant_emplace :: "string \<Rightarrow> quantized_matrix \<Rightarrow> model \<Rightarrow> model" where
  "quant_emplace key q m =
     (if map_of (m_quant m) key = None then m\<lparr>m_quant := m_quant m @ [(key, q)]\<rparr> else m)"

definition proj_suffixes :: "string list" where
  "proj_suffixes = map (\<lambda>n. ''self_attn.'' @ n @ ''_proj.weight'') [''q'', ''k'', ''v'', ''o'']
                 @ map (\<lambda>n. ''mlp.'' @ n @ ''_proj.weight'') [''gate'', ''up'', ''down'']"

definition quantize_key :: "fpu \<Rightarrow> string \<Rightarrow> model \<Rightarrow> model res" where
  "quantize_key F key m =
     res_bind (st_get (m_weights m) key) (\<lambda>w.
     res_bind (quantize_rowwise_int8 F w) (\<lambda>q. Inr (quant_emplace key q m)))"

definition quantize :: "fpu \<Rightarrow> model \<Rightarrow> model res" where
  "quantize F m =
     res_bind (res_fold (\<lambda>l. res_fold (\<lambda>sfx. quantize_key F (layer_key (int l) sfx)) proj_suffixes)
                 [0..<nat (num_hidden_layers (m_config m))] m)
       (\<lambda>m. Inr (m\<lparr>m_quantized := True\<rparr>))"

text \<open>Both overloads of \<open>linear_w\<close>: without a bias the bias is the empty tensor.\<close>

definition linear_w :: "fpu \<Rightarrow> eigen \<Rightarrow> model \<Rightarrow> tensor \<Rightarrow> string \<Rightarrow> tensor \<Rightarrow> tensor res" where
  "linear_w F E m x weight_name bias =
     (case (if m_quantized m then map_of (m_quant m) weight_name else None) of
        Some q \<Rightarrow> linear_int8 F x q bias
      | None \<Rightarrow> res_bind (st_get (m_weights m) weight_name) (\<lambda>w. linear E x w bias))"

section \<open>The parts of a layer\<close>

definition project :: "fpu \<Rightarrow> eigen \<Rightarrow> model \<Rightarrow> tensor \<Rightarrow> int \<Rightarrow> string \<Rightarrow> tensor res" where
  "project F E m normed l name =
     (let wkey = layer_key l (''self_attn.'' @ name @ ''_proj.weight'')
      in if attention_qkv_bias (m_config m)
         then res_bind (st_get (m_weights m) (layer_key l (''self_attn.'' @ name @ ''_proj.bias''))) (\<lambda>b.
                linear_w F E m normed wkey b)
         else linear_w F E m normed wkey tensor_empty)"

text \<open>From the layer's input to the rotated queries and keys and the values.\<close>

definition qkv :: "fpu \<Rightarrow> eigen \<Rightarrow> model \<Rightarrow> tensor \<Rightarrow> int \<Rightarrow> int list \<Rightarrow> (tensor \<times> tensor \<times> tensor) res" where
  "qkv F E m x l positions =
     (let c = m_config m in
      res_bind (st_get (m_weights m) (layer_key l ''input_layernorm.weight'')) (\<lambda>nw.
      res_bind (rms_norm F x nw (rms_norm_eps c)) (\<lambda>normed.
      res_bind (project F E m normed l ''q'') (\<lambda>q.
      res_bind (project F E m normed l ''k'') (\<lambda>k.
      res_bind (project F E m normed l ''v'') (\<lambda>v.
      res_bind (rope_inplace F q (num_attention_heads c) (head_dim c) (rope_theta c) positions) (\<lambda>q.
      res_bind (rope_inplace F k (num_key_value_heads c) (head_dim c) (rope_theta c) positions) (\<lambda>k.
        Inr (q, k, v)))))))))"

text \<open>After the attention: the output projection and the MLP, each added to the residual.\<close>

definition attn_mlp :: "fpu \<Rightarrow> eigen \<Rightarrow> model \<Rightarrow> tensor \<Rightarrow> tensor \<Rightarrow> int \<Rightarrow> tensor res" where
  "attn_mlp F E m x attn l =
     res_bind (linear_w F E m attn (layer_key l ''self_attn.o_proj.weight'') tensor_empty) (\<lambda>attn_out.
     res_bind (add_inplace F x attn_out) (\<lambda>x.
     res_bind (st_get (m_weights m) (layer_key l ''post_attention_layernorm.weight'')) (\<lambda>nw.
     res_bind (rms_norm F x nw (rms_norm_eps (m_config m))) (\<lambda>normed2.
     res_bind (linear_w F E m normed2 (layer_key l ''mlp.gate_proj.weight'') tensor_empty) (\<lambda>gate.
     res_bind (linear_w F E m normed2 (layer_key l ''mlp.up_proj.weight'') tensor_empty) (\<lambda>up.
     res_bind (silu_mul F gate up) (\<lambda>act.
     res_bind (linear_w F E m act (layer_key l ''mlp.down_proj.weight'') tensor_empty) (\<lambda>down.
       add_inplace F x down))))))))"

text \<open>\<open>lm_head\<close>, or the embedding when the weights have none.\<close>

definition head_weight :: "model \<Rightarrow> tensor \<Rightarrow> tensor res" where
  "head_weight m emb =
     (if st_contains (m_weights m) ''lm_head.weight'' then st_get (m_weights m) ''lm_head.weight'' else Inr emb)"

section \<open>The cached forward\<close>

record 'c cache_ops =
  c_append :: "int \<Rightarrow> f32 list \<Rightarrow> f32 list \<Rightarrow> int \<Rightarrow> 'c \<Rightarrow> 'c res"
  c_key :: "int \<Rightarrow> 'c \<Rightarrow> tensor res"
  c_value :: "int \<Rightarrow> 'c \<Rightarrow> tensor res"
  c_advance :: "int \<Rightarrow> 'c \<Rightarrow> 'c"
  c_length :: "'c \<Rightarrow> int"

definition cached_layer ::
    "fpu \<Rightarrow> eigen \<Rightarrow> model \<Rightarrow> 'c cache_ops \<Rightarrow> int \<Rightarrow> int \<Rightarrow> int list \<Rightarrow> nat \<Rightarrow> tensor \<times> 'c \<Rightarrow> (tensor \<times> 'c) res" where
  "cached_layer F E m ops past n positions l st =
     (case st of (x, cache) \<Rightarrow>
      let c = m_config m in
      res_bind (qkv F E m x (int l) positions) (\<lambda>(q, k, v).
      res_bind (c_append ops (int l) (t_data k) (t_data v) n cache) (\<lambda>cache.
      res_bind (c_key ops (int l) cache) (\<lambda>k_all.
      res_bind (c_value ops (int l) cache) (\<lambda>v_all.
      res_bind (attention F q k_all v_all (num_attention_heads c) (num_key_value_heads c) (head_dim c) past) (\<lambda>attn.
      res_bind (attn_mlp F E m x attn (int l)) (\<lambda>x. Inr (x, cache))))))))"

definition forward_cached ::
    "fpu \<Rightarrow> eigen \<Rightarrow> model \<Rightarrow> 'c cache_ops \<Rightarrow> int list \<Rightarrow> 'c \<Rightarrow> (tensor \<times> 'c) res" where
  "forward_cached F E m ops ids cache =
     (let c = m_config m; n = int (length ids) in
      if n = 0 then Inl (InvalidArgument ''forward: empty input sequence'')
      else let past = c_length ops cache; positions = map (\<lambda>i. past + int i) [0..<length ids] in
      res_bind (st_get (m_weights m) ''model.embed_tokens.weight'') (\<lambda>embed.
      res_bind (embedding embed ids) (\<lambda>x.
      res_bind (res_fold (cached_layer F E m ops past n positions) [0..<nat (num_hidden_layers c)] (x, cache)) (\<lambda>(x, cache).
      let cache = c_advance ops n cache in
      res_bind (st_get (m_weights m) ''model.norm.weight'') (\<lambda>nw.
      res_bind (rms_norm F x nw (rms_norm_eps c)) (\<lambda>normed.
      res_bind (head_weight m embed) (\<lambda>lm_head.
      res_bind (linear E normed lm_head tensor_empty) (\<lambda>logits. Inr (logits, cache)))))))))"

definition kv_ops :: "kv_cache cache_ops" where
  "kv_ops = \<lparr>c_append = kv_append, c_key = kv_key_tensor, c_value = kv_value_tensor,
             c_advance = kv_advance, c_length = kc_length\<rparr>"

definition paged_ops :: "paged_kv_cache cache_ops" where
  "paged_ops = \<lparr>c_append = paged_append, c_key = paged_key_tensor, c_value = paged_value_tensor,
                c_advance = paged_advance, c_length = pk_length\<rparr>"

definition forward_with_cache :: "fpu \<Rightarrow> eigen \<Rightarrow> model \<Rightarrow> int list \<Rightarrow> kv_cache \<Rightarrow> (tensor \<times> kv_cache) res" where
  "forward_with_cache F E m ids cache = forward_cached F E m kv_ops ids cache"

definition forward_paged :: "fpu \<Rightarrow> eigen \<Rightarrow> model \<Rightarrow> int list \<Rightarrow> paged_kv_cache \<Rightarrow> (tensor \<times> paged_kv_cache) res" where
  "forward_paged F E m ids cache = forward_cached F E m paged_ops ids cache"

definition forward :: "fpu \<Rightarrow> eigen \<Rightarrow> model \<Rightarrow> int list \<Rightarrow> tensor res" where
  "forward F E m ids =
     res_bind (kv_new (num_hidden_layers (m_config m))
                (num_key_value_heads (m_config m) * head_dim (m_config m))) (\<lambda>cache.
     res_bind (forward_with_cache F E m ids cache) (\<lambda>(logits, _). Inr logits))"

section \<open>The batched forward\<close>

type_synonym seq_store = "int \<rightharpoonup> sequence_blocks"

record batch_item =
  bi_blocks :: "int option"
  bi_tokens :: "int list"

text \<open>Where an item lives in the flat layout: its sequence, offset, length and past.\<close>

record item_slot =
  it_addr :: int
  it_offset :: int
  it_len :: int
  it_past :: int

definition deref :: "seq_store \<Rightarrow> int \<Rightarrow> sequence_blocks res" where
  "deref st a = (case st a of None \<Rightarrow> Inl Undefined | Some s \<Rightarrow> Inr s)"

type_synonym gather_state = "int list \<times> int list \<times> item_slot list \<times> int \<times> seq_store \<times> block_manager"

definition gather_item :: "batch_item \<Rightarrow> gather_state \<Rightarrow> gather_state res" where
  "gather_item item g =
     (case g of (all_ids, positions, slots, total_tokens, st, mgr) \<Rightarrow>
      (case bi_blocks item of
         None \<Rightarrow> Inl (InvalidArgument ''forward_batch: null sequence blocks'')
       | Some a \<Rightarrow>
           if bi_tokens item = [] then Inl (InvalidArgument ''forward_batch: item has no tokens'')
           else res_bind (deref st a) (\<lambda>blk.
             let item_len = int (length (bi_tokens item)); item_past = seq_length blk in
             res_bind (reserve blk item_len mgr) (\<lambda>(blk', mgr').
               Inr (all_ids @ bi_tokens item,
                    positions @ map (\<lambda>t. item_past + int t) [0..<length (bi_tokens item)],
                    slots @ [\<lparr>it_addr = a, it_offset = total_tokens, it_len = item_len, it_past = item_past\<rparr>],
                    total_tokens + item_len, st(a \<mapsto> blk'), mgr')))))"

text \<open>The attention of one item over its own paged keys and values.\<close>

definition item_attention ::
    "fpu \<Rightarrow> model_config \<Rightarrow> int \<Rightarrow> tensor \<Rightarrow> tensor \<Rightarrow> tensor \<Rightarrow> seq_store \<Rightarrow> item_slot \<Rightarrow>
     tensor \<times> block_manager \<Rightarrow> (tensor \<times> block_manager) res" where
  "item_attention F c l q k v st slot s =
     (case s of (attn, mgr) \<Rightarrow>
      let nq_dim = num_attention_heads c * head_dim c; nkv_dim = num_key_value_heads c * head_dim c;
          off = it_offset slot; len = it_len slot; past = it_past slot in
      res_bind (deref st (it_addr slot)) (\<lambda>blk.
      res_bind (bm_write blk l past (drop (nat (off * nkv_dim)) (t_data k)) (drop (nat (off * nkv_dim)) (t_data v)) len mgr) (\<lambda>mgr.
      res_bind (gather_keys mgr blk l (past + len)) (\<lambda>k_all.
      res_bind (gather_values mgr blk l (past + len)) (\<lambda>v_all.
      res_bind (tensor_zeros [len, nq_dim]) (\<lambda>z.
      res_bind (memcpy (t_data z) 0 (t_data q) (off * nq_dim) (len * nq_dim)) (\<lambda>qd.
      res_bind (attention F (z\<lparr>t_data := qd\<rparr>) k_all v_all (num_attention_heads c) (num_key_value_heads c) (head_dim c) past) (\<lambda>attn_slice.
      res_bind (memcpy (t_data attn) (off * nq_dim) (t_data attn_slice) 0 (len * nq_dim)) (\<lambda>ad.
        Inr (attn\<lparr>t_data := ad\<rparr>, mgr))))))))))"

definition batch_layer ::
    "fpu \<Rightarrow> eigen \<Rightarrow> model \<Rightarrow> int list \<Rightarrow> item_slot list \<Rightarrow> int \<Rightarrow> seq_store \<Rightarrow> nat \<Rightarrow>
     tensor \<times> block_manager \<Rightarrow> (tensor \<times> block_manager) res" where
  "batch_layer F E m positions slots total_tokens st l s =
     (case s of (x, mgr) \<Rightarrow>
      let c = m_config m in
      res_bind (qkv F E m x (int l) positions) (\<lambda>(q, k, v).
      res_bind (tensor_zeros [total_tokens, num_attention_heads c * head_dim c]) (\<lambda>attn.
      res_bind (res_fold (item_attention F c (int l) q k v st) slots (attn, mgr)) (\<lambda>(attn, mgr).
      res_bind (attn_mlp F E m x attn (int l)) (\<lambda>x. Inr (x, mgr))))))"

definition commit_item :: "item_slot \<Rightarrow> seq_store \<Rightarrow> seq_store res" where
  "commit_item slot st = res_bind (deref st (it_addr slot)) (\<lambda>blk. Inr (st(it_addr slot \<mapsto> commit blk (it_len slot))))"

text \<open>Copy the last row of one item: \<open>i\<close> is the item's index.\<close>

definition copy_last :: "int \<Rightarrow> tensor \<Rightarrow> nat \<times> item_slot \<Rightarrow> f32 list \<Rightarrow> f32 list res" where
  "copy_last h normed islot d =
     (case islot of (i, slot) \<Rightarrow>
      memcpy d (int i * h) (t_data normed) ((it_offset slot + it_len slot - 1) * h) h)"

definition forward_batch ::
    "fpu \<Rightarrow> eigen \<Rightarrow> model \<Rightarrow> batch_item list \<Rightarrow> seq_store \<Rightarrow> block_manager \<Rightarrow>
     (tensor \<times> seq_store \<times> block_manager) res" where
  "forward_batch F E m items st mgr =
     (let c = m_config m in
      if items = [] then Inl (InvalidArgument ''forward_batch: empty batch'')
      else res_bind (res_fold gather_item items ([], [], [], 0, st, mgr))
        (\<lambda>(all_ids, positions, slots, total_tokens, st, mgr).
      res_bind (st_get (m_weights m) ''model.embed_tokens.weight'') (\<lambda>embed.
      res_bind (embedding embed all_ids) (\<lambda>x.
      res_bind (res_fold (batch_layer F E m positions slots total_tokens st) [0..<nat (num_hidden_layers c)] (x, mgr)) (\<lambda>(x, mgr).
      res_bind (res_fold commit_item slots st) (\<lambda>st.
      res_bind (st_get (m_weights m) ''model.norm.weight'') (\<lambda>nw.
      res_bind (rms_norm F x nw (rms_norm_eps c)) (\<lambda>normed.
      res_bind (tensor_zeros [int (length items), hidden_size c]) (\<lambda>z.
      res_bind (res_fold (copy_last (hidden_size c) normed) (enumerate 0 slots) (t_data z)) (\<lambda>lastd.
      res_bind (head_weight m embed) (\<lambda>lm_head.
      res_bind (linear E (z\<lparr>t_data := lastd\<rparr>) lm_head tensor_empty) (\<lambda>logits.
        Inr (logits, st, mgr)))))))))))))"

end
