(* ===== verification/NN_Rows.thy ===== *)
theory NN_Rows
  imports NN
begin

text \<open>
  Every layer works row by row. A tensor of rows is \<open>mk_mat s c xss\<close> with \<open>rect s c xss\<close>;
  each lemma turns one layer of \<open>NN\<close> on such a tensor into a \<open>map\<close> over its rows.
\<close>

definition rect :: "nat \<Rightarrow> nat \<Rightarrow> 'a list list \<Rightarrow> bool" where
  "rect s c xss \<longleftrightarrow> length xss = s \<and> (\<forall>x \<in> set xss. length x = c)"

named_theorems rect_intros \<open>tensors of rows stay tensors of rows\<close>

lemma rect_length: "rect s c xss \<Longrightarrow> length xss = s"
  by (simp add: rect_def)

lemma rect_nth: "rect s c xss \<Longrightarrow> r < s \<Longrightarrow> length (xss ! r) = c"
  by (simp add: rect_def)

lemma rect_map [rect_intros]: "rect s c xss \<Longrightarrow> (\<And>x. length x = c \<Longrightarrow> length (f x) = c') \<Longrightarrow> rect s c' (map f xss)"
  by (simp add: rect_def)

lemma rect_map2 [rect_intros]:
  "rect s c xss \<Longrightarrow> rect s c' yss \<Longrightarrow> (\<And>x y. length x = c \<Longrightarrow> length y = c' \<Longrightarrow> length (f x y) = c'') \<Longrightarrow>
   rect s c'' (map2 f xss yss)"
  by (auto simp: rect_def set_zip)

lemma rect_append: "rect s c xss \<Longrightarrow> rect s' c yss \<Longrightarrow> rect (s + s') c (xss @ yss)"
  by (auto simp: rect_def)

lemma rect_mat: "rect s c xss \<Longrightarrow> mat s c (mk_mat s c xss)"
  by (auto simp: rect_def intro: mat_mk_mat)

lemma rect_rows: "rect s c xss \<Longrightarrow> rows c s (t_data (mk_mat s c xss)) = xss"
  using trows_mk_mat[of xss s c] by (simp add: rect_def trows_def)

lemma rect_data_length: "rect s c xss \<Longrightarrow> length (concat xss) = s * c"
  using length_concat_uniform[of xss c] by (simp add: rect_def)

lemma rect_row: "rect s c xss \<Longrightarrow> r < s \<Longrightarrow> row c r (concat xss) = xss ! r"
  using row_concat[of xss c r] by (simp add: rect_def)

lemma mat_rect: "mat s c t \<Longrightarrow> \<exists>xss. rect s c xss \<and> t = mk_mat s c xss"
  by (metis rect_def length_trows mk_mat_trows trows_mem_length)

lemma mk_mat_dims [simp]:
  "ndim (mk_mat r c xss) = 2" "dim (mk_mat r c xss) 0 = Inr (int r)" "dim (mk_mat r c xss) (Suc 0) = Inr (int c)"
  "t_shape (mk_mat r c xss) = [int r, int c]" "t_data (mk_mat r c xss) = concat xss"
  by (simp_all add: mk_mat_def ndim_def dim_def)

lemma mk_mat_numel [simp]: "numel (mk_mat r c xss) = int r * int c"
  by (simp add: mk_mat_def numel_def)

lemma mk_mat_update [simp]: "mk_mat r c xss\<lparr>t_data := concat yss\<rparr> = mk_mat r c yss"
  by (simp add: mk_mat_def)

lemma mk_mat_record [simp]: "\<lparr>t_shape = [int r, int c], t_data = concat xss\<rparr> = mk_mat r c xss"
  by (simp add: mk_mat_def)


lemma map2_append: "length xs = length us \<Longrightarrow> map2 f (xs @ ys) (us @ vs) = map2 f xs us @ map2 f ys vs"
  by simp

lemma map2_concat:
  "length xss = length yss \<Longrightarrow> (\<And>i. i < length xss \<Longrightarrow> length (xss ! i) = length (yss ! i)) \<Longrightarrow>
   map2 f (concat xss) (concat yss) = concat (map2 (map2 f) xss yss)"
proof (induction xss yss rule: list_induct2)
  case (Cons x xs y ys)
  have "length x = length y" using Cons.prems[of 0] by simp
  moreover have "\<And>i. i < length xs \<Longrightarrow> length (xs ! i) = length (ys ! i)" using Cons.prems[of "Suc _"] by auto
  ultimately show ?case using Cons.IH by simp
qed simp

section \<open>Linear\<close>

text \<open>A vector parameter: no elements (no bias), or one per output.\<close>

definition vec_ok :: "nat \<Rightarrow> tensor \<Rightarrow> bool" where
  "vec_ok n b \<longleftrightarrow> tensor_ok b \<and> length (t_data b) = n"

definition bias_ok :: "nat \<Rightarrow> tensor \<Rightarrow> bool" where
  "bias_ok n b \<longleftrightarrow> b = tensor_empty \<or> vec_ok n b"

definition lin_row :: "eigen \<Rightarrow> nat \<Rightarrow> nat \<Rightarrow> f32 list \<Rightarrow> f32 list \<Rightarrow> f32 list \<Rightarrow> f32 list" where
  "lin_row E i n w b x = (let y = mul_nt E 1 i n x w in if b = [] then y else add_rowwise E 1 n y b)"

lemma lin_row_length:
  "eigen_rowwise E \<Longrightarrow> length x = i \<Longrightarrow> length w = n * i \<Longrightarrow> b = [] \<or> length b = n \<Longrightarrow> length (lin_row E i n w b x) = n"
  using eigen_mul_len[of E x i w n] eigen_add_len[of E "mul_nt E 1 i n x w" n b]
  by (auto simp: lin_row_def Let_def simp del: One_nat_def)

lemma bias_cases:
  assumes "bias_ok n b"
  shows "(t_data b = [] \<and> \<not> 0 < numel b) \<or> (t_data b \<noteq> [] \<and> 0 < numel b \<and> numel b = int n \<and> length (t_data b) = n)"
  using assms by (auto simp: bias_ok_def vec_ok_def tensor_ok_def tensor_empty_def numel_def)

lemma linear_rows:
  assumes E: "eigen_rowwise E" and x: "rect s i xss" and w: "mat n i weight" and b: "bias_ok n bias"
  shows "linear E (mk_mat s i xss) weight bias =
           Inr (mk_mat s n (map (lin_row E i n (t_data weight) (t_data bias)) xss))"
proof -
  let ?w = "t_data weight" and ?b = "t_data bias"
  define ys where "ys = map (\<lambda>r. mul_nt E 1 i n r ?w) xss"
  have lw: "length ?w = n * i" using w by (simp add: mat_def)
  have xl: "length (concat xss) = s * i" by (rule rect_data_length[OF x])
  have "mul_nt E s i n (concat xss) ?w = concat (map (\<lambda>r. mul_nt E 1 i n r ?w) (rows i s (concat xss)))"
    by (rule eigen_mul_rows[OF E xl lw])
  then have mm: "mul_nt E s i n (concat xss) ?w = concat ys" using rect_rows[OF x] by (simp add: ys_def)
  have ry: "rect s n ys" unfolding ys_def using x eigen_mul_len[OF E _ lw] by (intro rect_map) auto
  note W = mat_dims[OF w]
  show ?thesis
  proof (cases "t_data bias = []")
    case True
    then have "\<not> 0 < numel bias" using bias_cases[OF b] by auto
    moreover have "lin_row E i n ?w [] = (\<lambda>r. mul_nt E 1 i n r ?w)" by (simp add: lin_row_def fun_eq_iff)
    ultimately show ?thesis using W True by (simp add: linear_def tensor_zeros_mat mm Let_def ys_def)
  next
    case False
    then have nb: "0 < numel bias" "numel bias = int n" "length ?b = n" using bias_cases[OF b] by auto
    have "add_rowwise E s n (concat ys) ?b = concat (map (\<lambda>r. add_rowwise E 1 n r ?b) (rows n s (concat ys)))"
      by (rule eigen_add_rows[OF E rect_data_length[OF ry] nb(3)])
    then have am: "add_rowwise E s n (concat ys) ?b = concat (map (\<lambda>r. add_rowwise E 1 n r ?b) ys)"
      using rect_rows[OF ry] by simp
    have "lin_row E i n ?w ?b = (\<lambda>r. add_rowwise E 1 n (mul_nt E 1 i n r ?w) ?b)"
      using False by (simp add: lin_row_def fun_eq_iff Let_def)
    then show ?thesis using W False nb
      by (simp add: linear_def tensor_zeros_mat mm am Let_def) (simp add: ys_def comp_def)
  qed
qed

definition qm_ok :: "nat \<Rightarrow> nat \<Rightarrow> quantized_matrix \<Rightarrow> bool" where
  "qm_ok n i q \<longleftrightarrow> qm_rows q = int n \<and> qm_cols q = int i \<and> length (qm_data q) = n * i \<and> length (qm_scales q) = n"

lemma linear_int8_rows:
  assumes x: "rect s i xss" and q: "qm_ok n i q" and b: "bias_ok n bias"
  shows "linear_int8 F (mk_mat s i xss) q bias = Inr (mk_mat s n (map (int8_row F q (t_data bias)) xss))"
  using bias_cases[OF b] q rect_rows[OF x]
  by (auto simp: linear_int8_def qm_ok_def tensor_zeros_mat Let_def)

lemma int8_row_length: "qm_ok n i q \<Longrightarrow> length (int8_row F q b x) = n"
  by (simp add: int8_row_def qm_ok_def)

lemma quantize_ok:
  assumes "mat n i w"
  shows "\<exists>q. quantize_rowwise_int8 F w = Inr q \<and> qm_ok n i q"
proof -
  have "length (snd (quantize_row F x)) = length x" for x by (simp add: quantize_row_def Let_def)
  then have "length (concat (map (snd \<circ> quantize_row F) (rows i n (t_data w)))) = n * i"
    using length_concat_uniform[of "map (snd \<circ> quantize_row F) (rows i n (t_data w))" i] assms rows_mem_length[of n i "t_data w"]
    by (auto simp: mat_def)
  then show ?thesis using mat_dims[OF assms] by (simp add: quantize_rowwise_int8_def Let_def qm_ok_def)
qed

section \<open>Norm, activation, embedding\<close>

lemma rms_norm_rows:
  assumes "rect s h xss" "vec_ok h w"
  shows "rms_norm F (mk_mat s h xss) w eps = Inr (mk_mat s h (map (rms_row F (t_data w) eps) xss))"
  using assms(2) rect_rows[OF assms(1)]
  by (simp add: rms_norm_def vec_ok_def tensor_ok_def tensor_zeros_mat)

lemma rms_row_length: "length x = h \<Longrightarrow> length w = h \<Longrightarrow> length (rms_row F w eps x) = h"
  by (simp add: rms_row_def Let_def)

lemma silu_mul_rows:
  assumes "rect s c gss" "rect s c uss"
  shows "silu_mul F (mk_mat s c gss) (mk_mat s c uss) = Inr (mk_mat s c (map2 (map2 (silu F)) gss uss))"
  using assms map2_concat[of gss uss "silu F"]
  by (simp add: silu_mul_def tensor_zeros_mat rect_def)

lemma add_inplace_rows:
  assumes "rect s c xss" "rect s c yss"
  shows "add_inplace F (mk_mat s c xss) (mk_mat s c yss) = Inr (mk_mat s c (map2 (map2 (f_add F)) xss yss))"
  using assms map2_concat[of xss yss "f_add F"] rect_data_length[OF assms(1)] rect_data_length[OF assms(2)]
  by (simp add: add_inplace_def rect_def)

definition embed_row :: "nat \<Rightarrow> tensor \<Rightarrow> int \<Rightarrow> f32 list" where
  "embed_row h w tok = row h (nat tok) (t_data w)"

lemma embedding_rows:
  assumes "mat vocab h w" "\<forall>tok \<in> set ids. 0 \<le> tok \<and> tok < int vocab"
  shows "embedding w ids = Inr (mk_mat (length ids) h (map (embed_row h w) ids))"
proof -
  have "res_mapM (\<lambda>tok. if tok < 0 \<or> int vocab \<le> tok then Inl (OutOfRange ''embedding: token id out of range'')
      else Inr (row (nat (int h)) (nat tok) (t_data w))) ids = Inr (map (embed_row h w) ids)"
    using assms(2) by (intro res_mapM_ok) (auto simp: embed_row_def)
  then show ?thesis using mat_dims[OF assms(1)] by (simp add: embedding_def tensor_zeros_mat)
qed

lemma embedding_range_error:
  assumes "mat vocab h w" "\<not> (\<forall>tok \<in> set ids. 0 \<le> tok \<and> tok < int vocab)"
  shows "embedding w ids = Inl (OutOfRange ''embedding: token id out of range'')"
proof -
  have "res_mapM (\<lambda>tok. if tok < 0 \<or> int vocab \<le> tok then Inl (OutOfRange ''embedding: token id out of range'')
      else Inr (row (nat (int h)) (nat tok) (t_data w))) ids = Inl (OutOfRange ''embedding: token id out of range'')"
    using assms(2) by (induction ids) auto
  then show ?thesis using mat_dims[OF assms(1)] by (simp add: embedding_def tensor_zeros_mat)
qed

lemma embed_row_length: "mat vocab h w \<Longrightarrow> 0 \<le> tok \<Longrightarrow> tok < int vocab \<Longrightarrow> length (embed_row h w tok) = h"
  using length_row[of vocab h "t_data w" "nat tok"] by (simp add: embed_row_def mat_def)

section \<open>Rotary positions\<close>

lemma rope_head_length [simp]: "length (rope_head F fr half pos head) = length head"
proof -
  have "length (foldl (rope_pair F fr half pos) head idx) = length head" for idx
    by (induction idx arbitrary: head) (simp_all add: rope_pair_def Let_def)
  then show ?thesis by (simp add: rope_head_def)
qed

lemma rope_row_length:
  assumes "length x = nh * dh"
  shows "length (rope_row F (int nh) (int dh) theta pos x) = nh * dh"
proof -
  let ?f = "rope_head F (inv_freq F theta (int dh) (nat (int dh sdiv 2))) (nat (int dh sdiv 2)) (d_of_int F pos)"
  have "length (concat (map ?f (rows dh nh x))) = length (map ?f (rows dh nh x)) * dh"
    using assms rows_mem_length[of nh dh x] by (intro length_concat_uniform) auto
  then show ?thesis by (simp add: rope_row_def Let_def)
qed

lemma rope_row_trivial:
  assumes "length x = nh * dh" "int dh sdiv 2 = 0"
  shows "rope_row F (int nh) (int dh) theta pos x = x"
proof -
  have "rope_head F fr 0 ps' = (\<lambda>h. h)" for fr ps' by (rule ext) (simp add: rope_head_def)
  then show ?thesis using assms concat_rows[of x nh dh] by (simp add: rope_row_def Let_def)
qed

lemma rope_rows:
  assumes x: "rect s (nh * dh) xss" and p: "length ps = s"
  shows "rope_inplace F (mk_mat s (nh * dh) xss) (int nh) (int dh) theta ps =
           Inr (mk_mat s (nh * dh) (map2 (rope_row F (int nh) (int dh) theta) ps xss))"
proof (cases "int dh sdiv 2 = 0")
  case True
  have "map2 (rope_row F (int nh) (int dh) theta) ps xss = xss"
    using x p rope_row_trivial[OF _ True]
    by (intro nth_equalityI) (auto simp: rect_def)
  with True show ?thesis using p by (simp add: rope_inplace_def)
next
  case False
  moreover have "0 \<le> int dh sdiv 2" by simp
  moreover have "nat (int nh * int dh) = nh * dh" by (simp add: nat_mult_distrib)
  ultimately show ?thesis
    using p rect_rows[OF x] by (simp add: rope_inplace_def)
qed

section \<open>Attention\<close>

lemma attn_head_length:
  assumes "\<forall>v \<in> set vs. length v = dh"
  shows "length (attn_head F scale dh q ks vs) = dh"
proof -
  have "length (foldl (\<lambda>acc (e, vvec). map2 (g e) acc vvec) a (zip es vs)) = dh"
    if "length a = dh" for g :: "f64 \<Rightarrow> f64 \<Rightarrow> f32 \<Rightarrow> f64" and es a
    using that assms by (induction vs arbitrary: es a) (auto simp: zip_Cons1 zip_Cons split: list.splits)
  from this[of "replicate dh 0" "\<lambda>e a x. d_mad F (d_mul F e _) (d_of_f F x) a"]
  show ?thesis by (simp add: attn_head_def Let_def)
qed

lemma attn_row_length:
  assumes "\<forall>v \<in> set vs. length v = nkv * dh" "nkv \<noteq> 0" "nkv dvd nh"
  shows "length (attn_row F (int nh) (int nkv) (int dh) q ks vs) = nh * dh"
proof -
  define f where "f h = nat (int h sdiv (int nh sdiv int nkv))" for h
  have kv: "f h < nkv" if "h < nh" for h
  proof -
    obtain g where g: "nh = nkv * g" using assms(3) by (auto simp: dvd_def)
    then have "0 < g" using that by (cases g) auto
    then have "int nh sdiv int nkv = int g" using assms(2) g by simp
    moreover have "h div g < nkv" using that g \<open>0 < g\<close> by (simp add: less_mult_imp_div_less)
    ultimately show ?thesis using \<open>0 < g\<close> by (simp add: f_def flip: zdiv_int)
  qed
  let ?hd = "\<lambda>h. attn_head F (d_div F f64_one (d_sqrt F (d_of_int F (int dh)))) dh (row dh h q)
    (map (row dh (f h)) ks) (map (row dh (f h)) vs)"
  have "length (?hd h) = dh" if "h < nh" for h
    using assms(1,2) kv[OF that] by (intro attn_head_length) (auto intro!: length_row[of nkv])
  then have "length (concat (map ?hd [0..<nh])) = length (map ?hd [0..<nh]) * dh"
    by (intro length_concat_uniform) auto
  then show ?thesis by (simp add: attn_row_def Let_def f_def)
qed

text \<open>Query row \<open>i\<close> at offset \<open>off\<close> sees the first \<open>off + i + 1\<close> rows of keys and values.\<close>

definition attn_rows ::
    "fpu \<Rightarrow> int \<Rightarrow> int \<Rightarrow> int \<Rightarrow> nat \<Rightarrow> f32 list list \<Rightarrow> f32 list list \<Rightarrow> f32 list list \<Rightarrow> f32 list list" where
  "attn_rows F nh nkv dh off qss kss vss =
     map (\<lambda>i. attn_row F nh nkv dh (qss ! i) (take (off + i + 1) kss) (take (off + i + 1) vss)) [0..<length qss]"

lemma attention_rows:
  assumes q: "rect s (nh * dh) qss" and k: "rect t (nkv * dh) kss" and v: "rect t (nkv * dh) vss"
    and h: "nkv \<noteq> 0" "nkv dvd nh" and o: "off + s \<le> t"
  shows "attention F (mk_mat s (nh * dh) qss) (mk_mat t (nkv * dh) kss) (mk_mat t (nkv * dh) vss)
           (int nh) (int nkv) (int dh) (int off)
       = Inr (mk_mat s (nh * dh) (attn_rows F (int nh) (int nkv) (int dh) off qss kss vss))"
proof -
  have n: "nat (int nkv * int dh) = nkv * dh" "nat (int nh * int dh) = nh * dh" by (simp_all add: nat_mult_distrib)
  have m: "int nh smod int nkv = 0" using h by (simp flip: zmod_int)
  have z: "tensor_zeros [int s, int nh * int dh] = Inr \<lparr>t_shape = [int s, int (nh * dh)], t_data = replicate (s * (nh * dh)) 0\<rparr>"
    using tensor_zeros_mat[of s "nh * dh"] by simp
  have r: "map (\<lambda>i. attn_row F (int nh) (int nkv) (int dh) (row (nh * dh) i (concat qss))
        (take (Suc (off + i)) kss) (take (Suc (off + i)) vss)) [0..<s]
      = attn_rows F (int nh) (int nkv) (int dh) off qss kss vss"
    using rect_row[OF q] rect_length[OF q] by (simp add: attn_rows_def)
  have off: "int off + int s \<le> int t" using o by simp
  show ?thesis
    using h(1) m off mk_mat_record[of s "nh * dh" "attn_rows F (int nh) (int nkv) (int dh) off qss kss vss"]
    by (simp add: attention_def n z rect_rows[OF k, simplified] rect_rows[OF v, simplified] r Let_def del: mk_mat_record)
qed

lemma attn_rows_rect:
  assumes "rect s (nh * dh) qss" "rect t (nkv * dh) vss" "nkv \<noteq> 0" "nkv dvd nh"
  shows "rect s (nh * dh) (attn_rows F (int nh) (int nkv) (int dh) off qss kss vss)"
  unfolding rect_def
proof
  show "length (attn_rows F (int nh) (int nkv) (int dh) off qss kss vss) = s"
    using assms(1) by (simp add: attn_rows_def rect_def)
  show "\<forall>x \<in> set (attn_rows F (int nh) (int nkv) (int dh) off qss kss vss). length x = nh * dh"
  proof
    fix x assume "x \<in> set (attn_rows F (int nh) (int nkv) (int dh) off qss kss vss)"
    then obtain i where "x = attn_row F (int nh) (int nkv) (int dh) (qss ! i) (take (off + i + 1) kss) (take (off + i + 1) vss)"
      by (auto simp: attn_rows_def)
    moreover have "\<forall>v \<in> set (take (off + i + 1) vss). length v = nkv * dh"
      using assms(2) by (auto simp: rect_def dest: in_set_takeD)
    ultimately show "length x = nh * dh" using attn_row_length assms(3,4) by simp
  qed
qed

text \<open>
  Splitting a chunk: rows that come later add keys and values behind the ones the earlier
  queries see, so the attention of two chunks is the attention of one after the other.
\<close>

lemma attn_rows_append:
  assumes "length kss = off + length qss" "length vss = off + length qss"
  shows "attn_rows F nh nkv dh off (qss @ qss') (kss @ kss') (vss @ vss')
       = attn_rows F nh nkv dh off qss kss vss
         @ attn_rows F nh nkv dh (off + length qss) qss' (kss @ kss') (vss @ vss')"
proof (rule nth_equalityI)
  fix i assume i: "i < length (attn_rows F nh nkv dh off (qss @ qss') (kss @ kss') (vss @ vss'))"
  show "attn_rows F nh nkv dh off (qss @ qss') (kss @ kss') (vss @ vss') ! i =
    (attn_rows F nh nkv dh off qss kss vss @ attn_rows F nh nkv dh (off + length qss) qss' (kss @ kss') (vss @ vss')) ! i"
  proof (cases "i < length qss")
    case True
    then show ?thesis using assms i by (simp add: attn_rows_def nth_append)
  next
    case False
    then obtain j where "i = length qss + j" using le_Suc_ex not_less by blast
    then show ?thesis using i by (simp add: attn_rows_def nth_append add.assoc)
  qed
qed (simp add: attn_rows_def)

end
