(* ===== verification/Sample_Arith.thy ===== *)
theory Sample_Arith
  imports NN_Rows
begin

text \<open>
  A concrete float arithmetic and a concrete matrix product on bit patterns, on which the
  properties are evaluated. The product computes row by row, so it has the properties the
  layers ask of Eigen (\<open>eigen_rowwise\<close>).
\<close>

definition toy_fpu :: fpu where
  "toy_fpu = \<lparr>f_add = (+), f_mul = (*), f_div = (\<lambda>a b. a), f_exp = (\<lambda>a. a), f_lround = uint, f_mad = (\<lambda>a b c. a * b + c),
     d_add = (+), d_sub = (-), d_mul = (*), d_div = (\<lambda>a b. a),
     d_mad = (\<lambda>a b c. a * b + c), d_msub = (\<lambda>a b c. a * b - c), d_mul_add = (\<lambda>a b c d. a * b + c * d),
     d_mul_sub = (\<lambda>a b c d. a * b - c * d), d_sqrt = (\<lambda>a. a), d_exp = (\<lambda>a. a),
     d_pow = (\<lambda>a b. a), d_cos = (\<lambda>a. a), d_sin = (\<lambda>a. a), d_of_f = ucast, f_of_d = ucast, d_of_int = word_of_int\<rparr>"

definition toy_eigen :: eigen where
  "toy_eigen = \<lparr>mul_nt = (\<lambda>s i n x w. concat (map (\<lambda>r. map (\<lambda>j. sum_list (map2 (*) r (row i j w))) [0..<n]) (rows i s x))),
     mul_nn = (\<lambda>m k n a b. concat (map (\<lambda>r. map (\<lambda>j. sum_list (map (\<lambda>p. r ! p * b ! (p * n + j)) [0..<k])) [0..<n]) (rows k m a))),
     add_rowwise = (\<lambda>s n y b. concat (map (\<lambda>r. map2 (+) r b) (rows n s y)))\<rparr>"

lemma rows_one: "length x = i \<Longrightarrow> rows i 1 x = [x]"
  by (simp add: rows_def row_def slice_def)

lemma toy_rowwise: "eigen_rowwise toy_eigen"
proof -
  have m: "mul_nt toy_eigen 1 i n r w = map (\<lambda>j. sum_list (map2 (*) r (row i j w))) [0..<n]" if "length r = i" for i n r w
    using rows_one[OF that] by (simp add: toy_eigen_def)
  have a: "add_rowwise toy_eigen 1 n r b = map2 (+) r b" if "length r = n" for n r b
    using rows_one[OF that] by (simp add: toy_eigen_def)
  have mm: "mul_nt toy_eigen s i n x w = concat (map (\<lambda>r. mul_nt toy_eigen 1 i n r w) (rows i s x))"
    if "length x = s * i" for s i n x w
  proof -
    have eq: "map (\<lambda>r. mul_nt toy_eigen 1 i n r w) (rows i s x) = map (\<lambda>r. map (\<lambda>j. sum_list (map2 (*) r (row i j w))) [0..<n]) (rows i s x)"
      using m rows_mem_length[of s i x] that by (intro map_cong) auto
    show ?thesis unfolding eq by (simp add: toy_eigen_def)
  qed
  have aa: "add_rowwise toy_eigen s n y b = concat (map (\<lambda>r. add_rowwise toy_eigen 1 n r b) (rows n s y))"
    if "length y = s * n" for s n y b
  proof -
    have eq: "map (\<lambda>r. add_rowwise toy_eigen 1 n r b) (rows n s y) = map (\<lambda>r. map2 (+) r b) (rows n s y)"
      using a rows_mem_length[of s n y] that by (intro map_cong) auto
    show ?thesis unfolding eq by (simp add: toy_eigen_def)
  qed
  have l1: "length (mul_nt toy_eigen s i n x w) = s * n" for s i n x w
  proof -
    have "length (concat (map (\<lambda>r. map (\<lambda>j. sum_list (map2 (*) r (row i j w))) [0..<n]) (rows i s x)))
        = length (map (\<lambda>r. map (\<lambda>j. sum_list (map2 (*) r (row i j w))) [0..<n]) (rows i s x)) * n"
      by (rule length_concat_uniform) auto
    then show ?thesis by (simp add: toy_eigen_def)
  qed
  have l2: "length (add_rowwise toy_eigen s n y b) = s * n" if "length y = s * n" "length b = n" for s n y b
  proof -
    have "length (concat (map (\<lambda>r. map2 (+) r b) (rows n s y))) = length (map (\<lambda>r. map2 (+) r b) (rows n s y)) * n"
      using that rows_mem_length[of s n y] by (intro length_concat_uniform) auto
    then show ?thesis by (simp add: toy_eigen_def)
  qed
  show ?thesis
    unfolding eigen_rowwise_def mul_nt_rowwise_def mul_nt_sized_def add_rowwise_rowwise_def add_rowwise_sized_def
    using mm aa l1 l2 by blast
qed

end
