(* ===== verification/Sampler.thy ===== *)
theory Sampler
  imports Sample_Arith "HOL-Library.Multiset"
begin

text \<open>
  \<open>sampler.hpp\<close> and \<open>sampler.cpp\<close>: greedy and temperature / top-k / top-p sampling.
  \<open>std::sort\<close> may leave equal elements in any order and the generator's numbers are not
  fixed by the code, so both are parameters: \<open>srt lt xs\<close> and \<open>uniform rng\<close>.
\<close>

record sampling_params =
  temperature :: f64
  top_k :: int
  top_p :: f64

section \<open>Greedy\<close>

definition argmax_step :: "f32 list \<Rightarrow> nat \<Rightarrow> int \<Rightarrow> int res" where
  "argmax_step logits i best =
     res_bind (vec_get logits (int i)) (\<lambda>x. res_bind (vec_get logits best) (\<lambda>y.
       Inr (if f32_lt y x then int i else best)))"

definition argmax :: "f32 list \<Rightarrow> int \<Rightarrow> int res" where
  "argmax logits vocab = res_fold (argmax_step logits) [1..<nat vocab] 0"

text \<open>The index the loop ends with, as a function.\<close>

definition first_best :: "f32 list \<Rightarrow> nat \<Rightarrow> nat" where
  "first_best r n = fold (\<lambda>i b. if f32_lt (r ! b) (r ! i) then i else b) [1..<n] 0"

lemma first_best_Suc: "0 < n \<Longrightarrow> first_best r (Suc n) = (if f32_lt (r ! first_best r n) (r ! n) then n else first_best r n)"
  by (simp add: first_best_def)

lemma first_best_1 [simp]: "first_best r (Suc 0) = 0" "first_best r 0 = 0"
  by (simp_all add: first_best_def)

lemma first_best_lt: "0 < n \<Longrightarrow> first_best r n < n"
proof (induction n)
  case (Suc n)
  then show ?case by (cases "n = 0") (auto simp: first_best_Suc less_Suc_eq)
qed simp

lemma argmax_first_best:
  assumes "0 < n" "n \<le> length r"
  shows "argmax r (int n) = Inr (int (first_best r n))"
  using assms
proof (induction n)
  case (Suc n)
  show ?case
  proof (cases "n = 0")
    case False
    then have "argmax r (int n) = Inr (int (first_best r n))" using Suc by simp
    then have "res_fold (argmax_step r) [1..<n] 0 = Inr (int (first_best r n))" by (simp add: argmax_def)
    moreover have "first_best r n < length r" using first_best_lt[of n r] False Suc.prems by simp
    ultimately show ?thesis
      using False Suc.prems
      by (simp add: argmax_def res_fold_append argmax_step_def mem_simps first_best_Suc del: of_nat_Suc)
  qed (simp add: argmax_def)
qed simp

text \<open>Without a NaN it is a maximum, and the first one.\<close>

lemma first_best_max:
  assumes "\<forall>i < n. \<not> f32_nan (r ! i)" "0 < n"
  shows "(\<forall>j < n. \<not> f32_lt (r ! first_best r n) (r ! j)) \<and> (\<forall>j < first_best r n. f32_lt (r ! j) (r ! first_best r n))"
  using assms
proof (induction n)
  case (Suc n)
  show ?case
  proof (cases "n = 0")
    case False
    then have IH: "\<forall>j < n. \<not> f32_lt (r ! first_best r n) (r ! j)" "\<forall>j < first_best r n. f32_lt (r ! j) (r ! first_best r n)"
      using Suc by auto
    have nn: "\<not> f32_nan (r ! j)" if "j \<le> n" for j using Suc.prems(1) that by simp
    have b: "first_best r n < n" using first_best_lt False by simp
    show ?thesis
    proof (cases "f32_lt (r ! first_best r n) (r ! n)")
      case True
      have "f32_lt (r ! j) (r ! n)" if "j < n" for j
        using IH(1)[rule_format, OF that] True nn[of j] nn[of "first_best r n"] nn[of n] b that
        by (auto simp: f32_lt_def)
      then show ?thesis using True False
        by (auto simp: first_best_Suc less_Suc_eq) (fastforce simp: f32_lt_def dest: less_asym)
    qed (use IH False in \<open>auto simp: first_best_Suc less_Suc_eq\<close>)
  qed auto
qed simp

section \<open>Sampling\<close>

text \<open>\<open>std::sort\<close> is defined only for a strict weak ordering of the elements.\<close>

definition strict_weak :: "(int \<Rightarrow> int \<Rightarrow> bool) \<Rightarrow> int list \<Rightarrow> bool" where
  "strict_weak lt xs \<longleftrightarrow>
     list_all (\<lambda>a. \<not> lt a a \<and> list_all (\<lambda>b. list_all (\<lambda>c.
       (lt a b \<and> lt b c \<longrightarrow> lt a c) \<and> (lt a c \<longrightarrow> lt a b \<or> lt b c)) xs) xs) xs"

definition logit_greater :: "f32 list \<Rightarrow> int \<Rightarrow> int \<Rightarrow> bool" where
  "logit_greater logits a b \<longleftrightarrow> f32_lt (logits ! nat b) (logits ! nat a)"

text \<open>The nucleus: the count of the shortest prefix whose probability reaches \<open>top_p\<close>.\<close>

fun nucleus_scan :: "fpu \<Rightarrow> f64 \<Rightarrow> int \<Rightarrow> f64 list \<Rightarrow> int \<Rightarrow> f64 \<Rightarrow> int" where
  "nucleus_scan F tp keep [] i cumulative = keep"
| "nucleus_scan F tp keep (p # ps) i cumulative =
     (let cumulative = d_add F cumulative p
      in if f64_le tp cumulative then i + 1 else nucleus_scan F tp keep ps (i + 1) cumulative)"

text \<open>The draw: the first position whose cumulative probability reaches the threshold.\<close>

fun draw_scan :: "fpu \<Rightarrow> f64 \<Rightarrow> f64 list \<Rightarrow> int \<Rightarrow> f64 \<Rightarrow> int option" where
  "draw_scan F threshold [] i cumulative = None"
| "draw_scan F threshold (p # ps) i cumulative =
     (let cumulative = d_add F cumulative p
      in if f64_le threshold cumulative then Some i else draw_scan F threshold ps (i + 1) cumulative)"

definition keep_count :: "int \<Rightarrow> sampling_params \<Rightarrow> int" where
  "keep_count vocab params = (if 0 < top_k params \<and> top_k params < vocab then top_k params else vocab)"

definition kept_probs :: "fpu \<Rightarrow> f32 list \<Rightarrow> sampling_params \<Rightarrow> int list \<Rightarrow> int \<Rightarrow> f64 list res" where
  "kept_probs F logits params order keep =
     (let inv_temp = d_div F f64_one (temperature params) in
      res_bind (vec_get order 0) (\<lambda>o0. res_bind (vec_get logits o0) (\<lambda>l0.
      let max_logit = d_mul F (d_of_f F l0) inv_temp in
      res_bind (res_mapM (\<lambda>i. res_bind (vec_get order (int i)) (\<lambda>oi. res_bind (vec_get logits oi) (\<lambda>l.
                  Inr (d_exp F (d_msub F (d_of_f F l) inv_temp max_logit))))) [0..<nat keep]) (\<lambda>es.
      let sum = foldl (d_add F) 0 es in Inr (map (\<lambda>v. d_div F v sum) es)))))"

definition sample ::
    "fpu \<Rightarrow> ((int \<Rightarrow> int \<Rightarrow> bool) \<Rightarrow> int list \<Rightarrow> int list) \<Rightarrow> ('g \<Rightarrow> f64 \<times> 'g) \<Rightarrow>
     f32 list \<Rightarrow> int \<Rightarrow> sampling_params \<Rightarrow> 'g \<Rightarrow> (int \<times> 'g) res" where
  "sample F srt uniform logits vocab params rng =
     (if vocab \<le> 0 then Inl (InvalidArgument ''sample: vocab must be positive'')
      else if f64_le (temperature params) 0 then res_bind (argmax logits vocab) (\<lambda>t. Inr (t, rng))
      else let idx = map int [0..<nat vocab]; greater = logit_greater logits in
      if int (length logits) < vocab \<or> \<not> strict_weak greater idx then Inl Undefined
      else let order = srt greater idx; keep = keep_count vocab params in
      res_bind (kept_probs F logits params order keep) (\<lambda>probs.
      let nucleus = (if f64_lt (top_p params) f64_one then nucleus_scan F (top_p params) keep probs 0 0 else keep);
          kept = take (nat nucleus) probs;
          nucleus_sum = foldl (d_add F) 0 kept;
          (u, rng') = uniform rng;
          threshold = d_mul F u nucleus_sum
      in res_bind (vec_get order (case draw_scan F threshold kept 0 0 of Some i \<Rightarrow> i | None \<Rightarrow> nucleus - 1))
           (\<lambda>t. Inr (t, rng'))))"

text \<open>What \<open>std::sort\<close> documents, for a strict weak ordering.\<close>

definition sort_spec :: "((int \<Rightarrow> int \<Rightarrow> bool) \<Rightarrow> int list \<Rightarrow> int list) \<Rightarrow> bool" where
  "sort_spec srt \<longleftrightarrow> (\<forall>lt xs. strict_weak lt xs \<longrightarrow>
     mset (srt lt xs) = mset xs \<and> (\<forall>i j. i < j \<longrightarrow> j < length xs \<longrightarrow> \<not> lt (srt lt xs ! j) (srt lt xs ! i)))"

lemma nucleus_scan_range:
  "0 \<le> i \<Longrightarrow> i + int (length ps) = keep \<Longrightarrow> 0 < keep \<Longrightarrow>
   0 < nucleus_scan F tp keep ps i c \<and> nucleus_scan F tp keep ps i c \<le> keep"
  by (induction F tp keep ps i c rule: nucleus_scan.induct) (auto simp: Let_def)

lemma draw_scan_range: "draw_scan F t ps i c = Some j \<Longrightarrow> i \<le> j \<and> j < i + int (length ps)"
  by (induction F t ps i c rule: draw_scan.induct) (auto simp: Let_def split: if_splits)

lemma keep_count_range: "0 < vocab \<Longrightarrow> 0 < keep_count vocab p \<and> keep_count vocab p \<le> vocab"
  by (simp add: keep_count_def)

lemma kept_probs_ok:
  assumes "0 < keep" "keep \<le> int (length order)" "\<forall>x \<in> set order. 0 \<le> x \<and> x < int (length logits)"
  shows "\<exists>ps. kept_probs F logits params order keep = Inr ps \<and> int (length ps) = keep"
proof -
  have o: "vec_get order (int i) = Inr (order ! i)" "vec_get logits (order ! i) = Inr (logits ! nat (order ! i))"
    if "i < nat keep" for i
    using that assms by (auto simp: mem_simps)
  let ?f = "\<lambda>inv m i. res_bind (vec_get order (int i)) (\<lambda>oi. res_bind (vec_get logits oi) (\<lambda>l.
                  Inr (d_exp F (d_msub F (d_of_f F l) inv m))))"
  have "res_mapM (?f inv m) [0..<nat keep] =
      Inr (map (\<lambda>i. d_exp F (d_msub F (d_of_f F (logits ! nat (order ! i))) inv m)) [0..<nat keep])" for inv m
    using o by (intro res_mapM_ok) auto
  moreover have "vec_get order 0 = Inr (order ! 0)" "vec_get logits (order ! 0) = Inr (logits ! nat (order ! 0))"
    using o[of 0] assms(1) by auto
  ultimately show ?thesis using assms(1) by (simp add: kept_probs_def Let_def)
qed

text \<open>A sampled token is one of the first \<open>keep\<close> of the order.\<close>

lemma sample_kept:
  assumes "sort_spec srt" "0 < vocab" "vocab \<le> int (length logits)" "\<not> f64_le (temperature p) 0"
    and "strict_weak (logit_greater logits) (map int [0..<nat vocab])"
  shows "\<exists>i t rng'. sample F srt uniform logits vocab p rng = Inr (t, rng') \<and> i < nat (keep_count vocab p)
    \<and> t = srt (logit_greater logits) (map int [0..<nat vocab]) ! i \<and> rng' = snd (uniform rng)"
proof -
  let ?idx = "map int [0..<nat vocab]"
  let ?ord = "srt (logit_greater logits) ?idx"
  have ms: "mset ?ord = mset ?idx" using assms(1,5) by (simp add: sort_spec_def)
  have len: "length ?ord = nat vocab" using arg_cong[OF ms, of size] by simp
  have "set ?ord = set ?idx" using arg_cong[OF ms, of set_mset] by simp
  then have rng: "\<forall>x \<in> set ?ord. 0 \<le> x \<and> x < int (length logits)" using assms(3) by auto
  note k = keep_count_range[OF assms(2), of p]
  from kept_probs_ok[of "keep_count vocab p" ?ord logits F p] k rng len assms(2) obtain ps where
    ps: "kept_probs F logits p ?ord (keep_count vocab p) = Inr ps" "int (length ps) = keep_count vocab p" by auto
  define nuc where "nuc = (if f64_lt (top_p p) f64_one then nucleus_scan F (top_p p) (keep_count vocab p) ps 0 0 else keep_count vocab p)"
  have nuc: "0 < nuc" "nuc \<le> keep_count vocab p"
    using nucleus_scan_range[of 0 ps "keep_count vocab p" F "top_p p" 0] ps(2) k by (auto simp: nuc_def)
  define j where "j = (case draw_scan F (d_mul F (fst (uniform rng)) (foldl (d_add F) 0 (take (nat nuc) ps))) (take (nat nuc) ps) 0 0 of
      Some i \<Rightarrow> i | None \<Rightarrow> nuc - 1)"
  have j: "0 \<le> j" "j < keep_count vocab p"
  proof -
    have "0 \<le> j \<and> j < nuc"
    proof (cases "draw_scan F (d_mul F (fst (uniform rng)) (foldl (d_add F) 0 (take (nat nuc) ps))) (take (nat nuc) ps) 0 0")
      case (Some i)
      from draw_scan_range[OF this] nuc show ?thesis using Some by (auto simp: j_def)
    qed (use nuc in \<open>simp add: j_def\<close>)
    then show "0 \<le> j" "j < keep_count vocab p" using nuc(2) by auto
  qed
  have "vec_get ?ord j = Inr (?ord ! nat j)" using j k len assms(2) by (simp add: mem_simps)
  moreover have "sample F srt uniform logits vocab p rng = res_bind (vec_get ?ord j) (\<lambda>t. Inr (t, snd (uniform rng)))"
    unfolding j_def nuc_def using assms ps
    by (simp add: sample_def Let_def case_prod_unfold not_less split del: if_split)
  ultimately have "sample F srt uniform logits vocab p rng = Inr (?ord ! nat j, snd (uniform rng))" by simp
  then show ?thesis using j by (intro exI[of _ "nat j"] exI[of _ "?ord ! nat j"] exI[of _ "snd (uniform rng)"]) simp
qed

section \<open>A sort that keeps the contract\<close>

fun ins_by :: "(int \<Rightarrow> int \<Rightarrow> bool) \<Rightarrow> int \<Rightarrow> int list \<Rightarrow> int list" where
  "ins_by lt x [] = [x]"
| "ins_by lt x (y # ys) = (if lt y x then y # ins_by lt x ys else x # y # ys)"

definition ins_sort :: "(int \<Rightarrow> int \<Rightarrow> bool) \<Rightarrow> int list \<Rightarrow> int list" where
  "ins_sort lt xs = foldr (ins_by lt) xs []"

lemma ins_by_mset [simp]: "mset (ins_by lt x ys) = add_mset x (mset ys)"
  by (induction ys) auto

lemma ins_by_set [simp]: "set (ins_by lt x ys) = insert x (set ys)"
  by (induction ys) auto

lemma strict_weakD:
  assumes "strict_weak lt xs" "a \<in> set xs" "b \<in> set xs" "c \<in> set xs"
  shows "\<not> lt a a" "lt a b \<Longrightarrow> lt b c \<Longrightarrow> lt a c" "lt a c \<Longrightarrow> lt a b \<or> lt b c"
  using assms unfolding strict_weak_def list_all_iff by blast+

lemma ins_by_sorted:
  assumes "strict_weak lt zs" "set (x # ys) \<subseteq> set zs" "sorted_wrt (\<lambda>a b. \<not> lt b a) ys"
  shows "sorted_wrt (\<lambda>a b. \<not> lt b a) (ins_by lt x ys)"
  using assms(2,3)
proof (induction ys)
  case (Cons y ys)
  have mem: "x \<in> set zs" "y \<in> set zs" "set ys \<subseteq> set zs" using Cons.prems(1) by auto
  show ?case
  proof (cases "lt y x")
    case True
    have "\<not> lt x y"
      using True strict_weakD(1,2)[OF assms(1) mem(2) mem(1) mem(2)] by blast
    then show ?thesis using Cons True by auto
  next
    case False
    have "\<not> lt z x" if "z \<in> set ys" for z
    proof
      assume "lt z x"
      have "z \<in> set zs" using that mem(3) by auto
      from strict_weakD(3)[OF assms(1) this mem(2) mem(1) \<open>lt z x\<close>] False Cons.prems(2) that show False by auto
    qed
    then show ?thesis using False Cons.prems(2) by auto
  qed
qed simp

lemma ins_sort_spec: "sort_spec ins_sort"
  unfolding sort_spec_def
proof (intro allI impI)
  fix lt xs assume sw: "strict_weak lt xs"
  have ms: "mset (foldr (ins_by lt) ys []) = mset ys" for ys by (induction ys) auto
  have "set ys \<subseteq> set xs \<Longrightarrow> sorted_wrt (\<lambda>a b. \<not> lt b a) (foldr (ins_by lt) ys [])" for ys
  proof (induction ys)
    case (Cons y ys)
    have "set (foldr (ins_by lt) ys []) = set ys" using arg_cong[OF ms, of set_mset ys] by simp
    then show ?case using Cons by (auto intro!: ins_by_sorted[OF sw])
  qed simp
  then have "sorted_wrt (\<lambda>a b. \<not> lt b a) (ins_sort lt xs)" by (simp add: ins_sort_def)
  moreover have "mset (ins_sort lt xs) = mset xs" using ms by (simp add: ins_sort_def)
  moreover from this have "length (ins_sort lt xs) = length xs" by (rule mset_eq_length)
  ultimately show "mset (ins_sort lt xs) = mset xs \<and>
      (\<forall>i j. i < j \<longrightarrow> j < length xs \<longrightarrow> \<not> lt (ins_sort lt xs ! j) (ins_sort lt xs ! i))"
    by (auto simp: sorted_wrt_iff_nth_less)
qed

section \<open>Properties\<close>

text \<open>Greedy sampling (temperature at most 0) returns the first index of the largest logit
  and does not touch the generator.\<close>

theorem sample_greedy:
  assumes "0 < n" "n \<le> length logits" "f64_le (temperature p) 0" "\<forall>i < n. \<not> f32_nan (logits ! i)"
  shows "\<exists>b < n. sample F srt uniform logits (int n) p rng = Inr (int b, rng)
    \<and> (\<forall>j < n. \<not> f32_lt (logits ! b) (logits ! j)) \<and> (\<forall>j < b. f32_lt (logits ! j) (logits ! b))"
  using first_best_max[OF assms(4,1)] first_best_lt[OF assms(1)] argmax_first_best[OF assms(1,2)] assms(1,3)
  by (intro exI[of _ "first_best logits n"]) (simp add: sample_def)

lemma sample_greedy_witness:
  "\<exists>b < 3. sample toy_fpu ins_sort (\<lambda>g. (0, Suc g)) [0x3F800000, 0x40000000, 0x40000000] 3 \<lparr>temperature = 0, top_k = 0, top_p = f64_one\<rparr> (7::nat) = Inr (int b, 7)"
proof -
  have "f64_le (temperature \<lparr>temperature = 0, top_k = 0, top_p = f64_one\<rparr>) 0" by code_simp
  moreover have "\<forall>i < (3::nat). \<not> f32_nan ([0x3F800000, 0x40000000, 0x40000000] ! i)" by code_simp
  ultimately show ?thesis
    using sample_greedy[of 3 "[0x3F800000, 0x40000000, 0x40000000]" "\<lparr>temperature = 0, top_k = 0, top_p = f64_one\<rparr>" toy_fpu ins_sort "\<lambda>g. (0, Suc g)" "7::nat"]
    by auto
qed

text \<open>C36: With a positive temperature the sampled token is in the vocabulary, the generator is
  used once, and with \<open>top_k\<close> active fewer than \<open>top_k\<close> tokens have a larger logit, whatever
  the generator returns and however the floating point rounds.\<close>

theorem sample_top_k:
  assumes "sort_spec srt" "0 < n" "n \<le> length logits" "\<not> f64_le (temperature p) 0"
    and "strict_weak (logit_greater logits) (map int [0..<n])"
  shows "\<exists>t < n. sample F srt uniform logits (int n) p rng = Inr (int t, snd (uniform rng))
    \<and> card {j. j < n \<and> f32_lt (logits ! t) (logits ! j)} < nat (keep_count (int n) p)"
proof -
  let ?ord = "srt (logit_greater logits) (map int [0..<n])"
  from sample_kept[OF assms(1) _ _ assms(4), of "int n" logits F uniform rng] assms obtain i where
    i: "sample F srt uniform logits (int n) p rng = Inr (?ord ! i, snd (uniform rng))" "i < nat (keep_count (int n) p)"
    by auto
  have ms: "mset ?ord = mset (map int [0..<n])"
    and srt: "\<forall>i j. i < j \<longrightarrow> j < n \<longrightarrow> \<not> logit_greater logits (?ord ! j) (?ord ! i)"
    using assms(1)[unfolded sort_spec_def, rule_format, OF assms(5)] by simp_all
  have len: "length ?ord = n" using mset_eq_length[OF ms] by simp
  have set: "set ?ord = int ` {..<n}" using mset_eq_setD[OF ms] by (simp add: atLeast0LessThan)
  have il: "i < n" using i(2) keep_count_range[of "int n" p] assms(2) by linarith
  then have "?ord ! i \<in> int ` {..<n}" using set len by (metis nth_mem)
  then obtain t where t: "?ord ! i = int t" "t < n" by auto
  have "int ` {j. j < n \<and> f32_lt (logits ! t) (logits ! j)} \<subseteq> (!) ?ord ` {..<i}"
  proof
    fix x assume "x \<in> int ` {j. j < n \<and> f32_lt (logits ! t) (logits ! j)}"
    then obtain j where j: "x = int j" "j < n" "f32_lt (logits ! t) (logits ! j)" by auto
    then have "x \<in> set ?ord" using set by auto
    then obtain q where q: "q < n" "?ord ! q = x" using len by (auto simp: in_set_conv_nth)
    have "\<not> i < q"
    proof
      assume "i < q"
      with srt q(1) have "\<not> logit_greater logits (?ord ! q) (?ord ! i)" by blast
      then show False using q(2) j(1,3) t(1) by (simp add: logit_greater_def)
    qed
    moreover have "q \<noteq> i" using q j t(1) by auto
    ultimately show "x \<in> (!) ?ord ` {..<i}" using q(2) by auto
  qed
  then have "card (int ` {j. j < n \<and> f32_lt (logits ! t) (logits ! j)}) \<le> i"
    using surj_card_le[of "{..<i}"] by fastforce
  then have "card {j. j < n \<and> f32_lt (logits ! t) (logits ! j)} \<le> i" by (simp add: card_image)
  then show ?thesis using i t by auto
qed

lemma sample_top_k_witness:
  "\<exists>t < 3. sample toy_fpu ins_sort (\<lambda>g. (0, Suc g)) [5, 9, 7] 3 \<lparr>temperature = f64_one, top_k = 1, top_p = f64_one\<rparr> 4 = Inr (int t, 5)
    \<and> card {j. j < 3 \<and> f32_lt ([5, 9, 7] ! t) ([5, 9, 7] ! j)} < 1"
proof -
  have "\<not> f64_le (temperature \<lparr>temperature = f64_one, top_k = 1, top_p = f64_one\<rparr>) 0" by code_simp
  moreover have "strict_weak (logit_greater [5, 9, 7]) (map int [0..<3])" by code_simp
  ultimately show ?thesis
    using sample_top_k[OF ins_sort_spec, of 3 "[5, 9, 7]" "\<lparr>temperature = f64_one, top_k = 1, top_p = f64_one\<rparr>" toy_fpu "\<lambda>g. (0, Suc g)" 4]
    by (simp add: keep_count_def)
qed

end
