(* ===== verification/Engine.thy ===== *)
theory Engine
  imports Model Sampler
begin

text \<open>
  \<open>engine.hpp\<close> and \<open>engine.cpp\<close>: the continuous-batching engine. \<open>sequences_\<close> is a map from
  ids; a pointer to the blocks of a sequence is the id of the sequence, so \<open>forward_batch\<close>
  runs on the store of the blocks and its result is put back. What the engine runs on and
  is not in the sources is a \<open>platform\<close>: float arithmetic, the matrix product,
  \<open>std::sort\<close> and the random generator.
\<close>

section \<open>State\<close>

record request =
  rq_prompt :: "int list"
  rq_params :: sampling_params
  rq_max_tokens :: int
  rq_eos_id :: int

datatype seq_status = Waiting | Running | Finished

record engine_sequence =
  es_id :: int
  es_request :: request
  es_blocks :: sequence_blocks
  es_output :: "int list"
  es_status :: seq_status
  es_prefilled :: bool

record 'g engine =
  e_manager :: block_manager
  e_rng :: 'g
  e_max_batch :: int
  e_waiting :: "int list"
  e_running :: "int list"
  e_sequences :: "int \<rightharpoonup> engine_sequence"
  e_next_id :: int
  e_preemptions :: int
  e_prefix_cache :: bool

record 'g platform =
  p_fpu :: fpu
  p_eigen :: eigen
  p_sort :: "(int \<Rightarrow> int \<Rightarrow> bool) \<Rightarrow> int list \<Rightarrow> int list"
  p_uniform :: "'g \<Rightarrow> f64 \<times> 'g"

definition engine_new :: "model \<Rightarrow> int \<Rightarrow> int \<Rightarrow> 'g \<Rightarrow> int \<Rightarrow> bool \<Rightarrow> 'g engine res" where
  "engine_new m block_size nblocks rng max_batch enable_prefix_cache =
     (let c = m_config m in
      res_bind (bm_new (num_hidden_layers c) (num_key_value_heads c * head_dim c) block_size nblocks) (\<lambda>mgr.
        Inr \<lparr>e_manager = mgr, e_rng = rng, e_max_batch = max_batch, e_waiting = [], e_running = [],
             e_sequences = Map.empty, e_next_id = 0, e_preemptions = 0, e_prefix_cache = enable_prefix_cache\<rparr>))"

definition seq_at :: "'g engine \<Rightarrow> int \<Rightarrow> engine_sequence res" where
  "seq_at e i = (case e_sequences e i of None \<Rightarrow> Inl (OutOfRange ''unordered_map::at'') | Some s \<Rightarrow> Inr s)"

definition seq_set :: "int \<Rightarrow> engine_sequence \<Rightarrow> 'g engine \<Rightarrow> 'g engine" where
  "seq_set i s e = e\<lparr>e_sequences := (e_sequences e)(i \<mapsto> s)\<rparr>"

definition es_context :: "engine_sequence \<Rightarrow> int list" where
  "es_context s = rq_prompt (es_request s) @ es_output s"

definition step_tokens :: "engine_sequence \<Rightarrow> int list res" where
  "step_tokens s =
     (if es_prefilled s then (if es_output s = [] then Inl Undefined else Inr [last (es_output s)])
      else let ctx = es_context s; skip = seq_length (es_blocks s)
           in if skip < 0 \<or> int (length ctx) < skip then Inl Undefined else Inr (drop (nat skip) ctx))"

definition add_request :: "request \<Rightarrow> 'g engine \<Rightarrow> (int \<times> 'g engine) res" where
  "add_request rq e =
     (if rq_prompt rq = [] then Inl (InvalidArgument ''Engine: empty prompt'')
      else let i = e_next_id e;
               s = \<lparr>es_id = i, es_request = rq, es_blocks = no_blocks, es_output = [],
                    es_status = Waiting, es_prefilled = False\<rparr>
           in Inr (i, e\<lparr>e_next_id := i + 1,
                        e_sequences := (case e_sequences e i of None \<Rightarrow> (e_sequences e)(i \<mapsto> s) | Some _ \<Rightarrow> e_sequences e),
                        e_waiting := e_waiting e @ [i]\<rparr>))"

section \<open>Admission\<close>

definition admit_need :: "engine_sequence \<Rightarrow> int" where
  "admit_need s = (if es_prefilled s then 1 else int (length (rq_prompt (es_request s)) + length (es_output s)))"

text \<open>The loop over the waiting queue, which is its first argument.\<close>

fun admit :: "int list \<Rightarrow> 'g engine \<Rightarrow> 'g engine res" where
  "admit [] e = Inr (e\<lparr>e_waiting := []\<rparr>)"
| "admit (i # rest) e =
     (if int (length (e_running e)) < e_max_batch e
      then res_bind (seq_at e i) (\<lambda>s.
             if \<not> can_append (e_manager e) (es_blocks s) (admit_need s) then Inr (e\<lparr>e_waiting := i # rest\<rparr>)
             else admit rest (seq_set i (s\<lparr>es_status := Running\<rparr>) (e\<lparr>e_running := e_running e @ [i]\<rparr>)))
      else Inr (e\<lparr>e_waiting := i # rest\<rparr>))"

section \<open>Assembling a batch\<close>

text \<open>One entry of the parallel vectors \<open>items\<close>, \<open>batched_ids\<close>, \<open>was_prefill\<close>, \<open>prefill_ctx\<close>.\<close>

record batch_entry =
  be_id :: int
  be_tokens :: "int list"
  be_prefill :: bool
  be_ctx :: "int list"

definition share_prefix :: "int \<Rightarrow> 'g engine \<Rightarrow> 'g engine res" where
  "share_prefix i e =
     res_bind (seq_at e i) (\<lambda>s.
       if e_prefix_cache e \<and> \<not> es_prefilled s \<and> block_table (es_blocks s) = []
       then let ctx = es_context s; bs = bm_block_size (e_manager e);
                cap = ((int (length ctx) - 1) sdiv bs) * bs
            in if 0 < cap
               then res_bind (acquire_shared_prefix (es_blocks s) (take (nat cap) ctx) (e_manager e)) (\<lambda>(_, blk, mgr).
                      Inr (seq_set i (s\<lparr>es_blocks := blk\<rparr>) (e\<lparr>e_manager := mgr\<rparr>)))
               else Inr e
       else Inr e)"

definition assemble_item ::
    "int \<Rightarrow> int \<times> batch_entry list \<times> 'g engine \<Rightarrow> (int \<times> batch_entry list \<times> 'g engine) res" where
  "assemble_item i st =
     (case st of (budget, entries, e) \<Rightarrow>
      res_bind (share_prefix i e) (\<lambda>e.
      res_bind (seq_at e i) (\<lambda>s.
      res_bind (step_tokens s) (\<lambda>tokens.
        let delta = blocks_for (e_manager e) (seq_length (es_blocks s) + int (length tokens))
                    - int (length (block_table (es_blocks s)))
        in if budget < delta then Inr (budget, entries, e)
           else Inr (budget - delta,
                     entries @ [\<lparr>be_id = i, be_tokens = tokens, be_prefill = (\<not> es_prefilled s),
                                 be_ctx = (if \<not> es_prefilled s \<and> e_prefix_cache e then es_context s else [])\<rparr>],
                     e)))))"

definition assemble :: "'g engine \<Rightarrow> (int \<times> batch_entry list \<times> 'g engine) res" where
  "assemble e = res_fold assemble_item (e_running e) (free_blocks (e_manager e), [], e)"

section \<open>Preemption\<close>

text \<open>The position of the youngest running sequence that holds blocks, searched backwards.\<close>

fun youngest_holder :: "'g engine \<Rightarrow> nat \<Rightarrow> nat option res" where
  "youngest_holder e 0 = Inr None"
| "youngest_holder e (Suc k) =
     res_bind (vec_get (e_running e) (int k)) (\<lambda>i. res_bind (seq_at e i) (\<lambda>s.
       if block_table (es_blocks s) = [] then youngest_holder e k else Inr (Some k)))"

definition preempt_youngest :: "'g engine \<Rightarrow> (bool \<times> 'g engine) res" where
  "preempt_youngest e =
     res_bind (youngest_holder e (length (e_running e))) (\<lambda>found.
       case found of
         None \<Rightarrow> Inr (False, e)
       | Some k \<Rightarrow>
           res_bind (vec_get (e_running e) (int k)) (\<lambda>i. res_bind (seq_at e i) (\<lambda>s.
           res_bind (bm_free (es_blocks s) (e_manager e)) (\<lambda>(blk, mgr).
             Inr (True, (seq_set i (s\<lparr>es_blocks := blk, es_prefilled := False, es_status := Waiting\<rparr>) e)
                          \<lparr>e_manager := mgr, e_running := erase_at k (e_running e),
                           e_waiting := i # e_waiting e, e_preemptions := e_preemptions e + 1\<rparr>)))))"

lemma share_prefix_running: "share_prefix i e = Inr e' \<Longrightarrow> e_running e' = e_running e"
  by (auto simp: share_prefix_def res_bind_eq_Inr Let_def seq_set_def split: if_splits)

lemma assemble_running: "assemble e = Inr (budget, entries, e') \<Longrightarrow> e_running e' = e_running e"
  unfolding assemble_def
  by (drule res_fold_inv[where P = "\<lambda>st. e_running (snd (snd st)) = e_running e"])
     (auto simp: assemble_item_def res_bind_eq_Inr Let_def dest!: share_prefix_running split: if_splits)

lemma youngest_holder_lt: "youngest_holder e n = Inr (Some k) \<Longrightarrow> k < n \<and> k < length (e_running e)"
  by (induction n) (auto simp: res_bind_eq_Inr vec_get_eq_Inr split: if_splits)

lemma preempt_running:
  assumes "preempt_youngest e = Inr (True, e')"
  shows "length (e_running e') < length (e_running e)"
proof -
  from assms obtain k where "youngest_holder e (length (e_running e)) = Inr (Some k)"
    "e_running e' = erase_at k (e_running e)"
    by (auto simp: preempt_youngest_def res_bind_eq_Inr split: option.splits)
  with youngest_holder_lt[of e "length (e_running e)" k] show ?thesis by (simp add: erase_at_def)
qed

text \<open>The retry loop: it ends because every preemption shortens the running list.\<close>

function build_batch :: "'g engine \<Rightarrow> (batch_entry list \<times> 'g engine) res" where
  "build_batch e =
     res_bind (assemble e) (\<lambda>(budget, entries, e1).
       if entries \<noteq> [] \<or> length (e_running e1) \<le> 1 then Inr (entries, e1)
       else res_bind (preempt_youngest e1) (\<lambda>(freed, e2).
              if \<not> freed then Inr (entries, e2) else build_batch e2))"
  by pat_completeness auto

termination
  by (relation "measure (\<lambda>e. length (e_running e))")
     (auto dest!: assemble_running preempt_running)

declare build_batch.simps [simp del]

section \<open>A step\<close>

definition block_store :: "'g engine \<Rightarrow> seq_store" where
  "block_store e = (\<lambda>i. map_option es_blocks (e_sequences e i))"

definition put_blocks :: "seq_store \<Rightarrow> 'g engine \<Rightarrow> 'g engine" where
  "put_blocks st e =
     e\<lparr>e_sequences := (\<lambda>i. case e_sequences e i of None \<Rightarrow> None
         | Some s \<Rightarrow> Some (case st i of None \<Rightarrow> s | Some blk \<Rightarrow> s\<lparr>es_blocks := blk\<rparr>))\<rparr>"

definition sample_item ::
    "'g platform \<Rightarrow> model \<Rightarrow> tensor \<Rightarrow> nat \<times> batch_entry \<Rightarrow> bool \<times> 'g engine \<Rightarrow> (bool \<times> 'g engine) res" where
  "sample_item P m logits kb st =
     (case kb of (k, b) \<Rightarrow> case st of (any_finished, e) \<Rightarrow>
      let vocab = vocab_size (m_config m); i = be_id b in
      res_bind (seq_at e i) (\<lambda>s.
      res_bind (sample (p_fpu P) (p_sort P) (p_uniform P) (drop (nat (int k * vocab)) (t_data logits)) vocab
                  (rq_params (es_request s)) (e_rng e)) (\<lambda>(token, rng).
        let s = s\<lparr>es_prefilled := True, es_output := es_output s @ [token]\<rparr>;
            e = e\<lparr>e_rng := rng\<rparr>;
            hit_eos = (0 \<le> rq_eos_id (es_request s) \<and> token = rq_eos_id (es_request s));
            hit_len = (rq_max_tokens (es_request s) \<le> int (length (es_output s)))
        in if hit_eos \<or> hit_len
           then res_bind (bm_free (es_blocks s) (e_manager e)) (\<lambda>(blk, mgr).
                  Inr (True, seq_set i (s\<lparr>es_status := Finished, es_blocks := blk\<rparr>) (e\<lparr>e_manager := mgr\<rparr>)))
           else if e_prefix_cache e \<and> be_prefill b
           then res_bind (register_prefix (es_blocks s) (be_ctx b) (e_manager e)) (\<lambda>mgr.
                  Inr (any_finished, seq_set i s (e\<lparr>e_manager := mgr\<rparr>)))
           else Inr (any_finished, seq_set i s e))))"

fun still_running :: "'g engine \<Rightarrow> int list \<Rightarrow> int list res" where
  "still_running e [] = Inr []"
| "still_running e (i # is') =
     res_bind (seq_at e i) (\<lambda>s. res_bind (still_running e is') (\<lambda>r.
       Inr (if es_status s \<noteq> Finished then i # r else r)))"

definition run_batch :: "'g platform \<Rightarrow> model \<Rightarrow> batch_entry list \<Rightarrow> 'g engine \<Rightarrow> 'g engine res" where
  "run_batch P m entries e =
     res_bind (forward_batch (p_fpu P) (p_eigen P) m
                 (map (\<lambda>b. \<lparr>bi_blocks = Some (be_id b), bi_tokens = be_tokens b\<rparr>) entries)
                 (block_store e) (e_manager e)) (\<lambda>(logits, st, mgr).
     res_bind (res_fold (sample_item P m logits) (enumerate 0 entries) (False, (put_blocks st e)\<lparr>e_manager := mgr\<rparr>))
       (\<lambda>(any_finished, e).
          if any_finished then res_bind (still_running e (e_running e)) (\<lambda>r. Inr (e\<lparr>e_running := r\<rparr>)) else Inr e))"

definition step :: "'g platform \<Rightarrow> model \<Rightarrow> 'g engine \<Rightarrow> 'g engine res" where
  "step P m e =
     res_bind (admit (e_waiting e) e) (\<lambda>e.
     res_bind (build_batch e) (\<lambda>(entries, e).
       if entries = [] then Inr e else run_batch P m entries e))"

section \<open>Queries and the driver\<close>

definition has_work :: "'g engine \<Rightarrow> bool" where
  "has_work e \<longleftrightarrow> e_waiting e \<noteq> [] \<or> e_running e \<noteq> []"

definition engine_output :: "int \<Rightarrow> 'g engine \<Rightarrow> int list res" where
  "engine_output i e = res_bind (seq_at e i) (\<lambda>s. Inr (es_output s))"

definition engine_status :: "int \<Rightarrow> 'g engine \<Rightarrow> seq_status res" where
  "engine_status i e = res_bind (seq_at e i) (\<lambda>s. Inr (es_status s))"

definition engine_prefix_hits :: "'g engine \<Rightarrow> int" where
  "engine_prefix_hits e = bm_prefix_hits (e_manager e)"

text \<open>The loop of \<open>generate\<close> may run for ever: \<open>None\<close> is a run that never returns.\<close>

partial_function (option) drive ::
    "'g platform \<Rightarrow> model \<Rightarrow> int \<Rightarrow> 'g engine \<Rightarrow> (int list \<times> 'g engine) res option" where
  "drive P m i e =
     (case seq_at e i of
        Inl x \<Rightarrow> Some (Inl x)
      | Inr s \<Rightarrow>
          if es_status s = Finished then Some (Inr (es_output s, e))
          else (case step P m e of Inl x \<Rightarrow> Some (Inl x) | Inr e' \<Rightarrow> drive P m i e'))"

definition generate ::
    "'g platform \<Rightarrow> model \<Rightarrow> int list \<Rightarrow> sampling_params \<Rightarrow> int \<Rightarrow> int \<Rightarrow> 'g engine \<Rightarrow> (int list \<times> 'g engine) res option" where
  "generate P m prompt params max_tokens eos_id e =
     (case add_request \<lparr>rq_prompt = prompt, rq_params = params, rq_max_tokens = max_tokens, rq_eos_id = eos_id\<rparr> e of
        Inl x \<Rightarrow> Some (Inl x)
      | Inr (i, e) \<Rightarrow> drive P m i e)"

end
