(* ===== verification/Model_Spec.thy ===== *)
theory Model_Spec
  imports Model NN_Rows
begin

text \<open>
  The transformer as a function on rows, without tensors, caches or batches. One layer
  reads the rows of a chunk at positions \<open>past, past + 1, ..\<close> and the key and value rows
  \<open>h\<close> of all earlier positions, and returns the new rows and the extended history. The
  last section proves the fact everything else rests on: running a chunk \<open>xs @ ys\<close> is
  running \<open>xs\<close> and then \<open>ys\<close> on the history that \<open>xs\<close> left.
\<close>

section \<open>Well-shaped models\<close>

definition n_layers :: "model \<Rightarrow> nat" where "n_layers m = nat (num_hidden_layers (m_config m))"
definition n_heads :: "model \<Rightarrow> nat" where "n_heads m = nat (num_attention_heads (m_config m))"
definition n_kv :: "model \<Rightarrow> nat" where "n_kv m = nat (num_key_value_heads (m_config m))"
definition d_head :: "model \<Rightarrow> nat" where "d_head m = nat (head_dim (m_config m))"
definition d_model :: "model \<Rightarrow> nat" where "d_model m = nat (hidden_size (m_config m))"
definition d_ff :: "model \<Rightarrow> nat" where "d_ff m = nat (intermediate_size (m_config m))"
definition n_vocab :: "model \<Rightarrow> nat" where "n_vocab m = nat (vocab_size (m_config m))"
definition d_q :: "model \<Rightarrow> nat" where "d_q m = n_heads m * d_head m"
definition d_kv :: "model \<Rightarrow> nat" where "d_kv m = n_kv m * d_head m"

definition the_weight :: "model \<Rightarrow> string \<Rightarrow> tensor" where
  "the_weight m name = the (map_of (m_weights m) name)"

definition config_ok :: "model_config \<Rightarrow> bool" where
  "config_ok c \<longleftrightarrow> 0 \<le> num_hidden_layers c \<and> 0 \<le> num_attention_heads c \<and> 0 < num_key_value_heads c
     \<and> num_key_value_heads c dvd num_attention_heads c \<and> 0 < head_dim c \<and> 0 \<le> hidden_size c
     \<and> 0 \<le> intermediate_size c \<and> 0 \<le> vocab_size c"

definition has_vec :: "model \<Rightarrow> string \<Rightarrow> nat \<Rightarrow> bool" where
  "has_vec m name n \<longleftrightarrow> map_of (m_weights m) name \<noteq> None \<and> vec_ok n (the_weight m name)"

definition has_mat :: "model \<Rightarrow> string \<Rightarrow> nat \<Rightarrow> nat \<Rightarrow> bool" where
  "has_mat m name n i \<longleftrightarrow> map_of (m_weights m) name \<noteq> None \<and> mat n i (the_weight m name)"

text \<open>A projection: in the weights, and if it was quantized, with the same shape.\<close>

definition has_proj :: "model \<Rightarrow> string \<Rightarrow> nat \<Rightarrow> nat \<Rightarrow> bool" where
  "has_proj m name n i \<longleftrightarrow> has_mat m name n i \<and>
     (case map_of (m_quant m) name of None \<Rightarrow> True | Some q \<Rightarrow> qm_ok n i q)"

definition proj_key :: "nat \<Rightarrow> string \<Rightarrow> string" where
  "proj_key l name = layer_key (int l) (''self_attn.'' @ name @ ''_proj.weight'')"

definition bias_key :: "nat \<Rightarrow> string \<Rightarrow> string" where
  "bias_key l name = layer_key (int l) (''self_attn.'' @ name @ ''_proj.bias'')"

definition layer_ok :: "model \<Rightarrow> nat \<Rightarrow> bool" where
  "layer_ok m l \<longleftrightarrow>
     has_vec m (layer_key (int l) ''input_layernorm.weight'') (d_model m)
     \<and> has_vec m (layer_key (int l) ''post_attention_layernorm.weight'') (d_model m)
     \<and> has_proj m (proj_key l ''q'') (d_q m) (d_model m)
     \<and> has_proj m (proj_key l ''k'') (d_kv m) (d_model m)
     \<and> has_proj m (proj_key l ''v'') (d_kv m) (d_model m)
     \<and> (attention_qkv_bias (m_config m) \<longrightarrow> has_vec m (bias_key l ''q'') (d_q m)
          \<and> has_vec m (bias_key l ''k'') (d_kv m) \<and> has_vec m (bias_key l ''v'') (d_kv m))
     \<and> has_proj m (layer_key (int l) ''self_attn.o_proj.weight'') (d_model m) (d_q m)
     \<and> has_proj m (layer_key (int l) ''mlp.gate_proj.weight'') (d_ff m) (d_model m)
     \<and> has_proj m (layer_key (int l) ''mlp.up_proj.weight'') (d_ff m) (d_model m)
     \<and> has_proj m (layer_key (int l) ''mlp.down_proj.weight'') (d_model m) (d_ff m)"

definition model_ok :: "model \<Rightarrow> bool" where
  "model_ok m \<longleftrightarrow> config_ok (m_config m) \<and> (\<forall>l < n_layers m. layer_ok m l)
     \<and> has_mat m ''model.embed_tokens.weight'' (n_vocab m) (d_model m)
     \<and> has_vec m ''model.norm.weight'' (d_model m)
     \<and> (st_contains (m_weights m) ''lm_head.weight'' \<longrightarrow> has_mat m ''lm_head.weight'' (n_vocab m) (d_model m))"

definition ids_ok :: "model \<Rightarrow> int list \<Rightarrow> bool" where
  "ids_ok m ids \<longleftrightarrow> (\<forall>t \<in> set ids. 0 \<le> t \<and> t < int (n_vocab m))"

lemma config_dims:
  assumes "model_ok m"
  shows "num_attention_heads (m_config m) = int (n_heads m)" "num_key_value_heads (m_config m) = int (n_kv m)"
    "head_dim (m_config m) = int (d_head m)" "hidden_size (m_config m) = int (d_model m)"
    "vocab_size (m_config m) = int (n_vocab m)" "n_kv m \<noteq> 0" "n_kv m dvd n_heads m" "0 < d_head m" "0 < d_kv m"
    "num_hidden_layers (m_config m) = int (n_layers m)"
proof -
  from assms have c: "config_ok (m_config m)" by (simp add: model_ok_def)
  then show "num_attention_heads (m_config m) = int (n_heads m)" "num_key_value_heads (m_config m) = int (n_kv m)"
    "head_dim (m_config m) = int (d_head m)" "hidden_size (m_config m) = int (d_model m)"
    "vocab_size (m_config m) = int (n_vocab m)" "n_kv m \<noteq> 0" "0 < d_head m" "0 < d_kv m"
    "num_hidden_layers (m_config m) = int (n_layers m)"
    by (simp_all add: config_ok_def n_heads_def n_kv_def d_head_def d_model_def n_vocab_def d_kv_def n_layers_def)
  from c have "int (n_kv m) dvd int (n_heads m)" by (simp add: config_ok_def n_heads_def n_kv_def)
  then show "n_kv m dvd n_heads m" by simp
qed

lemma st_get_weight: "map_of (m_weights m) name \<noteq> None \<Longrightarrow> st_get (m_weights m) name = Inr (the_weight m name)"
  by (auto simp: st_get_def the_weight_def)

section \<open>Rows of a layer\<close>

definition lw_row :: "fpu \<Rightarrow> eigen \<Rightarrow> model \<Rightarrow> string \<Rightarrow> nat \<Rightarrow> nat \<Rightarrow> f32 list \<Rightarrow> f32 list \<Rightarrow> f32 list" where
  "lw_row F E m name n i b x =
     (case (if m_quantized m then map_of (m_quant m) name else None) of
        Some q \<Rightarrow> int8_row F q b x
      | None \<Rightarrow> lin_row E i n (t_data (the_weight m name)) b x)"

lemma linear_w_rows:
  assumes "eigen_rowwise E" "rect s i xss" "has_proj m name n i" "bias_ok n b"
  shows "linear_w F E m (mk_mat s i xss) name b = Inr (mk_mat s n (map (lw_row F E m name n i (t_data b)) xss))"
proof -
  have w: "map_of (m_weights m) name \<noteq> None" "mat n i (the_weight m name)"
    using assms(3) by (auto simp: has_proj_def has_mat_def)
  show ?thesis
  proof (cases "if m_quantized m then map_of (m_quant m) name else None")
    case None
    moreover have "lw_row F E m name n i (t_data b) = lin_row E i n (t_data (the_weight m name)) (t_data b)"
      using None by (simp add: lw_row_def fun_eq_iff)
    ultimately show ?thesis
      using linear_rows[OF assms(1,2) w(2) assms(4)] by (simp add: linear_w_def st_get_weight[OF w(1)])
  next
    case (Some q)
    then have "map_of (m_quant m) name = Some q" by (simp split: if_splits)
    then have "qm_ok n i q" using assms(3) by (simp add: has_proj_def)
    moreover have "lw_row F E m name n i (t_data b) = int8_row F q (t_data b)"
      using Some by (simp add: lw_row_def fun_eq_iff)
    ultimately show ?thesis
      using linear_int8_rows[OF assms(2) _ assms(4)] Some by (simp add: linear_w_def)
  qed
qed

lemma lw_row_length:
  assumes "eigen_rowwise E" "has_proj m name n i" "bias_ok n b" "length x = i"
  shows "length (lw_row F E m name n i (t_data b) x) = n"
proof -
  have l: "length (t_data (the_weight m name)) = n * i" using assms(2) by (simp add: has_proj_def has_mat_def mat_def)
  have "t_data b = [] \<or> length (t_data b) = n" using bias_cases[OF assms(3)] by auto
  from lin_row_length[OF assms(1,4) l this] assms(2) show ?thesis
    by (auto simp: lw_row_def has_proj_def int8_row_length split: option.splits if_splits)
qed

lemma bias_empty [simp]: "bias_ok n tensor_empty" "t_data tensor_empty = []"
  by (simp_all add: bias_ok_def tensor_empty_def)

definition proj_bias :: "model \<Rightarrow> nat \<Rightarrow> string \<Rightarrow> tensor" where
  "proj_bias m l name = (if attention_qkv_bias (m_config m) then the_weight m (bias_key l name) else tensor_empty)"

definition norm_row :: "fpu \<Rightarrow> model \<Rightarrow> string \<Rightarrow> f32 list \<Rightarrow> f32 list" where
  "norm_row F m name x = rms_row F (t_data (the_weight m name)) (rms_norm_eps (m_config m)) x"

definition proj_row :: "fpu \<Rightarrow> eigen \<Rightarrow> model \<Rightarrow> nat \<Rightarrow> string \<Rightarrow> nat \<Rightarrow> f32 list \<Rightarrow> f32 list" where
  "proj_row F E m l name n x =
     lw_row F E m (proj_key l name) n (d_model m) (t_data (proj_bias m l name))
       (norm_row F m (layer_key (int l) ''input_layernorm.weight'') x)"

definition q_row :: "fpu \<Rightarrow> eigen \<Rightarrow> model \<Rightarrow> nat \<Rightarrow> int \<Rightarrow> f32 list \<Rightarrow> f32 list" where
  "q_row F E m l pos x =
     rope_row F (int (n_heads m)) (int (d_head m)) (rope_theta (m_config m)) pos (proj_row F E m l ''q'' (d_q m) x)"

definition k_row :: "fpu \<Rightarrow> eigen \<Rightarrow> model \<Rightarrow> nat \<Rightarrow> int \<Rightarrow> f32 list \<Rightarrow> f32 list" where
  "k_row F E m l pos x =
     rope_row F (int (n_kv m)) (int (d_head m)) (rope_theta (m_config m)) pos (proj_row F E m l ''k'' (d_kv m) x)"

definition v_row :: "fpu \<Rightarrow> eigen \<Rightarrow> model \<Rightarrow> nat \<Rightarrow> f32 list \<Rightarrow> f32 list" where
  "v_row F E m l x = proj_row F E m l ''v'' (d_kv m) x"

text \<open>The rest of the layer, from its input row \<open>x\<close> and the row \<open>a\<close> of the attention.\<close>

definition mlp_row :: "fpu \<Rightarrow> eigen \<Rightarrow> model \<Rightarrow> nat \<Rightarrow> f32 list \<Rightarrow> f32 list" where
  "mlp_row F E m l x =
     (let n = norm_row F m (layer_key (int l) ''post_attention_layernorm.weight'') x;
          gate = lw_row F E m (layer_key (int l) ''mlp.gate_proj.weight'') (d_ff m) (d_model m) [] n;
          up = lw_row F E m (layer_key (int l) ''mlp.up_proj.weight'') (d_ff m) (d_model m) [] n
      in lw_row F E m (layer_key (int l) ''mlp.down_proj.weight'') (d_model m) (d_ff m) [] (map2 (silu F) gate up))"

definition post_row :: "fpu \<Rightarrow> eigen \<Rightarrow> model \<Rightarrow> nat \<Rightarrow> f32 list \<Rightarrow> f32 list \<Rightarrow> f32 list" where
  "post_row F E m l x a =
     (let y = map2 (f_add F) x (lw_row F E m (layer_key (int l) ''self_attn.o_proj.weight'') (d_model m) (d_q m) [] a)
      in map2 (f_add F) y (mlp_row F E m l y))"

section \<open>The tensor code computes these rows\<close>

lemma norm_row_length: "has_vec m name (d_model m) \<Longrightarrow> length x = d_model m \<Longrightarrow> length (norm_row F m name x) = d_model m"
  by (simp add: norm_row_def has_vec_def vec_ok_def rms_row_length)

lemma norm_rows:
  assumes "has_vec m name (d_model m)" "rect s (d_model m) xss"
  shows "st_get (m_weights m) name = Inr (the_weight m name)"
    "rms_norm F (mk_mat s (d_model m) xss) (the_weight m name) (rms_norm_eps (m_config m)) =
       Inr (mk_mat s (d_model m) (map (norm_row F m name) xss))"
    "rect s (d_model m) (map (norm_row F m name) xss)"
proof -
  show "st_get (m_weights m) name = Inr (the_weight m name)" using assms(1) by (simp add: has_vec_def st_get_weight)
  have "norm_row F m name = rms_row F (t_data (the_weight m name)) (rms_norm_eps (m_config m))"
    by (simp add: norm_row_def fun_eq_iff)
  then show "rms_norm F (mk_mat s (d_model m) xss) (the_weight m name) (rms_norm_eps (m_config m)) =
       Inr (mk_mat s (d_model m) (map (norm_row F m name) xss))"
    using rms_norm_rows[OF assms(2), of "the_weight m name"] assms(1) by (simp add: has_vec_def)
  show "rect s (d_model m) (map (norm_row F m name) xss)"
    using assms norm_row_length by (intro rect_map) auto
qed

lemma project_rows:
  assumes E: "eigen_rowwise E" and x: "rect s (d_model m) nss" and p: "has_proj m (proj_key l name) n (d_model m)"
    and b: "attention_qkv_bias (m_config m) \<longrightarrow> has_vec m (bias_key l name) n"
  shows "project F E m (mk_mat s (d_model m) nss) (int l) name =
           Inr (mk_mat s n (map (lw_row F E m (proj_key l name) n (d_model m) (t_data (proj_bias m l name))) nss))"
    and "bias_ok n (proj_bias m l name)"
proof -
  show bo: "bias_ok n (proj_bias m l name)" using b by (auto simp: proj_bias_def bias_ok_def has_vec_def)
  from linear_w_rows[OF E x p bo] b
  show "project F E m (mk_mat s (d_model m) nss) (int l) name =
           Inr (mk_mat s n (map (lw_row F E m (proj_key l name) n (d_model m) (t_data (proj_bias m l name))) nss))"
    by (auto simp: project_def Let_def proj_key_def bias_key_def proj_bias_def has_vec_def st_get_weight)
qed

lemma proj_row_length:
  assumes "eigen_rowwise E" "has_vec m (layer_key (int l) ''input_layernorm.weight'') (d_model m)"
    and "has_proj m (proj_key l name) n (d_model m)"
    and "attention_qkv_bias (m_config m) \<longrightarrow> has_vec m (bias_key l name) n" "length x = d_model m"
  shows "length (proj_row F E m l name n x) = n"
  unfolding proj_row_def
proof (rule lw_row_length[OF assms(1,3)])
  show "bias_ok n (proj_bias m l name)" using assms(4) by (auto simp: proj_bias_def bias_ok_def has_vec_def)
qed (use assms norm_row_length in auto)

lemma qkv_row_lengths:
  assumes "eigen_rowwise E" "model_ok m" "l < n_layers m" "length x = d_model m"
  shows "length (q_row F E m l p x) = d_q m" "length (k_row F E m l p x) = d_kv m" "length (v_row F E m l x) = d_kv m"
proof -
  have L: "layer_ok m l" using assms(2,3) by (simp add: model_ok_def)
  have q: "length (proj_row F E m l ''q'' (d_q m) x) = d_q m" and k: "length (proj_row F E m l ''k'' (d_kv m) x) = d_kv m"
    and v: "length (proj_row F E m l ''v'' (d_kv m) x) = d_kv m"
    using L assms(4) by (auto simp: layer_ok_def intro!: proj_row_length[OF assms(1)])
  show "length (q_row F E m l p x) = d_q m" using q rope_row_length by (simp add: q_row_def d_q_def)
  show "length (k_row F E m l p x) = d_kv m" using k rope_row_length by (simp add: k_row_def d_kv_def)
  show "length (v_row F E m l x) = d_kv m" using v by (simp add: v_row_def)
qed

lemma map2_map_right: "map2 f xs (map g ys) = map2 (\<lambda>x y. f x (g y)) xs ys"
  by (simp add: zip_map2 comp_def case_prod_unfold)

lemma qkv_rows:
  assumes E: "eigen_rowwise E" and ok: "model_ok m" "l < n_layers m" and x: "rect s (d_model m) xss"
    and ps: "length ps = s"
  shows "qkv F E m (mk_mat s (d_model m) xss) (int l) ps =
           Inr (mk_mat s (d_q m) (map2 (q_row F E m l) ps xss), mk_mat s (d_kv m) (map2 (k_row F E m l) ps xss),
                mk_mat s (d_kv m) (map (v_row F E m l) xss))"
proof -
  note C = config_dims[OF ok(1)]
  have L: "layer_ok m l" using ok by (simp add: model_ok_def)
  let ?in = "layer_key (int l) ''input_layernorm.weight''"
  let ?ns = "map (norm_row F m ?in) xss"
  have n: "has_vec m ?in (d_model m)" using L by (simp add: layer_ok_def)
  note N = norm_rows[OF n x]
  let ?p = "\<lambda>name n. map (proj_row F E m l name n) xss"
  have pr: "project F E m (mk_mat s (d_model m) ?ns) (int l) name = Inr (mk_mat s n (?p name n))"
    "rect s n (?p name n)"
    if "has_proj m (proj_key l name) n (d_model m)" "attention_qkv_bias (m_config m) \<longrightarrow> has_vec m (bias_key l name) n"
    for name n
  proof -
    have "proj_row F E m l name n = lw_row F E m (proj_key l name) n (d_model m) (t_data (proj_bias m l name)) \<circ> norm_row F m ?in"
      by (simp add: proj_row_def fun_eq_iff)
    then show "project F E m (mk_mat s (d_model m) ?ns) (int l) name = Inr (mk_mat s n (?p name n))"
      using project_rows(1)[OF E N(3) that] by simp
    show "rect s n (?p name n)"
      using x proj_row_length[OF E n that] by (intro rect_map) auto
  qed
  have q: "has_proj m (proj_key l ''q'') (d_q m) (d_model m)" "attention_qkv_bias (m_config m) \<longrightarrow> has_vec m (bias_key l ''q'') (d_q m)"
    and k: "has_proj m (proj_key l ''k'') (d_kv m) (d_model m)" "attention_qkv_bias (m_config m) \<longrightarrow> has_vec m (bias_key l ''k'') (d_kv m)"
    and v: "has_proj m (proj_key l ''v'') (d_kv m) (d_model m)" "attention_qkv_bias (m_config m) \<longrightarrow> has_vec m (bias_key l ''v'') (d_kv m)"
    using L by (auto simp: layer_ok_def)
  have rq: "rope_inplace F (mk_mat s (d_q m) (?p ''q'' (d_q m))) (int (n_heads m)) (int (d_head m)) (rope_theta (m_config m)) ps
      = Inr (mk_mat s (d_q m) (map2 (q_row F E m l) ps xss))"
    using rope_rows[OF pr(2)[OF q, unfolded d_q_def] ps]
    by (simp add: map2_map_right q_row_def d_q_def)
  have rk: "rope_inplace F (mk_mat s (d_kv m) (?p ''k'' (d_kv m))) (int (n_kv m)) (int (d_head m)) (rope_theta (m_config m)) ps
      = Inr (mk_mat s (d_kv m) (map2 (k_row F E m l) ps xss))"
    using rope_rows[OF pr(2)[OF k, unfolded d_kv_def] ps]
    by (simp add: map2_map_right k_row_def d_kv_def)
  have "?p ''v'' (d_kv m) = map (v_row F E m l) xss" by (simp add: v_row_def)
  note pv = pr(1)[OF v, unfolded this]
  show ?thesis
    using N(1,2) pr(1)[OF q] pr(1)[OF k] pv rq rk by (simp add: qkv_def Let_def C)
qed

lemma plain_rows:
  assumes "eigen_rowwise E" "has_proj m name n i" "rect s i xss"
  shows "linear_w F E m (mk_mat s i xss) name tensor_empty = Inr (mk_mat s n (map (lw_row F E m name n i []) xss))"
    "rect s n (map (lw_row F E m name n i []) xss)"
proof -
  show "linear_w F E m (mk_mat s i xss) name tensor_empty = Inr (mk_mat s n (map (lw_row F E m name n i []) xss))"
    using linear_w_rows[OF assms(1,3,2), of tensor_empty] by simp
  show "rect s n (map (lw_row F E m name n i []) xss)"
    using assms(3) lw_row_length[OF assms(1,2), of tensor_empty] by (intro rect_map) auto
qed

lemma map2_same: "map2 f (map g xs) (map h xs) = map (\<lambda>x. f (g x) (h x)) xs"
  by (induction xs) auto

lemma map2_map_same: "map2 f ys (map g ys) = map (\<lambda>y. f y (g y)) ys"
  by (induction ys) auto

lemma attn_mlp_rows:
  assumes E: "eigen_rowwise E" and ok: "model_ok m" "l < n_layers m" and x: "rect s (d_model m) xss"
    and a: "rect s (d_q m) ass"
  shows "attn_mlp F E m (mk_mat s (d_model m) xss) (mk_mat s (d_q m) ass) (int l)
       = Inr (mk_mat s (d_model m) (map2 (post_row F E m l) xss ass))"
    and "rect s (d_model m) (map2 (post_row F E m l) xss ass)"
proof -
  have L: "layer_ok m l" using ok by (simp add: model_ok_def)
  let ?o = "layer_key (int l) ''self_attn.o_proj.weight''" and ?n = "layer_key (int l) ''post_attention_layernorm.weight''"
    and ?g = "layer_key (int l) ''mlp.gate_proj.weight''" and ?u = "layer_key (int l) ''mlp.up_proj.weight''"
    and ?d = "layer_key (int l) ''mlp.down_proj.weight''"
  have P: "has_proj m ?o (d_model m) (d_q m)" "has_proj m ?g (d_ff m) (d_model m)" "has_proj m ?u (d_ff m) (d_model m)"
    "has_proj m ?d (d_model m) (d_ff m)" "has_vec m ?n (d_model m)" using L by (auto simp: layer_ok_def)
  note O = plain_rows[OF E P(1) a]
  define ys where "ys = map2 (map2 (f_add F)) xss (map (lw_row F E m ?o (d_model m) (d_q m) []) ass)"
  have y: "rect s (d_model m) ys" unfolding ys_def by (rule rect_map2[OF x O(2)]) simp
  have A1: "add_inplace F (mk_mat s (d_model m) xss) (mk_mat s (d_model m) (map (lw_row F E m ?o (d_model m) (d_q m) []) ass))
      = Inr (mk_mat s (d_model m) ys)"
    unfolding ys_def by (rule add_inplace_rows[OF x O(2)])
  note N = norm_rows[OF P(5) y]
  note G = plain_rows[OF E P(2) N(3)] and U = plain_rows[OF E P(3) N(3)]
  define zs where "zs = map (\<lambda>y. map2 (silu F) (lw_row F E m ?g (d_ff m) (d_model m) [] (norm_row F m ?n y))
                                   (lw_row F E m ?u (d_ff m) (d_model m) [] (norm_row F m ?n y))) ys"
  have zeq: "map2 (map2 (silu F)) (map (lw_row F E m ?g (d_ff m) (d_model m) []) (map (norm_row F m ?n) ys))
      (map (lw_row F E m ?u (d_ff m) (d_model m) []) (map (norm_row F m ?n) ys)) = zs"
    unfolding zs_def by (simp only: map_map map2_same comp_def)
  have S: "silu_mul F (mk_mat s (d_ff m) (map (lw_row F E m ?g (d_ff m) (d_model m) []) (map (norm_row F m ?n) ys)))
      (mk_mat s (d_ff m) (map (lw_row F E m ?u (d_ff m) (d_model m) []) (map (norm_row F m ?n) ys)))
      = Inr (mk_mat s (d_ff m) zs)"
    unfolding zeq[symmetric] by (rule silu_mul_rows[OF G(2) U(2)])
  have z: "rect s (d_ff m) zs" unfolding zeq[symmetric] by (rule rect_map2[OF G(2) U(2)]) simp
  note D = plain_rows[OF E P(4) z]
  define ws where "ws = map2 (map2 (f_add F)) ys (map (lw_row F E m ?d (d_model m) (d_ff m) []) zs)"
  have A2: "add_inplace F (mk_mat s (d_model m) ys) (mk_mat s (d_model m) (map (lw_row F E m ?d (d_model m) (d_ff m) []) zs))
      = Inr (mk_mat s (d_model m) ws)"
    unfolding ws_def by (rule add_inplace_rows[OF y D(2)])
  have "ws = map (\<lambda>y. map2 (f_add F) y (mlp_row F E m l y)) ys"
    unfolding ws_def zs_def mlp_row_def Let_def by (simp only: map_map map2_map_same comp_def)
  also have "\<dots> = map2 (post_row F E m l) xss ass"
    unfolding ys_def post_row_def Let_def map2_map_right by (simp add: case_prod_unfold)
  finally have weq: "ws = map2 (post_row F E m l) xss ass" .
  show "rect s (d_model m) (map2 (post_row F E m l) xss ass)"
    unfolding weq[symmetric] ws_def by (rule rect_map2[OF y D(2)]) simp
  show "attn_mlp F E m (mk_mat s (d_model m) xss) (mk_mat s (d_q m) ass) (int l)
       = Inr (mk_mat s (d_model m) (map2 (post_row F E m l) xss ass))"
    unfolding attn_mlp_def O(1) res_bind_Inr A1 N(1,2) G(1) U(1) S D(1) A2 weq ..
qed

section \<open>The specification of a layer and of the stack\<close>

type_synonym hist = "f32 list list \<times> f32 list list"

definition layer_spec :: "fpu \<Rightarrow> eigen \<Rightarrow> model \<Rightarrow> nat \<Rightarrow> nat \<Rightarrow> f32 list list \<Rightarrow> hist \<Rightarrow> f32 list list \<times> hist" where
  "layer_spec F E m l past xss h =
     (let ps = map (\<lambda>i. int (past + i)) [0..<length xss];
          ks = fst h @ map2 (k_row F E m l) ps xss; vs = snd h @ map (v_row F E m l) xss;
          as = attn_rows F (int (n_heads m)) (int (n_kv m)) (int (d_head m)) past (map2 (q_row F E m l) ps xss) ks vs
      in (map2 (post_row F E m l) xss as, (ks, vs)))"

text \<open>The first \<open>L\<close> layers, each on its own history.\<close>

fun stack_spec ::
    "fpu \<Rightarrow> eigen \<Rightarrow> model \<Rightarrow> nat \<Rightarrow> nat \<Rightarrow> f32 list list \<Rightarrow> (nat \<Rightarrow> hist) \<Rightarrow> f32 list list \<times> (nat \<Rightarrow> hist)" where
  "stack_spec F E m 0 past xss H = (xss, H)"
| "stack_spec F E m (Suc L) past xss H =
     (let (yss, H') = stack_spec F E m L past xss H;
          (zss, h) = layer_spec F E m L past yss (H' L)
      in (zss, H'(L := h)))"

definition hist_ok :: "nat \<Rightarrow> nat \<Rightarrow> hist \<Rightarrow> bool" where
  "hist_ok past w h \<longleftrightarrow> rect past w (fst h) \<and> rect past w (snd h)"

lemma layer_spec_ok:
  assumes E: "eigen_rowwise E" and ok: "model_ok m" "l < n_layers m" and x: "rect s (d_model m) xss"
    and h: "hist_ok past (d_kv m) h"
  shows "rect s (d_model m) (fst (layer_spec F E m l past xss h))"
    "hist_ok (past + s) (d_kv m) (snd (layer_spec F E m l past xss h))"
proof -
  note C = config_dims[OF ok(1)]
  let ?ps = "map (\<lambda>i. int (past + i)) [0..<length xss]"
  have ps: "length ?ps = length xss" by simp
  have k: "rect s (d_kv m) (map2 (k_row F E m l) ?ps xss)" and q: "rect s (d_q m) (map2 (q_row F E m l) ?ps xss)"
    using x qkv_row_lengths[OF E ok] by (auto simp: rect_def set_zip)
  have v: "rect s (d_kv m) (map (v_row F E m l) xss)" using x qkv_row_lengths[OF E ok] by (auto simp: rect_def)
  have ks: "rect (past + s) (d_kv m) (fst h @ map2 (k_row F E m l) ?ps xss)"
    and vs: "rect (past + s) (d_kv m) (snd h @ map (v_row F E m l) xss)"
    using h k v by (auto simp: hist_ok_def intro!: rect_append)
  note A = attn_rows_rect[OF q[unfolded d_q_def] vs[unfolded d_kv_def] C(6,7), folded d_q_def]
  show "rect s (d_model m) (fst (layer_spec F E m l past xss h))"
    using attn_mlp_rows(2)[OF E ok x A] by (simp add: layer_spec_def Let_def)
  show "hist_ok (past + s) (d_kv m) (snd (layer_spec F E m l past xss h))"
    using ks vs by (simp add: layer_spec_def Let_def hist_ok_def)
qed

lemma stack_spec_other: "L \<le> l \<Longrightarrow> snd (stack_spec F E m L past xss H) l = H l"
  by (induction L) (auto simp: case_prod_unfold Let_def)

lemma stack_spec_ok:
  assumes E: "eigen_rowwise E" and ok: "model_ok m" and x: "rect s (d_model m) xss"
    and h: "\<forall>l < n_layers m. hist_ok past (d_kv m) (H l)"
  shows "L \<le> n_layers m \<Longrightarrow> rect s (d_model m) (fst (stack_spec F E m L past xss H))
    \<and> (\<forall>l < L. hist_ok (past + s) (d_kv m) (snd (stack_spec F E m L past xss H) l))"
proof (induction L)
  case 0
  then show ?case using x by simp
next
  case (Suc L)
  then have "rect s (d_model m) (fst (stack_spec F E m L past xss H))" by simp
  moreover have "hist_ok past (d_kv m) (snd (stack_spec F E m L past xss H) L)"
    using h Suc.prems by (simp add: stack_spec_other)
  ultimately show ?case
    using layer_spec_ok[OF E ok, of L s] Suc by (auto simp: case_prod_unfold Let_def less_Suc_eq)
qed

section \<open>Splitting a chunk\<close>

lemma layer_spec_append:
  assumes "length (fst h) = past" "length (snd h) = past"
  shows "layer_spec F E m l past (xss @ yss) h =
    (let (xss', h1) = layer_spec F E m l past xss h;
         (yss', h2) = layer_spec F E m l (past + length xss) yss h1
     in (xss' @ yss', h2))"
proof -
  let ?n = "length xss"
  let ?ps = "map (\<lambda>i. int (past + i)) [0..<?n]"
  let ?qs = "map (\<lambda>i. int (past + ?n + i)) [0..<length yss]"
  have "map (\<lambda>i. int (past + i)) [0..<length (xss @ yss)] = ?ps @ ?qs"
    by (rule nth_equalityI) (auto simp: nth_append)
  then have zip: "map2 f (map (\<lambda>i. int (past + i)) [0..<length (xss @ yss)]) (xss @ yss) = map2 f ?ps xss @ map2 f ?qs yss"
    for f :: "int \<Rightarrow> f32 list \<Rightarrow> f32 list" by simp
  let ?ks = "fst h @ map2 (k_row F E m l) ?ps xss" and ?vs = "snd h @ map (v_row F E m l) xss"
  define A where "A = attn_rows F (int (n_heads m)) (int (n_kv m)) (int (d_head m)) past (map2 (q_row F E m l) ?ps xss) ?ks ?vs"
  define B where "B = attn_rows F (int (n_heads m)) (int (n_kv m)) (int (d_head m)) (past + ?n) (map2 (q_row F E m l) ?qs yss)
        (?ks @ map2 (k_row F E m l) ?qs yss) (?vs @ map (v_row F E m l) yss)"
  have AB: "attn_rows F (int (n_heads m)) (int (n_kv m)) (int (d_head m)) past
      (map2 (q_row F E m l) ?ps xss @ map2 (q_row F E m l) ?qs yss)
      (?ks @ map2 (k_row F E m l) ?qs yss) (?vs @ map (v_row F E m l) yss) = A @ B"
    using assms attn_rows_append[of ?ks past "map2 (q_row F E m l) ?ps xss" ?vs] by (simp add: A_def B_def)
  have len: "length A = length xss" by (simp add: A_def attn_rows_def)
  have "layer_spec F E m l past (xss @ yss) h =
    (map2 (post_row F E m l) (xss @ yss) (A @ B), (?ks @ map2 (k_row F E m l) ?qs yss, ?vs @ map (v_row F E m l) yss))"
    unfolding layer_spec_def Let_def zip map_append append_assoc[symmetric] AB ..
  moreover have "layer_spec F E m l past xss h = (map2 (post_row F E m l) xss A, (?ks, ?vs))"
    unfolding layer_spec_def Let_def A_def ..
  moreover have "layer_spec F E m l (past + ?n) yss (?ks, ?vs) =
    (map2 (post_row F E m l) yss B, (?ks @ map2 (k_row F E m l) ?qs yss, ?vs @ map (v_row F E m l) yss))"
    unfolding layer_spec_def Let_def B_def fst_conv snd_conv ..
  moreover have "map2 (post_row F E m l) (xss @ yss) (A @ B) = map2 (post_row F E m l) xss A @ map2 (post_row F E m l) yss B"
    using len by simp
  ultimately show ?thesis by (simp only: Let_def prod.case)
qed

lemma stack_spec_upd:
  "L \<le> l \<Longrightarrow> stack_spec F E m L past xss (H(l := h)) =
    (fst (stack_spec F E m L past xss H), (snd (stack_spec F E m L past xss H))(l := h))"
  by (induction L) (auto simp: case_prod_unfold Let_def fun_upd_twist)

lemma stack_spec_append:
  assumes E: "eigen_rowwise E" and ok: "model_ok m" and x: "rect s (d_model m) xss" and y: "rect t (d_model m) yss"
    and h: "\<forall>l < n_layers m. hist_ok past (d_kv m) (H l)"
  shows "L \<le> n_layers m \<Longrightarrow> stack_spec F E m L past (xss @ yss) H =
    (let (xss', H1) = stack_spec F E m L past xss H;
         (yss', H2) = stack_spec F E m L (past + s) yss H1
     in (xss' @ yss', H2))"
proof (induction L)
  case 0
  then show ?case by simp
next
  case (Suc L)
  obtain xs1 H1 where 1: "stack_spec F E m L past xss H = (xs1, H1)" by (cases "stack_spec F E m L past xss H")
  obtain h1 xs2 where 2: "layer_spec F E m L past xs1 (H1 L) = (xs2, h1)" by (cases "layer_spec F E m L past xs1 (H1 L)")
  have len: "length xs1 = s" using stack_spec_ok[OF E ok x h, of L F] Suc.prems 1 by (simp add: rect_def)
  have HL: "H1 L = H L" using stack_spec_other[of L L F E m past xss H] 1 by simp
  then have hl: "length (fst (H1 L)) = past" "length (snd (H1 L)) = past"
    using h Suc.prems by (auto simp: hist_ok_def rect_def)
  have upd: "stack_spec F E m L p zs (H1(L := h1)) = (fst (stack_spec F E m L p zs H1), (snd (stack_spec F E m L p zs H1))(L := h1))"
    for p zs h1
    by (rule stack_spec_upd) simp
  show ?case
    using Suc 1 2 layer_spec_append[OF hl, of F E m L xs1] len
    by (simp add: upd Let_def case_prod_unfold stack_spec_other)
qed

end
