(* ===== verification/Model_Cached.thy ===== *)
theory Model_Cached
  imports Model_Spec
begin

text \<open>
  The cached forward computes the specification, over any cache that keeps the contract
  \<open>kv_store\<close>; \<open>forward_with_cache\<close> and \<open>forward_paged\<close> are its two instances. From this and
  the splitting lemma of \<open>Model_Spec\<close> follow the promises of \<open>model.hpp\<close>: a prefill
  followed by single-token steps reproduces the full forward, on either cache.
\<close>

section \<open>Specification of the whole forward\<close>

definition embed_weight :: "model \<Rightarrow> tensor" where
  "embed_weight m = the_weight m ''model.embed_tokens.weight''"

definition lm_head_weight :: "model \<Rightarrow> tensor" where
  "lm_head_weight m =
     (if st_contains (m_weights m) ''lm_head.weight'' then the_weight m ''lm_head.weight'' else embed_weight m)"

definition final_row :: "fpu \<Rightarrow> model \<Rightarrow> f32 list \<Rightarrow> f32 list" where
  "final_row F m x = norm_row F m ''model.norm.weight'' x"

definition head_row :: "fpu \<Rightarrow> eigen \<Rightarrow> model \<Rightarrow> f32 list \<Rightarrow> f32 list" where
  "head_row F E m x = lin_row E (d_model m) (n_vocab m) (t_data (lm_head_weight m)) [] (final_row F m x)"

definition embed_rows :: "model \<Rightarrow> int list \<Rightarrow> f32 list list" where
  "embed_rows m ids = map (embed_row (d_model m) (embed_weight m)) ids"

definition forward_spec ::
    "fpu \<Rightarrow> eigen \<Rightarrow> model \<Rightarrow> nat \<Rightarrow> int list \<Rightarrow> (nat \<Rightarrow> hist) \<Rightarrow> f32 list list \<times> (nat \<Rightarrow> hist)" where
  "forward_spec F E m past ids H =
     (let (xss, H') = stack_spec F E m (n_layers m) past (embed_rows m ids) H
      in (map (head_row F E m) xss, H'))"

lemma embed_rows_rect:
  assumes "model_ok m" "ids_ok m ids"
  shows "rect (length ids) (d_model m) (embed_rows m ids)"
proof -
  have "mat (n_vocab m) (d_model m) (embed_weight m)"
    using assms(1) by (simp add: model_ok_def has_mat_def embed_weight_def)
  then show ?thesis
    using assms(2) embed_row_length by (fastforce simp: rect_def embed_rows_def ids_ok_def)
qed

lemma embedding_ok:
  assumes "model_ok m" "ids_ok m ids"
  shows "st_get (m_weights m) ''model.embed_tokens.weight'' = Inr (embed_weight m)"
    "embedding (embed_weight m) ids = Inr (mk_mat (length ids) (d_model m) (embed_rows m ids))"
proof -
  have e: "map_of (m_weights m) ''model.embed_tokens.weight'' \<noteq> None" "mat (n_vocab m) (d_model m) (embed_weight m)"
    using assms(1) by (auto simp: model_ok_def has_mat_def embed_weight_def)
  show "st_get (m_weights m) ''model.embed_tokens.weight'' = Inr (embed_weight m)"
    using st_get_weight[OF e(1)] by (simp add: embed_weight_def)
  have "\<forall>t \<in> set ids. 0 \<le> t \<and> t < int (n_vocab m)" using assms(2) by (simp add: ids_ok_def)
  from embedding_rows[OF e(2) this]
  show "embedding (embed_weight m) ids = Inr (mk_mat (length ids) (d_model m) (embed_rows m ids))"
    by (simp add: embed_rows_def)
qed

lemma head_weight_ok:
  assumes "model_ok m"
  shows "head_weight m (embed_weight m) = Inr (lm_head_weight m)" "mat (n_vocab m) (d_model m) (lm_head_weight m)"
  using assms by (auto simp: head_weight_def lm_head_weight_def model_ok_def has_mat_def embed_weight_def st_get_weight)

lemma head_rows:
  assumes E: "eigen_rowwise E" and ok: "model_ok m" and x: "rect s (d_model m) xss"
  shows "linear E (mk_mat s (d_model m) (map (final_row F m) xss)) (lm_head_weight m) tensor_empty
       = Inr (mk_mat s (n_vocab m) (map (head_row F E m) xss))"
    "rect s (n_vocab m) (map (head_row F E m) xss)"
proof -
  have n: "has_vec m ''model.norm.weight'' (d_model m)" using ok by (simp add: model_ok_def)
  have f: "rect s (d_model m) (map (final_row F m) xss)"
    using x norm_row_length[OF n] by (auto simp: final_row_def intro!: rect_map)
  from linear_rows[OF E f head_weight_ok(2)[OF ok], of tensor_empty]
  show "linear E (mk_mat s (d_model m) (map (final_row F m) xss)) (lm_head_weight m) tensor_empty
       = Inr (mk_mat s (n_vocab m) (map (head_row F E m) xss))"
    by (simp add: head_row_def[abs_def] comp_def)
  have "length (t_data (lm_head_weight m)) = n_vocab m * d_model m"
    using head_weight_ok(2)[OF ok] by (simp add: mat_def)
  then have "length (head_row F E m y) = n_vocab m" if "length y = d_model m" for y
    unfolding head_row_def using that norm_row_length[OF n]
    by (intro lin_row_length[OF E]) (auto simp: final_row_def)
  then show "rect s (n_vocab m) (map (head_row F E m) xss)" using x by (intro rect_map)
qed

lemma forward_spec_ok:
  assumes E: "eigen_rowwise E" and ok: "model_ok m" "ids_ok m ids"
    and h: "\<forall>l < n_layers m. hist_ok past (d_kv m) (H l)"
  shows "rect (length ids) (n_vocab m) (fst (forward_spec F E m past ids H))"
    "\<forall>l < n_layers m. hist_ok (past + length ids) (d_kv m) (snd (forward_spec F E m past ids H) l)"
proof -
  note S = stack_spec_ok[OF E ok(1) embed_rows_rect[OF ok] h, of "n_layers m" F]
  show "rect (length ids) (n_vocab m) (fst (forward_spec F E m past ids H))"
    using S head_rows(2)[OF E ok(1)] by (simp add: forward_spec_def case_prod_unfold Let_def)
  show "\<forall>l < n_layers m. hist_ok (past + length ids) (d_kv m) (snd (forward_spec F E m past ids H) l)"
    using S by (simp add: forward_spec_def case_prod_unfold Let_def)
qed

lemma forward_spec_append:
  assumes E: "eigen_rowwise E" and ok: "model_ok m" "ids_ok m ids" "ids_ok m ids'"
    and h: "\<forall>l < n_layers m. hist_ok past (d_kv m) (H l)"
  shows "forward_spec F E m past (ids @ ids') H =
    (fst (forward_spec F E m past ids H)
       @ fst (forward_spec F E m (past + length ids) ids' (snd (forward_spec F E m past ids H))),
     snd (forward_spec F E m (past + length ids) ids' (snd (forward_spec F E m past ids H))))"
  using stack_spec_append[OF E ok(1) embed_rows_rect[OF ok(1,2)] embed_rows_rect[OF ok(1,3)] h, of "n_layers m" F]
  by (simp add: forward_spec_def embed_rows_def case_prod_unfold Let_def)

lemma stack_spec_cong:
  "(\<forall>l < L. H l = H' l) \<Longrightarrow>
   fst (stack_spec F E m L past xss H) = fst (stack_spec F E m L past xss H')
   \<and> (\<forall>l < L. snd (stack_spec F E m L past xss H) l = snd (stack_spec F E m L past xss H') l)"
  by (induction L) (auto simp: case_prod_unfold Let_def less_Suc_eq stack_spec_other)

lemma forward_spec_cong:
  assumes "\<forall>l < n_layers m. H l = H' l"
  shows "fst (forward_spec F E m past ids H) = fst (forward_spec F E m past ids H')"
    "\<forall>l < n_layers m. snd (forward_spec F E m past ids H) l = snd (forward_spec F E m past ids H') l"
  using stack_spec_cong[OF assms, where F = F and E = E and m = m and past = past and xss = "embed_rows m ids"]
  by (simp_all add: forward_spec_def case_prod_unfold Let_def)

section \<open>Over any cache\<close>

context kv_store
begin

lemma cached_layer_ok:
  assumes E: "eigen_rowwise E" and ok: "model_ok m" "l < n_layers m" and x: "rect s (d_model m) xss"
    and c: "inv c" "layers c = n_layers m" "width c = d_kv m" and h: "hist_ok past (d_kv m) (hist c l)"
    and room: "room c (past + s)"
  defines "ops \<equiv> \<lparr>c_append = append, c_key = key_tensor, c_value = value_tensor, c_advance = advance, c_length = len\<rparr>"
  shows "\<exists>c'. cached_layer F E m ops (int past) (int s) (map (\<lambda>i. int (past + i)) [0..<s]) l (mk_mat s (d_model m) xss, c)
      = Inr (mk_mat s (d_model m) (fst (layer_spec F E m l past xss (hist c l))), c')
    \<and> inv c' \<and> layers c' = layers c \<and> width c' = width c \<and> len c' = len c \<and> room c' = room c
    \<and> hist c' = (hist c)(l := snd (layer_spec F E m l past xss (hist c l)))"
proof -
  note C = config_dims[OF ok(1)]
  let ?ps = "map (\<lambda>i. int (past + i)) [0..<s]"
  have ps: "length ?ps = s" and xl: "length xss = s" using x by (auto simp: rect_def)
  let ?q = "map2 (q_row F E m l) ?ps xss" and ?k = "map2 (k_row F E m l) ?ps xss" and ?v = "map (v_row F E m l) xss"
  have rk: "rect s (d_kv m) ?k" and rq: "rect s (d_q m) ?q"
    using x qkv_row_lengths[OF E ok] by (auto simp: rect_def set_zip)
  have rv: "rect s (d_kv m) ?v" using x qkv_row_lengths[OF E ok] by (auto simp: rect_def)
  have rr: "rows (d_kv m) s (concat ?k) = ?k" "rows (d_kv m) s (concat ?v) = ?v"
    using rect_rows[OF rk] rect_rows[OF rv] by simp_all
  have lh: "length (fst (hist c l)) = past" using h by (simp add: hist_ok_def rect_def)
  have ll: "l < layers c" using ok c by simp
  have kl: "length (concat ?k) = s * width c" "length (concat ?v) = s * width c"
    using rect_data_length[OF rk] rect_data_length[OF rv] c(3) by simp_all
  from append_ok[OF c(1) ll kl] room lh obtain c1 where
    c1: "append (int l) (concat ?k) (concat ?v) (int s) c = Inr c1" "inv c1" "layers c1 = layers c" "width c1 = width c"
    "len c1 = len c" "room c1 = room c" "hist c1 = (hist c)(l := (fst (hist c l) @ ?k, snd (hist c l) @ ?v))"
    using c(3) rr by auto
  let ?K = "fst (hist c l) @ ?k" and ?V = "snd (hist c l) @ ?v"
  have hk: "key_tensor (int l) c1 = Inr (mk_mat (past + s) (d_kv m) ?K)"
    and hv: "value_tensor (int l) c1 = Inr (mk_mat (past + s) (d_kv m) ?V)"
    using key_ok[OF c1(2), of l] value_ok[OF c1(2), of l] c1(3,4,7) ll c(3) lh xl by simp_all
  have rK: "rect (past + s) (d_kv m) ?K" and rV: "rect (past + s) (d_kv m) ?V"
    using h rk rv by (auto simp: hist_ok_def intro!: rect_append)
  let ?A = "attn_rows F (int (n_heads m)) (int (n_kv m)) (int (d_head m)) past ?q ?K ?V"
  have at: "attention F (mk_mat s (d_q m) ?q) (mk_mat (past + s) (d_kv m) ?K) (mk_mat (past + s) (d_kv m) ?V)
      (int (n_heads m)) (int (n_kv m)) (int (d_head m)) (int past) = Inr (mk_mat s (d_q m) ?A)"
    unfolding d_q_def d_kv_def
    by (rule attention_rows[OF rq[unfolded d_q_def] rK[unfolded d_kv_def] rV[unfolded d_kv_def] C(6,7)]) simp
  have rA: "rect s (d_q m) ?A"
    unfolding d_q_def by (rule attn_rows_rect[OF rq[unfolded d_q_def] rV[unfolded d_kv_def] C(6,7)])
  have sp: "layer_spec F E m l past xss (hist c l) = (map2 (post_row F E m l) xss ?A, (?K, ?V))"
    unfolding layer_spec_def Let_def xl ..
  note am = attn_mlp_rows(1)[OF E ok x rA]
  have "cached_layer F E m ops (int past) (int s) ?ps l (mk_mat s (d_model m) xss, c)
      = Inr (mk_mat s (d_model m) (map2 (post_row F E m l) xss ?A), c1)"
    unfolding cached_layer_def prod.case Let_def qkv_rows[OF E ok x ps] res_bind_Inr ops_def cache_ops.select_convs
      mk_mat_dims(5) c1(1) hk hv C(1,2,3) at am ..
  then show ?thesis using c1 unfolding sp by auto
qed

lemma cached_layers_ok:
  assumes E: "eigen_rowwise E" and ok: "model_ok m" and x: "rect s (d_model m) xss"
    and c: "inv c" "layers c = n_layers m" "width c = d_kv m" and h: "\<forall>l < n_layers m. hist_ok past (d_kv m) (hist c l)"
    and room: "room c (past + s)"
  defines "ops \<equiv> \<lparr>c_append = append, c_key = key_tensor, c_value = value_tensor, c_advance = advance, c_length = len\<rparr>"
  shows "L \<le> n_layers m \<Longrightarrow>
    \<exists>c'. res_fold (cached_layer F E m ops (int past) (int s) (map (\<lambda>i. int (past + i)) [0..<s])) [0..<L]
        (mk_mat s (d_model m) xss, c)
      = Inr (mk_mat s (d_model m) (fst (stack_spec F E m L past xss (hist c))), c')
    \<and> inv c' \<and> layers c' = layers c \<and> width c' = width c \<and> len c' = len c \<and> room c' = room c
    \<and> hist c' = snd (stack_spec F E m L past xss (hist c))"
proof (induction L)
  case 0
  then show ?case using c(1) by auto
next
  case (Suc L)
  then obtain c1 where c1:
    "res_fold (cached_layer F E m ops (int past) (int s) (map (\<lambda>i. int (past + i)) [0..<s])) [0..<L]
        (mk_mat s (d_model m) xss, c) = Inr (mk_mat s (d_model m) (fst (stack_spec F E m L past xss (hist c))), c1)"
    "inv c1" "layers c1 = layers c" "width c1 = width c" "len c1 = len c" "room c1 = room c"
    "hist c1 = snd (stack_spec F E m L past xss (hist c))" by auto
  have rx: "rect s (d_model m) (fst (stack_spec F E m L past xss (hist c)))"
    using stack_spec_ok[OF E ok x h, of L F] Suc.prems by simp
  have l: "L < n_layers m" using Suc.prems by simp
  have hL: "hist c1 L = hist c L" using c1(7) by (simp add: stack_spec_other)
  then have hk: "hist_ok past (d_kv m) (hist c1 L)" using h l by simp
  have rm: "room c1 (past + s)" using c1(6) room by simp
  from cached_layer_ok[OF E ok l rx c1(2) _ _ hk rm, of F] c1(3,4) c(2,3) obtain c' where
    "cached_layer F E m ops (int past) (int s) (map (\<lambda>i. int (past + i)) [0..<s]) L
        (mk_mat s (d_model m) (fst (stack_spec F E m L past xss (hist c))), c1)
      = Inr (mk_mat s (d_model m) (fst (layer_spec F E m L past (fst (stack_spec F E m L past xss (hist c))) (hist c1 L))), c')"
    "inv c'" "layers c' = layers c1" "width c' = width c1" "len c' = len c1" "room c' = room c1"
    "hist c' = (hist c1)(L := snd (layer_spec F E m L past (fst (stack_spec F E m L past xss (hist c))) (hist c1 L)))"
    unfolding ops_def by auto
  then show ?case using c1 by (intro exI[of _ c']) (simp add: res_fold_append case_prod_unfold Let_def)
qed

lemma forward_cached_ok:
  assumes E: "eigen_rowwise E" and ok: "model_ok m" "ids_ok m ids" "ids \<noteq> []"
    and c: "inv c" "layers c = n_layers m" "width c = d_kv m" "len c = int past"
    and h: "\<forall>l < n_layers m. hist_ok past (d_kv m) (hist c l)" and room: "room c (past + length ids)"
  defines "ops \<equiv> \<lparr>c_append = append, c_key = key_tensor, c_value = value_tensor, c_advance = advance, c_length = len\<rparr>"
  shows "\<exists>c'. forward_cached F E m ops ids c
      = Inr (mk_mat (length ids) (n_vocab m) (fst (forward_spec F E m past ids (hist c))), c')
    \<and> inv c' \<and> layers c' = layers c \<and> width c' = width c \<and> len c' = int (past + length ids) \<and> room c' = room c
    \<and> hist c' = snd (forward_spec F E m past ids (hist c))"
proof -
  note C = config_dims[OF ok(1)]
  let ?s = "length ids" and ?x = "embed_rows m ids"
  note x = embed_rows_rect[OF ok(1,2)]
  from cached_layers_ok[OF E ok(1) x c(1-3) h room, where L = "n_layers m" and F = F] obtain c1 where c1:
    "res_fold (cached_layer F E m ops (int past) (int ?s) (map (\<lambda>i. int (past + i)) [0..<?s])) [0..<n_layers m]
        (mk_mat ?s (d_model m) ?x, c) = Inr (mk_mat ?s (d_model m) (fst (stack_spec F E m (n_layers m) past ?x (hist c))), c1)"
    "inv c1" "layers c1 = layers c" "width c1 = width c" "len c1 = len c" "room c1 = room c"
    "hist c1 = snd (stack_spec F E m (n_layers m) past ?x (hist c))" unfolding ops_def by auto
  have rx: "rect ?s (d_model m) (fst (stack_spec F E m (n_layers m) past ?x (hist c)))"
    using stack_spec_ok[OF E ok(1) x h, of "n_layers m" F] by simp
  have n: "has_vec m ''model.norm.weight'' (d_model m)" using ok(1) by (simp add: model_ok_def)
  have "final_row F m = norm_row F m ''model.norm.weight''" by (simp add: final_row_def fun_eq_iff)
  note N2 = norm_rows(2)[OF n rx, of F, folded this] and N1 = norm_rows(1)[OF n rx]
  have ps: "map (\<lambda>i. int past + int i) [0..<?s] = map (\<lambda>i. int (past + i)) [0..<?s]" by simp
  have fs: "forward_spec F E m past ids (hist c) =
      (map (head_row F E m) (fst (stack_spec F E m (n_layers m) past ?x (hist c))),
       snd (stack_spec F E m (n_layers m) past ?x (hist c)))"
    by (simp add: forward_spec_def case_prod_unfold Let_def)
  have nl: "nat (num_hidden_layers (m_config m)) = n_layers m" by (simp add: n_layers_def)
  have ne: "int (length ids) \<noteq> 0" using ok(3) by simp
  have cl: "c_length ops c = int past" using c(4) by (simp add: ops_def)
  have ca: "c_advance ops = advance" by (simp add: ops_def)
  have "forward_cached F E m ops ids c =
      Inr (mk_mat ?s (n_vocab m) (map (head_row F E m) (fst (stack_spec F E m (n_layers m) past ?x (hist c)))), advance (int ?s) c1)"
    unfolding forward_cached_def Let_def if_not_P[OF ne] cl ca embedding_ok[OF ok(1,2)] res_bind_Inr ps nl c1(1) prod.case N1 N2
      head_weight_ok(1)[OF ok(1)] head_rows(1)[OF E ok(1) rx] ..
  then show ?thesis
    unfolding fs using c1 advance_ok[OF c1(2), of "int ?s"] c(4) by (intro exI[of _ "advance (int ?s) c1"]) auto
qed

end
text \<open>The two instances.\<close>

lemma kv_forward_ok:
  assumes E: "eigen_rowwise E" and ok: "model_ok m" "ids_ok m ids" "ids \<noteq> []"
    and c: "kv_inv c" "length (kc_keys c) = n_layers m" "nat (kc_kv_dim c) = d_kv m" "kc_length c = int past"
    and h: "\<forall>l < n_layers m. hist_ok past (d_kv m) (kv_hist c l)"
  shows "\<exists>c'. forward_with_cache F E m ids c
      = Inr (mk_mat (length ids) (n_vocab m) (fst (forward_spec F E m past ids (kv_hist c))), c')
    \<and> kv_inv c' \<and> length (kc_keys c') = n_layers m \<and> nat (kc_kv_dim c') = d_kv m
    \<and> kc_length c' = int (past + length ids) \<and> kv_hist c' = snd (forward_spec F E m past ids (kv_hist c))"
proof -
  from kvc.forward_cached_ok[OF E ok c h TrueI, of F] c(2,3) show ?thesis
    by (simp add: forward_with_cache_def kv_ops_def)
qed

lemma paged_forward_ok:
  assumes E: "eigen_rowwise E" and ok: "model_ok m" "ids_ok m ids" "ids \<noteq> []"
    and c: "paged_inv c" "length (pk_keys c) = n_layers m" "nat (pk_kv_dim c) = d_kv m" "pk_length c = int past"
    and h: "\<forall>l < n_layers m. hist_ok past (d_kv m) (paged_hist c l)" and room: "paged_room c (past + length ids)"
  shows "\<exists>c'. forward_paged F E m ids c
      = Inr (mk_mat (length ids) (n_vocab m) (fst (forward_spec F E m past ids (paged_hist c))), c')
    \<and> paged_inv c' \<and> length (pk_keys c') = n_layers m \<and> nat (pk_kv_dim c') = d_kv m
    \<and> pk_length c' = int (past + length ids) \<and> paged_room c' = paged_room c
    \<and> paged_hist c' = snd (forward_spec F E m past ids (paged_hist c))"
proof -
  from pkc.forward_cached_ok[OF E ok c h room, of F] c(2,3) show ?thesis
    by (simp add: forward_paged_def paged_ops_def)
qed

definition no_hist :: "nat \<Rightarrow> hist" where "no_hist = (\<lambda>_. ([], []))"

lemma no_hist_ok: "hist_ok 0 w (no_hist l)"
  by (simp add: hist_ok_def no_hist_def rect_def)

lemma forward_ok:
  assumes E: "eigen_rowwise E" and ok: "model_ok m" "ids_ok m ids" "ids \<noteq> []"
  shows "forward F E m ids = Inr (mk_mat (length ids) (n_vocab m) (fst (forward_spec F E m 0 ids no_hist)))"
proof -
  note C = config_dims[OF ok(1)]
  have kv: "num_key_value_heads (m_config m) * head_dim (m_config m) = int (d_kv m)"
    unfolding C d_kv_def by simp
  from kv_new_inv[of "int (n_layers m)" "int (d_kv m)"] C(9) obtain c where
    c: "kv_new (int (n_layers m)) (int (d_kv m)) = Inr c" "kv_inv c" "length (kc_keys c) = n_layers m"
    "kc_kv_dim c = int (d_kv m)" "kc_length c = 0" "\<forall>l < n_layers m. kv_hist c l = ([], [])" by auto
  have h: "\<forall>l < n_layers m. hist_ok 0 (d_kv m) (kv_hist c l)" using c(6) by (simp add: hist_ok_def rect_def)
  from kv_forward_ok[OF E ok c(2,3) _ _ h, of F] c(4,5) obtain c' where
    "forward_with_cache F E m ids c = Inr (mk_mat (length ids) (n_vocab m) (fst (forward_spec F E m 0 ids (kv_hist c))), c')"
    by auto
  moreover have "fst (forward_spec F E m 0 ids (kv_hist c)) = fst (forward_spec F E m 0 ids no_hist)"
    using c(6) by (intro forward_spec_cong(1)) (simp add: no_hist_def)
  ultimately show ?thesis using c(1) by (simp add: forward_def C(10) kv)
qed

end
