(* ===== verification/Block_Manager_Pool.thy ===== *)
theory Block_Manager_Pool
  imports Block_Manager
begin

text \<open>
  The block manager as a pool. Seen by the sequences, the manager is again a
  \<open>counted_pool\<close>: a reference is one a sequence holds, the cache's own references do not
  count, and a block is available when it is free or when only the cache holds it,
  because \<open>allocate_block\<close> evicts such a block when the free list is empty.
\<close>

section \<open>The cache's references\<close>

definition entries :: "block_manager \<Rightarrow> prefix_entry list" where
  "entries m = concat (map snd (bm_prefix m))"

definition cache_refs :: "block_manager \<Rightarrow> int \<Rightarrow> nat" where
  "cache_refs m b = length (filter (\<lambda>e. pe_block e = b) (entries m))"

definition evictable :: "block_manager \<Rightarrow> prefix_entry \<Rightarrow> bool" where
  "evictable m e \<longleftrightarrow> refs_of (bm_alloc m) (pe_block e) = 1"

definition seq_refs :: "block_manager \<Rightarrow> int \<Rightarrow> nat" where
  "seq_refs m b = refs_of (bm_alloc m) b - cache_refs m b"

definition bm_avail :: "block_manager \<Rightarrow> nat" where
  "bm_avail m = nat (num_free (bm_alloc m)) + length (filter (evictable m) (entries m))"

definition bm_inv :: "block_manager \<Rightarrow> bool" where
  "bm_inv m \<longleftrightarrow> alloc_inv (bm_alloc m) \<and> distinct (map fst (bm_prefix m))
     \<and> (\<forall>e \<in> set (entries m). cache_refs m (pe_block e) \<le> refs_of (bm_alloc m) (pe_block e))"

lemma cache_refs_mset: "cache_refs m b = size (filter_mset (\<lambda>e. pe_block e = b) (mset (entries m)))"
  by (simp add: cache_refs_def flip: mset_filter)

lemma cache_refs_zero: "cache_refs m b = 0 \<longleftrightarrow> (\<forall>e \<in> set (entries m). pe_block e \<noteq> b)"
  by (auto simp: cache_refs_def filter_empty_conv)

lemma bm_inv_cache_refs: "bm_inv m \<Longrightarrow> cache_refs m b \<le> refs_of (bm_alloc m) b"
  using cache_refs_zero[of m b] by (cases "cache_refs m b = 0") (auto simp: bm_inv_def)

lemma bm_invI:
  assumes "alloc_inv (bm_alloc m)" "distinct (map fst (bm_prefix m))"
    and "\<And>b. cache_refs m b \<le> refs_of (bm_alloc m) b"
  shows "bm_inv m"
  using assms by (auto simp: bm_inv_def)

lemma seq_refs_le: "bm_inv m \<Longrightarrow> seq_refs m b + cache_refs m b = refs_of (bm_alloc m) b"
  using bm_inv_cache_refs[of m b] by (simp add: seq_refs_def)

lemma entry_refs_pos: "bm_inv m \<Longrightarrow> e \<in> set (entries m) \<Longrightarrow> 0 < refs_of (bm_alloc m) (pe_block e)"
  using bm_inv_cache_refs[of m "pe_block e"] cache_refs_zero[of m "pe_block e"] by fastforce

lemma entry_range:
  "bm_inv m \<Longrightarrow> e \<in> set (entries m) \<Longrightarrow> 0 \<le> pe_block e \<and> pe_block e < num_blocks (bm_alloc m)"
  using refs_of_pos_range[OF entry_refs_pos] .

section \<open>Buckets\<close>

lemma mset_update_bucket:
  assumes "distinct (map fst pm)" "map_of pm h = Some es"
  shows "mset (concat (map snd (AList.update h es' pm))) + mset es = mset (concat (map snd pm)) + mset es'"
  using assms
proof (induction pm)
  case Nil
  then show ?case by simp
next
  case (Cons p pm)
  obtain k v where p: "p = (k, v)" by (cases p)
  show ?case
  proof (cases "k = h")
    case True
    with Cons p show ?thesis by simp
  next
    case False
    with Cons.IH Cons.prems p
    have "mset (concat (map snd (AList.update h es' pm))) + mset es = mset (concat (map snd pm)) + mset es'"
      by simp
    with False p show ?thesis by (simp add: add.assoc)
  qed
qed

lemma mset_new_bucket:
  assumes "map_of pm h = None"
  shows "mset (concat (map snd (AList.update h es' pm))) = mset (concat (map snd pm)) + mset es'"
  using assms by (induction pm) (auto split: if_splits)

lemma mset_delete_bucket:
  assumes "distinct (map fst pm)" "map_of pm h = Some es"
  shows "mset (concat (map snd (AList.delete h pm))) + mset es = mset (concat (map snd pm))"
  using assms
proof (induction pm)
  case Nil
  then show ?case by simp
next
  case (Cons p pm)
  obtain k v where p: "p = (k, v)" by (cases p)
  show ?case
  proof (cases "k = h")
    case True
    then have "AList.delete h pm = pm" using Cons.prems(1) p by (auto intro: delete_idem)
    with True Cons.prems p show ?thesis by simp
  next
    case False
    with Cons p show ?thesis by (simp add: add.assoc)
  qed
qed

lemma map_of_bucket_entries: "map_of (bm_prefix m) h = Some es \<Longrightarrow> e \<in> set es \<Longrightarrow> e \<in> set (entries m)"
  by (force simp: entries_def dest: map_of_SomeD)

lemma located_entries: "map (\<lambda>(h, i, e). e) (located pm) = concat (map snd pm)"
proof (induction pm)
  case Nil
  then show ?case by (simp add: located_def)
next
  case (Cons p pm)
  obtain h es where p: "p = (h, es)" by (cases p)
  have "located (p # pm) = map (\<lambda>i. (h, i, es ! i)) [0..<length es] @ located pm"
    by (simp add: located_def p)
  with Cons show ?case by (simp add: p comp_def map_nth)
qed

lemma located_mem:
  "(h, i, e) \<in> set (located pm) \<longleftrightarrow> (\<exists>es. (h, es) \<in> set pm \<and> i < length es \<and> e = es ! i)"
proof (induction pm)
  case Nil
  then show ?case by (simp add: located_def)
next
  case (Cons p pm)
  obtain k es where p: "p = (k, es)" by (cases p)
  have "located (p # pm) = map (\<lambda>i. (k, i, es ! i)) [0..<length es] @ located pm"
    by (simp add: located_def p)
  with Cons show ?case by (auto simp: p)
qed

lemma mset_erase_at: "i < length xs \<Longrightarrow> add_mset (xs ! i) (mset (erase_at i xs)) = mset xs"
proof -
  assume i: "i < length xs"
  have "mset xs = mset (take i xs @ xs ! i # drop (Suc i) xs)" using id_take_nth_drop[OF i] by simp
  then show ?thesis by (simp add: erase_at_def)
qed

section \<open>Eviction\<close>

lemma evict_scan_result:
  assumes "\<forall>(h, i, e) \<in> set cs. vec_get (ref_counts al) (pe_block e) = Inr (int (refs_of al (pe_block e)))"
  shows "\<exists>best. res_fold (evict_scan al) cs None = Inr best \<and>
    (case best of
       None \<Rightarrow> \<forall>(h, i, e) \<in> set cs. refs_of al (pe_block e) \<noteq> 1
     | Some (h, i, u) \<Rightarrow> \<exists>e. (h, i, e) \<in> set cs \<and> refs_of al (pe_block e) = 1 \<and> pe_last_used e = u
         \<and> (\<forall>(h', i', e') \<in> set cs. refs_of al (pe_block e') = 1 \<longrightarrow> u \<le> pe_last_used e'))"
  using assms
proof (induction cs rule: rev_induct)
  case Nil
  then show ?case by simp
next
  case (snoc c cs)
  obtain h i e where c: "c = (h, i, e)" by (cases c)
  have "\<forall>(h, i, e) \<in> set cs. vec_get (ref_counts al) (pe_block e) = Inr (int (refs_of al (pe_block e)))"
    using snoc.prems by auto
  from snoc.IH[OF this] obtain best where b: "res_fold (evict_scan al) cs None = Inr best" and P: "case best of
       None \<Rightarrow> \<forall>(h, i, e) \<in> set cs. refs_of al (pe_block e) \<noteq> 1
     | Some (h, i, u) \<Rightarrow> \<exists>e. (h, i, e) \<in> set cs \<and> refs_of al (pe_block e) = 1 \<and> pe_last_used e = u
         \<and> (\<forall>(h', i', e') \<in> set cs. refs_of al (pe_block e') = 1 \<longrightarrow> u \<le> pe_last_used e')" by blast
  have r: "ref_count al (pe_block e) = Inr (int (refs_of al (pe_block e)))"
    using snoc.prems c by (simp add: ref_count_def)
  then have st: "evict_scan al c bst = Inr (if refs_of al (pe_block e) = 1
      \<and> (case bst of None \<Rightarrow> True | Some (_, _, oldest) \<Rightarrow> pe_last_used e < oldest)
      then Some (h, i, pe_last_used e) else bst)" for bst
    using c by (simp add: evict_scan_def)
  show ?case
  proof (cases best)
    case None
    then have "res_fold (evict_scan al) (cs @ [c]) None =
        Inr (if refs_of al (pe_block e) = 1 then Some (h, i, pe_last_used e) else None)"
      using b st[of None] by (simp add: res_fold_append)
    then show ?thesis using P None c by auto
  next
    case (Some hit)
    obtain h' i' u where hit: "hit = (h', i', u)" by (cases hit)
    from P Some hit obtain e' where e': "(h', i', e') \<in> set cs" "refs_of al (pe_block e') = 1"
      "pe_last_used e' = u" "\<forall>(h', i', e') \<in> set cs. refs_of al (pe_block e') = 1 \<longrightarrow> u \<le> pe_last_used e'"
      by auto
    show ?thesis
    proof (cases "refs_of al (pe_block e) = 1 \<and> pe_last_used e < u")
      case True
      then have "res_fold (evict_scan al) (cs @ [c]) None = Inr (Some (h, i, pe_last_used e))"
        using b st[of best] Some hit by (simp add: res_fold_append)
      moreover have "\<forall>(h', i', e') \<in> set (cs @ [c]). refs_of al (pe_block e') = 1 \<longrightarrow> pe_last_used e \<le> pe_last_used e'"
        using e'(4) True c by fastforce
      ultimately show ?thesis using True c by auto
    next
      case False
      then have "res_fold (evict_scan al) (cs @ [c]) None = Inr (Some (h', i', u))"
        using b st[of best] Some hit by (auto simp: res_fold_append)
      moreover have "\<forall>(h', i', e') \<in> set (cs @ [c]). refs_of al (pe_block e') = 1 \<longrightarrow> u \<le> pe_last_used e'"
        using e'(4) False c by auto
      ultimately show ?thesis using e' by auto
    qed
  qed
qed

text \<open>
  What eviction does: nothing when no cached block is held by the cache alone; else it
  removes an entry of a least recently used such block and frees the block.
\<close>

lemma evict_lru_cases:
  assumes inv: "bm_inv m"
  shows "(evict_lru m = Inr m \<and> (\<forall>e \<in> set (entries m). \<not> evictable m e)) \<or>
    (\<exists>e al pm. e \<in> set (entries m) \<and> evictable m e
      \<and> (\<forall>e' \<in> set (entries m). evictable m e' \<longrightarrow> pe_last_used e \<le> pe_last_used e')
      \<and> free (pe_block e) (bm_alloc m) = Inr al
      \<and> evict_lru m = Inr (m\<lparr>bm_alloc := al, bm_prefix := pm\<rparr>) \<and> distinct (map fst pm)
      \<and> mset (entries m) = add_mset e (mset (concat (map snd pm))))"
proof -
  let ?al = "bm_alloc m" and ?pm = "bm_prefix m"
  have ai: "alloc_inv ?al" and dk: "distinct (map fst ?pm)" using inv by (auto simp: bm_inv_def)
  have mem: "e \<in> set (entries m) \<longleftrightarrow> (\<exists>h i. (h, i, e) \<in> set (located ?pm))" for e
    by (simp add: entries_def flip: located_entries) force
  have "\<forall>(h, i, e) \<in> set (located ?pm).
      vec_get (ref_counts ?al) (pe_block e) = Inr (int (refs_of ?al (pe_block e)))"
    using refs_of_pos[OF ai entry_refs_pos[OF inv]] mem by blast
  from evict_scan_result[OF this] obtain best where
    b: "res_fold (evict_scan ?al) (located ?pm) None = Inr best" and P: "case best of
       None \<Rightarrow> \<forall>(h, i, e) \<in> set (located ?pm). refs_of ?al (pe_block e) \<noteq> 1
     | Some (h, i, u) \<Rightarrow> \<exists>e. (h, i, e) \<in> set (located ?pm) \<and> refs_of ?al (pe_block e) = 1 \<and> pe_last_used e = u
         \<and> (\<forall>(h', i', e') \<in> set (located ?pm). refs_of ?al (pe_block e') = 1 \<longrightarrow> u \<le> pe_last_used e')"
    by blast
  show ?thesis
  proof (cases best)
    case None
    then have "\<forall>e \<in> set (entries m). \<not> evictable m e" using P mem by (auto simp: evictable_def)
    then show ?thesis using b None by (simp add: evict_lru_def)
  next
    case (Some hit)
    obtain h i u where hit: "hit = (h, i, u)" by (cases hit)
    from P Some hit obtain e where e: "(h, i, e) \<in> set (located ?pm)" "refs_of ?al (pe_block e) = 1"
      "pe_last_used e = u"
      "\<forall>(h', i', e') \<in> set (located ?pm). refs_of ?al (pe_block e') = 1 \<longrightarrow> u \<le> pe_last_used e'" by auto
    from e(1) obtain es where es: "(h, es) \<in> set ?pm" "i < length es" "e = es ! i" by (auto simp: located_mem)
    from es(1) dk have mo: "map_of ?pm h = Some es" by simp
    from free_held[OF ai, of "pe_block e"] e(2) obtain al where al: "free (pe_block e) ?al = Inr al" by auto
    let ?es = "erase_at i es"
    let ?pm' = "if ?es = [] then AList.delete h ?pm else AList.update h ?es ?pm"
    have run: "evict_lru m = Inr (m\<lparr>bm_alloc := al, bm_prefix := ?pm'\<rparr>)"
      using b Some hit mo es(2,3) al by (simp add: evict_lru_def mem_simps Let_def)
    have ms: "mset es = add_mset e (mset ?es)" using mset_erase_at[OF es(2)] es(3) by simp
    have "mset (entries m) = add_mset e (mset (concat (map snd ?pm')))"
    proof (cases "?es = []")
      case True
      then show ?thesis using mset_delete_bucket[OF dk mo] ms by (simp add: entries_def)
    next
      case False
      then have "mset (concat (map snd ?pm')) + mset es = mset (entries m) + mset ?es"
        using mset_update_bucket[OF dk mo, of ?es] by (simp add: entries_def)
      then have "add_mset e (mset (concat (map snd ?pm'))) + mset ?es = mset (entries m) + mset ?es"
        using ms by simp
      then show ?thesis by (metis add_right_cancel)
    qed
    moreover have "distinct (map fst ?pm')" using dk by (simp add: distinct_update distinct_delete)
    moreover have "e \<in> set (entries m)" using mem e(1) by blast
    moreover have "\<forall>e' \<in> set (entries m). evictable m e' \<longrightarrow> pe_last_used e \<le> pe_last_used e'"
      using e(3,4) mem by (auto simp: evictable_def)
    moreover have "evictable m e" using e(2) by (simp add: evictable_def)
    ultimately show ?thesis using run al by blast
  qed
qed

section \<open>The laws\<close>

lemma entries_alloc [simp]: "entries (m\<lparr>bm_alloc := al\<rparr>) = entries m"
  by (simp add: entries_def)

lemma cache_refs_alloc [simp]: "cache_refs (m\<lparr>bm_alloc := al\<rparr>) b = cache_refs m b"
  by (simp add: cache_refs_def)

lemma filter_evictable_alloc:
  "(\<And>e. e \<in> set (entries m) \<Longrightarrow> refs_of al (pe_block e) = refs_of (bm_alloc m) (pe_block e)) \<Longrightarrow>
   filter (evictable (m\<lparr>bm_alloc := al\<rparr>)) (entries m) = filter (evictable m) (entries m)"
  by (intro filter_cong) (auto simp: evictable_def)

lemma release_block_held:
  assumes "bm_inv m" "0 < seq_refs m b"
  shows "\<exists>m'. release_block b m = Inr m' \<and> bm_inv m' \<and> num_blocks (bm_alloc m') = num_blocks (bm_alloc m)
    \<and> seq_refs m' = (seq_refs m)(b := seq_refs m b - 1) \<and> bm_avail m \<le> bm_avail m'"
proof -
  have ai: "alloc_inv (bm_alloc m)" using assms(1) by (simp add: bm_inv_def)
  have rp: "0 < refs_of (bm_alloc m) b" "cache_refs m b < refs_of (bm_alloc m) b"
    using assms(2) by (auto simp: seq_refs_def)
  from free_held[OF ai rp(1)] obtain al where al: "free b (bm_alloc m) = Inr al" "alloc_inv al"
    "num_blocks al = num_blocks (bm_alloc m)" "refs_of al = (refs_of (bm_alloc m))(b := refs_of (bm_alloc m) b - 1)"
    "free_list al = (if refs_of (bm_alloc m) b = 1 then free_list (bm_alloc m) @ [b] else free_list (bm_alloc m))"
    by blast
  let ?m = "m\<lparr>bm_alloc := al\<rparr>"
  have inv': "bm_inv ?m"
    using al assms(1) rp bm_inv_cache_refs[OF assms(1)] by (intro bm_invI) (auto simp: bm_inv_def)
  have "evictable ?m e" if "e \<in> set (entries m)" "evictable m e" for e
    using that rp cache_refs_zero[of m b] al(4) by (auto simp: evictable_def)
  then have ev: "length (filter (evictable m) (entries m)) \<le> length (filter (evictable ?m) (entries m))"
    by (rule length_filter_imp)
  have "num_free (bm_alloc m) \<le> num_free al" using al(5) by (simp add: num_free_def)
  then have "bm_avail m \<le> bm_avail ?m" using ev by (simp add: bm_avail_def add_mono nat_mono)
  moreover have "seq_refs ?m = (seq_refs m)(b := seq_refs m b - 1)"
    using al(4) rp by (auto simp: seq_refs_def fun_eq_iff)
  moreover have "release_block b m = Inr ?m" using al(1) by (simp add: release_block_def)
  ultimately show ?thesis using inv' al(3) by auto
qed

lemma share_block_held:
  assumes "bm_inv m" "0 < seq_refs m b"
  shows "\<exists>m'. share_block b m = Inr m' \<and> bm_inv m' \<and> num_blocks (bm_alloc m') = num_blocks (bm_alloc m)
    \<and> seq_refs m' = (seq_refs m)(b := Suc (seq_refs m b)) \<and> bm_avail m' = bm_avail m"
proof -
  have ai: "alloc_inv (bm_alloc m)" using assms(1) by (simp add: bm_inv_def)
  have rp: "0 < refs_of (bm_alloc m) b" "cache_refs m b < refs_of (bm_alloc m) b"
    using assms(2) by (auto simp: seq_refs_def)
  from incref_held[OF ai rp(1)] obtain al where al: "incref b (bm_alloc m) = Inr al" "alloc_inv al"
    "num_blocks al = num_blocks (bm_alloc m)" "refs_of al = (refs_of (bm_alloc m))(b := Suc (refs_of (bm_alloc m) b))"
    "free_list al = free_list (bm_alloc m)"
    by blast
  let ?m = "m\<lparr>bm_alloc := al\<rparr>"
  have inv': "bm_inv ?m"
    using al assms(1) rp bm_inv_cache_refs[OF assms(1)] by (intro bm_invI) (auto simp: bm_inv_def le_SucI)
  have "evictable ?m e = evictable m e" if "e \<in> set (entries m)" for e
    using that rp cache_refs_zero[of m b] al(4) by (auto simp: evictable_def)
  then have "filter (evictable ?m) (entries m) = filter (evictable m) (entries m)"
    by (intro filter_cong) auto
  then have "bm_avail ?m = bm_avail m" using al(5) by (simp add: bm_avail_def num_free_def)
  moreover have "seq_refs ?m = (seq_refs m)(b := Suc (seq_refs m b))"
    using al(4) rp by (auto simp: seq_refs_def fun_eq_iff)
  moreover have "share_block b m = Inr ?m" using al(1) by (simp add: share_block_def)
  ultimately show ?thesis using inv' al(3) by auto
qed

text \<open>Allocating a free block.\<close>

lemma allocate_free_block:
  assumes "bm_inv m" "free_list (bm_alloc m) \<noteq> []"
  shows "\<exists>b al. allocate (bm_alloc m) = Inr (b, al) \<and> bm_inv (m\<lparr>bm_alloc := al\<rparr>) \<and> 0 \<le> b
    \<and> b < num_blocks (bm_alloc m) \<and> num_blocks al = num_blocks (bm_alloc m) \<and> seq_refs m b = 0
    \<and> seq_refs (m\<lparr>bm_alloc := al\<rparr>) = (seq_refs m)(b := 1)
    \<and> bm_avail (m\<lparr>bm_alloc := al\<rparr>) = bm_avail m - 1"
proof -
  have ai: "alloc_inv (bm_alloc m)" using assms(1) by (simp add: bm_inv_def)
  from allocate_some[OF ai assms(2)] obtain b al where al: "allocate (bm_alloc m) = Inr (b, al)" "alloc_inv al"
    "0 \<le> b" "b < num_blocks (bm_alloc m)" "num_blocks al = num_blocks (bm_alloc m)"
    "refs_of (bm_alloc m) b = 0" "refs_of al = (refs_of (bm_alloc m))(b := 1)"
    "free_list al = butlast (free_list (bm_alloc m))" by blast
  let ?m = "m\<lparr>bm_alloc := al\<rparr>"
  have nc: "cache_refs m b = 0" using bm_inv_cache_refs[OF assms(1), of b] al(6) by simp
  have inv': "bm_inv ?m"
    using al assms(1) nc bm_inv_cache_refs[OF assms(1)] by (intro bm_invI) (auto simp: bm_inv_def)
  have "filter (evictable ?m) (entries m) = filter (evictable m) (entries m)"
    using nc al(7) by (intro filter_cong) (auto simp: evictable_def cache_refs_zero)
  moreover have "nat (num_free al) = nat (num_free (bm_alloc m)) - 1" using al(8) by (simp add: num_free_def)
  moreover have "0 < num_free (bm_alloc m)" using assms(2) by (simp add: num_free_def)
  ultimately have "bm_avail ?m = bm_avail m - 1" by (simp add: bm_avail_def)
  moreover have "seq_refs ?m = (seq_refs m)(b := 1)"
    using al(7) nc by (auto simp: seq_refs_def fun_eq_iff)
  moreover have "seq_refs m b = 0" using al(6) by (simp add: seq_refs_def)
  ultimately show ?thesis using inv' al by auto
qed

text \<open>Evicting the only reference of a cached block.\<close>

lemma evict_block:
  assumes "bm_inv m" "e \<in> set (entries m)" "evictable m e"
    and "free (pe_block e) (bm_alloc m) = Inr al" "distinct (map fst pm)"
    and ms: "mset (entries m) = add_mset e (mset (concat (map snd pm)))"
  defines "m' \<equiv> m\<lparr>bm_alloc := al, bm_prefix := pm\<rparr>"
  shows "bm_inv m' \<and> free_list (bm_alloc m') \<noteq> [] \<and> num_blocks (bm_alloc m') = num_blocks (bm_alloc m)
    \<and> seq_refs m' = seq_refs m \<and> bm_avail m' = bm_avail m"
proof -
  let ?b = "pe_block e"
  have ai: "alloc_inv (bm_alloc m)" using assms(1) by (simp add: bm_inv_def)
  have r1: "refs_of (bm_alloc m) ?b = 1" using assms(3) by (simp add: evictable_def)
  from free_held[OF ai, of ?b] r1 assms(4) have al: "alloc_inv al" "num_blocks al = num_blocks (bm_alloc m)"
    "refs_of al = (refs_of (bm_alloc m))(?b := 0)" "free_list al = free_list (bm_alloc m) @ [?b]" by auto
  have ms': "mset (entries m) = add_mset e (mset (entries m'))" using ms by (simp add: entries_def m'_def)
  have cr: "cache_refs m c = cache_refs m' c + (if c = ?b then 1 else 0)" for c
    by (simp add: cache_refs_mset ms')
  have "cache_refs m ?b \<le> 1" using bm_inv_cache_refs[OF assms(1), of ?b] r1 by simp
  then have none: "cache_refs m' ?b = 0" using cr[of ?b] by simp
  have inv': "bm_inv m'"
  proof (rule bm_invI)
    fix c
    show "cache_refs m' c \<le> refs_of (bm_alloc m') c"
      using bm_inv_cache_refs[OF assms(1), of c] cr[of c] none al(3) by (cases "c = ?b") (auto simp: m'_def)
  qed (use al assms(5) in \<open>auto simp: m'_def\<close>)
  have "filter (evictable m') (entries m') = filter (evictable m) (entries m')"
    using none al(3) by (intro filter_cong) (auto simp: evictable_def cache_refs_zero m'_def)
  then have "size (filter_mset (evictable m) (mset (entries m)))
      = Suc (length (filter (evictable m') (entries m')))"
    using assms(3) by (simp add: ms' flip: mset_filter)
  then have "length (filter (evictable m) (entries m)) = Suc (length (filter (evictable m') (entries m')))"
    by (simp flip: mset_filter)
  moreover have "nat (num_free al) = Suc (nat (num_free (bm_alloc m)))"
    using al(4) by (simp add: num_free_def)
  ultimately have "bm_avail m' = bm_avail m" by (simp add: bm_avail_def m'_def)
  moreover have "seq_refs m' = seq_refs m"
    using al(3) cr r1 none by (auto simp: seq_refs_def fun_eq_iff m'_def)
  ultimately show ?thesis using inv' al by (simp add: m'_def)
qed

lemma allocate_block_some:
  assumes "bm_inv m" "0 < bm_avail m"
  shows "\<exists>b m'. allocate_block m = Inr (b, m') \<and> bm_inv m' \<and> 0 \<le> b \<and> b < num_blocks (bm_alloc m)
    \<and> num_blocks (bm_alloc m') = num_blocks (bm_alloc m) \<and> seq_refs m b = 0
    \<and> seq_refs m' = (seq_refs m)(b := 1) \<and> bm_avail m' = bm_avail m - 1"
proof (cases "free_list (bm_alloc m) = []")
  case False
  then have "num_free (bm_alloc m) \<noteq> 0" by (simp add: num_free_def)
  then show ?thesis using allocate_free_block[OF assms(1) False] by (auto simp: allocate_block_def)
next
  case True
  then have nf: "num_free (bm_alloc m) = 0" by (simp add: num_free_def)
  with assms(2) have "filter (evictable m) (entries m) \<noteq> []" by (auto simp: bm_avail_def)
  then have "\<not> (\<forall>e \<in> set (entries m). \<not> evictable m e)" by (auto simp: filter_empty_conv)
  with evict_lru_cases[OF assms(1)] obtain e al pm where e: "e \<in> set (entries m)" "evictable m e"
    "free (pe_block e) (bm_alloc m) = Inr al" "evict_lru m = Inr (m\<lparr>bm_alloc := al, bm_prefix := pm\<rparr>)"
    "distinct (map fst pm)" "mset (entries m) = add_mset e (mset (concat (map snd pm)))" by blast
  let ?m = "m\<lparr>bm_alloc := al, bm_prefix := pm\<rparr>"
  note ev = evict_block[OF assms(1) e(1,2,3,5,6)]
  from allocate_free_block[of ?m] ev obtain b al' where
    "allocate (bm_alloc ?m) = Inr (b, al')" "bm_inv (?m\<lparr>bm_alloc := al'\<rparr>)" "0 \<le> b" "b < num_blocks (bm_alloc ?m)"
    "num_blocks al' = num_blocks (bm_alloc ?m)" "seq_refs ?m b = 0"
    "seq_refs (?m\<lparr>bm_alloc := al'\<rparr>) = (seq_refs ?m)(b := 1)"
    "bm_avail (?m\<lparr>bm_alloc := al'\<rparr>) = bm_avail ?m - 1" by blast
  then show ?thesis
    using ev e(4) nf by (intro exI[of _ b] exI[of _ "?m\<lparr>bm_alloc := al'\<rparr>"]) (auto simp: allocate_block_def)
qed

lemma allocate_block_none:
  assumes "bm_inv m" "bm_avail m = 0"
  shows "allocate_block m = Inl (RuntimeError ''BlockAllocator: out of blocks'')"
proof -
  have fl: "free_list (bm_alloc m) = []" using assms(2) by (simp add: bm_avail_def num_free_def)
  have "\<forall>e \<in> set (entries m). \<not> evictable m e" using assms(2) by (auto simp: bm_avail_def filter_empty_conv)
  then have "evict_lru m = Inr m" using evict_lru_cases[OF assms(1)] by blast
  then show ?thesis using fl by (simp add: allocate_block_def num_free_def allocate_def)
qed

interpretation bm: counted_pool allocate_block release_block seq_refs bm_avail
  "\<lambda>m. nat (num_blocks (bm_alloc m))" bm_inv share_block
proof (unfold_locales, goal_cases)
  case (1 m)
  then show ?case using allocate_block_some[of m] by (auto simp: num_blocks_def)
next
  case (2 m)
  then show ?case using allocate_block_none by blast
next
  case (3 m b)
  then show ?case using release_block_held[of m b] by auto
next
  case (4 m b)
  then show ?case using share_block_held[of m b] by auto
qed

end
