(* ===== verification/Block_Manager_Seqs.thy ===== *)
theory Block_Manager_Seqs
  imports Block_Manager_Pool
begin

text \<open>
  The sequences of a block manager: which blocks their tables hold, what they read and
  write, and the soundness of prefix sharing. \<open>seqs_inv m ts\<close> says that the tables \<open>ts\<close>
  are all the tables drawn from \<open>m\<close>: every block has one reference for each of its
  occurrences in them and one for each cache entry.
\<close>

section \<open>All references are accounted for\<close>

definition held :: "int list list \<Rightarrow> int \<Rightarrow> nat" where
  "held ts b = count_list (concat ts) b"

definition seqs_inv :: "block_manager \<Rightarrow> int list list \<Rightarrow> bool" where
  "seqs_inv m ts \<longleftrightarrow> bm_inv m \<and> seq_refs m = held ts"

lemma held_Cons [simp]: "held (t # ts) b = count_list t b + held ts b"
  by (simp add: held_def)

lemma held_Nil [simp]: "held [] b = 0"
  by (simp add: held_def)

lemma held_append [simp]: "held (ts @ us) b = held ts b + held us b"
  by (simp add: held_def)

lemma count_list_distinct: "distinct xs \<Longrightarrow> count_list xs b = (if b \<in> set xs then 1 else 0)"
  by (induction xs) auto

lemma held_pos: "0 < held ts b \<longleftrightarrow> (\<exists>t \<in> set ts. b \<in> set t)"
  by (auto simp: held_def count_list_0_iff simp flip: neq0_conv)

lemma seqs_inv_table_ok: "seqs_inv m ts \<Longrightarrow> t \<in> set ts \<Longrightarrow> num_blocks (bm_alloc m) = int nb \<Longrightarrow> table_ok nb t"
proof (unfold table_ok_def, rule ballI)
  fix b assume a: "seqs_inv m ts" "t \<in> set ts" "num_blocks (bm_alloc m) = int nb" "b \<in> set t"
  then have "0 < seq_refs m b" using held_pos[of ts b] by (auto simp: seqs_inv_def)
  then have "0 < refs_of (bm_alloc m) b" by (simp add: seq_refs_def)
  from refs_of_pos_range[OF this] show "0 \<le> b \<and> b < int nb" using a(3) by simp
qed

lemma refs_of_total:
  "seqs_inv m ts \<Longrightarrow> refs_of (bm_alloc m) b = held ts b + cache_refs m b"
  using seq_refs_le[of m b] by (simp add: seqs_inv_def)

section \<open>Growing and releasing a table\<close>

definition blocks_needed :: "block_manager \<Rightarrow> sequence_blocks \<Rightarrow> int \<Rightarrow> nat" where
  "blocks_needed m seq n = nat (blocks_for m (seq_length seq + n) - int (length (block_table seq)))"

lemma reserve_some:
  assumes "seqs_inv m (block_table seq # ts)" "blocks_needed m seq n \<le> bm_avail m"
  shows "\<exists>new m'. reserve seq n m = Inr (seq\<lparr>block_table := block_table seq @ new\<rparr>, m')
    \<and> seqs_inv m' ((block_table seq @ new) # ts) \<and> length new = blocks_needed m seq n \<and> distinct new
    \<and> (\<forall>b \<in> set new. held (block_table seq # ts) b = 0)
    \<and> num_blocks (bm_alloc m') = num_blocks (bm_alloc m) \<and> bm_avail m' = bm_avail m - blocks_needed m seq n"
proof -
  have inv: "bm_inv m" and sr: "seq_refs m = held (block_table seq # ts)" using assms(1) by (auto simp: seqs_inv_def)
  from bm.grow_some[OF inv assms(2), of "block_table seq"] obtain new m' where
    g: "grow allocate_block (blocks_needed m seq n) (block_table seq) m = Inr (block_table seq @ new, m')"
       "length new = blocks_needed m seq n" "distinct new"
       "\<forall>b \<in> set new. seq_refs m b = 0 \<and> 0 \<le> b \<and> b < int (nat (num_blocks (bm_alloc m)))"
       "bm_inv m'" "nat (num_blocks (bm_alloc m')) = nat (num_blocks (bm_alloc m))"
       "bm_avail m' = bm_avail m - blocks_needed m seq n"
       "seq_refs m' = (\<lambda>b. if b \<in> set new then 1 else seq_refs m b)" by blast
  have "seq_refs m' b = held ((block_table seq @ new) # ts) b" for b
    using g(4,8) sr count_list_distinct[OF g(3), of b] by auto
  then have "seqs_inv m' ((block_table seq @ new) # ts)" using g(5) by (auto simp: seqs_inv_def)
  moreover have "reserve seq n m = Inr (seq\<lparr>block_table := block_table seq @ new\<rparr>, m')"
    using g(1) by (simp add: reserve_def grow_to_def blocks_needed_def)
  moreover have "num_blocks (bm_alloc m') = num_blocks (bm_alloc m)"
    using g(6) by (simp add: num_blocks_def)
  ultimately show ?thesis using g sr by auto
qed

lemma reserve_none:
  assumes "seqs_inv m ts" "bm_avail m < blocks_needed m seq n"
  shows "\<exists>e. reserve seq n m = Inl e"
proof -
  have "bm_inv m" using assms(1) by (simp add: seqs_inv_def)
  from bm.grow_none[OF this assms(2), of "block_table seq"] show ?thesis
    by (auto simp: reserve_def grow_to_def blocks_needed_def)
qed

lemma reserve_covers:
  assumes "bm_block_size m = int bs" "0 < bs" "length new = blocks_needed m seq n"
  shows "seq_length seq + n \<le> int (length (block_table seq @ new) * bs)"
proof -
  let ?need = "(seq_length seq + n + int bs - 1) sdiv int bs"
  show ?thesis
  proof (cases "0 \<le> seq_length seq + n")
    case True
    then have "?need \<le> int (length (block_table seq @ new))"
      using assms by (simp add: blocks_needed_def blocks_for_def)
    then show ?thesis
      using ceil_div_le_iff[of "int bs" "seq_length seq + n"] assms(2) True by simp
  next
    case False
    then show ?thesis by (simp add: order_trans[of _ 0])
  qed
qed

lemma bm_free_ok:
  assumes "seqs_inv m (block_table seq # ts)"
  shows "\<exists>m'. bm_free seq m = Inr (seq\<lparr>block_table := [], seq_length := 0\<rparr>, m') \<and> seqs_inv m' ([] # ts)
    \<and> num_blocks (bm_alloc m') = num_blocks (bm_alloc m) \<and> bm_avail m \<le> bm_avail m'"
proof -
  have inv: "bm_inv m" and sr: "seq_refs m = held (block_table seq # ts)" using assms(1) by (auto simp: seqs_inv_def)
  have "count_list (block_table seq) b \<le> seq_refs m b" for b using sr by simp
  from bm.release_all[OF inv this] obtain m' where
    m': "res_fold release_block (block_table seq) m = Inr m'" "bm_inv m'"
        "nat (num_blocks (bm_alloc m')) = nat (num_blocks (bm_alloc m))"
        "seq_refs m' = (\<lambda>b. seq_refs m b - count_list (block_table seq) b)" "bm_avail m \<le> bm_avail m'" by blast
  have "seqs_inv m' ([] # ts)" using m'(2,4) sr by (auto simp: seqs_inv_def fun_eq_iff)
  then show ?thesis using m' by (auto simp: bm_free_def num_blocks_def)
qed

section \<open>Storage\<close>

definition bm_shape :: "nat \<Rightarrow> nat \<Rightarrow> nat \<Rightarrow> nat \<Rightarrow> block_manager \<Rightarrow> bool" where
  "bm_shape bs w nb nl m \<longleftrightarrow> bm_block_size m = int bs \<and> 0 < bs \<and> bm_kv_dim m = int w \<and> 0 < w
     \<and> num_blocks (bm_alloc m) = int nb \<and> length (bm_keys m) = nl \<and> length (bm_values m) = nl
     \<and> (\<forall>s \<in> set (bm_keys m) \<union> set (bm_values m). length s = nb * bs * w)"

lemma bm_shapeD:
  assumes "bm_shape bs w nb nl m"
  shows "bm_block_size m = int bs" "0 < bs" "bm_kv_dim m = int w" "0 < w" "num_blocks (bm_alloc m) = int nb"
    "length (bm_keys m) = nl" "length (bm_values m) = nl"
    "\<And>l. l < nl \<Longrightarrow> length (bm_keys m ! l) = nb * bs * w" "\<And>l. l < nl \<Longrightarrow> length (bm_values m ! l) = nb * bs * w"
  using assms by (auto simp: bm_shape_def)

lemma bm_new_ok:
  assumes "0 < nl" "0 < w" "0 < bs"
  shows "\<exists>m. bm_new (int nl) (int w) (int bs) (int nb) = Inr m \<and> bm_shape bs w nb nl m \<and> seqs_inv m []
    \<and> bm_avail m = nb \<and> bm_prefix m = []"
proof -
  obtain al where al: "allocator_new (int nb) = Inr al" by (simp add: allocator_new_def)
  note an = alloc_new_inv[OF al]
  let ?st = "replicate nl (replicate (nb * bs * w) 0)"
  let ?m = "\<lparr>bm_num_layers = int nl, bm_kv_dim = int w, bm_block_size = int bs, bm_alloc = al, bm_keys = ?st,
      bm_values = ?st, bm_prefix = [], bm_prefix_hits = 0, bm_tick = 0\<rparr>"
  have "bm_new (int nl) (int w) (int bs) (int nb) = Inr ?m"
    using assms al by (simp add: bm_new_def Let_def nat_mult_distrib)
  moreover have "bm_shape bs w nb nl ?m" using assms an by (simp add: bm_shape_def)
  moreover have "seqs_inv ?m []"
    using an by (auto simp: seqs_inv_def bm_inv_def entries_def seq_refs_def cache_refs_def)
  moreover have "bm_avail ?m = nb" using an by (simp add: bm_avail_def entries_def)
  ultimately show ?thesis by (intro exI[of _ ?m]) simp
qed

text \<open>Everything but the bookkeeping: the sizes and the stored rows.\<close>

definition bm_geom :: "block_manager \<Rightarrow> int \<times> int \<times> int \<times> f32 list list \<times> f32 list list" where
  "bm_geom m = (bm_num_layers m, bm_kv_dim m, bm_block_size m, bm_keys m, bm_values m)"

lemma evict_lru_geom: "evict_lru m = Inr m' \<Longrightarrow> bm_geom m' = bm_geom m"
  unfolding evict_lru_def
proof (erule res_bindE)
  fix found
  assume "(case found of None \<Rightarrow> Inr m
       | Some (victim_hash, victim_index, _) \<Rightarrow>
           (case map_of (bm_prefix m) victim_hash of
              None \<Rightarrow> Inl Undefined
            | Some bucket \<Rightarrow>
                res_bind (vec_get bucket (int victim_index)) (\<lambda>e.
                res_bind (free (pe_block e) (bm_alloc m)) (\<lambda>al.
                  let bucket' = erase_at victim_index bucket
                  in Inr (m\<lparr>bm_alloc := al,
                            bm_prefix := (if bucket' = [] then AList.delete victim_hash (bm_prefix m)
                                          else AList.update victim_hash bucket' (bm_prefix m))\<rparr>))))) = Inr m'"
  then show "bm_geom m' = bm_geom m"
    by (cases found) (auto simp: res_bind_eq_Inr bm_geom_def Let_def split: option.splits)
qed

lemma allocate_block_geom: "allocate_block m = Inr (b, m') \<Longrightarrow> bm_geom m' = bm_geom m"
  using evict_lru_geom[of m]
  by (fastforce simp: allocate_block_def res_bind_eq_Inr bm_geom_def split: if_splits prod.splits)

lemma grow_geom: "grow allocate_block k t m = Inr (t', m') \<Longrightarrow> bm_geom m' = bm_geom m"
proof (induction k arbitrary: t m)
  case (Suc k)
  from Suc.prems obtain b m1 where "allocate_block m = Inr (b, m1)" "grow allocate_block k (t @ [b]) m1 = Inr (t', m')"
    by (auto simp: res_bind_eq_Inr)
  with Suc.IH[of "t @ [b]" m1] allocate_block_geom[of m b m1] show ?case by simp
qed simp

lemma reserve_geom: "reserve seq n m = Inr (seq', m') \<Longrightarrow> bm_geom m' = bm_geom m"
  using grow_geom by (auto simp: reserve_def grow_to_def res_bind_eq_Inr split: prod.splits)

lemma release_all_geom: "res_fold release_block t m = Inr m' \<Longrightarrow> bm_geom m' = bm_geom m"
  by (erule res_fold_inv[where P = "\<lambda>u. bm_geom u = bm_geom m"])
     (auto simp: release_block_def res_bind_eq_Inr bm_geom_def)

lemma bm_free_geom: "bm_free seq m = Inr (seq', m') \<Longrightarrow> bm_geom m' = bm_geom m"
  using release_all_geom by (auto simp: bm_free_def res_bind_eq_Inr)

lemma bm_shape_geom:
  "bm_shape bs w nb nl m \<Longrightarrow> bm_geom m' = bm_geom m \<Longrightarrow> num_blocks (bm_alloc m') = num_blocks (bm_alloc m) \<Longrightarrow>
   bm_shape bs w nb nl m'"
  by (simp add: bm_shape_def bm_geom_def)

text \<open>What the sequence with this table reads of a layer: its key rows and its value rows.\<close>

definition bm_view :: "nat \<Rightarrow> nat \<Rightarrow> block_manager \<Rightarrow> int list \<Rightarrow> nat \<Rightarrow> nat \<Rightarrow> f32 list list \<times> f32 list list" where
  "bm_view bs w m table n l = (seq_rows bs w table (bm_keys m ! l) n, seq_rows bs w table (bm_values m ! l) n)"

lemma gather_ok:
  assumes "bm_shape bs w nb nl m" "table_ok nb (block_table seq)" "n \<le> length (block_table seq) * bs" "l < nl"
  shows "gather_keys m seq (int l) (int n) = Inr (mk_mat n w (fst (bm_view bs w m (block_table seq) n l)))"
    and "gather_values m seq (int l) (int n) = Inr (mk_mat n w (snd (bm_view bs w m (block_table seq) n l)))"
proof -
  note D = bm_shapeD[OF assms(1)]
  note g = paged_gather_ok[OF D(2) assms(2,3)]
  show "gather_keys m seq (int l) (int n) = Inr (mk_mat n w (fst (bm_view bs w m (block_table seq) n l)))"
    using g[OF D(8)[OF assms(4)]] assms(4) D(1,3,6)
    by (simp add: gather_keys_def gather_one_def mem_simps bm_view_def)
  show "gather_values m seq (int l) (int n) = Inr (mk_mat n w (snd (bm_view bs w m (block_table seq) n l)))"
    using g[OF D(9)[OF assms(4)]] assms(4) D(1,3,7)
    by (simp add: gather_values_def gather_one_def mem_simps bm_view_def)
qed

lemma bm_view_geom: "bm_geom m' = bm_geom m \<Longrightarrow> bm_view bs w m' t n l = bm_view bs w m t n l"
  by (simp add: bm_view_def bm_geom_def)

text \<open>
  A write extends what the writing sequence reads, leaves the other layers and the
  bookkeeping alone, and is invisible to every sequence that holds none of the blocks
  written to.
\<close>

lemma bm_write_ok:
  assumes "bm_shape bs w nb nl m" "table_ok nb (block_table seq)" "once_from (start div bs) (block_table seq)"
    and "start + n \<le> length (block_table seq) * bs" "l < nl" "length k = n * w" "length v = n * w"
  shows "\<exists>m'. bm_write seq (int l) (int start) k v (int n) m = Inr m' \<and> bm_shape bs w nb nl m'
    \<and> bm_alloc m' = bm_alloc m \<and> bm_prefix m' = bm_prefix m
    \<and> bm_view bs w m' (block_table seq) (start + n) l =
        (fst (bm_view bs w m (block_table seq) start l) @ rows w n k,
         snd (bm_view bs w m (block_table seq) start l) @ rows w n v)
    \<and> (\<forall>l' t i. l' \<noteq> l \<longrightarrow> bm_view bs w m' t i l' = bm_view bs w m t i l')
    \<and> (\<forall>t i. table_ok nb t \<longrightarrow> i \<le> length t * bs \<longrightarrow>
         (\<forall>j < n. \<forall>r < i. block_table seq ! ((start + j) div bs) \<noteq> t ! (r div bs)) \<longrightarrow>
         bm_view bs w m' t i l = bm_view bs w m t i l)"
proof -
  let ?t = "block_table seq"
  note D = bm_shapeD[OF assms(1)]
  note pw = paged_write_seq_rows[OF D(2) assms(2,3,4)]
  from pw[OF D(8)[OF assms(5)] assms(6)] obtain ks where
    ks: "paged_write (int bs) (int w) ?t (bm_keys m ! l) (int start) k (int n) = Inr ks"
        "length ks = length (bm_keys m ! l)"
        "seq_rows bs w ?t ks (start + n) = seq_rows bs w ?t (bm_keys m ! l) start @ rows w n k"
        "\<forall>p < nb * bs. (\<forall>i < n. p \<noteq> phys bs ?t (start + i)) \<longrightarrow> row w p ks = row w p (bm_keys m ! l)" by blast
  from pw[OF D(9)[OF assms(5)] assms(7)] obtain vs where
    vs: "paged_write (int bs) (int w) ?t (bm_values m ! l) (int start) v (int n) = Inr vs"
        "length vs = length (bm_values m ! l)"
        "seq_rows bs w ?t vs (start + n) = seq_rows bs w ?t (bm_values m ! l) start @ rows w n v"
        "\<forall>p < nb * bs. (\<forall>i < n. p \<noteq> phys bs ?t (start + i)) \<longrightarrow> row w p vs = row w p (bm_values m ! l)" by blast
  define m' where "m' = m\<lparr>bm_keys := (bm_keys m)[l := ks], bm_values := (bm_values m)[l := vs]\<rparr>"
  have run: "bm_write seq (int l) (int start) k v (int n) m = Inr m'"
    using ks(1) vs(1) D(1,3,6,7) assms(5) by (simp add: bm_write_def write_one_def mem_simps m'_def)
  have "bm_shape bs w nb nl m'"
    using assms(1,5) ks(2) vs(2) D(8,9)[OF assms(5)]
    by (auto simp: bm_shape_def m'_def dest!: subsetD[OF set_update_subset_insert])
  moreover have "bm_view bs w m' ?t (start + n) l =
        (fst (bm_view bs w m ?t start l) @ rows w n k, snd (bm_view bs w m ?t start l) @ rows w n v)"
    using ks(3) vs(3) assms(5) D(6,7) by (simp add: bm_view_def m'_def)
  moreover have "\<forall>l' t i. l' \<noteq> l \<longrightarrow> bm_view bs w m' t i l' = bm_view bs w m t i l'"
    by (simp add: bm_view_def m'_def)
  moreover have "bm_view bs w m' t i l = bm_view bs w m t i l"
    if "table_ok nb t" "i \<le> length t * bs" "\<forall>j < n. \<forall>r < i. ?t ! ((start + j) div bs) \<noteq> t ! (r div bs)" for t i
    using seq_rows_frame[OF D(2) assms(2) that(1) assms(4) that(2) ks(4)]
      seq_rows_frame[OF D(2) assms(2) that(1) assms(4) that(2) vs(4)] that(3) assms(5) D(6,7)
    by (simp add: bm_view_def m'_def)
  ultimately show ?thesis using run by (intro exI[of _ m']) (simp add: m'_def)
qed

text \<open>Two tables of one manager have a block in common only when it has two references.\<close>

lemma shared_block_refs:
  assumes "seqs_inv m ts" "i < length ts" "j < length ts" "i \<noteq> j" "b \<in> set (ts ! i)" "b \<in> set (ts ! j)"
  shows "2 \<le> seq_refs m b"
proof -
  obtain i j where ij: "i < j" "j < length ts" "b \<in> set (ts ! i)" "b \<in> set (ts ! j)"
    using assms(2-6) by (metis linorder_neqE_nat)
  have "ts = take j ts @ ts ! j # drop (Suc j) ts" using ij(2) by (rule id_take_nth_drop)
  then have "held ts b = held (take j ts) b + (count_list (ts ! j) b + held (drop (Suc j) ts) b)"
    by (metis held_append held_Cons)
  moreover have "ts ! i \<in> set (take j ts)" using ij by (auto simp: in_set_conv_nth intro!: exI[of _ i])
  then have "0 < held (take j ts) b" using ij(3) by (auto simp: held_pos)
  moreover have "0 < count_list (ts ! j) b" using ij(4) by (simp add: count_list_0_iff flip: neq0_conv)
  ultimately show ?thesis using assms(1) by (simp add: seqs_inv_def)
qed

section \<open>Properties\<close>

text \<open>C28: Reserving blocks for \<open>n\<close> more tokens succeeds exactly when enough blocks are free or
  held by the prefix cache alone. It then appends to the table as many blocks as the
  tokens need, all of them held by no sequence before, and changes no stored row.\<close>

theorem reserve_iff_available:
  assumes "seqs_inv m (block_table seq # ts)" "bm_shape bs w nb nl m"
  shows "(blocks_needed m seq n \<le> bm_avail m \<longleftrightarrow> (\<exists>r. reserve seq n m = Inr r))
    \<and> (\<forall>seq' m'. reserve seq n m = Inr (seq', m') \<longrightarrow>
         seqs_inv m' (block_table seq' # ts) \<and> bm_geom m' = bm_geom m \<and> seq_length seq' = seq_length seq
         \<and> seq_length seq + n \<le> int (length (block_table seq') * bs)
         \<and> (\<exists>new. block_table seq' = block_table seq @ new \<and> distinct new \<and> length new = blocks_needed m seq n
              \<and> (\<forall>b \<in> set new. \<forall>t \<in> set (block_table seq # ts). b \<notin> set t)))"
proof (cases "blocks_needed m seq n \<le> bm_avail m")
  case False
  then obtain e where "reserve seq n m = Inl e" using reserve_none[OF assms(1), of seq n] by auto
  with False show ?thesis by auto
next
  case True
  from reserve_some[OF assms(1) True] obtain new m' where r:
    "reserve seq n m = Inr (seq\<lparr>block_table := block_table seq @ new\<rparr>, m')"
    "seqs_inv m' ((block_table seq @ new) # ts)" "length new = blocks_needed m seq n" "distinct new"
    "\<forall>b \<in> set new. held (block_table seq # ts) b = 0" by blast
  have "\<forall>b \<in> set new. \<forall>t \<in> set (block_table seq # ts). b \<notin> set t"
    using r(5) held_pos[of "block_table seq # ts"] by (metis less_numeral_extra(3))
  moreover have "seq_length seq + n \<le> int (length (block_table seq @ new) * bs)"
    by (rule reserve_covers[OF bm_shapeD(1,2)[OF assms(2)] r(3)])
  ultimately show ?thesis using True r reserve_geom[OF r(1)] by (auto simp del: of_nat_mult)
qed

lemma reserve_iff_available_witness:
  "\<exists>m r. bm_new 1 1 2 2 = Inr m \<and> reserve no_blocks 3 m = Inr r \<and> (\<nexists>r. reserve no_blocks 5 m = Inr r)"
proof -
  from bm_new_ok[of 1 1 2 2] obtain m where m: "bm_new 1 1 2 2 = Inr m" "bm_shape 2 1 2 1 m"
    "seqs_inv m []" "bm_avail m = 2" by auto
  have inv: "seqs_inv m (block_table no_blocks # [])"
    using m(3) by (simp add: seqs_inv_def no_blocks_def fun_eq_iff)
  have "blocks_needed m no_blocks 3 = 2" "blocks_needed m no_blocks 5 = 3"
    using bm_shapeD(1)[OF m(2)] by (simp_all add: blocks_needed_def blocks_for_def no_blocks_def)
  then show ?thesis
    using reserve_iff_available[OF inv m(2), of 3] reserve_iff_available[OF inv m(2), of 5] m(1,4) by auto
qed

text \<open>C29: A write through one sequence's table extends what that sequence gathers by exactly
  the written rows, and no other sequence of the manager reads anything else than before,
  provided the blocks written to are its own.\<close>

theorem write_isolated:
  assumes "seqs_inv m (block_table seq # ts)" "bm_shape bs w nb nl m" "distinct (block_table seq)"
    and "start + n \<le> length (block_table seq) * bs" "l < nl" "length k = n * w" "length v = n * w"
    and own: "\<forall>j < n. seq_refs m (block_table seq ! ((start + j) div bs)) = 1"
  shows "\<exists>m' ks vs ks' vs'. bm_write seq (int l) (int start) k v (int n) m = Inr m'
    \<and> seqs_inv m' (block_table seq # ts)
    \<and> gather_keys m seq (int l) (int start) = Inr (mk_mat start w ks)
    \<and> gather_values m seq (int l) (int start) = Inr (mk_mat start w vs)
    \<and> gather_keys m' seq (int l) (int (start + n)) = Inr (mk_mat (start + n) w (ks @ rows w n k))
    \<and> gather_values m' seq (int l) (int (start + n)) = Inr (mk_mat (start + n) w (vs @ rows w n v))
    \<and> (\<forall>s i l'. block_table s \<in> set ts \<longrightarrow> i \<le> length (block_table s) * bs \<longrightarrow> l' < nl \<longrightarrow>
         gather_keys m' s (int l') (int i) = gather_keys m s (int l') (int i)
         \<and> gather_values m' s (int l') (int i) = gather_values m s (int l') (int i))"
proof -
  note D = bm_shapeD[OF assms(2)]
  have tok: "table_ok nb t" if "t \<in> set (block_table seq # ts)" for t
    using seqs_inv_table_ok[OF assms(1) that D(5)] .
  from bm_write_ok[OF assms(2) tok distinct_once_from[OF assms(3)] assms(4-7)] obtain m' where
    m': "bm_write seq (int l) (int start) k v (int n) m = Inr m'" "bm_shape bs w nb nl m'"
    "bm_alloc m' = bm_alloc m" "bm_prefix m' = bm_prefix m"
    "bm_view bs w m' (block_table seq) (start + n) l =
        (fst (bm_view bs w m (block_table seq) start l) @ rows w n k,
         snd (bm_view bs w m (block_table seq) start l) @ rows w n v)"
    "\<forall>l' t i. l' \<noteq> l \<longrightarrow> bm_view bs w m' t i l' = bm_view bs w m t i l'"
    "\<forall>t i. table_ok nb t \<longrightarrow> i \<le> length t * bs \<longrightarrow>
         (\<forall>j < n. \<forall>r < i. block_table seq ! ((start + j) div bs) \<noteq> t ! (r div bs)) \<longrightarrow>
         bm_view bs w m' t i l = bm_view bs w m t i l" by auto
  have inv': "seqs_inv m' (block_table seq # ts)"
    using assms(1) m'(3,4)
    by (simp add: seqs_inv_def bm_inv_def entries_def cache_refs_def seq_refs_def fun_eq_iff)
  have other: "bm_view bs w m' t i l' = bm_view bs w m t i l'"
    if t: "t \<in> set ts" "i \<le> length t * bs" for t i l'
  proof (cases "l' = l")
    case True
    have "block_table seq ! ((start + j) div bs) \<noteq> t ! (r div bs)" if "j < n" "r < i" for j r
    proof
      assume eq: "block_table seq ! ((start + j) div bs) = t ! (r div bs)"
      let ?b = "block_table seq ! ((start + j) div bs)"
      have "?b \<in> set (block_table seq)"
        using assms(4) \<open>j < n\<close> row_index_lt[OF D(2), of "start + j" "block_table seq"] by simp
      moreover have "?b \<in> set t" using eq t(2) \<open>r < i\<close> row_index_lt[OF D(2), of r t] by simp
      moreover from t(1) obtain q where "q < length ts" "ts ! q = t" by (auto simp: in_set_conv_nth)
      ultimately have "2 \<le> seq_refs m ?b"
        using shared_block_refs[OF assms(1), of 0 "Suc q" ?b] by simp
      then show False using own \<open>j < n\<close> by simp
    qed
    with m'(7) tok t True show ?thesis by simp
  qed (use m'(6) in simp)
  have own_len: "start \<le> length (block_table seq) * bs" using assms(4) by simp
  have "gather_keys m' s (int l') (int i) = gather_keys m s (int l') (int i)
       \<and> gather_values m' s (int l') (int i) = gather_values m s (int l') (int i)"
    if s: "block_table s \<in> set ts" "i \<le> length (block_table s) * bs" "l' < nl" for s i l'
    using gather_ok[OF assms(2) tok s(2,3)] gather_ok[OF m'(2) tok s(2,3)] other s by simp
  then show ?thesis
    using m'(1,5) inv' gather_ok[OF assms(2) tok own_len assms(5)] gather_ok[OF m'(2) tok assms(4,5)]
    by (intro exI[of _ m']) force
qed

lemma write_isolated_witness:
  "\<exists>m ks. gather_keys m \<lparr>block_table = [0], seq_length = 0\<rparr> 0 1 = Inr (mk_mat 1 1 (ks @ [[7]]))"
proof -
  from bm_new_ok[of 1 1 2 2] obtain m0 where m0: "bm_new 1 1 2 2 = Inr m0" "bm_shape 2 1 2 1 m0"
    "seqs_inv m0 []" "bm_avail m0 = 2" by auto
  have inv: "seqs_inv m0 (block_table no_blocks # [])"
    using m0(3) by (simp add: seqs_inv_def no_blocks_def fun_eq_iff)
  have nd: "blocks_needed m0 no_blocks 1 = 1"
    using bm_shapeD(1)[OF m0(2)] by (simp add: blocks_needed_def blocks_for_def no_blocks_def)
  from reserve_some[OF inv, of 1] nd m0(4) obtain new m where m:
    "reserve no_blocks 1 m0 = Inr (no_blocks\<lparr>block_table := block_table no_blocks @ new\<rparr>, m)"
    "seqs_inv m ((block_table no_blocks @ new) # [])" "length new = 1" "distinct new"
    "num_blocks (bm_alloc m) = num_blocks (bm_alloc m0)" by auto
  have sh: "bm_shape 2 1 2 1 m" using bm_shape_geom[OF m0(2) reserve_geom[OF m(1)] m(5)] .
  have "reserve no_blocks 1 m0 = Inr (\<lparr>block_table = [0], seq_length = 0\<rparr>, m)"
    using m(1) m0(1) by (auto simp: bm_new_def allocator_new_def Let_def no_blocks_def reserve_def blocks_for_def
      grow_to_def allocate_block_def num_free_def allocate_def vec_set_def upt_rec res_bind_eq_Inr)
  then have new: "new = [0]" using m(1) by (simp add: no_blocks_def)
  have i: "seqs_inv m (block_table \<lparr>block_table = [0], seq_length = 0\<rparr> # [])"
    using m(2) new by (simp add: no_blocks_def)
  then have "seq_refs m 0 = 1" by (simp add: seqs_inv_def)
  with write_isolated[OF i sh, of 0 1 0 "[7]" "[8]"] obtain m' ks where
    "gather_keys m \<lparr>block_table = [0], seq_length = 0\<rparr> 0 0 = Inr (mk_mat 0 1 ks)"
    "gather_keys m' \<lparr>block_table = [0], seq_length = 0\<rparr> 0 1 = Inr (mk_mat 1 1 (ks @ rows 1 1 [7]))" by auto
  moreover have "rows 1 1 [7] = [[7 :: f32]]" by (simp add: rows_def row_def slice_def)
  ultimately show ?thesis by auto
qed

end
