(* ===== verification/Model_Batch.thy ===== *)
theory Model_Batch
  imports Model_Cached Block_Manager_Seqs
begin

text \<open>
  \<open>forward_batch\<close> computes, for every item, the last row of the specification of that item
  alone: its new tokens on the history its blocks hold. Tokens of all items go through one
  matrix product, keys and values through one shared pool; the lemmas show that neither
  lets an item see another. A \<open>bjob\<close> is an item with what its blocks hold.
\<close>

section \<open>Jobs\<close>

record bjob =
  bj_addr :: int
  bj_toks :: "int list"
  bj_past :: nat
  bj_table :: "int list"

abbreviation bj_len :: "bjob \<Rightarrow> nat" where "bj_len j \<equiv> length (bj_toks j)"

abbreviation job_lens :: "bjob list \<Rightarrow> nat" where "job_lens js \<equiv> sum_list (map bj_len js)"

fun job_slots :: "nat \<Rightarrow> bjob list \<Rightarrow> item_slot list" where
  "job_slots off [] = []"
| "job_slots off (j # js) =
     \<lparr>it_addr = bj_addr j, it_offset = int off, it_len = int (bj_len j), it_past = int (bj_past j)\<rparr>
     # job_slots (off + bj_len j) js"

definition job_positions :: "bjob \<Rightarrow> int list" where
  "job_positions j = map (\<lambda>i. int (bj_past j + i)) [0..<bj_len j]"

lemma length_job_positions [simp]: "length (job_positions j) = bj_len j"
  by (simp add: job_positions_def)

text \<open>The blocks a job writes to.\<close>

definition job_writes :: "nat \<Rightarrow> bjob \<Rightarrow> int set" where
  "job_writes bs j = {bj_table j ! ((bj_past j + i) div bs) | i. i < bj_len j}"

definition job_ok :: "nat \<Rightarrow> nat \<Rightarrow> bjob \<Rightarrow> bool" where
  "job_ok bs nb j \<longleftrightarrow> table_ok nb (bj_table j) \<and> once_from (bj_past j div bs) (bj_table j) \<and> bj_past j + bj_len j \<le> length (bj_table j) * bs"

text \<open>No job writes to a block that another one reads.\<close>

fun jobs_sep :: "nat \<Rightarrow> bjob list \<Rightarrow> bool" where
  "jobs_sep bs [] = True"
| "jobs_sep bs (j # js) =
     ((\<forall>k \<in> set js. job_writes bs j \<inter> set (bj_table k) = {} \<and> job_writes bs k \<inter> set (bj_table j) = {}) \<and> jobs_sep bs js)"

lemma paged_write_longer:
  assumes "length src = n * kv"
  shows "paged_write (int bs) (int kv) table store start (src @ ex) (int n) = paged_write (int bs) (int kv) table store start src (int n)"
proof -
  have "memcpy d off (src @ ex) (int r * int kv) (int kv) = memcpy d off src (int r * int kv) (int kv)"
    if r: "r < n" for r off and d :: "f32 list"
  proof -
    have b: "r * kv + kv \<le> length src" using row_in_bounds[OF r, of kv "length src"] assms by simp
    then have "int r * int kv + int kv \<le> int (length src)" by (simp flip: of_nat_mult of_nat_add)
    moreover have "nat (int r * int kv) = r * kv" by (simp add: nat_mult_distrib)
    ultimately show ?thesis using b by (auto simp: memcpy_def slice_append1)
  qed
  then show ?thesis unfolding paged_write_def by (intro res_fold_cong refl) (auto intro!: res_bind_cong)
qed

lemma bm_write_longer:
  assumes "bm_shape bs w nb nl m" "length k = n * w" "length v = n * w"
  shows "bm_write seq l start (k @ ke) (v @ ve) (int n) m = bm_write seq l start k v (int n) m"
  using paged_write_longer[OF assms(2), of bs] paged_write_longer[OF assms(3), of bs] bm_shapeD(1,3)[OF assms(1)]
  by (simp add: bm_write_def write_one_def)

text \<open>Rows of the whole batch around those of one job.\<close>

lemma rect_mid:
  assumes "rect a c xs" "rect b c ys" "rect d c zs" "rect b c ys'"
  shows "slice (a * c) (b * c) (concat (xs @ ys @ zs)) = concat ys"
    "drop (a * c) (concat (xs @ ys @ zs)) = concat ys @ concat zs"
    "blit (a * c) (concat ys') (concat (xs @ ys @ zs)) = concat (xs @ ys' @ zs)"
  using rect_data_length[OF assms(1)] rect_data_length[OF assms(2)] rect_data_length[OF assms(4)]
  by (auto simp: slice_def blit_def)

section \<open>The attention of one item\<close>

text \<open>
  What a layer does for one job: \<open>q\<close>, \<open>k\<close>, \<open>v\<close> are its rows, \<open>h\<close> the history its blocks
  hold; the job's rows of the output are its attention over the extended history.
\<close>

definition job_attn :: "fpu \<Rightarrow> model \<Rightarrow> bjob \<Rightarrow> f32 list list \<Rightarrow> hist \<Rightarrow> f32 list list" where
  "job_attn F m j q h = attn_rows F (int (n_heads m)) (int (n_kv m)) (int (d_head m)) (bj_past j) q (fst h) (snd h)"

text \<open>Writing the new rows of a job: its view is extended, other layers and the tables that do not
  meet the written blocks see nothing.\<close>

lemma job_write_ok:
  fixes j :: bjob
  assumes sh: "bm_shape bs (d_kv m) nb (n_layers m) mgr" and l: "l < n_layers m" and jo: "job_ok bs nb j"
    and tb: "block_table blk = bj_table j" and k: "rect (bj_len j) (d_kv m) k" and v: "rect (bj_len j) (d_kv m) v"
    and h: "bm_view bs (d_kv m) mgr (bj_table j) (bj_past j) l = h"
  shows "\<exists>mgr'. bm_write blk (int l) (int (bj_past j)) (concat k) (concat v) (int (bj_len j)) mgr = Inr mgr'
    \<and> bm_shape bs (d_kv m) nb (n_layers m) mgr' \<and> bm_alloc mgr' = bm_alloc mgr \<and> bm_prefix mgr' = bm_prefix mgr
    \<and> bm_view bs (d_kv m) mgr' (bj_table j) (bj_past j + bj_len j) l = (fst h @ k, snd h @ v)
    \<and> (\<forall>l' t i. l' \<noteq> l \<longrightarrow> bm_view bs (d_kv m) mgr' t i l' = bm_view bs (d_kv m) mgr t i l')
    \<and> (\<forall>t i. table_ok nb t \<longrightarrow> i \<le> length t * bs \<longrightarrow> job_writes bs j \<inter> set t = {} \<longrightarrow>
         bm_view bs (d_kv m) mgr' t i l = bm_view bs (d_kv m) mgr t i l)"
proof -
  let ?len = "bj_len j" and ?past = "bj_past j"
  have j: "table_ok nb (block_table blk)" "once_from (?past div bs) (block_table blk)" "?past + ?len \<le> length (block_table blk) * bs"
    using jo tb by (simp_all add: job_ok_def)
  from bm_write_ok[OF sh j l rect_data_length[OF k] rect_data_length[OF v]] obtain mgr' where
    w: "bm_write blk (int l) (int ?past) (concat k) (concat v) (int ?len) mgr = Inr mgr'"
       "bm_shape bs (d_kv m) nb (n_layers m) mgr'" "bm_alloc mgr' = bm_alloc mgr" "bm_prefix mgr' = bm_prefix mgr"
       "bm_view bs (d_kv m) mgr' (block_table blk) (?past + ?len) l =
         (fst (bm_view bs (d_kv m) mgr (block_table blk) ?past l) @ rows (d_kv m) ?len (concat k),
          snd (bm_view bs (d_kv m) mgr (block_table blk) ?past l) @ rows (d_kv m) ?len (concat v))"
       "\<forall>l' t i. l' \<noteq> l \<longrightarrow> bm_view bs (d_kv m) mgr' t i l' = bm_view bs (d_kv m) mgr t i l'"
       "\<forall>t i. table_ok nb t \<longrightarrow> i \<le> length t * bs \<longrightarrow>
         (\<forall>x < ?len. \<forall>r < i. block_table blk ! ((?past + x) div bs) \<noteq> t ! (r div bs)) \<longrightarrow>
         bm_view bs (d_kv m) mgr' t i l = bm_view bs (d_kv m) mgr t i l" by blast
  have "bm_view bs (d_kv m) mgr' t i l = bm_view bs (d_kv m) mgr t i l"
    if t: "table_ok nb t" "i \<le> length t * bs" "job_writes bs j \<inter> set t = {}" for t i
  proof -
    have "block_table blk ! ((?past + x) div bs) \<noteq> t ! (r div bs)" if "x < ?len" "r < i" for x r
    proof -
      have "t ! (r div bs) \<in> set t" using row_index_lt[OF bm_shapeD(2)[OF sh], of r t] that t(2) by simp
      moreover have "block_table blk ! ((?past + x) div bs) \<in> job_writes bs j"
        using that tb by (auto simp: job_writes_def)
      ultimately show ?thesis using t(3) by auto
    qed
    then show ?thesis using w(7) t(1,2) by blast
  qed
  moreover have "bm_view bs (d_kv m) mgr' (bj_table j) (?past + ?len) l = (fst h @ k, snd h @ v)"
    using w(5) h tb rect_rows[OF k] rect_rows[OF v] by simp
  ultimately show ?thesis using w(1-4,6) by blast
qed

text \<open>The rows of an item are copied out of the batch, and its result back into it.\<close>

lemma copy_item_out:
  assumes q: "rect off w q0" "rect len w q" "rect n w q1" and T: "T = off + len + n"
  shows "memcpy (replicate (len * w) 0) 0 (concat (q0 @ q @ q1)) (int off * int w) (int len * int w) = Inr (concat q)"
proof -
  have lq: "length (concat (q0 @ q @ q1)) = T * w"
    using rect_data_length[OF q(1)] rect_data_length[OF q(2)] rect_data_length[OF q(3)] T by (simp add: distrib_right)
  have bq: "off * w + len * w \<le> T * w" using T by (simp add: distrib_right)
  have sl: "slice (off * w) (len * w) (concat (q0 @ q @ q1)) = concat q" by (rule rect_mid(1)[OF q q(2)])
  have "memcpy (replicate (len * w) 0) (int 0) (concat (q0 @ q @ q1)) (int (off * w)) (int (len * w))
      = Inr (blit 0 (concat q) (replicate (len * w) 0))"
    unfolding sl[symmetric] using bq lq by (intro memcpy_ok) simp_all
  then show ?thesis using rect_data_length[OF q(2)] by (simp add: blit_def)
qed

lemma copy_item_back:
  assumes a: "rect off w a0" "rect len w z" "rect n w a1" and x: "rect len w x" and T: "T = off + len + n"
  shows "memcpy (concat (a0 @ z @ a1)) (int off * int w) (concat x) 0 (int len * int w) = Inr (concat (a0 @ x @ a1))"
proof -
  have la: "length (concat (a0 @ z @ a1)) = T * w"
    using rect_data_length[OF a(1)] rect_data_length[OF a(2)] rect_data_length[OF a(3)] T by (simp add: distrib_right)
  have bq: "off * w + len * w \<le> T * w" using T by (simp add: distrib_right)
  have "memcpy (concat (a0 @ z @ a1)) (int (off * w)) (concat x) (int 0) (int (len * w))
      = Inr (blit (off * w) (slice 0 (len * w) (concat x)) (concat (a0 @ z @ a1)))"
    using bq la rect_data_length[OF x] by (intro memcpy_ok) simp_all
  moreover have "slice 0 (len * w) (concat x) = concat x" using rect_data_length[OF x] by (simp add: slice_def)
  ultimately show ?thesis using rect_mid(3)[OF a x] by simp
qed

lemma job_attention_ok:
  assumes ok: "model_ok m" and q: "rect (bj_len j) (d_q m) q"
    and h: "rect (bj_past j + bj_len j) (d_kv m) (fst h)" "rect (bj_past j + bj_len j) (d_kv m) (snd h)"
  shows "attention F (mk_mat (bj_len j) (d_q m) q) (mk_mat (bj_past j + bj_len j) (d_kv m) (fst h))
      (mk_mat (bj_past j + bj_len j) (d_kv m) (snd h)) (int (n_heads m)) (int (n_kv m)) (int (d_head m)) (int (bj_past j))
      = Inr (mk_mat (bj_len j) (d_q m) (job_attn F m j q h))"
    and "rect (bj_len j) (d_q m) (job_attn F m j q h)"
proof -
  note C = config_dims[OF ok]
  show "attention F (mk_mat (bj_len j) (d_q m) q) (mk_mat (bj_past j + bj_len j) (d_kv m) (fst h))
      (mk_mat (bj_past j + bj_len j) (d_kv m) (snd h)) (int (n_heads m)) (int (n_kv m)) (int (d_head m)) (int (bj_past j))
      = Inr (mk_mat (bj_len j) (d_q m) (job_attn F m j q h))"
    unfolding job_attn_def d_q_def d_kv_def
    by (rule attention_rows[OF q[unfolded d_q_def] h(1)[unfolded d_kv_def] h(2)[unfolded d_kv_def] C(6,7)]) simp
  show "rect (bj_len j) (d_q m) (job_attn F m j q h)"
    unfolding job_attn_def d_q_def by (rule attn_rows_rect[OF q[unfolded d_q_def] h(2)[unfolded d_kv_def] C(6,7)])
qed

lemma item_attention_ok:
  fixes j :: bjob
  assumes ok: "model_ok m" and sh: "bm_shape bs (d_kv m) nb (n_layers m) mgr" and l: "l < n_layers m"
    and jo: "job_ok bs nb j" and st: "st (bj_addr j) = Some blk" "block_table blk = bj_table j"
    and q: "rect off (d_q m) q0" "rect (bj_len j) (d_q m) q" "rect n (d_q m) q1"
    and k: "rect off (d_kv m) k0" "rect (bj_len j) (d_kv m) k" "rect n (d_kv m) k1"
    and v: "rect off (d_kv m) v0" "rect (bj_len j) (d_kv m) v" "rect n (d_kv m) v1"
    and a: "rect off (d_q m) a0" "rect (bj_len j) (d_q m) z" "rect n (d_q m) a1"
    and h: "bm_view bs (d_kv m) mgr (bj_table j) (bj_past j) l = h" "hist_ok (bj_past j) (d_kv m) h"
    and T: "T = off + bj_len j + n"
  defines "h' \<equiv> (fst h @ k, snd h @ v)"
  shows "\<exists>mgr'. item_attention F (m_config m) (int l) (mk_mat T (d_q m) (q0 @ q @ q1)) (mk_mat T (d_kv m) (k0 @ k @ k1))
      (mk_mat T (d_kv m) (v0 @ v @ v1)) st
      \<lparr>it_addr = bj_addr j, it_offset = int off, it_len = int (bj_len j), it_past = int (bj_past j)\<rparr>
      (mk_mat T (d_q m) (a0 @ z @ a1), mgr) = Inr (mk_mat T (d_q m) (a0 @ job_attn F m j q h' @ a1), mgr')
    \<and> bm_shape bs (d_kv m) nb (n_layers m) mgr' \<and> bm_alloc mgr' = bm_alloc mgr \<and> bm_prefix mgr' = bm_prefix mgr
    \<and> bm_view bs (d_kv m) mgr' (bj_table j) (bj_past j + bj_len j) l = h'
    \<and> (\<forall>l' t i. l' \<noteq> l \<longrightarrow> bm_view bs (d_kv m) mgr' t i l' = bm_view bs (d_kv m) mgr t i l')
    \<and> (\<forall>t i. table_ok nb t \<longrightarrow> i \<le> length t * bs \<longrightarrow> job_writes bs j \<inter> set t = {} \<longrightarrow>
         bm_view bs (d_kv m) mgr' t i l = bm_view bs (d_kv m) mgr t i l)"
proof -
  note C = config_dims[OF ok]
  let ?len = "bj_len j" and ?past = "bj_past j"
  from job_write_ok[OF sh l jo st(2) k(2) v(2) h(1)] obtain mgr' where
    w: "bm_write blk (int l) (int ?past) (concat k) (concat v) (int ?len) mgr = Inr mgr'"
       "bm_shape bs (d_kv m) nb (n_layers m) mgr'" "bm_alloc mgr' = bm_alloc mgr" "bm_prefix mgr' = bm_prefix mgr"
       "bm_view bs (d_kv m) mgr' (bj_table j) (?past + ?len) l = h'"
       "\<forall>l' t i. l' \<noteq> l \<longrightarrow> bm_view bs (d_kv m) mgr' t i l' = bm_view bs (d_kv m) mgr t i l'"
       "\<forall>t i. table_ok nb t \<longrightarrow> i \<le> length t * bs \<longrightarrow> job_writes bs j \<inter> set t = {} \<longrightarrow>
         bm_view bs (d_kv m) mgr' t i l = bm_view bs (d_kv m) mgr t i l"
    unfolding h'_def by blast
  have "table_ok nb (block_table blk)" "?past + ?len \<le> length (block_table blk) * bs"
    using jo st(2) by (simp_all add: job_ok_def)
  note g = gather_ok[OF w(2) this l, unfolded st(2) w(5)]
  have hk: "rect (?past + ?len) (d_kv m) (fst h')" and hv: "rect (?past + ?len) (d_kv m) (snd h')"
    using h(2) k(2) v(2) by (auto simp: h'_def hist_ok_def intro!: rect_append)
  note at = job_attention_ok[OF ok q(2) hk hv, of F]
  note c1 = copy_item_out[OF q T] and c2 = copy_item_back[OF a at(2) T]
  have dims: "int (n_heads m) * int (d_head m) = int (d_q m)" "int (n_kv m) * int (d_head m) = int (d_kv m)"
    unfolding d_q_def d_kv_def by simp_all
  have off: "nat (int off * int (d_kv m)) = off * d_kv m" by (simp add: nat_mult_distrib)
  have wr: "bm_write blk (int l) (int ?past) (drop (off * d_kv m) (concat (k0 @ k @ k1)))
      (drop (off * d_kv m) (concat (v0 @ v @ v1))) (int ?len) mgr = Inr mgr'"
    unfolding rect_mid(2)[OF k k(2)] rect_mid(2)[OF v v(2)]
    using bm_write_longer[OF sh rect_data_length[OF k(2)] rect_data_length[OF v(2)]] w(1) by simp
  have gk: "gather_keys mgr' blk (int l) (int ?past + int ?len) = Inr (mk_mat (?past + ?len) (d_kv m) (fst h'))"
    and gv: "gather_values mgr' blk (int l) (int ?past + int ?len) = Inr (mk_mat (?past + ?len) (d_kv m) (snd h'))"
    using g by simp_all
  have zq: "\<lparr>t_shape = [int ?len, int (d_q m)], t_data = replicate (?len * d_q m) 0\<rparr>\<lparr>t_data := concat q\<rparr> = mk_mat ?len (d_q m) q"
    by simp
  have run: "item_attention F (m_config m) (int l) (mk_mat T (d_q m) (q0 @ q @ q1)) (mk_mat T (d_kv m) (k0 @ k @ k1))
      (mk_mat T (d_kv m) (v0 @ v @ v1)) st
      \<lparr>it_addr = bj_addr j, it_offset = int off, it_len = int ?len, it_past = int ?past\<rparr>
      (mk_mat T (d_q m) (a0 @ z @ a1), mgr) = Inr (mk_mat T (d_q m) (a0 @ job_attn F m j q h' @ a1), mgr')"
    unfolding item_attention_def prod.case Let_def item_slot.select_convs C(1-3) dims deref_def st(1) option.case res_bind_Inr
      mk_mat_dims(5) off wr gk gv tensor_zeros_mat tensor.select_convs c1 zq at(1) c2 mk_mat_update ..
  show ?thesis using run w(2-7) by (intro exI[of _ mgr']) simp
qed

section \<open>The attention of all items\<close>

lemma rect_concat_jobs:
  "(\<And>j. j \<in> set js \<Longrightarrow> rect (bj_len j) w (X j)) \<Longrightarrow> rect (job_lens js) w (concat (map X js))"
proof (induction js)
  case Nil
  then show ?case by (simp add: rect_def)
next
  case (Cons j js)
  then have "rect (bj_len j) w (X j)" "rect (job_lens js) w (concat (map X js))" by auto
  from rect_append[OF this] show ?case by simp
qed

text \<open>What every job of the batch brings: its blocks, its rows and its history.\<close>

definition jobs_at :: "nat \<Rightarrow> nat \<Rightarrow> model \<Rightarrow> seq_store \<Rightarrow> bjob list \<Rightarrow> bool" where
  "jobs_at bs nb m st js \<longleftrightarrow> jobs_sep bs js \<and>
     (\<forall>j \<in> set js. job_ok bs nb j \<and> (\<exists>blk. st (bj_addr j) = Some blk \<and> block_table blk = bj_table j))"

definition jobs_view :: "nat \<Rightarrow> model \<Rightarrow> block_manager \<Rightarrow> nat \<Rightarrow> bjob list \<Rightarrow> (bjob \<Rightarrow> hist) \<Rightarrow> bool" where
  "jobs_view bs m mgr l js H \<longleftrightarrow>
     (\<forall>j \<in> set js. bm_view bs (d_kv m) mgr (bj_table j) (bj_past j) l = H j \<and> hist_ok (bj_past j) (d_kv m) (H j))"

text \<open>Nothing changed but the keys and values the jobs wrote in layers \<open>L\<close>.\<close>

definition jobs_frame :: "nat \<Rightarrow> nat \<Rightarrow> nat \<Rightarrow> nat \<Rightarrow> bjob list \<Rightarrow> nat set \<Rightarrow> block_manager \<Rightarrow> block_manager \<Rightarrow> bool" where
  "jobs_frame bs w nb nl js L mgr mgr' \<longleftrightarrow> bm_shape bs w nb nl mgr' \<and> bm_alloc mgr' = bm_alloc mgr \<and> bm_prefix mgr' = bm_prefix mgr
     \<and> (\<forall>l t i. l \<notin> L \<longrightarrow> bm_view bs w mgr' t i l = bm_view bs w mgr t i l)
     \<and> (\<forall>l t i. table_ok nb t \<longrightarrow> i \<le> length t * bs \<longrightarrow> (\<forall>j \<in> set js. job_writes bs j \<inter> set t = {}) \<longrightarrow>
          bm_view bs w mgr' t i l = bm_view bs w mgr t i l)"

lemma jobs_frame_refl: "bm_shape bs w nb nl mgr \<Longrightarrow> jobs_frame bs w nb nl js L mgr mgr"
  by (simp add: jobs_frame_def)

lemma jobs_frame_trans:
  "jobs_frame bs w nb nl js L mgr mgr1 \<Longrightarrow> jobs_frame bs w nb nl js L' mgr1 mgr2 \<Longrightarrow>
   jobs_frame bs w nb nl js (L \<union> L') mgr mgr2"
  by (auto simp: jobs_frame_def)

lemma jobs_frame_mono:
  "jobs_frame bs w nb nl js L mgr mgr' \<Longrightarrow> set js \<subseteq> set js' \<Longrightarrow> L \<subseteq> L' \<Longrightarrow> jobs_frame bs w nb nl js' L' mgr mgr'"
  by (fastforce simp: jobs_frame_def)

lemma jobs_at_Cons:
  "jobs_at bs nb m st (j # js) \<Longrightarrow> jobs_at bs nb m st js \<and> job_ok bs nb j
    \<and> (\<exists>blk. st (bj_addr j) = Some blk \<and> block_table blk = bj_table j)"
  by (simp add: jobs_at_def)

lemma items_attention_ok:
  fixes Q K V Z :: "bjob \<Rightarrow> f32 list list"
  assumes ok: "model_ok m" and l: "l < n_layers m"
  shows "bm_shape bs (d_kv m) nb (n_layers m) mgr \<Longrightarrow> jobs_at bs nb m st js \<Longrightarrow> jobs_view bs m mgr l js H \<Longrightarrow>
    (\<And>j. j \<in> set js \<Longrightarrow> rect (bj_len j) (d_q m) (Q j) \<and> rect (bj_len j) (d_kv m) (K j) \<and> rect (bj_len j) (d_kv m) (V j)
       \<and> rect (bj_len j) (d_q m) (Z j)) \<Longrightarrow>
    rect off (d_q m) q0 \<Longrightarrow> rect off (d_kv m) k0 \<Longrightarrow> rect off (d_kv m) v0 \<Longrightarrow> rect off (d_q m) a0 \<Longrightarrow>
    T = off + job_lens js \<Longrightarrow>
    \<exists>mgr'. res_fold (item_attention F (m_config m) (int l) (mk_mat T (d_q m) (q0 @ concat (map Q js)))
        (mk_mat T (d_kv m) (k0 @ concat (map K js))) (mk_mat T (d_kv m) (v0 @ concat (map V js))) st)
        (job_slots off js) (mk_mat T (d_q m) (a0 @ concat (map Z js)), mgr)
      = Inr (mk_mat T (d_q m) (a0 @ concat (map (\<lambda>j. job_attn F m j (Q j) (fst (H j) @ K j, snd (H j) @ V j)) js)), mgr')
    \<and> jobs_frame bs (d_kv m) nb (n_layers m) js {l} mgr mgr'
    \<and> (\<forall>j \<in> set js. bm_view bs (d_kv m) mgr' (bj_table j) (bj_past j + bj_len j) l = (fst (H j) @ K j, snd (H j) @ V j))"
proof (induction js arbitrary: off q0 k0 v0 a0 mgr)
  case Nil
  then show ?case by (simp add: jobs_frame_refl)
next
  case (Cons j js)
  let ?h = "\<lambda>j. (fst (H j) @ K j, snd (H j) @ V j)"
  let ?A = "\<lambda>j. job_attn F m j (Q j) (?h j)"
  note J = jobs_at_Cons[OF Cons.prems(2)]
  from J obtain blk where blk: "st (bj_addr j) = Some blk" "block_table blk = bj_table j" by blast
  have sep: "\<forall>k \<in> set js. job_writes bs j \<inter> set (bj_table k) = {} \<and> job_writes bs k \<inter> set (bj_table j) = {}"
    using Cons.prems(2) by (simp add: jobs_at_def)
  have rj: "rect (bj_len j) (d_q m) (Q j)" "rect (bj_len j) (d_kv m) (K j)" "rect (bj_len j) (d_kv m) (V j)"
    "rect (bj_len j) (d_q m) (Z j)" using Cons.prems(4)[of j] by simp_all
  have rr: "rect (job_lens js) (d_q m) (concat (map Q js))" "rect (job_lens js) (d_kv m) (concat (map K js))"
    "rect (job_lens js) (d_kv m) (concat (map V js))" "rect (job_lens js) (d_q m) (concat (map Z js))"
    using Cons.prems(4) by (auto intro!: rect_concat_jobs)
  have hj: "bm_view bs (d_kv m) mgr (bj_table j) (bj_past j) l = H j" "hist_ok (bj_past j) (d_kv m) (H j)"
    using Cons.prems(3) by (simp_all add: jobs_view_def)
  have Tj: "T = off + bj_len j + job_lens js" using Cons.prems(9) by simp
  have jo: "job_ok bs nb j" using J by blast
  from item_attention_ok[where j = j and st = st, OF ok Cons.prems(1) l jo blk Cons.prems(5) rj(1) rr(1) Cons.prems(6) rj(2) rr(2) Cons.prems(7) rj(3) rr(3)
      Cons.prems(8) rj(4) rr(4) hj Tj, of F] obtain m1 where m1:
    "item_attention F (m_config m) (int l) (mk_mat T (d_q m) (q0 @ Q j @ concat (map Q js)))
       (mk_mat T (d_kv m) (k0 @ K j @ concat (map K js))) (mk_mat T (d_kv m) (v0 @ V j @ concat (map V js))) st
       \<lparr>it_addr = bj_addr j, it_offset = int off, it_len = int (bj_len j), it_past = int (bj_past j)\<rparr>
       (mk_mat T (d_q m) (a0 @ Z j @ concat (map Z js)), mgr) = Inr (mk_mat T (d_q m) (a0 @ ?A j @ concat (map Z js)), m1)"
    "bm_shape bs (d_kv m) nb (n_layers m) m1" "bm_alloc m1 = bm_alloc mgr" "bm_prefix m1 = bm_prefix mgr"
    "bm_view bs (d_kv m) m1 (bj_table j) (bj_past j + bj_len j) l = ?h j"
    "\<forall>l' t i. l' \<noteq> l \<longrightarrow> bm_view bs (d_kv m) m1 t i l' = bm_view bs (d_kv m) mgr t i l'"
    "\<forall>t i. table_ok nb t \<longrightarrow> i \<le> length t * bs \<longrightarrow> job_writes bs j \<inter> set t = {} \<longrightarrow>
       bm_view bs (d_kv m) m1 t i l = bm_view bs (d_kv m) mgr t i l" by blast
  have f1: "jobs_frame bs (d_kv m) nb (n_layers m) [j] {l} mgr m1"
    using m1(2-7) by (auto simp: jobs_frame_def) (metis)
  have C1: "rect (bj_len j) (d_q m) (?A j)"
  proof -
    have "rect (bj_past j + bj_len j) (d_kv m) (snd (?h j))" using hj(2) rj(3) by (auto simp: hist_ok_def intro!: rect_append)
    then show ?thesis
      unfolding job_attn_def d_q_def d_kv_def
      by (rule attn_rows_rect[OF rj(1)[unfolded d_q_def] _ config_dims(6,7)[OF ok]])
  qed
  have v1: "jobs_view bs m m1 l js H"
    unfolding jobs_view_def
  proof
    fix k assume k: "k \<in> set js"
    then have "job_ok bs nb k" "job_writes bs j \<inter> set (bj_table k) = {}" using J sep by (auto simp: jobs_at_def)
    then have "bm_view bs (d_kv m) m1 (bj_table k) (bj_past k) l = bm_view bs (d_kv m) mgr (bj_table k) (bj_past k) l"
      using m1(7) by (simp add: job_ok_def)
    then show "bm_view bs (d_kv m) m1 (bj_table k) (bj_past k) l = H k \<and> hist_ok (bj_past k) (d_kv m) (H k)"
      using Cons.prems(3) k by (simp add: jobs_view_def)
  qed
  have IH: "\<exists>mgr'. res_fold (item_attention F (m_config m) (int l) (mk_mat T (d_q m) ((q0 @ Q j) @ concat (map Q js)))
        (mk_mat T (d_kv m) ((k0 @ K j) @ concat (map K js))) (mk_mat T (d_kv m) ((v0 @ V j) @ concat (map V js))) st)
        (job_slots (off + bj_len j) js) (mk_mat T (d_q m) ((a0 @ ?A j) @ concat (map Z js)), m1)
      = Inr (mk_mat T (d_q m) ((a0 @ ?A j) @ concat (map ?A js)), mgr')
    \<and> jobs_frame bs (d_kv m) nb (n_layers m) js {l} m1 mgr'
    \<and> (\<forall>j \<in> set js. bm_view bs (d_kv m) mgr' (bj_table j) (bj_past j + bj_len j) l = ?h j)"
    by (rule Cons.IH[OF m1(2) conjunct1[OF J] v1])
       (use Cons.prems(4-8) rj C1 Tj in \<open>auto intro!: rect_append\<close>)
  then obtain m2 where m2: "res_fold (item_attention F (m_config m) (int l) (mk_mat T (d_q m) ((q0 @ Q j) @ concat (map Q js)))
        (mk_mat T (d_kv m) ((k0 @ K j) @ concat (map K js))) (mk_mat T (d_kv m) ((v0 @ V j) @ concat (map V js))) st)
        (job_slots (off + bj_len j) js) (mk_mat T (d_q m) ((a0 @ ?A j) @ concat (map Z js)), m1)
      = Inr (mk_mat T (d_q m) ((a0 @ ?A j) @ concat (map ?A js)), m2)"
    "jobs_frame bs (d_kv m) nb (n_layers m) js {l} m1 m2"
    "\<forall>j \<in> set js. bm_view bs (d_kv m) m2 (bj_table j) (bj_past j + bj_len j) l = ?h j" by blast
  have fr: "jobs_frame bs (d_kv m) nb (n_layers m) (j # js) {l} mgr m2"
    using jobs_frame_trans[OF jobs_frame_mono[OF f1, of "j # js" "{l}"] jobs_frame_mono[OF m2(2), of "j # js" "{l}"]] by auto
  have vj: "bm_view bs (d_kv m) m2 (bj_table j) (bj_past j + bj_len j) l = ?h j"
  proof -
    have "table_ok nb (bj_table j)" "bj_past j + bj_len j \<le> length (bj_table j) * bs" using J by (auto simp: job_ok_def)
    then have "bm_view bs (d_kv m) m2 (bj_table j) (bj_past j + bj_len j) l = bm_view bs (d_kv m) m1 (bj_table j) (bj_past j + bj_len j) l"
      using m2(2) sep by (simp add: jobs_frame_def)
    then show ?thesis using m1(5) by simp
  qed
  show ?case
    using m1(1) m2(1,3) fr vj by (intro exI[of _ m2]) simp
qed

section \<open>A layer of the batch\<close>

lemma map2_concat_jobs:
  "(\<And>j. j \<in> set js \<Longrightarrow> length (f j) = length (g j)) \<Longrightarrow>
   map2 h (concat (map f js)) (concat (map g js)) = concat (map (\<lambda>j. map2 h (f j) (g j)) js)"
  by (induction js) auto

lemma zero_rows:
  "\<lparr>t_shape = [int (job_lens js), int w], t_data = replicate (job_lens js * w) 0\<rparr>
   = mk_mat (job_lens js) w (concat (map (\<lambda>j. replicate (bj_len j) (replicate w 0)) js))"
proof -
  have "concat (replicate n (replicate w (0 :: f32))) = replicate (n * w) 0" for n
    by (induction n) (simp_all add: replicate_add)
  then have "concat (concat (map (\<lambda>j. replicate (bj_len j) (replicate w 0)) js)) = replicate (job_lens js * w) (0 :: f32)"
    by (induction js) (simp_all add: distrib_right replicate_add)
  then show ?thesis by (simp add: mk_mat_def)
qed

definition job_layer :: "fpu \<Rightarrow> eigen \<Rightarrow> model \<Rightarrow> nat \<Rightarrow> bjob \<Rightarrow> f32 list list \<Rightarrow> hist \<Rightarrow> f32 list list \<times> hist" where
  "job_layer F E m l j xss h = layer_spec F E m l (bj_past j) xss h"

lemma job_layer_eq:
  fixes F E m l
  assumes "rect (bj_len j) w xss"
  defines "k \<equiv> map2 (k_row F E m l) (job_positions j) xss" and "v \<equiv> map (v_row F E m l) xss"
  shows "job_layer F E m l j xss h =
    (map2 (post_row F E m l) xss (job_attn F m j (map2 (q_row F E m l) (job_positions j) xss) (fst h @ k, snd h @ v)),
     (fst h @ k, snd h @ v))"
proof -
  have "map (\<lambda>i. int (bj_past j + i)) [0..<length xss] = job_positions j"
    using assms(1) by (simp add: rect_def job_positions_def)
  then show ?thesis unfolding job_layer_def layer_spec_def Let_def job_attn_def k_def v_def by simp
qed

lemma batch_layer_ok:
  assumes E: "eigen_rowwise E" and ok: "model_ok m" "l < n_layers m"
    and sh: "bm_shape bs (d_kv m) nb (n_layers m) mgr" and at: "jobs_at bs nb m st js" and vw: "jobs_view bs m mgr l js H"
    and x: "\<And>j. j \<in> set js \<Longrightarrow> rect (bj_len j) (d_model m) (X j)"
  shows "\<exists>mgr'. batch_layer F E m (concat (map job_positions js)) (job_slots 0 js) (int (job_lens js)) st l
        (mk_mat (job_lens js) (d_model m) (concat (map X js)), mgr)
      = Inr (mk_mat (job_lens js) (d_model m) (concat (map (\<lambda>j. fst (job_layer F E m l j (X j) (H j))) js)), mgr')
    \<and> jobs_frame bs (d_kv m) nb (n_layers m) js {l} mgr mgr'
    \<and> (\<forall>j \<in> set js. bm_view bs (d_kv m) mgr' (bj_table j) (bj_past j + bj_len j) l = snd (job_layer F E m l j (X j) (H j)))"
proof -
  note C = config_dims[OF ok(1)]
  let ?T = "job_lens js"
  let ?Q = "\<lambda>j. map2 (q_row F E m l) (job_positions j) (X j)" and ?K = "\<lambda>j. map2 (k_row F E m l) (job_positions j) (X j)"
    and ?V = "\<lambda>j. map (v_row F E m l) (X j)" and ?Z = "\<lambda>j. replicate (bj_len j) (replicate (d_q m) (0 :: f32))"
  let ?h = "\<lambda>j. (fst (H j) @ ?K j, snd (H j) @ ?V j)"
  let ?A = "\<lambda>j. job_attn F m j (?Q j) (?h j)"
  have xl: "length (X j) = bj_len j" if "j \<in> set js" for j using x[OF that] by (simp add: rect_def)
  have r: "rect (bj_len j) (d_q m) (?Q j) \<and> rect (bj_len j) (d_kv m) (?K j) \<and> rect (bj_len j) (d_kv m) (?V j)
       \<and> rect (bj_len j) (d_q m) (?Z j)" if "j \<in> set js" for j
    using x[OF that] qkv_row_lengths[OF E ok] by (auto simp: rect_def set_zip)
  have X: "rect ?T (d_model m) (concat (map X js))" by (rule rect_concat_jobs) (rule x)
  have lp: "length (concat (map job_positions js)) = ?T" by (simp add: length_concat comp_def)
  have q: "map2 (q_row F E m l) (concat (map job_positions js)) (concat (map X js)) = concat (map ?Q js)"
    and k: "map2 (k_row F E m l) (concat (map job_positions js)) (concat (map X js)) = concat (map ?K js)"
    using xl by (auto intro!: map2_concat_jobs)
  have v: "map (v_row F E m l) (concat (map X js)) = concat (map ?V js)" by (simp add: map_concat comp_def)
  have e: "rect 0 w ([] :: f32 list list)" for w by (simp add: rect_def)
  from items_attention_ok[where Q = ?Q and K = ?K and V = ?V and Z = ?Z, OF ok(1,2) sh at vw r e e e e, of ?T F] obtain mgr' where
    a: "res_fold (item_attention F (m_config m) (int l) (mk_mat ?T (d_q m) (concat (map ?Q js)))
        (mk_mat ?T (d_kv m) (concat (map ?K js))) (mk_mat ?T (d_kv m) (concat (map ?V js))) st)
        (job_slots 0 js) (mk_mat ?T (d_q m) (concat (map ?Z js)), mgr)
      = Inr (mk_mat ?T (d_q m) (concat (map ?A js)), mgr')"
     "jobs_frame bs (d_kv m) nb (n_layers m) js {l} mgr mgr'"
     "\<forall>j \<in> set js. bm_view bs (d_kv m) mgr' (bj_table j) (bj_past j + bj_len j) l = ?h j" by auto
  have rA: "rect (bj_len j) (d_q m) (?A j)" if "j \<in> set js" for j
  proof -
    have "rect (bj_past j + bj_len j) (d_kv m) (snd (?h j))"
      using vw r[OF that] that by (auto simp: jobs_view_def hist_ok_def intro!: rect_append)
    then show ?thesis
      unfolding job_attn_def d_q_def d_kv_def using r[OF that] C(6,7)
      by (intro attn_rows_rect) (auto simp: d_q_def)
  qed
  have RA: "rect ?T (d_q m) (concat (map ?A js))" by (rule rect_concat_jobs) (rule rA)
  have la: "length (X j) = length (?A j)" if "j \<in> set js" for j using xl[OF that] rA[OF that] by (simp add: rect_def)
  have post: "map2 (post_row F E m l) (concat (map X js)) (concat (map ?A js))
      = concat (map (\<lambda>j. map2 (post_row F E m l) (X j) (?A j)) js)" by (rule map2_concat_jobs) (rule la)
  have jl: "job_layer F E m l j (X j) (H j) = (map2 (post_row F E m l) (X j) (?A j), ?h j)" if "j \<in> set js" for j
    by (rule job_layer_eq[OF x[OF that]])
  have jm: "map (\<lambda>j. map2 (post_row F E m l) (X j) (?A j)) js = map (\<lambda>j. fst (job_layer F E m l j (X j) (H j))) js"
    by (intro map_cong refl) (simp add: jl)
  have dims: "int (n_heads m) * int (d_head m) = int (d_q m)" unfolding d_q_def by simp
  have "batch_layer F E m (concat (map job_positions js)) (job_slots 0 js) (int ?T) st l
        (mk_mat ?T (d_model m) (concat (map X js)), mgr)
      = Inr (mk_mat ?T (d_model m) (concat (map (\<lambda>j. fst (job_layer F E m l j (X j) (H j))) js)), mgr')"
    unfolding batch_layer_def prod.case Let_def qkv_rows[OF E ok X lp] res_bind_Inr q k v C(1,3) dims tensor_zeros_mat
      zero_rows a(1) attn_mlp_rows(1)[OF E ok X RA] post jm ..
  then show ?thesis using a(2,3) jl by (intro exI[of _ mgr']) simp
qed

section \<open>All layers\<close>

definition job_stack :: "fpu \<Rightarrow> eigen \<Rightarrow> model \<Rightarrow> nat \<Rightarrow> bjob \<Rightarrow> (nat \<Rightarrow> hist) \<Rightarrow> f32 list list \<times> (nat \<Rightarrow> hist)" where
  "job_stack F E m L j H = stack_spec F E m L (bj_past j) (embed_rows m (bj_toks j)) H"

lemma batch_layers_ok:
  assumes E: "eigen_rowwise E" and ok: "model_ok m" and sh: "bm_shape bs (d_kv m) nb (n_layers m) mgr"
    and at: "jobs_at bs nb m st js" and vw: "\<forall>l < n_layers m. jobs_view bs m mgr l js (\<lambda>j. H j l)"
    and ids: "\<forall>j \<in> set js. ids_ok m (bj_toks j)"
  shows "L \<le> n_layers m \<Longrightarrow> \<exists>mgr'. res_fold (batch_layer F E m (concat (map job_positions js)) (job_slots 0 js) (int (job_lens js)) st) [0..<L]
        (mk_mat (job_lens js) (d_model m) (embed_rows m (concat (map bj_toks js))), mgr)
      = Inr (mk_mat (job_lens js) (d_model m) (concat (map (\<lambda>j. fst (job_stack F E m L j (H j))) js)), mgr')
    \<and> jobs_frame bs (d_kv m) nb (n_layers m) js {..<L} mgr mgr'
    \<and> (\<forall>j \<in> set js. \<forall>l < L. bm_view bs (d_kv m) mgr' (bj_table j) (bj_past j + bj_len j) l = snd (job_stack F E m L j (H j)) l)"
proof (induction L)
  case 0
  have "embed_rows m (concat (map bj_toks js)) = concat (map (\<lambda>j. fst (job_stack F E m 0 j (H j))) js)"
    by (simp add: embed_rows_def job_stack_def map_concat comp_def)
  then show ?case using jobs_frame_refl[OF sh] by simp
next
  case (Suc L)
  then obtain m1 where m1: "res_fold (batch_layer F E m (concat (map job_positions js)) (job_slots 0 js) (int (job_lens js)) st) [0..<L]
        (mk_mat (job_lens js) (d_model m) (embed_rows m (concat (map bj_toks js))), mgr)
      = Inr (mk_mat (job_lens js) (d_model m) (concat (map (\<lambda>j. fst (job_stack F E m L j (H j))) js)), m1)"
    "jobs_frame bs (d_kv m) nb (n_layers m) js {..<L} mgr m1"
    "\<forall>j \<in> set js. \<forall>l < L. bm_view bs (d_kv m) m1 (bj_table j) (bj_past j + bj_len j) l = snd (job_stack F E m L j (H j)) l"
    by auto
  have L: "L < n_layers m" using Suc.prems by simp
  have ho: "\<forall>l < n_layers m. hist_ok (bj_past j) (d_kv m) (H j l)" if "j \<in> set js" for j
    using vw that by (simp add: jobs_view_def)
  have x: "rect (bj_len j) (d_model m) (fst (job_stack F E m L j (H j)))" if "j \<in> set js" for j
    using stack_spec_ok[OF E ok embed_rows_rect[OF ok bspec[OF ids that]] ho[OF that], of L F] L by (simp add: job_stack_def)
  have sh1: "bm_shape bs (d_kv m) nb (n_layers m) m1" using m1(2) by (simp add: jobs_frame_def)
  have v1: "jobs_view bs m m1 L js (\<lambda>j. H j L)"
    using m1(2) vw L by (simp add: jobs_view_def jobs_frame_def)
  from batch_layer_ok[OF E ok L sh1 at v1 x, of F] obtain m2 where m2:
    "batch_layer F E m (concat (map job_positions js)) (job_slots 0 js) (int (job_lens js)) st L
        (mk_mat (job_lens js) (d_model m) (concat (map (\<lambda>j. fst (job_stack F E m L j (H j))) js)), m1)
      = Inr (mk_mat (job_lens js) (d_model m) (concat (map (\<lambda>j. fst (job_layer F E m L j (fst (job_stack F E m L j (H j))) (H j L))) js)), m2)"
    "jobs_frame bs (d_kv m) nb (n_layers m) js {L} m1 m2"
    "\<forall>j \<in> set js. bm_view bs (d_kv m) m2 (bj_table j) (bj_past j + bj_len j) L
        = snd (job_layer F E m L j (fst (job_stack F E m L j (H j))) (H j L))" by blast
  have st: "job_stack F E m (Suc L) j (H j) =
      (fst (job_layer F E m L j (fst (job_stack F E m L j (H j))) (H j L)),
       (snd (job_stack F E m L j (H j)))(L := snd (job_layer F E m L j (fst (job_stack F E m L j (H j))) (H j L))))" for j
    by (simp add: job_stack_def job_layer_def case_prod_unfold Let_def stack_spec_other)
  have fr: "jobs_frame bs (d_kv m) nb (n_layers m) js {..<Suc L} mgr m2"
    using jobs_frame_trans[OF m1(2) m2(2)] by (simp add: lessThan_Suc insert_commute Un_commute)
  have "bm_view bs (d_kv m) m2 (bj_table j) (bj_past j + bj_len j) l = snd (job_stack F E m (Suc L) j (H j)) l"
    if "j \<in> set js" "l < Suc L" for j l
  proof (cases "l = L")
    case False
    then have "bm_view bs (d_kv m) m2 (bj_table j) (bj_past j + bj_len j) l = bm_view bs (d_kv m) m1 (bj_table j) (bj_past j + bj_len j) l"
      using m2(2) by (simp add: jobs_frame_def)
    then show ?thesis using m1(3) that False by (simp add: st)
  qed (use m2(3) that in \<open>simp add: st\<close>)
  then show ?case using m1(1) m2(1) fr by (intro exI[of _ m2]) (simp add: res_fold_append st)
qed

end
