(* ===== verification/Prefix_Cache.thy ===== *)
theory Prefix_Cache
  imports Block_Manager_Seqs
begin

text \<open>
  Prefix caching of \<open>block_manager.cpp\<close>: the bookkeeping of \<open>acquire_shared_prefix\<close>,
  \<open>register_prefix\<close> and \<open>clear_prefix_cache\<close>, and when sharing a block is sound. An
  entry stores the hash of its context, not the context: two contexts with one hash are
  confused, so soundness needs the context hashes in use to differ
  (\<open>inj_on chain_hash S\<close>); the root theory evaluates a run where they do not.
\<close>

text \<open>The hash of a context: the block hashes chained from 0.\<close>

definition chain_hash :: "int list list \<Rightarrow> 64 word" where
  "chain_hash spans = foldl hash_block 0 spans"

lemma chain_hash_snoc: "chain_hash (c @ [span]) = hash_block (chain_hash c) span"
  by (simp add: chain_hash_def)

section \<open>Sharing a cached block\<close>

lemma share_block_ref:
  assumes "bm_inv m" "0 < refs_of (bm_alloc m) b"
  shows "\<exists>al. share_block b m = Inr (m\<lparr>bm_alloc := al\<rparr>) \<and> bm_inv (m\<lparr>bm_alloc := al\<rparr>)
    \<and> num_blocks al = num_blocks (bm_alloc m) \<and> free_list al = free_list (bm_alloc m)
    \<and> refs_of al = (refs_of (bm_alloc m))(b := Suc (refs_of (bm_alloc m) b))
    \<and> seq_refs (m\<lparr>bm_alloc := al\<rparr>) = (seq_refs m)(b := Suc (seq_refs m b))"
proof -
  have ai: "alloc_inv (bm_alloc m)" using assms(1) by (simp add: bm_inv_def)
  note cr = bm_inv_cache_refs[OF assms(1)]
  from incref_held[OF ai assms(2)] obtain al where al: "incref b (bm_alloc m) = Inr al" "alloc_inv al"
    "num_blocks al = num_blocks (bm_alloc m)" "refs_of al = (refs_of (bm_alloc m))(b := Suc (refs_of (bm_alloc m) b))"
    "free_list al = free_list (bm_alloc m)" by blast
  have "bm_inv (m\<lparr>bm_alloc := al\<rparr>)"
    using al assms(1) cr by (intro bm_invI) (auto simp: bm_inv_def le_SucI)
  moreover have "seq_refs (m\<lparr>bm_alloc := al\<rparr>) = (seq_refs m)(b := Suc (seq_refs m b))"
    using al(4) cr by (auto simp: seq_refs_def fun_eq_iff Suc_diff_le)
  ultimately show ?thesis using al by (auto simp: share_block_def)
qed

text \<open>What the cache is, up to the ticks: the context hash, the tokens and the block of each entry.\<close>

definition entry_key :: "prefix_entry \<Rightarrow> 64 word \<times> int list \<times> int" where
  "entry_key e = (pe_parent e, pe_tokens e, pe_block e)"

lemma cache_refs_key:
  assumes "image_mset entry_key (mset (entries m)) = image_mset entry_key (mset (entries m'))"
  shows "cache_refs m b = cache_refs m' b"
proof -
  have "cache_refs m b = size (filter_mset (\<lambda>(p, t, b'). b' = b) (image_mset entry_key (mset (entries m))))" for m
    by (simp add: cache_refs_mset filter_mset_image_mset entry_key_def)
  then show ?thesis using assms by simp
qed

lemma touch_entry_SomeD:
  assumes "touch_entry P t es = Some (b, es')"
  shows "\<exists>i < length es. P (es ! i) \<and> b = pe_block (es ! i) \<and> es' = es[i := (es ! i)\<lparr>pe_last_used := t\<rparr>]"
  using assms
proof (induction es arbitrary: es')
  case Nil
  then show ?case by simp
next
  case (Cons e es)
  show ?case
  proof (cases "P e")
    case True
    then show ?thesis using Cons.prems by (intro exI[of _ 0]) auto
  next
    case False
    with Cons.prems obtain es1 where "touch_entry P t es = Some (b, es1)" "es' = e # es1" by auto
    with Cons.IH[of es1] obtain i where "i < length es" "P (es ! i)" "b = pe_block (es ! i)"
      "es1 = es[i := (es ! i)\<lparr>pe_last_used := t\<rparr>]" by blast
    then show ?thesis using \<open>es' = e # es1\<close> by (intro exI[of _ "Suc i"]) auto
  qed
qed

lemma touch_entry_None: "touch_entry P t es = None \<longleftrightarrow> \<not> list_ex P es"
  by (induction es) auto

lemma touch_entry_keys:
  assumes "touch_entry P t es = Some (b, es')"
  shows "map entry_key es' = map entry_key es"
proof -
  from touch_entry_SomeD[OF assms] obtain i where i: "i < length es"
    "es' = es[i := (es ! i)\<lparr>pe_last_used := t\<rparr>]" by blast
  have "entry_key ((es ! i)\<lparr>pe_last_used := t\<rparr>) = map entry_key es ! i" using i by (simp add: entry_key_def)
  then have "map entry_key es' = (map entry_key es)[i := map entry_key es ! i]"
    by (simp only: i(2) map_update)
  then show ?thesis by (simp only: list_update_id)
qed

text \<open>Refreshing an entry leaves everything but the ticks as it is.\<close>

definition refreshed :: "64 word \<Rightarrow> prefix_entry list \<Rightarrow> block_manager \<Rightarrow> block_manager" where
  "refreshed h es m = m\<lparr>bm_prefix := AList.update h es (bm_prefix m), bm_tick := bm_tick m + 1\<rparr>"

lemma refreshed_keys:
  assumes "distinct (map fst (bm_prefix m))" "map_of (bm_prefix m) h = Some es"
    and "map entry_key es' = map entry_key es"
  shows "image_mset entry_key (mset (entries (refreshed h es' m))) = image_mset entry_key (mset (entries m))"
proof -
  have "mset (entries (refreshed h es' m)) + mset es = mset (entries m) + mset es'"
    using mset_update_bucket[OF assms(1,2)] by (simp add: refreshed_def entries_def)
  then have "image_mset entry_key (mset (entries (refreshed h es' m))) + image_mset entry_key (mset es)
      = image_mset entry_key (mset (entries m)) + image_mset entry_key (mset es')"
    by (metis image_mset_union)
  moreover have "image_mset entry_key (mset es') = image_mset entry_key (mset es)"
    using arg_cong[OF assms(3), of mset] by simp
  ultimately show ?thesis by simp
qed

lemma refreshed_inv:
  assumes "bm_inv m" "map_of (bm_prefix m) h = Some es" "map entry_key es' = map entry_key es"
  shows "bm_inv (refreshed h es' m)" and "seq_refs (refreshed h es' m) = seq_refs m"
    and "bm_alloc (refreshed h es' m) = bm_alloc m"
proof -
  have dk: "distinct (map fst (bm_prefix m))" using assms(1) by (simp add: bm_inv_def)
  note cr = cache_refs_key[OF refreshed_keys[OF dk assms(2,3)]]
  show a: "bm_alloc (refreshed h es' m) = bm_alloc m" by (simp add: refreshed_def)
  show "bm_inv (refreshed h es' m)"
    using assms(1) bm_inv_cache_refs[OF assms(1)] dk
    by (intro bm_invI) (auto simp: a cr bm_inv_def, simp add: refreshed_def distinct_update)
  show "seq_refs (refreshed h es' m) = seq_refs m" by (simp add: seq_refs_def a cr fun_eq_iff)
qed

section \<open>Soundness of the cache\<close>

text \<open>
  \<open>Q c span b\<close> stands for "block \<open>b\<close> holds the K/V of \<open>span\<close> read after the context
  \<open>c\<close>". The cache is sound for the contexts \<open>S\<close> when each entry is such a block for a
  context whose hash the entry stores.
\<close>

definition cache_sound :: "int list list set \<Rightarrow> (int list list \<Rightarrow> int list \<Rightarrow> int \<Rightarrow> bool) \<Rightarrow> block_manager \<Rightarrow> bool" where
  "cache_sound S Q m \<longleftrightarrow>
     (\<forall>e \<in> set (entries m). \<exists>c \<in> S. pe_parent e = chain_hash c \<and> Q c (pe_tokens e) (pe_block e))"

lemma cache_sound_keys:
  assumes "cache_sound S Q m" "set (map entry_key (entries m')) \<subseteq> set (map entry_key (entries m))"
  shows "cache_sound S Q m'"
  unfolding cache_sound_def
proof
  fix e assume "e \<in> set (entries m')"
  then have "entry_key e \<in> entry_key ` set (entries m)" using assms(2) by auto
  then obtain e' where "e' \<in> set (entries m)" "entry_key e = entry_key e'" by auto
  with assms(1) show "\<exists>c \<in> S. pe_parent e = chain_hash c \<and> Q c (pe_tokens e) (pe_block e)"
    by (auto simp: cache_sound_def entry_key_def)
qed

lemma cache_sound_refreshed:
  assumes "bm_inv m" "map_of (bm_prefix m) h = Some es" "map entry_key es' = map entry_key es"
  shows "cache_sound S Q (refreshed h es' m) \<longleftrightarrow> cache_sound S Q m"
proof -
  have dk: "distinct (map fst (bm_prefix m))" using assms(1) by (simp add: bm_inv_def)
  from arg_cong[OF refreshed_keys[OF dk assms(2,3)], of set_mset]
  have "set (map entry_key (entries (refreshed h es' m))) = set (map entry_key (entries m))" by simp
  then show ?thesis using cache_sound_keys by blast
qed

lemma cache_sound_alloc [simp]: "cache_sound S Q (m\<lparr>bm_alloc := al\<rparr>) = cache_sound S Q m"
  by (simp add: cache_sound_def)

text \<open>An entry for \<open>span\<close> after \<open>c\<close> is in its bucket.\<close>

definition cache_has :: "block_manager \<Rightarrow> int list list \<Rightarrow> int list \<Rightarrow> bool" where
  "cache_has m c span \<longleftrightarrow>
     (\<exists>es. map_of (bm_prefix m) (hash_block (chain_hash c) span) = Some es \<and> list_ex (entry_matches (chain_hash c) span) es)"

lemma list_ex_matches_keys:
  assumes "map entry_key es' = map entry_key es"
  shows "list_ex (entry_matches p s) es' = list_ex (entry_matches p s) es"
proof -
  have key: "list_ex (entry_matches p s) us = list_ex (\<lambda>(p', t, b). p' = p \<and> length t = length s \<and> t = s) (map entry_key us)" for us
    by (induction us) (auto simp: entry_key_def entry_matches_def)
  show ?thesis unfolding key[of es'] key[of es] assms ..
qed

lemma cache_has_refreshed:
  assumes "map_of (bm_prefix m) h = Some es" "map entry_key es' = map entry_key es"
  shows "cache_has (refreshed h es' m) c span \<longleftrightarrow> cache_has m c span"
proof (cases "hash_block (chain_hash c) span = h")
  case True
  then show ?thesis
    using assms(1) list_ex_matches_keys[OF assms(2), of "chain_hash c" span]
    by (simp add: cache_has_def refreshed_def update_conv')
next
  case False
  then show ?thesis by (simp add: cache_has_def refreshed_def update_conv')
qed

lemma cache_has_alloc [simp]: "cache_has (m\<lparr>bm_alloc := al\<rparr>) c span = cache_has m c span"
  by (simp add: cache_has_def)

section \<open>The acquire loop\<close>

text \<open>One round of the loop, for a hit: which block is shared and what changes.\<close>

lemma acquire_hit:
  assumes inv: "bm_inv m" and mo: "map_of (bm_prefix m) h = Some es"
    and te: "touch_entry (entry_matches parent span) (bm_tick m + 1) es = Some (block, es')"
  shows "\<exists>al. share_block block (refreshed h es' m) = Inr ((refreshed h es' m)\<lparr>bm_alloc := al\<rparr>)
    \<and> 0 \<le> block \<and> bm_inv ((refreshed h es' m)\<lparr>bm_alloc := al\<rparr>) \<and> num_blocks al = num_blocks (bm_alloc m)
    \<and> free_list al = free_list (bm_alloc m)
    \<and> seq_refs ((refreshed h es' m)\<lparr>bm_alloc := al\<rparr>) = (seq_refs m)(block := Suc (seq_refs m block))
    \<and> (\<exists>e \<in> set (entries m). entry_matches parent span e \<and> pe_block e = block)"
proof -
  from touch_entry_SomeD[OF te] obtain i where i: "i < length es" "entry_matches parent span (es ! i)"
    "block = pe_block (es ! i)" by blast
  have mem: "es ! i \<in> set (entries m)" using map_of_bucket_entries[OF mo] i(1) by simp
  note keys = touch_entry_keys[OF te]
  note r = refreshed_inv[OF inv mo keys]
  have "0 < refs_of (bm_alloc (refreshed h es' m)) block"
    using entry_refs_pos[OF inv mem] i(3) r(3) by simp
  from share_block_ref[OF r(1) this] show ?thesis
    using r(2,3) i mem entry_range[OF inv mem] by auto
qed

lemma acquire_miss:
  assumes "\<not> cache_has m don span"
  shows "acquire_loop (span # spans) (chain_hash don) seq m matched = Inr (seq, m, matched)"
proof (cases "map_of (bm_prefix m) (hash_block (chain_hash don) span)")
  case (Some es)
  then have "touch_entry (entry_matches (chain_hash don) span) (bm_tick m + 1) es = None"
    using assms by (auto simp: cache_has_def touch_entry_None)
  then show ?thesis using Some by (simp add: Let_def)
qed (simp add: Let_def)

text \<open>What a change of reference counts and time stamps keeps of a manager.\<close>

definition keeps_cache :: "block_manager \<Rightarrow> block_manager \<Rightarrow> bool" where
  "keeps_cache m m' \<longleftrightarrow> num_blocks (bm_alloc m') = num_blocks (bm_alloc m) \<and> free_list (bm_alloc m') = free_list (bm_alloc m)
     \<and> bm_keys m' = bm_keys m \<and> bm_values m' = bm_values m \<and> bm_block_size m' = bm_block_size m
     \<and> bm_kv_dim m' = bm_kv_dim m \<and> image_mset entry_key (mset (entries m')) = image_mset entry_key (mset (entries m))"

lemma keeps_cache_trans: "keeps_cache m m1 \<Longrightarrow> keeps_cache m1 m2 \<Longrightarrow> keeps_cache m m2"
  by (simp add: keeps_cache_def)

text \<open>One hit of the loop: the cached block is shared, and it is the block of this very span when
  the hashes of the contexts differ.\<close>

lemma acquire_step:
  assumes I: "seqs_inv m (block_table seq # ts)" and has: "cache_has m don span"
  shows "\<exists>block m1. acquire_loop (span # spans) (chain_hash don) seq m matched
      = acquire_loop spans (chain_hash (don @ [span])) (seq\<lparr>block_table := block_table seq @ [block]\<rparr>) m1 (matched + bm_block_size m)
    \<and> seqs_inv m1 ((block_table seq @ [block]) # ts) \<and> keeps_cache m m1
    \<and> (\<forall>S Q. cache_sound S Q m1 = cache_sound S Q m) \<and> (\<forall>c s. cache_has m1 c s = cache_has m c s)
    \<and> (\<forall>S Q. cache_sound S Q m \<longrightarrow> inj_on chain_hash S \<longrightarrow> don \<in> S \<longrightarrow> Q don span block)"
proof -
  have inv: "bm_inv m" and sr: "seq_refs m = held (block_table seq # ts)" using I by (auto simp: seqs_inv_def)
  let ?parent = "chain_hash don"
  let ?h = "hash_block ?parent span"
  obtain es where mo: "map_of (bm_prefix m) ?h = Some es" "list_ex (entry_matches ?parent span) es"
    using has by (auto simp: cache_has_def)
  then obtain block es' where te: "touch_entry (entry_matches ?parent span) (bm_tick m + 1) es = Some (block, es')"
    using touch_entry_None[of "entry_matches ?parent span" "bm_tick m + 1" es]
    by (cases "touch_entry (entry_matches ?parent span) (bm_tick m + 1) es") auto
  note keys = touch_entry_keys[OF te]
  from acquire_hit[OF inv mo(1) te] obtain al e where
    al: "share_block block (refreshed ?h es' m) = Inr ((refreshed ?h es' m)\<lparr>bm_alloc := al\<rparr>)"
    "0 \<le> block" "bm_inv ((refreshed ?h es' m)\<lparr>bm_alloc := al\<rparr>)" "num_blocks al = num_blocks (bm_alloc m)"
    "free_list al = free_list (bm_alloc m)"
    "seq_refs ((refreshed ?h es' m)\<lparr>bm_alloc := al\<rparr>) = (seq_refs m)(block := Suc (seq_refs m block))"
    "e \<in> set (entries m)" "entry_matches ?parent span e" "pe_block e = block" by blast
  define m1 where "m1 = (refreshed ?h es' m)\<lparr>bm_alloc := al\<rparr>"
  have "acquire_loop (span # spans) ?parent seq m matched
      = acquire_loop spans (chain_hash (don @ [span])) (seq\<lparr>block_table := block_table seq @ [block]\<rparr>) m1 (matched + bm_block_size m)"
    using mo(1) te al(1,2) by (simp add: Let_def m1_def refreshed_def chain_hash_snoc)
  moreover have "seqs_inv m1 ((block_table seq @ [block]) # ts)"
    using al(3,6) sr by (auto simp: seqs_inv_def m1_def fun_eq_iff)
  moreover have "keeps_cache m m1"
    using refreshed_keys[OF _ mo(1) keys] inv al(4,5) by (simp add: keeps_cache_def m1_def bm_inv_def refreshed_def)
  moreover have "cache_sound S Q m1 = cache_sound S Q m" for S Q
    using cache_sound_refreshed[OF inv mo(1) keys] by (simp add: m1_def)
  moreover have "cache_has m1 c s = cache_has m c s" for c s
    using cache_has_refreshed[OF mo(1) keys] by (simp add: m1_def)
  moreover have "Q don span block" if S: "cache_sound S Q m" "inj_on chain_hash S" "don \<in> S" for S Q
  proof -
    from S(1) al(7) obtain c where c: "c \<in> S" "pe_parent e = chain_hash c" "Q c (pe_tokens e) (pe_block e)"
      by (auto simp: cache_sound_def)
    have "c = don" using S(2,3) c(1,2) al(8) by (auto simp: entry_matches_def dest: inj_onD)
    then show ?thesis using c(3) al(8,9) by (simp add: entry_matches_def)
  qed
  ultimately show ?thesis by blast
qed

text \<open>The context of span \<open>i\<close> of a list, and that a statement about all spans is one about the
  first and the rest.\<close>

lemma all_spans_Cons:
  "(\<forall>i < Suc k. P (don @ take i (x # xs)) ((x # xs) ! i) i) \<longleftrightarrow>
     P don x 0 \<and> (\<forall>i < k. P ((don @ [x]) @ take i xs) (xs ! i) (Suc i))"
  by (auto simp: All_less_Suc2)

lemma acquire_loop_ok:
  assumes "seqs_inv m (block_table seq # ts)" "parent = chain_hash don"
    and "length (block_table seq) = length don" "0 \<le> bm_block_size m"
  shows "\<exists>seq' m' matched'. acquire_loop spans parent seq m matched = Inr (seq', m', matched')
    \<and> seqs_inv m' (block_table seq' # ts) \<and> seq_length seq' = seq_length seq
    \<and> (\<exists>k \<le> length spans. length (block_table seq') = length don + k
         \<and> take (length don) (block_table seq') = block_table seq
         \<and> matched' = matched + int k * bm_block_size m
         \<and> (\<forall>i. (\<forall>j < i. j < length spans \<and> cache_has m (don @ take j spans) (spans ! j)) \<longrightarrow> i \<le> k)
         \<and> (\<forall>S Q. cache_sound S Q m \<longrightarrow> inj_on chain_hash S \<longrightarrow> (\<forall>i < length spans. don @ take i spans \<in> S) \<longrightarrow>
              (\<forall>i < k. Q (don @ take i spans) (spans ! i) (block_table seq' ! (length don + i)))))
    \<and> num_blocks (bm_alloc m') = num_blocks (bm_alloc m) \<and> free_list (bm_alloc m') = free_list (bm_alloc m)
    \<and> bm_keys m' = bm_keys m \<and> bm_values m' = bm_values m \<and> bm_block_size m' = bm_block_size m
    \<and> bm_kv_dim m' = bm_kv_dim m
    \<and> image_mset entry_key (mset (entries m')) = image_mset entry_key (mset (entries m))"
  using assms
proof (induction spans arbitrary: parent seq m matched don)
  case Nil
  then show ?case by (intro exI[of _ seq] exI[of _ m] exI[of _ matched]) auto
next
  case (Cons span spans)
  note parent = Cons.prems(2)
  show ?case
  proof (cases "cache_has m don span")
    case False
    have "i = 0" if "\<forall>j < i. j < length (span # spans) \<and> cache_has m (don @ take j (span # spans)) ((span # spans) ! j)" for i
      using that False by (cases i) auto
    then show ?thesis unfolding parent acquire_miss[OF False]
      using Cons.prems by (intro exI[of _ seq] exI[of _ m] exI[of _ matched]) auto
  next
    case True
    from acquire_step[OF Cons.prems(1) True, of spans matched] obtain block m1 where
      st: "acquire_loop (span # spans) parent seq m matched
        = acquire_loop spans (chain_hash (don @ [span])) (seq\<lparr>block_table := block_table seq @ [block]\<rparr>) m1 (matched + bm_block_size m)"
      "seqs_inv m1 ((block_table seq @ [block]) # ts)" "keeps_cache m m1"
      "\<forall>S Q. cache_sound S Q m1 = cache_sound S Q m" "\<forall>c s. cache_has m1 c s = cache_has m c s"
      "\<forall>S Q. cache_sound S Q m \<longrightarrow> inj_on chain_hash S \<longrightarrow> don \<in> S \<longrightarrow> Q don span block"
      unfolding parent by blast
    define s1 where "s1 = seq\<lparr>block_table := block_table seq @ [block]\<rparr>"
    have s1: "block_table s1 = block_table seq @ [block]" "seq_length s1 = seq_length seq" by (simp_all add: s1_def)
    have bs1: "bm_block_size m1 = bm_block_size m" using st(3) by (simp add: keeps_cache_def)
    have l1: "length (block_table s1) = length (don @ [span])" using Cons.prems(3) by (simp add: s1)
    from Cons.IH[OF st(2)[folded s1(1)] refl l1, of "matched + bm_block_size m"] Cons.prems(4) bs1
    obtain seq' m' matched' k where r:
      "acquire_loop spans (chain_hash (don @ [span])) s1 m1 (matched + bm_block_size m) = Inr (seq', m', matched')"
      "seqs_inv m' (block_table seq' # ts)" "seq_length seq' = seq_length s1" "k \<le> length spans"
      "length (block_table seq') = length (don @ [span]) + k"
      "take (length (don @ [span])) (block_table seq') = block_table s1"
      "matched' = matched + bm_block_size m + int k * bm_block_size m1"
      "\<forall>i. (\<forall>j < i. j < length spans \<and> cache_has m1 ((don @ [span]) @ take j spans) (spans ! j)) \<longrightarrow> i \<le> k"
      "\<forall>S Q. cache_sound S Q m1 \<longrightarrow> inj_on chain_hash S \<longrightarrow> (\<forall>i < length spans. (don @ [span]) @ take i spans \<in> S) \<longrightarrow>
              (\<forall>i < k. Q ((don @ [span]) @ take i spans) (spans ! i) (block_table seq' ! (length (don @ [span]) + i)))"
      and kc: "keeps_cache m1 m'" unfolding keeps_cache_def by metis
    have first: "block_table seq' ! length don = block"
      using arg_cong[OF r(6), of "\<lambda>xs. xs ! length don"] Cons.prems(3) by (simp add: s1 nth_append)
    have pre: "take (length don) (block_table seq') = block_table seq"
      using arg_cong[OF r(6), of "take (length don)"] Cons.prems(3) by (simp add: s1 min_def)
    have complete: "i \<le> Suc k" if i: "\<forall>j < i. j < length (span # spans) \<and> cache_has m (don @ take j (span # spans)) ((span # spans) ! j)" for i
    proof (cases i)
      case (Suc i')
      have "\<forall>j < i'. j < length spans \<and> cache_has m1 ((don @ [span]) @ take j spans) (spans ! j)"
        using i[unfolded Suc] st(5) by (auto simp: All_less_Suc2)
      then show ?thesis using r(8) Suc by auto
    qed simp
    have sound: "\<forall>i < Suc k. Q (don @ take i (span # spans)) ((span # spans) ! i) (block_table seq' ! (length don + i))"
      if S: "cache_sound S Q m" "inj_on chain_hash S" "\<forall>i < length (span # spans). don @ take i (span # spans) \<in> S" for S Q
    proof -
      have d: "don \<in> S" "\<forall>i < length spans. (don @ [span]) @ take i spans \<in> S"
        using S(3) by (auto simp: All_less_Suc2)
      have "Q don span block" using st(6) S(1,2) d(1) by blast
      moreover have "\<forall>i < k. Q ((don @ [span]) @ take i spans) (spans ! i) (block_table seq' ! (length (don @ [span]) + i))"
        using r(9) st(4) S(1,2) d(2) by blast
      ultimately show ?thesis
        using first by (simp add: all_spans_Cons[where P = "\<lambda>c x i. Q c x (block_table seq' ! (length don + i))"])
    qed
    show ?thesis
      unfolding st(1)[folded s1_def] r(1)
      using r(2-5,7) bs1 keeps_cache_trans[OF st(3) kc, unfolded keeps_cache_def] pre complete sound
      by (intro exI[of _ seq'] exI[of _ m'] exI[of _ matched'] conjI exI[of _ "Suc k"]) (auto simp: s1 algebra_simps)
  qed
qed

section \<open>Acquiring a shared prefix\<close>

definition full_spans :: "nat \<Rightarrow> int list \<Rightarrow> int list list" where
  "full_spans bs tokens = rows bs (length tokens div bs) tokens"

lemma length_full_spans [simp]: "length (full_spans bs tokens) = length tokens div bs"
  by (simp add: full_spans_def)

lemma acquire_shared_prefix_ok:
  assumes inv: "seqs_inv m (block_table seq # ts)" and "block_table seq = []" "seq_length seq = 0"
    and bs: "bm_block_size m = int bs" "0 < bs"
  shows "\<exists>k seq' m'. acquire_shared_prefix seq tokens m = Inr (int (k * bs), seq', m')
    \<and> k \<le> length tokens div bs \<and> seqs_inv m' (block_table seq' # ts)
    \<and> length (block_table seq') = k \<and> seq_length seq' = int (k * bs)
    \<and> (\<forall>i. (\<forall>j < i. j < length tokens div bs \<and>
              cache_has m (take j (full_spans bs tokens)) (full_spans bs tokens ! j)) \<longrightarrow> i \<le> k)
    \<and> (\<forall>S Q. cache_sound S Q m \<longrightarrow> inj_on chain_hash S \<longrightarrow>
         (\<forall>i < length tokens div bs. take i (full_spans bs tokens) \<in> S) \<longrightarrow>
         (\<forall>i < k. Q (take i (full_spans bs tokens)) (full_spans bs tokens ! i) (block_table seq' ! i)))
    \<and> bm_keys m' = bm_keys m \<and> bm_values m' = bm_values m \<and> bm_block_size m' = bm_block_size m
    \<and> bm_kv_dim m' = bm_kv_dim m \<and> num_blocks (bm_alloc m') = num_blocks (bm_alloc m)
    \<and> num_free (bm_alloc m') = num_free (bm_alloc m)
    \<and> image_mset entry_key (mset (entries m')) = image_mset entry_key (mset (entries m))"
proof -
  have bs': "0 \<le> bm_block_size m" using bs by simp
  have len: "length (block_table seq) = length ([]::int list list)" using assms(2) by simp
  have ch: "0 = chain_hash []" by (simp add: chain_hash_def)
  from acquire_loop_ok[OF inv ch len bs', of "full_spans bs tokens" 0] obtain seq' m' matched k where r:
    "acquire_loop (full_spans bs tokens) 0 seq m 0 = Inr (seq', m', matched)"
    "seqs_inv m' (block_table seq' # ts)" "k \<le> length tokens div bs" "length (block_table seq') = k"
    "matched = int k * bm_block_size m"
    "\<forall>i. (\<forall>j < i. j < length tokens div bs \<and> cache_has m (take j (full_spans bs tokens)) (full_spans bs tokens ! j)) \<longrightarrow> i \<le> k"
    "\<forall>S Q. cache_sound S Q m \<longrightarrow> inj_on chain_hash S \<longrightarrow>
         (\<forall>i < length tokens div bs. take i (full_spans bs tokens) \<in> S) \<longrightarrow>
         (\<forall>i < k. Q (take i (full_spans bs tokens)) (full_spans bs tokens ! i) (block_table seq' ! i))"
    "num_blocks (bm_alloc m') = num_blocks (bm_alloc m)" "free_list (bm_alloc m') = free_list (bm_alloc m)"
    "bm_keys m' = bm_keys m" "bm_values m' = bm_values m" "bm_block_size m' = bm_block_size m"
    "bm_kv_dim m' = bm_kv_dim m" "image_mset entry_key (mset (entries m')) = image_mset entry_key (mset (entries m))" by auto
  define m2 where "m2 = (if 0 < matched then m'\<lparr>bm_prefix_hits := bm_prefix_hits m' + 1\<rparr> else m')"
  have m2: "bm_alloc m2 = bm_alloc m'" "bm_prefix m2 = bm_prefix m'" "bm_keys m2 = bm_keys m'"
    "bm_values m2 = bm_values m'" "bm_block_size m2 = bm_block_size m'" "bm_kv_dim m2 = bm_kv_dim m'"
    by (simp_all add: m2_def)
  have cr: "cache_refs m2 = cache_refs m'" and en: "entries m2 = entries m'"
    using m2 by (simp_all add: cache_refs_def entries_def fun_eq_iff)
  have i2: "seqs_inv m2 (block_table seq' # ts)"
    using r(2) m2 cr en by (simp add: seqs_inv_def bm_inv_def seq_refs_def fun_eq_iff)
  have "acquire_shared_prefix seq tokens m = Inr (int (k * bs), seq'\<lparr>seq_length := int (k * bs)\<rparr>, m2)"
    using r(1,5) assms(2,3) bs
    by (simp add: acquire_shared_prefix_def Let_def full_spans_def m2_def flip: zdiv_int)
  then show ?thesis
    using r i2 m2 en by (intro exI[of _ k] exI[of _ "seq'\<lparr>seq_length := int (k * bs)\<rparr>"] exI[of _ m2])
      (simp add: num_free_def)
qed

section \<open>Registering a prefix\<close>

lemma register_add:
  assumes inv: "bm_inv m" and held: "0 < seq_refs m block" and e: "pe_block e = block"
    and es: "es = (case map_of (bm_prefix m) h of None \<Rightarrow> [] | Some es \<Rightarrow> es)"
  shows "\<exists>al m1. share_block block m = Inr (m\<lparr>bm_alloc := al\<rparr>)
    \<and> m1 = m\<lparr>bm_alloc := al, bm_prefix := AList.update h (es @ [e]) (bm_prefix m), bm_tick := t\<rparr>
    \<and> bm_inv m1 \<and> seq_refs m1 = seq_refs m \<and> mset (entries m1) = add_mset e (mset (entries m))
    \<and> num_blocks al = num_blocks (bm_alloc m) \<and> free_list al = free_list (bm_alloc m)"
proof -
  have dk: "distinct (map fst (bm_prefix m))" using inv by (simp add: bm_inv_def)
  have "0 < refs_of (bm_alloc m) block" using held by (simp add: seq_refs_def)
  from share_block_ref[OF inv this] obtain al where
    al: "share_block block m = Inr (m\<lparr>bm_alloc := al\<rparr>)" "bm_inv (m\<lparr>bm_alloc := al\<rparr>)"
    "num_blocks al = num_blocks (bm_alloc m)" "free_list al = free_list (bm_alloc m)"
    "refs_of al = (refs_of (bm_alloc m))(block := Suc (refs_of (bm_alloc m) block))" by blast
  let ?m1 = "m\<lparr>bm_alloc := al, bm_prefix := AList.update h (es @ [e]) (bm_prefix m), bm_tick := t\<rparr>"
  have ms: "mset (entries ?m1) = add_mset e (mset (entries m))"
  proof (cases "map_of (bm_prefix m) h")
    case None
    then show ?thesis using mset_new_bucket[OF None, of "es @ [e]"] es by (simp add: entries_def)
  next
    case (Some es0)
    then show ?thesis using mset_update_bucket[OF dk Some, of "es @ [e]"] es by (simp add: entries_def)
  qed
  have cr: "cache_refs ?m1 b = cache_refs m b + (if b = block then 1 else 0)" for b
    using e by (simp add: cache_refs_mset ms)
  have i1: "bm_inv ?m1"
    using al(2,5) bm_inv_cache_refs[OF inv] dk
    by (intro bm_invI) (auto simp: cr bm_inv_def distinct_update)
  have "seq_refs ?m1 = seq_refs m" using al(5) by (auto simp: seq_refs_def cr fun_eq_iff)
  then show ?thesis using al i1 ms by blast
qed

lemma cache_has_add:
  assumes "map_of (bm_prefix m') = (map_of (bm_prefix m))(h \<mapsto> es @ [e])"
    and "es = (case map_of (bm_prefix m) h of None \<Rightarrow> [] | Some es \<Rightarrow> es)" "cache_has m c s"
  shows "cache_has m' c s"
  using assms by (cases "hash_block (chain_hash c) s = h") (auto simp: cache_has_def)

text \<open>
  What entering the spans \<open>ss\<close> in the blocks \<open>xs\<close>, below the spans \<open>c\<close>, makes of a manager: they
  are found, nothing is lost, a cache that was right stays right, and the pool is the same.
\<close>

definition same_pool :: "block_manager \<Rightarrow> block_manager \<Rightarrow> bool" where
  "same_pool m m' \<longleftrightarrow> num_blocks (bm_alloc m') = num_blocks (bm_alloc m) \<and> free_list (bm_alloc m') = free_list (bm_alloc m)
     \<and> bm_keys m' = bm_keys m \<and> bm_values m' = bm_values m \<and> bm_block_size m' = bm_block_size m
     \<and> bm_kv_dim m' = bm_kv_dim m"

definition registered :: "int list list \<Rightarrow> int list list \<Rightarrow> int list \<Rightarrow> block_manager \<Rightarrow> block_manager \<Rightarrow> bool" where
  "registered c ss xs m m' \<longleftrightarrow> (\<forall>i < length ss. cache_has m' (c @ take i ss) (ss ! i))
     \<and> (\<forall>c s. cache_has m c s \<longrightarrow> cache_has m' c s)
     \<and> (\<forall>S Q. cache_sound S Q m \<longrightarrow> (\<forall>i < length ss. c @ take i ss \<in> S \<and> Q (c @ take i ss) (ss ! i) (xs ! i)) \<longrightarrow>
          cache_sound S Q m')
     \<and> same_pool m m'"

lemma registered_Nil: "registered c [] xs m m"
  by (simp add: registered_def same_pool_def)

lemma registered_sound:
  assumes "registered c ss xs m m'" "cache_sound S Q m" "\<And>i. i < length ss \<Longrightarrow> c @ take i ss \<in> S \<and> Q (c @ take i ss) (ss ! i) (xs ! i)"
  shows "cache_sound S Q m'"
  using assms unfolding registered_def by blast

lemma registered_Cons:
  assumes one: "registered c [s] [x] m m1" and rest: "registered (c @ [s]) ss xs m1 m'"
  shows "registered c (s # ss) (x # xs) m m'"
proof -
  have "cache_has m' (c @ take i (s # ss)) ((s # ss) ! i)" if "i < length (s # ss)" for i
    using that one rest by (cases i) (auto simp: registered_def)
  moreover have "cache_sound S Q m'"
    if "cache_sound S Q m" and all: "\<forall>i < length (s # ss). c @ take i (s # ss) \<in> S
        \<and> Q (c @ take i (s # ss)) ((s # ss) ! i) ((x # xs) ! i)" for S Q
  proof (rule registered_sound[OF rest])
    show "cache_sound S Q m1" using all[rule_format, of 0] by (intro registered_sound[OF one that(1)]) simp
    show "(c @ [s]) @ take i ss \<in> S \<and> Q ((c @ [s]) @ take i ss) (ss ! i) (xs ! i)" if "i < length ss" for i
      using all[rule_format, of "Suc i"] that by simp
  qed
  moreover have "\<forall>c s. cache_has m c s \<longrightarrow> cache_has m' c s" "same_pool m m'"
    using one rest by (simp_all add: registered_def same_pool_def)
  ultimately show ?thesis unfolding registered_def by blast
qed

lemma register_step:
  assumes inv: "seqs_inv m ts" and seq: "block_table seq \<in> set ts" and c: "parent = chain_hash c" and b: "b < length (block_table seq)"
  shows "\<exists>m1. register_loop b (span # spans) parent seq m = register_loop (Suc b) spans (hash_block parent span) seq m1
    \<and> seqs_inv m1 ts \<and> registered c [span] [block_table seq ! b] m m1"
proof -
  let ?h = "hash_block parent span"
  define es where "es = (case map_of (bm_prefix m) ?h of None \<Rightarrow> [] | Some es \<Rightarrow> es)"
  show ?thesis
  proof (cases "list_ex (entry_matches parent span) es")
    case True
    then have "cache_has m c span" using c by (auto simp: cache_has_def es_def split: option.splits)
    then have "registered c [span] [block_table seq ! b] m m" by (simp add: registered_def same_pool_def)
    with True inv show ?thesis by (intro exI[of _ m]) (simp add: Let_def flip: es_def)
  next
    case False
    define block where "block = block_table seq ! b"
    define e where "e = \<lparr>pe_parent = parent, pe_tokens = span, pe_block = block, pe_last_used = bm_tick m + 1\<rparr>"
    have bi: "bm_inv m" and sr: "seq_refs m = held ts" using inv by (auto simp: seqs_inv_def)
    have bl: "vec_get (block_table seq) (int b) = Inr block" using b by (simp add: mem_simps block_def)
    have "block \<in> set (block_table seq)" using b by (simp add: block_def)
    then have "0 < seq_refs m block" using sr held_pos[of ts block] seq by auto
    from register_add[OF bi this, of e es ?h "bm_tick m + 1"] obtain al m1 where a:
      "share_block block m = Inr (m\<lparr>bm_alloc := al\<rparr>)"
      "m1 = m\<lparr>bm_alloc := al, bm_prefix := AList.update ?h (es @ [e]) (bm_prefix m), bm_tick := bm_tick m + 1\<rparr>"
      "bm_inv m1" "seq_refs m1 = seq_refs m" "mset (entries m1) = add_mset e (mset (entries m))"
      "num_blocks al = num_blocks (bm_alloc m)" "free_list al = free_list (bm_alloc m)"
      by (auto simp: e_def es_def)
    have mo: "map_of (bm_prefix m1) = (map_of (bm_prefix m))(?h \<mapsto> es @ [e])" using a(2) by (simp add: update_conv')
    have "cache_has m1 c span" using mo c by (simp add: cache_has_def entry_matches_def e_def)
    moreover have "\<forall>c s. cache_has m c s \<longrightarrow> cache_has m1 c s" using cache_has_add[OF mo es_def] by blast
    moreover have "set (entries m1) = insert e (set (entries m))" using arg_cong[OF a(5), of set_mset] by simp
    then have "\<forall>S Q. cache_sound S Q m \<longrightarrow> c \<in> S \<longrightarrow> Q c span block \<longrightarrow> cache_sound S Q m1"
      using c by (auto simp: cache_sound_def e_def)
    moreover have "same_pool m m1" using a(2,6,7) by (simp add: same_pool_def)
    ultimately have "registered c [span] [block_table seq ! b] m m1" by (simp add: registered_def block_def)
    moreover have "register_loop b (span # spans) parent seq m = register_loop (Suc b) spans ?h seq m1"
      using False bl a(1,2) by (simp add: Let_def e_def flip: es_def)
    moreover have "seqs_inv m1 ts" using a sr inv by (auto simp: seqs_inv_def)
    ultimately show ?thesis by blast
  qed
qed

lemma register_loop_ok:
  assumes "seqs_inv m ts" "block_table seq \<in> set ts" "parent = chain_hash c" "b + length spans \<le> length (block_table seq)"
  shows "\<exists>m'. register_loop b spans parent seq m = Inr m' \<and> seqs_inv m' ts \<and> registered c spans (drop b (block_table seq)) m m'"
  using assms
proof (induction spans arbitrary: parent m c b)
  case Nil
  then show ?case by (simp add: registered_Nil)
next
  case (Cons span spans)
  have b: "b < length (block_table seq)" "Suc b + length spans \<le> length (block_table seq)" using Cons.prems(4) by simp_all
  from register_step[OF Cons.prems(1-3) b(1), of span spans] obtain m1 where m1:
    "register_loop b (span # spans) parent seq m = register_loop (Suc b) spans (hash_block parent span) seq m1"
    "seqs_inv m1 ts" "registered c [span] [block_table seq ! b] m m1" by blast
  have "hash_block parent span = chain_hash (c @ [span])" using Cons.prems(3) by (simp add: chain_hash_snoc)
  from Cons.IH[OF m1(2) Cons.prems(2) this b(2)] obtain m' where
    "register_loop (Suc b) spans (hash_block parent span) seq m1 = Inr m'" "seqs_inv m' ts"
    "registered (c @ [span]) spans (drop (Suc b) (block_table seq)) m1 m'" by blast
  then show ?case
    using m1(1) registered_Cons[OF m1(3)] unfolding Cons_nth_drop_Suc[OF b(1), symmetric] by auto
qed

lemma register_prefix_ok:
  assumes inv: "seqs_inv m ts" "block_table seq \<in> set ts" and bs: "bm_block_size m = int bs" "0 < bs"
  shows "\<exists>m'. register_prefix seq tokens m = Inr m' \<and> seqs_inv m' ts
    \<and> (\<forall>i < min (length (block_table seq)) (length tokens div bs).
         cache_has m' (take i (full_spans bs tokens)) (full_spans bs tokens ! i))
    \<and> (\<forall>c s. cache_has m c s \<longrightarrow> cache_has m' c s)
    \<and> (\<forall>S Q. cache_sound S Q m \<longrightarrow>
         (\<forall>i < min (length (block_table seq)) (length tokens div bs). take i (full_spans bs tokens) \<in> S
            \<and> Q (take i (full_spans bs tokens)) (full_spans bs tokens ! i) (block_table seq ! i)) \<longrightarrow>
         cache_sound S Q m')
    \<and> num_blocks (bm_alloc m') = num_blocks (bm_alloc m) \<and> free_list (bm_alloc m') = free_list (bm_alloc m)
    \<and> bm_keys m' = bm_keys m \<and> bm_values m' = bm_values m \<and> bm_block_size m' = bm_block_size m
    \<and> bm_kv_dim m' = bm_kv_dim m"
proof -
  define f where "f = min (length (block_table seq)) (length tokens div bs)"
  have pre: "rows bs f tokens = take f (full_spans bs tokens)"
    by (simp add: rows_def full_spans_def f_def take_map min_def)
  have tk: "take i (rows bs f tokens) = take i (full_spans bs tokens)" "rows bs f tokens ! i = full_spans bs tokens ! i"
    if "i < f" for i
    using that by (simp_all add: pre min_def)
  have run: "register_prefix seq tokens m = register_loop 0 (rows bs f tokens) 0 seq m"
    using bs by (simp add: register_prefix_def Let_def f_def min_def flip: zdiv_int)
  have "0 + length (rows bs f tokens) \<le> length (block_table seq)" by (simp add: f_def)
  from register_loop_ok[OF inv _ this, of 0 "[]"]
  obtain m' where "register_loop 0 (rows bs f tokens) 0 seq m = Inr m'" "seqs_inv m' ts"
    "registered [] (rows bs f tokens) (block_table seq) m m'" by (auto simp: chain_hash_def)
  then show ?thesis unfolding run f_def[symmetric] using tk by (intro exI[of _ m']) (auto simp: registered_def same_pool_def)
qed

section \<open>Clearing the cache\<close>

lemma release_entries:
  "res_fold (\<lambda>e m. release_block (pe_block e) m) es m =
   res_bind (res_fold free (map pe_block es) (bm_alloc m)) (\<lambda>al. Inr (m\<lparr>bm_alloc := al\<rparr>))"
proof (induction es arbitrary: m)
  case Nil
  then show ?case by simp
next
  case (Cons e es)
  then show ?case by (cases "free (pe_block e) (bm_alloc m)") (simp_all add: release_block_def)
qed

lemma count_list_blocks: "count_list (map pe_block (entries m)) b = cache_refs m b"
  by (simp add: cache_refs_def count_list_eq_length_filter filter_map comp_def eq_commute)

lemma clear_prefix_cache_ok:
  assumes "seqs_inv m ts"
  shows "\<exists>m'. clear_prefix_cache m = Inr m' \<and> seqs_inv m' ts \<and> bm_prefix m' = []
    \<and> num_blocks (bm_alloc m') = num_blocks (bm_alloc m) \<and> bm_keys m' = bm_keys m \<and> bm_values m' = bm_values m
    \<and> bm_block_size m' = bm_block_size m \<and> bm_kv_dim m' = bm_kv_dim m"
proof -
  have inv: "bm_inv m" and ai: "alloc_inv (bm_alloc m)" using assms by (auto simp: seqs_inv_def bm_inv_def)
  have "count_list (map pe_block (entries m)) b \<le> refs_of (bm_alloc m) b" for b
    using bm_inv_cache_refs[OF inv] by (simp add: count_list_blocks)
  from ba.release_all[OF ai this] obtain al where al:
    "res_fold free (map pe_block (entries m)) (bm_alloc m) = Inr al" "alloc_inv al"
    "nat (num_blocks al) = nat (num_blocks (bm_alloc m))" "refs_of al = (\<lambda>b. refs_of (bm_alloc m) b - cache_refs m b)"
    by (auto simp: count_list_blocks)
  let ?m' = "m\<lparr>bm_alloc := al, bm_prefix := []\<rparr>"
  have "seqs_inv ?m' ts"
    using al(2,4) assms by (auto simp: seqs_inv_def bm_inv_def entries_def seq_refs_def cache_refs_def fun_eq_iff)
  moreover have "clear_prefix_cache m = Inr ?m'"
    using al(1) by (simp add: clear_prefix_cache_def release_entries flip: entries_def)
  ultimately show ?thesis using al(3) by (intro exI[of _ ?m']) (simp add: num_blocks_def)
qed

text \<open>With no table and no entry left, the whole pool is free.\<close>

lemma nothing_held_all_free:
  assumes "seqs_inv m ts" "\<And>t. t \<in> set ts \<Longrightarrow> t = []" "bm_prefix m = []"
  shows "free_blocks m = num_blocks (bm_alloc m)"
proof -
  have ai: "alloc_inv (bm_alloc m)" using assms(1) by (simp add: seqs_inv_def bm_inv_def)
  have "held ts b = 0" for b using held_pos[of ts b] assms(2) by force
  then have "refs_of (bm_alloc m) b = 0" for b
    using refs_of_total[OF assms(1), of b] assms(3) by (simp add: cache_refs_def entries_def)
  then show ?thesis using alloc_inv_conservation[OF ai] by (simp add: free_blocks_def)
qed

text \<open>A manager whose cache holds two blocks that no sequence uses; block 1 was used before
  block 0.\<close>

definition cached_entry :: "int \<Rightarrow> int list \<Rightarrow> int \<Rightarrow> prefix_entry" where
  "cached_entry b span used = \<lparr>pe_parent = 0, pe_tokens = span, pe_block = b, pe_last_used = used\<rparr>"

definition cached_manager :: block_manager where
  "cached_manager = \<lparr>bm_num_layers = 1, bm_kv_dim = 1, bm_block_size = 2,
     bm_alloc = \<lparr>free_list = [2], ref_counts = [1, 1, 0]\<rparr>, bm_keys = [replicate 6 0], bm_values = [replicate 6 0],
     bm_prefix = [(chain_hash [[7, 8]], [cached_entry 0 [7, 8] 5]), (chain_hash [[5, 6]], [cached_entry 1 [5, 6] 3])],
     bm_prefix_hits = 0, bm_tick = 6\<rparr>"

lemma cached_entries: "entries cached_manager = [cached_entry 0 [7, 8] 5, cached_entry 1 [5, 6] 3]"
  by (simp add: entries_def cached_manager_def)

lemma cached_manager_inv: "seqs_inv cached_manager []"
proof -
  have r: "refs_of (bm_alloc cached_manager) b = (if b = 0 \<or> b = 1 then 1 else 0)" for b
  proof -
    consider "b < 0" | "b = 0" | "b = 1" | "b = 2" | "3 \<le> b" by linarith
    then show ?thesis by cases (simp_all add: refs_of_def cached_manager_def num_blocks_def)
  qed
  have c: "cache_refs cached_manager b = (if b = 0 \<or> b = 1 then 1 else 0)" for b
    by (simp add: cache_refs_def cached_entries cached_entry_def)
  have "chain_hash [[7, 8]] \<noteq> chain_hash [[5, 6]]" by code_simp
  moreover have "alloc_inv (bm_alloc cached_manager)"
    by (auto simp: alloc_inv_def cached_manager_def num_blocks_def less_Suc_eq numeral_3_eq_3)
  ultimately have "bm_inv cached_manager" unfolding bm_inv_def by (simp add: r c) (simp add: cached_manager_def)
  then show ?thesis by (simp add: seqs_inv_def seq_refs_def r c fun_eq_iff)
qed

section \<open>Properties\<close>

text \<open>C30: When no free block is left, \<open>evict_lru\<close> gives up exactly one cached block: one that
  no sequence holds, and among those the least recently used. Every other entry stays, and
  when sequences hold all cached blocks nothing changes.\<close>

theorem evict_lru_victim:
  assumes "seqs_inv m ts"
  shows "\<exists>m'. evict_lru m = Inr m' \<and> seqs_inv m' ts \<and> bm_geom m' = bm_geom m \<and> bm_avail m' = bm_avail m
    \<and> (if \<exists>e \<in> set (entries m). held ts (pe_block e) = 0 \<and> cache_refs m (pe_block e) = 1
       then \<exists>e \<in> set (entries m). held ts (pe_block e) = 0
              \<and> (\<forall>e' \<in> set (entries m). held ts (pe_block e') = 0 \<longrightarrow> cache_refs m (pe_block e') = 1 \<longrightarrow>
                   pe_last_used e \<le> pe_last_used e')
              \<and> mset (entries m) = add_mset e (mset (entries m')) \<and> free_blocks m' = free_blocks m + 1
              \<and> last (free_list (bm_alloc m')) = pe_block e
       else m' = m)"
proof -
  have inv: "bm_inv m" and sr: "seq_refs m = held ts" using assms by (auto simp: seqs_inv_def)
  have ev: "evictable m e \<longleftrightarrow> held ts (pe_block e) = 0 \<and> cache_refs m (pe_block e) = 1" if "e \<in> set (entries m)" for e
  proof -
    have "0 < cache_refs m (pe_block e)" using that cache_refs_zero[of m "pe_block e"] by auto
    then show ?thesis using refs_of_total[OF assms, of "pe_block e"] by (auto simp: evictable_def)
  qed
  show ?thesis
  proof (cases "\<exists>e \<in> set (entries m). evictable m e")
    case False
    then have "evict_lru m = Inr m" using evict_lru_cases[OF inv] by blast
    then show ?thesis using False ev assms by auto
  next
    case True
    with evict_lru_cases[OF inv] obtain e al pm where e: "e \<in> set (entries m)" "evictable m e"
      "\<forall>e' \<in> set (entries m). evictable m e' \<longrightarrow> pe_last_used e \<le> pe_last_used e'"
      "free (pe_block e) (bm_alloc m) = Inr al" "evict_lru m = Inr (m\<lparr>bm_alloc := al, bm_prefix := pm\<rparr>)"
      "distinct (map fst pm)" "mset (entries m) = add_mset e (mset (concat (map snd pm)))" by blast
    let ?m' = "m\<lparr>bm_alloc := al, bm_prefix := pm\<rparr>"
    note E = evict_block[OF inv e(1,2,4,6,7)]
    have "alloc_inv (bm_alloc m)" using inv by (simp add: bm_inv_def)
    from free_held[OF this, of "pe_block e"] e(2,4)
    have "free_list al = free_list (bm_alloc m) @ [pe_block e]" by (auto simp: evictable_def)
    then show ?thesis using E e ev sr evict_lru_geom[OF e(5)] True
      by (intro exI[of _ ?m']) (auto simp: seqs_inv_def entries_def free_blocks_def num_free_def)
  qed
qed

lemma evict_lru_victim_witness:
  "\<exists>m'. evict_lru cached_manager = Inr m' \<and> entries m' = [cached_entry 0 [7, 8] 5]
    \<and> free_blocks m' = free_blocks cached_manager + 1 \<and> last (free_list (bm_alloc m')) = 1"
proof -
  let ?a = "cached_entry 0 [7, 8] 5" and ?b = "cached_entry 1 [5, 6] 3"
  have ab: "?a \<noteq> ?b" "cache_refs cached_manager 0 = 1" "cache_refs cached_manager 1 = 1"
    "pe_block ?a = 0" "pe_block ?b = 1" "pe_last_used ?a = 5" "pe_last_used ?b = 3"
    by (simp_all add: cache_refs_def cached_entries cached_entry_def)
  from evict_lru_victim[OF cached_manager_inv] obtain m' where m: "evict_lru cached_manager = Inr m'"
    "\<exists>e \<in> {?a, ?b}. pe_last_used e \<le> 3 \<and> mset [?a, ?b] = add_mset e (mset (entries m'))
      \<and> free_blocks m' = free_blocks cached_manager + 1 \<and> last (free_list (bm_alloc m')) = pe_block e"
    by (auto simp: cached_entries ab)
  then have "mset (entries m') = {#?a#}" using ab by auto
  then show ?thesis using m ab by auto
qed

text \<open>C31: Prefix sharing is sound as long as the contexts in use have different hashes. Let
  \<open>Q c span b\<close> hold of every cached block: block \<open>b\<close> is \<open>span\<close>'s after the context \<open>c\<close>.
  Then a fresh sequence is given, for its leading tokens, blocks with exactly that
  property, as many as the cache has, and all references stay accounted for.\<close>

theorem acquire_sound:
  assumes "seqs_inv m ts" "bm_block_size m = int bs" "0 < bs" "cache_sound S Q m" "inj_on chain_hash S"
    and "\<forall>i < length tokens div bs. take i (full_spans bs tokens) \<in> S"
  shows "\<exists>k seq m'. acquire_shared_prefix no_blocks tokens m = Inr (int (k * bs), seq, m')
    \<and> seqs_inv m' (block_table seq # ts) \<and> seq_length seq = int (k * bs) \<and> length (block_table seq) = k
    \<and> k * bs \<le> length tokens
    \<and> (\<forall>i < k. Q (take i (full_spans bs tokens)) (full_spans bs tokens ! i) (block_table seq ! i))
    \<and> (\<forall>i. (\<forall>j < i. j < length tokens div bs \<and>
              cache_has m (take j (full_spans bs tokens)) (full_spans bs tokens ! j)) \<longrightarrow> i \<le> k)"
proof -
  have inv: "seqs_inv m (block_table no_blocks # ts)"
    using assms(1) by (simp add: seqs_inv_def no_blocks_def fun_eq_iff)
  from acquire_shared_prefix_ok[OF inv _ _ assms(2,3), of tokens] obtain k seq' m' where r:
    "acquire_shared_prefix no_blocks tokens m = Inr (int (k * bs), seq', m')" "k \<le> length tokens div bs"
    "seqs_inv m' (block_table seq' # ts)" "length (block_table seq') = k" "seq_length seq' = int (k * bs)"
    "\<forall>i. (\<forall>j < i. j < length tokens div bs \<and>
              cache_has m (take j (full_spans bs tokens)) (full_spans bs tokens ! j)) \<longrightarrow> i \<le> k"
    "\<forall>S Q. cache_sound S Q m \<longrightarrow> inj_on chain_hash S \<longrightarrow>
         (\<forall>i < length tokens div bs. take i (full_spans bs tokens) \<in> S) \<longrightarrow>
         (\<forall>i < k. Q (take i (full_spans bs tokens)) (full_spans bs tokens ! i) (block_table seq' ! i))"
    by (auto simp: no_blocks_def)
  have "k * bs \<le> length tokens" using r(2) assms(3) by (simp add: less_eq_div_iff_mult_less_eq)
  moreover have "\<forall>i < k. Q (take i (full_spans bs tokens)) (full_spans bs tokens ! i) (block_table seq' ! i)"
    using r(7) assms(4-6) by blast
  ultimately show ?thesis using r(1-6) by blast
qed

lemma acquire_sound_witness:
  "\<exists>k seq m'. acquire_shared_prefix no_blocks [5, 6, 7] cached_manager = Inr (int (k * 2), seq, m') \<and> 0 < k
    \<and> block_table seq ! 0 = 1 \<and> seqs_inv m' [block_table seq]"
proof -
  let ?Q = "\<lambda>(c :: int list list) span b. (b = 1 \<longleftrightarrow> span = [5, 6 :: int])"
  have s: "full_spans 2 [5, 6, 7] = [[5, 6]]" by code_simp
  have "cache_sound {[]} ?Q cached_manager"
    by (simp add: cache_sound_def cached_entries cached_entry_def chain_hash_def)
  from acquire_sound[OF cached_manager_inv _ _ this, of 2 "[5, 6, 7]"] obtain k seq m' where r:
    "acquire_shared_prefix no_blocks [5, 6, 7] cached_manager = Inr (int (k * 2), seq, m')" "seqs_inv m' [block_table seq]"
    "\<forall>i < k. ?Q (take i [[5, 6]]) ([[5, 6]] ! i) (block_table seq ! i)"
    "\<forall>i. (\<forall>j < i. j < 1 \<and> cache_has cached_manager (take j [[5, 6]]) ([[5, 6]] ! j)) \<longrightarrow> i \<le> k"
    by (auto simp: s cached_manager_def)
  have "chain_hash [[7, 8]] \<noteq> chain_hash [[5, 6]]" by code_simp
  then have "cache_has cached_manager [] [5, 6]"
    by (auto simp: cache_has_def cached_manager_def cached_entry_def entry_matches_def chain_hash_def)
  with r(4)[rule_format, of 1] have k: "0 < k" by simp
  with r(3) have "block_table seq ! 0 = 1" by force
  with r(1,2) k show ?thesis by blast
qed
text \<open>C32: What one sequence registers, a later one finds: after \<open>register_prefix\<close> over the
  blocks of a sequence, a fresh sequence whose first \<open>f\<close> blocks of tokens are the same
  acquires at least these \<open>f\<close> blocks, and no block is lost from the pool.\<close>

theorem register_then_acquire:
  assumes "seqs_inv m (block_table seq # ts)" "bm_block_size m = int bs" "0 < bs"
    and "f \<le> length (block_table seq)" "f * bs \<le> length tokens" "take (f * bs) tokens' = take (f * bs) tokens"
  shows "\<exists>m1 k seq2 m2. register_prefix seq tokens m = Inr m1 \<and> seqs_inv m1 (block_table seq # ts)
    \<and> acquire_shared_prefix no_blocks tokens' m1 = Inr (int (k * bs), seq2, m2) \<and> f \<le> k
    \<and> seqs_inv m2 (block_table seq2 # block_table seq # ts) \<and> length (block_table seq2) = k
    \<and> free_blocks m2 = free_blocks m"
proof -
  from register_prefix_ok[OF assms(1) _ assms(2,3), of seq tokens] obtain m1 where m1:
    "register_prefix seq tokens m = Inr m1" "seqs_inv m1 (block_table seq # ts)"
    "\<forall>i < min (length (block_table seq)) (length tokens div bs).
         cache_has m1 (take i (full_spans bs tokens)) (full_spans bs tokens ! i)"
    "free_list (bm_alloc m1) = free_list (bm_alloc m)" "bm_block_size m1 = bm_block_size m" by auto
  have inv: "seqs_inv m1 (block_table no_blocks # block_table seq # ts)"
    using m1(2) by (simp add: seqs_inv_def no_blocks_def fun_eq_iff)
  from acquire_shared_prefix_ok[OF inv _ _ _ assms(3), of tokens'] m1(5) assms(2) obtain k seq2 m2 where r:
    "acquire_shared_prefix no_blocks tokens' m1 = Inr (int (k * bs), seq2, m2)"
    "seqs_inv m2 (block_table seq2 # block_table seq # ts)" "length (block_table seq2) = k"
    "\<forall>i. (\<forall>j < i. j < length tokens' div bs \<and>
              cache_has m1 (take j (full_spans bs tokens')) (full_spans bs tokens' ! j)) \<longrightarrow> i \<le> k"
    "num_free (bm_alloc m2) = num_free (bm_alloc m1)" by (auto simp: no_blocks_def)
  have len: "f * bs \<le> length tokens'"
    using arg_cong[OF assms(6), of length] assms(5) by simp
  have div: "f \<le> length tokens div bs" "f \<le> length tokens' div bs"
    using assms(3,5) len by (simp_all add: less_eq_div_iff_mult_less_eq)
  have row_eq: "row bs i tokens' = row bs i tokens" if "i < f" for i
  proof -
    have "row bs i xs = row bs i (take (f * bs) xs)" if "f * bs \<le> length xs" for xs :: "int list"
      using that row_append1[of f bs "take (f * bs) xs" i "drop (f * bs) xs"] \<open>i < f\<close> by simp
    then show ?thesis using len assms(5,6) by metis
  qed
  have spans: "take i (full_spans bs tokens') = take i (full_spans bs tokens)" if "i \<le> f" for i
    by (rule nth_equalityI) (use that div row_eq in \<open>auto simp: full_spans_def\<close>)
  have "j < length tokens' div bs \<and> cache_has m1 (take j (full_spans bs tokens')) (full_spans bs tokens' ! j)"
    if "j < f" for j
    using that m1(3) assms(4) div spans[of j] row_eq[of j] by (simp add: full_spans_def)
  then have "f \<le> k" using r(4) by blast
  then show ?thesis using m1 r by (auto simp: free_blocks_def num_free_def)
qed

lemma register_then_acquire_witness:
  "\<exists>m seq m1 k seq2 m2. register_prefix seq [1, 2, 3, 4] m = Inr m1
    \<and> acquire_shared_prefix no_blocks [1, 2, 3, 9, 9] m1 = Inr (int (k * 2), seq2, m2) \<and> 1 \<le> k"
proof -
  from bm_new_ok[of 1 1 2 2] obtain m0 where m0: "bm_new 1 1 2 2 = Inr m0" "seqs_inv m0 []" "bm_shape 2 1 2 1 m0"
    "bm_avail m0 = 2" by auto
  have inv: "seqs_inv m0 (block_table no_blocks # [])"
    using m0(2) by (simp add: seqs_inv_def no_blocks_def fun_eq_iff)
  have "blocks_needed m0 no_blocks 4 = 2"
    using bm_shapeD(1)[OF m0(3)] by (simp add: blocks_needed_def blocks_for_def no_blocks_def)
  with reserve_some[OF inv, of 4] m0(4) obtain new m where
    m: "reserve no_blocks 4 m0 = Inr (no_blocks\<lparr>block_table := block_table no_blocks @ new\<rparr>, m)"
    "seqs_inv m (block_table (no_blocks\<lparr>block_table := new\<rparr>) # [])" "length new = 2" by (auto simp: no_blocks_def)
  have "bm_block_size m = int 2" using reserve_geom[OF m(1)] bm_shapeD(1)[OF m0(3)] by (simp add: bm_geom_def)
  from register_then_acquire[OF m(2) this, of 1 "[1, 2, 3, 4]" "[1, 2, 3, 9, 9]"] m(3)
  show ?thesis by force
qed

definition collide_a :: "int list" where
  "collide_a = [36498, 4915, 61302, 8204, 1597, 22679, 11544, 15711]"

definition collide_b :: "int list" where
  "collide_b = [29847, 12593, 58113, 8463, 1292, 23956, 8715, 15940]"

text \<open>Sharing is not collision-free. Two different blocks of eight valid tokens have the
  same context hash; after both prefixes are registered, a prompt that continues the
  second one with the tokens that follow the first is given the first one's block (here
  block 1), whose keys and values were computed after other tokens.\<close>

theorem prefix_sharing_collision:
  "collide_a \<noteq> collide_b \<and>
   res_bind (bm_new 1 1 8 4) (\<lambda>m. res_bind (reserve no_blocks 16 m) (\<lambda>(s1, m).
   res_bind (register_prefix s1 (collide_a @ [1, 2, 3, 4, 5, 6, 7, 8]) m) (\<lambda>m.
   res_bind (reserve no_blocks 8 m) (\<lambda>(s2, m).
   res_bind (register_prefix s2 collide_b m) (\<lambda>m.
   res_bind (acquire_shared_prefix no_blocks (collide_b @ [1, 2, 3, 4, 5, 6, 7, 8]) m) (\<lambda>(k, s3, m).
     Inr (block_table s1, block_table s2, k, block_table s3))))))) = Inr ([0, 1], [2], 16, [2, 1])"
  by code_simp

text \<open>Nothing leaks. Whatever was shared and registered, freeing every sequence and
  clearing the cache returns the whole pool.\<close>

theorem free_all_and_clear:
  assumes "seqs_inv m (map block_table ss)"
  shows "\<exists>m1 m2. res_fold (\<lambda>s m. res_bind (bm_free s m) (\<lambda>(_, m). Inr m)) ss m = Inr m1
    \<and> clear_prefix_cache m1 = Inr m2 \<and> free_blocks m2 = num_blocks (bm_alloc m)
    \<and> num_blocks (bm_alloc m2) = num_blocks (bm_alloc m) \<and> bm_prefix m2 = []"
proof -
  have drain: "\<exists>m1. res_fold (\<lambda>s m. res_bind (bm_free s m) (\<lambda>(_, m). Inr m)) ss m = Inr m1 \<and> seqs_inv m1 us
      \<and> num_blocks (bm_alloc m1) = num_blocks (bm_alloc m)" if "seqs_inv m (map block_table ss @ us)" for us
    using that
  proof (induction ss arbitrary: m)
    case (Cons s ss)
    then have "seqs_inv m (block_table s # (map block_table ss @ us))" by simp
    from bm_free_ok[OF this] obtain m1 where m1:
      "bm_free s m = Inr (s\<lparr>block_table := [], seq_length := 0\<rparr>, m1)" "seqs_inv m1 ([] # (map block_table ss @ us))"
      "num_blocks (bm_alloc m1) = num_blocks (bm_alloc m)" by blast
    then have "seqs_inv m1 (map block_table ss @ us)" by (simp add: seqs_inv_def fun_eq_iff)
    from Cons.IH[OF this] m1 show ?case by auto
  qed simp
  from drain[of "[]"] assms obtain m1 where m1:
    "res_fold (\<lambda>s m. res_bind (bm_free s m) (\<lambda>(_, m). Inr m)) ss m = Inr m1" "seqs_inv m1 []"
    "num_blocks (bm_alloc m1) = num_blocks (bm_alloc m)" by auto
  from clear_prefix_cache_ok[OF m1(2)] obtain m2 where m2: "clear_prefix_cache m1 = Inr m2" "seqs_inv m2 []"
    "bm_prefix m2 = []" "num_blocks (bm_alloc m2) = num_blocks (bm_alloc m1)" by auto
  show ?thesis using m1 m2 nothing_held_all_free[OF m2(2) _ m2(3)] by auto
qed

lemma free_all_and_clear_witness:
  "\<exists>m m1 m2. bm_new 1 1 2 5 = Inr m \<and> res_fold (\<lambda>s m. res_bind (bm_free s m) (\<lambda>(_, m). Inr m)) [no_blocks] m = Inr m1
    \<and> clear_prefix_cache m1 = Inr m2 \<and> free_blocks m2 = 5"
proof -
  from bm_new_ok[of 1 1 2 5] obtain m where m: "bm_new 1 1 2 5 = Inr m" "seqs_inv m []" "bm_shape 2 1 5 1 m" by auto
  have "seqs_inv m (map block_table [no_blocks])"
    using m(2) by (simp add: seqs_inv_def no_blocks_def fun_eq_iff)
  from free_all_and_clear[OF this] m bm_shapeD(5)[OF m(3)] show ?thesis by auto
qed

end
