(* ===== verification/Batch_Forward.thy ===== *)
theory Batch_Forward
  imports Model_Batch Prefix_Cache
begin

text \<open>
  The whole of \<open>forward_batch\<close>: growing the tables of the items (\<open>gather_item\<close>), the layers,
  the commit and the logits of the last rows. The store of sequences is described by the
  list \<open>as\<close> of its addresses; \<open>store_inv\<close> says that the tables at these addresses hold all
  the references of the manager.
\<close>

section \<open>The store\<close>

definition store_tables :: "seq_store \<Rightarrow> int list \<Rightarrow> int list list" where
  "store_tables st as = map (\<lambda>a. block_table (the (st a))) as"

definition store_inv :: "seq_store \<Rightarrow> int list \<Rightarrow> block_manager \<Rightarrow> bool" where
  "store_inv st as mgr \<longleftrightarrow> distinct as \<and> seqs_inv mgr (store_tables st as)"

lemma held_mset: "held ts b = sum_mset (image_mset (\<lambda>t. count_list t b) (mset ts))"
  by (induction ts) simp_all

lemma seqs_inv_mset: "mset ts = mset us \<Longrightarrow> seqs_inv m ts = seqs_inv m us"
  by (simp add: seqs_inv_def held_mset fun_eq_iff)

lemma store_tables_pick:
  assumes "a \<in> set as"
  shows "mset (store_tables st as) = mset (block_table (the (st a)) # store_tables st (remove1 a as))"
proof -
  let ?f = "\<lambda>a. block_table (the (st a))"
  have "mset as = add_mset a (mset (remove1 a as))" using assms by simp
  from arg_cong[OF this, of "image_mset ?f"] show ?thesis
    unfolding image_mset_add_mset store_tables_def mset.simps(2) mset_map .
qed

lemma store_tables_upd: "a \<notin> set as \<Longrightarrow> store_tables (st(a \<mapsto> blk)) as = store_tables st as"
  by (simp add: store_tables_def)

text \<open>One sequence against the others.\<close>

lemma store_inv_pick:
  assumes "store_inv st as mgr" "a \<in> set as" "st a = Some blk"
  shows "seqs_inv mgr (block_table blk # store_tables st (remove1 a as))"
  using assms seqs_inv_mset[OF store_tables_pick[of a as st], of mgr] by (simp add: store_inv_def)

lemma store_inv_put:
  assumes "store_inv st as mgr" "a \<in> set as" "seqs_inv mgr' (block_table blk # store_tables st (remove1 a as))"
  shows "store_inv (st(a \<mapsto> blk)) as mgr'"
proof -
  have d: "distinct as" using assms(1) by (simp add: store_inv_def)
  then have "a \<notin> set (remove1 a as)" by simp
  then have "store_tables (st(a \<mapsto> blk)) (remove1 a as) = store_tables st (remove1 a as)" by (rule store_tables_upd)
  then show ?thesis
    using assms(2,3) d seqs_inv_mset[OF store_tables_pick[OF assms(2), of "st(a \<mapsto> blk)"], of mgr'] by (simp add: store_inv_def)
qed

lemma store_inv_table_ok:
  assumes "store_inv st as mgr" "a \<in> set as" "st a = Some blk" "bm_shape bs w nb nl mgr"
  shows "table_ok nb (block_table blk)"
  using seqs_inv_table_ok[OF store_inv_pick[OF assms(1-3)] _ bm_shapeD(5)[OF assms(4)]] by simp

text \<open>A block with one reference by sequences is in no other table.\<close>

lemma store_inv_sep:
  assumes "store_inv st as mgr" "a \<in> set as" "a' \<in> set as" "a \<noteq> a'" "st a = Some blk" "st a' = Some blk'"
    and "b \<in> set (block_table blk)" "seq_refs mgr b = 1"
  shows "b \<notin> set (block_table blk')"
proof
  assume b: "b \<in> set (block_table blk')"
  have d: "distinct as" using assms(1) by (simp add: store_inv_def)
  have "block_table blk' \<in> set (store_tables st (remove1 a as))"
    using assms(3,4,6) d by (force simp: store_tables_def)
  then have "0 < held (store_tables st (remove1 a as)) b" using b by (auto simp: held_pos)
  moreover have "0 < count_list (block_table blk) b" using assms(7) by (simp add: count_list_0_iff flip: neq0_conv)
  moreover have "seq_refs mgr b = held (block_table blk # store_tables st (remove1 a as)) b"
    using store_inv_pick[OF assms(1,2,5)] by (simp add: seqs_inv_def)
  ultimately show False using assms(8) by simp
qed

section \<open>Allocation and the cache\<close>

text \<open>A block is private when one sequence holds it, once, and the cache does not.\<close>

definition priv :: "block_manager \<Rightarrow> int \<Rightarrow> bool" where
  "priv m b \<longleftrightarrow> seq_refs m b = 1 \<and> cache_refs m b = 0"

lemma cache_refs_mono: "mset (entries m') \<subseteq># mset (entries m) \<Longrightarrow> cache_refs m' b \<le> cache_refs m b"
  by (simp add: cache_refs_mset size_mset_mono multiset_filter_mono)

lemma allocate_block_cache:
  assumes "bm_inv m" "allocate_block m = Inr (b, m')"
  shows "mset (entries m') \<subseteq># mset (entries m) \<and> cache_refs m' b = 0"
proof -
  have fresh: "mset (entries (n\<lparr>bm_alloc := al\<rparr>)) = mset (entries n) \<and> cache_refs (n\<lparr>bm_alloc := al\<rparr>) b = 0"
    if "bm_inv n" "allocate (bm_alloc n) = Inr (b, al)" for n al
  proof -
    have ai: "alloc_inv (bm_alloc n)" using that(1) by (simp add: bm_inv_def)
    have "free_list (bm_alloc n) \<noteq> []" using that(2) by (auto simp: allocate_def num_free_def split: if_splits)
    from allocate_some[OF ai this] that(2) have "refs_of (bm_alloc n) b = 0" by auto
    then show ?thesis using bm_inv_cache_refs[OF that(1), of b] by simp
  qed
  show ?thesis
  proof (cases "num_free (bm_alloc m) = 0")
    case False
    then obtain al where "allocate (bm_alloc m) = Inr (b, al)" "m' = m\<lparr>bm_alloc := al\<rparr>"
      using assms(2) by (auto simp: allocate_block_def res_bind_eq_Inr)
    then show ?thesis using fresh[OF assms(1)] by simp
  next
    case True
    then obtain n al where n: "evict_lru m = Inr n" "allocate (bm_alloc n) = Inr (b, al)" "m' = n\<lparr>bm_alloc := al\<rparr>"
      using assms(2) by (auto simp: allocate_block_def res_bind_eq_Inr)
    have "bm_inv n \<and> mset (entries n) \<subseteq># mset (entries m)"
      using evict_lru_cases[OF assms(1)]
    proof (elim disjE exE conjE)
      fix e al' pm
      assume e: "e \<in> set (entries m)" "evictable m e" "free (pe_block e) (bm_alloc m) = Inr al'"
        "evict_lru m = Inr (m\<lparr>bm_alloc := al', bm_prefix := pm\<rparr>)" "distinct (map fst pm)"
        "mset (entries m) = add_mset e (mset (concat (map snd pm)))"
      then show ?thesis using evict_block[OF assms(1) e(1,2,3,5,6)] n(1) by (auto simp: entries_def)
    qed (use n(1) assms(1) in auto)
    then show ?thesis using fresh[OF _ n(2)] n(3) by auto
  qed
qed

lemma grow_cache:
  assumes "bm_inv m" "k \<le> bm_avail m" "grow allocate_block k t m = Inr (t', m')"
  shows "\<exists>new. t' = t @ new \<and> mset (entries m') \<subseteq># mset (entries m) \<and> (\<forall>b \<in> set new. cache_refs m' b = 0)"
  using assms
proof (induction k arbitrary: t m)
  case (Suc k)
  from Suc.prems(3) obtain b m1 where s: "allocate_block m = Inr (b, m1)" "grow allocate_block k (t @ [b]) m1 = Inr (t', m')"
    by (auto simp: res_bind_eq_Inr)
  from allocate_block_some[OF Suc.prems(1)] Suc.prems(2) s(1) have i1: "bm_inv m1" "bm_avail m1 = bm_avail m - 1" by auto
  have "k \<le> bm_avail m1" using i1(2) Suc.prems(2) by simp
  from Suc.IH[OF i1(1) this s(2)] obtain new where
    new: "t' = (t @ [b]) @ new" "mset (entries m') \<subseteq># mset (entries m1)" "\<forall>b \<in> set new. cache_refs m' b = 0" by auto
  note c = allocate_block_cache[OF Suc.prems(1) s(1)]
  have "cache_refs m' b = 0" using cache_refs_mono[OF new(2), of b] c by simp
  then show ?case using new c by (intro exI[of _ "b # new"]) (auto intro: subset_mset.order_trans)
qed simp

lemma reserve_priv:
  assumes "seqs_inv m (block_table seq # ts)" "blocks_needed m seq n \<le> bm_avail m"
  shows "\<exists>new m'. reserve seq n m = Inr (seq\<lparr>block_table := block_table seq @ new\<rparr>, m')
    \<and> seqs_inv m' ((block_table seq @ new) # ts) \<and> length new = blocks_needed m seq n \<and> distinct (new)
    \<and> (\<forall>b \<in> set new. priv m' b \<and> held (block_table seq # ts) b = 0) \<and> (\<forall>b. priv m b \<longrightarrow> priv m' b)
    \<and> mset (entries m') \<subseteq># mset (entries m)
    \<and> num_blocks (bm_alloc m') = num_blocks (bm_alloc m) \<and> bm_avail m' = bm_avail m - blocks_needed m seq n"
proof -
  from reserve_some[OF assms] obtain new m' where r: "reserve seq n m = Inr (seq\<lparr>block_table := block_table seq @ new\<rparr>, m')"
    "seqs_inv m' ((block_table seq @ new) # ts)" "length new = blocks_needed m seq n" "distinct new"
    "\<forall>b \<in> set new. held (block_table seq # ts) b = 0"
    "num_blocks (bm_alloc m') = num_blocks (bm_alloc m)" "bm_avail m' = bm_avail m - blocks_needed m seq n" by blast
  have bi: "bm_inv m" using assms(1) by (simp add: seqs_inv_def)
  have "grow allocate_block (blocks_needed m seq n) (block_table seq) m = Inr (block_table seq @ new, m')"
    using r(1) by (auto simp: reserve_def grow_to_def blocks_needed_def res_bind_eq_Inr dest!: arg_cong[of _ _ block_table])
  from grow_cache[OF bi assms(2) this] have c: "mset (entries m') \<subseteq># mset (entries m)" "\<forall>b \<in> set new. cache_refs m' b = 0" by auto
  have sr: "seq_refs m = held (block_table seq # ts)" "seq_refs m' = held ((block_table seq @ new) # ts)"
    using assms(1) r(2) by (simp_all add: seqs_inv_def)
  have "priv m' b" if "b \<in> set new" for b
    using that c(2) r(5) sr count_list_distinct[OF r(4), of b] by (simp add: priv_def)
  moreover have "priv m' b" if "priv m b" for b
  proof -
    have "b \<notin> set new" using that r(5) sr(1) by (auto simp: priv_def)
    then have "seq_refs m' b = seq_refs m b" using sr by (simp add: count_list_0_iff)
    then show ?thesis using that cache_refs_mono[OF c(1), of b] by (simp add: priv_def)
  qed
  ultimately show ?thesis using r c by blast
qed

section \<open>Growing the tables of a batch\<close>

text \<open>The blocks that \<open>n\<close> tokens need.\<close>

definition nblk :: "nat \<Rightarrow> nat \<Rightarrow> nat" where
  "nblk bs n = (n + bs - 1) div bs"

lemma nblk_int:
  assumes "0 < bs"
  shows "int (nblk bs n) = (int n + int bs - 1) div int bs"
proof -
  have "int (n + bs - 1) = int n + int bs - 1" using assms by simp
  then show ?thesis by (simp add: nblk_def zdiv_int)
qed

lemma nblk_le_iff: "0 < bs \<Longrightarrow> nblk bs n \<le> k \<longleftrightarrow> n \<le> k * bs"
  using ceil_div_le_iff[of "int bs" "int n" "int k"] nblk_int[of bs n]
  by (metis of_nat_0_less_iff of_nat_le_iff of_nat_mult)

lemma nblk_covers: "0 < bs \<Longrightarrow> n \<le> nblk bs n * bs"
  using nblk_le_iff[of bs n "nblk bs n"] by simp

lemma blocks_for_nblk: "bm_block_size m = int bs \<Longrightarrow> 0 < bs \<Longrightarrow> blocks_for m (int n) = int (nblk bs n)"
  by (simp add: blocks_for_def nblk_int)

definition job_blk :: "bjob \<Rightarrow> sequence_blocks" where
  "job_blk j = \<lparr>block_table = bj_table j, seq_length = int (bj_past j)\<rparr>"

definition job_item :: "bjob \<Rightarrow> batch_item" where
  "job_item j = \<lparr>bi_blocks = Some (bj_addr j), bi_tokens = bj_toks j\<rparr>"

definition job_need :: "nat \<Rightarrow> bjob \<Rightarrow> nat" where
  "job_need bs j = nblk bs (bj_past j + bj_len j) - length (bj_table j)"

definition priv_from :: "nat \<Rightarrow> block_manager \<Rightarrow> nat \<Rightarrow> int list \<Rightarrow> bool" where
  "priv_from bs m p t \<longleftrightarrow> (\<forall>i < length t. p div bs \<le> i \<longrightarrow> priv m (t ! i))"

definition job_ready :: "nat \<Rightarrow> block_manager \<Rightarrow> seq_store \<Rightarrow> bjob \<Rightarrow> bool" where
  "job_ready bs m st j \<longleftrightarrow> st (bj_addr j) = Some (job_blk j) \<and> bj_toks j \<noteq> [] \<and> priv_from bs m (bj_past j) (bj_table j)"

definition job_grown :: "nat \<Rightarrow> bjob \<Rightarrow> bjob \<Rightarrow> bool" where
  "job_grown bs j j' \<longleftrightarrow> (\<exists>new. j' = j\<lparr>bj_table := bj_table j @ new\<rparr> \<and> length new = job_need bs j)"

fun store_put :: "bjob list \<Rightarrow> seq_store \<Rightarrow> seq_store" where
  "store_put [] st = st"
| "store_put (j # js) st = store_put js (st(bj_addr j \<mapsto> job_blk j))"

lemma store_put_other: "a \<notin> bj_addr ` set js \<Longrightarrow> store_put js st a = st a"
  by (induction js arbitrary: st) auto

lemma store_put_at: "distinct (map bj_addr js) \<Longrightarrow> j \<in> set js \<Longrightarrow> store_put js st (bj_addr j) = Some (job_blk j)"
proof (induction js arbitrary: st)
  case (Cons k js)
  show ?case
  proof (cases "j = k")
    case True
    then have "bj_addr j \<notin> bj_addr ` set js" using Cons.prems(1) by auto
    then show ?thesis using True by (simp add: store_put_other)
  qed (use Cons in auto)
qed simp

lemma job_grown_len:
  assumes "job_grown bs j j'" "0 < bs"
  shows "bj_addr j' = bj_addr j" "bj_toks j' = bj_toks j" "bj_past j' = bj_past j"
    "length (bj_table j') = max (length (bj_table j)) (nblk bs (bj_past j + bj_len j))"
    "bj_past j' + bj_len j' \<le> length (bj_table j') * bs" "take (length (bj_table j)) (bj_table j') = bj_table j"
proof -
  from assms(1) obtain new where n: "j' = j\<lparr>bj_table := bj_table j @ new\<rparr>" "length new = job_need bs j"
    by (auto simp: job_grown_def)
  then show "bj_addr j' = bj_addr j" "bj_toks j' = bj_toks j" "bj_past j' = bj_past j"
    "take (length (bj_table j)) (bj_table j') = bj_table j" by simp_all
  from n show l: "length (bj_table j') = max (length (bj_table j)) (nblk bs (bj_past j + bj_len j))"
    by (simp add: job_need_def)
  then show "bj_past j' + bj_len j' \<le> length (bj_table j') * bs"
    using nblk_le_iff[OF assms(2), of "bj_past j + bj_len j" "length (bj_table j')"] n(1) by simp
qed

lemma gather_item_ok:
  assumes st: "store_inv st as mgr" and sh: "bm_shape bs w nb nl mgr" and a: "bj_addr j \<in> set as"
    and rd: "job_ready bs mgr st j" and need: "job_need bs j \<le> bm_avail mgr"
  shows "\<exists>j' mgr'. gather_item (job_item j) (ids, ps, sl, int off, st, mgr)
      = Inr (ids @ bj_toks j, ps @ job_positions j, sl @ job_slots off [j], int (off + bj_len j), st(bj_addr j \<mapsto> job_blk j'), mgr')
    \<and> job_grown bs j j' \<and> store_inv (st(bj_addr j \<mapsto> job_blk j')) as mgr' \<and> bm_shape bs w nb nl mgr' \<and> bm_geom mgr' = bm_geom mgr
    \<and> mset (entries mgr') \<subseteq># mset (entries mgr) \<and> (\<forall>b. priv mgr b \<longrightarrow> priv mgr' b)
    \<and> bm_avail mgr' = bm_avail mgr - job_need bs j \<and> priv_from bs mgr' (bj_past j) (bj_table j')"
proof -
  have b: "st (bj_addr j) = Some (job_blk j)" "bj_toks j \<noteq> []" "priv_from bs mgr (bj_past j) (bj_table j)"
    using rd by (simp_all add: job_ready_def)
  note D = bm_shapeD[OF sh]
  have inv: "seqs_inv mgr (block_table (job_blk j) # store_tables st (remove1 (bj_addr j) as))"
    by (rule store_inv_pick[OF st a b(1)])
  have nd: "blocks_needed mgr (job_blk j) (int (bj_len j)) = job_need bs j"
    using blocks_for_nblk[OF D(1,2), of "bj_past j + bj_len j"] by (simp add: blocks_needed_def job_blk_def job_need_def)
  from reserve_priv[OF inv] nd need obtain new mgr' where
    r: "reserve (job_blk j) (int (bj_len j)) mgr = Inr (job_blk j\<lparr>block_table := block_table (job_blk j) @ new\<rparr>, mgr')"
    "seqs_inv mgr' ((block_table (job_blk j) @ new) # store_tables st (remove1 (bj_addr j) as))" "length new = job_need bs j"
    "distinct new" "\<forall>b \<in> set new. priv mgr' b \<and> held (block_table (job_blk j) # store_tables st (remove1 (bj_addr j) as)) b = 0"
    "\<forall>b. priv mgr b \<longrightarrow> priv mgr' b" "mset (entries mgr') \<subseteq># mset (entries mgr)"
    "num_blocks (bm_alloc mgr') = num_blocks (bm_alloc mgr)" "bm_avail mgr' = bm_avail mgr - job_need bs j" by metis
  define j' where "j' = j\<lparr>bj_table := bj_table j @ new\<rparr>"
  have jb: "job_blk j\<lparr>block_table := block_table (job_blk j) @ new\<rparr> = job_blk j'" by (simp add: job_blk_def j'_def)
  have g: "job_grown bs j j'" using r(3) by (auto simp: job_grown_def j'_def)
  have geo: "bm_geom mgr' = bm_geom mgr" by (rule reserve_geom[OF r(1)])
  have si: "store_inv (st(bj_addr j \<mapsto> job_blk j')) as mgr'"
    using r(2) by (intro store_inv_put[OF st a]) (simp add: job_blk_def j'_def)
  have pf: "priv_from bs mgr' (bj_past j) (bj_table j')"
    using b(3) r(5,6) by (auto simp: priv_from_def j'_def nth_append)
  have "gather_item (job_item j) (ids, ps, sl, int off, st, mgr)
      = Inr (ids @ bj_toks j, ps @ job_positions j, sl @ job_slots off [j], int (off + bj_len j), st(bj_addr j \<mapsto> job_blk j'), mgr')"
    using b(1,2) r(1) jb
    by (simp add: gather_item_def job_item_def deref_def job_positions_def Let_def) (simp add: job_blk_def)
  then show ?thesis
    using g si bm_shape_geom[OF sh geo r(8)] geo r(6,7,9) pf by blast
qed

lemma job_slots_append: "job_slots off (js @ ks) = job_slots off js @ job_slots (off + job_lens js) ks"
  by (induction js arbitrary: off) (simp_all add: add.assoc)

lemma gather_items_ok:
  "store_inv st as mgr \<Longrightarrow> bm_shape bs w nb nl mgr \<Longrightarrow> distinct (map bj_addr js) \<Longrightarrow> bj_addr ` set js \<subseteq> set as \<Longrightarrow>
   (\<forall>j \<in> set js. job_ready bs mgr st j) \<Longrightarrow> sum_list (map (job_need bs) js) \<le> bm_avail mgr \<Longrightarrow>
   \<exists>js' mgr'. res_fold gather_item (map job_item js) (ids, ps, sl, int off, st, mgr)
      = Inr (ids @ concat (map bj_toks js'), ps @ concat (map job_positions js'), sl @ job_slots off js',
             int (off + job_lens js'), store_put js' st, mgr')
    \<and> list_all2 (job_grown bs) js js' \<and> store_inv (store_put js' st) as mgr' \<and> bm_shape bs w nb nl mgr' \<and> bm_geom mgr' = bm_geom mgr
    \<and> mset (entries mgr') \<subseteq># mset (entries mgr) \<and> (\<forall>b. priv mgr b \<longrightarrow> priv mgr' b)
    \<and> bm_avail mgr' = bm_avail mgr - sum_list (map (job_need bs) js)
    \<and> (\<forall>j \<in> set js'. priv_from bs mgr' (bj_past j) (bj_table j))"
proof (induction js arbitrary: ids ps sl off st mgr)
  case Nil
  then show ?case by (intro exI[of _ "[]"] exI[of _ mgr]) simp
next
  case (Cons j js)
  have a: "bj_addr j \<in> set as" "job_ready bs mgr st j" "job_need bs j \<le> bm_avail mgr" using Cons.prems(4-6) by auto
  have bs: "0 < bs" by (rule bm_shapeD(2)[OF Cons.prems(2)])
  from gather_item_ok[OF Cons.prems(1,2) a, of ids ps sl off] obtain j' m1 where
    r: "gather_item (job_item j) (ids, ps, sl, int off, st, mgr)
      = Inr (ids @ bj_toks j, ps @ job_positions j, sl @ job_slots off [j], int (off + bj_len j), st(bj_addr j \<mapsto> job_blk j'), m1)"
    "job_grown bs j j'" "store_inv (st(bj_addr j \<mapsto> job_blk j')) as m1" "bm_shape bs w nb nl m1" "bm_geom m1 = bm_geom mgr"
    "mset (entries m1) \<subseteq># mset (entries mgr)" "\<forall>b. priv mgr b \<longrightarrow> priv m1 b"
    "bm_avail m1 = bm_avail mgr - job_need bs j" "priv_from bs m1 (bj_past j) (bj_table j')" by blast
  note g = job_grown_len[OF r(2) bs]
  have rd: "\<forall>k \<in> set js. job_ready bs m1 (st(bj_addr j \<mapsto> job_blk j')) k"
  proof
    fix k assume k: "k \<in> set js"
    then have "bj_addr k \<noteq> bj_addr j" using Cons.prems(3) by (metis distinct.simps(2) imageI list.map(2) set_map)
    then show "job_ready bs m1 (st(bj_addr j \<mapsto> job_blk j')) k"
      using Cons.prems(5) r(7) k by (simp add: job_ready_def priv_from_def)
  qed
  have IH: "\<exists>js' mgr'. res_fold gather_item (map job_item js)
        (ids @ bj_toks j, ps @ job_positions j, sl @ job_slots off [j], int (off + bj_len j), st(bj_addr j \<mapsto> job_blk j'), m1)
      = Inr ((ids @ bj_toks j) @ concat (map bj_toks js'), (ps @ job_positions j) @ concat (map job_positions js'),
             (sl @ job_slots off [j]) @ job_slots (off + bj_len j) js',
             int ((off + bj_len j) + job_lens js'), store_put js' (st(bj_addr j \<mapsto> job_blk j')), mgr')
    \<and> list_all2 (job_grown bs) js js' \<and> store_inv (store_put js' (st(bj_addr j \<mapsto> job_blk j'))) as mgr' \<and> bm_shape bs w nb nl mgr'
    \<and> bm_geom mgr' = bm_geom m1 \<and> mset (entries mgr') \<subseteq># mset (entries m1) \<and> (\<forall>b. priv m1 b \<longrightarrow> priv mgr' b)
    \<and> bm_avail mgr' = bm_avail m1 - sum_list (map (job_need bs) js)
    \<and> (\<forall>j \<in> set js'. priv_from bs mgr' (bj_past j) (bj_table j))"
    using Cons.prems(3,4,6) r(8) by (intro Cons.IH[OF r(3,4) _ _ rd]) auto
  then obtain js' m2 where s: "res_fold gather_item (map job_item js)
        (ids @ bj_toks j, ps @ job_positions j, sl @ job_slots off [j], int (off + bj_len j), st(bj_addr j \<mapsto> job_blk j'), m1)
      = Inr ((ids @ bj_toks j) @ concat (map bj_toks js'), (ps @ job_positions j) @ concat (map job_positions js'),
             (sl @ job_slots off [j]) @ job_slots (off + bj_len j) js',
             int ((off + bj_len j) + job_lens js'), store_put js' (st(bj_addr j \<mapsto> job_blk j')), m2)"
    "list_all2 (job_grown bs) js js'" "store_inv (store_put js' (st(bj_addr j \<mapsto> job_blk j'))) as m2" "bm_shape bs w nb nl m2"
    "bm_geom m2 = bm_geom m1" "mset (entries m2) \<subseteq># mset (entries m1)" "\<forall>b. priv m1 b \<longrightarrow> priv m2 b"
    "bm_avail m2 = bm_avail m1 - sum_list (map (job_need bs) js)"
    "\<forall>j \<in> set js'. priv_from bs m2 (bj_past j) (bj_table j)" by blast
  have pos: "job_positions j' = job_positions j" using g(2,3) by (simp add: job_positions_def)
  have pf: "priv_from bs m2 (bj_past j') (bj_table j')" using r(9) s(7) g(3) by (simp add: priv_from_def)
  have "bm_avail m2 = bm_avail mgr - sum_list (map (job_need bs) (j # js))" using s(8) r(8) by simp
  then show ?case
    using r s g(1-3) pos pf
    by (intro exI[of _ "j' # js'"] exI[of _ m2]) (auto simp: add.assoc intro: subset_mset.order_trans)
qed

section \<open>Commit and last rows\<close>

definition job_done :: "bjob \<Rightarrow> bjob" where
  "job_done j = j\<lparr>bj_past := bj_past j + bj_len j\<rparr>"

lemma job_done_simps [simp]:
  "bj_addr (job_done j) = bj_addr j" "bj_toks (job_done j) = bj_toks j" "bj_table (job_done j) = bj_table j"
  by (simp_all add: job_done_def)

lemma commit_items_ok:
  "distinct (map bj_addr js) \<Longrightarrow> \<forall>j \<in> set js. st (bj_addr j) = Some (job_blk j) \<Longrightarrow>
   res_fold commit_item (job_slots off js) st = Inr (store_put (map job_done js) st)"
proof (induction js arbitrary: off st)
  case (Cons j js)
  let ?st = "st(bj_addr j \<mapsto> job_blk (job_done j))"
  have "bj_addr k \<noteq> bj_addr j" if "k \<in> set js" for k using Cons.prems(1) that by (metis distinct.simps(2) imageI list.map(2) set_map)
  then have "\<forall>k \<in> set js. ?st (bj_addr k) = Some (job_blk k)" using Cons.prems(2) by auto
  then have IH: "res_fold commit_item (job_slots (off + bj_len j) js) ?st = Inr (store_put (map job_done js) ?st)"
    using Cons.prems(1) by (intro Cons.IH) auto
  have "commit (job_blk j) (int (bj_len j)) = job_blk (job_done j)"
    by (simp add: commit_def job_blk_def job_done_def)
  then have "commit_item \<lparr>it_addr = bj_addr j, it_offset = int off, it_len = int (bj_len j), it_past = int (bj_past j)\<rparr> st = Inr ?st"
    using Cons.prems(2) by (simp add: commit_item_def deref_def)
  then show ?case using IH by simp
qed simp

lemma res_fold_map: "res_fold f (map g xs) s = res_fold (\<lambda>x. f (g x)) xs s"
  by (induction xs arbitrary: s) (auto intro: res_bind_cong)

lemma job_slots_nth:
  "i < length js \<Longrightarrow> job_slots off js ! i =
    \<lparr>it_addr = bj_addr (js ! i), it_offset = int (off + job_lens (take i js)), it_len = int (bj_len (js ! i)),
     it_past = int (bj_past (js ! i))\<rparr>"
  by (induction js arbitrary: off i) (auto simp: nth_Cons add.assoc split: nat.splits)

lemma length_job_slots [simp]: "length (job_slots off js) = length js"
  by (induction js arbitrary: off) simp_all

lemma concat_job_nth:
  "(\<And>j. j \<in> set js \<Longrightarrow> length (Y j) = bj_len j) \<Longrightarrow> i < length js \<Longrightarrow> k < bj_len (js ! i) \<Longrightarrow>
   concat (map Y js) ! (job_lens (take i js) + k) = Y (js ! i) ! k"
  by (induction js arbitrary: i) (auto simp: nth_Cons nth_append add.assoc split: nat.splits)

lemma job_lens_take: "i < length js \<Longrightarrow> job_lens (take i js) + bj_len (js ! i) \<le> job_lens js"
  by (induction js arbitrary: i) (auto simp: nth_Cons split: nat.splits)

lemma copy_last_ok:
  assumes y: "\<And>j. j \<in> set js \<Longrightarrow> rect (bj_len j) h (Y j) \<and> bj_toks j \<noteq> []"
  shows "res_fold (copy_last (int h) (mk_mat (job_lens js) h (concat (map Y js)))) (enumerate 0 (job_slots 0 js)) (replicate (length js * h) 0)
    = Inr (concat (map (\<lambda>j. last (Y j)) js))"
proof -
  let ?N = "mk_mat (job_lens js) h (concat (map Y js))"
  have R: "rect (job_lens js) h (concat (map Y js))" using y by (intro rect_concat_jobs) simp
  have "res_fold (\<lambda>i. copy_last (int h) ?N (i, job_slots 0 js ! i)) [0..<length js] (replicate (length js * h) 0)
      = Inr (concat (map (\<lambda>i. last (Y (js ! i))) [0..<length js]))"
  proof (rule res_fold_fill)
    fix i and d :: "f32 list" assume i: "i < length js" and d: "length d = length js * h"
    let ?k = "job_lens (take i js) + (bj_len (js ! i) - 1)"
    have ne: "bj_len (js ! i) \<noteq> 0" and rj: "rect (bj_len (js ! i)) h (Y (js ! i))" using y[of "js ! i"] i by simp_all
    have k: "?k < job_lens js" using job_lens_take[OF i] ne by linarith
    have "concat (map Y js) ! ?k = Y (js ! i) ! (bj_len (js ! i) - 1)"
      using ne i y by (intro concat_job_nth) (auto simp: rect_def)
    also have "\<dots> = last (Y (js ! i))"
    proof -
      have "Y (js ! i) \<noteq> []" using rj ne by (auto simp: rect_def)
      from last_conv_nth[OF this] show ?thesis using rj by (simp add: rect_def)
    qed
    finally have lst: "row h ?k (concat (concat (map Y js))) = last (Y (js ! i))" using rect_row[OF R k] by simp
    have sl: "slice (?k * h) h (concat (concat (map Y js))) = last (Y (js ! i))" using lst by (simp add: row_def)
    have "memcpy d (int (i * h)) (concat (concat (map Y js))) (int (?k * h)) (int h) = Inr (blit (i * h) (last (Y (js ! i))) d)"
      unfolding sl[symmetric] using row_in_bounds[OF i, of h "length d"] row_in_bounds[OF k, of h] rect_data_length[OF R] d
      by (intro memcpy_ok) auto
    moreover have e: "int (job_lens (take i js)) + int (bj_len (js ! i)) - 1 = int ?k"
    proof -
      have "1 \<le> bj_len (js ! i)" using ne by linarith
      from of_nat_diff[OF this, where 'a = int] show ?thesis by simp
    qed
    ultimately show "copy_last (int h) ?N (i, job_slots 0 js ! i) d = Inr (blit (i * h) (last (Y (js ! i))) d)"
      unfolding copy_last_def prod.case job_slots_nth[OF i] item_slot.select_convs mk_mat_dims(5) add_0 e of_nat_mult by simp
  next
    fix i assume i: "i < length js"
    then have "Y (js ! i) \<noteq> []" "rect (bj_len (js ! i)) h (Y (js ! i))" using y[of "js ! i"] by (auto simp: rect_def)
    then show "length (last (Y (js ! i))) = h" by (simp add: rect_def)
  qed simp
  moreover have "map (\<lambda>i. last (Y (js ! i))) [0..<length js] = map (\<lambda>j. last (Y j)) js"
    by (rule nth_equalityI) simp_all
  moreover have "enumerate 0 (job_slots 0 js) = map (\<lambda>i. (i, job_slots 0 js ! i)) [0..<length js]"
    by (rule nth_equalityI) (simp_all add: nth_enumerate_eq)
  ultimately show ?thesis by (simp add: res_fold_map)
qed

section \<open>The batched forward\<close>

lemma count_list_two: "i < length xs \<Longrightarrow> k < length xs \<Longrightarrow> i \<noteq> k \<Longrightarrow> xs ! k = xs ! i \<Longrightarrow> 2 \<le> count_list xs (xs ! i)"
proof (induction xs arbitrary: i k)
  case (Cons x xs)
  have pos: "0 < count_list xs y" if "y \<in> set xs" for y using that by (simp add: count_list_0_iff flip: neq0_conv)
  show ?case
  proof (cases i)
    case 0
    then obtain k' where "k = Suc k'" using Cons.prems(3) by (cases k) auto
    then show ?thesis using 0 Cons.prems(2,4) pos[of x] by (metis One_nat_def Suc_le_eq add_le_mono1 count_list.simps(2) length_Cons less_Suc_eq_0_disj nat_1_add_1 not_less_eq nth_Cons_0 nth_Cons_Suc nth_mem plus_1_eq_Suc)
  next
    case (Suc i')
    show ?thesis
    proof (cases k)
      case 0
      then have "x \<in> set xs" using Suc Cons.prems(1,4) by (metis Suc_less_eq length_Cons nth_Cons_0 nth_Cons_Suc nth_mem)
      then show ?thesis using 0 Suc Cons.prems(4) pos[of x] by auto
    next
      case (Suc k')
      then show ?thesis using \<open>i = Suc i'\<close> Cons.IH[of i' k'] Cons.prems by (auto simp: le_SucI)
    qed
  qed
qed simp

text \<open>A private block occurs once in its table.\<close>

lemma priv_from_once:
  assumes "store_inv st as m" "a \<in> set as" "st a = Some blk" "priv_from bs m p (block_table blk)"
  shows "once_from (p div bs) (block_table blk)"
  unfolding once_from_def
proof (intro allI impI)
  let ?t = "block_table blk"
  fix i k assume i: "p div bs \<le> i" "i < length ?t" and k: "k < length ?t" "?t ! k = ?t ! i"
  show "k = i"
  proof (rule ccontr)
    assume "k \<noteq> i"
    then have "2 \<le> count_list ?t (?t ! i)" using count_list_two[OF i(2) k(1)] k(2) by simp
    moreover have "seq_refs m (?t ! i) = held (?t # store_tables st (remove1 a as)) (?t ! i)"
      using store_inv_pick[OF assms(1-3)] by (simp add: seqs_inv_def)
    moreover have "seq_refs m (?t ! i) = 1" using assms(4) i by (simp add: priv_from_def priv_def)
    ultimately show False by simp
  qed
qed

lemma job_writes_priv:
  assumes "0 < bs" "priv_from bs m (bj_past j) (bj_table j)" "bj_past j + bj_len j \<le> length (bj_table j) * bs" "b \<in> job_writes bs j"
  shows "priv m b \<and> b \<in> set (bj_table j)"
proof -
  from assms(4) obtain i where i: "i < bj_len j" "b = bj_table j ! ((bj_past j + i) div bs)" by (auto simp: job_writes_def)
  have "bj_past j + i < length (bj_table j) * bs" using i(1) assms(3) by simp
  from row_index_lt[OF assms(1) this] have "(bj_past j + i) div bs < length (bj_table j)" .
  moreover have "bj_past j div bs \<le> (bj_past j + i) div bs" by (intro div_le_mono) simp
  ultimately show ?thesis using i(2) assms(2) by (auto simp: priv_from_def)
qed

lemma jobs_sepI:
  assumes bs: "0 < bs" and st: "store_inv st as m" and d: "distinct (map bj_addr js)" and a: "bj_addr ` set js \<subseteq> set as"
    and j: "\<forall>j \<in> set js. st (bj_addr j) = Some (job_blk j) \<and> priv_from bs m (bj_past j) (bj_table j)
              \<and> bj_past j + bj_len j \<le> length (bj_table j) * bs"
  shows "jobs_sep bs js"
proof -
  have sep: "job_writes bs j \<inter> set (bj_table k) = {}" if "j \<in> set js" "k \<in> set js" "bj_addr j \<noteq> bj_addr k" for j k
  proof -
    have "b \<notin> set (bj_table k)" if b: "b \<in> job_writes bs j" for b
    proof -
      have "priv m b \<and> b \<in> set (bj_table j)" using job_writes_priv[OF bs _ _ b] j \<open>j \<in> set js\<close> by blast
      then show ?thesis
        using store_inv_sep[OF st _ _ \<open>bj_addr j \<noteq> bj_addr k\<close>, of "job_blk j" "job_blk k" b] j a \<open>j \<in> set js\<close> \<open>k \<in> set js\<close>
        by (auto simp: priv_def job_blk_def)
    qed
    then show ?thesis by blast
  qed
  have "(\<And>j k. j \<in> set xs \<Longrightarrow> k \<in> set xs \<Longrightarrow> bj_addr j \<noteq> bj_addr k \<Longrightarrow> job_writes bs j \<inter> set (bj_table k) = {}) \<Longrightarrow>
      distinct (map bj_addr xs) \<Longrightarrow> jobs_sep bs xs" for xs
  proof (induction xs)
    case (Cons x xs)
    have "bj_addr x \<noteq> bj_addr k" if "k \<in> set xs" for k using Cons.prems(2) that by (metis distinct.simps(2) imageI list.map(2) set_map)
    then have "\<forall>k \<in> set xs. job_writes bs x \<inter> set (bj_table k) = {} \<and> job_writes bs k \<inter> set (bj_table x) = {}"
      using Cons.prems(1) by (metis list.set_intros)
    moreover have "jobs_sep bs xs" using Cons.prems by (intro Cons.IH) auto
    ultimately show ?case by simp
  qed simp
  from this[of js] sep d show ?thesis by blast
qed

text \<open>What the blocks of a job hold before the batch.\<close>

definition job_holds :: "nat \<Rightarrow> model \<Rightarrow> block_manager \<Rightarrow> (int \<Rightarrow> nat \<Rightarrow> hist) \<Rightarrow> bjob \<Rightarrow> bool" where
  "job_holds bs m mgr H j \<longleftrightarrow> ids_ok m (bj_toks j) \<and> bj_past j \<le> length (bj_table j) * bs
     \<and> (\<forall>l < n_layers m. bm_view bs (d_kv m) mgr (bj_table j) (bj_past j) l = H (bj_addr j) l
          \<and> hist_ok (bj_past j) (d_kv m) (H (bj_addr j) l))"

definition job_spec :: "fpu \<Rightarrow> eigen \<Rightarrow> model \<Rightarrow> (int \<Rightarrow> nat \<Rightarrow> hist) \<Rightarrow> bjob \<Rightarrow> f32 list list \<times> (nat \<Rightarrow> hist)" where
  "job_spec F E m H j = forward_spec F E m (bj_past j) (bj_toks j) (H (bj_addr j))"

lemma list_all2_map_eq: "list_all2 R xs ys \<Longrightarrow> (\<And>x y. R x y \<Longrightarrow> f y = f x) \<Longrightarrow> map f ys = map f xs"
  by (induction rule: list_all2_induct) auto

lemma job_grown_all:
  assumes "list_all2 (job_grown bs) js js'" "0 < bs"
  shows "map bj_addr js' = map bj_addr js" "map bj_toks js' = map bj_toks js" "map bj_past js' = map bj_past js" "length js' = length js"
    "j' \<in> set js' \<Longrightarrow> \<exists>j \<in> set js. job_grown bs j j'" "j \<in> set js \<Longrightarrow> \<exists>j' \<in> set js'. job_grown bs j j'"
proof -
  have l: "length js' = length js" using assms(1) by (simp add: list_all2_lengthD)
  have g: "job_grown bs (js ! i) (js' ! i)" if "i < length js" for i using assms(1) that by (simp add: list_all2_nthD)
  show "length js' = length js" by (rule l)
  show "map bj_addr js' = map bj_addr js" "map bj_toks js' = map bj_toks js" "map bj_past js' = map bj_past js"
    using assms(1) job_grown_len(1-3)[OF _ assms(2)] by (auto intro: list_all2_map_eq)
  show "j' \<in> set js' \<Longrightarrow> \<exists>j \<in> set js. job_grown bs j j'" "j \<in> set js \<Longrightarrow> \<exists>j' \<in> set js'. job_grown bs j j'"
    using l g by (auto simp: in_set_conv_nth) (metis in_set_conv_nth)+
qed

text \<open>The outcome of the gathering loop, and what a batch that only writes its own rows makes of it.\<close>

definition gathered :: "nat \<Rightarrow> nat \<Rightarrow> nat \<Rightarrow> nat \<Rightarrow> int list \<Rightarrow> seq_store \<Rightarrow> block_manager \<Rightarrow> bjob list \<Rightarrow> bjob list \<Rightarrow> block_manager \<Rightarrow> bool" where
  "gathered bs w nb nl as st mgr js js' m1 \<longleftrightarrow> distinct (map bj_addr js) \<and> bj_addr ` set js \<subseteq> set as \<and> list_all2 (job_grown bs) js js'
     \<and> store_inv (store_put js' st) as m1 \<and> bm_shape bs w nb nl m1 \<and> bm_geom m1 = bm_geom mgr
     \<and> mset (entries m1) \<subseteq># mset (entries mgr) \<and> (\<forall>b. priv mgr b \<longrightarrow> priv m1 b)
     \<and> bm_avail m1 = bm_avail mgr - sum_list (map (job_need bs) js) \<and> (\<forall>j \<in> set js'. priv_from bs m1 (bj_past j) (bj_table j))"

lemma gathered_jobs:
  assumes "gathered bs w nb nl as st mgr js js' m1"
  shows "0 < bs" "distinct (map bj_addr js')" "bj_addr ` set js' = bj_addr ` set js" "jobs_sep bs js'"
    "\<And>j. j \<in> set js' \<Longrightarrow> job_ok bs nb j \<and> store_put js' st (bj_addr j) = Some (job_blk j)"
    "\<And>j. j \<in> set js' \<Longrightarrow> bj_past j + bj_len j \<le> length (bj_table j) * bs"
proof -
  have g: "distinct (map bj_addr js)" "bj_addr ` set js \<subseteq> set as" "list_all2 (job_grown bs) js js'" "store_inv (store_put js' st) as m1"
    "bm_shape bs w nb nl m1" "\<forall>j \<in> set js'. priv_from bs m1 (bj_past j) (bj_table j)" using assms by (simp_all add: gathered_def)
  show bs: "0 < bs" by (rule bm_shapeD(2)[OF g(5)])
  note G = job_grown_all[OF g(3) bs]
  show d': "distinct (map bj_addr js')" using g(1) G(1) by simp
  show addr': "bj_addr ` set js' = bj_addr ` set js" using G(1) by (metis set_map)
  have at: "store_put js' st (bj_addr j) = Some (job_blk j)" if "j \<in> set js'" for j using store_put_at[OF d' that] .
  show cov: "bj_past j + bj_len j \<le> length (bj_table j) * bs" if "j \<in> set js'" for j using G(5)[OF that] job_grown_len(5)[OF _ bs] by auto
  have a: "bj_addr j \<in> set as" if "j \<in> set js'" for j using g(2) addr' that by blast
  show "jobs_sep bs js'" using g(2,6) addr' at cov by (intro jobs_sepI[OF bs g(4) d']) auto
  show "job_ok bs nb j \<and> store_put js' st (bj_addr j) = Some (job_blk j)" if j: "j \<in> set js'" for j
    using store_inv_table_ok[OF g(4) a[OF j] at[OF j] g(5)] priv_from_once[OF g(4) a[OF j] at[OF j], of bs "bj_past j"] g(6) j cov[OF j] at[OF j]
    by (simp add: job_ok_def job_blk_def)
qed

lemma gathered_view:
  assumes "gathered bs w nb nl as st mgr js js' m1" "job_grown bs j j'" "bj_past j \<le> length (bj_table j) * bs"
  shows "bm_view bs w m1 (bj_table j') (bj_past j) l = bm_view bs w mgr (bj_table j) (bj_past j) l"
  using seq_rows_append_table[OF gathered_jobs(1)[OF assms(1)] assms(3), of w "drop (length (bj_table j)) (bj_table j')"]
    job_grown_len(6)[OF assms(2) gathered_jobs(1)[OF assms(1)]] assms(1) append_take_drop_id[of "length (bj_table j)" "bj_table j'"]
  by (simp add: gathered_def bm_view_def bm_geom_def)

lemma gathered_closed:
  assumes g: "gathered bs w nb nl as st mgr js js' m1" and f: "jobs_frame bs w nb nl js' L m1 m2"
  defines "st' \<equiv> store_put (map job_done js') (store_put js' st)"
  shows "store_inv st' as m2" "bm_shape bs w nb nl m2" "\<And>a. a \<notin> bj_addr ` set js \<Longrightarrow> st' a = st a"
    "mset (entries m2) \<subseteq># mset (entries mgr)" "\<And>b. priv mgr b \<Longrightarrow> priv m2 b" "bm_avail m2 = bm_avail mgr - sum_list (map (job_need bs) js)"
    "\<And>j'. j' \<in> set js' \<Longrightarrow> st' (bj_addr j') = Some \<lparr>block_table = bj_table j', seq_length = int (bj_past j' + bj_len j')\<rparr>
        \<and> priv_from bs m2 (bj_past j') (bj_table j')"
    "\<And>t i l. table_ok nb t \<Longrightarrow> i \<le> length t * bs \<Longrightarrow>
        (\<forall>b \<in> set t. \<not> (priv m2 b \<and> (\<exists>j \<in> set js. b \<in> set (block_table (the (st' (bj_addr j))))))) \<Longrightarrow> bm_view bs w m2 t i l = bm_view bs w mgr t i l"
proof -
  note J = gathered_jobs[OF g]
  have g': "list_all2 (job_grown bs) js js'" "store_inv (store_put js' st) as m1" "bm_geom m1 = bm_geom mgr" "mset (entries m1) \<subseteq># mset (entries mgr)"
    "\<forall>b. priv mgr b \<longrightarrow> priv m1 b" "bm_avail m1 = bm_avail mgr - sum_list (map (job_need bs) js)" "\<forall>j \<in> set js'. priv_from bs m1 (bj_past j) (bj_table j)"
    using g by (simp_all add: gathered_def)
  have F2: "bm_alloc m2 = bm_alloc m1" "bm_prefix m2 = bm_prefix m1" using f by (simp_all add: jobs_frame_def)
  show "bm_shape bs w nb nl m2" using f by (simp add: jobs_frame_def)
  have en: "entries m2 = entries m1" using F2(2) by (simp add: entries_def)
  have pv: "priv m2 = priv m1" using F2(1) en by (simp add: priv_def seq_refs_def cache_refs_def fun_eq_iff)
  have si: "seqs_inv m2 ts = seqs_inv m1 ts" for ts
    using F2(1,2) en by (simp add: seqs_inv_def bm_inv_def seq_refs_def cache_refs_def fun_eq_iff)
  show "mset (entries m2) \<subseteq># mset (entries mgr)" "\<And>b. priv mgr b \<Longrightarrow> priv m2 b" using g'(4,5) en pv by simp_all
  show "bm_avail m2 = bm_avail mgr - sum_list (map (job_need bs) js)" using F2(1) en g'(6) by (simp add: bm_avail_def evictable_def[abs_def])
  have atd: "st' (bj_addr j) = Some (job_blk (job_done j))" if "j \<in> set js'" for j
    using store_put_at[of "map job_done js'" "job_done j" "store_put js' st"] that J(2) by (simp add: comp_def st'_def)
  show done_at: "st' (bj_addr j) = Some \<lparr>block_table = bj_table j, seq_length = int (bj_past j + bj_len j)\<rparr>
        \<and> priv_from bs m2 (bj_past j) (bj_table j)" if "j \<in> set js'" for j
    using atd[OF that] g'(7) that pv by (simp add: job_blk_def job_done_def priv_from_def)
  have out: "a \<notin> bj_addr ` set (map job_done js')" if "a \<notin> bj_addr ` set js'" for a using that by auto
  show oth: "st' a = st a" if "a \<notin> bj_addr ` set js" for a
    using that J(3) out unfolding st'_def by (simp add: store_put_other)
  have "store_tables st' as = store_tables (store_put js' st) as"
    unfolding store_tables_def
  proof (rule map_cong)
    fix a assume "a \<in> set as"
    show "block_table (the (st' a)) = block_table (the (store_put js' st a))"
    proof (cases "a \<in> bj_addr ` set js'")
      case True
      then obtain j where "j \<in> set js'" "a = bj_addr j" by auto
      then show ?thesis using atd J(5) by (simp add: job_blk_def)
    next
      case False
      then show ?thesis using out unfolding st'_def by (simp add: store_put_other)
    qed
  qed simp
  then show "store_inv st' as m2" using g'(2) si by (simp add: store_inv_def)
  show "bm_view bs w m2 t i l = bm_view bs w mgr t i l"
    if t: "table_ok nb t" "i \<le> length t * bs" "\<forall>b \<in> set t. \<not> (priv m2 b \<and> (\<exists>j \<in> set js. b \<in> set (block_table (the (st' (bj_addr j))))))" for t i l
  proof -
    have "job_writes bs j \<inter> set t = {}" if j: "j \<in> set js'" for j
    proof -
      have "b \<notin> set t" if b: "b \<in> job_writes bs j" for b
      proof -
        have "priv m2 b \<and> b \<in> set (bj_table j)" using job_writes_priv[OF J(1) _ J(6)[OF j] b] g'(7) j pv by auto
        moreover from J(3) j obtain k where "k \<in> set js" "bj_addr k = bj_addr j" by (metis imageE imageI)
        moreover have "block_table (the (st' (bj_addr j))) = bj_table j" using atd[OF j] by (simp add: job_blk_def)
        ultimately show ?thesis using t(3) by metis
      qed
      then show ?thesis by blast
    qed
    then have "bm_view bs w m2 t i l = bm_view bs w m1 t i l" using f t(1,2) by (simp add: jobs_frame_def)
    then show ?thesis using bm_view_geom[OF g'(3)] by simp
  qed
qed

lemma gather_gathered:
  assumes "store_inv st as mgr" "bm_shape bs w nb nl mgr" "distinct (map bj_addr js)" "bj_addr ` set js \<subseteq> set as"
    and "\<forall>j \<in> set js. job_ready bs mgr st j" "sum_list (map (job_need bs) js) \<le> bm_avail mgr"
  shows "\<exists>js' m1. res_fold gather_item (map job_item js) ([], [], [], 0, st, mgr)
      = Inr (concat (map bj_toks js'), concat (map job_positions js'), job_slots 0 js', int (job_lens js'), store_put js' st, m1)
    \<and> gathered bs w nb nl as st mgr js js' m1"
  using gather_items_ok[OF assms, of "[]" "[]" "[]" 0] assms(3,4) by (auto simp: gathered_def)

lemma gathered_holds:
  assumes "gathered bs (d_kv m) nb nl as st mgr js js' m1" "\<forall>j \<in> set js. job_holds bs m mgr H j" "j' \<in> set js'"
  shows "job_holds bs m m1 H j'"
proof -
  note J = gathered_jobs[OF assms(1)]
  have "list_all2 (job_grown bs) js js'" using assms(1) by (simp add: gathered_def)
  from job_grown_all(5)[OF this J(1) assms(3)] obtain j where j: "j \<in> set js" "job_grown bs j j'" by blast
  have "bj_past j \<le> length (bj_table j) * bs" using assms(2) j(1) by (simp add: job_holds_def)
  then show ?thesis
    using assms(2) j(1) job_grown_len[OF j(2) J(1)] J(6)[OF assms(3)] gathered_view[OF assms(1) j(2)] by (simp add: job_holds_def)
qed

lemma job_spec_grown: "0 < bs \<Longrightarrow> job_grown bs j j' \<Longrightarrow> job_spec F E m H j' = job_spec F E m H j"
  by (simp add: job_spec_def job_grown_len(1-3))

lemma job_spec_stack:
  assumes "fst (job_stack F E m (n_layers m) j (H (bj_addr j))) \<noteq> []"
  shows "last (fst (job_spec F E m H j)) = head_row F E m (last (fst (job_stack F E m (n_layers m) j (H (bj_addr j)))))"
    and "snd (job_spec F E m H j) = snd (job_stack F E m (n_layers m) j (H (bj_addr j)))"
  using assms by (simp_all add: job_spec_def forward_spec_def job_stack_def case_prod_unfold Let_def last_map)

text \<open>The last normalised row of every item, as the loop before the head picks it.\<close>

lemma copy_final_ok:
  assumes ok: "model_ok m" and y: "\<forall>j \<in> set js. rect (bj_len j) (d_model m) (Y j) \<and> bj_toks j \<noteq> []"
  shows "res_fold (copy_last (int (d_model m)) (mk_mat (job_lens js) (d_model m) (map (final_row F m) (concat (map Y js)))))
      (enumerate 0 (job_slots 0 js)) (replicate (length js * d_model m) 0)
      = Inr (concat (map (final_row F m) (map (\<lambda>j. last (Y j)) js)))"
    and "rect (length js) (d_model m) (map (\<lambda>j. last (Y j)) js)" and "\<And>j. j \<in> set js \<Longrightarrow> Y j \<noteq> []"
proof -
  have n: "has_vec m ''model.norm.weight'' (d_model m)" using ok by (simp add: model_ok_def)
  show ne: "Y j \<noteq> []" if "j \<in> set js" for j using y that by (auto simp: rect_def)
  have fy: "rect (bj_len j) (d_model m) (map (final_row F m) (Y j)) \<and> bj_toks j \<noteq> []" if "j \<in> set js" for j
    using y that norm_row_length[OF n] by (auto simp: final_row_def intro!: rect_map)
  have e1: "map (final_row F m) (concat (map Y js)) = concat (map (\<lambda>j. map (final_row F m) (Y j)) js)"
    by (simp add: map_concat comp_def)
  have e2: "map (\<lambda>j. last (map (final_row F m) (Y j))) js = map (final_row F m) (map (\<lambda>j. last (Y j)) js)"
    using ne by (simp add: last_map)
  show "res_fold (copy_last (int (d_model m)) (mk_mat (job_lens js) (d_model m) (map (final_row F m) (concat (map Y js)))))
      (enumerate 0 (job_slots 0 js)) (replicate (length js * d_model m) 0)
      = Inr (concat (map (final_row F m) (map (\<lambda>j. last (Y j)) js)))"
    unfolding e1 e2[symmetric] by (rule copy_last_ok) (rule fy)
  show "rect (length js) (d_model m) (map (\<lambda>j. last (Y j)) js)"
    using y ne by (auto simp: rect_def)
qed

text \<open>All layers of a batch whose tokens have their blocks.\<close>

lemma gathered_layers:
  assumes E: "eigen_rowwise E" and ok: "model_ok m" and g: "gathered bs (d_kv m) nb (n_layers m) as st mgr js js' m1"
    and hold: "\<And>j. j \<in> set js' \<Longrightarrow> job_holds bs m m1 H j"
  shows "\<exists>m2. res_fold (batch_layer F E m (concat (map job_positions js')) (job_slots 0 js') (int (job_lens js')) (store_put js' st)) [0..<n_layers m]
        (mk_mat (job_lens js') (d_model m) (embed_rows m (concat (map bj_toks js'))), m1)
      = Inr (mk_mat (job_lens js') (d_model m) (concat (map (\<lambda>j. fst (job_stack F E m (n_layers m) j (H (bj_addr j)))) js')), m2)
    \<and> jobs_frame bs (d_kv m) nb (n_layers m) js' {..<n_layers m} m1 m2
    \<and> (\<forall>j \<in> set js'. \<forall>l < n_layers m. bm_view bs (d_kv m) m2 (bj_table j) (bj_past j + bj_len j) l
        = snd (job_stack F E m (n_layers m) j (H (bj_addr j))) l)"
proof -
  note J = gathered_jobs[OF g]
  have sh: "bm_shape bs (d_kv m) nb (n_layers m) m1" using g by (simp add: gathered_def)
  have jat: "jobs_at bs nb m (store_put js' st) js'" using J(4,5) by (auto simp: jobs_at_def job_blk_def)
  have vw: "\<forall>l < n_layers m. jobs_view bs m m1 l js' (\<lambda>j. H (bj_addr j) l)"
    using hold by (simp add: jobs_view_def job_holds_def)
  have ids: "\<forall>j \<in> set js'. ids_ok m (bj_toks j)" using hold by (simp add: job_holds_def)
  show ?thesis by (rule batch_layers_ok[where H = "\<lambda>j. H (bj_addr j)", OF E ok sh jat vw ids order_refl])
qed

lemma forward_batch_run:
  assumes E: "eigen_rowwise E" and ok: "model_ok m" and js: "js \<noteq> []"
    and run: "res_fold gather_item (map job_item js) ([], [], [], 0, st, mgr)
      = Inr (concat (map bj_toks js'), concat (map job_positions js'), job_slots 0 js', int (job_lens js'), store_put js' st, m1)"
    and g: "gathered bs (d_kv m) nb (n_layers m) as st mgr js js' m1"
    and hold: "\<And>j. j \<in> set js' \<Longrightarrow> job_holds bs m m1 H j \<and> bj_toks j \<noteq> []"
  shows "\<exists>m2. forward_batch F E m (map job_item js) st mgr
      = Inr (mk_mat (length js) (n_vocab m) (map (\<lambda>j. last (fst (job_spec F E m H j))) js'), store_put (map job_done js') (store_put js' st), m2)
    \<and> jobs_frame bs (d_kv m) nb (n_layers m) js' {..<n_layers m} m1 m2
    \<and> (\<forall>j \<in> set js'. \<forall>l < n_layers m. bm_view bs (d_kv m) m2 (bj_table j) (bj_past j + bj_len j) l = snd (job_spec F E m H j) l)"
proof -
  note C = config_dims[OF ok] and J = gathered_jobs[OF g]
  let ?Y = "\<lambda>j. fst (job_stack F E m (n_layers m) j (H (bj_addr j)))"
  have ids: "ids_ok m (bj_toks j)" if "j \<in> set js'" for j using hold[OF that] by (simp add: job_holds_def)
  from gathered_layers[where H = H, OF E ok g conjunct1[OF hold], of F] obtain m2 where
    b: "res_fold (batch_layer F E m (concat (map job_positions js')) (job_slots 0 js') (int (job_lens js')) (store_put js' st)) [0..<n_layers m]
        (mk_mat (job_lens js') (d_model m) (embed_rows m (concat (map bj_toks js'))), m1)
      = Inr (mk_mat (job_lens js') (d_model m) (concat (map ?Y js')), m2)"
    "jobs_frame bs (d_kv m) nb (n_layers m) js' {..<n_layers m} m1 m2"
    "\<forall>j \<in> set js'. \<forall>l < n_layers m. bm_view bs (d_kv m) m2 (bj_table j) (bj_past j + bj_len j) l
        = snd (job_stack F E m (n_layers m) j (H (bj_addr j))) l" by blast
  have "rect (bj_len j) (d_model m) (?Y j) \<and> bj_toks j \<noteq> []" if "j \<in> set js'" for j
    using stack_spec_ok[OF E ok embed_rows_rect[OF ok ids[OF that]], where L = "n_layers m" and H = "H (bj_addr j)"] hold[OF that]
    by (simp add: job_stack_def job_holds_def)
  then have y: "\<forall>j \<in> set js'. rect (bj_len j) (d_model m) (?Y j) \<and> bj_toks j \<noteq> []" by blast
  note cl = copy_final_ok[where Y = ?Y, OF ok y]
  have sp: "last (fst (job_spec F E m H j)) = head_row F E m (last (?Y j))" "snd (job_spec F E m H j) = snd (job_stack F E m (n_layers m) j (H (bj_addr j)))"
    if "j \<in> set js'" for j using job_spec_stack[where H = H and j = j, OF cl(3)[OF that]] by simp_all
  have n: "has_vec m ''model.norm.weight'' (d_model m)" using ok by (simp add: model_ok_def)
  have Rx: "rect (job_lens js') (d_model m) (concat (map ?Y js'))" using y by (intro rect_concat_jobs) simp
  have fr: "final_row F m = norm_row F m ''model.norm.weight''" by (simp add: final_row_def fun_eq_iff)
  note N = norm_rows(1)[OF n Rx] norm_rows(2)[OF n Rx, of F, folded fr]
  have ids': "ids_ok m (concat (map bj_toks js'))" using ids by (auto simp: ids_ok_def)
  have len: "length (concat (map bj_toks js')) = job_lens js'" by (simp add: length_concat comp_def)
  have l: "length js = length js'" using g by (auto simp: gathered_def list_all2_lengthD)
  have cm: "res_fold commit_item (job_slots 0 js') (store_put js' st) = Inr (store_put (map job_done js') (store_put js' st))"
    using J(5) by (intro commit_items_ok[OF J(2)]) simp
  have nl: "nat (num_hidden_layers (m_config m)) = n_layers m" by (simp add: n_layers_def)
  have z: "\<lparr>t_shape = [int (length js'), int (d_model m)], t_data = replicate (length js' * d_model m) 0\<rparr>
      \<lparr>t_data := concat (map (final_row F m) (map (\<lambda>j. last (?Y j)) js'))\<rparr>
      = mk_mat (length js') (d_model m) (map (final_row F m) (map (\<lambda>j. last (?Y j)) js'))" by simp
  have out: "map (head_row F E m) (map (\<lambda>j. last (?Y j)) js') = map (\<lambda>j. last (fst (job_spec F E m H j))) js'" using sp(1) by simp
  have ni: "map job_item js \<noteq> []" and lni: "length (map job_item js) = length js'" using js l by simp_all
  have "forward_batch F E m (map job_item js) st mgr
      = Inr (mk_mat (length js) (n_vocab m) (map (\<lambda>j. last (fst (job_spec F E m H j))) js'), store_put (map job_done js') (store_put js' st), m2)"
    unfolding forward_batch_def Let_def if_not_P[OF ni] run res_bind_Inr prod.case embedding_ok(1)[OF ok ids'] embedding_ok(2)[OF ok ids', unfolded len]
      nl b(1) cm N C(4) lni l tensor_zeros_mat tensor.select_convs cl(1) z head_weight_ok(1)[OF ok] head_rows(1)[OF E ok cl(2)] out ..
  then show ?thesis using b(2,3) sp(2) by auto
qed

lemma forward_batch_ok:
  assumes E: "eigen_rowwise E" and ok: "model_ok m"
    and sh: "bm_shape bs (d_kv m) nb (n_layers m) mgr" and st: "store_inv st as mgr"
    and js: "js \<noteq> []" "distinct (map bj_addr js)" "bj_addr ` set js \<subseteq> set as"
    and rd: "\<forall>j \<in> set js. job_ready bs mgr st j \<and> job_holds bs m mgr H j"
    and need: "sum_list (map (job_need bs) js) \<le> bm_avail mgr"
  shows "\<exists>st' mgr'. forward_batch F E m (map job_item js) st mgr
      = Inr (mk_mat (length js) (n_vocab m) (map (\<lambda>j. last (fst (job_spec F E m H j))) js), st', mgr')
    \<and> store_inv st' as mgr' \<and> bm_shape bs (d_kv m) nb (n_layers m) mgr'
    \<and> (\<forall>a. a \<notin> bj_addr ` set js \<longrightarrow> st' a = st a)
    \<and> (\<forall>j \<in> set js. \<exists>t. st' (bj_addr j) = Some \<lparr>block_table = t, seq_length = int (bj_past j + bj_len j)\<rparr>
         \<and> length t = max (length (bj_table j)) (nblk bs (bj_past j + bj_len j)) \<and> priv_from bs mgr' (bj_past j) t
         \<and> (\<forall>l < n_layers m. bm_view bs (d_kv m) mgr' t (bj_past j + bj_len j) l = snd (job_spec F E m H j) l))
    \<and> mset (entries mgr') \<subseteq># mset (entries mgr) \<and> (\<forall>b. priv mgr b \<longrightarrow> priv mgr' b)
    \<and> bm_avail mgr' = bm_avail mgr - sum_list (map (job_need bs) js)
    \<and> (\<forall>t i l. table_ok nb t \<longrightarrow> i \<le> length t * bs \<longrightarrow>
         (\<forall>b \<in> set t. \<not> (priv mgr' b \<and> (\<exists>j \<in> set js. b \<in> set (block_table (the (st' (bj_addr j))))))) \<longrightarrow>
         bm_view bs (d_kv m) mgr' t i l = bm_view bs (d_kv m) mgr t i l)"
proof -
  note bs = bm_shapeD(2)[OF sh]
  have "\<forall>j \<in> set js. job_ready bs mgr st j" and hold: "\<forall>j \<in> set js. job_holds bs m mgr H j" using rd by blast+
  from gather_gathered[OF st sh js(2,3) this(1) need] obtain js' m1 where
    g: "res_fold gather_item (map job_item js) ([], [], [], 0, st, mgr)
      = Inr (concat (map bj_toks js'), concat (map job_positions js'), job_slots 0 js', int (job_lens js'), store_put js' st, m1)"
      "gathered bs (d_kv m) nb (n_layers m) as st mgr js js' m1" by blast
  have gr: "list_all2 (job_grown bs) js js'" using g(2) by (simp add: gathered_def)
  note G = job_grown_all[OF gr bs] and L = job_grown_len[OF _ bs]
  have "job_holds bs m m1 H j' \<and> bj_toks j' \<noteq> []" if "j' \<in> set js'" for j'
    using gathered_holds[OF g(2) hold that] G(5)[OF that] L(2) rd by (fastforce simp: job_ready_def)
  from forward_batch_run[where H = H, OF E ok js(1) g this, of F] obtain m2 where
    r: "forward_batch F E m (map job_item js) st mgr
      = Inr (mk_mat (length js) (n_vocab m) (map (\<lambda>j. last (fst (job_spec F E m H j))) js'), store_put (map job_done js') (store_put js' st), m2)"
    "jobs_frame bs (d_kv m) nb (n_layers m) js' {..<n_layers m} m1 m2"
    "\<forall>j \<in> set js'. \<forall>l < n_layers m. bm_view bs (d_kv m) m2 (bj_table j) (bj_past j + bj_len j) l = snd (job_spec F E m H j) l" by blast
  let ?st' = "store_put (map job_done js') (store_put js' st)"
  have "map (\<lambda>j. last (fst (job_spec F E m H j))) js' = map (\<lambda>j. last (fst (job_spec F E m H j))) js"
    using list_all2_map_eq[OF gr, of "\<lambda>j. last (fst (job_spec F E m H j))"] job_spec_grown[OF bs] by metis
  note run = r(1)[unfolded this] and K = gathered_closed[OF g(2) r(2)]
  have jobs: "\<exists>t. ?st' (bj_addr j) = Some \<lparr>block_table = t, seq_length = int (bj_past j + bj_len j)\<rparr>
         \<and> length t = max (length (bj_table j)) (nblk bs (bj_past j + bj_len j)) \<and> priv_from bs m2 (bj_past j) t
         \<and> (\<forall>l < n_layers m. bm_view bs (d_kv m) m2 t (bj_past j + bj_len j) l = snd (job_spec F E m H j) l)" if "j \<in> set js" for j
  proof -
    from G(6)[OF that] obtain j' where j': "j' \<in> set js'" "job_grown bs j j'" by blast
    note Lj = L[OF j'(2)]
    have v: "\<forall>l < n_layers m. bm_view bs (d_kv m) m2 (bj_table j') (bj_past j + bj_len j) l = snd (job_spec F E m H j) l"
      using bspec[OF r(3) j'(1)] by (simp only: Lj(2,3) job_spec_grown[OF bs j'(2)])
    show ?thesis using K(7)[OF j'(1)] Lj v by (intro exI[of _ "bj_table j'"]) simp
  qed
  show ?thesis
  proof (intro exI[of _ ?st'] exI[of _ m2] conjI)
    show "\<forall>j \<in> set js. \<exists>t. ?st' (bj_addr j) = Some \<lparr>block_table = t, seq_length = int (bj_past j + bj_len j)\<rparr>
         \<and> length t = max (length (bj_table j)) (nblk bs (bj_past j + bj_len j)) \<and> priv_from bs m2 (bj_past j) t
         \<and> (\<forall>l < n_layers m. bm_view bs (d_kv m) m2 t (bj_past j + bj_len j) l = snd (job_spec F E m H j) l)" using jobs by blast
  qed (use run K(1-6,8) in blast)+
qed

end
