(* ===== verification/Model_Chunks.thy ===== *)
theory Model_Chunks
  imports Model_Cached Sample_Arith
begin

text \<open>
  Decoding in chunks: a list of token lists is fed to one cache after another, as a prefill
  followed by decode steps does. Also the small concrete model, float unit and matrix
  product on which the witnesses of the model's properties are evaluated.
\<close>

fun run_chunks :: "(int list \<Rightarrow> 'c \<Rightarrow> (tensor \<times> 'c) res) \<Rightarrow> int list list \<Rightarrow> 'c \<Rightarrow> (tensor list \<times> 'c) res" where
  "run_chunks fwd [] c = Inr ([], c)"
| "run_chunks fwd (ids # chunks) c =
     res_bind (fwd ids c) (\<lambda>(t, c). res_bind (run_chunks fwd chunks c) (\<lambda>(ts, c). Inr (t # ts, c)))"

fun chunks_spec :: "fpu \<Rightarrow> eigen \<Rightarrow> model \<Rightarrow> nat \<Rightarrow> int list list \<Rightarrow> (nat \<Rightarrow> hist) \<Rightarrow> tensor list" where
  "chunks_spec F E m past [] H = []"
| "chunks_spec F E m past (ids # chunks) H =
     mk_mat (length ids) (n_vocab m) (fst (forward_spec F E m past ids H))
     # chunks_spec F E m (past + length ids) chunks (snd (forward_spec F E m past ids H))"

definition chunks_ok :: "model \<Rightarrow> int list list \<Rightarrow> bool" where
  "chunks_ok m chunks \<longleftrightarrow> (\<forall>ids \<in> set chunks. ids \<noteq> [] \<and> ids_ok m ids)"

lemma chunks_spec_cong:
  "\<forall>l < n_layers m. H l = H' l \<Longrightarrow> chunks_spec F E m past chunks H = chunks_spec F E m past chunks H'"
proof (induction chunks arbitrary: past H H')
  case (Cons ids chunks)
  note c = forward_spec_cong[OF Cons.prems, of F E past ids]
  from Cons.IH[OF c(2)] c(1) show ?case by simp
qed simp

lemma chunks_spec_concat:
  assumes E: "eigen_rowwise E" and ok: "model_ok m"
  shows "chunks_ok m chunks \<Longrightarrow> \<forall>l < n_layers m. hist_ok past (d_kv m) (H l) \<Longrightarrow>
    concat (map t_data (chunks_spec F E m past chunks H)) = concat (fst (forward_spec F E m past (concat chunks) H))"
proof (induction chunks arbitrary: past H)
  case Nil
  have "fst (stack_spec F E m L past [] H) = []" for L
    by (induction L) (auto simp: case_prod_unfold Let_def layer_spec_def attn_rows_def)
  then show ?case by (simp add: forward_spec_def embed_rows_def case_prod_unfold Let_def)
next
  case (Cons ids chunks)
  have o: "ids_ok m ids" "ids_ok m (concat chunks)" "chunks_ok m chunks"
    using Cons.prems(1) by (auto simp: chunks_ok_def ids_ok_def)
  note h = forward_spec_ok(2)[OF E ok o(1) Cons.prems(2), of F]
  from Cons.IH[OF o(3) h] forward_spec_append[OF E ok o(1,2) Cons.prems(2), of F] show ?case by simp
qed

text \<open>A forward that implements the specification on every cache with a given history.\<close>

locale chunk_forward =
  fixes fwd :: "fpu \<Rightarrow> eigen \<Rightarrow> model \<Rightarrow> int list \<Rightarrow> 'c \<Rightarrow> (tensor \<times> 'c) res"
    and hist :: "'c \<Rightarrow> nat \<Rightarrow> hist"
    and at :: "model \<Rightarrow> nat \<Rightarrow> 'c \<Rightarrow> bool"
    and limit :: "'c \<Rightarrow> nat \<Rightarrow> bool"
  assumes fwd_ok: "model_ok m \<Longrightarrow> eigen_rowwise E \<Longrightarrow> ids_ok m ids \<Longrightarrow> ids \<noteq> [] \<Longrightarrow> at m past c \<Longrightarrow>
      \<forall>l < n_layers m. hist_ok past (d_kv m) (hist c l) \<Longrightarrow> limit c (past + length ids) \<Longrightarrow>
      \<exists>c'. fwd F E m ids c = Inr (mk_mat (length ids) (n_vocab m) (fst (forward_spec F E m past ids (hist c))), c')
        \<and> at m (past + length ids) c' \<and> limit c' = limit c \<and> hist c' = snd (forward_spec F E m past ids (hist c))"

context chunk_forward
begin

lemma run_chunks_ok:
  assumes ok: "model_ok m" "eigen_rowwise E"
  shows "chunks_ok m chunks \<Longrightarrow> at m past c \<Longrightarrow> \<forall>l < n_layers m. hist_ok past (d_kv m) (hist c l) \<Longrightarrow>
   (\<And>n. n \<le> past + length (concat chunks) \<Longrightarrow> limit c n) \<Longrightarrow>
   \<exists>c'. run_chunks (fwd F E m) chunks c = Inr (chunks_spec F E m past chunks (hist c), c')
     \<and> at m (past + length (concat chunks)) c'"
proof (induction chunks arbitrary: past c)
  case (Cons ids chunks)
  have o: "ids_ok m ids" "ids \<noteq> []" "chunks_ok m chunks" using Cons.prems(1) by (auto simp: chunks_ok_def)
  from fwd_ok[OF ok o(1,2) Cons.prems(2,3), of F] Cons.prems(4) obtain c1 where c1:
    "fwd F E m ids c = Inr (mk_mat (length ids) (n_vocab m) (fst (forward_spec F E m past ids (hist c))), c1)"
    "at m (past + length ids) c1" "limit c1 = limit c" "hist c1 = snd (forward_spec F E m past ids (hist c))" by auto
  have h1: "\<forall>l < n_layers m. hist_ok (past + length ids) (d_kv m) (hist c1 l)"
    using forward_spec_ok(2)[OF ok(2,1) o(1) Cons.prems(3), of F] c1(4) by simp
  have "\<exists>c'. run_chunks (fwd F E m) chunks c1 = Inr (chunks_spec F E m (past + length ids) chunks (hist c1), c')
      \<and> at m (past + length ids + length (concat chunks)) c'"
    using Cons.prems(4) c1(3) by (intro Cons.IH[OF o(3) c1(2) h1]) simp
  then show ?case using c1 by (auto simp: add.assoc)
qed simp

end
section \<open>Concrete parameters\<close>

text \<open>A float unit that computes with the bit patterns, an integer matrix product.\<close>

definition toy_config :: model_config where
  "toy_config = \<lparr>hidden_size = 1, num_hidden_layers = 1, num_attention_heads = 1, num_key_value_heads = 1, head_dim = 1,
     intermediate_size = 1, vocab_size = 2, max_position_embeddings = 8, rope_theta = 3, rms_norm_eps = 5,
     tie_word_embeddings = True, attention_qkv_bias = True, hidden_act = ''silu'', model_type = ''qwen2''\<rparr>"

definition toy_weights :: weights where
  "toy_weights =
     (let v = \<lparr>t_shape = [1], t_data = [3]\<rparr>; p = \<lparr>t_shape = [1, 1], t_data = [2]\<rparr>; k = layer_key 0 in
      [(''model.embed_tokens.weight'', \<lparr>t_shape = [2, 1], t_data = [7, 9]\<rparr>), (''model.norm.weight'', v),
       (k ''input_layernorm.weight'', v), (k ''post_attention_layernorm.weight'', v),
       (k ''self_attn.q_proj.weight'', p), (k ''self_attn.k_proj.weight'', p), (k ''self_attn.v_proj.weight'', p),
       (k ''self_attn.q_proj.bias'', v), (k ''self_attn.k_proj.bias'', v), (k ''self_attn.v_proj.bias'', v),
       (k ''self_attn.o_proj.weight'', p), (k ''mlp.gate_proj.weight'', p), (k ''mlp.up_proj.weight'', p),
       (k ''mlp.down_proj.weight'', p)])"

definition toy_model :: model where
  "toy_model = from_safetensors toy_config toy_weights"

lemma toy_model_ok: "model_ok toy_model"
  by code_simp

section \<open>The two caches\<close>

definition kv_at :: "model \<Rightarrow> nat \<Rightarrow> kv_cache \<Rightarrow> bool" where
  "kv_at m past c \<longleftrightarrow> kv_inv c \<and> length (kc_keys c) = n_layers m \<and> nat (kc_kv_dim c) = d_kv m \<and> kc_length c = int past"

definition paged_at :: "model \<Rightarrow> nat \<Rightarrow> paged_kv_cache \<Rightarrow> bool" where
  "paged_at m past c \<longleftrightarrow> paged_inv c \<and> length (pk_keys c) = n_layers m \<and> nat (pk_kv_dim c) = d_kv m \<and> pk_length c = int past"

interpretation kv_chunks: chunk_forward forward_with_cache kv_hist kv_at "\<lambda>_ _. True"
proof (unfold_locales, goal_cases)
  case (1 m E ids past c F)
  then have c: "kv_inv c" "length (kc_keys c) = n_layers m" "nat (kc_kv_dim c) = d_kv m" "kc_length c = int past"
    by (auto simp: kv_at_def)
  from kv_forward_ok[OF 1(2,1,3,4) c 1(6), of F] show ?case by (auto simp: kv_at_def)
qed

interpretation paged_chunks: chunk_forward forward_paged paged_hist paged_at paged_room
proof (unfold_locales, goal_cases)
  case (1 m E ids past c F)
  then have c: "paged_inv c" "length (pk_keys c) = n_layers m" "nat (pk_kv_dim c) = d_kv m" "pk_length c = int past"
    by (auto simp: paged_at_def)
  from paged_forward_ok[OF 1(2,1,3,4) c 1(6,7), of F] show ?case by (auto simp: paged_at_def)
qed

section \<open>Properties\<close>

text \<open>C6: Incremental decoding is exact. For a well-shaped model and a matrix product that works
  row by row, feed the tokens to a contiguous cache and to a paged cache in any chunks (a
  prefill and single-token steps, say). Both runs succeed as long as the pool holds the
  tokens, give the same logits chunk by chunk, and together exactly the logits of one
  uncached forward over all tokens, bit for bit.\<close>

theorem chunked_forward_exact:
  assumes "model_ok m" "eigen_rowwise E" "chunks_ok m chunks" "chunks \<noteq> []"
    and "0 < bs" "length (concat chunks) \<le> nb * bs" "0 < n_layers m"
  shows "\<exists>c0 c p0 p ts t. kv_new (num_hidden_layers (m_config m)) (num_key_value_heads (m_config m) * head_dim (m_config m)) = Inr c0
    \<and> run_chunks (forward_with_cache F E m) chunks c0 = Inr (ts, c)
    \<and> paged_new (num_hidden_layers (m_config m)) (num_key_value_heads (m_config m) * head_dim (m_config m)) (int bs) (int nb) = Inr p0
    \<and> run_chunks (forward_paged F E m) chunks p0 = Inr (ts, p)
    \<and> forward F E m (concat chunks) = Inr t \<and> t_data t = concat (map t_data ts)"
proof -
  note C = config_dims[OF assms(1)]
  have kv: "num_key_value_heads (m_config m) * head_dim (m_config m) = int (d_kv m)" unfolding C d_kv_def by simp
  from kv_new_inv[of "int (n_layers m)" "int (d_kv m)"] C(9) obtain c0 where
    c0: "kv_new (int (n_layers m)) (int (d_kv m)) = Inr c0" "kv_at m 0 c0" "\<forall>l < n_layers m. kv_hist c0 l = no_hist l"
    by (auto simp: kv_at_def no_hist_def)
  from paged_new_inv[of "int (n_layers m)" "int (d_kv m)" "int bs" "int nb"] C(9) assms(5,7) obtain p0 where
    p0: "paged_new (int (n_layers m)) (int (d_kv m)) (int bs) (int nb) = Inr p0" "paged_at m 0 p0"
      "\<forall>l < n_layers m. paged_hist p0 l = no_hist l" "\<forall>n. paged_room p0 n \<longleftrightarrow> n \<le> nb * bs"
    by (auto simp: paged_at_def no_hist_def simp flip: of_nat_mult)
  have h: "\<forall>l < n_layers m. hist_ok 0 (d_kv m) (kv_hist c0 l)" "\<forall>l < n_layers m. hist_ok 0 (d_kv m) (paged_hist p0 l)"
    using c0(3) p0(3) no_hist_ok by simp_all
  from kv_chunks.run_chunks_ok[OF assms(1,2,3) c0(2) h(1), of F] obtain c where
    c: "run_chunks (forward_with_cache F E m) chunks c0 = Inr (chunks_spec F E m 0 chunks (kv_hist c0), c)" by auto
  from paged_chunks.run_chunks_ok[OF assms(1,2,3) p0(2) h(2), of F] p0(4) assms(6) obtain p where
    p: "run_chunks (forward_paged F E m) chunks p0 = Inr (chunks_spec F E m 0 chunks (paged_hist p0), p)" by auto
  have eq: "chunks_spec F E m 0 chunks (kv_hist c0) = chunks_spec F E m 0 chunks no_hist"
    "chunks_spec F E m 0 chunks (paged_hist p0) = chunks_spec F E m 0 chunks no_hist"
    using c0(3) p0(3) by (auto intro!: chunks_spec_cong)
  have o: "ids_ok m (concat chunks)" "concat chunks \<noteq> []"
    using assms(3,4) by (auto simp: chunks_ok_def ids_ok_def dest: hd_in_set)
  have "concat (map t_data (chunks_spec F E m 0 chunks no_hist)) = concat (fst (forward_spec F E m 0 (concat chunks) no_hist))"
    using no_hist_ok by (intro chunks_spec_concat[OF assms(2,1,3)]) simp
  then show ?thesis
    unfolding kv C(10) using c0(1) c p0(1) p eq forward_ok[OF assms(2,1) o, of F] by (auto intro: exI)
qed

lemma chunked_forward_exact_witness:
  "\<exists>c0 c ts t. kv_new 1 1 = Inr c0
    \<and> run_chunks (forward_with_cache toy_fpu toy_eigen toy_model) [[0, 1], [1]] c0 = Inr (ts, c)
    \<and> forward toy_fpu toy_eigen toy_model [0, 1, 1] = Inr t \<and> t_data t = concat (map t_data ts)"
proof -
  have "chunks_ok toy_model [[0, 1], [1]]" by code_simp
  moreover have "0 < n_layers toy_model" by code_simp
  ultimately show ?thesis
    using chunked_forward_exact[OF toy_model_ok toy_rowwise, of "[[0, 1], [1]]" 2 2 toy_fpu]
    by (simp add: toy_model_def from_safetensors_def toy_config_def) blast
qed

text \<open>C33: The forward is causal: the logits of a prefix are the first logits of any longer
  input, so later tokens never change the prediction at an earlier position.\<close>

theorem forward_causal:
  assumes "model_ok m" "eigen_rowwise E" "ids_ok m ids" "ids_ok m rest" "ids \<noteq> []"
  shows "\<exists>t u. forward F E m ids = Inr t \<and> forward F E m (ids @ rest) = Inr u
    \<and> t_shape t = [int (length ids), vocab_size (m_config m)]
    \<and> t_data t = take (length ids * n_vocab m) (t_data u)"
proof -
  have o: "ids_ok m (ids @ rest)" "ids @ rest \<noteq> []" using assms(3-5) by (auto simp: ids_ok_def)
  have h: "\<forall>l < n_layers m. hist_ok 0 (d_kv m) (no_hist l)" using no_hist_ok by simp
  have "length (concat (fst (forward_spec F E m 0 ids no_hist))) = length ids * n_vocab m"
    using rect_data_length[OF forward_spec_ok(1)[OF assms(2,1,3) h]] .
  then show ?thesis
    using forward_ok[OF assms(2,1,3,5), of F] forward_ok[OF assms(2,1) o, of F]
      forward_spec_append[OF assms(2,1,3,4) h, of F] config_dims(5)[OF assms(1)] by simp
qed

lemma forward_causal_witness:
  "\<exists>t u. forward toy_fpu toy_eigen toy_model [1] = Inr t \<and> forward toy_fpu toy_eigen toy_model [1, 0, 1] = Inr u
    \<and> t_data t = take (1 * n_vocab toy_model) (t_data u)"
proof -
  have "ids_ok toy_model [1]" "ids_ok toy_model [0, 1]" by code_simp+
  from forward_causal[OF toy_model_ok toy_rowwise this, of toy_fpu] show ?thesis by auto
qed

text \<open>C34: An empty input and an input with a token outside the vocabulary are refused, and
  nothing else is: on a well-shaped model every other input has logits.\<close>

theorem forward_defined_iff:
  assumes "model_ok m" "eigen_rowwise E"
  shows "forward F E m ids =
    (if ids = [] then Inl (InvalidArgument ''forward: empty input sequence'')
     else if \<not> ids_ok m ids then Inl (OutOfRange ''embedding: token id out of range'')
     else Inr (mk_mat (length ids) (n_vocab m) (fst (forward_spec F E m 0 ids no_hist))))"
proof -
  note C = config_dims[OF assms(1)]
  have kv: "num_key_value_heads (m_config m) * head_dim (m_config m) = int (d_kv m)" unfolding C d_kv_def by simp
  from kv_new_inv[of "int (n_layers m)" "int (d_kv m)"] C(9) obtain c0 where
    c0: "kv_new (int (n_layers m)) (int (d_kv m)) = Inr c0" by auto
  have e: "mat (n_vocab m) (d_model m) (embed_weight m)" "st_get (m_weights m) ''model.embed_tokens.weight'' = Inr (embed_weight m)"
    using assms(1) by (auto simp: model_ok_def has_mat_def embed_weight_def st_get_weight)
  have bad: "embedding (embed_weight m) ids = Inl (OutOfRange ''embedding: token id out of range'')" if "\<not> ids_ok m ids"
    using that embedding_range_error[OF e(1), of ids] by (simp add: ids_ok_def)
  show ?thesis
    using forward_ok[OF assms(2,1), of ids F] bad e(2)
    by (simp add: forward_def kv C(10) c0 forward_with_cache_def forward_cached_def Let_def)
qed

lemma forward_defined_iff_witness:
  "forward toy_fpu toy_eigen toy_model [0, 7] = Inl (OutOfRange ''embedding: token id out of range'')"
proof -
  have "\<not> ids_ok toy_model [0, 7]" by code_simp
  then show ?thesis using forward_defined_iff[OF toy_model_ok toy_rowwise, of toy_fpu "[0, 7]"] by simp
qed

end
