(* ===== verification/Speculative.thy ===== *)
theory Speculative
  imports Model_Chunks Sampler
begin

text \<open>
  \<open>speculative.cpp\<close>: greedy decoding that verifies the proposals of a draft with one forward
  per round. The draft is the caller's function; it may keep state and may throw. The
  locale \<open>causal_lm\<close> is what the loop needs of the target model.
\<close>

section \<open>The code\<close>

definition argmax_row :: "tensor \<Rightarrow> int \<Rightarrow> int res" where
  "argmax_row logits r =
     res_bind (dim logits 1) (\<lambda>vocab.
       if r * vocab < 0 then Inl Undefined else argmax (drop (nat (r * vocab)) (t_data logits)) vocab)"

fun propose :: "(int list \<Rightarrow> 'd \<Rightarrow> (int \<times> 'd) res) \<Rightarrow> nat \<Rightarrow> int list \<Rightarrow> 'd \<Rightarrow> (int list \<times> 'd) res" where
  "propose draft 0 context d = Inr ([], d)"
| "propose draft (Suc n) context d =
     res_bind (draft context d) (\<lambda>(token, d).
     res_bind (propose draft n (context @ [token]) d) (\<lambda>(ts, d). Inr (token # ts, d)))"

text \<open>The acceptance loop from row \<open>r\<close>: whether a proposal was rejected, and the new \<open>ids\<close> and \<open>out\<close>.\<close>

fun accept_loop ::
    "tensor \<Rightarrow> int \<Rightarrow> int list \<Rightarrow> int \<Rightarrow> int list \<Rightarrow> int list \<Rightarrow> (bool \<times> int list \<times> int list) res" where
  "accept_loop logits r [] max_tokens ids out = Inr (False, ids, out)"
| "accept_loop logits r (p # ps) max_tokens ids out =
     (if int (length out) < max_tokens
      then res_bind (argmax_row logits r) (\<lambda>target_token.
             if target_token \<noteq> p then Inr (True, ids @ [target_token], out @ [target_token])
             else accept_loop logits (r + 1) ps max_tokens (ids @ [target_token]) (out @ [target_token]))
      else Inr (False, ids, out))"

definition spec_round ::
    "(int list \<Rightarrow> tensor res) \<Rightarrow> (int list \<Rightarrow> 'd \<Rightarrow> (int \<times> 'd) res) \<Rightarrow> nat \<Rightarrow> int \<Rightarrow> int list \<Rightarrow> int list \<Rightarrow> 'd \<Rightarrow>
     (int list \<times> int list \<times> 'd) res" where
  "spec_round fwd draft lookahead max_tokens ids out d =
     res_bind (propose draft lookahead ids d) (\<lambda>(proposed, d).
     res_bind (fwd (ids @ proposed)) (\<lambda>logits.
     let base = int (length ids) in
     res_bind (accept_loop logits (base - 1) proposed max_tokens ids out) (\<lambda>(rejected, ids, out).
       if \<not> rejected \<and> int (length out) < max_tokens
       then res_bind (argmax_row logits (base - 1 + int lookahead)) (\<lambda>bonus. Inr (ids @ [bonus], out @ [bonus], d))
       else Inr (ids, out, d))))"

lemma accept_loop_grows:
  "accept_loop logits r ps mx ids out = Inr (rej, ids', out') \<Longrightarrow>
   length out \<le> length out' \<and> (rej \<longrightarrow> length out < length out')"
  by (induction logits r ps mx ids out rule: accept_loop.induct)
     (fastforce simp: res_bind_eq_Inr split: if_splits)+

lemma accept_loop_progress:
  "accept_loop logits r (p # ps) mx ids out = Inr (rej, ids', out') \<Longrightarrow> int (length out) < mx \<Longrightarrow> length out < length out'"
  using accept_loop_grows[of logits "r + 1" ps mx] by (fastforce simp: res_bind_eq_Inr split: if_splits)

lemma spec_round_progress:
  assumes "spec_round fwd draft la mx ids out d = Inr (ids', out', d')" "int (length out) < mx"
  shows "length out < length out'"
proof -
  from assms(1) obtain ps d1 logits rej ids1 out1 where a:
    "accept_loop logits (int (length ids) - 1) ps mx ids out = Inr (rej, ids1, out1)"
    "(if \<not> rej \<and> int (length out1) < mx
       then res_bind (argmax_row logits (int (length ids) - 1 + int la)) (\<lambda>bonus. Inr (ids1 @ [bonus], out1 @ [bonus], d1))
       else Inr (ids1, out1, d1)) = Inr (ids', out', d')"
    by (auto simp: spec_round_def res_bind_eq_Inr Let_def)
  note g = accept_loop_grows[OF a(1)]
  show ?thesis
  proof (cases "\<not> rej \<and> int (length out1) < mx")
    case True
    then have "length out' = Suc (length out1)" using a(2) by (auto simp: res_bind_eq_Inr)
    then show ?thesis using g by simp
  next
    case False
    then have "out' = out1" using a(2) by auto
    then show ?thesis using False g assms(2) by auto
  qed
qed

function spec_loop ::
    "(int list \<Rightarrow> tensor res) \<Rightarrow> (int list \<Rightarrow> 'd \<Rightarrow> (int \<times> 'd) res) \<Rightarrow> nat \<Rightarrow> int \<Rightarrow> int list \<Rightarrow> int list \<Rightarrow> 'd \<Rightarrow>
     (int list \<times> 'd) res" where
  "spec_loop fwd draft lookahead max_tokens ids out d =
     (if int (length out) < max_tokens
      then res_bind (spec_round fwd draft lookahead max_tokens ids out d) (\<lambda>st.
             spec_loop fwd draft lookahead max_tokens (fst st) (fst (snd st)) (snd (snd st)))
      else Inr (out, d))"
  by pat_completeness auto

termination
proof (relation "measure (\<lambda>(f, dr, la, mx, ids, out, d). nat (mx - int (length out)))", goal_cases)
  case (2 f dr la mx ids out d st)
  then obtain ids' out' d' where st: "st = (ids', out', d')" by (cases st)
  have "length out < length out'" using spec_round_progress[of f dr la mx ids out d ids' out' d'] 2 st by simp
  then show ?case using 2(1) st by simp
qed simp

declare spec_loop.simps [simp del]

definition speculative_greedy ::
    "(int list \<Rightarrow> tensor res) \<Rightarrow> (int list \<Rightarrow> 'd \<Rightarrow> (int \<times> 'd) res) \<Rightarrow> int list \<Rightarrow> int \<Rightarrow> int \<Rightarrow> 'd \<Rightarrow> (int list \<times> 'd) res" where
  "speculative_greedy fwd draft prompt max_tokens lookahead d =
     (if prompt = [] then Inl (InvalidArgument ''speculative_greedy: empty prompt'')
      else spec_loop fwd draft (nat (if lookahead < 1 then 1 else lookahead)) max_tokens prompt [] d)"

section \<open>Greedy decoding\<close>

text \<open>What it promises to equal: one forward and one argmax per token.\<close>

fun plain_greedy :: "(int list \<Rightarrow> tensor res) \<Rightarrow> nat \<Rightarrow> int list \<Rightarrow> int list res" where
  "plain_greedy fwd 0 ids = Inr []"
| "plain_greedy fwd (Suc n) ids =
     res_bind (fwd ids) (\<lambda>logits. res_bind (argmax_row logits (int (length ids) - 1)) (\<lambda>t.
     res_bind (plain_greedy fwd n (ids @ [t])) (\<lambda>ts. Inr (t # ts))))"

text \<open>A draft that always answers, with a token the target can read.\<close>

definition draft_total :: "(int list \<Rightarrow> bool) \<Rightarrow> (int list \<Rightarrow> 'd \<Rightarrow> (int \<times> 'd) res) \<Rightarrow> bool" where
  "draft_total ok draft \<longleftrightarrow> (\<forall>c d. ok c \<longrightarrow> (\<exists>t d'. draft c d = Inr (t, d') \<and> ok (c @ [t])))"

locale causal_lm =
  fixes fwd :: "'p \<Rightarrow> int list \<Rightarrow> tensor res"
    and valid :: "'p \<Rightarrow> int list \<Rightarrow> bool"
    and nxt :: "'p \<Rightarrow> int list \<Rightarrow> int"
  assumes rows_ok: "valid p ids \<Longrightarrow> ids \<noteq> [] \<Longrightarrow>
      \<exists>t. fwd p ids = Inr t \<and> (\<forall>k < length ids. argmax_row t (int k) = Inr (nxt p (take (Suc k) ids)))"
    and nxt_ok: "valid p ids \<Longrightarrow> ids \<noteq> [] \<Longrightarrow> valid p (ids @ [nxt p ids])"

text \<open>The tokens of greedy decoding.\<close>

fun greedy_tokens :: "(int list \<Rightarrow> int) \<Rightarrow> nat \<Rightarrow> int list \<Rightarrow> int list" where
  "greedy_tokens g 0 ids = []"
| "greedy_tokens g (Suc n) ids = g ids # greedy_tokens g n (ids @ [g ids])"

lemma length_greedy_tokens [simp]: "length (greedy_tokens g n ids) = n"
  by (induction n arbitrary: ids) auto

lemma greedy_tokens_add:
  "greedy_tokens g (n + k) ids = greedy_tokens g n ids @ greedy_tokens g k (ids @ greedy_tokens g n ids)"
  by (induction n arbitrary: ids) auto

context causal_lm
begin

lemma plain_greedy_tokens:
  "valid p ids \<Longrightarrow> ids \<noteq> [] \<Longrightarrow> plain_greedy (fwd p) n ids = Inr (greedy_tokens (nxt p) n ids)"
proof (induction n arbitrary: ids)
  case (Suc n)
  from rows_ok[OF Suc.prems] obtain t where t: "fwd p ids = Inr t"
    "\<forall>k < length ids. argmax_row t (int k) = Inr (nxt p (take (Suc k) ids))" by blast
  from t(2)[rule_format, of "length ids - 1"] Suc.prems(2)
  have "argmax_row t (int (length ids) - 1) = Inr (nxt p ids)" by (simp add: of_nat_diff Suc_leI)
  then show ?case using t(1) Suc.IH[OF nxt_ok[OF Suc.prems]] by simp
qed simp

lemma greedy_tokens_valid: "valid p ids \<Longrightarrow> ids \<noteq> [] \<Longrightarrow> valid p (ids @ greedy_tokens (nxt p) n ids)"
proof (induction n arbitrary: ids)
  case (Suc n)
  from Suc.IH[OF nxt_ok[OF Suc.prems]] show ?case by simp
qed simp

lemma propose_ok:
  assumes "draft_total (valid p) draft" "valid p ids"
  shows "\<exists>ps d'. propose draft n ids d = Inr (ps, d') \<and> length ps = n \<and> valid p (ids @ ps)"
  using assms(2)
proof (induction n arbitrary: ids d)
  case (Suc n)
  from assms(1) Suc.prems obtain t d1 where t: "draft ids d = Inr (t, d1)" "valid p (ids @ [t])"
    unfolding draft_total_def by blast
  from Suc.IH[OF t(2), of d1] t(1) show ?case by auto
qed simp

text \<open>The acceptance loop emits greedy tokens, at least one when there is room and a proposal.\<close>

lemma accept_loop_greedy:
  assumes "\<forall>k < length full. argmax_row t (int k) = Inr (nxt p (take (Suc k) full))"
    and "cur @ ps = full" "cur \<noteq> []"
  shows "\<exists>rej n. accept_loop t (int (length cur) - 1) ps mx cur out
      = Inr (rej, cur @ greedy_tokens (nxt p) n cur, out @ greedy_tokens (nxt p) n cur)
    \<and> (int (length out) \<le> mx \<longrightarrow> int (length out + n) \<le> mx)
    \<and> (\<not> rej \<longrightarrow> mx \<le> int (length out + n) \<or> (n = length ps \<and> cur @ greedy_tokens (nxt p) n cur = full))"
  using assms(2,3)
proof (induction ps arbitrary: cur out)
  case Nil
  then show ?case by (intro exI[of _ False] exI[of _ 0]) simp
next
  case (Cons q ps)
  show ?case
  proof (cases "int (length out) < mx")
    case False
    then show ?thesis by (intro exI[of _ False] exI[of _ 0]) simp
  next
    case True
    have "take (Suc (length cur - 1)) full = cur" "length cur - 1 < length full"
      using Cons.prems by (auto simp flip: Cons.prems(1))
    with assms(1) have a: "argmax_row t (int (length cur) - 1) = Inr (nxt p cur)"
      using Cons.prems(2) by (metis Suc_diff_1 length_greater_0_conv of_nat_Suc add_diff_cancel_left')
    show ?thesis
    proof (cases "nxt p cur = q")
      case False
      then show ?thesis using True a by (intro exI[of _ True] exI[of _ 1]) simp
    next
      case eq: True
      have f: "(cur @ [q]) @ ps = full" "cur @ [q] \<noteq> []" using Cons.prems by auto
      from Cons.IH[OF f, of "out @ [q]"] obtain rej n where r:
        "accept_loop t (int (length (cur @ [q])) - 1) ps mx (cur @ [q]) (out @ [q])
          = Inr (rej, (cur @ [q]) @ greedy_tokens (nxt p) n (cur @ [q]), (out @ [q]) @ greedy_tokens (nxt p) n (cur @ [q]))"
        "int (length (out @ [q])) \<le> mx \<longrightarrow> int (length (out @ [q]) + n) \<le> mx"
        "\<not> rej \<longrightarrow> mx \<le> int (length (out @ [q]) + n) \<or> (n = length ps \<and> (cur @ [q]) @ greedy_tokens (nxt p) n (cur @ [q]) = full)"
        by blast
      show ?thesis
        using True a eq r by (intro exI[of _ rej] exI[of _ "Suc n"]) auto
    qed
  qed
qed

lemma spec_round_greedy:
  assumes dr: "draft_total (valid p) draft"
    and v: "valid p ids" "ids \<noteq> []" and mx: "int (length out) < mx"
  shows "\<exists>n d'. spec_round (fwd p) draft la mx ids out d
      = Inr (ids @ greedy_tokens (nxt p) n ids, out @ greedy_tokens (nxt p) n ids, d') \<and> int (length out + n) \<le> mx"
proof -
  from propose_ok[OF dr v(1), where n = la and d = d] obtain ps d1 where
    ps: "propose draft la ids d = Inr (ps, d1)" "length ps = la" "valid p (ids @ ps)" by blast
  from rows_ok[OF ps(3)] v(2) obtain t where t: "fwd p (ids @ ps) = Inr t"
    "\<forall>k < length (ids @ ps). argmax_row t (int k) = Inr (nxt p (take (Suc k) (ids @ ps)))" by blast
  from accept_loop_greedy[OF t(2) refl v(2), of mx out] obtain rej n where r:
    "accept_loop t (int (length ids) - 1) ps mx ids out
      = Inr (rej, ids @ greedy_tokens (nxt p) n ids, out @ greedy_tokens (nxt p) n ids)"
    "int (length out) \<le> mx \<longrightarrow> int (length out + n) \<le> mx"
    "\<not> rej \<longrightarrow> mx \<le> int (length out + n) \<or> (n = length ps \<and> ids @ greedy_tokens (nxt p) n ids = ids @ ps)" by blast
  show ?thesis
  proof (cases "\<not> rej \<and> int (length out + n) < mx")
    case False
    then have "spec_round (fwd p) draft la mx ids out d
        = Inr (ids @ greedy_tokens (nxt p) n ids, out @ greedy_tokens (nxt p) n ids, d1)"
      using ps t(1) r(1) by (auto simp: spec_round_def Let_def)
    then show ?thesis using r(2) mx by (intro exI[of _ n] exI[of _ d1]) simp
  next
    case True
    then have g: "n = la" "greedy_tokens (nxt p) n ids = ps" using r(3) ps(2) by auto
    have "length ids + la - 1 < length (ids @ ps)" "Suc (length ids + la - 1) = length (ids @ ps)"
      using v(2) ps(2) by (auto simp: Suc_le_eq)
    with t(2) have "argmax_row t (int (length ids + la - 1)) = Inr (nxt p (ids @ ps))" by fastforce
    moreover have "int (length ids + la - 1) = int (length ids) - 1 + int la"
      using v(2) by (simp add: of_nat_diff Suc_le_eq)
    ultimately have b: "argmax_row t (int (length ids) - 1 + int la) = Inr (nxt p (ids @ ps))" by (simp only:)
    have "greedy_tokens (nxt p) (n + 1) ids = ps @ [nxt p (ids @ ps)]"
      unfolding greedy_tokens_add g(2) by simp
    moreover have "spec_round (fwd p) draft la mx ids out d
        = Inr (ids @ ps @ [nxt p (ids @ ps)], out @ ps @ [nxt p (ids @ ps)], d1)"
      using ps(1,2) t(1) r(1) g True b by (simp add: spec_round_def Let_def)
    ultimately show ?thesis using True by (intro exI[of _ "n + 1"] exI[of _ d1]) simp
  qed
qed

lemma spec_loop_greedy:
  assumes dr: "draft_total (valid p) draft"
  shows "valid p ids \<Longrightarrow> ids \<noteq> [] \<Longrightarrow>
    \<exists>d'. spec_loop (fwd p) draft la mx ids out d = Inr (out @ greedy_tokens (nxt p) (nat (mx - int (length out))) ids, d')"
proof (induction "nat (mx - int (length out))" arbitrary: ids out d rule: less_induct)
  case less
  show ?case
  proof (cases "int (length out) < mx")
    case False
    then show ?thesis by (simp add: spec_loop.simps)
  next
    case True
    from spec_round_greedy[OF dr less.prems True, where la = la and d = d] obtain n d1 where
      n: "spec_round (fwd p) draft la mx ids out d
          = Inr (ids @ greedy_tokens (nxt p) n ids, out @ greedy_tokens (nxt p) n ids, d1)" "int (length out + n) \<le> mx"
      by blast
    have "0 < n" using spec_round_progress[OF n(1) True] by simp
    then have "nat (mx - int (length (out @ greedy_tokens (nxt p) n ids))) < nat (mx - int (length out))"
      using True by simp
    from less.hyps[OF this greedy_tokens_valid[OF less.prems], of n] less.prems(2) obtain d' where
      d': "spec_loop (fwd p) draft la mx (ids @ greedy_tokens (nxt p) n ids) (out @ greedy_tokens (nxt p) n ids) d1
        = Inr ((out @ greedy_tokens (nxt p) n ids)
            @ greedy_tokens (nxt p) (nat (mx - int (length (out @ greedy_tokens (nxt p) n ids)))) (ids @ greedy_tokens (nxt p) n ids), d')"
      by auto
    have "nat (mx - int (length out)) = n + nat (mx - int (length (out @ greedy_tokens (nxt p) n ids)))"
      using n(2) by simp
    then have "out @ greedy_tokens (nxt p) (nat (mx - int (length out))) ids = (out @ greedy_tokens (nxt p) n ids)
            @ greedy_tokens (nxt p) (nat (mx - int (length (out @ greedy_tokens (nxt p) n ids)))) (ids @ greedy_tokens (nxt p) n ids)"
      by (simp only: greedy_tokens_add append_assoc)
    then show ?thesis using True n(1) d' spec_loop.simps[of "fwd p" draft la mx ids out d] by simp
  qed
qed

end
section \<open>The model is causal\<close>

text \<open>The token greedy decoding emits after \<open>ids\<close>: the first largest logit of the last row.\<close>

definition next_token :: "fpu \<Rightarrow> eigen \<Rightarrow> model \<Rightarrow> int list \<Rightarrow> int" where
  "next_token F E m ids = int (first_best (last (fst (forward_spec F E m 0 ids no_hist))) (n_vocab m))"

definition lm_ok :: "fpu \<times> eigen \<times> model \<Rightarrow> int list \<Rightarrow> bool" where
  "lm_ok p ids \<longleftrightarrow> (case p of (F, E, m) \<Rightarrow> model_ok m \<and> eigen_rowwise E \<and> 0 < n_vocab m \<and> ids_ok m ids)"

lemma argmax_row_mat:
  assumes "rect s n xss" "k < s" "0 < n"
  shows "argmax_row (mk_mat s n xss) (int k) = Inr (int (first_best (xss ! k) n))"
proof -
  have "length (concat xss) = s * n" by (rule rect_data_length[OF assms(1)])
  then have len: "n \<le> length (drop (k * n) (concat xss))" using row_in_bounds[OF assms(2), of n "s * n"] by simp
  have rk: "row n k (concat xss) = xss ! k" by (rule rect_row[OF assms(1,2)])
  have "drop (k * n) (concat xss) ! j = xss ! k ! j" if "j < n" for j
    using rk that len by (metis row_def nth_take slice_def)
  then have "i \<le> n \<Longrightarrow> first_best (drop (k * n) (concat xss)) i = first_best (xss ! k) i" for i
  proof (induction i)
    case (Suc i)
    then show ?case using first_best_lt[of i "xss ! k"] by (cases "i = 0") (auto simp: first_best_Suc)
  qed simp
  moreover have "nat (int k * int n) = k * n" by (simp add: nat_mult_distrib)
  moreover have "argmax (drop (k * n) (concat xss)) (int n) = Inr (int (first_best (drop (k * n) (concat xss)) n))"
    using len assms(3) by (intro argmax_first_best)
  moreover have "\<not> int k * int n < 0" by (simp add: not_less)
  ultimately show ?thesis by (simp add: argmax_row_def)
qed

interpretation lm: causal_lm "\<lambda>(F, E, m). forward F E m" lm_ok "\<lambda>(F, E, m). next_token F E m"
proof (unfold_locales, goal_cases)
  case (1 p ids)
  obtain F E m where p: "p = (F, E, m)" by (cases p)
  have ok: "model_ok m" "eigen_rowwise E" "0 < n_vocab m" "ids_ok m ids" using 1(1) by (auto simp: lm_ok_def p)
  have h: "\<forall>l < n_layers m. hist_ok 0 (d_kv m) (no_hist l)" using no_hist_ok by simp
  let ?r = "\<lambda>ids. fst (forward_spec F E m 0 ids no_hist)"
  note r = forward_spec_ok(1)[OF ok(2,1,4) h, of F]
  have "argmax_row (mk_mat (length ids) (n_vocab m) (?r ids)) (int k) = Inr (next_token F E m (take (Suc k) ids))"
    if k: "k < length ids" for k
  proof -
    let ?a = "take (Suc k) ids" and ?b = "drop (Suc k) ids"
    have o: "ids_ok m ?a" "ids_ok m ?b" using ok(4) by (auto simp: ids_ok_def dest: in_set_takeD in_set_dropD)
    have "?r ids = ?r ?a @ fst (forward_spec F E m (0 + length ?a) ?b (snd (forward_spec F E m 0 ?a no_hist)))"
      using forward_spec_append[OF ok(2,1) o h, of F] by simp
    moreover have "length (?r ?a) = Suc k"
      using forward_spec_ok(1)[OF ok(2,1) o(1) h, of F] k by (simp add: rect_def)
    moreover from this have "last (?r ?a) = ?r ?a ! k" by (metis diff_Suc_1 last_conv_nth length_0_conv nat.simps(3))
    ultimately have "?r ids ! k = last (?r ?a)" by (simp add: nth_append)
    then show ?thesis using argmax_row_mat[OF r k ok(3)] by (simp add: next_token_def)
  qed
  then show ?case using forward_ok[OF ok(2,1,4) 1(2), of F] by (auto simp: p)
next
  case (2 p ids)
  obtain F E m where p: "p = (F, E, m)" by (cases p)
  have ok: "0 < n_vocab m" "ids_ok m ids" using 2(1) by (auto simp: lm_ok_def p)
  then have "ids_ok m (ids @ [next_token F E m ids])"
    using first_best_lt[OF ok(1)] by (auto simp: ids_ok_def next_token_def)
  then show ?case using 2(1) by (auto simp: lm_ok_def p)
qed

section \<open>Properties\<close>

text \<open>C7: Speculative decoding is greedy decoding. Whatever the draft proposes, as long as it
  proposes tokens of the vocabulary, and whatever the lookahead, the call returns, with
  exactly the \<open>max_tokens\<close> tokens that plain greedy decoding of the target emits.\<close>

theorem speculative_equals_greedy:
  assumes "model_ok m" "eigen_rowwise E" "0 < n_vocab m" "ids_ok m prompt" "prompt \<noteq> []"
    and "draft_total (ids_ok m) draft"
  shows "\<exists>out d'. speculative_greedy (forward F E m) draft prompt max_tokens lookahead d = Inr (out, d')
    \<and> plain_greedy (forward F E m) (nat max_tokens) prompt = Inr out \<and> length out = nat max_tokens"
proof -
  have v: "lm_ok (F, E, m) prompt" using assms(1-4) by (simp add: lm_ok_def)
  have "lm_ok (F, E, m) = ids_ok m" using assms(1-3) by (auto simp: lm_ok_def fun_eq_iff)
  then have dr: "draft_total (lm_ok (F, E, m)) draft" using assms(6) by simp
  from lm.spec_loop_greedy[OF dr v assms(5), where la = "nat (if lookahead < 1 then 1 else lookahead)" and mx = max_tokens and out = "[]" and d = d]
  show ?thesis
    using lm.plain_greedy_tokens[OF v assms(5), of "nat max_tokens"] assms(5) by (auto simp: speculative_greedy_def)
qed

lemma speculative_equals_greedy_witness:
  "\<exists>out d'. speculative_greedy (forward toy_fpu toy_eigen toy_model) (\<lambda>c d. Inr (0, Suc d)) [1] 3 2 0 = Inr (out, d')
    \<and> plain_greedy (forward toy_fpu toy_eigen toy_model) 3 [1] = Inr out"
proof -
  have "0 < n_vocab toy_model" "ids_ok toy_model [1]" by code_simp+
  moreover have "draft_total (ids_ok toy_model) (\<lambda>c d. Inr (0, Suc d))"
    using \<open>0 < n_vocab toy_model\<close> by (auto simp: draft_total_def ids_ok_def)
  ultimately show ?thesis
    using speculative_equals_greedy[OF toy_model_ok toy_rowwise, of "[1]" "\<lambda>c d. Inr (0, Suc d)" toy_fpu 3 2 0] by auto
qed

end
