(* ===== verification/Batch_Content.thy ===== *)
theory Batch_Content
  imports Batch_Forward Speculative
begin

text \<open>
  What the blocks of a sequence hold, as a function of its tokens: the keys and values of a
  full forward over them (\<open>hist_of\<close>). \<open>holds\<close> says so of a table, \<open>blk_holds\<close> of a single
  cached block. Batching, sharing and registering are then statements about token lists.
\<close>

section \<open>The history of a token list\<close>

definition hist_of :: "fpu \<Rightarrow> eigen \<Rightarrow> model \<Rightarrow> int list \<Rightarrow> nat \<Rightarrow> hist" where
  "hist_of F E m ids l = snd (forward_spec F E m 0 ids no_hist) l"

lemma no_hist_all: "\<forall>l < n_layers m. hist_ok 0 (d_kv m) (no_hist l)"
  by (simp add: no_hist_ok)

lemma hist_of_ok:
  assumes "eigen_rowwise E" "model_ok m" "ids_ok m ids"
  shows "\<forall>l < n_layers m. hist_ok (length ids) (d_kv m) (hist_of F E m ids l)"
  using forward_spec_ok(2)[OF assms no_hist_all, of F] by (simp add: hist_of_def)

lemma hist_of_len:
  assumes "eigen_rowwise E" "model_ok m" "ids_ok m ids" "l < n_layers m"
  shows "length (fst (hist_of F E m ids l)) = length ids" "length (snd (hist_of F E m ids l)) = length ids"
  using hist_of_ok[OF assms(1-3), of F] assms(4) by (auto simp: hist_ok_def rect_def)

text \<open>Running on extends the history and leaves what was there.\<close>

lemma layer_spec_extends:
  "\<exists>ks vs. snd (layer_spec F E m l past xss h) = (fst h @ ks, snd h @ vs)"
  by (simp add: layer_spec_def Let_def)

lemma stack_spec_extends:
  "\<exists>ks vs. snd (stack_spec F E m L past xss H) l = (fst (H l) @ ks, snd (H l) @ vs)"
proof (induction L)
  case (Suc L)
  show ?case
  proof (cases "l = L")
    case True
    have "snd (stack_spec F E m L past xss H) L = H L" by (simp add: stack_spec_other)
    then show ?thesis
      using True layer_spec_extends[of F E m L past "fst (stack_spec F E m L past xss H)" "H L"]
      by (simp add: case_prod_unfold Let_def)
  qed (use Suc in \<open>simp add: case_prod_unfold Let_def\<close>)
qed (metis append_Nil2 prod.collapse snd_conv stack_spec.simps(1))

lemma hist_of_append:
  assumes "eigen_rowwise E" "model_ok m" "ids_ok m ids" "ids_ok m ids'"
  shows "hist_of F E m (ids @ ids') = snd (forward_spec F E m (length ids) ids' (hist_of F E m ids))"
    "fst (forward_spec F E m 0 (ids @ ids') no_hist)
      = fst (forward_spec F E m 0 ids no_hist) @ fst (forward_spec F E m (length ids) ids' (hist_of F E m ids))"
proof -
  have e: "snd (forward_spec F E m 0 ids no_hist) = hist_of F E m ids" by (simp add: hist_of_def fun_eq_iff)
  note A = forward_spec_append[OF assms no_hist_all, of F, unfolded e]
  show "hist_of F E m (ids @ ids') = snd (forward_spec F E m (length ids) ids' (hist_of F E m ids))"
    using A by (simp add: hist_of_def fun_eq_iff)
  show "fst (forward_spec F E m 0 (ids @ ids') no_hist)
      = fst (forward_spec F E m 0 ids no_hist) @ fst (forward_spec F E m (length ids) ids' (hist_of F E m ids))"
    using A by simp
qed

lemma hist_of_take:
  assumes E: "eigen_rowwise E" "model_ok m" and ids: "ids_ok m ids" and l: "l < n_layers m"
  shows "hist_of F E m (take k ids) l = (take k (fst (hist_of F E m ids l)), take k (snd (hist_of F E m ids l)))"
proof (cases "k \<le> length ids")
  case True
  have o: "ids_ok m (take k ids)" "ids_ok m (drop k ids)" using ids by (auto simp: ids_ok_def dest: in_set_takeD in_set_dropD)
  have "hist_of F E m ids l = snd (forward_spec F E m (length (take k ids)) (drop k ids) (hist_of F E m (take k ids))) l"
    using hist_of_append(1)[OF E o, of F] by simp
  moreover obtain ks vs where "snd (forward_spec F E m (length (take k ids)) (drop k ids) (hist_of F E m (take k ids))) l
      = (fst (hist_of F E m (take k ids) l) @ ks, snd (hist_of F E m (take k ids) l) @ vs)"
    using stack_spec_extends[of F E m "n_layers m" "length (take k ids)" "embed_rows m (drop k ids)" "hist_of F E m (take k ids)" l]
    by (auto simp: forward_spec_def case_prod_unfold Let_def)
  ultimately show ?thesis using hist_of_len[OF E o(1) l, of F] True by (simp add: prod_eq_iff)
next
  case False
  then show ?thesis using hist_of_len[OF E ids l, of F] by (simp add: prod_eq_iff)
qed

section \<open>Tables that hold a context\<close>

definition holds :: "fpu \<Rightarrow> eigen \<Rightarrow> model \<Rightarrow> nat \<Rightarrow> block_manager \<Rightarrow> int list \<Rightarrow> int list \<Rightarrow> bool" where
  "holds F E m bs mgr t ctx \<longleftrightarrow> (\<forall>l < n_layers m. bm_view bs (d_kv m) mgr t (length ctx) l = hist_of F E m ctx l)"

definition blk_holds :: "fpu \<Rightarrow> eigen \<Rightarrow> model \<Rightarrow> nat \<Rightarrow> block_manager \<Rightarrow> int list list \<Rightarrow> int list \<Rightarrow> int \<Rightarrow> bool" where
  "blk_holds F E m bs mgr c span b \<longleftrightarrow> ids_ok m (concat c @ span) \<and> length (concat c) = length c * bs \<and> length span = bs \<and>
     (\<forall>l < n_layers m. bm_view bs (d_kv m) mgr [b] bs l =
        (drop (length c * bs) (fst (hist_of F E m (concat c @ span) l)), drop (length c * bs) (snd (hist_of F E m (concat c @ span) l))))"

lemma holds_Nil [simp]: "holds F E m bs mgr t []"
proof -
  have "stack_spec F E m L 0 [] no_hist = ([], no_hist)" for L
    by (induction L) (simp_all add: layer_spec_def Let_def attn_rows_def no_hist_def fun_upd_idem)
  then show ?thesis
    by (simp add: holds_def hist_of_def forward_spec_def embed_rows_def bm_view_def seq_rows_def no_hist_def)
qed

lemma view_block_row:
  assumes "0 < bs" "r < n"
  shows "fst (bm_view bs w mgr t n l) ! r = fst (bm_view bs w mgr [t ! (r div bs)] bs l) ! (r mod bs)"
    "snd (bm_view bs w mgr t n l) ! r = snd (bm_view bs w mgr [t ! (r div bs)] bs l) ! (r mod bs)"
  using assms by (simp_all add: bm_view_def phys_def)

lemma concat_full_spans:
  assumes "i \<le> length ids div bs"
  shows "concat (take i (full_spans bs ids)) = take (i * bs) ids"
proof -
  have "i * bs \<le> length ids" using assms by (meson div_times_less_eq_dividend le_trans mult_le_mono1)
  moreover have "take i (full_spans bs ids) = rows bs i ids"
    using assms by (auto simp: full_spans_def rows_def take_map min_def)
  ultimately show ?thesis by (simp add: concat_rows_take)
qed

lemma concat_full_spans_Suc:
  assumes "i < length ids div bs"
  shows "concat (take i (full_spans bs ids)) @ full_spans bs ids ! i = take (Suc i * bs) ids"
proof -
  have "concat (take (Suc i) (full_spans bs ids)) = concat (take i (full_spans bs ids)) @ full_spans bs ids ! i"
    using assms by (simp add: take_Suc_conv_app_nth)
  then show ?thesis using concat_full_spans[of "Suc i" ids bs] assms by simp
qed

lemma full_spans_len:
  assumes "i < length ids div bs"
  shows "length (full_spans bs ids ! i) = bs" "length (concat (take i (full_spans bs ids))) = i * bs"
    "length (take i (full_spans bs ids)) = i" "Suc i * bs \<le> length ids"
proof -
  show s: "Suc i * bs \<le> length ids" using assms by (metis Suc_leI div_times_less_eq_dividend le_trans mult_le_mono1)
  show "length (concat (take i (full_spans bs ids))) = i * bs" using concat_full_spans[of i ids bs] assms s by simp
  show "length (take i (full_spans bs ids)) = i" using assms by simp
  show "length (full_spans bs ids ! i) = bs"
    using assms length_row[of "length ids div bs" bs ids i] by (simp add: full_spans_def)
qed

lemma drop_take_nth:
  assumes "a + k < b" "b \<le> length xs"
  shows "drop a (take b xs) ! k = xs ! (a + k)"
  using assms by (simp add: add.commute)

text \<open>A table whose blocks hold the spans of a token list holds the tokens, and the converse.\<close>

lemma blocks_hold:
  assumes E: "eigen_rowwise E" "model_ok m" and ids: "ids_ok m ids" and bs: "0 < bs"
    and k: "k \<le> length ids div bs"
    and b: "\<forall>i < k. blk_holds F E m bs mgr (take i (full_spans bs ids)) (full_spans bs ids ! i) (t ! i)"
  shows "holds F E m bs mgr t (take (k * bs) ids)"
  unfolding holds_def
proof (intro allI impI)
  fix l assume l: "l < n_layers m"
  have kl: "k * bs \<le> length ids" using k by (meson div_times_less_eq_dividend le_trans mult_le_mono1)
  have ids': "ids_ok m (take n ids)" for n using ids by (auto simp: ids_ok_def dest: in_set_takeD)
  have row: "fst (bm_view bs (d_kv m) mgr t (k * bs) l) ! r = fst (hist_of F E m (take (k * bs) ids) l) ! r
    \<and> snd (bm_view bs (d_kv m) mgr t (k * bs) l) ! r = snd (hist_of F E m (take (k * bs) ids) l) ! r" if r: "r < k * bs" for r
  proof -
    define i where "i = r div bs"
    have i: "i < k" using r bs by (simp add: i_def less_mult_imp_div_less)
    have ri: "r = i * bs + r mod bs" "r mod bs < bs" using bs by (simp_all add: i_def)
    have ii: "i < length ids div bs" using i k by simp
    note S = full_spans_len[OF ii]
    have "blk_holds F E m bs mgr (take i (full_spans bs ids)) (full_spans bs ids ! i) (t ! i)" using b i by simp
    then have v: "bm_view bs (d_kv m) mgr [t ! i] bs l
        = (drop (i * bs) (fst (hist_of F E m (take (Suc i * bs) ids) l)), drop (i * bs) (snd (hist_of F E m (take (Suc i * bs) ids) l)))"
      unfolding blk_holds_def S(3) concat_full_spans_Suc[OF ii] using l by blast
    have le: "Suc i * bs \<le> k * bs" using i by (simp add: mult_le_mono1 Suc_leI del: mult_Suc)
    have tk: "take (Suc i * bs) ids = take (Suc i * bs) (take (k * bs) ids)" using le by (simp add: min_def del: mult_Suc)
    have rlt: "r < Suc i * bs" using ri by simp
    have len: "length (fst (hist_of F E m (take (k * bs) ids) l)) = k * bs" "length (snd (hist_of F E m (take (k * bs) ids) l)) = k * bs"
      using hist_of_len[OF E ids'[of "k * bs"] l, of F] kl by simp_all
    have h: "hist_of F E m (take (Suc i * bs) ids) l
        = (take (Suc i * bs) (fst (hist_of F E m (take (k * bs) ids) l)), take (Suc i * bs) (snd (hist_of F E m (take (k * bs) ids) l)))"
      unfolding tk by (rule hist_of_take[OF E ids' l])
    have a: "i * bs + r mod bs < Suc i * bs" using ri(2) by simp
    have e: "i * bs + r mod bs = r" by (simp add: i_def)
    have le1: "Suc i * bs \<le> length (fst (hist_of F E m (take (k * bs) ids) l))"
      and le2: "Suc i * bs \<le> length (snd (hist_of F E m (take (k * bs) ids) l))"
      unfolding len by (rule le)+
    show ?thesis
      unfolding view_block_row[OF bs r, of "d_kv m" mgr t l] i_def[symmetric] v h fst_conv snd_conv
      using drop_take_nth[OF a le1] drop_take_nth[OF a le2] unfolding e by blast
  qed
  have len: "length (fst (hist_of F E m (take (k * bs) ids) l)) = k * bs" "length (snd (hist_of F E m (take (k * bs) ids) l)) = k * bs"
    using hist_of_len[OF E ids'[of "k * bs"] l, of F] kl by simp_all
  have "fst (bm_view bs (d_kv m) mgr t (k * bs) l) = fst (hist_of F E m (take (k * bs) ids) l)"
    "snd (bm_view bs (d_kv m) mgr t (k * bs) l) = snd (hist_of F E m (take (k * bs) ids) l)"
    using row len by (auto intro!: nth_equalityI simp: bm_view_def)
  then show "bm_view bs (d_kv m) mgr t (length (take (k * bs) ids)) l = hist_of F E m (take (k * bs) ids) l"
    using kl by (simp add: prod_eq_iff)
qed

lemma holds_block:
  assumes E: "eigen_rowwise E" "model_ok m" and ids: "ids_ok m ids" and bs: "0 < bs"
    and h: "holds F E m bs mgr t ids" and i: "i < length ids div bs"
  shows "blk_holds F E m bs mgr (take i (full_spans bs ids)) (full_spans bs ids ! i) (t ! i)"
proof -
  note S = full_spans_len[OF i]
  have o: "ids_ok m (take (Suc i * bs) ids)" using ids by (auto simp: ids_ok_def dest: in_set_takeD)
  have "bm_view bs (d_kv m) mgr [t ! i] bs l
      = (drop (i * bs) (fst (hist_of F E m (take (Suc i * bs) ids) l)), drop (i * bs) (snd (hist_of F E m (take (Suc i * bs) ids) l)))"
    if l: "l < n_layers m" for l
  proof -
    have v: "bm_view bs (d_kv m) mgr t (length ids) l = hist_of F E m ids l" using h l by (simp add: holds_def)
    have q: "(i * bs + k) div bs = i" "(i * bs + k) mod bs = k" "i * bs + k < length ids" if "k < bs" for k
      using that bs S(4) by simp_all
    have row: "fst (bm_view bs (d_kv m) mgr [t ! i] bs l) ! k = fst (hist_of F E m ids l) ! (i * bs + k)
      \<and> snd (bm_view bs (d_kv m) mgr [t ! i] bs l) ! k = snd (hist_of F E m ids l) ! (i * bs + k)" if "k < bs" for k
      using view_block_row[OF bs q(3)[OF that], of "d_kv m" mgr t l] q[OF that] v by simp
    note H = hist_of_take[OF E ids l, of F "Suc i * bs"] and L = hist_of_len[OF E ids l, of F]
    have "fst (bm_view bs (d_kv m) mgr [t ! i] bs l) = drop (i * bs) (fst (hist_of F E m (take (Suc i * bs) ids) l))"
      "snd (bm_view bs (d_kv m) mgr [t ! i] bs l) = drop (i * bs) (snd (hist_of F E m (take (Suc i * bs) ids) l))"
      using row L S(4) unfolding H by (auto intro!: nth_equalityI simp: bm_view_def)
    then show ?thesis by (simp add: prod_eq_iff)
  qed
  then show ?thesis unfolding blk_holds_def concat_full_spans_Suc[OF i] S(1-3) using o by simp
qed

section \<open>A batch in terms of token lists\<close>

text \<open>The logits a full forward gives for the token after \<open>ids\<close>.\<close>

definition next_logits :: "fpu \<Rightarrow> eigen \<Rightarrow> model \<Rightarrow> int list \<Rightarrow> f32 list" where
  "next_logits F E m ids =
     (case forward F E m ids of Inl _ \<Rightarrow> [] | Inr t \<Rightarrow> drop ((length ids - 1) * n_vocab m) (t_data t))"

lemma drop_concat_last:
  assumes "\<forall>x \<in> set xss. length x = w" "xss \<noteq> []"
  shows "drop ((length xss - 1) * w) (concat xss) = last xss"
proof -
  obtain ys y where xss: "xss = ys @ [y]" using assms(2) by (metis rev_exhaust)
  have "length (concat ys) = length ys * w" using assms(1) by (intro length_concat_uniform) (simp add: xss)
  then show ?thesis by (simp add: xss)
qed

lemma next_logits_eq:
  assumes E: "eigen_rowwise E" and ok: "model_ok m" "ids_ok m ids" "ids \<noteq> []"
  shows "next_logits F E m ids = last (fst (forward_spec F E m 0 ids no_hist))" "length (next_logits F E m ids) = n_vocab m"
proof -
  let ?r = "fst (forward_spec F E m 0 ids no_hist)"
  have r: "rect (length ids) (n_vocab m) ?r" using forward_spec_ok(1)[OF E ok(1,2) no_hist_all] .
  then have ne: "?r \<noteq> []" using ok(3) by (auto simp: rect_def)
  show e: "next_logits F E m ids = last ?r"
    using drop_concat_last[of ?r "n_vocab m"] r ne
    unfolding next_logits_def forward_ok[OF E ok] mk_mat_def rect_def by simp
  show "length (next_logits F E m ids) = n_vocab m" unfolding e using r last_in_set[OF ne] unfolding rect_def by blast
qed

text \<open>
  Every job's sequence holds the context \<open>ctx a\<close>; its row of the batch's logits is the one
  the full forward gives for the context and the new tokens, and its blocks then hold both.
\<close>

definition job_context :: "fpu \<Rightarrow> eigen \<Rightarrow> model \<Rightarrow> nat \<Rightarrow> block_manager \<Rightarrow> (int \<Rightarrow> int list) \<Rightarrow> bjob \<Rightarrow> bool" where
  "job_context F E m bs mgr ctx j \<longleftrightarrow> ids_ok m (ctx (bj_addr j) @ bj_toks j) \<and> bj_past j = length (ctx (bj_addr j))
     \<and> bj_past j \<le> length (bj_table j) * bs \<and> holds F E m bs mgr (bj_table j) (ctx (bj_addr j))"

lemma forward_batch_ctx:
  assumes E: "eigen_rowwise E" and ok: "model_ok m"
    and sh: "bm_shape bs (d_kv m) nb (n_layers m) mgr" and st: "store_inv st as mgr"
    and js: "js \<noteq> []" "distinct (map bj_addr js)" "bj_addr ` set js \<subseteq> set as"
    and rd: "\<forall>j \<in> set js. job_ready bs mgr st j \<and> job_context F E m bs mgr ctx j"
    and need: "sum_list (map (job_need bs) js) \<le> bm_avail mgr"
  shows "\<exists>st' mgr'. forward_batch F E m (map job_item js) st mgr
      = Inr (mk_mat (length js) (n_vocab m) (map (\<lambda>j. next_logits F E m (ctx (bj_addr j) @ bj_toks j)) js), st', mgr')
    \<and> store_inv st' as mgr' \<and> bm_shape bs (d_kv m) nb (n_layers m) mgr'
    \<and> (\<forall>a. a \<notin> bj_addr ` set js \<longrightarrow> st' a = st a)
    \<and> (\<forall>j \<in> set js. \<exists>t. st' (bj_addr j) = Some \<lparr>block_table = t, seq_length = int (bj_past j + bj_len j)\<rparr>
         \<and> length t = max (length (bj_table j)) (nblk bs (bj_past j + bj_len j)) \<and> priv_from bs mgr' (bj_past j) t
         \<and> holds F E m bs mgr' t (ctx (bj_addr j) @ bj_toks j))
    \<and> mset (entries mgr') \<subseteq># mset (entries mgr) \<and> (\<forall>b. priv mgr b \<longrightarrow> priv mgr' b)
    \<and> bm_avail mgr' = bm_avail mgr - sum_list (map (job_need bs) js)
    \<and> (\<forall>t i l. table_ok nb t \<longrightarrow> i \<le> length t * bs \<longrightarrow>
         (\<forall>b \<in> set t. \<not> (priv mgr' b \<and> (\<exists>j \<in> set js. b \<in> set (block_table (the (st' (bj_addr j))))))) \<longrightarrow>
         bm_view bs (d_kv m) mgr' t i l = bm_view bs (d_kv m) mgr t i l)"
proof -
  let ?H = "\<lambda>a. hist_of F E m (ctx a)"
  have o: "ids_ok m (ctx (bj_addr j))" "ids_ok m (bj_toks j)" "ctx (bj_addr j) @ bj_toks j \<noteq> []" if "j \<in> set js" for j
    using rd that by (auto simp: job_context_def ids_ok_def job_ready_def)
  have h: "\<forall>j \<in> set js. job_ready bs mgr st j \<and> job_holds bs m mgr ?H j"
  proof
    fix j assume j: "j \<in> set js"
    have c: "job_ready bs mgr st j" "bj_past j = length (ctx (bj_addr j))" "bj_past j \<le> length (bj_table j) * bs"
      "holds F E m bs mgr (bj_table j) (ctx (bj_addr j))" using rd j by (auto simp: job_context_def)
    show "job_ready bs mgr st j \<and> job_holds bs m mgr ?H j"
      using c(1,3,4) hist_of_ok[OF E ok o(1)[OF j], of F] o(2)[OF j] unfolding job_holds_def holds_def c(2) by simp
  qed
  have sp: "last (fst (job_spec F E m ?H j)) = next_logits F E m (ctx (bj_addr j) @ bj_toks j)"
    "snd (job_spec F E m ?H j) = hist_of F E m (ctx (bj_addr j) @ bj_toks j)" if j: "j \<in> set js" for j
  proof -
    have p: "bj_past j = length (ctx (bj_addr j))" "bj_toks j \<noteq> []" "ids_ok m (ctx (bj_addr j) @ bj_toks j)"
      using rd j by (auto simp: job_context_def job_ready_def)
    note A = hist_of_append[OF E ok o(1,2)[OF j], of F]
    show "snd (job_spec F E m ?H j) = hist_of F E m (ctx (bj_addr j) @ bj_toks j)"
      unfolding A(1) job_spec_def p(1) ..
    have "fst (forward_spec F E m (length (ctx (bj_addr j))) (bj_toks j) (?H (bj_addr j))) \<noteq> []"
      using forward_spec_ok(1)[OF E ok o(2)[OF j], of "length (ctx (bj_addr j))" "?H (bj_addr j)" F]
        hist_of_ok[OF E ok o(1)[OF j], of F] p(2) by (auto simp: rect_def)
    then show "last (fst (job_spec F E m ?H j)) = next_logits F E m (ctx (bj_addr j) @ bj_toks j)"
      unfolding next_logits_eq(1)[OF E ok p(3) o(3)[OF j]] A(2) job_spec_def p(1) by simp
  qed
  have out: "map (\<lambda>j. last (fst (job_spec F E m ?H j))) js = map (\<lambda>j. next_logits F E m (ctx (bj_addr j) @ bj_toks j)) js"
    using sp(1) by simp
  have hl: "holds F E m bs mgr' t (ctx (bj_addr j) @ bj_toks j)"
    if "j \<in> set js" "\<forall>l < n_layers m. bm_view bs (d_kv m) mgr' t (bj_past j + bj_len j) l = snd (job_spec F E m ?H j) l" for j t mgr'
    using that sp(2)[OF that(1)] rd by (simp add: holds_def job_context_def)
  from forward_batch_ok[OF E ok sh st js h need, of F, unfolded out] obtain st' mgr' where
    R: "forward_batch F E m (map job_item js) st mgr
      = Inr (mk_mat (length js) (n_vocab m) (map (\<lambda>j. next_logits F E m (ctx (bj_addr j) @ bj_toks j)) js), st', mgr')"
    "store_inv st' as mgr'" "bm_shape bs (d_kv m) nb (n_layers m) mgr'" "\<forall>a. a \<notin> bj_addr ` set js \<longrightarrow> st' a = st a"
    and J: "\<forall>j \<in> set js. \<exists>t. st' (bj_addr j) = Some \<lparr>block_table = t, seq_length = int (bj_past j + bj_len j)\<rparr>
         \<and> length t = max (length (bj_table j)) (nblk bs (bj_past j + bj_len j)) \<and> priv_from bs mgr' (bj_past j) t
         \<and> (\<forall>l < n_layers m. bm_view bs (d_kv m) mgr' t (bj_past j + bj_len j) l = snd (job_spec F E m ?H j) l)"
    and R2: "mset (entries mgr') \<subseteq># mset (entries mgr)" "\<forall>b. priv mgr b \<longrightarrow> priv mgr' b"
    "bm_avail mgr' = bm_avail mgr - sum_list (map (job_need bs) js)"
    "\<forall>t i l. table_ok nb t \<longrightarrow> i \<le> length t * bs \<longrightarrow>
         (\<forall>b \<in> set t. \<not> (priv mgr' b \<and> (\<exists>j \<in> set js. b \<in> set (block_table (the (st' (bj_addr j))))))) \<longrightarrow>
         bm_view bs (d_kv m) mgr' t i l = bm_view bs (d_kv m) mgr t i l"
    by blast
  have "\<forall>j \<in> set js. \<exists>t. st' (bj_addr j) = Some \<lparr>block_table = t, seq_length = int (bj_past j + bj_len j)\<rparr>
         \<and> length t = max (length (bj_table j)) (nblk bs (bj_past j + bj_len j)) \<and> priv_from bs mgr' (bj_past j) t
         \<and> holds F E m bs mgr' t (ctx (bj_addr j) @ bj_toks j)"
    using J hl by blast
  with R R2 show ?thesis by (intro exI[of _ st'] exI[of _ mgr'] conjI)
qed

text \<open>A sequence outside the batch keeps what its blocks hold.\<close>

lemma batch_frame:
  assumes sh: "bm_shape bs w nb nl mgr'" and st: "store_inv st' as mgr'"
    and a: "a \<in> set as" "st' a = Some blk" "a \<notin> A" and A: "A \<subseteq> set as" "\<forall>a' \<in> A. \<exists>blk'. st' a' = Some blk'"
    and fr: "\<forall>t i l. table_ok nb t \<longrightarrow> i \<le> length t * bs \<longrightarrow>
         (\<forall>b \<in> set t. \<not> (priv mgr' b \<and> (\<exists>a' \<in> A. b \<in> set (block_table (the (st' a')))))) \<longrightarrow>
         bm_view bs w mgr' t i l = bm_view bs w mgr t i l"
    and i: "i \<le> length (block_table blk) * bs"
  shows "bm_view bs w mgr' (block_table blk) i l = bm_view bs w mgr (block_table blk) i l"
proof (rule fr[rule_format])
  show "table_ok nb (block_table blk)" by (rule store_inv_table_ok[OF st a(1,2) sh])
  fix b assume b: "b \<in> set (block_table blk)"
  show "\<not> (priv mgr' b \<and> (\<exists>a' \<in> A. b \<in> set (block_table (the (st' a')))))"
  proof
    assume "priv mgr' b \<and> (\<exists>a' \<in> A. b \<in> set (block_table (the (st' a'))))"
    then obtain a' blk' where "a' \<in> A" "st' a' = Some blk'" "b \<in> set (block_table blk')" "seq_refs mgr' b = 1"
      using A(2) by (fastforce simp: priv_def)
    with store_inv_sep[OF st a(1) _ _ a(2) _ b, of a' blk'] a(3) A(1) show False by auto
  qed
qed (rule i)

text \<open>C3: A batch computes for each of its items exactly what a full forward over the tokens of that
  sequence alone computes, whatever the other items are: if the blocks of every item's
  sequence hold its context, the call returns, row \<open>k\<close> of the logits is the last row of the
  full forward over context and new tokens of item \<open>k\<close>, the blocks then hold both, and the
  sequences outside the batch keep their blocks and what these hold.\<close>

theorem forward_batch_exact:
  assumes E: "eigen_rowwise E" and ok: "model_ok m"
    and sh: "bm_shape bs (d_kv m) nb (n_layers m) mgr" and st: "store_inv st as mgr"
    and js: "js \<noteq> []" "distinct (map bj_addr js)" "bj_addr ` set js \<subseteq> set as"
    and rd: "\<forall>j \<in> set js. job_ready bs mgr st j \<and> job_context F E m bs mgr ctx j"
    and need: "sum_list (map (job_need bs) js) \<le> bm_avail mgr"
  shows "\<exists>logits st' mgr'. forward_batch F E m (map job_item js) st mgr = Inr (logits, st', mgr')
    \<and> store_inv st' as mgr' \<and> bm_shape bs (d_kv m) nb (n_layers m) mgr'
    \<and> (\<forall>k < length js. row (n_vocab m) k (t_data logits) = next_logits F E m (ctx (bj_addr (js ! k)) @ bj_toks (js ! k)))
    \<and> (\<forall>j \<in> set js. \<exists>t. st' (bj_addr j) = Some \<lparr>block_table = t, seq_length = int (bj_past j + bj_len j)\<rparr>
         \<and> holds F E m bs mgr' t (ctx (bj_addr j) @ bj_toks j))
    \<and> (\<forall>a \<in> set as. \<forall>blk c. a \<notin> bj_addr ` set js \<longrightarrow> st a = Some blk \<longrightarrow> st' a = Some blk
         \<and> (length c \<le> length (block_table blk) * bs \<longrightarrow> holds F E m bs mgr (block_table blk) c \<longrightarrow>
              holds F E m bs mgr' (block_table blk) c))"
proof -
  from forward_batch_ctx[OF E ok sh st js rd need] obtain st' mgr' where
    R: "forward_batch F E m (map job_item js) st mgr
      = Inr (mk_mat (length js) (n_vocab m) (map (\<lambda>j. next_logits F E m (ctx (bj_addr j) @ bj_toks j)) js), st', mgr')"
    "store_inv st' as mgr'" "bm_shape bs (d_kv m) nb (n_layers m) mgr'" "\<forall>a. a \<notin> bj_addr ` set js \<longrightarrow> st' a = st a"
    and J: "\<forall>j \<in> set js. \<exists>t. st' (bj_addr j) = Some \<lparr>block_table = t, seq_length = int (bj_past j + bj_len j)\<rparr>
         \<and> length t = max (length (bj_table j)) (nblk bs (bj_past j + bj_len j)) \<and> priv_from bs mgr' (bj_past j) t
         \<and> holds F E m bs mgr' t (ctx (bj_addr j) @ bj_toks j)"
    and fr: "\<forall>t i l. table_ok nb t \<longrightarrow> i \<le> length t * bs \<longrightarrow>
         (\<forall>b \<in> set t. \<not> (priv mgr' b \<and> (\<exists>j \<in> set js. b \<in> set (block_table (the (st' (bj_addr j))))))) \<longrightarrow>
         bm_view bs (d_kv m) mgr' t i l = bm_view bs (d_kv m) mgr t i l"
    by blast
  let ?A = "bj_addr ` set js" and ?rows = "map (\<lambda>j. next_logits F E m (ctx (bj_addr j) @ bj_toks j)) js"
  have some: "\<forall>a' \<in> ?A. \<exists>blk'. st' a' = Some blk'" using J by blast
  have fr': "\<forall>t i l. table_ok nb t \<longrightarrow> i \<le> length t * bs \<longrightarrow>
         (\<forall>b \<in> set t. \<not> (priv mgr' b \<and> (\<exists>a' \<in> ?A. b \<in> set (block_table (the (st' a')))))) \<longrightarrow>
         bm_view bs (d_kv m) mgr' t i l = bm_view bs (d_kv m) mgr t i l"
    using fr by simp
  have frame: "holds F E m bs mgr' (block_table blk) c"
    if "a \<in> set as" "a \<notin> ?A" "st' a = Some blk" "length c \<le> length (block_table blk) * bs" "holds F E m bs mgr (block_table blk) c"
    for a blk c
    using batch_frame[OF R(3,2) that(1,3,2) js(3) some fr' that(4)] that(5) unfolding holds_def by simp
  have len: "length x = n_vocab m" if "x \<in> set ?rows" for x
  proof -
    from that obtain j where j: "j \<in> set js" "x = next_logits F E m (ctx (bj_addr j) @ bj_toks j)" by auto
    then have "ids_ok m (ctx (bj_addr j) @ bj_toks j)" "ctx (bj_addr j) @ bj_toks j \<noteq> []"
      using rd unfolding job_context_def job_ready_def by blast+
    from next_logits_eq(2)[OF E ok this] show ?thesis unfolding j(2) .
  qed
  have rows: "row (n_vocab m) k (t_data (mk_mat (length js) (n_vocab m) ?rows)) = next_logits F E m (ctx (bj_addr (js ! k)) @ bj_toks (js ! k))"
    if "k < length js" for k
  proof -
    have "row (n_vocab m) k (concat ?rows) = ?rows ! k" using that by (intro row_concat len) simp_all
    then show ?thesis unfolding nth_map[OF that] mk_mat_def tensor.simps .
  qed
  show ?thesis
  proof (intro exI[of _ "mk_mat (length js) (n_vocab m) ?rows"] exI[of _ st'] exI[of _ mgr'] conjI R(1-3))
    show "\<forall>a \<in> set as. \<forall>blk c. a \<notin> ?A \<longrightarrow> st a = Some blk \<longrightarrow> st' a = Some blk
         \<and> (length c \<le> length (block_table blk) * bs \<longrightarrow> holds F E m bs mgr (block_table blk) c \<longrightarrow> holds F E m bs mgr' (block_table blk) c)"
      using frame R(4) by simp
  qed (use rows J in blast)+
qed

lemma forward_batch_exact_witness:
  "\<exists>mgr logits st' mgr'. bm_new 1 1 2 3 = Inr mgr
    \<and> forward_batch toy_fpu toy_eigen toy_model
        [\<lparr>bi_blocks = Some 0, bi_tokens = [1, 0, 1]\<rparr>, \<lparr>bi_blocks = Some 1, bi_tokens = [1]\<rparr>]
        [0 \<mapsto> no_blocks, 1 \<mapsto> no_blocks] mgr = Inr (logits, st', mgr')
    \<and> row (n_vocab toy_model) 1 (t_data logits) = next_logits toy_fpu toy_eigen toy_model [1]"
proof -
  have d: "n_layers toy_model = 1" "d_kv toy_model = 1" by code_simp+
  from bm_new_ok[of "n_layers toy_model" "d_kv toy_model" 2 3] obtain mgr where
    m: "bm_new 1 1 2 3 = Inr mgr" "bm_shape 2 (d_kv toy_model) 3 (n_layers toy_model) mgr" "seqs_inv mgr []" "bm_avail mgr = 3"
    unfolding d by auto
  let ?st = "[0 \<mapsto> no_blocks, 1 \<mapsto> no_blocks] :: seq_store"
  let ?js = "[\<lparr>bj_addr = 0, bj_toks = [1, 0, 1], bj_past = 0, bj_table = []\<rparr>, \<lparr>bj_addr = 1, bj_toks = [1], bj_past = 0, bj_table = []\<rparr>]"
  have st: "store_inv ?st [0, 1] mgr"
    using m(3) by (simp add: store_inv_def store_tables_def no_blocks_def seqs_inv_def held_def fun_eq_iff)
  have "ids_ok toy_model [1, 0, 1]" "ids_ok toy_model [1]" by code_simp+
  then have rd: "\<forall>j \<in> set ?js. job_ready 2 mgr ?st j \<and> job_context toy_fpu toy_eigen toy_model 2 mgr (\<lambda>_. []) j"
    by (simp add: job_ready_def job_context_def job_blk_def no_blocks_def priv_from_def)
  have "sum_list (map (job_need 2) ?js) \<le> bm_avail mgr" by (simp add: m(4) job_need_def nblk_def)
  from forward_batch_exact[OF toy_rowwise toy_model_ok m(2) st _ _ _ rd this] obtain logits st' mgr' where
    "forward_batch toy_fpu toy_eigen toy_model (map job_item ?js) ?st mgr = Inr (logits, st', mgr')"
    "\<forall>k < length ?js. row (n_vocab toy_model) k (t_data logits) = next_logits toy_fpu toy_eigen toy_model ([] @ bj_toks (?js ! k))"
    by auto
  then show ?thesis using m(1) by (auto simp: job_item_def)
qed

end
