(* ===== verification/Engine_Inv.thy ===== *)
theory Engine_Inv
  imports Engine Batch_Content
begin

text \<open>
  The invariant of the engine and its preservation by admission, prefix sharing, batch
  assembly and preemption. A sequence is described by its context (prompt and output): its
  blocks hold a prefix of it, and what it still has to feed is the rest.
\<close>

section \<open>Requests\<close>

text \<open>The token is a draw of the sampler on the logits of the full forward over \<open>ids\<close>.\<close>

definition draws :: "'g platform \<Rightarrow> model \<Rightarrow> sampling_params \<Rightarrow> int list \<Rightarrow> int \<Rightarrow> bool" where
  "draws P m params ids t \<longleftrightarrow> (\<exists>lg g g'. take (n_vocab m) lg = next_logits (p_fpu P) (p_eigen P) m ids
     \<and> sample (p_fpu P) (p_sort P) (p_uniform P) lg (int (n_vocab m)) params g = Inr (t, g'))"

text \<open>The sampler returns a token of the vocabulary on every logits the model can give.\<close>

definition samples_ok :: "'g platform \<Rightarrow> model \<Rightarrow> sampling_params \<Rightarrow> bool" where
  "samples_ok P m params \<longleftrightarrow> (\<forall>ids lg g. ids_ok m ids \<longrightarrow> ids \<noteq> [] \<longrightarrow>
     take (n_vocab m) lg = next_logits (p_fpu P) (p_eigen P) m ids \<longrightarrow>
     (\<exists>t < n_vocab m. \<exists>g'. sample (p_fpu P) (p_sort P) (p_uniform P) lg (int (n_vocab m)) params g = Inr (int t, g')))"

definition stops :: "request \<Rightarrow> int list \<Rightarrow> bool" where
  "stops rq out \<longleftrightarrow> (0 \<le> rq_eos_id rq \<and> last out = rq_eos_id rq) \<or> rq_max_tokens rq \<le> int (length out)"

definition out_ok :: "'g platform \<Rightarrow> model \<Rightarrow> request \<Rightarrow> int list \<Rightarrow> bool" where
  "out_ok P m rq out \<longleftrightarrow>
     (\<forall>k < length out. draws P m (rq_params rq) (rq_prompt rq @ take k out) (out ! k))
     \<and> (\<forall>k. 0 < k \<longrightarrow> k < length out \<longrightarrow> \<not> stops rq (take k out))"

lemma out_ok_snoc:
  assumes "out_ok P m rq out" "out = [] \<or> \<not> stops rq out" "draws P m (rq_params rq) (rq_prompt rq @ out) t"
  shows "out_ok P m rq (out @ [t])"
  using assms by (auto simp: out_ok_def less_Suc_eq nth_append)

section \<open>Sequences\<close>

definition seq_phase :: "bool \<Rightarrow> nat \<Rightarrow> nat \<Rightarrow> engine_sequence \<Rightarrow> bool" where
  "seq_phase fed bs n s \<longleftrightarrow>
     (if fed then es_status s = Running \<and> n = length (es_context s)
      else case es_status s of
        Running \<Rightarrow> if es_prefilled s then es_output s \<noteq> [] \<and> Suc n = length (es_context s)
                   else n < length (es_context s) \<and> bs dvd n
      | Waiting \<Rightarrow> \<not> es_prefilled s \<and> n = 0
      | Finished \<Rightarrow> n = 0)"

definition table_holds ::
    "'g platform \<Rightarrow> model \<Rightarrow> nat \<Rightarrow> block_manager \<Rightarrow> nat \<Rightarrow> sequence_blocks \<Rightarrow> int list \<Rightarrow> bool" where
  "table_holds P m bs mgr n blk ctx \<longleftrightarrow> seq_length blk = int n \<and> length (block_table blk) = nblk bs n
     \<and> priv_from bs mgr n (block_table blk) \<and> n \<le> length ctx
     \<and> holds (p_fpu P) (p_eigen P) m bs mgr (block_table blk) (take n ctx)"

definition request_ok :: "'g platform \<Rightarrow> model \<Rightarrow> engine_sequence \<Rightarrow> bool" where
  "request_ok P m s \<longleftrightarrow> rq_prompt (es_request s) \<noteq> [] \<and> ids_ok m (es_context s)
     \<and> samples_ok P m (rq_params (es_request s)) \<and> out_ok P m (es_request s) (es_output s)
     \<and> (es_status s = Finished \<longleftrightarrow> es_output s \<noteq> [] \<and> stops (es_request s) (es_output s))"

definition seq_ok :: "'g platform \<Rightarrow> model \<Rightarrow> nat \<Rightarrow> bool \<Rightarrow> block_manager \<Rightarrow> int \<Rightarrow> engine_sequence \<Rightarrow> bool" where
  "seq_ok P m bs fed mgr i s \<longleftrightarrow> es_id s = i \<and> request_ok P m s
     \<and> (\<exists>n. table_holds P m bs mgr n (es_blocks s) (es_context s) \<and> seq_phase fed bs n s)"

section \<open>The engine\<close>

definition eids :: "'g engine \<Rightarrow> int list" where
  "eids e = map int [0..<nat (e_next_id e)]"

definition has_status :: "'g engine \<Rightarrow> seq_status \<Rightarrow> int \<Rightarrow> bool" where
  "has_status e st i \<longleftrightarrow> (\<exists>s. e_sequences e i = Some s \<and> es_status s = st)"

text \<open>\<open>D\<close> are the sequences that finished in this step and are still in the running list.\<close>

definition queues_ok :: "int set \<Rightarrow> 'g engine \<Rightarrow> bool" where
  "queues_ok D e \<longleftrightarrow> distinct (e_waiting e @ e_running e)
     \<and> (\<forall>i. (i \<in> set (e_waiting e) \<longleftrightarrow> has_status e Waiting i)
          \<and> (i \<in> set (e_running e) \<longleftrightarrow> has_status e Running i \<or> i \<in> D))
     \<and> (\<forall>i \<in> D. has_status e Finished i)"

definition chains :: "nat \<Rightarrow> int list \<Rightarrow> int list list set" where
  "chains bs ids = (\<lambda>k. take k (full_spans bs ids)) ` {..length ids div bs}"

definition chains_in :: "nat \<Rightarrow> int list list set \<Rightarrow> 'g engine \<Rightarrow> bool" where
  "chains_in bs S e \<longleftrightarrow> (\<forall>i s. e_sequences e i = Some s \<longrightarrow> chains bs (es_context s) \<subseteq> S)"

definition cache_ok :: "'g platform \<Rightarrow> model \<Rightarrow> nat \<Rightarrow> int list list set \<Rightarrow> 'g engine \<Rightarrow> bool" where
  "cache_ok P m bs S e \<longleftrightarrow>
     (if e_prefix_cache e
      then cache_sound S (blk_holds (p_fpu P) (p_eigen P) m bs (e_manager e)) (e_manager e)
      else entries (e_manager e) = [])"

definition eng_inv ::
    "'g platform \<Rightarrow> model \<Rightarrow> nat \<Rightarrow> nat \<Rightarrow> int list list set \<Rightarrow> int set \<Rightarrow> int set \<Rightarrow> 'g engine \<Rightarrow> bool" where
  "eng_inv P m bs nb S R D e \<longleftrightarrow>
     bm_shape bs (d_kv m) nb (n_layers m) (e_manager e) \<and> store_inv (block_store e) (eids e) (e_manager e)
     \<and> 0 \<le> e_next_id e \<and> dom (e_sequences e) = set (eids e)
     \<and> (\<forall>i s. e_sequences e i = Some s \<longrightarrow> seq_ok P m bs (i \<in> R) (e_manager e) i s)
     \<and> queues_ok D e \<and> cache_ok P m bs S e"

section \<open>Frames\<close>

lemma nblk_zero [simp]: "0 < bs \<Longrightarrow> nblk bs n = 0 \<longleftrightarrow> n = 0"
  using nblk_le_iff[of bs n 0] by simp

lemma nblk_0 [simp]: "nblk bs 0 = 0"
  by (cases "bs = 0") (simp_all add: nblk_def)

definition same_data :: "block_manager \<Rightarrow> block_manager \<Rightarrow> bool" where
  "same_data m m' \<longleftrightarrow> bm_keys m' = bm_keys m \<and> bm_values m' = bm_values m"

lemma same_data_geom: "bm_geom m' = bm_geom m \<Longrightarrow> same_data m m'"
  by (simp add: same_data_def bm_geom_def)

lemma same_data_view: "same_data m m' \<Longrightarrow> bm_view bs w m' t n l = bm_view bs w m t n l"
  by (simp add: same_data_def bm_view_def)

lemma same_data_holds: "same_data mgr mgr' \<Longrightarrow> holds F E m bs mgr' t c = holds F E m bs mgr t c"
  by (simp add: holds_def same_data_view)

lemma same_data_blk: "same_data mgr mgr' \<Longrightarrow> blk_holds F E m bs mgr' = blk_holds F E m bs mgr"
  by (simp add: blk_holds_def same_data_view fun_eq_iff)

lemma table_holds_frame:
  assumes "table_holds P m bs mgr n blk ctx" "same_data mgr mgr'" "\<forall>b \<in> set (block_table blk). priv mgr b \<longrightarrow> priv mgr' b"
  shows "table_holds P m bs mgr' n blk ctx"
  using assms by (auto simp: table_holds_def same_data_holds priv_from_def)

lemma priv_frame:
  assumes st: "store_inv st as mgr" "store_inv (st(a \<mapsto> blk')) as mgr'"
    and a: "a \<in> set as" "a' \<in> set as" "a' \<noteq> a" "st a = Some blk" "st a' = Some blk2"
    and b: "b \<in> set (block_table blk2)" "priv mgr b" "b \<notin> set (block_table blk')" "cache_refs mgr' b = 0"
  shows "priv mgr' b"
proof -
  have d: "distinct as" using st(1) by (simp add: store_inv_def)
  let ?rest = "store_tables st (remove1 a as)"
  have r: "store_tables (st(a \<mapsto> blk')) (remove1 a as) = ?rest" using d by (simp add: store_tables_upd)
  have 1: "seq_refs mgr b = count_list (block_table blk) b + held ?rest b"
    using store_inv_pick[OF st(1) a(1,4)] by (simp add: seqs_inv_def)
  have 2: "seq_refs mgr' b = count_list (block_table blk') b + held ?rest b"
    using store_inv_pick[OF st(2) a(1)] r by (simp add: seqs_inv_def)
  have "block_table blk2 \<in> set ?rest" using a(2,3,5) d by (force simp: store_tables_def)
  then have "0 < held ?rest b" using b(1) by (auto simp: held_pos)
  moreover have "count_list (block_table blk') b = 0" using b(3) by (simp add: count_list_0_iff)
  ultimately show ?thesis using 1 2 b(2,4) by (simp add: priv_def)
qed

section \<open>Updating one sequence\<close>

lemma block_store_Some: "block_store e i = Some blk \<longleftrightarrow> (\<exists>s. e_sequences e i = Some s \<and> blk = es_blocks s)"
  by (auto simp: block_store_def)

lemma eng_invD:
  assumes "eng_inv P m bs nb S R D e"
  shows "bm_shape bs (d_kv m) nb (n_layers m) (e_manager e)" "store_inv (block_store e) (eids e) (e_manager e)"
    "0 \<le> e_next_id e" "dom (e_sequences e) = set (eids e)"
    "\<And>i s. e_sequences e i = Some s \<Longrightarrow> seq_ok P m bs (i \<in> R) (e_manager e) i s"
    "queues_ok D e" "cache_ok P m bs S e"
  using assms by (auto simp: eng_inv_def)

lemma eng_inv_ids: "eng_inv P m bs nb S R D e \<Longrightarrow> e_sequences e i = Some s \<Longrightarrow> i \<in> set (eids e)"
  by (auto simp: eng_inv_def)

lemma running_seq:
  assumes "eng_inv P m bs nb S R D e" "i \<in> set (e_running e)"
  shows "\<exists>s. e_sequences e i = Some s"
  using assms by (fastforce simp: eng_inv_def queues_ok_def has_status_def)

lemma eng_inv_update:
  assumes I: "eng_inv P m bs nb S R D e" and s: "e_sequences e i = Some s"
    and e': "e_sequences e' = (e_sequences e)(i \<mapsto> s')" "e_next_id e' = e_next_id e" "e_prefix_cache e' = e_prefix_cache e"
    and sh: "bm_shape bs (d_kv m) nb (n_layers m) (e_manager e')" and sd: "same_data (e_manager e) (e_manager e')"
    and st: "store_inv ((block_store e)(i \<mapsto> es_blocks s')) (eids e) (e_manager e')"
    and pf: "\<And>i' s2 b. i' \<noteq> i \<Longrightarrow> e_sequences e i' = Some s2 \<Longrightarrow> b \<in> set (block_table (es_blocks s2)) \<Longrightarrow>
               priv (e_manager e) b \<Longrightarrow> priv (e_manager e') b"
    and so: "seq_ok P m bs (i \<in> R') (e_manager e') i s'" and R': "\<And>i'. i' \<noteq> i \<Longrightarrow> (i' \<in> R') = (i' \<in> R)"
    and q: "queues_ok D' e'" and c: "cache_ok P m bs S e'"
  shows "eng_inv P m bs nb S R' D' e'"
proof -
  note D = eng_invD[OF I]
  have bst: "block_store e' = (block_store e)(i \<mapsto> es_blocks s')" by (auto simp: block_store_def e' fun_eq_iff)
  have ids: "eids e' = eids e" by (simp add: eids_def e')
  have "i \<in> set (eids e)" using eng_inv_ids[OF I s] .
  moreover have "seq_ok P m bs (i' \<in> R') (e_manager e') i' s2" if h: "e_sequences e' i' = Some s2" for i' s2
  proof (cases "i' = i")
    case True
    then show ?thesis using h so by (simp add: e')
  next
    case False
    then have h': "e_sequences e i' = Some s2" using h by (simp add: e')
    from D(5)[OF h'] obtain n where n: "es_id s2 = i'" "request_ok P m s2"
      "table_holds P m bs (e_manager e) n (es_blocks s2) (es_context s2)" "seq_phase (i' \<in> R) bs n s2"
      by (auto simp: seq_ok_def)
    have "table_holds P m bs (e_manager e') n (es_blocks s2) (es_context s2)"
      by (rule table_holds_frame[OF n(3) sd]) (use pf[OF False h'] in blast)
    with n R'[OF False] show ?thesis by (auto simp: seq_ok_def)
  qed
  ultimately show ?thesis
    unfolding eng_inv_def using sh st D(3,4) q c by (simp add: bst ids e' insert_absorb)
qed

lemma shape_update:
  assumes "bm_shape bs w nb nl m" "same_data m m'" "bm_block_size m' = bm_block_size m" "bm_kv_dim m' = bm_kv_dim m"
    "num_blocks (bm_alloc m') = num_blocks (bm_alloc m)"
  shows "bm_shape bs w nb nl m'"
  using assms by (simp add: bm_shape_def same_data_def)

section \<open>What scheduling leaves alone\<close>

definition work :: "'g engine \<Rightarrow> int \<Rightarrow> (request \<times> int list) option" where
  "work e i = map_option (\<lambda>s. (es_request s, es_output s)) (e_sequences e i)"

definition same_work :: "'g engine \<Rightarrow> 'g engine \<Rightarrow> bool" where
  "same_work e e' \<longleftrightarrow> work e' = work e \<and> e_prefix_cache e' = e_prefix_cache e \<and> e_next_id e' = e_next_id e
     \<and> e_max_batch e' = e_max_batch e"

lemma same_work_refl [simp]: "same_work e e"
  by (simp add: same_work_def)

lemma same_work_trans [trans]: "same_work e e' \<Longrightarrow> same_work e' e'' \<Longrightarrow> same_work e e''"
  by (simp add: same_work_def)

lemma work_Some: "work e i = Some (rq, out) \<longleftrightarrow> (\<exists>s. e_sequences e i = Some s \<and> es_request s = rq \<and> es_output s = out)"
  by (auto simp: work_def)

lemma chains_in_work:
  "chains_in bs S e \<longleftrightarrow> (\<forall>i rq out. work e i = Some (rq, out) \<longrightarrow> chains bs (rq_prompt rq @ out) \<subseteq> S)"
  by (auto simp: chains_in_def work_Some es_context_def)

lemma same_work_chains: "same_work e e' \<Longrightarrow> chains_in bs S e' = chains_in bs S e"
  by (simp add: same_work_def chains_in_work)

lemma same_work_update:
  assumes "e_sequences e i = Some s" "e_sequences e' = (e_sequences e)(i \<mapsto> s')"
    "es_request s' = es_request s" "es_output s' = es_output s" "e_prefix_cache e' = e_prefix_cache e"
    "e_next_id e' = e_next_id e" "e_max_batch e' = e_max_batch e"
  shows "same_work e e'"
  using assms by (auto simp: same_work_def work_def fun_eq_iff)

section \<open>Admission\<close>

lemma has_status_upd:
  "e_sequences e' = (e_sequences e)(i \<mapsto> s') \<Longrightarrow>
   has_status e' st j = (if j = i then es_status s' = st else has_status e st j)"
  by (simp add: has_status_def)

lemma admit_ok:
  assumes "eng_inv P m bs nb S {} {} (e\<lparr>e_waiting := q\<rparr>)"
  shows "\<exists>e'. admit q e = Inr e' \<and> eng_inv P m bs nb S {} {} e' \<and> same_work e e'
    \<and> e_manager e' = e_manager e \<and> e_rng e' = e_rng e"
  using assms
proof (induction q arbitrary: e)
  case Nil
  then show ?case by (auto simp: same_work_def work_def[abs_def])
next
  case (Cons i rest)
  let ?e = "e\<lparr>e_waiting := i # rest\<rparr>"
  have stay: "same_work e ?e" by (simp add: same_work_def work_def[abs_def])
  note D = eng_invD[OF Cons.prems]
  have w: "\<forall>j. j \<in> set (e_waiting ?e) \<longleftrightarrow> has_status ?e Waiting j" using D(6) unfolding queues_ok_def by blast
  have "i \<in> set (e_waiting ?e)" by simp
  with w have "has_status ?e Waiting i" by blast
  then obtain s where s: "e_sequences e i = Some s" "es_status s = Waiting" by (auto simp: has_status_def)
  show ?case
  proof (cases "int (length (e_running e)) < e_max_batch e \<and> can_append (e_manager e) (es_blocks s) (admit_need s)")
    case False
    then have "admit (i # rest) e = Inr ?e" using s by (auto simp: seq_at_def)
    then show ?thesis using Cons.prems stay by auto
  next
    case True
    let ?s = "s\<lparr>es_status := Running\<rparr>"
    let ?e1 = "seq_set i ?s (e\<lparr>e_running := e_running e @ [i]\<rparr>)"
    have a: "admit (i # rest) e = admit rest ?e1" using s True by (simp add: seq_at_def)
    let ?e2 = "?e1\<lparr>e_waiting := rest\<rparr>"
    have q: "queues_ok {} ?e2"
    proof -
      have hs: "has_status ?e2 st j = (if j = i then Running = st else has_status ?e st j)" for st j
        by (simp add: has_status_def seq_set_def)
      have "distinct (e_waiting ?e @ e_running ?e)" using D(6) unfolding queues_ok_def by blast
      then have d: "distinct (i # rest @ e_running e)" by simp
      have w: "(j \<in> set (e_waiting ?e) \<longleftrightarrow> has_status ?e Waiting j) \<and> (j \<in> set (e_running ?e) \<longleftrightarrow> has_status ?e Running j)" for j
        using D(6) unfolding queues_ok_def by blast
      have "(j \<in> set rest \<longleftrightarrow> (if j = i then Running = Waiting else has_status ?e Waiting j))
        \<and> (j \<in> set (e_running e @ [i]) \<longleftrightarrow> (if j = i then Running = Running else has_status ?e Running j))" for j
        using d w[of j] by (cases "j = i") simp_all
      moreover have "distinct (rest @ e_running e @ [i])" using d by auto
      ultimately show ?thesis unfolding queues_ok_def hs by (simp add: seq_set_def)
    qed
    have so: "seq_ok P m bs (i \<in> {}) (e_manager ?e) i s" using D(5)[of i s] s by simp
    then have so': "seq_ok P m bs (i \<in> {}) (e_manager ?e2) i ?s"
      using s(2) by (auto simp: seq_ok_def seq_phase_def request_ok_def es_context_def seq_set_def)
    have I2: "eng_inv P m bs nb S {} {} ?e2"
    proof (rule eng_inv_update[OF Cons.prems, of i s ?e2 ?s])
      have "(block_store ?e)(i \<mapsto> es_blocks ?s) = block_store ?e" using s by (auto simp: block_store_def fun_eq_iff)
      then show "store_inv ((block_store ?e)(i \<mapsto> es_blocks ?s)) (eids ?e) (e_manager ?e2)"
        using D(2) by (simp add: seq_set_def)
    qed (use s D(1,7) q so' in \<open>auto simp: seq_set_def same_data_def cache_ok_def\<close>)
    from Cons.IH[OF I2] obtain e' where
      e': "admit rest ?e1 = Inr e'" "eng_inv P m bs nb S {} {} e'" "same_work ?e1 e'" "e_manager e' = e_manager ?e1"
        "e_rng e' = e_rng ?e1" by blast
    have "same_work e ?e1" by (rule same_work_update[OF s(1), of ?e1 ?s]) (simp_all add: seq_set_def)
    from same_work_trans[OF this e'(3)] show ?thesis using e' a by (auto simp: seq_set_def)
  qed
qed

section \<open>Sharing a cached prefix\<close>

lemma full_spans_take:
  assumes "c \<le> length ids div bs" "0 < bs"
  shows "full_spans bs (take (c * bs) ids) = take c (full_spans bs ids)"
proof -
  have "c * bs \<le> length ids" using assms by (meson div_times_less_eq_dividend le_trans mult_le_mono1)
  then have l: "length (take (c * bs) ids) div bs = c" using assms by simp
  have "row bs r (take (c * bs) ids) = row bs r ids" if "r < c" for r
    using row_in_bounds[OF that order.refl, of bs] by (simp add: row_def slice_def drop_take min_def add.commute)
  then show ?thesis unfolding full_spans_def l using assms(1) by (simp add: rows_def take_map min_def)
qed

lemma take_in_chains: "c \<le> length ids div bs \<Longrightarrow> take c (full_spans bs ids) \<in> chains bs ids"
  by (auto simp: chains_def)

lemma cache_refs_pos: "0 < cache_refs m b \<longleftrightarrow> (\<exists>e \<in> set (entries m). pe_block e = b)"
  using cache_refs_zero[of m b] by auto

lemma cache_sound_cached: "cache_sound S Q m \<Longrightarrow> cache_sound S (\<lambda>c s b. Q c s b \<and> 0 < cache_refs m b) m"
  unfolding cache_sound_def by (metis cache_refs_pos)

text \<open>The part of a context that is looked up: whole blocks, and never all of it.\<close>

lemma share_capped:
  assumes "0 < bs" "ctx \<noteq> []"
  defines "c \<equiv> (length ctx - 1) div bs"
  shows "((int (length ctx) - 1) sdiv int bs) * int bs = int (c * bs)" "c \<le> length ctx div bs" "c * bs < length ctx"
proof -
  have l: "0 < length ctx" using assms(2) by simp
  then have "int (length ctx) - 1 = int (length ctx - 1)" by linarith
  moreover have "int (length ctx - 1) sdiv int bs = int c" using assms(1) by (simp add: c_def zdiv_int)
  ultimately show "((int (length ctx) - 1) sdiv int bs) * int bs = int (c * bs)" by (simp only: of_nat_mult)
  show "c \<le> length ctx div bs" unfolding c_def by (intro div_le_mono) simp
  have "c * bs \<le> length ctx - 1" by (simp add: c_def)
  then show "c * bs < length ctx" using l by linarith
qed

lemma chains_prefix:
  assumes "0 < bs" "c \<le> length ctx div bs" "chains bs ctx \<subseteq> S"
  shows "\<forall>j < length (take (c * bs) ctx) div bs. take j (full_spans bs (take (c * bs) ctx)) \<in> S"
    and "length (take (c * bs) ctx) div bs = c"
proof -
  have "c * bs \<le> length ctx div bs * bs" using assms(2) by (rule mult_le_mono1)
  also have "length ctx div bs * bs \<le> length ctx" by simp
  finally show l: "length (take (c * bs) ctx) div bs = c" using assms(1) by simp
  show "\<forall>j < length (take (c * bs) ctx) div bs. take j (full_spans bs (take (c * bs) ctx)) \<in> S"
  proof (intro allI impI)
    fix j assume "j < length (take (c * bs) ctx) div bs"
    then have j: "j < c" using l by simp
    then have "take j (full_spans bs (take (c * bs) ctx)) = take j (full_spans bs ctx)"
      unfolding full_spans_take[OF assms(2,1)] by (simp add: min_def)
    also have "\<dots> \<in> chains bs ctx" using j assms(2) by (intro take_in_chains) simp
    finally show "take j (full_spans bs (take (c * bs) ctx)) \<in> S" using assms(3) by blast
  qed
qed

text \<open>Sharing for one sequence without blocks: its new table holds what it stands for, all its
  blocks are cached, and the data and the cache keys of the manager are the same.\<close>

lemma acquire_for_seq:
  assumes I: "eng_inv P m bs nb S {} {} e" and s: "e_sequences e i = Some s" and E: "eigen_rowwise (p_eigen P)" "model_ok m"
    and on: "e_prefix_cache e" "block_table (es_blocks s) = []" "seq_length (es_blocks s) = 0"
    and h: "inj_on chain_hash S" "chains bs (es_context s) \<subseteq> S" and ids: "ids_ok m (es_context s)"
    and c: "c \<le> length (es_context s) div bs"
  shows "\<exists>k blk mgr. acquire_shared_prefix (es_blocks s) (take (c * bs) (es_context s)) (e_manager e) = Inr (int (k * bs), blk, mgr)
    \<and> k \<le> c \<and> seqs_inv mgr (block_table blk # store_tables (block_store e) (remove1 i (eids e)))
    \<and> table_holds P m bs mgr (k * bs) blk (es_context s)
    \<and> (\<forall>b \<in> set (block_table blk). 0 < cache_refs (e_manager e) b) \<and> (\<forall>b. cache_refs mgr b = cache_refs (e_manager e) b)
    \<and> same_data (e_manager e) mgr \<and> bm_shape bs (d_kv m) nb (n_layers m) mgr
    \<and> num_free (bm_alloc mgr) = num_free (bm_alloc (e_manager e))
    \<and> image_mset entry_key (mset (entries mgr)) = image_mset entry_key (mset (entries (e_manager e)))"
proof -
  note D = eng_invD[OF I] and B = bm_shapeD[OF eng_invD(1)[OF I]]
  let ?ctx = "es_context s" and ?mgr = "e_manager e" and ?toks = "take (c * bs) (es_context s)"
  let ?rest = "store_tables (block_store e) (remove1 i (eids e))"
  have inv: "seqs_inv ?mgr (block_table (es_blocks s) # ?rest)"
    using store_inv_pick[OF D(2) eng_inv_ids[OF I s]] s by (simp add: block_store_def)
  note ch = chains_prefix[OF B(2) c h(2)] and fs = full_spans_take[OF c B(2)]
  define Q where "Q = (\<lambda>c s b. blk_holds (p_fpu P) (p_eigen P) m bs ?mgr c s b \<and> 0 < cache_refs ?mgr b)"
  have "cache_sound S (blk_holds (p_fpu P) (p_eigen P) m bs ?mgr) ?mgr" using D(7) on(1) by (simp add: cache_ok_def)
  then have csQ: "cache_sound S Q ?mgr" unfolding Q_def by (rule cache_sound_cached)
  from acquire_shared_prefix_ok[OF inv on(2,3) B(1,2), of ?toks] obtain k blk mgr where
    A: "acquire_shared_prefix (es_blocks s) ?toks ?mgr = Inr (int (k * bs), blk, mgr)" "k \<le> length ?toks div bs"
    "seqs_inv mgr (block_table blk # ?rest)" "length (block_table blk) = k" "seq_length blk = int (k * bs)"
    and AQ: "\<forall>S Q. cache_sound S Q ?mgr \<longrightarrow> inj_on chain_hash S \<longrightarrow> (\<forall>i < length ?toks div bs. take i (full_spans bs ?toks) \<in> S) \<longrightarrow>
       (\<forall>i < k. Q (take i (full_spans bs ?toks)) (full_spans bs ?toks ! i) (block_table blk ! i))"
    and A2: "bm_keys mgr = bm_keys ?mgr" "bm_values mgr = bm_values ?mgr" "bm_block_size mgr = bm_block_size ?mgr"
      "bm_kv_dim mgr = bm_kv_dim ?mgr" "num_blocks (bm_alloc mgr) = num_blocks (bm_alloc ?mgr)"
      "num_free (bm_alloc mgr) = num_free (bm_alloc ?mgr)"
      "image_mset entry_key (mset (entries mgr)) = image_mset entry_key (mset (entries ?mgr))" by blast
  have kc: "k \<le> c" using A(2) ch(2) by simp
  have Qk: "Q (take j (full_spans bs ?ctx)) (full_spans bs ?ctx ! j) (block_table blk ! j)" if "j < k" for j
    using AQ[rule_format, OF csQ h(1) _ that] ch(1) that kc by (simp add: fs min_def)
  have Qcr: "0 < cache_refs ?mgr b" if "b \<in> set (block_table blk)" for b
    using that Qk A(4) unfolding Q_def by (metis in_set_conv_nth)
  have sd: "same_data ?mgr mgr" using A2 by (simp add: same_data_def)
  have "holds (p_fpu P) (p_eigen P) m bs mgr (block_table blk) (take (k * bs) ?ctx)"
    unfolding same_data_holds[OF sd]
    using Qk kc c A(4) by (intro blocks_hold[OF E ids B(2)]) (auto simp: Q_def)
  moreover have "nblk bs (k * bs) = k"
    using nblk_le_iff[OF B(2), of "k * bs" k] nblk_covers[OF B(2), of "k * bs"] B(2) by (simp add: le_antisym)
  moreover have "k * bs \<le> length ?ctx"
  proof -
    have "k * bs \<le> length ?ctx div bs * bs" using kc c by (intro mult_le_mono1) simp
    then show ?thesis using div_times_less_eq_dividend le_trans by blast
  qed
  ultimately have "table_holds P m bs mgr (k * bs) blk ?ctx"
    using A(4,5) B(2) by (simp add: table_holds_def priv_from_def)
  moreover have "bm_shape bs (d_kv m) nb (n_layers m) mgr" using shape_update[OF D(1) sd A2(3,4,5)] .
  ultimately show ?thesis
    using A(1,3) kc Qcr sd A2(6,7) cache_refs_key[OF A2(7)]
    by (intro exI[of _ k] exI[of _ blk] exI[of _ mgr]) (intro conjI allI ballI; assumption?; blast)
qed

lemma share_prefix_ok:
  assumes I: "eng_inv P m bs nb S {} {} e" and i: "i \<in> set (e_running e)"
    and h: "e_prefix_cache e \<longrightarrow> inj_on chain_hash S" "chains_in bs S e"
    and E: "eigen_rowwise (p_eigen P)" "model_ok m"
  shows "\<exists>e'. share_prefix i e = Inr e' \<and> eng_inv P m bs nb S {} {} e' \<and> same_work e e'
    \<and> num_free (bm_alloc (e_manager e')) = num_free (bm_alloc (e_manager e))
    \<and> (\<forall>i'. i' \<noteq> i \<longrightarrow> e_sequences e' i' = e_sequences e i') \<and> e_running e' = e_running e \<and> e_rng e' = e_rng e
    \<and> map_option es_prefilled (e_sequences e' i) = map_option es_prefilled (e_sequences e i)"
proof -
  note D = eng_invD[OF I] and B = bm_shapeD[OF eng_invD(1)[OF I]]
  obtain s where s: "e_sequences e i = Some s" using running_seq[OF I i] by blast
  have run: "es_status s = Running" using D(6) i s by (auto simp: queues_ok_def has_status_def)
  from D(5)[OF s] obtain n where n: "es_id s = i" "request_ok P m s" "table_holds P m bs (e_manager e) n (es_blocks s) (es_context s)"
    "seq_phase False bs n s" by (auto simp: seq_ok_def)
  let ?ctx = "es_context s" and ?mgr = "e_manager e"
  define c where "c = (length ?ctx - 1) div bs"
  have ne: "?ctx \<noteq> []" using n(2) by (simp add: request_ok_def es_context_def)
  note cap = share_capped[OF B(2) ne, folded c_def, folded B(1)]
  show ?thesis
  proof (cases "e_prefix_cache e \<and> \<not> es_prefilled s \<and> block_table (es_blocks s) = [] \<and> 0 < int (c * bs)")
    case False
    then have "share_prefix i e = Inr e" using s cap(1) by (auto simp: share_prefix_def seq_at_def Let_def)
    then show ?thesis using I by auto
  next
    case True
    then have on: "e_prefix_cache e" "\<not> es_prefilled s" "block_table (es_blocks s) = []" by auto
    have sl: "seq_length (es_blocks s) = 0" using n(3) on(3) B(2) by (simp add: table_holds_def)
    have mem: "i \<in> set (eids e)" by (rule eng_inv_ids[OF I s])
    have bs_i: "block_store e i = Some (es_blocks s)" using s by (simp add: block_store_def)
    have hS: "inj_on chain_hash S" "chains bs ?ctx \<subseteq> S" using h on(1) s by (simp_all add: chains_in_def)
    have ids: "ids_ok m ?ctx" using n(2) by (simp add: request_ok_def)
    from acquire_for_seq[OF I s E on(1,3) sl hS ids cap(2)] obtain k blk mgr where
      A: "acquire_shared_prefix (es_blocks s) (take (c * bs) ?ctx) ?mgr = Inr (int (k * bs), blk, mgr)" "k \<le> c"
        "seqs_inv mgr (block_table blk # store_tables (block_store e) (remove1 i (eids e)))"
        "table_holds P m bs mgr (k * bs) blk ?ctx"
      and cr: "\<forall>b \<in> set (block_table blk). 0 < cache_refs ?mgr b" "\<forall>b. cache_refs mgr b = cache_refs ?mgr b"
      and sd: "same_data ?mgr mgr" and A2: "bm_shape bs (d_kv m) nb (n_layers m) mgr"
        "num_free (bm_alloc mgr) = num_free (bm_alloc ?mgr)"
        "image_mset entry_key (mset (entries mgr)) = image_mset entry_key (mset (entries ?mgr))" by blast
    let ?s = "s\<lparr>es_blocks := blk\<rparr>" and ?e = "seq_set i (s\<lparr>es_blocks := blk\<rparr>) (e\<lparr>e_manager := mgr\<rparr>)"
    have sh: "share_prefix i e = Inr ?e"
      using True s cap(1) A(1) by (simp add: share_prefix_def seq_at_def Let_def nat_mult_distrib)
    have kl: "k * bs < length ?ctx" using mult_le_mono1[OF A(2), of bs] cap(3) by linarith
    have put: "store_inv ((block_store e)(i \<mapsto> blk)) (eids e) mgr" using store_inv_put[OF D(2) mem A(3)] .
    have I': "eng_inv P m bs nb S {} {} ?e"
    proof (rule eng_inv_update[OF I s, of ?e ?s])
      show "seq_ok P m bs (i \<in> {}) (e_manager ?e) i ?s"
        unfolding seq_ok_def using n(1,2) A(4) run on(2) kl
        by (intro conjI exI[of _ "k * bs"]) (simp_all add: request_ok_def es_context_def seq_set_def seq_phase_def)
      show "cache_ok P m bs S ?e"
        using cache_sound_keys[of S _ ?mgr mgr] D(7) A2(3) on(1)
        by (auto simp: cache_ok_def seq_set_def same_data_blk[OF sd] dest: arg_cong[of _ _ set_mset])
      fix i' s2 b assume x: "i' \<noteq> i" "e_sequences e i' = Some s2" "b \<in> set (block_table (es_blocks s2))" "priv (e_manager e) b"
      have "b \<notin> set (block_table blk)" using cr(1) x(4) by (auto simp: priv_def)
      moreover have "block_store e i' = Some (es_blocks s2)" using x(2) by (simp add: block_store_def)
      ultimately have "priv mgr b"
        using priv_frame[OF D(2) put mem eng_inv_ids[OF I x(2)] x(1) bs_i _ x(3,4)] cr(2) x(4) by (simp add: priv_def)
      then show "priv (e_manager ?e) b" by (simp add: seq_set_def)
    qed (use put A2(1) sd D(6) s run in \<open>auto simp: seq_set_def queues_ok_def has_status_def\<close>)
    have "same_work e ?e" by (rule same_work_update[OF s, of ?e ?s]) (simp_all add: seq_set_def)
    with sh I' show ?thesis using A2(2) s by (intro exI[of _ ?e]) (simp add: seq_set_def)
  qed
qed

section \<open>Assembling a batch\<close>

definition entry_ok :: "'g engine \<Rightarrow> batch_entry \<Rightarrow> bool" where
  "entry_ok e b \<longleftrightarrow> be_id b \<in> set (e_running e) \<and> (\<exists>s. e_sequences e (be_id b) = Some s
     \<and> be_tokens b = drop (nat (seq_length (es_blocks s))) (es_context s) \<and> be_tokens b \<noteq> []
     \<and> be_prefill b = (\<not> es_prefilled s)
     \<and> be_ctx b = (if \<not> es_prefilled s \<and> e_prefix_cache e then es_context s else []))"

definition entry_job :: "'g engine \<Rightarrow> batch_entry \<Rightarrow> bjob" where
  "entry_job e b = (let blk = es_blocks (the (e_sequences e (be_id b)))
     in \<lparr>bj_addr = be_id b, bj_toks = be_tokens b, bj_past = nat (seq_length blk), bj_table = block_table blk\<rparr>)"

text \<open>The blocks a sequence still needs for its whole context.\<close>

definition lacks :: "nat \<Rightarrow> 'g engine \<Rightarrow> int \<Rightarrow> nat" where
  "lacks bs e i = (let s = the (e_sequences e i) in nblk bs (length (es_context s)) - length (block_table (es_blocks s)))"

lemma nblk_mono: "n \<le> k \<Longrightarrow> nblk bs n \<le> nblk bs k"
  by (cases "bs = 0") (auto simp: nblk_def intro: div_le_mono)

lemma entry_frame:
  assumes "entry_ok e b" "e_sequences e' (be_id b) = e_sequences e (be_id b)" "e_running e' = e_running e"
    "e_prefix_cache e' = e_prefix_cache e"
  shows "entry_ok e' b" "entry_job e' b = entry_job e b"
  using assms by (auto simp: entry_ok_def entry_job_def)

lemma step_tokens_ok:
  assumes "table_holds P m bs mgr n (es_blocks s) (es_context s)" "seq_phase False bs n s" "es_status s = Running"
  shows "step_tokens s = Inr (drop n (es_context s)) \<and> drop n (es_context s) \<noteq> []"
proof (cases "es_prefilled s")
  case True
  then have o: "es_output s \<noteq> []" "Suc n = length (es_context s)" using assms(2,3) by (simp_all add: seq_phase_def)
  have "es_context s = (rq_prompt (es_request s) @ butlast (es_output s)) @ [last (es_output s)]"
    using o(1) by (simp add: es_context_def)
  moreover from arg_cong[OF this, of length] o(2) have "n = length (rq_prompt (es_request s) @ butlast (es_output s))" by simp
  ultimately have "drop n (es_context s) = [last (es_output s)]" by simp
  then show ?thesis using True o(1) by (simp add: step_tokens_def)
next
  case False
  then have "n < length (es_context s)" using assms(2,3) by (simp add: seq_phase_def)
  moreover have "seq_length (es_blocks s) = int n" using assms(1) by (simp add: table_holds_def)
  ultimately show ?thesis using False by (simp add: step_tokens_def Let_def)
qed

lemma assemble_item_ok:
  assumes I: "eng_inv P m bs nb S {} {} e" and i: "i \<in> set (e_running e)"
    and h: "e_prefix_cache e \<longrightarrow> inj_on chain_hash S" "chains_in bs S e"
    and E: "eigen_rowwise (p_eigen P)" "model_ok m"
  shows "\<exists>e' b. assemble_item i (budget, ents, e) =
      (if budget < int (lacks bs e' i) then Inr (budget, ents, e')
       else Inr (budget - int (lacks bs e' i), ents @ [b], e'))
    \<and> be_id b = i \<and> entry_ok e' b \<and> job_need bs (entry_job e' b) = lacks bs e' i
    \<and> eng_inv P m bs nb S {} {} e' \<and> same_work e e'
    \<and> num_free (bm_alloc (e_manager e')) = num_free (bm_alloc (e_manager e))
    \<and> (\<forall>i'. i' \<noteq> i \<longrightarrow> e_sequences e' i' = e_sequences e i') \<and> e_running e' = e_running e \<and> e_rng e' = e_rng e"
proof -
  from share_prefix_ok[OF I i h E] obtain e' where
    s: "share_prefix i e = Inr e'" "eng_inv P m bs nb S {} {} e'" "same_work e e'"
    "num_free (bm_alloc (e_manager e')) = num_free (bm_alloc (e_manager e))"
    "\<forall>i'. i' \<noteq> i \<longrightarrow> e_sequences e' i' = e_sequences e i'" "e_running e' = e_running e" "e_rng e' = e_rng e"
    by blast
  note D = eng_invD[OF s(2)] and B = bm_shapeD[OF eng_invD(1)[OF s(2)]]
  have i': "i \<in> set (e_running e')" using i s(6) by simp
  then obtain q where q: "e_sequences e' i = Some q" using running_seq[OF s(2)] by blast
  have run: "es_status q = Running" using D(6) i' q by (auto simp: queues_ok_def has_status_def)
  from D(5)[OF q] obtain n where n: "table_holds P m bs (e_manager e') n (es_blocks q) (es_context q)" "seq_phase False bs n q"
    by (auto simp: seq_ok_def)
  note T = step_tokens_ok[OF n run]
  have nl: "n < length (es_context q)" using T by auto
  have sl: "seq_length (es_blocks q) = int n" "length (block_table (es_blocks q)) = nblk bs n"
    using n(1) by (simp_all add: table_holds_def)
  define b where "b = \<lparr>be_id = i, be_tokens = drop n (es_context q), be_prefill = (\<not> es_prefilled q),
      be_ctx = (if \<not> es_prefilled q \<and> e_prefix_cache e' then es_context q else [])\<rparr>"
  have d: "blocks_for (e_manager e') (seq_length (es_blocks q) + int (length (drop n (es_context q))))
        - int (length (block_table (es_blocks q))) = int (lacks bs e' i)"
  proof -
    have "seq_length (es_blocks q) + int (length (drop n (es_context q))) = int (length (es_context q))"
      using sl(1) nl by simp
    then have "blocks_for (e_manager e') (seq_length (es_blocks q) + int (length (drop n (es_context q)))) = int (nblk bs (length (es_context q)))"
      by (simp only: blocks_for_nblk[OF B(1,2)])
    moreover have "nblk bs n \<le> nblk bs (length (es_context q))" using nl by (intro nblk_mono) simp
    ultimately show ?thesis using q sl(2) by (simp add: lacks_def of_nat_diff)
  qed
  have "assemble_item i (budget, ents, e) =
      (if budget < int (lacks bs e' i) then Inr (budget, ents, e')
       else Inr (budget - int (lacks bs e' i), ents @ [b], e'))"
    using s(1) q T by (simp add: assemble_item_def seq_at_def d Let_def b_def del: length_drop)
  moreover have "entry_ok e' b" using i' q T sl by (simp add: entry_ok_def b_def)
  moreover have "job_need bs (entry_job e' b) = lacks bs e' i"
    using q sl nl by (simp add: job_need_def entry_job_def b_def lacks_def Let_def)
  ultimately show ?thesis using s by (intro exI[of _ e'] exI[of _ b]) (simp add: b_def)
qed

lemma assemble_items_ok:
  assumes "eng_inv P m bs nb S {} {} e" "distinct is" "set is \<subseteq> set (e_running e)"
    and h: "e_prefix_cache e \<longrightarrow> inj_on chain_hash S" "chains_in bs S e"
    and E: "eigen_rowwise (p_eigen P)" "model_ok m"
    and "\<forall>b \<in> set ents. entry_ok e b \<and> be_id b \<notin> set is" "distinct (map be_id ents)"
    and "int (sum_list (map (\<lambda>b. job_need bs (entry_job e b)) ents)) + budget = tot" "0 \<le> budget"
  shows "\<exists>budget' ents' e'. res_fold assemble_item is (budget, ents, e) = Inr (budget', ents', e')
    \<and> eng_inv P m bs nb S {} {} e' \<and> same_work e e'
    \<and> num_free (bm_alloc (e_manager e')) = num_free (bm_alloc (e_manager e))
    \<and> (\<forall>i. i \<notin> set is \<longrightarrow> e_sequences e' i = e_sequences e i) \<and> e_running e' = e_running e \<and> e_rng e' = e_rng e
    \<and> (\<forall>b \<in> set ents'. entry_ok e' b) \<and> distinct (map be_id ents')
    \<and> int (sum_list (map (\<lambda>b. job_need bs (entry_job e' b)) ents')) + budget' = tot \<and> 0 \<le> budget'
    \<and> (ents' = [] \<longrightarrow> ents = [] \<and> budget' = budget \<and> (\<forall>i \<in> set is. budget < int (lacks bs e' i)))"
  using assms
proof (induction "is" arbitrary: e ents budget)
  case Nil
  then show ?case by auto
next
  case (Cons i rest)
  have i: "i \<in> set (e_running e)" "i \<notin> set rest" "set rest \<subseteq> set (e_running e)" "distinct rest" using Cons.prems(2,3) by auto
  from assemble_item_ok[OF Cons.prems(1) i(1) Cons.prems(4,5) E, of budget ents] obtain e1 b where
    a: "assemble_item i (budget, ents, e) =
      (if budget < int (lacks bs e1 i) then Inr (budget, ents, e1) else Inr (budget - int (lacks bs e1 i), ents @ [b], e1))"
    "be_id b = i" "entry_ok e1 b" "job_need bs (entry_job e1 b) = lacks bs e1 i"
    "eng_inv P m bs nb S {} {} e1" "same_work e e1" "num_free (bm_alloc (e_manager e1)) = num_free (bm_alloc (e_manager e))"
    "\<forall>i'. i' \<noteq> i \<longrightarrow> e_sequences e1 i' = e_sequences e i'" "e_running e1 = e_running e" "e_rng e1 = e_rng e" by blast
  have h1: "e_prefix_cache e1 \<longrightarrow> inj_on chain_hash S" "chains_in bs S e1"
    using Cons.prems(4,5) same_work_chains[OF a(6), of bs S] a(6) by (auto simp: same_work_def)
  have fr: "entry_ok e1 b' \<and> entry_job e1 b' = entry_job e b' \<and> be_id b' \<noteq> i \<and> be_id b' \<notin> set rest" if "b' \<in> set ents" for b'
    using Cons.prems(8) that a(6,8,9) entry_frame[of e b' e1] by (auto simp: same_work_def)
  then have jobs: "map (\<lambda>b. job_need bs (entry_job e1 b)) ents = map (\<lambda>b. job_need bs (entry_job e b)) ents" by simp
  show ?case
  proof (cases "budget < int (lacks bs e1 i)")
    case True
    have r1: "set rest \<subseteq> set (e_running e1)" using i(3) a(9) by simp
    have en: "\<forall>b \<in> set ents. entry_ok e1 b \<and> be_id b \<notin> set rest" using fr by blast
    note bu = Cons.prems(10)[folded jobs]
    from Cons.IH[OF a(5) i(4) r1 h1 E en Cons.prems(9) bu Cons.prems(11)] obtain budget' ents' e' where
      R: "res_fold assemble_item rest (budget, ents, e1) = Inr (budget', ents', e')"
      "eng_inv P m bs nb S {} {} e'" "same_work e1 e'" "num_free (bm_alloc (e_manager e')) = num_free (bm_alloc (e_manager e1))"
      "\<forall>i. i \<notin> set rest \<longrightarrow> e_sequences e' i = e_sequences e1 i" "e_running e' = e_running e1" "e_rng e' = e_rng e1"
      "\<forall>b \<in> set ents'. entry_ok e' b" "distinct (map be_id ents')"
      "int (sum_list (map (\<lambda>b. job_need bs (entry_job e' b)) ents')) + budget' = tot" "0 \<le> budget'"
      "ents' = [] \<longrightarrow> ents = [] \<and> budget' = budget \<and> (\<forall>i \<in> set rest. budget < int (lacks bs e' i))" by auto
    have "lacks bs e' i = lacks bs e1 i" using R(5) i(2) by (simp add: lacks_def)
    then show ?thesis
      using R a True same_work_trans[OF a(6) R(3)] i(2) by (intro exI[of _ budget'] exI[of _ ents'] exI[of _ e']) simp
  next
    case False
    have r1: "set rest \<subseteq> set (e_running e1)" using i(3) a(9) by simp
    have en: "\<forall>b' \<in> set (ents @ [b]). entry_ok e1 b' \<and> be_id b' \<notin> set rest" using fr a(2,3) i(2) by auto
    have "be_id b \<notin> be_id ` set ents" unfolding a(2) using fr by (metis imageE)
    then have di: "distinct (map be_id (ents @ [b]))" using Cons.prems(9) by simp
    have bu: "int (sum_list (map (\<lambda>b. job_need bs (entry_job e1 b)) (ents @ [b]))) + (budget - int (lacks bs e1 i)) = tot"
      using Cons.prems(10) unfolding jobs[symmetric] by (simp add: a(4))
    from Cons.IH[OF a(5) i(4) r1 h1 E en di bu] False obtain budget' ents' e' where
      R: "res_fold assemble_item rest (budget - int (lacks bs e1 i), ents @ [b], e1) = Inr (budget', ents', e')"
      "eng_inv P m bs nb S {} {} e'" "same_work e1 e'" "num_free (bm_alloc (e_manager e')) = num_free (bm_alloc (e_manager e1))"
      "\<forall>i. i \<notin> set rest \<longrightarrow> e_sequences e' i = e_sequences e1 i" "e_running e' = e_running e1" "e_rng e' = e_rng e1"
      "\<forall>b \<in> set ents'. entry_ok e' b" "distinct (map be_id ents')"
      "int (sum_list (map (\<lambda>b. job_need bs (entry_job e' b)) ents')) + budget' = tot" "0 \<le> budget'" "ents' \<noteq> []" by auto
    then show ?thesis
      using a False same_work_trans[OF a(6) R(3)] by (intro exI[of _ budget'] exI[of _ ents'] exI[of _ e']) simp
  qed
qed

lemma free_blocks_num_free: "free_blocks m = num_free (bm_alloc m)"
  by (simp add: free_blocks_def)

lemma assemble_ok:
  assumes I: "eng_inv P m bs nb S {} {} e"
    and h: "e_prefix_cache e \<longrightarrow> inj_on chain_hash S" "chains_in bs S e"
    and E: "eigen_rowwise (p_eigen P)" "model_ok m"
  shows "\<exists>budget ents e'. assemble e = Inr (budget, ents, e')
    \<and> eng_inv P m bs nb S {} {} e' \<and> same_work e e' \<and> e_running e' = e_running e \<and> e_rng e' = e_rng e
    \<and> num_free (bm_alloc (e_manager e')) = num_free (bm_alloc (e_manager e))
    \<and> (\<forall>b \<in> set ents. entry_ok e' b) \<and> distinct (map be_id ents)
    \<and> int (sum_list (map (\<lambda>b. job_need bs (entry_job e' b)) ents)) \<le> num_free (bm_alloc (e_manager e'))
    \<and> (ents = [] \<longrightarrow> (\<forall>i \<in> set (e_running e'). num_free (bm_alloc (e_manager e')) < int (lacks bs e' i)))"
proof -
  have d: "distinct (e_running e)" using eng_invD(6)[OF I] by (simp add: queues_ok_def)
  have n: "0 \<le> num_free (bm_alloc (e_manager e))" by (simp add: num_free_def)
  from assemble_items_ok[OF I d order.refl h E, of "[]" "num_free (bm_alloc (e_manager e))"] n obtain budget' ents' e' where
    R: "res_fold assemble_item (e_running e) (num_free (bm_alloc (e_manager e)), [], e) = Inr (budget', ents', e')"
    "eng_inv P m bs nb S {} {} e'" "same_work e e'" "num_free (bm_alloc (e_manager e')) = num_free (bm_alloc (e_manager e))"
    "e_running e' = e_running e" "e_rng e' = e_rng e"
    "\<forall>b \<in> set ents'. entry_ok e' b" "distinct (map be_id ents')"
    "int (sum_list (map (\<lambda>b. job_need bs (entry_job e' b)) ents')) + budget' = num_free (bm_alloc (e_manager e))" "0 \<le> budget'"
    "ents' = [] \<longrightarrow> (\<forall>i \<in> set (e_running e). num_free (bm_alloc (e_manager e)) < int (lacks bs e' i))" by auto
  then show ?thesis
    by (intro exI[of _ budget'] exI[of _ ents'] exI[of _ e']) (simp add: assemble_def free_blocks_num_free)
qed

section \<open>Giving blocks back\<close>

lemma bm_free_prefix: "bm_free seq m = Inr (seq', m') \<Longrightarrow> bm_prefix m' = bm_prefix m"
proof -
  assume "bm_free seq m = Inr (seq', m')"
  then have "res_fold release_block (block_table seq) m = Inr m'" by (auto simp: bm_free_def res_bind_eq_Inr)
  then show ?thesis
    by (rule res_fold_inv[where P = "\<lambda>n. bm_prefix n = bm_prefix m"]) (auto simp: release_block_def res_bind_eq_Inr)
qed

lemma same_prefix_cache: "bm_prefix m' = bm_prefix m \<Longrightarrow> cache_refs m' = cache_refs m" "bm_prefix m' = bm_prefix m \<Longrightarrow> entries m' = entries m"
  by (simp_all add: cache_refs_def entries_def fun_eq_iff)

text \<open>Freeing the blocks of one sequence, whatever its new status is.\<close>

lemma free_seq_ok:
  assumes I: "eng_inv P m bs nb S R D e" and s: "e_sequences e i = Some s"
  shows "\<exists>mgr. bm_free (es_blocks s) (e_manager e) = Inr (no_blocks, mgr)
    \<and> bm_shape bs (d_kv m) nb (n_layers m) mgr \<and> same_data (e_manager e) mgr
    \<and> store_inv ((block_store e)(i \<mapsto> no_blocks)) (eids e) mgr
    \<and> bm_prefix mgr = bm_prefix (e_manager e)
    \<and> (\<forall>i' s2 b. i' \<noteq> i \<longrightarrow> e_sequences e i' = Some s2 \<longrightarrow> b \<in> set (block_table (es_blocks s2)) \<longrightarrow>
         priv (e_manager e) b \<longrightarrow> priv mgr b)"
proof -
  note D = eng_invD[OF I]
  have mem: "i \<in> set (eids e)" by (rule eng_inv_ids[OF I s])
  have bsi: "block_store e i = Some (es_blocks s)" using s by (simp add: block_store_def)
  let ?rest = "store_tables (block_store e) (remove1 i (eids e))"
  have nbk: "es_blocks s\<lparr>block_table := [], seq_length := 0\<rparr> = no_blocks" by (simp add: no_blocks_def)
  from bm_free_ok[OF store_inv_pick[OF D(2) mem bsi], unfolded nbk] obtain mgr where
    f: "bm_free (es_blocks s) (e_manager e) = Inr (no_blocks, mgr)" "seqs_inv mgr ([] # ?rest)"
    "num_blocks (bm_alloc mgr) = num_blocks (bm_alloc (e_manager e))" by blast
  have g: "bm_geom mgr = bm_geom (e_manager e)" by (rule bm_free_geom[OF f(1)])
  have sd: "same_data (e_manager e) mgr" by (rule same_data_geom[OF g])
  have pre: "bm_prefix mgr = bm_prefix (e_manager e)" by (rule bm_free_prefix[OF f(1)])
  have st: "store_inv ((block_store e)(i \<mapsto> no_blocks)) (eids e) mgr"
    using store_inv_put[OF D(2) mem, of mgr no_blocks] f(2) by (simp add: no_blocks_def)
  have "priv mgr b" if x: "i' \<noteq> i" "e_sequences e i' = Some s2" "b \<in> set (block_table (es_blocks s2))" "priv (e_manager e) b" for i' s2 b
  proof -
    have "block_store e i' = Some (es_blocks s2)" using x(2) by (simp add: block_store_def)
    then show ?thesis
      using priv_frame[OF D(2) st mem eng_inv_ids[OF I x(2)] x(1) bsi _ x(3,4)] x(4) same_prefix_cache(1)[OF pre]
      by (simp add: no_blocks_def priv_def)
  qed
  then show ?thesis using f(1) bm_shape_geom[OF D(1) g f(3)] sd st pre by blast
qed

lemma table_holds_nothing [simp]: "table_holds P m bs mgr 0 no_blocks ctx"
  by (simp add: table_holds_def no_blocks_def priv_from_def)

lemma youngest_holder_ok:
  assumes "eng_inv P m bs nb S {} {} e" "n \<le> length (e_running e)"
  shows "\<exists>r. youngest_holder e n = Inr r \<and>
    (case r of
       None \<Rightarrow> \<forall>k < n. block_table (es_blocks (the (e_sequences e (e_running e ! k)))) = []
     | Some k \<Rightarrow> k < n \<and> block_table (es_blocks (the (e_sequences e (e_running e ! k)))) \<noteq> []
         \<and> (\<forall>j. k < j \<longrightarrow> j < n \<longrightarrow> block_table (es_blocks (the (e_sequences e (e_running e ! j)))) = []))"
  using assms(2)
proof (induction n)
  case (Suc n)
  then obtain r where r: "youngest_holder e n = Inr r" and
    c: "case r of None \<Rightarrow> \<forall>k < n. block_table (es_blocks (the (e_sequences e (e_running e ! k)))) = []
     | Some k \<Rightarrow> k < n \<and> block_table (es_blocks (the (e_sequences e (e_running e ! k)))) \<noteq> []
         \<and> (\<forall>j. k < j \<longrightarrow> j < n \<longrightarrow> block_table (es_blocks (the (e_sequences e (e_running e ! j)))) = [])" by auto
  have "e_running e ! n \<in> set (e_running e)" using Suc.prems by simp
  then obtain s where s: "e_sequences e (e_running e ! n) = Some s" using running_seq[OF assms(1)] by blast
  show ?case
  proof (cases "block_table (es_blocks s) = []")
    case True
    then have "youngest_holder e (Suc n) = Inr r" using r s Suc.prems by (simp add: mem_simps seq_at_def)
    with c s True show ?thesis by (auto simp: less_Suc_eq split: option.splits)
  next
    case False
    then have "youngest_holder e (Suc n) = Inr (Some n)" using s Suc.prems by (simp add: mem_simps seq_at_def)
    with s False show ?thesis by auto
  qed
qed simp

lemma preempt_ok:
  assumes I: "eng_inv P m bs nb S {} {} e"
  shows "\<exists>freed e'. preempt_youngest e = Inr (freed, e') \<and> eng_inv P m bs nb S {} {} e' \<and> same_work e e' \<and> e_rng e' = e_rng e
    \<and> (if freed then \<exists>k < length (e_running e). e_running e' = take k (e_running e) @ drop (Suc k) (e_running e)
         \<and> e_waiting e' = e_running e ! k # e_waiting e
         \<and> block_table (es_blocks (the (e_sequences e (e_running e ! k)))) \<noteq> []
       else e' = e \<and> (\<forall>i \<in> set (e_running e). block_table (es_blocks (the (e_sequences e i))) = []))"
proof -
  from youngest_holder_ok[OF I order.refl] obtain r where
    r: "youngest_holder e (length (e_running e)) = Inr r" and
    c: "case r of None \<Rightarrow> \<forall>k < length (e_running e). block_table (es_blocks (the (e_sequences e (e_running e ! k)))) = []
     | Some k \<Rightarrow> k < length (e_running e) \<and> block_table (es_blocks (the (e_sequences e (e_running e ! k)))) \<noteq> []
         \<and> (\<forall>j. k < j \<longrightarrow> j < length (e_running e) \<longrightarrow> block_table (es_blocks (the (e_sequences e (e_running e ! j)))) = [])"
    by blast
  show ?thesis
  proof (cases r)
    case None
    then have "preempt_youngest e = Inr (False, e)" using r by (simp add: preempt_youngest_def)
    moreover have "\<forall>i \<in> set (e_running e). block_table (es_blocks (the (e_sequences e i))) = []"
      using c None by (auto simp: in_set_conv_nth)
    ultimately show ?thesis using I by (intro exI[of _ False] exI[of _ e]) simp
  next
    case (Some k)
    note D = eng_invD[OF I]
    have k: "k < length (e_running e)" "block_table (es_blocks (the (e_sequences e (e_running e ! k)))) \<noteq> []" using c Some by auto
    let ?i = "e_running e ! k"
    have i: "?i \<in> set (e_running e)" using k(1) by simp
    then obtain s where s: "e_sequences e ?i = Some s" using running_seq[OF I] by blast
    have run: "es_status s = Running" using D(6) i s by (auto simp: queues_ok_def has_status_def)
    from free_seq_ok[OF I s] obtain mgr where
      f: "bm_free (es_blocks s) (e_manager e) = Inr (no_blocks, mgr)" "bm_shape bs (d_kv m) nb (n_layers m) mgr" "same_data (e_manager e) mgr"
      "store_inv ((block_store e)(?i \<mapsto> no_blocks)) (eids e) mgr" "bm_prefix mgr = bm_prefix (e_manager e)"
      and pf: "\<forall>i' s2 b. i' \<noteq> ?i \<longrightarrow> e_sequences e i' = Some s2 \<longrightarrow> b \<in> set (block_table (es_blocks s2)) \<longrightarrow>
         priv (e_manager e) b \<longrightarrow> priv mgr b" by blast
    let ?s = "s\<lparr>es_blocks := no_blocks, es_prefilled := False, es_status := Waiting\<rparr>"
    let ?e = "(seq_set ?i ?s e)\<lparr>e_manager := mgr, e_running := erase_at k (e_running e),
                           e_waiting := ?i # e_waiting e, e_preemptions := e_preemptions e + 1\<rparr>"
    have p: "preempt_youngest e = Inr (True, ?e)"
      using r Some s k(1) f(1) by (simp add: preempt_youngest_def mem_simps seq_at_def)
    have er: "erase_at k (e_running e) = take k (e_running e) @ drop (Suc k) (e_running e)" by (simp add: erase_at_def)
    have split: "e_running e = take k (e_running e) @ ?i # drop (Suc k) (e_running e)" using k(1) by (simp add: id_take_nth_drop)
    have q: "queues_ok {} ?e"
    proof -
      have hs: "has_status ?e st j = (if j = ?i then Waiting = st else has_status e st j)" for st j
        by (simp add: has_status_def seq_set_def)
      have d: "distinct (e_waiting e @ e_running e)" using D(6) unfolding queues_ok_def by blast
      have w: "(j \<in> set (e_waiting e) \<longleftrightarrow> has_status e Waiting j) \<and> (j \<in> set (e_running e) \<longleftrightarrow> has_status e Running j)" for j
        using D(6) unfolding queues_ok_def by blast
      have m: "set (e_running e) = insert ?i (set (erase_at k (e_running e)))"
        unfolding er by (subst split) simp
      have dd: "distinct (?i # e_waiting e @ erase_at k (e_running e))"
      proof -
        from d have "distinct (e_waiting e @ take k (e_running e) @ ?i # drop (Suc k) (e_running e))" by (subst (asm) split)
        then show ?thesis unfolding er by auto
      qed
      have "(j \<in> set (?i # e_waiting e) \<longleftrightarrow> (if j = ?i then Waiting = Waiting else has_status e Waiting j))
        \<and> (j \<in> set (erase_at k (e_running e)) \<longleftrightarrow> (if j = ?i then Waiting = Running else has_status e Running j))" for j
        using dd w[of j] m by (cases "j = ?i") auto
      then show ?thesis using dd unfolding queues_ok_def hs by simp
    qed
    from D(5)[OF s] have so: "request_ok P m s" "es_id s = ?i" by (auto simp: seq_ok_def)
    have I': "eng_inv P m bs nb S {} {} ?e"
    proof (rule eng_inv_update[OF I s, of ?e ?s])
      show "seq_ok P m bs (?i \<in> {}) (e_manager ?e) ?i ?s"
        using so run by (auto simp: seq_ok_def seq_phase_def request_ok_def es_context_def intro!: exI[of _ 0])
      show "cache_ok P m bs S ?e"
        using D(7) f(5) same_prefix_cache(2)[OF f(5)]
        by (auto simp: cache_ok_def seq_set_def same_data_blk[OF f(3)] cache_sound_def split: if_splits)
    qed (use f pf q in \<open>auto simp: seq_set_def\<close>)
    have "same_work e ?e" by (rule same_work_update[OF s, of ?e ?s]) (simp_all add: seq_set_def)
    with p I' er k show ?thesis by (intro exI[of _ True] exI[of _ ?e]) (auto simp: seq_set_def)
  qed
qed

section \<open>The batch\<close>

lemma build_batch_ok:
  assumes "eng_inv P m bs nb S {} {} e"
    and h: "e_prefix_cache e \<longrightarrow> inj_on chain_hash S" "chains_in bs S e"
    and E: "eigen_rowwise (p_eigen P)" "model_ok m"
  shows "\<exists>ents e'. build_batch e = Inr (ents, e')
    \<and> eng_inv P m bs nb S {} {} e' \<and> same_work e e' \<and> e_rng e' = e_rng e
    \<and> (\<forall>b \<in> set ents. entry_ok e' b) \<and> distinct (map be_id ents)
    \<and> int (sum_list (map (\<lambda>b. job_need bs (entry_job e' b)) ents)) \<le> num_free (bm_alloc (e_manager e'))
    \<and> (ents = [] \<longrightarrow> (\<forall>i \<in> set (e_running e'). num_free (bm_alloc (e_manager e')) < int (lacks bs e' i))
         \<and> (e_running e = [] \<longrightarrow> e_running e' = []) \<and> (e_running e \<noteq> [] \<longrightarrow> e_running e' \<noteq> [])
         \<and> (length (e_running e') \<le> 1 \<or> (\<forall>i \<in> set (e_running e'). block_table (es_blocks (the (e_sequences e' i))) = [])))"
  using assms
proof (induction "length (e_running e)" arbitrary: e rule: less_induct)
  case less
  from assemble_ok[OF less.prems] obtain budget ents e1 where
    a: "assemble e = Inr (budget, ents, e1)" "eng_inv P m bs nb S {} {} e1" "same_work e e1" "e_running e1 = e_running e"
    "e_rng e1 = e_rng e" "\<forall>b \<in> set ents. entry_ok e1 b" "distinct (map be_id ents)"
    "int (sum_list (map (\<lambda>b. job_need bs (entry_job e1 b)) ents)) \<le> num_free (bm_alloc (e_manager e1))"
    "ents = [] \<longrightarrow> (\<forall>i \<in> set (e_running e1). num_free (bm_alloc (e_manager e1)) < int (lacks bs e1 i))" by blast
  show ?case
  proof (cases "ents \<noteq> [] \<or> length (e_running e1) \<le> 1")
    case True
    then have "build_batch e = Inr (ents, e1)" using a(1) by (simp add: build_batch.simps)
    then show ?thesis using a True by auto
  next
    case False
    from preempt_ok[OF a(2)] obtain freed e2 where
      p: "preempt_youngest e1 = Inr (freed, e2)" "eng_inv P m bs nb S {} {} e2" "same_work e1 e2" "e_rng e2 = e_rng e1"
      "if freed then \<exists>k < length (e_running e1). e_running e2 = take k (e_running e1) @ drop (Suc k) (e_running e1)
         \<and> e_waiting e2 = e_running e1 ! k # e_waiting e1
         \<and> block_table (es_blocks (the (e_sequences e1 (e_running e1 ! k)))) \<noteq> []
       else e2 = e1 \<and> (\<forall>i \<in> set (e_running e1). block_table (es_blocks (the (e_sequences e1 i))) = [])" by blast
    show ?thesis
    proof (cases freed)
      case True
      then have bb: "build_batch e = build_batch e2" using a(1) p(1) False by (simp add: build_batch.simps[of e])
      from p(5) True obtain k where k: "k < length (e_running e1)" "e_running e2 = take k (e_running e1) @ drop (Suc k) (e_running e1)" by auto
      then have l: "length (e_running e2) = length (e_running e) - 1" using a(4) by simp
      have lt: "length (e_running e2) < length (e_running e)" "e_running e2 \<noteq> []" using l False a(4) by auto
      have sw: "same_work e e2" using same_work_trans[OF a(3) p(3)] .
      have h2: "e_prefix_cache e2 \<longrightarrow> inj_on chain_hash S" "chains_in bs S e2"
        using less.prems(2,3) same_work_chains[OF sw, of bs S] sw by (auto simp: same_work_def)
      from less.hyps[OF lt(1) p(2) h2 E] obtain ents' e' where
        r: "build_batch e2 = Inr (ents', e')" "eng_inv P m bs nb S {} {} e'" "same_work e2 e'" "e_rng e' = e_rng e2"
        "\<forall>b \<in> set ents'. entry_ok e' b" "distinct (map be_id ents')"
        "int (sum_list (map (\<lambda>b. job_need bs (entry_job e' b)) ents')) \<le> num_free (bm_alloc (e_manager e'))"
        "ents' = [] \<longrightarrow> (\<forall>i \<in> set (e_running e'). num_free (bm_alloc (e_manager e')) < int (lacks bs e' i))
         \<and> (e_running e2 = [] \<longrightarrow> e_running e' = []) \<and> (e_running e2 \<noteq> [] \<longrightarrow> e_running e' \<noteq> [])
         \<and> (length (e_running e') \<le> 1 \<or> (\<forall>i \<in> set (e_running e'). block_table (es_blocks (the (e_sequences e' i))) = []))" by blast
      have "e_running e \<noteq> []" using lt by auto
      then show ?thesis
        using r bb same_work_trans[OF sw r(3)] lt(2) a(5) p(4) by (intro exI[of _ ents'] exI[of _ e']) simp
    next
      case no: False
      then have "build_batch e = Inr (ents, e2)" using a(1) p(1) False by (simp add: build_batch.simps[of e])
      then show ?thesis using a p(5) no False by (intro exI[of _ ents] exI[of _ e2]) auto
    qed
  qed
qed

end
