(* ===== verification/Engine_Step.thy ===== *)
theory Engine_Step
  imports Engine_Inv
begin

text \<open>
  One step of the engine: the batched forward, the sampling loop and the retirement of
  finished sequences preserve the invariant, and the step always returns.
\<close>

section \<open>The forward\<close>

definition held_ctx :: "'g engine \<Rightarrow> int \<Rightarrow> int list" where
  "held_ctx e i = (let s = the (e_sequences e i) in take (nat (seq_length (es_blocks s))) (es_context s))"

lemma priv_from_mono: "priv_from bs m p t \<Longrightarrow> p \<le> p' \<Longrightarrow> priv_from bs m p' t"
  unfolding priv_from_def by (meson div_le_mono le_trans)

lemma priv_from_frame: "priv_from bs m p t \<Longrightarrow> (\<forall>b. priv m b \<longrightarrow> priv m' b) \<Longrightarrow> priv_from bs m' p t"
  by (auto simp: priv_from_def)

lemma entry_seq:
  assumes I: "eng_inv P m bs nb S {} {} e" and b: "entry_ok e b"
  shows "\<exists>s n. e_sequences e (be_id b) = Some s \<and> table_holds P m bs (e_manager e) n (es_blocks s) (es_context s)
    \<and> request_ok P m s \<and> es_status s = Running \<and> es_id s = be_id b \<and> be_tokens b = drop n (es_context s) \<and> be_tokens b \<noteq> []
    \<and> held_ctx e (be_id b) = take n (es_context s) \<and> n < length (es_context s)
    \<and> bj_past (entry_job e b) = n \<and> bj_table (entry_job e b) = block_table (es_blocks s)
    \<and> be_prefill b = (\<not> es_prefilled s) \<and> be_ctx b = (if \<not> es_prefilled s \<and> e_prefix_cache e then es_context s else [])"
proof -
  from b obtain s where s: "e_sequences e (be_id b) = Some s" "be_tokens b = drop (nat (seq_length (es_blocks s))) (es_context s)"
    "be_tokens b \<noteq> []" "be_prefill b = (\<not> es_prefilled s)"
    "be_ctx b = (if \<not> es_prefilled s \<and> e_prefix_cache e then es_context s else [])" "be_id b \<in> set (e_running e)"
    by (auto simp: entry_ok_def)
  have run: "es_status s = Running" using eng_invD(6)[OF I] s by (auto simp: queues_ok_def has_status_def)
  from eng_invD(5)[OF I s(1)] obtain n where
    n: "table_holds P m bs (e_manager e) n (es_blocks s) (es_context s)" "request_ok P m s" "es_id s = be_id b"
    by (auto simp: seq_ok_def)
  have "nat (seq_length (es_blocks s)) = n" using n(1) by (simp add: table_holds_def)
  with s n run show ?thesis
    by (intro exI[of _ s] exI[of _ n]) (auto simp: held_ctx_def entry_job_def)
qed

lemma batch_jobs_ready:
  assumes I: "eng_inv P m bs nb S {} {} e" and b: "entry_ok e b"
  shows "job_ready bs (e_manager e) (block_store e) (entry_job e b)
    \<and> job_context (p_fpu P) (p_eigen P) m bs (e_manager e) (held_ctx e) (entry_job e b)"
proof -
  from entry_seq[OF I b] obtain s n where
    s: "e_sequences e (be_id b) = Some s" "table_holds P m bs (e_manager e) n (es_blocks s) (es_context s)"
    "request_ok P m s" "be_tokens b = drop n (es_context s)" "be_tokens b \<noteq> []"
    "held_ctx e (be_id b) = take n (es_context s)" "n < length (es_context s)"
    "bj_past (entry_job e b) = n" "bj_table (entry_job e b) = block_table (es_blocks s)" by blast
  have j: "bj_addr (entry_job e b) = be_id b" "bj_toks (entry_job e b) = be_tokens b" by (simp_all add: entry_job_def Let_def)
  have th: "seq_length (es_blocks s) = int n" "length (block_table (es_blocks s)) = nblk bs n"
    "priv_from bs (e_manager e) n (block_table (es_blocks s))"
    "holds (p_fpu P) (p_eigen P) m bs (e_manager e) (block_table (es_blocks s)) (take n (es_context s))"
    using s(2) by (simp_all add: table_holds_def)
  have "block_store e (be_id b) = Some (job_blk (entry_job e b))"
    using s(1,8,9) th(1) by (simp add: block_store_def job_blk_def)
  moreover have "n \<le> nblk bs n * bs" using nblk_covers bm_shapeD(2)[OF eng_invD(1)[OF I]] by blast
  moreover have "ids_ok m (es_context s)" using s(3) by (simp add: request_ok_def)
  ultimately show ?thesis using s th j by (simp add: job_ready_def job_context_def)
qed

lemma num_free_avail: "num_free (bm_alloc m) \<le> int (bm_avail m)"
  by (simp add: bm_avail_def num_free_def)

text \<open>The engine after the forward: the sequences of the batch hold their whole context.\<close>

text \<open>What the batched forward leaves of an entry: its sequence, as before, with a table that holds
  its whole context.\<close>

definition fed_in where
  "fed_in P m bs e st mgr b \<longleftrightarrow>
     (\<exists>s t. e_sequences e (be_id b) = Some s \<and> st (be_id b) = Some \<lparr>block_table = t, seq_length = int (length (es_context s))\<rparr>
      \<and> length t = nblk bs (length (es_context s)) \<and> priv_from bs mgr (length (es_context s)) t
      \<and> holds (p_fpu P) (p_eigen P) m bs mgr t (es_context s) \<and> request_ok P m s \<and> es_status s = Running \<and> es_id s = be_id b
      \<and> held_ctx e (be_id b) @ be_tokens b = es_context s)"

text \<open>And of everything else: the other tables, the cache, and the blocks outside the batch.\<close>

definition forward_done where
  "forward_done P m bs nb e ents st mgr \<longleftrightarrow>
     store_inv st (eids e) mgr \<and> bm_shape bs (d_kv m) nb (n_layers m) mgr
     \<and> (\<forall>i. i \<notin> be_id ` set ents \<longrightarrow> st i = block_store e i)
     \<and> (\<forall>b \<in> set ents. fed_in P m bs e st mgr b)
     \<and> mset (entries mgr) \<subseteq># mset (entries (e_manager e)) \<and> (\<forall>b. priv (e_manager e) b \<longrightarrow> priv mgr b)
     \<and> (\<forall>t i l. table_ok nb t \<longrightarrow> i \<le> length t * bs \<longrightarrow>
          (\<forall>b \<in> set t. \<not> (priv mgr b \<and> (\<exists>a' \<in> be_id ` set ents. b \<in> set (block_table (the (st a')))))) \<longrightarrow>
          bm_view bs (d_kv m) mgr t i l = bm_view bs (d_kv m) (e_manager e) t i l)"

lemma forward_doneD:
  assumes "forward_done P m bs nb e ents st mgr"
  shows "store_inv st (eids e) mgr" "bm_shape bs (d_kv m) nb (n_layers m) mgr"
    "\<And>i. i \<notin> be_id ` set ents \<Longrightarrow> st i = block_store e i"
    "\<And>b. b \<in> set ents \<Longrightarrow> fed_in P m bs e st mgr b"
    "mset (entries mgr) \<subseteq># mset (entries (e_manager e))" "\<forall>b. priv (e_manager e) b \<longrightarrow> priv mgr b"
    "\<forall>t i l. table_ok nb t \<longrightarrow> i \<le> length t * bs \<longrightarrow>
       (\<forall>b \<in> set t. \<not> (priv mgr b \<and> (\<exists>a' \<in> be_id ` set ents. b \<in> set (block_table (the (st a')))))) \<longrightarrow>
       bm_view bs (d_kv m) mgr t i l = bm_view bs (d_kv m) (e_manager e) t i l"
  using assms unfolding forward_done_def by blast+

lemma fed_in_job:
  assumes I: "eng_inv P m bs nb S {} {} e" and b: "entry_ok e b"
    and J: "\<exists>t. st (be_id b) = Some \<lparr>block_table = t, seq_length = int (bj_past (entry_job e b) + length (be_tokens b))\<rparr>
      \<and> length t = max (length (bj_table (entry_job e b))) (nblk bs (bj_past (entry_job e b) + length (be_tokens b)))
      \<and> priv_from bs mgr (bj_past (entry_job e b)) t
      \<and> holds (p_fpu P) (p_eigen P) m bs mgr t (held_ctx e (be_id b) @ be_tokens b)"
  shows "fed_in P m bs e st mgr b"
proof -
  from entry_seq[OF I b] obtain s n where
    s: "e_sequences e (be_id b) = Some s" "table_holds P m bs (e_manager e) n (es_blocks s) (es_context s)"
    "request_ok P m s" "es_status s = Running" "es_id s = be_id b" "be_tokens b = drop n (es_context s)"
    "held_ctx e (be_id b) = take n (es_context s)" "n < length (es_context s)"
    "bj_past (entry_job e b) = n" "bj_table (entry_job e b) = block_table (es_blocks s)" by blast
  have c: "held_ctx e (be_id b) @ be_tokens b = es_context s" using s by simp
  have l: "n + length (be_tokens b) = length (es_context s)" using s(6,8) by simp
  from J obtain t where
    t: "st (be_id b) = Some \<lparr>block_table = t, seq_length = int (length (es_context s))\<rparr>"
    "length t = max (length (block_table (es_blocks s))) (nblk bs (length (es_context s)))"
    "priv_from bs mgr n t" "holds (p_fpu P) (p_eigen P) m bs mgr t (es_context s)"
    unfolding s(9,10) l c by blast
  have "length (block_table (es_blocks s)) \<le> nblk bs (length (es_context s))"
    using s(2,8) nblk_mono[of n "length (es_context s)" bs] by (simp add: table_holds_def)
  then have "length t = nblk bs (length (es_context s))" using t(2) by simp
  moreover have "priv_from bs mgr (length (es_context s)) t" using priv_from_mono[OF t(3)] s(8) by simp
  ultimately show ?thesis unfolding fed_in_def using s t c by blast
qed

lemma forward_batch_done:
  assumes I: "eng_inv P m bs nb S {} {} e" and E: "eigen_rowwise (p_eigen P)" "model_ok m"
    and en: "ents \<noteq> []" "\<forall>b \<in> set ents. entry_ok e b" "distinct (map be_id ents)"
    and need: "int (sum_list (map (\<lambda>b. job_need bs (entry_job e b)) ents)) \<le> num_free (bm_alloc (e_manager e))"
  shows "\<exists>st mgr. forward_batch (p_fpu P) (p_eigen P) m
        (map (\<lambda>b. \<lparr>bi_blocks = Some (be_id b), bi_tokens = be_tokens b\<rparr>) ents) (block_store e) (e_manager e)
      = Inr (mk_mat (length ents) (n_vocab m)
          (map (\<lambda>b. next_logits (p_fpu P) (p_eigen P) m (held_ctx e (be_id b) @ be_tokens b)) ents), st, mgr)
    \<and> forward_done P m bs nb e ents st mgr"
proof -
  note D = eng_invD[OF I]
  let ?js = "map (entry_job e) ents" and ?F = "p_fpu P" and ?E = "p_eigen P" and ?mgr = "e_manager e"
  have addr: "bj_addr (entry_job e b) = be_id b" "bj_toks (entry_job e b) = be_tokens b"
    "bj_len (entry_job e b) = length (be_tokens b)" for b
    by (simp_all add: entry_job_def Let_def)
  have items: "map (\<lambda>b. \<lparr>bi_blocks = Some (be_id b), bi_tokens = be_tokens b\<rparr>) ents = map job_item ?js"
    by (simp add: job_item_def addr)
  have ne: "?js \<noteq> []" using en(1) by simp
  have di: "distinct (map bj_addr ?js)" using en(3) by (simp add: addr comp_def)
  have A: "bj_addr ` set ?js = be_id ` set ents" by (force simp: addr)
  have sub: "bj_addr ` set ?js \<subseteq> set (eids e)"
    using en(2) running_seq[OF I] eng_inv_ids[OF I] unfolding A by (fastforce simp: entry_ok_def)
  have rd: "\<forall>j \<in> set ?js. job_ready bs ?mgr (block_store e) j \<and> job_context ?F ?E m bs ?mgr (held_ctx e) j"
    using batch_jobs_ready[OF I] en(2) by auto
  have nd: "sum_list (map (job_need bs) ?js) \<le> bm_avail ?mgr"
    using need num_free_avail[of ?mgr] by (simp add: comp_def)
  from forward_batch_ctx[OF E D(1,2) ne di sub rd nd] obtain st mgr where
    R: "forward_batch ?F ?E m (map job_item ?js) (block_store e) ?mgr
      = Inr (mk_mat (length ?js) (n_vocab m) (map (\<lambda>j. next_logits ?F ?E m (held_ctx e (bj_addr j) @ bj_toks j)) ?js), st, mgr)"
    "store_inv st (eids e) mgr" "bm_shape bs (d_kv m) nb (n_layers m) mgr" "\<forall>a. a \<notin> bj_addr ` set ?js \<longrightarrow> st a = block_store e a"
    and J: "\<forall>j \<in> set ?js. \<exists>t. st (bj_addr j) = Some \<lparr>block_table = t, seq_length = int (bj_past j + bj_len j)\<rparr>
         \<and> length t = max (length (bj_table j)) (nblk bs (bj_past j + bj_len j)) \<and> priv_from bs mgr (bj_past j) t
         \<and> holds ?F ?E m bs mgr t (held_ctx e (bj_addr j) @ bj_toks j)"
    and M: "mset (entries mgr) \<subseteq># mset (entries ?mgr)" "\<forall>b. priv ?mgr b \<longrightarrow> priv mgr b"
    and fr: "\<forall>t i l. table_ok nb t \<longrightarrow> i \<le> length t * bs \<longrightarrow>
         (\<forall>b \<in> set t. \<not> (priv mgr b \<and> (\<exists>j \<in> set ?js. b \<in> set (block_table (the (st (bj_addr j))))))) \<longrightarrow>
         bm_view bs (d_kv m) mgr t i l = bm_view bs (d_kv m) ?mgr t i l" by blast
  have "fed_in P m bs e st mgr b" if "b \<in> set ents" for b
    using fed_in_job[OF I, of b st mgr] J[rule_format, of "entry_job e b"] en(2) that unfolding addr by simp
  then have "forward_done P m bs nb e ents st mgr"
    unfolding forward_done_def using R(2-4) M fr unfolding A[symmetric] by (simp add: A)
  moreover have L: "map (\<lambda>j. next_logits ?F ?E m (held_ctx e (bj_addr j) @ bj_toks j)) ?js
      = map (\<lambda>b. next_logits ?F ?E m (held_ctx e (be_id b) @ be_tokens b)) ents" by (simp add: addr comp_def)
  ultimately show ?thesis using R(1)[unfolded L length_map] unfolding items by blast
qed

lemma forward_done_seqs:
  assumes "forward_done P m bs nb e ents st mgr"
  shows "e_sequences (put_blocks st e) i = map_option (\<lambda>s. s\<lparr>es_blocks := the (st i)\<rparr>) (e_sequences e i)"
    and "block_store ((put_blocks st e)\<lparr>e_manager := mgr\<rparr>) = st"
proof -
  have seqs: "e_sequences (put_blocks st e) i = map_option (\<lambda>s. s\<lparr>es_blocks := the (st i)\<rparr>) (e_sequences e i)" for i
  proof (cases "i \<in> be_id ` set ents")
    case True
    then show ?thesis using forward_doneD(4)[OF assms] by (fastforce simp: put_blocks_def fed_in_def)
  next
    case False
    then show ?thesis using forward_doneD(3)[OF assms False]
      by (cases "e_sequences e i") (auto simp: put_blocks_def block_store_def)
  qed
  then show "e_sequences (put_blocks st e) i = map_option (\<lambda>s. s\<lparr>es_blocks := the (st i)\<rparr>) (e_sequences e i)" .
  show "block_store ((put_blocks st e)\<lparr>e_manager := mgr\<rparr>) = st"
  proof
    fix i
    show "block_store ((put_blocks st e)\<lparr>e_manager := mgr\<rparr>) i = st i"
    proof (cases "i \<in> be_id ` set ents")
      case True
      then show ?thesis using forward_doneD(4)[OF assms] seqs[of i] by (fastforce simp: block_store_def fed_in_def)
    next
      case False
      then show ?thesis using forward_doneD(3)[OF assms False] seqs[of i]
        by (cases "e_sequences e i") (auto simp: block_store_def)
    qed
  qed
qed

lemma forward_done_seq_ok:
  assumes I: "eng_inv P m bs nb S {} {} e" and en: "\<forall>b \<in> set ents. entry_ok e b"
    and F: "forward_done P m bs nb e ents st mgr" and h: "e_sequences (put_blocks st e) i = Some s'"
  shows "seq_ok P m bs (i \<in> be_id ` set ents) mgr i s'"
proof (cases "i \<in> be_id ` set ents")
  case True
  then obtain b where b: "b \<in> set ents" "i = be_id b" by blast
  from forward_doneD(4)[OF F b(1)] obtain s t where
    f: "e_sequences e i = Some s" "st i = Some \<lparr>block_table = t, seq_length = int (length (es_context s))\<rparr>"
    "length t = nblk bs (length (es_context s))" "priv_from bs mgr (length (es_context s)) t"
    "holds (p_fpu P) (p_eigen P) m bs mgr t (es_context s)" "request_ok P m s" "es_status s = Running" "es_id s = i"
    unfolding b(2) fed_in_def by blast
  have s': "s' = s\<lparr>es_blocks := \<lparr>block_table = t, seq_length = int (length (es_context s))\<rparr>\<rparr>"
    using h f(1,2) forward_done_seqs(1)[OF F, of i] by simp
  show ?thesis using f True
    by (auto simp: seq_ok_def s' request_ok_def es_context_def seq_phase_def table_holds_def intro!: exI[of _ "length (es_context s)"])
next
  case False
  note D = eng_invD[OF I]
  obtain s where s: "e_sequences e i = Some s" using h forward_done_seqs(1)[OF F, of i] by (cases "e_sequences e i") auto
  have sti: "st i = Some (es_blocks s)" using forward_doneD(3)[OF F False] s by (simp add: block_store_def)
  have ss: "s' = s" using h s forward_done_seqs(1)[OF F, of i] sti by simp
  from D(5)[OF s] obtain n where n: "es_id s = i" "request_ok P m s" "table_holds P m bs (e_manager e) n (es_blocks s) (es_context s)"
    "seq_phase False bs n s" by (auto simp: seq_ok_def)
  have i: "i \<in> set (eids e)" by (rule eng_inv_ids[OF I s])
  have le: "n \<le> length (block_table (es_blocks s)) * bs"
    using n(3) nblk_covers bm_shapeD(2)[OF D(1)] by (simp add: table_holds_def)
  have sub: "be_id ` set ents \<subseteq> set (eids e)"
    using en running_seq[OF I] eng_inv_ids[OF I] by (fastforce simp: entry_ok_def)
  have some: "\<forall>a' \<in> be_id ` set ents. \<exists>blk. st a' = Some blk" using forward_doneD(4)[OF F] by (auto simp: fed_in_def)
  have "bm_view bs (d_kv m) mgr (block_table (es_blocks s)) n l = bm_view bs (d_kv m) (e_manager e) (block_table (es_blocks s)) n l" for l
    by (rule batch_frame[OF forward_doneD(2,1)[OF F] i sti False sub some forward_doneD(7)[OF F] le])
  then have "table_holds P m bs mgr n (es_blocks s) (es_context s)"
    using n(3) priv_from_frame[OF _ forward_doneD(6)[OF F]] by (auto simp: table_holds_def holds_def)
  then show ?thesis using n False unfolding ss seq_ok_def by auto
qed

lemma forward_done_cache:
  assumes I: "eng_inv P m bs nb S {} {} e" and F: "forward_done P m bs nb e ents st mgr"
  shows "cache_ok P m bs S ((put_blocks st e)\<lparr>e_manager := mgr\<rparr>)"
proof (cases "e_prefix_cache e")
  case True
  note D = eng_invD[OF I]
  let ?F = "p_fpu P" and ?E = "p_eigen P" and ?mgr = "e_manager e"
  have cs: "\<forall>x \<in> set (entries ?mgr). \<exists>c \<in> S. pe_parent x = chain_hash c \<and> blk_holds ?F ?E m bs ?mgr c (pe_tokens x) (pe_block x)"
    using D(7) True by (simp add: cache_ok_def cache_sound_def)
  have inv: "bm_inv mgr" using forward_doneD(1)[OF F] by (simp add: store_inv_def seqs_inv_def)
  have "blk_holds ?F ?E m bs mgr c sp (pe_block x)"
    if x: "x \<in> set (entries mgr)" "blk_holds ?F ?E m bs ?mgr c sp (pe_block x)" for x c sp
  proof -
    have "table_ok nb [pe_block x]"
      using entry_range[OF inv x(1)] bm_shapeD(5)[OF forward_doneD(2)[OF F]] by (simp add: table_ok_def)
    moreover have "\<not> priv mgr (pe_block x)" using x(1) cache_refs_pos[of mgr "pe_block x"] by (auto simp: priv_def)
    ultimately have "bm_view bs (d_kv m) mgr [pe_block x] bs l = bm_view bs (d_kv m) ?mgr [pe_block x] bs l" for l
      using forward_doneD(7)[OF F] by simp
    then show ?thesis using x(2) by (simp add: blk_holds_def)
  qed
  moreover have "set (entries mgr) \<subseteq> set (entries ?mgr)" using set_mset_mono[OF forward_doneD(5)[OF F]] by simp
  ultimately show ?thesis using cs True by (auto simp: cache_ok_def put_blocks_def cache_sound_def) blast
next
  case False
  then show ?thesis using eng_invD(7)[OF I] forward_doneD(5)[OF F] by (simp add: cache_ok_def put_blocks_def)
qed

lemma forward_done_inv:
  assumes I: "eng_inv P m bs nb S {} {} e" and en: "\<forall>b \<in> set ents. entry_ok e b"
    and F: "forward_done P m bs nb e ents st mgr"
  shows "eng_inv P m bs nb S (be_id ` set ents) {} ((put_blocks st e)\<lparr>e_manager := mgr\<rparr>)"
proof -
  note D = eng_invD[OF I]
  let ?e = "(put_blocks st e)\<lparr>e_manager := mgr\<rparr>"
  have seqs: "e_sequences ?e i = map_option (\<lambda>s. s\<lparr>es_blocks := the (st i)\<rparr>) (e_sequences e i)" for i
    using forward_done_seqs(1)[OF F, of i] by simp
  have same: "eids ?e = eids e" "e_running ?e = e_running e" "e_waiting ?e = e_waiting e" "e_next_id ?e = e_next_id e"
    by (simp_all add: eids_def put_blocks_def)
  have hs: "has_status ?e x i = has_status e x i" for x i unfolding has_status_def seqs by auto
  have dom: "dom (e_sequences ?e) = dom (e_sequences e)" using seqs by (auto simp: dom_def)
  show ?thesis
    unfolding eng_inv_def forward_done_seqs(2)[OF F] same dom
    using forward_doneD(1,2)[OF F] D(3,4,6) forward_done_seq_ok[OF I en F] forward_done_cache[OF I F] hs
    by (simp add: queues_ok_def same put_blocks_def)
qed

lemma forward_done_logits:
  assumes E: "eigen_rowwise (p_eigen P)" "model_ok m" and F: "forward_done P m bs nb e ents st mgr" and k: "k < length ents"
  shows "take (n_vocab m) (drop (k * n_vocab m)
      (concat (map (\<lambda>b. next_logits (p_fpu P) (p_eigen P) m (held_ctx e (be_id b) @ be_tokens b)) ents)))
    = next_logits (p_fpu P) (p_eigen P) m (es_context (the (e_sequences e (be_id (ents ! k)))))"
proof -
  let ?rows = "map (\<lambda>b. next_logits (p_fpu P) (p_eigen P) m (held_ctx e (be_id b) @ be_tokens b)) ents"
  have c: "\<exists>s. e_sequences e (be_id b) = Some s \<and> request_ok P m s \<and> held_ctx e (be_id b) @ be_tokens b = es_context s"
    if "b \<in> set ents" for b
    using forward_doneD(4)[OF F that] unfolding fed_in_def by blast
  have lens: "length x = n_vocab m" if "x \<in> set ?rows" for x
    using that c next_logits_eq(2)[OF E] by (fastforce simp: request_ok_def es_context_def)
  have "row (n_vocab m) k (concat ?rows) = ?rows ! k" using k by (intro row_concat lens) simp_all
  moreover have "held_ctx e (be_id (ents ! k)) @ be_tokens (ents ! k) = es_context (the (e_sequences e (be_id (ents ! k))))"
    using c[of "ents ! k"] k by fastforce
  ultimately show ?thesis using k by (simp add: row_def slice_def)
qed

lemma forward_phase:
  assumes I: "eng_inv P m bs nb S {} {} e" and E: "eigen_rowwise (p_eigen P)" "model_ok m"
    and en: "ents \<noteq> []" "\<forall>b \<in> set ents. entry_ok e b" "distinct (map be_id ents)"
    and need: "int (sum_list (map (\<lambda>b. job_need bs (entry_job e b)) ents)) \<le> num_free (bm_alloc (e_manager e))"
  shows "\<exists>logits st mgr. forward_batch (p_fpu P) (p_eigen P) m
        (map (\<lambda>b. \<lparr>bi_blocks = Some (be_id b), bi_tokens = be_tokens b\<rparr>) ents) (block_store e) (e_manager e) = Inr (logits, st, mgr)
    \<and> eng_inv P m bs nb S (be_id ` set ents) {} ((put_blocks st e)\<lparr>e_manager := mgr\<rparr>)
    \<and> (\<forall>i s. e_sequences e i = Some s \<longrightarrow> (\<exists>blk. e_sequences (put_blocks st e) i = Some (s\<lparr>es_blocks := blk\<rparr>)))
    \<and> (\<forall>k < length ents. take (n_vocab m) (drop (k * n_vocab m) (t_data logits))
          = next_logits (p_fpu P) (p_eigen P) m (es_context (the (e_sequences e (be_id (ents ! k))))))"
proof -
  let ?rows = "map (\<lambda>b. next_logits (p_fpu P) (p_eigen P) m (held_ctx e (be_id b) @ be_tokens b)) ents"
  from forward_batch_done[OF I E en need] obtain st mgr where
    R: "forward_batch (p_fpu P) (p_eigen P) m
        (map (\<lambda>b. \<lparr>bi_blocks = Some (be_id b), bi_tokens = be_tokens b\<rparr>) ents) (block_store e) (e_manager e)
      = Inr (mk_mat (length ents) (n_vocab m) ?rows, st, mgr)" and F: "forward_done P m bs nb e ents st mgr" by blast
  have "t_data (mk_mat (length ents) (n_vocab m) ?rows) = concat ?rows" unfolding mk_mat_def tensor.simps ..
  moreover have "\<forall>i s. e_sequences e i = Some s \<longrightarrow> (\<exists>blk. e_sequences (put_blocks st e) i = Some (s\<lparr>es_blocks := blk\<rparr>))"
    using forward_done_seqs(1)[OF F] by auto
  moreover have "\<forall>k < length ents. take (n_vocab m) (drop (k * n_vocab m) (concat ?rows))
      = next_logits (p_fpu P) (p_eigen P) m (es_context (the (e_sequences e (be_id (ents ! k)))))"
    using forward_done_logits[OF E F] by blast
  ultimately show ?thesis
    using R forward_done_inv[OF I en(2) F]
    by (intro exI[of _ "mk_mat (length ents) (n_vocab m) ?rows"] exI[of _ st] exI[of _ mgr]) (simp only: simp_thms)
qed

section \<open>Sampling\<close>

text \<open>Registering the prefix of a fed sequence.\<close>

text \<open>
  What registering the table \<open>t\<close> may enter: spans the cache held, or the blocks of \<open>t\<close> that are
  full. Every other block that one sequence owns stays its own.
\<close>

lemma registered_priv:
  assumes cs: "cache_sound S (\<lambda>c sp b. R c sp b \<and> (0 < cache_refs mgr b \<or> (\<exists>j < n. b = t ! j))) mgr'"
    and refs: "seq_refs mgr' = seq_refs mgr" and b: "priv mgr b" "\<forall>j < n. b \<noteq> t ! j"
  shows "priv mgr' b"
proof -
  have "cache_refs mgr' b = 0"
  proof (rule ccontr)
    assume "cache_refs mgr' b \<noteq> 0"
    then obtain x where "x \<in> set (entries mgr')" "pe_block x = b" using cache_refs_pos[of mgr' b] by auto
    then have "0 < cache_refs mgr b \<or> (\<exists>j < n. b = t ! j)" using cs unfolding cache_sound_def by blast
    moreover have "cache_refs mgr b = 0" using b(1) by (simp add: priv_def)
    ultimately show False using b(2) by auto
  qed
  then show ?thesis using b(1) refs by (simp add: priv_def)
qed

lemma full_le_table: "0 < bs \<Longrightarrow> n div bs \<le> nblk bs n"
  by (simp add: nblk_def div_le_mono)

lemma register_seq_ok:
  assumes I: "eng_inv P m bs nb S R D e" and s: "e_sequences e i = Some s"
    and E: "eigen_rowwise (p_eigen P)" "model_ok m" and on: "e_prefix_cache e"
    and th: "table_holds P m bs (e_manager e) (length ctx) (es_blocks s) ctx" and ids: "ids_ok m ctx"
    and ch: "chains bs ctx \<subseteq> S"
  shows "\<exists>mgr. register_prefix (es_blocks s) ctx (e_manager e) = Inr mgr
    \<and> bm_shape bs (d_kv m) nb (n_layers m) mgr \<and> same_data (e_manager e) mgr
    \<and> store_inv (block_store e) (eids e) mgr
    \<and> cache_sound S (blk_holds (p_fpu P) (p_eigen P) m bs mgr) mgr
    \<and> table_holds P m bs mgr (length ctx) (es_blocks s) ctx
    \<and> (\<forall>i' s2 b. i' \<noteq> i \<longrightarrow> e_sequences e i' = Some s2 \<longrightarrow> b \<in> set (block_table (es_blocks s2)) \<longrightarrow>
         priv (e_manager e) b \<longrightarrow> priv mgr b)"
proof -
  note D = eng_invD[OF I] and B = bm_shapeD[OF eng_invD(1)[OF I]]
  let ?mgr = "e_manager e" and ?t = "block_table (es_blocks s)"
  have mem: "i \<in> set (eids e)" by (rule eng_inv_ids[OF I s])
  have bsi: "block_store e i = Some (es_blocks s)" using s by (simp add: block_store_def)
  have inv: "seqs_inv ?mgr (store_tables (block_store e) (eids e))" using D(2) by (simp add: store_inv_def)
  have tin: "?t \<in> set (store_tables (block_store e) (eids e))" using mem bsi by (force simp: store_tables_def)
  have holds: "holds (p_fpu P) (p_eigen P) m bs ?mgr ?t ctx" and len: "length ?t = nblk bs (length ctx)"
    and pr: "priv_from bs ?mgr (length ctx) ?t" and sl: "seq_length (es_blocks s) = int (length ctx)"
    using th by (simp_all add: table_holds_def)
  have le: "length ctx div bs \<le> length ?t" unfolding len by (rule full_le_table[OF B(2)])
  define Q where "Q = (\<lambda>c sp b. blk_holds (p_fpu P) (p_eigen P) m bs ?mgr c sp b
      \<and> (0 < cache_refs ?mgr b \<or> (\<exists>j < length ctx div bs. b = ?t ! j)))"
  have cs: "cache_sound S (blk_holds (p_fpu P) (p_eigen P) m bs ?mgr) ?mgr" using D(7) on by (simp add: cache_ok_def)
  then have csQ: "cache_sound S Q ?mgr"
    unfolding Q_def cache_sound_def by (metis cache_refs_pos)
  have new: "\<forall>j < min (length ?t) (length ctx div bs). take j (full_spans bs ctx) \<in> S \<and> Q (take j (full_spans bs ctx)) (full_spans bs ctx ! j) (?t ! j)"
  proof (intro allI impI conjI)
    fix j assume "j < min (length ?t) (length ctx div bs)"
    then have j: "j < length ctx div bs" by simp
    show "take j (full_spans bs ctx) \<in> S" using ch take_in_chains[of j ctx bs] j by auto
    show "Q (take j (full_spans bs ctx)) (full_spans bs ctx ! j) (?t ! j)"
      unfolding Q_def using holds_block[OF E ids B(2) holds j] j by blast
  qed
  from register_prefix_ok[OF inv tin B(1,2), of ctx] obtain mgr where
    r: "register_prefix (es_blocks s) ctx ?mgr = Inr mgr" "seqs_inv mgr (store_tables (block_store e) (eids e))"
    and rc: "\<forall>S Q. cache_sound S Q ?mgr \<longrightarrow>
         (\<forall>j < min (length ?t) (length ctx div bs). take j (full_spans bs ctx) \<in> S
            \<and> Q (take j (full_spans bs ctx)) (full_spans bs ctx ! j) (?t ! j)) \<longrightarrow> cache_sound S Q mgr"
    and g: "num_blocks (bm_alloc mgr) = num_blocks (bm_alloc ?mgr)" "bm_keys mgr = bm_keys ?mgr" "bm_values mgr = bm_values ?mgr"
      "bm_block_size mgr = bm_block_size ?mgr" "bm_kv_dim mgr = bm_kv_dim ?mgr"
    by (elim exE conjE) (rule that; assumption)
  have sd: "same_data ?mgr mgr" using g by (simp add: same_data_def)
  have st: "store_inv (block_store e) (eids e) mgr" using r(2) D(2) by (simp add: store_inv_def)
  have csm: "cache_sound S Q mgr" using rc csQ new by blast
  have refs: "seq_refs mgr = seq_refs ?mgr" using inv r(2) by (simp add: seqs_inv_def)
  note still = registered_priv[OF csm[unfolded Q_def] refs]
  have own: "priv_from bs mgr (length ctx) ?t"
    unfolding priv_from_def
  proof (intro allI impI)
    fix k assume k: "k < length ?t" "length ctx div bs \<le> k"
    then have p: "priv ?mgr (?t ! k)" using pr by (simp add: priv_from_def)
    have "once_from (length ctx div bs) ?t" by (rule priv_from_once[OF D(2) mem bsi pr])
    then have "\<forall>j < length ctx div bs. ?t ! k \<noteq> ?t ! j"
      unfolding once_from_def using k le by (metis less_le_trans nat_neq_iff not_less)
    then show "priv mgr (?t ! k)" using still[OF p] by blast
  qed
  have other: "priv mgr b" if x: "i' \<noteq> i" "e_sequences e i' = Some s2" "b \<in> set (block_table (es_blocks s2))" "priv ?mgr b" for i' s2 b
  proof (rule still[OF x(4)], intro allI impI)
    fix j assume j: "j < length ctx div bs"
    have "block_store e i' = Some (es_blocks s2)" using x(2) by (simp add: block_store_def)
    then have "b \<notin> set ?t"
      using store_inv_sep[OF D(2) eng_inv_ids[OF I x(2)] mem x(1) _ bsi x(3)] x(4) by (simp add: priv_def)
    then show "b \<noteq> ?t ! j" using j le by auto
  qed
  have "cache_sound S (blk_holds (p_fpu P) (p_eigen P) m bs mgr) mgr"
    using csm unfolding cache_sound_def Q_def same_data_blk[OF sd] by blast
  moreover have "table_holds P m bs mgr (length ctx) (es_blocks s) ctx"
    using own holds len sl by (simp add: table_holds_def same_data_holds[OF sd])
  ultimately show ?thesis using r(1) shape_update[OF D(1) sd g(4,5,1)] sd st other by blast
qed

text \<open>The schedule of the engine: everything but the sequences, the manager and the generator.\<close>

definition same_schedule :: "'g engine \<Rightarrow> 'g engine \<Rightarrow> bool" where
  "same_schedule e e' \<longleftrightarrow> e_running e' = e_running e \<and> e_waiting e' = e_waiting e \<and> e_prefix_cache e' = e_prefix_cache e
     \<and> e_next_id e' = e_next_id e \<and> e_max_batch e' = e_max_batch e"

lemma queues_retire:
  assumes "queues_ok D e" "e_sequences e i = Some s" "es_status s = Running" "same_schedule e e'"
    and "e_sequences e' = (e_sequences e)(i \<mapsto> s')" "es_status s' = Finished"
  shows "queues_ok (insert i D) e'"
proof -
  have hs: "has_status e' st j = (if j = i then Finished = st else has_status e st j)" for st j
    using assms(5,6) by (simp add: has_status_def)
  have R: "has_status e Running i" "\<not> has_status e Waiting i" using assms(2,3) by (simp_all add: has_status_def)
  have q: "distinct (e_waiting e @ e_running e)"
    "\<And>j. (j \<in> set (e_waiting e) \<longleftrightarrow> has_status e Waiting j) \<and> (j \<in> set (e_running e) \<longleftrightarrow> has_status e Running j \<or> j \<in> D)"
    "\<forall>j \<in> D. has_status e Finished j"
    using assms(1) unfolding queues_ok_def by blast+
  have "(j \<in> set (e_waiting e) \<longleftrightarrow> has_status e' Waiting j) \<and> (j \<in> set (e_running e) \<longleftrightarrow> has_status e' Running j \<or> j \<in> insert i D)" for j
    using q(2)[of j] R unfolding hs by (cases "j = i") simp_all
  then show ?thesis
    using q(1,3) assms(4) unfolding queues_ok_def same_schedule_def hs by simp
qed

lemma queues_keep:
  assumes "queues_ok D e" "e_sequences e i = Some s" "same_schedule e e'"
    and "e_sequences e' = (e_sequences e)(i \<mapsto> s')" "es_status s' = es_status s"
  shows "queues_ok D e'"
proof -
  have "has_status e' st j = has_status e st j" for st j using assms(2,4,5) by (simp add: has_status_def)
  then show ?thesis using assms(1,3) by (simp add: queues_ok_def same_schedule_def)
qed

lemma cache_ok_data:
  assumes "cache_ok P m bs S e" "same_data (e_manager e) (e_manager e')" "entries (e_manager e') = entries (e_manager e)"
    "e_prefix_cache e' = e_prefix_cache e"
  shows "cache_ok P m bs S e'"
  using assms by (auto simp: cache_ok_def same_data_blk cache_sound_def split: if_splits)

text \<open>A token that may follow the output of a sequence, and the sequence with it.\<close>

definition token_ok where
  "token_ok P m s t \<longleftrightarrow> rq_prompt (es_request s) \<noteq> [] \<and> ids_ok m (es_context s @ [t])
     \<and> samples_ok P m (rq_params (es_request s)) \<and> out_ok P m (es_request s) (es_output s @ [t])"

abbreviation with_token :: "engine_sequence \<Rightarrow> int \<Rightarrow> engine_sequence" where
  "with_token s t \<equiv> s\<lparr>es_prefilled := True, es_output := es_output s @ [t]\<rparr>"

lemma sample_token_ok:
  assumes E: "model_ok m" and ok: "request_ok P m s" "es_status s = Running"
    and row: "take (n_vocab m) (drop off dat) = next_logits (p_fpu P) (p_eigen P) m (es_context s)"
  shows "\<exists>t g. sample (p_fpu P) (p_sort P) (p_uniform P) (drop off dat) (int (n_vocab m)) (rq_params (es_request s)) rng
    = Inr (t, g) \<and> token_ok P m s t"
proof -
  let ?rq = "es_request s"
  have rq: "rq_prompt ?rq \<noteq> []" "ids_ok m (es_context s)" "samples_ok P m (rq_params ?rq)" "out_ok P m ?rq (es_output s)"
    "es_output s = [] \<or> \<not> stops ?rq (es_output s)"
    using ok by (auto simp: request_ok_def)
  have ne: "es_context s \<noteq> []" using rq(1) by (simp add: es_context_def)
  from rq(3) rq(2) ne row obtain t g where
    t: "sample (p_fpu P) (p_sort P) (p_uniform P) (drop off dat) (int (n_vocab m)) (rq_params ?rq) rng = Inr (int t, g)"
    "t < n_vocab m" unfolding samples_ok_def by blast
  have "draws P m (rq_params ?rq) (rq_prompt ?rq @ es_output s) (int t)"
    unfolding draws_def using row t(1) by (auto simp: es_context_def)
  from out_ok_snoc[OF rq(4,5) this] rq t(2) have "token_ok P m s (int t)"
    by (auto simp: token_ok_def ids_ok_def)
  with t(1) show ?thesis by blast
qed

lemma sampled_retire:
  assumes I: "eng_inv P m bs nb S R D e" and s: "e_sequences e i = Some s" "es_status s = Running" "es_id s = i"
    and t: "token_ok P m s t" "stops (es_request s) (es_output s @ [t])"
  shows "\<exists>mgr. bm_free (es_blocks s) (e_manager e) = Inr (no_blocks, mgr)
    \<and> eng_inv P m bs nb S (R - {i}) (insert i D)
        (seq_set i ((with_token s t)\<lparr>es_status := Finished, es_blocks := no_blocks\<rparr>) (e\<lparr>e_rng := g, e_manager := mgr\<rparr>))"
proof -
  note D = eng_invD[OF I]
  from free_seq_ok[OF I s(1)] obtain mgr where
    f: "bm_free (es_blocks s) (e_manager e) = Inr (no_blocks, mgr)" "bm_shape bs (d_kv m) nb (n_layers m) mgr" "same_data (e_manager e) mgr"
    "store_inv ((block_store e)(i \<mapsto> no_blocks)) (eids e) mgr" "bm_prefix mgr = bm_prefix (e_manager e)"
    and pf: "\<forall>i' s2 b. i' \<noteq> i \<longrightarrow> e_sequences e i' = Some s2 \<longrightarrow> b \<in> set (block_table (es_blocks s2)) \<longrightarrow>
       priv (e_manager e) b \<longrightarrow> priv mgr b" by blast
  let ?s2 = "(with_token s t)\<lparr>es_status := Finished, es_blocks := no_blocks\<rparr>"
  let ?e2 = "seq_set i ?s2 (e\<lparr>e_rng := g, e_manager := mgr\<rparr>)"
  have sch: "same_schedule e ?e2" by (simp add: same_schedule_def seq_set_def)
  have so: "seq_ok P m bs (i \<in> R - {i}) (e_manager ?e2) i ?s2"
    using s(3) t by (auto simp: token_ok_def seq_ok_def seq_phase_def request_ok_def es_context_def intro!: exI[of _ 0])
  have "eng_inv P m bs nb S (R - {i}) (insert i D) ?e2"
  proof (rule eng_inv_update[OF I s(1), of ?e2 ?s2])
    show "queues_ok (insert i D) ?e2"
      by (rule queues_retire[OF D(6) s(1,2) sch, of ?s2]) (simp_all add: seq_set_def)
    show "cache_ok P m bs S ?e2"
      by (rule cache_ok_data[OF D(7)]) (use f(3,5) same_prefix_cache(2)[OF f(5)] in \<open>simp_all add: seq_set_def\<close>)
  qed (use f pf so in \<open>auto simp: seq_set_def\<close>)
  with f(1) show ?thesis by blast
qed

lemma sampled_keep:
  assumes I: "eng_inv P m bs nb S R D e" and s: "e_sequences e i = Some s" "es_status s = Running" "es_id s = i"
    and t: "token_ok P m s t" "\<not> stops (es_request s) (es_output s @ [t])"
    and mgr: "bm_shape bs (d_kv m) nb (n_layers m) mgr" "same_data (e_manager e) mgr" "store_inv (block_store e) (eids e) mgr"
      "table_holds P m bs mgr (length (es_context s)) (es_blocks s) (es_context s)"
      "\<forall>i' s2 b. i' \<noteq> i \<longrightarrow> e_sequences e i' = Some s2 \<longrightarrow> b \<in> set (block_table (es_blocks s2)) \<longrightarrow>
         priv (e_manager e) b \<longrightarrow> priv mgr b"
    and cache: "cache_ok P m bs S (seq_set i (with_token s t) (e\<lparr>e_rng := g, e_manager := mgr\<rparr>))"
  shows "eng_inv P m bs nb S (R - {i}) D (seq_set i (with_token s t) (e\<lparr>e_rng := g, e_manager := mgr\<rparr>))"
proof -
  note D = eng_invD[OF I]
  let ?s2 = "with_token s t" and ?e2 = "seq_set i (with_token s t) (e\<lparr>e_rng := g, e_manager := mgr\<rparr>)"
  have sch: "same_schedule e ?e2" by (simp add: same_schedule_def seq_set_def)
  have "table_holds P m bs mgr (length (es_context s)) (es_blocks s) (es_context s @ [t])"
    using mgr(4) by (simp add: table_holds_def)
  then have so: "seq_ok P m bs (i \<in> R - {i}) mgr i ?s2"
    using s(2,3) t by (auto simp: token_ok_def seq_ok_def seq_phase_def request_ok_def es_context_def
        intro!: exI[of _ "length (es_context s)"])
  show ?thesis
  proof (rule eng_inv_update[OF I s(1), of ?e2 ?s2])
    show "queues_ok D ?e2" by (rule queues_keep[OF D(6) s(1) sch, of ?s2]) (simp_all add: seq_set_def)
    show "cache_ok P m bs S ?e2" by (rule cache)
    have "(block_store e)(i \<mapsto> es_blocks ?s2) = block_store e" using s(1) by (auto simp: block_store_def fun_eq_iff)
    then show "store_inv ((block_store e)(i \<mapsto> es_blocks ?s2)) (eids e) (e_manager ?e2)" using mgr(3) by (simp add: seq_set_def)
  qed (use mgr so in \<open>auto simp: seq_set_def\<close>)
qed

lemma sample_item_ok:
  assumes I: "eng_inv P m bs nb S R D e" and E: "eigen_rowwise (p_eigen P)" "model_ok m"
    and i: "be_id b \<in> R" and s: "e_sequences e (be_id b) = Some s"
    and row: "take (n_vocab m) (drop (k * n_vocab m) (t_data logits)) = next_logits (p_fpu P) (p_eigen P) m (es_context s)"
    and pre: "be_prefill b \<longrightarrow> e_prefix_cache e \<longrightarrow> be_ctx b = es_context s" "e_prefix_cache e \<longrightarrow> chains bs (es_context s) \<subseteq> S"
  shows "\<exists>t e'. sample_item P m logits (k, b) (af, e) = Inr (af \<or> stops (es_request s) (es_output s @ [t]), e')
    \<and> eng_inv P m bs nb S (R - {be_id b}) (if stops (es_request s) (es_output s @ [t]) then insert (be_id b) D else D) e'
    \<and> same_schedule e e' \<and> (\<forall>i'. i' \<noteq> be_id b \<longrightarrow> e_sequences e' i' = e_sequences e i')
    \<and> work e' (be_id b) = Some (es_request s, es_output s @ [t])"
proof -
  note D = eng_invD[OF I]
  let ?i = "be_id b" and ?rq = "es_request s" and ?ctx = "es_context s"
  from D(5)[OF s] i have n: "es_id s = ?i" "request_ok P m s" "table_holds P m bs (e_manager e) (length ?ctx) (es_blocks s) ?ctx"
    "es_status s = Running" by (auto simp: seq_ok_def seq_phase_def)
  have v: "vocab_size (m_config m) = int (n_vocab m)" by (rule config_dims(5)[OF E(2)])
  have dr: "nat (int k * int (n_vocab m)) = k * n_vocab m" by (simp add: nat_mult_distrib)
  from sample_token_ok[OF E(2) n(2,4) row, of "e_rng e"] obtain t g where
    t: "sample (p_fpu P) (p_sort P) (p_uniform P) (drop (k * n_vocab m) (t_data logits)) (int (n_vocab m)) (rq_params ?rq) (e_rng e) = Inr (t, g)"
    "token_ok P m s t" by blast
  have stops: "((0 \<le> rq_eos_id ?rq \<and> t = rq_eos_id ?rq) \<or> rq_max_tokens ?rq \<le> int (length (es_output s @ [t])))
      \<longleftrightarrow> stops ?rq (es_output s @ [t])" by (simp add: stops_def)
  note ev = sample_item_def seq_at_def v dr Let_def
  have fin: ?thesis if "sample_item P m logits (k, b) (af, e) = Inr (af \<or> stops ?rq (es_output s @ [t]), seq_set ?i u (e\<lparr>e_rng := g, e_manager := mgr\<rparr>))"
    "eng_inv P m bs nb S (R - {?i}) (if stops ?rq (es_output s @ [t]) then insert ?i D else D) (seq_set ?i u (e\<lparr>e_rng := g, e_manager := mgr\<rparr>))"
    "es_request u = ?rq" "es_output u = es_output s @ [t]" for u mgr
    using that by (intro exI[of _ t] exI[of _ "seq_set ?i u (e\<lparr>e_rng := g, e_manager := mgr\<rparr>)"])
      (simp add: same_schedule_def seq_set_def work_def)
  consider "stops ?rq (es_output s @ [t])" | "\<not> stops ?rq (es_output s @ [t])" "e_prefix_cache e \<and> be_prefill b"
    | "\<not> stops ?rq (es_output s @ [t])" "\<not> (e_prefix_cache e \<and> be_prefill b)" by blast
  then show ?thesis
  proof cases
    case 1
    from sampled_retire[OF I s n(4,1) t(2) 1] obtain mgr where
      f: "bm_free (es_blocks s) (e_manager e) = Inr (no_blocks, mgr)" "eng_inv P m bs nb S (R - {?i}) (insert ?i D)
        (seq_set ?i ((with_token s t)\<lparr>es_status := Finished, es_blocks := no_blocks\<rparr>) (e\<lparr>e_rng := g, e_manager := mgr\<rparr>))" by blast
    show ?thesis by (intro fin[where u = "(with_token s t)\<lparr>es_status := Finished, es_blocks := no_blocks\<rparr>" and mgr = mgr])
        (use s t(1) f 1 stops in \<open>simp_all add: ev\<close>)
  next
    case 2
    have on: "e_prefix_cache e" and c: "be_ctx b = ?ctx" and ch: "chains bs ?ctx \<subseteq> S" using 2(2) pre by auto
    have ids: "ids_ok m ?ctx" using n(2) by (simp add: request_ok_def)
    from register_seq_ok[OF I s E on n(3) ids ch] obtain mgr where
      r: "register_prefix (es_blocks s) ?ctx (e_manager e) = Inr mgr" "bm_shape bs (d_kv m) nb (n_layers m) mgr"
      "same_data (e_manager e) mgr" "store_inv (block_store e) (eids e) mgr"
      "cache_sound S (blk_holds (p_fpu P) (p_eigen P) m bs mgr) mgr" "table_holds P m bs mgr (length ?ctx) (es_blocks s) ?ctx"
      "\<forall>i' s2 b. i' \<noteq> ?i \<longrightarrow> e_sequences e i' = Some s2 \<longrightarrow> b \<in> set (block_table (es_blocks s2)) \<longrightarrow>
       priv (e_manager e) b \<longrightarrow> priv mgr b" by blast
    have "cache_ok P m bs S (seq_set ?i (with_token s t) (e\<lparr>e_rng := g, e_manager := mgr\<rparr>))"
      using r(5) on by (simp add: cache_ok_def seq_set_def)
    from sampled_keep[OF I s n(4,1) t(2) 2(1) r(2-4,6,7) this]
    show ?thesis by (intro fin[where u = "with_token s t" and mgr = mgr]) (use s t(1) r(1) 2 c stops in \<open>auto simp: ev\<close>)
  next
    case 3
    have "cache_ok P m bs S (seq_set ?i (with_token s t) (e\<lparr>e_rng := g, e_manager := e_manager e\<rparr>))"
      by (rule cache_ok_data[OF D(7)]) (simp_all add: seq_set_def same_data_def)
    from sampled_keep[OF I s n(4,1) t(2) 3(1) D(1) _ D(2) n(3) _ this]
    show ?thesis by (intro fin[where u = "with_token s t" and mgr = "e_manager e"])
      (use s t(1) 3 stops in \<open>auto simp: ev same_data_def\<close>)
  qed
qed

lemma same_schedule_refl [simp]: "same_schedule e e"
  by (simp add: same_schedule_def)

lemma same_schedule_trans: "same_schedule e e' \<Longrightarrow> same_schedule e' e'' \<Longrightarrow> same_schedule e e''"
  by (simp add: same_schedule_def)

text \<open>What the loop asks of an entry and its row of the logits.\<close>

definition fed_entry :: "'g platform \<Rightarrow> model \<Rightarrow> nat \<Rightarrow> int list list set \<Rightarrow> tensor \<Rightarrow> 'g engine \<Rightarrow> nat \<times> batch_entry \<Rightarrow> bool" where
  "fed_entry P m bs S logits e kb \<longleftrightarrow> (case kb of (k, b) \<Rightarrow> \<exists>s. e_sequences e (be_id b) = Some s
     \<and> take (n_vocab m) (drop (k * n_vocab m) (t_data logits)) = next_logits (p_fpu P) (p_eigen P) m (es_context s)
     \<and> (be_prefill b \<longrightarrow> e_prefix_cache e \<longrightarrow> be_ctx b = es_context s)
     \<and> (e_prefix_cache e \<longrightarrow> chains bs (es_context s) \<subseteq> S))"

lemma sample_items_ok:
  assumes "eng_inv P m bs nb S (be_id ` set ents) D e" and E: "eigen_rowwise (p_eigen P)" "model_ok m"
    and "distinct (map be_id ents)" "\<forall>kb \<in> set (enumerate k ents). fed_entry P m bs S logits e kb"
    and "D \<inter> be_id ` set ents = {}" "af \<longleftrightarrow> D \<noteq> {}"
  shows "\<exists>D' af' e'. res_fold (sample_item P m logits) (enumerate k ents) (af, e) = Inr (af', e')
    \<and> eng_inv P m bs nb S {} D' e' \<and> (af' \<longleftrightarrow> D' \<noteq> {}) \<and> same_schedule e e'
    \<and> (\<forall>i. i \<notin> be_id ` set ents \<longrightarrow> work e' i = work e i)
    \<and> (\<forall>i \<in> be_id ` set ents. \<exists>rq out t. work e i = Some (rq, out) \<and> work e' i = Some (rq, out @ [t]))"
  using assms
proof (induction ents arbitrary: k D af e)
  case Nil
  then show ?case by auto
next
  case (Cons b ents)
  have b: "be_id b \<in> be_id ` set (b # ents)" "be_id b \<notin> be_id ` set ents" using Cons.prems(4) by auto
  from Cons.prems(5) have fb: "fed_entry P m bs S logits e (k, b)"
    and rest: "\<forall>kb \<in> set (enumerate (Suc k) ents). fed_entry P m bs S logits e kb" by simp_all
  from fb obtain s where s: "e_sequences e (be_id b) = Some s"
    "take (n_vocab m) (drop (k * n_vocab m) (t_data logits)) = next_logits (p_fpu P) (p_eigen P) m (es_context s)"
    "be_prefill b \<longrightarrow> e_prefix_cache e \<longrightarrow> be_ctx b = es_context s" "e_prefix_cache e \<longrightarrow> chains bs (es_context s) \<subseteq> S"
    by (auto simp: fed_entry_def)
  from sample_item_ok[OF Cons.prems(1) E b(1) s, of af] obtain t e1 where
    a: "sample_item P m logits (k, b) (af, e) = Inr (af \<or> stops (es_request s) (es_output s @ [t]), e1)"
    "eng_inv P m bs nb S (be_id ` set (b # ents) - {be_id b}) (if stops (es_request s) (es_output s @ [t]) then insert (be_id b) D else D) e1"
    "same_schedule e e1" "\<forall>i'. i' \<noteq> be_id b \<longrightarrow> e_sequences e1 i' = e_sequences e i'"
    "work e1 (be_id b) = Some (es_request s, es_output s @ [t])" by blast
  let ?D = "if stops (es_request s) (es_output s @ [t]) then insert (be_id b) D else D"
  have R: "be_id ` set (b # ents) - {be_id b} = be_id ` set ents" using b(2) by auto
  have fe: "\<forall>kb \<in> set (enumerate (Suc k) ents). fed_entry P m bs S logits e1 kb"
  proof
    fix kb assume kb: "kb \<in> set (enumerate (Suc k) ents)"
    obtain k' b' where [simp]: "kb = (k', b')" by (cases kb)
    have "b' \<in> set ents" using kb by (auto simp: in_set_enumerate_eq)
    then have "e_sequences e1 (be_id b') = e_sequences e (be_id b')" using a(4) b(2) by (metis image_eqI)
    then show "fed_entry P m bs S logits e1 kb" using rest[rule_format, OF kb] a(3) by (simp add: fed_entry_def same_schedule_def)
  qed
  have dj: "?D \<inter> be_id ` set ents = {}" using Cons.prems(6) b(2) by auto
  have af: "(af \<or> stops (es_request s) (es_output s @ [t])) \<longleftrightarrow> ?D \<noteq> {}" using Cons.prems(7) by auto
  have di: "distinct (map be_id ents)" using Cons.prems(4) by simp
  from Cons.IH[OF a(2)[unfolded R] E di fe dj af] obtain D' af' e' where
    r: "res_fold (sample_item P m logits) (enumerate (Suc k) ents) (af \<or> stops (es_request s) (es_output s @ [t]), e1) = Inr (af', e')"
    "eng_inv P m bs nb S {} D' e'" "af' \<longleftrightarrow> D' \<noteq> {}" "same_schedule e1 e'"
    "\<forall>i. i \<notin> be_id ` set ents \<longrightarrow> work e' i = work e1 i"
    "\<forall>i \<in> be_id ` set ents. \<exists>rq out t. work e1 i = Some (rq, out) \<and> work e' i = Some (rq, out @ [t])" by blast
  have w1: "work e1 i = work e i" if "i \<noteq> be_id b" for i using a(4) that by (simp add: work_def)
  have wb: "work e (be_id b) = Some (es_request s, es_output s)" using s(1) by (simp add: work_def)
  have keep: "\<forall>i. i \<notin> be_id ` set (b # ents) \<longrightarrow> work e' i = work e i" using r(5) w1 by simp
  have app: "\<exists>rq out t. work e i = Some (rq, out) \<and> work e' i = Some (rq, out @ [t])" if "i \<in> be_id ` set (b # ents)" for i
  proof (cases "i = be_id b")
    case True
    then show ?thesis using r(5) b(2) a(5) wb by auto
  next
    case False
    then have "i \<in> be_id ` set ents" using that by auto
    then show ?thesis using r(6) w1[OF False] by metis
  qed
  have fold: "res_fold (sample_item P m logits) (enumerate k (b # ents)) (af, e) = Inr (af', e')" using a(1) r(1) by simp
  show ?case using fold r(2,3) same_schedule_trans[OF a(3) r(4)] keep app by blast
qed

section \<open>Retirement\<close>

lemma still_running_ok:
  assumes "\<forall>i \<in> set l. \<exists>s. e_sequences e i = Some s"
  shows "still_running e l = Inr (filter (\<lambda>i. \<not> has_status e Finished i) l)"
  using assms by (induction l) (auto simp: seq_at_def has_status_def)

lemma retire_ok:
  assumes I: "eng_inv P m bs nb S {} D e"
  shows "\<exists>r. still_running e (e_running e) = Inr r \<and> eng_inv P m bs nb S {} {} (e\<lparr>e_running := r\<rparr>)"
proof -
  note D = eng_invD[OF I]
  have q: "distinct (e_waiting e @ e_running e)"
    "\<And>j. (j \<in> set (e_waiting e) \<longleftrightarrow> has_status e Waiting j) \<and> (j \<in> set (e_running e) \<longleftrightarrow> has_status e Running j \<or> j \<in> D)"
    "\<forall>j \<in> D. has_status e Finished j"
    using D(6) unfolding queues_ok_def by blast+
  let ?r = "filter (\<lambda>i. \<not> has_status e Finished i) (e_running e)"
  have "still_running e (e_running e) = Inr ?r"
    using q(2,3) by (intro still_running_ok) (fastforce simp: has_status_def)
  moreover have "queues_ok {} (e\<lparr>e_running := ?r\<rparr>)"
  proof -
    have hs: "has_status (e\<lparr>e_running := ?r\<rparr>) st j = has_status e st j" for st j by (simp add: has_status_def)
    have "j \<in> set ?r \<longleftrightarrow> has_status e Running j" for j
    proof -
      have "has_status e Running j \<Longrightarrow> \<not> has_status e Finished j" by (auto simp: has_status_def)
      then show ?thesis using q(2)[of j] q(3) by auto
    qed
    then show ?thesis using q(1,2) unfolding queues_ok_def hs by auto
  qed
  ultimately show ?thesis
    using I by (intro exI[of _ ?r]) (simp add: eng_inv_def block_store_def eids_def cache_ok_def cong: conj_cong)
qed

section \<open>The step\<close>

text \<open>A step appends one token to the output of each sequence in \<open>A\<close> and to no other.\<close>

definition advanced :: "int set \<Rightarrow> 'g engine \<Rightarrow> 'g engine \<Rightarrow> bool" where
  "advanced A e e' \<longleftrightarrow> (\<forall>i. i \<notin> A \<longrightarrow> work e' i = work e i)
     \<and> (\<forall>i \<in> A. \<exists>rq out t. work e i = Some (rq, out) \<and> work e' i = Some (rq, out @ [t]))
     \<and> e_prefix_cache e' = e_prefix_cache e \<and> e_next_id e' = e_next_id e \<and> e_max_batch e' = e_max_batch e"

lemma same_work_advanced: "same_work e e1 \<Longrightarrow> advanced A e1 e2 \<Longrightarrow> advanced A e e2"
  by (simp add: same_work_def advanced_def)

lemma advanced_none: "same_work e e' \<Longrightarrow> advanced {} e e'"
  by (simp add: same_work_def advanced_def)

lemma run_batch_ok:
  assumes I: "eng_inv P m bs nb S {} {} e" and E: "eigen_rowwise (p_eigen P)" "model_ok m"
    and h: "chains_in bs S e"
    and en: "ents \<noteq> []" "\<forall>b \<in> set ents. entry_ok e b" "distinct (map be_id ents)"
    and need: "int (sum_list (map (\<lambda>b. job_need bs (entry_job e b)) ents)) \<le> num_free (bm_alloc (e_manager e))"
  shows "\<exists>e'. run_batch P m ents e = Inr e' \<and> eng_inv P m bs nb S {} {} e' \<and> advanced (be_id ` set ents) e e'"
proof -
  from forward_phase[OF I E en need] obtain logits st mgr where
    f: "forward_batch (p_fpu P) (p_eigen P) m
        (map (\<lambda>b. \<lparr>bi_blocks = Some (be_id b), bi_tokens = be_tokens b\<rparr>) ents) (block_store e) (e_manager e) = Inr (logits, st, mgr)"
    "eng_inv P m bs nb S (be_id ` set ents) {} ((put_blocks st e)\<lparr>e_manager := mgr\<rparr>)"
    "\<forall>i s. e_sequences e i = Some s \<longrightarrow> (\<exists>blk. e_sequences (put_blocks st e) i = Some (s\<lparr>es_blocks := blk\<rparr>))"
    "\<forall>k < length ents. take (n_vocab m) (drop (k * n_vocab m) (t_data logits))
          = next_logits (p_fpu P) (p_eigen P) m (es_context (the (e_sequences e (be_id (ents ! k)))))"
    by blast
  let ?e1 = "(put_blocks st e)\<lparr>e_manager := mgr\<rparr>"
  have fed: "\<forall>kb \<in> set (enumerate 0 ents). fed_entry P m bs S logits ?e1 kb"
  proof
    fix kb assume "kb \<in> set (enumerate 0 ents)"
    then have "kb = (fst kb, ents ! fst kb)" "fst kb < length ents" unfolding in_set_enumerate_eq by (simp_all add: prod_eq_iff)
    then obtain k where k: "kb = (k, ents ! k)" "k < length ents" by blast
    then have "entry_ok e (ents ! k)" using en(2) by simp
    then obtain s where s: "e_sequences e (be_id (ents ! k)) = Some s"
      "be_ctx (ents ! k) = (if \<not> es_prefilled s \<and> e_prefix_cache e then es_context s else [])"
      "be_prefill (ents ! k) = (\<not> es_prefilled s)" by (auto simp: entry_ok_def)
    obtain blk where s1: "e_sequences (put_blocks st e) (be_id (ents ! k)) = Some (s\<lparr>es_blocks := blk\<rparr>)" using f(3) s(1) by blast
    have c: "es_context (s\<lparr>es_blocks := blk\<rparr>) = es_context s" by (simp add: es_context_def)
    have pc: "e_prefix_cache (put_blocks st e) = e_prefix_cache e" by (simp add: put_blocks_def)
    have "chains bs (es_context s) \<subseteq> S" using h s(1) by (simp add: chains_in_def)
    then show "fed_entry P m bs S logits ?e1 kb"
      using s1 c f(4)[rule_format, OF k(2)] s pc by (simp add: fed_entry_def k(1))
  qed
  from sample_items_ok[OF f(2) E en(3) fed, of False] obtain D' af' e2 where
    r: "res_fold (sample_item P m logits) (enumerate 0 ents) (False, ?e1) = Inr (af', e2)"
    "eng_inv P m bs nb S {} D' e2" "af' \<longleftrightarrow> D' \<noteq> {}" "same_schedule ?e1 e2"
    "\<forall>i. i \<notin> be_id ` set ents \<longrightarrow> work e2 i = work ?e1 i"
    "\<forall>i \<in> be_id ` set ents. \<exists>rq out t. work ?e1 i = Some (rq, out) \<and> work e2 i = Some (rq, out @ [t])" by auto
  have w: "work ?e1 i = work e i" for i
  proof (cases "e_sequences e i")
    case None
    then show ?thesis by (simp add: work_def put_blocks_def)
  next
    case (Some s)
    with f(3) obtain blk where "e_sequences (put_blocks st e) i = Some (s\<lparr>es_blocks := blk\<rparr>)" by blast
    then show ?thesis using Some by (simp add: work_def)
  qed
  have flags: "e_prefix_cache e2 = e_prefix_cache e" "e_next_id e2 = e_next_id e" "e_max_batch e2 = e_max_batch e"
    using r(4) by (simp_all add: same_schedule_def put_blocks_def)
  have adv: "advanced (be_id ` set ents) e e2" using r(5,6) flags unfolding w by (simp add: advanced_def)
  show ?thesis
  proof (cases af')
    case True
    from retire_ok[OF r(2)] obtain l where l: "still_running e2 (e_running e2) = Inr l" "eng_inv P m bs nb S {} {} (e2\<lparr>e_running := l\<rparr>)" by blast
    have "run_batch P m ents e = Inr (e2\<lparr>e_running := l\<rparr>)" using f(1) r(1) l(1) True by (simp add: run_batch_def)
    moreover have "advanced (be_id ` set ents) e (e2\<lparr>e_running := l\<rparr>)" using adv by (simp add: advanced_def work_def[abs_def])
    ultimately show ?thesis using l(2) by blast
  next
    case False
    have "run_batch P m ents e = Inr e2" using f(1) r(1) False by (simp add: run_batch_def)
    moreover have "eng_inv P m bs nb S {} {} e2" using r(2,3) False by simp
    ultimately show ?thesis using adv by blast
  qed
qed

lemma step_ok:
  assumes I: "eng_inv P m bs nb S {} {} e" and E: "eigen_rowwise (p_eigen P)" "model_ok m"
    and h: "e_prefix_cache e \<longrightarrow> inj_on chain_hash S" "chains_in bs S e"
  shows "\<exists>A e'. step P m e = Inr e' \<and> eng_inv P m bs nb S {} {} e' \<and> advanced A e e'"
proof -
  have "eng_inv P m bs nb S {} {} (e\<lparr>e_waiting := e_waiting e\<rparr>)" using I by simp
  from admit_ok[OF this] obtain e1 where
    a: "admit (e_waiting e) e = Inr e1" "eng_inv P m bs nb S {} {} e1" "same_work e e1" by blast
  have h1: "e_prefix_cache e1 \<longrightarrow> inj_on chain_hash S" "chains_in bs S e1"
    using h same_work_chains[OF a(3), of bs S] a(3) by (auto simp: same_work_def)
  from build_batch_ok[OF a(2) h1 E] obtain ents e2 where
    b: "build_batch e1 = Inr (ents, e2)" "eng_inv P m bs nb S {} {} e2" "same_work e1 e2"
    "\<forall>b \<in> set ents. entry_ok e2 b" "distinct (map be_id ents)"
    "int (sum_list (map (\<lambda>b. job_need bs (entry_job e2 b)) ents)) \<le> num_free (bm_alloc (e_manager e2))" by blast
  have sw: "same_work e e2" by (rule same_work_trans[OF a(3) b(3)])
  show ?thesis
  proof (cases "ents = []")
    case True
    then have "step P m e = Inr e2" using a(1) b(1) by (simp add: step_def)
    then show ?thesis using b(2) advanced_none[OF sw] by blast
  next
    case False
    have h2: "chains_in bs S e2" using h(2) same_work_chains[OF sw] by simp
    from run_batch_ok[OF b(2) E h2 False b(4-6)] obtain e3 where
      "run_batch P m ents e2 = Inr e3" "eng_inv P m bs nb S {} {} e3" "advanced (be_id ` set ents) e2 e3" by blast
    then show ?thesis using a(1) b(1) False same_work_advanced[OF sw] by (auto simp: step_def)
  qed
qed

end
