(* ===== verification/Engine_Runs.thy ===== *)
theory Engine_Runs
  imports Engine_Step
begin

text \<open>
  Runs of the engine: any order of requests and steps from a fresh engine. The invariant
  holds in every state of a run; the properties of the engine follow from it.
\<close>

section \<open>Which requests the sampler serves\<close>

lemma first_best_take:
  assumes "take n lg = r" "n \<le> length lg"
  shows "first_best lg n = first_best r n"
proof -
  have "0 < k \<Longrightarrow> k \<le> n \<Longrightarrow> first_best lg k = first_best r k" for k
  proof (induction k)
    case (Suc k)
    show ?case
    proof (cases "k = 0")
      case False
      then have e: "first_best lg k = first_best r k" using Suc by simp
      have "first_best r k < n" using first_best_lt[of k r] False Suc.prems(2) by simp
      then show ?thesis using Suc.prems(2) False assms by (auto simp: first_best_Suc e)
    qed simp
  qed simp
  then show ?thesis by (cases "n = 0") auto
qed

lemma logits_prefix:
  assumes "eigen_rowwise E" "model_ok m" "ids_ok m ids" "ids \<noteq> []" "take (n_vocab m) lg = next_logits F E m ids"
  shows "n_vocab m \<le> length lg"
  using arg_cong[OF assms(5), of length] next_logits_eq(2)[OF assms(1-4), of F] by simp

lemma greedy_draw:
  assumes E: "eigen_rowwise (p_eigen P)" "model_ok m" and ids: "ids_ok m ids" "ids \<noteq> []"
    and g: "f64_le (temperature params) 0" "0 < n_vocab m"
    and lg: "take (n_vocab m) lg = next_logits (p_fpu P) (p_eigen P) m ids"
  shows "sample (p_fpu P) (p_sort P) (p_uniform P) lg (int (n_vocab m)) params rng
    = Inr (next_token (p_fpu P) (p_eigen P) m ids, rng)"
proof -
  have l: "n_vocab m \<le> length lg" by (rule logits_prefix[OF E ids lg])
  have "first_best lg (n_vocab m) = first_best (last (fst (forward_spec (p_fpu P) (p_eigen P) m 0 ids no_hist))) (n_vocab m)"
    using first_best_take[OF lg l] unfolding next_logits_eq(1)[OF E ids] .
  then show ?thesis using argmax_first_best[OF g(2) l] g by (simp add: sample_def next_token_def)
qed

lemma greedy_samples_ok:
  assumes E: "eigen_rowwise (p_eigen P)" "model_ok m" and g: "f64_le (temperature params) 0" "0 < n_vocab m"
  shows "samples_ok P m params"
  unfolding samples_ok_def
proof (intro allI impI)
  fix ids lg rng
  assume i: "ids_ok m ids" "ids \<noteq> []" and lg: "take (n_vocab m) lg = next_logits (p_fpu P) (p_eigen P) m ids"
  have "first_best x (n_vocab m) < n_vocab m" for x by (rule first_best_lt[OF g(2)])
  then show "\<exists>t < n_vocab m. \<exists>g'. sample (p_fpu P) (p_sort P) (p_uniform P) lg (int (n_vocab m)) params rng = Inr (int t, g')"
    using greedy_draw[OF E i g lg] by (auto simp: next_token_def)
qed

text \<open>Above temperature 0 the sort must be one, and the model must not produce a NaN.\<close>

lemma strict_weak_no_nan:
  assumes "\<forall>i < n. \<not> f32_nan (lg ! i)"
  shows "strict_weak (logit_greater lg) (map int [0..<n])"
  using assms by (auto simp: strict_weak_def list_all_iff logit_greater_def f32_lt_def)

lemma sampled_samples_ok:
  assumes E: "eigen_rowwise (p_eigen P)" "model_ok m" and srt: "sort_spec (p_sort P)" and v: "0 < n_vocab m"
    and nn: "\<And>ids. ids_ok m ids \<Longrightarrow> ids \<noteq> [] \<Longrightarrow> \<forall>x \<in> set (next_logits (p_fpu P) (p_eigen P) m ids). \<not> f32_nan x"
    and t: "\<not> f64_le (temperature params) 0"
  shows "samples_ok P m params"
  unfolding samples_ok_def
proof (intro allI impI)
  fix ids lg rng
  assume i: "ids_ok m ids" "ids \<noteq> []" and lg: "take (n_vocab m) lg = next_logits (p_fpu P) (p_eigen P) m ids"
  have l: "n_vocab m \<le> length lg" by (rule logits_prefix[OF E i lg])
  have "\<not> f32_nan (lg ! k)" if "k < n_vocab m" for k
  proof -
    have "lg ! k = take (n_vocab m) lg ! k" using that by simp
    then show ?thesis using nn[OF i] that l unfolding lg[symmetric] by (metis in_set_conv_nth length_take min.absorb2)
  qed
  then have sw: "strict_weak (logit_greater lg) (map int [0..<nat (int (n_vocab m))])" by (simp add: strict_weak_no_nan)
  from sample_kept[OF srt _ _ t sw, of "p_fpu P" "p_uniform P" rng] v l obtain k tok rng' where
    k: "sample (p_fpu P) (p_sort P) (p_uniform P) lg (int (n_vocab m)) params rng = Inr (tok, rng')"
    "k < nat (keep_count (int (n_vocab m)) params)" "tok = p_sort P (logit_greater lg) (map int [0..<n_vocab m]) ! k" by auto
  have ms: "mset (p_sort P (logit_greater lg) (map int [0..<n_vocab m])) = mset (map int [0..<n_vocab m])"
    using srt sw by (simp add: sort_spec_def)
  have kv: "k < n_vocab m" using k(2) keep_count_range[of "int (n_vocab m)" params] v by linarith
  have "tok \<in> set (p_sort P (logit_greater lg) (map int [0..<n_vocab m]))"
    using k(3) kv arg_cong[OF ms, of size] by simp
  then have "tok \<in> set (map int [0..<n_vocab m])" using mset_eq_setD[OF ms] by simp
  then show "\<exists>t < n_vocab m. \<exists>g'. sample (p_fpu P) (p_sort P) (p_uniform P) lg (int (n_vocab m)) params rng = Inr (int t, g')"
    using k(1) by auto
qed

section \<open>A fresh engine and a new request\<close>

lemma engine_new_ok:
  assumes "model_ok m" "0 < n_layers m" "0 < bs"
  shows "\<exists>e. engine_new m (int bs) (int nb) rng mb pc = Inr e \<and> eng_inv P m bs nb S {} {} e
    \<and> e_prefix_cache e = pc \<and> e_next_id e = 0 \<and> e_max_batch e = mb \<and> e_running e = [] \<and> e_waiting e = [] \<and> e_sequences e = Map.empty"
proof -
  note C = config_dims[OF assms(1)]
  have kv: "num_key_value_heads (m_config m) * head_dim (m_config m) = int (d_kv m)" unfolding C d_kv_def by simp
  from bm_new_ok[OF assms(2) C(9) assms(3), of nb] obtain mgr where
    b: "bm_new (int (n_layers m)) (int (d_kv m)) (int bs) (int nb) = Inr mgr" "bm_shape bs (d_kv m) nb (n_layers m) mgr"
    "seqs_inv mgr []" "bm_prefix mgr = []" by blast
  let ?e = "\<lparr>e_manager = mgr, e_rng = rng, e_max_batch = mb, e_waiting = [], e_running = [],
             e_sequences = Map.empty, e_next_id = 0, e_preemptions = 0, e_prefix_cache = pc\<rparr>"
  have "engine_new m (int bs) (int nb) rng mb pc = Inr ?e" using b(1) by (simp add: engine_new_def kv C(10))
  moreover have "eng_inv P m bs nb S {} {} ?e"
    using b by (simp add: eng_inv_def eids_def store_inv_def store_tables_def queues_ok_def has_status_def cache_ok_def
        cache_sound_def entries_def)
  ultimately show ?thesis by (intro exI[of _ ?e]) simp
qed

definition valid_request :: "'g platform \<Rightarrow> model \<Rightarrow> request \<Rightarrow> bool" where
  "valid_request P m rq \<longleftrightarrow> ids_ok m (rq_prompt rq) \<and> samples_ok P m (rq_params rq)"

lemma add_request_ok:
  assumes I: "eng_inv P m bs nb S {} {} e" and v: "valid_request P m rq" "rq_prompt rq \<noteq> []"
  shows "\<exists>e'. add_request rq e = Inr (e_next_id e, e') \<and> eng_inv P m bs nb S {} {} e' \<and> work e' = (work e)(e_next_id e \<mapsto> (rq, []))
    \<and> e_prefix_cache e' = e_prefix_cache e \<and> e_max_batch e' = e_max_batch e \<and> e_running e' = e_running e
    \<and> e_next_id e' = e_next_id e + 1 \<and> work e (e_next_id e) = None"
proof -
  note D = eng_invD[OF I]
  let ?i = "e_next_id e"
  let ?s = "\<lparr>es_id = ?i, es_request = rq, es_blocks = no_blocks, es_output = [], es_status = Waiting, es_prefilled = False\<rparr>"
  have "?i \<notin> set (eids e)" using D(3) by (auto simp: eids_def)
  then have none: "e_sequences e ?i = None" using D(4) by (metis domIff)
  let ?e = "e\<lparr>e_next_id := ?i + 1, e_sequences := (e_sequences e)(?i \<mapsto> ?s), e_waiting := e_waiting e @ [?i]\<rparr>"
  have a: "add_request rq e = Inr (?i, ?e)" using v(2) none by (simp add: add_request_def Let_def)
  have "nat (?i + 1) = Suc (nat ?i)" using D(3) by simp
  then have ids: "eids ?e = eids e @ [?i]" using D(3) by (simp add: eids_def)
  have bst: "block_store ?e = (block_store e)(?i \<mapsto> no_blocks)" by (auto simp: block_store_def fun_eq_iff)
  have st: "store_inv (block_store ?e) (eids ?e) (e_manager ?e)"
  proof -
    have "store_tables (block_store ?e) (eids ?e) = store_tables (block_store e) (eids e) @ [[]]"
      unfolding bst ids using \<open>?i \<notin> set (eids e)\<close> by (simp add: store_tables_def no_blocks_def)
    then show ?thesis using D(2) \<open>?i \<notin> set (eids e)\<close> by (simp add: store_inv_def ids seqs_inv_def fun_eq_iff)
  qed
  have q: "queues_ok {} ?e"
  proof -
    have hs: "has_status ?e x j = (if j = ?i then Waiting = x else has_status e x j)" for x j by (simp add: has_status_def)
    have d: "distinct (e_waiting e @ e_running e)"
      and w: "\<And>j. (j \<in> set (e_waiting e) \<longleftrightarrow> has_status e Waiting j) \<and> (j \<in> set (e_running e) \<longleftrightarrow> has_status e Running j \<or> j \<in> {})"
      using D(6) unfolding queues_ok_def by blast+
    have ni: "?i \<notin> set (e_waiting e)" "?i \<notin> set (e_running e)" using w[of ?i] none by (simp_all add: has_status_def)
    have "(j \<in> set (e_waiting e @ [?i]) \<longleftrightarrow> (if j = ?i then Waiting = Waiting else has_status e Waiting j))
      \<and> (j \<in> set (e_running e) \<longleftrightarrow> (if j = ?i then Waiting = Running else has_status e Running j))" for j
      using w[of j] ni by (cases "j = ?i") auto
    then show ?thesis using d ni unfolding queues_ok_def hs by simp
  qed
  have so: "seq_ok P m bs False (e_manager e) ?i ?s"
    using v by (auto simp: seq_ok_def request_ok_def valid_request_def out_ok_def seq_phase_def es_context_def intro!: exI[of _ 0])
  have "eng_inv P m bs nb S {} {} ?e"
    unfolding eng_inv_def using D(1,3,4,5,7) st q so ids
    by (auto simp: cache_ok_def split: if_splits)
  moreover have "work ?e = (work e)(?i \<mapsto> (rq, []))" by (auto simp: work_def fun_eq_iff)
  ultimately show ?thesis using a none by (intro exI[of _ ?e]) (simp add: work_def)
qed

section \<open>Outputs only grow\<close>

text \<open>This holds for every call that returns, without the invariant.\<close>

definition extends :: "'g engine \<Rightarrow> 'g engine \<Rightarrow> bool" where
  "extends e e' \<longleftrightarrow> (\<forall>i rq out. work e i = Some (rq, out) \<longrightarrow> (\<exists>ext. work e' i = Some (rq, out @ ext)))"

lemma extends_refl [simp]: "extends e e"
  by (simp add: extends_def)

lemma extends_trans: "extends e e' \<Longrightarrow> extends e' e'' \<Longrightarrow> extends e e''"
  unfolding extends_def by (metis append_assoc)

lemma extends_work: "work e' = work e \<Longrightarrow> extends e e'"
  by (simp add: extends_def)

lemma extends_set:
  assumes "seq_at e i = Inr s" "e_sequences e' = (e_sequences e)(i \<mapsto> s')" "es_request s' = es_request s" "es_output s' = es_output s @ ts"
  shows "extends e e'"
  using assms by (auto simp: extends_def work_Some seq_at_def split: option.splits)

lemma admit_extends: "admit q e = Inr e' \<Longrightarrow> extends e e'"
proof (induction q arbitrary: e)
  case Nil
  then show ?case by (auto intro!: extends_work simp: work_def fun_eq_iff)
next
  case (Cons i q)
  show ?case
  proof (cases "admit (i # q) e = Inr (e\<lparr>e_waiting := i # q\<rparr>)")
    case True
    then show ?thesis using Cons.prems by (auto intro!: extends_work simp: work_def fun_eq_iff)
  next
    case False
    then obtain s where s: "seq_at e i = Inr s"
      "admit q (seq_set i (s\<lparr>es_status := Running\<rparr>) (e\<lparr>e_running := e_running e @ [i]\<rparr>)) = Inr e'"
      using Cons.prems by (auto simp: res_bind_eq_Inr split: if_splits)
    have "extends e (seq_set i (s\<lparr>es_status := Running\<rparr>) (e\<lparr>e_running := e_running e @ [i]\<rparr>))"
      by (rule extends_set[OF s(1), of _ "s\<lparr>es_status := Running\<rparr>" "[]"]) (simp_all add: seq_set_def)
    then show ?thesis using Cons.IH[OF s(2)] extends_trans by blast
  qed
qed

lemma share_extends:
  assumes "share_prefix i e = Inr e'"
  shows "extends e e'"
proof -
  from assms obtain s where s: "seq_at e i = Inr s" by (auto simp: share_prefix_def res_bind_eq_Inr)
  from assms s have "e' = e \<or> (\<exists>blk mgr. e' = seq_set i (s\<lparr>es_blocks := blk\<rparr>) (e\<lparr>e_manager := mgr\<rparr>))"
    by (auto simp: share_prefix_def res_bind_eq_Inr Let_def split: if_splits)
  then show ?thesis
  proof
    assume "\<exists>blk mgr. e' = seq_set i (s\<lparr>es_blocks := blk\<rparr>) (e\<lparr>e_manager := mgr\<rparr>)"
    then obtain blk mgr where e': "e' = seq_set i (s\<lparr>es_blocks := blk\<rparr>) (e\<lparr>e_manager := mgr\<rparr>)" by blast
    show ?thesis by (rule extends_set[OF s, of _ "s\<lparr>es_blocks := blk\<rparr>" "[]"]) (simp_all add: e' seq_set_def)
  qed simp
qed

lemma assemble_extends: "assemble e = Inr (budget, ents, e') \<Longrightarrow> extends e e'"
  unfolding assemble_def
  by (drule res_fold_inv[where P = "\<lambda>st. extends e (snd (snd st))"])
     (auto simp: assemble_item_def res_bind_eq_Inr Let_def intro: extends_trans dest!: share_extends split: if_splits)

lemma preempt_extends:
  assumes "preempt_youngest e = Inr (freed, e')"
  shows "extends e e'"
proof -
  from assms have "e' = e \<or> (\<exists>i s blk. seq_at e i = Inr s \<and>
      e_sequences e' = (e_sequences e)(i \<mapsto> s\<lparr>es_blocks := blk, es_prefilled := False, es_status := Waiting\<rparr>))"
    by (fastforce simp: preempt_youngest_def res_bind_eq_Inr seq_set_def split: option.splits)
  then show ?thesis
  proof (elim disjE exE conjE)
    fix i s blk
    assume s: "seq_at e i = Inr s"
      and e': "e_sequences e' = (e_sequences e)(i \<mapsto> s\<lparr>es_blocks := blk, es_prefilled := False, es_status := Waiting\<rparr>)"
    show ?thesis by (rule extends_set[OF s e', of "[]"]) simp_all
  qed simp
qed

lemma build_batch_extends: "build_batch e = Inr (ents, e') \<Longrightarrow> extends e e'"
proof (induction "length (e_running e)" arbitrary: e rule: less_induct)
  case less
  from less.prems obtain budget ents1 e1 where a: "assemble e = Inr (budget, ents1, e1)"
    by (auto simp: build_batch.simps[of e] res_bind_eq_Inr)
  note x1 = assemble_extends[OF a]
  show ?case
  proof (cases "ents1 \<noteq> [] \<or> length (e_running e1) \<le> 1")
    case True
    then show ?thesis using less.prems a x1 by (simp add: build_batch.simps[of e])
  next
    case False
    then obtain freed e2 where p: "preempt_youngest e1 = Inr (freed, e2)"
      using less.prems a by (auto simp: build_batch.simps[of e] res_bind_eq_Inr)
    note x2 = extends_trans[OF x1 preempt_extends[OF p]]
    show ?thesis
    proof (cases freed)
      case True
      then have "build_batch e2 = Inr (ents, e')" "length (e_running e2) < length (e_running e)"
        using less.prems a p False preempt_running[of e1 e2] assemble_running[OF a] by (simp_all add: build_batch.simps[of e])
      then show ?thesis using less.hyps x2 extends_trans by blast
    next
      case no: False
      then show ?thesis using less.prems a p False x2 by (simp add: build_batch.simps[of e])
    qed
  qed
qed

lemma sample_item_extends:
  assumes "sample_item P m logits (k, b) (af, e) = Inr (af', e')"
  shows "extends e e'"
proof -
  from assms obtain s t g where s: "seq_at e (be_id b) = Inr s" and
    t: "sample (p_fpu P) (p_sort P) (p_uniform P) (drop (nat (int k * vocab_size (m_config m))) (t_data logits)) (vocab_size (m_config m))
                  (rq_params (es_request s)) (e_rng e) = Inr (t, g)"
    by (auto simp: sample_item_def Let_def res_bind_eq_Inr)
  have "\<exists>s'. e_sequences e' = (e_sequences e)(be_id b \<mapsto> s') \<and> es_request s' = es_request s \<and> es_output s' = es_output s @ [t]"
    using assms by (auto simp: sample_item_def Let_def res_bind_eq_Inr s t seq_set_def split: if_splits)
  then obtain s' where "e_sequences e' = (e_sequences e)(be_id b \<mapsto> s')" "es_request s' = es_request s" "es_output s' = es_output s @ [t]" by blast
  then show ?thesis by (rule extends_set[OF s])
qed

lemma put_blocks_work: "work ((put_blocks st e)\<lparr>e_manager := mgr\<rparr>) = work e"
  by (auto simp: work_def put_blocks_def fun_eq_iff split: option.splits)

lemma run_batch_extends:
  assumes "run_batch P m ents e = Inr e'"
  shows "extends e e'"
proof -
  from assms obtain logits st mgr af e2 where
    f: "res_fold (sample_item P m logits) (enumerate 0 ents) (False, (put_blocks st e)\<lparr>e_manager := mgr\<rparr>) = Inr (af, e2)"
    and r: "(if af then res_bind (still_running e2 (e_running e2)) (\<lambda>r. Inr (e2\<lparr>e_running := r\<rparr>)) else Inr e2) = Inr e'"
    by (auto simp: run_batch_def res_bind_eq_Inr)
  from f have "extends e (snd (af, e2))"
  proof (rule res_fold_inv[where P = "\<lambda>st. extends e (snd st)"])
    show "extends e (snd (False, (put_blocks st e)\<lparr>e_manager := mgr\<rparr>))" by (simp add: extends_work[OF put_blocks_work])
    fix kb u v assume u: "extends e (snd u)" and v: "sample_item P m logits kb u = Inr v"
    have "extends (snd u) (snd v)" using v by (cases kb; cases u; cases v) (auto dest: sample_item_extends)
    with u show "extends e (snd v)" by (rule extends_trans)
  qed
  then have "extends e e2" by simp
  moreover have "extends e2 e'" using r by (auto intro!: extends_work simp: res_bind_eq_Inr work_def fun_eq_iff split: if_splits)
  ultimately show ?thesis by (rule extends_trans)
qed

lemma step_extends: "step P m e = Inr e' \<Longrightarrow> extends e e'"
  by (auto simp: step_def res_bind_eq_Inr split: if_splits
      dest!: admit_extends build_batch_extends run_batch_extends intro: extends_trans)

lemma add_request_extends:
  assumes "add_request rq e = Inr (i, e')"
  shows "extends e e'"
  using assms by (auto simp: add_request_def Let_def extends_def work_Some split: if_splits option.splits)

lemma full_spans_append:
  assumes "k \<le> length ids div bs"
  shows "take k (full_spans bs (ids @ ext)) = take k (full_spans bs ids)"
proof -
  have n: "length ids div bs \<le> length (ids @ ext) div bs" by (simp add: div_le_mono)
  have le: "length ids div bs * bs \<le> length ids" by (rule div_times_less_eq_dividend)
  have "row bs r (ids @ ext) = row bs r ids" if "r < k" for r
    using row_append1[OF le, of r ext] that assms by simp
  then show ?thesis using n assms by (simp add: full_spans_def rows_def take_map min_def)
qed

lemma chains_append: "chains bs ids \<subseteq> chains bs (ids @ ext)"
proof
  fix c assume "c \<in> chains bs ids"
  then obtain k where k: "k \<le> length ids div bs" "c = take k (full_spans bs ids)" by (auto simp: chains_def)
  moreover have "length ids div bs \<le> length (ids @ ext) div bs" by (simp add: div_le_mono)
  ultimately show "c \<in> chains bs (ids @ ext)"
    using take_in_chains[of k "ids @ ext" bs] full_spans_append[OF k(1), of ext] by simp
qed

lemma extends_chains: "extends e e' \<Longrightarrow> chains_in bs S e' \<Longrightarrow> chains_in bs S e"
  unfolding chains_in_work extends_def by (metis append_assoc chains_append order_trans)

section \<open>Runs\<close>

definition setup_ok :: "'g platform \<Rightarrow> model \<Rightarrow> nat \<Rightarrow> bool" where
  "setup_ok P m bs \<longleftrightarrow> eigen_rowwise (p_eigen P) \<and> model_ok m \<and> 0 < n_layers m \<and> 0 < n_vocab m \<and> 0 < bs"

inductive engine_run :: "'g platform \<Rightarrow> model \<Rightarrow> nat \<Rightarrow> nat \<Rightarrow> bool \<Rightarrow> 'g engine \<Rightarrow> bool"
  for P m bs nb pc where
  fresh: "engine_new m (int bs) (int nb) rng mb pc = Inr e \<Longrightarrow> engine_run P m bs nb pc e"
| asked: "engine_run P m bs nb pc e \<Longrightarrow> valid_request P m rq \<Longrightarrow> add_request rq e = Inr (i, e') \<Longrightarrow> engine_run P m bs nb pc e'"
| stepped: "engine_run P m bs nb pc e \<Longrightarrow> step P m e = Inr e' \<Longrightarrow> engine_run P m bs nb pc e'"

text \<open>All chains of full blocks of the contexts of an engine: prefix sharing is sound as long as
  their hashes differ.\<close>

definition all_chains :: "nat \<Rightarrow> 'g engine \<Rightarrow> int list list set" where
  "all_chains bs e = {c. \<exists>i rq out. work e i = Some (rq, out) \<and> c \<in> chains bs (rq_prompt rq @ out)}"

lemma chains_in_all: "chains_in bs (all_chains bs e) e"
  by (auto simp: chains_in_work all_chains_def)

lemma run_inv:
  assumes "engine_run P m bs nb pc e" and ok: "setup_ok P m bs"
    and "pc \<longrightarrow> inj_on chain_hash S" "chains_in bs S e"
  shows "eng_inv P m bs nb S {} {} e \<and> e_prefix_cache e = pc"
  using assms(1,4)
proof (induction rule: engine_run.induct)
  case (fresh rng mb e)
  from engine_new_ok[of m bs nb rng mb pc P S] ok fresh(1) show ?case by (auto simp: setup_ok_def)
next
  case (asked e rq i e')
  have ch: "chains_in bs S e" by (rule extends_chains[OF add_request_extends[OF asked(3)] asked.prems])
  have ne: "rq_prompt rq \<noteq> []" using asked(3) by (auto simp: add_request_def split: if_splits)
  from asked.IH[OF ch] have "eng_inv P m bs nb S {} {} e" by blast
  from add_request_ok[OF this asked(2) ne] asked(3) asked.IH[OF ch] show ?case by auto
next
  case (stepped e e')
  have ch: "chains_in bs S e" by (rule extends_chains[OF step_extends[OF stepped(2)] stepped.prems])
  from stepped.IH[OF ch] have I: "eng_inv P m bs nb S {} {} e" "e_prefix_cache e = pc" by blast+
  from step_ok[OF I(1) _ _ _ ch] ok assms(3) I(2) obtain A e1 where
    "step P m e = Inr e1" "eng_inv P m bs nb S {} {} e1" "advanced A e e1" by (auto simp: setup_ok_def)
  then show ?case using stepped(2) I(2) by (auto simp: advanced_def)
qed

lemmas run_inv_all = run_inv[OF _ _ _ chains_in_all]

section \<open>Properties of the engine\<close>

text \<open>C4: In a run whose requests are valid (every prompt token is in the vocabulary, and the sampler
  returns a token of the vocabulary on the logits of this model; for greedy requests
  \<open>greedy_samples_ok\<close> proves the latter), a step never throws and is never undefined: it
  returns, it appends one token to the outputs of the sequences of its batch and changes no
  other output, and the invariant of the engine holds again. With prefix caching on, this is
  under the condition that contexts of the run that differ have different hashes.
  \<open>add_request\<close> itself checks only that the prompt is not empty: \<open>bad_prompt_throws\<close> below has
  a request outside the condition that makes the step throw.\<close>

theorem engine_step_total:
  assumes "engine_run P m bs nb pc e" "setup_ok P m bs" "pc \<longrightarrow> inj_on chain_hash (all_chains bs e)"
  shows "\<exists>A e'. step P m e = Inr e' \<and> advanced A e e' \<and> eng_inv P m bs nb (all_chains bs e) {} {} e'"
proof -
  from run_inv_all[OF assms] have I: "eng_inv P m bs nb (all_chains bs e) {} {} e" "e_prefix_cache e = pc" by blast+
  from step_ok[OF I(1) _ _ _ chains_in_all] assms(2,3) I(2) show ?thesis unfolding setup_ok_def by blast
qed

text \<open>C1: Batching, preemption, recomputation and prefix sharing do not change what a request gets.
  At any time in a run of valid requests (tokens in the vocabulary, a sampler that returns
  one), and, when prefix caching is on, if no two different contexts of the run have the same
  64-bit hash (without that condition the claim is false: \<open>prefix_sharing_collision\<close>), each
  token of a sequence's output is a draw of the sampler, with the parameters of that request,
  on the logits that a full forward over its own prompt and earlier tokens gives; no token
  follows a stopping one, and the sequence is finished exactly when its output stops.\<close>

theorem engine_outputs_exact:
  assumes "engine_run P m bs nb pc e" "setup_ok P m bs" "pc \<longrightarrow> inj_on chain_hash (all_chains bs e)"
    and "e_sequences e i = Some s"
  shows "(\<forall>k < length (es_output s).
        draws P m (rq_params (es_request s)) (rq_prompt (es_request s) @ take k (es_output s)) (es_output s ! k))
    \<and> (\<forall>k. 0 < k \<longrightarrow> k < length (es_output s) \<longrightarrow> \<not> stops (es_request s) (take k (es_output s)))
    \<and> (es_status s = Finished \<longleftrightarrow> es_output s \<noteq> [] \<and> stops (es_request s) (es_output s))"
proof -
  from run_inv_all[OF assms(1-3)] have "eng_inv P m bs nb (all_chains bs e) {} {} e" by blast
  from eng_invD(5)[OF this assms(4)] have "request_ok P m s" by (simp add: seq_ok_def)
  then show ?thesis unfolding request_ok_def out_ok_def by blast
qed

lemma greedy_tokens_nth:
  assumes "\<forall>k < length out. out ! k = g (ids @ take k out)"
  shows "out = greedy_tokens g (length out) ids"
  using assms
proof (induction out rule: rev_induct)
  case (snoc t out)
  have "out = greedy_tokens g (length out) ids"
  proof (rule snoc.IH, intro allI impI)
    fix k assume "k < length out"
    then show "out ! k = g (ids @ take k out)" using snoc.prems[rule_format, of k] by (simp add: nth_append)
  qed
  moreover have "t = g (ids @ out)" using snoc.prems[rule_format, of "length out"] by simp
  moreover have "greedy_tokens g (length out + 1) ids
      = greedy_tokens g (length out) ids @ greedy_tokens g 1 (ids @ greedy_tokens g (length out) ids)"
    by (rule greedy_tokens_add)
  ultimately show ?case by simp
qed simp

lemma draws_greedy:
  assumes "setup_ok P m bs" "f64_le (temperature params) 0" "ids_ok m ids" "ids \<noteq> []" "draws P m params ids t"
  shows "t = next_token (p_fpu P) (p_eigen P) m ids"
  using assms(5) greedy_draw[OF _ _ assms(3,4,2)] assms(1) unfolding draws_def setup_ok_def by fastforce

text \<open>C8: For a greedy request the engine is plain greedy decoding. In a run of valid requests, and,
  when prefix caching is on, if no two different contexts of the run have the same hash
  (\<open>prefix_sharing_collision\<close> shows what happens otherwise), however the engine batches,
  preempts and shares, the output is the beginning of the tokens that decoding this prompt
  alone gives.\<close>

theorem engine_greedy_exact:
  assumes "engine_run P m bs nb pc e" "setup_ok P m bs" "pc \<longrightarrow> inj_on chain_hash (all_chains bs e)"
    and "e_sequences e i = Some s" "f64_le (temperature (rq_params (es_request s))) 0"
  shows "plain_greedy (forward (p_fpu P) (p_eigen P) m) (length (es_output s)) (rq_prompt (es_request s)) = Inr (es_output s)"
proof -
  let ?F = "p_fpu P" and ?E = "p_eigen P" and ?p = "rq_prompt (es_request s)"
  from run_inv_all[OF assms(1-3)] have "eng_inv P m bs nb (all_chains bs e) {} {} e" by blast
  from eng_invD(5)[OF this assms(4)] have r: "request_ok P m s" by (simp add: seq_ok_def)
  then have ids: "ids_ok m (?p @ es_output s)" "?p \<noteq> []"
    and d: "\<forall>k < length (es_output s). draws P m (rq_params (es_request s)) (?p @ take k (es_output s)) (es_output s ! k)"
    by (auto simp: request_ok_def out_ok_def es_context_def)
  have "es_output s ! k = next_token ?F ?E m (?p @ take k (es_output s))" if "k < length (es_output s)" for k
  proof (rule draws_greedy[OF assms(2,5) _ _ d[rule_format, OF that]])
    show "ids_ok m (?p @ take k (es_output s))" using ids(1) by (auto simp: ids_ok_def dest: in_set_takeD)
  qed (use ids(2) in simp)
  then have g: "es_output s = greedy_tokens (next_token ?F ?E m) (length (es_output s)) ?p" by (intro greedy_tokens_nth) blast
  have "lm_ok (?F, ?E, m) ?p" using assms(2) ids(1) by (auto simp: lm_ok_def setup_ok_def ids_ok_def)
  from lm.plain_greedy_tokens[OF this ids(2), of "length (es_output s)"] g show ?thesis by simp
qed

lemma eids_seq: "eng_inv P m bs nb S R D e \<Longrightarrow> i \<in> set (eids e) \<Longrightarrow> \<exists>s. e_sequences e i = Some s"
  using eng_invD(4) by (metis domD)

text \<open>C9: Every block is accounted for in every state of a run of valid requests (with prefix caching
  on, if the hashes of its contexts differ): its reference count is the number of
  times it stands in a table of a sequence plus its entries in the prefix cache, the free count
  is the number of blocks without references, only running sequences hold blocks, and without
  prefix caching the whole pool is free again when nothing runs.\<close>

theorem engine_blocks_accounted:
  assumes "engine_run P m bs nb pc e" "setup_ok P m bs" "pc \<longrightarrow> inj_on chain_hash (all_chains bs e)"
  shows "(\<forall>b. refs_of (bm_alloc (e_manager e)) b
          = sum_list (map (\<lambda>i. count_list (block_table (es_blocks (the (e_sequences e i)))) b) (eids e)) + cache_refs (e_manager e) b)
    \<and> free_blocks (e_manager e) = int nb - int (card {b. 0 < refs_of (bm_alloc (e_manager e)) b})
    \<and> (\<forall>i s. e_sequences e i = Some s \<longrightarrow> i \<notin> set (e_running e) \<longrightarrow> es_blocks s = no_blocks)
    \<and> (\<not> pc \<longrightarrow> e_running e = [] \<longrightarrow> free_blocks (e_manager e) = int nb)"
proof -
  from run_inv_all[OF assms] have I: "eng_inv P m bs nb (all_chains bs e) {} {} e" "e_prefix_cache e = pc" by blast+
  note D = eng_invD[OF I(1)]
  let ?ts = "store_tables (block_store e) (eids e)" and ?al = "bm_alloc (e_manager e)"
  have inv: "seqs_inv (e_manager e) ?ts" using D(2) by (simp add: store_inv_def)
  have held: "held ?ts b = sum_list (map (\<lambda>i. count_list (block_table (es_blocks (the (e_sequences e i)))) b) (eids e))" for b
  proof -
    have "block_table (the (block_store e i)) = block_table (es_blocks (the (e_sequences e i)))" if i: "i \<in> set (eids e)" for i
    proof -
      obtain s where "e_sequences e i = Some s" using eids_seq[OF I(1) i] by blast
      then show ?thesis by (simp add: block_store_def)
    qed
    then have "?ts = map (\<lambda>i. block_table (es_blocks (the (e_sequences e i)))) (eids e)"
      unfolding store_tables_def by (rule map_cong[OF refl])
    moreover have "held ts b = sum_list (map (\<lambda>t. count_list t b) ts)" for ts by (induction ts) simp_all
    ultimately show ?thesis by (simp add: comp_def)
  qed
  have idle: "es_blocks s = no_blocks" if s: "e_sequences e i = Some s" "i \<notin> set (e_running e)" for i s
  proof -
    have "es_status s \<noteq> Running" using D(6) s by (auto simp: queues_ok_def has_status_def)
    then have "table_holds P m bs (e_manager e) 0 (es_blocks s) (es_context s)"
      using D(5)[OF s(1)] by (cases "es_status s") (simp_all add: seq_ok_def seq_phase_def)
    then show ?thesis by (simp add: table_holds_def no_blocks_def)
  qed
  have ai: "alloc_inv ?al" using inv by (simp add: seqs_inv_def bm_inv_def)
  have fr: "free_blocks (e_manager e) = int nb - int (card {b. 0 < refs_of ?al b})"
    using alloc_inv_conservation[OF ai] bm_shapeD(5)[OF D(1)] by (simp add: free_blocks_def)
  have refs: "refs_of ?al b = sum_list (map (\<lambda>i. count_list (block_table (es_blocks (the (e_sequences e i)))) b) (eids e)) + cache_refs (e_manager e) b" for b
    using refs_of_total[OF inv, of b] held by simp
  have "free_blocks (e_manager e) = int nb" if "\<not> pc" "e_running e = []"
  proof -
    have "entries (e_manager e) = []" using D(7) that(1) I(2) by (simp add: cache_ok_def)
    then have "cache_refs (e_manager e) b = 0" for b by (simp add: cache_refs_def)
    moreover have "block_table (es_blocks (the (e_sequences e i))) = []" if i: "i \<in> set (eids e)" for i
    proof -
      obtain s where s: "e_sequences e i = Some s" using eids_seq[OF I(1) i] by blast
      then show ?thesis using idle[OF s] \<open>e_running e = []\<close> by (simp add: no_blocks_def)
    qed
    ultimately have "refs_of ?al b = 0" for b unfolding refs by (simp cong: map_cong)
    then show ?thesis unfolding fr by simp
  qed
  with refs fr idle show ?thesis by blast
qed

section \<open>A concrete run\<close>

text \<open>One request on blocks of two positions, with prefix caching, after its prefill.\<close>

definition toy_platform :: "nat platform" where
  "toy_platform = \<lparr>p_fpu = toy_fpu, p_eigen = toy_eigen, p_sort = ins_sort, p_uniform = (\<lambda>g. (0, Suc g))\<rparr>"

definition toy_request :: request where
  "toy_request = \<lparr>rq_prompt = [1, 0], rq_params = \<lparr>temperature = 0, top_k = 0, top_p = f64_one\<rparr>, rq_max_tokens = 2, rq_eos_id = -1\<rparr>"

definition toy_asked :: "bool \<Rightarrow> nat engine res" where
  "toy_asked pc = res_bind (engine_new toy_model 2 3 7 2 pc) (\<lambda>e. res_bind (add_request toy_request e) (\<lambda>(i, e). Inr e))"

definition toy_served :: "bool \<Rightarrow> nat engine res" where
  "toy_served pc = res_bind (toy_asked pc) (step toy_platform toy_model)"

lemma toy_setup: "setup_ok toy_platform toy_model 2"
proof -
  have "0 < n_layers toy_model" "0 < n_vocab toy_model" by code_simp+
  then show ?thesis using toy_rowwise toy_model_ok by (simp add: setup_ok_def toy_platform_def)
qed

lemma toy_valid: "valid_request toy_platform toy_model toy_request"
proof -
  have "f64_le (temperature (rq_params toy_request)) 0" "ids_ok toy_model (rq_prompt toy_request)" by code_simp+
  moreover have "0 < n_vocab toy_model" by code_simp
  ultimately show ?thesis using toy_rowwise toy_model_ok
    by (simp add: valid_request_def toy_platform_def greedy_samples_ok)
qed

lemma toy_asked_run: "toy_asked pc = Inr e \<Longrightarrow> engine_run toy_platform toy_model 2 3 pc e"
  by (auto simp: toy_asked_def res_bind_eq_Inr intro!: asked[OF fresh toy_valid])

lemma toy_served_run: "toy_served pc = Inr e \<Longrightarrow> engine_run toy_platform toy_model 2 3 pc e"
  by (auto simp: toy_served_def res_bind_eq_Inr intro: stepped toy_asked_run)

text \<open>\<open>add_request\<close> accepts a token outside the vocabulary of two tokens; the step that prefills it
  throws out of the embedding, after its blocks have been reserved.\<close>

lemma bad_prompt_throws:
  "res_bind (engine_new toy_model 2 3 (7 :: nat) 2 False) (\<lambda>e.
     res_bind (add_request (toy_request\<lparr>rq_prompt := [9]\<rparr>) e) (\<lambda>(i, e). Inr (has_work e))) = Inr True"
  "res_bind (engine_new toy_model 2 3 (7 :: nat) 2 False) (\<lambda>e.
     res_bind (add_request (toy_request\<lparr>rq_prompt := [9]\<rparr>) e) (\<lambda>(i, e).
     res_bind (step toy_platform toy_model e) (\<lambda>e. Inr (has_work e)))) = Inl (OutOfRange ''embedding: token id out of range'')"
  by code_simp+

lemma toy_chains: "chains 2 [1, 0] = {[], [[1, 0]]}" "chains 2 [1, 0, 0] = {[], [[1, 0]]}"
  by code_simp+

lemma toy_hash: "inj_on chain_hash {[], [[1, 0]]}"
  by code_simp

lemma toy_served_state:
  "\<exists>e s. toy_served True = Inr e \<and> engine_run toy_platform toy_model 2 3 True e \<and> all_chains 2 e \<subseteq> {[], [[1, 0]]}
    \<and> e_sequences e 0 = Some s \<and> es_request s = toy_request \<and> es_output s = [0] \<and> e_running e = [0] \<and> free_blocks (e_manager e) = 2"
proof -
  have "(case toy_served True of Inl x \<Rightarrow> False | Inr e \<Rightarrow> e_next_id e = 1 \<and> e_running e = [0] \<and> free_blocks (e_manager e) = 2
      \<and> map_option es_output (e_sequences e 0) = Some [0] \<and> map_option es_request (e_sequences e 0) = Some toy_request)"
    by code_simp
  then obtain e s where e: "toy_served True = Inr e" "e_next_id e = 1" "e_running e = [0]" "free_blocks (e_manager e) = 2"
    "e_sequences e 0 = Some s" "es_output s = [0]" "es_request s = toy_request"
    by (auto split: sum.splits)
  have ctx: "es_context s = [1, 0, 0]" using e(6,7) by (simp add: es_context_def toy_request_def)
  obtain e1 where e1: "toy_asked True = Inr e1" "step toy_platform toy_model e1 = Inr e"
    using e(1) by (auto simp: toy_served_def res_bind_eq_Inr)
  have w1: "work e1 = [0 \<mapsto> (toy_request, [])]" "e_prefix_cache e1"
    using e1(1) by (auto simp: toy_asked_def res_bind_eq_Inr engine_new_def add_request_def Let_def work_def fun_eq_iff split: if_splits)
  have "all_chains 2 e1 = chains 2 [1, 0]" by (auto simp: all_chains_def w1 toy_request_def split: if_splits)
  then have "pc \<longrightarrow> inj_on chain_hash (all_chains 2 e1)" for pc using toy_hash toy_chains by simp
  from run_inv_all[OF toy_asked_run[OF e1(1)] toy_setup this]
  have I: "eng_inv toy_platform toy_model 2 3 (all_chains 2 e1) {} {} e1" by blast
  from step_ok[OF I _ _ _ chains_in_all] toy_setup toy_hash toy_chains \<open>all_chains 2 e1 = _\<close> e1(2)
  have "eng_inv toy_platform toy_model 2 3 (all_chains 2 e1) {} {} e" by (auto simp: setup_ok_def)
  from eng_invD(4)[OF this] have "dom (e_sequences e) = {0}" by (simp add: eids_def e(2))
  then have only: "j = 0" if "e_sequences e j = Some s'" for j s' using that by (metis domI singletonD)
  have "all_chains 2 e \<subseteq> chains 2 [1, 0, 0]"
  proof
    fix c assume "c \<in> all_chains 2 e"
    then obtain j s' where j: "e_sequences e j = Some s'" "c \<in> chains 2 (es_context s')" by (auto simp: all_chains_def work_Some es_context_def)
    from only[OF j(1)] j e(5) ctx show "c \<in> chains 2 [1, 0, 0]" by simp
  qed
  then show ?thesis using e toy_served_run[OF e(1)] toy_chains(2) by blast
qed

lemma toy_served_hash: "all_chains 2 e \<subseteq> {[], [[1, 0]]} \<Longrightarrow> True \<longrightarrow> inj_on chain_hash (all_chains 2 e)"
  using toy_hash by (blast intro: inj_on_subset)

lemma engine_step_total_witness:
  "\<exists>e A e'. toy_served True = Inr e \<and> step toy_platform toy_model e = Inr e' \<and> advanced A e e'"
  using toy_served_state engine_step_total[OF _ toy_setup toy_served_hash] by metis

lemma engine_outputs_exact_witness:
  "\<exists>e s. toy_served True = Inr e \<and> e_sequences e 0 = Some s \<and> es_output s = [0]
    \<and> draws toy_platform toy_model (rq_params toy_request) [1, 0] 0 \<and> es_status s \<noteq> Finished"
proof -
  from toy_served_state obtain e s where e: "toy_served True = Inr e" "engine_run toy_platform toy_model 2 3 True e"
    "all_chains 2 e \<subseteq> {[], [[1, 0]]}" "e_sequences e 0 = Some s" "es_request s = toy_request" "es_output s = [0]" by blast
  have p: "rq_prompt toy_request = [1, 0]" "\<not> stops toy_request [0]" by (simp_all add: toy_request_def stops_def)
  from engine_outputs_exact[OF e(2) toy_setup toy_served_hash[OF e(3)] e(4)] e(1,4-6) p show ?thesis by simp
qed

lemma engine_greedy_exact_witness:
  "plain_greedy (forward toy_fpu toy_eigen toy_model) 1 [1, 0] = Inr [0]"
proof -
  from toy_served_state obtain e s where e: "toy_served True = Inr e" "engine_run toy_platform toy_model 2 3 True e"
    "all_chains 2 e \<subseteq> {[], [[1, 0]]}" "e_sequences e 0 = Some s" "es_request s = toy_request" "es_output s = [0]" by blast
  have g: "f64_le (temperature (rq_params toy_request)) 0" by code_simp
  from engine_greedy_exact[OF e(2) toy_setup toy_served_hash[OF e(3)] e(4)] g e(5,6)
  show ?thesis by (simp add: toy_request_def toy_platform_def)
qed

lemma engine_blocks_accounted_witness:
  "\<exists>e. toy_served True = Inr e \<and> free_blocks (e_manager e) = 2 \<and> card {b. 0 < refs_of (bm_alloc (e_manager e)) b} = 1"
proof -
  from toy_served_state obtain e where e: "toy_served True = Inr e" "engine_run toy_platform toy_model 2 3 True e"
    "all_chains 2 e \<subseteq> {[], [[1, 0]]}" "free_blocks (e_manager e) = 2" by blast
  from engine_blocks_accounted[OF e(2) toy_setup toy_served_hash[OF e(3)]] e(1,4) show ?thesis by auto
qed

end
