(* ===== verification/Engine_Live.thy ===== *)
theory Engine_Live
  imports Engine_Runs
begin

text \<open>
  Progress of the engine. Without prefix caching, when every request fits into the pool on its
  own, each step with work extends an output, so the engine drains and \<open>generate\<close> returns.
  With prefix caching, or with a request larger than the pool, it can idle for ever.
\<close>

section \<open>Bounds of the outputs\<close>

definition out_bound :: "request \<Rightarrow> nat" where
  "out_bound rq = nat (max 1 (rq_max_tokens rq))"

lemma out_bounded:
  assumes "out_ok P m rq out"
  shows "length out \<le> out_bound rq"
proof (cases "length out \<le> 1")
  case False
  then have "0 < length out - 1" "length out - 1 < length out" by linarith+
  with assms have "\<not> stops rq (take (length out - 1) out)" unfolding out_ok_def by blast
  then show ?thesis using False by (auto simp: stops_def out_bound_def min_def split: if_splits)
qed (auto simp: out_bound_def)

lemma open_bounded:
  assumes "request_ok P m s" "es_status s \<noteq> Finished"
  shows "length (es_output s) < out_bound (es_request s)"
  using assms by (cases "es_output s = []") (auto simp: request_ok_def stops_def out_bound_def)

section \<open>Requests that fit\<close>

text \<open>A request fits when the pool holds its longest context that is ever fed.\<close>

definition fits :: "nat \<Rightarrow> nat \<Rightarrow> request \<Rightarrow> bool" where
  "fits bs nb rq \<longleftrightarrow> nblk bs (length (rq_prompt rq) + out_bound rq - 1) \<le> nb"

definition all_fit :: "nat \<Rightarrow> nat \<Rightarrow> 'g engine \<Rightarrow> bool" where
  "all_fit bs nb e \<longleftrightarrow> (\<forall>i rq out. work e i = Some (rq, out) \<longrightarrow> fits bs nb rq)"

lemma all_fitD: "all_fit bs nb e \<Longrightarrow> e_sequences e i = Some s \<Longrightarrow> fits bs nb (es_request s)"
  unfolding all_fit_def work_Some by blast

lemma fits_context:
  assumes "request_ok P m s" "es_status s \<noteq> Finished" "fits bs nb (es_request s)"
  shows "nblk bs (length (es_context s)) \<le> nb"
proof -
  have "length (es_context s) \<le> length (rq_prompt (es_request s)) + out_bound (es_request s) - 1"
    using open_bounded[OF assms(1,2)] by (simp add: es_context_def)
  then show ?thesis using nblk_mono[of _ _ bs] assms(3) unfolding fits_def by (meson order_trans)
qed

section \<open>The free pool\<close>

lemma cache_off: "eng_inv P m bs nb S R D e \<Longrightarrow> \<not> e_prefix_cache e \<Longrightarrow> cache_refs (e_manager e) b = 0"
  using eng_invD(7) by (fastforce simp: cache_ok_def cache_refs_def)

text \<open>When only one sequence holds blocks, the others are free.\<close>

lemma sole_holder:
  assumes I: "eng_inv P m bs nb S {} {} e" and off: "\<not> e_prefix_cache e"
    and only: "\<And>j s. e_sequences e j = Some s \<Longrightarrow> set (block_table (es_blocks s)) \<subseteq> set t"
  shows "int nb - int (length t) \<le> num_free (bm_alloc (e_manager e))"
proof -
  note D = eng_invD[OF I]
  let ?al = "bm_alloc (e_manager e)"
  have inv: "seqs_inv (e_manager e) (store_tables (block_store e) (eids e))" using D(2) by (simp add: store_inv_def)
  have ai: "alloc_inv ?al" using inv by (simp add: seqs_inv_def bm_inv_def)
  have "{b. 0 < refs_of ?al b} \<subseteq> set t"
  proof
    fix b assume "b \<in> {b. 0 < refs_of ?al b}"
    then have "0 < held (store_tables (block_store e) (eids e)) b"
      using refs_of_total[OF inv, of b] cache_off[OF I off, of b] by simp
    then obtain i where i: "i \<in> set (eids e)" "b \<in> set (block_table (the (block_store e i)))" by (auto simp: held_pos store_tables_def)
    from eids_seq[OF I i(1)] obtain s where s: "e_sequences e i = Some s" by blast
    then show "b \<in> set t" using only[OF s] i(2) by (auto simp: block_store_def)
  qed
  then have "card {b. 0 < refs_of ?al b} \<le> length t"
    by (meson List.finite_set card_length card_mono order_trans)
  then show ?thesis using alloc_inv_conservation[OF ai] bm_shapeD(5)[OF D(1)] by simp
qed

lemma idle_empty:
  assumes I: "eng_inv P m bs nb S {} {} e" and s: "e_sequences e i = Some s" "es_status s \<noteq> Running"
  shows "block_table (es_blocks s) = []"
  using eng_invD(5)[OF I s(1)] s(2)
  by (cases "es_status s") (auto simp: seq_ok_def seq_phase_def table_holds_def)

lemma running_status:
  assumes I: "eng_inv P m bs nb S {} {} e" and s: "e_sequences e i = Some s"
  shows "es_status s = Running \<longleftrightarrow> i \<in> set (e_running e)" "es_status s = Waiting \<longleftrightarrow> i \<in> set (e_waiting e)"
  using eng_invD(6)[OF I] s by (auto simp: queues_ok_def has_status_def)

section \<open>Admission lets someone in\<close>

lemma admit_running: "admit q e = Inr e' \<Longrightarrow> \<exists>r. e_running e' = e_running e @ r"
  by (induction q arbitrary: e) (fastforce simp: res_bind_eq_Inr seq_set_def split: if_splits)+

lemma admit_some:
  assumes I: "eng_inv P m bs nb S {} {} e" and off: "\<not> e_prefix_cache e" and mb: "1 \<le> e_max_batch e"
    and w: "has_work e" and f: "all_fit bs nb e" and a: "admit (e_waiting e) e = Inr e'"
  shows "e_running e' \<noteq> []"
proof (cases "e_running e = []")
  case True
  then obtain i rest where q: "e_waiting e = i # rest" using w by (cases "e_waiting e") (auto simp: has_work_def)
  have "has_status e Waiting i" using eng_invD(6)[OF I] q unfolding queues_ok_def by auto
  then obtain s where s: "e_sequences e i = Some s" "es_status s = Waiting" by (auto simp: has_status_def)
  note B = bm_shapeD[OF eng_invD(1)[OF I]]
  from eng_invD(5)[OF I s(1)] s(2) have ok: "request_ok P m s" "\<not> es_prefilled s" "seq_length (es_blocks s) = 0" "block_table (es_blocks s) = []"
    by (auto simp: seq_ok_def seq_phase_def table_holds_def)
  have "nblk bs (length (es_context s)) \<le> nb"
    using fits_context[OF ok(1) _ all_fitD[OF f s(1)]] s(2) by simp
  moreover have "int nb \<le> num_free (bm_alloc (e_manager e))"
  proof -
    have "block_table (es_blocks s') = []" if "e_sequences e j = Some s'" for j s'
      using idle_empty[OF I that] running_status[OF I that] True by simp
    then show ?thesis using sole_holder[OF I off, of "[]"] by simp
  qed
  moreover have "admit_need s = int (length (es_context s))" using ok(2) by (simp add: admit_need_def es_context_def)
  ultimately have "can_append (e_manager e) (es_blocks s) (admit_need s)"
    using ok(3,4) blocks_for_nblk[OF B(1,2)] by (simp add: can_append_def)
  then have "admit rest (seq_set i (s\<lparr>es_status := Running\<rparr>) (e\<lparr>e_running := e_running e @ [i]\<rparr>)) = Inr e'"
    using a s mb True unfolding q by (simp add: seq_at_def)
  from admit_running[OF this] show ?thesis by (auto simp: seq_set_def)
next
  case False
  then show ?thesis using admit_running[OF a] by auto
qed

section \<open>A batch is never empty\<close>

lemma same_work_fit: "same_work e e' \<Longrightarrow> all_fit bs nb e \<Longrightarrow> all_fit bs nb e'"
  by (simp add: all_fit_def same_work_def)

lemma batch_some:
  assumes I: "eng_inv P m bs nb S {} {} e" and off: "\<not> e_prefix_cache e" and f: "all_fit bs nb e"
    and i: "i \<in> set (e_running e)" and e: "num_free (bm_alloc (e_manager e)) < int (lacks bs e i)"
  shows "\<exists>j \<in> set (e_running e). j \<noteq> i \<and> block_table (es_blocks (the (e_sequences e j))) \<noteq> []"
proof (rule ccontr)
  assume no: "\<not> ?thesis"
  from running_seq[OF I i] obtain s where s: "e_sequences e i = Some s" by blast
  have run: "es_status s = Running" using running_status[OF I s] i by simp
  have ok: "request_ok P m s" using eng_invD(5)[OF I s] by (simp add: seq_ok_def)
  have "nblk bs (length (es_context s)) \<le> nb" using fits_context[OF ok _ all_fitD[OF f s]] run by simp
  moreover have "set (block_table (es_blocks s')) \<subseteq> set (block_table (es_blocks s))" if s': "e_sequences e j = Some s'" for j s'
  proof (cases "j = i")
    case False
    have "block_table (es_blocks s') = []"
      using no False s' idle_empty[OF I s'] running_status[OF I s'] by auto
    then show ?thesis by simp
  qed (use s s' in simp)
  with sole_holder[OF I off] have "int nb - int (length (block_table (es_blocks s))) \<le> num_free (bm_alloc (e_manager e))" by blast
  moreover have "0 \<le> num_free (bm_alloc (e_manager e))" by (simp add: num_free_def)
  ultimately show False using e s by (simp add: lacks_def Let_def)
qed

section \<open>Every step makes progress\<close>

lemma step_advances:
  assumes I: "eng_inv P m bs nb S {} {} e" and E: "eigen_rowwise (p_eigen P)" "model_ok m"
    and off: "\<not> e_prefix_cache e" and ch: "chains_in bs S e"
    and mb: "1 \<le> e_max_batch e" and w: "has_work e" and f: "all_fit bs nb e"
  shows "\<exists>A e'. step P m e = Inr e' \<and> eng_inv P m bs nb S {} {} e' \<and> advanced A e e' \<and> A \<noteq> {}"
proof -
  have "eng_inv P m bs nb S {} {} (e\<lparr>e_waiting := e_waiting e\<rparr>)" using I by simp
  from admit_ok[OF this] obtain e1 where
    a: "admit (e_waiting e) e = Inr e1" "eng_inv P m bs nb S {} {} e1" "same_work e e1" by blast
  have off1: "\<not> e_prefix_cache e1" using off a(3) by (simp add: same_work_def)
  have h1: "e_prefix_cache e1 \<longrightarrow> inj_on chain_hash S" "chains_in bs S e1"
    using off1 ch same_work_chains[OF a(3), of bs S] by auto
  have run1: "e_running e1 \<noteq> []" by (rule admit_some[OF I off mb w f a(1)])
  from build_batch_ok[OF a(2) h1 E] obtain ents e2 where
    b: "build_batch e1 = Inr (ents, e2)" "eng_inv P m bs nb S {} {} e2" "same_work e1 e2"
    "\<forall>b \<in> set ents. entry_ok e2 b" "distinct (map be_id ents)"
    "int (sum_list (map (\<lambda>b. job_need bs (entry_job e2 b)) ents)) \<le> num_free (bm_alloc (e_manager e2))"
    and stuck: "ents = [] \<longrightarrow> (\<forall>i \<in> set (e_running e2). num_free (bm_alloc (e_manager e2)) < int (lacks bs e2 i))
         \<and> (e_running e1 = [] \<longrightarrow> e_running e2 = []) \<and> (e_running e1 \<noteq> [] \<longrightarrow> e_running e2 \<noteq> [])
         \<and> (length (e_running e2) \<le> 1 \<or> (\<forall>i \<in> set (e_running e2). block_table (es_blocks (the (e_sequences e2 i))) = []))"
    by blast
  have sw: "same_work e e2" by (rule same_work_trans[OF a(3) b(3)])
  have some: "ents \<noteq> []"
  proof
    assume none: "ents = []"
    with stuck run1 obtain i rest where r: "e_running e2 = i # rest" by (cases "e_running e2") auto
    have "\<not> e_prefix_cache e2" using off sw by (simp add: same_work_def)
    moreover have "num_free (bm_alloc (e_manager e2)) < int (lacks bs e2 i)" using stuck none r by simp
    ultimately obtain j where "j \<in> set (e_running e2)" "j \<noteq> i" "block_table (es_blocks (the (e_sequences e2 j))) \<noteq> []"
      using batch_some[OF b(2) _ same_work_fit[OF sw f], of i] r by auto
    then show False using stuck none r by auto
  qed
  have h2: "chains_in bs S e2" using ch same_work_chains[OF sw] by simp
  from run_batch_ok[OF b(2) E h2 some b(4-6)] obtain e3 where
    "run_batch P m ents e2 = Inr e3" "eng_inv P m bs nb S {} {} e3" "advanced (be_id ` set ents) e2 e3" by blast
  then show ?thesis using a(1) b(1) some same_work_advanced[OF sw]
    by (intro exI[of _ "be_id ` set ents"] exI[of _ e3]) (simp add: step_def)
qed

text \<open>What is left to generate: a bound on the number of steps.\<close>

definition remaining :: "'g engine \<Rightarrow> nat" where
  "remaining e = (\<Sum>i \<in> set (eids e). case work e i of None \<Rightarrow> 0 | Some (rq, out) \<Rightarrow> out_bound rq - length out)"

lemma work_bounded:
  assumes "eng_inv P m bs nb S R D e" "work e i = Some (rq, out)"
  shows "length out \<le> out_bound rq"
proof -
  from assms(2) obtain s where s: "e_sequences e i = Some s" "es_request s = rq" "es_output s = out" by (auto simp: work_Some)
  have "out_ok P m rq out" using eng_invD(5)[OF assms(1) s(1)] s(2,3) unfolding seq_ok_def request_ok_def by blast
  then show ?thesis by (rule out_bounded)
qed

lemma advanced_remaining:
  assumes I: "eng_inv P m bs nb S {} {} e" "eng_inv P m bs nb S {} {} e'" and a: "advanced A e e'" "A \<noteq> {}"
  shows "remaining e' < remaining e"
proof -
  let ?r = "\<lambda>e i. case work e i of None \<Rightarrow> 0 | Some (rq, out) \<Rightarrow> out_bound rq - length out"
  have ids: "eids e' = eids e" using a(1) by (simp add: advanced_def eids_def)
  have less: "?r e' i < ?r e i" if i: "i \<in> A" for i
  proof -
    obtain rq out t where w: "work e i = Some (rq, out)" "work e' i = Some (rq, out @ [t])"
      using a(1) i unfolding advanced_def by blast
    then show ?thesis using work_bounded[OF I(2) w(2)] by simp
  qed
  have keep: "?r e' i = ?r e i" if "i \<notin> A" for i using a(1) that by (simp add: advanced_def)
  obtain i where i: "i \<in> A" using a(2) by blast
  then have "work e i \<noteq> None" using a(1) unfolding advanced_def by blast
  then have ie: "i \<in> set (eids e)" using eng_invD(4)[OF I(1)] by (auto simp: work_def)
  have "sum (?r e') (set (eids e)) < sum (?r e) (set (eids e))"
  proof (rule sum_strict_mono_ex1)
    show "\<forall>j \<in> set (eids e). ?r e' j \<le> ?r e j" using less keep by (metis less_imp_le order_refl)
    show "\<exists>j \<in> set (eids e). ?r e' j < ?r e j" using less[OF i] ie by blast
  qed simp
  then show ?thesis by (simp add: remaining_def ids)
qed

lemma advanced_fit: "advanced A e e' \<Longrightarrow> all_fit bs nb e \<Longrightarrow> all_fit bs nb e'"
  unfolding advanced_def all_fit_def by (metis option.inject prod.inject)

lemma no_work_finished:
  assumes "eng_inv P m bs nb S {} {} e" "\<not> has_work e" "e_sequences e i = Some s"
  shows "es_status s = Finished"
  using running_status[OF assms(1,3)] assms(2) by (cases "es_status s") (auto simp: has_work_def)

section \<open>Draining and generating\<close>

text \<open>\<open>n\<close> steps, as in the loops that drive the engine until \<open>has_work\<close> is false.\<close>

primrec run_steps :: "'g platform \<Rightarrow> model \<Rightarrow> nat \<Rightarrow> 'g engine \<Rightarrow> 'g engine res" where
  "run_steps P m 0 e = Inr e"
| "run_steps P m (Suc n) e = res_bind (step P m e) (run_steps P m n)"

lemma live_step:
  assumes R: "engine_run P m bs nb False e" and ok: "setup_ok P m bs"
    and mb: "1 \<le> e_max_batch e" and w: "has_work e" and f: "all_fit bs nb e"
  shows "\<exists>A e'. step P m e = Inr e' \<and> advanced A e e' \<and> A \<noteq> {} \<and> engine_run P m bs nb False e'
    \<and> 1 \<le> e_max_batch e' \<and> all_fit bs nb e' \<and> remaining e' < remaining e"
proof -
  from run_inv_all[OF R ok] have I: "eng_inv P m bs nb (all_chains bs e) {} {} e" "\<not> e_prefix_cache e" by simp_all
  from step_advances[OF I(1) _ _ I(2) chains_in_all mb w f] ok obtain A e' where
    s: "step P m e = Inr e'" "eng_inv P m bs nb (all_chains bs e) {} {} e'" "advanced A e e'" "A \<noteq> {}"
    unfolding setup_ok_def by blast
  have "e_max_batch e' = e_max_batch e" using s(3) by (simp add: advanced_def)
  then show ?thesis using s mb advanced_remaining[OF I(1) s(2-4)] advanced_fit[OF s(3) f] stepped[OF R s(1)] by auto
qed

text \<open>Without prefix caching, if the pool can hold each request on its own, a step with work
  to do always produces a token: no reachable state idles.\<close>

theorem engine_progress:
  assumes "engine_run P m bs nb False e" "setup_ok P m bs" "1 \<le> e_max_batch e" "has_work e" "all_fit bs nb e"
  shows "\<exists>A e'. step P m e = Inr e' \<and> advanced A e e' \<and> A \<noteq> {}"
  using live_step[OF assms] by blast

lemma drain:
  assumes "engine_run P m bs nb False e" "setup_ok P m bs" "1 \<le> e_max_batch e" "all_fit bs nb e"
  shows "\<exists>n \<le> remaining e. \<exists>e'. run_steps P m n e = Inr e' \<and> engine_run P m bs nb False e' \<and> \<not> has_work e' \<and> e_next_id e' = e_next_id e"
  using assms
proof (induction "remaining e" arbitrary: e rule: less_induct)
  case less
  show ?case
  proof (cases "has_work e")
    case True
    from live_step[OF less.prems(1-3) True less.prems(4)] obtain A e1 where
      s: "step P m e = Inr e1" "advanced A e e1" "engine_run P m bs nb False e1" "1 \<le> e_max_batch e1" "all_fit bs nb e1"
      "remaining e1 < remaining e" by blast
    from less.hyps[OF s(6,3) less.prems(2) s(4,5)] obtain n e' where
      "n \<le> remaining e1" "run_steps P m n e1 = Inr e'" "engine_run P m bs nb False e'" "\<not> has_work e'" "e_next_id e' = e_next_id e1" by blast
    moreover have "e_next_id e1 = e_next_id e" using s(2) by (simp add: advanced_def)
    ultimately show ?thesis using s(1,6) by (intro exI[of _ "Suc n"]) auto
  qed (use less.prems in \<open>auto intro: exI[of _ 0]\<close>)
qed

text \<open>C5: Without prefix caching the engine drains: after at most as many steps as tokens are
  still allowed, nothing waits or runs, every sequence is finished and the whole pool is free.\<close>

theorem engine_drains:
  assumes "engine_run P m bs nb False e" "setup_ok P m bs" "1 \<le> e_max_batch e" "all_fit bs nb e"
  shows "\<exists>n \<le> remaining e. \<exists>e'. run_steps P m n e = Inr e' \<and> \<not> has_work e'
    \<and> (\<forall>i. 0 \<le> i \<longrightarrow> i < e_next_id e \<longrightarrow> engine_status i e' = Inr Finished) \<and> free_blocks (e_manager e') = int nb"
proof -
  from drain[OF assms] obtain n e' where
    d: "n \<le> remaining e" "run_steps P m n e = Inr e'" "engine_run P m bs nb False e'" "\<not> has_work e'" "e_next_id e' = e_next_id e" by blast
  from run_inv_all[OF d(3) assms(2)] have I: "eng_inv P m bs nb (all_chains bs e') {} {} e'" "\<not> e_prefix_cache e'" by simp_all
  have fin: "es_status s = Finished" if "e_sequences e' i = Some s" for i s by (rule no_work_finished[OF I(1) d(4) that])
  have "engine_status i e' = Inr Finished" if "0 \<le> i" "i < e_next_id e" for i
  proof -
    have "i \<in> set (eids e')" using that d(5) by (auto simp: eids_def image_iff intro: bexI[of _ "nat i"])
    from eids_seq[OF I(1) this] obtain s where "e_sequences e' i = Some s" by blast
    with fin show ?thesis by (simp add: engine_status_def seq_at_def)
  qed
  moreover have "free_blocks (e_manager e') = int nb"
  proof -
    have "block_table (es_blocks s) = []" if "e_sequences e' i = Some s" for i s
      using idle_empty[OF I(1) that] fin[OF that] by simp
    then have "int nb \<le> num_free (bm_alloc (e_manager e'))" using sole_holder[OF I, of "[]"] by simp
    moreover have "alloc_inv (bm_alloc (e_manager e'))"
      using eng_invD(2)[OF I(1)] by (simp add: store_inv_def seqs_inv_def bm_inv_def)
    ultimately show ?thesis
      using alloc_inv_conservation[of "bm_alloc (e_manager e')"] bm_shapeD(5)[OF eng_invD(1)[OF I(1)]] by (simp add: free_blocks_def)
  qed
  ultimately show ?thesis using d by blast
qed

lemma drive_returns:
  assumes "engine_run P m bs nb False e" "setup_ok P m bs" "1 \<le> e_max_batch e" "all_fit bs nb e" "e_sequences e i \<noteq> None"
  shows "\<exists>e' s. drive P m i e = Some (Inr (es_output s, e')) \<and> engine_run P m bs nb False e' \<and> extends e e'
    \<and> e_sequences e' i = Some s \<and> es_status s = Finished"
  using assms
proof (induction "remaining e" arbitrary: e rule: less_induct)
  case less
  from less.prems(5) obtain s where s: "e_sequences e i = Some s" by blast
  then have at: "seq_at e i = Inr s" by (simp add: seq_at_def)
  show ?case
  proof (cases "es_status s = Finished")
    case True
    then show ?thesis using s at less.prems(1) by (intro exI[of _ e] exI[of _ s]) (simp add: drive.simps)
  next
    case False
    from run_inv_all[OF less.prems(1,2)] have I: "eng_inv P m bs nb (all_chains bs e) {} {} e" by simp
    have w: "has_work e" using no_work_finished[OF I _ s] False by blast
    from live_step[OF less.prems(1-3) w less.prems(4)] obtain A e1 where
      st: "step P m e = Inr e1" "advanced A e e1" "engine_run P m bs nb False e1" "1 \<le> e_max_batch e1" "all_fit bs nb e1"
      "remaining e1 < remaining e" by blast
    have ex: "extends e e1" by (rule step_extends[OF st(1)])
    have "work e i = Some (es_request s, es_output s)" using s by (simp add: work_Some)
    then have "work e1 i \<noteq> None" using ex unfolding extends_def by (metis option.distinct(1))
    then have "e_sequences e1 i \<noteq> None" by (auto simp: work_def)
    from less.hyps[OF st(6,3) less.prems(2) st(4,5) this] obtain e' s' where
      r: "drive P m i e1 = Some (Inr (es_output s', e'))" "engine_run P m bs nb False e'" "extends e1 e'"
      "e_sequences e' i = Some s'" "es_status s' = Finished" by blast
    have "drive P m i e = Some (Inr (es_output s', e'))" using at False st(1) r(1) by (simp add: drive.simps[of P m i e])
    then show ?thesis using r extends_trans[OF ex r(3)] by blast
  qed
qed

text \<open>C2: \<open>generate\<close> returns when the requests fit, whatever else the engine is serving: it gives at
  least one and at most \<open>max_tokens\<close> tokens (one, if \<open>max_tokens\<close> is not positive), each the
  sampler's draw on the logits of a full forward, and it stops at the first stopping token.\<close>

theorem engine_generate_returns:
  assumes "engine_run P m bs nb False e" "setup_ok P m bs" "1 \<le> e_max_batch e" "all_fit bs nb e"
    and rq: "rq = \<lparr>rq_prompt = prompt, rq_params = params, rq_max_tokens = max_tokens, rq_eos_id = eos\<rparr>"
    and v: "valid_request P m rq" "prompt \<noteq> []" "fits bs nb rq"
  shows "\<exists>out e'. generate P m prompt params max_tokens eos e = Some (Inr (out, e'))
    \<and> 0 < length out \<and> int (length out) \<le> max 1 max_tokens \<and> stops rq out
    \<and> (\<forall>k < length out. draws P m params (prompt @ take k out) (out ! k) \<and> (0 < k \<longrightarrow> \<not> stops rq (take k out)))"
proof -
  from run_inv_all[OF assms(1,2)] have I: "eng_inv P m bs nb (all_chains bs e) {} {} e" by simp
  have p: "rq_prompt rq \<noteq> []" using rq v(2) by simp
  from add_request_ok[OF I v(1) p] obtain e1 where
    a: "add_request rq e = Inr (e_next_id e, e1)" "work e1 = (work e)(e_next_id e \<mapsto> (rq, []))" "e_max_batch e1 = e_max_batch e" by blast
  have "engine_run P m bs nb False e1" by (rule asked[OF assms(1) v(1) a(1)])
  moreover have "all_fit bs nb e1" using assms(4) v(3) a(2) by (auto simp: all_fit_def split: if_splits)
  moreover have "e_sequences e1 (e_next_id e) \<noteq> None" using fun_cong[OF a(2), of "e_next_id e"] by (auto simp: work_def)
  ultimately obtain e' s where
    d: "drive P m (e_next_id e) e1 = Some (Inr (es_output s, e'))" "engine_run P m bs nb False e'" "extends e1 e'"
    "e_sequences e' (e_next_id e) = Some s" "es_status s = Finished"
    using drive_returns[of P m bs nb e1 "e_next_id e"] assms(2,3) a(3) by auto
  have s: "es_request s = rq" using d(3,4) a(2) by (auto simp: extends_def work_Some dest!: spec[of _ "e_next_id e"])
  from run_inv_all[OF d(2) assms(2)] have "eng_inv P m bs nb (all_chains bs e') {} {} e'" by simp
  from eng_invD(5)[OF this d(4)] have r: "request_ok P m s" by (simp add: seq_ok_def)
  then have o: "out_ok P m rq (es_output s)" "es_output s \<noteq> []" "stops rq (es_output s)"
    using d(5) s by (auto simp: request_ok_def)
  have "generate P m prompt params max_tokens eos e = Some (Inr (es_output s, e'))"
    using a(1) d(1) by (simp add: generate_def rq)
  moreover have "int (length (es_output s)) \<le> max 1 max_tokens"
    using out_bounded[OF o(1)] by (simp add: out_bound_def rq)
  ultimately show ?thesis using o unfolding out_ok_def by (auto simp: rq)
qed

section \<open>Where the engine idles\<close>

text \<open>Admission and batching look only at the free pool. When nothing runs and the first waiting
  sequence does not fit into it, a step changes nothing, and \<open>generate\<close> never returns.\<close>

definition stalled :: "int \<Rightarrow> 'g engine \<Rightarrow> bool" where
  "stalled i e \<longleftrightarrow> e_running e = [] \<and> (\<exists>h rest s. e_waiting e = h # rest \<and> e_sequences e h = Some s
     \<and> \<not> can_append (e_manager e) (es_blocks s) (admit_need s)) \<and> (\<exists>s. e_sequences e i = Some s \<and> es_status s \<noteq> Finished)"

lemma stalled_step:
  assumes "stalled i e"
  shows "step P m e = Inr e"
proof -
  from assms obtain h rest s where s: "e_running e = []" "e_waiting e = h # rest" "e_sequences e h = Some s"
    "\<not> can_append (e_manager e) (es_blocks s) (admit_need s)" unfolding stalled_def by blast
  have "e\<lparr>e_waiting := h # rest\<rparr> = e" using s(2) by (cases e) simp
  then have "admit (e_waiting e) e = Inr e" using s(2-4) by (simp add: seq_at_def)
  moreover have "build_batch e = Inr ([], e)" using s(1) by (simp add: build_batch.simps assemble_def)
  ultimately show ?thesis by (simp add: step_def)
qed

lemma stalled_drive:
  assumes "stalled i e"
  shows "drive P m i e = None"
proof -
  from assms obtain s where s: "e_sequences e i = Some s" "es_status s \<noteq> Finished" unfolding stalled_def by blast
  have "(((P, m), i), e) \<noteq> (((P, m), i), e)" if "drive P m i e = Some y" for y
    using that
  proof (rule drive.raw_induct[where Pa = "\<lambda>q y. q \<noteq> (((P, m), i), e)", rotated], goal_cases)
    case (1 drive P' m' i' e' y)
    have "drive P m i e \<noteq> Some z" for z using 1(1)[of P m i e z] by blast
    then show ?case using 1(2) stalled_step[OF assms, of P m] s by (auto simp: seq_at_def)
  qed
  then show ?thesis by (cases "drive P m i e") auto
qed

lemma stalled_steps: "stalled i e \<Longrightarrow> run_steps P m n e = Inr e"
  by (induction n) (simp_all add: stalled_step)

text \<open>C25: A prompt that needs more blocks than the pool has makes \<open>generate\<close> run for ever: the
  request is never admitted and no error is raised.\<close>

theorem engine_oversized_hangs:
  assumes "engine_new m (int bs) (int nb) rng mb pc = Inr e" "setup_ok P m bs"
    and "prompt \<noteq> []" "nb < nblk bs (length prompt)"
  shows "generate P m prompt params max_tokens eos e = None"
proof -
  let ?rq = "\<lparr>rq_prompt = prompt, rq_params = params, rq_max_tokens = max_tokens, rq_eos_id = eos\<rparr>"
  from assms(2) have "model_ok m" "0 < n_layers m" "0 < bs" by (auto simp: setup_ok_def)
  from engine_new_ok[OF this, of nb rng mb pc P "{}"] assms(1)
  have n: "eng_inv P m bs nb {} {} {} e" "e_next_id e = 0" "e_running e = []" "e_waiting e = []" "e_sequences e = Map.empty" by auto
  note B = bm_shapeD[OF eng_invD(1)[OF n(1)]]
  have ai: "alloc_inv (bm_alloc (e_manager e))"
    using eng_invD(2)[OF n(1)] by (simp add: store_inv_def seqs_inv_def bm_inv_def)
  have "num_free (bm_alloc (e_manager e)) \<le> int nb" using alloc_inv_conservation[OF ai] B(5) by linarith
  then have "\<not> can_append (e_manager e) no_blocks (int (length prompt))"
    using assms(4) blocks_for_nblk[OF B(1,2)] by (simp add: can_append_def no_blocks_def)
  then obtain e1 where e1: "add_request ?rq e = Inr (0, e1)" "stalled 0 e1"
    using n(2-5) assms(3) by (simp add: add_request_def Let_def stalled_def admit_need_def)
  then show ?thesis using stalled_drive[OF e1(2)] by (simp add: generate_def)
qed

end
