(* ===== verification/Engine_Idle.thy ===== *)
theory Engine_Idle
  imports Engine_Live
begin

text \<open>
  Concrete runs: the engine that idles because of its prefix cache, and the concrete inputs of
  the progress properties.
\<close>

section \<open>An engine that idles on its cache\<close>

definition cached_request :: request where
  "cached_request = \<lparr>rq_prompt = [1], rq_params = \<lparr>temperature = 0, top_k = 0, top_p = f64_one\<rparr>, rq_max_tokens = 2, rq_eos_id = -1\<rparr>"

definition blocked_request :: request where
  "blocked_request = \<lparr>rq_prompt = [0, 0], rq_params = \<lparr>temperature = 0, top_k = 0, top_p = f64_one\<rparr>, rq_max_tokens = 1, rq_eos_id = -1\<rparr>"

text \<open>Two blocks of one position: the first request runs to its end and leaves one cached block.\<close>

definition idle_engine :: "nat engine res" where
  "idle_engine = res_bind (engine_new toy_model 1 2 7 2 True) (\<lambda>e.
     res_bind (add_request cached_request e) (\<lambda>(_, e).
     res_bind (step toy_platform toy_model e) (\<lambda>e.
     res_bind (step toy_platform toy_model e) (\<lambda>e.
     res_bind (add_request blocked_request e) (\<lambda>(_, e). Inr e)))))"

lemma idle_valid: "valid_request toy_platform toy_model cached_request" "valid_request toy_platform toy_model blocked_request"
proof -
  have "f64_le (temperature (rq_params cached_request)) 0" "ids_ok toy_model (rq_prompt cached_request)"
    "f64_le (temperature (rq_params blocked_request)) 0" "ids_ok toy_model (rq_prompt blocked_request)" "0 < n_vocab toy_model"
    by code_simp+
  then show "valid_request toy_platform toy_model cached_request" "valid_request toy_platform toy_model blocked_request"
    using toy_rowwise toy_model_ok by (simp_all add: valid_request_def toy_platform_def greedy_samples_ok)
qed

lemma idle_run: "idle_engine = Inr e \<Longrightarrow> engine_run toy_platform toy_model 1 2 True e"
  by (auto simp: idle_engine_def res_bind_eq_Inr
      intro!: asked[OF stepped[OF stepped[OF asked[OF fresh idle_valid(1)]]] idle_valid(2)])

text \<open>C24: With prefix caching the progress property fails: after one request has finished, its cached
  block is held only by the cache and could be evicted, but admission counts free blocks only.
  A second request that fits into the pool is never admitted; every further step changes nothing
  and waiting for it never ends.\<close>

theorem engine_cache_idles:
  "\<exists>e. idle_engine = Inr e \<and> engine_run toy_platform toy_model 1 2 True e \<and> has_work e
    \<and> fits 1 2 cached_request \<and> fits 1 2 blocked_request
    \<and> (\<exists>x \<in> set (entries (e_manager e)). evictable (e_manager e) x)
    \<and> (\<forall>n. run_steps toy_platform toy_model n e = Inr e) \<and> drive toy_platform toy_model 1 e = None"
proof -
  have "(case idle_engine of Inl _ \<Rightarrow> False | Inr e \<Rightarrow> e_running e = [] \<and> e_waiting e = [1]
      \<and> list_ex (evictable (e_manager e)) (entries (e_manager e))
      \<and> (case e_sequences e 1 of None \<Rightarrow> False | Some s \<Rightarrow>
          \<not> can_append (e_manager e) (es_blocks s) (admit_need s) \<and> es_status s \<noteq> Finished))"
    by code_simp
  then obtain e s where e: "idle_engine = Inr e" "e_running e = []" "e_waiting e = [1]" "e_sequences e 1 = Some s"
    "\<not> can_append (e_manager e) (es_blocks s) (admit_need s)" "es_status s \<noteq> Finished"
    and ev: "\<exists>x \<in> set (entries (e_manager e)). evictable (e_manager e) x"
    by (auto simp: list_ex_iff split: sum.splits option.splits)
  have "stalled 1 e" using e by (simp add: stalled_def)
  moreover have "fits 1 2 cached_request" "fits 1 2 blocked_request" by code_simp+
  moreover have "has_work e" using e(3) by (simp add: has_work_def)
  ultimately show ?thesis using ev e(1) idle_run[OF e(1)] stalled_steps stalled_drive by blast
qed

section \<open>Witnesses\<close>

lemma toy_asked_state:
  "\<exists>e. toy_asked False = Inr e \<and> engine_run toy_platform toy_model 2 3 False e \<and> e_max_batch e = 2 \<and> has_work e
    \<and> all_fit 2 3 e \<and> remaining e = 2"
proof -
  have "(case toy_asked False of Inl _ \<Rightarrow> False | Inr e \<Rightarrow> has_work e \<and> e_max_batch e = 2)" by code_simp
  then obtain e where e: "toy_asked False = Inr e" "has_work e" "e_max_batch e = 2" by (auto split: sum.splits)
  have w: "work e = [0 \<mapsto> (toy_request, [])]" "e_next_id e = 1"
    using e(1) by (auto simp: toy_asked_def res_bind_eq_Inr engine_new_def add_request_def Let_def work_def fun_eq_iff split: if_splits)
  have "fits 2 3 toy_request" "out_bound toy_request = 2" by code_simp+
  then have "all_fit 2 3 e" "remaining e = 2" by (auto simp: all_fit_def w remaining_def eids_def split: if_splits)
  then show ?thesis using e toy_asked_run[OF e(1)] by blast
qed

lemma engine_progress_witness:
  "\<exists>e A e'. toy_asked False = Inr e \<and> step toy_platform toy_model e = Inr e' \<and> advanced A e e' \<and> A \<noteq> {}"
proof -
  from toy_asked_state obtain e where e: "toy_asked False = Inr e" "engine_run toy_platform toy_model 2 3 False e"
    "e_max_batch e = 2" "has_work e" "all_fit 2 3 e" by blast
  from engine_progress[OF e(2) toy_setup _ e(4,5)] e(1,3) show ?thesis by auto
qed

lemma engine_drains_witness:
  "\<exists>e n e'. toy_asked False = Inr e \<and> n \<le> 2 \<and> run_steps toy_platform toy_model n e = Inr e' \<and> \<not> has_work e' \<and> free_blocks (e_manager e') = 3"
proof -
  from toy_asked_state obtain e where e: "toy_asked False = Inr e" "engine_run toy_platform toy_model 2 3 False e"
    "e_max_batch e = 2" "all_fit 2 3 e" "remaining e = 2" by blast
  from engine_drains[OF e(2) toy_setup _ e(4)] e(1,3,5) show ?thesis by auto
qed

lemma engine_generate_returns_witness:
  "\<exists>e out e'. toy_asked False = Inr e
    \<and> generate toy_platform toy_model [1, 0] \<lparr>temperature = 0, top_k = 0, top_p = f64_one\<rparr> 2 (-1) e = Some (Inr (out, e'))
    \<and> 0 < length out \<and> length out \<le> 2"
proof -
  from toy_asked_state obtain e where e: "toy_asked False = Inr e" "engine_run toy_platform toy_model 2 3 False e"
    "e_max_batch e = 2" "all_fit 2 3 e" by blast
  have f: "fits 2 3 toy_request" by code_simp
  from engine_generate_returns[OF e(2) toy_setup _ e(4) toy_request_def toy_valid _ f] e(1,3) show ?thesis by auto
qed

lemma engine_oversized_hangs_witness:
  "\<exists>e. engine_new toy_model 1 2 (7::nat) 2 False = Inr e
    \<and> generate toy_platform toy_model [0, 0, 0] \<lparr>temperature = 0, top_k = 0, top_p = f64_one\<rparr> 1 (-1) e = None"
proof -
  have ok: "setup_ok toy_platform toy_model 1" using toy_setup by (simp add: setup_ok_def)
  from ok have "model_ok toy_model" "0 < n_layers toy_model" "0 < (1::nat)" by (auto simp: setup_ok_def)
  from engine_new_ok[OF this, of 2 7 2 False] obtain e where e: "engine_new toy_model (int 1) (int 2) (7::nat) 2 False = Inr e" by blast
  have "2 < nblk 1 (length [0, 0, 0::int])" by code_simp
  from engine_oversized_hangs[OF e ok _ this] e show ?thesis by auto
qed

end
