(* ===== verification/Engine_Bounds.thy ===== *)
theory Engine_Bounds
  imports Engine_Live
begin

text \<open>The size of the running list, of the outputs and of the block tables in every run.\<close>

section \<open>The running list\<close>

text \<open>No call makes the running list longer than the batch cap.\<close>

definition within_cap :: "'g engine \<Rightarrow> bool" where
  "within_cap e \<longleftrightarrow> int (length (e_running e)) \<le> max 0 (e_max_batch e)"

lemma admit_cap: "admit q e = Inr e' \<Longrightarrow> within_cap e \<Longrightarrow> within_cap e' \<and> e_max_batch e' = e_max_batch e"
proof (induction q arbitrary: e)
  case (Cons i rest)
  consider "e' = e\<lparr>e_waiting := i # rest\<rparr>"
    | s where "int (length (e_running e)) < e_max_batch e"
        "admit rest (seq_set i (s\<lparr>es_status := Running\<rparr>) (e\<lparr>e_running := e_running e @ [i]\<rparr>)) = Inr e'"
    using Cons.prems(1) by (auto simp: res_bind_eq_Inr split: if_splits)
  then show ?case
  proof cases
    case 2
    then show ?thesis using Cons.IH[OF 2(2)] 2(1) by (auto simp: within_cap_def seq_set_def)
  qed (use Cons.prems in \<open>simp add: within_cap_def\<close>)
qed (auto simp: within_cap_def)

lemma share_cap: "share_prefix i e = Inr e' \<Longrightarrow> e_running e' = e_running e \<and> e_max_batch e' = e_max_batch e"
  by (auto simp: share_prefix_def res_bind_eq_Inr Let_def seq_set_def split: if_splits)

lemma assemble_cap: "assemble e = Inr (budget, ents, e') \<Longrightarrow> e_running e' = e_running e \<and> e_max_batch e' = e_max_batch e"
  unfolding assemble_def
  by (drule res_fold_inv[where P = "\<lambda>st. e_running (snd (snd st)) = e_running e \<and> e_max_batch (snd (snd st)) = e_max_batch e"])
     (auto simp: assemble_item_def res_bind_eq_Inr Let_def dest!: share_cap split: if_splits)

lemma preempt_cap: "preempt_youngest e = Inr (freed, e') \<Longrightarrow> length (e_running e') \<le> length (e_running e) \<and> e_max_batch e' = e_max_batch e"
  using preempt_running[of e e']
  by (auto simp: preempt_youngest_def res_bind_eq_Inr seq_set_def erase_at_def split: option.splits)

lemma build_cap: "build_batch e = Inr (ents, e') \<Longrightarrow> length (e_running e') \<le> length (e_running e) \<and> e_max_batch e' = e_max_batch e"
proof (induction e arbitrary: ents e' rule: build_batch.induct)
  case (1 e)
  from "1.prems" obtain budget en e1 where a: "assemble e = Inr (budget, en, e1)"
    by (auto simp: build_batch.simps[of e] res_bind_eq_Inr)
  note c = assemble_cap[OF a]
  show ?case
  proof (cases "en \<noteq> [] \<or> length (e_running e1) \<le> 1")
    case True
    then show ?thesis using "1.prems" a c by (auto simp: build_batch.simps[of e])
  next
    case False
    with "1.prems" a obtain freed e2 where p: "preempt_youngest e1 = Inr (freed, e2)"
      by (auto simp: build_batch.simps[of e] res_bind_eq_Inr)
    note c2 = preempt_cap[OF p]
    show ?thesis
    proof (cases freed)
      case True
      then have "build_batch e2 = Inr (ents, e')" using "1.prems" a p False by (simp add: build_batch.simps[of e])
      from "1.IH"[OF a refl refl _ p refl _ this] True False c c2 show ?thesis by auto
    qed (use "1.prems" a p False c c2 in \<open>auto simp: build_batch.simps[of e]\<close>)
  qed
qed

lemma sample_item_cap:
  assumes "sample_item P m logits kb st = Inr st'"
  shows "e_running (snd st') = e_running (snd st) \<and> e_max_batch (snd st') = e_max_batch (snd st)"
  using assms by (auto simp: sample_item_def res_bind_eq_Inr Let_def seq_set_def split: prod.splits if_splits)

lemma still_running_shorter: "still_running e l = Inr r \<Longrightarrow> length r \<le> length l"
  by (induction l arbitrary: r) (fastforce simp: res_bind_eq_Inr split: if_splits)+

lemma run_batch_cap:
  assumes "run_batch P m ents e = Inr e'"
  shows "length (e_running e') \<le> length (e_running e) \<and> e_max_batch e' = e_max_batch e"
proof -
  from assms obtain logits st mgr af e1 where
    f: "res_fold (sample_item P m logits) (enumerate 0 ents) (False, (put_blocks st e)\<lparr>e_manager := mgr\<rparr>) = Inr (af, e1)" and
    r: "(if af then res_bind (still_running e1 (e_running e1)) (\<lambda>r. Inr (e1\<lparr>e_running := r\<rparr>)) else Inr e1) = Inr e'"
    by (auto simp: run_batch_def res_bind_eq_Inr split: prod.splits)
  from f have "e_running e1 = e_running e \<and> e_max_batch e1 = e_max_batch e"
    by (drule_tac res_fold_inv[where P = "\<lambda>st. e_running (snd st) = e_running e \<and> e_max_batch (snd st) = e_max_batch e"])
       (auto simp: put_blocks_def dest: sample_item_cap)
  then show ?thesis using r by (auto simp: res_bind_eq_Inr dest: still_running_shorter split: if_splits)
qed

lemma step_cap:
  assumes "step P m e = Inr e'" "within_cap e"
  shows "within_cap e'"
proof -
  from assms(1) obtain e1 ents e2 where s: "admit (e_waiting e) e = Inr e1" "build_batch e1 = Inr (ents, e2)"
    "(if ents = [] then Inr e2 else run_batch P m ents e2) = Inr e'"
    by (auto simp: step_def res_bind_eq_Inr split: prod.splits)
  from admit_cap[OF s(1) assms(2)] build_cap[OF s(2)] s(3) run_batch_cap[of P m ents e2 e']
  show ?thesis by (auto simp: within_cap_def split: if_splits)
qed

lemma run_cap: "engine_run P m bs nb pc e \<Longrightarrow> within_cap e"
proof (induction rule: engine_run.induct)
  case (asked e rq i e')
  then show ?case by (auto simp: add_request_def Let_def within_cap_def split: if_splits)
next
  case (stepped e e')
  then show ?case using step_cap by blast
qed (auto simp: engine_new_def res_bind_eq_Inr Let_def within_cap_def)

text \<open>C10: Resources stay bounded in every run of valid requests (with prefix caching on, if the hashes
  of its contexts differ): at most \<open>max_batch\<close> sequences run, an output has at most
  \<open>max_tokens\<close> tokens (one, if that is not positive) and they are tokens of the vocabulary, and
  a sequence holds exactly the blocks its cached rows need, never more than the pool has.\<close>

theorem engine_bounds:
  assumes "engine_run P m bs nb pc e" "setup_ok P m bs" "pc \<longrightarrow> inj_on chain_hash (all_chains bs e)"
  shows "int (length (e_running e)) \<le> max 0 (e_max_batch e)
    \<and> (\<forall>i s. e_sequences e i = Some s \<longrightarrow>
        int (length (es_output s)) \<le> max 1 (rq_max_tokens (es_request s))
      \<and> (\<forall>t \<in> set (es_output s). 0 \<le> t \<and> t < int (n_vocab m))
      \<and> 0 \<le> seq_length (es_blocks s) \<and> seq_length (es_blocks s) \<le> int (length (rq_prompt (es_request s)) + length (es_output s))
      \<and> length (block_table (es_blocks s)) = nblk bs (nat (seq_length (es_blocks s)))
      \<and> set (block_table (es_blocks s)) \<subseteq> {0..<int nb})"
proof -
  from run_inv_all[OF assms] have I: "eng_inv P m bs nb (all_chains bs e) {} {} e" by blast
  note D = eng_invD[OF I] and B = bm_shapeD[OF eng_invD(1)[OF I]]
  have inv: "seqs_inv (e_manager e) (store_tables (block_store e) (eids e))" using D(2) by (simp add: store_inv_def)
  have "int (length (es_output s)) \<le> max 1 (rq_max_tokens (es_request s))
      \<and> (\<forall>t \<in> set (es_output s). 0 \<le> t \<and> t < int (n_vocab m))
      \<and> 0 \<le> seq_length (es_blocks s) \<and> seq_length (es_blocks s) \<le> int (length (rq_prompt (es_request s)) + length (es_output s))
      \<and> length (block_table (es_blocks s)) = nblk bs (nat (seq_length (es_blocks s)))
      \<and> set (block_table (es_blocks s)) \<subseteq> {0..<int nb}" if s: "e_sequences e i = Some s" for i s
  proof -
    from D(5)[OF s] obtain n where r: "request_ok P m s" and n: "table_holds P m bs (e_manager e) n (es_blocks s) (es_context s)"
      by (auto simp: seq_ok_def)
    have o: "int (length (es_output s)) \<le> max 1 (rq_max_tokens (es_request s))"
      using out_bounded[of P m "es_request s" "es_output s"] r by (auto simp: request_ok_def out_bound_def)
    have v: "\<forall>t \<in> set (es_output s). 0 \<le> t \<and> t < int (n_vocab m)"
      using r by (auto simp: request_ok_def es_context_def ids_ok_def)
    have "block_table (es_blocks s) \<in> set (store_tables (block_store e) (eids e))"
      using eng_inv_ids[OF I s] s by (force simp: store_tables_def block_store_def)
    from seqs_inv_table_ok[OF inv this B(5)] have "set (block_table (es_blocks s)) \<subseteq> {0..<int nb}" by (auto simp: table_ok_def)
    then show ?thesis using o v n by (auto simp: table_holds_def es_context_def)
  qed
  then show ?thesis using run_cap[OF assms(1)] unfolding within_cap_def by blast
qed

lemma engine_bounds_witness:
  "\<exists>e. toy_served True = Inr e \<and> int (length (e_running e)) \<le> max 0 (e_max_batch e)"
proof -
  from toy_served_state obtain e where e: "toy_served True = Inr e" "engine_run toy_platform toy_model 2 3 True e"
    "all_chains 2 e \<subseteq> {[], [[1, 0]]}" by blast
  from engine_bounds[OF e(2) toy_setup toy_served_hash[OF e(3)]] e(1) show ?thesis by blast
qed

end
