(* ===== verification/Tensor_Parallel.thy ===== *)
theory Tensor_Parallel
  imports Sample_Arith
begin

text \<open>
  \<open>tensor_parallel.cpp\<close>: splitting a matrix into shards by rows or columns, putting column
  shards together again and summing partial results.
\<close>

definition copy_shard :: "tensor \<Rightarrow> int \<Rightarrow> int \<Rightarrow> nat \<Rightarrow> tensor res" where
  "copy_shard m per cols s =
     res_bind (tensor_zeros [per, cols]) (\<lambda>part.
     res_bind (memcpy (t_data part) 0 (t_data m) (int s * per * cols) (per * cols)) (\<lambda>d. Inr (part\<lparr>t_data := d\<rparr>)))"

definition split_rows :: "tensor \<Rightarrow> int \<Rightarrow> tensor list res" where
  "split_rows m shards =
     (if ndim m \<noteq> 2 then Inl (InvalidArgument ''split_rows: expects a 2D tensor'')
      else res_bind (dim m 0) (\<lambda>rs. res_bind (dim m 1) (\<lambda>cols.
        if shards \<le> 0 \<or> rs smod shards \<noteq> 0
        then Inl (InvalidArgument ''split_rows: rows must be divisible by shards'')
        else res_mapM (copy_shard m (rs sdiv shards) cols) [0..<nat shards])))"

definition copy_columns :: "tensor \<Rightarrow> int \<Rightarrow> int \<Rightarrow> int \<Rightarrow> nat \<Rightarrow> tensor res" where
  "copy_columns m rs cols per s =
     res_bind (tensor_zeros [rs, per]) (\<lambda>part.
     res_bind (res_fold (\<lambda>r d. memcpy d (int r * per) (t_data m) (int r * cols + int s * per) per) [0..<nat rs] (t_data part))
       (\<lambda>d. Inr (part\<lparr>t_data := d\<rparr>)))"

definition split_columns :: "tensor \<Rightarrow> int \<Rightarrow> tensor list res" where
  "split_columns m shards =
     (if ndim m \<noteq> 2 then Inl (InvalidArgument ''split_columns: expects a 2D tensor'')
      else res_bind (dim m 0) (\<lambda>rs. res_bind (dim m 1) (\<lambda>cols.
        if shards \<le> 0 \<or> cols smod shards \<noteq> 0
        then Inl (InvalidArgument ''split_columns: cols must be divisible by shards'')
        else res_mapM (copy_columns m rs cols (cols sdiv shards)) [0..<nat shards])))"

definition count_columns :: "int \<Rightarrow> tensor \<Rightarrow> int \<Rightarrow> int res" where
  "count_columns rs p tc =
     (if ndim p \<noteq> 2 then Inl (InvalidArgument ''concat_columns: parts must share the row count'')
      else res_bind (dim p 0) (\<lambda>r. if r \<noteq> rs then Inl (InvalidArgument ''concat_columns: parts must share the row count'')
           else res_bind (dim p 1) (\<lambda>c. Inr (tc + c))))"

text \<open>One output row: the parts' rows side by side, with the running column.\<close>

definition concat_row :: "tensor list \<Rightarrow> int \<Rightarrow> nat \<Rightarrow> f32 list \<Rightarrow> f32 list res" where
  "concat_row parts total_cols r d =
     res_bind (res_fold (\<lambda>p (d, col). res_bind (dim p 1) (\<lambda>pc.
         res_bind (memcpy d (int r * total_cols + col) (t_data p) (int r * pc) pc) (\<lambda>d. Inr (d, col + pc)))) parts (d, 0))
       (\<lambda>(d, col). Inr d)"

definition concat_columns :: "tensor list \<Rightarrow> tensor res" where
  "concat_columns parts =
     (if parts = [] then Inl (InvalidArgument ''concat_columns: no parts'')
      else res_bind (dim (hd parts) 0) (\<lambda>rs.
        res_bind (res_fold (count_columns rs) parts 0) (\<lambda>total_cols.
        res_bind (tensor_zeros [rs, total_cols]) (\<lambda>out.
        res_bind (res_fold (concat_row parts total_cols) [0..<nat rs] (t_data out)) (\<lambda>d.
          Inr (out\<lparr>t_data := d\<rparr>))))))"

definition sum_parts :: "fpu \<Rightarrow> tensor list \<Rightarrow> tensor res" where
  "sum_parts F parts =
     (if parts = [] then Inl (InvalidArgument ''sum: no parts'')
      else let n = numel (hd parts) in
        res_bind (tensor_zeros (t_shape (hd parts))) (\<lambda>out.
        res_bind (memcpy (t_data out) 0 (t_data (hd parts)) 0 n) (\<lambda>d.
        res_bind (res_fold (\<lambda>p d. if numel p \<noteq> n then Inl (InvalidArgument ''sum: parts must share shape'')
                                   else Inr (map2 (f_add F) d (t_data p))) (tl parts) d) (\<lambda>d.
          Inr (out\<lparr>t_data := d\<rparr>)))))"

section \<open>Splitting by columns\<close>

lemma split_columns_rows:
  assumes x: "rect r (k * per) xss" and k: "0 < k"
  shows "split_columns (mk_mat r (k * per) xss) (int k) =
    Inr (map (\<lambda>s. mk_mat r per (map (\<lambda>x. row per s x) xss)) [0..<k])"
proof -
  let ?m = "mk_mat r (k * per) xss"
  have "copy_columns ?m (int r) (int (k * per)) (int per) s = Inr (mk_mat r per (map (\<lambda>x. row per s x) xss))"
    if s: "s < k" for s
  proof -
    have "res_fold (\<lambda>i d. memcpy d (int i * int per) (concat xss) (int i * int (k * per) + int s * int per) (int per))
        [0..<r] (replicate (r * per) 0) = Inr (concat (map (\<lambda>i. row per s (xss ! i)) [0..<r]))"
    proof (rule res_fold_fill)
      fix i and d :: "f32 list" assume i: "i < r" and d: "length d = r * per"
      have b: "i * per + per \<le> length d" using row_in_bounds[OF i, of per] d by simp
      have sb: "s * per + per \<le> k * per" using row_in_bounds[OF s, of per "k * per"] by simp
      have c: "i * (k * per) + s * per + per \<le> length (concat xss)"
        using row_in_bounds[OF i, of "k * per" "r * (k * per)"] rect_data_length[OF x] sb by simp
      have "slice (s * per) per (xss ! i) = slice (i * (k * per) + s * per) per (concat xss)"
        using rect_row[OF x i] slice_slice[of "s * per" per "k * per" "i * (k * per)" "concat xss"] sb by (simp add: row_def)
      then show "memcpy d (int i * int per) (concat xss) (int i * int (k * per) + int s * int per) (int per)
          = Inr (blit (i * per) (row per s (xss ! i)) d)"
        using memcpy_ok[OF b c] by (simp add: row_def)
    next
      fix i assume i: "i < r"
      show "length (row per s (xss ! i)) = per" using length_row[of k per "xss ! i" s] rect_nth[OF x i] s by simp
    qed simp
    moreover have "map (\<lambda>i. row per s (xss ! i)) [0..<r] = map (\<lambda>x. row per s x) xss"
      using rect_length[OF x] by (intro nth_equalityI) auto
    ultimately show ?thesis by (simp add: copy_columns_def tensor_zeros_mat)
  qed
  then have "res_mapM (copy_columns ?m (int r) (int (k * per)) (int per)) [0..<k] =
      Inr (map (\<lambda>s. mk_mat r per (map (\<lambda>x. row per s x) xss)) [0..<k])"
    by (intro res_mapM_ok) simp
  moreover have "int (k * per) sdiv int k = int per" "int (k * per) smod int k = 0" using k by simp_all
  ultimately show ?thesis using k by (simp add: split_columns_def)
qed

text \<open>One output row is the parts' rows side by side.\<close>

lemma concat_row_ok:
  assumes "\<forall>p \<in> set ps. \<exists>c. mat n c p" "r < n" "length d = n * tc"
    and "0 \<le> tc" "sum_list (map (\<lambda>p. nat (t_shape p ! 1)) ps) = tc"
  shows "concat_row ps (int tc) r d = Inr (blit (r * tc) (concat (map (\<lambda>p. row (nat (t_shape p ! 1)) r (t_data p)) ps)) d)"
proof -
  have bd: "r * tc + tc \<le> n * tc" using row_in_bounds[OF assms(2), of tc "n * tc"] by simp
  have gen: "\<exists>col. res_fold (\<lambda>p (d, col). res_bind (dim p 1) (\<lambda>pc.
         res_bind (memcpy d (int r * int tc + col) (t_data p) (int r * pc) pc) (\<lambda>d. Inr (d, col + pc)))) ps' (blit (r * tc) pre d, int (length pre))
      = Inr (blit (r * tc) (pre @ concat (map (\<lambda>p. row (nat (t_shape p ! 1)) r (t_data p)) ps')) d, col)"
    if "\<forall>p \<in> set ps'. \<exists>c. mat n c p" "length pre + sum_list (map (\<lambda>p. nat (t_shape p ! 1)) ps') \<le> tc" for ps' pre
    using that
  proof (induction ps' arbitrary: pre)
    case (Cons p ps')
    then obtain c where c: "mat n c p" by auto
    note M = mat_dims[OF c]
    let ?r = "row c r (t_data p)"
    have lr: "length ?r = c" using length_row[of n c "t_data p" r] M(6) assms(2) by simp
    have lp: "length pre + c \<le> tc" using Cons.prems(2) M(5) by simp
    have lb: "length (blit (r * tc) pre d) = length d" using bd lp assms(3) by simp
    have b1: "r * tc + length pre + c \<le> length (blit (r * tc) pre d)" unfolding lb assms(3) using bd lp by linarith
    have b2: "r * c + c \<le> length (t_data p)" using row_in_bounds[OF assms(2), of c] M(6) by simp
    have "memcpy (blit (r * tc) pre d) (int r * int tc + int (length pre)) (t_data p) (int r * int c) (int c)
        = Inr (blit (r * tc + length pre) ?r (blit (r * tc) pre d))"
      using memcpy_ok[OF b1 b2] by (simp add: row_def)
    moreover have "blit (r * tc + length pre) ?r (blit (r * tc) pre d) = blit (r * tc) (pre @ ?r) d"
      using b1 lb by (intro blit_append) simp
    moreover have "length (pre @ ?r) + sum_list (map (\<lambda>p. nat (t_shape p ! 1)) ps') \<le> tc"
      using Cons.prems(2) M(5) lr by simp
    ultimately show ?case using Cons.IH[of "pre @ ?r"] Cons.prems(1) M(3,5) lr by simp
  qed (auto)
  have "blit (r * tc) [] d = d" by (simp add: blit_def)
  with gen[of ps "[]"] assms(1,5) show ?thesis by (auto simp: concat_row_def)
qed

lemma count_columns_ok:
  "\<forall>p \<in> set ps. \<exists>c. mat n c p \<Longrightarrow>
   res_fold (count_columns (int n)) ps (int t) = Inr (int (t + sum_list (map (\<lambda>p. nat (t_shape p ! 1)) ps)))"
proof (induction ps arbitrary: t)
  case (Cons p ps)
  then obtain c where "mat n c p" by auto
  then show ?case using Cons.IH[of "t + c"] Cons.prems mat_dims[of n c p] by (simp add: count_columns_def add.assoc)
qed simp

lemma concat_columns_ok:
  assumes "ps \<noteq> []" "\<forall>p \<in> set ps. \<exists>c. mat n c p"
  defines "tc \<equiv> sum_list (map (\<lambda>p. nat (t_shape p ! 1)) ps)"
  shows "concat_columns ps = Inr (mk_mat n tc (map (\<lambda>r. concat (map (\<lambda>p. row (nat (t_shape p ! 1)) r (t_data p)) ps)) [0..<n]))"
proof -
  obtain c where c: "mat n c (hd ps)" using assms(1,2) by (meson hd_in_set)
  have lr: "length (concat (map (\<lambda>p. row (nat (t_shape p ! 1)) r (t_data p)) ps)) = tc" if "r < n" for r
  proof -
    have "length (row (nat (t_shape p ! 1)) r (t_data p)) = nat (t_shape p ! 1)" if "p \<in> set ps" for p
    proof -
      obtain c where "mat n c p" using \<open>p \<in> set ps\<close> assms(2) by auto
      then show ?thesis using mat_dims[of n c p] length_row[of n c "t_data p" r] \<open>r < n\<close> by simp
    qed
    then have "map (length \<circ> (\<lambda>p. row (nat (t_shape p ! 1)) r (t_data p))) ps = map (\<lambda>p. nat (t_shape p ! 1)) ps"
      by (intro map_cong) auto
    then show ?thesis unfolding tc_def length_concat map_map by (rule arg_cong)
  qed
  have "res_fold (concat_row ps (int tc)) [0..<n] (replicate (n * tc) 0) =
      Inr (concat (map (\<lambda>r. concat (map (\<lambda>p. row (nat (t_shape p ! 1)) r (t_data p)) ps)) [0..<n]))"
  proof (rule res_fold_fill)
    fix r and d :: "f32 list" assume "r < n" "length d = n * tc"
    then show "concat_row ps (int tc) r d = Inr (blit (r * tc) (concat (map (\<lambda>p. row (nat (t_shape p ! 1)) r (t_data p)) ps)) d)"
      by (intro concat_row_ok[OF assms(2)]) (simp_all add: tc_def)
  qed (use lr in simp_all)
  moreover have "res_fold (count_columns (int n)) ps 0 = Inr (int tc)"
    using count_columns_ok[OF assms(2), of 0] by (simp add: tc_def)
  ultimately show ?thesis
    using assms(1) mat_dims(2)[OF c] by (simp add: concat_columns_def tensor_zeros_mat)
qed

section \<open>Splitting by rows\<close>

lemma slice_concat_rect:
  assumes "rect n w xss" "a + k \<le> n"
  shows "slice (a * w) (k * w) (concat xss) = concat (take k (drop a xss))"
proof -
  have l: "length (concat (take j xss)) = j * w" if "j \<le> n" for j
    using that assms(1) rect_data_length[of j w "take j xss"] by (auto simp: rect_def dest: in_set_takeD)
  have d: "drop (a * w) (concat xss) = concat (drop a xss)"
    using l[of a] assms(2) by (metis append_eq_conv_conj append_take_drop_id concat_append le_add1 le_trans)
  have "length (concat (take k (drop a xss))) = k * w"
    using assms rect_data_length[of k w "take k (drop a xss)"]
    by (auto simp: rect_def dest!: in_set_takeD in_set_dropD)
  then have "take (k * w) (concat (drop a xss)) = concat (take k (drop a xss))"
    by (metis append_eq_conv_conj append_take_drop_id concat_append)
  then show ?thesis by (simp add: slice_def d)
qed

definition block :: "nat \<Rightarrow> nat \<Rightarrow> 'a list \<Rightarrow> 'a list" where
  "block per s xss = take per (drop (s * per) xss)"

lemma rect_block: "rect (k * per) w xss \<Longrightarrow> s < k \<Longrightarrow> rect per w (block per s xss)"
  using row_in_bounds[of s k per "k * per"] by (auto simp: rect_def block_def dest!: in_set_takeD in_set_dropD)

lemma split_rows_rows:
  assumes x: "rect (k * per) c xss" and k: "0 < k"
  shows "split_rows (mk_mat (k * per) c xss) (int k) = Inr (map (\<lambda>s. mk_mat per c (block per s xss)) [0..<k])"
proof -
  let ?m = "mk_mat (k * per) c xss"
  have "copy_shard ?m (int per) (int c) s = Inr (mk_mat per c (block per s xss))" if s: "s < k" for s
  proof -
    have sb: "s * per + per \<le> k * per" using row_in_bounds[OF s, of per "k * per"] by simp
    then have "(s * per + per) * c \<le> (k * per) * c" by (rule mult_le_mono1)
    then have b: "s * per * c + per * c \<le> length (concat xss)" using rect_data_length[OF x] by (simp add: distrib_right)
    have sl: "slice (s * per * c) (per * c) (concat xss) = concat (block per s xss)"
      using slice_concat_rect[OF x sb] by (simp add: block_def)
    have lb: "length (concat (block per s xss)) = per * c" using rect_data_length[OF rect_block[OF x s]] .
    have "memcpy (replicate (per * c) 0) (int 0) (concat xss) (int (s * per * c)) (int (per * c))
        = Inr (blit 0 (slice (s * per * c) (per * c) (concat xss)) (replicate (per * c) 0))"
      using b by (intro memcpy_ok) auto
    then have "memcpy (replicate (per * c) 0) 0 (concat xss) (int s * int per * int c) (int per * int c) = Inr (concat (block per s xss))"
      using lb by (simp add: sl blit_def)
    then show ?thesis by (simp add: copy_shard_def tensor_zeros_mat)
  qed
  then have "res_mapM (copy_shard ?m (int per) (int c)) [0..<k] = Inr (map (\<lambda>s. mk_mat per c (block per s xss)) [0..<k])"
    by (intro res_mapM_ok) simp
  moreover have "int (k * per) sdiv int k = int per" "int (k * per) smod int k = 0" using k by simp_all
  ultimately show ?thesis using k by (simp add: split_rows_def)
qed

lemma concat_blocks: "length xss = k * per \<Longrightarrow> concat (map (\<lambda>s. block per s xss) [0..<k]) = xss"
proof (induction k arbitrary: xss)
  case (Suc k)
  have eq: "map (\<lambda>s. block per s xss) [0..<k] = map (\<lambda>s. block per s (take (k * per) xss)) [0..<k]"
  proof (rule map_cong)
    fix s assume "s \<in> set [0..<k]"
    then have "s * per + per \<le> k * per" using row_in_bounds[of s k per "k * per"] by simp
    then show "block per s xss = block per s (take (k * per) xss)" by (simp add: block_def drop_take min_def)
  qed simp
  have "concat (map (\<lambda>s. block per s xss) [0..<k]) = take (k * per) xss"
    unfolding eq using Suc.IH[of "take (k * per) xss"] Suc.prems by simp
  moreover have "block per k xss = drop (k * per) xss" using Suc.prems by (simp add: block_def)
  ultimately show ?case by simp
qed simp

section \<open>Properties\<close>

lemma split_columns_back:
  assumes "mat r (k * per) t" "0 < k"
  shows "\<exists>ps. split_columns t (int k) = Inr ps \<and> length ps = k \<and> (\<forall>p \<in> set ps. mat r per p) \<and> concat_columns ps = Inr t"
proof -
  from mat_rect[OF assms(1)] obtain xss where x: "rect r (k * per) xss" "t = mk_mat r (k * per) xss" by blast
  let ?ps = "map (\<lambda>s. mk_mat r per (map (\<lambda>x. row per s x) xss)) [0..<k]"
  have rp: "rect r per (map (\<lambda>x. row per s x) xss)" if "s < k" for s
    using x(1) that by (intro rect_map) (auto simp: length_row[of k])
  have mp: "\<forall>p \<in> set ?ps. mat r per p" using rect_mat[OF rp] by fastforce
  then have m: "\<forall>p \<in> set ?ps. \<exists>c. mat r c p" by blast
  have tot: "sum_list (map (\<lambda>p. nat (t_shape p ! 1)) ?ps) = k * per"
    by (simp add: comp_def sum_list_triv)
  have rw: "concat (map (\<lambda>p. row (nat (t_shape p ! 1)) i (t_data p)) ?ps) = xss ! i" if i: "i < r" for i
  proof -
    have eq: "map (\<lambda>p. row (nat (t_shape p ! 1)) i (t_data p)) ?ps = rows per k (xss ! i)"
      using rect_row[OF rp i] i rect_length[OF x(1)] by (auto simp: rows_def)
    show ?thesis unfolding eq using concat_rows[of "xss ! i" k per] rect_nth[OF x(1) i] by simp
  qed
  have eq: "map (\<lambda>i. concat (map (\<lambda>p. row (nat (t_shape p ! 1)) i (t_data p)) ?ps)) [0..<r] = xss"
    using rw rect_length[OF x(1)] by (intro nth_equalityI) auto
  have "concat_columns ?ps = Inr (mk_mat r (k * per) xss)"
    using concat_columns_ok[OF _ m] assms(2) unfolding tot eq by simp
  then show ?thesis using split_columns_rows[OF x(1) assms(2)] mp by (intro exI[of _ ?ps]) (simp add: x(2))
qed

lemma split_rows_back:
  assumes "mat (k * per) c t" "0 < k"
  shows "\<exists>ps. split_rows t (int k) = Inr ps \<and> length ps = k \<and> (\<forall>p \<in> set ps. mat per c p) \<and> concat (map t_data ps) = t_data t"
proof -
  from mat_rect[OF assms(1)] obtain xss where x: "rect (k * per) c xss" "t = mk_mat (k * per) c xss" by blast
  let ?ps = "map (\<lambda>s. mk_mat per c (block per s xss)) [0..<k]"
  have m: "\<forall>p \<in> set ?ps. mat per c p" using rect_mat[OF rect_block[OF x(1)]] by fastforce
  have cc: "concat (map concat zs) = concat (concat zs)" for zs :: "f32 list list list" by (induction zs) simp_all
  have "map t_data ?ps = map concat (map (\<lambda>s. block per s xss) [0..<k])" by simp
  then have "concat (map t_data ?ps) = concat (concat (map (\<lambda>s. block per s xss) [0..<k]))" by (simp only: cc)
  then have "concat (map t_data ?ps) = t_data t" using concat_blocks[OF rect_length[OF x(1)]] by (simp add: x(2))
  then show ?thesis using split_rows_rows[OF x(1) assms(2)] m by (intro exI[of _ ?ps]) (simp add: x(2))
qed

text \<open>Column-parallel linear without a bias: the weight is split by rows, every shard runs, and the
  outputs are put side by side. Row \<open>q\<close> of the result is the products of row \<open>q\<close> of the input with
  the blocks of the weight, one after the other. Whether they are the bits of one product with
  the whole weight depends on how Eigen blocks it; the repository asks for \<open>1e-4\<close>.\<close>

lemma column_parallel_linear:
  assumes "eigen_rowwise E" "rect s i xss" "rect (k * per) i wss" "0 < k"
  shows "res_bind (split_rows (mk_mat (k * per) i wss) (int k)) (\<lambda>ws.
      res_bind (res_mapM (\<lambda>w'. linear E (mk_mat s i xss) w' tensor_empty) ws) concat_columns)
    = Inr (mk_mat s (k * per) (map (\<lambda>x. concat (map (\<lambda>j. mul_nt E 1 i per x (concat (block per j wss))) [0..<k])) xss))"
proof -
  let ?y = "\<lambda>j. map (\<lambda>r. mul_nt E 1 i per r (concat (block per j wss))) xss"
  let ?ps = "map (\<lambda>j. mk_mat s per (?y j)) [0..<k]"
  have b: "bias_ok n tensor_empty" for n by (simp add: bias_ok_def)
  have lr: "lin_row E i n v [] = (\<lambda>r. mul_nt E 1 i n r v)" for n v by (simp add: lin_row_def fun_eq_iff)
  have te: "t_data tensor_empty = []" by (simp add: tensor_empty_def)
  have "linear E (mk_mat s i xss) (mk_mat per i (block per j wss)) tensor_empty = Inr (mk_mat s per (?y j))" if "j < k" for j
    using linear_rows[OF assms(1,2) rect_mat[OF rect_block[OF assms(3) that]] b] by (simp add: te lr)
  then have lin: "res_mapM (\<lambda>w'. linear E (mk_mat s i xss) w' tensor_empty) (map (\<lambda>j. mk_mat per i (block per j wss)) [0..<k]) = Inr ?ps"
    using res_mapM_ok[of "[0..<k]" "\<lambda>j. linear E (mk_mat s i xss) (mk_mat per i (block per j wss)) tensor_empty" "\<lambda>j. mk_mat s per (?y j)"]
      res_mapM_map[of "\<lambda>w'. linear E (mk_mat s i xss) w' tensor_empty" "\<lambda>j. mk_mat per i (block per j wss)" "[0..<k]"] by simp
  have ry: "rect s per (?y j)" if "j < k" for j
    using assms(2) eigen_mul_len[OF assms(1)] rect_data_length[OF rect_block[OF assms(3) that]] by (intro rect_map) auto
  have m: "\<forall>p \<in> set ?ps. \<exists>c. mat s c p" using rect_mat[OF ry] by fastforce
  have tot: "sum_list (map (\<lambda>p. nat (t_shape p ! 1)) ?ps) = k * per" by (simp add: comp_def sum_list_triv)
  have "concat (map (\<lambda>p. row (nat (t_shape p ! 1)) q (t_data p)) ?ps)
      = concat (map (\<lambda>j. mul_nt E 1 i per (xss ! q) (concat (block per j wss))) [0..<k])" if q: "q < s" for q
    using rect_row[OF ry q] q rect_length[OF assms(2)] by (intro arg_cong[where f = concat]) auto
  then have eq: "map (\<lambda>q. concat (map (\<lambda>p. row (nat (t_shape p ! 1)) q (t_data p)) ?ps)) [0..<s]
      = map (\<lambda>x. concat (map (\<lambda>j. mul_nt E 1 i per x (concat (block per j wss))) [0..<k])) xss"
    using rect_length[OF assms(2)] by (intro nth_equalityI) auto
  have "concat_columns ?ps = Inr (mk_mat s (k * per) (map (\<lambda>x. concat (map (\<lambda>j. mul_nt E 1 i per x (concat (block per j wss))) [0..<k])) xss))"
    using concat_columns_ok[OF _ m] assms(4) unfolding tot eq by simp
  then show ?thesis using split_rows_rows[OF assms(3,4)] lin by simp
qed

text \<open>C40: Sharding loses nothing. Splitting a matrix by columns into \<open>k\<close> shards gives \<open>k\<close> matrices of
  equal width, and \<open>concat_columns\<close> gives the matrix back, bit for bit; splitting it by rows gives
  \<open>k\<close> matrices of equal height whose data in order is the data of the matrix. When \<open>k\<close> does not
  divide the columns, or the rows, the call throws and names the reason.\<close>

theorem shards_roundtrip:
  assumes "mat r c t" "0 < k"
  shows "(if k dvd c
      then \<exists>ps. split_columns t (int k) = Inr ps \<and> length ps = k \<and> (\<forall>p \<in> set ps. mat r (c div k) p) \<and> concat_columns ps = Inr t
      else split_columns t (int k) = Inl (InvalidArgument ''split_columns: cols must be divisible by shards''))
    \<and> (if k dvd r
      then \<exists>ps. split_rows t (int k) = Inr ps \<and> length ps = k \<and> (\<forall>p \<in> set ps. mat (r div k) c p) \<and> concat (map t_data ps) = t_data t
      else split_rows t (int k) = Inl (InvalidArgument ''split_rows: rows must be divisible by shards''))"
proof -
  note M = mat_dims[OF assms(1)]
  have sm: "int n smod int k = int (n mod k)" for n
    using assms(2) by (simp flip: of_nat_mod)
  have no: "split_columns t (int k) = Inl (InvalidArgument ''split_columns: cols must be divisible by shards'')" if "\<not> k dvd c"
    using that M assms(2) by (simp add: split_columns_def sm dvd_eq_mod_eq_0)
  have no': "split_rows t (int k) = Inl (InvalidArgument ''split_rows: rows must be divisible by shards'')" if "\<not> k dvd r"
    using that M assms(2) by (simp add: split_rows_def sm dvd_eq_mod_eq_0)
  have "\<exists>ps. split_columns t (int k) = Inr ps \<and> length ps = k \<and> (\<forall>p \<in> set ps. mat r (c div k) p) \<and> concat_columns ps = Inr t" if "k dvd c"
    using split_columns_back[OF _ assms(2), of r "c div k" t] assms(1) that by simp
  moreover have "\<exists>ps. split_rows t (int k) = Inr ps \<and> length ps = k \<and> (\<forall>p \<in> set ps. mat (r div k) c p) \<and> concat (map t_data ps) = t_data t" if "k dvd r"
    using split_rows_back[OF _ assms(2), of "r div k" c t] assms(1) that by simp
  ultimately show ?thesis using no no' by simp
qed

lemma shards_roundtrip_witness:
  "(\<exists>ps. split_columns \<lparr>t_shape = [2, 4], t_data = [1, 2, 3, 4, 5, 6, 7, 8]\<rparr> (int 2) = Inr ps \<and> length ps = 2
      \<and> concat_columns ps = Inr \<lparr>t_shape = [2, 4], t_data = [1, 2, 3, 4, 5, 6, 7, 8]\<rparr>)
    \<and> split_rows \<lparr>t_shape = [2, 4], t_data = [1, 2, 3, 4, 5, 6, 7, 8]\<rparr> (int 3)
      = Inl (InvalidArgument ''split_rows: rows must be divisible by shards'')"
proof -
  have "mat 2 4 \<lparr>t_shape = [2, 4], t_data = [1, 2, 3, 4, 5, 6, 7, 8]\<rparr>" by (simp add: mat_def)
  from shards_roundtrip[OF this, of 2] shards_roundtrip[OF this, of 3] show ?thesis by auto
qed

end
