(* ===== verification/Dtype.thy ===== *)
theory Dtype
  imports Floats
begin

text \<open>
  \<open>include/engine/dtype.hpp\<close>: the stored formats of weights. A \<open>uint16_t\<close> pattern becomes the
  32-bit pattern of the same number. The loop that normalizes a subnormal mantissa would not
  end on a mantissa without bits, so it is a partial function; the conversion itself always
  returns (\<open>f16_to_f32_exact\<close>).
\<close>

section \<open>Storage formats\<close>

datatype dtype = F32 | F16 | BF16

definition dtype_size :: "dtype \<Rightarrow> nat" where
  "dtype_size dt = (case dt of F32 \<Rightarrow> 4 | F16 \<Rightarrow> 2 | BF16 \<Rightarrow> 2)"

definition dtype_from_string :: "string \<Rightarrow> dtype res" where
  "dtype_from_string name =
     (if name = ''F32'' then Inr F32
      else if name = ''F16'' then Inr F16
      else if name = ''BF16'' then Inr BF16
      else Inl (RuntimeError (''unsupported dtype '' @ [CHR 0x27] @ name @ [CHR 0x27])))"

fun dtype_name :: "dtype \<Rightarrow> string" where
  "dtype_name F32 = ''F32''" | "dtype_name F16 = ''F16''" | "dtype_name BF16 = ''BF16''"

lemma dtype_from_string_iff: "dtype_from_string s = Inr dt \<longleftrightarrow> s = dtype_name dt"
  by (cases dt) (auto simp: dtype_from_string_def)

section \<open>Conversions\<close>

partial_function (option) normalize_mant :: "32 word \<Rightarrow> int \<Rightarrow> (32 word \<times> int) option" where
  "normalize_mant mant e =
     (if mant AND 0x400 = 0 then normalize_mant (push_bit 1 mant) (e - 1) else Some (mant, e))"

definition f16_to_f32 :: "16 word \<Rightarrow> f32 option" where
  "f16_to_f32 bits =
     (let sign = push_bit 16 (ucast (bits AND 0x8000)) :: 32 word;
          exp = uint (drop_bit 10 bits AND 0x1F);
          mant = ucast (bits AND 0x3FF) :: 32 word
      in if exp = 0 then
           if mant = 0 then Some sign
           else case normalize_mant mant 1 of None \<Rightarrow> None
                | Some (mant, e) \<Rightarrow>
                    Some (sign OR push_bit 23 (word_of_int (e + (127 - 15))) OR push_bit 13 (mant AND 0x3FF))
         else if exp = 0x1F then Some (sign OR 0x7F800000 OR push_bit 13 mant)
         else Some (sign OR push_bit 23 (word_of_int (exp + (127 - 15))) OR push_bit 13 mant))"

definition bf16_to_f32 :: "16 word \<Rightarrow> f32" where
  "bf16_to_f32 bits = push_bit 16 (ucast bits)"

section \<open>The numbers the patterns denote\<close>

text \<open>
  A binary format is a sign bit, an exponent field and a mantissa field of \<open>mb\<close> bits. A
  finite number is an integer multiple of the format's smallest subnormal (\<open>2 ^ -24\<close> for
  binary16, \<open>2 ^ -149\<close> for binary32): \<open>units\<close> is that integer.
\<close>

definition units :: "nat \<Rightarrow> nat \<Rightarrow> nat \<Rightarrow> nat" where
  "units mb e f = (if e = 0 then f else (2 ^ mb + f) * 2 ^ (e - 1))"

definition f16_sign :: "16 word \<Rightarrow> nat" where "f16_sign w = unat w div 2 ^ 15"
definition f16_exp :: "16 word \<Rightarrow> nat" where "f16_exp w = unat w div 2 ^ 10 mod 2 ^ 5"
definition f16_frac :: "16 word \<Rightarrow> nat" where "f16_frac w = unat w mod 2 ^ 10"

definition f32_sign :: "f32 \<Rightarrow> nat" where "f32_sign w = unat w div 2 ^ 31"
definition f32_exp :: "f32 \<Rightarrow> nat" where "f32_exp w = unat w div 2 ^ 23 mod 2 ^ 8"
definition f32_frac :: "f32 \<Rightarrow> nat" where "f32_frac w = unat w mod 2 ^ 23"

section \<open>Words as sums of their fields\<close>

lemma nat_or_add: "b < 2 ^ k \<Longrightarrow> (a * 2 ^ k) OR b = a * 2 ^ k + (b :: nat)"
proof -
  assume b: "b < 2 ^ k"
  have "a * 2 ^ k AND b = 0"
  proof (rule bit_eqI)
    fix n
    have "bit b n \<Longrightarrow> n < k" using b by (metis bit_take_bit_iff take_bit_nat_eq_self)
    then show "bit (a * 2 ^ k AND b) n = bit 0 n"
      by (auto simp: bit_and_iff bit_push_bit_iff simp flip: push_bit_eq_mult)
  qed
  then show ?thesis by (simp add: disjunctive_add_eq_or)
qed

lemma and_top: "n < 2 ^ Suc k \<Longrightarrow> n AND 2 ^ k = n div 2 ^ k * 2 ^ k" for n :: nat
proof -
  assume n: "n < 2 ^ Suc k"
  have "n AND 2 ^ k = of_bool (bit n k) * 2 ^ k"
    by (rule bit_eqI) (auto simp: bit_simps)
  moreover have "of_bool (bit n k) = n div 2 ^ k"
  proof -
    have "n div 2 ^ k < 2" using n by (simp add: less_mult_imp_div_less)
    then show ?thesis by (auto simp: bit_iff_odd less_Suc_eq numeral_2_eq_2)
  qed
  ultimately show ?thesis by simp
qed
lemma word16: fixes w :: "16 word" shows "w = word_of_nat (unat w)" "unat w < 2 ^ 16"
  using unsigned_less[of w, where 'a = nat] by simp_all
lemma ucast_nat: "n < 2 ^ 16 \<Longrightarrow> ucast (word_of_nat n :: 16 word) = (word_of_nat n :: 32 word)"
  by (simp add: unsigned_of_nat take_bit_nat_eq_self)
lemma sign_bits: "ucast (w AND 0x8000) = (word_of_nat (unat w div 2 ^ 15 * 2 ^ 15) :: 32 word)" for w :: "16 word"
proof -
  have "w AND 0x8000 = word_of_nat (unat w AND 2 ^ 15)"
    by (simp add: of_nat_and_eq)
  also have "unat w AND 2 ^ 15 = unat w div 2 ^ 15 * 2 ^ 15"
    using word16(2)[of w] by (intro and_top) simp
  finally have e: "w AND 0x8000 = word_of_nat (unat w div 2 ^ 15 * 2 ^ 15)" .
  show ?thesis unfolding e using word16(2)[of w] by (intro ucast_nat) (metis div_times_less_eq_dividend le_less_trans)
qed
lemma frac_bits: "ucast (w AND 0x3FF) = (word_of_nat (unat w mod 2 ^ 10) :: 32 word)" for w :: "16 word"
proof -
  have "w AND 0x3FF = word_of_nat (unat w AND mask 10)"
    by (simp add: of_nat_and_eq mask_eq_exp_minus_1)
  also have "unat w AND mask 10 = unat w mod 2 ^ 10" by (simp only: take_bit_eq_mask [symmetric] take_bit_eq_mod)
  finally show ?thesis using word16(2)[of w] by (simp add: ucast_nat)
qed
lemma exp_bits: "uint (drop_bit 10 w AND 0x1F) = int (unat w div 2 ^ 10 mod 2 ^ 5)" for w :: "16 word"
proof -
  have "unat (drop_bit 10 w AND 0x1F) = drop_bit 10 (unat w) AND unat (0x1F :: 16 word)"
    by (simp only: unsigned_and_eq unat_drop_bit_eq)
  also have "... = unat w div 2 ^ 10 AND mask 5" by (simp add: mask_eq_exp_minus_1 drop_bit_eq_div)
  also have "... = unat w div 2 ^ 10 mod 2 ^ 5" by (simp only: take_bit_eq_mask [symmetric] take_bit_eq_mod)
  finally show ?thesis by (metis of_nat_unat)
qed

lemma bit10: "n < 2 ^ 11 \<Longrightarrow> (word_of_nat n AND 0x400 = (0 :: 32 word)) \<longleftrightarrow> n < 2 ^ 10"
proof -
  assume n: "n < 2 ^ 11"
  have "word_of_nat n AND 0x400 = (word_of_nat (n AND 2 ^ 10) :: 32 word)" by (simp add: of_nat_and_eq)
  also have "n AND 2 ^ 10 = n div 2 ^ 10 * 2 ^ 10" using n by (intro and_top) simp
  also have "(word_of_nat (n div 2 ^ 10 * 2 ^ 10) = (0 :: 32 word)) \<longleftrightarrow> n div 2 ^ 10 * 2 ^ 10 = 0"
    using n by (subst word_of_nat_eq_0_iff) (auto dest: nat_dvd_not_less[rotated])
  also have "... \<longleftrightarrow> n < 2 ^ 10" by (simp add: div_eq_0_iff)
  finally show ?thesis .
qed

lemma normalize_mant_ok:
  assumes "0 < n" "n < 2 ^ 11"
  shows "\<exists>k. normalize_mant (word_of_nat n) e = Some (word_of_nat (n * 2 ^ k), e - int k)
    \<and> 2 ^ 10 \<le> n * 2 ^ k \<and> n * 2 ^ k < 2 ^ 11 \<and> (n < 2 ^ 10 \<longrightarrow> 0 < k)"
  using assms
proof (induction "2 ^ 11 - n" arbitrary: n e rule: less_induct)
  case less
  show ?case
  proof (cases "n < 2 ^ 10")
    case False
    then show ?thesis using less.prems bit10[of n] by (intro exI[of _ 0]) (simp add: normalize_mant.simps)
  next
    case True
    have "push_bit 1 (word_of_nat n) = (word_of_nat (2 * n) :: 32 word)" for n by (simp add: push_bit_eq_mult mult.commute)
    then have u: "normalize_mant (word_of_nat n) e = normalize_mant (word_of_nat (2 * n)) (e - 1)"
      using True less.prems bit10[of n] by (subst normalize_mant.simps) (simp add: mult.commute)
    have "(2::nat) ^ 11 - 2 * n < 2 ^ 11 - n" "0 < 2 * n" "2 * n < 2 ^ 11" using True less.prems by simp_all
    from less.hyps[OF this, of "e - 1"] obtain k where
      "normalize_mant (word_of_nat (2 * n)) (e - 1) = Some (word_of_nat (2 * n * 2 ^ k), e - 1 - int k)"
      "2 ^ 10 \<le> 2 * n * 2 ^ k" "2 * n * 2 ^ k < 2 ^ 11" by blast
    then show ?thesis using u by (intro exI[of _ "Suc k"]) (simp add: algebra_simps)
  qed
qed

lemma pack_or:
  assumes "e < 2 ^ 8" "f < 2 ^ 10"
  shows "push_bit 16 (word_of_nat (s * 2 ^ 15)) OR push_bit 23 (word_of_nat e) OR push_bit 13 (word_of_nat f)
       = (word_of_nat (s * 2 ^ 31 + e * 2 ^ 23 + f * 2 ^ 13) :: 32 word)"
proof -
  have "s * 2 ^ 31 OR e * 2 ^ 23 = s * 2 ^ 31 + e * 2 ^ 23" using assms by (intro nat_or_add) simp
  moreover have "(s * 2 ^ 8 + e) * 2 ^ 23 OR f * 2 ^ 13 = (s * 2 ^ 8 + e) * 2 ^ 23 + f * 2 ^ 13"
    using assms by (intro nat_or_add) simp
  ultimately have "(s * 2 ^ 31 OR e * 2 ^ 23) OR f * 2 ^ 13 = s * 2 ^ 31 + e * 2 ^ 23 + f * 2 ^ 13"
    by (simp add: algebra_simps)
  moreover have "push_bit 16 (word_of_nat (s * 2 ^ 15)) = (word_of_nat (s * 2 ^ 31) :: 32 word)"
    "push_bit 23 (word_of_nat e) = (word_of_nat (e * 2 ^ 23) :: 32 word)"
    "push_bit 13 (word_of_nat f) = (word_of_nat (f * 2 ^ 13) :: 32 word)"
    unfolding push_bit_of_nat push_bit_eq_mult by (simp_all add: algebra_simps)
  ultimately show ?thesis by (simp only: of_nat_or_eq [symmetric] or.assoc)
qed

lemma fields32:
  assumes "s < 2" "e < 2 ^ 8" "f < 2 ^ 23"
  shows "f32_sign (word_of_nat (s * 2 ^ 31 + e * 2 ^ 23 + f)) = s"
    "f32_exp (word_of_nat (s * 2 ^ 31 + e * 2 ^ 23 + f)) = e"
    "f32_frac (word_of_nat (s * 2 ^ 31 + e * 2 ^ 23 + f)) = f"
proof -
  let ?n = "s * 2 ^ 31 + e * 2 ^ 23 + f"
  have "s * 2 ^ 31 \<le> 1 * 2 ^ 31" "e * 2 ^ 23 \<le> (2 ^ 8 - 1) * 2 ^ 23" using assms by (intro mult_le_mono1; simp)+
  then have "?n < 2 ^ 32" using assms(3) by simp
  then have u: "unat (word_of_nat ?n :: f32) = ?n" unfolding unat_of_nat by simp
  have f: "?n mod 2 ^ 23 = f" "?n div 2 ^ 23 = s * 2 ^ 8 + e"
  proof -
    have e: "?n = f + (s * 2 ^ 8 + e) * 2 ^ 23" by (simp add: algebra_simps)
    show "?n mod 2 ^ 23 = f" "?n div 2 ^ 23 = s * 2 ^ 8 + e" unfolding e
      using assms(3) mod_mult_self1[of f "s * 2 ^ 8 + e" "2 ^ 23"] div_mult_self1[of "2 ^ 23" f "s * 2 ^ 8 + e"] by simp_all
  qed
  have "?n div 2 ^ 31 = ?n div 2 ^ 23 div 2 ^ 8" by (simp add: div_mult2_eq[symmetric])
  also have "... = s" unfolding f using assms(2) by simp
  finally show "f32_sign (word_of_nat ?n) = s" unfolding f32_sign_def u .
  show "f32_exp (word_of_nat ?n) = e" unfolding f32_exp_def u f using assms(2) by simp
  show "f32_frac (word_of_nat ?n) = f" unfolding f32_frac_def u f ..
qed

section \<open>The conversion is exact\<close>

text \<open>The three branches, on the fields of the half.\<close>

lemma f16_to_f32_normal:
  assumes "f16_exp w \<noteq> 0" "f16_exp w \<noteq> 31"
  shows "f16_to_f32 w = Some (word_of_nat (f16_sign w * 2 ^ 31 + (f16_exp w + 112) * 2 ^ 23 + f16_frac w * 2 ^ 13))"
proof -
  have e: "f16_exp w < 2 ^ 5" and f: "f16_frac w < 2 ^ 10" by (simp_all add: f16_exp_def f16_frac_def)
  have "word_of_int (int (f16_exp w) + (127 - 15)) = (word_of_nat (f16_exp w + 112) :: 32 word)" by simp
  then show ?thesis
    using assms e f pack_or[of "f16_exp w + 112" "f16_frac w" "f16_sign w"]
    unfolding f16_to_f32_def sign_bits frac_bits exp_bits f16_sign_def[symmetric] f16_exp_def[symmetric] f16_frac_def[symmetric]
    by (simp only: Let_def) simp
qed

lemma f16_to_f32_special:
  assumes "f16_exp w = 31"
  shows "f16_to_f32 w = Some (word_of_nat (f16_sign w * 2 ^ 31 + 255 * 2 ^ 23 + f16_frac w * 2 ^ 13))"
proof -
  have f: "f16_frac w < 2 ^ 10" by (simp add: f16_frac_def)
  have "push_bit 23 (word_of_nat 255) = (0x7F800000 :: 32 word)" by simp
  then show ?thesis
    using assms f pack_or[of 255 "f16_frac w" "f16_sign w"]
    unfolding f16_to_f32_def sign_bits frac_bits exp_bits f16_sign_def[symmetric] f16_exp_def[symmetric] f16_frac_def[symmetric]
    by (simp only: Let_def) simp
qed

lemma f16_to_f32_zero:
  assumes "f16_exp w = 0" "f16_frac w = 0"
  shows "f16_to_f32 w = Some (word_of_nat (f16_sign w * 2 ^ 31))"
proof -
  have "push_bit 16 (word_of_nat (f16_sign w * 2 ^ 15)) = (word_of_nat (f16_sign w * 2 ^ 31) :: 32 word)"
    unfolding push_bit_of_nat push_bit_eq_mult by (simp add: algebra_simps)
  then show ?thesis
    using assms
    unfolding f16_to_f32_def sign_bits frac_bits exp_bits f16_sign_def[symmetric] f16_exp_def[symmetric] f16_frac_def[symmetric]
    by (simp only: Let_def) simp
qed

lemma f16_to_f32_subnormal:
  assumes "f16_exp w = 0" "f16_frac w \<noteq> 0"
  shows "\<exists>k. f16_to_f32 w = Some (word_of_nat (f16_sign w * 2 ^ 31 + (113 - k) * 2 ^ 23 + (f16_frac w * 2 ^ k - 2 ^ 10) * 2 ^ 13))
    \<and> 0 < k \<and> k < 11 \<and> 2 ^ 10 \<le> f16_frac w * 2 ^ k \<and> f16_frac w * 2 ^ k < 2 ^ 11"
proof -
  have f: "f16_frac w < 2 ^ 10" by (simp add: f16_frac_def)
  then obtain k where k: "normalize_mant (word_of_nat (f16_frac w)) 1 = Some (word_of_nat (f16_frac w * 2 ^ k), 1 - int k)"
      "2 ^ 10 \<le> f16_frac w * 2 ^ k" "f16_frac w * 2 ^ k < 2 ^ 11" "0 < k"
    using normalize_mant_ok[of "f16_frac w" 1] assms(2) by auto
  have "2 ^ k < (2::nat) ^ 11" using k(3) assms(2) by (metis le_less_trans mult_le_mono1 mult_1 Suc_leI gr0I One_nat_def)
  then have k11: "k < 11" by (rule power_less_imp_less_exp[rotated]) simp
  define f' where "f' = f16_frac w * 2 ^ k - 2 ^ 10"
  have f': "f' < 2 ^ 10" "f16_frac w * 2 ^ k = 1 * 2 ^ 10 + f'" using k(2,3) by (simp_all add: f'_def)
  have "word_of_nat (f16_frac w * 2 ^ k) AND 0x3FF = (word_of_nat ((f16_frac w * 2 ^ k) AND mask 10) :: 32 word)"
    unfolding of_nat_and_eq by (simp add: mask_eq_exp_minus_1)
  also have "(f16_frac w * 2 ^ k) AND mask 10 = (f16_frac w * 2 ^ k) mod 2 ^ 10"
    by (simp only: take_bit_eq_mask [symmetric] take_bit_eq_mod)
  also have "(f16_frac w * 2 ^ k) mod 2 ^ 10 = f'" using f'(1) unfolding f'(2) by simp
  finally have m: "word_of_nat (f16_frac w * 2 ^ k) AND 0x3FF = (word_of_nat f' :: 32 word)" .
  have x: "word_of_int (1 - int k + (127 - 15)) = (word_of_nat (113 - k) :: 32 word)"
    using k11 by (simp add: of_nat_diff)
  have P: "push_bit 16 (word_of_nat (f16_sign w * 2 ^ 15)) OR push_bit 23 (word_of_nat (113 - k)) OR push_bit 13 (word_of_nat f')
      = (word_of_nat (f16_sign w * 2 ^ 31 + (113 - k) * 2 ^ 23 + f' * 2 ^ 13) :: 32 word)"
    using f'(1) by (intro pack_or) simp_all
  have i: "int (f16_exp w) = 0" using assms(1) by simp
  have z: "(word_of_nat (f16_frac w) :: 32 word) \<noteq> 0"
    using f assms(2) by (subst word_of_nat_eq_0_iff) (auto dest: nat_dvd_not_less[rotated])
  have "f16_to_f32 w = Some (word_of_nat (f16_sign w * 2 ^ 31 + (113 - k) * 2 ^ 23 + f' * 2 ^ 13))"
    unfolding f16_to_f32_def sign_bits frac_bits exp_bits f16_sign_def[symmetric] f16_exp_def[symmetric] f16_frac_def[symmetric]
    unfolding Let_def if_P[OF i] if_not_P[OF z] k(1) option.case prod.case m x P ..
  with k k11 show ?thesis unfolding f'_def by blast
qed

lemma f16_to_f32_returns: "\<exists>r. f16_to_f32 w = Some r"
  using f16_to_f32_normal[of w] f16_to_f32_special[of w] f16_to_f32_zero[of w] f16_to_f32_subnormal[of w] by metis

text \<open>C39: Loading a half always returns (the normalizing loop ends), and the float has the sign and
  exactly the value of the half: a finite half of \<open>n\<close> units of \<open>2 ^ -24\<close> becomes the float of
  \<open>n * 2 ^ 125\<close> units of \<open>2 ^ -149\<close>, subnormals included; infinities stay infinities and a
  NaN keeps its payload.\<close>

theorem f16_to_f32_exact:
  "\<exists>r. f16_to_f32 w = Some r \<and> f32_sign r = f16_sign w \<and>
     (if f16_exp w = 31 then f32_exp r = 255 \<and> f32_frac r = f16_frac w * 2 ^ 13
      else f32_exp r < 255 \<and> units 23 (f32_exp r) (f32_frac r) = units 10 (f16_exp w) (f16_frac w) * 2 ^ 125)"
proof -
  have b: "f16_sign w < 2" "f16_exp w < 2 ^ 5" "f16_frac w < 2 ^ 10" "f16_frac w * 2 ^ 13 < 2 ^ 23"
    using word16(2)[of w] by (simp_all add: f16_sign_def f16_exp_def f16_frac_def less_mult_imp_div_less)
  consider "f16_exp w = 31" | "f16_exp w = 0" "f16_frac w = 0" | "f16_exp w = 0" "f16_frac w \<noteq> 0"
    | "f16_exp w \<noteq> 0" "f16_exp w \<noteq> 31" by blast
  then show ?thesis
  proof cases
    case 1
    then show ?thesis using f16_to_f32_special[OF 1] fields32[OF b(1) _ b(4), of 255] by simp
  next
    case 2
    then show ?thesis using f16_to_f32_zero[OF 2] fields32[OF b(1), of 0 0] by (simp add: units_def)
  next
    case 3
    obtain k where k: "f16_to_f32 w = Some (word_of_nat (f16_sign w * 2 ^ 31 + (113 - k) * 2 ^ 23 + (f16_frac w * 2 ^ k - 2 ^ 10) * 2 ^ 13))"
      "0 < k" "k < 11" "2 ^ 10 \<le> f16_frac w * 2 ^ k" "f16_frac w * 2 ^ k < 2 ^ 11"
      using f16_to_f32_subnormal[OF 3] by blast
    have l: "(f16_frac w * 2 ^ k - 2 ^ 10) * 2 ^ 13 < 2 ^ 23" "113 - k < 2 ^ 8" using k(4,5) by simp_all
    have "units 23 (113 - k) ((f16_frac w * 2 ^ k - 2 ^ 10) * 2 ^ 13) = f16_frac w * 2 ^ k * 2 ^ 13 * 2 ^ (112 - k)"
      using k(3,4) by (simp add: units_def diff_mult_distrib)
    also have "... = f16_frac w * (2 ^ k * (2 ^ 13 * 2 ^ (112 - k)))" by (simp only: mult.assoc)
    also have "2 ^ k * (2 ^ 13 * 2 ^ (112 - k)) = (2::nat) ^ 125" using k(3) by (simp only: power_add[symmetric]) simp
    finally show ?thesis using k(1,3) 3 fields32[OF b(1) l(2,1)] by (simp add: units_def)
  next
    case 4
    have e: "f16_exp w + 112 < 2 ^ 8" "f16_exp w + 112 < 255" using b(2) 4 by simp_all
    have "units 23 (f16_exp w + 112) (f16_frac w * 2 ^ 13) = (2 ^ 10 + f16_frac w) * (2 ^ 13 * 2 ^ (f16_exp w - 1 + 112))"
      using 4 by (simp add: units_def algebra_simps)
    also have "2 ^ 13 * 2 ^ (f16_exp w - 1 + 112) = (2::nat) ^ (f16_exp w - 1) * 2 ^ 125" by (simp only: power_add[symmetric]) simp
    finally show ?thesis using 4 f16_to_f32_normal[OF 4] fields32[OF b(1) e(1) b(4)] e(2) by (simp add: units_def)
  qed
qed

text \<open>A bfloat16 is the upper half of its float.\<close>

lemma bf16_to_f32_upper: "unat (bf16_to_f32 w) = unat w * 2 ^ 16"
proof -
  have "bf16_to_f32 w = word_of_nat (unat w * 2 ^ 16)"
    by (metis bf16_to_f32_def push_bit_eq_mult push_bit_of_nat ucast_nat word16)
  moreover have "unat w * 2 ^ 16 < 2 ^ 32" using word16(2)[of w] by simp
  ultimately show ?thesis by (simp only: unat_of_nat) simp
qed

end
