(* ===== verification/Weights_File.thy ===== *)
theory Weights_File
  imports Dtype Model "HOL-Library.Product_Lexorder"
begin

text \<open>
  \<open>safetensors.cpp\<close> and \<open>model_config.cpp\<close>: the loaders. The JSON library (nlohmann) is a
  parameter, the record \<open>json_lib\<close>; each of its calls returns a value or the text of the
  exception it throws. Buffers are byte lists; the file offsets are \<open>uint64_t\<close> words. The
  shape's product is computed at \<open>int64_t\<close>: leaving its range is undefined behaviour. A
  \<open>memcpy\<close> of bytes into a \<open>float\<close> is read on a little-endian machine.
\<close>

section \<open>The JSON library\<close>

record 'j json_lib =
  js_parse :: "8 word list \<Rightarrow> string + 'j"
  js_items :: "'j \<Rightarrow> (string \<times> 'j) list"
  js_contains :: "'j \<Rightarrow> string \<Rightarrow> bool"
  js_at :: "'j \<Rightarrow> string \<Rightarrow> string + 'j"
  js_index :: "'j \<Rightarrow> nat \<Rightarrow> string + 'j"
  js_string :: "'j \<Rightarrow> string + string"
  js_i64 :: "'j \<Rightarrow> string + int"
  js_u64 :: "'j \<Rightarrow> string + 64 word"
  js_i64s :: "'j \<Rightarrow> string + int list"
  js_value_i64 :: "'j \<Rightarrow> string \<Rightarrow> int \<Rightarrow> string + int"
  js_value_f64 :: "'j \<Rightarrow> string \<Rightarrow> f64 \<Rightarrow> string + f64"
  js_value_bool :: "'j \<Rightarrow> string \<Rightarrow> bool \<Rightarrow> string + bool"
  js_value_string :: "'j \<Rightarrow> string \<Rightarrow> string \<Rightarrow> string + string"

text \<open>A \<open>catch\<close> of the library's exception that rethrows it with a prefix.\<close>

definition js_try :: "string \<Rightarrow> string + 'a \<Rightarrow> 'a res" where
  "js_try prefix r = (case r of Inl what \<Rightarrow> Inl (RuntimeError (prefix @ what)) | Inr x \<Rightarrow> Inr x)"

abbreviation js_entry :: "string + 'a \<Rightarrow> 'a res" where
  "js_entry \<equiv> js_try ''safetensors: malformed header entry: ''"

lemma js_try_eq_Inr [simp]: "js_try p r = Inr x \<longleftrightarrow> r = Inr x"
  by (cases r) (auto simp: js_try_def)

lemma js_try_defined [simp]: "js_try p r \<noteq> Inl Undefined"
  by (cases r) (auto simp: js_try_def)

section \<open>Reading the bytes of a tensor\<close>

definition little_endian_u16 :: "8 word \<Rightarrow> 8 word \<Rightarrow> 16 word" where
  "little_endian_u16 p0 p1 = ucast p0 OR push_bit 8 (ucast p1)"

definition little_endian_u32 :: "8 word \<Rightarrow> 8 word \<Rightarrow> 8 word \<Rightarrow> 8 word \<Rightarrow> 32 word" where
  "little_endian_u32 p0 p1 p2 p3 =
     ucast p0 OR push_bit 8 (ucast p1) OR push_bit 16 (ucast p2) OR push_bit 24 (ucast p3)"

text \<open>Element \<open>i\<close> of a tensor stored at \<open>off\<close>; a loop that does not end would be undefined.\<close>

definition read_element :: "dtype \<Rightarrow> 8 word list \<Rightarrow> nat \<Rightarrow> nat \<Rightarrow> f32 res" where
  "read_element dt dat off i =
     (case dt of
        F32 \<Rightarrow>
          res_bind (vec_get dat (int (off + 4 * i))) (\<lambda>p0.
          res_bind (vec_get dat (int (off + 4 * i + 1))) (\<lambda>p1.
          res_bind (vec_get dat (int (off + 4 * i + 2))) (\<lambda>p2.
          res_bind (vec_get dat (int (off + 4 * i + 3))) (\<lambda>p3.
            Inr (little_endian_u32 p0 p1 p2 p3)))))
      | _ \<Rightarrow>
          res_bind (vec_get dat (int (off + 2 * i))) (\<lambda>p0.
          res_bind (vec_get dat (int (off + 2 * i + 1))) (\<lambda>p1.
            let bits = little_endian_u16 p0 p1
            in if dt = F16 then (case f16_to_f32 bits of Some f \<Rightarrow> Inr f | None \<Rightarrow> Inl Undefined)
               else Inr (bf16_to_f32 bits))))"

text \<open>\<open>num_elements\<close> at the width of \<open>int64_t\<close>.\<close>

definition i64 :: "int \<Rightarrow> bool" where
  "i64 x \<longleftrightarrow> - (2 ^ 63) \<le> x \<and> x < 2 ^ 63"

definition num_elements_i64 :: "int list \<Rightarrow> int res" where
  "num_elements_i64 shape =
     (if shape = [] then Inr 0
      else res_fold (\<lambda>d n. if i64 (n * d) then Inr (n * d) else Inl Undefined) shape 1)"

section \<open>Parsing\<close>

definition header_length :: "8 word list \<Rightarrow> 64 word res" where
  "header_length dat =
     res_fold (\<lambda>i h. res_bind (vec_get dat (int i)) (\<lambda>b. Inr (h OR push_bit (8 * i) (ucast b)))) [0..<8] 0"

definition entry_meta :: "'j json_lib \<Rightarrow> 'j \<Rightarrow> (dtype \<times> int list \<times> 64 word \<times> 64 word) res" where
  "entry_meta J meta =
     res_bind (js_entry (js_at J meta ''dtype'')) (\<lambda>v.
     res_bind (js_entry (js_string J v)) (\<lambda>s.
     res_bind (dtype_from_string s) (\<lambda>dt.
     res_bind (js_entry (js_at J meta ''shape'')) (\<lambda>v.
     res_bind (js_entry (js_i64s J v)) (\<lambda>shape.
     res_bind (js_entry (js_at J meta ''data_offsets'')) (\<lambda>offsets.
     res_bind (js_entry (js_index J offsets 0)) (\<lambda>v.
     res_bind (js_entry (js_u64 J v)) (\<lambda>begin_at.
     res_bind (js_entry (js_index J offsets 1)) (\<lambda>v.
     res_bind (js_entry (js_u64 J v)) (\<lambda>end_at.
       Inr (dt, shape, begin_at, end_at)))))))))))"

definition parse_entry ::
    "'j json_lib \<Rightarrow> 8 word list \<Rightarrow> nat \<Rightarrow> nat \<Rightarrow> string \<times> 'j \<Rightarrow>
     (64 word \<times> 64 word) list \<times> weights \<Rightarrow> ((64 word \<times> 64 word) list \<times> weights) res" where
  "parse_entry J dat base region item st =
     (case item of (name, meta) \<Rightarrow> case st of (spans, ts) \<Rightarrow>
      if name = ''__metadata__'' then Inr (spans, ts)
      else
        res_bind (entry_meta J meta) (\<lambda>(dt, shape, begin_at, end_at).
        if end_at < begin_at \<or> region < unat end_at
        then Inl (RuntimeError (''safetensors: data_offsets out of range for '' @ name))
        else if \<exists>d \<in> set shape. d < 0
        then Inl (RuntimeError (''safetensors: negative dimension for '' @ name))
        else
          res_bind (num_elements_i64 shape) (\<lambda>n.
          let nbytes = end_at - begin_at; elem_size = word_of_nat (dtype_size dt)
          in if nbytes mod elem_size \<noteq> 0 \<or> nbytes div elem_size \<noteq> word_of_int n
             then Inl (RuntimeError (''safetensors: byte count does not match shape for '' @ name))
             else
               res_bind (res_mapM (read_element dt dat (base + unat begin_at)) [0..<nat n]) (\<lambda>out.
               res_bind (tensor_make shape out) (\<lambda>t.
                 if map_of ts name \<noteq> None
                 then Inl (RuntimeError (''safetensors: duplicate tensor name '' @ [CHR 0x27] @ name @ [CHR 0x27]))
                 else Inr (spans @ [(begin_at, end_at)], ts @ [(name, t)]))))))"

definition spans_disjoint :: "(64 word \<times> 64 word) list \<Rightarrow> bool" where
  "spans_disjoint spans \<longleftrightarrow> (\<forall>i < length spans. 0 < i \<longrightarrow> snd (spans ! (i - 1)) \<le> fst (spans ! i))"

definition st_parse :: "'j json_lib \<Rightarrow> 8 word list \<Rightarrow> weights res" where
  "st_parse J dat =
     (if length dat < 8
      then Inl (RuntimeError ''safetensors: buffer smaller than the 8-byte header length'')
      else res_bind (header_length dat) (\<lambda>header_len.
        if length dat - 8 < unat header_len
        then Inl (RuntimeError ''safetensors: header length exceeds the buffer'')
        else
          res_bind (js_try ''safetensors: invalid header JSON: '' (js_parse J (slice 8 (unat header_len) dat))) (\<lambda>header.
          res_bind (res_fold (parse_entry J dat (8 + unat header_len) (length dat - 8 - unat header_len))
                      (js_items J header) ([], [])) (\<lambda>(spans, ts).
            if spans_disjoint (sort spans) then Inr ts
            else Inl (RuntimeError ''safetensors: overlapping tensor data regions'')))))"

definition st_from_tensors :: "weights \<Rightarrow> weights" where
  "st_from_tensors ts = ts"

definition st_size :: "weights \<Rightarrow> nat" where
  "st_size ts = length ts"

section \<open>What a parsed file holds\<close>

definition stored_tensor ::
    "'j json_lib \<Rightarrow> 8 word list \<Rightarrow> nat \<Rightarrow> nat \<Rightarrow> 'j \<Rightarrow> 64 word \<times> 64 word \<Rightarrow> tensor \<Rightarrow> bool" where
  "stored_tensor J dat base region meta span t \<longleftrightarrow>
     (\<exists>dt. entry_meta J meta = Inr (dt, t_shape t, fst span, snd span)
       \<and> fst span \<le> snd span \<and> unat (snd span) \<le> region
       \<and> (\<forall>d \<in> set (t_shape t). 0 \<le> d) \<and> tensor_ok t
       \<and> unat (snd span) - unat (fst span) = length (t_data t) * dtype_size dt
       \<and> (\<forall>i < length (t_data t). read_element dt dat (base + unat (fst span)) i = Inr (t_data t ! i)))"

lemma res_fold_prod:
  assumes "res_fold (\<lambda>d n. if i64 (n * d) then Inr (n * d) else Inl Undefined) xs a = Inr r"
  shows "r = foldl (\<lambda>n d. n * d) a xs"
  using assms by (induction xs arbitrary: a) (auto split: if_splits)

lemma num_elements_i64_eq: "num_elements_i64 sh = Inr n \<Longrightarrow> n = num_elements sh"
  by (auto simp: num_elements_i64_def num_elements_def dest: res_fold_prod split: if_splits)

lemma res_fold_prod_i64:
  assumes "res_fold (\<lambda>d n. if i64 (n * d) then Inr (n * d) else Inl Undefined) xs a = Inr r" "i64 a"
  shows "i64 r"
  using assms by (induction xs arbitrary: a) (auto split: if_splits)

lemma foldl_prod_nonneg: "0 \<le> (a::int) \<Longrightarrow> \<forall>d \<in> set xs. 0 \<le> d \<Longrightarrow> 0 \<le> foldl (\<lambda>n d. n * d) a xs"
  by (induction xs arbitrary: a) auto

lemma num_elements_i64_range:
  assumes "num_elements_i64 sh = Inr n" "\<forall>d \<in> set sh. 0 \<le> d"
  shows "0 \<le> n" "n < 2 ^ 63"
proof -
  show "0 \<le> n"
    using num_elements_i64_eq[OF assms(1)] foldl_prod_nonneg[of 1 sh] assms(2) by (auto simp: num_elements_def)
  have "i64 n"
    using assms(1) res_fold_prod_i64[of sh 1 n] by (auto simp: num_elements_i64_def i64_def split: if_splits)
  then show "n < 2 ^ 63" by (simp add: i64_def)
qed

lemma bytes_match:
  assumes "b \<le> e" "0 \<le> n" "n < 2 ^ 63"
    and "(e - b) mod word_of_nat (dtype_size dt) = 0" "(e - b) div word_of_nat (dtype_size dt) = (word_of_int n :: 64 word)"
  shows "unat e - unat b = nat n * dtype_size dt"
proof -
  have s: "unat (word_of_nat (dtype_size dt) :: 64 word) = dtype_size dt" by (cases dt) (simp_all add: dtype_size_def)
  have d: "unat (e - b) = unat e - unat b" using assms(1) by (simp add: unat_sub)
  have "unat ((e - b) mod word_of_nat (dtype_size dt)) = 0" unfolding assms(4) by simp
  then have m: "unat (e - b) mod dtype_size dt = 0" unfolding unat_mod_distrib s .
  have "(word_of_int n :: 64 word) = word_of_nat (nat n)" using assms(2) by simp
  then have "unat (word_of_int n :: 64 word) = nat n mod 2 ^ 64" by (simp only: unat_of_nat) simp
  also have "... = nat n" using assms(3) by (simp add: nat_less_iff)
  finally have "unat (e - b) div dtype_size dt = nat n" unfolding assms(5)[symmetric] unat_div_distrib s .
  then show ?thesis using m d by (metis add.right_neutral div_mult_mod_eq)
qed

lemma parse_entry_Inr:
  assumes "parse_entry J dat base region (name, meta) (spans, ts) = Inr (spans', ts')" "name \<noteq> ''__metadata__''"
  shows "\<exists>span t. spans' = spans @ [span] \<and> ts' = ts @ [(name, t)] \<and> name \<notin> fst ` set ts
    \<and> stored_tensor J dat base region meta span t"
proof -
  from assms obtain dt sh b e n out t where
    h: "entry_meta J meta = Inr (dt, sh, b, e)" "\<not> (e < b \<or> region < unat e)" "\<not> (\<exists>d \<in> set sh. d < 0)"
    "num_elements_i64 sh = Inr n"
    "(e - b) mod word_of_nat (dtype_size dt) = 0" "(e - b) div word_of_nat (dtype_size dt) = word_of_int n"
    "res_mapM (read_element dt dat (base + unat b)) [0..<nat n] = Inr out" "tensor_make sh out = Inr t"
    "map_of ts name = None" "spans' = spans @ [(b, e)]" "ts' = ts @ [(name, t)]"
    by (auto simp: parse_entry_def res_bind_eq_Inr Let_def split: if_splits del: mod_0_imp_dvd)
  have nn: "\<forall>d \<in> set sh. 0 \<le> d" using h(3) by (auto simp: not_less)
  have t: "t_shape t = sh" "t_data t = out" using h(8) by (auto simp: tensor_make_def split: if_splits)
  have l: "length out = nat n" using res_mapM_length[OF h(7)] by simp
  have "stored_tensor J dat base region meta (b, e) t"
    unfolding stored_tensor_def
    using h(1,2) nn bytes_match[OF _ num_elements_i64_range[OF h(4) nn] h(5,6)] res_mapM_nth[OF h(7)] tensor_make_ok[OF h(8)]
    by (intro exI[of _ dt]) (auto simp: t l not_less)
  with h(9-11) show ?thesis by (intro exI[of _ "(b, e)"] exI[of _ t]) (simp add: map_of_eq_None_iff)
qed

definition tensor_items :: "'j json_lib \<Rightarrow> 'j \<Rightarrow> (string \<times> 'j) list" where
  "tensor_items J header = filter (\<lambda>it. fst it \<noteq> ''__metadata__'') (js_items J header)"

lemma parse_entries:
  assumes "res_fold (parse_entry J dat base region) items (spans, ts) = Inr (spans', ts')"
    and "distinct (map fst ts)"
  shows "\<exists>sp us. spans' = spans @ sp \<and> ts' = ts @ us \<and> distinct (map fst ts')
    \<and> map fst us = map fst (filter (\<lambda>it. fst it \<noteq> ''__metadata__'') items)
    \<and> length sp = length us
    \<and> (\<forall>i < length us. stored_tensor J dat base region (snd (filter (\<lambda>it. fst it \<noteq> ''__metadata__'') items ! i)) (sp ! i) (snd (us ! i)))"
  using assms
proof (induction items arbitrary: spans ts)
  case (Cons it items)
  obtain name meta where it: "it = (name, meta)" by (cases it)
  from Cons.prems(1) obtain s1 t1 where
    1: "parse_entry J dat base region (name, meta) (spans, ts) = Inr (s1, t1)" and
    2: "res_fold (parse_entry J dat base region) items (s1, t1) = Inr (spans', ts')"
    by (auto simp: it res_bind_eq_Inr)
  show ?case
  proof (cases "name = ''__metadata__''")
    case True
    then have "s1 = spans" "t1 = ts" using 1 by (auto simp: parse_entry_def)
    then show ?thesis using Cons.IH[OF 2] Cons.prems(2) True by (simp add: it)
  next
    case False
    from parse_entry_Inr[OF 1 False] obtain span t where
      e: "s1 = spans @ [span]" "t1 = ts @ [(name, t)]" "name \<notin> fst ` set ts" "stored_tensor J dat base region meta span t" by blast
    then have "distinct (map fst t1)" using Cons.prems(2) by simp
    from Cons.IH[OF 2 this] obtain sp us where
      r: "spans' = s1 @ sp" "ts' = t1 @ us" "distinct (map fst ts')"
      "map fst us = map fst (filter (\<lambda>it. fst it \<noteq> ''__metadata__'') items)" "length sp = length us"
      "\<forall>i < length us. stored_tensor J dat base region (snd (filter (\<lambda>it. fst it \<noteq> ''__metadata__'') items ! i)) (sp ! i) (snd (us ! i))"
      by blast
    show ?thesis
      using e r False by (intro exI[of _ "span # sp"] exI[of _ "(name, t) # us"]) (auto simp: it nth_Cons split: nat.splits)
  qed
qed simp

text \<open>Neighbours that do not overlap in the sorted list: no two regions overlap.\<close>

lemma sorted_wrt_perm:
  assumes "\<And>x y. P x y \<Longrightarrow> P y x" "mset xs = mset ys" "sorted_wrt P xs"
  shows "sorted_wrt P ys"
  using assms(2,3)
proof (induction xs arbitrary: ys)
  case (Cons x xs)
  then have "x \<in># mset ys" by (metis union_single_eq_member mset.simps(2))
  then obtain a b where ys: "ys = a @ x # b" by (meson in_multiset_in_set split_list)
  then have m: "mset xs = mset (a @ b)" using Cons.prems(1) by simp
  then have "sorted_wrt P (a @ b)" using Cons by simp
  moreover have "\<forall>y \<in> set (a @ b). P x y" using Cons.prems(2) mset_eq_setD[OF m] by simp
  ultimately show ?case using assms(1) by (auto simp: ys sorted_wrt_append)
qed simp

definition apart :: "64 word \<times> 64 word \<Rightarrow> 64 word \<times> 64 word \<Rightarrow> bool" where
  "apart s t \<longleftrightarrow> snd s \<le> fst t \<or> snd t \<le> fst s"

lemma spans_disjoint_sorted:
  assumes "spans_disjoint xs" "\<forall>s \<in> set xs. fst s \<le> snd s"
  shows "sorted_wrt (\<lambda>s t. snd s \<le> fst t) xs"
  using assms
proof (induction xs)
  case (Cons x xs)
  have d: "spans_disjoint xs"
    unfolding spans_disjoint_def
  proof (intro allI impI)
    fix i assume "i < length xs" "0 < i"
    then show "snd (xs ! (i - 1)) \<le> fst (xs ! i)"
      using Cons.prems(1)[unfolded spans_disjoint_def, rule_format, of "Suc i"] by (simp add: nth_Cons')
  qed
  note IH = Cons.IH[OF d]
  have "snd x \<le> fst y" if y: "y \<in> set xs" for y
  proof -
    obtain z zs where xs: "xs = z # zs" using y by (cases xs) auto
    have "snd x \<le> fst z" using Cons.prems(1)[unfolded spans_disjoint_def, rule_format, of 1] by (simp add: xs)
    also have "fst z \<le> fst y"
    proof (cases "y = z")
      case False
      have "fst z \<le> snd z" using Cons.prems(2) by (simp add: xs)
      also have "snd z \<le> fst y" using IH Cons.prems(2) y False by (auto simp: xs)
      finally show ?thesis .
    qed simp
    finally show ?thesis .
  qed
  then show ?case using IH Cons.prems(2) by simp
qed simp

lemma spans_apart:
  assumes "spans_disjoint (sort xs)" "\<forall>s \<in> set xs. fst s \<le> snd s"
  shows "sorted_wrt apart xs"
proof (rule sorted_wrt_perm[of apart "sort xs"])
  have "sorted_wrt (\<lambda>s t. snd s \<le> fst t) (sort xs)" using assms by (intro spans_disjoint_sorted) auto
  then show "sorted_wrt apart (sort xs)" by (rule sorted_wrt_mono_rel[rotated]) (simp add: apart_def)
qed (auto simp: apart_def)

text \<open>C37: A file that parses gives exactly one tensor per header entry, under its name, with the
  shape the header says and as many elements as the shape has, and every element is the one
  stored at its place in the entry's byte range; the ranges lie inside the buffer and no two of
  them overlap.\<close>

theorem st_parse_sound:
  assumes "st_parse J dat = Inr W"
  shows "\<exists>hl header spans. header_length dat = Inr hl \<and> 8 + unat hl \<le> length dat
    \<and> js_parse J (slice 8 (unat hl) dat) = Inr header
    \<and> map fst W = map fst (tensor_items J header) \<and> distinct (map fst W) \<and> length spans = length W
    \<and> (\<forall>i < length W. stored_tensor J dat (8 + unat hl) (length dat - 8 - unat hl)
          (snd (tensor_items J header ! i)) (spans ! i) (snd (W ! i)))
    \<and> (\<forall>i j. i < j \<longrightarrow> j < length W \<longrightarrow> apart (spans ! i) (spans ! j))"
proof -
  from assms obtain hl header spans where h:
    "\<not> length dat < 8" "header_length dat = Inr hl" "\<not> length dat - 8 < unat hl"
    "js_parse J (slice 8 (unat hl) dat) = Inr header"
    "res_fold (parse_entry J dat (8 + unat hl) (length dat - 8 - unat hl)) (js_items J header) ([], []) = Inr (spans, W)"
    "spans_disjoint (sort spans)"
    by (auto simp: st_parse_def res_bind_eq_Inr split: if_splits)
  from parse_entries[OF h(5)] have e:
    "map fst W = map fst (tensor_items J header)" "distinct (map fst W)" "length spans = length W"
    "\<forall>i < length W. stored_tensor J dat (8 + unat hl) (length dat - 8 - unat hl)
          (snd (tensor_items J header ! i)) (spans ! i) (snd (W ! i))"
    by (auto simp: tensor_items_def)
  have "\<forall>s \<in> set spans. fst s \<le> snd s" using e(3,4) by (metis in_set_conv_nth stored_tensor_def)
  then have "sorted_wrt apart spans" using h(6) by (rule spans_apart[rotated])
  then have "\<forall>i j. i < j \<longrightarrow> j < length W \<longrightarrow> apart (spans ! i) (spans ! j)" using e(3) by (simp add: sorted_wrt_iff_nth_less)
  with h e show ?thesis by (intro exI[of _ hl] exI[of _ header] exI[of _ spans]) simp
qed

section \<open>The parser stays inside the buffer\<close>

lemma res_fold_Inl: "res_fold f xs s = Inl err \<Longrightarrow> \<exists>x \<in> set xs. \<exists>u. f x u = Inl err"
proof (induction xs arbitrary: s)
  case (Cons x xs)
  show ?case
  proof (cases "f x s")
    case (Inl a)
    then show ?thesis using Cons.prems by auto
  next
    case (Inr b)
    then show ?thesis using Cons by auto
  qed
qed simp

lemma res_mapM_Inl: "res_mapM f xs = Inl err \<Longrightarrow> \<exists>x \<in> set xs. f x = Inl err"
proof (induction xs)
  case (Cons x xs)
  show ?case
  proof (cases "f x")
    case (Inl a)
    then show ?thesis using Cons.prems by auto
  next
    case (Inr b)
    then have "res_mapM f xs = Inl err" using Cons.prems by (cases "res_mapM f xs") auto
    then show ?thesis using Cons.IH by auto
  qed
qed simp

lemma header_length_defined: "8 \<le> length dat \<Longrightarrow> \<exists>hl. header_length dat = Inr hl"
  using res_fold_upt_ok[where P = "\<lambda>_ _. True" and n = 8 and s = 0
      and f = "\<lambda>i h. res_bind (vec_get dat (int i)) (\<lambda>b. Inr (h OR push_bit (8 * i) (ucast b)))"]
  by (simp add: header_length_def vec_get_nat)

lemma read_element_defined:
  assumes "off + Suc i * dtype_size dt \<le> length dat"
  shows "read_element dt dat off i \<noteq> Inl Undefined"
proof (cases dt)
  case F32
  then show ?thesis using assms by (simp add: read_element_def dtype_size_def vec_get_def)
next
  case F16
  obtain f where "f16_to_f32 (little_endian_u16 (dat ! (off + 2 * i)) (dat ! (off + 2 * i + 1))) = Some f"
    using f16_to_f32_returns by blast
  then show ?thesis using F16 assms by (simp add: read_element_def dtype_size_def vec_get_def nat_add_distrib nat_mult_distrib)
next
  case BF16
  then show ?thesis using assms by (simp add: read_element_def dtype_size_def vec_get_def Let_def)
qed

lemma entry_meta_defined: "entry_meta J meta \<noteq> Inl Undefined"
  unfolding entry_meta_def dtype_from_string_def
  by (auto simp: res_bind_def js_try_def split: sum.splits if_splits)

lemma parse_entry_defined:
  assumes "parse_entry J dat base region (name, meta) st = Inl Undefined" "base + region \<le> length dat"
  shows "\<exists>dt sh b e. entry_meta J meta = Inr (dt, sh, b, e) \<and> num_elements_i64 sh = Inl Undefined"
proof -
  obtain spans ts where st: "st = (spans, ts)" by (cases st)
  obtain dt sh b e where m: "entry_meta J meta = Inr (dt, sh, b, e)"
    using assms(1) entry_meta_defined[of J meta]
    by (cases "entry_meta J meta") (auto simp: parse_entry_def st split: if_splits)
  show ?thesis
  proof (cases "num_elements_i64 sh")
    case (Inl x)
    then show ?thesis using assms(1) m by (auto simp: parse_entry_def st split: if_splits)
  next
    case (Inr n)
    have r: "b \<le> e" "unat e \<le> region" "\<forall>d \<in> set sh. 0 \<le> d" "(e - b) mod word_of_nat (dtype_size dt) = 0"
      "(e - b) div word_of_nat (dtype_size dt) = word_of_int n"
      "res_mapM (read_element dt dat (base + unat b)) [0..<nat n] = Inl Undefined"
      using assms(1)
      by (auto simp: parse_entry_def st m Inr Let_def tensor_make_def res_bind_def not_less del: mod_0_imp_dvd split: if_splits sum.splits)
    from res_mapM_Inl[OF r(6)] obtain i where i: "i < nat n" "read_element dt dat (base + unat b) i = Inl Undefined" by auto
    have "unat b \<le> unat e" using r(1) by (simp add: word_le_nat_alt)
    moreover have "unat e - unat b = nat n * dtype_size dt"
      using bytes_match[OF r(1) num_elements_i64_range[OF Inr r(3)] r(4,5)] .
    moreover have "Suc i * dtype_size dt \<le> nat n * dtype_size dt" using i(1) by (intro mult_le_mono1) simp
    ultimately have "base + unat b + Suc i * dtype_size dt \<le> length dat" using r(2) assms(2) by linarith
    then show ?thesis using read_element_defined i(2) by blast
  qed
qed

text \<open>C38: The parser reads only inside the buffer, whatever bytes it is given: the one way to undefined
  behaviour is an entry whose shape has a product that leaves \<open>int64_t\<close> (it is computed before
  the byte count is checked).\<close>

theorem st_parse_defined:
  assumes "st_parse J dat = Inl Undefined"
  shows "\<exists>hl header meta dt sh b e. header_length dat = Inr hl \<and> js_parse J (slice 8 (unat hl) dat) = Inr header
    \<and> meta \<in> snd ` set (js_items J header) \<and> entry_meta J meta = Inr (dt, sh, b, e)
    \<and> num_elements_i64 sh = Inl Undefined"
proof -
  have l: "8 \<le> length dat" using assms by (auto simp: st_parse_def split: if_splits)
  from header_length_defined[OF l] obtain hl where hl: "header_length dat = Inr hl" by blast
  have le: "unat hl \<le> length dat - 8" using assms l by (auto simp: st_parse_def hl split: if_splits)
  obtain header where header: "js_parse J (slice 8 (unat hl) dat) = Inr header"
    using assms l le by (cases "js_parse J (slice 8 (unat hl) dat)") (auto simp: st_parse_def hl js_try_def)
  let ?f = "parse_entry J dat (8 + unat hl) (length dat - 8 - unat hl)"
  have "res_fold ?f (js_items J header) ([], []) = Inl Undefined"
    using assms l le by (cases "res_fold ?f (js_items J header) ([], [])")
      (auto simp: st_parse_def hl header js_try_def split: if_splits)
  from res_fold_Inl[OF this] obtain it u where it: "it \<in> set (js_items J header)" "?f it u = Inl Undefined" by blast
  have "8 + unat hl + (length dat - 8 - unat hl) \<le> length dat" using l le by simp
  from parse_entry_defined[OF _ this, of J "fst it" "snd it" u] it obtain dt sh b e where
    "entry_meta J (snd it) = Inr (dt, sh, b, e)" "num_elements_i64 sh = Inl Undefined" by auto
  with hl header it(1) show ?thesis by blast
qed

text \<open>A concrete JSON library on a small value type: the header is the one the test gives it.\<close>

datatype jv = JStr string | JNum int | JArr "jv list" | JObj "(string \<times> jv) list"

definition toy_at :: "jv \<Rightarrow> string \<Rightarrow> string + jv" where
  "toy_at j k = (case j of JObj kvs \<Rightarrow> (case map_of kvs k of Some v \<Rightarrow> Inr v | None \<Rightarrow> Inl ''key not found'')
     | _ \<Rightarrow> Inl ''not an object'')"

definition toy_num :: "jv \<Rightarrow> string + int" where
  "toy_num j = (case j of JNum n \<Rightarrow> Inr n | _ \<Rightarrow> Inl ''not a number'')"

definition toy_json :: "jv \<Rightarrow> jv json_lib" where
  "toy_json header =
     \<lparr>js_parse = (\<lambda>_. Inr header),
      js_items = (\<lambda>j. case j of JObj kvs \<Rightarrow> kvs | _ \<Rightarrow> []),
      js_contains = (\<lambda>j k. case toy_at j k of Inl _ \<Rightarrow> False | Inr _ \<Rightarrow> True),
      js_at = toy_at,
      js_index = (\<lambda>j i. case j of JArr xs \<Rightarrow> (if i < length xs then Inr (xs ! i) else Inl ''index'') | _ \<Rightarrow> Inl ''not an array''),
      js_string = (\<lambda>j. case j of JStr s \<Rightarrow> Inr s | _ \<Rightarrow> Inl ''not a string''),
      js_i64 = toy_num,
      js_u64 = (\<lambda>j. map_sum id word_of_int (toy_num j)),
      js_i64s = (\<lambda>j. case j of JArr xs \<Rightarrow> Inr (map (\<lambda>x. case x of JNum n \<Rightarrow> n | _ \<Rightarrow> 0) xs) | _ \<Rightarrow> Inl ''not an array''),
      js_value_i64 = (\<lambda>j k d. case toy_at j k of Inl _ \<Rightarrow> Inr d | Inr v \<Rightarrow> toy_num v),
      js_value_f64 = (\<lambda>j k d. Inr d),
      js_value_bool = (\<lambda>j k d. Inr d),
      js_value_string = (\<lambda>j k d. case toy_at j k of Inl _ \<Rightarrow> Inr d | Inr (JStr s) \<Rightarrow> Inr s | _ \<Rightarrow> Inl ''not a string'')\<rparr>"

definition toy_entry :: "string \<Rightarrow> int list \<Rightarrow> int \<Rightarrow> int \<Rightarrow> jv" where
  "toy_entry dt sh b e = JObj [(''dtype'', JStr dt), (''shape'', JArr (map JNum sh)), (''data_offsets'', JArr [JNum b, JNum e])]"

definition toy_file :: "8 word list" where
  "toy_file = [0, 0, 0, 0, 0, 0, 0, 0, 0x00, 0x3C, 0x00, 0x3C, 0x80, 0x3F]"

lemmas toy_defs = toy_json_def toy_entry_def toy_at_def toy_num_def toy_file_def

lemma toy_half: "f16_to_f32 0x3C00 = Some 0x3F800000"
  by (simp add: f16_to_f32_def Let_def take_bit_eq_mod)

lemma toy_parse:
  "st_parse (toy_json (JObj [(''a'', toy_entry ''F16'' [2, 1] 0 4), (''b'', toy_entry ''BF16'' [1] 4 6)])) toy_file
   = Inr [(''a'', \<lparr>t_shape = [2, 1], t_data = [0x3F800000, 0x3F800000]\<rparr>), (''b'', \<lparr>t_shape = [1], t_data = [0x3F800000]\<rparr>)]"
proof -
  have h: "header_length toy_file = Inr 0"
    by (simp add: header_length_def toy_file_def upt_rec vec_get_def)
  show ?thesis
    by (simp add: st_parse_def h) (simp add: toy_defs js_try_def slice_def parse_entry_def entry_meta_def dtype_from_string_def dtype_size_def num_elements_i64_def i64_def
      read_element_def vec_get_def little_endian_u16_def bf16_to_f32_def toy_half upt_rec tensor_make_def spans_disjoint_def Let_def)
qed

lemma toy_parse_overflow:
  "st_parse (toy_json (JObj [(''a'', toy_entry ''F32'' [2 ^ 32, 2 ^ 32] 0 0)])) toy_file = Inl Undefined"
  by code_simp

lemma st_parse_sound_witness:
  "\<exists>W spans. st_parse (toy_json (JObj [(''a'', toy_entry ''F16'' [2, 1] 0 4), (''b'', toy_entry ''BF16'' [1] 4 6)])) toy_file = Inr W
    \<and> map fst W = [''a'', ''b''] \<and> apart (spans ! 0) (spans ! 1)"
  using st_parse_sound[OF toy_parse] toy_parse by (auto simp: less_Suc_eq numeral_2_eq_2)

lemma st_parse_defined_witness:
  "\<exists>meta dt sh b e. entry_meta (toy_json (JObj [(''a'', toy_entry ''F32'' [2 ^ 32, 2 ^ 32] 0 0)])) meta = Inr (dt, sh, b, e)
    \<and> num_elements_i64 sh = Inl Undefined"
  using st_parse_defined[OF toy_parse_overflow] by blast

section \<open>The configuration\<close>

text \<open>
  \<open>from_json\<close> throws the library's exceptions as they are. The fields are read in the order of
  the code; \<open>head_dim\<close> falls back to a division that truncates.
\<close>

definition js_raise :: "string + 'a \<Rightarrow> 'a res" where
  "js_raise r = js_try '''' r"

definition config_from_json :: "'j json_lib \<Rightarrow> 8 word list \<Rightarrow> model_config res" where
  "config_from_json J txt =
     res_bind (js_raise (js_parse J txt)) (\<lambda>j.
     let field = (\<lambda>key. res_bind (js_raise (js_at J j key)) (\<lambda>v. js_raise (js_i64 J v))) in
     res_bind (js_raise (js_value_string J j ''model_type'' '''')) (\<lambda>mtype.
     res_bind (field ''hidden_size'') (\<lambda>hidden.
     res_bind (field ''num_hidden_layers'') (\<lambda>layers.
     res_bind (field ''num_attention_heads'') (\<lambda>heads.
     if heads \<le> 0 then Inl (RuntimeError ''model config: num_attention_heads must be positive'')
     else
       res_bind (js_raise (js_value_i64 J j ''num_key_value_heads'' heads)) (\<lambda>kv_heads.
       res_bind (if js_contains J j ''head_dim'' then field ''head_dim'' else Inr (hidden sdiv heads)) (\<lambda>hd_dim.
       res_bind (field ''intermediate_size'') (\<lambda>inter.
       res_bind (field ''vocab_size'') (\<lambda>vocab.
       res_bind (js_raise (js_value_i64 J j ''max_position_embeddings'' 0)) (\<lambda>max_pos.
       res_bind (js_raise (js_value_f64 J j ''rope_theta'' 0x40C3880000000000)) (\<lambda>theta.
       res_bind (js_raise (js_value_f64 J j ''rms_norm_eps'' 0x3EB0C6F7A0B5ED8D)) (\<lambda>eps.
       res_bind (js_raise (js_value_bool J j ''tie_word_embeddings'' False)) (\<lambda>tie.
       res_bind (js_raise (js_value_string J j ''hidden_act'' ''silu'')) (\<lambda>act.
       res_bind (if mtype = ''qwen2'' then Inr True else js_raise (js_value_bool J j ''attention_bias'' False)) (\<lambda>bias.
         Inr \<lparr>hidden_size = hidden, num_hidden_layers = layers, num_attention_heads = heads,
              num_key_value_heads = kv_heads, head_dim = hd_dim, intermediate_size = inter,
              vocab_size = vocab, max_position_embeddings = max_pos, rope_theta = theta,
              rms_norm_eps = eps, tie_word_embeddings = tie, attention_qkv_bias = bias,
              hidden_act = act, model_type = mtype\<rparr>)))))))))))))))"

text \<open>What the document says of a field, or its default.\<close>

definition i64_field :: "'j json_lib \<Rightarrow> 'j \<Rightarrow> string \<Rightarrow> int \<Rightarrow> bool" where
  "i64_field J j key n \<longleftrightarrow> (case js_at J j key of Inl _ \<Rightarrow> False | Inr v \<Rightarrow> js_i64 J v = Inr n)"

lemma i64_field_iff: "i64_field J j key n \<longleftrightarrow> (\<exists>v. js_at J j key = Inr v \<and> js_i64 J v = Inr n)"
  by (auto simp: i64_field_def split: sum.splits)

lemma js_raise_eq_Inr [simp]: "js_raise r = Inr x \<longleftrightarrow> r = Inr x"
  by (simp add: js_raise_def)

text \<open>A configuration that parses has the sizes of the document, a positive number of attention
  heads, a head dimension that is the one given or else a fraction of the hidden size that
  fits in it, and a bias on q, k and v always for qwen2 and otherwise as the document says.\<close>

theorem config_from_json_ok:
  assumes "config_from_json J txt = Inr c"
  shows "\<exists>j. js_parse J txt = Inr j
    \<and> i64_field J j ''hidden_size'' (hidden_size c) \<and> i64_field J j ''num_hidden_layers'' (num_hidden_layers c)
    \<and> i64_field J j ''num_attention_heads'' (num_attention_heads c) \<and> 0 < num_attention_heads c
    \<and> i64_field J j ''intermediate_size'' (intermediate_size c) \<and> i64_field J j ''vocab_size'' (vocab_size c)
    \<and> js_value_i64 J j ''num_key_value_heads'' (num_attention_heads c) = Inr (num_key_value_heads c)
    \<and> (if js_contains J j ''head_dim'' then i64_field J j ''head_dim'' (head_dim c)
       else 0 \<le> hidden_size c \<longrightarrow> num_attention_heads c * head_dim c \<le> hidden_size c
              \<and> hidden_size c < num_attention_heads c * (head_dim c + 1))
    \<and> js_value_string J j ''model_type'' '''' = Inr (model_type c)
    \<and> (if model_type c = ''qwen2'' then attention_qkv_bias c
       else js_value_bool J j ''attention_bias'' False = Inr (attention_qkv_bias c))"
proof -
  have d: "h * (s sdiv h) \<le> s \<and> s < h * (s sdiv h + 1)" if "0 \<le> s" "0 < h" for s h :: int
  proof -
    have "h * (s div h) + s mod h = s" "0 \<le> s mod h" "s mod h < h" using that by simp_all
    moreover have "h * (s div h + 1) = h * (s div h) + h" by (simp add: distrib_left)
    ultimately have "h * (s div h) \<le> s" "s < h * (s div h + 1)" by linarith+
    then show ?thesis using that by simp
  qed
  from assms obtain j mtype hidden layers heads kv hd_dim inter vocab mp th eps tie act bias where h:
    "js_parse J txt = Inr j" "i64_field J j ''hidden_size'' hidden" "i64_field J j ''num_hidden_layers'' layers"
    "i64_field J j ''num_attention_heads'' heads" "0 < heads" "i64_field J j ''intermediate_size'' inter"
    "i64_field J j ''vocab_size'' vocab" "js_value_i64 J j ''num_key_value_heads'' heads = Inr kv"
    "js_value_string J j ''model_type'' '''' = Inr mtype"
    "(if js_contains J j ''head_dim'' then res_bind (js_raise (js_at J j ''head_dim'')) (\<lambda>v. js_raise (js_i64 J v))
      else Inr (hidden sdiv heads)) = Inr hd_dim"
    "(if mtype = ''qwen2'' then Inr True else js_raise (js_value_bool J j ''attention_bias'' False)) = Inr bias"
    "c = \<lparr>hidden_size = hidden, num_hidden_layers = layers, num_attention_heads = heads,
              num_key_value_heads = kv, head_dim = hd_dim, intermediate_size = inter,
              vocab_size = vocab, max_position_embeddings = mp, rope_theta = th,
              rms_norm_eps = eps, tie_word_embeddings = tie, attention_qkv_bias = bias,
              hidden_act = act, model_type = mtype\<rparr>"
    unfolding config_from_json_def Let_def res_bind_eq_Inr res_guard_eq_Inr i64_field_iff not_le js_raise_eq_Inr by blast
  have hd: "if js_contains J j ''head_dim'' then i64_field J j ''head_dim'' hd_dim
       else 0 \<le> hidden \<longrightarrow> heads * hd_dim \<le> hidden \<and> hidden < heads * (hd_dim + 1)"
    using h(10) d[of hidden heads] h(5) by (auto simp: res_bind_eq_Inr i64_field_iff split: if_splits)
  have "if mtype = ''qwen2'' then bias else js_value_bool J j ''attention_bias'' False = Inr bias"
    using h(11) by (auto split: if_splits)
  with hd h(1-9) show ?thesis unfolding h(12) by (intro exI[of _ j]) simp
qed

definition toy_config_doc :: jv where
  "toy_config_doc = JObj [(''hidden_size'', JNum 10), (''num_hidden_layers'', JNum 1), (''num_attention_heads'', JNum 4),
     (''intermediate_size'', JNum 3), (''vocab_size'', JNum 5), (''model_type'', JStr ''qwen2'')]"

lemma config_from_json_ok_witness:
  "\<exists>c. config_from_json (toy_json toy_config_doc) [] = Inr c \<and> 0 < num_attention_heads c \<and> attention_qkv_bias c"
proof -
  obtain c where c: "config_from_json (toy_json toy_config_doc) [] = Inr c" "model_type c = ''qwen2''"
    by (simp add: config_from_json_def toy_config_doc_def toy_defs js_raise_def js_try_def Let_def)
  show ?thesis using config_from_json_ok[OF c(1)] c by auto
qed

end
