(* ===== verification/Cuda_Kernels.thy ===== *)
theory Cuda_Kernels
  imports NN_Rows Sampler
begin

text \<open>
  \<open>device.cu\<close>: the device kernels and their launches. A kernel is what one thread does to
  the buffer it writes; a launch runs the threads of its grid in an order the hardware
  chooses (\<open>g_order\<close>), and a kernel with barriers is a sequence of such phases. A read or
  write outside a buffer is \<open>Undefined\<close>. What is not in the sources is the record \<open>gpu\<close>:
  the device arithmetic, cuBLAS' product and the thread order. The runtime calls
  (\<open>cudaMalloc\<close>, \<open>cudaMemcpy\<close>) succeed; fresh memory holds an arbitrary pattern.
\<close>

section \<open>The device\<close>

record gpu =
  g_fpu :: fpu
  g_sgemm :: "nat \<Rightarrow> nat \<Rightarrow> nat \<Rightarrow> f32 list \<Rightarrow> f32 list \<Rightarrow> f32 list"
  g_order :: "nat \<Rightarrow> nat list"
  g_junk :: f32

text \<open>Every thread runs exactly once.\<close>

definition schedules :: "gpu \<Rightarrow> bool" where
  "schedules G \<longleftrightarrow> (\<forall>n. distinct (g_order G n) \<and> set (g_order G n) = {..<n})"

abbreviation (input) kThreads :: nat where "kThreads \<equiv> 256"
abbreviation (input) kMaxHeadDim :: int where "kMaxHeadDim \<equiv> 256"

text \<open>\<open>static_cast<int>\<close> of an \<open>int64_t\<close>.\<close>

definition cast_int :: "int \<Rightarrow> int" where
  "cast_int x = sint (word_of_int x :: 32 word)"

definition grid_for :: "int \<Rightarrow> int \<Rightarrow> int" where
  "grid_for work threads = cast_int ((work + threads - 1) sdiv threads)"

text \<open>A launch with an empty grid is an error of the runtime, which \<open>check\<close> throws.\<close>

definition launch :: "gpu \<Rightarrow> int \<Rightarrow> (nat \<Rightarrow> 'a list \<Rightarrow> 'a list res) \<Rightarrow> 'a list \<Rightarrow> 'a list res" where
  "launch G grid thread buf =
     (if grid \<le> 0 then Inl (RuntimeError ''cuda: launch: invalid configuration argument'')
      else res_fold thread (g_order G (nat grid * kThreads)) buf)"

definition launch_blocks :: "gpu \<Rightarrow> int \<Rightarrow> (nat \<Rightarrow> 'a list \<Rightarrow> 'a list res) \<Rightarrow> 'a list \<Rightarrow> 'a list res" where
  "launch_blocks G grid block buf =
     (if grid \<le> 0 then Inl (RuntimeError ''cuda: launch: invalid configuration argument'')
      else res_fold block (g_order G (nat grid)) buf)"

text \<open>Reading and writing \<open>n\<close> elements one after the other.\<close>

definition vec_read :: "'a list \<Rightarrow> int \<Rightarrow> int \<Rightarrow> 'a list res" where
  "vec_read xs off n =
     (if n \<le> 0 then Inr []
      else if 0 \<le> off \<and> off + n \<le> int (length xs) then Inr (slice (nat off) (nat n) xs) else Inl Undefined)"

definition vec_write :: "'a list \<Rightarrow> int \<Rightarrow> 'a list \<Rightarrow> 'a list res" where
  "vec_write xs off ys =
     (if ys = [] then Inr xs
      else if 0 \<le> off \<and> off + int (length ys) \<le> int (length xs) then Inr (blit (nat off) ys xs) else Inl Undefined)"

section \<open>Elementwise kernels\<close>

definition saxpy_kernel :: "fpu \<Rightarrow> f32 \<Rightarrow> f32 list \<Rightarrow> f32 list \<Rightarrow> int \<Rightarrow> nat \<Rightarrow> f32 list \<Rightarrow> f32 list res" where
  "saxpy_kernel F a x y n t out =
     (let i = int t
      in if i < n then res_bind (vec_get x i) (\<lambda>xi. res_bind (vec_get y i) (\<lambda>yi. vec_set out i (f_mad F a xi yi)))
         else Inr out)"

definition embedding_kernel :: "f32 list \<Rightarrow> int list \<Rightarrow> int \<Rightarrow> int \<Rightarrow> nat \<Rightarrow> f32 list \<Rightarrow> f32 list res" where
  "embedding_kernel weight ids n_ids hidden t out =
     (let idx = int t
      in if n_ids * hidden \<le> idx then Inr out
         else let r = idx sdiv hidden; c = idx smod hidden
              in res_bind (vec_get ids r) (\<lambda>tok. res_bind (vec_get weight (tok * hidden + c)) (vec_set out idx)))"

definition add_inplace_kernel :: "fpu \<Rightarrow> f32 list \<Rightarrow> int \<Rightarrow> nat \<Rightarrow> f32 list \<Rightarrow> f32 list res" where
  "add_inplace_kernel F y n t x =
     (let i = int t
      in if i < n then res_bind (vec_get x i) (\<lambda>xi. res_bind (vec_get y i) (\<lambda>yi. vec_set x i (f_add F xi yi)))
         else Inr x)"

definition add_bias_kernel :: "fpu \<Rightarrow> f32 list \<Rightarrow> int \<Rightarrow> int \<Rightarrow> nat \<Rightarrow> f32 list \<Rightarrow> f32 list res" where
  "add_bias_kernel F bias rs out_dim t y =
     (let idx = int t
      in if idx < rs * out_dim
         then res_bind (vec_get y idx) (\<lambda>yi. res_bind (vec_get bias (idx smod out_dim)) (\<lambda>b. vec_set y idx (f_add F yi b)))
         else Inr y)"

definition silu_mul_kernel :: "fpu \<Rightarrow> f32 list \<Rightarrow> f32 list \<Rightarrow> int \<Rightarrow> nat \<Rightarrow> f32 list \<Rightarrow> f32 list res" where
  "silu_mul_kernel F gate up n t out =
     (let i = int t
      in if i < n
         then res_bind (vec_get gate i) (\<lambda>x. res_bind (vec_get up i) (\<lambda>u.
                vec_set out i (f_mul F (f_div F x (f_add F f32_one (f_exp F (f32_neg x)))) u)))
         else Inr out)"

text \<open>One thread per rotation pair \<open>(row, head, i)\<close>.\<close>

definition rope_kernel :: "fpu \<Rightarrow> int \<Rightarrow> int \<Rightarrow> int \<Rightarrow> f64 \<Rightarrow> int list \<Rightarrow> nat \<Rightarrow> f32 list \<Rightarrow> f32 list res" where
  "rope_kernel F rs n_heads head_dim theta pos t x =
     (let half = head_dim sdiv 2; per_row = n_heads * half; idx = int t
      in if rs * per_row \<le> idx then Inr x
         else let r = idx sdiv per_row; rem = idx smod per_row; hh = rem sdiv half; i = rem smod half
              in res_bind (vec_get pos r) (\<lambda>p.
                 let position = d_of_int F p;
                     freq = d_pow F theta (d_div F (d_mul F f64_minus_two (d_of_int F i)) (d_of_int F head_dim));
                     angle = d_mul F position freq; c = d_cos F angle; s = d_sin F angle;
                     head = r * n_heads * head_dim + hh * head_dim
                 in res_bind (vec_get x (head + i)) (\<lambda>x1. res_bind (vec_get x (head + i + half)) (\<lambda>x2.
                    res_bind (vec_set x (head + i) (f_of_d F (d_mul_sub F (d_of_f F x1) c (d_of_f F x2) s))) (\<lambda>x.
                      vec_set x (head + i + half) (f_of_d F (d_mul_add F (d_of_f F x2) c (d_of_f F x1) s)))))))"

section \<open>Attention with an online softmax\<close>

text \<open>The arithmetic the softmax computes in, so that the algorithm can also be read over the reals.\<close>

record 'a arith =
  ar_zero :: 'a
  ar_one :: 'a
  ar_add :: "'a \<Rightarrow> 'a \<Rightarrow> 'a"
  ar_sub :: "'a \<Rightarrow> 'a \<Rightarrow> 'a"
  ar_mul :: "'a \<Rightarrow> 'a \<Rightarrow> 'a"
  ar_div :: "'a \<Rightarrow> 'a \<Rightarrow> 'a"
  ar_mad :: "'a \<Rightarrow> 'a \<Rightarrow> 'a \<Rightarrow> 'a"
  ar_mul_add :: "'a \<Rightarrow> 'a \<Rightarrow> 'a \<Rightarrow> 'a \<Rightarrow> 'a"
  ar_exp :: "'a \<Rightarrow> 'a"
  ar_max :: "'a \<Rightarrow> 'a \<Rightarrow> 'a"
  ar_low :: 'a

definition f64_arith :: "fpu \<Rightarrow> (f64 \<Rightarrow> f64 \<Rightarrow> f64) \<Rightarrow> f64 \<Rightarrow> f64 arith" where
  "f64_arith F mx low = \<lparr>ar_zero = 0, ar_one = f64_one, ar_add = d_add F, ar_sub = d_sub F, ar_mul = d_mul F,
     ar_div = d_div F, ar_mad = d_mad F, ar_mul_add = d_mul_add F, ar_exp = d_exp F, ar_max = mx, ar_low = low\<rparr>"

text \<open>\<open>fmax\<close> gives the other operand when one is a NaN.\<close>

definition f64_fmax :: "f64 \<Rightarrow> f64 \<Rightarrow> f64" where
  "f64_fmax a b = (if f64_nan a then b else if f64_nan b then a else if f64_lt a b then b else a)"

text \<open>One key: the running maximum, the running sum and the accumulated values.\<close>

definition online_step :: "'a arith \<Rightarrow> 'a \<times> 'a \<times> 'a list \<Rightarrow> 'a \<times> 'a list \<Rightarrow> 'a \<times> 'a \<times> 'a list" where
  "online_step A st sv =
     (case st of (running_max, running_sum, acc) \<Rightarrow> case sv of (score, vvec) \<Rightarrow>
      let new_max = ar_max A running_max score;
          correction = ar_exp A (ar_sub A running_max new_max);
          weight = ar_exp A (ar_sub A score new_max)
      in (new_max, ar_mad A running_sum correction weight,
          map2 (\<lambda>a v. ar_mul_add A a correction weight v) acc vvec))"

definition online_softmax :: "'a arith \<Rightarrow> nat \<Rightarrow> ('a \<times> 'a list) list \<Rightarrow> 'a list" where
  "online_softmax A dims svs =
     (case foldl (online_step A) (ar_low A, ar_zero A, replicate dims (ar_zero A)) svs of (m, l, acc) \<Rightarrow>
      let inv_sum = ar_div A (ar_one A) l in map (\<lambda>a. ar_mul A a inv_sum) acc)"

text \<open>\<open>-1.0e308\<close>, the maximum before the first key.\<close>

abbreviation f64_low :: f64 where "f64_low \<equiv> 0xFFE1CCF385EBC8A0"

definition gpu_attn_head :: "fpu \<Rightarrow> f64 \<Rightarrow> nat \<Rightarrow> f32 list \<Rightarrow> f32 list list \<Rightarrow> f32 list list \<Rightarrow> f32 list" where
  "gpu_attn_head F scale dims qvec kvecs vvecs =
     map (f_of_d F) (online_softmax (f64_arith F f64_fmax f64_low) dims
       (map2 (\<lambda>kvec vvec. (d_mul F (dot F qvec kvec) scale, map (d_of_f F) vvec)) kvecs vvecs))"

text \<open>One thread per head and query. Division by zero is undefined.\<close>

definition attention_kernel ::
    "fpu \<Rightarrow> f32 list \<Rightarrow> f32 list \<Rightarrow> f32 list \<Rightarrow> int \<Rightarrow> int \<Rightarrow> int \<Rightarrow> int \<Rightarrow> int \<Rightarrow> f64 \<Rightarrow> nat \<Rightarrow> f32 list \<Rightarrow> f32 list res" where
  "attention_kernel F q k v q_len n_heads n_kv_heads head_dim query_offset scale t out =
     (let idx = int t
      in if n_heads * q_len \<le> idx then Inr out
         else if n_kv_heads = 0 \<or> n_heads sdiv n_kv_heads = 0 then Inl Undefined
         else let h = idx sdiv q_len; i = idx smod q_len; group = n_heads sdiv n_kv_heads; kvh = h sdiv group;
                  last = query_offset + i; off = i * n_heads * head_dim + h * head_dim;
                  kv_off = (\<lambda>j. int j * n_kv_heads * head_dim + kvh * head_dim)
              in res_bind (vec_read q off head_dim) (\<lambda>qvec.
                 res_bind (res_mapM (\<lambda>j. vec_read k (kv_off j) head_dim) [0..<nat (last + 1)]) (\<lambda>kvecs.
                 res_bind (res_mapM (\<lambda>j. vec_read v (kv_off j) head_dim) [0..<nat (last + 1)]) (\<lambda>vvecs.
                   vec_write out off (gpu_attn_head F scale (nat head_dim) qvec kvecs vvecs)))))"

section \<open>Paged scatter and gather\<close>

definition paged_scatter_kernel ::
    "int list \<Rightarrow> f32 list \<Rightarrow> int \<Rightarrow> int \<Rightarrow> int \<Rightarrow> int \<Rightarrow> nat \<Rightarrow> f32 list \<Rightarrow> f32 list res" where
  "paged_scatter_kernel block_table src start n block_size kv_dim t pool =
     (let idx = int t
      in if n * kv_dim \<le> idx then Inr pool
         else let r = idx sdiv kv_dim; e = idx smod kv_dim; logical = start + r
              in res_bind (vec_get block_table (logical sdiv block_size)) (\<lambda>pb.
                 let slot = logical smod block_size
                 in res_bind (vec_get src (r * kv_dim + e)) (vec_set pool ((pb * block_size + slot) * kv_dim + e))))"

definition paged_gather_kernel ::
    "f32 list \<Rightarrow> int list \<Rightarrow> int \<Rightarrow> int \<Rightarrow> int \<Rightarrow> nat \<Rightarrow> f32 list \<Rightarrow> f32 list res" where
  "paged_gather_kernel pool block_table rs block_size kv_dim t out =
     (let idx = int t
      in if rs * kv_dim \<le> idx then Inr out
         else let r = idx sdiv kv_dim; e = idx smod kv_dim
              in res_bind (vec_get block_table (r sdiv block_size)) (\<lambda>pb.
                 let slot = r smod block_size
                 in res_bind (vec_get pool ((pb * block_size + slot) * kv_dim + e)) (vec_set out idx)))"

section \<open>Block kernels: a tree reduction in shared memory\<close>

text \<open>\<open>for (j = threadIdx.x; j < n; j += blockDim.x)\<close>\<close>

function strided :: "nat \<Rightarrow> nat \<Rightarrow> nat \<Rightarrow> nat list" where
  "strided step n j = (if j < n \<and> 0 < step then j # strided step n (j + step) else [])"
  by pat_completeness auto
termination by (relation "measure (\<lambda>(step, n, j). n - j)") auto

declare strided.simps [simp del]

definition reduce_step :: "('a \<Rightarrow> 'a \<Rightarrow> 'a) \<Rightarrow> nat \<Rightarrow> nat \<Rightarrow> 'a list \<Rightarrow> 'a list res" where
  "reduce_step f stride t s =
     (if t < stride
      then res_bind (vec_get s (int t)) (\<lambda>a. res_bind (vec_get s (int (t + stride))) (\<lambda>b. vec_set s (int t) (f a b)))
      else Inr s)"

text \<open>\<open>for (stride = blockDim / 2; stride > 0; stride >>= 1)\<close>, with a barrier after each stride.\<close>

function tree_reduce :: "gpu \<Rightarrow> ('a \<Rightarrow> 'a \<Rightarrow> 'a) \<Rightarrow> nat \<Rightarrow> 'a list \<Rightarrow> 'a list res" where
  "tree_reduce G f stride s =
     (if stride = 0 then Inr s
      else res_bind (res_fold (reduce_step f stride) (g_order G kThreads) s) (tree_reduce G f (stride div 2)))"
  by pat_completeness auto
termination by (relation "measure (\<lambda>(G, f, stride, s). stride)") auto

declare tree_reduce.simps [simp del]

text \<open>What the threads of one block put into shared memory, in any order.\<close>

definition shared_fill :: "gpu \<Rightarrow> (nat \<Rightarrow> 'a) \<Rightarrow> 'a \<Rightarrow> 'a list res" where
  "shared_fill G f junk = res_fold (\<lambda>t s. vec_set s (int t) (f t)) (g_order G kThreads) (replicate kThreads junk)"

definition rms_partial :: "fpu \<Rightarrow> f32 list \<Rightarrow> nat \<Rightarrow> f64" where
  "rms_partial F xr t =
     foldl (\<lambda>acc j. let v = d_of_f F (xr ! j) in d_mad F v v acc) 0 (strided kThreads (length xr) t)"

definition rms_norm_kernel ::
    "gpu \<Rightarrow> f32 list \<Rightarrow> f32 list \<Rightarrow> int \<Rightarrow> f64 \<Rightarrow> nat \<Rightarrow> f32 list \<Rightarrow> f32 list res" where
  "rms_norm_kernel G x weight width eps r out =
     (let F = g_fpu G
      in res_bind (vec_read x (int r * width) width) (\<lambda>xr.
         res_bind (vec_read weight 0 width) (\<lambda>w.
         res_bind (shared_fill G (rms_partial F xr) 0) (\<lambda>shared.
         res_bind (tree_reduce G (d_add F) (kThreads div 2) shared) (\<lambda>shared.
         res_bind (vec_get shared 0) (\<lambda>sum_sq.
           let scale = d_div F f64_one (d_sqrt F (d_add F (d_div F sum_sq (d_of_int F width)) eps))
           in res_fold (\<lambda>t. res_fold (\<lambda>j out. vec_set out (int r * width + int j)
                  (f_mul F (f_of_d F (d_mul F (d_of_f F (xr ! j)) scale)) (w ! j))) (strided kThreads (nat width) t))
                (g_order G kThreads) out))))))"

text \<open>\<open>-FLT_MAX\<close>\<close>

abbreviation f32_lowest :: f32 where "f32_lowest \<equiv> 0xFF7FFFFF"

definition argmax_partial :: "f32 list \<Rightarrow> nat \<Rightarrow> f32 \<times> int" where
  "argmax_partial r t =
     foldl (\<lambda>(best_val, best_idx) j. if f32_lt best_val (r ! j) then (r ! j, int j) else (best_val, best_idx))
       (f32_lowest, 0) (strided kThreads (length r) t)"

definition argmax_pick :: "f32 \<times> int \<Rightarrow> f32 \<times> int \<Rightarrow> f32 \<times> int" where
  "argmax_pick p other =
     (if f32_lt (fst p) (fst other) \<or> (f32_eq (fst other) (fst p) \<and> snd other < snd p) then other else p)"

definition argmax_kernel :: "gpu \<Rightarrow> f32 list \<Rightarrow> int \<Rightarrow> nat \<Rightarrow> int list \<Rightarrow> int list res" where
  "argmax_kernel G logits cols r out =
     res_bind (vec_read logits (int r * cols) cols) (\<lambda>xr.
     res_bind (shared_fill G (argmax_partial xr) (f32_lowest, 0)) (\<lambda>shared.
     res_bind (tree_reduce G argmax_pick (kThreads div 2) shared) (\<lambda>shared.
     res_bind (vec_get shared 0) (\<lambda>best. vec_set out (int r) (snd best)))))"

section \<open>Launches\<close>

definition k_embedding :: "gpu \<Rightarrow> f32 list \<Rightarrow> int list \<Rightarrow> f32 list \<Rightarrow> int \<Rightarrow> int \<Rightarrow> f32 list res" where
  "k_embedding G weight ids out n_ids hidden =
     (if n_ids \<le> 0 \<or> hidden \<le> 0 then Inr out
      else launch G (grid_for (n_ids * hidden) (int kThreads)) (embedding_kernel weight ids n_ids hidden) out)"

definition k_rms_norm :: "gpu \<Rightarrow> f32 list \<Rightarrow> f32 list \<Rightarrow> f32 list \<Rightarrow> int \<Rightarrow> int \<Rightarrow> f64 \<Rightarrow> f32 list res" where
  "k_rms_norm G x weight out rs width eps =
     (if rs \<le> 0 \<or> width \<le> 0 then Inr out else launch_blocks G (cast_int rs) (rms_norm_kernel G x weight width eps) out)"

definition k_silu_mul :: "gpu \<Rightarrow> f32 list \<Rightarrow> f32 list \<Rightarrow> f32 list \<Rightarrow> int \<Rightarrow> f32 list res" where
  "k_silu_mul G gate up out n =
     (if n \<le> 0 then Inr out else launch G (grid_for n (int kThreads)) (silu_mul_kernel (g_fpu G) gate up n) out)"

definition k_add_inplace :: "gpu \<Rightarrow> f32 list \<Rightarrow> f32 list \<Rightarrow> int \<Rightarrow> f32 list res" where
  "k_add_inplace G x y n =
     (if n \<le> 0 then Inr x else launch G (grid_for n (int kThreads)) (add_inplace_kernel (g_fpu G) y n) x)"

definition k_rope :: "gpu \<Rightarrow> f32 list \<Rightarrow> int \<Rightarrow> int \<Rightarrow> int \<Rightarrow> f64 \<Rightarrow> int list \<Rightarrow> f32 list res" where
  "k_rope G x rs n_heads head_dim theta positions =
     (if rs \<le> 0 \<or> n_heads \<le> 0 \<or> head_dim \<le> 0 then Inr x
      else launch G (grid_for (rs * n_heads * (head_dim sdiv 2)) (int kThreads))
             (rope_kernel (g_fpu G) rs n_heads head_dim theta positions) x)"

text \<open>
  \<open>cublasSgemm\<close> takes its sizes as \<open>int\<close>, refuses negative ones and overwrites \<open>y\<close>;
  \<open>bias\<close> is a null pointer when there is none.
\<close>

definition sgemm :: "gpu \<Rightarrow> f32 list \<Rightarrow> f32 list \<Rightarrow> f32 list \<Rightarrow> int \<Rightarrow> int \<Rightarrow> int \<Rightarrow> f32 list res" where
  "sgemm G x weight y rs in_dim out_dim =
     (if rs < 0 \<or> in_dim < 0 \<or> out_dim < 0 then Inl (RuntimeError ''cublas: sgemm'')
      else res_bind (vec_read x 0 (rs * in_dim)) (\<lambda>x. res_bind (vec_read weight 0 (out_dim * in_dim)) (\<lambda>w.
           vec_write y 0 (g_sgemm G (nat rs) (nat in_dim) (nat out_dim) x w))))"

definition k_linear ::
    "gpu \<Rightarrow> f32 list \<Rightarrow> f32 list \<Rightarrow> f32 list option \<Rightarrow> f32 list \<Rightarrow> int \<Rightarrow> int \<Rightarrow> int \<Rightarrow> f32 list res" where
  "k_linear G x weight bias y rs in_dim out_dim =
     (if rs \<le> 0 \<or> in_dim \<le> 0 \<or> out_dim \<le> 0 then Inr y
      else res_bind (sgemm G x weight y (cast_int rs) (cast_int in_dim) (cast_int out_dim)) (\<lambda>y.
             case bias of None \<Rightarrow> Inr y
             | Some b \<Rightarrow> launch G (grid_for (rs * out_dim) (int kThreads)) (add_bias_kernel (g_fpu G) b rs out_dim) y))"

definition k_attention ::
    "gpu \<Rightarrow> f32 list \<Rightarrow> f32 list \<Rightarrow> f32 list \<Rightarrow> f32 list \<Rightarrow> int \<Rightarrow> int \<Rightarrow> int \<Rightarrow> int \<Rightarrow> int \<Rightarrow> int \<Rightarrow> f32 list res" where
  "k_attention G q k v out q_len n_keys n_heads n_kv_heads head_dim query_offset =
     (if q_len \<le> 0 \<or> n_keys \<le> 0 then Inr out
      else if kMaxHeadDim < head_dim then Inl (RuntimeError ''cuda attention: head_dim exceeds supported maximum'')
      else let F = g_fpu G; scale = d_div F f64_one (d_sqrt F (d_of_int F head_dim))
           in launch G (grid_for (n_heads * q_len) (int kThreads))
                (attention_kernel F q k v q_len n_heads n_kv_heads head_dim query_offset scale) out)"

definition k_paged_scatter ::
    "gpu \<Rightarrow> f32 list \<Rightarrow> int list \<Rightarrow> f32 list \<Rightarrow> int \<Rightarrow> int \<Rightarrow> int \<Rightarrow> int \<Rightarrow> f32 list res" where
  "k_paged_scatter G pool block_table src start n block_size kv_dim =
     (if n \<le> 0 \<or> kv_dim \<le> 0 then Inr pool
      else launch G (grid_for (n * kv_dim) (int kThreads)) (paged_scatter_kernel block_table src start n block_size kv_dim) pool)"

definition k_paged_gather ::
    "gpu \<Rightarrow> f32 list \<Rightarrow> int list \<Rightarrow> f32 list \<Rightarrow> int \<Rightarrow> int \<Rightarrow> int \<Rightarrow> f32 list res" where
  "k_paged_gather G pool block_table out rs block_size kv_dim =
     (if rs \<le> 0 \<or> kv_dim \<le> 0 then Inr out
      else launch G (grid_for (rs * kv_dim) (int kThreads)) (paged_gather_kernel pool block_table rs block_size kv_dim) out)"

definition k_argmax :: "gpu \<Rightarrow> f32 list \<Rightarrow> int list \<Rightarrow> int \<Rightarrow> int \<Rightarrow> int list res" where
  "k_argmax G logits out rs cols =
     (if rs \<le> 0 \<or> cols \<le> 0 then Inr out else launch_blocks G (cast_int rs) (argmax_kernel G logits cols) out)"

end
