(* ===== verification/Cuda_Threads.thy ===== *)
theory Cuda_Threads
  imports Cuda_Kernels
begin

text \<open>
  What a launch computes, whatever the order of its threads. Every kernel has its owner
  function: the one thread that writes a position of the buffer; distinct threads own
  distinct positions and read only what they own or what nobody writes.
\<close>

section \<open>Threads that own what they write\<close>

lemma thread_fold:
  assumes step: "\<And>t b. t \<in> set ord \<Longrightarrow> length b = L \<Longrightarrow> (\<forall>p < L. own p = Some t \<longrightarrow> b ! p = b0 ! p) \<Longrightarrow>
      \<exists>b'. f t b = Inr b' \<and> length b' = L \<and> (\<forall>p < L. b' ! p = (if own p = Some t then r p else b ! p))"
    and d: "distinct ord" and l: "length b1 = L" and eq: "\<forall>p < L. (\<exists>t \<in> set ord. own p = Some t) \<longrightarrow> b1 ! p = b0 ! p"
  shows "\<exists>b'. res_fold f ord b1 = Inr b' \<and> length b' = L
    \<and> (\<forall>p < L. b' ! p = (if \<exists>t \<in> set ord. own p = Some t then r p else b1 ! p))"
  using step d l eq
proof (induction ord arbitrary: b1)
  case (Cons t ord)
  have "\<forall>p < L. own p = Some t \<longrightarrow> b1 ! p = b0 ! p" using Cons.prems(4) by auto
  with Cons.prems(1)[of t b1] Cons.prems(3) obtain b2 where
    b2: "f t b1 = Inr b2" "length b2 = L" "\<forall>p < L. b2 ! p = (if own p = Some t then r p else b1 ! p)" by auto
  have eq2: "\<forall>p < L. (\<exists>t \<in> set ord. own p = Some t) \<longrightarrow> b2 ! p = b0 ! p"
  proof (intro allI impI)
    fix p assume p: "p < L" "\<exists>u \<in> set ord. own p = Some u"
    then have "own p \<noteq> Some t" using Cons.prems(2) by auto
    then show "b2 ! p = b0 ! p" using b2(3) p Cons.prems(4) by auto
  qed
  have "\<exists>b'. res_fold f ord b2 = Inr b' \<and> length b' = L
    \<and> (\<forall>p < L. b' ! p = (if \<exists>t \<in> set ord. own p = Some t then r p else b2 ! p))"
  proof (rule Cons.IH[OF _ _ b2(2) eq2])
    fix u b assume "u \<in> set ord" "length b = L" "\<forall>p < L. own p = Some u \<longrightarrow> b ! p = b0 ! p"
    then show "\<exists>b'. f u b = Inr b' \<and> length b' = L \<and> (\<forall>p < L. b' ! p = (if own p = Some u then r p else b ! p))"
      using Cons.prems(1)[of u b] by simp
  qed (use Cons.prems(2) in simp)
  then obtain b' where b': "res_fold f ord b2 = Inr b'" "length b' = L"
    "\<forall>p < L. b' ! p = (if \<exists>t \<in> set ord. own p = Some t then r p else b2 ! p)" by blast
  have "b' ! p = (if \<exists>u \<in> set (t # ord). own p = Some u then r p else b1 ! p)" if "p < L" for p
    using b'(3) b2(3) that by (cases "own p = Some t") auto
  then show ?case using b' b2(1) by auto
qed simp

lemma cast_int_small: "0 \<le> x \<Longrightarrow> x < 2 ^ 31 \<Longrightarrow> cast_int x = x"
  by (simp add: cast_int_def signed_take_bit_int_eq_self sint_sbintrunc')

lemma grid_covers:
  assumes "0 < w" "w < 2 ^ 38"
  shows "\<exists>g. grid_for w (int kThreads) = int g \<and> 0 < g \<and> w \<le> int (g * kThreads)"
proof -
  let ?g = "(w + 255) div 256"
  have "0 < ?g" "?g < 2 ^ 31" using assms by (simp_all add: div_less_iff_less_mult pos_imp_zdiv_pos_iff)
  moreover have "w \<le> ?g * 256" by linarith
  ultimately show ?thesis using assms
    by (intro exI[of _ "nat ?g"]) (simp add: grid_for_def cast_int_small)
qed

lemma launch_ok:
  assumes G: "schedules G" and w: "0 < w" "w < 2 ^ 38"
    and step: "\<And>t b. int t < w \<Longrightarrow> length b = length b0 \<Longrightarrow> (\<forall>p < length b0. own p = Some t \<longrightarrow> b ! p = b0 ! p) \<Longrightarrow>
      \<exists>b'. f t b = Inr b' \<and> length b' = length b0 \<and> (\<forall>p < length b0. b' ! p = (if own p = Some t then r p else b ! p))"
    and idle: "\<And>t b. w \<le> int t \<Longrightarrow> f t b = Inr b"
    and own: "\<And>p t. p < length b0 \<Longrightarrow> own p = Some t \<Longrightarrow> int t < w"
  shows "launch G (grid_for w (int kThreads)) f b0
    = Inr (map (\<lambda>p. if own p = None then b0 ! p else r p) [0..<length b0])"
proof -
  from grid_covers[OF w] obtain g where g: "grid_for w (int kThreads) = int g" "0 < g" "w \<le> int (g * kThreads)" by blast
  let ?ord = "g_order G (g * kThreads)"
  have o: "distinct ?ord" "set ?ord = {..<g * kThreads}" using G by (simp_all add: schedules_def)
  have s: "\<exists>b'. f t b = Inr b' \<and> length b' = length b0 \<and> (\<forall>p < length b0. b' ! p = (if own p = Some t then r p else b ! p))"
    if "length b = length b0" "\<forall>p < length b0. own p = Some t \<longrightarrow> b ! p = b0 ! p" for t b
  proof (cases "int t < w")
    case False
    then have "f t b = Inr b" "\<forall>p < length b0. own p \<noteq> Some t" using idle own by fastforce+
    then show ?thesis using that by auto
  qed (use step that in blast)
  have "\<exists>b'. res_fold f ?ord b0 = Inr b' \<and> length b' = length b0
    \<and> (\<forall>p < length b0. b' ! p = (if \<exists>t \<in> set ?ord. own p = Some t then r p else b0 ! p))"
    by (rule thread_fold[OF _ o(1) refl]) (use s in blast)+
  then obtain b' where b': "res_fold f ?ord b0 = Inr b'" "length b' = length b0"
    "\<forall>p < length b0. b' ! p = (if \<exists>t \<in> set ?ord. own p = Some t then r p else b0 ! p)" by blast
  have "b' = map (\<lambda>p. if own p = None then b0 ! p else r p) [0..<length b0]"
  proof (rule nth_equalityI)
    fix p assume p: "p < length b'"
    have "(\<exists>t \<in> set ?ord. own p = Some t) \<longleftrightarrow> own p \<noteq> None"
    proof (cases "own p")
      case (Some t)
      then have "int t < w" using own p b'(2) by simp
      then have "t < g * kThreads" using g(3) by linarith
      then show ?thesis using o(2) Some by auto
    qed simp
    then show "b' ! p = map (\<lambda>p. if own p = None then b0 ! p else r p) [0..<length b0] ! p" using p b'(2,3) by simp
  qed (use b'(2) in simp)
  moreover have "launch G (int g) f b0 = res_fold f ?ord b0" using g(2) by (simp add: launch_def)
  ultimately show ?thesis using b'(1) g(1) by simp
qed

text \<open>One thread per position.\<close>

lemma launch_map:
  assumes "schedules G" "length b0 = n" "0 < n" "int n < 2 ^ 38"
    and step: "\<And>t b. t < n \<Longrightarrow> length b = n \<Longrightarrow> b ! t = b0 ! t \<Longrightarrow> f t b = Inr (b[t := r t])"
    and idle: "\<And>t b. n \<le> t \<Longrightarrow> f t b = Inr b"
  shows "launch G (grid_for (int n) (int kThreads)) f b0 = Inr (map r [0..<n])"
proof -
  have "launch G (grid_for (int n) (int kThreads)) f b0 = Inr (map (\<lambda>p. if Some p = None then b0 ! p else r p) [0..<length b0])"
  proof (rule launch_ok[where own = Some])
    fix t b assume t: "int t < int n" "length b = length b0" "\<forall>p < length b0. Some p = Some t \<longrightarrow> b ! p = b0 ! p"
    then have "f t b = Inr (b[t := r t])" using step assms(2) by simp
    then show "\<exists>b'. f t b = Inr b' \<and> length b' = length b0 \<and> (\<forall>p < length b0. b' ! p = (if Some p = Some t then r p else b ! p))"
      using t by (auto simp: nth_list_update)
  qed (use assms idle in auto)
  then show ?thesis using assms(2) by simp
qed

section \<open>Row-major positions\<close>

lemma divmod_lt: "p < n * w \<Longrightarrow> p div w < n \<and> p mod w < (w::nat)"
  by (metis less_mult_imp_div_less mod_less_divisor mult_is_0 neq0_conv not_less0)

lemma nth_concat_rows:
  assumes "\<And>r. r < n \<Longrightarrow> length (f r) = w" "p < n * w"
  shows "concat (map f [0..<n]) ! p = f (p div w) ! (p mod w)"
  using assms
proof (induction n arbitrary: p)
  case (Suc n)
  have "length (concat (map f [0..<n])) = length (map f [0..<n]) * w"
    by (rule length_concat_uniform) (use Suc.prems(1) in auto)
  then have l: "length (concat (map f [0..<n])) = n * w" by simp
  show ?case
  proof (cases "p < n * w")
    case True
    then show ?thesis using Suc.IH[of p] Suc.prems(1) l by (simp add: nth_append)
  next
    case False
    then have p: "p = n * w + (p - n * w)" "p - n * w < w" using Suc.prems(2) by auto
    have "p div w = n" "p mod w = p - n * w"
      using p by (metis add.commute div_mult_self1_is_m div_mult_self3 div_less add_0 less_nat_zero_code neq0_conv, metis p(1) p(2) add.commute mod_less mod_mult_self3)
    then show ?thesis using False l p(2) by (simp add: nth_append)
  qed
qed simp

lemma map_divmod:
  "map (\<lambda>p. f (p div w) (p mod w)) [0..<n * w] = concat (map (\<lambda>r. map (f r) [0..<w]) [0..<n])"
proof (rule nth_equalityI)
  have "length (concat (map (\<lambda>r. map (f r) [0..<w]) [0..<n])) = length (map (\<lambda>r. map (f r) [0..<w]) [0..<n]) * w"
    by (rule length_concat_uniform) auto
  then have l: "length (concat (map (\<lambda>r. map (f r) [0..<w]) [0..<n])) = n * w" by simp
  then show "length (map (\<lambda>p. f (p div w) (p mod w)) [0..<n * w]) = length (concat (map (\<lambda>r. map (f r) [0..<w]) [0..<n]))" by simp
  fix p assume p: "p < length (map (\<lambda>p. f (p div w) (p mod w)) [0..<n * w])"
  then show "map (\<lambda>p. f (p div w) (p mod w)) [0..<n * w] ! p = concat (map (\<lambda>r. map (f r) [0..<w]) [0..<n]) ! p"
    using nth_concat_rows[of n "\<lambda>r. map (f r) [0..<w]" w p] divmod_lt[of p n w] by simp
qed

text \<open>Three levels: row, head, position in the head.\<close>

lemma split3:
  assumes "p < s * (n * w)"
  shows "p div (n * w) < s" "p mod (n * w) div w < n" "p mod (n * w) mod w < (w::nat)"
    "p = p div (n * w) * (n * w) + p mod (n * w) div w * w + p mod (n * w) mod w"
proof -
  show a: "p div (n * w) < s" using divmod_lt[OF assms] by blast
  have b: "p mod (n * w) < n * w" using divmod_lt[OF assms] by blast
  show "p mod (n * w) div w < n" "p mod (n * w) mod w < w" using divmod_lt[OF b] by blast+
  show "p = p div (n * w) * (n * w) + p mod (n * w) div w * w + p mod (n * w) mod w"
    by (metis add.assoc div_mult_mod_eq)
qed

lemma join3:
  assumes "h < n" "d < (w::nat)"
  shows "(r * (n * w) + h * w + d) div (n * w) = r" "(r * (n * w) + h * w + d) mod (n * w) div w = h"
    "(r * (n * w) + h * w + d) mod (n * w) mod w = d" "r < s \<Longrightarrow> r * (n * w) + h * w + d < s * (n * w)"
proof -
  have l: "h * w + d < n * w" using row_in_bounds[OF assms(1), of w "n * w"] assms(2) by simp
  then show "(r * (n * w) + h * w + d) div (n * w) = r" "(r * (n * w) + h * w + d) mod (n * w) div w = h"
    "(r * (n * w) + h * w + d) mod (n * w) mod w = d"
    using assms by (simp_all add: add.assoc)
  show "r * (n * w) + h * w + d < s * (n * w)" if "r < s"
    using row_in_bounds[OF that, of "n * w" "s * (n * w)"] l by linarith
qed

lemma join3_inj:
  assumes "h < n" "d < (w::nat)" "h' < n" "d' < w" "r * (n * w) + h * w + d = r' * (n * w) + h' * w + d'"
  shows "r = r' \<and> h = h' \<and> d = d'"
  using join3[OF assms(1,2), of r] join3[OF assms(3,4), of r'] assms(5) by metis

lemma nth_row3:
  assumes "length x = s * (n * w)" "r < s" "h < n" "d < w"
  shows "row w h (row (n * w) r x) ! d = x ! (r * (n * w) + h * w + d)"
proof -
  have "r * (n * w) + n * w \<le> length x" using row_in_bounds[OF assms(2), of "n * w" "s * (n * w)"] assms(1) by simp
  moreover have "h * w + w \<le> n * w" using row_in_bounds[OF assms(3), of w "n * w"] by simp
  ultimately show ?thesis using assms(4) by (simp add: row_def slice_slice add.assoc)
qed

lemma int_divmod: "0 < w \<Longrightarrow> int p sdiv int w = int (p div w)" "0 < w \<Longrightarrow> int p smod int w = int (p mod w)"
  by (simp_all add: zdiv_int zmod_int)

section \<open>The elementwise kernels\<close>

lemma k_add_inplace_ok:
  assumes "schedules G" "length x = n" "length y = n" "int n < 2 ^ 38"
  shows "k_add_inplace G x y (int n) = Inr (map2 (f_add (g_fpu G)) x y)"
proof (cases "n = 0")
  case False
  have "launch G (grid_for (int n) (int kThreads)) (add_inplace_kernel (g_fpu G) y (int n)) x
      = Inr (map (\<lambda>i. f_add (g_fpu G) (x ! i) (y ! i)) [0..<n])"
    by (rule launch_map) (use assms False in \<open>simp_all add: add_inplace_kernel_def mem_simps\<close>)
  moreover have "map (\<lambda>i. f_add (g_fpu G) (x ! i) (y ! i)) [0..<n] = map2 (f_add (g_fpu G)) x y"
    using assms by (intro nth_equalityI) auto
  ultimately show ?thesis using False by (simp add: k_add_inplace_def)
qed (use assms in \<open>simp add: k_add_inplace_def\<close>)

lemma k_silu_mul_ok:
  assumes "schedules G" "length gate = n" "length up = n" "length out = n" "int n < 2 ^ 38"
  shows "k_silu_mul G gate up out (int n) = Inr (map2 (silu (g_fpu G)) gate up)"
proof (cases "n = 0")
  case False
  have "launch G (grid_for (int n) (int kThreads)) (silu_mul_kernel (g_fpu G) gate up (int n)) out
      = Inr (map (\<lambda>i. silu (g_fpu G) (gate ! i) (up ! i)) [0..<n])"
    by (rule launch_map) (use assms False in \<open>simp_all add: silu_mul_kernel_def silu_def mem_simps\<close>)
  moreover have "map (\<lambda>i. silu (g_fpu G) (gate ! i) (up ! i)) [0..<n] = map2 (silu (g_fpu G)) gate up"
    using assms by (intro nth_equalityI) auto
  ultimately show ?thesis using False by (simp add: k_silu_mul_def)
qed (use assms in \<open>simp add: k_silu_mul_def\<close>)

lemma k_embedding_ok:
  assumes "schedules G" "length out = length ids * h" "length weight = v * h" "int (length ids * h) < 2 ^ 38"
    and ids: "\<forall>t \<in> set ids. 0 \<le> t \<and> t < int v"
  shows "k_embedding G weight ids out (int (length ids)) (int h) = Inr (concat (map (\<lambda>t. row h (nat t) weight) ids))"
proof (cases "length ids = 0 \<or> h = 0")
  case False
  let ?n = "length ids"
  let ?r = "\<lambda>p. weight ! (nat (ids ! (p div h)) * h + p mod h)"
  have "launch G (grid_for (int (?n * h)) (int kThreads)) (embedding_kernel weight ids (int ?n) (int h)) out
      = Inr (map ?r [0..<?n * h])"
  proof (rule launch_map)
    fix t :: nat and b :: "f32 list" assume t: "t < ?n * h" "length b = ?n * h"
    have d: "t div h < ?n" "t mod h < h" using divmod_lt[OF t(1)] by auto
    have i: "0 \<le> ids ! (t div h)" "nat (ids ! (t div h)) < v" using ids d(1) nth_mem[of "t div h" ids] by (auto simp: nat_less_iff)
    have w: "nat (ids ! (t div h)) * h + t mod h < v * h" using row_in_bounds[OF i(2), of h "v * h"] d(2) by linarith
    have e: "ids ! (t div h) * int h + int (t mod h) = int (nat (ids ! (t div h)) * h + t mod h)" using i(1) by simp
    show "embedding_kernel weight ids (int ?n) (int h) t b = Inr (b[t := ?r t])"
      using t d w False assms(3) unfolding embedding_kernel_def Let_def
      by (simp add: int_divmod mem_simps e del: of_nat_mult of_nat_add sdiv_nonneg smod_nonneg flip: of_nat_mult)
  next
    fix t :: nat and b :: "f32 list" assume "?n * h \<le> t"
    then have "int ?n * int h \<le> int t" by (simp flip: of_nat_mult)
    then show "embedding_kernel weight ids (int ?n) (int h) t b = Inr b" by (simp add: embedding_kernel_def)
  qed (use assms False in auto)
  moreover have "map ?r [0..<?n * h] = concat (map (\<lambda>t. row h (nat t) weight) ids)"
  proof -
    have "map ?r [0..<?n * h] = concat (map (\<lambda>r. map (\<lambda>c. weight ! (nat (ids ! r) * h + c)) [0..<h]) [0..<?n])"
      using map_divmod[of "\<lambda>r c. weight ! (nat (ids ! r) * h + c)" h ?n] by simp
    also have "map (\<lambda>r. map (\<lambda>c. weight ! (nat (ids ! r) * h + c)) [0..<h]) [0..<?n] = map (\<lambda>t. row h (nat t) weight) ids"
    proof (rule nth_equalityI)
      fix r assume r: "r < length (map (\<lambda>r. map (\<lambda>c. weight ! (nat (ids ! r) * h + c)) [0..<h]) [0..<?n])"
      then have i: "nat (ids ! r) < v" using ids nth_mem[of r ids] by (auto simp: nat_less_iff)
      then have "nat (ids ! r) * h + h \<le> length weight" using row_in_bounds[OF i, of h "v * h"] assms(3) by simp
      then have "map (\<lambda>c. weight ! (nat (ids ! r) * h + c)) [0..<h] = row h (nat (ids ! r)) weight"
        by (intro nth_equalityI) (simp_all add: row_def)
      then show "map (\<lambda>r. map (\<lambda>c. weight ! (nat (ids ! r) * h + c)) [0..<h]) [0..<?n] ! r = map (\<lambda>t. row h (nat t) weight) ids ! r"
        using r by simp
    qed simp
    finally show ?thesis .
  qed
  ultimately show ?thesis using False by (simp add: k_embedding_def)
next
  case True
  then have "out = []" using assms(2) by auto
  then show ?thesis using True by (auto simp: k_embedding_def row_def slice_def)
qed

section \<open>The matrix product\<close>

text \<open>Each row of cuBLAS' product is the product of that row, whatever the other rows are.\<close>

definition sgemm_rowwise :: "gpu \<Rightarrow> bool" where
  "sgemm_rowwise G \<longleftrightarrow> (\<forall>s i n x w. length x = s * i \<longrightarrow> length w = n * i \<longrightarrow>
     g_sgemm G s i n x w = concat (map (\<lambda>r. g_sgemm G 1 i n r w) (rows i s x))
     \<and> length (g_sgemm G s i n x w) = s * n)"

definition gpu_lin_row :: "gpu \<Rightarrow> nat \<Rightarrow> nat \<Rightarrow> f32 list \<Rightarrow> f32 list option \<Rightarrow> f32 list \<Rightarrow> f32 list" where
  "gpu_lin_row G i n w bias x =
     (let y = g_sgemm G 1 i n x w in case bias of None \<Rightarrow> y | Some b \<Rightarrow> map2 (f_add (g_fpu G)) y b)"

definition bias_sized :: "nat \<Rightarrow> f32 list option \<Rightarrow> bool" where
  "bias_sized n bias \<longleftrightarrow> (case bias of None \<Rightarrow> True | Some b \<Rightarrow> length b = n)"

lemma sgemm_len: "sgemm_rowwise G \<Longrightarrow> length x = s * i \<Longrightarrow> length w = n * i \<Longrightarrow> length (g_sgemm G s i n x w) = s * n"
  unfolding sgemm_rowwise_def by blast

lemma sgemm_rows:
  "sgemm_rowwise G \<Longrightarrow> length x = s * i \<Longrightarrow> length w = n * i \<Longrightarrow>
   g_sgemm G s i n x w = concat (map (\<lambda>r. g_sgemm G 1 i n r w) (rows i s x))"
  unfolding sgemm_rowwise_def by blast

lemma gpu_lin_row_length:
  assumes "sgemm_rowwise G" "length x = i" "length w = n * i" "bias_sized n bias"
  shows "length (gpu_lin_row G i n w bias x) = n"
  using sgemm_len[OF assms(1), of x 1 i w n] assms by (auto simp: gpu_lin_row_def bias_sized_def split: option.splits)

lemma add_bias_ok:
  assumes "schedules G" "length y = s * n" "length b = n" "0 < s * n" "int (s * n) < 2 ^ 38"
  shows "launch G (grid_for (int s * int n) (int kThreads)) (add_bias_kernel (g_fpu G) b (int s) (int n)) y
    = Inr (concat (map (\<lambda>r. map2 (f_add (g_fpu G)) r b) (rows n s y)))"
proof -
  let ?f = "\<lambda>p. f_add (g_fpu G) (y ! p) (b ! (p mod n))"
  have n: "0 < n" using assms(4) by simp
  have "launch G (grid_for (int (s * n)) (int kThreads)) (add_bias_kernel (g_fpu G) b (int s) (int n)) y = Inr (map ?f [0..<s * n])"
  proof (rule launch_map)
    fix t :: nat and c :: "f32 list" assume t: "t < s * n" "length c = s * n" "c ! t = y ! t"
    have "t mod n < n" using n by simp
    moreover have "int t < int s * int n" using t(1) by (simp flip: of_nat_mult)
    ultimately show "add_bias_kernel (g_fpu G) b (int s) (int n) t c = Inr (c[t := ?f t])"
      using t assms(3) n by (simp add: add_bias_kernel_def mem_simps int_divmod del: smod_nonneg)
  next
    fix t :: nat and c :: "f32 list" assume "s * n \<le> t"
    then have "int s * int n \<le> int t" by (simp flip: of_nat_mult)
    then show "add_bias_kernel (g_fpu G) b (int s) (int n) t c = Inr c" by (simp add: add_bias_kernel_def)
  qed (use assms in auto)
  moreover have "map ?f [0..<s * n] = concat (map (\<lambda>r. map2 (f_add (g_fpu G)) r b) (rows n s y))"
  proof (rule nth_equalityI)
    have lr: "length (map2 (f_add (g_fpu G)) (row n r y) b) = n" if "r < s" for r
      using length_row[of s n y r] assms(2,3) that by simp
    have "length (concat (map (\<lambda>r. map2 (f_add (g_fpu G)) r b) (rows n s y))) = length (map (\<lambda>r. map2 (f_add (g_fpu G)) r b) (rows n s y)) * n"
      by (rule length_concat_uniform) (use lr in \<open>auto simp: rows_def\<close>)
    then show "length (map ?f [0..<s * n]) = length (concat (map (\<lambda>r. map2 (f_add (g_fpu G)) r b) (rows n s y)))" by simp
    fix p assume "p < length (map ?f [0..<s * n])"
    then have p: "p < s * n" by simp
    note d = divmod_lt[OF p]
    have "concat (map (\<lambda>r. map2 (f_add (g_fpu G)) (row n r y) b) [0..<s]) ! p = map2 (f_add (g_fpu G)) (row n (p div n) y) b ! (p mod n)"
      by (rule nth_concat_rows[OF lr p])
    moreover have "row n (p div n) y ! (p mod n) = y ! p"
      using d p assms(2) nth_slice[of "p mod n" n "p div n * n" y] by (simp add: row_def)
    ultimately show "map ?f [0..<s * n] ! p = concat (map (\<lambda>r. map2 (f_add (g_fpu G)) r b) (rows n s y)) ! p"
      using p d length_row[of s n y "p div n"] assms(2,3) by (simp add: rows_def comp_def)
  qed
  ultimately show ?thesis by simp
qed

lemma k_linear_ok:
  assumes G: "schedules G" "sgemm_rowwise G" and i: "0 < i" and n: "0 < n"
    and x: "length x = s * i" and w: "length w = n * i" and y: "length y = s * n" and b: "bias_sized n bias"
    and small: "int (s * n) < 2 ^ 38" and ints: "s < 2 ^ 31" "i < 2 ^ 31" "n < 2 ^ 31"
  shows "k_linear G x w bias y (int s) (int i) (int n) = Inr (concat (map (gpu_lin_row G i n w bias) (rows i s x)))"
proof (cases "s = 0")
  case True
  then show ?thesis using y by (simp add: k_linear_def rows_def)
next
  case False
  let ?y = "g_sgemm G s i n x w"
  have l: "length ?y = s * n" by (rule sgemm_len[OF G(2) x w])
  have ne: "?y \<noteq> []" using l False n by (metis length_0_conv mult_is_0 not_gr_zero)
  have r: "vec_read x 0 (int s * int i) = Inr x" "vec_read w 0 (int n * int i) = Inr w"
    using x w False i n by (simp_all add: vec_read_def slice_def flip: of_nat_mult)
  have wr: "vec_write y 0 ?y = Inr ?y" using l y ne by (simp add: vec_write_def blit_def)
  have sg: "?y = concat (map (\<lambda>r. g_sgemm G 1 i n r w) (rows i s x))" by (rule sgemm_rows[OF G(2) x w])
  have eq: "k_linear G x w bias y (int s) (int i) (int n) = (case bias of None \<Rightarrow> Inr ?y
      | Some b \<Rightarrow> launch G (grid_for (int s * int n) (int kThreads)) (add_bias_kernel (g_fpu G) b (int s) (int n)) ?y)"
    using False i n r wr ints by (simp add: k_linear_def sgemm_def cast_int_small)
  show ?thesis
  proof (cases bias)
    case None
    have "gpu_lin_row G i n w None = (\<lambda>r. g_sgemm G 1 i n r w)" by (simp add: gpu_lin_row_def fun_eq_iff)
    then show ?thesis using eq sg None by simp
  next
    case (Some bs)
    have "rows n s ?y = map (\<lambda>r. g_sgemm G 1 i n r w) (rows i s x)"
      unfolding sg
    proof (rule rows_concat)
      fix z assume "z \<in> set (map (\<lambda>r. g_sgemm G 1 i n r w) (rows i s x))"
      then obtain r where "r \<in> set (rows i s x)" "z = g_sgemm G 1 i n r w" by auto
      then show "length z = n" using rows_mem_length[of s i x r] sgemm_len[OF G(2), of r 1 i w n] x w by simp
    qed simp
    then show ?thesis
      using eq Some add_bias_ok[OF G(1) l, of bs] b small False n by (simp add: bias_sized_def gpu_lin_row_def[abs_def] comp_def)
  qed
qed

section \<open>Rotary positions\<close>

text \<open>One head, position by position: the pairs are disjoint.\<close>

definition rope_at :: "fpu \<Rightarrow> f64 list \<Rightarrow> nat \<Rightarrow> f64 \<Rightarrow> f32 list \<Rightarrow> nat \<Rightarrow> f32" where
  "rope_at F freqs half pos head d =
     (let i = d mod half; ang = d_mul F pos (freqs ! i); c = d_cos F ang; s = d_sin F ang;
          x1 = d_of_f F (head ! i); x2 = d_of_f F (head ! (i + half))
      in if d < half then f_of_d F (d_mul_sub F x1 c x2 s)
         else if d < 2 * half then f_of_d F (d_mul_add F x2 c x1 s) else head ! d)"

lemma rope_head_nth:
  assumes "2 * half \<le> length head" "d < length head"
  shows "rope_head F freqs half pos head ! d = rope_at F freqs half pos head d"
proof -
  have "k \<le> half \<Longrightarrow> foldl (rope_pair F freqs half pos) head [0..<k] ! d
      = (if d < k \<or> (half \<le> d \<and> d < half + k) then rope_at F freqs half pos head d else head ! d)
    \<and> length (foldl (rope_pair F freqs half pos) head [0..<k]) = length head" for k d
  proof (induction k arbitrary: d)
    case (Suc k)
    let ?h = "foldl (rope_pair F freqs half pos) head [0..<k]"
    have k: "k < half" using Suc.prems by simp
    have h: "?h ! k = head ! k" "?h ! (k + half) = head ! (k + half)" "length ?h = length head"
      using Suc.IH[of k] Suc.IH[of "k + half"] k by simp_all
    have b: "k < length head" "k + half < length head" using assms(1) k by simp_all
    have s: "foldl (rope_pair F freqs half pos) head [0..<Suc k] = rope_pair F freqs half pos ?h k" by simp
    have r: "rope_pair F freqs half pos ?h k = ?h[k := rope_at F freqs half pos head k, k + half := rope_at F freqs half pos head (k + half)]"
      using k by (simp add: rope_pair_def rope_at_def Let_def h)
    have "k \<noteq> k + half" using k by simp
    then have "?h[k := rope_at F freqs half pos head k, k + half := rope_at F freqs half pos head (k + half)] ! d
      = (if d = k + half then rope_at F freqs half pos head (k + half) else if d = k then rope_at F freqs half pos head k else ?h ! d)"
      using b h(3) by (simp add: nth_list_update)
    then show ?case unfolding s r using Suc.IH[of d] k h(3) by auto
  qed auto
  from this[of half d] show ?thesis using assms unfolding rope_head_def by (auto simp: rope_at_def Let_def)
qed

lemma if_cancel_eq: "(b \<Longrightarrow> y = x) \<Longrightarrow> (if b then x else y) = y"
  by simp

lemma mod_half: "d < 2 * n \<Longrightarrow> d = d mod n \<or> d = d mod n + (n::nat)"
  by (cases "d < n") (simp_all add: le_mod_geq)

text \<open>
  \<open>rope_owner\<close>: the thread that rotates a position, none for the last of an odd head;
  \<open>rope_val\<close>: what it becomes. Thread \<open>r * (nh * hf) + h * hf + i\<close> rotates positions \<open>i\<close> and
  \<open>i + hf\<close> of head \<open>h\<close> of row \<open>r\<close>.
\<close>

definition rope_owner :: "nat \<Rightarrow> nat \<Rightarrow> nat \<Rightarrow> nat \<Rightarrow> nat option" where
  "rope_owner nh dh hf p =
     (if p mod (nh * dh) mod dh < 2 * hf
      then Some (p div (nh * dh) * (nh * hf) + p mod (nh * dh) div dh * hf + p mod (nh * dh) mod dh mod hf) else None)"

definition rope_val :: "fpu \<Rightarrow> f64 \<Rightarrow> nat \<Rightarrow> nat \<Rightarrow> nat \<Rightarrow> int list \<Rightarrow> f32 list \<Rightarrow> nat \<Rightarrow> f32" where
  "rope_val F theta nh dh hf ps x p =
     rope_at F (inv_freq F theta (int dh) hf) hf (d_of_int F (ps ! (p div (nh * dh))))
       (row dh (p mod (nh * dh) div dh) (row (nh * dh) (p div (nh * dh)) x)) (p mod (nh * dh) mod dh)"

lemma rope_owner_lt:
  assumes "0 < hf" "p < s * (nh * dh)" "rope_owner nh dh hf p = Some t"
  shows "t < s * (nh * hf)"
proof -
  note P = split3[OF assms(2)]
  have t: "t = p div (nh * dh) * (nh * hf) + p mod (nh * dh) div dh * hf + p mod (nh * dh) mod dh mod hf"
    using assms(3) by (auto simp: rope_owner_def split: if_splits)
  have "p mod (nh * dh) mod dh mod hf < hf" using assms(1) by simp
  from join3(4)[OF P(2) this P(1)] t show "t < s * (nh * hf)" by simp
qed

lemma rope_owner_iff:
  assumes half: "0 < hf" "2 * hf \<le> dh" and R: "h < nh" "i < hf" and p: "p < s * (nh * dh)"
  shows "rope_owner nh dh hf p = Some (r * (nh * hf) + h * hf + i)
    \<longleftrightarrow> p = r * (nh * dh) + h * dh + i \<or> p = r * (nh * dh) + h * dh + (i + hf)"
proof
  assume a: "rope_owner nh dh hf p = Some (r * (nh * hf) + h * hf + i)"
  note P = split3[OF p]
  let ?d = "p mod (nh * dh) mod dh"
  have e: "?d < 2 * hf" "r * (nh * hf) + h * hf + i = p div (nh * dh) * (nh * hf) + p mod (nh * dh) div dh * hf + ?d mod hf"
    using a by (simp_all add: rope_owner_def split: if_splits)
  have m: "?d mod hf < hf" using half by simp
  from join3_inj[OF R P(2) m e(2)] have q: "r = p div (nh * dh)" "h = p mod (nh * dh) div dh" "i = ?d mod hf" by blast+
  have "?d = i \<or> ?d = i + hf" unfolding q(3) by (rule mod_half[OF e(1)])
  then show "p = r * (nh * dh) + h * dh + i \<or> p = r * (nh * dh) + h * dh + (i + hf)"
    using P(4) unfolding q(1,2) by (elim disjE) (simp_all only: add.assoc simp_thms)
next
  have d: "i < dh" "i + hf < dh" using R(2) half by simp_all
  assume "p = r * (nh * dh) + h * dh + i \<or> p = r * (nh * dh) + h * dh + (i + hf)"
  then show "rope_owner nh dh hf p = Some (r * (nh * hf) + h * hf + i)"
  proof
    assume "p = r * (nh * dh) + h * dh + i"
    then show ?thesis using join3[OF R(1) d(1), of r] R(2) by (simp add: rope_owner_def)
  next
    assume "p = r * (nh * dh) + h * dh + (i + hf)"
    then show ?thesis using join3[OF R(1) d(2), of r] R(2) by (simp only: rope_owner_def) simp
  qed
qed

lemma rope_thread:
  assumes half: "0 < hf" "2 * hf \<le> dh" "int dh sdiv 2 = int hf" and R: "r < s" "h < nh" "i < hf"
    and x: "length x = s * (nh * dh)" "length b = length x" and ps: "length ps = s"
    and keep: "b ! (r * (nh * dh) + h * dh + i) = x ! (r * (nh * dh) + h * dh + i)"
      "b ! (r * (nh * dh) + h * dh + (i + hf)) = x ! (r * (nh * dh) + h * dh + (i + hf))"
  defines "p1 \<equiv> r * (nh * dh) + h * dh + i" and "p2 \<equiv> r * (nh * dh) + h * dh + (i + hf)"
  shows "rope_kernel F (int s) (int nh) (int dh) theta ps (r * (nh * hf) + h * hf + i) b
    = Inr (b[p1 := rope_val F theta nh dh hf ps x p1, p2 := rope_val F theta nh dh hf ps x p2])"
proof -
  let ?t = "r * (nh * hf) + h * hf + i"
  let ?fr = "inv_freq F theta (int dh) hf" and ?head = "row dh h (row (nh * dh) r x)"
  have d: "i < dh" "i + hf < dh" using R(3) half by simp_all
  have lt: "p1 < s * (nh * dh)" "p2 < s * (nh * dh)"
    unfolding p1_def p2_def using join3(4)[OF R(2) d(1) R(1)] join3(4)[OF R(2) d(2) R(1)] by simp_all
  have m: "(i + hf) mod hf = i" "i mod hf = i" using R(3) by simp_all
  have bx: "b ! p1 = x ! p1" "b ! p2 = x ! p2" using keep by (simp_all add: p1_def p2_def)
  have rr: "rope_val F theta nh dh hf ps x p1 = rope_at F ?fr hf (d_of_int F (ps ! r)) ?head i"
    "rope_val F theta nh dh hf ps x p2 = rope_at F ?fr hf (d_of_int F (ps ! r)) ?head (i + hf)"
    unfolding rope_val_def p1_def p2_def join3[OF R(2) d(1)] join3[OF R(2) d(2)] by simp_all
  have hv: "?head ! i = x ! p1" "?head ! (i + hf) = x ! p2"
    using nth_row3[OF x(1) R(1,2) d(1)] nth_row3[OF x(1) R(1,2) d(2)] by (simp_all add: p1_def p2_def)
  have fr: "?fr ! i = d_pow F theta (d_div F (d_mul F f64_minus_two (d_of_int F (int i))) (d_of_int F (int dh)))"
    using R(3) by (simp add: inv_freq_def)
  have ix: "int r * int nh * int dh + int h * int dh + int i = int p1" "int p1 + int hf = int p2"
    by (simp_all add: p1_def p2_def algebra_simps)
  have "?t < s * (nh * hf)" by (rule join3(4)[OF R(2,3,1)])
  then have lt0: "\<not> int s * (int nh * int hf) \<le> int ?t" by (simp only: of_nat_mult[symmetric] of_nat_le_iff not_le)
  have "0 < nh * hf" using R(2) half by simp
  then have dm: "int ?t sdiv (int nh * int hf) = int r" "(int ?t smod (int nh * int hf)) sdiv int hf = int h"
    "(int ?t smod (int nh * int hf)) smod int hf = int i"
    using int_divmod[of "nh * hf" ?t] int_divmod[OF half(1), of "?t mod (nh * hf)"] join3[OF R(2,3), of r] by simp_all
  show ?thesis
    unfolding rope_kernel_def half(3) Let_def dm ix rr using lt0 lt R(1,3) x ps
    by (simp add: mem_simps bx rope_at_def hv fr m Let_def del: of_nat_add of_nat_mult)
qed

lemma rope_rows_nth:
  assumes half: "2 * hf \<le> dh" "int dh sdiv 2 = int hf" and x: "length x = s * (nh * dh)" and ps: "length ps = s"
  shows "length (concat (map2 (rope_row F (int nh) (int dh) theta) ps (rows (nh * dh) s x))) = s * (nh * dh)"
    and "p < s * (nh * dh) \<Longrightarrow> concat (map2 (rope_row F (int nh) (int dh) theta) ps (rows (nh * dh) s x)) ! p
      = rope_val F theta nh dh hf ps x p"
proof -
  let ?f = "\<lambda>r. rope_row F (int nh) (int dh) theta (ps ! r) (row (nh * dh) r x)"
  have c: "map2 (rope_row F (int nh) (int dh) theta) ps (rows (nh * dh) s x) = map ?f [0..<s]"
    using ps by (intro nth_equalityI) simp_all
  have lr: "length (row (nh * dh) r x) = nh * dh" if "r < s" for r
    using length_row[of s "nh * dh" x r] x that by simp
  have lf: "length (?f r) = nh * dh" if "r < s" for r
    using rope_row_length[of "row (nh * dh) r x" nh dh] lr[OF that] by simp
  have "length (concat (map ?f [0..<s])) = length (map ?f [0..<s]) * (nh * dh)"
    by (rule length_concat_uniform) (use lf in auto)
  then show "length (concat (map2 (rope_row F (int nh) (int dh) theta) ps (rows (nh * dh) s x))) = s * (nh * dh)"
    by (simp add: c)
  assume p: "p < s * (nh * dh)"
  note P = split3[OF p] and q = divmod_lt[OF p]
  let ?r = "p div (nh * dh)" and ?q = "p mod (nh * dh)"
  let ?head = "\<lambda>h. row dh h (row (nh * dh) ?r x)"
  have "concat (map (rope_head F (inv_freq F theta (int dh) hf) hf (d_of_int F (ps ! ?r))) (rows dh nh (row (nh * dh) ?r x))) ! ?q
      = rope_head F (inv_freq F theta (int dh) hf) hf (d_of_int F (ps ! ?r)) (?head (?q div dh)) ! (?q mod dh)"
    using nth_concat_rows[of nh "\<lambda>h. rope_head F (inv_freq F theta (int dh) hf) hf (d_of_int F (ps ! ?r)) (?head h)" dh ?q]
      q lr[OF P(1)] length_row[of nh dh "row (nh * dh) ?r x"] by (simp add: rows_def comp_def)
  moreover have "length (?head (?q div dh)) = dh"
    using P(2) lr[OF P(1)] length_row[of nh dh "row (nh * dh) ?r x"] by simp
  ultimately have "?f ?r ! ?q = rope_val F theta nh dh hf ps x p"
    using rope_head_nth[of hf "?head (?q div dh)" "?q mod dh"] half P(3) by (simp add: rope_row_def Let_def rope_val_def)
  then show "concat (map2 (rope_row F (int nh) (int dh) theta) ps (rows (nh * dh) s x)) ! p = rope_val F theta nh dh hf ps x p"
    using nth_concat_rows[OF lf p] by (simp add: c)
qed

lemma k_rope_ok:
  assumes G: "schedules G" and nh: "0 < nh" and dh: "2 \<le> dh" and x: "length x = s * (nh * dh)" and ps: "length ps = s"
    and small: "int (s * (nh * dh)) < 2 ^ 38"
  shows "k_rope G x (int s) (int nh) (int dh) theta ps
    = Inr (concat (map2 (rope_row (g_fpu G) (int nh) (int dh) theta) ps (rows (nh * dh) s x)))"
proof (cases "s = 0")
  case True
  then show ?thesis using x by (simp add: k_rope_def rows_def)
next
  case False
  let ?F = "g_fpu G"
  define hf where "hf = dh div 2"
  have half: "0 < hf" "2 * hf \<le> dh" using dh by (auto simp: hf_def)
  have hs: "int dh sdiv 2 = int hf" by (simp add: hf_def zdiv_int)
  let ?own = "rope_owner nh dh hf" and ?r = "rope_val ?F theta nh dh hf ps x"
  have "launch G (grid_for (int (s * (nh * hf))) (int kThreads)) (rope_kernel ?F (int s) (int nh) (int dh) theta ps) x
      = Inr (map (\<lambda>p. if ?own p = None then x ! p else ?r p) [0..<length x])"
  proof (rule launch_ok[OF G])
    show "0 < int (s * (nh * hf))" using False nh half by simp
    have "s * (nh * hf) \<le> s * (nh * dh)" using half by simp
    then show "int (s * (nh * hf)) < 2 ^ 38" using small by linarith
  next
    fix t :: nat and b :: "f32 list"
    assume "int (s * (nh * hf)) \<le> int t"
    then have "int s * (int nh * int hf) \<le> int t" by simp
    then show "rope_kernel ?F (int s) (int nh) (int dh) theta ps t b = Inr b"
      by (simp add: rope_kernel_def hs Let_def)
  next
    fix p t assume "p < length x" "?own p = Some t"
    then show "int t < int (s * (nh * hf))" using rope_owner_lt[OF half(1)] x by (simp only: of_nat_less_iff)
  next
    fix t :: nat and b :: "f32 list"
    assume t: "int t < int (s * (nh * hf))" and b: "length b = length x" "\<forall>p < length x. ?own p = Some t \<longrightarrow> b ! p = x ! p"
    then have t': "t < s * (nh * hf)" by (simp only: of_nat_less_iff)
    define r where "r = t div (nh * hf)"
    define h where "h = t mod (nh * hf) div hf"
    define i where "i = t mod (nh * hf) mod hf"
    note R = split3[OF t', folded r_def h_def i_def]
    let ?p1 = "r * (nh * dh) + h * dh + i" and ?p2 = "r * (nh * dh) + h * dh + (i + hf)"
    have "i < dh" "i + hf < dh" using R(3) half by simp_all
    from join3(4)[OF R(2) this(1) R(1)] join3(4)[OF R(2) this(2) R(1)]
    have lt: "?p1 < s * (nh * dh)" "?p2 < s * (nh * dh)" by simp_all
    have own: "?own p = Some t \<longleftrightarrow> p = ?p1 \<or> p = ?p2" if "p < length x" for p
      using rope_owner_iff[OF half R(2,3)] that x R(4) by metis
    have keep: "b ! ?p1 = x ! ?p1" "b ! ?p2 = x ! ?p2" 
      using b(2)[rule_format, of ?p1] b(2)[rule_format, of ?p2] own[of ?p1] own[of ?p2] lt by (simp_all only: x simp_thms)
    have "rope_kernel ?F (int s) (int nh) (int dh) theta ps t b = Inr (b[?p1 := ?r ?p1, ?p2 := ?r ?p2])"
      using rope_thread[OF half hs R(1-3) x b(1) ps keep] by (simp only: R(4)[symmetric])
    moreover have "(b[?p1 := ?r ?p1, ?p2 := ?r ?p2]) ! p = (if ?own p = Some t then ?r p else b ! p)" if "p < length x" for p
      unfolding own[OF that] using lt x b(1) half(1) by (simp add: nth_list_update)
    ultimately show "\<exists>b'. rope_kernel ?F (int s) (int nh) (int dh) theta ps t b = Inr b' \<and> length b' = length x
      \<and> (\<forall>p < length x. b' ! p = (if ?own p = Some t then ?r p else b ! p))"
      using b(1) by (intro exI[of _ "b[?p1 := ?r ?p1, ?p2 := ?r ?p2]"] conjI allI impI) simp_all
  qed
  also have "map (\<lambda>p. if ?own p = None then x ! p else ?r p) [0..<length x]
      = concat (map2 (rope_row ?F (int nh) (int dh) theta) ps (rows (nh * dh) s x))"
  proof (rule nth_equalityI)
    fix p assume "p < length (map (\<lambda>p. if ?own p = None then x ! p else ?r p) [0..<length x])"
    then have p: "p < s * (nh * dh)" using x by simp
    note P = split3[OF p]
    have "?r p = x ! p" if "?own p = None"
      using that nth_row3[OF x P(1-3)] P(4) by (auto simp: rope_owner_def rope_val_def rope_at_def Let_def split: if_splits)
    then show "map (\<lambda>p. if ?own p = None then x ! p else ?r p) [0..<length x] ! p
      = concat (map2 (rope_row ?F (int nh) (int dh) theta) ps (rows (nh * dh) s x)) ! p"
      using p x rope_rows_nth(2)[OF half(2) hs x ps p] by simp
  qed (use x rope_rows_nth(1)[OF half(2) hs x ps] in simp)
  finally show ?thesis using False nh dh by (simp add: k_rope_def hs mult.assoc)
qed

end
