(* ===== verification/Cuda_Attention.thy ===== *)
theory Cuda_Attention
  imports Complex_Main Cuda_Threads Paging
begin

text \<open>
  The attention kernel and the paged scatter and gather, for every order of the threads;
  the online softmax against the two-pass softmax of the CPU, over the reals.
\<close>

section \<open>The attention kernel\<close>

definition gpu_attn_row ::
    "fpu \<Rightarrow> int \<Rightarrow> int \<Rightarrow> int \<Rightarrow> f32 list \<Rightarrow> f32 list list \<Rightarrow> f32 list list \<Rightarrow> f32 list" where
  "gpu_attn_row F n_heads n_kv_heads head_dim qr krows vrows =
     (let group = n_heads sdiv n_kv_heads; scale = d_div F f64_one (d_sqrt F (d_of_int F head_dim)); dh = nat head_dim
      in concat (map (\<lambda>h. let kvh = nat (int h sdiv group)
                          in gpu_attn_head F scale dh (row dh h qr) (map (row dh kvh) krows) (map (row dh kvh) vrows))
                   [0..<nat n_heads]))"

lemma online_length: "\<forall>sv \<in> set svs. length (snd sv) = n \<Longrightarrow> length (online_softmax A n svs) = n"
proof -
  assume a: "\<forall>sv \<in> set svs. length (snd sv) = n"
  have "\<forall>sv \<in> set svs. length (snd sv) = n \<Longrightarrow> length (snd (snd st)) = n \<Longrightarrow> length (snd (snd (foldl (online_step A) st svs))) = n" for st
    by (induction svs arbitrary: st) (auto simp: online_step_def Let_def split: prod.splits)
  from this[OF a, of "(ar_low A, ar_zero A, replicate n (ar_zero A))"] show ?thesis
    by (auto simp: online_softmax_def Let_def split: prod.splits)
qed

lemma gpu_attn_head_length:
  assumes "\<forall>v \<in> set vs. length v = dh"
  shows "length (gpu_attn_head F scale dh q ks vs) = dh"
  unfolding gpu_attn_head_def length_map
  by (rule online_length) (use assms in \<open>auto dest: set_zip_rightD\<close>)

lemma vec_read_row3:
  assumes "s * (n * w) \<le> length x" "r < s" "h < n" "0 < w"
  shows "vec_read x (int (r * (n * w) + h * w)) (int w) = Inr (row w h (row (n * w) r x))"
proof -
  have a: "r * (n * w) + n * w \<le> length x" using row_in_bounds[OF assms(2), of "n * w" "s * (n * w)"] assms(1) by simp
  have b: "h * w + w \<le> n * w" using row_in_bounds[OF assms(3), of w "n * w"] by simp
  have "row w h (row (n * w) r x) = slice (r * (n * w) + h * w) w x" using b by (simp add: row_def slice_slice)
  moreover have "int (r * (n * w) + h * w) + int w \<le> int (length x)" using a b by (simp flip: of_nat_add)
  ultimately show ?thesis using assms(4) by (simp add: vec_read_def del: of_nat_add of_nat_mult)
qed

lemma slice_row3:
  assumes "s * (n * w) \<le> length x" "r < s" "h < n"
  shows "r * (n * w) + h * w + w \<le> length x"
  using row_in_bounds[OF assms(2), of "n * w" "s * (n * w)"] row_in_bounds[OF assms(3), of w "n * w"] assms(1) by linarith

text \<open>
  A launch in which thread \<open>h * s + i\<close> writes tile \<open>h\<close> of row \<open>i\<close>: \<open>tile_owner\<close> is the thread
  a position belongs to.
\<close>

definition tile_owner :: "nat \<Rightarrow> nat \<Rightarrow> nat \<Rightarrow> nat \<Rightarrow> nat option" where
  "tile_owner s nh dh p =
     (if p < s * (nh * dh) then Some (p mod (nh * dh) div dh * s + p div (nh * dh)) else None)"

lemma tile_owner_lt: "tile_owner s nh dh p = Some t \<Longrightarrow> t < nh * s"
proof -
  assume o: "tile_owner s nh dh p = Some t"
  then have p: "p < s * (nh * dh)" by (simp add: tile_owner_def split: if_splits)
  note P = split3[OF p]
  have "p mod (nh * dh) div dh * s + p div (nh * dh) < nh * s"
    using row_in_bounds[OF P(2), of s "nh * s"] P(1) by simp
  then show "t < nh * s" using o p by (simp add: tile_owner_def)
qed

lemma tile_owner_iff:
  assumes R: "h < nh" "i < s" and dh: "0 < dh"
  shows "tile_owner s nh dh p = Some (h * s + i) \<longleftrightarrow> i * (nh * dh) + h * dh \<le> p \<and> p < i * (nh * dh) + h * dh + dh"
    (is "_ \<longleftrightarrow> ?in")
proof (cases "p < s * (nh * dh)")
  case False
  have "i * (nh * dh) + h * dh + dh \<le> s * (nh * dh)"
    using row_in_bounds[OF R(2), of "nh * dh" "s * (nh * dh)"] row_in_bounds[OF R(1), of dh "nh * dh"] by linarith
  then show ?thesis using False by (simp add: tile_owner_def)
next
  case True
  note P = split3[OF True]
  have "tile_owner s nh dh p = Some (h * s + i) \<longleftrightarrow> p mod (nh * dh) div dh * s + p div (nh * dh) = h * s + i"
    using True by (simp add: tile_owner_def)
  also have "\<dots> \<longleftrightarrow> p mod (nh * dh) div dh = h \<and> p div (nh * dh) = i"
  proof
    assume e: "p mod (nh * dh) div dh * s + p div (nh * dh) = h * s + i"
    have "s \<noteq> 0" using R(2) by simp
    then have "(p mod (nh * dh) div dh * s + p div (nh * dh)) div s = p mod (nh * dh) div dh" "(h * s + i) div s = h"
      "(p mod (nh * dh) div dh * s + p div (nh * dh)) mod s = p div (nh * dh)" "(h * s + i) mod s = i"
      using P(1) R(2) by simp_all
    then show "p mod (nh * dh) div dh = h \<and> p div (nh * dh) = i" using e by simp
  qed simp
  also have "\<dots> \<longleftrightarrow> ?in"
  proof
    assume "p mod (nh * dh) div dh = h \<and> p div (nh * dh) = i"
    then have "p = i * (nh * dh) + h * dh + p mod (nh * dh) mod dh" using P(4) by metis
    then show ?in using P(3) by (intro conjI) linarith+
  next
    assume a: ?in
    then obtain d where "p = i * (nh * dh) + h * dh + d" "d < dh" by (metis le_add_diff_inverse nat_add_left_cancel_less)
    then show "p mod (nh * dh) div dh = h \<and> p div (nh * dh) = i" using join3[OF R(1), of d dh i] by simp
  qed
  finally show ?thesis .
qed

lemma concat_tiles_nth:
  assumes len: "\<And>i h. i < s \<Longrightarrow> h < nh \<Longrightarrow> length (tile i h) = dh"
  shows "length (concat (map (\<lambda>i. concat (map (tile i) [0..<nh])) [0..<s])) = s * (nh * dh)"
    and "p < s * (nh * dh) \<Longrightarrow> concat (map (\<lambda>i. concat (map (tile i) [0..<nh])) [0..<s]) ! p
      = tile (p div (nh * dh)) (p mod (nh * dh) div dh) ! (p mod (nh * dh) mod dh)"
proof -
  have lf: "length (concat (map (tile i) [0..<nh])) = nh * dh" if "i < s" for i
  proof -
    have "length (concat (map (tile i) [0..<nh])) = length (map (tile i) [0..<nh]) * dh"
      by (rule length_concat_uniform) (use len[OF that] in auto)
    then show ?thesis by simp
  qed
  have "length (concat (map (\<lambda>i. concat (map (tile i) [0..<nh])) [0..<s]))
      = length (map (\<lambda>i. concat (map (tile i) [0..<nh])) [0..<s]) * (nh * dh)"
    by (rule length_concat_uniform) (use lf in auto)
  then show "length (concat (map (\<lambda>i. concat (map (tile i) [0..<nh])) [0..<s])) = s * (nh * dh)" by simp
  assume p: "p < s * (nh * dh)"
  note P = split3[OF p]
  have "concat (map (\<lambda>i. concat (map (tile i) [0..<nh])) [0..<s]) ! p
      = concat (map (tile (p div (nh * dh))) [0..<nh]) ! (p mod (nh * dh))"
    by (rule nth_concat_rows[OF lf p])
  also have "\<dots> = tile (p div (nh * dh)) (p mod (nh * dh) div dh) ! (p mod (nh * dh) mod dh)"
    by (rule nth_concat_rows[OF len[OF P(1)]]) (use divmod_lt[OF p] in auto)
  finally show "concat (map (\<lambda>i. concat (map (tile i) [0..<nh])) [0..<s]) ! p
      = tile (p div (nh * dh)) (p mod (nh * dh) div dh) ! (p mod (nh * dh) mod dh)" .
qed

lemma blit_tile_nth:
  assumes R: "h < nh" "i < s" and dh: "0 < dh" and len: "length x = dh" and b: "s * (nh * dh) \<le> length b"
  shows "length (blit (i * (nh * dh) + h * dh) x b) = length b"
    and "p < length b \<Longrightarrow> blit (i * (nh * dh) + h * dh) x b ! p
      = (if tile_owner s nh dh p = Some (h * s + i) then x ! (p mod (nh * dh) mod dh) else b ! p)"
proof -
  have bound: "i * (nh * dh) + h * dh + dh \<le> length b"
    using row_in_bounds[OF R(2), of "nh * dh" "length b"] row_in_bounds[OF R(1), of dh "nh * dh"] b by linarith
  then show "length (blit (i * (nh * dh) + h * dh) x b) = length b" using len by simp
  assume p: "p < length b"
  show "blit (i * (nh * dh) + h * dh) x b ! p
      = (if tile_owner s nh dh p = Some (h * s + i) then x ! (p mod (nh * dh) mod dh) else b ! p)"
  proof (cases "tile_owner s nh dh p = Some (h * s + i)")
    case True
    then obtain d where d: "p = i * (nh * dh) + h * dh + d" "d < dh"
      using tile_owner_iff[OF R dh] by (metis le_add_diff_inverse nat_add_left_cancel_less)
    have m: "p mod (nh * dh) mod dh = d" unfolding d(1) by (rule join3(3)[OF R(1) d(2)])
    have "blit (i * (nh * dh) + h * dh) x b ! p = x ! d"
      using nth_blit[of "i * (nh * dh) + h * dh" x b p] bound len p d by simp
    then show ?thesis using True by (simp add: m)
  next
    case False
    then show ?thesis using tile_owner_iff[OF R dh, of p] bound len p by (subst nth_blit) auto
  qed
qed

lemma launch_tiles:
  assumes G: "schedules G" and pos: "0 < nh" "0 < dh" "0 < s" and out: "s * (nh * dh) \<le> length out"
    and small: "int (s * (nh * dh)) < 2 ^ 38"
    and len: "\<And>i h. i < s \<Longrightarrow> h < nh \<Longrightarrow> length (tile i h) = dh"
    and idle: "\<And>t b. nh * s \<le> t \<Longrightarrow> kern t b = Inr b"
    and run: "\<And>i h b. i < s \<Longrightarrow> h < nh \<Longrightarrow> length b = length out \<Longrightarrow>
      kern (h * s + i) b = Inr (blit (i * (nh * dh) + h * dh) (tile i h) b)"
  shows "launch G (grid_for (int (nh * s)) (int kThreads)) kern out
    = Inr (concat (map (\<lambda>i. concat (map (tile i) [0..<nh])) [0..<s]) @ drop (s * (nh * dh)) out)"
proof -
  let ?W = "nh * dh"
  let ?r = "\<lambda>p. tile (p div ?W) (p mod ?W div dh) ! (p mod ?W mod dh)"
  have "launch G (grid_for (int (nh * s)) (int kThreads)) kern out
      = Inr (map (\<lambda>p. if tile_owner s nh dh p = None then out ! p else ?r p) [0..<length out])"
  proof (rule launch_ok[OF G])
    show "0 < int (nh * s)" using pos by simp
    have "nh * s \<le> s * ?W" using pos(2) by (simp add: mult.commute)
    then show "int (nh * s) < 2 ^ 38" using small by linarith
  next
    fix t :: nat and b :: "'a list"
    assume "int (nh * s) \<le> int t"
    then have "nh * s \<le> t" by (simp only: of_nat_le_iff)
    then show "kern t b = Inr b" by (rule idle)
  next
    fix p t assume "tile_owner s nh dh p = Some t"
    then show "int t < int (nh * s)" using tile_owner_lt by (simp only: of_nat_less_iff)
  next
    fix t :: nat and b :: "'a list"
    assume t: "int t < int (nh * s)" and b: "length b = length out"
    have t': "t < nh * s" using t by (simp only: of_nat_less_iff)
    define h where "h = t div s"
    define i where "i = t mod s"
    have R: "h < nh" "i < s" "t = h * s + i" using divmod_lt[OF t'] by (simp_all add: h_def i_def)
    have o: "i = p div ?W \<and> h = p mod ?W div dh" if "tile_owner s nh dh p = Some (h * s + i)" for p
    proof -
      from that obtain d where "p = i * ?W + h * dh + d" "d < dh"
        using tile_owner_iff[OF R(1,2) pos(2)] by (metis le_add_diff_inverse nat_add_left_cancel_less)
      then show ?thesis using join3[OF R(1), of d dh i] by simp
    qed
    note B = blit_tile_nth[OF R(1,2) pos(2) len[OF R(2,1)], of b]
    show "\<exists>b'. kern t b = Inr b' \<and> length b' = length out
      \<and> (\<forall>p < length out. b' ! p = (if tile_owner s nh dh p = Some t then ?r p else b ! p))"
      unfolding R(3) run[OF R(2,1) b] using B out b o by fastforce
  qed
  also have "map (\<lambda>p. if tile_owner s nh dh p = None then out ! p else ?r p) [0..<length out]
      = concat (map (\<lambda>i. concat (map (tile i) [0..<nh])) [0..<s]) @ drop (s * ?W) out"
    using concat_tiles_nth[of s nh tile dh, OF len] out
    by (intro nth_equalityI) (auto simp: nth_append tile_owner_def simp del: upt_Suc)
  finally show ?thesis .
qed

text \<open>What thread \<open>h * s + i\<close> of the attention computes: head \<open>h\<close> of query \<open>i\<close>.\<close>

definition attn_tile :: "fpu \<Rightarrow> f64 \<Rightarrow> nat \<Rightarrow> nat \<Rightarrow> nat \<Rightarrow> nat \<Rightarrow> nat \<Rightarrow> f32 list \<Rightarrow> f32 list \<Rightarrow> f32 list \<Rightarrow> nat \<Rightarrow> nat \<Rightarrow> f32 list" where
  "attn_tile F scale nh nkv gsz dh off q k v i h =
     gpu_attn_head F scale dh (row dh h (row (nh * dh) i q))
       (map (\<lambda>j. row dh (h div gsz) (row (nkv * dh) j k)) [0..<off + i + 1])
       (map (\<lambda>j. row dh (h div gsz) (row (nkv * dh) j v)) [0..<off + i + 1])"

lemma attn_tile_length:
  assumes "h div gsz < nkv" "i < s" "(off + s) * (nkv * dh) \<le> length v"
  shows "length (attn_tile F scale nh nkv gsz dh off q k v i h) = dh"
  unfolding attn_tile_def
proof (rule gpu_attn_head_length)
  show "\<forall>x \<in> set (map (\<lambda>j. row dh (h div gsz) (row (nkv * dh) j v)) [0..<off + i + 1]). length x = dh"
  proof
    fix x assume "x \<in> set (map (\<lambda>j. row dh (h div gsz) (row (nkv * dh) j v)) [0..<off + i + 1])"
    then obtain j where j: "j < off + i + 1" "x = row dh (h div gsz) (row (nkv * dh) j v)" by (auto simp del: upt_Suc)
    then have "length (row (nkv * dh) j v) = nkv * dh" using length_row[OF assms(3), of j] assms(2) by simp
    then show "length x = dh" using length_row[of nkv dh "row (nkv * dh) j v" "h div gsz"] assms(1) j by simp
  qed
qed

lemma read_heads:
  assumes "(off + s) * (nkv * dh) \<le> length x" "g < nkv" "0 < dh" "i < s"
  shows "res_mapM (\<lambda>j. vec_read x (int j * int nkv * int dh + int g * int dh) (int dh)) [0..<nat (int off + int i + 1)]
    = Inr (map (\<lambda>j. row dh g (row (nkv * dh) j x)) [0..<off + i + 1])"
proof -
  have n: "nat (int off + int i + 1) = off + i + 1" by simp
  show ?thesis unfolding n
  proof (rule res_mapM_ok)
    fix j assume "j \<in> set [0..<off + i + 1]"
    then have j: "j < off + s" using assms(4) by auto
    show "vec_read x (int j * int nkv * int dh + int g * int dh) (int dh) = Inr (row dh g (row (nkv * dh) j x))"
      using vec_read_row3[OF assms(1) j assms(2,3)] by (simp add: algebra_simps)
  qed
qed

lemma attention_thread:
  assumes kv: "0 < nkv" "int nh sdiv int nkv = int gsz" "0 < gsz" "h div gsz < nkv" and dh: "0 < dh"
    and R: "h < nh" "i < s" and q: "s * (nh * dh) \<le> length q" and k: "(off + s) * (nkv * dh) \<le> length k"
    and v: "(off + s) * (nkv * dh) \<le> length v" and b: "s * (nh * dh) \<le> length b"
  shows "attention_kernel F q k v (int s) (int nh) (int nkv) (int dh) (int off) scale (h * s + i) b
    = Inr (blit (i * (nh * dh) + h * dh) (attn_tile F scale nh nkv gsz dh off q k v i h) b)"
proof -
  let ?x = "attn_tile F scale nh nkv gsz dh off q k v i h"
  have s: "0 < s" using R(2) by simp
  have lx: "length ?x = dh" by (rule attn_tile_length[OF kv(4) R(2) v])
  have qv: "vec_read q (int i * int nh * int dh + int h * int dh) (int dh) = Inr (row dh h (row (nh * dh) i q))"
    using vec_read_row3[of s nh dh q i h] q R dh by (simp add: algebra_simps)
  have dm: "int (h * s + i) sdiv int s = int h" "int (h * s + i) smod int s = int i" "int h sdiv int gsz = int (h div gsz)"
    using int_divmod[OF s, of "h * s + i"] int_divmod[OF kv(3), of h] R(2) by simp_all
  have bound: "i * (nh * dh) + h * dh + dh \<le> length b"
    using row_in_bounds[OF R(2), of "nh * dh" "length b"] row_in_bounds[OF R(1), of dh "nh * dh"] b by linarith
  have off: "int i * int nh * int dh + int h * int dh = int (i * (nh * dh) + h * dh)" by (simp add: algebra_simps)
  have w: "vec_write b (int (i * (nh * dh) + h * dh)) ?x = Inr (blit (i * (nh * dh) + h * dh) ?x b)"
    using bound lx dh by (auto simp: vec_write_def simp del: of_nat_add of_nat_mult simp flip: of_nat_add)
  have "h * s + i < nh * s" using row_in_bounds[OF R(1), of s "nh * s"] R(2) by simp
  then have t: "\<not> int nh * int s \<le> int (h * s + i)" by (simp only: of_nat_mult[symmetric] of_nat_le_iff not_le)
  show ?thesis
    unfolding attention_kernel_def Let_def kv(2) dm
    using t kv(1,3) qv read_heads[OF k kv(4) dh R(2)] read_heads[OF v kv(4) dh R(2)] w
    by (simp add: off attn_tile_def del: of_nat_add of_nat_mult upt_Suc)
qed

lemma k_attention_ok:
  assumes G: "schedules G" and nh: "0 < nh" and kv: "0 < nkv" "nkv dvd nh" and dh: "0 < dh" "dh \<le> 256" and s: "0 < s"
    and q: "s * (nh * dh) \<le> length q" and k: "(off + s) * (nkv * dh) \<le> length k" and v: "(off + s) * (nkv * dh) \<le> length v"
    and out: "s * (nh * dh) \<le> length out" and small: "int (s * (nh * dh)) < 2 ^ 38"
  shows "k_attention G q k v out (int s) (int (off + s)) (int nh) (int nkv) (int dh) (int off)
    = Inr (concat (map (\<lambda>i. gpu_attn_row (g_fpu G) (int nh) (int nkv) (int dh) (row (nh * dh) i q)
        (rows (nkv * dh) (off + i + 1) k) (rows (nkv * dh) (off + i + 1) v)) [0..<s]) @ drop (s * (nh * dh)) out)"
proof -
  let ?F = "g_fpu G"
  let ?scale = "d_div ?F f64_one (d_sqrt ?F (d_of_int ?F (int dh)))"
  define gsz where "gsz = nh div nkv"
  let ?tile = "attn_tile ?F ?scale nh nkv gsz dh off q k v"
  have gp: "0 < gsz" using nh kv by (auto simp: gsz_def div_greater_zero_iff dvd_imp_le)
  have gs: "int nh sdiv int nkv = int gsz" unfolding gsz_def by (rule int_divmod(1)[OF kv(1)])
  have kvh: "h div gsz < nkv" if "h < nh" for h
    using that kv by (metis gsz_def dvd_div_mult_self less_mult_imp_div_less mult.commute)
  have launch: "launch G (grid_for (int (nh * s)) (int kThreads))
      (attention_kernel ?F q k v (int s) (int nh) (int nkv) (int dh) (int off) ?scale) out
      = Inr (concat (map (\<lambda>i. concat (map (?tile i) [0..<nh])) [0..<s]) @ drop (s * (nh * dh)) out)"
  proof (rule launch_tiles[OF G nh dh(1) s out small])
    show "length (?tile i h) = dh" if "i < s" "h < nh" for i h by (rule attn_tile_length[OF kvh[OF that(2)] that(1) v])
    show "attention_kernel ?F q k v (int s) (int nh) (int nkv) (int dh) (int off) ?scale t b = Inr b" if "nh * s \<le> t" for t b
      using that by (simp add: attention_kernel_def flip: of_nat_mult)
    show "attention_kernel ?F q k v (int s) (int nh) (int nkv) (int dh) (int off) ?scale (h * s + i) b
        = Inr (blit (i * (nh * dh) + h * dh) (?tile i h) b)" if "i < s" "h < nh" "length b = length out" for i h b
      by (rule attention_thread[OF kv(1) gs gp kvh[OF that(2)] dh(1) that(2,1) q k v]) (use out that(3) in simp)
  qed
  have rows: "map (\<lambda>i. gpu_attn_row ?F (int nh) (int nkv) (int dh) (row (nh * dh) i q)
      (rows (nkv * dh) (off + i + 1) k) (rows (nkv * dh) (off + i + 1) v)) [0..<s]
      = map (\<lambda>i. concat (map (?tile i) [0..<nh])) [0..<s]"
    by (intro map_cong[OF refl]) (simp add: gpu_attn_row_def Let_def gs int_divmod[OF gp] rows_def comp_def attn_tile_def[abs_def] del: upt_Suc)
  have "k_attention G q k v out (int s) (int (off + s)) (int nh) (int nkv) (int dh) (int off)
      = launch G (grid_for (int (nh * s)) (int kThreads))
          (attention_kernel ?F q k v (int s) (int nh) (int nkv) (int dh) (int off) ?scale) out"
    using s dh by (simp add: k_attention_def Let_def)
  then show ?thesis unfolding launch rows .
qed

section \<open>Paged scatter and gather\<close>

lemma row_nth: "length x = n * w \<Longrightarrow> p < n * w \<Longrightarrow> row w (p div w) x ! (p mod w) = x ! p"
  using divmod_lt[of p n w] row_in_bounds[of "p div w" n w "n * w"]
  by (simp add: row_def nth_slice)

lemma find_unique:
  assumes "\<And>i j. i < n \<Longrightarrow> j < n \<Longrightarrow> P i \<Longrightarrow> P j \<Longrightarrow> i = j"
  shows "find P [0..<n] = Some i \<longleftrightarrow> i < n \<and> P i"
proof (cases "find P [0..<n]")
  case None
  then have "\<forall>x < n. \<not> P x" by (auto simp: find_None_iff)
  then show ?thesis using None by auto
next
  case (Some k)
  then have "k < n" "P k" by (auto simp: find_Some_iff)
  then show ?thesis using Some assms by auto
qed

text \<open>The scatter kernel writes the pool the row by row loop of the CPU writes.\<close>

text \<open>The place of element \<open>e\<close> of logical row \<open>r\<close> in a pool.\<close>

lemma paged_address:
  assumes bs: "0 < bs" and tab: "table_ok nb table" and r: "r < length table * bs" and e: "e < kv"
  shows "vec_get table (int r sdiv int bs) = Inr (table ! (r div bs))"
    "(table ! (r div bs) * int bs + int r smod int bs) * int kv + int e = int (phys bs table r * kv + e)"
    "phys bs table r * kv + e < nb * bs * kv"
proof -
  show "vec_get table (int r sdiv int bs) = Inr (table ! (r div bs))"
    unfolding int_divmod[OF bs] by (rule vec_get_nat[OF row_index_lt[OF bs r]])
  have "0 \<le> table ! (r div bs)" using tab row_index_lt[OF bs r] by (simp add: table_ok_def)
  then show "(table ! (r div bs) * int bs + int r smod int bs) * int kv + int e = int (phys bs table r * kv + e)"
    unfolding int_divmod[OF bs] phys_def by simp
  show "phys bs table r * kv + e < nb * bs * kv"
    using row_in_bounds[OF phys_lt[OF tab bs r], of kv "nb * bs * kv"] e by simp
qed

text \<open>The source row that a row of the pool receives, and the thread that copies an element.\<close>

definition scatter_slot :: "nat \<Rightarrow> int list \<Rightarrow> nat \<Rightarrow> nat \<Rightarrow> nat \<Rightarrow> nat option" where
  "scatter_slot bs table start n P = find (\<lambda>i. phys bs table (start + i) = P) [0..<n]"

definition scatter_owner :: "nat \<Rightarrow> int list \<Rightarrow> nat \<Rightarrow> nat \<Rightarrow> nat \<Rightarrow> nat \<Rightarrow> nat option" where
  "scatter_owner bs table start n kv p = map_option (\<lambda>i. i * kv + p mod kv) (scatter_slot bs table start n (p div kv))"

lemma scatter_slot_iff:
  assumes "\<And>i j. i < n \<Longrightarrow> j < n \<Longrightarrow> phys bs table (start + i) = phys bs table (start + j) \<Longrightarrow> i = j"
  shows "scatter_slot bs table start n P = Some i \<longleftrightarrow> i < n \<and> phys bs table (start + i) = P"
  unfolding scatter_slot_def using assms by (intro find_unique) auto

lemma scatter_owner_iff:
  assumes inj: "\<And>i j. i < n \<Longrightarrow> j < n \<Longrightarrow> phys bs table (start + i) = phys bs table (start + j) \<Longrightarrow> i = j"
    and R: "r < n" "e < kv"
  shows "scatter_owner bs table start n kv p = Some (r * kv + e) \<longleftrightarrow> p = phys bs table (start + r) * kv + e"
proof
  note slot = scatter_slot_iff[OF inj]
  assume "scatter_owner bs table start n kv p = Some (r * kv + e)"
  then obtain i where i: "i < n" "phys bs table (start + i) = p div kv" "i * kv + p mod kv = r * kv + e"
    using slot by (auto simp: scatter_owner_def)
  then have "i = r" "p mod kv = e" using R(2)
    by (metis div_mult_self3 div_less add_0_right mod_less_divisor not_gr_zero not_less_zero,
        metis i(3) R(2) mod_mult_self3 mod_less mod_mod_trivial)
  then show "p = phys bs table (start + r) * kv + e" using i(2) by (metis div_mult_mod_eq)
next
  note slot = scatter_slot_iff[OF inj]
  assume "p = phys bs table (start + r) * kv + e"
  then have "p div kv = phys bs table (start + r)" "p mod kv = e" using R(2) by simp_all
  moreover have "scatter_slot bs table start n (phys bs table (start + r)) = Some r" using slot R(1) by blast
  ultimately show "scatter_owner bs table start n kv p = Some (r * kv + e)" by (simp add: scatter_owner_def)
qed

lemma scatter_thread:
  assumes bs: "0 < bs" and tab: "table_ok nb table" and room: "start + n \<le> length table * bs"
    and len: "length b = nb * bs * kv" "length src = n * kv" and R: "r < n" "e < kv"
  shows "paged_scatter_kernel table src (int start) (int n) (int bs) (int kv) (r * kv + e) b
    = Inr (b[phys bs table (start + r) * kv + e := src ! (r * kv + e)])"
proof -
  have "start + r < length table * bs" using R(1) room by simp
  note A = paged_address[OF bs tab this R(2)]
  have t: "r * kv + e < n * kv" using row_in_bounds[OF R(1), of kv "n * kv"] R(2) by simp
  then have t0: "\<not> int n * int kv \<le> int (r * kv + e)" by (simp only: of_nat_mult[symmetric] of_nat_le_iff not_le)
  have dm: "int (r * kv + e) sdiv int kv = int r" "int (r * kv + e) smod int kv = int e"
    using int_divmod[of kv "r * kv + e"] R(2) by simp_all
  have sg: "vec_get src (int r * int kv + int e) = Inr (src ! (r * kv + e))"
    using vec_get_nat[of "r * kv + e" src] t len(2) by simp
  have st: "vec_set b (int (phys bs table (start + r) * kv + e)) x = Inr (b[phys bs table (start + r) * kv + e := x])" for x
    using A(3) len(1) by (simp add: vec_set_def del: of_nat_add of_nat_mult)
  have t1: "int start + int r = int (start + r)" by simp
  show ?thesis
    unfolding paged_scatter_kernel_def Let_def dm t1 A(1) res_bind_Inr A(2) using t0 sg st by simp
qed

lemma k_paged_scatter_ok:
  assumes G: "schedules G" and bs: "0 < bs" and kv: "0 < kv" and tab: "table_ok nb table" and room: "start + n \<le> length table * bs"
    and pool: "length pool = nb * bs * kv" and src: "length src = n * kv" and small: "int (n * kv) < 2 ^ 38"
    and inj: "\<And>i j. i < n \<Longrightarrow> j < n \<Longrightarrow> phys bs table (start + i) = phys bs table (start + j) \<Longrightarrow> i = j"
  shows "k_paged_scatter G pool table src (int start) (int n) (int bs) (int kv)
    = paged_write (int bs) (int kv) table pool (int start) src (int n)"
proof (cases "n = 0")
  case True
  then show ?thesis by (simp add: k_paged_scatter_def paged_write_def)
next
  case False
  note slot = scatter_slot_iff[OF inj]
  let ?own = "scatter_owner bs table start n kv"
  let ?r = "\<lambda>p. src ! (the (scatter_slot bs table start n (p div kv)) * kv + p mod kv)"
  have launch: "launch G (grid_for (int (n * kv)) (int kThreads)) (paged_scatter_kernel table src (int start) (int n) (int bs) (int kv)) pool
      = Inr (map (\<lambda>p. if ?own p = None then pool ! p else ?r p) [0..<length pool])"
  proof (rule launch_ok[OF G])
    show "0 < int (n * kv)" using False kv by simp
  next
    fix t :: nat and b :: "f32 list"
    assume "int (n * kv) \<le> int t"
    then show "paged_scatter_kernel table src (int start) (int n) (int bs) (int kv) t b = Inr b"
      by (simp add: paged_scatter_kernel_def)
  next
    fix p t assume p: "p < length pool" "?own p = Some t"
    then obtain i where i: "i < n" "t = i * kv + p mod kv" using slot by (auto simp: scatter_owner_def)
    have "p mod kv < kv" using kv by simp
    then have "t < n * kv" using row_in_bounds[OF i(1), of kv "n * kv"] i(2) by simp
    then show "int t < int (n * kv)" by (simp only: of_nat_less_iff)
  next
    fix t :: nat and b :: "f32 list"
    assume t: "int t < int (n * kv)" and b: "length b = length pool"
    have t': "t < n * kv" using t by (simp only: of_nat_less_iff)
    define r where "r = t div kv"
    define e where "e = t mod kv"
    have R: "r < n" "e < kv" "t = r * kv + e" using divmod_lt[OF t'] by (simp_all add: r_def e_def)
    let ?p = "phys bs table (start + r) * kv + e"
    have "start + r < length table * bs" using R(1) room by simp
    note q = paged_address(3)[OF bs tab this R(2)]
    have own: "?own p = Some t \<longleftrightarrow> p = ?p" for p unfolding R(3) by (rule scatter_owner_iff[OF inj R(1,2)])
    have "scatter_slot bs table start n (phys bs table (start + r)) = Some r" using slot R(1) by blast
    then have "?r ?p = src ! t" using R by simp
    then have "\<forall>p < length pool. b[?p := src ! t] ! p = (if ?own p = Some t then ?r p else b ! p)"
      unfolding own using q b pool by (auto simp: nth_list_update)
    then show "\<exists>b'. paged_scatter_kernel table src (int start) (int n) (int bs) (int kv) t b = Inr b' \<and> length b' = length pool
      \<and> (\<forall>p < length pool. b' ! p = (if ?own p = Some t then ?r p else b ! p))"
      using scatter_thread[OF bs tab room _ src R(1,2), of b] b pool by (simp add: R(3))
  qed (use small in simp)
  obtain store' where s: "paged_write (int bs) (int kv) table pool (int start) src (int n) = Inr store'"
    "length store' = length pool" "\<forall>i < n. row kv (phys bs table (start + i)) store' = row kv i src"
    "\<forall>p < nb * bs. (\<forall>i < n. p \<noteq> phys bs table (start + i)) \<longrightarrow> row kv p store' = row kv p pool"
    using paged_write_ok[OF bs tab room pool src inj] by blast
  have "(if ?own p = None then pool ! p else ?r p) = store' ! p" if p: "p < nb * bs * kv" for p
  proof (cases "scatter_slot bs table start n (p div kv)")
    case None
    then have "\<forall>i < n. p div kv \<noteq> phys bs table (start + i)" by (auto simp: scatter_slot_def find_None_iff)
    then have "row kv (p div kv) store' = row kv (p div kv) pool" using s(4) divmod_lt[OF p] by blast
    then show ?thesis using None row_nth[OF _ p, of store'] s(2) pool row_nth[OF pool p] by (simp add: scatter_owner_def)
  next
    case (Some i)
    then have i: "i < n" "phys bs table (start + i) = p div kv" using slot by auto
    then have "row kv (p div kv) store' = row kv i src" using s(3) by metis
    moreover have "row kv i src ! (p mod kv) = src ! (i * kv + p mod kv)"
      using row_nth[OF src, of "i * kv + p mod kv"] row_in_bounds[OF i(1), of kv "n * kv"] divmod_lt[OF p] by simp
    ultimately show ?thesis using Some row_nth[OF _ p, of store'] s(2) pool by (simp add: scatter_owner_def)
  qed
  then have "map (\<lambda>p. if ?own p = None then pool ! p else ?r p) [0..<length pool] = map (\<lambda>p. store' ! p) [0..<length pool]"
    unfolding pool by (intro map_cong refl) (simp only: set_upt atLeastLessThan_iff)
  also have "\<dots> = store'" using map_nth[of store'] s(2) by simp
  finally have "map (\<lambda>p. if ?own p = None then pool ! p else ?r p) [0..<length pool] = store'" .
  then show ?thesis using launch s(1) False kv by (simp add: k_paged_scatter_def)
qed

text \<open>The gather kernel fills the front of its buffer with the rows the table sees.\<close>

lemma gather_thread:
  assumes bs: "0 < bs" and tab: "table_ok nb table" and room: "n \<le> length table * bs"
    and len: "length pool = nb * bs * kv" "n * kv \<le> length b" and R: "r < n" "e < kv"
  shows "paged_gather_kernel pool table (int n) (int bs) (int kv) (r * kv + e) b
    = Inr (b[r * kv + e := pool ! (phys bs table r * kv + e)])"
proof -
  have "r < length table * bs" using R(1) room by simp
  note A = paged_address[OF bs tab this R(2)]
  have t: "r * kv + e < n * kv" using row_in_bounds[OF R(1), of kv "n * kv"] R(2) by simp
  then have t0: "\<not> int n * int kv \<le> int (r * kv + e)" by (simp only: of_nat_mult[symmetric] of_nat_le_iff not_le)
  have dm: "int (r * kv + e) sdiv int kv = int r" "int (r * kv + e) smod int kv = int e"
    using int_divmod[of kv "r * kv + e"] R(2) by simp_all
  have pg: "vec_get pool (int (phys bs table r * kv + e)) = Inr (pool ! (phys bs table r * kv + e))"
    by (rule vec_get_nat) (use A(3) len(1) in simp)
  have st: "vec_set b (int (r * kv + e)) x = Inr (b[r * kv + e := x])" for x
    by (rule vec_set_nat) (use t len(2) in simp)
  show ?thesis
    unfolding paged_gather_kernel_def Let_def dm A(1) res_bind_Inr A(2) pg
    using t0 st by (simp del: of_nat_add of_nat_mult)
qed

lemma gathered_rows_nth:
  assumes bs: "0 < bs" and tab: "table_ok nb table" and room: "n \<le> length table * bs" and pool: "length pool = nb * bs * kv"
  shows "length (concat (seq_rows bs kv table pool n)) = n * kv"
    and "p < n * kv \<Longrightarrow> concat (seq_rows bs kv table pool n) ! p = pool ! (phys bs table (p div kv) * kv + p mod kv)"
proof -
  have lrow: "length (row kv (phys bs table r) pool) = kv" if "r < n" for r
    using phys_lt[OF tab bs, of r] that room pool by (simp add: length_row[of "nb * bs"])
  have "length (concat (seq_rows bs kv table pool n)) = length (seq_rows bs kv table pool n) * kv"
    by (rule length_concat_uniform) (use lrow in \<open>auto simp: seq_rows_def\<close>)
  then show "length (concat (seq_rows bs kv table pool n)) = n * kv" by simp
  assume p: "p < n * kv"
  have d: "p div kv < length table * bs" using divmod_lt[OF p] room by simp
  have "concat (map (\<lambda>r. row kv (phys bs table r) pool) [0..<n]) ! p = row kv (phys bs table (p div kv)) pool ! (p mod kv)"
    by (rule nth_concat_rows[OF lrow p])
  then show "concat (seq_rows bs kv table pool n) ! p = pool ! (phys bs table (p div kv) * kv + p mod kv)"
    using row_in_bounds[OF phys_lt[OF tab bs d], of kv "nb * bs * kv"] divmod_lt[OF p] pool
    by (simp add: row_def nth_slice seq_rows_def)
qed

lemma k_paged_gather_ok:
  assumes G: "schedules G" and bs: "0 < bs" and kv: "0 < kv" and tab: "table_ok nb table" and room: "n \<le> length table * bs"
    and pool: "length pool = nb * bs * kv" and out: "n * kv \<le> length out" and small: "int (n * kv) < 2 ^ 38"
  shows "k_paged_gather G pool table out (int n) (int bs) (int kv)
    = Inr (concat (seq_rows bs kv table pool n) @ drop (n * kv) out)"
proof (cases "n = 0")
  case True
  then show ?thesis by (simp add: k_paged_gather_def seq_rows_def)
next
  case False
  let ?own = "\<lambda>p. if p < n * kv then Some p else None"
  let ?r = "\<lambda>p. pool ! (phys bs table (p div kv) * kv + p mod kv)"
  have launch: "launch G (grid_for (int (n * kv)) (int kThreads)) (paged_gather_kernel pool table (int n) (int bs) (int kv)) out
      = Inr (map (\<lambda>p. if ?own p = None then out ! p else ?r p) [0..<length out])"
  proof (rule launch_ok[OF G])
    show "0 < int (n * kv)" using False kv by simp
  next
    fix t :: nat and b :: "f32 list"
    assume "int (n * kv) \<le> int t"
    then show "paged_gather_kernel pool table (int n) (int bs) (int kv) t b = Inr b"
      by (simp add: paged_gather_kernel_def)
  next
    fix p t assume "p < length out" "?own p = Some t"
    then have "t < n * kv" by (simp split: if_splits)
    then show "int t < int (n * kv)" by (simp only: of_nat_less_iff)
  next
    fix t :: nat and b :: "f32 list"
    assume t: "int t < int (n * kv)" and b: "length b = length out"
    have t': "t < n * kv" using t by (simp only: of_nat_less_iff)
    have "paged_gather_kernel pool table (int n) (int bs) (int kv) (t div kv * kv + t mod kv) b = Inr (b[t div kv * kv + t mod kv := ?r t])"
      using divmod_lt[OF t'] out b by (intro gather_thread[OF bs tab room pool]) simp_all
    then show "\<exists>b'. paged_gather_kernel pool table (int n) (int bs) (int kv) t b = Inr b' \<and> length b' = length out
      \<and> (\<forall>p < length out. b' ! p = (if ?own p = Some t then ?r p else b ! p))"
      using b t' by (auto simp: nth_list_update)
  qed (use small in simp)
  have "map (\<lambda>p. if ?own p = None then out ! p else ?r p) [0..<length out] = concat (seq_rows bs kv table pool n) @ drop (n * kv) out"
    using gathered_rows_nth[OF bs tab room pool] out
    by (intro nth_equalityI) (auto simp: nth_append simp del: upt_Suc)
  then show ?thesis using launch False kv by (simp add: k_paged_gather_def)
qed

section \<open>The online softmax against the two-pass softmax\<close>

text \<open>The softmax of \<open>nn.cpp\<close>: the maximum first, then the weights, then the weighted sum.\<close>

definition two_pass_softmax :: "'a arith \<Rightarrow> nat \<Rightarrow> ('a \<times> 'a list) list \<Rightarrow> 'a list" where
  "two_pass_softmax A dims svs =
     (let max_score = foldl (ar_max A) (ar_low A) (map fst svs);
          es = map (\<lambda>sv. ar_exp A (ar_sub A (fst sv) max_score)) svs;
          inv_sum = ar_div A (ar_one A) (foldl (ar_add A) (ar_zero A) es)
      in foldl (\<lambda>acc (e, vvec). let p = ar_mul A e inv_sum in map2 (\<lambda>a x. ar_mad A p x a) acc vvec)
           (replicate dims (ar_zero A)) (zip es (map snd svs)))"

definition real_arith :: "real \<Rightarrow> real arith" where
  "real_arith low = \<lparr>ar_zero = 0, ar_one = 1, ar_add = (+), ar_sub = (-), ar_mul = (*), ar_div = (/),
     ar_mad = (\<lambda>a b c. a * b + c), ar_mul_add = (\<lambda>a b c d. a * b + c * d), ar_exp = exp,
     ar_max = max, ar_low = low\<rparr>"

lemmas real_arith_simps = real_arith_def arith.simps

text \<open>The sums both compute, relative to a maximum \<open>m\<close>, and the softmax without any.\<close>

definition esum :: "real \<Rightarrow> (real \<times> real list) list \<Rightarrow> real" where
  "esum m svs = (\<Sum>(s, v) \<leftarrow> svs. exp (s - m))"

definition evals :: "real \<Rightarrow> nat \<Rightarrow> (real \<times> real list) list \<Rightarrow> real" where
  "evals m d svs = (\<Sum>(s, v) \<leftarrow> svs. exp (s - m) * v ! d)"

lemma esum_simps [simp]: "esum m [] = 0" "esum m (svs @ [(s, v)]) = esum m svs + exp (s - m)"
  by (simp_all add: esum_def)

lemma evals_simps [simp]: "evals m d [] = 0" "evals m d (svs @ [(s, v)]) = evals m d svs + exp (s - m) * v ! d"
  by (simp_all add: evals_def)

lemma exp_shift: "exp (a - m) * exp (m - m') = exp (a - (m' :: real))"
  by (simp flip: exp_add)

lemma esum_shift: "esum m svs * exp (m - m') = esum m' svs"
  by (induction svs rule: rev_induct) (auto simp: distrib_right exp_shift)

lemma evals_shift: "evals m d svs * exp (m - m') = evals m' d svs"
proof (induction svs rule: rev_induct)
  case (snoc sv svs)
  obtain s v where sv: "sv = (s, v)" by fastforce
  have "exp (s - m) * v ! d * exp (m - m') = exp (s - m') * v ! d" by (metis exp_shift mult.assoc mult.commute)
  then show ?case using snoc sv by (simp add: distrib_right)
qed simp

lemma online_fold:
  "\<forall>sv \<in> set svs. length (snd sv) = n \<Longrightarrow>
   \<exists>m. foldl (online_step (real_arith low)) (low, 0, replicate n 0) svs = (m, esum m svs, map (\<lambda>d. evals m d svs) [0..<n])"
proof (induction svs rule: rev_induct)
  case Nil
  then show ?case by (auto simp: map_replicate_const)
next
  case (snoc sv svs)
  obtain s v where sv: "sv = (s, v)" by fastforce
  with snoc obtain m where
    m: "foldl (online_step (real_arith low)) (low, 0, replicate n 0) svs = (m, esum m svs, map (\<lambda>d. evals m d svs) [0..<n])"
    by auto
  have v: "length v = n" using snoc.prems sv by simp
  have "map2 (\<lambda>a x. a * exp (m - max m s) + exp (s - max m s) * x) (map (\<lambda>d. evals m d svs) [0..<n]) v
      = map (\<lambda>d. evals (max m s) d (svs @ [(s, v)])) [0..<n]"
    using v by (intro nth_equalityI) (simp_all add: evals_shift)
  then have "online_step (real_arith low) (m, esum m svs, map (\<lambda>d. evals m d svs) [0..<n]) (s, v)
      = (max m s, esum (max m s) (svs @ [(s, v)]), map (\<lambda>d. evals (max m s) d (svs @ [(s, v)])) [0..<n])"
    by (simp add: online_step_def Let_def real_arith_simps esum_shift)
  then show ?case using m sv by (intro exI[of _ "max m s"]) (simp only: foldl_append foldl.simps)
qed

lemma foldl_esum: "foldl (+) (c :: real) (map (\<lambda>sv. exp (fst sv - m)) svs) = c + esum m svs"
  by (induction svs arbitrary: c) (auto simp: esum_def)

lemma two_pass_fold:
  "\<forall>sv \<in> set svs. length (snd sv) = n \<Longrightarrow>
   foldl (\<lambda>acc (e, vvec). map2 (\<lambda>a x. e * w * x + a) acc vvec) (replicate n 0)
     (zip (map (\<lambda>sv. exp (fst sv - m)) svs) (map snd svs)) = map (\<lambda>d. evals m d svs * w) [0..<n]"
proof (induction svs rule: rev_induct)
  case (snoc sv svs)
  obtain s v where sv: "sv = (s, v)" by fastforce
  have v: "length v = n" using snoc.prems sv by simp
  have "map2 (\<lambda>a x. exp (s - m) * w * x + a) (map (\<lambda>d. evals m d svs * w) [0..<n]) v
      = map (\<lambda>d. evals m d (svs @ [(s, v)]) * w) [0..<n]"
    using v by (intro nth_equalityI) (simp_all add: algebra_simps)
  then show ?case using snoc sv by simp
qed (simp add: map_replicate_const)

text \<open>The maximum that is subtracted cancels.\<close>

lemma softmax_shift: "evals m d svs * (1 / esum m svs) = evals m' d svs * (1 / esum m' svs)"
proof -
  have "evals m' d svs * (1 / esum m' svs) = evals m d svs * exp (m - m') * (1 / (esum m svs * exp (m - m')))"
    by (simp add: evals_shift esum_shift)
  then show ?thesis by simp
qed

lemma attn_head_two_pass:
  assumes "length ks = length vs"
  shows "attn_head F scale n q ks vs = map (f_of_d F) (two_pass_softmax (f64_arith F f64_max f64_minus_inf) n
    (map2 (\<lambda>kvec vvec. (d_mul F (dot F q kvec) scale, map (d_of_f F) vvec)) ks vs))"
proof -
  let ?svs = "map2 (\<lambda>kvec vvec. (d_mul F (dot F q kvec) scale, map (d_of_f F) vvec)) ks vs"
  have 1: "map fst ?svs = map (\<lambda>kvec. d_mul F (dot F q kvec) scale) ks"
    using assms by (intro nth_equalityI) auto
  have 2: "map (\<lambda>sv. g (fst sv)) ?svs = map g (map (\<lambda>kvec. d_mul F (dot F q kvec) scale) ks)" for g :: "f64 \<Rightarrow> f64"
    using assms by (intro nth_equalityI) auto
  have 3: "map snd ?svs = map (map (d_of_f F)) vs" using assms by (intro nth_equalityI) auto
  have 4: "map2 f acc (map g v) = map2 (\<lambda>a x. f a (g x)) acc v" for f :: "f64 \<Rightarrow> f64 \<Rightarrow> f64" and g :: "f32 \<Rightarrow> f64" and acc v
    by (simp add: zip_map2 comp_def case_prod_unfold)
  have 5: "foldl (\<lambda>acc (e, vvec). h e acc vvec) acc (zip es (map g ws)) = foldl (\<lambda>acc (e, vvec). h e acc (g vvec)) acc (zip es ws)"
    for h :: "f64 \<Rightarrow> f64 list \<Rightarrow> f64 list \<Rightarrow> f64 list" and g :: "f32 list \<Rightarrow> f64 list" and es acc ws
    by (induction es arbitrary: acc ws) (auto simp: zip_Cons1 split: list.splits)
  define M where "M = foldl f64_max f64_minus_inf (map (\<lambda>kvec. d_mul F (dot F q kvec) scale) ks)"
  have M: "foldl f64_max f64_minus_inf (map fst ?svs) = M" unfolding 1 M_def ..
  show ?thesis
    unfolding two_pass_softmax_def Let_def f64_arith_def arith.simps M
    unfolding 2[of "\<lambda>s. d_exp F (d_sub F s M)"] 3 5 4 attn_head_def Let_def M_def[symmetric] by (simp only: map_map)
qed

section \<open>Property\<close>

text \<open>C13: The device computes attention with a single-pass online softmax, the CPU with two passes.
  Over the real numbers the two algorithms are the same function, whatever the first value
  of the running maximum is; both codes are their algorithm in double arithmetic.\<close>

theorem online_softmax_exact:
  assumes "\<forall>sv \<in> set svs. length (snd sv) = n" "length ks = length vs"
  shows "online_softmax (real_arith low) n svs = two_pass_softmax (real_arith low') n svs
    \<and> gpu_attn_head F scale n q ks vs = map (f_of_d F) (online_softmax (f64_arith F f64_fmax f64_low) n
      (map2 (\<lambda>kvec vvec. (d_mul F (dot F q kvec) scale, map (d_of_f F) vvec)) ks vs))
    \<and> attn_head F scale n q ks vs = map (f_of_d F) (two_pass_softmax (f64_arith F f64_max f64_minus_inf) n
      (map2 (\<lambda>kvec vvec. (d_mul F (dot F q kvec) scale, map (d_of_f F) vvec)) ks vs))"
proof (intro conjI)
  define m' where "m' = foldl max low' (map fst svs)"
  from online_fold[OF assms(1), of low] obtain m where
    m: "foldl (online_step (real_arith low)) (low, 0, replicate n 0) svs = (m, esum m svs, map (\<lambda>d. evals m d svs) [0..<n])" by blast
  have "online_softmax (real_arith low) n svs = map (\<lambda>d. evals m d svs * (1 / esum m svs)) [0..<n]"
    using m by (simp add: online_softmax_def Let_def real_arith_simps comp_def)
  also have "\<dots> = map (\<lambda>d. evals m' d svs * (1 / esum m' svs)) [0..<n]"
    by (rule map_cong[OF refl]) (rule softmax_shift)
  also have "\<dots> = two_pass_softmax (real_arith low') n svs"
    using two_pass_fold[OF assms(1), of "1 / esum m' svs" m'] foldl_esum[of 0 m' svs]
    by (simp add: two_pass_softmax_def Let_def real_arith_simps flip: m'_def)
  finally show "online_softmax (real_arith low) n svs = two_pass_softmax (real_arith low') n svs" .
qed (simp add: gpu_attn_head_def, rule attn_head_two_pass[OF assms(2)])

lemma online_softmax_exact_witness:
  "online_softmax (real_arith 0) 2 [(1, [3, 4]), (2, [5, 6])] = two_pass_softmax (real_arith 7) 2 [(1, [3, 4]), (2, [5, 6])]"
  using online_softmax_exact[of "[(1, [3, 4]), (2, [5, 6])]" 2 "[]" "[]" 0 7] by simp

end
