(* ===== verification/Cuda_Sample.thy ===== *)
theory Cuda_Sample
  imports Cuda_Threads Sample_Arith
begin

text \<open>
  A concrete device, on which the properties of the device code are evaluated: the bit
  pattern arithmetic of \<open>Sample_Arith\<close>, its row by row product as \<open>cublasSgemm\<close>, and threads
  that run from the last to the first.
\<close>

definition toy_gpu :: gpu where
  "toy_gpu = \<lparr>g_fpu = toy_fpu, g_sgemm = mul_nt toy_eigen, g_order = (\<lambda>n. rev [0..<n]), g_junk = 99\<rparr>"

lemma toy_schedules: "schedules toy_gpu"
  by (auto simp: schedules_def toy_gpu_def)

lemma toy_sgemm: "sgemm_rowwise toy_gpu"
proof -
  from toy_rowwise have "mul_nt_rowwise toy_eigen" "mul_nt_sized toy_eigen" by (simp_all add: eigen_rowwise_def)
  then show ?thesis unfolding sgemm_rowwise_def mul_nt_rowwise_def mul_nt_sized_def toy_gpu_def gpu.simps by blast
qed

end
