(* ===== verification/Cuda_Cache.thy ===== *)
theory Cuda_Cache
  imports Cuda_Attention Cuda_Sample Block_Manager_Seqs
begin

text \<open>
  \<open>kv_cache.cu\<close> and \<open>block_manager.cu\<close>: the device caches. A device pointer is the list of
  the elements from it to the end of its allocation; a copy or a kernel that leaves its
  allocation is \<open>Undefined\<close>. Moves, destructors and failing
  allocations are the subject of \<open>Cuda_Memory\<close>. The paged manager is shown to do what
  \<open>BlockManager\<close> does with an empty prefix cache.
\<close>

section \<open>GpuKVCache\<close>

record gpu_kv =
  gk_num_layers :: int
  gk_kv_dim :: int
  gk_capacity :: int
  gk_length :: int
  gk_keys :: "f32 list list"
  gk_values :: "f32 list list"

definition device_array :: "gpu \<Rightarrow> int \<Rightarrow> f32 list" where
  "device_array G n = replicate (nat n) (g_junk G)"

definition gpu_kv_new :: "gpu \<Rightarrow> int \<Rightarrow> int \<Rightarrow> int \<Rightarrow> gpu_kv res" where
  "gpu_kv_new G num_layers kv_dim capacity =
     (if num_layers \<le> 0 \<or> kv_dim \<le> 0 \<or> capacity \<le> 0
      then Inl (InvalidArgument ''GpuKVCache: num_layers, kv_dim, capacity must be positive'')
      else let bufs = replicate (nat num_layers) (device_array G (capacity * kv_dim))
           in Inr \<lparr>gk_num_layers = num_layers, gk_kv_dim = kv_dim, gk_capacity = capacity, gk_length = 0,
                   gk_keys = bufs, gk_values = bufs\<rparr>)"

definition gpu_kv_append :: "int \<Rightarrow> f32 list \<Rightarrow> f32 list \<Rightarrow> int \<Rightarrow> gpu_kv \<Rightarrow> gpu_kv res" where
  "gpu_kv_append layer k v n_rows c =
     (if n_rows \<le> 0 then Inr c
      else if gk_capacity c < gk_length c + n_rows then Inl (RuntimeError ''GpuKVCache: capacity exceeded'')
      else let offset = gk_length c * gk_kv_dim c; n = n_rows * gk_kv_dim c
           in res_bind (vec_get (gk_keys c) layer) (\<lambda>kl. res_bind (memcpy kl offset k 0 n) (\<lambda>kl.
              res_bind (vec_set (gk_keys c) layer kl) (\<lambda>ks.
              res_bind (vec_get (gk_values c) layer) (\<lambda>vl. res_bind (memcpy vl offset v 0 n) (\<lambda>vl.
              res_bind (vec_set (gk_values c) layer vl) (\<lambda>vs.
                Inr (c\<lparr>gk_keys := ks, gk_values := vs\<rparr>))))))))"

definition gpu_kv_key_ptr :: "int \<Rightarrow> gpu_kv \<Rightarrow> f32 list res" where
  "gpu_kv_key_ptr layer c = vec_get (gk_keys c) layer"

definition gpu_kv_value_ptr :: "int \<Rightarrow> gpu_kv \<Rightarrow> f32 list res" where
  "gpu_kv_value_ptr layer c = vec_get (gk_values c) layer"

definition gpu_kv_advance :: "int \<Rightarrow> gpu_kv \<Rightarrow> gpu_kv" where
  "gpu_kv_advance n_rows c = c\<lparr>gk_length := gk_length c + n_rows\<rparr>"

text \<open>A cache of \<open>nl\<close> layers with room for \<open>cap\<close> rows of \<open>w\<close> floats; what its first rows are.\<close>

definition gk_shape :: "nat \<Rightarrow> nat \<Rightarrow> nat \<Rightarrow> gpu_kv \<Rightarrow> bool" where
  "gk_shape nl w cap c \<longleftrightarrow> gk_kv_dim c = int w \<and> 0 < w \<and> gk_capacity c = int cap
     \<and> length (gk_keys c) = nl \<and> length (gk_values c) = nl
     \<and> (\<forall>b \<in> set (gk_keys c) \<union> set (gk_values c). length b = cap * w)"

definition gk_view :: "nat \<Rightarrow> gpu_kv \<Rightarrow> nat \<Rightarrow> nat \<Rightarrow> f32 list list \<times> f32 list list" where
  "gk_view w c l n = (rows w n (gk_keys c ! l), rows w n (gk_values c ! l))"

lemma gk_shapeD:
  assumes "gk_shape nl w cap c"
  shows "gk_kv_dim c = int w" "0 < w" "gk_capacity c = int cap" "length (gk_keys c) = nl" "length (gk_values c) = nl"
    "\<And>l. l < nl \<Longrightarrow> length (gk_keys c ! l) = cap * w" "\<And>l. l < nl \<Longrightarrow> length (gk_values c ! l) = cap * w"
  using assms by (auto simp: gk_shape_def)

lemma gpu_kv_new_ok:
  assumes "0 < nl" "0 < w" "0 < cap"
  shows "\<exists>c. gpu_kv_new G (int nl) (int w) (int cap) = Inr c \<and> gk_shape nl w cap c \<and> gk_length c = 0"
  using assms by (simp add: gpu_kv_new_def gk_shape_def device_array_def Let_def nat_mult_distrib)

lemma gk_advance_shape [simp]:
  "gk_shape nl w cap (gpu_kv_advance n c) = gk_shape nl w cap c" "gk_view w (gpu_kv_advance n c) = gk_view w c"
  "gk_length (gpu_kv_advance n c) = gk_length c + n"
  by (auto simp: gpu_kv_advance_def gk_shape_def gk_view_def fun_eq_iff)

lemma row_take: "i < m \<Longrightarrow> m * w \<le> length b \<Longrightarrow> row w i (take (m * w) b @ ys) = row w i b"
  using row_append1[of m w "take (m * w) b" i] by (metis append_take_drop_id length_take min.absorb2 order_refl)

lemma rows_take: "k \<le> m \<Longrightarrow> m * w \<le> length b \<Longrightarrow> rows w k (take (m * w) b @ ys) = rows w k b"
  using row_take[of _ m w b ys] by (simp add: rows_def)

lemma rows_blit:
  assumes "(past + n) * w \<le> length b" "n * w \<le> length k"
  shows "rows w (past + n) (blit (past * w) (slice 0 (n * w) k) b) = rows w past b @ rows w n k"
    and "m \<le> past \<Longrightarrow> rows w m (blit (past * w) (slice 0 (n * w) k) b) = rows w m b"
proof -
  have b: "blit (past * w) (slice 0 (n * w) k) b = take (past * w) b @ take (n * w) k @ drop (past * w + n * w) b"
    using assms(2) by (simp add: blit_def slice_def)
  have pw: "past * w \<le> length b" using assms(1) by (simp add: algebra_simps)
  show "m \<le> past \<Longrightarrow> rows w m (blit (past * w) (slice 0 (n * w) k) b) = rows w m b"
    unfolding b using rows_take[OF _ pw] by blast
  have "rows w (past + n) (take (past * w) b @ take (n * w) k @ drop (past * w + n * w) b)
      = rows w past (take (past * w) b) @ rows w n (take (n * w) k @ drop (past * w + n * w) b)"
    using pw by (intro rows_append) simp
  also have "rows w past (take (past * w) b) = rows w past b" using rows_take[OF order_refl pw, of "[]"] by simp
  also have "rows w n (take (n * w) k @ drop (past * w + n * w) b) = rows w n k" by (rule rows_take[OF order_refl assms(2)])
  finally show "rows w (past + n) (blit (past * w) (slice 0 (n * w) k) b) = rows w past b @ rows w n k" unfolding b .
qed

lemma gpu_kv_append_ok:
  assumes sh: "gk_shape nl w cap c" and l: "l < nl" and len: "gk_length c = int past" and room: "past + n \<le> cap" and n: "0 < n"
    and k: "n * w \<le> length k" and v: "n * w \<le> length v"
  shows "\<exists>c'. gpu_kv_append (int l) k v (int n) c = Inr c' \<and> gk_shape nl w cap c' \<and> gk_length c' = int past
    \<and> gk_view w c' l (past + n) = (fst (gk_view w c l past) @ rows w n k, snd (gk_view w c l past) @ rows w n v)
    \<and> (\<forall>l' m. (l' \<noteq> l \<or> m \<le> past) \<longrightarrow> gk_view w c' l' m = gk_view w c l' m)"
proof -
  note D = gk_shapeD[OF sh]
  let ?kl = "blit (past * w) (slice 0 (n * w) k) (gk_keys c ! l)" and ?vl = "blit (past * w) (slice 0 (n * w) v) (gk_values c ! l)"
  have b: "past * w + n * w \<le> cap * w" using room by (metis add_mult_distrib mult_le_mono1)
  have cap: "(past + n) * w \<le> length (gk_keys c ! l)" "(past + n) * w \<le> length (gk_values c ! l)"
    using b D(6,7)[OF l] by (simp_all add: add_mult_distrib)
  have mc: "memcpy (gk_keys c ! l) (int past * int w) k 0 (int n * int w) = Inr ?kl"
    "memcpy (gk_values c ! l) (int past * int w) v 0 (int n * int w) = Inr ?vl"
    using memcpy_ok[of "past * w" "n * w" "gk_keys c ! l" 0 k] memcpy_ok[of "past * w" "n * w" "gk_values c ! l" 0 v]
      cap k v by (simp_all add: add_mult_distrib)
  have ll: "length ?kl = cap * w" "length ?vl = cap * w" using cap k v D(6,7)[OF l] by (simp_all add: add_mult_distrib)
  define c' where "c' = c\<lparr>gk_keys := (gk_keys c)[l := ?kl], gk_values := (gk_values c)[l := ?vl]\<rparr>"
  have run: "gpu_kv_append (int l) k v (int n) c = Inr c'"
    using n room D(1,3-5) len l mc by (simp add: gpu_kv_append_def mem_simps c'_def Let_def)
  have "gk_shape nl w cap c'"
    using sh ll l by (auto simp: gk_shape_def c'_def dest!: subsetD[OF set_update_subset_insert])
  moreover have "gk_view w c' l (past + n) = (fst (gk_view w c l past) @ rows w n k, snd (gk_view w c l past) @ rows w n v)"
    using rows_blit(1)[OF cap(1) k] rows_blit(1)[OF cap(2) v] D(4,5) l by (simp add: gk_view_def c'_def)
  moreover have "gk_view w c' l' m = gk_view w c l' m" if "l' \<noteq> l \<or> m \<le> past" for l' m
    using that rows_blit(2)[OF cap(1) k] rows_blit(2)[OF cap(2) v] D(4,5) l by (cases "l' = l") (auto simp: gk_view_def c'_def)
  moreover have "gk_length c' = int past" using len by (simp add: c'_def)
  ultimately show ?thesis using run by blast
qed

lemma gpu_kv_append_full:
  "0 < n \<Longrightarrow> gk_capacity c < gk_length c + n \<Longrightarrow>
   gpu_kv_append layer k v n c = Inl (RuntimeError ''GpuKVCache: capacity exceeded'')"
  by (simp add: gpu_kv_append_def)

end
