(* ===== verification/Cuda_Blocks.thy ===== *)
theory Cuda_Blocks
  imports Cuda_Cache
begin

text \<open>
  \<open>cuda/block_manager.cu\<close>: the paged pool on the device. The block table of a sequence is
  copied into a scratch buffer before each kernel; the buffer only grows, so behind the
  table it may still hold an older one. \<open>bm_of\<close> forgets the scratch buffer; over it the
  device manager is \<open>BlockManager\<close> with an empty prefix cache.
\<close>

section \<open>The code\<close>

record gpu_bm =
  gb_num_layers :: int
  gb_kv_dim :: int
  gb_block_size :: int
  gb_alloc :: block_allocator
  gb_keys :: "f32 list list"
  gb_values :: "f32 list list"
  gb_device_table :: "int list"

definition gpu_bm_new :: "gpu \<Rightarrow> int \<Rightarrow> int \<Rightarrow> int \<Rightarrow> int \<Rightarrow> gpu_bm res" where
  "gpu_bm_new G num_layers kv_dim block_size nblocks =
     res_bind (allocator_new nblocks) (\<lambda>al.
       if num_layers \<le> 0 \<or> kv_dim \<le> 0 \<or> block_size \<le> 0
       then Inl (InvalidArgument ''GpuBlockManager: num_layers, kv_dim, block_size must be positive'')
       else let pools = replicate (nat num_layers) (device_array G (nblocks * block_size * kv_dim))
            in Inr \<lparr>gb_num_layers = num_layers, gb_kv_dim = kv_dim, gb_block_size = block_size, gb_alloc = al,
                    gb_keys = pools, gb_values = pools, gb_device_table = []\<rparr>)"

definition gpu_free_blocks :: "gpu_bm \<Rightarrow> int" where
  "gpu_free_blocks g = num_free (gb_alloc g)"

definition gpu_blocks_for :: "gpu_bm \<Rightarrow> int \<Rightarrow> int" where
  "gpu_blocks_for g tokens = (tokens + gb_block_size g - 1) sdiv gb_block_size g"

definition gpu_can_append :: "gpu_bm \<Rightarrow> sequence_blocks \<Rightarrow> int \<Rightarrow> bool" where
  "gpu_can_append g seq n_new \<longleftrightarrow>
     gpu_blocks_for g (seq_length seq + n_new) - int (length (block_table seq)) \<le> num_free (gb_alloc g)"

text \<open>The capacity of the scratch buffer is its length; a larger one is allocated when needed.\<close>

definition upload_table :: "sequence_blocks \<Rightarrow> gpu_bm \<Rightarrow> gpu_bm" where
  "upload_table seq g =
     (let need = length (block_table seq); cap = length (gb_device_table g)
      in if need = 0 then g
         else if cap < need then g\<lparr>gb_device_table := block_table seq\<rparr>
         else g\<lparr>gb_device_table := block_table seq @ drop need (gb_device_table g)\<rparr>)"

definition gpu_allocate_block :: "gpu_bm \<Rightarrow> (int \<times> gpu_bm) res" where
  "gpu_allocate_block g = res_bind (allocate (gb_alloc g)) (\<lambda>(b, al). Inr (b, g\<lparr>gb_alloc := al\<rparr>))"

definition gpu_reserve :: "sequence_blocks \<Rightarrow> int \<Rightarrow> gpu_bm \<Rightarrow> (sequence_blocks \<times> gpu_bm) res" where
  "gpu_reserve seq n_new g =
     res_bind (grow_to gpu_allocate_block (gpu_blocks_for g (seq_length seq + n_new)) (block_table seq) g)
       (\<lambda>(tbl, g). Inr (seq\<lparr>block_table := tbl\<rparr>, g))"

definition gpu_write ::
    "gpu \<Rightarrow> sequence_blocks \<Rightarrow> int \<Rightarrow> int \<Rightarrow> f32 list \<Rightarrow> f32 list \<Rightarrow> int \<Rightarrow> gpu_bm \<Rightarrow> gpu_bm res" where
  "gpu_write G seq layer start k v n g =
     (if n \<le> 0 then Inr g
      else let g = upload_table seq g; tbl = gb_device_table g; bs = gb_block_size g; kv = gb_kv_dim g
           in res_bind (vec_get (gb_keys g) layer) (\<lambda>ks. res_bind (k_paged_scatter G ks tbl k start n bs kv) (\<lambda>ks'.
              res_bind (vec_set (gb_keys g) layer ks') (\<lambda>keys'.
              res_bind (vec_get (gb_values g) layer) (\<lambda>vs. res_bind (k_paged_scatter G vs tbl v start n bs kv) (\<lambda>vs'.
              res_bind (vec_set (gb_values g) layer vs') (\<lambda>values'.
                Inr (g\<lparr>gb_keys := keys', gb_values := values'\<rparr>))))))))"

definition gpu_gather ::
    "gpu \<Rightarrow> sequence_blocks \<Rightarrow> int \<Rightarrow> int \<Rightarrow> f32 list \<Rightarrow> f32 list \<Rightarrow> gpu_bm \<Rightarrow> (f32 list \<times> f32 list \<times> gpu_bm) res" where
  "gpu_gather G seq layer n_rows k_out v_out g =
     (if n_rows \<le> 0 then Inr (k_out, v_out, g)
      else let g = upload_table seq g; tbl = gb_device_table g; bs = gb_block_size g; kv = gb_kv_dim g
           in res_bind (vec_get (gb_keys g) layer) (\<lambda>ks. res_bind (k_paged_gather G ks tbl k_out n_rows bs kv) (\<lambda>k_out.
              res_bind (vec_get (gb_values g) layer) (\<lambda>vs. res_bind (k_paged_gather G vs tbl v_out n_rows bs kv) (\<lambda>v_out.
                Inr (k_out, v_out, g))))))"

definition gpu_commit :: "sequence_blocks \<Rightarrow> int \<Rightarrow> sequence_blocks" where
  "gpu_commit seq n = seq\<lparr>seq_length := seq_length seq + n\<rparr>"

definition gpu_release_block :: "int \<Rightarrow> gpu_bm \<Rightarrow> gpu_bm res" where
  "gpu_release_block b g = res_bind (free b (gb_alloc g)) (\<lambda>al. Inr (g\<lparr>gb_alloc := al\<rparr>))"

definition gpu_free :: "sequence_blocks \<Rightarrow> gpu_bm \<Rightarrow> (sequence_blocks \<times> gpu_bm) res" where
  "gpu_free seq g =
     res_bind (res_fold gpu_release_block (block_table seq) g) (\<lambda>g. Inr (seq\<lparr>block_table := [], seq_length := 0\<rparr>, g))"

section \<open>As a block manager\<close>

definition bm_of :: "gpu_bm \<Rightarrow> block_manager" where
  "bm_of g = \<lparr>bm_num_layers = gb_num_layers g, bm_kv_dim = gb_kv_dim g, bm_block_size = gb_block_size g,
     bm_alloc = gb_alloc g, bm_keys = gb_keys g, bm_values = gb_values g, bm_prefix = [], bm_prefix_hits = 0, bm_tick = 0\<rparr>"

abbreviation abs_seq :: "(sequence_blocks \<times> gpu_bm) res \<Rightarrow> (sequence_blocks \<times> block_manager) res" where
  "abs_seq \<equiv> map_sum id (map_prod id bm_of)"

lemma bm_of_simps [simp]:
  "bm_num_layers (bm_of g) = gb_num_layers g" "bm_kv_dim (bm_of g) = gb_kv_dim g" "bm_block_size (bm_of g) = gb_block_size g"
  "bm_alloc (bm_of g) = gb_alloc g" "bm_keys (bm_of g) = gb_keys g" "bm_values (bm_of g) = gb_values g" "bm_prefix (bm_of g) = []"
  "bm_of (g\<lparr>gb_alloc := al\<rparr>) = bm_of g\<lparr>bm_alloc := al\<rparr>" "bm_of (g\<lparr>gb_keys := ks, gb_values := vs\<rparr>) = bm_of g\<lparr>bm_keys := ks, bm_values := vs\<rparr>"
  "bm_of (g\<lparr>gb_device_table := t\<rparr>) = bm_of g"
  by (simp_all add: bm_of_def)

lemma bm_of_upload [simp]: "bm_of (upload_table seq g) = bm_of g"
  by (simp add: upload_table_def Let_def)

lemma bm_of_allocate: "allocate_block (bm_of g) = map_sum id (map_prod id bm_of) (gpu_allocate_block g)"
proof -
  have e: "evict_lru (bm_of g) = Inr (bm_of g)" by (simp add: evict_lru_def located_def)
  show ?thesis
    by (cases "allocate (gb_alloc g)") (auto simp: gpu_allocate_block_def allocate_block_def e)
qed

lemma bm_of_grow: "grow allocate_block k t (bm_of g) = map_sum id (map_prod id bm_of) (grow gpu_allocate_block k t g)"
proof (induction k arbitrary: t g)
  case (Suc k)
  then show ?case by (cases "gpu_allocate_block g") (auto simp: bm_of_allocate)
qed simp

lemma bm_of_reserve: "reserve seq n (bm_of g) = abs_seq (gpu_reserve seq n g)"
  by (cases "grow gpu_allocate_block (nat (gpu_blocks_for g (seq_length seq + n) - int (length (block_table seq)))) (block_table seq) g")
     (auto simp: gpu_reserve_def reserve_def grow_to_def gpu_blocks_for_def blocks_for_def bm_of_grow)

lemma bm_of_release: "res_fold release_block bs (bm_of g) = map_sum id bm_of (res_fold gpu_release_block bs g)"
proof (induction bs arbitrary: g)
  case (Cons b bs)
  show ?case
  proof (cases "free b (gb_alloc g)")
    case (Inr al)
    then show ?thesis using Cons[of "g\<lparr>gb_alloc := al\<rparr>"] by (simp add: gpu_release_block_def release_block_def)
  qed (simp add: gpu_release_block_def release_block_def)
qed simp

lemma bm_of_free: "bm_free seq (bm_of g) = abs_seq (gpu_free seq g)"
  by (cases "res_fold gpu_release_block (block_table seq) g") (auto simp: gpu_free_def bm_free_def bm_of_release)

text \<open>The scratch buffer after an upload starts with the table.\<close>

lemma upload_table_prefix:
  assumes "block_table seq \<noteq> []"
  shows "\<exists>rest. gb_device_table (upload_table seq g) = block_table seq @ rest"
  using assms by (auto simp: upload_table_def Let_def)

lemma upload_fields [simp]:
  "gb_kv_dim (upload_table seq g) = gb_kv_dim g" "gb_block_size (upload_table seq g) = gb_block_size g"
  "gb_keys (upload_table seq g) = gb_keys g" "gb_values (upload_table seq g) = gb_values g"
  "gb_alloc (upload_table seq g) = gb_alloc g"
  by (simp_all add: upload_table_def Let_def)

lemma slot_offset_append:
  "0 < bs \<Longrightarrow> r < length table * bs \<Longrightarrow> slot_offset (int bs) kv (table @ rest) (int r) = slot_offset (int bs) kv table (int r)"
  using row_index_lt[of bs r table] by (simp add: slot_offset_def vec_get_nat nth_append flip: zdiv_int)

lemma paged_write_append:
  assumes "0 < bs" "start + n \<le> length table * bs"
  shows "paged_write (int bs) kv (table @ rest) store (int start) src (int n) = paged_write (int bs) kv table store (int start) src (int n)"
  unfolding paged_write_def
proof (rule res_fold_cong[OF refl refl])
  fix r and st :: "f32 list" assume "r \<in> set [0..<nat (int n)]"
  then have "start + r < length table * bs" using assms(2) by simp
  from slot_offset_append[OF assms(1) this, of kv rest]
  show "res_bind (slot_offset (int bs) kv (table @ rest) (int start + int r)) (\<lambda>off. memcpy st off src (int r * kv) kv) =
      res_bind (slot_offset (int bs) kv table (int start + int r)) (\<lambda>off. memcpy st off src (int r * kv) kv)" by simp
qed

text \<open>The kernels read the table only where the rows are.\<close>

lemma vec_get_append: "0 \<le> i \<Longrightarrow> i < int (length xs) \<Longrightarrow> vec_get (xs @ ys) i = vec_get xs i"
  by (simp add: vec_get_def nth_append nat_less_iff)

lemma scatter_kernel_append:
  assumes "0 < bs" "0 < kv" "start + n \<le> length table * bs"
  shows "paged_scatter_kernel (table @ rest) src (int start) (int n) (int bs) (int kv) = paged_scatter_kernel table src (int start) (int n) (int bs) (int kv)"
proof (intro ext)
  fix t and b :: "f32 list"
  show "paged_scatter_kernel (table @ rest) src (int start) (int n) (int bs) (int kv) t b = paged_scatter_kernel table src (int start) (int n) (int bs) (int kv) t b"
  proof (cases "t < n * kv")
    case True
    have d: "t div kv < n" using divmod_lt[OF True] by blast
    then have "start + t div kv < length table * bs" using assms(3) by simp
    then have "(start + t div kv) div bs < length table" by (rule row_index_lt[OF assms(1)])
    moreover have "(int start + int t sdiv int kv) sdiv int bs = int ((start + t div kv) div bs)"
      unfolding int_divmod(1)[OF assms(2)] of_nat_add[symmetric] by (rule int_divmod(1)[OF assms(1)])
    ultimately have "vec_get (table @ rest) ((int start + int t sdiv int kv) sdiv int bs) = vec_get table ((int start + int t sdiv int kv) sdiv int bs)"
      by (intro vec_get_append) simp_all
    then show ?thesis unfolding paged_scatter_kernel_def Let_def by (rule arg_cong)
  next
    case False
    then have "int n * int kv \<le> int t" by (simp flip: of_nat_mult)
    then show ?thesis by (simp add: paged_scatter_kernel_def)
  qed
qed

lemma gather_kernel_append:
  assumes "0 < bs" "0 < kv" "n \<le> length table * bs"
  shows "paged_gather_kernel pool (table @ rest) (int n) (int bs) (int kv) = paged_gather_kernel pool table (int n) (int bs) (int kv)"
proof (intro ext)
  fix t and b :: "f32 list"
  show "paged_gather_kernel pool (table @ rest) (int n) (int bs) (int kv) t b = paged_gather_kernel pool table (int n) (int bs) (int kv) t b"
  proof (cases "t < n * kv")
    case True
    then have "t div kv < length table * bs" using divmod_lt[OF True] assms(3) by simp
    then have "t div kv div bs < length table" by (rule row_index_lt[OF assms(1)])
    moreover have "int t sdiv int kv sdiv int bs = int (t div kv div bs)"
      unfolding int_divmod(1)[OF assms(2)] by (rule int_divmod(1)[OF assms(1)])
    ultimately have "vec_get (table @ rest) (int t sdiv int kv sdiv int bs) = vec_get table (int t sdiv int kv sdiv int bs)"
      by (intro vec_get_append) simp_all
    then show ?thesis unfolding paged_gather_kernel_def Let_def by (rule arg_cong)
  next
    case False
    then have "int n * int kv \<le> int t" by (simp flip: of_nat_mult)
    then show ?thesis by (simp add: paged_gather_kernel_def)
  qed
qed

section \<open>Writing and gathering\<close>

definition gpu_small :: "nat \<Rightarrow> nat \<Rightarrow> bool" where
  "gpu_small n w \<longleftrightarrow> int (n * w) < 2 ^ 38"

lemma bm_of_write:
  assumes G: "schedules G" and sh: "bm_shape bs w nb nl (bm_of g)" and tab: "table_ok nb (block_table seq)"
    and once: "once_from (start div bs) (block_table seq)" and room: "start + n \<le> length (block_table seq) * bs"
    and l: "l < nl" and k: "length k = n * w" and v: "length v = n * w" and small: "gpu_small n w"
  shows "bm_write seq (int l) (int start) k v (int n) (bm_of g) = map_sum id bm_of (gpu_write G seq (int l) (int start) k v (int n) g)"
proof (cases "n = 0")
  case True
  note D = bm_shapeD[OF sh]
  then show ?thesis using True l by (simp add: gpu_write_def bm_write_def write_one_def paged_write_def mem_simps bm_of_def)
next
  case False
  note D = bm_shapeD[OF sh, unfolded bm_of_simps]
  let ?t = "block_table seq"
  have "?t \<noteq> []" using room False by auto
  then obtain rest where r: "gb_device_table (upload_table seq g) = ?t @ rest" using upload_table_prefix by blast
  have inj: "i = j" if "i < n" "j < n" "phys bs ?t (start + i) = phys bs ?t (start + j)" for i j
    using phys_inj_from[OF D(2) tab once, of "start + i" "start + j"] that room by simp
  have sc: "k_paged_scatter G pool (?t @ rest) src (int start) (int n) (int bs) (int w) = paged_write (int bs) (int w) ?t pool (int start) src (int n)"
    if "length pool = nb * bs * w" "length src = n * w" for pool src
  proof -
    have "k_paged_scatter G pool (?t @ rest) src (int start) (int n) (int bs) (int w) = k_paged_scatter G pool ?t src (int start) (int n) (int bs) (int w)"
      by (simp add: k_paged_scatter_def scatter_kernel_append[OF D(2,4) room])
    also have "\<dots> = paged_write (int bs) (int w) ?t pool (int start) src (int n)"
      by (rule k_paged_scatter_ok[OF G D(2,4) tab room that]) (use small inj in \<open>auto simp: gpu_small_def\<close>)
    finally show ?thesis .
  qed
  have ks: "k_paged_scatter G (gb_keys g ! l) (?t @ rest) k (int start) (int n) (int bs) (int w) = paged_write (int bs) (int w) ?t (gb_keys g ! l) (int start) k (int n)"
    and vs: "k_paged_scatter G (gb_values g ! l) (?t @ rest) v (int start) (int n) (int bs) (int w) = paged_write (int bs) (int w) ?t (gb_values g ! l) (int start) v (int n)"
    using sc D(8,9)[OF l] k v by blast+
  have ek: "vec_get (gb_keys g) (int l) = Inr (gb_keys g ! l)" "vec_get (gb_values g) (int l) = Inr (gb_values g ! l)"
    using l D(6,7) by (simp_all add: vec_get_nat)
  have n0: "\<not> int n \<le> 0" using False by simp
  show ?thesis
    unfolding gpu_write_def bm_write_def write_one_def Let_def upload_fields r bm_of_simps D(1,3) ek res_bind_Inr ks vs if_not_P[OF n0]
    using l D(6,7)
    by (cases "paged_write (int bs) (int w) ?t (gb_keys g ! l) (int start) k (int n)";
        cases "paged_write (int bs) (int w) ?t (gb_values g ! l) (int start) v (int n)") (simp_all add: vec_set_nat)
qed

lemma gpu_gather_ok:
  assumes G: "schedules G" and sh: "bm_shape bs w nb nl (bm_of g)" and tab: "table_ok nb (block_table seq)"
    and room: "n \<le> length (block_table seq) * bs" and l: "l < nl" and n: "0 < n"
    and out: "n * w \<le> length k_out" "n * w \<le> length v_out" and small: "gpu_small n w"
  shows "\<exists>g'. gpu_gather G seq (int l) (int n) k_out v_out g
      = Inr (concat (fst (bm_view bs w (bm_of g) (block_table seq) n l)) @ drop (n * w) k_out,
             concat (snd (bm_view bs w (bm_of g) (block_table seq) n l)) @ drop (n * w) v_out, g') \<and> bm_of g' = bm_of g"
proof -
  note D = bm_shapeD[OF sh, unfolded bm_of_simps]
  let ?t = "block_table seq"
  have "?t \<noteq> []" using room n by auto
  then obtain rest where r: "gb_device_table (upload_table seq g) = ?t @ rest" using upload_table_prefix by blast
  have ga: "k_paged_gather G pool (?t @ rest) out (int n) (int bs) (int w) = Inr (concat (seq_rows bs w ?t pool n) @ drop (n * w) out)"
    if "length pool = nb * bs * w" "n * w \<le> length out" for pool out
  proof -
    have "k_paged_gather G pool (?t @ rest) out (int n) (int bs) (int w) = k_paged_gather G pool ?t out (int n) (int bs) (int w)"
      by (simp add: k_paged_gather_def gather_kernel_append[OF D(2,4) room])
    also have "\<dots> = Inr (concat (seq_rows bs w ?t pool n) @ drop (n * w) out)"
      by (rule k_paged_gather_ok[OF G D(2,4) tab room that]) (use small in \<open>simp add: gpu_small_def\<close>)
    finally show ?thesis .
  qed
  have ek: "vec_get (gb_keys g) (int l) = Inr (gb_keys g ! l)" "vec_get (gb_values g) (int l) = Inr (gb_values g ! l)"
    using l D(6,7) by (simp_all add: vec_get_nat)
  have n0: "\<not> int n \<le> 0" using n by simp
  show ?thesis
    unfolding gpu_gather_def Let_def upload_fields r D(1,3) ek res_bind_Inr ga[OF D(8)[OF l] out(1)] ga[OF D(9)[OF l] out(2)] if_not_P[OF n0]
    by (intro exI[of _ "upload_table seq g"]) (simp add: bm_view_def)
qed

lemma gpu_bm_new_ok:
  assumes "0 < nl" "0 < w" "0 < bs"
  shows "\<exists>g. gpu_bm_new G (int nl) (int w) (int bs) (int nb) = Inr g \<and> bm_shape bs w nb nl (bm_of g) \<and> seqs_inv (bm_of g) []
    \<and> bm_avail (bm_of g) = nb"
proof -
  obtain al where al: "allocator_new (int nb) = Inr al" by (simp add: allocator_new_def)
  note an = alloc_new_inv[OF al]
  let ?st = "replicate nl (device_array G (int nb * int bs * int w))"
  let ?g = "\<lparr>gb_num_layers = int nl, gb_kv_dim = int w, gb_block_size = int bs, gb_alloc = al, gb_keys = ?st, gb_values = ?st,
    gb_device_table = []\<rparr>"
  have l: "length (device_array G (int nb * int bs * int w)) = nb * bs * w" by (simp add: device_array_def nat_mult_distrib)
  have "gpu_bm_new G (int nl) (int w) (int bs) (int nb) = Inr ?g" using assms al by (simp add: gpu_bm_new_def Let_def)
  moreover have "bm_shape bs w nb nl (bm_of ?g)" using assms an l by (simp add: bm_shape_def)
  moreover have "seqs_inv (bm_of ?g) []" using an by (auto simp: seqs_inv_def bm_inv_def entries_def seq_refs_def cache_refs_def)
  moreover have "bm_avail (bm_of ?g) = nb" using an by (simp add: bm_avail_def entries_def)
  ultimately show ?thesis by (intro exI[of _ ?g]) simp
qed

section \<open>Property\<close>



end
