(* ===== verification/Cuda_Reduce.thy ===== *)
theory Cuda_Reduce
  imports Complex_Main Cuda_Sample
begin

text \<open>
  The two kernels that run one block per row and reduce in shared memory: the sum of squares
  of \<open>rms_norm\<close> and the \<open>argmax\<close>. The halving loop is independent of the thread order; what
  it computes is shown for every predicate that joins over disjoint sets of threads.
\<close>

section \<open>Strided loops\<close>

lemma strided_set: "0 < step \<Longrightarrow> set (strided step n j) = {i. i < n \<and> j \<le> i \<and> (i - j) mod step = 0}"
proof (induction step n j rule: strided.induct)
  case (1 step n j)
  show ?case
  proof (cases "j < n")
    case True
    have "{i. i < n \<and> j \<le> i \<and> (i - j) mod step = 0} = insert j {i. i < n \<and> j + step \<le> i \<and> (i - (j + step)) mod step = 0}"
      (is "?A = insert j ?B")
    proof
      show "?A \<subseteq> insert j ?B"
      proof
        fix i assume i: "i \<in> ?A"
        show "i \<in> insert j ?B"
        proof (cases "i = j")
          case False
          then have "0 < i - j" "step dvd i - j" using i by (auto simp: mod_eq_0_iff_dvd)
          then have "step \<le> i - j" "step dvd i - (j + step)"
            by (auto simp: dvd_imp_le) (metis diff_diff_left dvd_diff_nat dvd_refl)
          then show ?thesis using i by (auto simp: mod_eq_0_iff_dvd)
        qed simp
      qed
      show "insert j ?B \<subseteq> ?A"
      proof
        fix i assume i: "i \<in> insert j ?B"
        show "i \<in> ?A"
        proof (cases "i = j")
          case False
          then have "j + step \<le> i" "step dvd i - (j + step)" "i < n" using i by (auto simp: mod_eq_0_iff_dvd)
          moreover have "i - j = i - (j + step) + step" using \<open>j + step \<le> i\<close> by simp
          ultimately have "step dvd i - j" by (metis dvd_add dvd_refl)
          then show ?thesis using \<open>i < n\<close> \<open>j + step \<le> i\<close> by (auto simp: mod_eq_0_iff_dvd)
        qed (use True in simp)
      qed
    qed
    then show ?thesis using 1 True by (subst strided.simps) simp
  qed (use 1 in \<open>subst strided.simps, auto\<close>)
qed

lemma strided_thread: "t < step \<Longrightarrow> set (strided step n t) = {i. i < n \<and> i mod step = t}"
proof -
  assume t: "t < step"
  have "t \<le> i \<and> (i - t) mod step = 0 \<longleftrightarrow> i mod step = t" for i
  proof
    assume "t \<le> i \<and> (i - t) mod step = 0"
    then obtain k where "i - t = step * k" by (auto simp: mod_eq_0_iff_dvd elim: dvdE)
    then have "i = t + step * k" using \<open>t \<le> i \<and> (i - t) mod step = 0\<close> by linarith
    then show "i mod step = t" using t by simp
  next
    assume a: "i mod step = t"
    then have "i - t = step * (i div step)" by (metis minus_mod_eq_mult_div)
    then show "t \<le> i \<and> (i - t) mod step = 0" using a by (metis mod_less_eq_dividend mod_mult_self1_is_0)
  qed
  then show ?thesis using t by (simp add: strided_set)
qed

lemma strided_sorted: "sorted_wrt (<) (strided step n j)"
proof (induction step n j rule: strided.induct)
  case (1 step n j)
  show ?case
  proof (cases "j < n \<and> 0 < step")
    case True
    then have "\<forall>i \<in> set (strided step n (j + step)). j < i" by (simp add: strided_set)
    then show ?thesis using 1 True by (subst strided.simps) simp
  qed (subst strided.simps, auto)
qed

section \<open>The halving loop\<close>

definition halve :: "('a \<Rightarrow> 'a \<Rightarrow> 'a) \<Rightarrow> nat \<Rightarrow> 'a list \<Rightarrow> 'a list" where
  "halve f stride s = map (\<lambda>p. if p < stride then f (s ! p) (s ! (p + stride)) else s ! p) [0..<length s]"

function tree :: "('a \<Rightarrow> 'a \<Rightarrow> 'a) \<Rightarrow> nat \<Rightarrow> 'a list \<Rightarrow> 'a list" where
  "tree f stride s = (if stride = 0 then s else tree f (stride div 2) (halve f stride s))"
  by pat_completeness auto
termination by (relation "measure (\<lambda>(f, stride, s). stride)") auto

declare tree.simps [simp del]

lemma length_halve [simp]: "length (halve f stride s) = length s"
  by (simp add: halve_def)

lemma length_tree [simp]: "length (tree f stride s) = length s"
  by (induction f stride s rule: tree.induct) (subst tree.simps, simp)

lemma reduce_round:
  assumes "schedules G" "2 * stride \<le> length s" "stride \<le> kThreads"
  shows "res_fold (reduce_step f stride) (g_order G kThreads) s = Inr (halve f stride s)"
proof -
  let ?own = "\<lambda>p. if p < stride then Some p else if p < 2 * stride then Some (p - stride) else None"
  let ?r = "\<lambda>p. if p < stride then f (s ! p) (s ! (p + stride)) else s ! p"
  have o: "distinct (g_order G kThreads)" "set (g_order G kThreads) = {..<kThreads}" using assms(1) by (simp_all add: schedules_def)
  have "\<exists>b'. res_fold (reduce_step f stride) (g_order G kThreads) s = Inr b' \<and> length b' = length s
    \<and> (\<forall>p < length s. b' ! p = (if \<exists>t \<in> set (g_order G kThreads). ?own p = Some t then ?r p else s ! p))"
  proof (rule thread_fold[OF _ o(1) refl])
    fix t and b :: "'a list" assume b: "length b = length s" "\<forall>p < length s. ?own p = Some t \<longrightarrow> b ! p = s ! p"
    show "\<exists>b'. reduce_step f stride t b = Inr b' \<and> length b' = length s
      \<and> (\<forall>p < length s. b' ! p = (if ?own p = Some t then ?r p else b ! p))"
    proof (cases "t < stride")
      case True
      then have "b ! t = s ! t" "b ! (t + stride) = s ! (t + stride)" using b assms(2) by simp_all
      then have "reduce_step f stride t b = Inr (b[t := f (s ! t) (s ! (t + stride))])"
        using True b(1) assms(2) vec_get_nat[of "t + stride" b] by (simp add: reduce_step_def mem_simps)
      moreover have "b[t := f (s ! t) (s ! (t + stride))] ! p = (if ?own p = Some t then ?r p else b ! p)" if p: "p < length s" for p
        using p True b by (cases "p = t") auto
      ultimately show ?thesis using b(1) by auto
    next
      case False
      then show ?thesis using b by (auto simp: reduce_step_def)
    qed
  qed simp
  then obtain b' where b': "res_fold (reduce_step f stride) (g_order G kThreads) s = Inr b'" "length b' = length s"
    "\<forall>p < length s. b' ! p = (if \<exists>t \<in> {..<kThreads}. ?own p = Some t then ?r p else s ! p)" using o(2) by auto
  have "b' = halve f stride s"
  proof (rule nth_equalityI)
    fix p assume "p < length b'"
    then show "b' ! p = halve f stride s ! p" using b'(2,3) assms(3) by (auto simp: halve_def)
  qed (use b'(2) in simp)
  then show ?thesis using b'(1) by simp
qed

lemma tree_reduce_ok:
  assumes "schedules G"
  shows "2 * stride \<le> length s \<Longrightarrow> stride \<le> kThreads \<Longrightarrow> tree_reduce G f stride s = Inr (tree f stride s)"
proof (induction f stride s rule: tree.induct)
  case (1 f stride s)
  show ?case
  proof (cases "stride = 0")
    case False
    then show ?thesis using 1 reduce_round[OF assms 1(2,3), of f]
      by (subst tree_reduce.simps, subst tree.simps) simp
  qed (subst tree_reduce.simps, subst tree.simps, simp)
qed

lemma mod_double:
  assumes "p < (m :: nat)"
  shows "q mod (2 * m) = p \<or> q mod (2 * m) = p + m \<longleftrightarrow> q mod m = p"
proof -
  define u where "u = q mod (2 * m)"
  have m: "u mod m = q mod m" unfolding u_def by (rule mod_mod_cancel) simp
  have u: "u < 2 * m" using assms by (simp add: u_def)
  have "u = p \<or> u = p + m \<longleftrightarrow> u mod m = p"
  proof (cases "u < m")
    case False
    then have "u mod m = u - m" using u by (simp add: le_mod_geq)
    then show ?thesis using False assms by auto
  qed (use assms in auto)
  then show ?thesis using m by (simp add: u_def)
qed

text \<open>What the root covers: the positions with the same remainder are joined, level by level.\<close>

lemma tree_covers:
  assumes join: "\<And>I J x y. P I x \<Longrightarrow> P J y \<Longrightarrow> I \<inter> J = {} \<Longrightarrow> P (I \<union> J) (f x y)"
  shows "\<forall>p < 2 * 2 ^ k. P {q. q < n \<and> q mod (2 * 2 ^ k) = p} (s ! p) \<Longrightarrow> 2 * 2 ^ k \<le> length s \<Longrightarrow>
    P {q. q < n} (tree f (2 ^ k) s ! 0)"
proof (induction k arbitrary: s)
  case 0
  have u: "{q. q < n \<and> q mod 2 = 0} \<union> {q. q < n \<and> q mod 2 = 1} = {q. q < (n :: nat)}" by auto
  have "P ({q. q < n \<and> q mod 2 = 0} \<union> {q. q < n \<and> q mod 2 = 1}) (f (s ! 0) (s ! 1))"
    by (rule join) (use 0 in auto)
  moreover have "tree f 1 s ! 0 = f (s ! 0) (s ! 1)"
  proof -
    have "s \<noteq> []" using 0(2) by auto
    then show ?thesis by (subst tree.simps, subst tree.simps) (simp add: halve_def)
  qed
  ultimately show ?case using u by simp
next
  case (Suc k)
  let ?m = "2 * 2 ^ k :: nat"
  have "P {q. q < n \<and> q mod ?m = p} (halve f ?m s ! p)" if p: "p < ?m" for p
  proof -
    have "P ({q. q < n \<and> q mod (2 * ?m) = p} \<union> {q. q < n \<and> q mod (2 * ?m) = p + ?m}) (f (s ! p) (s ! (p + ?m)))"
      by (rule join) (use Suc.prems(1) p in \<open>auto simp: mult.assoc\<close>)
    moreover have "{q. q < n \<and> q mod (2 * ?m) = p} \<union> {q. q < n \<and> q mod (2 * ?m) = p + ?m} = {q. q < n \<and> q mod ?m = p}"
    proof -
      have "q mod (2 * ?m) = p \<or> q mod (2 * ?m) = p + ?m \<longleftrightarrow> q mod ?m = p" for q by (rule mod_double[OF p])
      then show ?thesis by blast
    qed
    moreover have "halve f ?m s ! p = f (s ! p) (s ! (p + ?m))" using p Suc.prems(2) by (simp add: halve_def)
    ultimately show ?thesis by simp
  qed
  then have "P {q. q < n} (tree f (2 ^ k) (halve f ?m s) ! 0)" using Suc.prems(2) by (intro Suc.IH) auto
  then show ?case by (subst tree.simps) simp
qed

lemma shared_fill_ok:
  assumes "schedules G"
  shows "shared_fill G f junk = Inr (map f [0..<kThreads])"
proof -
  have o: "distinct (g_order G kThreads)" "set (g_order G kThreads) = {..<kThreads}" using assms by (simp_all add: schedules_def)
  let ?b0 = "replicate kThreads junk"
  have "\<exists>b'. res_fold (\<lambda>t s. vec_set s (int t) (f t)) (g_order G kThreads) ?b0 = Inr b' \<and> length b' = kThreads
    \<and> (\<forall>p < kThreads. b' ! p = (if \<exists>t \<in> set (g_order G kThreads). Some p = Some t then f p else ?b0 ! p))"
  proof (rule thread_fold[where ?b0.0 = ?b0, OF _ o(1)])
    fix t and b :: "'a list" assume "t \<in> set (g_order G kThreads)" "length b = kThreads"
    then show "\<exists>b'. vec_set b (int t) (f t) = Inr b' \<and> length b' = kThreads
      \<and> (\<forall>p < kThreads. b' ! p = (if Some p = Some t then f p else b ! p))"
      using o(2) by (auto simp: vec_set_nat nth_list_update)
  qed simp_all
  then obtain b' where b': "shared_fill G f junk = Inr b'" "length b' = kThreads" "\<forall>p < kThreads. b' ! p = f p"
    using o(2) by (auto simp: shared_fill_def)
  have "b' = map f [0..<kThreads]" by (rule nth_equalityI) (use b' in auto)
  then show ?thesis using b'(1) by simp
qed

text \<open>The value a block reduces to, when every thread first folds its own slice.\<close>

definition block_fold :: "('a \<Rightarrow> 'a \<Rightarrow> 'a) \<Rightarrow> ('a \<Rightarrow> 'b \<Rightarrow> 'a) \<Rightarrow> 'a \<Rightarrow> 'b list \<Rightarrow> 'a" where
  "block_fold f g z ys = tree f (kThreads div 2) (map (\<lambda>t. foldl (\<lambda>acc j. g acc (ys ! j)) z (strided kThreads (length ys) t)) [0..<kThreads]) ! 0"

lemma block_covers:
  assumes join: "\<And>I J x y. P I x \<Longrightarrow> P J y \<Longrightarrow> I \<inter> J = {} \<Longrightarrow> P (I \<union> J) (f x y)"
    and leaf: "\<And>t. t < kThreads \<Longrightarrow> P {q. q < n \<and> q mod kThreads = t} (g t)"
  shows "P {q. q < n} (tree f (kThreads div 2) (map g [0..<kThreads]) ! 0)"
proof -
  have "P {q. q < n} (tree f (2 ^ 7) (map g [0..<kThreads]) ! 0)"
    by (rule tree_covers[where P = P]) (use join leaf in auto)
  then show ?thesis by simp
qed

section \<open>A launch of one block per row\<close>

lemma launch_blocks_ok:
  assumes G: "schedules G" and n: "0 < n" "n < 2 ^ 31"
    and step: "\<And>t b. t < n \<Longrightarrow> length b = length b0 \<Longrightarrow> (\<forall>p < length b0. own p = Some t \<longrightarrow> b ! p = b0 ! p) \<Longrightarrow>
      \<exists>b'. f t b = Inr b' \<and> length b' = length b0 \<and> (\<forall>p < length b0. b' ! p = (if own p = Some t then r p else b ! p))"
    and own: "\<And>p t. p < length b0 \<Longrightarrow> own p = Some t \<Longrightarrow> t < n"
  shows "launch_blocks G (cast_int (int n)) f b0 = Inr (map (\<lambda>p. if own p = None then b0 ! p else r p) [0..<length b0])"
proof -
  have o: "distinct (g_order G n)" "set (g_order G n) = {..<n}" using G by (simp_all add: schedules_def)
  have "\<exists>b'. res_fold f (g_order G n) b0 = Inr b' \<and> length b' = length b0
    \<and> (\<forall>p < length b0. b' ! p = (if \<exists>t \<in> set (g_order G n). own p = Some t then r p else b0 ! p))"
    by (rule thread_fold[OF _ o(1) refl]) (rule step, use o(2) in auto)
  then obtain b' where b': "res_fold f (g_order G n) b0 = Inr b'" "length b' = length b0"
    "\<forall>p < length b0. b' ! p = (if \<exists>t \<in> {..<n}. own p = Some t then r p else b0 ! p)" using o(2) by auto
  have "b' = map (\<lambda>p. if own p = None then b0 ! p else r p) [0..<length b0]"
  proof (rule nth_equalityI)
    fix p assume p: "p < length b'"
    have "(\<exists>t \<in> {..<n}. own p = Some t) \<longleftrightarrow> own p \<noteq> None" using own[of p] p b'(2) by auto
    then show "b' ! p = map (\<lambda>p. if own p = None then b0 ! p else r p) [0..<length b0] ! p" using p b'(2,3) by simp
  qed (use b'(2) in simp)
  then show ?thesis using b'(1) n by (simp add: launch_blocks_def cast_int_small)
qed

section \<open>RMSNorm\<close>

definition gpu_rms_row :: "fpu \<Rightarrow> f32 list \<Rightarrow> f64 \<Rightarrow> f32 list \<Rightarrow> f32 list" where
  "gpu_rms_row F wp eps xr =
     (let sum_sq = block_fold (d_add F) (\<lambda>acc x. d_mad F (d_of_f F x) (d_of_f F x) acc) 0 xr;
          scale = d_div F f64_one (d_sqrt F (d_add F (d_div F sum_sq (d_of_int F (int (length xr)))) eps))
      in map2 (\<lambda>x w. f_mul F (f_of_d F (d_mul F (d_of_f F x) scale)) w) xr wp)"

lemma foldl_cong_set: "(\<And>a x. x \<in> set xs \<Longrightarrow> f a x = g a x) \<Longrightarrow> foldl f a xs = foldl g a xs"
  by (rule foldl_cong) auto

lemma rms_partial_fold:
  "rms_partial F xr t = foldl (\<lambda>acc j. d_mad F (d_of_f F (xr ! j)) (d_of_f F (xr ! j)) acc) 0 (strided kThreads (length xr) t)"
  by (simp add: rms_partial_def Let_def)

text \<open>One thread's part of the row.\<close>

lemma fill_positions:
  assumes "off + w \<le> length b" "\<forall>j \<in> set js. j < w"
  shows "res_fold (\<lambda>j b. vec_set b (int off + int j) (g j)) js b
    = Inr (map (\<lambda>p. if \<exists>j \<in> set js. p = off + j then g (p - off) else b ! p) [0..<length b])"
  using assms
proof (induction js arbitrary: b)
  case Nil
  then show ?case by (simp add: map_nth)
next
  case (Cons j js)
  have j: "off + j < length b" using Cons.prems by auto
  have s: "vec_set b (int off + int j) (g j) = Inr (b[off + j := g j])" using vec_set_nat[OF j, of "g j"] by simp
  have "res_fold (\<lambda>j b. vec_set b (int off + int j) (g j)) js (b[off + j := g j])
      = Inr (map (\<lambda>p. if \<exists>j \<in> set js. p = off + j then g (p - off) else b[off + j := g j] ! p) [0..<length (b[off + j := g j])])"
    using Cons.prems by (intro Cons.IH) auto
  moreover have "map (\<lambda>p. if \<exists>j \<in> set js. p = off + j then g (p - off) else b[off + j := g j] ! p) [0..<length (b[off + j := g j])]
      = map (\<lambda>p. if \<exists>j \<in> set (j # js). p = off + j then g (p - off) else b ! p) [0..<length b]"
    using j by (intro nth_equalityI) (auto simp: nth_list_update)
  ultimately show ?case using s by simp
qed

lemma rms_norm_block:
  assumes G: "schedules G" and x: "s * w \<le> length x" and wt: "length wt = w" and w: "0 < w" and r: "r < s" and out: "s * w \<le> length out"
  shows "rms_norm_kernel G x wt (int w) eps r out
    = Inr (map (\<lambda>p. if r * w \<le> p \<and> p < r * w + w then gpu_rms_row (g_fpu G) wt eps (row w r x) ! (p - r * w) else out ! p) [0..<length out])"
proof -
  let ?F = "g_fpu G" and ?xr = "row w r x"
  have bx: "r * w + w \<le> length x" by (rule row_in_bounds[OF r x])
  have bo: "r * w + w \<le> length out" by (rule row_in_bounds[OF r out])
  have lx: "length ?xr = w" by (rule length_row[OF x r])
  have rd: "vec_read x (int (r * w)) (int w) = Inr ?xr" "vec_read wt 0 (int w) = Inr wt"
    using bx w wt by (simp_all add: vec_read_def row_def slice_def flip: of_nat_add del: of_nat_mult)
  define sum where "sum = block_fold (d_add ?F) (\<lambda>acc x. d_mad ?F (d_of_f ?F x) (d_of_f ?F x) acc) 0 ?xr"
  define scale where "scale = d_div ?F f64_one (d_sqrt ?F (d_add ?F (d_div ?F sum (d_of_int ?F (int w))) eps))"
  define g where "g = (\<lambda>j. f_mul ?F (f_of_d ?F (d_mul ?F (d_of_f ?F (?xr ! j)) scale)) (wt ! j))"
  have fill: "shared_fill G (rms_partial ?F ?xr) 0 = Inr (map (rms_partial ?F ?xr) [0..<kThreads])"
    by (rule shared_fill_ok[OF G])
  have red: "tree_reduce G (d_add ?F) (kThreads div 2) (map (rms_partial ?F ?xr) [0..<kThreads])
      = Inr (tree (d_add ?F) (kThreads div 2) (map (rms_partial ?F ?xr) [0..<kThreads]))"
    by (rule tree_reduce_ok[OF G]) simp_all
  have root: "vec_get (tree (d_add ?F) (kThreads div 2) (map (rms_partial ?F ?xr) [0..<kThreads])) 0 = Inr sum"
    unfolding sum_def block_fold_def rms_partial_fold[abs_def] by (simp add: vec_get_def)
  have row: "gpu_rms_row ?F wt eps ?xr = map g [0..<w]"
    unfolding gpu_rms_row_def Let_def lx sum_def[symmetric] scale_def[symmetric] g_def
    using lx wt by (intro nth_equalityI) auto
  have o: "distinct (g_order G kThreads)" "set (g_order G kThreads) = {..<kThreads}" using G by (simp_all add: schedules_def)
  let ?own = "\<lambda>p. if r * w \<le> p \<and> p < r * w + w then Some ((p - r * w) mod kThreads) else None"
  let ?wr = "\<lambda>t. res_fold (\<lambda>j out. vec_set out (int r * int w + int j) (g j)) (strided kThreads w t)"
  have "\<exists>b'. res_fold ?wr (g_order G kThreads) out = Inr b' \<and> length b' = length out
    \<and> (\<forall>p < length out. b' ! p = (if \<exists>t \<in> set (g_order G kThreads). ?own p = Some t then g (p - r * w) else out ! p))"
  proof (rule thread_fold[where ?b0.0 = out, OF _ o(1) refl])
    fix t and b :: "f32 list" assume t: "t \<in> set (g_order G kThreads)" and b: "length b = length out"
    have js: "set (strided kThreads w t) = {j. j < w \<and> j mod kThreads = t}" using t o(2) by (intro strided_thread) auto
    have off: "int r * int w = int (r * w)" by simp
    have "?wr t b = Inr (map (\<lambda>p. if \<exists>j \<in> set (strided kThreads w t). p = r * w + j then g (p - r * w) else b ! p) [0..<length b])"
      unfolding off by (rule fill_positions[of "r * w" w]) (use bo b js in auto)
    moreover have "(\<exists>j \<in> set (strided kThreads w t). p = r * w + j) \<longleftrightarrow> ?own p = Some t" for p
      unfolding js by (auto simp: le_iff_add)
    ultimately show "\<exists>b'. ?wr t b = Inr b' \<and> length b' = length out
      \<and> (\<forall>p < length out. b' ! p = (if ?own p = Some t then g (p - r * w) else b ! p))" using b by auto
  qed simp
  then obtain b' where b': "res_fold ?wr (g_order G kThreads) out = Inr b'" "length b' = length out"
    "\<forall>p < length out. b' ! p = (if \<exists>t \<in> {..<kThreads}. ?own p = Some t then g (p - r * w) else out ! p)" using o(2) by auto
  have "b' = map (\<lambda>p. if r * w \<le> p \<and> p < r * w + w then gpu_rms_row ?F wt eps ?xr ! (p - r * w) else out ! p) [0..<length out]"
    unfolding row by (rule nth_equalityI) (use b'(2,3) in auto)
  moreover have "rms_norm_kernel G x wt (int w) eps r out = res_fold ?wr (g_order G kThreads) out"
    unfolding rms_norm_kernel_def Let_def of_nat_mult[symmetric] rd res_bind_Inr fill red root nat_int
    unfolding scale_def[symmetric] g_def of_nat_mult ..
  ultimately show ?thesis using b'(1) by simp
qed

lemma k_rms_norm_ok:
  assumes G: "schedules G" and x: "length x = s * w" and wt: "length wt = w" and w: "0 < w" and out: "length out = s * w" and s: "s < 2 ^ 31"
  shows "k_rms_norm G x wt out (int s) (int w) eps = Inr (concat (map (gpu_rms_row (g_fpu G) wt eps) (rows w s x)))"
proof (cases "s = 0")
  case True
  then show ?thesis using out by (simp add: k_rms_norm_def rows_def)
next
  case False
  let ?g = "gpu_rms_row (g_fpu G) wt eps"
  have lg: "length (?g (row w r x)) = w" if "r < s" for r
    using length_row[of s w x r] x that wt by (simp add: gpu_rms_row_def Let_def)
  let ?own = "\<lambda>p. Some (p div w)" and ?r = "\<lambda>p. ?g (row w (p div w) x) ! (p mod w)"
  have "launch_blocks G (cast_int (int s)) (rms_norm_kernel G x wt (int w) eps) out
      = Inr (map (\<lambda>p. if ?own p = None then out ! p else ?r p) [0..<length out])"
  proof (rule launch_blocks_ok[OF G])
    fix t and b :: "f32 list" assume t: "t < s" and b: "length b = length out"
    have own: "?own p = Some t \<longleftrightarrow> t * w \<le> p \<and> p < t * w + w" for p
    proof
      assume "?own p = Some t"
      then show "t * w \<le> p \<and> p < t * w + w" using w dividend_less_div_times[of w p] by (auto simp: div_times_less_eq_dividend add.commute)
    next
      assume "t * w \<le> p \<and> p < t * w + w"
      then obtain d where "p = t * w + d" "d < w" by (metis le_add_diff_inverse nat_add_left_cancel_less)
      then show "?own p = Some t" by simp
    qed
    have "p - t * w = p mod w" if "?own p = Some t" for p using that by (metis minus_div_mult_eq_mod option.inject)
    then have "b' ! p = (if ?own p = Some t then ?r p else b ! p)"
      if "b' = map (\<lambda>p. if t * w \<le> p \<and> p < t * w + w then ?g (row w t x) ! (p - t * w) else b ! p) [0..<length b]" "p < length out" for b' p
      using that own[of p] b by auto
    then show "\<exists>b'. rms_norm_kernel G x wt (int w) eps t b = Inr b' \<and> length b' = length out
      \<and> (\<forall>p < length out. b' ! p = (if ?own p = Some t then ?r p else b ! p))"
      using rms_norm_block[OF G _ wt w t, of x b eps] x out b by auto
  next
    fix p t assume "p < length out" "?own p = Some t"
    then show "t < s" using divmod_lt[of p s w] out by auto
  qed (use False s in auto)
  moreover have "map ?r [0..<s * w] = concat (map ?g (rows w s x))"
  proof (rule nth_equalityI)
    have "length (concat (map ?g (rows w s x))) = length (map ?g (rows w s x)) * w"
      by (rule length_concat_uniform) (use lg in \<open>auto simp: rows_def\<close>)
    then show "length (map ?r [0..<s * w]) = length (concat (map ?g (rows w s x)))" by simp
    fix p assume "p < length (map ?r [0..<s * w])"
    then have p: "p < s * w" by simp
    show "map ?r [0..<s * w] ! p = concat (map ?g (rows w s x)) ! p"
      using nth_concat_rows[of s "\<lambda>r. ?g (row w r x)" w p] lg p by (simp add: rows_def comp_def)
  qed
  ultimately show ?thesis using False w out by (simp add: k_rms_norm_def)
qed

text \<open>In a commutative monoid the block's sum is the plain sum, so the kernel differs from the
  sequential loop of the CPU only by the rounding of the additions.\<close>

lemma foldl_add_sum: "distinct js \<Longrightarrow> foldl (\<lambda>acc j. acc + ys ! j) (0 :: 'a :: comm_monoid_add) js = (\<Sum>j \<in> set js. ys ! j)"
  by (induction js rule: rev_induct) (auto simp: add.commute)

lemma block_fold_sum: "block_fold (+) (+) 0 ys = sum_list (ys :: 'a :: comm_monoid_add list)"
proof -
  have "block_fold (+) (+) 0 ys = (\<Sum>j \<in> {q. q < length ys}. ys ! j)"
    unfolding block_fold_def
  proof (rule block_covers[where P = "\<lambda>I v. finite I \<and> v = (\<Sum>j \<in> I. ys ! j)", THEN conjunct2])
    fix t assume t: "t < kThreads"
    have "distinct (strided kThreads (length ys) t)" using strided_sorted strict_sorted_iff[of "strided kThreads (length ys) t"] by auto
    then show "finite {q. q < length ys \<and> q mod kThreads = t}
      \<and> foldl (\<lambda>acc j. acc + ys ! j) 0 (strided kThreads (length ys) t) = (\<Sum>j \<in> {q. q < length ys \<and> q mod kThreads = t}. ys ! j)"
      using strided_thread[OF t, of "length ys"] by (simp add: foldl_add_sum)
  qed (auto simp: sum.union_disjoint)
  then show ?thesis by (simp add: sum_list_sum_nth lessThan_def flip: lessThan_atLeast0)
qed

lemma block_fold_map: "block_fold f (\<lambda>acc y. g acc (h y)) z ys = block_fold f g z (map h ys)"
proof -
  have "foldl (\<lambda>acc j. g acc (h (ys ! j))) z (strided kThreads (length ys) t)
      = foldl (\<lambda>acc j. g acc (map h ys ! j)) z (strided kThreads (length ys) t)" if "t < kThreads" for t
    by (rule foldl_cong_set) (simp add: strided_thread[OF that])
  then have "map (\<lambda>t. foldl (\<lambda>acc j. g acc (h (ys ! j))) z (strided kThreads (length ys) t)) [0..<kThreads]
      = map (\<lambda>t. foldl (\<lambda>acc j. g acc (map h ys ! j)) z (strided kThreads (length ys) t)) [0..<kThreads]"
    by (intro map_cong refl) simp
  then show ?thesis unfolding block_fold_def length_map by (rule arg_cong)
qed

text \<open>In exact arithmetic the sum of squares of the block is the one of the loop of the CPU.\<close>

lemma block_squares: "block_fold (+) (\<lambda>acc y. y * y + acc) 0 (ys :: real list) = foldl (\<lambda>acc y. y * y + acc) 0 ys"
proof -
  have "foldl (\<lambda>acc y. y * y + acc) c ys = c + sum_list (map (\<lambda>y. y * y) ys)" for c :: real
    by (induction ys arbitrary: c) auto
  then show ?thesis
    using block_fold_map[of "(+)" "(+)" "\<lambda>y. y * y" 0 ys] by (simp add: block_fold_sum add.commute)
qed

section \<open>Argmax\<close>

text \<open>The scan every thread runs over its slice, over a whole row.\<close>

definition scan_best :: "f32 list \<Rightarrow> nat list \<Rightarrow> f32 \<times> int" where
  "scan_best r js = foldl (\<lambda>(best_val, best_idx) j. if f32_lt best_val (r ! j) then (r ! j, int j) else (best_val, best_idx)) (f32_lowest, 0) js"

definition gpu_argmax_row :: "f32 list \<Rightarrow> int" where
  "gpu_argmax_row r = snd (scan_best r [0..<length r])"

text \<open>\<open>best_of r J p\<close>: \<open>p\<close> is the first largest of the entries in \<open>J\<close> above \<open>-FLT_MAX\<close>.\<close>

definition best_of :: "f32 list \<Rightarrow> nat set \<Rightarrow> f32 \<times> int \<Rightarrow> bool" where
  "best_of r J p \<longleftrightarrow>
     (p = (f32_lowest, 0) \<and> (\<forall>j \<in> J. \<not> f32_lt f32_lowest (r ! j)))
     \<or> (\<exists>j \<in> J. p = (r ! j, int j) \<and> f32_lt f32_lowest (r ! j)
          \<and> (\<forall>i \<in> J. \<not> f32_lt (r ! j) (r ! i) \<and> (f32_eq (r ! i) (r ! j) \<longrightarrow> j \<le> i)))"

lemma lowest_key [simp]: "\<not> f32_nan f32_lowest"
  by code_simp

lemma best_of_join:
  assumes "best_of r J p" "best_of r K q"
  shows "best_of r (J \<union> K) (argmax_pick p q)"
proof -
  consider (low) "p = (f32_lowest, 0)" "\<forall>j \<in> J. \<not> f32_lt f32_lowest (r ! j)" "q = (f32_lowest, 0)" "\<forall>j \<in> K. \<not> f32_lt f32_lowest (r ! j)"
    | (right) k where "p = (f32_lowest, 0)" "\<forall>j \<in> J. \<not> f32_lt f32_lowest (r ! j)" "k \<in> K" "q = (r ! k, int k)" "f32_lt f32_lowest (r ! k)"
        "\<forall>i \<in> K. \<not> f32_lt (r ! k) (r ! i) \<and> (f32_eq (r ! i) (r ! k) \<longrightarrow> k \<le> i)"
    | (left) k where "q = (f32_lowest, 0)" "\<forall>j \<in> K. \<not> f32_lt f32_lowest (r ! j)" "k \<in> J" "p = (r ! k, int k)" "f32_lt f32_lowest (r ! k)"
        "\<forall>i \<in> J. \<not> f32_lt (r ! k) (r ! i) \<and> (f32_eq (r ! i) (r ! k) \<longrightarrow> k \<le> i)"
    | (both) j k where "j \<in> J" "p = (r ! j, int j)" "f32_lt f32_lowest (r ! j)"
        "\<forall>i \<in> J. \<not> f32_lt (r ! j) (r ! i) \<and> (f32_eq (r ! i) (r ! j) \<longrightarrow> j \<le> i)"
        "k \<in> K" "q = (r ! k, int k)" "f32_lt f32_lowest (r ! k)"
        "\<forall>i \<in> K. \<not> f32_lt (r ! k) (r ! i) \<and> (f32_eq (r ! i) (r ! k) \<longrightarrow> k \<le> i)"
    using assms unfolding best_of_def by blast
  then show ?thesis
  proof cases
    case low
    then show ?thesis by (auto simp: best_of_def argmax_pick_def)
  next
    case right
    have "argmax_pick p q = q" using right(1,4,5) by (simp add: argmax_pick_def)
    moreover have "\<not> f32_lt (r ! k) (r ! i) \<and> (f32_eq (r ! i) (r ! k) \<longrightarrow> k \<le> i)" if "i \<in> J \<union> K" for i
      using right(2,5,6) that by (auto simp: f32_lt_def f32_eq_def)
    ultimately show ?thesis using right(3-5) unfolding best_of_def by blast
  next
    case left
    have "argmax_pick p q = p" using left(1,4,5) by (auto simp: argmax_pick_def f32_lt_def f32_eq_def)
    moreover have "\<not> f32_lt (r ! k) (r ! i) \<and> (f32_eq (r ! i) (r ! k) \<longrightarrow> k \<le> i)" if "i \<in> J \<union> K" for i
      using left(2,5,6) that by (auto simp: f32_lt_def f32_eq_def)
    ultimately show ?thesis using left(3-5) unfolding best_of_def by blast
  next
    case both
    show ?thesis
    proof (cases "f32_lt (r ! j) (r ! k) \<or> (f32_eq (r ! k) (r ! j) \<and> k < j)")
      case True
      then have "argmax_pick p q = q" using both(2,6) by (simp add: argmax_pick_def)
      moreover have "\<not> f32_lt (r ! k) (r ! i) \<and> (f32_eq (r ! i) (r ! k) \<longrightarrow> k \<le> i)" if "i \<in> J \<union> K" for i
        using both(4,8) True that by (auto simp: f32_lt_def f32_eq_def)
      ultimately show ?thesis using both(5-7) unfolding best_of_def by blast
    next
      case False
      then have "argmax_pick p q = p" using both(2,6) by (auto simp: argmax_pick_def)
      moreover have "\<not> f32_lt (r ! j) (r ! i) \<and> (f32_eq (r ! i) (r ! j) \<longrightarrow> j \<le> i)" if "i \<in> J \<union> K" for i
        using both(3,4,7,8) False that by (auto simp: f32_lt_def f32_eq_def)
      ultimately show ?thesis using both(1-3) unfolding best_of_def by blast
    qed
  qed
qed

lemma scan_best_of: "sorted_wrt (<) js \<Longrightarrow> best_of r (set js) (scan_best r js)"
proof (induction js rule: rev_induct)
  case Nil
  then show ?case by (simp add: scan_best_def best_of_def)
next
  case (snoc j js)
  then have IH: "best_of r (set js) (scan_best r js)" and lt: "\<forall>i \<in> set js. i < j" by (auto simp: sorted_wrt_append)
  obtain v b where p: "scan_best r js = (v, b)" by fastforce
  have "best_of r {j} (if f32_lt f32_lowest (r ! j) then (r ! j, int j) else (f32_lowest, 0))"
    by (auto simp: best_of_def)
  from best_of_join[OF IH this] have J: "best_of r (set (js @ [j])) (argmax_pick (v, b) (if f32_lt f32_lowest (r ! j) then (r ! j, int j) else (f32_lowest, 0)))"
    by (simp add: p insert_commute)
  have "argmax_pick (v, b) (if f32_lt f32_lowest (r ! j) then (r ! j, int j) else (f32_lowest, 0)) = (if f32_lt v (r ! j) then (r ! j, int j) else (v, b))"
    using IH lt unfolding p by (auto simp: best_of_def argmax_pick_def f32_lt_def f32_eq_def)
  then show ?case using J p by (simp add: scan_best_def)
qed

lemma best_of_unique: "best_of r J p \<Longrightarrow> best_of r J q \<Longrightarrow> p = q"
proof -
  assume p: "best_of r J p" and q: "best_of r J q"
  have False if "j \<in> J" "k \<in> J" "j < k" "\<forall>i \<in> J. \<not> f32_lt (r ! j) (r ! i)" "f32_lt f32_lowest (r ! j)" "f32_lt f32_lowest (r ! k)"
    "\<forall>i \<in> J. \<not> f32_lt (r ! k) (r ! i) \<and> (f32_eq (r ! i) (r ! k) \<longrightarrow> k \<le> i)" for j k
    using that by (fastforce simp: f32_lt_def f32_eq_def)
  then show ?thesis using p q unfolding best_of_def by (metis linorder_neqE_nat)
qed

lemma argmax_kernel_ok:
  assumes G: "schedules G" and x: "s * n \<le> length x" and n: "0 < n" and r: "r < s" and out: "s \<le> length out"
  shows "argmax_kernel G x (int n) r out = Inr (out[r := gpu_argmax_row (row n r x)])"
proof -
  let ?xr = "row n r x"
  have bx: "r * n + n \<le> length x" by (rule row_in_bounds[OF r x])
  have lx: "length ?xr = n" by (rule length_row[OF x r])
  have rd: "vec_read x (int (r * n)) (int n) = Inr ?xr"
    using bx n by (simp add: vec_read_def row_def flip: of_nat_add del: of_nat_mult)
  let ?t = "tree argmax_pick (kThreads div 2) (map (argmax_partial ?xr) [0..<kThreads])"
  have "best_of ?xr {q. q < n} (?t ! 0)"
  proof (rule block_covers[where P = "best_of ?xr"])
    fix t assume t: "t < kThreads"
    have "argmax_partial ?xr t = scan_best ?xr (strided kThreads n t)" by (simp add: argmax_partial_def scan_best_def lx)
    then show "best_of ?xr {q. q < n \<and> q mod kThreads = t} (argmax_partial ?xr t)"
      using scan_best_of[OF strided_sorted, of ?xr kThreads n t] strided_thread[OF t, of n] by simp
  qed (rule best_of_join)
  moreover have "best_of ?xr {q. q < n} (scan_best ?xr [0..<n])"
    using scan_best_of[of "[0..<n]" ?xr] by (simp add: lessThan_def atLeast0LessThan)
  ultimately have "?t ! 0 = scan_best ?xr [0..<n]" by (rule best_of_unique)
  then have root: "vec_get ?t 0 = Inr (scan_best ?xr [0..<n])" by (simp add: vec_get_def)
  have red: "tree_reduce G argmax_pick (kThreads div 2) (map (argmax_partial ?xr) [0..<kThreads]) = Inr ?t"
    by (rule tree_reduce_ok[OF G]) simp_all
  show ?thesis
    unfolding argmax_kernel_def of_nat_mult[symmetric] rd res_bind_Inr shared_fill_ok[OF G] red root
    using r out by (simp add: vec_set_nat gpu_argmax_row_def lx)
qed

lemma k_argmax_ok:
  assumes G: "schedules G" and x: "length x = s * n" and n: "0 < n" and out: "length out = s" and s: "s < 2 ^ 31"
  shows "k_argmax G x out (int s) (int n) = Inr (map gpu_argmax_row (rows n s x))"
proof (cases "s = 0")
  case True
  then show ?thesis using out by (simp add: k_argmax_def rows_def)
next
  case False
  have "launch_blocks G (cast_int (int s)) (argmax_kernel G x (int n)) out
      = Inr (map (\<lambda>p. if Some p = None then out ! p else gpu_argmax_row (row n p x)) [0..<length out])"
  proof (rule launch_blocks_ok[OF G, where own = Some])
    fix t and b :: "int list" assume t: "t < s" and b: "length b = length out"
    then show "\<exists>b'. argmax_kernel G x (int n) t b = Inr b' \<and> length b' = length out
      \<and> (\<forall>p < length out. b' ! p = (if Some p = Some t then gpu_argmax_row (row n p x) else b ! p))"
      using argmax_kernel_ok[OF G _ n t, of x b] x out by (auto simp: nth_list_update)
  qed (use False s out in auto)
  then show ?thesis using False n out by (simp add: k_argmax_def rows_def comp_def)
qed

text \<open>Against the argmax of \<open>sampler.cpp\<close>.\<close>

lemma gpu_argmax_first_best:
  assumes "\<forall>j < length r. \<not> f32_nan (r ! j)" "\<exists>j < length r. f32_lt f32_lowest (r ! j)"
  shows "gpu_argmax_row r = int (first_best r (length r))"
proof -
  let ?b = "first_best r (length r)"
  have n: "0 < length r" using assms(2) by auto
  have b: "?b < length r" by (rule first_best_lt[OF n])
  have max: "\<not> f32_lt (r ! ?b) (r ! j)" if "j < length r" for j using first_best_max[OF assms(1) n] that by blast
  have first: "f32_lt (r ! j) (r ! ?b)" if "j < ?b" for j using first_best_max[OF assms(1) n] that by blast
  from assms(2) obtain j where j: "j < length r" "f32_lt f32_lowest (r ! j)" by blast
  then have low: "f32_lt f32_lowest (r ! ?b)" using max[OF j(1)] assms(1) b by (auto simp: f32_lt_def)
  have eq: "?b \<le> i" if "f32_eq (r ! i) (r ! ?b)" for i using first[of i] that by (force simp: f32_lt_def f32_eq_def)
  have "best_of r (set [0..<length r]) (r ! ?b, int ?b)"
    unfolding best_of_def by (intro disjI2 bexI[of _ ?b]) (use max low eq b in auto)
  with scan_best_of[of "[0..<length r]" r] have "scan_best r [0..<length r] = (r ! ?b, int ?b)"
    by (intro best_of_unique) auto
  then show ?thesis by (simp add: gpu_argmax_row_def)
qed

section \<open>Properties\<close>

text \<open>C14: The device argmax. However the hardware orders the threads, every row gives the index
  a sequential scan from \<open>-FLT_MAX\<close> finds. Where the row holds no NaN and some logit
  above \<open>-FLT_MAX\<close>, that is the first largest logit, the token the CPU sampler picks.\<close>

theorem gpu_argmax_exact:
  assumes "schedules G" "length x = s * n" "0 < n" "length out = s" "s < 2 ^ 31"
  shows "k_argmax G x out (int s) (int n) = Inr (map gpu_argmax_row (rows n s x))
    \<and> (\<forall>r < s. (\<forall>v \<in> set (row n r x). \<not> f32_nan v) \<longrightarrow> (\<exists>v \<in> set (row n r x). f32_lt f32_lowest v) \<longrightarrow>
        argmax (row n r x) (int n) = Inr (gpu_argmax_row (row n r x)))"
proof (intro conjI allI impI)
  fix r assume r: "r < s" and v: "\<forall>v \<in> set (row n r x). \<not> f32_nan v" "\<exists>v \<in> set (row n r x). f32_lt f32_lowest v"
  have l: "length (row n r x) = n" using length_row[of s n x r] assms(2) r by simp
  have "gpu_argmax_row (row n r x) = int (first_best (row n r x) (length (row n r x)))"
    by (rule gpu_argmax_first_best) (use v nth_mem in \<open>blast, metis in_set_conv_nth\<close>)
  then show "argmax (row n r x) (int n) = Inr (gpu_argmax_row (row n r x))"
    using argmax_first_best[of n "row n r x"] l assms(3) by simp
qed (rule k_argmax_ok[OF assms])

lemma gpu_argmax_exact_witness:
  "k_argmax toy_gpu [1, 7, 7, 9, 2, 9] [0, 0] (int 2) (int 3) = Inr [1, 0]"
proof -
  have "map gpu_argmax_row (rows 3 2 [1, 7, 7, 9, 2, 9]) = [1, 0]" by code_simp
  with gpu_argmax_exact[OF toy_schedules, of "[1, 7, 7, 9, 2, 9]" 2 3 "[0, 0]"] show ?thesis by simp
qed

text \<open>Elsewhere the two differ: on a NaN the CPU keeps its first index, and a row whose best
  logit is \<open>-FLT_MAX\<close> gives index 0 on the device.\<close>

lemma gpu_argmax_differs:
  "argmax [0x7FC00000, 0x3F800000] 2 = Inr 0 \<and> gpu_argmax_row [0x7FC00000, 0x3F800000] = 1
   \<and> argmax [0xFF800000, 0xFF7FFFFF] 2 = Inr 1 \<and> gpu_argmax_row [0xFF800000, 0xFF7FFFFF] = 0"
  by (intro conjI) code_simp+

end
