(* ===== verification/Cuda_Model.thy ===== *)
theory Cuda_Model
  imports Cuda_Blocks Cuda_Reduce Model_Batch
begin

text \<open>
  \<open>cuda/model.cu\<close>: the forward passes on the device. The activations of a pass are the record
  \<open>gpu_bufs\<close>; every step calls a kernel of \<open>Cuda_Kernels\<close> on them. \<open>forward_cached\<close> and
  \<open>forward_batch_device\<close> contain the same layer around their attention, which is defined here
  once (\<open>gpu_qkv\<close>, \<open>gpu_attn_mlp\<close>). A batch item refers to its cache or block table by the
  index of the object in a store.
\<close>

section \<open>Weights\<close>

record gpu_model =
  gm_config :: model_config
  gm_weights :: "(string \<times> f32 list) list"

text \<open>\<open>weights.at(name)\<close>; an empty array is a null pointer.\<close>

definition gm_weight :: "gpu_model \<Rightarrow> string \<Rightarrow> f32 list res" where
  "gm_weight m name =
     (case map_of (gm_weights m) name of None \<Rightarrow> Inl (OutOfRange ''unordered_map::at'') | Some w \<Rightarrow> Inr w)"

definition gm_has :: "gpu_model \<Rightarrow> string \<Rightarrow> bool" where
  "gm_has m name \<longleftrightarrow> map_of (gm_weights m) name \<noteq> None"

definition gm_bias :: "gpu_model \<Rightarrow> string \<Rightarrow> f32 list option res" where
  "gm_bias m name =
     (if attention_qkv_bias (gm_config m)
      then res_bind (gm_weight m name) (\<lambda>b. Inr (if b = [] then None else Some b)) else Inr None)"

definition upload :: "tensor \<Rightarrow> f32 list" where
  "upload t = t_data t"

definition gm_add :: "weights \<Rightarrow> string \<times> bool \<Rightarrow> gpu_model \<Rightarrow> gpu_model res" where
  "gm_add ws nr m =
     (case nr of (name, required) \<Rightarrow>
       if \<not> st_contains ws name
       then (if required then Inl (RuntimeError (''CudaModel: missing weight '' @ name)) else Inr m)
       else res_bind (st_get ws name) (\<lambda>t.
         Inr (if gm_has m name then m else m\<lparr>gm_weights := (name, upload t) # gm_weights m\<rparr>)))"

definition gm_layer_names :: "bool \<Rightarrow> nat \<Rightarrow> (string \<times> bool) list" where
  "gm_layer_names bias l =
     map (\<lambda>(suffix, required). (layer_key (int l) suffix, required))
       [(''input_layernorm.weight'', True), (''post_attention_layernorm.weight'', True),
        (''self_attn.q_proj.weight'', True), (''self_attn.k_proj.weight'', True),
        (''self_attn.v_proj.weight'', True), (''self_attn.o_proj.weight'', True),
        (''self_attn.q_proj.bias'', bias), (''self_attn.k_proj.bias'', bias), (''self_attn.v_proj.bias'', bias),
        (''mlp.gate_proj.weight'', True), (''mlp.up_proj.weight'', True), (''mlp.down_proj.weight'', True)]"

definition gm_names :: "model_config \<Rightarrow> (string \<times> bool) list" where
  "gm_names config =
     [(''model.embed_tokens.weight'', True), (''model.norm.weight'', True), (''lm_head.weight'', False)]
     @ concat (map (gm_layer_names (attention_qkv_bias config)) [0..<nat (num_hidden_layers config)])"

definition gpu_from_safetensors :: "model_config \<Rightarrow> weights \<Rightarrow> gpu_model res" where
  "gpu_from_safetensors config ws = res_fold (gm_add ws) (gm_names config) \<lparr>gm_config = config, gm_weights = []\<rparr>"

section \<open>One layer\<close>

record gpu_bufs =
  b_x :: "f32 list"
  b_normed :: "f32 list"
  b_q :: "f32 list"
  b_k :: "f32 list"
  b_v :: "f32 list"
  b_attn :: "f32 list"
  b_attn_out :: "f32 list"
  b_normed2 :: "f32 list"
  b_gate :: "f32 list"
  b_up :: "f32 list"
  b_act :: "f32 list"
  b_down :: "f32 list"

definition gm_nq :: "gpu_model \<Rightarrow> int" where
  "gm_nq m = num_attention_heads (gm_config m) * head_dim (gm_config m)"

definition gm_nkv :: "gpu_model \<Rightarrow> int" where
  "gm_nkv m = num_key_value_heads (gm_config m) * head_dim (gm_config m)"

definition fresh_bufs :: "gpu \<Rightarrow> gpu_model \<Rightarrow> int \<Rightarrow> gpu_bufs" where
  "fresh_bufs G m s =
     (let hidden = hidden_size (gm_config m); inter = intermediate_size (gm_config m); arr = (\<lambda>n. device_array G (s * n))
      in \<lparr>b_x = arr hidden, b_normed = arr hidden, b_q = arr (gm_nq m), b_k = arr (gm_nkv m), b_v = arr (gm_nkv m),
          b_attn = arr (gm_nq m), b_attn_out = arr hidden, b_normed2 = arr hidden, b_gate = arr inter, b_up = arr inter,
          b_act = arr inter, b_down = arr hidden\<rparr>)"

text \<open>\<open>kernels::linear\<close> with the weight of that name.\<close>

definition gpu_linear ::
    "gpu \<Rightarrow> gpu_model \<Rightarrow> f32 list \<Rightarrow> string \<Rightarrow> f32 list option \<Rightarrow> f32 list \<Rightarrow> int \<Rightarrow> int \<Rightarrow> int \<Rightarrow> f32 list res" where
  "gpu_linear G m x name bias y s in_dim out_dim =
     res_bind (gm_weight m name) (\<lambda>w. k_linear G x w bias y s in_dim out_dim)"

definition gpu_qkv :: "gpu \<Rightarrow> gpu_model \<Rightarrow> int \<Rightarrow> int list \<Rightarrow> nat \<Rightarrow> gpu_bufs \<Rightarrow> gpu_bufs res" where
  "gpu_qkv G m s positions l b =
     (let c = gm_config m; hidden = hidden_size c; key = layer_key (int l) in
      res_bind (gm_weight m (key ''input_layernorm.weight'')) (\<lambda>w.
      res_bind (k_rms_norm G (b_x b) w (b_normed b) s hidden (rms_norm_eps c)) (\<lambda>normed.
      res_bind (gm_bias m (key ''self_attn.q_proj.bias'')) (\<lambda>q_bias.
      res_bind (gm_bias m (key ''self_attn.k_proj.bias'')) (\<lambda>k_bias.
      res_bind (gm_bias m (key ''self_attn.v_proj.bias'')) (\<lambda>v_bias.
      res_bind (gpu_linear G m normed (key ''self_attn.q_proj.weight'') q_bias (b_q b) s hidden (gm_nq m)) (\<lambda>q.
      res_bind (gpu_linear G m normed (key ''self_attn.k_proj.weight'') k_bias (b_k b) s hidden (gm_nkv m)) (\<lambda>k.
      res_bind (gpu_linear G m normed (key ''self_attn.v_proj.weight'') v_bias (b_v b) s hidden (gm_nkv m)) (\<lambda>v.
      res_bind (k_rope G q s (num_attention_heads c) (head_dim c) (rope_theta c) positions) (\<lambda>q.
      res_bind (k_rope G k s (num_key_value_heads c) (head_dim c) (rope_theta c) positions) (\<lambda>k.
        Inr (b\<lparr>b_normed := normed, b_q := q, b_k := k, b_v := v\<rparr>))))))))))))"

definition gpu_attn_mlp :: "gpu \<Rightarrow> gpu_model \<Rightarrow> int \<Rightarrow> nat \<Rightarrow> gpu_bufs \<Rightarrow> gpu_bufs res" where
  "gpu_attn_mlp G m s l b =
     (let c = gm_config m; hidden = hidden_size c; inter = intermediate_size c; key = layer_key (int l) in
      res_bind (gpu_linear G m (b_attn b) (key ''self_attn.o_proj.weight'') None (b_attn_out b) s (gm_nq m) hidden) (\<lambda>attn_out.
      res_bind (k_add_inplace G (b_x b) attn_out (s * hidden)) (\<lambda>x.
      res_bind (gm_weight m (key ''post_attention_layernorm.weight'')) (\<lambda>w.
      res_bind (k_rms_norm G x w (b_normed2 b) s hidden (rms_norm_eps c)) (\<lambda>normed2.
      res_bind (gpu_linear G m normed2 (key ''mlp.gate_proj.weight'') None (b_gate b) s hidden inter) (\<lambda>gate.
      res_bind (gpu_linear G m normed2 (key ''mlp.up_proj.weight'') None (b_up b) s hidden inter) (\<lambda>up.
      res_bind (k_silu_mul G gate up (b_act b) (s * inter)) (\<lambda>act.
      res_bind (gpu_linear G m act (key ''mlp.down_proj.weight'') None (b_down b) s inter hidden) (\<lambda>down.
      res_bind (k_add_inplace G x down (s * hidden)) (\<lambda>x.
        Inr (b\<lparr>b_x := x, b_attn_out := attn_out, b_normed2 := normed2, b_gate := gate, b_up := up, b_act := act,
               b_down := down\<rparr>)))))))))))"

definition gpu_attention ::
    "gpu \<Rightarrow> gpu_model \<Rightarrow> f32 list \<Rightarrow> f32 list \<Rightarrow> f32 list \<Rightarrow> f32 list \<Rightarrow> int \<Rightarrow> int \<Rightarrow> f32 list res" where
  "gpu_attention G m q k v attn s past =
     (let c = gm_config m
      in k_attention G q k v attn s (past + s) (num_attention_heads c) (num_key_value_heads c) (head_dim c) past)"

definition gpu_final :: "gpu \<Rightarrow> gpu_model \<Rightarrow> int \<Rightarrow> gpu_bufs \<Rightarrow> gpu_bufs res" where
  "gpu_final G m s b =
     res_bind (gm_weight m ''model.norm.weight'') (\<lambda>w.
     res_bind (k_rms_norm G (b_x b) w (b_normed b) s (hidden_size (gm_config m)) (rms_norm_eps (gm_config m))) (\<lambda>normed.
       Inr (b\<lparr>b_normed := normed\<rparr>)))"

definition gpu_head :: "gpu \<Rightarrow> gpu_model \<Rightarrow> f32 list \<Rightarrow> f32 list \<Rightarrow> int \<Rightarrow> f32 list res" where
  "gpu_head G m emb x s =
     res_bind (if gm_has m ''lm_head.weight'' then gm_weight m ''lm_head.weight'' else Inr emb) (\<lambda>lm_head.
       k_linear G x lm_head None (device_array G (s * vocab_size (gm_config m))) s (hidden_size (gm_config m)) (vocab_size (gm_config m)))"

text \<open>\<open>Tensor out({rows, vocab})\<close> and the copy of the logits into it.\<close>

definition download :: "f32 list \<Rightarrow> int \<Rightarrow> int \<Rightarrow> tensor res" where
  "download logits rs vocab =
     res_bind (tensor_zeros [rs, vocab]) (\<lambda>out.
     res_bind (memcpy (t_data out) 0 logits 0 (rs * vocab)) (\<lambda>d. Inr (out\<lparr>t_data := d\<rparr>)))"

section \<open>One sequence\<close>

definition gpu_cached_layer ::
    "gpu \<Rightarrow> gpu_model \<Rightarrow> int \<Rightarrow> int \<Rightarrow> int list \<Rightarrow> nat \<Rightarrow> gpu_bufs \<times> gpu_kv \<Rightarrow> (gpu_bufs \<times> gpu_kv) res" where
  "gpu_cached_layer G m s past positions l bc =
     (case bc of (b, c) \<Rightarrow>
      res_bind (gpu_qkv G m s positions l b) (\<lambda>b.
      res_bind (gpu_kv_append (int l) (b_k b) (b_v b) s c) (\<lambda>c.
      res_bind (gpu_kv_key_ptr (int l) c) (\<lambda>kp. res_bind (gpu_kv_value_ptr (int l) c) (\<lambda>vp.
      res_bind (gpu_attention G m (b_q b) kp vp (b_attn b) s past) (\<lambda>attn.
      res_bind (gpu_attn_mlp G m s l (b\<lparr>b_attn := attn\<rparr>)) (\<lambda>b. Inr (b, c))))))))"

definition gpu_forward_cached :: "gpu \<Rightarrow> gpu_model \<Rightarrow> int list \<Rightarrow> gpu_kv \<Rightarrow> (tensor \<times> gpu_kv) res" where
  "gpu_forward_cached G m ids c =
     (let s = int (length ids); past = gk_length c; positions = map (\<lambda>i. past + int i) [0..<length ids];
          b = fresh_bufs G m s
      in if ids = [] then Inl (InvalidArgument ''CudaModel::forward: empty input sequence'')
         else res_bind (gm_weight m ''model.embed_tokens.weight'') (\<lambda>emb.
              res_bind (k_embedding G emb ids (b_x b) s (hidden_size (gm_config m))) (\<lambda>x.
              res_bind (res_fold (gpu_cached_layer G m s past positions) [0..<nat (num_hidden_layers (gm_config m))]
                          (b\<lparr>b_x := x\<rparr>, c)) (\<lambda>(b, c).
              res_bind (gpu_final G m s b) (\<lambda>b.
              res_bind (gpu_head G m emb (b_normed b) s) (\<lambda>logits.
              res_bind (download logits s (vocab_size (gm_config m))) (\<lambda>out.
                Inr (out, gpu_kv_advance s c))))))))"

definition gpu_forward :: "gpu \<Rightarrow> gpu_model \<Rightarrow> int list \<Rightarrow> tensor res" where
  "gpu_forward G m ids =
     res_bind (gpu_kv_new G (num_hidden_layers (gm_config m)) (gm_nkv m) (int (length ids))) (\<lambda>c.
     res_bind (gpu_forward_cached G m ids c) (\<lambda>(t, c). Inr t))"

section \<open>Batches\<close>

text \<open>
  \<open>attend layer item len past q k v attn\<close> gets pointers into the buffers of the batch and
  writes into the last one.
\<close>

type_synonym 's attend =
  "nat \<Rightarrow> nat \<Rightarrow> int \<Rightarrow> int \<Rightarrow> f32 list \<Rightarrow> f32 list \<Rightarrow> f32 list \<Rightarrow> f32 list \<Rightarrow> 's \<Rightarrow> (f32 list \<times> 's) res"

definition ptr :: "f32 list \<Rightarrow> int \<Rightarrow> f32 list" where
  "ptr xs off = drop (nat off) xs"

text \<open>\<open>(offset, len)\<close> of each item in the concatenated rows.\<close>

fun item_spans :: "int \<Rightarrow> int list list \<Rightarrow> (int \<times> int) list" where
  "item_spans off [] = []"
| "item_spans off (ids # rest) = (off, int (length ids)) # item_spans (off + int (length ids)) rest"

definition batch_attend ::
    "gpu_model \<Rightarrow> 's attend \<Rightarrow> (int \<times> int) list \<Rightarrow> int list \<Rightarrow> nat \<Rightarrow> nat \<Rightarrow> gpu_bufs \<times> 's \<Rightarrow> (gpu_bufs \<times> 's) res" where
  "batch_attend m attend spans pasts l i bs =
     (case bs of (b, st) \<Rightarrow> case spans ! i of (off, len) \<Rightarrow>
      res_bind (vec_get pasts (int i)) (\<lambda>past.
      res_bind (attend l i len past (ptr (b_q b) (off * gm_nq m)) (ptr (b_k b) (off * gm_nkv m)) (ptr (b_v b) (off * gm_nkv m))
                  (ptr (b_attn b) (off * gm_nq m)) st) (\<lambda>(attn, st).
        Inr (b\<lparr>b_attn := take (nat (off * gm_nq m)) (b_attn b) @ attn\<rparr>, st))))"

definition gpu_batch_layer ::
    "gpu \<Rightarrow> gpu_model \<Rightarrow> 's attend \<Rightarrow> (int \<times> int) list \<Rightarrow> int list \<Rightarrow> int \<Rightarrow> int list \<Rightarrow> nat \<Rightarrow> gpu_bufs \<times> 's \<Rightarrow> (gpu_bufs \<times> 's) res" where
  "gpu_batch_layer G m attend spans pasts n positions l bs =
     (case bs of (b, st) \<Rightarrow>
      res_bind (gpu_qkv G m n positions l b) (\<lambda>b.
      res_bind (res_fold (batch_attend m attend spans pasts l) [0..<length spans] (b, st)) (\<lambda>(b, st).
      res_bind (gpu_attn_mlp G m n l b) (\<lambda>b. Inr (b, st)))))"

definition gather_last :: "int \<Rightarrow> f32 list \<Rightarrow> (int \<times> int) list \<Rightarrow> nat \<Rightarrow> f32 list \<Rightarrow> f32 list res" where
  "gather_last hidden normed spans i d_last =
     (case spans ! i of (off, len) \<Rightarrow> memcpy d_last (int i * hidden) normed ((off + len - 1) * hidden) hidden)"

definition gpu_forward_batch_device ::
    "gpu \<Rightarrow> gpu_model \<Rightarrow> int list list \<Rightarrow> int list \<Rightarrow> 's attend \<Rightarrow> 's \<Rightarrow> (f32 list \<times> 's) res" where
  "gpu_forward_batch_device G m token_lists pasts attend st =
     (if token_lists = [] then Inl (InvalidArgument ''CudaModel::forward_batch: empty batch'')
      else if [] \<in> set token_lists then Inl (InvalidArgument ''CudaModel::forward_batch: item has no tokens'')
      else let num_items = int (length token_lists); hidden = hidden_size (gm_config m);
               spans = item_spans 0 token_lists; n = int (length (concat token_lists));
               positions = concat (map2 (\<lambda>ids past. map (\<lambda>t. past + int t) [0..<length ids]) token_lists pasts);
               b = fresh_bufs G m n
           in res_bind (gm_weight m ''model.embed_tokens.weight'') (\<lambda>emb.
              res_bind (k_embedding G emb (concat token_lists) (b_x b) n hidden) (\<lambda>x.
              res_bind (res_fold (gpu_batch_layer G m attend spans pasts n positions) [0..<nat (num_hidden_layers (gm_config m))]
                          (b\<lparr>b_x := x\<rparr>, st)) (\<lambda>(b, st).
              res_bind (gpu_final G m n b) (\<lambda>b.
              res_bind (res_fold (gather_last hidden (b_normed b) spans) [0..<length token_lists] (device_array G (num_items * hidden))) (\<lambda>d_last.
              res_bind (gpu_head G m emb d_last num_items) (\<lambda>logits. Inr (logits, st))))))))"

definition gpu_forward_batch_impl ::
    "gpu \<Rightarrow> gpu_model \<Rightarrow> int list list \<Rightarrow> int list \<Rightarrow> 's attend \<Rightarrow> 's \<Rightarrow> (tensor \<times> 's) res" where
  "gpu_forward_batch_impl G m token_lists pasts attend st =
     res_bind (gpu_forward_batch_device G m token_lists pasts attend st) (\<lambda>(logits, st).
     res_bind (download logits (int (length token_lists)) (vocab_size (gm_config m))) (\<lambda>out. Inr (out, st)))"

text \<open>A contiguous cache by its index; \<open>None\<close> is the null pointer.\<close>

record gpu_item =
  gi_cache :: "int option"
  gi_tokens :: "int list"

type_synonym gpu_store = "int \<Rightarrow> gpu_kv option"

definition gpu_deref :: "gpu_store \<Rightarrow> int option \<Rightarrow> gpu_kv res" where
  "gpu_deref st a = (case a of None \<Rightarrow> Inl Undefined | Some a \<Rightarrow> case st a of None \<Rightarrow> Inl Undefined | Some c \<Rightarrow> Inr c)"

definition gpu_put :: "int option \<Rightarrow> gpu_kv \<Rightarrow> gpu_store \<Rightarrow> gpu_store" where
  "gpu_put a c st = (case a of None \<Rightarrow> st | Some a \<Rightarrow> st(a := Some c))"

definition gpu_item_past :: "string \<Rightarrow> gpu_store \<Rightarrow> gpu_item \<Rightarrow> int res" where
  "gpu_item_past who st item =
     (if gi_cache item = None then Inl (InvalidArgument who)
      else res_bind (gpu_deref st (gi_cache item)) (\<lambda>c. Inr (gk_length c)))"

definition cache_attend :: "gpu \<Rightarrow> gpu_model \<Rightarrow> gpu_item list \<Rightarrow> gpu_store attend" where
  "cache_attend G m items l i len past q k v attn st =
     res_bind (gpu_deref st (gi_cache (items ! i))) (\<lambda>c.
     res_bind (gpu_kv_append (int l) k v len c) (\<lambda>c.
     res_bind (gpu_kv_key_ptr (int l) c) (\<lambda>kp. res_bind (gpu_kv_value_ptr (int l) c) (\<lambda>vp.
     res_bind (gpu_attention G m q kp vp attn len past) (\<lambda>attn. Inr (attn, gpu_put (gi_cache (items ! i)) c st))))))"

definition gpu_advance_item :: "gpu_item \<Rightarrow> gpu_store \<Rightarrow> gpu_store res" where
  "gpu_advance_item item st =
     res_bind (gpu_deref st (gi_cache item)) (\<lambda>c. Inr (gpu_put (gi_cache item) (gpu_kv_advance (int (length (gi_tokens item))) c) st))"

definition gpu_forward_batch :: "gpu \<Rightarrow> gpu_model \<Rightarrow> gpu_item list \<Rightarrow> gpu_store \<Rightarrow> (tensor \<times> gpu_store) res" where
  "gpu_forward_batch G m items st =
     res_bind (res_mapM (gpu_item_past ''CudaModel::forward_batch: null cache'' st) items) (\<lambda>pasts.
     res_bind (gpu_forward_batch_impl G m (map gi_tokens items) pasts (cache_attend G m items) st) (\<lambda>(out, st).
     res_bind (res_fold gpu_advance_item items st) (\<lambda>st. Inr (out, st))))"

definition gpu_forward_batch_argmax :: "gpu \<Rightarrow> gpu_model \<Rightarrow> gpu_item list \<Rightarrow> gpu_store \<Rightarrow> (int list \<times> gpu_store) res" where
  "gpu_forward_batch_argmax G m items st =
     res_bind (res_mapM (gpu_item_past ''CudaModel::forward_batch_argmax: null cache'' st) items) (\<lambda>pasts.
     res_bind (gpu_forward_batch_device G m (map gi_tokens items) pasts (cache_attend G m items) st) (\<lambda>(logits, st).
     res_bind (k_argmax G logits (replicate (length items) (uint (g_junk G))) (int (length items)) (vocab_size (gm_config m))) (\<lambda>toks.
     res_bind (res_fold gpu_advance_item items st) (\<lambda>st. Inr (toks, st)))))"

section \<open>Batches over the paged pool\<close>

record paged_item =
  pi_blocks :: "int option"
  pi_tokens :: "int list"

text \<open>The block tables by their index, the pool, and the scratch the keys and values are gathered into.\<close>

record paged_store =
  ps_tables :: "int \<Rightarrow> sequence_blocks option"
  ps_pool :: gpu_bm
  ps_k_tmp :: "f32 list"
  ps_v_tmp :: "f32 list"

definition ps_table :: "paged_store \<Rightarrow> int option \<Rightarrow> sequence_blocks res" where
  "ps_table st a =
     (case a of None \<Rightarrow> Inl Undefined | Some a \<Rightarrow> case ps_tables st a of None \<Rightarrow> Inl Undefined | Some s \<Rightarrow> Inr s)"

definition ps_put :: "int option \<Rightarrow> sequence_blocks \<Rightarrow> paged_store \<Rightarrow> paged_store" where
  "ps_put a s st = (case a of None \<Rightarrow> st | Some a \<Rightarrow> st\<lparr>ps_tables := (ps_tables st)(a := Some s)\<rparr>)"

definition paged_reserve :: "paged_item \<Rightarrow> int list \<times> int \<times> paged_store \<Rightarrow> (int list \<times> int \<times> paged_store) res" where
  "paged_reserve item acc =
     (case acc of (pasts, max_total, st) \<Rightarrow>
      if pi_blocks item = None then Inl (InvalidArgument ''CudaModel::forward_batch_paged: null blocks'')
      else let len = int (length (pi_tokens item)) in
           res_bind (ps_table st (pi_blocks item)) (\<lambda>s.
           res_bind (gpu_reserve s len (ps_pool st)) (\<lambda>(s, g).
             Inr (pasts @ [seq_length s], max max_total (seq_length s + len), (ps_put (pi_blocks item) s st)\<lparr>ps_pool := g\<rparr>))))"

definition paged_attend :: "gpu \<Rightarrow> gpu_model \<Rightarrow> paged_item list \<Rightarrow> paged_store attend" where
  "paged_attend G m items l i len past q k v attn st =
     res_bind (ps_table st (pi_blocks (items ! i))) (\<lambda>s.
     res_bind (gpu_write G s (int l) past k v len (ps_pool st)) (\<lambda>g.
     res_bind (gpu_gather G s (int l) (past + len) (ps_k_tmp st) (ps_v_tmp st) g) (\<lambda>(kt, vt, g).
     res_bind (gpu_attention G m q kt vt attn len past) (\<lambda>attn.
       Inr (attn, st\<lparr>ps_pool := g, ps_k_tmp := kt, ps_v_tmp := vt\<rparr>)))))"

definition paged_commit :: "paged_item \<Rightarrow> paged_store \<Rightarrow> paged_store res" where
  "paged_commit item st =
     res_bind (ps_table st (pi_blocks item)) (\<lambda>s. Inr (ps_put (pi_blocks item) (gpu_commit s (int (length (pi_tokens item)))) st))"

definition gpu_forward_batch_paged ::
    "gpu \<Rightarrow> gpu_model \<Rightarrow> paged_item list \<Rightarrow> paged_store \<Rightarrow> (tensor \<times> paged_store) res" where
  "gpu_forward_batch_paged G m items st =
     res_bind (res_fold paged_reserve items ([], 0, st)) (\<lambda>(pasts, max_total, st).
     let tmp = device_array G (max_total * gm_nkv m) in
     res_bind (gpu_forward_batch_impl G m (map pi_tokens items) pasts (paged_attend G m items)
                 (st\<lparr>ps_k_tmp := tmp, ps_v_tmp := tmp\<rparr>)) (\<lambda>(out, st).
     res_bind (res_fold paged_commit items st) (\<lambda>st. Inr (out, st))))"

section \<open>Greedy decoding\<close>

definition argmax_last_row :: "tensor \<Rightarrow> int res" where
  "argmax_last_row logits =
     res_bind (dim logits 0) (\<lambda>rs. res_bind (dim logits 1) (\<lambda>vocab.
       if (rs - 1) * vocab < 0 then Inl Undefined
       else argmax (drop (nat ((rs - 1) * vocab)) (t_data logits)) vocab))"

text \<open>The \<open>while\<close> loop; every round emits a token, so \<open>max_tokens\<close> rounds are enough.\<close>

fun gpu_decode :: "gpu \<Rightarrow> gpu_model \<Rightarrow> nat \<Rightarrow> int \<Rightarrow> int \<Rightarrow> int list \<Rightarrow> int \<Rightarrow> gpu_kv \<Rightarrow> int list res" where
  "gpu_decode G m fuel max_tokens eos_id out token c =
     (if int (length out) < max_tokens \<and> token \<noteq> eos_id
      then (case fuel of 0 \<Rightarrow> Inl Undefined
            | Suc fuel \<Rightarrow>
                res_bind (gpu_forward_cached G m [token] c) (\<lambda>(logits, c).
                res_bind (argmax_last_row logits) (\<lambda>token. gpu_decode G m fuel max_tokens eos_id (out @ [token]) token c)))
      else Inr out)"

declare gpu_decode.simps [simp del]

definition gpu_generate :: "gpu \<Rightarrow> gpu_model \<Rightarrow> int list \<Rightarrow> int \<Rightarrow> int \<Rightarrow> int list res" where
  "gpu_generate G m prompt max_tokens eos_id =
     (if max_tokens \<le> 0 \<or> prompt = [] then Inr []
      else res_bind (gpu_kv_new G (num_hidden_layers (gm_config m)) (gm_nkv m) (int (length prompt) + max_tokens)) (\<lambda>c.
           res_bind (gpu_forward_cached G m prompt c) (\<lambda>(logits, c).
           res_bind (argmax_last_row logits) (\<lambda>token. gpu_decode G m (nat max_tokens) max_tokens eos_id [token] token c))))"

end
