(* ===== verification/Cuda_Engine.thy ===== *)
theory Cuda_Engine
  imports Cuda_Model Engine
begin

text \<open>
  \<open>cuda/engine.hpp\<close> and \<open>cuda/engine.cu\<close>: the continuous-batching engine of the device. Every
  sequence owns its device cache, the \<open>std::unique_ptr\<close> in it is an option; a pointer to the
  cache of a sequence is the id of the sequence, so a batch runs on the store of the caches
  and its result is put back. The sampler of the host runs on a \<open>platform\<close>.
\<close>

section \<open>State\<close>

record gpu_seq =
  gs_request :: request
  gs_cache :: "gpu_kv option"
  gs_output :: "int list"
  gs_status :: seq_status
  gs_prefilled :: bool

record 'g gpu_engine =
  ge_rng :: 'g
  ge_max_batch :: int
  ge_waiting :: "int list"
  ge_running :: "int list"
  ge_sequences :: "int \<rightharpoonup> gpu_seq"
  ge_next_id :: int

definition gpu_engine_new :: "'g \<Rightarrow> int \<Rightarrow> 'g gpu_engine" where
  "gpu_engine_new rng batch =
     \<lparr>ge_rng = rng, ge_max_batch = batch, ge_waiting = [], ge_running = [], ge_sequences = Map.empty, ge_next_id = 0\<rparr>"

definition gseq_at :: "'g gpu_engine \<Rightarrow> int \<Rightarrow> gpu_seq res" where
  "gseq_at e i = (case ge_sequences e i of None \<Rightarrow> Inl (OutOfRange ''unordered_map::at'') | Some s \<Rightarrow> Inr s)"

definition gseq_set :: "int \<Rightarrow> gpu_seq \<Rightarrow> 'g gpu_engine \<Rightarrow> 'g gpu_engine" where
  "gseq_set i s e = e\<lparr>ge_sequences := (ge_sequences e)(i \<mapsto> s)\<rparr>"

definition gpu_add_request :: "request \<Rightarrow> 'g gpu_engine \<Rightarrow> (int \<times> 'g gpu_engine) res" where
  "gpu_add_request rq e =
     (if rq_prompt rq = [] then Inl (InvalidArgument ''CudaEngine: empty prompt'')
      else let i = ge_next_id e;
               s = \<lparr>gs_request = rq, gs_cache = None, gs_output = [], gs_status = Waiting, gs_prefilled = False\<rparr>
           in Inr (i, e\<lparr>ge_next_id := i + 1,
                        ge_sequences := (case ge_sequences e i of None \<Rightarrow> (ge_sequences e)(i \<mapsto> s) | Some _ \<Rightarrow> ge_sequences e),
                        ge_waiting := ge_waiting e @ [i]\<rparr>))"

section \<open>Admission\<close>

text \<open>The loop over the waiting queue, which is its third argument.\<close>

fun gpu_admit :: "gpu \<Rightarrow> gpu_model \<Rightarrow> int list \<Rightarrow> 'g gpu_engine \<Rightarrow> 'g gpu_engine res" where
  "gpu_admit G m [] e = Inr (e\<lparr>ge_waiting := []\<rparr>)"
| "gpu_admit G m (i # rest) e =
     (if int (length (ge_running e)) < ge_max_batch e
      then res_bind (gseq_at e i) (\<lambda>s.
           let capacity = int (length (rq_prompt (gs_request s))) + rq_max_tokens (gs_request s) in
           res_bind (gpu_kv_new G (num_hidden_layers (gm_config m)) (gm_nkv m) capacity) (\<lambda>c.
             gpu_admit G m rest (gseq_set i (s\<lparr>gs_cache := Some c, gs_status := Running\<rparr>) (e\<lparr>ge_running := ge_running e @ [i]\<rparr>))))
      else Inr (e\<lparr>ge_waiting := i # rest\<rparr>))"

text \<open>
  The same loop with the engine it leaves behind: an exception passes through \<open>step\<close>, and what
  the loop did before it stays done. The earlier requests are admitted; the one whose cache
  cannot be made is still the first of the queue, because \<open>pop_front\<close> comes after
  \<open>make_unique\<close>.
\<close>

fun gpu_admit_left :: "gpu \<Rightarrow> gpu_model \<Rightarrow> int list \<Rightarrow> 'g gpu_engine \<Rightarrow> error \<times> 'g gpu_engine + 'g gpu_engine" where
  "gpu_admit_left G m [] e = Inr (e\<lparr>ge_waiting := []\<rparr>)"
| "gpu_admit_left G m (i # rest) e =
     (if int (length (ge_running e)) < ge_max_batch e
      then (case gseq_at e i of
              Inl x \<Rightarrow> Inl (x, e\<lparr>ge_waiting := i # rest\<rparr>)
            | Inr s \<Rightarrow>
                let capacity = int (length (rq_prompt (gs_request s))) + rq_max_tokens (gs_request s)
                in (case gpu_kv_new G (num_hidden_layers (gm_config m)) (gm_nkv m) capacity of
                      Inl x \<Rightarrow> Inl (x, e\<lparr>ge_waiting := i # rest\<rparr>)
                    | Inr c \<Rightarrow> gpu_admit_left G m rest
                        (gseq_set i (s\<lparr>gs_cache := Some c, gs_status := Running\<rparr>) (e\<lparr>ge_running := ge_running e @ [i]\<rparr>))))
      else Inr (e\<lparr>ge_waiting := i # rest\<rparr>))"

lemma gpu_admit_left_eq:
  "gpu_admit G m w e = (case gpu_admit_left G m w e of Inl (x, _) \<Rightarrow> Inl x | Inr e' \<Rightarrow> Inr e')"
  by (induction G m w e rule: gpu_admit.induct) (auto simp: Let_def res_bind_def split: sum.splits)

section \<open>The batch\<close>

definition gpu_store_of :: "'g gpu_engine \<Rightarrow> gpu_store" where
  "gpu_store_of e = (\<lambda>i. case ge_sequences e i of None \<Rightarrow> None | Some s \<Rightarrow> gs_cache s)"

definition gpu_put_caches :: "gpu_store \<Rightarrow> 'g gpu_engine \<Rightarrow> 'g gpu_engine" where
  "gpu_put_caches st e =
     e\<lparr>ge_sequences := (\<lambda>i. map_option (\<lambda>s. s\<lparr>gs_cache := st i\<rparr>) (ge_sequences e i))\<rparr>"

definition gpu_batch_item :: "'g gpu_engine \<Rightarrow> int \<Rightarrow> gpu_item res" where
  "gpu_batch_item e i =
     res_bind (gseq_at e i) (\<lambda>s.
     res_bind (if gs_prefilled s then if gs_output s = [] then Inl Undefined else Inr [last (gs_output s)]
               else Inr (rq_prompt (gs_request s))) (\<lambda>tokens.
       Inr \<lparr>gi_cache = (case gs_cache s of None \<Rightarrow> None | Some _ \<Rightarrow> Some i), gi_tokens = tokens\<rparr>))"

text \<open>The scan for a request that samples, with its early exit.\<close>

fun gpu_all_greedy :: "'g gpu_engine \<Rightarrow> int list \<Rightarrow> bool res" where
  "gpu_all_greedy e [] = Inr True"
| "gpu_all_greedy e (i # is') =
     res_bind (gseq_at e i) (\<lambda>s.
       if f64_lt 0 (temperature (rq_params (gs_request s))) then Inr False else gpu_all_greedy e is')"

definition gpu_sample_one ::
    "'g platform \<Rightarrow> gpu_model \<Rightarrow> 'g gpu_engine \<Rightarrow> tensor \<Rightarrow> nat \<times> int \<Rightarrow> int list \<times> 'g \<Rightarrow> (int list \<times> 'g) res" where
  "gpu_sample_one P m e logits ki acc =
     (case ki of (k, i) \<Rightarrow> case acc of (toks, rng) \<Rightarrow>
      let vocab = vocab_size (gm_config m) in
      res_bind (gseq_at e i) (\<lambda>s.
      res_bind (sample (p_fpu P) (p_sort P) (p_uniform P) (drop (nat (int k * vocab)) (t_data logits)) vocab
                  (rq_params (gs_request s)) rng) (\<lambda>(token, rng). Inr (toks @ [token], rng))))"

definition gpu_pick ::
    "'g platform \<Rightarrow> gpu \<Rightarrow> gpu_model \<Rightarrow> gpu_item list \<Rightarrow> int list \<Rightarrow> 'g gpu_engine \<Rightarrow> (int list \<times> 'g gpu_engine) res" where
  "gpu_pick P G m items batched_ids e =
     res_bind (gpu_all_greedy e batched_ids) (\<lambda>greedy.
       if greedy
       then res_bind (gpu_forward_batch_argmax G m items (gpu_store_of e)) (\<lambda>(toks, st). Inr (toks, gpu_put_caches st e))
       else res_bind (gpu_forward_batch G m items (gpu_store_of e)) (\<lambda>(logits, st).
            res_bind (res_fold (gpu_sample_one P m e logits) (enumerate 0 batched_ids) ([], ge_rng e)) (\<lambda>(toks, rng).
              Inr (toks, (gpu_put_caches st e)\<lparr>ge_rng := rng\<rparr>))))"

definition gpu_record :: "int \<times> int \<Rightarrow> bool \<times> 'g gpu_engine \<Rightarrow> (bool \<times> 'g gpu_engine) res" where
  "gpu_record it st =
     (case it of (i, token) \<Rightarrow> case st of (any_finished, e) \<Rightarrow>
      res_bind (gseq_at e i) (\<lambda>s.
        let s = s\<lparr>gs_prefilled := True, gs_output := gs_output s @ [token]\<rparr>;
            hit_eos = (0 \<le> rq_eos_id (gs_request s) \<and> token = rq_eos_id (gs_request s));
            hit_len = (rq_max_tokens (gs_request s) \<le> int (length (gs_output s)))
        in if hit_eos \<or> hit_len
           then Inr (True, gseq_set i (s\<lparr>gs_status := Finished, gs_cache := None\<rparr>) e)
           else Inr (any_finished, gseq_set i s e)))"

fun gpu_still_running :: "'g gpu_engine \<Rightarrow> int list \<Rightarrow> int list res" where
  "gpu_still_running e [] = Inr []"
| "gpu_still_running e (i # is') =
     res_bind (gseq_at e i) (\<lambda>s. res_bind (gpu_still_running e is') (\<lambda>r.
       Inr (if gs_status s \<noteq> Finished then i # r else r)))"

definition gpu_step :: "'g platform \<Rightarrow> gpu \<Rightarrow> gpu_model \<Rightarrow> 'g gpu_engine \<Rightarrow> 'g gpu_engine res" where
  "gpu_step P G m e =
     res_bind (gpu_admit G m (ge_waiting e) e) (\<lambda>e.
     res_bind (res_mapM (gpu_batch_item e) (ge_running e)) (\<lambda>items.
       if items = [] then Inr e
       else res_bind (gpu_pick P G m items (ge_running e) e) (\<lambda>(toks, e).
            res_bind (res_fold gpu_record (zip (ge_running e) toks) (False, e)) (\<lambda>(any_finished, e).
              if any_finished then res_bind (gpu_still_running e (ge_running e)) (\<lambda>r. Inr (e\<lparr>ge_running := r\<rparr>)) else Inr e))))"

section \<open>Queries and the driver\<close>

definition gpu_has_work :: "'g gpu_engine \<Rightarrow> bool" where
  "gpu_has_work e \<longleftrightarrow> ge_waiting e \<noteq> [] \<or> ge_running e \<noteq> []"

definition gpu_output :: "int \<Rightarrow> 'g gpu_engine \<Rightarrow> int list res" where
  "gpu_output i e = res_bind (gseq_at e i) (\<lambda>s. Inr (gs_output s))"

definition gpu_status :: "int \<Rightarrow> 'g gpu_engine \<Rightarrow> seq_status res" where
  "gpu_status i e = res_bind (gseq_at e i) (\<lambda>s. Inr (gs_status s))"

text \<open>The loop of \<open>generate\<close>; \<open>None\<close> is a run that never returns.\<close>

partial_function (option) gpu_drive ::
    "'g platform \<Rightarrow> gpu \<Rightarrow> gpu_model \<Rightarrow> int \<Rightarrow> 'g gpu_engine \<Rightarrow> (int list \<times> 'g gpu_engine) res option" where
  "gpu_drive P G m i e =
     (case gseq_at e i of
        Inl x \<Rightarrow> Some (Inl x)
      | Inr s \<Rightarrow>
          if gs_status s = Finished then Some (Inr (gs_output s, e))
          else (case gpu_step P G m e of Inl x \<Rightarrow> Some (Inl x) | Inr e' \<Rightarrow> gpu_drive P G m i e'))"

definition gpu_engine_generate ::
    "'g platform \<Rightarrow> gpu \<Rightarrow> gpu_model \<Rightarrow> int list \<Rightarrow> sampling_params \<Rightarrow> int \<Rightarrow> int \<Rightarrow> 'g gpu_engine \<Rightarrow>
     (int list \<times> 'g gpu_engine) res option" where
  "gpu_engine_generate P G m prompt params max_tokens eos_id e =
     (case gpu_add_request \<lparr>rq_prompt = prompt, rq_params = params, rq_max_tokens = max_tokens, rq_eos_id = eos_id\<rparr> e of
        Inl x \<Rightarrow> Some (Inl x)
      | Inr (i, e) \<Rightarrow> gpu_drive P G m i e)"

end
