(* ===== verification/Row_Stack.thy ===== *)
theory Row_Stack
  imports Model_Spec
begin

text \<open>
  A transformer given by what it does to rows, independent of the arithmetic that computes
  them: the record \<open>row_ops\<close> has one function per part of a layer, \<open>row_layer\<close> and
  \<open>row_stack\<close> run a chunk of rows through them on the keys and values of the rows before.
  The locale \<open>row_model\<close> states what the sizes of the rows have to be; splitting a chunk is
  proved once in it. The device model is an instance of it.
\<close>

record row_ops =
  ro_q :: "nat \<Rightarrow> int \<Rightarrow> f32 list \<Rightarrow> f32 list"
  ro_k :: "nat \<Rightarrow> int \<Rightarrow> f32 list \<Rightarrow> f32 list"
  ro_v :: "nat \<Rightarrow> f32 list \<Rightarrow> f32 list"
  ro_attn :: "f32 list \<Rightarrow> f32 list list \<Rightarrow> f32 list list \<Rightarrow> f32 list"
  ro_post :: "nat \<Rightarrow> f32 list \<Rightarrow> f32 list \<Rightarrow> f32 list"
  ro_head :: "f32 list \<Rightarrow> f32 list"

definition chunk_positions :: "nat \<Rightarrow> nat \<Rightarrow> int list" where
  "chunk_positions past n = map (\<lambda>i. int (past + i)) [0..<n]"

definition row_attn :: "row_ops \<Rightarrow> nat \<Rightarrow> f32 list list \<Rightarrow> f32 list list \<Rightarrow> f32 list list \<Rightarrow> f32 list list" where
  "row_attn R off qss kss vss = map (\<lambda>i. ro_attn R (qss ! i) (take (off + i + 1) kss) (take (off + i + 1) vss)) [0..<length qss]"

definition row_layer :: "row_ops \<Rightarrow> nat \<Rightarrow> nat \<Rightarrow> f32 list list \<Rightarrow> hist \<Rightarrow> f32 list list \<times> hist" where
  "row_layer R l past xss h =
     (let ps = chunk_positions past (length xss); ks = fst h @ map2 (ro_k R l) ps xss; vs = snd h @ map (ro_v R l) xss
      in (map2 (ro_post R l) xss (row_attn R past (map2 (ro_q R l) ps xss) ks vs), (ks, vs)))"

fun row_stack :: "row_ops \<Rightarrow> nat \<Rightarrow> nat \<Rightarrow> f32 list list \<Rightarrow> (nat \<Rightarrow> hist) \<Rightarrow> f32 list list \<times> (nat \<Rightarrow> hist)" where
  "row_stack R 0 past xss H = (xss, H)"
| "row_stack R (Suc L) past xss H =
     (let (yss, H') = row_stack R L past xss H; (zss, h) = row_layer R L past yss (H' L) in (zss, H'(L := h)))"

lemma length_chunk_positions [simp]: "length (chunk_positions past n) = n"
  by (simp add: chunk_positions_def)

lemma chunk_positions_append: "chunk_positions past (n + k) = chunk_positions past n @ chunk_positions (past + n) k"
  by (rule nth_equalityI) (auto simp: chunk_positions_def nth_append)

lemma length_row_attn [simp]: "length (row_attn R off qss kss vss) = length qss"
  by (simp add: row_attn_def)

lemma row_attn_append:
  assumes "length kss = off + length qss" "length vss = off + length qss"
  shows "row_attn R off (qss @ qss') (kss @ kss') (vss @ vss') =
    row_attn R off qss kss vss @ row_attn R (off + length qss) qss' (kss @ kss') (vss @ vss')"
  by (rule nth_equalityI) (use assms in \<open>auto simp: row_attn_def nth_append add.assoc Suc_diff_le\<close>)

lemma row_layer_length [simp]:
  "length (fst (row_layer R l past xss h)) = length xss"
  "length (fst (snd (row_layer R l past xss h))) = length (fst h) + length xss"
  "length (snd (snd (row_layer R l past xss h))) = length (snd h) + length xss"
  by (simp_all add: row_layer_def Let_def)

lemma row_layer_append:
  assumes "length (fst h) = past" "length (snd h) = past"
  shows "row_layer R l past (xss @ yss) h =
    (let (xss', h1) = row_layer R l past xss h; (yss', h2) = row_layer R l (past + length xss) yss h1 in (xss' @ yss', h2))"
proof -
  let ?n = "length xss" and ?ps = "chunk_positions past (length xss)" and ?qs = "chunk_positions (past + length xss) (length yss)"
  let ?ks = "fst h @ map2 (ro_k R l) ?ps xss" and ?vs = "snd h @ map (ro_v R l) xss"
  have zip: "map2 f (chunk_positions past (length (xss @ yss))) (xss @ yss) = map2 f ?ps xss @ map2 f ?qs yss"
    for f :: "int \<Rightarrow> f32 list \<Rightarrow> f32 list" by (simp add: chunk_positions_append)
  define A where "A = row_attn R past (map2 (ro_q R l) ?ps xss) ?ks ?vs"
  define B where "B = row_attn R (past + ?n) (map2 (ro_q R l) ?qs yss) (?ks @ map2 (ro_k R l) ?qs yss) (?vs @ map (ro_v R l) yss)"
  have AB: "row_attn R past (map2 (ro_q R l) ?ps xss @ map2 (ro_q R l) ?qs yss) (?ks @ map2 (ro_k R l) ?qs yss) (?vs @ map (ro_v R l) yss)
      = A @ B"
    using assms row_attn_append[of ?ks past "map2 (ro_q R l) ?ps xss" ?vs] by (simp add: A_def B_def)
  have "length A = length xss" by (simp add: A_def)
  then have "map2 (ro_post R l) (xss @ yss) (A @ B) = map2 (ro_post R l) xss A @ map2 (ro_post R l) yss B" by simp
  then have "row_layer R l past (xss @ yss) h = (map2 (ro_post R l) xss A @ map2 (ro_post R l) yss B,
      (?ks @ map2 (ro_k R l) ?qs yss, ?vs @ map (ro_v R l) yss))"
    unfolding row_layer_def Let_def zip map_append append_assoc[symmetric] AB by simp
  moreover have "row_layer R l past xss h = (map2 (ro_post R l) xss A, (?ks, ?vs))" unfolding row_layer_def Let_def A_def ..
  moreover have "row_layer R l (past + ?n) yss (?ks, ?vs) =
      (map2 (ro_post R l) yss B, (?ks @ map2 (ro_k R l) ?qs yss, ?vs @ map (ro_v R l) yss))"
    unfolding row_layer_def Let_def B_def fst_conv snd_conv ..
  ultimately show ?thesis by (simp only: Let_def prod.case)
qed

lemma row_stack_other: "L \<le> l \<Longrightarrow> snd (row_stack R L past xss H) l = H l"
  by (induction L) (auto simp: case_prod_unfold Let_def)

lemma row_stack_upd:
  "L \<le> l \<Longrightarrow> row_stack R L past xss (H(l := h)) = (fst (row_stack R L past xss H), (snd (row_stack R L past xss H))(l := h))"
  by (induction L) (auto simp: case_prod_unfold Let_def fun_upd_twist)

lemma row_stack_length [simp]: "length (fst (row_stack R L past xss H)) = length xss"
  by (induction L) (simp_all add: case_prod_unfold Let_def)

lemma row_stack_hist_length:
  "l < L \<Longrightarrow> length (fst (snd (row_stack R L past xss H) l)) = length (fst (H l)) + length xss
    \<and> length (snd (snd (row_stack R L past xss H) l)) = length (snd (H l)) + length xss"
  by (induction L) (auto simp: case_prod_unfold Let_def less_Suc_eq row_stack_other)

lemma row_stack_append:
  assumes "\<forall>l < L. length (fst (H l)) = past \<and> length (snd (H l)) = past"
  shows "row_stack R L past (xss @ yss) H =
    (let (xss', H1) = row_stack R L past xss H; (yss', H2) = row_stack R L (past + length xss) yss H1 in (xss' @ yss', H2))"
  using assms
proof (induction L)
  case (Suc L)
  obtain xs1 H1 where 1: "row_stack R L past xss H = (xs1, H1)" by fastforce
  obtain xs2 h1 where 2: "row_layer R L past xs1 (H1 L) = (xs2, h1)" by (cases "row_layer R L past xs1 (H1 L)") auto
  have len: "length xs1 = length xss" using row_stack_length[of R L past xss H] 1 by simp
  have "H1 L = H L" using row_stack_other[of L L R past xss H] 1 by simp
  then have hl: "length (fst (H1 L)) = past" "length (snd (H1 L)) = past" using Suc.prems by auto
  have upd: "row_stack R L p zs (H1(L := h1)) = (fst (row_stack R L p zs H1), (snd (row_stack R L p zs H1))(L := h1))" for p zs
    by (rule row_stack_upd) simp
  show ?case
    using Suc 1 2 row_layer_append[OF hl, of R L xs1] len by (simp add: upd Let_def case_prod_unfold row_stack_other)
qed simp

lemma row_stack_cong:
  "(\<forall>l < L. H l = H' l) \<Longrightarrow>
   fst (row_stack R L past xss H) = fst (row_stack R L past xss H')
   \<and> (\<forall>l < L. snd (row_stack R L past xss H) l = snd (row_stack R L past xss H') l)"
  by (induction L) (auto simp: case_prod_unfold Let_def less_Suc_eq row_stack_other)

section \<open>Sizes\<close>

locale row_model =
  fixes ops :: "'m \<Rightarrow> row_ops" and ok :: "'m \<Rightarrow> bool"
    and layers :: "'m \<Rightarrow> nat" and width :: "'m \<Rightarrow> nat" and qw :: "'m \<Rightarrow> nat" and kvw :: "'m \<Rightarrow> nat"
  assumes q_len: "ok m \<Longrightarrow> l < layers m \<Longrightarrow> length x = width m \<Longrightarrow> length (ro_q (ops m) l p x) = qw m"
    and k_len: "ok m \<Longrightarrow> l < layers m \<Longrightarrow> length x = width m \<Longrightarrow> length (ro_k (ops m) l p x) = kvw m"
    and v_len: "ok m \<Longrightarrow> l < layers m \<Longrightarrow> length x = width m \<Longrightarrow> length (ro_v (ops m) l x) = kvw m"
    and attn_len: "ok m \<Longrightarrow> \<forall>v \<in> set vss. length v = kvw m \<Longrightarrow> length (ro_attn (ops m) q kss vss) = qw m"
    and post_len: "ok m \<Longrightarrow> l < layers m \<Longrightarrow> length x = width m \<Longrightarrow> length a = qw m \<Longrightarrow> length (ro_post (ops m) l x a) = width m"

context row_model
begin

lemma qkv_rect:
  assumes "ok m" "l < layers m" "rect s (width m) xss" "length ps = s"
  shows "rect s (qw m) (map2 (ro_q (ops m) l) ps xss)" "rect s (kvw m) (map2 (ro_k (ops m) l) ps xss)"
    "rect s (kvw m) (map (ro_v (ops m) l) xss)"
  using assms q_len[OF assms(1,2)] k_len[OF assms(1,2)] v_len[OF assms(1,2)] by (auto simp: rect_def set_zip)

lemma attn_rect:
  assumes "ok m" "rect s (qw m) qss" "rect t (kvw m) vss"
  shows "rect s (qw m) (row_attn (ops m) off qss kss vss)"
  unfolding rect_def
proof (intro conjI ballI)
  fix x assume "x \<in> set (row_attn (ops m) off qss kss vss)"
  then obtain i where "x = ro_attn (ops m) (qss ! i) (take (off + i + 1) kss) (take (off + i + 1) vss)" by (auto simp: row_attn_def)
  moreover have "\<forall>v \<in> set (take (off + i + 1) vss). length v = kvw m" for i using assms(3) by (auto simp: rect_def dest: in_set_takeD)
  ultimately show "length x = qw m" using attn_len[OF assms(1)] by blast
qed (use assms(2) in \<open>simp add: rect_def\<close>)

lemma layer_rect:
  assumes "ok m" "l < layers m" "rect s (width m) xss" "hist_ok past (kvw m) h"
  shows "rect s (width m) (fst (row_layer (ops m) l past xss h))" "hist_ok (past + s) (kvw m) (snd (row_layer (ops m) l past xss h))"
proof -
  have s: "length xss = s" using assms(3) by (simp add: rect_def)
  note r = qkv_rect[OF assms(1-3), of "chunk_positions past s"]
  have v: "rect (past + s) (kvw m) (snd h @ map (ro_v (ops m) l) xss)" "rect (past + s) (kvw m) (fst h @ map2 (ro_k (ops m) l) (chunk_positions past s) xss)"
    using assms(4) r by (auto simp: hist_ok_def intro!: rect_append)
  have a: "rect s (qw m) (row_attn (ops m) past (map2 (ro_q (ops m) l) (chunk_positions past s) xss)
      (fst h @ map2 (ro_k (ops m) l) (chunk_positions past s) xss) (snd h @ map (ro_v (ops m) l) xss))"
    by (rule attn_rect[OF assms(1) _ v(1)]) (use r in simp)
  show "rect s (width m) (fst (row_layer (ops m) l past xss h))"
    unfolding row_layer_def Let_def s fst_conv by (rule rect_map2[OF assms(3) a]) (rule post_len[OF assms(1,2)])
  show "hist_ok (past + s) (kvw m) (snd (row_layer (ops m) l past xss h))"
    using v s by (simp add: row_layer_def Let_def hist_ok_def)
qed

lemma stack_rect:
  assumes "ok m" "rect s (width m) xss" "\<forall>l < layers m. hist_ok past (kvw m) (H l)"
  shows "L \<le> layers m \<Longrightarrow> rect s (width m) (fst (row_stack (ops m) L past xss H))
    \<and> (\<forall>l < L. hist_ok (past + s) (kvw m) (snd (row_stack (ops m) L past xss H) l))"
proof (induction L)
  case (Suc L)
  then have "rect s (width m) (fst (row_stack (ops m) L past xss H))" by simp
  moreover have "hist_ok past (kvw m) (snd (row_stack (ops m) L past xss H) L)"
    using assms(3) Suc.prems by (simp add: row_stack_other)
  ultimately show ?case
    using layer_rect[OF assms(1), of L s] Suc by (auto simp: case_prod_unfold Let_def less_Suc_eq)
qed (use assms in simp)

end

end
