(* ===== verification/Cuda_Rows.thy ===== *)
theory Cuda_Rows
  imports Cuda_Model Row_Stack Model_Cached
begin

text \<open>
  What the kernels of a layer compute, row by row, from the weights of the host model the
  device model was uploaded from. \<open>gpu_rows\<close> is the device model as an instance of
  \<open>row_model\<close>.
\<close>

section \<open>Uploaded weights\<close>

definition wt :: "model \<Rightarrow> string \<Rightarrow> f32 list" where
  "wt M name = t_data (the_weight M name)"

definition uploaded :: "model \<Rightarrow> gpu_model \<Rightarrow> bool" where
  "uploaded M m \<longleftrightarrow> gm_config m = m_config M
     \<and> (\<forall>(name, req) \<in> set (gm_names (m_config M)). map_of (gm_weights m) name = map_option t_data (map_of (m_weights M) name))"

lemma gm_add_all:
  "\<forall>(n, req) \<in> set xs. req \<longrightarrow> st_contains ws n \<Longrightarrow>
   \<exists>m'. res_fold (gm_add ws) xs m = Inr m' \<and> gm_config m' = gm_config m
     \<and> (\<forall>n. map_of (gm_weights m') n = (if map_of (gm_weights m) n \<noteq> None then map_of (gm_weights m) n
          else if n \<in> fst ` set xs then map_option t_data (map_of ws n) else None))"
proof (induction xs arbitrary: m)
  case (Cons x xs)
  obtain n req where x: "x = (n, req)" by fastforce
  have ok: "\<forall>(n, req) \<in> set xs. req \<longrightarrow> st_contains ws n" using Cons.prems by auto
  show ?case
  proof (cases "map_of ws n")
    case None
    then have "\<not> st_contains ws n" by (simp add: st_contains_def)
    then have "gm_add ws x m = Inr m" using Cons.prems x by (auto simp: gm_add_def)
    then show ?thesis using Cons.IH[OF ok, of m] None x by (fastforce split: if_splits)
  next
    case (Some t)
    let ?m = "if gm_has m n then m else m\<lparr>gm_weights := (n, upload t) # gm_weights m\<rparr>"
    have "gm_add ws x m = Inr ?m" using Some x by (simp add: gm_add_def st_contains_def st_get_def)
    moreover from Cons.IH[OF ok, of ?m] obtain m' where m': "res_fold (gm_add ws) xs ?m = Inr m'" "gm_config m' = gm_config ?m"
      "\<forall>k. map_of (gm_weights m') k = (if map_of (gm_weights ?m) k \<noteq> None then map_of (gm_weights ?m) k
          else if k \<in> fst ` set xs then map_option t_data (map_of ws k) else None)" by blast
    moreover have "map_of (gm_weights m') k = (if map_of (gm_weights m) k \<noteq> None then map_of (gm_weights m) k
          else if k \<in> fst ` set (x # xs) then map_option t_data (map_of ws k) else None)" for k
      using m'(3)[rule_format, of k] Some x by (cases "gm_has m n"; cases "k = n") (auto simp: gm_has_def upload_def)
    ultimately show ?thesis by (intro exI[of _ m']) simp
  qed
qed simp

lemma gm_add_missing:
  "\<exists>(n, req) \<in> set xs. req \<and> \<not> st_contains ws n \<Longrightarrow> \<exists>n. res_fold (gm_add ws) xs m = Inl (RuntimeError (''CudaModel: missing weight '' @ n))"
proof (induction xs arbitrary: m)
  case (Cons x xs)
  obtain n req where x: "x = (n, req)" by fastforce
  show ?case
  proof (cases "req \<and> \<not> st_contains ws n")
    case True
    then show ?thesis using x by (simp add: gm_add_def)
  next
    case False
    then have "\<exists>(n, req) \<in> set xs. req \<and> \<not> st_contains ws n" using Cons.prems x by auto
    moreover have "\<exists>m'. gm_add ws x m = Inr m'" using False x by (auto simp: gm_add_def st_contains_def st_get_def)
    ultimately show ?thesis using Cons.IH by force
  qed
qed simp

lemma layer_name_mem:
  "l < n_layers M \<Longrightarrow> (suffix, req) \<in> set (gm_layer_names (attention_qkv_bias (m_config M)) l) \<Longrightarrow> (suffix, req) \<in> set (gm_names (m_config M))"
  by (auto simp: gm_names_def n_layers_def)

lemma layer_names:
  assumes "l < n_layers M"
  shows "(layer_key (int l) ''input_layernorm.weight'', True) \<in> set (gm_names (m_config M))"
    "(layer_key (int l) ''post_attention_layernorm.weight'', True) \<in> set (gm_names (m_config M))"
    "(layer_key (int l) ''self_attn.q_proj.weight'', True) \<in> set (gm_names (m_config M))"
    "(layer_key (int l) ''self_attn.k_proj.weight'', True) \<in> set (gm_names (m_config M))"
    "(layer_key (int l) ''self_attn.v_proj.weight'', True) \<in> set (gm_names (m_config M))"
    "(layer_key (int l) ''self_attn.o_proj.weight'', True) \<in> set (gm_names (m_config M))"
    "(layer_key (int l) ''self_attn.q_proj.bias'', attention_qkv_bias (m_config M)) \<in> set (gm_names (m_config M))"
    "(layer_key (int l) ''self_attn.k_proj.bias'', attention_qkv_bias (m_config M)) \<in> set (gm_names (m_config M))"
    "(layer_key (int l) ''self_attn.v_proj.bias'', attention_qkv_bias (m_config M)) \<in> set (gm_names (m_config M))"
    "(layer_key (int l) ''mlp.gate_proj.weight'', True) \<in> set (gm_names (m_config M))"
    "(layer_key (int l) ''mlp.up_proj.weight'', True) \<in> set (gm_names (m_config M))"
    "(layer_key (int l) ''mlp.down_proj.weight'', True) \<in> set (gm_names (m_config M))"
  by (rule layer_name_mem[OF assms], simp add: gm_layer_names_def)+

lemma uploaded_weight:
  assumes "uploaded M m" "(name, req) \<in> set (gm_names (m_config M))" "map_of (m_weights M) name \<noteq> None"
  shows "gm_weight m name = Inr (wt M name)"
  using assms by (fastforce simp: uploaded_def gm_weight_def wt_def the_weight_def)

lemma layer_key_keys:
  "layer_key (int l) ''self_attn.q_proj.weight'' = proj_key l ''q''" "layer_key (int l) ''self_attn.k_proj.weight'' = proj_key l ''k''"
  "layer_key (int l) ''self_attn.v_proj.weight'' = proj_key l ''v''" "layer_key (int l) ''self_attn.q_proj.bias'' = bias_key l ''q''"
  "layer_key (int l) ''self_attn.k_proj.bias'' = bias_key l ''k''" "layer_key (int l) ''self_attn.v_proj.bias'' = bias_key l ''v''"
  by (simp_all add: proj_key_def bias_key_def)

text \<open>All the device needs of the sizes, for a pass over \<open>s\<close> rows.\<close>

definition gpu_width :: "model \<Rightarrow> nat" where
  "gpu_width M = d_model M + d_q M + d_kv M + d_ff M + n_vocab M"

definition gpu_dims :: "model \<Rightarrow> bool" where
  "gpu_dims M \<longleftrightarrow> 0 < n_layers M \<and> 0 < n_heads M \<and> 2 \<le> d_head M \<and> d_head M \<le> 256 \<and> 0 < d_model M \<and> 0 < d_ff M
     \<and> 0 < n_vocab M \<and> gpu_width M < 2 ^ 31"

definition gpu_rows_fit :: "model \<Rightarrow> nat \<Rightarrow> bool" where
  "gpu_rows_fit M s \<longleftrightarrow> s < 2 ^ 31 \<and> s * gpu_width M < 2 ^ 38"

lemma gpu_fit:
  assumes "gpu_rows_fit M s" "n \<le> gpu_width M"
  shows "int (s * n) < 2 ^ 38"
proof -
  have "s * n \<le> s * gpu_width M" using assms(2) by simp
  then have "s * n < 2 ^ 38" using assms(1) unfolding gpu_rows_fit_def by linarith
  then show ?thesis by (metis of_nat_less_iff of_nat_numeral of_nat_power)
qed

lemma gpu_width_ge: "d_model M \<le> gpu_width M" "d_q M \<le> gpu_width M" "d_kv M \<le> gpu_width M" "d_ff M \<le> gpu_width M" "n_vocab M \<le> gpu_width M"
  by (simp_all add: gpu_width_def)

lemma gpu_fits:
  assumes "gpu_rows_fit M s"
  shows "int (s * d_model M) < 2 ^ 38" "int (s * d_q M) < 2 ^ 38" "int (s * d_kv M) < 2 ^ 38" "int (s * d_ff M) < 2 ^ 38" "int (s * n_vocab M) < 2 ^ 38"
  using gpu_fit[OF assms] gpu_width_ge[of M] by blast+

lemma gpu_rows_fit_mono: "gpu_rows_fit M s \<Longrightarrow> t \<le> s \<Longrightarrow> gpu_rows_fit M t"
  using mult_le_mono1[of t s "gpu_width M"] unfolding gpu_rows_fit_def by linarith

lemma gpu_dimsD:
  assumes "gpu_dims M" "model_ok M"
  shows "0 < n_layers M" "0 < n_heads M" "2 \<le> d_head M" "0 < d_head M" "d_head M \<le> 256" "0 < d_model M" "0 < d_ff M" "0 < n_vocab M"
    "0 < d_q M" "0 < d_kv M" "0 < n_kv M" "d_model M < 2 ^ 31" "d_q M < 2 ^ 31" "d_kv M < 2 ^ 31" "d_ff M < 2 ^ 31" "n_vocab M < 2 ^ 31"
  using assms config_dims(6,9)[OF assms(2)] gpu_width_ge[of M] by (auto simp: gpu_dims_def d_q_def)

section \<open>Rows\<close>

definition gnorm_row :: "gpu \<Rightarrow> model \<Rightarrow> string \<Rightarrow> f32 list \<Rightarrow> f32 list" where
  "gnorm_row G M name x = gpu_rms_row (g_fpu G) (wt M name) (rms_norm_eps (m_config M)) x"

definition gbias :: "model \<Rightarrow> nat \<Rightarrow> string \<Rightarrow> f32 list option" where
  "gbias M l name = (if attention_qkv_bias (m_config M) then Some (wt M (bias_key l name)) else None)"

definition gproj_row :: "gpu \<Rightarrow> model \<Rightarrow> nat \<Rightarrow> string \<Rightarrow> nat \<Rightarrow> f32 list \<Rightarrow> f32 list" where
  "gproj_row G M l name n x =
     gpu_lin_row G (d_model M) n (wt M (proj_key l name)) (gbias M l name) (gnorm_row G M (layer_key (int l) ''input_layernorm.weight'') x)"

definition gplain_row :: "gpu \<Rightarrow> model \<Rightarrow> string \<Rightarrow> nat \<Rightarrow> nat \<Rightarrow> f32 list \<Rightarrow> f32 list" where
  "gplain_row G M name n i x = gpu_lin_row G i n (wt M name) None x"

definition gmlp_row :: "gpu \<Rightarrow> model \<Rightarrow> nat \<Rightarrow> f32 list \<Rightarrow> f32 list" where
  "gmlp_row G M l x =
     (let n = gnorm_row G M (layer_key (int l) ''post_attention_layernorm.weight'') x;
          gate = gplain_row G M (layer_key (int l) ''mlp.gate_proj.weight'') (d_ff M) (d_model M) n;
          up = gplain_row G M (layer_key (int l) ''mlp.up_proj.weight'') (d_ff M) (d_model M) n
      in gplain_row G M (layer_key (int l) ''mlp.down_proj.weight'') (d_model M) (d_ff M) (map2 (silu (g_fpu G)) gate up))"

definition gpost_row :: "gpu \<Rightarrow> model \<Rightarrow> nat \<Rightarrow> f32 list \<Rightarrow> f32 list \<Rightarrow> f32 list" where
  "gpost_row G M l x a =
     (let y = map2 (f_add (g_fpu G)) x (gplain_row G M (layer_key (int l) ''self_attn.o_proj.weight'') (d_model M) (d_q M) a)
      in map2 (f_add (g_fpu G)) y (gmlp_row G M l y))"

definition gpu_rows :: "gpu \<Rightarrow> model \<Rightarrow> row_ops" where
  "gpu_rows G M = \<lparr>
     ro_q = (\<lambda>l p x. rope_row (g_fpu G) (int (n_heads M)) (int (d_head M)) (rope_theta (m_config M)) p (gproj_row G M l ''q'' (d_q M) x)),
     ro_k = (\<lambda>l p x. rope_row (g_fpu G) (int (n_kv M)) (int (d_head M)) (rope_theta (m_config M)) p (gproj_row G M l ''k'' (d_kv M) x)),
     ro_v = (\<lambda>l. gproj_row G M l ''v'' (d_kv M)),
     ro_attn = gpu_attn_row (g_fpu G) (int (n_heads M)) (int (n_kv M)) (int (d_head M)),
     ro_post = gpost_row G M,
     ro_head = (\<lambda>x. gpu_lin_row G (d_model M) (n_vocab M) (t_data (lm_head_weight M)) None (gnorm_row G M ''model.norm.weight'' x))\<rparr>"

lemma wt_length: "has_mat M name n i \<Longrightarrow> length (wt M name) = n * i" "has_vec M name n \<Longrightarrow> length (wt M name) = n"
  by (simp_all add: has_mat_def has_vec_def mat_def vec_ok_def wt_def)

lemma gnorm_length: "has_vec M name (d_model M) \<Longrightarrow> length x = d_model M \<Longrightarrow> length (gnorm_row G M name x) = d_model M"
  by (simp add: gnorm_row_def gpu_rms_row_def Let_def wt_length)

lemma gbias_sized: "attention_qkv_bias (m_config M) \<longrightarrow> has_vec M (bias_key l name) n \<Longrightarrow> bias_sized n (gbias M l name)"
  by (auto simp: gbias_def bias_sized_def wt_length)

lemma gplain_length: "sgemm_rowwise G \<Longrightarrow> has_proj M name n i \<Longrightarrow> length x = i \<Longrightarrow> length (gplain_row G M name n i x) = n"
  unfolding gplain_row_def by (rule gpu_lin_row_length) (auto simp: has_proj_def wt_length bias_sized_def)

lemma gproj_length:
  assumes "sgemm_rowwise G" "has_vec M (layer_key (int l) ''input_layernorm.weight'') (d_model M)" "has_proj M (proj_key l name) n (d_model M)"
    and "attention_qkv_bias (m_config M) \<longrightarrow> has_vec M (bias_key l name) n" "length x = d_model M"
  shows "length (gproj_row G M l name n x) = n"
  unfolding gproj_row_def
  by (rule gpu_lin_row_length[OF assms(1)]) (use assms gnorm_length gbias_sized in \<open>auto simp: has_proj_def wt_length\<close>)

lemma gpu_attn_row_length:
  assumes "0 < nkv" "nkv dvd nh" "\<forall>v \<in> set vrows. length v = nkv * dh"
  shows "length (gpu_attn_row F (int nh) (int nkv) (int dh) qr krows vrows) = nh * dh"
proof -
  let ?h = "\<lambda>h. gpu_attn_head F (d_div F f64_one (d_sqrt F (d_of_int F (int dh)))) dh (row dh h qr)
    (map (row dh (nat (int h sdiv (int nh sdiv int nkv)))) krows) (map (row dh (nat (int h sdiv (int nh sdiv int nkv)))) vrows)"
  have "length (?h h) = dh" if "h < nh" for h
  proof (rule gpu_attn_head_length)
    have gp: "0 < nh div nkv" using assms(1,2) that by (auto simp: div_greater_zero_iff dvd_imp_le)
    have "nat (int h sdiv (int nh sdiv int nkv)) = h div (nh div nkv)" using int_divmod[OF assms(1)] int_divmod[OF gp] by simp
    moreover have "h div (nh div nkv) < nkv" using that assms(2) by (metis dvd_div_mult_self less_mult_imp_div_less mult.commute)
    ultimately show "\<forall>v \<in> set (map (row dh (nat (int h sdiv (int nh sdiv int nkv)))) vrows). length v = dh"
      using assms(3) by (auto intro!: length_row[of nkv])
  qed
  then have "length (concat (map ?h [0..<nh])) = length (map ?h [0..<nh]) * dh" by (intro length_concat_uniform) auto
  then show ?thesis by (simp add: gpu_attn_row_def Let_def)
qed

lemma map2_length: "length x = n \<Longrightarrow> length y = n \<Longrightarrow> length (map2 f x y) = n"
  by simp

lemma gpost_length:
  assumes "sgemm_rowwise G" "layer_ok M l" "length x = d_model M" "length a = d_q M"
  shows "length (gpost_row G M l x a) = d_model M"
proof -
  have p: "has_proj M (layer_key (int l) ''self_attn.o_proj.weight'') (d_model M) (d_q M)"
    "has_vec M (layer_key (int l) ''post_attention_layernorm.weight'') (d_model M)"
    "has_proj M (layer_key (int l) ''mlp.gate_proj.weight'') (d_ff M) (d_model M)"
    "has_proj M (layer_key (int l) ''mlp.up_proj.weight'') (d_ff M) (d_model M)"
    "has_proj M (layer_key (int l) ''mlp.down_proj.weight'') (d_model M) (d_ff M)" using assms(2) by (simp_all add: layer_ok_def)
  note gp = gplain_length[OF assms(1)]
  show ?thesis
    unfolding gpost_row_def gmlp_row_def Let_def
    by (intro map2_length gp p gnorm_length assms(3,4))
qed

interpretation gr: row_model "\<lambda>GM. gpu_rows (fst GM) (snd GM)" "\<lambda>GM. sgemm_rowwise (fst GM) \<and> model_ok (snd GM)"
  "\<lambda>GM. n_layers (snd GM)" "\<lambda>GM. d_model (snd GM)" "\<lambda>GM. d_q (snd GM)" "\<lambda>GM. d_kv (snd GM)"
proof (unfold_locales, goal_cases)
  case (1 GM l x p)
  then have "layer_ok (snd GM) l" by (simp add: model_ok_def)
  then have "length (gproj_row (fst GM) (snd GM) l ''q'' (d_q (snd GM)) x) = d_q (snd GM)"
    using 1 by (intro gproj_length) (auto simp: layer_ok_def)
  then show ?case using rope_row_length by (simp add: gpu_rows_def d_q_def)
next
  case (2 GM l x p)
  then have "layer_ok (snd GM) l" by (simp add: model_ok_def)
  then have "length (gproj_row (fst GM) (snd GM) l ''k'' (d_kv (snd GM)) x) = d_kv (snd GM)"
    using 2 by (intro gproj_length) (auto simp: layer_ok_def)
  then show ?case using rope_row_length by (simp add: gpu_rows_def d_kv_def)
next
  case (3 GM l x)
  then have "layer_ok (snd GM) l" by (simp add: model_ok_def)
  then show ?case using 3 by (auto simp: gpu_rows_def layer_ok_def intro!: gproj_length)
next
  case (4 GM vss q kss)
  then show ?case using config_dims(6,7)[of "snd GM"] by (auto simp: gpu_rows_def d_q_def d_kv_def intro!: gpu_attn_row_length)
next
  case (5 GM l x a)
  then show ?case using gpost_length[of "fst GM" "snd GM" l x a] by (simp add: gpu_rows_def model_ok_def)
qed

end
