(* ===== verification/Cuda_Layer.thy ===== *)
theory Cuda_Layer
  imports Cuda_Rows
begin

text \<open>
  The kernels of one layer compute the rows of \<open>Cuda_Rows\<close>: from buffers that hold the rows
  of a chunk, \<open>gpu_qkv\<close> fills in the query, key and value rows and \<open>gpu_attn_mlp\<close> the rows
  that leave the layer. The other contents of the buffers do not matter, only their sizes.
\<close>

definition bufs_ok :: "model \<Rightarrow> nat \<Rightarrow> gpu_bufs \<Rightarrow> bool" where
  "bufs_ok M s b \<longleftrightarrow> length (b_x b) = s * d_model M \<and> length (b_normed b) = s * d_model M \<and> length (b_q b) = s * d_q M
     \<and> length (b_k b) = s * d_kv M \<and> length (b_v b) = s * d_kv M \<and> length (b_attn b) = s * d_q M
     \<and> length (b_attn_out b) = s * d_model M \<and> length (b_normed2 b) = s * d_model M \<and> length (b_gate b) = s * d_ff M
     \<and> length (b_up b) = s * d_ff M \<and> length (b_act b) = s * d_ff M \<and> length (b_down b) = s * d_model M"

lemma bufs_okD:
  assumes "bufs_ok M s b"
  shows "length (b_x b) = s * d_model M" "length (b_normed b) = s * d_model M" "length (b_q b) = s * d_q M"
    "length (b_k b) = s * d_kv M" "length (b_v b) = s * d_kv M" "length (b_attn b) = s * d_q M"
    "length (b_attn_out b) = s * d_model M" "length (b_normed2 b) = s * d_model M" "length (b_gate b) = s * d_ff M"
    "length (b_up b) = s * d_ff M" "length (b_act b) = s * d_ff M" "length (b_down b) = s * d_model M"
  using assms by (simp_all add: bufs_ok_def)

text \<open>The pass runs the device model \<open>m\<close> uploaded from \<open>M\<close>, over \<open>s\<close> rows.\<close>

definition gpu_setup :: "gpu \<Rightarrow> model \<Rightarrow> gpu_model \<Rightarrow> nat \<Rightarrow> bool" where
  "gpu_setup G M m s \<longleftrightarrow> schedules G \<and> sgemm_rowwise G \<and> model_ok M \<and> uploaded M m \<and> gpu_dims M \<and> gpu_rows_fit M s"

lemma gpu_setupD:
  assumes "gpu_setup G M m s"
  shows "schedules G" "sgemm_rowwise G" "model_ok M" "uploaded M m" "gpu_dims M" "gpu_rows_fit M s"
  using assms by (simp_all add: gpu_setup_def)

lemma gm_dims:
  assumes "model_ok M" "uploaded M m"
  shows "num_attention_heads (gm_config m) = int (n_heads M)" "num_key_value_heads (gm_config m) = int (n_kv M)"
    "head_dim (gm_config m) = int (d_head M)" "hidden_size (gm_config m) = int (d_model M)"
    "intermediate_size (gm_config m) = int (d_ff M)" "vocab_size (gm_config m) = int (n_vocab M)"
    "num_hidden_layers (gm_config m) = int (n_layers M)" "gm_nq m = int (d_q M)" "gm_nkv m = int (d_kv M)"
    "rms_norm_eps (gm_config m) = rms_norm_eps (m_config M)" "rope_theta (gm_config m) = rope_theta (m_config M)"
proof -
  have c: "gm_config m = m_config M" using assms(2) by (simp add: uploaded_def)
  note C = config_dims[OF assms(1)]
  have "config_ok (m_config M)" using assms(1) by (simp add: model_ok_def)
  then show "intermediate_size (gm_config m) = int (d_ff M)" by (simp add: c d_ff_def config_ok_def)
  show "num_attention_heads (gm_config m) = int (n_heads M)" "num_key_value_heads (gm_config m) = int (n_kv M)"
    "head_dim (gm_config m) = int (d_head M)" "hidden_size (gm_config m) = int (d_model M)" "vocab_size (gm_config m) = int (n_vocab M)"
    "num_hidden_layers (gm_config m) = int (n_layers M)" "gm_nq m = int (d_q M)" "gm_nkv m = int (d_kv M)"
    "rms_norm_eps (gm_config m) = rms_norm_eps (m_config M)" "rope_theta (gm_config m) = rope_theta (m_config M)"
    using C by (simp_all add: c gm_nq_def gm_nkv_def d_q_def d_kv_def)
qed

section \<open>Kernels on rows\<close>

lemma k_rms_rows:
  assumes S: "gpu_setup G M m s" and n: "has_vec M name (d_model M)" and x: "rect s (d_model M) xss" and out: "length out = s * d_model M"
  shows "k_rms_norm G (concat xss) (wt M name) out (int s) (int (d_model M)) (rms_norm_eps (m_config M)) = Inr (concat (map (gnorm_row G M name) xss))"
    and "rect s (d_model M) (map (gnorm_row G M name) xss)"
proof -
  note S' = gpu_setupD[OF S]
  have r: "rows (d_model M) s (concat xss) = xss" using rect_rows[OF x] by simp
  have "gnorm_row G M name = gpu_rms_row (g_fpu G) (wt M name) (rms_norm_eps (m_config M))" by (simp add: gnorm_row_def fun_eq_iff)
  then show "k_rms_norm G (concat xss) (wt M name) out (int s) (int (d_model M)) (rms_norm_eps (m_config M)) = Inr (concat (map (gnorm_row G M name) xss))"
    using k_rms_norm_ok[OF S'(1) rect_data_length[OF x] wt_length(2)[OF n] gpu_dimsD(6)[OF S'(5,3)] out] S'(6) r
    by (simp add: gpu_rows_fit_def)
  show "rect s (d_model M) (map (gnorm_row G M name) xss)" by (rule rect_map[OF x]) (rule gnorm_length[OF n])
qed

lemma gpu_linear_rows:
  assumes S: "gpu_setup G M m s" and nm: "(name, req) \<in> set (gm_names (m_config M))" and p: "has_proj M name n i"
    and x: "rect s i xss" and b: "bias_sized n b" and y: "length y = s * n"
    and i: "0 < i" "i \<le> gpu_width M" and n: "0 < n" "n \<le> gpu_width M"
  shows "gpu_linear G m (concat xss) name b y (int s) (int i) (int n) = Inr (concat (map (gpu_lin_row G i n (wt M name) b) xss))"
    and "rect s n (map (gpu_lin_row G i n (wt M name) b) xss)"
proof -
  note S' = gpu_setupD[OF S]
  have w: "map_of (m_weights M) name \<noteq> None" "length (wt M name) = n * i" using p by (auto simp: has_proj_def has_mat_def wt_length)
  have W: "gpu_width M < 2 ^ 31" using S'(5) by (simp add: gpu_dims_def)
  have r: "rows i s (concat xss) = xss" using rect_rows[OF x] by simp
  have "k_linear G (concat xss) (wt M name) b y (int s) (int i) (int n) = Inr (concat (map (gpu_lin_row G i n (wt M name) b) xss))"
    using k_linear_ok[OF S'(1,2) i(1) n(1) rect_data_length[OF x] w(2) y b gpu_fit[OF S'(6) n(2)]] S'(6) i(2) n(2) W r
    by (simp add: gpu_rows_fit_def)
  then show "gpu_linear G m (concat xss) name b y (int s) (int i) (int n) = Inr (concat (map (gpu_lin_row G i n (wt M name) b) xss))"
    by (simp add: gpu_linear_def uploaded_weight[OF S'(4) nm w(1)])
  show "rect s n (map (gpu_lin_row G i n (wt M name) b) xss)"
    by (rule rect_map[OF x]) (rule gpu_lin_row_length[OF S'(2) _ w(2) b])
qed

lemma gm_bias_ok:
  assumes "uploaded M m" "(bias_key l name, attention_qkv_bias (m_config M)) \<in> set (gm_names (m_config M))"
    and "attention_qkv_bias (m_config M) \<longrightarrow> has_vec M (bias_key l name) n" "0 < n"
  shows "gm_bias m (bias_key l name) = Inr (gbias M l name)"
proof (cases "attention_qkv_bias (m_config M)")
  case True
  then have v: "has_vec M (bias_key l name) n" using assms(3) by simp
  then have "gm_weight m (bias_key l name) = Inr (wt M (bias_key l name))"
    using uploaded_weight[OF assms(1,2)] by (simp add: has_vec_def)
  moreover have "wt M (bias_key l name) \<noteq> []" using wt_length(2)[OF v] assms(4) by auto
  ultimately show ?thesis using True assms(1) by (simp add: gm_bias_def gbias_def uploaded_def)
qed (use assms(1) in \<open>simp add: gm_bias_def gbias_def uploaded_def\<close>)

lemma k_rope_rows:
  assumes S: "gpu_setup G M m s" and nh: "0 < nh" "nh * d_head M \<le> gpu_width M" and x: "rect s (nh * d_head M) xss" and ps: "length ps = s"
  shows "k_rope G (concat xss) (int s) (int nh) (int (d_head M)) theta ps
      = Inr (concat (map2 (rope_row (g_fpu G) (int nh) (int (d_head M)) theta) ps xss))"
proof -
  note S' = gpu_setupD[OF S]
  have "rows (nh * d_head M) s (concat xss) = xss" using rect_rows[OF x] by simp
  then show ?thesis
    using k_rope_ok[OF S'(1) nh(1) gpu_dimsD(3)[OF S'(5,3)] rect_data_length[OF x] ps gpu_fit[OF S'(6) nh(2)]] by simp
qed

section \<open>Query, key and value rows\<close>

lemma gpu_qkv_ok:
  assumes S: "gpu_setup G M m s" and l: "l < n_layers M" and b: "bufs_ok M s b" and x: "rect s (d_model M) xss" "b_x b = concat xss"
    and ps: "length ps = s"
  shows "\<exists>nb. length nb = s * d_model M \<and> gpu_qkv G m (int s) ps l b = Inr (b\<lparr>b_normed := nb,
      b_q := concat (map2 (ro_q (gpu_rows G M) l) ps xss), b_k := concat (map2 (ro_k (gpu_rows G M) l) ps xss),
      b_v := concat (map (ro_v (gpu_rows G M) l) xss)\<rparr>)"
proof -
  note S' = gpu_setupD[OF S]
  note D = gm_dims[OF S'(3,4)] and P = gpu_dimsD[OF S'(5,3)] and W = gpu_width_ge[of M] and B = bufs_okD[OF b]
  have L: "layer_ok M l" using S'(3) l by (simp add: model_ok_def)
  note N = layer_names[OF l]
  let ?in = "layer_key (int l) ''input_layernorm.weight''"
  have v: "has_vec M ?in (d_model M)" using L by (simp add: layer_ok_def)
  have w: "gm_weight m ?in = Inr (wt M ?in)" by (rule uploaded_weight[OF S'(4) N(1)]) (use v in \<open>simp add: has_vec_def\<close>)
  note R = k_rms_rows[OF S v x(1) B(2)]
  let ?ns = "map (gnorm_row G M ?in) xss"
  have pj: "has_proj M (proj_key l ''q'') (d_q M) (d_model M)" "has_proj M (proj_key l ''k'') (d_kv M) (d_model M)" "has_proj M (proj_key l ''v'') (d_kv M) (d_model M)"
    and bs: "attention_qkv_bias (m_config M) \<longrightarrow> has_vec M (bias_key l ''q'') (d_q M)" "attention_qkv_bias (m_config M) \<longrightarrow> has_vec M (bias_key l ''k'') (d_kv M)"
      "attention_qkv_bias (m_config M) \<longrightarrow> has_vec M (bias_key l ''v'') (d_kv M)"
    using L by (auto simp: layer_ok_def)
  note bq = gm_bias_ok[OF S'(4) N(7)[unfolded layer_key_keys] bs(1) P(9)] and bk = gm_bias_ok[OF S'(4) N(8)[unfolded layer_key_keys] bs(2) P(10)]
    and bv = gm_bias_ok[OF S'(4) N(9)[unfolded layer_key_keys] bs(3) P(10)]
  have eq: "map (gpu_lin_row G (d_model M) n (wt M (proj_key l name)) (gbias M l name)) ?ns = map (gproj_row G M l name n) xss" for name n
    by (simp add: gproj_row_def comp_def)
  note q = gpu_linear_rows[OF S N(3)[unfolded layer_key_keys] pj(1) R(2) gbias_sized[OF bs(1)] B(3) P(6) W(1) P(9) W(2), unfolded eq]
    and k = gpu_linear_rows[OF S N(4)[unfolded layer_key_keys] pj(2) R(2) gbias_sized[OF bs(2)] B(4) P(6) W(1) P(10) W(3), unfolded eq]
    and v = gpu_linear_rows[OF S N(5)[unfolded layer_key_keys] pj(3) R(2) gbias_sized[OF bs(3)] B(5) P(6) W(1) P(10) W(3), unfolded eq]
  note rq = k_rope_rows[OF S P(2) W(2)[unfolded d_q_def] q(2)[unfolded d_q_def] ps] and rk = k_rope_rows[OF S P(11) W(3)[unfolded d_kv_def] k(2)[unfolded d_kv_def] ps]
  have fq: "map2 (rope_row (g_fpu G) (int (n_heads M)) (int (d_head M)) (rope_theta (m_config M))) ps (map (gproj_row G M l ''q'' (d_q M)) xss)
      = map2 (ro_q (gpu_rows G M) l) ps xss" by (simp add: map2_map_right gpu_rows_def)
  have fk: "map2 (rope_row (g_fpu G) (int (n_kv M)) (int (d_head M)) (rope_theta (m_config M))) ps (map (gproj_row G M l ''k'' (d_kv M)) xss)
      = map2 (ro_k (gpu_rows G M) l) ps xss" by (simp add: map2_map_right gpu_rows_def)
  have fv: "map (gproj_row G M l ''v'' (d_kv M)) xss = map (ro_v (gpu_rows G M) l) xss" by (simp add: gpu_rows_def)
  show ?thesis
    unfolding gpu_qkv_def Let_def layer_key_keys w res_bind_Inr D x(2) R(1) bq bk bv q(1) k(1) v(1)
    unfolding rq[unfolded d_q_def[symmetric]] rk[unfolded d_kv_def[symmetric]] fq fk fv res_bind_Inr
    using rect_data_length[OF R(2)] by blast
qed

lemma bufs_ok_mlp:
  "bufs_ok M s b \<Longrightarrow> length x = s * d_model M \<Longrightarrow> length out = s * d_model M \<Longrightarrow> length n2 = s * d_model M \<Longrightarrow> length g = s * d_ff M \<Longrightarrow>
   length u = s * d_ff M \<Longrightarrow> length a = s * d_ff M \<Longrightarrow> length d = s * d_model M \<Longrightarrow>
   bufs_ok M s (b\<lparr>b_x := x, b_attn_out := out, b_normed2 := n2, b_gate := g, b_up := u, b_act := a, b_down := d\<rparr>)"
  by (simp add: bufs_ok_def)

lemma bufs_ok_qkv:
  "bufs_ok M s b \<Longrightarrow> length n = s * d_model M \<Longrightarrow> length q = s * d_q M \<Longrightarrow> length k = s * d_kv M \<Longrightarrow> length v = s * d_kv M \<Longrightarrow>
   bufs_ok M s (b\<lparr>b_normed := n, b_q := q, b_k := k, b_v := v\<rparr>)"
  by (simp add: bufs_ok_def)

lemma bufs_ok_attn: "bufs_ok M s b \<Longrightarrow> length a = s * d_q M \<Longrightarrow> bufs_ok M s (b\<lparr>b_attn := a\<rparr>)"
  by (simp add: bufs_ok_def)

section \<open>From the attention to the end of the layer\<close>

lemma gpu_attn_mlp_ok:
  assumes S: "gpu_setup G M m s" and l: "l < n_layers M" and b: "bufs_ok M s b" and x: "rect s (d_model M) xss" "b_x b = concat xss"
    and a: "rect s (d_q M) ass" "b_attn b = concat ass"
  shows "\<exists>b'. gpu_attn_mlp G m (int s) l b = Inr b' \<and> bufs_ok M s b' \<and> b_x b' = concat (map2 (ro_post (gpu_rows G M) l) xss ass)
    \<and> rect s (d_model M) (map2 (ro_post (gpu_rows G M) l) xss ass)"
proof -
  note S' = gpu_setupD[OF S]
  note D = gm_dims[OF S'(3,4)] and P = gpu_dimsD[OF S'(5,3)] and W = gpu_width_ge[of M] and B = bufs_okD[OF b]
  have L: "layer_ok M l" using S'(3) l by (simp add: model_ok_def)
  note N = layer_names[OF l]
  let ?F = "g_fpu G" and ?post = "layer_key (int l) ''post_attention_layernorm.weight''" and ?o = "layer_key (int l) ''self_attn.o_proj.weight''"
    and ?g = "layer_key (int l) ''mlp.gate_proj.weight''" and ?u = "layer_key (int l) ''mlp.up_proj.weight''" and ?d = "layer_key (int l) ''mlp.down_proj.weight''"
  have pr: "has_proj M ?o (d_model M) (d_q M)" "has_vec M ?post (d_model M)" "has_proj M ?g (d_ff M) (d_model M)" "has_proj M ?u (d_ff M) (d_model M)"
    "has_proj M ?d (d_model M) (d_ff M)" using L by (simp_all add: layer_ok_def)
  have plain: "gpu_lin_row G i n (wt M name) None = gplain_row G M name n i" for name n i by (simp add: gplain_row_def fun_eq_iff)
  note none = bias_sized_def[of _ None, simplified]
  note o = gpu_linear_rows[OF S N(6) pr(1) a(1) none B(7) P(9) W(2) P(6) W(1), unfolded plain]
  let ?os = "map (gplain_row G M ?o (d_model M) (d_q M)) ass"
  let ?ys = "map2 (map2 (f_add ?F)) xss ?os"
  have y: "rect s (d_model M) ?ys" by (rule rect_map2[OF x(1) o(2)]) simp
  have cat: "map2 f (concat us) (concat vs) = concat (map2 (map2 f) us vs)" if "rect s c us" "rect s c vs" for f :: "f32 \<Rightarrow> f32 \<Rightarrow> f32" and us vs c
    using that by (intro map2_concat) (auto simp: rect_def)
  have a1: "k_add_inplace G (concat xss) (concat ?os) (int s * int (d_model M)) = Inr (concat ?ys)"
    using k_add_inplace_ok[OF S'(1) rect_data_length[OF x(1)] rect_data_length[OF o(2)] gpu_fits(1)[OF S'(6)]] cat[OF x(1) o(2), of "f_add ?F"] by simp
  have w: "gm_weight m ?post = Inr (wt M ?post)" by (rule uploaded_weight[OF S'(4) N(2)]) (use pr(2) in \<open>simp add: has_vec_def\<close>)
  note R = k_rms_rows[OF S pr(2) y B(8)]
  let ?ns = "map (gnorm_row G M ?post) ?ys"
  note g = gpu_linear_rows[OF S N(10) pr(3) R(2) none B(9) P(6) W(1) P(7) W(4), unfolded plain]
    and u = gpu_linear_rows[OF S N(11) pr(4) R(2) none B(10) P(6) W(1) P(7) W(4), unfolded plain]
  let ?gs = "map (gplain_row G M ?g (d_ff M) (d_model M)) ?ns" and ?us = "map (gplain_row G M ?u (d_ff M) (d_model M)) ?ns"
  let ?as = "map2 (map2 (silu ?F)) ?gs ?us"
  have s: "k_silu_mul G (concat ?gs) (concat ?us) (b_act b) (int s * int (d_ff M)) = Inr (concat ?as)"
    using k_silu_mul_ok[OF S'(1) rect_data_length[OF g(2)] rect_data_length[OF u(2)] B(11) gpu_fits(4)[OF S'(6)]] cat[OF g(2) u(2), of "silu ?F"] by simp
  have as: "rect s (d_ff M) ?as" by (rule rect_map2[OF g(2) u(2)]) simp
  note d = gpu_linear_rows[OF S N(12) pr(5) as none B(12) P(7) W(4) P(6) W(1), unfolded plain]
  let ?ds = "map (gplain_row G M ?d (d_model M) (d_ff M)) ?as"
  let ?zs = "map2 (map2 (f_add ?F)) ?ys ?ds"
  have z: "rect s (d_model M) ?zs" by (rule rect_map2[OF y d(2)]) simp
  have a2: "k_add_inplace G (concat ?ys) (concat ?ds) (int s * int (d_model M)) = Inr (concat ?zs)"
    using k_add_inplace_ok[OF S'(1) rect_data_length[OF y] rect_data_length[OF d(2)] gpu_fits(1)[OF S'(6)]] cat[OF y d(2), of "f_add ?F"] by simp
  have eq: "?zs = map2 (ro_post (gpu_rows G M) l) xss ass"
  proof -
    have "?ds = map (gmlp_row G M l) ?ys" by (simp add: gmlp_row_def Let_def map2_same comp_def)
    then have "?zs = map (\<lambda>y. map2 (f_add ?F) y (gmlp_row G M l y)) ?ys" by (simp only: map2_map_same)
    also have "\<dots> = map2 (gpost_row G M l) xss ass"
      unfolding gpost_row_def Let_def map2_map_right by (simp add: case_prod_unfold)
    finally show ?thesis by (simp add: gpu_rows_def)
  qed
  let ?b = "b\<lparr>b_x := concat ?zs, b_attn_out := concat ?os, b_normed2 := concat ?ns, b_gate := concat ?gs, b_up := concat ?us, b_act := concat ?as, b_down := concat ?ds\<rparr>"
  have run: "gpu_attn_mlp G m (int s) l b = Inr ?b"
    unfolding gpu_attn_mlp_def Let_def D x(2) a(2) o(1) res_bind_Inr a1 w R(1) g(1) u(1) s d(1) a2 ..
  have "bufs_ok M s ?b"
    by (rule bufs_ok_mlp[OF b rect_data_length[OF z] rect_data_length[OF o(2)] rect_data_length[OF R(2)] rect_data_length[OF g(2)]
        rect_data_length[OF u(2)] rect_data_length[OF as] rect_data_length[OF d(2)]])
  then show ?thesis using run z unfolding eq[symmetric] by (intro exI[of _ ?b]) simp
qed

end
