(* ===== verification/Cuda_Forward.thy ===== *)
theory Cuda_Forward
  imports Cuda_Layer
begin

text \<open>
  The forward of one sequence on the device. Over any device cache with room it computes
  \<open>gpu_forward_rows\<close>, the device's rows of the whole context, whatever the junk in the
  fresh buffers and the order of the threads; so chunks, single tokens and the full forward
  agree, and \<open>generate\<close> is plain greedy decoding with the full forward.
\<close>

section \<open>Specification\<close>

definition gpu_forward_rows :: "gpu \<Rightarrow> model \<Rightarrow> nat \<Rightarrow> int list \<Rightarrow> (nat \<Rightarrow> hist) \<Rightarrow> f32 list list \<times> (nat \<Rightarrow> hist)" where
  "gpu_forward_rows G M past ids H =
     (let (xss, H') = row_stack (gpu_rows G M) (n_layers M) past (embed_rows M ids) H in (map (ro_head (gpu_rows G M)) xss, H'))"

lemma gpu_forward_rows_append:
  assumes "\<forall>l < n_layers M. length (fst (H l)) = past \<and> length (snd (H l)) = past"
  shows "gpu_forward_rows G M past (ids @ ids') H =
    (fst (gpu_forward_rows G M past ids H) @ fst (gpu_forward_rows G M (past + length ids) ids' (snd (gpu_forward_rows G M past ids H))),
     snd (gpu_forward_rows G M (past + length ids) ids' (snd (gpu_forward_rows G M past ids H))))"
  using row_stack_append[OF assms, of "gpu_rows G M" "embed_rows M ids" "embed_rows M ids'"]
  by (simp add: gpu_forward_rows_def embed_rows_def case_prod_unfold Let_def)

lemma gpu_forward_rows_length [simp]: "length (fst (gpu_forward_rows G M past ids H)) = length ids"
  by (simp add: gpu_forward_rows_def case_prod_unfold Let_def embed_rows_def)

lemma gpu_forward_rows_cong:
  assumes "\<forall>l < n_layers M. H l = H' l"
  shows "fst (gpu_forward_rows G M past ids H) = fst (gpu_forward_rows G M past ids H')"
    "\<forall>l < n_layers M. snd (gpu_forward_rows G M past ids H) l = snd (gpu_forward_rows G M past ids H') l"
  using row_stack_cong[OF assms, of "gpu_rows G M" past "embed_rows M ids"] by (simp_all add: gpu_forward_rows_def case_prod_unfold Let_def)

lemma gpu_forward_rows_hist:
  "l < n_layers M \<Longrightarrow> length (fst (snd (gpu_forward_rows G M past ids H) l)) = length (fst (H l)) + length ids
    \<and> length (snd (snd (gpu_forward_rows G M past ids H) l)) = length (snd (H l)) + length ids"
  using row_stack_hist_length[of l "n_layers M" "gpu_rows G M" past "embed_rows M ids" H]
  by (simp add: gpu_forward_rows_def case_prod_unfold Let_def embed_rows_def)

section \<open>Attention\<close>

lemma take_rows: "k \<le> n \<Longrightarrow> take k (rows w n xs) = rows w k xs"
  by (simp add: rows_def take_map)

lemma gpu_attention_ok:
  assumes S: "gpu_setup G M m n" and s: "0 < s" "s \<le> n" and q: "s * d_q M \<le> length q"
    and k: "(past + s) * d_kv M \<le> length kp" and v: "(past + s) * d_kv M \<le> length vp" and a: "s * d_q M \<le> length attn"
  shows "gpu_attention G m q kp vp attn (int s) (int past)
    = Inr (concat (row_attn (gpu_rows G M) past (rows (d_q M) s q) (rows (d_kv M) (past + s) kp) (rows (d_kv M) (past + s) vp)) @ drop (s * d_q M) attn)"
proof -
  note S' = gpu_setupD[OF S]
  note D = gm_dims[OF S'(3,4)] and P = gpu_dimsD[OF S'(5,3)]
  have dv: "n_kv M dvd n_heads M" using config_dims(7)[OF S'(3)] .
  have small: "int (s * d_q M) < 2 ^ 38" by (rule gpu_fits(2)[OF gpu_rows_fit_mono[OF S'(6) s(2)]])
  note A = k_attention_ok[OF S'(1) P(2) P(11) dv P(4,5) s(1) q[unfolded d_q_def] k[unfolded d_kv_def] v[unfolded d_kv_def] a[unfolded d_q_def] small[unfolded d_q_def],
    folded d_q_def d_kv_def]
  have "map (\<lambda>i. gpu_attn_row (g_fpu G) (int (n_heads M)) (int (n_kv M)) (int (d_head M)) (row (d_q M) i q)
      (rows (d_kv M) (past + i + 1) kp) (rows (d_kv M) (past + i + 1) vp)) [0..<s]
    = row_attn (gpu_rows G M) past (rows (d_q M) s q) (rows (d_kv M) (past + s) kp) (rows (d_kv M) (past + s) vp)"
    unfolding row_attn_def by (auto simp: gpu_rows_def take_rows simp del: upt_Suc)
  then show ?thesis unfolding gpu_attention_def Let_def D using A by (simp add: of_nat_add)
qed

section \<open>One sequence\<close>

text \<open>The cache holds the keys and values \<open>H\<close> of \<open>past\<close> positions and has room for \<open>cap\<close>.\<close>

definition gpu_kv_at :: "model \<Rightarrow> nat \<Rightarrow> nat \<Rightarrow> (nat \<Rightarrow> hist) \<Rightarrow> gpu_kv \<Rightarrow> bool" where
  "gpu_kv_at M cap past H c \<longleftrightarrow> gk_shape (n_layers M) (d_kv M) cap c \<and> gk_length c = int past
     \<and> (\<forall>l < n_layers M. gk_view (d_kv M) c l past = H l)"

lemma gpu_cached_layer_ok:
  assumes S: "gpu_setup G M m s" and l: "l < n_layers M" and s: "0 < s" and b: "bufs_ok M s b" and x: "rect s (d_model M) xss" "b_x b = concat xss"
    and c: "gk_shape (n_layers M) (d_kv M) cap c" "gk_length c = int past" "gk_view (d_kv M) c l past = h" and room: "past + s \<le> cap"
  shows "\<exists>b' c'. gpu_cached_layer G m (int s) (int past) (chunk_positions past s) l (b, c) = Inr (b', c')
    \<and> bufs_ok M s b' \<and> b_x b' = concat (fst (row_layer (gpu_rows G M) l past xss h)) \<and> rect s (d_model M) (fst (row_layer (gpu_rows G M) l past xss h))
    \<and> gk_shape (n_layers M) (d_kv M) cap c' \<and> gk_length c' = int past
    \<and> gk_view (d_kv M) c' l (past + s) = snd (row_layer (gpu_rows G M) l past xss h)
    \<and> (\<forall>l' k. l' \<noteq> l \<longrightarrow> gk_view (d_kv M) c' l' k = gk_view (d_kv M) c l' k)"
proof -
  note S' = gpu_setupD[OF S]
  have ok: "sgemm_rowwise (fst (G, M)) \<and> model_ok (snd (G, M))" using S' by simp
  have xl: "length xss = s" using x(1) by (simp add: rect_def)
  let ?R = "gpu_rows G M" and ?ps = "chunk_positions past s"
  let ?qs = "map2 (ro_q ?R l) ?ps xss" and ?ks = "map2 (ro_k ?R l) ?ps xss" and ?vs = "map (ro_v ?R l) xss"
  note Q = gr.qkv_rect[OF ok, simplified fst_conv snd_conv, OF l x(1), of ?ps, simplified]
  from gpu_qkv_ok[OF S l b x, of ?ps] obtain nb where nb: "length nb = s * d_model M"
    "gpu_qkv G m (int s) ?ps l b = Inr (b\<lparr>b_normed := nb, b_q := concat ?qs, b_k := concat ?ks, b_v := concat ?vs\<rparr>)" by auto
  let ?b1 = "b\<lparr>b_normed := nb, b_q := concat ?qs, b_k := concat ?ks, b_v := concat ?vs\<rparr>"
  note LQ = rect_data_length[OF Q(1)] and LK = rect_data_length[OF Q(2)] and LV = rect_data_length[OF Q(3)]
  have b1: "bufs_ok M s ?b1" by (rule bufs_ok_qkv[OF b nb(1) LQ LK LV])
  from gpu_kv_append_ok[OF c(1) l c(2) room s, of "concat ?ks" "concat ?vs"] LK LV obtain c1 where
    c1: "gpu_kv_append (int l) (concat ?ks) (concat ?vs) (int s) c = Inr c1" "gk_shape (n_layers M) (d_kv M) cap c1" "gk_length c1 = int past"
    "gk_view (d_kv M) c1 l (past + s) = (fst h @ rows (d_kv M) s (concat ?ks), snd h @ rows (d_kv M) s (concat ?vs))"
    "\<forall>l' k. (l' \<noteq> l \<or> k \<le> past) \<longrightarrow> gk_view (d_kv M) c1 l' k = gk_view (d_kv M) c l' k" using c(3) by auto
  note D1 = gk_shapeD[OF c1(2)]
  have r: "rows (d_kv M) s (concat ?ks) = ?ks" "rows (d_kv M) s (concat ?vs) = ?vs" "rows (d_q M) s (concat ?qs) = ?qs"
    using rect_rows[OF Q(2)] rect_rows[OF Q(3)] rect_rows[OF Q(1)] by simp_all
  have view: "rows (d_kv M) (past + s) (gk_keys c1 ! l) = fst h @ ?ks" "rows (d_kv M) (past + s) (gk_values c1 ! l) = snd h @ ?vs"
    using c1(4) r by (simp_all add: gk_view_def)
  have kp: "gpu_kv_key_ptr (int l) c1 = Inr (gk_keys c1 ! l)" "gpu_kv_value_ptr (int l) c1 = Inr (gk_values c1 ! l)"
    using D1(4,5) l by (simp_all add: gpu_kv_key_ptr_def gpu_kv_value_ptr_def vec_get_nat)
  have cap: "(past + s) * d_kv M \<le> cap * d_kv M" using room by (rule mult_le_mono1)
  let ?A = "row_attn ?R past ?qs (fst h @ ?ks) (snd h @ ?vs)"
  have at: "gpu_attention G m (concat ?qs) (gk_keys c1 ! l) (gk_values c1 ! l) (b_attn b) (int s) (int past) = Inr (concat ?A)"
    using gpu_attention_ok[OF S s order_refl, of "concat ?qs" past "gk_keys c1 ! l" "gk_values c1 ! l" "b_attn b"] LQ cap D1(6,7)[OF l] bufs_okD(6)[OF b]
    unfolding view r by simp
  have hv: "length (snd h @ ?vs) = past + s" "\<forall>v \<in> set (snd h). length v = d_kv M"
  proof -
    have "snd h = rows (d_kv M) past (gk_values c ! l)" using c(3) by (auto simp: gk_view_def)
    moreover have "past * d_kv M \<le> length (gk_values c ! l)" using gk_shapeD(7)[OF c(1) l] cap mult_le_mono1[of past "past + s" "d_kv M"] by linarith
    ultimately show "length (snd h @ ?vs) = past + s" "\<forall>v \<in> set (snd h). length v = d_kv M"
      using rows_mem_length[of past "d_kv M" "gk_values c ! l"] xl by auto
  qed
  have rv: "rect (past + s) (d_kv M) (snd h @ ?vs)" using hv Q(3) by (auto simp: rect_def)
  have ra: "rect s (d_q M) ?A" using gr.attn_rect[OF ok, simplified fst_conv snd_conv, OF Q(1) rv] by simp
  let ?b2 = "?b1\<lparr>b_attn := concat ?A\<rparr>"
  have b2: "bufs_ok M s ?b2" by (rule bufs_ok_attn[OF b1 rect_data_length[OF ra]])
  have x2: "b_x ?b2 = concat xss" using x(2) by simp
  have a2: "b_attn ?b2 = concat ?A" by simp
  from gpu_attn_mlp_ok[OF S l b2 x(1) x2 ra a2] obtain b' where b': "gpu_attn_mlp G m (int s) l ?b2 = Inr b'" "bufs_ok M s b'"
    "b_x b' = concat (map2 (ro_post ?R l) xss ?A)" "rect s (d_model M) (map2 (ro_post ?R l) xss ?A)" by blast
  have sp: "row_layer ?R l past xss h = (map2 (ro_post ?R l) xss ?A, (fst h @ ?ks, snd h @ ?vs))" unfolding row_layer_def Let_def xl ..
  have "gpu_cached_layer G m (int s) (int past) ?ps l (b, c) = Inr (b', c1)"
    unfolding gpu_cached_layer_def prod.case nb(2) res_bind_Inr using c1(1) kp at b'(1) by simp
  then show ?thesis using b'(2-4) c1(2-5) r unfolding sp fst_conv snd_conv by (intro exI[of _ b'] exI[of _ c1]) auto
qed

lemma gpu_cached_layers_ok:
  assumes S: "gpu_setup G M m s" and s: "0 < s" and b: "bufs_ok M s b" and x: "rect s (d_model M) xss" "b_x b = concat xss"
    and c: "gpu_kv_at M cap past H c" and room: "past + s \<le> cap"
  shows "L \<le> n_layers M \<Longrightarrow> \<exists>b' c'. res_fold (gpu_cached_layer G m (int s) (int past) (chunk_positions past s)) [0..<L] (b, c) = Inr (b', c')
    \<and> bufs_ok M s b' \<and> b_x b' = concat (fst (row_stack (gpu_rows G M) L past xss H)) \<and> rect s (d_model M) (fst (row_stack (gpu_rows G M) L past xss H))
    \<and> gk_shape (n_layers M) (d_kv M) cap c' \<and> gk_length c' = int past
    \<and> (\<forall>l < L. gk_view (d_kv M) c' l (past + s) = snd (row_stack (gpu_rows G M) L past xss H) l)
    \<and> (\<forall>l k. L \<le> l \<longrightarrow> gk_view (d_kv M) c' l k = gk_view (d_kv M) c l k)"
proof (induction L)
  case 0
  then show ?case using b x c by (auto simp: gpu_kv_at_def)
next
  case (Suc L)
  let ?st = "row_stack (gpu_rows G M) L past xss H"
  from Suc obtain b1 c1 where 1: "res_fold (gpu_cached_layer G m (int s) (int past) (chunk_positions past s)) [0..<L] (b, c) = Inr (b1, c1)"
    "bufs_ok M s b1" "b_x b1 = concat (fst ?st)" "rect s (d_model M) (fst ?st)" "gk_shape (n_layers M) (d_kv M) cap c1" "gk_length c1 = int past"
    "\<forall>l < L. gk_view (d_kv M) c1 l (past + s) = snd ?st l" "\<forall>l k. L \<le> l \<longrightarrow> gk_view (d_kv M) c1 l k = gk_view (d_kv M) c l k" by auto
  have L: "L < n_layers M" using Suc.prems by simp
  have "gk_view (d_kv M) c1 L past = snd ?st L" using 1(8) c L by (simp add: gpu_kv_at_def row_stack_other)
  from gpu_cached_layer_ok[OF S L s 1(2) 1(4,3) 1(5,6) this room] obtain b' c' where
    2: "gpu_cached_layer G m (int s) (int past) (chunk_positions past s) L (b1, c1) = Inr (b', c')" "bufs_ok M s b'"
    "b_x b' = concat (fst (row_layer (gpu_rows G M) L past (fst ?st) (snd ?st L)))"
    "rect s (d_model M) (fst (row_layer (gpu_rows G M) L past (fst ?st) (snd ?st L)))"
    "gk_shape (n_layers M) (d_kv M) cap c'" "gk_length c' = int past"
    "gk_view (d_kv M) c' L (past + s) = snd (row_layer (gpu_rows G M) L past (fst ?st) (snd ?st L))"
    "\<forall>l' k. l' \<noteq> L \<longrightarrow> gk_view (d_kv M) c' l' k = gk_view (d_kv M) c1 l' k" by blast
  have st: "row_stack (gpu_rows G M) (Suc L) past xss H = (fst (row_layer (gpu_rows G M) L past (fst ?st) (snd ?st L)),
      (snd ?st)(L := snd (row_layer (gpu_rows G M) L past (fst ?st) (snd ?st L))))"
    by (simp add: case_prod_unfold Let_def)
  show ?case
    unfolding st fst_conv snd_conv using 1 2 by (intro exI[of _ b'] exI[of _ c']) (auto simp: res_fold_append less_Suc_eq)
qed

lemma fresh_bufs_ok: "model_ok M \<Longrightarrow> uploaded M m \<Longrightarrow> bufs_ok M s (fresh_bufs G m (int s))"
  using gm_dims[of M m] by (simp add: bufs_ok_def fresh_bufs_def device_array_def Let_def flip: of_nat_mult)

lemma gpu_embed_ok:
  assumes S: "gpu_setup G M m (length ids)" and ids: "ids_ok M ids" and out: "length out = length ids * d_model M"
  shows "gm_weight m ''model.embed_tokens.weight'' = Inr (t_data (embed_weight M))"
    "k_embedding G (t_data (embed_weight M)) ids out (int (length ids)) (int (d_model M)) = Inr (concat (embed_rows M ids))"
proof -
  note S' = gpu_setupD[OF S]
  have e: "has_mat M ''model.embed_tokens.weight'' (n_vocab M) (d_model M)" using S'(3) by (simp add: model_ok_def)
  have "gm_weight m ''model.embed_tokens.weight'' = Inr (wt M ''model.embed_tokens.weight'')"
    by (rule uploaded_weight[OF S'(4), of _ True]) (use e in \<open>auto simp: has_mat_def gm_names_def\<close>)
  then show "gm_weight m ''model.embed_tokens.weight'' = Inr (t_data (embed_weight M))" by (simp add: wt_def embed_weight_def)
  have "length (t_data (embed_weight M)) = n_vocab M * d_model M" using wt_length(1)[OF e] by (simp add: wt_def embed_weight_def)
  from k_embedding_ok[OF S'(1) out this gpu_fits(1)[OF S'(6)]] ids
  show "k_embedding G (t_data (embed_weight M)) ids out (int (length ids)) (int (d_model M)) = Inr (concat (embed_rows M ids))"
    by (simp add: ids_ok_def embed_rows_def embed_row_def[abs_def])
qed

lemma gpu_head_ok:
  assumes S: "gpu_setup G M m s" and x: "rect s (d_model M) xss"
  shows "gpu_head G m (t_data (embed_weight M)) (concat xss) (int s)
      = Inr (concat (map (gpu_lin_row G (d_model M) (n_vocab M) (t_data (lm_head_weight M)) None) xss))"
    "rect s (n_vocab M) (map (gpu_lin_row G (d_model M) (n_vocab M) (t_data (lm_head_weight M)) None) xss)"
proof -
  note S' = gpu_setupD[OF S]
  note D = gm_dims[OF S'(3,4)] and P = gpu_dimsD[OF S'(5,3)]
  have w: "length (t_data (lm_head_weight M)) = n_vocab M * d_model M" using head_weight_ok(2)[OF S'(3)] by (simp add: mat_def)
  have mem: "(''lm_head.weight'', False) \<in> set (gm_names (m_config M))" by (simp add: gm_names_def)
  have lm: "(if gm_has m ''lm_head.weight'' then gm_weight m ''lm_head.weight'' else Inr (t_data (embed_weight M))) = Inr (t_data (lm_head_weight M))"
  proof (cases "map_of (m_weights M) ''lm_head.weight''")
    case None
    then have "\<not> gm_has m ''lm_head.weight''" using S'(4) mem by (force simp: uploaded_def gm_has_def)
    then show ?thesis using None by (simp add: lm_head_weight_def st_contains_def)
  next
    case (Some t)
    then have "gm_weight m ''lm_head.weight'' = Inr (wt M ''lm_head.weight'')" using uploaded_weight[OF S'(4) mem] by simp
    moreover from this have "gm_has m ''lm_head.weight''" by (auto simp: gm_weight_def gm_has_def split: option.splits)
    ultimately show ?thesis using Some by (simp add: lm_head_weight_def st_contains_def wt_def)
  qed
  have "rows (d_model M) s (concat xss) = xss" using rect_rows[OF x] by simp
  then show "gpu_head G m (t_data (embed_weight M)) (concat xss) (int s)
      = Inr (concat (map (gpu_lin_row G (d_model M) (n_vocab M) (t_data (lm_head_weight M)) None) xss))"
    using k_linear_ok[OF S'(1,2) P(6,8) rect_data_length[OF x] w, of "device_array G (int s * int (n_vocab M))" None] gpu_fits(5)[OF S'(6)] S'(6) P
    unfolding gpu_head_def lm res_bind_Inr D
    by (simp add: device_array_def bias_sized_def gpu_rows_fit_def flip: of_nat_mult)
  show "rect s (n_vocab M) (map (gpu_lin_row G (d_model M) (n_vocab M) (t_data (lm_head_weight M)) None) xss)"
    by (rule rect_map[OF x]) (rule gpu_lin_row_length[OF S'(2) _ w], auto simp: bias_sized_def)
qed

lemma gpu_final_ok:
  assumes S: "gpu_setup G M m s" and b: "bufs_ok M s b" and x: "rect s (d_model M) xss" "b_x b = concat xss"
  shows "gpu_final G m (int s) b = Inr (b\<lparr>b_normed := concat (map (gnorm_row G M ''model.norm.weight'') xss)\<rparr>)"
    "rect s (d_model M) (map (gnorm_row G M ''model.norm.weight'') xss)"
proof -
  note S' = gpu_setupD[OF S]
  have v: "has_vec M ''model.norm.weight'' (d_model M)" using S'(3) by (simp add: model_ok_def)
  have w: "gm_weight m ''model.norm.weight'' = Inr (wt M ''model.norm.weight'')"
    by (rule uploaded_weight[OF S'(4), of _ True]) (use v in \<open>auto simp: has_vec_def gm_names_def\<close>)
  note R = k_rms_rows[OF S v x(1) bufs_okD(2)[OF b]]
  show "gpu_final G m (int s) b = Inr (b\<lparr>b_normed := concat (map (gnorm_row G M ''model.norm.weight'') xss)\<rparr>)"
    unfolding gpu_final_def gm_dims[OF S'(3,4)] w res_bind_Inr x(2) R(1) ..
  show "rect s (d_model M) (map (gnorm_row G M ''model.norm.weight'') xss)" by (rule R(2))
qed

lemma download_ok: "rect s n xss \<Longrightarrow> download (concat xss) (int s) (int n) = Inr (mk_mat s n xss)"
proof -
  assume x: "rect s n xss"
  define d where "d = concat xss"
  have l: "length d = s * n" unfolding d_def by (rule rect_data_length[OF x])
  have "memcpy (replicate (s * n) 0) (int 0) d (int 0) (int (s * n)) = Inr (blit 0 (slice 0 (s * n) d) (replicate (s * n) 0))"
    by (rule memcpy_ok) (use l in simp_all)
  also have "blit 0 (slice 0 (s * n) d) (replicate (s * n) 0) = d" using l by (simp add: slice_def blit_def)
  finally have "memcpy (replicate (s * n) 0) 0 d 0 (int s * int n) = Inr d" by simp
  then show ?thesis unfolding download_def tensor_zeros_mat res_bind_Inr tensor.simps d_def[symmetric] by (simp add: mk_mat_def d_def del: mk_mat_record)
qed

lemma gpu_forward_cached_ok:
  assumes S: "gpu_setup G M m (length ids)" and ids: "ids_ok M ids" "ids \<noteq> []" and c: "gpu_kv_at M cap past H c" and room: "past + length ids \<le> cap"
  shows "\<exists>c'. gpu_forward_cached G m ids c = Inr (mk_mat (length ids) (n_vocab M) (fst (gpu_forward_rows G M past ids H)), c')
    \<and> gpu_kv_at M cap (past + length ids) (snd (gpu_forward_rows G M past ids H)) c'
    \<and> rect (length ids) (n_vocab M) (fst (gpu_forward_rows G M past ids H))"
proof -
  note S' = gpu_setupD[OF S]
  note D = gm_dims[OF S'(3,4)]
  let ?s = "length ids" and ?b = "fresh_bufs G m (int (length ids))"
  let ?x = "embed_rows M ids"
  have b: "bufs_ok M ?s ?b" by (rule fresh_bufs_ok[OF S'(3,4)])
  note E = gpu_embed_ok[OF S ids(1) bufs_okD(1)[OF b]]
  have rx: "rect ?s (d_model M) ?x" by (rule embed_rows_rect[OF S'(3) ids(1)])
  have b1: "bufs_ok M ?s (?b\<lparr>b_x := concat ?x\<rparr>)" using b rect_data_length[OF rx] by (simp add: bufs_ok_def)
  have s: "0 < ?s" using ids(2) by simp
  let ?st = "row_stack (gpu_rows G M) (n_layers M) past ?x H"
  have bx: "b_x (?b\<lparr>b_x := concat ?x\<rparr>) = concat ?x" by simp
  from gpu_cached_layers_ok[OF S s b1 rx bx c room order_refl] obtain b' c' where
    L: "res_fold (gpu_cached_layer G m (int ?s) (int past) (chunk_positions past ?s)) [0..<n_layers M] (?b\<lparr>b_x := concat ?x\<rparr>, c) = Inr (b', c')"
    "bufs_ok M ?s b'" "b_x b' = concat (fst ?st)" "rect ?s (d_model M) (fst ?st)" "gk_shape (n_layers M) (d_kv M) cap c'" "gk_length c' = int past"
    "\<forall>l < n_layers M. gk_view (d_kv M) c' l (past + ?s) = snd ?st l" by auto
  note N = gpu_final_ok[OF S L(2) L(4,3)]
  note Hd = gpu_head_ok[OF S N(2)]
  let ?lin = "gpu_lin_row G (d_model M) (n_vocab M) (t_data (lm_head_weight M)) None"
  have sp: "gpu_forward_rows G M past ids H = (map ?lin (map (gnorm_row G M ''model.norm.weight'') (fst ?st)), snd ?st)"
    by (simp add: gpu_forward_rows_def case_prod_unfold Let_def gpu_rows_def comp_def)
  have pos: "map (\<lambda>i. gk_length c + int i) [0..<?s] = chunk_positions past ?s" using c by (simp add: chunk_positions_def gpu_kv_at_def)
  have "gk_length c = int past" using c by (simp add: gpu_kv_at_def)
  then have "gpu_forward_cached G m ids c = Inr (mk_mat ?s (n_vocab M) (map ?lin (map (gnorm_row G M ''model.norm.weight'') (fst ?st))), gpu_kv_advance (int ?s) c')"
    using ids(2) unfolding gpu_forward_cached_def Let_def pos D E(1) res_bind_Inr E(2)
    by (simp add: L(1) N(1) Hd(1) download_ok[OF Hd(2)] del: map_map)
  moreover have "gpu_kv_at M cap (past + ?s) (snd ?st) (gpu_kv_advance (int ?s) c')" using L(5-7) by (simp add: gpu_kv_at_def)
  ultimately show ?thesis using Hd(2) unfolding sp fst_conv snd_conv by blast
qed

end
