(* ===== verification/Cuda_Decode.thy ===== *)
theory Cuda_Decode
  imports Cuda_Forward Model_Chunks Speculative
begin

text \<open>
  Decoding on the device: chunks against the full forward, \<open>generate\<close> against plain greedy
  decoding, and the load of a model from its file.
\<close>

section \<open>Chunks\<close>

lemma gpu_kv_at_new:
  assumes "gpu_setup G M m s" "0 < cap"
  shows "\<exists>c. gpu_kv_new G (num_hidden_layers (gm_config m)) (gm_nkv m) (int cap) = Inr c \<and> gpu_kv_at M cap 0 no_hist c"
proof -
  note S' = gpu_setupD[OF assms(1)]
  note D = gm_dims[OF S'(3,4)] and P = gpu_dimsD[OF S'(5,3)]
  from gpu_kv_new_ok[OF P(1,10) assms(2), of G] show ?thesis
    unfolding D by (auto simp: gpu_kv_at_def gk_view_def rows_def no_hist_def)
qed

lemma gpu_setup_mono: "gpu_setup G M m s \<Longrightarrow> t \<le> s \<Longrightarrow> gpu_setup G M m t"
  using gpu_rows_fit_mono by (auto simp: gpu_setup_def)

text \<open>The history a context leaves; its logits.\<close>

abbreviation gpu_hist :: "gpu \<Rightarrow> model \<Rightarrow> int list \<Rightarrow> nat \<Rightarrow> hist" where
  "gpu_hist G M ctx \<equiv> snd (gpu_forward_rows G M 0 ctx no_hist)"

abbreviation gpu_logits :: "gpu \<Rightarrow> model \<Rightarrow> int list \<Rightarrow> f32 list list" where
  "gpu_logits G M ctx \<equiv> fst (gpu_forward_rows G M 0 ctx no_hist)"

lemma gpu_rows_continue:
  "gpu_logits G M (ctx @ ids) = gpu_logits G M ctx @ fst (gpu_forward_rows G M (length ctx) ids (gpu_hist G M ctx))"
  "gpu_hist G M (ctx @ ids) = snd (gpu_forward_rows G M (length ctx) ids (gpu_hist G M ctx))"
  using gpu_forward_rows_append[of M no_hist 0 G ctx ids] by (simp_all add: no_hist_def)

lemma gpu_hist_nil: "gpu_hist G M [] = no_hist"
proof -
  have "snd (row_stack R L past [] (\<lambda>_. ([], []))) = (\<lambda>_. ([], []))" for R L past
  proof (induction L)
    case (Suc L)
    have "fst (row_stack R L past [] (\<lambda>_. ([], []))) = []" using row_stack_length[of R L past "[]" "\<lambda>_. ([], [])"] by (metis length_0_conv)
    then show ?case using Suc by (auto simp: case_prod_unfold Let_def row_layer_def)
  qed simp
  then show ?thesis by (simp add: gpu_forward_rows_def embed_rows_def case_prod_unfold Let_def no_hist_def)
qed

lemma gpu_forward_step:
  assumes "gpu_setup G M m (length ids)" "ids_ok M ids" "ids \<noteq> []" "gpu_kv_at M cap (length ctx) (gpu_hist G M ctx) c" "length ctx + length ids \<le> cap"
  shows "\<exists>c'. gpu_forward_cached G m ids c = Inr (mk_mat (length ids) (n_vocab M) (drop (length ctx) (gpu_logits G M (ctx @ ids))), c')
    \<and> gpu_kv_at M cap (length (ctx @ ids)) (gpu_hist G M (ctx @ ids)) c' \<and> rect (length ids) (n_vocab M) (drop (length ctx) (gpu_logits G M (ctx @ ids)))"
  using gpu_forward_cached_ok[OF assms] unfolding gpu_rows_continue by simp

lemma gpu_forward_full:
  assumes "gpu_setup G M m (length ids)" "ids_ok M ids" "ids \<noteq> []"
  shows "gpu_forward G m ids = Inr (mk_mat (length ids) (n_vocab M) (gpu_logits G M ids))" "rect (length ids) (n_vocab M) (gpu_logits G M ids)"
proof -
  have "0 < length ids" using assms(3) by simp
  from gpu_kv_at_new[OF assms(1) this] obtain c where
    c: "gpu_kv_new G (num_hidden_layers (gm_config m)) (gm_nkv m) (int (length ids)) = Inr c" "gpu_kv_at M (length ids) 0 no_hist c" by blast
  from gpu_forward_cached_ok[OF assms c(2)] c(1)
  show "gpu_forward G m ids = Inr (mk_mat (length ids) (n_vocab M) (gpu_logits G M ids))" "rect (length ids) (n_vocab M) (gpu_logits G M ids)"
    by (auto simp: gpu_forward_def)
qed

lemma gpu_run_chunks:
  assumes S: "gpu_setup G M m (length ctx + length (concat chunks))"
  shows "chunks_ok M chunks \<Longrightarrow> gpu_kv_at M cap (length ctx) (gpu_hist G M ctx) c \<Longrightarrow> length ctx + length (concat chunks) \<le> cap \<Longrightarrow>
    \<exists>ts c'. run_chunks (gpu_forward_cached G m) chunks c = Inr (ts, c')
      \<and> concat (map t_data ts) = concat (drop (length ctx) (gpu_logits G M (ctx @ concat chunks)))"
  using S
proof (induction chunks arbitrary: ctx c)
  case (Cons ids chunks)
  have o: "ids_ok M ids" "ids \<noteq> []" "chunks_ok M chunks" using Cons.prems(1) by (auto simp: chunks_ok_def)
  have S1: "gpu_setup G M m (length ids)" by (rule gpu_setup_mono[OF Cons.prems(4)]) simp
  from gpu_forward_step[OF S1 o(1,2) Cons.prems(2)] Cons.prems(3) obtain c1 where
    c1: "gpu_forward_cached G m ids c = Inr (mk_mat (length ids) (n_vocab M) (drop (length ctx) (gpu_logits G M (ctx @ ids))), c1)"
      "gpu_kv_at M cap (length (ctx @ ids)) (gpu_hist G M (ctx @ ids)) c1" by auto
  have S2: "gpu_setup G M m (length (ctx @ ids) + length (concat chunks))" using Cons.prems(4) by (simp add: add.assoc)
  from Cons.IH[OF o(3) c1(2) _ S2] Cons.prems(3) obtain ts c' where
    c': "run_chunks (gpu_forward_cached G m) chunks c1 = Inr (ts, c')"
      "concat (map t_data ts) = concat (drop (length (ctx @ ids)) (gpu_logits G M ((ctx @ ids) @ concat chunks)))" by auto
  have "drop (length ctx) (gpu_logits G M (ctx @ ids @ concat chunks))
      = drop (length ctx) (gpu_logits G M (ctx @ ids)) @ drop (length (ctx @ ids)) (gpu_logits G M ((ctx @ ids) @ concat chunks))"
    using gpu_rows_continue(1)[of G M "ctx @ ids" "concat chunks"] by simp
  then show ?case using c1(1) c' by simp
qed simp

section \<open>Greedy decoding\<close>

definition gpu_next :: "gpu \<Rightarrow> model \<Rightarrow> int list \<Rightarrow> int" where
  "gpu_next G M ctx = int (first_best (last (gpu_logits G M ctx)) (n_vocab M))"

fun stop_at :: "int \<Rightarrow> int list \<Rightarrow> int list" where
  "stop_at eos [] = []"
| "stop_at eos (t # ts) = (if t = eos then [t] else t # stop_at eos ts)"

lemma argmax_last_row_mat:
  assumes "rect s n xss" "0 < s" "0 < n"
  shows "argmax_last_row (mk_mat s n xss) = Inr (int (first_best (last xss) n))"
proof -
  have l: "last xss = xss ! (s - 1)" using assms(1,2) by (metis last_conv_nth length_0_conv less_numeral_extra(3) rect_length)
  have "argmax_last_row (mk_mat s n xss) = argmax_row (mk_mat s n xss) (int (s - 1))"
    using assms(2) by (simp add: argmax_last_row_def argmax_row_def of_nat_diff Suc_leI)
  then show ?thesis using argmax_row_mat[OF assms(1) _ assms(3), of "s - 1"] assms(2) l by simp
qed

lemma gpu_next_ok: "gpu_dims M \<Longrightarrow> ids_ok M [gpu_next G M ctx]"
  using first_best_lt[of "n_vocab M"] by (simp add: ids_ok_def gpu_next_def gpu_dims_def)

lemma greedy_ids_ok: "gpu_dims M \<Longrightarrow> ids_ok M (greedy_tokens (gpu_next G M) n ctx)"
  using gpu_next_ok by (induction n arbitrary: ctx) (auto simp: ids_ok_def)

lemma gpu_decode_ok:
  assumes S: "gpu_setup G M m 1"
  shows "gpu_kv_at M cap (length ctx) (gpu_hist G M ctx) c \<Longrightarrow> ids_ok M [t] \<Longrightarrow> n \<le> fuel \<Longrightarrow> length ctx + n \<le> cap \<Longrightarrow> mx = int (length out + n) \<Longrightarrow>
    gpu_decode G m fuel mx eos out t c = Inr (out @ (if t = eos then [] else stop_at eos (greedy_tokens (gpu_next G M) n (ctx @ [t]))))"
proof (induction n arbitrary: fuel ctx c out t)
  case 0
  then show ?case by (subst gpu_decode.simps) simp
next
  case (Suc n)
  show ?case
  proof (cases "t = eos")
    case True
    then show ?thesis by (subst gpu_decode.simps) simp
  next
    case False
    obtain fuel' where f: "fuel = Suc fuel'" "n \<le> fuel'" using Suc.prems(3) by (cases fuel) auto
    have S1: "gpu_setup G M m (length [t])" using S by simp
    from gpu_forward_step[OF S1 Suc.prems(2) _ Suc.prems(1)] Suc.prems(4) obtain c1 where
      c1: "gpu_forward_cached G m [t] c = Inr (mk_mat 1 (n_vocab M) (drop (length ctx) (gpu_logits G M (ctx @ [t]))), c1)"
        "gpu_kv_at M cap (length (ctx @ [t])) (gpu_hist G M (ctx @ [t])) c1" "rect 1 (n_vocab M) (drop (length ctx) (gpu_logits G M (ctx @ [t])))" by auto
    have V: "0 < n_vocab M" using S by (simp add: gpu_setup_def gpu_dims_def)
    have "last (drop (length ctx) (gpu_logits G M (ctx @ [t]))) = last (gpu_logits G M (ctx @ [t]))" by (rule last_drop) simp
    then have a: "argmax_last_row (mk_mat 1 (n_vocab M) (drop (length ctx) (gpu_logits G M (ctx @ [t])))) = Inr (gpu_next G M (ctx @ [t]))"
      using argmax_last_row_mat[OF c1(3) _ V] by (simp add: gpu_next_def)
    have d: "gpu_dims M" using S by (simp add: gpu_setup_def)
    have "gpu_decode G m fuel' mx eos (out @ [gpu_next G M (ctx @ [t])]) (gpu_next G M (ctx @ [t])) c1
      = Inr ((out @ [gpu_next G M (ctx @ [t])]) @ (if gpu_next G M (ctx @ [t]) = eos then []
          else stop_at eos (greedy_tokens (gpu_next G M) n ((ctx @ [t]) @ [gpu_next G M (ctx @ [t])]))))"
      by (rule Suc.IH[OF c1(2) gpu_next_ok[OF d] f(2)]) (use Suc.prems(4,5) in auto)
    then show ?thesis using False c1(1) a Suc.prems(5) f(1) by (subst gpu_decode.simps) simp
  qed
qed

lemma gpu_greedy_ok:
  assumes S: "gpu_setup G M m (length ctx + n)"
  shows "ids_ok M ctx \<Longrightarrow> ctx \<noteq> [] \<Longrightarrow> plain_greedy (gpu_forward G m) n ctx = Inr (greedy_tokens (gpu_next G M) n ctx)"
  using S
proof (induction n arbitrary: ctx)
  case (Suc n)
  have d: "gpu_dims M" and V: "0 < n_vocab M" using Suc.prems(3) by (simp_all add: gpu_setup_def gpu_dims_def)
  have S1: "gpu_setup G M m (length ctx)" by (rule gpu_setup_mono[OF Suc.prems(3)]) simp
  note F = gpu_forward_full[OF S1 Suc.prems(1,2)]
  have "last (gpu_logits G M ctx) = gpu_logits G M ctx ! (length ctx - 1)"
    using Suc.prems(2) by (metis gpu_forward_rows_length last_conv_nth length_0_conv)
  then have a: "argmax_row (mk_mat (length ctx) (n_vocab M) (gpu_logits G M ctx)) (int (length ctx) - 1) = Inr (gpu_next G M ctx)"
    using argmax_row_mat[OF F(2) _ V, of "length ctx - 1"] Suc.prems(2) by (simp add: gpu_next_def of_nat_diff Suc_leI)
  have "ids_ok M (ctx @ [gpu_next G M ctx])" using Suc.prems(1) gpu_next_ok[OF d] by (auto simp: ids_ok_def)
  moreover have "gpu_setup G M m (length (ctx @ [gpu_next G M ctx]) + n)" using Suc.prems(3) by simp
  ultimately have "plain_greedy (gpu_forward G m) n (ctx @ [gpu_next G M ctx]) = Inr (greedy_tokens (gpu_next G M) n (ctx @ [gpu_next G M ctx]))"
    by (intro Suc.IH) simp_all
  then show ?case using F(1) a by simp
qed simp

section \<open>A concrete device model\<close>

definition gtoy_config :: model_config where
  "gtoy_config = toy_config\<lparr>head_dim := 2, attention_qkv_bias := False\<rparr>"

definition gtoy_weights :: weights where
  "gtoy_weights =
     (let v = \<lparr>t_shape = [1], t_data = [3]\<rparr>; up = \<lparr>t_shape = [2, 1], t_data = [2, 5]\<rparr>; p = \<lparr>t_shape = [1, 1], t_data = [2]\<rparr>; k = layer_key 0 in
      [(''model.embed_tokens.weight'', \<lparr>t_shape = [2, 1], t_data = [7, 9]\<rparr>), (''model.norm.weight'', v),
       (k ''input_layernorm.weight'', v), (k ''post_attention_layernorm.weight'', v),
       (k ''self_attn.q_proj.weight'', up), (k ''self_attn.k_proj.weight'', up), (k ''self_attn.v_proj.weight'', up),
       (k ''self_attn.o_proj.weight'', \<lparr>t_shape = [1, 2], t_data = [4, 6]\<rparr>), (k ''mlp.gate_proj.weight'', p), (k ''mlp.up_proj.weight'', p),
       (k ''mlp.down_proj.weight'', p)])"

definition gtoy_model :: model where
  "gtoy_model = from_safetensors gtoy_config gtoy_weights"

lemma gtoy_model_ok: "model_ok gtoy_model"
  by code_simp

section \<open>Loading\<close>

lemma gpu_load_uploaded:
  assumes "\<forall>(n, required) \<in> set (gm_names config). required \<longrightarrow> st_contains ws n"
  shows "\<exists>m. gpu_from_safetensors config ws = Inr m \<and> uploaded (from_safetensors config ws) m"
proof -
  from gm_add_all[OF assms, of "\<lparr>gm_config = config, gm_weights = []\<rparr>"] obtain m where
    m: "gpu_from_safetensors config ws = Inr m" "gm_config m = config"
      "\<forall>n. map_of (gm_weights m) n = (if n \<in> fst ` set (gm_names config) then map_option t_data (map_of ws n) else None)"
    by (auto simp: gpu_from_safetensors_def)
  then have "uploaded (from_safetensors config ws) m" by (force simp: uploaded_def from_safetensors_def)
  then show ?thesis using m(1) by blast
qed

lemma gtoy_setup_on:
  assumes "schedules G" "sgemm_rowwise G" "s \<le> 100"
  shows "\<exists>m. gpu_from_safetensors gtoy_config gtoy_weights = Inr m \<and> gpu_setup G gtoy_model m s"
proof -
  have "\<forall>(n, required) \<in> set (gm_names gtoy_config). required \<longrightarrow> st_contains gtoy_weights n" by code_simp
  from gpu_load_uploaded[OF this] obtain m where "gpu_from_safetensors gtoy_config gtoy_weights = Inr m" "uploaded gtoy_model m"
    unfolding gtoy_model_def by blast
  moreover have w: "gpu_width gtoy_model = 8" by code_simp
  have "n_layers gtoy_model = 1" "n_heads gtoy_model = 1" "d_head gtoy_model = 2" "d_model gtoy_model = 1" "d_ff gtoy_model = 1" "n_vocab gtoy_model = 2"
    by code_simp+
  with w have "gpu_dims gtoy_model" by (simp add: gpu_dims_def)
  moreover have "gpu_rows_fit gtoy_model 100" by (simp add: gpu_rows_fit_def w)
  then have "gpu_rows_fit gtoy_model s" using assms(3) by (rule gpu_rows_fit_mono)
  ultimately show ?thesis using assms(1,2) gtoy_model_ok by (auto simp: gpu_setup_def)
qed

lemmas gtoy_setup = gtoy_setup_on[OF toy_schedules toy_sgemm]

lemma gpu_generate_next:
  assumes S: "gpu_setup G M m (length prompt + n)" and p: "ids_ok M prompt" "prompt \<noteq> []" and n: "0 < n"
  shows "gpu_generate G m prompt (int n) eos = Inr (stop_at eos (greedy_tokens (gpu_next G M) n prompt))"
proof -
  obtain k where k: "n = Suc k" using n by (cases n) auto
  have S1: "gpu_setup G M m (length prompt)" "gpu_setup G M m 1" by (rule gpu_setup_mono[OF S], use n in simp)+
  have d: "gpu_dims M" and V: "0 < n_vocab M" using S by (simp_all add: gpu_setup_def gpu_dims_def)
  have "0 < length prompt + n" using n by simp
  from gpu_kv_at_new[OF S this] obtain c where
    c: "gpu_kv_new G (num_hidden_layers (gm_config m)) (gm_nkv m) (int (length prompt + n)) = Inr c"
      "gpu_kv_at M (length prompt + n) (length ([] :: int list)) (gpu_hist G M []) c"
    by (auto simp: gpu_hist_nil)
  from gpu_forward_step[OF S1(1) p c(2)] n obtain c1 where
    c1: "gpu_forward_cached G m prompt c = Inr (mk_mat (length prompt) (n_vocab M) (gpu_logits G M prompt), c1)"
      "gpu_kv_at M (length prompt + n) (length prompt) (gpu_hist G M prompt) c1" "rect (length prompt) (n_vocab M) (gpu_logits G M prompt)" by auto
  have a: "argmax_last_row (mk_mat (length prompt) (n_vocab M) (gpu_logits G M prompt)) = Inr (gpu_next G M prompt)"
    using argmax_last_row_mat[OF c1(3) _ V] p(2) by (simp add: gpu_next_def)
  have "gpu_decode G m n (int n) eos [gpu_next G M prompt] (gpu_next G M prompt) c1
    = Inr ([gpu_next G M prompt] @ (if gpu_next G M prompt = eos then []
        else stop_at eos (greedy_tokens (gpu_next G M) k (prompt @ [gpu_next G M prompt]))))"
    by (rule gpu_decode_ok[OF S1(2) c1(2) gpu_next_ok[OF d]]) (simp_all add: k)
  then show ?thesis using c(1) c1(1) a n p(2) by (simp add: gpu_generate_def k add.assoc add.commute add.left_commute nat_add_distrib)
qed

section \<open>Properties\<close>

text \<open>Loading a model onto the device. The load succeeds exactly when every required tensor is in
  the file, names a missing one otherwise, and the weights on the device are the data of the
  tensors of the file. No shape is looked at.\<close>

theorem gpu_load_ok:
  "((\<exists>m. gpu_from_safetensors config ws = Inr m) \<longleftrightarrow> (\<forall>(n, required) \<in> set (gm_names config). required \<longrightarrow> st_contains ws n))
   \<and> (\<forall>m. gpu_from_safetensors config ws = Inr m \<longrightarrow> uploaded (from_safetensors config ws) m)
   \<and> (\<forall>e. gpu_from_safetensors config ws = Inl e \<longrightarrow> (\<exists>n. e = RuntimeError (''CudaModel: missing weight '' @ n)))"
proof (cases "\<forall>(n, required) \<in> set (gm_names config). required \<longrightarrow> st_contains ws n")
  case True
  from gpu_load_uploaded[OF True] obtain m where m: "gpu_from_safetensors config ws = Inr m" "uploaded (from_safetensors config ws) m"
    by blast
  then show ?thesis using True by auto
next
  case False
  then have "\<exists>(n, req) \<in> set (gm_names config). req \<and> \<not> st_contains ws n" by auto
  from gm_add_missing[OF this, of "\<lparr>gm_config = config, gm_weights = []\<rparr>"] False show ?thesis
    by (auto simp: gpu_from_safetensors_def)
qed

lemma gpu_load_ok_witness:
  "\<exists>m. gpu_from_safetensors gtoy_config gtoy_weights = Inr m \<and> uploaded gtoy_model m"
proof -
  have "\<forall>(n, required) \<in> set (gm_names gtoy_config). required \<longrightarrow> st_contains gtoy_weights n" by code_simp
  then show ?thesis using gpu_load_ok[of gtoy_config gtoy_weights] unfolding gtoy_model_def by blast
qed

text \<open>C11: Incremental decoding on the device is exact. For a model whose weights are on the
  device, any order in which the threads of a kernel run, and a matrix product that works row
  by row, feeding the tokens in any chunks to a cache that has room for them succeeds and gives,
  concatenated, the logits of one forward over all of them, bit for bit.\<close>

theorem gpu_chunked_exact:
  assumes "gpu_setup G M m (length (concat chunks))" "chunks_ok M chunks" "chunks \<noteq> []" "length (concat chunks) \<le> cap"
  shows "\<exists>c0 c ts t. gpu_kv_new G (num_hidden_layers (gm_config m)) (gm_nkv m) (int cap) = Inr c0
    \<and> run_chunks (gpu_forward_cached G m) chunks c0 = Inr (ts, c)
    \<and> gpu_forward G m (concat chunks) = Inr t \<and> t_data t = concat (map t_data ts)"
proof -
  have o: "ids_ok M (concat chunks)" "concat chunks \<noteq> []"
    using assms(2,3) by (auto simp: chunks_ok_def ids_ok_def dest: hd_in_set)
  then have "0 < cap" using assms(4) by (cases "concat chunks") auto
  from gpu_kv_at_new[OF assms(1) this] obtain c0 where
    c0: "gpu_kv_new G (num_hidden_layers (gm_config m)) (gm_nkv m) (int cap) = Inr c0"
      "gpu_kv_at M cap (length ([] :: int list)) (gpu_hist G M []) c0" by (auto simp: gpu_hist_nil)
  have "gpu_setup G M m (length ([] :: int list) + length (concat chunks))" using assms(1) by simp
  from gpu_run_chunks[OF this assms(2) c0(2)] assms(4) obtain ts c where
    c: "run_chunks (gpu_forward_cached G m) chunks c0 = Inr (ts, c)" "concat (map t_data ts) = concat (gpu_logits G M (concat chunks))" by auto
  show ?thesis using c0(1) c gpu_forward_full(1)[OF assms(1) o] by simp
qed

lemma gpu_chunked_exact_witness:
  "\<exists>m c0 c ts t. gpu_from_safetensors gtoy_config gtoy_weights = Inr m
    \<and> gpu_kv_new toy_gpu (num_hidden_layers (gm_config m)) (gm_nkv m) (int 4) = Inr c0
    \<and> run_chunks (gpu_forward_cached toy_gpu m) [[0, 1], [1]] c0 = Inr (ts, c)
    \<and> gpu_forward toy_gpu m [0, 1, 1] = Inr t \<and> t_data t = concat (map t_data ts)"
proof -
  from gtoy_setup[of 3] obtain m where m: "gpu_from_safetensors gtoy_config gtoy_weights = Inr m" "gpu_setup toy_gpu gtoy_model m 3" by auto
  have "chunks_ok gtoy_model [[0, 1], [1]]" by code_simp
  moreover have "concat [[0, 1], [1]] = [0, 1, 1 :: int]" "length [0, 1, 1 :: int] = 3" by simp_all
  ultimately show ?thesis using gpu_chunked_exact[of toy_gpu gtoy_model m "[[0, 1], [1]]" 4] m by (simp add: numeral_3_eq_3 del: run_chunks.simps)
qed

text \<open>C12: Generation on the device is greedy decoding. With an eos id that stops it,
  \<open>generate\<close> returns, after its one prefill and cached single-token steps, exactly the tokens that
  choosing the best of an uncached forward over the whole context would give, cut after the
  first eos; its loop ends within \<open>max_tokens\<close> rounds and its cache never runs out of room.\<close>

theorem gpu_generate_greedy:
  assumes "gpu_setup G M m (length prompt + n)" "ids_ok M prompt" "prompt \<noteq> []"
  shows "\<exists>ts. plain_greedy (gpu_forward G m) n prompt = Inr ts \<and> length ts = n
    \<and> gpu_generate G m prompt (int n) eos = Inr (stop_at eos ts)"
proof (cases "0 < n")
  case True
  then show ?thesis using gpu_greedy_ok[OF assms] gpu_generate_next[OF assms] by simp
qed (simp add: gpu_generate_def)

lemma gpu_generate_greedy_witness:
  "\<exists>m ts. gpu_from_safetensors gtoy_config gtoy_weights = Inr m \<and> plain_greedy (gpu_forward toy_gpu m) 3 [0, 1] = Inr ts
    \<and> length ts = 3 \<and> gpu_generate toy_gpu m [0, 1] (int 3) 1 = Inr (stop_at 1 ts)"
proof -
  from gtoy_setup[of 5] obtain m where m: "gpu_from_safetensors gtoy_config gtoy_weights = Inr m" "gpu_setup toy_gpu gtoy_model m 5" by auto
  have "ids_ok gtoy_model [0, 1]" by code_simp
  with gpu_generate_greedy[of toy_gpu gtoy_model m "[0, 1]" 3 1] m show ?thesis by simp
qed

end
