(* ===== verification/Cuda_Batch.thy ===== *)
theory Cuda_Batch
  imports Cuda_Decode Batch_Forward
begin

text \<open>
  \<open>forward_batch_device\<close>: many sequences through one set of kernels. The locale \<open>gpu_batch\<close>
  states what a batch needs of the attention callback: it extends the keys and values of its
  own item, attends over them and leaves those of the other items alone. In it, the logits of
  an item are proved to be the last row of the specification of that item alone.
  The contiguous caches and the paged pool are its two instances.
\<close>

section \<open>Spans\<close>

lemma length_item_spans [simp]: "length (item_spans off xss) = length xss"
  by (induction xss arbitrary: off) auto

lemma item_spans_nth:
  "i < length js \<Longrightarrow> item_spans (int off) (map bj_toks js) ! i = (int (off + job_lens (take i js)), int (bj_len (js ! i)))"
proof (induction js arbitrary: off i)
  case (Cons j js)
  then show ?case using Cons.IH[of _ "off + bj_len j"] by (cases i) (simp_all add: add.assoc)
qed simp

lemma job_positions_chunk: "job_positions j = chunk_positions (bj_past j) (bj_len j)"
  by (simp add: job_positions_def chunk_positions_def)

lemma batch_positions:
  "concat (map2 (\<lambda>ids past. map (\<lambda>t. past + int t) [0..<length ids]) (map bj_toks js) (map (\<lambda>j. int (bj_past j)) js)) = concat (map job_positions js)"
  by (induction js) (auto simp: job_positions_def)

lemma jobs_split: "i < length js \<Longrightarrow> js = take i js @ js ! i # drop (Suc i) js"
  by (simp add: id_take_nth_drop)

section \<open>The contract of the attention callback\<close>

locale gpu_batch =
  fixes attend :: "gpu \<Rightarrow> gpu_model \<Rightarrow> bjob list \<Rightarrow> 's attend"
    and ready :: "model \<Rightarrow> bjob list \<Rightarrow> 's \<Rightarrow> bool"
    and view :: "model \<Rightarrow> 's \<Rightarrow> bjob \<Rightarrow> nat \<Rightarrow> nat \<Rightarrow> hist"
    and keeps :: "model \<Rightarrow> bjob list \<Rightarrow> 's \<Rightarrow> 's \<Rightarrow> bool"
  assumes ready_distinct: "ready M js st \<Longrightarrow> distinct js"
    and view_ok: "ready M js st \<Longrightarrow> j \<in> set js \<Longrightarrow> l < n_layers M \<Longrightarrow> n \<le> bj_past j + bj_len j \<Longrightarrow> hist_ok n (d_kv M) (view M st j l n)"
    and keeps_refl: "ready M js st \<Longrightarrow> keeps M js st st"
    and keeps_trans: "keeps M js st st1 \<Longrightarrow> keeps M js st1 st2 \<Longrightarrow> keeps M js st st2"
    and attend_ok: "gpu_setup G M m (bj_len (js ! i)) \<Longrightarrow> ready M js st \<Longrightarrow> i < length js \<Longrightarrow> 0 < bj_len (js ! i) \<Longrightarrow> l < n_layers M \<Longrightarrow>
       view M st (js ! i) l (bj_past (js ! i)) = h \<Longrightarrow> rect (bj_len (js ! i)) (d_q M) q \<Longrightarrow> rect (bj_len (js ! i)) (d_kv M) k \<Longrightarrow>
       rect (bj_len (js ! i)) (d_kv M) v \<Longrightarrow> bj_len (js ! i) * d_q M \<le> length attn \<Longrightarrow>
       \<exists>st'. attend G m js l i (int (bj_len (js ! i))) (int (bj_past (js ! i))) (concat q @ qe) (concat k @ ke) (concat v @ ve) attn st
           = Inr (concat (row_attn (gpu_rows G M) (bj_past (js ! i)) q (fst h @ k) (snd h @ v)) @ drop (bj_len (js ! i) * d_q M) attn, st')
         \<and> ready M js st' \<and> keeps M js st st' \<and> view M st' (js ! i) l (bj_past (js ! i) + bj_len (js ! i)) = (fst h @ k, snd h @ v)
         \<and> (\<forall>j \<in> set js. \<forall>l' n. n \<le> bj_past j + bj_len j \<longrightarrow> (l' \<noteq> l \<or> j \<noteq> js ! i) \<longrightarrow> view M st' j l' n = view M st j l' n)"
begin

text \<open>What one layer's attention does to the states of all items, the first \<open>k\<close> done.\<close>

definition attended :: "model \<Rightarrow> bjob list \<Rightarrow> nat \<Rightarrow> (bjob \<Rightarrow> hist) \<Rightarrow> nat \<Rightarrow> 's \<Rightarrow> 's \<Rightarrow> bool" where
  "attended M js l H k st st' \<longleftrightarrow> ready M js st' \<and> keeps M js st st'
     \<and> (\<forall>i < k. view M st' (js ! i) l (bj_past (js ! i) + bj_len (js ! i)) = H (js ! i))
     \<and> (\<forall>j \<in> set js. \<forall>l' n. n \<le> bj_past j + bj_len j \<longrightarrow> (l' \<noteq> l \<or> j \<in> set (drop k js)) \<longrightarrow> view M st' j l' n = view M st j l' n)"

lemma attended_Suc:
  assumes a: "attended M js l H n st s1" and n: "n < length js" and rd: "ready M js s2" and kp: "keeps M js s1 s2"
    and v: "view M s2 (js ! n) l (bj_past (js ! n) + bj_len (js ! n)) = H (js ! n)"
    and o: "\<forall>j \<in> set js. \<forall>l' k. k \<le> bj_past j + bj_len j \<longrightarrow> (l' \<noteq> l \<or> j \<noteq> js ! n) \<longrightarrow> view M s2 j l' k = view M s1 j l' k"
  shows "attended M js l H (Suc n) st s2"
  unfolding attended_def
proof (intro conjI allI impI ballI)
  let ?j = "js ! n"
  show "keeps M js st s2" using keeps_trans a kp by (auto simp: attended_def)
  show "ready M js s2" by (rule rd)
  show "view M s2 (js ! i) l (bj_past (js ! i) + bj_len (js ! i)) = H (js ! i)" if i: "i < Suc n" for i
  proof (cases "i = n")
    case False
    then have "js ! i \<noteq> ?j" using i n ready_distinct[OF rd] by (simp add: nth_eq_iff_index_eq)
    then show ?thesis using o a i n False by (simp add: attended_def)
  qed (use v in simp)
  show "view M s2 j l' k = view M st j l' k"
    if j: "j \<in> set js" "k \<le> bj_past j + bj_len j" "l' \<noteq> l \<or> j \<in> set (drop (Suc n) js)" for j l' k
  proof -
    have "j \<noteq> ?j" if "j \<in> set (drop (Suc n) js)"
      using that n ready_distinct[OF rd] by (metis Cons_nth_drop_Suc distinct.simps(2) distinct_drop)
    moreover have "l' \<noteq> l \<or> j \<in> set (drop n js)" using j(3) n by (metis Cons_nth_drop_Suc list.set_intros(2))
    ultimately show ?thesis using o a j by (auto simp: attended_def)
  qed
qed

text \<open>The rows of the jobs before the \<open>n\<close>-th, and what follows them in a concatenation.\<close>

lemma jobs_before:
  assumes "n < length js" and r: "\<And>j. j \<in> set js \<Longrightarrow> rect (bj_len j) w (X j)"
  shows "length (concat (concat (map X (take n js)))) = job_lens (take n js) * w"
    and "drop (job_lens (take n js) * w) (concat (concat (map X js))) = concat (X (js ! n)) @ concat (concat (map X (drop (Suc n) js)))"
proof -
  have "rect (job_lens (take n js)) w (concat (map X (take n js)))"
    by (rule rect_concat_jobs) (use r in \<open>auto dest: in_set_takeD\<close>)
  then show l: "length (concat (concat (map X (take n js)))) = job_lens (take n js) * w" by (rule rect_data_length)
  have "concat (concat (map X js)) = concat (concat (map X (take n js))) @ concat (X (js ! n)) @ concat (concat (map X (drop (Suc n) js)))"
    by (subst jobs_split[OF assms(1)]) simp
  then show "drop (job_lens (take n js) * w) (concat (concat (map X js))) = concat (X (js ! n)) @ concat (concat (map X (drop (Suc n) js)))"
    using l by simp
qed

lemma items_attend_ok:
  assumes S: "gpu_setup G M m (job_lens js)" and rd: "ready M js st" and l: "l < n_layers M"
    and ne: "\<And>j. j \<in> set js \<Longrightarrow> 0 < bj_len j"
    and r: "\<And>j. j \<in> set js \<Longrightarrow> rect (bj_len j) (d_q M) (Q j) \<and> rect (bj_len j) (d_kv M) (K j) \<and> rect (bj_len j) (d_kv M) (V j)"
    and b: "b_q b = concat (concat (map Q js))" "b_k b = concat (concat (map K js))" "b_v b = concat (concat (map V js))"
      "length (b_attn b) = job_lens js * d_q M"
    and h: "\<And>j. j \<in> set js \<Longrightarrow> view M st j l (bj_past j) = h j"
  defines "A \<equiv> \<lambda>j. row_attn (gpu_rows G M) (bj_past j) (Q j) (fst (h j) @ K j) (snd (h j) @ V j)"
  shows "n \<le> length js \<Longrightarrow> \<exists>st'. res_fold (batch_attend m (attend G m js) (item_spans 0 (map bj_toks js)) (map (\<lambda>j. int (bj_past j)) js) l) [0..<n] (b, st)
      = Inr (b\<lparr>b_attn := concat (concat (map A (take n js))) @ drop (job_lens (take n js) * d_q M) (b_attn b)\<rparr>, st')
    \<and> attended M js l (\<lambda>j. (fst (h j) @ K j, snd (h j) @ V j)) n st st'"
proof (induction n)
  case 0
  then show ?case using rd keeps_refl by (simp add: attended_def)
next
  case (Suc n)
  note S' = gpu_setupD[OF S] and D = gm_dims[OF gpu_setupD(3,4)[OF S]]
  have n: "n < length js" using Suc.prems by simp
  let ?j = "js ! n" and ?off = "job_lens (take n js)"
  have jm: "?j \<in> set js" using n by simp
  from Suc obtain s1 where s1: "res_fold (batch_attend m (attend G m js) (item_spans 0 (map bj_toks js)) (map (\<lambda>j. int (bj_past j)) js) l) [0..<n] (b, st)
      = Inr (b\<lparr>b_attn := concat (concat (map A (take n js))) @ drop (?off * d_q M) (b_attn b)\<rparr>, s1)"
    "attended M js l (\<lambda>j. (fst (h j) @ K j, snd (h j) @ V j)) n st s1" by auto
  have dj: "?j \<in> set (drop n js)" using n by (metis Cons_nth_drop_Suc list.set_intros(1))
  have v1: "view M s1 ?j l (bj_past ?j) = h ?j" using s1(2) jm dj h[OF jm] by (simp add: attended_def)
  have Sj: "gpu_setup G M m (bj_len ?j)" by (rule gpu_setup_mono[OF S]) (use job_lens_take[OF n] in simp)
  have rA: "rect (bj_len j) (d_q M) (A j)" if "j \<in> set js" for j
  proof -
    have "hist_ok (bj_past j) (d_kv M) (h j)" using view_ok[OF rd that l, of "bj_past j"] h[OF that] by simp
    then have "rect (bj_past j + bj_len j) (d_kv M) (snd (h j) @ V j)" using r[OF that] by (auto simp: hist_ok_def intro!: rect_append)
    then show ?thesis
      using gr.attn_rect[of "(G, M)", simplified fst_conv snd_conv, OF conjI[OF S'(2,3)], of "bj_len j" "Q j"] r[OF that] by (simp add: A_def)
  qed
  define a where "a = drop (?off * d_q M) (b_attn b)"
  define pa where "pa = concat (concat (map A (take n js)))"
  have lpa: "length pa = ?off * d_q M" unfolding pa_def by (rule jobs_before(1)[OF n]) (rule rA)
  have la: "bj_len ?j * d_q M \<le> length a"
    using job_lens_take[OF n] b(4) by (simp add: a_def flip: diff_mult_distrib) (metis add_le_imp_le_diff add.commute mult_le_mono1)
  let ?t = "\<lambda>X. concat (concat (map X (drop (Suc n) js)))"
  have rs1: "ready M js s1" using s1(2) by (simp add: attended_def)
  from attend_ok[OF Sj rs1 n ne[OF jm] l v1 _ _ _ la, of "Q ?j" "K ?j" "V ?j" "?t Q" "?t K" "?t V"] r[OF jm] obtain s2 where
    s2: "attend G m js l n (int (bj_len ?j)) (int (bj_past ?j)) (concat (Q ?j) @ ?t Q) (concat (K ?j) @ ?t K) (concat (V ?j) @ ?t V) a s1
        = Inr (concat (A ?j) @ drop (bj_len ?j * d_q M) a, s2)"
      "ready M js s2" "keeps M js s1 s2" "view M s2 ?j l (bj_past ?j + bj_len ?j) = (fst (h ?j) @ K ?j, snd (h ?j) @ V ?j)"
      "\<forall>j \<in> set js. \<forall>l' n. n \<le> bj_past j + bj_len j \<longrightarrow> (l' \<noteq> l \<or> j \<noteq> ?j) \<longrightarrow> view M s2 j l' n = view M s1 j l' n"
    unfolding A_def by blast
  have off: "nat (int ?off * int w) = ?off * w" for w by (simp add: nat_mult_distrib)
  have sp: "item_spans 0 (map bj_toks js) ! n = (int ?off, int (bj_len ?j))" using item_spans_nth[OF n, of 0] by simp
  have vg: "vec_get (map (\<lambda>j. int (bj_past j)) js) (int n) = Inr (int (bj_past ?j))" using n by (simp add: vec_get_nat)
  have pt: "ptr (b_q b) (int ?off * int (d_q M)) = concat (Q ?j) @ ?t Q" "ptr (b_k b) (int ?off * int (d_kv M)) = concat (K ?j) @ ?t K"
    "ptr (b_v b) (int ?off * int (d_kv M)) = concat (V ?j) @ ?t V" "ptr (pa @ a) (int ?off * int (d_q M)) = a"
    unfolding ptr_def off b using jobs_before(2)[OF n, of "d_q M" Q] jobs_before(2)[OF n, of "d_kv M" K] jobs_before(2)[OF n, of "d_kv M" V] r lpa by simp_all
  have "batch_attend m (attend G m js) (item_spans 0 (map bj_toks js)) (map (\<lambda>j. int (bj_past j)) js) l n (b\<lparr>b_attn := pa @ a\<rparr>, s1)
      = Inr (b\<lparr>b_attn := pa @ concat (A ?j) @ drop (bj_len ?j * d_q M) a\<rparr>, s2)"
    unfolding batch_attend_def prod.case sp vg res_bind_Inr D off using lpa by (simp add: pt s2(1))
  moreover have "pa @ concat (A ?j) = concat (concat (map A (take (Suc n) js)))" using n by (simp add: pa_def take_Suc_conv_app_nth)
  moreover have "drop (bj_len ?j * d_q M) a = drop (job_lens (take (Suc n) js) * d_q M) (b_attn b)"
    using n by (simp add: a_def take_Suc_conv_app_nth distrib_right add.commute)
  ultimately have run: "res_fold (batch_attend m (attend G m js) (item_spans 0 (map bj_toks js)) (map (\<lambda>j. int (bj_past j)) js) l) [0..<Suc n] (b, st)
      = Inr (b\<lparr>b_attn := concat (concat (map A (take (Suc n) js))) @ drop (job_lens (take (Suc n) js) * d_q M) (b_attn b)\<rparr>, s2)"
    using s1(1) by (simp add: res_fold_append pa_def[symmetric] a_def[symmetric] del: append_assoc)
  have "attended M js l (\<lambda>j. (fst (h j) @ K j, snd (h j) @ V j)) (Suc n) st s2"
    by (rule attended_Suc[OF s1(2) n s2(2,3)]) (use s2(4,5) in simp_all)
  then show ?case using run by blast
qed

lemma dev_layer_ok:
  assumes S: "gpu_setup G M m (job_lens js)" and rd: "ready M js st" and l: "l < n_layers M"
    and ne: "\<And>j. j \<in> set js \<Longrightarrow> 0 < bj_len j" and b: "bufs_ok M (job_lens js) b" "b_x b = concat (concat (map X js))"
    and x: "\<And>j. j \<in> set js \<Longrightarrow> rect (bj_len j) (d_model M) (X j)"
    and h: "\<And>j. j \<in> set js \<Longrightarrow> view M st j l (bj_past j) = h j"
  defines "Y \<equiv> \<lambda>j. row_layer (gpu_rows G M) l (bj_past j) (X j) (h j)"
  shows "\<exists>b' st'. gpu_batch_layer G m (attend G m js) (item_spans 0 (map bj_toks js)) (map (\<lambda>j. int (bj_past j)) js) (int (job_lens js))
      (concat (map job_positions js)) l (b, st) = Inr (b', st')
    \<and> bufs_ok M (job_lens js) b' \<and> b_x b' = concat (concat (map (\<lambda>j. fst (Y j)) js))
    \<and> attended M js l (\<lambda>j. snd (Y j)) (length js) st st'"
proof -
  note S' = gpu_setupD[OF S]
  have ok: "sgemm_rowwise (fst (G, M)) \<and> model_ok (snd (G, M))" using S' by simp
  let ?R = "gpu_rows G M" and ?T = "job_lens js" and ?ps = "concat (map job_positions js)"
  let ?Q = "\<lambda>j. map2 (ro_q ?R l) (job_positions j) (X j)" and ?K = "\<lambda>j. map2 (ro_k ?R l) (job_positions j) (X j)" and ?V = "\<lambda>j. map (ro_v ?R l) (X j)"
  have xl: "length (X j) = bj_len j" if "j \<in> set js" for j using x[OF that] by (simp add: rect_def)
  have r: "rect (bj_len j) (d_q M) (?Q j) \<and> rect (bj_len j) (d_kv M) (?K j) \<and> rect (bj_len j) (d_kv M) (?V j)" if "j \<in> set js" for j
    using gr.qkv_rect[OF ok, simplified fst_conv snd_conv, OF l x[OF that], of "job_positions j"] by simp
  have X: "rect ?T (d_model M) (concat (map X js))" by (rule rect_concat_jobs) (rule x)
  have lp: "length ?ps = ?T" by (simp add: length_concat comp_def)
  have q: "map2 (ro_q ?R l) ?ps (concat (map X js)) = concat (map ?Q js)" and k: "map2 (ro_k ?R l) ?ps (concat (map X js)) = concat (map ?K js)"
    using xl by (auto intro!: map2_concat_jobs)
  have v: "map (ro_v ?R l) (concat (map X js)) = concat (map ?V js)" by (simp add: map_concat comp_def)
  from gpu_qkv_ok[OF S l b(1) X b(2) lp] obtain nb where nb: "length nb = ?T * d_model M"
    "gpu_qkv G m (int ?T) ?ps l b = Inr (b\<lparr>b_normed := nb, b_q := concat (concat (map ?Q js)), b_k := concat (concat (map ?K js)), b_v := concat (concat (map ?V js))\<rparr>)"
    unfolding q k v by blast
  define b1 where "b1 = b\<lparr>b_normed := nb, b_q := concat (concat (map ?Q js)), b_k := concat (concat (map ?K js)), b_v := concat (concat (map ?V js))\<rparr>"
  have RQ: "rect ?T (d_q M) (concat (map ?Q js))" "rect ?T (d_kv M) (concat (map ?K js))" "rect ?T (d_kv M) (concat (map ?V js))"
    using r by (auto intro!: rect_concat_jobs)
  have b1: "bufs_ok M ?T b1" unfolding b1_def
    by (rule bufs_ok_qkv[OF b(1) nb(1) rect_data_length[OF RQ(1)] rect_data_length[OF RQ(2)] rect_data_length[OF RQ(3)]])
  let ?A = "\<lambda>j. row_attn ?R (bj_past j) (?Q j) (fst (h j) @ ?K j) (snd (h j) @ ?V j)"
  have bf: "b_q b1 = concat (concat (map ?Q js))" "b_k b1 = concat (concat (map ?K js))" "b_v b1 = concat (concat (map ?V js))" by (simp_all add: b1_def)
  from items_attend_ok[OF S rd l ne r bf bufs_okD(6)[OF b1] h order_refl] obtain s1 where
    s1: "res_fold (batch_attend m (attend G m js) (item_spans 0 (map bj_toks js)) (map (\<lambda>j. int (bj_past j)) js) l) [0..<length js] (b1, st)
      = Inr (b1\<lparr>b_attn := concat (concat (map ?A js))\<rparr>, s1)"
      "attended M js l (\<lambda>j. (fst (h j) @ ?K j, snd (h j) @ ?V j)) (length js) st s1"
    using bufs_okD(6)[OF b1] by auto
  have rA: "rect (bj_len j) (d_q M) (?A j)" if "j \<in> set js" for j
  proof -
    have "hist_ok (bj_past j) (d_kv M) (h j)" using view_ok[OF rd that l, of "bj_past j"] h[OF that] by simp
    then have "rect (bj_past j + bj_len j) (d_kv M) (snd (h j) @ ?V j)" using r[OF that] by (auto simp: hist_ok_def intro!: rect_append)
    then show ?thesis using gr.attn_rect[OF ok, simplified fst_conv snd_conv, of "bj_len j" "?Q j"] r[OF that] by simp
  qed
  have RA: "rect ?T (d_q M) (concat (map ?A js))" by (rule rect_concat_jobs) (rule rA)
  have b2: "bufs_ok M ?T (b1\<lparr>b_attn := concat (concat (map ?A js))\<rparr>)" by (rule bufs_ok_attn[OF b1 rect_data_length[OF RA]])
  have f2: "b_x (b1\<lparr>b_attn := concat (concat (map ?A js))\<rparr>) = concat (concat (map X js))"
    "b_attn (b1\<lparr>b_attn := concat (concat (map ?A js))\<rparr>) = concat (concat (map ?A js))" using b(2) by (simp_all add: b1_def)
  from gpu_attn_mlp_ok[OF S l b2 X f2(1) RA f2(2)] obtain b' where
    b': "gpu_attn_mlp G m (int ?T) l (b1\<lparr>b_attn := concat (concat (map ?A js))\<rparr>) = Inr b'" "bufs_ok M ?T b'"
      "b_x b' = concat (map2 (ro_post ?R l) (concat (map X js)) (concat (map ?A js)))" by blast
  have Y: "Y j = (map2 (ro_post ?R l) (X j) (?A j), (fst (h j) @ ?K j, snd (h j) @ ?V j))" if "j \<in> set js" for j
    unfolding Y_def row_layer_def Let_def xl[OF that] job_positions_chunk ..
  have la: "length (X j) = length (?A j)" if "j \<in> set js" for j using xl[OF that] rA[OF that] by (simp add: rect_def)
  have "map2 (ro_post ?R l) (concat (map X js)) (concat (map ?A js)) = concat (map (\<lambda>j. map2 (ro_post ?R l) (X j) (?A j)) js)"
    by (rule map2_concat_jobs) (rule la)
  also have "map (\<lambda>j. map2 (ro_post ?R l) (X j) (?A j)) js = map (\<lambda>j. fst (Y j)) js" by (intro map_cong refl) (simp add: Y)
  finally have out: "b_x b' = concat (concat (map (\<lambda>j. fst (Y j)) js))" using b'(3) by simp
  have "gpu_batch_layer G m (attend G m js) (item_spans 0 (map bj_toks js)) (map (\<lambda>j. int (bj_past j)) js) (int ?T) ?ps l (b, st) = Inr (b', s1)"
    unfolding gpu_batch_layer_def prod.case nb(2) b1_def[symmetric] res_bind_Inr length_item_spans length_map s1(1) b'(1) ..
  moreover have "attended M js l (\<lambda>j. snd (Y j)) (length js) st s1"
    using s1(2) Y by (simp add: attended_def)
  ultimately show ?thesis using b'(2) out by blast
qed

lemma dev_layers_ok:
  assumes S: "gpu_setup G M m (job_lens js)" and rd: "ready M js st"
    and ne: "\<And>j. j \<in> set js \<Longrightarrow> 0 < bj_len j" and b: "bufs_ok M (job_lens js) b" "b_x b = concat (concat (map X js))"
    and x: "\<And>j. j \<in> set js \<Longrightarrow> rect (bj_len j) (d_model M) (X j)"
    and h: "\<And>j l. j \<in> set js \<Longrightarrow> l < n_layers M \<Longrightarrow> view M st j l (bj_past j) = H j l"
  shows "L \<le> n_layers M \<Longrightarrow> \<exists>b' st'. res_fold (gpu_batch_layer G m (attend G m js) (item_spans 0 (map bj_toks js)) (map (\<lambda>j. int (bj_past j)) js)
        (int (job_lens js)) (concat (map job_positions js))) [0..<L] (b, st) = Inr (b', st')
    \<and> bufs_ok M (job_lens js) b' \<and> b_x b' = concat (concat (map (\<lambda>j. fst (row_stack (gpu_rows G M) L (bj_past j) (X j) (H j))) js))
    \<and> ready M js st' \<and> keeps M js st st'
    \<and> (\<forall>j \<in> set js. (\<forall>l < L. view M st' j l (bj_past j + bj_len j) = snd (row_stack (gpu_rows G M) L (bj_past j) (X j) (H j)) l)
        \<and> (\<forall>l n. L \<le> l \<longrightarrow> n \<le> bj_past j + bj_len j \<longrightarrow> view M st' j l n = view M st j l n))"
proof (induction L)
  case 0
  then show ?case using b rd keeps_refl[OF rd] by simp
next
  case (Suc L)
  note S' = gpu_setupD[OF S]
  have ok: "sgemm_rowwise (fst (G, M)) \<and> model_ok (snd (G, M))" using S' by simp
  let ?st = "\<lambda>L j. row_stack (gpu_rows G M) L (bj_past j) (X j) (H j)"
  from Suc obtain b1 s1 where 1: "res_fold (gpu_batch_layer G m (attend G m js) (item_spans 0 (map bj_toks js)) (map (\<lambda>j. int (bj_past j)) js)
        (int (job_lens js)) (concat (map job_positions js))) [0..<L] (b, st) = Inr (b1, s1)"
    "bufs_ok M (job_lens js) b1" "b_x b1 = concat (concat (map (\<lambda>j. fst (?st L j)) js))" "ready M js s1" "keeps M js st s1"
    "\<forall>j \<in> set js. (\<forall>l < L. view M s1 j l (bj_past j + bj_len j) = snd (?st L j) l)
        \<and> (\<forall>l n. L \<le> l \<longrightarrow> n \<le> bj_past j + bj_len j \<longrightarrow> view M s1 j l n = view M st j l n)" by auto
  have L: "L < n_layers M" using Suc.prems by simp
  have x1: "rect (bj_len j) (d_model M) (fst (?st L j))" if j: "j \<in> set js" for j
  proof -
    have "\<forall>l < n_layers M. hist_ok (bj_past j) (d_kv M) (H j l)" using view_ok[OF rd j, of _ "bj_past j"] h[OF j] by simp
    then show ?thesis using gr.stack_rect[OF ok, simplified fst_conv snd_conv, OF x[OF j], of "bj_past j" "H j" L] L by simp
  qed
  have h1: "view M s1 j L (bj_past j) = snd (?st L j) L" if "j \<in> set js" for j
    using 1(6) h[OF that L] that by (simp add: row_stack_other)
  from dev_layer_ok[OF S 1(4) L ne 1(2,3) x1 h1] obtain b2 s2 where
    2: "gpu_batch_layer G m (attend G m js) (item_spans 0 (map bj_toks js)) (map (\<lambda>j. int (bj_past j)) js) (int (job_lens js))
      (concat (map job_positions js)) L (b1, s1) = Inr (b2, s2)" "bufs_ok M (job_lens js) b2"
      "b_x b2 = concat (concat (map (\<lambda>j. fst (row_layer (gpu_rows G M) L (bj_past j) (fst (?st L j)) (snd (?st L j) L))) js))"
      "attended M js L (\<lambda>j. snd (row_layer (gpu_rows G M) L (bj_past j) (fst (?st L j)) (snd (?st L j) L))) (length js) s1 s2" by blast
  have st: "?st (Suc L) j = (fst (row_layer (gpu_rows G M) L (bj_past j) (fst (?st L j)) (snd (?st L j) L)),
      (snd (?st L j))(L := snd (row_layer (gpu_rows G M) L (bj_past j) (fst (?st L j)) (snd (?st L j) L))))" for j
    by (simp add: case_prod_unfold Let_def)
  have "(\<forall>l < Suc L. view M s2 j l (bj_past j + bj_len j) = snd (?st (Suc L) j) l)
        \<and> (\<forall>l n. Suc L \<le> l \<longrightarrow> n \<le> bj_past j + bj_len j \<longrightarrow> view M s2 j l n = view M st j l n)" if j: "j \<in> set js" for j
  proof (intro conjI allI impI)
    fix l assume l: "l < Suc L"
    show "view M s2 j l (bj_past j + bj_len j) = snd (?st (Suc L) j) l"
    proof (cases "l = L")
      case True
      from j obtain i where "i < length js" "j = js ! i" by (metis in_set_conv_nth)
      then show ?thesis using 2(4) True unfolding st by (simp add: attended_def)
    next
      case False
      then show ?thesis using 2(4) 1(6) j l unfolding st by (simp add: attended_def)
    qed
  next
    fix l n assume "Suc L \<le> l" "n \<le> bj_past j + bj_len j"
    then show "view M s2 j l n = view M st j l n" using 2(4) 1(6) j by (simp add: attended_def)
  qed
  then show ?case using 1 2 keeps_trans[OF 1(5)] unfolding st fst_conv
    by (intro exI[of _ b2] exI[of _ s2]) (simp add: res_fold_append attended_def)
qed

end

section \<open>The logits of the last rows\<close>

lemma gather_lasts_ok:
  assumes y: "\<And>j. j \<in> set js \<Longrightarrow> rect (bj_len j) h (Y j) \<and> 0 < bj_len j" and d: "length d = length js * h"
  shows "res_fold (gather_last (int h) (concat (concat (map Y js))) (item_spans 0 (map bj_toks js))) [0..<length js] d
    = Inr (concat (map (\<lambda>j. last (Y j)) js))"
proof -
  have R: "rect (job_lens js) h (concat (map Y js))" using y by (intro rect_concat_jobs) simp
  define N where "N = concat (concat (map Y js))"
  have "res_fold (gather_last (int h) N (item_spans 0 (map bj_toks js))) [0..<length js] d
      = Inr (concat (map (\<lambda>i. last (Y (js ! i))) [0..<length js]))"
  proof (rule res_fold_fill)
    fix i and d :: "f32 list" assume i: "i < length js" and d: "length d = length js * h"
    let ?k = "job_lens (take i js) + (bj_len (js ! i) - 1)"
    have ne: "0 < bj_len (js ! i)" and rj: "rect (bj_len (js ! i)) h (Y (js ! i))" using y[of "js ! i"] i by simp_all
    have k: "?k < job_lens js" using job_lens_take[OF i] ne by linarith
    have "concat (map Y js) ! ?k = Y (js ! i) ! (bj_len (js ! i) - 1)"
      using ne i y by (intro concat_job_nth) (auto simp: rect_def)
    also have "\<dots> = last (Y (js ! i))" using rj ne by (metis last_conv_nth length_0_conv not_less_zero rect_def)
    finally have lst: "row h ?k N = last (Y (js ! i))" using rect_row[OF R k] by (simp add: N_def)
    have sl: "slice (?k * h) h N = last (Y (js ! i))" using lst by (simp add: row_def)
    have "memcpy d (int (i * h)) N (int (?k * h)) (int h) = Inr (blit (i * h) (last (Y (js ! i))) d)"
      unfolding sl[symmetric] using row_in_bounds[OF i, of h "length d"] row_in_bounds[OF k, of h] rect_data_length[OF R] d
      by (intro memcpy_ok) (auto simp: N_def)
    moreover have "int (job_lens (take i js)) + int (bj_len (js ! i)) - 1 = int ?k"
    proof -
      have "1 \<le> bj_len (js ! i)" using ne by linarith
      from of_nat_diff[OF this, where 'a = int] show ?thesis by simp
    qed
    moreover have "item_spans 0 (map bj_toks js) ! i = (int (job_lens (take i js)), int (bj_len (js ! i)))" using item_spans_nth[OF i, of 0] by simp
    ultimately show "gather_last (int h) N (item_spans 0 (map bj_toks js)) i d = Inr (blit (i * h) (last (Y (js ! i))) d)"
      unfolding gather_last_def by (simp only: prod.case of_nat_mult)
  next
    show "length (last (Y (js ! i))) = h" if "i < length js" for i
    proof -
      have "Y (js ! i) \<noteq> []" "rect (bj_len (js ! i)) h (Y (js ! i))" using y[of "js ! i"] that by (auto simp: rect_def)
      then show ?thesis by (simp add: rect_def)
    qed
  qed (use d in simp_all)
  moreover have "map (\<lambda>i. last (Y (js ! i))) [0..<length js] = map (\<lambda>j. last (Y j)) js"
    by (rule nth_equalityI) auto
  ultimately show ?thesis by (simp only: N_def)
qed

section \<open>The batch\<close>

context gpu_batch
begin

lemma batch_device_ok:
  assumes S: "gpu_setup G M m (job_lens js)" and js: "js \<noteq> []" and ids: "\<And>j. j \<in> set js \<Longrightarrow> bj_toks j \<noteq> [] \<and> ids_ok M (bj_toks j)"
    and rd: "ready M js st" and h: "\<And>j l. j \<in> set js \<Longrightarrow> l < n_layers M \<Longrightarrow> view M st j l (bj_past j) = H j l"
  defines "spec \<equiv> \<lambda>j. gpu_forward_rows G M (bj_past j) (bj_toks j) (H j)"
  shows "\<exists>st'. gpu_forward_batch_device G m (map bj_toks js) (map (\<lambda>j. int (bj_past j)) js) (attend G m js) st
      = Inr (concat (map (\<lambda>j. last (fst (spec j))) js), st')
    \<and> rect (length js) (n_vocab M) (map (\<lambda>j. last (fst (spec j))) js) \<and> ready M js st' \<and> keeps M js st st'
    \<and> (\<forall>j \<in> set js. \<forall>l < n_layers M. view M st' j l (bj_past j + bj_len j) = snd (spec j) l)"
proof -
  note S' = gpu_setupD[OF S] and D = gm_dims[OF gpu_setupD(3,4)[OF S]]
  have ok: "sgemm_rowwise (fst (G, M)) \<and> model_ok (snd (G, M))" using S' by simp
  let ?T = "job_lens js" and ?ids = "concat (map bj_toks js)" and ?b = "fresh_bufs G m (int (job_lens js))"
  have ne: "0 < bj_len j" if "j \<in> set js" for j using ids[OF that] by simp
  have T: "length ?ids = ?T" by (simp add: length_concat comp_def)
  have o: "ids_ok M ?ids" using ids by (auto simp: ids_ok_def)
  have b: "bufs_ok M ?T ?b" by (rule fresh_bufs_ok[OF S'(3,4)])
  note E = gpu_embed_ok[OF _ o, unfolded T, OF S bufs_okD(1)[OF b]]
  let ?X = "\<lambda>j. embed_rows M (bj_toks j)"
  have X: "embed_rows M ?ids = concat (map ?X js)" by (simp add: embed_rows_def map_concat comp_def)
  have rX: "rect (bj_len j) (d_model M) (?X j)" if "j \<in> set js" for j using embed_rows_rect[OF S'(3)] ids[OF that] by blast
  have RX: "rect ?T (d_model M) (concat (map ?X js))" by (rule rect_concat_jobs) (rule rX)
  define b1 where "b1 = ?b\<lparr>b_x := concat (concat (map ?X js))\<rparr>"
  have b1: "bufs_ok M ?T b1" "b_x b1 = concat (concat (map ?X js))" using b rect_data_length[OF RX] by (simp_all add: b1_def bufs_ok_def)
  let ?st = "\<lambda>j. row_stack (gpu_rows G M) (n_layers M) (bj_past j) (?X j) (H j)"
  from dev_layers_ok[OF S rd ne b1 rX h order_refl] obtain b2 s2 where
    2: "res_fold (gpu_batch_layer G m (attend G m js) (item_spans 0 (map bj_toks js)) (map (\<lambda>j. int (bj_past j)) js)
        (int ?T) (concat (map job_positions js))) [0..<n_layers M] (b1, st) = Inr (b2, s2)"
      "bufs_ok M ?T b2" "b_x b2 = concat (concat (map (\<lambda>j. fst (?st j)) js))" "ready M js s2" "keeps M js st s2"
      "\<forall>j \<in> set js. \<forall>l < n_layers M. view M s2 j l (bj_past j + bj_len j) = snd (?st j) l" by blast
  have rS: "rect (bj_len j) (d_model M) (fst (?st j))" if j: "j \<in> set js" for j
  proof -
    have "\<forall>l < n_layers M. hist_ok (bj_past j) (d_kv M) (H j l)" using view_ok[OF rd j, of _ "bj_past j"] h[OF j] by simp
    then show ?thesis using gr.stack_rect[OF ok, simplified fst_conv snd_conv, OF rX[OF j], of "bj_past j" "H j" "n_layers M"] by simp
  qed
  have RS: "rect ?T (d_model M) (concat (map (\<lambda>j. fst (?st j)) js))" by (rule rect_concat_jobs) (rule rS)
  let ?nrm = "gnorm_row G M ''model.norm.weight''" and ?lin = "gpu_lin_row G (d_model M) (n_vocab M) (t_data (lm_head_weight M)) None"
  note N = gpu_final_ok[OF S 2(2) RS 2(3)]
  have mapN: "map ?nrm (concat (map (\<lambda>j. fst (?st j)) js)) = concat (map (\<lambda>j. map ?nrm (fst (?st j))) js)" by (simp add: map_concat comp_def)
  have rN: "rect (bj_len j) (d_model M) (map ?nrm (fst (?st j))) \<and> 0 < bj_len j" if "j \<in> set js" for j
    using gpu_final_ok(2)[of G M m "bj_len j" "fresh_bufs G m (int (bj_len j))\<lparr>b_x := concat (fst (?st j))\<rparr>", OF _ _ rS[OF that]]
      fresh_bufs_ok[OF S'(3,4), of "bj_len j" G] rect_data_length[OF rS[OF that]] ne[OF that]
      gpu_setup_mono[OF S, of "bj_len j"] member_le_sum_list[of "bj_len j" "map bj_len js"] that
    by (simp add: bufs_ok_def)
  have G': "res_fold (gather_last (int (d_model M)) (concat (concat (map (\<lambda>j. map ?nrm (fst (?st j))) js))) (item_spans 0 (map bj_toks js))) [0..<length js]
      (device_array G (int (length js) * int (d_model M))) = Inr (concat (map (\<lambda>j. last (map ?nrm (fst (?st j)))) js))"
    by (rule gather_lasts_ok[OF rN]) (simp_all add: device_array_def flip: of_nat_mult)
  have RL: "rect (length js) (d_model M) (map (\<lambda>j. last (map ?nrm (fst (?st j)))) js)"
  proof -
    have "length (last (map ?nrm (fst (?st j)))) = d_model M" if "j \<in> set js" for j
    proof -
      have "length (map ?nrm (fst (?st j))) = bj_len j" using rN[OF that] by (simp only: rect_def)
      then have "map ?nrm (fst (?st j)) \<noteq> []" using ne[OF that] by (metis length_0_conv not_less_zero)
      then show ?thesis using rN[OF that] last_in_set unfolding rect_def by blast
    qed
    then show ?thesis by (auto simp: rect_def)
  qed
  have le: "length js \<le> ?T" using sum_list_mono[of js "\<lambda>_. 1" bj_len] ne by (force simp: sum_list_triv Suc_leI)
  note Hd = gpu_head_ok[OF gpu_setup_mono[OF S le] RL]
  have sp: "last (fst (spec j)) = ?lin (last (map ?nrm (fst (?st j))))" "snd (spec j) = snd (?st j)" if "j \<in> set js" for j
  proof -
    have "length (fst (?st j)) = bj_len j" using rS[OF that] by (simp only: rect_def)
    then have "fst (?st j) \<noteq> []" using ne[OF that] by (metis length_0_conv not_less_zero)
    then show "last (fst (spec j)) = ?lin (last (map ?nrm (fst (?st j))))" "snd (spec j) = snd (?st j)"
      by (simp_all add: spec_def gpu_forward_rows_def case_prod_unfold Let_def gpu_rows_def last_map)
  qed
  have mapL: "map ?lin (map (\<lambda>j. last (map ?nrm (fst (?st j)))) js) = map (\<lambda>j. last (fst (spec j))) js" using sp(1) by simp
  have e: "[] \<notin> set (map bj_toks js)" "map bj_toks js \<noteq> []" using ids js by (auto simp: image_iff dest: sym)
  have pos: "concat (map2 (\<lambda>ids past. map (\<lambda>t. past + int t) [0..<length ids]) (map bj_toks js) (map (\<lambda>j. int (bj_past j)) js)) = concat (map job_positions js)"
    using batch_positions .
  have "gpu_forward_batch_device G m (map bj_toks js) (map (\<lambda>j. int (bj_past j)) js) (attend G m js) st
      = Inr (concat (map (\<lambda>j. last (fst (spec j))) js), s2)"
    using e unfolding gpu_forward_batch_device_def Let_def T pos D E(1) res_bind_Inr E(2) X
    by (simp add: 2(1) b1_def[symmetric] N(1) G' Hd(1) mapN mapL del: map_map)
  then show ?thesis using Hd(2) 2(4-6) sp(2) unfolding mapL by auto
qed

end

end
