(* ===== verification/Cuda_Batch_Cache.thy ===== *)
theory Cuda_Batch_Cache
  imports Cuda_Batch Batch_Content
begin

text \<open>
  \<open>forward_batch\<close> and \<open>forward_batch_argmax\<close>: batches over one contiguous device cache per
  item. The callback \<open>cache_attend\<close> is an instance of \<open>gpu_batch\<close>; with the caches at the
  contexts of their sequences, every item gets the logits of a forward over its context alone.
\<close>

section \<open>The callback\<close>

definition gpu_item_of :: "bjob \<Rightarrow> gpu_item" where
  "gpu_item_of j = \<lparr>gi_cache = Some (bj_addr j), gi_tokens = bj_toks j\<rparr>"

definition cache_ready :: "model \<Rightarrow> bjob list \<Rightarrow> gpu_store \<Rightarrow> bool" where
  "cache_ready M js st \<longleftrightarrow> distinct (map bj_addr js)
     \<and> (\<forall>j \<in> set js. \<exists>c cap. st (bj_addr j) = Some c \<and> gk_shape (n_layers M) (d_kv M) cap c
          \<and> gk_length c = int (bj_past j) \<and> bj_past j + bj_len j \<le> cap)"

definition cache_view :: "model \<Rightarrow> gpu_store \<Rightarrow> bjob \<Rightarrow> nat \<Rightarrow> nat \<Rightarrow> hist" where
  "cache_view M st j l n = (case st (bj_addr j) of None \<Rightarrow> ([], []) | Some c \<Rightarrow> gk_view (d_kv M) c l n)"

definition cache_keeps :: "model \<Rightarrow> bjob list \<Rightarrow> gpu_store \<Rightarrow> gpu_store \<Rightarrow> bool" where
  "cache_keeps M js st st' \<longleftrightarrow> (\<forall>a. a \<notin> bj_addr ` set js \<longrightarrow> st' a = st a)
     \<and> (\<forall>a c. st a = Some c \<longrightarrow> (\<exists>c'. st' a = Some c' \<and> gk_capacity c' = gk_capacity c))"

lemma cache_ready_job:
  assumes "cache_ready M js st" "j \<in> set js"
  obtains c cap where "st (bj_addr j) = Some c" "gk_shape (n_layers M) (d_kv M) cap c" "gk_length c = int (bj_past j)"
    "bj_past j + bj_len j \<le> cap"
  using assms by (auto simp: cache_ready_def)

lemma gk_view_ok:
  assumes "gk_shape nl w cap c" "l < nl" "n \<le> cap"
  shows "hist_ok n w (gk_view w c l n)"
proof -
  have "n * w \<le> cap * w" using assms(3) by simp
  then have "n * w \<le> length (gk_keys c ! l)" "n * w \<le> length (gk_values c ! l)" using gk_shapeD(6,7)[OF assms(1,2)] by simp_all
  then show ?thesis using rows_mem_length unfolding hist_ok_def gk_view_def rect_def fst_conv snd_conv by (metis length_rows)
qed

lemma cache_attend_ok:
  assumes S: "gpu_setup G M m (bj_len (js ! i))" and rd: "cache_ready M js st" and i: "i < length js" and ne: "0 < bj_len (js ! i)"
    and l: "l < n_layers M" and h: "cache_view M st (js ! i) l (bj_past (js ! i)) = h"
    and q: "rect (bj_len (js ! i)) (d_q M) q" and k: "rect (bj_len (js ! i)) (d_kv M) k" and v: "rect (bj_len (js ! i)) (d_kv M) v"
    and a: "bj_len (js ! i) * d_q M \<le> length attn"
  shows "\<exists>st'. cache_attend G m (map gpu_item_of js) l i (int (bj_len (js ! i))) (int (bj_past (js ! i)))
        (concat q @ qe) (concat k @ ke) (concat v @ ve) attn st
      = Inr (concat (row_attn (gpu_rows G M) (bj_past (js ! i)) q (fst h @ k) (snd h @ v)) @ drop (bj_len (js ! i) * d_q M) attn, st')
    \<and> cache_ready M js st' \<and> cache_keeps M js st st' \<and> cache_view M st' (js ! i) l (bj_past (js ! i) + bj_len (js ! i)) = (fst h @ k, snd h @ v)
    \<and> (\<forall>j \<in> set js. \<forall>l' n. n \<le> bj_past j + bj_len j \<longrightarrow> (l' \<noteq> l \<or> j \<noteq> js ! i) \<longrightarrow> cache_view M st' j l' n = cache_view M st j l' n)"
proof -
  let ?j = "js ! i"
  have jm: "?j \<in> set js" using i by simp
  obtain c cap where c: "st (bj_addr ?j) = Some c" "gk_shape (n_layers M) (d_kv M) cap c" "gk_length c = int (bj_past ?j)"
    "bj_past ?j + bj_len ?j \<le> cap" by (rule cache_ready_job[OF rd jm])
  note LK = rect_data_length[OF k] and LV = rect_data_length[OF v] and LQ = rect_data_length[OF q]
  from gpu_kv_append_ok[OF c(2) l c(3,4) ne, of "concat k @ ke" "concat v @ ve"] LK LV obtain c1 where
    c1: "gpu_kv_append (int l) (concat k @ ke) (concat v @ ve) (int (bj_len ?j)) c = Inr c1" "gk_shape (n_layers M) (d_kv M) cap c1"
      "gk_length c1 = int (bj_past ?j)"
      "gk_view (d_kv M) c1 l (bj_past ?j + bj_len ?j) = (fst (gk_view (d_kv M) c l (bj_past ?j)) @ rows (d_kv M) (bj_len ?j) (concat k @ ke),
        snd (gk_view (d_kv M) c l (bj_past ?j)) @ rows (d_kv M) (bj_len ?j) (concat v @ ve))"
      "\<forall>l' n. (l' \<noteq> l \<or> n \<le> bj_past ?j) \<longrightarrow> gk_view (d_kv M) c1 l' n = gk_view (d_kv M) c l' n" by auto
  note D1 = gk_shapeD[OF c1(2)]
  have r: "rows (d_kv M) (bj_len ?j) (concat k @ ke) = k" "rows (d_kv M) (bj_len ?j) (concat v @ ve) = v" "rows (d_q M) (bj_len ?j) (concat q @ qe) = q"
    using rect_rows[OF k] rect_rows[OF v] rect_rows[OF q] rows_take[of "bj_len ?j" "bj_len ?j" "d_kv M" "concat k" ke]
      rows_take[of "bj_len ?j" "bj_len ?j" "d_kv M" "concat v" ve] rows_take[of "bj_len ?j" "bj_len ?j" "d_q M" "concat q" qe] LK LV LQ by simp_all
  have view: "rows (d_kv M) (bj_past ?j + bj_len ?j) (gk_keys c1 ! l) = fst h @ k" "rows (d_kv M) (bj_past ?j + bj_len ?j) (gk_values c1 ! l) = snd h @ v"
    using c1(4) c(1) r by (auto simp: gk_view_def cache_view_def simp flip: h)
  have kp: "gpu_kv_key_ptr (int l) c1 = Inr (gk_keys c1 ! l)" "gpu_kv_value_ptr (int l) c1 = Inr (gk_values c1 ! l)"
    using D1(4,5) l by (simp_all add: gpu_kv_key_ptr_def gpu_kv_value_ptr_def vec_get_nat)
  have cap: "(bj_past ?j + bj_len ?j) * d_kv M \<le> cap * d_kv M" using c(4) by (rule mult_le_mono1)
  have at: "gpu_attention G m (concat q @ qe) (gk_keys c1 ! l) (gk_values c1 ! l) attn (int (bj_len ?j)) (int (bj_past ?j))
      = Inr (concat (row_attn (gpu_rows G M) (bj_past ?j) q (fst h @ k) (snd h @ v)) @ drop (bj_len ?j * d_q M) attn)"
    using gpu_attention_ok[OF S ne order_refl, of "concat q @ qe" "bj_past ?j" "gk_keys c1 ! l" "gk_values c1 ! l" attn] LQ cap D1(6,7)[OF l] a
    unfolding view r by simp
  let ?st = "st(bj_addr ?j := Some c1)"
  have run: "cache_attend G m (map gpu_item_of js) l i (int (bj_len ?j)) (int (bj_past ?j)) (concat q @ qe) (concat k @ ke) (concat v @ ve) attn st
      = Inr (concat (row_attn (gpu_rows G M) (bj_past ?j) q (fst h @ k) (snd h @ v)) @ drop (bj_len ?j * d_q M) attn, ?st)"
    using i c(1) c1(1) kp at by (simp add: cache_attend_def gpu_item_of_def gpu_deref_def gpu_put_def)
  have other: "bj_addr j \<noteq> bj_addr ?j" if "j \<in> set js" "j \<noteq> ?j" for j
    using rd that jm by (auto simp: cache_ready_def distinct_map inj_on_def)
  have "cache_ready M js ?st"
    unfolding cache_ready_def
  proof (intro conjI ballI)
    fix j assume j: "j \<in> set js"
    show "\<exists>c cap. ?st (bj_addr j) = Some c \<and> gk_shape (n_layers M) (d_kv M) cap c \<and> gk_length c = int (bj_past j) \<and> bj_past j + bj_len j \<le> cap"
    proof (cases "j = ?j")
      case True
      then show ?thesis using c1(2,3) c(4) by auto
    next
      case False
      then show ?thesis using other[OF j False] cache_ready_job[OF rd j] by (metis fun_upd_other)
    qed
  qed (use rd in \<open>simp add: cache_ready_def\<close>)
  moreover have "cache_keeps M js st ?st"
    using jm c(1) D1(3) gk_shapeD(3)[OF c(2)] by (auto simp: cache_keeps_def)
  moreover have "cache_view M ?st ?j l (bj_past ?j + bj_len ?j) = (fst h @ k, snd h @ v)"
    using view by (simp add: cache_view_def gk_view_def)
  moreover have "cache_view M ?st j l' n = cache_view M st j l' n" if "j \<in> set js" "l' \<noteq> l \<or> j \<noteq> ?j" for j l' n
    using other[OF that(1)] that(2) c1(5) c(1) by (cases "j = ?j") (auto simp: cache_view_def)
  ultimately show ?thesis using run by blast
qed

interpretation cb: gpu_batch "\<lambda>G m js. cache_attend G m (map gpu_item_of js)" cache_ready cache_view cache_keeps
proof (unfold_locales, goal_cases)
  case (1 M js st)
  then show ?case by (auto simp: cache_ready_def simp: distinct_map)
next
  case (2 M js st j l n)
  then show ?case using gk_view_ok by (auto simp: cache_view_def elim!: cache_ready_job)
next
  case (3 M js st)
  then show ?case by (simp add: cache_keeps_def)
next
  case (4 M js st st1 st2)
  then show ?case unfolding cache_keeps_def by metis
next
  case 5
  then show ?case by (intro cache_attend_ok) 
qed

section \<open>Batches over caches that hold contexts\<close>

definition gpu_holds :: "gpu \<Rightarrow> model \<Rightarrow> gpu_kv \<Rightarrow> int list \<Rightarrow> bool" where
  "gpu_holds G M c ctx \<longleftrightarrow> (\<exists>cap. gpu_kv_at M cap (length ctx) (gpu_hist G M ctx) c)"

text \<open>The cache of the item holds the context \<open>ctx\<close> of its address and has room for its tokens.\<close>

definition gpu_item_ok :: "gpu \<Rightarrow> model \<Rightarrow> (int \<Rightarrow> int list) \<Rightarrow> gpu_store \<Rightarrow> gpu_item \<Rightarrow> bool" where
  "gpu_item_ok G M ctx st it \<longleftrightarrow> gi_tokens it \<noteq> [] \<and> ids_ok M (gi_tokens it)
     \<and> (\<exists>a c. gi_cache it = Some a \<and> st a = Some c \<and> gpu_holds G M c (ctx a)
          \<and> int (length (ctx a) + length (gi_tokens it)) \<le> gk_capacity c)"

definition item_ctx :: "(int \<Rightarrow> int list) \<Rightarrow> gpu_item \<Rightarrow> int list" where
  "item_ctx ctx it = ctx (the (gi_cache it)) @ gi_tokens it"

definition item_job :: "(int \<Rightarrow> int list) \<Rightarrow> gpu_item \<Rightarrow> bjob" where
  "item_job ctx it = \<lparr>bj_addr = the (gi_cache it), bj_toks = gi_tokens it, bj_past = length (ctx (the (gi_cache it))), bj_table = []\<rparr>"

text \<open>What a batch leaves behind.\<close>

definition gpu_extended :: "gpu \<Rightarrow> model \<Rightarrow> (int \<Rightarrow> int list) \<Rightarrow> gpu_item list \<Rightarrow> gpu_store \<Rightarrow> gpu_store \<Rightarrow> bool" where
  "gpu_extended G M ctx items st st' \<longleftrightarrow> (\<forall>a. Some a \<notin> gi_cache ` set items \<longrightarrow> st' a = st a)
     \<and> (\<forall>it \<in> set items. \<exists>c c'. st (the (gi_cache it)) = Some c \<and> st' (the (gi_cache it)) = Some c'
          \<and> gk_capacity c' = gk_capacity c \<and> gpu_holds G M c' (item_ctx ctx it))"

lemma advance_items_ok:
  "distinct (map bj_addr js) \<Longrightarrow> \<forall>j \<in> set js. st (bj_addr j) = Some (c j) \<Longrightarrow>
   \<exists>st'. res_fold gpu_advance_item (map gpu_item_of js) st = Inr st'
     \<and> (\<forall>j \<in> set js. st' (bj_addr j) = Some (gpu_kv_advance (int (bj_len j)) (c j))) \<and> (\<forall>a. a \<notin> bj_addr ` set js \<longrightarrow> st' a = st a)"
proof (induction js arbitrary: st)
  case (Cons j js)
  define st1 where "st1 = st(bj_addr j := Some (gpu_kv_advance (int (bj_len j)) (c j)))"
  have run: "gpu_advance_item (gpu_item_of j) st = Inr st1"
    using Cons.prems(2) by (simp add: gpu_advance_item_def gpu_item_of_def gpu_deref_def gpu_put_def st1_def)
  have fresh: "bj_addr j \<notin> bj_addr ` set js" "distinct (map bj_addr js)" using Cons.prems(1) by simp_all
  then have "\<forall>k \<in> set js. st1 (bj_addr k) = Some (c k)" using Cons.prems(2) unfolding st1_def by (metis fun_upd_other image_eqI list.set_intros(2))
  from Cons.IH[OF fresh(2) this] obtain st' where
    st': "res_fold gpu_advance_item (map gpu_item_of js) st1 = Inr st'" "\<forall>k \<in> set js. st' (bj_addr k) = Some (gpu_kv_advance (int (bj_len k)) (c k))"
      "\<forall>a. a \<notin> bj_addr ` set js \<longrightarrow> st' a = st1 a" by blast
  have "st' (bj_addr j) = Some (gpu_kv_advance (int (bj_len j)) (c j))" using st'(3) fresh(1) by (simp add: st1_def)
  moreover have "st' a = st a" if "a \<notin> bj_addr ` set (j # js)" for a using st'(3) that by (simp add: st1_def)
  ultimately show ?case using run st'(1,2) by (intro exI[of _ st']) simp
qed simp

lemma gpu_logits_last:
  assumes "ids \<noteq> []"
  shows "last (gpu_logits G M (ctx @ ids)) = last (fst (gpu_forward_rows G M (length ctx) ids (gpu_hist G M ctx)))"
proof -
  have "fst (gpu_forward_rows G M (length ctx) ids (gpu_hist G M ctx)) \<noteq> []"
    using assms by (metis gpu_forward_rows_length length_0_conv)
  then show ?thesis by (simp add: gpu_rows_continue(1))
qed

text \<open>The jobs of a list of items.\<close>

lemma item_jobs:
  assumes d: "distinct (map gi_cache items)" and it: "\<forall>it \<in> set items. gpu_item_ok G M ctx st it"
  defines "js \<equiv> map (item_job ctx) items"
  shows "map gpu_item_of js = items" "distinct (map bj_addr js)" "map bj_toks js = map gi_tokens items"
    and "j \<in> set js \<Longrightarrow> \<exists>c cap. bj_toks j \<noteq> [] \<and> ids_ok M (bj_toks j) \<and> bj_past j = length (ctx (bj_addr j)) \<and> st (bj_addr j) = Some c
      \<and> gpu_kv_at M cap (bj_past j) (gpu_hist G M (ctx (bj_addr j))) c \<and> bj_past j + bj_len j \<le> cap"
    and "res_mapM (gpu_item_past who st) items = Inr (map (\<lambda>j. int (bj_past j)) js)"
proof -
  have "gpu_item_of (item_job ctx it) = it" if "it \<in> set items" for it
  proof -
    have "gi_cache it = Some (the (gi_cache it))" using bspec[OF it that] by (auto simp: gpu_item_ok_def)
    then show ?thesis by (cases it) (simp add: gpu_item_of_def item_job_def)
  qed
  then show ji: "map gpu_item_of js = items" by (simp add: js_def map_idI)
  have "map gi_cache items = map Some (map bj_addr js)" by (simp add: ji[symmetric] comp_def gpu_item_of_def)
  then have "distinct (map Some (map bj_addr js))" using d by metis
  then show "distinct (map bj_addr js)" by (metis distinct_map)
  show "map bj_toks js = map gi_tokens items" by (simp add: ji[symmetric] comp_def gpu_item_of_def)
  show "\<exists>c cap. bj_toks j \<noteq> [] \<and> ids_ok M (bj_toks j) \<and> bj_past j = length (ctx (bj_addr j)) \<and> st (bj_addr j) = Some c
      \<and> gpu_kv_at M cap (bj_past j) (gpu_hist G M (ctx (bj_addr j))) c \<and> bj_past j + bj_len j \<le> cap" if "j \<in> set js"
  proof -
    from that obtain it where i: "it \<in> set items" "j = item_job ctx it" by (auto simp: js_def)
    from bspec[OF assms(2) i(1)] obtain a c cap where "gi_cache it = Some a" "st a = Some c" "gpu_kv_at M cap (length (ctx a)) (gpu_hist G M (ctx a)) c"
      "int (length (ctx a) + length (gi_tokens it)) \<le> gk_capacity c" "gi_tokens it \<noteq> []" "ids_ok M (gi_tokens it)"
      by (auto simp: gpu_item_ok_def gpu_holds_def)
    moreover from this have "length (ctx a) + length (gi_tokens it) \<le> cap" using gk_shapeD(3) by (fastforce simp: gpu_kv_at_def)
    ultimately show ?thesis using i(2) by (auto simp: item_job_def)
  qed
  have "res_mapM (gpu_item_past who st) items = Inr (map (\<lambda>it. int (length (ctx (the (gi_cache it))))) items)"
  proof (rule res_mapM_ok)
    fix it assume "it \<in> set items"
    then have "gpu_item_ok G M ctx st it" using assms(2) by blast
    then obtain a c cap where "gi_cache it = Some a" "st a = Some c" "gpu_kv_at M cap (length (ctx a)) (gpu_hist G M (ctx a)) c"
      by (auto simp: gpu_item_ok_def gpu_holds_def)
    then show "gpu_item_past who st it = Inr (int (length (ctx (the (gi_cache it)))))"
      by (simp add: gpu_item_past_def gpu_deref_def gpu_kv_at_def)
  qed
  then show "res_mapM (gpu_item_past who st) items = Inr (map (\<lambda>j. int (bj_past j)) js)" by (simp add: js_def item_job_def comp_def)
qed

lemma jobs_extended:
  assumes d: "distinct (map gi_cache items)" and it: "\<forall>it \<in> set items. gpu_item_ok G M ctx st it"
  defines "js \<equiv> map (item_job ctx) items"
  assumes st1: "cache_ready M js st1" "cache_keeps M js st st1"
    "\<forall>j \<in> set js. \<forall>l < n_layers M. cache_view M st1 j l (bj_past j + bj_len j)
       = snd (gpu_forward_rows G M (bj_past j) (bj_toks j) (gpu_hist G M (ctx (bj_addr j)))) l"
    and st': "\<forall>j \<in> set js. st' (bj_addr j) = Some (gpu_kv_advance (int (bj_len j)) (the (st1 (bj_addr j))))"
      "\<forall>a. a \<notin> bj_addr ` set js \<longrightarrow> st' a = st1 a"
  shows "gpu_extended G M ctx items st st'"
  unfolding gpu_extended_def
proof (intro conjI allI impI ballI)
  note J = item_jobs[OF d it, folded js_def]
  fix a assume "Some a \<notin> gi_cache ` set items"
  then have "a \<notin> bj_addr ` set js" unfolding J(1)[symmetric] by (force simp: gpu_item_of_def)
  then show "st' a = st a" using st'(2) st1(2) by (simp add: cache_keeps_def)
next
  note J = item_jobs[OF d it, folded js_def]
  fix it assume i: "it \<in> set items"
  let ?j = "item_job ctx it"
  have j: "?j \<in> set js" using i by (simp add: js_def)
  from J(4)[OF j] obtain c where c: "bj_past ?j = length (ctx (bj_addr ?j))" "st (bj_addr ?j) = Some c" by blast
  obtain c1 cap where c1: "st1 (bj_addr ?j) = Some c1" "gk_shape (n_layers M) (d_kv M) cap c1" "gk_length c1 = int (bj_past ?j)"
    by (rule cache_ready_job[OF st1(1) j])
  have "gk_capacity c1 = gk_capacity c" using st1(2) c(2) c1(1) unfolding cache_keeps_def by (metis option.inject)
  moreover have "gpu_kv_at M cap (length (ctx (bj_addr ?j) @ bj_toks ?j)) (gpu_hist G M (ctx (bj_addr ?j) @ bj_toks ?j)) (gpu_kv_advance (int (bj_len ?j)) c1)"
    using c1 c(1) bspec[OF st1(3) j] by (simp add: gpu_kv_at_def gpu_rows_continue(2) cache_view_def)
  moreover have "st' (bj_addr ?j) = Some (gpu_kv_advance (int (bj_len ?j)) c1)" using st'(1) j c1(1) by simp
  ultimately show "\<exists>c c'. st (the (gi_cache it)) = Some c \<and> st' (the (gi_cache it)) = Some c' \<and> gk_capacity c' = gk_capacity c \<and> gpu_holds G M c' (item_ctx ctx it)"
    using c(2) unfolding gpu_holds_def item_ctx_def by (auto simp: item_job_def gpu_kv_advance_def)
qed

lemma cache_batch_ok:
  assumes S: "gpu_setup G M m (length (concat (map gi_tokens items)))" and items: "items \<noteq> []" "distinct (map gi_cache items)"
    and it: "\<forall>it \<in> set items. gpu_item_ok G M ctx st it"
  defines "L \<equiv> map (\<lambda>it. last (gpu_logits G M (item_ctx ctx it))) items"
  shows "\<exists>pasts st1 st'. (\<forall>who. res_mapM (gpu_item_past who st) items = Inr pasts)
    \<and> gpu_forward_batch_device G m (map gi_tokens items) pasts (cache_attend G m items) st = Inr (concat L, st1)
    \<and> rect (length items) (n_vocab M) L \<and> res_fold gpu_advance_item items st1 = Inr st' \<and> gpu_extended G M ctx items st st'"
proof -
  define js where "js = map (item_job ctx) items"
  note K = item_jobs[OF items(2) it, folded js_def]
  have S': "gpu_setup G M m (job_lens js)" using S by (simp add: K(3)[symmetric] length_concat comp_def)
  have rd: "cache_ready M js st" using K(2,4) by (fastforce simp: cache_ready_def gpu_kv_at_def)
  let ?H = "\<lambda>j. gpu_hist G M (ctx (bj_addr j))"
  have h: "cache_view M st j l (bj_past j) = ?H j l" if "j \<in> set js" "l < n_layers M" for j l
    using K(4)[OF that(1)] that(2) by (auto simp: cache_view_def gpu_kv_at_def)
  have ne: "js \<noteq> []" using items(1) by (simp add: js_def)
  let ?spec = "\<lambda>j. gpu_forward_rows G M (bj_past j) (bj_toks j) (?H j)"
  have ids: "bj_toks j \<noteq> [] \<and> ids_ok M (bj_toks j)" if "j \<in> set js" for j using K(4)[OF that] by blast
  from cb.batch_device_ok[OF S' ne ids rd h] obtain st1 where
    1: "gpu_forward_batch_device G m (map bj_toks js) (map (\<lambda>j. int (bj_past j)) js) (cache_attend G m (map gpu_item_of js)) st
        = Inr (concat (map (\<lambda>j. last (fst (?spec j))) js), st1)"
      "rect (length js) (n_vocab M) (map (\<lambda>j. last (fst (?spec j))) js)" "cache_ready M js st1" "cache_keeps M js st st1"
      "\<forall>j \<in> set js. \<forall>l < n_layers M. cache_view M st1 j l (bj_past j + bj_len j) = snd (?spec j) l" by blast
  have L: "map (\<lambda>j. last (fst (?spec j))) js = L"
    unfolding L_def js_def map_map comp_def
    by (rule map_cong[OF refl]) (use it in \<open>auto simp: item_job_def item_ctx_def gpu_logits_last gpu_item_ok_def\<close>)
  have "\<forall>j \<in> set js. st1 (bj_addr j) = Some (the (st1 (bj_addr j)))" using 1(3) by (fastforce simp: cache_ready_def)
  from advance_items_ok[OF K(2) this] obtain st' where
    2: "res_fold gpu_advance_item items st1 = Inr st'" "\<forall>j \<in> set js. st' (bj_addr j) = Some (gpu_kv_advance (int (bj_len j)) (the (st1 (bj_addr j))))"
      "\<forall>a. a \<notin> bj_addr ` set js \<longrightarrow> st' a = st1 a" unfolding K(1) by blast
  have "gpu_extended G M ctx items st st'"
    by (rule jobs_extended[OF items(2) it, folded js_def, OF 1(3-5) 2(2,3)])
  moreover have "length js = length items" by (simp add: js_def)
  ultimately show ?thesis using K(5) 1(1,2) 2(1) unfolding L K(1,3) by auto
qed

section \<open>The calls\<close>

text \<open>The last row of an uncached forward on the device.\<close>

definition gpu_next_logits :: "gpu \<Rightarrow> gpu_model \<Rightarrow> int list \<Rightarrow> f32 list" where
  "gpu_next_logits G m ids =
     (case gpu_forward G m ids of Inl _ \<Rightarrow> [] | Inr t \<Rightarrow> drop ((length ids - 1) * nat (vocab_size (gm_config m))) (t_data t))"

lemma gpu_next_logits_eq:
  assumes "gpu_setup G M m (length ids)" "ids_ok M ids" "ids \<noteq> []"
  shows "gpu_next_logits G m ids = last (gpu_logits G M ids)"
proof -
  note S' = gpu_setupD[OF assms(1)]
  note F = gpu_forward_full[OF assms]
  have "length (gpu_logits G M ids) = length ids" by simp
  then have ne: "gpu_logits G M ids \<noteq> []" using assms(3) by (metis length_0_conv)
  then have "drop ((length ids - 1) * n_vocab M) (concat (gpu_logits G M ids)) = last (gpu_logits G M ids)"
    using F(2) drop_concat_last[of "gpu_logits G M ids" "n_vocab M"] by (auto simp: rect_def)
  then show ?thesis by (simp add: gpu_next_logits_def F(1) gm_dims[OF S'(3,4)])
qed

lemma cache_forward_batch:
  assumes S: "gpu_setup G M m (length (concat (map gi_tokens items)))" and items: "items \<noteq> []" "distinct (map gi_cache items)"
    and it: "\<forall>it \<in> set items. gpu_item_ok G M ctx st it"
  defines "L \<equiv> map (\<lambda>it. last (gpu_logits G M (item_ctx ctx it))) items"
  shows "\<exists>st'. gpu_forward_batch G m items st = Inr (mk_mat (length items) (n_vocab M) L, st')
    \<and> gpu_forward_batch_argmax G m items st = Inr (map gpu_argmax_row L, st')
    \<and> rect (length items) (n_vocab M) L \<and> gpu_extended G M ctx items st st'"
proof -
  note S' = gpu_setupD[OF S]
  note D = gm_dims[OF S'(3,4)]
  from cache_batch_ok[OF S items it, folded L_def] obtain pasts st1 st' where
    1: "\<And>who. res_mapM (gpu_item_past who st) items = Inr pasts"
      "gpu_forward_batch_device G m (map gi_tokens items) pasts (cache_attend G m items) st = Inr (concat L, st1)"
      "rect (length items) (n_vocab M) L" "res_fold gpu_advance_item items st1 = Inr st'" "gpu_extended G M ctx items st st'" by blast
  have "length items = sum_list (map (\<lambda>_. 1) items)" by (simp add: sum_list_triv)
  also have "\<dots> \<le> sum_list (map (length \<circ> gi_tokens) items)"
    by (rule sum_list_mono) (use it in \<open>auto simp: gpu_item_ok_def Suc_leI\<close>)
  finally have "length items < 2 ^ 31" using S'(6) by (simp add: gpu_rows_fit_def length_concat comp_def)
  moreover have "rows (n_vocab M) (length items) (concat L) = L" using rect_rows[OF 1(3)] by simp
  ultimately have am: "k_argmax G (concat L) (replicate (length items) (uint (g_junk G))) (int (length items)) (int (n_vocab M)) = Inr (map gpu_argmax_row L)"
    using k_argmax_ok[OF S'(1) rect_data_length[OF 1(3)], of "replicate (length items) (uint (g_junk G))"] gpu_dimsD(8)[OF S'(5,3)] by simp
  have "gpu_forward_batch G m items st = Inr (mk_mat (length items) (n_vocab M) L, st')"
    unfolding gpu_forward_batch_def gpu_forward_batch_impl_def 1(1) res_bind_Inr 1(2) prod.case length_map D download_ok[OF 1(3)] 1(4) ..
  moreover have "gpu_forward_batch_argmax G m items st = Inr (map gpu_argmax_row L, st')"
    unfolding gpu_forward_batch_argmax_def 1(1) res_bind_Inr 1(2) prod.case D am 1(4) ..
  ultimately show ?thesis using 1(3,5) by blast
qed

section \<open>Property\<close>

lemma gpu_holds_new:
  assumes "gpu_setup G M m s" "0 < cap"
  shows "\<exists>c. gpu_kv_new G (num_hidden_layers (gm_config m)) (gm_nkv m) (int cap) = Inr c \<and> gpu_holds G M c [] \<and> gk_capacity c = int cap"
proof -
  from gpu_kv_at_new[OF assms] obtain c where
    c: "gpu_kv_new G (num_hidden_layers (gm_config m)) (gm_nkv m) (int cap) = Inr c" "gpu_kv_at M cap 0 no_hist c" by blast
  moreover have "gk_capacity c = int cap" using c(2) gk_shapeD(3) unfolding gpu_kv_at_def by blast
  ultimately show ?thesis by (auto simp: gpu_holds_def gpu_hist_nil)
qed

text \<open>C16: A device batch computes for each item what a forward over that item's context alone
  computes. If the caches of the items are distinct, hold the contexts of their sequences and
  have room, the call returns, row \<open>k\<close> of the logits is the last row of the uncached forward over
  context and new tokens of item \<open>k\<close>, \<open>forward_batch_argmax\<close> gives the device argmax of these rows,
  both leave the caches holding context and tokens, and no other cache changes.\<close>

theorem gpu_batch_exact:
  assumes S: "gpu_setup G M m n" and items: "items \<noteq> []" "distinct (map gi_cache items)"
    and it: "\<forall>it \<in> set items. gpu_item_ok G M ctx st it \<and> ids_ok M (item_ctx ctx it) \<and> length (item_ctx ctx it) \<le> n"
    and n: "length (concat (map gi_tokens items)) \<le> n"
  shows "\<exists>logits st'. gpu_forward_batch G m items st = Inr (logits, st')
    \<and> (\<forall>k < length items. row (n_vocab M) k (t_data logits) = gpu_next_logits G m (item_ctx ctx (items ! k)))
    \<and> gpu_forward_batch_argmax G m items st = Inr (map (\<lambda>it. gpu_argmax_row (gpu_next_logits G m (item_ctx ctx it))) items, st')
    \<and> gpu_extended G M ctx items st st'"
proof -
  let ?L = "map (\<lambda>it. last (gpu_logits G M (item_ctx ctx it))) items"
  have ok: "\<forall>it \<in> set items. gpu_item_ok G M ctx st it" using it by blast
  from cache_forward_batch[OF gpu_setup_mono[OF S n] items ok] obtain st' where
    1: "gpu_forward_batch G m items st = Inr (mk_mat (length items) (n_vocab M) ?L, st')"
      "gpu_forward_batch_argmax G m items st = Inr (map gpu_argmax_row ?L, st')" "rect (length items) (n_vocab M) ?L" "gpu_extended G M ctx items st st'" by blast
  have eq: "gpu_next_logits G m (item_ctx ctx i) = last (gpu_logits G M (item_ctx ctx i))" if "i \<in> set items" for i
    by (rule gpu_next_logits_eq[OF gpu_setup_mono[OF S]]) (use it that in \<open>auto simp: gpu_item_ok_def item_ctx_def\<close>)
  have "row (n_vocab M) k (concat ?L) = gpu_next_logits G m (item_ctx ctx (items ! k))" if "k < length items" for k
    using rect_row[OF 1(3) that] eq[of "items ! k"] that by simp
  moreover have "map gpu_argmax_row ?L = map (\<lambda>it. gpu_argmax_row (gpu_next_logits G m (item_ctx ctx it))) items" by (simp add: eq)
  ultimately show ?thesis using 1 by simp
qed

lemma gpu_batch_exact_witness:
  "\<exists>m c d logits st'. gpu_from_safetensors gtoy_config gtoy_weights = Inr m
    \<and> gpu_kv_new toy_gpu (num_hidden_layers (gm_config m)) (gm_nkv m) (int 3) = Inr c
    \<and> gpu_kv_new toy_gpu (num_hidden_layers (gm_config m)) (gm_nkv m) (int 5) = Inr d
    \<and> gpu_forward_batch toy_gpu m [\<lparr>gi_cache = Some 7, gi_tokens = [0, 1]\<rparr>, \<lparr>gi_cache = Some 2, gi_tokens = [1]\<rparr>] [7 \<mapsto> c, 2 \<mapsto> d] = Inr (logits, st')
    \<and> row 2 0 (t_data logits) = gpu_next_logits toy_gpu m [0, 1] \<and> row 2 1 (t_data logits) = gpu_next_logits toy_gpu m [1]"
proof -
  from gtoy_setup[of 3] obtain m where m: "gpu_from_safetensors gtoy_config gtoy_weights = Inr m" "gpu_setup toy_gpu gtoy_model m 3" by auto
  from gpu_holds_new[OF m(2), of 3] gpu_holds_new[OF m(2), of 5] obtain c d where
    c: "gpu_kv_new toy_gpu (num_hidden_layers (gm_config m)) (gm_nkv m) (int 3) = Inr c" "gpu_holds toy_gpu gtoy_model c []" "gk_capacity c = int 3"
    and d: "gpu_kv_new toy_gpu (num_hidden_layers (gm_config m)) (gm_nkv m) (int 5) = Inr d" "gpu_holds toy_gpu gtoy_model d []" "gk_capacity d = int 5" by auto
  let ?items = "[\<lparr>gi_cache = Some 7, gi_tokens = [0, 1]\<rparr>, \<lparr>gi_cache = Some 2, gi_tokens = [1]\<rparr>]"
  have i: "ids_ok gtoy_model [0, 1]" "ids_ok gtoy_model [1]" and V: "n_vocab gtoy_model = 2" by code_simp+
  have ok: "\<forall>it \<in> set ?items. gpu_item_ok toy_gpu gtoy_model (\<lambda>_. []) [7 \<mapsto> c, 2 \<mapsto> d] it \<and> ids_ok gtoy_model (item_ctx (\<lambda>_. []) it)
      \<and> length (item_ctx (\<lambda>_. []) it) \<le> 3" using c d i by (simp add: gpu_item_ok_def item_ctx_def)
  from gpu_batch_exact[OF m(2) _ _ ok] obtain logits st' where
    b: "gpu_forward_batch toy_gpu m ?items [7 \<mapsto> c, 2 \<mapsto> d] = Inr (logits, st')"
      "\<forall>k < length ?items. row (n_vocab gtoy_model) k (t_data logits) = gpu_next_logits toy_gpu m (item_ctx (\<lambda>_. []) (?items ! k))" by auto
  have "row 2 0 (t_data logits) = gpu_next_logits toy_gpu m [0, 1]" "row 2 1 (t_data logits) = gpu_next_logits toy_gpu m [1]"
    using b(2)[rule_format, of 0] b(2)[rule_format, of 1] V by (simp_all add: item_ctx_def)
  then show ?thesis using m(1) c(1) d(1) b(1) by blast
qed

end
