(* ===== verification/Cuda_Engine_Inv.thy ===== *)
theory Cuda_Engine_Inv
  imports Cuda_Engine Cuda_Batch_Cache Engine_Inv
begin

text \<open>
  The invariant of the device engine. A running sequence owns a cache with room for its prompt
  and all tokens it may get, and the cache holds its context but the last token; waiting and
  finished sequences own none. Admission, the batch, the choice of tokens and the retirement
  keep it, so a step of a reachable engine returns and gives each running sequence one token,
  drawn on the logits of its own context.
\<close>

section \<open>What a request gets\<close>

definition gdraws :: "'g platform \<Rightarrow> gpu \<Rightarrow> gpu_model \<Rightarrow> sampling_params \<Rightarrow> int list \<Rightarrow> int \<Rightarrow> bool" where
  "gdraws P G m params ids t \<longleftrightarrow>
     (\<not> f64_lt 0 (temperature params) \<and> t = gpu_argmax_row (gpu_next_logits G m ids))
     \<or> (\<exists>lg g g'. take (nat (vocab_size (gm_config m))) lg = gpu_next_logits G m ids
          \<and> sample (p_fpu P) (p_sort P) (p_uniform P) lg (vocab_size (gm_config m)) params g = Inr (t, g'))"

text \<open>The sampler returns a token of the vocabulary on the logits of every context up to a length.\<close>

definition gsamples_ok :: "'g platform \<Rightarrow> gpu \<Rightarrow> model \<Rightarrow> gpu_model \<Rightarrow> nat \<Rightarrow> sampling_params \<Rightarrow> bool" where
  "gsamples_ok P G M m B params \<longleftrightarrow> (\<forall>ids lg g. ids_ok M ids \<longrightarrow> ids \<noteq> [] \<longrightarrow> length ids \<le> B \<longrightarrow>
     take (n_vocab M) lg = gpu_next_logits G m ids \<longrightarrow>
     (\<exists>t < n_vocab M. \<exists>g'. sample (p_fpu P) (p_sort P) (p_uniform P) lg (int (n_vocab M)) params g = Inr (int t, g')))"

definition gout_ok :: "'g platform \<Rightarrow> gpu \<Rightarrow> gpu_model \<Rightarrow> request \<Rightarrow> int list \<Rightarrow> bool" where
  "gout_ok P G m rq out \<longleftrightarrow>
     (\<forall>k < length out. gdraws P G m (rq_params rq) (rq_prompt rq @ take k out) (out ! k))
     \<and> (\<forall>k. 0 < k \<longrightarrow> k < length out \<longrightarrow> \<not> stops rq (take k out))"

lemma gout_ok_snoc:
  assumes "gout_ok P G m rq out" "out = [] \<or> \<not> stops rq out" "gdraws P G m (rq_params rq) (rq_prompt rq @ out) t"
  shows "gout_ok P G m rq (out @ [t])"
  using assms by (auto simp: gout_ok_def nth_append less_Suc_eq)

text \<open>A request whose prompt and tokens are at most \<open>B\<close>.\<close>

definition gvalid :: "'g platform \<Rightarrow> gpu \<Rightarrow> model \<Rightarrow> gpu_model \<Rightarrow> nat \<Rightarrow> request \<Rightarrow> bool" where
  "gvalid P G M m B rq \<longleftrightarrow> ids_ok M (rq_prompt rq) \<and> 0 \<le> rq_max_tokens rq
     \<and> length (rq_prompt rq) + nat (rq_max_tokens rq) \<le> B \<and> gsamples_ok P G M m B (rq_params rq)"

section \<open>The invariant\<close>

definition gctx :: "gpu_seq \<Rightarrow> int list" where
  "gctx s = rq_prompt (gs_request s) @ gs_output s"

text \<open>What the cache of a running sequence holds before its next batch.\<close>

definition gfed :: "gpu_seq \<Rightarrow> int list" where
  "gfed s = (if gs_output s = [] then [] else rq_prompt (gs_request s) @ butlast (gs_output s))"

definition gowns :: "gpu \<Rightarrow> model \<Rightarrow> int list \<Rightarrow> gpu_seq \<Rightarrow> bool" where
  "gowns G M ctx s \<longleftrightarrow> (\<exists>c. gs_cache s = Some c \<and> gpu_holds G M c ctx
     \<and> gk_capacity c = int (length (rq_prompt (gs_request s))) + rq_max_tokens (gs_request s))"

definition gseq_ok :: "'g platform \<Rightarrow> gpu \<Rightarrow> model \<Rightarrow> gpu_model \<Rightarrow> nat \<Rightarrow> bool \<Rightarrow> gpu_seq \<Rightarrow> bool" where
  "gseq_ok P G M m B fed s \<longleftrightarrow> rq_prompt (gs_request s) \<noteq> [] \<and> gvalid P G M m B (gs_request s)
     \<and> ids_ok M (gs_output s) \<and> gout_ok P G m (gs_request s) (gs_output s)
     \<and> (case gs_status s of
          Waiting \<Rightarrow> gs_output s = [] \<and> \<not> gs_prefilled s \<and> gs_cache s = None
        | Running \<Rightarrow> (gs_output s = [] \<or> \<not> stops (gs_request s) (gs_output s)) \<and> (gs_prefilled s \<longleftrightarrow> gs_output s \<noteq> [])
            \<and> gowns G M (if fed then gctx s else gfed s) s
        | Finished \<Rightarrow> gs_output s \<noteq> [] \<and> stops (gs_request s) (gs_output s) \<and> gs_cache s = None)"

definition gstat :: "'g gpu_engine \<Rightarrow> seq_status \<Rightarrow> int \<Rightarrow> bool" where
  "gstat e x i \<longleftrightarrow> (\<exists>s. ge_sequences e i = Some s \<and> gs_status s = x)"

text \<open>\<open>R\<close> are the sequences whose batch has run, \<open>D\<close> those that finished in this step.\<close>

definition g_inv ::
    "'g platform \<Rightarrow> gpu \<Rightarrow> model \<Rightarrow> gpu_model \<Rightarrow> nat \<Rightarrow> int set \<Rightarrow> int set \<Rightarrow> 'g gpu_engine \<Rightarrow> bool" where
  "g_inv P G M m B R D e \<longleftrightarrow> 0 \<le> ge_next_id e \<and> dom (ge_sequences e) = {0..<ge_next_id e}
     \<and> (\<forall>i s. ge_sequences e i = Some s \<longrightarrow> gseq_ok P G M m B (i \<in> R) s)
     \<and> distinct (ge_waiting e @ ge_running e)
     \<and> (\<forall>i. i \<in> set (ge_waiting e) \<longleftrightarrow> gstat e Waiting i) \<and> (\<forall>i. i \<in> set (ge_running e) \<longleftrightarrow> gstat e Running i \<or> i \<in> D)
     \<and> (\<forall>i \<in> D. gstat e Finished i) \<and> int (length (ge_running e)) \<le> max 0 (ge_max_batch e)"

lemma g_invD:
  assumes "g_inv P G M m B R D e"
  shows "0 \<le> ge_next_id e" "dom (ge_sequences e) = {0..<ge_next_id e}"
    "\<And>i s. ge_sequences e i = Some s \<Longrightarrow> gseq_ok P G M m B (i \<in> R) s" "distinct (ge_waiting e @ ge_running e)"
    "\<And>i. i \<in> set (ge_waiting e) \<longleftrightarrow> gstat e Waiting i" "\<And>i. i \<in> set (ge_running e) \<longleftrightarrow> gstat e Running i \<or> i \<in> D"
    "\<And>i. i \<in> D \<Longrightarrow> gstat e Finished i" "int (length (ge_running e)) \<le> max 0 (ge_max_batch e)"
  using assms unfolding g_inv_def by blast+

definition gwork :: "'g gpu_engine \<Rightarrow> int \<Rightarrow> (request \<times> int list) option" where
  "gwork e i = map_option (\<lambda>s. (gs_request s, gs_output s)) (ge_sequences e i)"

definition gsame :: "'g gpu_engine \<Rightarrow> 'g gpu_engine \<Rightarrow> bool" where
  "gsame e e' \<longleftrightarrow> gwork e' = gwork e \<and> ge_next_id e' = ge_next_id e \<and> ge_max_batch e' = ge_max_batch e"

lemma gsame_refl [simp]: "gsame e e"
  by (simp add: gsame_def)

lemma gsame_trans: "gsame e e' \<Longrightarrow> gsame e' e'' \<Longrightarrow> gsame e e''"
  by (simp add: gsame_def)

lemma gwork_Some: "gwork e i = Some (rq, out) \<longleftrightarrow> (\<exists>s. ge_sequences e i = Some s \<and> gs_request s = rq \<and> gs_output s = out)"
  by (auto simp: gwork_def)

section \<open>Admission\<close>

lemma gstat_set: "gstat (gseq_set i s e) x j \<longleftrightarrow> (if j = i then gs_status s = x else gstat e x j)"
  by (auto simp: gstat_def gseq_set_def)

lemma gstat_fields [simp]:
  "gstat (e\<lparr>ge_waiting := ws\<rparr>) = gstat e" "gstat (e\<lparr>ge_running := rs\<rparr>) = gstat e" "gstat (e\<lparr>ge_rng := g\<rparr>) = gstat e"
  by (simp_all add: gstat_def fun_eq_iff)

lemma gpu_admit_ok:
  assumes S: "gpu_setup G M m B"
  shows "g_inv P G M m B {} {} (e\<lparr>ge_waiting := ws\<rparr>) \<Longrightarrow>
    \<exists>e'. gpu_admit G m ws e = Inr e' \<and> g_inv P G M m B {} {} e' \<and> gsame e e'
      \<and> set ws \<union> set (ge_running e) = set (ge_waiting e') \<union> set (ge_running e')
      \<and> (ge_waiting e' = [] \<or> ge_max_batch e \<le> int (length (ge_running e')))"
proof (induction ws arbitrary: e)
  case Nil
  then show ?case by (intro exI[of _ "e\<lparr>ge_waiting := []\<rparr>"]) (simp add: gsame_def gwork_def fun_eq_iff)
next
  case (Cons i ws)
  note I = g_invD[OF Cons.prems]
  show ?case
  proof (cases "int (length (ge_running e)) < ge_max_batch e")
    case False
    then show ?thesis using Cons.prems by (intro exI[of _ "e\<lparr>ge_waiting := i # ws\<rparr>"]) (simp add: gsame_def gwork_def fun_eq_iff)
  next
    case True
    from I(5)[of i] obtain s where s: "ge_sequences e i = Some s" "gs_status s = Waiting" by (auto simp: gstat_def)
    have so: "gseq_ok P G M m B False s" using I(3)[of i s] s(1) by simp
    let ?rq = "gs_request s"
    have rq: "rq_prompt ?rq \<noteq> []" "0 \<le> rq_max_tokens ?rq" "gs_output s = []" "\<not> gs_prefilled s"
      using so s(2) by (simp_all add: gseq_ok_def gvalid_def)
    define cap where "cap = length (rq_prompt ?rq) + nat (rq_max_tokens ?rq)"
    have cap: "0 < cap" "int cap = int (length (rq_prompt ?rq)) + rq_max_tokens ?rq" using rq(1,2) by (simp_all add: cap_def)
    from gpu_holds_new[OF S cap(1)] obtain c where c: "gpu_kv_new G (num_hidden_layers (gm_config m)) (gm_nkv m) (int cap) = Inr c"
      "gpu_holds G M c []" "gk_capacity c = int cap" by blast
    define s1 where "s1 = s\<lparr>gs_cache := Some c, gs_status := Running\<rparr>"
    define e1 where "e1 = gseq_set i s1 (e\<lparr>ge_running := ge_running e @ [i]\<rparr>)"
    have s1: "gseq_ok P G M m B False s1"
      using so s(2) rq c(2,3) cap(2) by (auto simp: s1_def gseq_ok_def gfed_def gowns_def)
    have d: "i \<notin> set ws" "i \<notin> set (ge_running e)" "distinct (ws @ ge_running e)" using I(4) by auto
    have st: "gstat (e1\<lparr>ge_waiting := ws\<rparr>) x j \<longleftrightarrow> (if j = i then x = Running else gstat e x j)" for x j
      unfolding e1_def by (simp add: gstat_set s1_def eq_commute)
    have "g_inv P G M m B {} {} (e1\<lparr>ge_waiting := ws\<rparr>)"
      unfolding g_inv_def
    proof (intro conjI allI impI)
      show "dom (ge_sequences (e1\<lparr>ge_waiting := ws\<rparr>)) = {0..<ge_next_id (e1\<lparr>ge_waiting := ws\<rparr>)}"
        using I(2) s(1) by (auto simp: e1_def gseq_set_def)
      show "gseq_ok P G M m B (j \<in> {}) t" if "ge_sequences (e1\<lparr>ge_waiting := ws\<rparr>) j = Some t" for j t
        using that I(3)[of j t] s1 by (auto simp: e1_def gseq_set_def split: if_splits)
      show "j \<in> set (ge_waiting (e1\<lparr>ge_waiting := ws\<rparr>)) \<longleftrightarrow> gstat (e1\<lparr>ge_waiting := ws\<rparr>) Waiting j" for j
        unfolding st using I(5)[of j] d(1) by auto
      show "j \<in> set (ge_running (e1\<lparr>ge_waiting := ws\<rparr>)) \<longleftrightarrow> gstat (e1\<lparr>ge_waiting := ws\<rparr>) Running j \<or> j \<in> {}" for j
        unfolding st using I(6)[of j] by (auto simp: e1_def gseq_set_def)
    qed (use I(1) d True in \<open>auto simp: e1_def gseq_set_def\<close>)
    from Cons.IH[OF this] obtain e' where e': "gpu_admit G m ws e1 = Inr e'" "g_inv P G M m B {} {} e'" "gsame e1 e'"
      "set ws \<union> set (ge_running e1) = set (ge_waiting e') \<union> set (ge_running e')"
      "ge_waiting e' = [] \<or> ge_max_batch e1 \<le> int (length (ge_running e'))" by blast
    have "gpu_admit G m (i # ws) e = Inr e'"
      using True s(1) c(1) cap(2) e'(1) by (simp add: gseq_at_def Let_def e1_def s1_def)
    moreover have "gsame e e1" using s(1) by (auto simp: gsame_def gwork_def fun_eq_iff e1_def gseq_set_def s1_def)
    moreover have "set (i # ws) \<union> set (ge_running e) = set (ge_waiting e') \<union> set (ge_running e')"
      using e'(4) by (auto simp: e1_def gseq_set_def)
    ultimately show ?thesis using e'(2,3,5) gsame_trans by (intro exI[of _ e']) (simp add: e1_def gseq_set_def)
  qed
qed

section \<open>The batch\<close>

definition gitem :: "'g gpu_engine \<Rightarrow> int \<Rightarrow> gpu_item" where
  "gitem e i = (let s = the (ge_sequences e i) in
     \<lparr>gi_cache = Some i, gi_tokens = (if gs_output s = [] then rq_prompt (gs_request s) else [last (gs_output s)])\<rparr>)"

definition gctx_at :: "'g gpu_engine \<Rightarrow> int \<Rightarrow> int list" where
  "gctx_at e i = gctx (the (ge_sequences e i))"

definition gfed_at :: "'g gpu_engine \<Rightarrow> int \<Rightarrow> int list" where
  "gfed_at e i = gfed (the (ge_sequences e i))"

lemma running_gseq:
  assumes "g_inv P G M m B R {} e" "i \<in> set (ge_running e)"
  obtains s where "ge_sequences e i = Some s" "gs_status s = Running" "gseq_ok P G M m B (i \<in> R) s"
  using g_invD(3,6)[OF assms(1)] assms(2) by (auto simp: gstat_def)

lemma gctx_len:
  assumes "gseq_ok P G M m B fed s" "gs_status s = Running"
  shows "length (gctx s) \<le> B" "int (length (gctx s)) \<le> int (length (rq_prompt (gs_request s))) + rq_max_tokens (gs_request s)"
    "gctx s \<noteq> []" "ids_ok M (gctx s)"
proof -
  have v: "0 \<le> rq_max_tokens (gs_request s)" "length (rq_prompt (gs_request s)) + nat (rq_max_tokens (gs_request s)) \<le> B"
    "ids_ok M (rq_prompt (gs_request s))" "ids_ok M (gs_output s)" "rq_prompt (gs_request s) \<noteq> []"
    using assms(1) by (simp_all add: gseq_ok_def gvalid_def)
  have "int (length (gs_output s)) \<le> rq_max_tokens (gs_request s)"
    using assms v(1) by (cases "gs_output s = []") (auto simp: gseq_ok_def stops_def)
  then show "int (length (gctx s)) \<le> int (length (rq_prompt (gs_request s))) + rq_max_tokens (gs_request s)" by (simp add: gctx_def)
  then show "length (gctx s) \<le> B" using v(1,2) by linarith
  show "gctx s \<noteq> []" "ids_ok M (gctx s)" using v(3-5) by (auto simp: gctx_def ids_ok_def)
qed

lemma gitem_ok:
  assumes I: "g_inv P G M m B {} {} e" and i: "i \<in> set (ge_running e)"
  shows "gpu_item_ok G M (gfed_at e) (gpu_store_of e) (gitem e i)" "item_ctx (gfed_at e) (gitem e i) = gctx_at e i"
    "gpu_batch_item e i = Inr (gitem e i)" "length (gi_tokens (gitem e i)) \<le> B"
proof -
  obtain s where s: "ge_sequences e i = Some s" "gs_status s = Running" "gseq_ok P G M m B False s"
    using running_gseq[OF I i] by auto
  note L = gctx_len[OF s(3,2)]
  from s(2,3) obtain c where c: "gs_cache s = Some c" "gpu_holds G M c (gfed s)"
    "gk_capacity c = int (length (rq_prompt (gs_request s))) + rq_max_tokens (gs_request s)" by (auto simp: gseq_ok_def gowns_def)
  have p: "gs_prefilled s \<longleftrightarrow> gs_output s \<noteq> []" "rq_prompt (gs_request s) \<noteq> []" using s(2,3) by (simp_all add: gseq_ok_def)
  show x: "item_ctx (gfed_at e) (gitem e i) = gctx_at e i"
    by (simp add: item_ctx_def gfed_at_def gitem_def s(1) gctx_at_def gctx_def gfed_def)
  show "gpu_batch_item e i = Inr (gitem e i)"
    using p(1) by (simp add: gpu_batch_item_def gseq_at_def s(1) gitem_def c(1))
  have split: "gctx s = gfed s @ gi_tokens (gitem e i)" using x by (simp add: item_ctx_def gitem_def gfed_at_def gctx_at_def s(1))
  then show "length (gi_tokens (gitem e i)) \<le> B" using L(1) by simp
  have t: "gi_tokens (gitem e i) \<noteq> []" using p(2) by (simp add: gitem_def s(1))
  have "ids_ok M (gi_tokens (gitem e i))" using L(4) unfolding split by (simp add: ids_ok_def)
  moreover have "int (length (gfed s) + length (gi_tokens (gitem e i))) \<le> gk_capacity c" using L(2) c(3) unfolding split by simp
  ultimately show "gpu_item_ok G M (gfed_at e) (gpu_store_of e) (gitem e i)"
    using t c(1,2) unfolding gpu_item_ok_def by (simp add: gitem_def gpu_store_of_def s(1) gfed_at_def)
qed

lemma sum_list_bound: "(\<And>x. x \<in> set xs \<Longrightarrow> f x \<le> (B :: nat)) \<Longrightarrow> sum_list (map f xs) \<le> length xs * B"
  by (induction xs) (auto intro: add_mono)

text \<open>The caches after the batch hold the whole contexts.\<close>

lemma gpu_put_caches_ok:
  assumes I: "g_inv P G M m B {} {} e" and x: "gpu_extended G M (gfed_at e) (map (gitem e) (ge_running e)) (gpu_store_of e) st"
  shows "g_inv P G M m B (set (ge_running e)) {} (gpu_put_caches st e)" "gsame e (gpu_put_caches st e)"
proof -
  note D = g_invD[OF I]
  let ?e = "gpu_put_caches st e"
  have sq: "ge_sequences ?e i = map_option (\<lambda>s. s\<lparr>gs_cache := st i\<rparr>) (ge_sequences e i)" for i by (simp add: gpu_put_caches_def)
  show w: "gsame e ?e" by (simp add: gsame_def gwork_def sq fun_eq_iff option.map_comp comp_def) (simp add: gpu_put_caches_def)
  have gst: "gstat ?e = gstat e" by (auto simp: gstat_def sq fun_eq_iff)
  have so: "gseq_ok P G M m B (i \<in> set (ge_running e)) s'" if "ge_sequences ?e i = Some s'" for i s'
  proof -
    from that obtain s where s: "ge_sequences e i = Some s" "s' = s\<lparr>gs_cache := st i\<rparr>" by (auto simp: sq)
    have o: "gseq_ok P G M m B False s" using D(3)[OF s(1)] by simp
    show ?thesis
    proof (cases "i \<in> set (ge_running e)")
      case True
      then have r: "gs_status s = Running" using D(6)[of i] s(1) by (auto simp: gstat_def)
      from True x have "\<exists>c c'. gpu_store_of e i = Some c \<and> st i = Some c' \<and> gk_capacity c' = gk_capacity c \<and> gpu_holds G M c' (gctx_at e i)"
        using gitem_ok(2)[OF I True] by (force simp: gpu_extended_def gitem_def Let_def)
      then show ?thesis using o r True s by (auto simp: gseq_ok_def gowns_def gpu_store_of_def gctx_at_def gctx_def)
    next
      case False
      then have "Some i \<notin> gi_cache ` set (map (gitem e) (ge_running e))" by (auto simp: gitem_def Let_def)
      then have "st i = gs_cache s" using x s(1) by (simp add: gpu_extended_def gpu_store_of_def)
      then show ?thesis using o s(2) False by simp
    qed
  qed
  show "g_inv P G M m B (set (ge_running e)) {} ?e"
    unfolding g_inv_def gst using D so by (auto simp: gpu_put_caches_def dom_def)
qed

section \<open>The choice of the tokens\<close>

lemma gpu_argmax_range:
  assumes "length r = n" "0 < n"
  shows "0 \<le> gpu_argmax_row r \<and> gpu_argmax_row r < int n"
proof -
  have "best_of r (set [0..<length r]) (scan_best r [0..<length r])" by (rule scan_best_of) simp
  then show ?thesis using assms by (auto simp: best_of_def gpu_argmax_row_def)
qed

definition gparams_at :: "'g gpu_engine \<Rightarrow> int \<Rightarrow> sampling_params" where
  "gparams_at e i = rq_params (gs_request (the (ge_sequences e i)))"

text \<open>The token of sequence \<open>i\<close> is drawn on the logits of its own context.\<close>

definition gchosen :: "'g platform \<Rightarrow> gpu \<Rightarrow> gpu_model \<Rightarrow> 'g gpu_engine \<Rightarrow> int \<Rightarrow> int \<Rightarrow> bool" where
  "gchosen P G m e i t \<longleftrightarrow> gdraws P G m (gparams_at e i) (gctx_at e i) t \<and> 0 \<le> t \<and> t < vocab_size (gm_config m)"

lemma gpu_all_greedy_ok:
  "\<forall>i \<in> set is. ge_sequences e i \<noteq> None \<Longrightarrow>
   gpu_all_greedy e is = Inr (\<forall>i \<in> set is. \<not> f64_lt 0 (temperature (gparams_at e i)))"
  by (induction "is") (auto simp: gseq_at_def gparams_at_def)

lemma gpu_sample_all_ok:
  assumes V: "vocab_size (gm_config m) = int (n_vocab M)"
    and seqs: "\<forall>i \<in> set is. \<exists>s. ge_sequences e i = Some s \<and> gsamples_ok P G M m B (rq_params (gs_request s)) \<and> ids_ok M (gctx s) \<and> gctx s \<noteq> [] \<and> length (gctx s) \<le> B"
  shows "(\<forall>k < length is. take (n_vocab M) (drop ((n + k) * n_vocab M) (t_data logits)) = gpu_next_logits G m (gctx_at e (is ! k))) \<Longrightarrow>
    \<exists>ts rng'. res_fold (gpu_sample_one P m e logits) (enumerate n is) (acc, rng) = Inr (acc @ ts, rng') \<and> list_all2 (gchosen P G m e) is ts"
  using seqs
proof (induction "is" arbitrary: n acc rng)
  case (Cons i is')
  from Cons.prems(2) obtain s where s: "ge_sequences e i = Some s" "gsamples_ok P G M m B (rq_params (gs_request s))" "ids_ok M (gctx s)" "gctx s \<noteq> []"
    "length (gctx s) \<le> B" by auto
  let ?lg = "drop (n * n_vocab M) (t_data logits)"
  have lg: "take (n_vocab M) ?lg = gpu_next_logits G m (gctx s)" using Cons.prems(1)[rule_format, of 0] s(1) by (simp add: gctx_at_def)
  from s(2-5) lg obtain t rng1 where t: "t < n_vocab M"
    "sample (p_fpu P) (p_sort P) (p_uniform P) ?lg (int (n_vocab M)) (rq_params (gs_request s)) rng = Inr (int t, rng1)"
    unfolding gsamples_ok_def by blast
  have one: "gpu_sample_one P m e logits (n, i) (acc, rng) = Inr (acc @ [int t], rng1)"
    using t(2) by (simp add: gpu_sample_one_def gseq_at_def s(1) V nat_mult_distrib)
  have ch: "gchosen P G m e i (int t)"
    using t lg unfolding gchosen_def gdraws_def V by (auto simp: gparams_at_def gctx_at_def s(1))
  have "\<forall>k < length is'. take (n_vocab M) (drop ((Suc n + k) * n_vocab M) (t_data logits)) = gpu_next_logits G m (gctx_at e (is' ! k))"
  proof (intro allI impI)
    fix k assume "k < length is'"
    then show "take (n_vocab M) (drop ((Suc n + k) * n_vocab M) (t_data logits)) = gpu_next_logits G m (gctx_at e (is' ! k))"
      using Cons.prems(1)[rule_format, of "Suc k"] by simp
  qed
  from Cons.IH[OF this, of "acc @ [int t]" rng1] Cons.prems(2) obtain ts rng' where
    "res_fold (gpu_sample_one P m e logits) (enumerate (Suc n) is') (acc @ [int t], rng1) = Inr ((acc @ [int t]) @ ts, rng')"
    "list_all2 (gchosen P G m e) is' ts" by auto
  then show ?case using one ch by (intro exI[of _ "int t # ts"] exI[of _ rng']) simp
qed simp

lemma gpu_pick_ok:
  assumes S: "gpu_setup G M m N" and I: "g_inv P G M m B {} {} e" and fit: "nat (ge_max_batch e) * B \<le> N" and run: "ge_running e \<noteq> []"
  shows "\<exists>ts e'. gpu_pick P G m (map (gitem e) (ge_running e)) (ge_running e) e = Inr (ts, e') \<and> list_all2 (gchosen P G m e) (ge_running e) ts
    \<and> g_inv P G M m B (set (ge_running e)) {} e' \<and> gsame e e' \<and> ge_running e' = ge_running e \<and> ge_waiting e' = ge_waiting e"
proof -
  note D = g_invD[OF I] and S' = gpu_setupD[OF S]
  let ?r = "ge_running e" and ?items = "map (gitem e) (ge_running e)"
  have V: "vocab_size (gm_config m) = int (n_vocab M)" and V0: "0 < n_vocab M" using gm_dims[OF S'(3,4)] gpu_dimsD(8)[OF S'(5,3)] by simp_all
  have lr: "length ?r \<le> nat (ge_max_batch e)" "0 < length ?r" using D(8) run by auto
  have rB: "length ?r * B \<le> N" using mult_le_mono1[OF lr(1), of B] fit by linarith
  have B: "B \<le> N" using mult_le_mono1[of 1 "length ?r" B] lr(2) rB by linarith
  have "length (concat (map gi_tokens ?items)) = sum_list (map (\<lambda>i. length (gi_tokens (gitem e i))) ?r)" by (simp add: length_concat comp_def)
  also have "\<dots> \<le> length ?r * B" by (rule sum_list_bound) (rule gitem_ok(4)[OF I])
  finally have T: "length (concat (map gi_tokens ?items)) \<le> N" using rB by linarith
  have seqs: "\<exists>s. ge_sequences e i = Some s \<and> gsamples_ok P G M m B (rq_params (gs_request s)) \<and> ids_ok M (gctx s) \<and> gctx s \<noteq> [] \<and> length (gctx s) \<le> B"
    if "i \<in> set ?r" for i
    using running_gseq[OF I that] gctx_len by (metis gseq_ok_def gvalid_def)
  have d: "distinct (map gi_cache ?items)" using D(4) by (simp add: comp_def gitem_def Let_def distinct_map inj_on_def)
  have ok: "\<forall>it \<in> set ?items. gpu_item_ok G M (gfed_at e) (gpu_store_of e) it" using gitem_ok(1)[OF I] by auto
  let ?L = "map (\<lambda>it. last (gpu_logits G M (item_ctx (gfed_at e) it))) ?items"
  from cache_forward_batch[OF gpu_setup_mono[OF S T] _ d ok] run obtain st where
    1: "gpu_forward_batch G m ?items (gpu_store_of e) = Inr (mk_mat (length ?items) (n_vocab M) ?L, st)"
      "gpu_forward_batch_argmax G m ?items (gpu_store_of e) = Inr (map gpu_argmax_row ?L, st)" "rect (length ?items) (n_vocab M) ?L"
      "gpu_extended G M (gfed_at e) ?items (gpu_store_of e) st" by auto
  have L: "?L = map (\<lambda>i. gpu_next_logits G m (gctx_at e i)) ?r"
  proof -
    have "last (gpu_logits G M (gctx_at e i)) = gpu_next_logits G m (gctx_at e i)" if "i \<in> set ?r" for i
    proof -
      from seqs[OF that] obtain s where s: "ge_sequences e i = Some s" "ids_ok M (gctx s)" "gctx s \<noteq> []" "length (gctx s) \<le> B" by blast
      have "length (gctx s) \<le> N" using s(4) B by linarith
      then show ?thesis using gpu_next_logits_eq[OF gpu_setup_mono[OF S] s(2,3)] s(1) by (simp add: gctx_at_def)
    qed
    then show ?thesis using gitem_ok(2)[OF I] by simp
  qed
  note pc = gpu_put_caches_ok[OF I 1(4)]
  have some: "\<forall>i \<in> set ?r. ge_sequences e i \<noteq> None" using seqs by blast
  note ag = gpu_all_greedy_ok[OF some]
  show ?thesis
  proof (cases "\<forall>i \<in> set ?r. \<not> f64_lt 0 (temperature (gparams_at e i))")
    case True
    let ?ts = "map (\<lambda>i. gpu_argmax_row (gpu_next_logits G m (gctx_at e i))) ?r"
    have "gpu_pick P G m ?items ?r e = Inr (?ts, gpu_put_caches st e)"
      using ag True 1(2) unfolding L by (simp add: gpu_pick_def comp_def)
    moreover have "list_all2 (gchosen P G m e) ?r ?ts"
    proof -
      have "length (gpu_next_logits G m (gctx_at e i)) = n_vocab M" if "i \<in> set ?r" for i
        using 1(3) that unfolding L by (auto simp: rect_def)
      from gpu_argmax_range[OF this V0] True show ?thesis
        by (auto simp: list_all2_map2 gchosen_def gdraws_def V intro!: list.rel_refl_strong)
    qed
    moreover have "ge_running (gpu_put_caches st e) = ?r" "ge_waiting (gpu_put_caches st e) = ge_waiting e" by (simp_all add: gpu_put_caches_def)
    ultimately show ?thesis using pc by blast
  next
    case False
    let ?lg = "mk_mat (length ?items) (n_vocab M) ?L"
    have rows: "\<forall>k < length ?r. take (n_vocab M) (drop ((0 + k) * n_vocab M) (t_data ?lg)) = gpu_next_logits G m (gctx_at e (?r ! k))"
    proof (intro allI impI)
      fix k assume k: "k < length ?r"
      then have "row (n_vocab M) k (concat ?L) = ?L ! k" using rect_row[OF 1(3)] by simp
      then show "take (n_vocab M) (drop ((0 + k) * n_vocab M) (t_data ?lg)) = gpu_next_logits G m (gctx_at e (?r ! k))"
        using k unfolding L by (simp add: row_def slice_def)
    qed
    from gpu_sample_all_ok[OF V _ rows, of P B "[]" "ge_rng e"] seqs obtain ts rng where
      ts: "res_fold (gpu_sample_one P m e ?lg) (enumerate 0 ?r) ([], ge_rng e) = Inr (ts, rng)" "list_all2 (gchosen P G m e) ?r ts" by auto
    let ?e = "(gpu_put_caches st e)\<lparr>ge_rng := rng\<rparr>"
    have "gpu_pick P G m ?items ?r e = Inr (ts, ?e)"
      using ag False 1(1) ts(1) by (simp add: gpu_pick_def)
    moreover have "g_inv P G M m B (set ?r) {} ?e" using pc(1) by (simp add: g_inv_def)
    moreover have "gsame e ?e" using pc(2) by (simp add: gsame_def gwork_def fun_eq_iff)
    moreover have "ge_running ?e = ?r" "ge_waiting ?e = ge_waiting e" by (simp_all add: gpu_put_caches_def)
    ultimately show ?thesis using ts(2) by blast
  qed
qed

section \<open>Recording and retiring\<close>

text \<open>Each sequence in \<open>A\<close> got one more token.\<close>

definition ggrown :: "'g platform \<Rightarrow> gpu \<Rightarrow> gpu_model \<Rightarrow> int set \<Rightarrow> 'g gpu_engine \<Rightarrow> 'g gpu_engine \<Rightarrow> bool" where
  "ggrown P G m A e e' \<longleftrightarrow> ge_next_id e' = ge_next_id e \<and> ge_max_batch e' = ge_max_batch e
     \<and> (\<forall>i. i \<notin> A \<longrightarrow> gwork e' i = gwork e i)
     \<and> (\<forall>i \<in> A. \<exists>rq out t. gwork e i = Some (rq, out) \<and> (out = [] \<or> \<not> stops rq out) \<and> gwork e' i = Some (rq, out @ [t]))"

lemma gpu_record_ok:
  assumes I: "g_inv P G M m B R D e" and i: "i \<in> R" "gstat e Running i" and t: "gchosen P G m e i t"
    and V: "vocab_size (gm_config m) = int (n_vocab M)"
  shows "\<exists>e' fin. gpu_record (i, t) (af, e) = Inr (af \<or> fin, e') \<and> g_inv P G M m B (R - {i}) (if fin then insert i D else D) e'
    \<and> ge_running e' = ge_running e \<and> ge_waiting e' = ge_waiting e \<and> ggrown P G m {i} e e'
    \<and> (\<forall>j. j \<noteq> i \<longrightarrow> ge_sequences e' j = ge_sequences e j)"
proof -
  note C = g_invD[OF I]
  from i(2) obtain s where s: "ge_sequences e i = Some s" "gs_status s = Running" by (auto simp: gstat_def)
  have o: "gseq_ok P G M m B True s" using C(3)[OF s(1)] i(1) by simp
  let ?rq = "gs_request s" and ?out = "gs_output s @ [t]"
  have dr: "gdraws P G m (rq_params ?rq) (rq_prompt ?rq @ gs_output s) t" "0 \<le> t" "t < int (n_vocab M)"
    using t V by (simp_all add: gchosen_def gparams_at_def gctx_at_def gctx_def s(1))
  define fin where "fin \<longleftrightarrow> stops ?rq ?out"
  define s' where "s' = (if fin then s\<lparr>gs_prefilled := True, gs_output := ?out, gs_status := Finished, gs_cache := None\<rparr>
     else s\<lparr>gs_prefilled := True, gs_output := ?out\<rparr>)"
  define e' where "e' = gseq_set i s' e"
  have run: "gpu_record (i, t) (af, e) = Inr (af \<or> fin, e')"
    by (auto simp: gpu_record_def gseq_at_def s(1) Let_def fin_def e'_def s'_def stops_def)
  have so: "gseq_ok P G M m B False s'"
  proof -
    have no: "gs_output s = [] \<or> \<not> stops ?rq (gs_output s)" using o s(2) by (simp add: gseq_ok_def)
    have oo: "gout_ok P G m ?rq ?out" by (rule gout_ok_snoc[OF _ no dr(1)]) (use o in \<open>simp add: gseq_ok_def\<close>)
    have ii: "ids_ok M ?out" using o dr(2,3) by (simp add: gseq_ok_def ids_ok_def)
    show ?thesis
    proof (cases fin)
      case True
      then show ?thesis using o oo ii by (simp add: gseq_ok_def s'_def fin_def)
    next
      case False
      then show ?thesis using o oo ii s(2) by (auto simp: gseq_ok_def s'_def fin_def gfed_def gowns_def gctx_def)
    qed
  qed
  have st: "gs_status s' = (if fin then Finished else Running)" using s(2) by (simp add: s'_def)
  have gst: "gstat e' x j \<longleftrightarrow> (if j = i then gs_status s' = x else gstat e x j)" for x j unfolding e'_def by (rule gstat_set)
  have iD: "i \<notin> D" using C(7)[of i] s by (auto simp: gstat_def)
  have "g_inv P G M m B (R - {i}) (if fin then insert i D else D) e'"
    unfolding g_inv_def
  proof (intro conjI allI impI ballI)
    show "dom (ge_sequences e') = {0..<ge_next_id e'}" using C(2) s(1) by (auto simp: e'_def gseq_set_def)
    show "gseq_ok P G M m B (j \<in> R - {i}) u" if "ge_sequences e' j = Some u" for j u
      using that C(3)[of j u] so by (auto simp: e'_def gseq_set_def split: if_splits)
    show "j \<in> set (ge_waiting e') \<longleftrightarrow> gstat e' Waiting j" for j
      using C(5)[of j] s st unfolding gst by (auto simp: e'_def gseq_set_def gstat_def)
    show "j \<in> set (ge_running e') \<longleftrightarrow> gstat e' Running j \<or> j \<in> (if fin then insert i D else D)" for j
      using C(6)[of j] i(2) iD unfolding gst st by (auto simp: e'_def gseq_set_def)
    show "gstat e' Finished j" if "j \<in> (if fin then insert i D else D)" for j
      using that C(7)[of j] iD unfolding gst st by (auto split: if_splits)
  qed (use C(1,4,8) in \<open>simp_all add: e'_def gseq_set_def\<close>)
  moreover have "ggrown P G m {i} e e'"
    using s(1) o s(2) by (auto simp: ggrown_def gwork_def e'_def gseq_set_def s'_def gseq_ok_def)
  ultimately show ?thesis using run by (intro exI[of _ e'] exI[of _ fin]) (simp add: e'_def gseq_set_def)
qed

lemma gpu_records_ok:
  assumes V: "vocab_size (gm_config m) = int (n_vocab M)"
  shows "g_inv P G M m B (set is) D e \<Longrightarrow> distinct is \<Longrightarrow> \<forall>i \<in> set is. gstat e Running i \<Longrightarrow> list_all2 (gchosen P G m e) is ts \<Longrightarrow>
    (af \<longleftrightarrow> D \<noteq> {}) \<Longrightarrow>
    \<exists>af' D' e'. res_fold gpu_record (zip is ts) (af, e) = Inr (af', e') \<and> g_inv P G M m B {} D' e' \<and> (af' \<longleftrightarrow> D' \<noteq> {})
      \<and> ge_running e' = ge_running e \<and> ge_waiting e' = ge_waiting e \<and> ggrown P G m (set is) e e'"
proof (induction "is" arbitrary: D e ts af)
  case Nil
  then show ?case by (intro exI[of _ af] exI[of _ D] exI[of _ e]) (simp add: ggrown_def)
next
  case (Cons i is')
  from Cons.prems(4) obtain t ts' where t: "ts = t # ts'" "gchosen P G m e i t" "list_all2 (gchosen P G m e) is' ts'"
    by (cases ts) auto
  have "i \<in> set (i # is')" "gstat e Running i" using Cons.prems(3) by simp_all
  from gpu_record_ok[OF Cons.prems(1) this t(2) V, of af] obtain e1 fin where
    1: "gpu_record (i, t) (af, e) = Inr (af \<or> fin, e1)" "g_inv P G M m B (set (i # is') - {i}) (if fin then insert i D else D) e1"
      "ge_running e1 = ge_running e" "ge_waiting e1 = ge_waiting e" "ggrown P G m {i} e e1" "\<forall>j. j \<noteq> i \<longrightarrow> ge_sequences e1 j = ge_sequences e j" by blast
  have d: "i \<notin> set is'" "distinct is'" using Cons.prems(2) by auto
  then have "set (i # is') - {i} = set is'" by auto
  then have I1: "g_inv P G M m B (set is') (if fin then insert i D else D) e1" using 1(2) by simp
  have keep: "ge_sequences e1 j = ge_sequences e j" if "j \<in> set is'" for j using 1(6) that d(1) by metis
  have r1: "\<forall>j \<in> set is'. gstat e1 Running j" using Cons.prems(3) keep by (simp add: gstat_def)
  have c1: "list_all2 (gchosen P G m e1) is' ts'"
    using t(3) by (rule list.rel_mono_strong) (use keep in \<open>simp add: gchosen_def gparams_at_def gctx_at_def\<close>)
  have "af \<or> fin \<longleftrightarrow> (if fin then insert i D else D) \<noteq> {}" using Cons.prems(5) by simp
  from Cons.IH[OF I1 d(2) r1 c1 this] obtain af' D' e' where
    2: "res_fold gpu_record (zip is' ts') (af \<or> fin, e1) = Inr (af', e')" "g_inv P G M m B {} D' e'" "af' \<longleftrightarrow> D' \<noteq> {}"
      "ge_running e' = ge_running e1" "ge_waiting e' = ge_waiting e1" "ggrown P G m (set is') e1 e'" by blast
  have "ggrown P G m (set (i # is')) e e'"
    unfolding ggrown_def
  proof (intro conjI allI impI ballI)
    fix j assume j: "j \<in> set (i # is')"
    show "\<exists>rq out t. gwork e j = Some (rq, out) \<and> (out = [] \<or> \<not> stops rq out) \<and> gwork e' j = Some (rq, out @ [t])"
    proof (cases "j = i")
      case True
      then show ?thesis using 1(5) 2(6) d(1) by (auto simp: ggrown_def)
    next
      case False
      then have "j \<in> set is'" "gwork e1 j = gwork e j" using j 1(5) by (auto simp: ggrown_def)
      then show ?thesis using 2(6) by (auto simp: ggrown_def)
    qed
  qed (use 1(5) 2(6) in \<open>auto simp: ggrown_def\<close>)
  then show ?case using t(1) 1(1,3,4) 2(1-5) by (intro exI[of _ af'] exI[of _ D'] exI[of _ e']) simp
qed

lemma gpu_still_running_ok:
  "\<forall>i \<in> set is. ge_sequences e i \<noteq> None \<Longrightarrow> gpu_still_running e is = Inr (filter (\<lambda>i. \<not> gstat e Finished i) is)"
  by (induction "is") (auto simp: gseq_at_def gstat_def)

lemma gpu_retire_ok:
  assumes I: "g_inv P G M m B {} D e"
  shows "\<exists>e'. (if D \<noteq> {} then res_bind (gpu_still_running e (ge_running e)) (\<lambda>r. Inr (e\<lparr>ge_running := r\<rparr>)) else Inr e) = Inr e'
    \<and> g_inv P G M m B {} {} e' \<and> gsame e e'"
proof (cases "D = {}")
  case True
  then show ?thesis using I by (intro exI[of _ e]) simp
next
  case False
  note C = g_invD[OF I]
  let ?r = "filter (\<lambda>i. \<not> gstat e Finished i) (ge_running e)"
  have "\<forall>i \<in> set (ge_running e). ge_sequences e i \<noteq> None" using C(6,7) by (auto simp: gstat_def)
  note sr = gpu_still_running_ok[OF this]
  have mem: "i \<in> set ?r \<longleftrightarrow> gstat e Running i" for i using C(6,7)[of i] by (auto simp: gstat_def)
  have "length ?r \<le> length (ge_running e)" by simp
  then have "int (length ?r) \<le> max 0 (ge_max_batch e)" using C(8) by linarith
  then have "g_inv P G M m B {} {} (e\<lparr>ge_running := ?r\<rparr>)"
    using C mem unfolding g_inv_def by auto
  then show ?thesis using False sr by (intro exI[of _ "e\<lparr>ge_running := ?r\<rparr>"]) (simp add: gsame_def gwork_def fun_eq_iff)
qed

section \<open>A step\<close>

lemma ggrown_same:
  assumes "gsame e e1" "ggrown P G m A e1 e2" "gsame e2 e3"
  shows "ggrown P G m A e e3"
  using assms by (simp add: ggrown_def gsame_def)

lemma gpu_step_ok:
  assumes S: "gpu_setup G M m N" and I: "g_inv P G M m B {} {} e" and fit: "nat (ge_max_batch e) * B \<le> N"
  shows "\<exists>A e'. gpu_step P G m e = Inr e' \<and> g_inv P G M m B {} {} e' \<and> ggrown P G m A e e'
    \<and> (gpu_has_work e \<longrightarrow> 1 \<le> ge_max_batch e \<longrightarrow> A \<noteq> {})"
proof -
  note S' = gpu_setupD[OF S]
  have V: "vocab_size (gm_config m) = int (n_vocab M)" using gm_dims[OF S'(3,4)] by simp
  show ?thesis
  proof (cases "1 \<le> ge_max_batch e")
    case False
    then have a: "gpu_admit G m (ge_waiting e) e = Inr e" by (cases "ge_waiting e") simp_all
    have "ge_running e = []" using g_invD(8)[OF I] False by simp
    then have "gpu_step P G m e = Inr e" using a by (simp add: gpu_step_def)
    then show ?thesis using I False by (intro exI[of _ "{}"] exI[of _ e]) (simp add: ggrown_def)
  next
    case mb: True
    have "B \<le> N" using mult_le_mono1[of 1 "nat (ge_max_batch e)" B] mb fit by linarith
    then have SB: "gpu_setup G M m B" by (rule gpu_setup_mono[OF S])
    have "g_inv P G M m B {} {} (e\<lparr>ge_waiting := ge_waiting e\<rparr>)" using I by simp
    from gpu_admit_ok[OF SB this] obtain e1 where
      1: "gpu_admit G m (ge_waiting e) e = Inr e1" "g_inv P G M m B {} {} e1" "gsame e e1"
        "set (ge_waiting e) \<union> set (ge_running e) = set (ge_waiting e1) \<union> set (ge_running e1)"
        "ge_waiting e1 = [] \<or> ge_max_batch e \<le> int (length (ge_running e1))" by blast
    have items: "res_mapM (gpu_batch_item e1) (ge_running e1) = Inr (map (gitem e1) (ge_running e1))"
      by (rule res_mapM_ok) (rule gitem_ok(3)[OF 1(2)])
    have busy: "ge_running e1 \<noteq> []" if "gpu_has_work e"
    proof
      assume r: "ge_running e1 = []"
      then have "ge_waiting e1 = []" using 1(5) mb by auto
      then show False using that 1(4) r by (auto simp: gpu_has_work_def)
    qed
    show ?thesis
    proof (cases "ge_running e1 = []")
      case True
      then have "gpu_step P G m e = Inr e1" using 1(1) by (simp add: gpu_step_def)
      then show ?thesis using 1(2,3) busy True by (intro exI[of _ "{}"] exI[of _ e1]) (auto simp: ggrown_def gsame_def)
    next
      case False
      have fit1: "nat (ge_max_batch e1) * B \<le> N" using fit 1(3) by (simp add: gsame_def)
      from gpu_pick_ok[OF S 1(2) fit1 False] obtain ts e2 where
        2: "gpu_pick P G m (map (gitem e1) (ge_running e1)) (ge_running e1) e1 = Inr (ts, e2)" "list_all2 (gchosen P G m e1) (ge_running e1) ts"
          "g_inv P G M m B (set (ge_running e1)) {} e2" "gsame e1 e2" "ge_running e2 = ge_running e1" "ge_waiting e2 = ge_waiting e1" by blast
      have d: "distinct (ge_running e2)" using g_invD(4)[OF 2(3)] by simp
      have r: "\<forall>i \<in> set (ge_running e2). gstat e2 Running i" using g_invD(6)[OF 2(3)] by blast
      have w: "gwork e2 = gwork e1" using 2(4) by (simp add: gsame_def)
      have ch: "list_all2 (gchosen P G m e2) (ge_running e2) ts"
        unfolding 2(5)
      proof (rule list.rel_mono_strong[OF 2(2)])
        fix i t assume i: "i \<in> set (ge_running e1)" and c: "gchosen P G m e1 i t"
        from running_gseq[OF 1(2) i] obtain s where "ge_sequences e1 i = Some s" by blast
        moreover from this obtain s2 where "ge_sequences e2 i = Some s2" "gs_request s2 = gs_request s" "gs_output s2 = gs_output s"
          using fun_cong[OF w, of i] by (auto simp: gwork_def)
        ultimately show "gchosen P G m e2 i t" using c by (simp add: gchosen_def gparams_at_def gctx_at_def gctx_def)
      qed
      have I2: "g_inv P G M m B (set (ge_running e2)) {} e2" using 2(3) by (simp add: 2(5))
      from gpu_records_ok[OF V I2 d r ch, of False] obtain af D e3 where
        3: "res_fold gpu_record (zip (ge_running e1) ts) (False, e2) = Inr (af, e3)" "g_inv P G M m B {} D e3" "af \<longleftrightarrow> D \<noteq> {}"
          "ggrown P G m (set (ge_running e1)) e2 e3" "ge_running e3 = ge_running e1" unfolding 2(5) by auto
      from gpu_retire_ok[OF 3(2)] obtain e4 where
        4: "(if D \<noteq> {} then res_bind (gpu_still_running e3 (ge_running e3)) (\<lambda>r. Inr (e3\<lparr>ge_running := r\<rparr>)) else Inr e3) = Inr e4"
          "g_inv P G M m B {} {} e4" "gsame e3 e4" by blast
      have ne: "map (gitem e1) (ge_running e1) \<noteq> []" using False by simp
      have "gpu_step P G m e = Inr e4"
        using 4(1) 3(3) unfolding gpu_step_def 1(1) res_bind_Inr items if_not_P[OF ne] 2(1) prod.case 2(5) 3(1) by simp
      moreover have "ggrown P G m (set (ge_running e1)) e e4" by (rule ggrown_same[OF gsame_trans[OF 1(3) 2(4)] 3(4) 4(3)])
      ultimately show ?thesis using 4(2) False by (intro exI[of _ "set (ge_running e1)"] exI[of _ e4]) simp
    qed
  qed
qed

lemma gpu_engine_new_ok: "g_inv P G M m B {} {} (gpu_engine_new rng batch)"
  by (auto simp: g_inv_def gpu_engine_new_def gstat_def)

lemma gpu_add_request_ok:
  assumes I: "g_inv P G M m B {} {} e" and v: "gvalid P G M m B rq" "rq_prompt rq \<noteq> []"
  shows "\<exists>e'. gpu_add_request rq e = Inr (ge_next_id e, e') \<and> g_inv P G M m B {} {} e' \<and> gwork e' = (gwork e)(ge_next_id e \<mapsto> (rq, []))
    \<and> ge_max_batch e' = ge_max_batch e \<and> ge_next_id e' = ge_next_id e + 1 \<and> gwork e (ge_next_id e) = None"
proof -
  note D = g_invD[OF I]
  let ?i = "ge_next_id e"
  let ?s = "\<lparr>gs_request = rq, gs_cache = None, gs_output = [], gs_status = Waiting, gs_prefilled = False\<rparr>"
  let ?e = "e\<lparr>ge_next_id := ?i + 1, ge_sequences := (ge_sequences e)(?i \<mapsto> ?s), ge_waiting := ge_waiting e @ [?i]\<rparr>"
  have "?i \<notin> dom (ge_sequences e)" using D(2) by simp
  then have none: "ge_sequences e ?i = None" by blast
  have a: "gpu_add_request rq e = Inr (?i, ?e)" using v(2) none by (simp add: gpu_add_request_def Let_def)
  have gst: "gstat ?e x j \<longleftrightarrow> (if j = ?i then x = Waiting else gstat e x j)" for x j by (auto simp: gstat_def)
  have ni: "?i \<notin> set (ge_waiting e)" "?i \<notin> set (ge_running e)" using D(5,6)[of ?i] none by (simp_all add: gstat_def)
  have "g_inv P G M m B {} {} ?e"
    unfolding g_inv_def
  proof (intro conjI allI impI)
    show "dom (ge_sequences ?e) = {0..<ge_next_id ?e}" using D(1,2) by auto
    show "gseq_ok P G M m B (j \<in> {}) u" if "ge_sequences ?e j = Some u" for j u
      using that D(3)[of j u] v by (auto simp: gseq_ok_def gout_ok_def ids_ok_def split: if_splits)
    show "j \<in> set (ge_waiting ?e) \<longleftrightarrow> gstat ?e Waiting j" for j unfolding gst using D(5)[of j] by auto
    show "j \<in> set (ge_running ?e) \<longleftrightarrow> gstat ?e Running j \<or> j \<in> {}" for j unfolding gst using D(6)[of j] ni by auto
  qed (use D(1,4,8) ni in auto)
  moreover have "gwork ?e = (gwork e)(?i \<mapsto> (rq, []))" by (auto simp: gwork_def fun_eq_iff)
  ultimately show ?thesis using a none by (intro exI[of _ ?e]) (simp add: gwork_def)
qed

end
