(* ===== verification/Cuda_Engine_Runs.thy ===== *)
theory Cuda_Engine_Runs
  imports Cuda_Engine_Inv Engine_Runs
begin

text \<open>
  Runs of the device engine: any order of requests and steps from a fresh engine, and the
  properties of its states and of \<open>generate\<close>.
\<close>

section \<open>Runs\<close>

inductive gpu_run :: "'g platform \<Rightarrow> gpu \<Rightarrow> model \<Rightarrow> gpu_model \<Rightarrow> nat \<Rightarrow> int \<Rightarrow> 'g gpu_engine \<Rightarrow> bool"
  for P G M m B mb where
  fresh: "gpu_run P G M m B mb (gpu_engine_new rng mb)"
| asked: "gpu_run P G M m B mb e \<Longrightarrow> gvalid P G M m B rq \<Longrightarrow> gpu_add_request rq e = Inr (i, e') \<Longrightarrow> gpu_run P G M m B mb e'"
| stepped: "gpu_run P G M m B mb e \<Longrightarrow> gpu_step P G m e = Inr e' \<Longrightarrow> gpu_run P G M m B mb e'"

lemma gpu_run_inv:
  assumes "gpu_run P G M m B mb e" "gpu_setup G M m N" "nat mb * B \<le> N"
  shows "g_inv P G M m B {} {} e \<and> ge_max_batch e = mb"
  using assms(1)
proof (induction rule: gpu_run.induct)
  case (fresh rng)
  show ?case by (simp add: gpu_engine_new_ok) (simp add: gpu_engine_new_def)
next
  case (asked e rq i e')
  have "rq_prompt rq \<noteq> []" using asked(3) by (auto simp: gpu_add_request_def split: if_splits)
  from gpu_add_request_ok[OF conjunct1[OF asked.IH] asked(2) this] asked(3) asked.IH show ?case by auto
next
  case (stepped e e')
  from gpu_step_ok[OF assms(2) conjunct1[OF stepped.IH]] stepped.IH assms(3) obtain A e1 where
    "gpu_step P G m e = Inr e1" "g_inv P G M m B {} {} e1" "ggrown P G m A e e1" by auto
  then show ?case using stepped(2) stepped.IH by (simp add: ggrown_def)
qed

section \<open>Every step shrinks what is left\<close>

definition gleft :: "request \<times> int list \<Rightarrow> nat" where
  "gleft w = (case w of (rq, out) \<Rightarrow> if out \<noteq> [] \<and> stops rq out then 0 else nat (max 1 (rq_max_tokens rq)) - length out)"

definition gremaining :: "'g gpu_engine \<Rightarrow> nat" where
  "gremaining e = (\<Sum>i \<in> {0..<ge_next_id e}. case gwork e i of None \<Rightarrow> 0 | Some w \<Rightarrow> gleft w)"

lemma gleft_less:
  assumes "out = [] \<or> \<not> stops rq out"
  shows "gleft (rq, out @ [t]) < gleft (rq, out)"
  using assms by (auto simp: gleft_def stops_def)

lemma ggrown_remaining:
  assumes I: "g_inv P G M m B {} {} e" and g: "ggrown P G m A e e'" and A: "A \<noteq> {}"
  shows "gremaining e' < gremaining e"
proof -
  have n: "ge_next_id e' = ge_next_id e" using g by (simp add: ggrown_def)
  have le: "(case gwork e' i of None \<Rightarrow> 0 | Some w \<Rightarrow> gleft w) \<le> (case gwork e i of None \<Rightarrow> 0 | Some w \<Rightarrow> gleft w)" for i
  proof (cases "i \<in> A")
    case True
    then show ?thesis using g gleft_less by (fastforce simp: ggrown_def intro: less_imp_le)
  qed (use g in \<open>simp add: ggrown_def\<close>)
  from A obtain a where a: "a \<in> A" by blast
  with g obtain rq out t where w: "gwork e a = Some (rq, out)" "out = [] \<or> \<not> stops rq out" "gwork e' a = Some (rq, out @ [t])"
    by (auto simp: ggrown_def)
  have "a \<in> dom (ge_sequences e)" using w(1) by (auto simp: gwork_def)
  then have "a \<in> {0..<ge_next_id e}" using g_invD(2)[OF I] by simp
  moreover have "(case gwork e' a of None \<Rightarrow> 0 | Some w \<Rightarrow> gleft w) < (case gwork e a of None \<Rightarrow> 0 | Some w \<Rightarrow> gleft w)"
    using w gleft_less[OF w(2)] by simp
  ultimately have "\<exists>a \<in> {0..<ge_next_id e}. (case gwork e' a of None \<Rightarrow> 0 | Some w \<Rightarrow> gleft w) < (case gwork e a of None \<Rightarrow> 0 | Some w \<Rightarrow> gleft w)"
    by blast
  then show ?thesis
    unfolding gremaining_def n by (intro sum_strict_mono_ex1) (use le in auto)
qed

text \<open>Work stays what it was or grows.\<close>

definition gkeeps :: "'g gpu_engine \<Rightarrow> 'g gpu_engine \<Rightarrow> bool" where
  "gkeeps e e' \<longleftrightarrow> (\<forall>i rq out. gwork e i = Some (rq, out) \<longrightarrow> (\<exists>ext. gwork e' i = Some (rq, out @ ext)))"

lemma ggrown_keeps: "ggrown P G m A e e' \<Longrightarrow> gkeeps e e'"
  unfolding ggrown_def gkeeps_def by (metis append_Nil2 option.inject prod.inject)

lemma gkeeps_trans: "gkeeps e e' \<Longrightarrow> gkeeps e' e'' \<Longrightarrow> gkeeps e e''"
  unfolding gkeeps_def by (metis append_assoc)

lemma gpu_drive_returns:
  assumes "gpu_run P G M m B mb e" "gpu_setup G M m N" "nat mb * B \<le> N" "1 \<le> mb" "ge_sequences e i \<noteq> None"
  shows "\<exists>e' s. gpu_drive P G m i e = Some (Inr (gs_output s, e')) \<and> gpu_run P G M m B mb e' \<and> gkeeps e e'
    \<and> ge_sequences e' i = Some s \<and> gs_status s = Finished"
  using assms
proof (induction "gremaining e" arbitrary: e rule: less_induct)
  case less
  from less.prems(5) obtain s where s: "ge_sequences e i = Some s" by blast
  then have at: "gseq_at e i = Inr s" by (simp add: gseq_at_def)
  show ?case
  proof (cases "gs_status s = Finished")
    case True
    then show ?thesis using s at less.prems(1) by (intro exI[of _ e] exI[of _ s]) (simp add: gpu_drive.simps gkeeps_def)
  next
    case False
    from gpu_run_inv[OF less.prems(1-3)] have I: "g_inv P G M m B {} {} e" "ge_max_batch e = mb" by blast+
    have "i \<in> set (ge_waiting e) \<or> i \<in> set (ge_running e)"
      using g_invD(5,6)[OF I(1), of i] s False by (cases "gs_status s") (auto simp: gstat_def)
    then have w: "gpu_has_work e" by (auto simp: gpu_has_work_def)
    from gpu_step_ok[OF less.prems(2) I(1)] less.prems(3,4) I(2) w obtain A e1 where
      st: "gpu_step P G m e = Inr e1" "ggrown P G m A e e1" "A \<noteq> {}" by blast
    have r1: "gpu_run P G M m B mb e1" by (rule gpu_run.stepped[OF less.prems(1) st(1)])
    note k = ggrown_keeps[OF st(2)]
    have "gwork e i = Some (gs_request s, gs_output s)" using s by (simp add: gwork_def)
    then have "gwork e1 i \<noteq> None" using k unfolding gkeeps_def by (metis option.distinct(1))
    then have "ge_sequences e1 i \<noteq> None" by (auto simp: gwork_def)
    from less.hyps[OF ggrown_remaining[OF I(1) st(2,3)] r1 less.prems(2-4) this] obtain e' s' where
      r: "gpu_drive P G m i e1 = Some (Inr (gs_output s', e'))" "gpu_run P G M m B mb e'" "gkeeps e1 e'"
      "ge_sequences e' i = Some s'" "gs_status s' = Finished" by blast
    have "gpu_drive P G m i e = Some (Inr (gs_output s', e'))" using at False st(1) r(1) by (simp add: gpu_drive.simps[of P G m i e])
    then show ?thesis using r gkeeps_trans[OF k r(3)] by blast
  qed
qed

lemma gpu_engine_generate_ok:
  assumes "gpu_run P G M m B mb e" "gpu_setup G M m N" "nat mb * B \<le> N" "1 \<le> mb" "prompt \<noteq> []"
    and v: "gvalid P G M m B \<lparr>rq_prompt = prompt, rq_params = params, rq_max_tokens = mx, rq_eos_id = eos\<rparr>"
  shows "\<exists>out e'. gpu_engine_generate P G m prompt params mx eos e = Some (Inr (out, e')) \<and> gpu_run P G M m B mb e' \<and> out \<noteq> []
    \<and> ids_ok M out
    \<and> gout_ok P G m \<lparr>rq_prompt = prompt, rq_params = params, rq_max_tokens = mx, rq_eos_id = eos\<rparr> out
    \<and> stops \<lparr>rq_prompt = prompt, rq_params = params, rq_max_tokens = mx, rq_eos_id = eos\<rparr> out"
proof -
  let ?rq = "\<lparr>rq_prompt = prompt, rq_params = params, rq_max_tokens = mx, rq_eos_id = eos\<rparr>"
  from gpu_run_inv[OF assms(1-3)] have I: "g_inv P G M m B {} {} e" by blast
  from gpu_add_request_ok[OF I v] assms(5) obtain e1 where
    a: "gpu_add_request ?rq e = Inr (ge_next_id e, e1)" "gwork e1 = (gwork e)(ge_next_id e \<mapsto> (?rq, []))" by auto
  have r1: "gpu_run P G M m B mb e1" by (rule gpu_run.asked[OF assms(1) v a(1)])
  have "ge_sequences e1 (ge_next_id e) \<noteq> None" using fun_cong[OF a(2), of "ge_next_id e"] by (auto simp: gwork_def)
  from gpu_drive_returns[OF r1 assms(2-4) this] obtain e' s where
    d: "gpu_drive P G m (ge_next_id e) e1 = Some (Inr (gs_output s, e'))" "gpu_run P G M m B mb e'" "gkeeps e1 e'"
      "ge_sequences e' (ge_next_id e) = Some s" "gs_status s = Finished" by blast
  have s: "gs_request s = ?rq" using d(3,4) a(2) by (auto simp: gkeeps_def gwork_Some dest!: spec[of _ "ge_next_id e"])
  from gpu_run_inv[OF d(2) assms(2,3)] have "g_inv P G M m B {} {} e'" by blast
  from g_invD(3)[OF this d(4)] have "gseq_ok P G M m B False s" by simp
  then show ?thesis using d(1,2,5) a(1) s by (intro exI[of _ "gs_output s"] exI[of _ e']) (simp add: gpu_engine_generate_def gseq_ok_def)
qed

lemma gout_bounded:
  assumes "gout_ok P G m rq out" "out \<noteq> []"
  shows "int (length out) \<le> max 1 (rq_max_tokens rq)"
proof (cases "length out = 1")
  case False
  then have "0 < length out - 1" "length out - 1 < length out" using assms(2) by (cases out; simp)+
  then have "\<not> stops rq (take (length out - 1) out)" using assms(1) by (simp add: gout_ok_def)
  moreover have "length (take (length out - 1) out) = length out - 1" by simp
  ultimately have "int (length out - 1) < rq_max_tokens rq" unfolding stops_def by linarith
  then show ?thesis by linarith
qed simp

section \<open>Greedy requests\<close>

text \<open>No context of at most \<open>B\<close> tokens has a NaN logit, or only logits at or below \<open>-FLT_MAX\<close>: there
  the device argmax, a scan from \<open>-FLT_MAX\<close>, is the argmax of the host.\<close>

definition gclean :: "gpu \<Rightarrow> model \<Rightarrow> gpu_model \<Rightarrow> nat \<Rightarrow> bool" where
  "gclean G M m B \<longleftrightarrow> (\<forall>ids. ids_ok M ids \<longrightarrow> ids \<noteq> [] \<longrightarrow> length ids \<le> B \<longrightarrow>
     (\<forall>x \<in> set (gpu_next_logits G m ids). \<not> f32_nan x) \<and> (\<exists>x \<in> set (gpu_next_logits G m ids). f32_lt f32_lowest x))"

lemma gpu_greedy_draw:
  assumes S: "gpu_setup G M m B" and ids: "ids_ok M ids" "ids \<noteq> []" "length ids \<le> B"
    and g: "f64_le (temperature params) 0" and lg: "take (n_vocab M) lg = gpu_next_logits G m ids"
  shows "sample (p_fpu P) (p_sort P) (p_uniform P) lg (int (n_vocab M)) params rng = Inr (gpu_next G M ids, rng)"
proof -
  have S1: "gpu_setup G M m (length ids)" by (rule gpu_setup_mono[OF S ids(3)])
  have V: "0 < n_vocab M" using S by (simp add: gpu_setup_def gpu_dims_def)
  note e = gpu_next_logits_eq[OF S1 ids(1,2)]
  have "gpu_logits G M ids \<noteq> []" using ids(2) by (metis gpu_forward_rows_length length_0_conv)
  then have "length (gpu_next_logits G m ids) = n_vocab M" unfolding e using gpu_forward_full(2)[OF S1 ids(1,2)] by (simp add: rect_def)
  then have l: "n_vocab M \<le> length lg" using arg_cong[OF lg, of length] by simp
  have "first_best lg (n_vocab M) = first_best (last (gpu_logits G M ids)) (n_vocab M)"
    using first_best_take[OF lg l] unfolding e .
  then show ?thesis using argmax_first_best[OF V l] g V by (simp add: sample_def gpu_next_def)
qed

lemma gpu_greedy_samples:
  assumes S: "gpu_setup G M m B" and g: "f64_le (temperature params) 0"
  shows "gsamples_ok P G M m B params"
  unfolding gsamples_ok_def
proof (intro allI impI)
  fix ids lg rng
  assume i: "ids_ok M ids" "ids \<noteq> []" "length ids \<le> B" and lg: "take (n_vocab M) lg = gpu_next_logits G m ids"
  have "gpu_dims M" using S by (simp add: gpu_setup_def)
  then have "first_best x (n_vocab M) < n_vocab M" for x using first_best_lt[of "n_vocab M"] by (simp add: gpu_dims_def)
  then show "\<exists>t < n_vocab M. \<exists>g'. sample (p_fpu P) (p_sort P) (p_uniform P) lg (int (n_vocab M)) params rng = Inr (int t, g')"
    using gpu_greedy_draw[OF S i g lg, of P rng] unfolding gpu_next_def by blast
qed

lemma gdraws_greedy:
  assumes S: "gpu_setup G M m B" and c: "gclean G M m B" and ids: "ids_ok M ids" "ids \<noteq> []" "length ids \<le> B"
    and g: "f64_le (temperature params) 0" and d: "gdraws P G m params ids t"
  shows "t = gpu_next G M ids"
proof -
  have S1: "gpu_setup G M m (length ids)" by (rule gpu_setup_mono[OF S ids(3)])
  note S' = gpu_setupD[OF S]
  have V: "vocab_size (gm_config m) = int (n_vocab M)" using gm_dims[OF S'(3,4)] by simp
  note e = gpu_next_logits_eq[OF S1 ids(1,2)]
  from d consider "t = gpu_argmax_row (gpu_next_logits G m ids)"
    | lg g0 g' where "take (n_vocab M) lg = gpu_next_logits G m ids" "sample (p_fpu P) (p_sort P) (p_uniform P) lg (int (n_vocab M)) params g0 = Inr (t, g')"
    unfolding gdraws_def V by auto
  then show ?thesis
  proof cases
    case 1
    have "gpu_logits G M ids \<noteq> []" using ids(2) by (metis gpu_forward_rows_length length_0_conv)
    then have l: "length (gpu_next_logits G m ids) = n_vocab M" unfolding e using gpu_forward_full(2)[OF S1 ids(1,2)] by (simp add: rect_def)
    have "\<forall>x \<in> set (gpu_next_logits G m ids). \<not> f32_nan x" "\<exists>x \<in> set (gpu_next_logits G m ids). f32_lt f32_lowest x"
      using c ids unfolding gclean_def by blast+
    then have "gpu_argmax_row (gpu_next_logits G m ids) = int (first_best (gpu_next_logits G m ids) (length (gpu_next_logits G m ids)))"
      by (intro gpu_argmax_first_best) (use nth_mem in blast, metis in_set_conv_nth)
    then show ?thesis using 1 l e by (simp add: gpu_next_def)
  next
    case 2
    then show ?thesis using gpu_greedy_draw[OF S ids g 2(1), of P g0] by simp
  qed
qed

lemma stop_at_greedy:
  assumes "0 < k" "k \<le> n" "\<forall>j. 0 < j \<longrightarrow> j < k \<longrightarrow> last (greedy_tokens f j ids) \<noteq> eos" "last (greedy_tokens f k ids) = eos \<or> k = n"
  shows "stop_at eos (greedy_tokens f n ids) = greedy_tokens f k ids"
  using assms
proof (induction k arbitrary: n ids)
  case (Suc k)
  obtain n' where n: "n = Suc n'" "k \<le> n'" using Suc.prems(2) by (cases n) auto
  show ?case
  proof (cases "k = 0")
    case True
    then show ?thesis using Suc.prems(4) n by (auto simp: stop_at.simps split: if_splits)
  next
    case False
    have "f ids \<noteq> eos" using Suc.prems(3)[rule_format, of 1] False by simp
    moreover have "last (greedy_tokens f j (ids @ [f ids])) \<noteq> eos" if "0 < j" "j < k" for j
    proof -
      have "greedy_tokens f j (ids @ [f ids]) \<noteq> []" using that(1) by (metis length_greedy_tokens length_0_conv less_not_refl)
      then show ?thesis using Suc.prems(3)[rule_format, of "Suc j"] that by simp
    qed
    moreover have "last (greedy_tokens f k (ids @ [f ids])) = eos \<or> k = n'"
    proof -
      have "greedy_tokens f k (ids @ [f ids]) \<noteq> []" using False by (metis length_greedy_tokens length_0_conv)
      then show ?thesis using Suc.prems(4) n by auto
    qed
    ultimately show ?thesis using Suc.IH[of n' "ids @ [f ids]"] False n by simp
  qed
qed simp

section \<open>Properties\<close>

text \<open>C18: The device engine serves every request as if it were alone. In a run of valid requests
  (\<open>gvalid\<close>: tokens in the vocabulary, \<open>max_tokens\<close> not negative, prompt and limit together at
  most \<open>B\<close>, a sampler that returns a token) on a model whose batches of \<open>max_batch\<close> requests
  of that length a launch can cover, a step returns; each token of a sequence is chosen, by the device argmax or
  the sampler, on the logits of an uncached forward over its prompt and earlier tokens; no
  token follows a stopping one; a sequence is finished exactly when its output stops, and only
  running sequences own device memory.\<close>

theorem gpu_engine_outputs_exact:
  assumes "gpu_run P G M m B mb e" "gpu_setup G M m N" "nat mb * B \<le> N" "ge_sequences e i = Some s"
  shows "(\<exists>e'. gpu_step P G m e = Inr e')
    \<and> (\<forall>k < length (gs_output s). gdraws P G m (rq_params (gs_request s)) (rq_prompt (gs_request s) @ take k (gs_output s)) (gs_output s ! k))
    \<and> (\<forall>k. 0 < k \<longrightarrow> k < length (gs_output s) \<longrightarrow> \<not> stops (gs_request s) (take k (gs_output s)))
    \<and> (gs_status s = Finished \<longleftrightarrow> gs_output s \<noteq> [] \<and> stops (gs_request s) (gs_output s))
    \<and> (gs_cache s \<noteq> None \<longleftrightarrow> gs_status s = Running)"
proof -
  from gpu_run_inv[OF assms(1-3)] have I: "g_inv P G M m B {} {} e" "ge_max_batch e = mb" by blast+
  have "gseq_ok P G M m B False s" using g_invD(3)[OF I(1) assms(4)] by simp
  moreover have "\<exists>e'. gpu_step P G m e = Inr e'" using gpu_step_ok[OF assms(2) I(1)] assms(3) I(2) by blast
  ultimately show ?thesis by (cases "gs_status s") (auto simp: gseq_ok_def gout_ok_def gowns_def)
qed

text \<open>C19: \<open>generate\<close> of the device engine returns. For a valid request (\<open>gvalid\<close>), on an engine in any
  state of a run of valid requests that admits at least one sequence, it ends (with an accepted
  request that is not valid in the queue it throws, see \<open>gpu_engine_poisoned\<close>), with between one and \<open>max(1, max_tokens)\<close> tokens, each chosen on
  the logits of its own context, of which only the last stops.\<close>

theorem gpu_engine_generate_returns:
  assumes "gpu_run P G M m B mb e" "gpu_setup G M m N" "nat mb * B \<le> N" "1 \<le> mb" "prompt \<noteq> []"
    and "gvalid P G M m B \<lparr>rq_prompt = prompt, rq_params = params, rq_max_tokens = mx, rq_eos_id = eos\<rparr>"
  shows "\<exists>out e'. gpu_engine_generate P G m prompt params mx eos e = Some (Inr (out, e')) \<and> gpu_run P G M m B mb e'
    \<and> 1 \<le> length out \<and> int (length out) \<le> max 1 mx
    \<and> (\<forall>k < length out. gdraws P G m params (prompt @ take k out) (out ! k))
    \<and> (\<forall>k. 0 < k \<longrightarrow> k \<le> length out \<longrightarrow> ((0 \<le> eos \<and> last (take k out) = eos) \<or> mx \<le> int k \<longleftrightarrow> k = length out))"
proof -
  let ?rq = "\<lparr>rq_prompt = prompt, rq_params = params, rq_max_tokens = mx, rq_eos_id = eos\<rparr>"
  from gpu_engine_generate_ok[OF assms] obtain out e' where
    g: "gpu_engine_generate P G m prompt params mx eos e = Some (Inr (out, e'))" "gpu_run P G M m B mb e'" "out \<noteq> []"
      "gout_ok P G m ?rq out" "stops ?rq out" by blast
  have st: "stops ?rq (take k out) \<longleftrightarrow> (0 \<le> eos \<and> last (take k out) = eos) \<or> mx \<le> int k" if "k \<le> length out" for k
    using that by (simp add: stops_def min_def)
  have "((0 \<le> eos \<and> last (take k out) = eos) \<or> mx \<le> int k) \<longleftrightarrow> k = length out" if k: "0 < k" "k \<le> length out" for k
    unfolding st[OF k(2), symmetric] using g(4,5) k unfolding gout_ok_def by (metis le_neq_implies_less take_all order_refl)
  moreover have "\<forall>k < length out. gdraws P G m params (prompt @ take k out) (out ! k)" using g(4) by (simp add: gout_ok_def)
  moreover have "int (length out) \<le> max 1 mx" using gout_bounded[OF g(4,3)] by simp
  moreover have "1 \<le> length out" using g(3) by (cases out) simp_all
  ultimately show ?thesis using g(1,2) by blast
qed

text \<open>C20: For a greedy request the device engine and the device model agree. On an engine in any
  state of a run of valid requests (\<open>gvalid\<close>; a request that is not stops the engine, see
  \<open>gpu_engine_poisoned\<close>), if no context of at most \<open>B\<close> tokens gives a NaN logit or only logits at
  \<open>-FLT_MAX\<close> or below (there the two argmax differ, see \<open>gpu_argmax_differs\<close>),
  \<open>CudaEngine::generate\<close> returns exactly the tokens of \<open>CudaModel::generate\<close>.\<close>

theorem gpu_engine_generate_greedy:
  assumes "gpu_run P G M m B mb e" "gpu_setup G M m N" "nat mb * B \<le> N" "1 \<le> mb"
    and prompt: "prompt \<noteq> []" "ids_ok M prompt" "length prompt + n \<le> B" "0 < n"
    and greedy: "f64_le (temperature params) 0" and clean: "gclean G M m B"
  shows "\<exists>out e'. gpu_engine_generate P G m prompt params (int n) eos e = Some (Inr (out, e'))
    \<and> gpu_generate G m prompt (int n) eos = Inr out"
proof -
  let ?rq = "\<lparr>rq_prompt = prompt, rq_params = params, rq_max_tokens = int n, rq_eos_id = eos\<rparr>"
  have "B \<le> N" using mult_le_mono1[of 1 "nat mb" B] assms(3,4) by linarith
  then have SB: "gpu_setup G M m B" by (rule gpu_setup_mono[OF assms(2)])
  have v: "gvalid P G M m B ?rq" using prompt gpu_greedy_samples[OF SB greedy] by (simp add: gvalid_def)
  from gpu_engine_generate_ok[OF assms(1-5) v] obtain out e' where
    g: "gpu_engine_generate P G m prompt params (int n) eos e = Some (Inr (out, e'))" "out \<noteq> []" "ids_ok M out"
      "gout_ok P G m ?rq out" "stops ?rq out" by blast
  have len: "length out \<le> n" using gout_bounded[OF g(4,2)] prompt(4) by simp
  have "out ! k = gpu_next G M (prompt @ take k out)" if k: "k < length out" for k
  proof (rule gdraws_greedy[OF SB clean _ _ _ greedy])
    show "gdraws P G m params (prompt @ take k out) (out ! k)" using g(4) k by (simp add: gout_ok_def)
    show "ids_ok M (prompt @ take k out)" using prompt(2) g(3) by (auto simp: ids_ok_def dest: in_set_takeD)
    show "length (prompt @ take k out) \<le> B" using prompt(3) len k by simp
  qed (use prompt(1) in simp)
  then have out: "out = greedy_tokens (gpu_next G M) (length out) prompt" by (intro greedy_tokens_nth) blast
  have take: "greedy_tokens (gpu_next G M) j prompt = take j out" if "j \<le> length out" for j
  proof -
    have "out = greedy_tokens (gpu_next G M) (j + (length out - j)) prompt" using out that by simp
    then show ?thesis using that by (metis append_eq_conv_conj greedy_tokens_add length_greedy_tokens)
  qed
  have pos: "0 \<le> t" if "t \<in> set out" for t using g(3) that by (auto simp: ids_ok_def)
  have "stop_at eos (greedy_tokens (gpu_next G M) n prompt) = greedy_tokens (gpu_next G M) (length out) prompt"
  proof (rule stop_at_greedy[OF _ len])
    show "0 < length out" using g(2) by simp
    show "\<forall>j. 0 < j \<longrightarrow> j < length out \<longrightarrow> last (greedy_tokens (gpu_next G M) j prompt) \<noteq> eos"
    proof (intro allI impI)
      fix j assume j: "0 < j" "j < length out"
      then have "\<not> stops ?rq (take j out)" using g(4) by (simp add: gout_ok_def)
      moreover have "take j out \<noteq> []" using j by auto
      then have "0 \<le> last (take j out)" using pos last_in_set[of "take j out"] in_set_takeD[of _ j out] by blast
      ultimately show "last (greedy_tokens (gpu_next G M) j prompt) \<noteq> eos" using take[of j] j by (auto simp: stops_def)
    qed
    show "last (greedy_tokens (gpu_next G M) (length out) prompt) = eos \<or> length out = n"
      using g(5) len take[of "length out"] by (auto simp: stops_def)
  qed
  moreover have "gpu_setup G M m (length prompt + n)" by (rule gpu_setup_mono[OF SB prompt(3)])
  then have "gpu_generate G m prompt (int n) eos = Inr (stop_at eos (greedy_tokens (gpu_next G M) n prompt))"
    by (rule gpu_generate_next[OF _ prompt(2,1,4)])
  ultimately show ?thesis using g(1) out by simp
qed

section \<open>A request that stops the engine\<close>

text \<open>
  What a caller who catches the exceptions of \<open>step\<close> can do to an engine: ask, step, and step
  into an exception of the admission loop, which leaves the engine of \<open>gpu_admit_left\<close>. An
  exception from a later part of \<open>step\<close> has no rule; the property shows that none is reached.
\<close>

inductive gpu_attempt :: "'g platform \<Rightarrow> gpu \<Rightarrow> gpu_model \<Rightarrow> 'g gpu_engine \<Rightarrow> 'g gpu_engine \<Rightarrow> bool" for P G m where
  asks: "gpu_add_request rq e = Inr (i, e') \<Longrightarrow> gpu_attempt P G m e e'"
| steps: "gpu_step P G m e = Inr e' \<Longrightarrow> gpu_attempt P G m e e'"
| throws: "gpu_admit_left G m (ge_waiting e) e = Inl (x, e') \<Longrightarrow> gpu_attempt P G m e e'"

text \<open>The request \<open>i\<close> waits, there is room for it and all before it, and its cache cannot be made.\<close>

definition bad_waits :: "int \<Rightarrow> int list \<Rightarrow> 'g gpu_engine \<Rightarrow> bool" where
  "bad_waits i w e \<longleftrightarrow> (\<exists>pre post. w = pre @ i # post \<and> int (length (ge_running e) + length pre) < ge_max_batch e)
     \<and> (\<exists>s. ge_sequences e i = Some s \<and> int (length (rq_prompt (gs_request s))) + rq_max_tokens (gs_request s) \<le> 0)
     \<and> (\<forall>j \<ge> ge_next_id e. ge_sequences e j = None)"

text \<open>No sequence gets a token, and none is finished.\<close>

definition gpu_unserved :: "'g gpu_engine \<Rightarrow> 'g gpu_engine \<Rightarrow> bool" where
  "gpu_unserved e e' \<longleftrightarrow> (\<forall>j s. ge_sequences e j = Some s \<longrightarrow>
     (\<exists>s'. ge_sequences e' j = Some s' \<and> gs_output s' = gs_output s \<and> (gs_status s' = Finished \<longrightarrow> gs_status s = Finished)))"

lemma gpu_unserved_refl: "gpu_unserved e e"
  by (simp add: gpu_unserved_def)

lemma gpu_unserved_trans: "gpu_unserved e e' \<Longrightarrow> gpu_unserved e' e'' \<Longrightarrow> gpu_unserved e e''"
  unfolding gpu_unserved_def by (metis)

lemma bad_admission:
  assumes "bad_waits i w e"
  shows "\<exists>x e'. gpu_admit_left G m w e = Inl (x, e') \<and> bad_waits i (ge_waiting e') e' \<and> gpu_unserved e e'"
  using assms
proof (induction w arbitrary: e)
  case Nil
  then show ?case by (simp add: bad_waits_def)
next
  case (Cons k w)
  from Cons.prems obtain pre post s where
    p: "k # w = pre @ i # post" "int (length (ge_running e) + length pre) < ge_max_batch e"
    and s: "ge_sequences e i = Some s" "int (length (rq_prompt (gs_request s))) + rq_max_tokens (gs_request s) \<le> 0"
    and new: "\<forall>j \<ge> ge_next_id e. ge_sequences e j = None" unfolding bad_waits_def by blast
  have room: "int (length (ge_running e)) < ge_max_batch e" using p(2) by simp
  have stuck: "bad_waits i (k # w) (e\<lparr>ge_waiting := k # w\<rparr>)" "gpu_unserved e (e\<lparr>ge_waiting := k # w\<rparr>)"
    using Cons.prems by (simp_all add: bad_waits_def gpu_unserved_def)
  show ?case
  proof (cases "gseq_at e k")
    case (Inl x)
    with room stuck show ?thesis by simp
  next
    case (Inr t)
    let ?kv = "gpu_kv_new G (num_hidden_layers (gm_config m)) (gm_nkv m) (int (length (rq_prompt (gs_request t))) + rq_max_tokens (gs_request t))"
    show ?thesis
    proof (cases ?kv)
      case (Inl x)
      with Inr room stuck show ?thesis by (simp add: Let_def)
    next
      case kv: (Inr c)
      let ?e = "gseq_set k (t\<lparr>gs_cache := Some c, gs_status := Running\<rparr>) (e\<lparr>ge_running := ge_running e @ [k]\<rparr>)"
      have t: "ge_sequences e k = Some t" using Inr by (auto simp: gseq_at_def split: option.splits)
      have "k \<noteq> i"
      proof
        assume "k = i"
        then have "?kv = Inl (InvalidArgument ''GpuKVCache: num_layers, kv_dim, capacity must be positive'')"
          using s t by (simp add: gpu_kv_new_def)
        with kv show False by simp
      qed
      with p obtain pre' where "pre = k # pre'" "w = pre' @ i # post" by (cases pre) auto
      then have "bad_waits i w ?e"
        using p(2) s new t \<open>k \<noteq> i\<close> by (auto simp: bad_waits_def gseq_set_def)
      moreover have "gpu_unserved e ?e" using t by (auto simp: gpu_unserved_def gseq_set_def)
      ultimately show ?thesis using Cons.IH[of ?e] Inr kv room gpu_unserved_trans by (fastforce simp: Let_def)
    qed
  qed
qed

lemma bad_step:
  assumes "bad_waits i (ge_waiting e) e"
  shows "\<exists>x e'. gpu_admit_left G m (ge_waiting e) e = Inl (x, e') \<and> gpu_step P G m e = Inl x
    \<and> bad_waits i (ge_waiting e') e' \<and> gpu_unserved e e'"
  using bad_admission[OF assms, of G m] by (auto simp: gpu_step_def gpu_admit_left_eq)

lemma bad_add:
  assumes "bad_waits i (ge_waiting e) e" "gpu_add_request rq e = Inr (k, e')"
  shows "bad_waits i (ge_waiting e') e' \<and> gpu_unserved e e'"
proof -
  have k: "k = ge_next_id e" "ge_sequences e k = None"
    and e': "ge_waiting e' = ge_waiting e @ [k]" "ge_running e' = ge_running e" "ge_max_batch e' = ge_max_batch e" "ge_next_id e' = k + 1"
      "\<exists>s. ge_sequences e' = (ge_sequences e)(k \<mapsto> s)"
    using assms by (auto simp: gpu_add_request_def Let_def bad_waits_def split: if_splits)
  from e'(5) obtain s where s: "ge_sequences e' = (ge_sequences e)(k \<mapsto> s)" by blast
  have "\<exists>pre post. ge_waiting e' = pre @ i # post \<and> int (length (ge_running e') + length pre) < ge_max_batch e'"
    using assms(1) e'(1-3) unfolding bad_waits_def by (metis append.assoc append_Cons)
  then show ?thesis using assms(1) k e'(4) s by (auto simp: bad_waits_def gpu_unserved_def)
qed

lemma bad_attempts:
  assumes "(gpu_attempt P G m)\<^sup>*\<^sup>* e e'" "bad_waits i (ge_waiting e) e"
  shows "bad_waits i (ge_waiting e') e' \<and> gpu_unserved e e'"
  using assms
proof (induction rule: rtranclp_induct)
  case (step e1 e2)
  then have b: "bad_waits i (ge_waiting e1) e1" and u: "gpu_unserved e e1" by simp_all
  from step.hyps(2) have "bad_waits i (ge_waiting e2) e2 \<and> gpu_unserved e1 e2"
    by (cases rule: gpu_attempt.cases) (use bad_add[OF b] bad_step[OF b, of G m P] in auto)
  with u show ?case using gpu_unserved_trans by blast
qed (simp add: gpu_unserved_refl)

text \<open>C21: A request whose prompt length and limit add up to zero or less stops the device engine
  for good. \<open>add_request\<close> accepts it (any non-empty prompt). If there is room for all that
  wait, then from there on, whatever is asked, stepped or caught, every step throws in the
  admission loop, no sequence gets a token or is finished, and every \<open>generate\<close> throws.\<close>

theorem gpu_engine_poisoned:
  assumes "rq_prompt rq \<noteq> []" "int (length (rq_prompt rq)) + rq_max_tokens rq \<le> 0"
    and "int (length (ge_running e) + length (ge_waiting e)) < ge_max_batch e" "\<forall>j \<ge> ge_next_id e. ge_sequences e j = None"
  shows "\<exists>e1. gpu_add_request rq e = Inr (ge_next_id e, e1)
    \<and> (\<forall>e2. (gpu_attempt P G m)\<^sup>*\<^sup>* e1 e2 \<longrightarrow> gpu_unserved e1 e2
        \<and> (\<exists>x e3. gpu_step P G m e2 = Inl x \<and> gpu_admit_left G m (ge_waiting e2) e2 = Inl (x, e3) \<and> gpu_attempt P G m e2 e3)
        \<and> (\<forall>prompt params mx eos. prompt \<noteq> [] \<longrightarrow> (\<exists>x. gpu_engine_generate P G m prompt params mx eos e2 = Some (Inl x))))"
proof -
  let ?s = "\<lparr>gs_request = rq, gs_cache = None, gs_output = [], gs_status = Waiting, gs_prefilled = False\<rparr>"
  let ?e = "e\<lparr>ge_next_id := ge_next_id e + 1, ge_sequences := (ge_sequences e)(ge_next_id e \<mapsto> ?s), ge_waiting := ge_waiting e @ [ge_next_id e]\<rparr>"
  have add: "gpu_add_request rq e = Inr (ge_next_id e, ?e)" using assms(1,4) by (simp add: gpu_add_request_def Let_def)
  have bad: "bad_waits (ge_next_id e) (ge_waiting ?e) ?e" using assms(2-4) by (auto simp: bad_waits_def)
  have gen: "\<exists>x. gpu_engine_generate P G m prompt params mx eos e2 = Some (Inl x)"
    if b: "bad_waits (ge_next_id e) (ge_waiting e2) e2" and p: "prompt \<noteq> []" for e2 prompt params mx eos
  proof -
    let ?rq = "\<lparr>rq_prompt = prompt, rq_params = params, rq_max_tokens = mx, rq_eos_id = eos\<rparr>"
    have "ge_sequences e2 (ge_next_id e2) = None" using b by (simp add: bad_waits_def)
    with p obtain e3 s where e3: "gpu_add_request ?rq e2 = Inr (ge_next_id e2, e3)" "gseq_at e3 (ge_next_id e2) = Inr s" "gs_status s = Waiting"
      by (auto simp: gpu_add_request_def Let_def gseq_at_def)
    from bad_add[OF b e3(1)] bad_step[of "ge_next_id e" e3 G m P] obtain x where "gpu_step P G m e3 = Inl x" by blast
    then show ?thesis using e3 by (simp add: gpu_engine_generate_def gpu_drive.simps[of P G m "ge_next_id e2" e3])
  qed
  show ?thesis
  proof (intro exI[of _ ?e] conjI add allI impI)
    fix e2 assume "(gpu_attempt P G m)\<^sup>*\<^sup>* ?e e2"
    from bad_attempts[OF this bad] have b: "bad_waits (ge_next_id e) (ge_waiting e2) e2" and u: "gpu_unserved ?e e2" by simp_all
    show "gpu_unserved ?e e2" by (rule u)
    show "\<exists>x e3. gpu_step P G m e2 = Inl x \<and> gpu_admit_left G m (ge_waiting e2) e2 = Inl (x, e3) \<and> gpu_attempt P G m e2 e3"
      using bad_step[OF b, of G m P] gpu_attempt.throws by blast
    show "\<exists>x. gpu_engine_generate P G m prompt params mx eos e2 = Some (Inl x)" if "prompt \<noteq> []" for prompt params mx eos
      by (rule gen[OF b that])
  qed
qed

section \<open>Evaluations\<close>

text \<open>A product whose entries are all one.\<close>

definition flat_gpu :: gpu where
  "flat_gpu = toy_gpu\<lparr>g_sgemm := (\<lambda>s i n x w. replicate (s * n) f32_one)\<rparr>"

lemma flat_schedules: "schedules flat_gpu" "sgemm_rowwise flat_gpu"
proof -
  show "schedules flat_gpu" using toy_schedules by (simp add: schedules_def flat_gpu_def)
  have "concat (map (\<lambda>r. replicate n f32_one) (rows i s x)) = replicate (s * n) f32_one" for s i n :: nat and x :: "f32 list"
    by (simp add: map_replicate_const) (induction s, simp_all add: replicate_add)
  then show "sgemm_rowwise flat_gpu" by (simp add: sgemm_rowwise_def flat_gpu_def)
qed

lemma flat_clean:
  assumes "gpu_setup flat_gpu M m B"
  shows "gclean flat_gpu M m B"
  unfolding gclean_def
proof (intro allI impI)
  fix ids :: "int list" assume i: "ids_ok M ids" "ids \<noteq> []" "length ids \<le> B"
  have one: "\<not> f32_nan f32_one" "f32_lt f32_lowest f32_one" by code_simp+
  have V: "0 < n_vocab M" using assms by (simp add: gpu_setup_def gpu_dims_def)
  have "gpu_logits flat_gpu M ids \<noteq> []" using i(2) by (metis gpu_forward_rows_length length_0_conv)
  then have "last (gpu_logits flat_gpu M ids) \<in> set (gpu_logits flat_gpu M ids)" by simp
  moreover have "x = replicate (n_vocab M) f32_one" if "x \<in> set (gpu_logits flat_gpu M ids)" for x
    using that by (auto simp: gpu_forward_rows_def case_prod_unfold Let_def gpu_rows_def gpu_lin_row_def flat_gpu_def)
  ultimately have "gpu_next_logits flat_gpu m ids = replicate (n_vocab M) f32_one"
    using gpu_next_logits_eq[OF gpu_setup_mono[OF assms i(3)] i(1,2)] by simp
  then show "(\<forall>x \<in> set (gpu_next_logits flat_gpu m ids). \<not> f32_nan x) \<and> (\<exists>x \<in> set (gpu_next_logits flat_gpu m ids). f32_lt f32_lowest x)"
    using one V by simp
qed

abbreviation greedy_params :: sampling_params where
  "greedy_params \<equiv> \<lparr>temperature = 0, top_k = 0, top_p = f64_one\<rparr>"

lemma greedy_params_ok: "f64_le (temperature greedy_params) 0"
  by code_simp

lemma gtoy_valid:
  assumes "gpu_setup G gtoy_model m 5" "0 \<le> mx" "mx \<le> 3"
  shows "gvalid P G gtoy_model m 5 \<lparr>rq_prompt = [1, 0], rq_params = greedy_params, rq_max_tokens = mx, rq_eos_id = eos\<rparr>"
proof -
  have "ids_ok gtoy_model [1, 0]" by code_simp
  moreover have "nat mx \<le> 3" using assms(3) by simp
  ultimately show ?thesis using gpu_greedy_samples[OF assms(1) greedy_params_ok] assms(2) by (simp add: gvalid_def)
qed

lemma gpu_engine_outputs_exact_witness:
  "\<exists>m e s t. gpu_from_safetensors gtoy_config gtoy_weights = Inr m
    \<and> gpu_run toy_platform toy_gpu gtoy_model m 5 2 e \<and> ge_sequences e 0 = Some s \<and> gs_output s = [t]
    \<and> (\<exists>e'. gpu_step toy_platform toy_gpu m e = Inr e') \<and> gdraws toy_platform toy_gpu m greedy_params [1, 0] t"
proof -
  let ?P = toy_platform and ?rq = "\<lparr>rq_prompt = [1, 0], rq_params = greedy_params, rq_max_tokens = 3, rq_eos_id = 1\<rparr>"
  from gtoy_setup[of 10] obtain m where m: "gpu_from_safetensors gtoy_config gtoy_weights = Inr m" "gpu_setup toy_gpu gtoy_model m 10" by auto
  have S: "gpu_setup toy_gpu gtoy_model m 5" by (rule gpu_setup_mono[OF m(2)]) simp
  note v = gtoy_valid[OF S, of 3 ?P 1, simplified]
  from gpu_add_request_ok[OF gpu_engine_new_ok v, of 0 2] obtain e1 where
    1: "gpu_add_request ?rq (gpu_engine_new 0 2) = Inr (0, e1)" "g_inv ?P toy_gpu gtoy_model m 5 {} {} e1" "gwork e1 = [0 \<mapsto> (?rq, [])]" "ge_max_batch e1 = 2"
    by (auto simp: gpu_engine_new_def gwork_def[abs_def])
  have r1: "gpu_run ?P toy_gpu gtoy_model m 5 2 e1" by (rule gpu_run.asked[OF gpu_run.fresh v 1(1)])
  have "i \<in> set (ge_waiting e1) \<or> i \<in> set (ge_running e1)" if "i = 0" for i
  proof -
    from fun_cong[OF 1(3), of i] that obtain s where s: "ge_sequences e1 i = Some s" "gs_output s = []" by (auto simp: gwork_def)
    have "gseq_ok ?P toy_gpu gtoy_model m 5 False s" using g_invD(3)[OF 1(2) s(1)] by simp
    then have "gs_status s \<noteq> Finished" using s(2) by (auto simp: gseq_ok_def)
    then show ?thesis using g_invD(5,6)[OF 1(2), of i] s(1) by (cases "gs_status s") (auto simp: gstat_def)
  qed
  then have "gpu_has_work e1" by (fastforce simp: gpu_has_work_def)
  with gpu_step_ok[OF m(2) 1(2)] 1(4) obtain A e2 where
    2: "gpu_step ?P toy_gpu m e1 = Inr e2" "ggrown ?P toy_gpu m A e1 e2" "A \<noteq> {}" by auto
  have "0 \<in> A" using 2(2,3) 1(3) by (auto simp: ggrown_def split: if_splits)
  then obtain t where "gwork e2 0 = Some (?rq, [t])" using 2(2) 1(3) by (auto simp: ggrown_def)
  then obtain s where s: "ge_sequences e2 0 = Some s" "gs_request s = ?rq" "gs_output s = [t]" by (auto simp: gwork_Some)
  have r2: "gpu_run ?P toy_gpu gtoy_model m 5 2 e2" by (rule gpu_run.stepped[OF r1 2(1)])
  from gpu_engine_outputs_exact[OF r2 m(2) _ s(1)] have
    "\<exists>e'. gpu_step ?P toy_gpu m e2 = Inr e'" "gdraws ?P toy_gpu m greedy_params [1, 0] t" by (auto simp: s)
  then show ?thesis using m(1) r2 s(1,3) by blast
qed

lemma gpu_engine_generate_returns_witness:
  "\<exists>m out e'. gpu_from_safetensors gtoy_config gtoy_weights = Inr m
    \<and> gpu_engine_generate toy_platform toy_gpu m [1, 0] greedy_params 3 1 (gpu_engine_new 0 2) = Some (Inr (out, e'))
    \<and> 1 \<le> length out \<and> int (length out) \<le> 3"
proof -
  from gtoy_setup[of 10] obtain m where m: "gpu_from_safetensors gtoy_config gtoy_weights = Inr m" "gpu_setup toy_gpu gtoy_model m 10" by auto
  have S: "gpu_setup toy_gpu gtoy_model m 5" by (rule gpu_setup_mono[OF m(2)]) simp
  note v = gtoy_valid[OF S, of 3 toy_platform 1, simplified]
  from gpu_engine_generate_returns[OF gpu_run.fresh m(2) _ _ _ v, of 2 0] m(1) show ?thesis by auto
qed

lemma gpu_engine_generate_greedy_witness:
  "\<exists>m out e'. gpu_from_safetensors gtoy_config gtoy_weights = Inr m
    \<and> gpu_engine_generate toy_platform flat_gpu m [1, 0] greedy_params (int 3) 1 (gpu_engine_new 0 2) = Some (Inr (out, e'))
    \<and> gpu_generate flat_gpu m [1, 0] (int 3) 1 = Inr out"
proof -
  from gtoy_setup_on[OF flat_schedules, of 10] obtain m where
    m: "gpu_from_safetensors gtoy_config gtoy_weights = Inr m" "gpu_setup flat_gpu gtoy_model m 10" by auto
  have S: "gpu_setup flat_gpu gtoy_model m 5" by (rule gpu_setup_mono[OF m(2)]) simp
  have i: "ids_ok gtoy_model [1, 0]" by code_simp
  from gpu_engine_generate_greedy[OF gpu_run.fresh m(2) _ _ _ i _ _ greedy_params_ok flat_clean[OF S], of 2 3 toy_platform 1 0] m(1)
  show ?thesis by auto
qed

definition bad_request :: request where
  "bad_request = \<lparr>rq_prompt = [1], rq_params = greedy_params, rq_max_tokens = -1, rq_eos_id = 1\<rparr>"

lemma gpu_engine_poisoned_witness:
  "\<exists>e1. gpu_add_request bad_request (gpu_engine_new 0 2) = Inr (0, e1)
    \<and> (\<exists>x. gpu_step toy_platform toy_gpu \<lparr>gm_config = gtoy_config, gm_weights = []\<rparr> (e1 :: nat gpu_engine) = Inl x)
    \<and> (\<exists>x. gpu_engine_generate toy_platform toy_gpu \<lparr>gm_config = gtoy_config, gm_weights = []\<rparr> [1, 0] greedy_params 3 1 e1 = Some (Inl x))"
proof -
  have "rq_prompt bad_request \<noteq> []" "int (length (rq_prompt bad_request)) + rq_max_tokens bad_request \<le> 0"
    by (simp_all add: bad_request_def)
  from gpu_engine_poisoned[OF this, of "gpu_engine_new 0 2 :: nat gpu_engine" toy_platform toy_gpu "\<lparr>gm_config = gtoy_config, gm_weights = []\<rparr>"]
  show ?thesis by (auto simp: gpu_engine_new_def)
qed

end
