(* ===== verification/Cuda_Batch_Paged.thy ===== *)
theory Cuda_Batch_Paged
  imports Cuda_Batch_Cache
begin

text \<open>
  \<open>forward_batch_paged\<close>: batches whose keys and values live in the pool of one
  \<open>GpuBlockManager\<close>. The callback \<open>paged_attend\<close> is the second instance of \<open>gpu_batch\<close>: it
  writes to blocks no other item reads. The tables grow as those of the host manager do.
\<close>

section \<open>Writing from a longer buffer\<close>

lemma scatter_source_append:
  assumes "0 < kv" "length src = n * kv"
  shows "paged_scatter_kernel table (src @ ex) start (int n) bs (int kv) = paged_scatter_kernel table src start (int n) bs (int kv)"
proof (intro ext)
  fix t and b :: "f32 list"
  show "paged_scatter_kernel table (src @ ex) start (int n) bs (int kv) t b = paged_scatter_kernel table src start (int n) bs (int kv) t b"
  proof (cases "t < n * kv")
    case True
    have "int t sdiv int kv * int kv + int t smod int kv = int t"
      unfolding int_divmod[OF assms(1)] by (simp flip: of_nat_mult of_nat_add)
    moreover have "vec_get (src @ ex) (int t) = vec_get src (int t)" using True assms(2) by (intro vec_get_append) (simp_all flip: of_nat_mult)
    ultimately show ?thesis unfolding paged_scatter_kernel_def Let_def by simp
  next
    case False
    then have "int n * int kv \<le> int t" by (simp flip: of_nat_mult)
    then show ?thesis by (simp add: paged_scatter_kernel_def)
  qed
qed

lemma gpu_write_source:
  assumes "gb_kv_dim g = int w" "0 < w" "length k = n * w" "length v = n * w"
  shows "gpu_write G seq l start (k @ ke) (v @ ve) (int n) g = gpu_write G seq l start k v (int n) g"
  using assms by (simp add: gpu_write_def k_paged_scatter_def scatter_source_append Let_def)

section \<open>The callback\<close>

definition paged_item_of :: "bjob \<Rightarrow> paged_item" where
  "paged_item_of j = \<lparr>pi_blocks = Some (bj_addr j), pi_tokens = bj_toks j\<rparr>"

definition paged_ready :: "nat \<Rightarrow> nat \<Rightarrow> model \<Rightarrow> bjob list \<Rightarrow> paged_store \<Rightarrow> bool" where
  "paged_ready bs nb M js st \<longleftrightarrow> bm_shape bs (d_kv M) nb (n_layers M) (bm_of (ps_pool st)) \<and> distinct (map bj_addr js) \<and> jobs_sep bs js
     \<and> (\<forall>j \<in> set js. job_ok bs nb j \<and> ps_tables st (bj_addr j) = Some (job_blk j) \<and> gpu_small (bj_past j + bj_len j) (d_kv M)
          \<and> (bj_past j + bj_len j) * d_kv M \<le> length (ps_k_tmp st) \<and> (bj_past j + bj_len j) * d_kv M \<le> length (ps_v_tmp st))"

definition paged_view :: "nat \<Rightarrow> model \<Rightarrow> paged_store \<Rightarrow> bjob \<Rightarrow> nat \<Rightarrow> nat \<Rightarrow> hist" where
  "paged_view bs M st j l n = bm_view bs (d_kv M) (bm_of (ps_pool st)) (bj_table j) n l"

definition paged_keeps :: "nat \<Rightarrow> nat \<Rightarrow> model \<Rightarrow> bjob list \<Rightarrow> paged_store \<Rightarrow> paged_store \<Rightarrow> bool" where
  "paged_keeps bs nb M js st st' \<longleftrightarrow> ps_tables st' = ps_tables st
     \<and> jobs_frame bs (d_kv M) nb (n_layers M) js {..<n_layers M} (bm_of (ps_pool st)) (bm_of (ps_pool st'))"

lemma jobs_sepD:
  "jobs_sep bs js \<Longrightarrow> i < length js \<Longrightarrow> k < length js \<Longrightarrow> i \<noteq> k \<Longrightarrow> job_writes bs (js ! i) \<inter> set (bj_table (js ! k)) = {}"
proof (induction js arbitrary: i k)
  case (Cons j js)
  then show ?case by (cases i; cases k) auto
qed simp

lemma seq_rows_rect:
  assumes "table_ok nb t" "n \<le> length t * bs" "0 < bs" "length pool = nb * bs * w"
  shows "rect n w (seq_rows bs w t pool n)"
proof -
  have "length (row w (phys bs t r) pool) = w" if "r < n" for r
    using phys_lt[OF assms(1,3), of r] that assms(2,4) length_row[of "nb * bs" w pool "phys bs t r"] by simp
  then show ?thesis by (auto simp: rect_def seq_rows_def)
qed

lemma rect_rows_append: "rect s c (xss :: f32 list list) \<Longrightarrow> rows c s (concat xss @ ys) = xss"
  using rows_take[of s s c "concat xss" ys] rect_rows[of s c xss] rect_data_length[of s c xss] by simp

text \<open>Writing the new rows of a job and reading all of them back, on the pool.\<close>

lemma gpu_job_rows:
  fixes j :: bjob
  assumes G: "schedules G" and sh: "bm_shape bs (d_kv M) nb (n_layers M) (bm_of g)" and jo: "job_ok bs nb j" and l: "l < n_layers M"
    and ne: "0 < bj_len j" and k: "rect (bj_len j) (d_kv M) k" and v: "rect (bj_len j) (d_kv M) v"
    and h: "bm_view bs (d_kv M) (bm_of g) (bj_table j) (bj_past j) l = h" and n: "n = bj_past j + bj_len j"
    and small: "gpu_small n (d_kv M)" and tmp: "n * d_kv M \<le> length kt" "n * d_kv M \<le> length vt"
  shows "\<exists>g1 g2. gpu_write G (job_blk j) (int l) (int (bj_past j)) (concat k @ ke) (concat v @ ve) (int (bj_len j)) g = Inr g1
    \<and> gpu_gather G (job_blk j) (int l) (int n) kt vt g1
        = Inr (concat (fst h @ k) @ drop (n * d_kv M) kt, concat (snd h @ v) @ drop (n * d_kv M) vt, g2)
    \<and> rect n (d_kv M) (fst h @ k) \<and> rect n (d_kv M) (snd h @ v)
    \<and> bm_view bs (d_kv M) (bm_of g2) (bj_table j) n l = (fst h @ k, snd h @ v)
    \<and> jobs_frame bs (d_kv M) nb (n_layers M) [j] {l} (bm_of g) (bm_of g2)"
proof -
  let ?w = "d_kv M"
  note D = bm_shapeD[OF sh] and LK = rect_data_length[OF k] and LV = rect_data_length[OF v]
  have tb: "block_table (job_blk j) = bj_table j" by (simp add: job_blk_def)
  have T: "table_ok nb (block_table (job_blk j))" "once_from (bj_past j div bs) (block_table (job_blk j))"
    "bj_past j + bj_len j \<le> length (block_table (job_blk j)) * bs" using jo by (simp_all add: job_ok_def tb)
  have few: "gpu_small (bj_len j) ?w"
  proof -
    have "bj_len j * ?w \<le> n * ?w" using n by simp
    with small show ?thesis unfolding gpu_small_def by linarith
  qed
  from job_write_ok[OF sh l jo tb k v h] obtain m' where
    m': "bm_write (job_blk j) (int l) (int (bj_past j)) (concat k) (concat v) (int (bj_len j)) (bm_of g) = Inr m'"
      "bm_shape bs ?w nb (n_layers M) m'" "bm_view bs ?w m' (bj_table j) n l = (fst h @ k, snd h @ v)"
      "bm_alloc m' = bm_alloc (bm_of g)" "bm_prefix m' = bm_prefix (bm_of g)"
      "\<forall>l' t i. l' \<noteq> l \<longrightarrow> bm_view bs ?w m' t i l' = bm_view bs ?w (bm_of g) t i l'"
      "\<forall>t i. table_ok nb t \<longrightarrow> i \<le> length t * bs \<longrightarrow> job_writes bs j \<inter> set t = {} \<longrightarrow>
         bm_view bs ?w m' t i l = bm_view bs ?w (bm_of g) t i l" unfolding n by blast
  obtain g1 where g1: "gpu_write G (job_blk j) (int l) (int (bj_past j)) (concat k @ ke) (concat v @ ve) (int (bj_len j)) g = Inr g1" "bm_of g1 = m'"
    using bm_of_write[OF G sh T l LK LV few] m'(1) gpu_write_source[OF _ D(4) LK LV, of g G "job_blk j" "int l" "int (bj_past j)" ke ve] D(3)
    by (cases "gpu_write G (job_blk j) (int l) (int (bj_past j)) (concat k) (concat v) (int (bj_len j)) g") auto
  have n0: "0 < n" using ne n by simp
  from gpu_gather_ok[OF G m'(2)[folded g1(2)] T(1,3)[folded n] l n0 tmp small] obtain g2 where
    g2: "gpu_gather G (job_blk j) (int l) (int n) kt vt g1
      = Inr (concat (fst h @ k) @ drop (n * ?w) kt, concat (snd h @ v) @ drop (n * ?w) vt, g2)" "bm_of g2 = m'"
    using m'(3) g1(2) tb by auto
  have R: "rect n ?w (fst h @ k)" "rect n ?w (snd h @ v)"
    using m'(3) seq_rows_rect[OF T(1,3)[folded n] D(2)] bm_shapeD(8,9)[OF m'(2) l]
    by (auto simp: bm_view_def tb dest!: sym[of "seq_rows _ _ _ _ _"])
  have "bm_view bs ?w m' t i l' = bm_view bs ?w (bm_of g) t i l'"
    if "table_ok nb t" "i \<le> length t * bs" "job_writes bs j \<inter> set t = {}" for l' t i
    using m'(6,7) that by (cases "l' = l") simp_all
  then have "jobs_frame bs ?w nb (n_layers M) [j] {l} (bm_of g) (bm_of g2)"
    using m'(2,4-6) g2(2) by (simp add: jobs_frame_def)
  then show ?thesis using g1(1) g2 R m'(3) by (intro exI[of _ g1] exI[of _ g2]) simp
qed

lemma paged_attend_ok:
  assumes S: "gpu_setup G M m (bj_len (js ! i))" and rd: "paged_ready bs nb M js st" and i: "i < length js" and ne: "0 < bj_len (js ! i)"
    and l: "l < n_layers M" and h: "paged_view bs M st (js ! i) l (bj_past (js ! i)) = h"
    and q: "rect (bj_len (js ! i)) (d_q M) q" and k: "rect (bj_len (js ! i)) (d_kv M) k" and v: "rect (bj_len (js ! i)) (d_kv M) v"
    and a: "bj_len (js ! i) * d_q M \<le> length attn"
  shows "\<exists>st'. paged_attend G m (map paged_item_of js) l i (int (bj_len (js ! i))) (int (bj_past (js ! i)))
        (concat q @ qe) (concat k @ ke) (concat v @ ve) attn st
      = Inr (concat (row_attn (gpu_rows G M) (bj_past (js ! i)) q (fst h @ k) (snd h @ v)) @ drop (bj_len (js ! i) * d_q M) attn, st')
    \<and> paged_ready bs nb M js st' \<and> paged_keeps bs nb M js st st'
    \<and> paged_view bs M st' (js ! i) l (bj_past (js ! i) + bj_len (js ! i)) = (fst h @ k, snd h @ v)
    \<and> (\<forall>j \<in> set js. \<forall>l' n. n \<le> bj_past j + bj_len j \<longrightarrow> (l' \<noteq> l \<or> j \<noteq> js ! i) \<longrightarrow> paged_view bs M st' j l' n = paged_view bs M st j l' n)"
proof -
  let ?j = "js ! i" and ?w = "d_kv M" and ?g = "ps_pool st"
  let ?n = "bj_past ?j + bj_len ?j"
  have jm: "?j \<in> set js" using i by simp
  have sh: "bm_shape bs ?w nb (n_layers M) (bm_of ?g)" using rd by (simp add: paged_ready_def)
  have J: "job_ok bs nb ?j" "ps_tables st (bj_addr ?j) = Some (job_blk ?j)" "gpu_small ?n ?w" "?n * ?w \<le> length (ps_k_tmp st)" "?n * ?w \<le> length (ps_v_tmp st)"
    using rd jm by (simp_all add: paged_ready_def)
  from gpu_job_rows[OF gpu_setupD(1)[OF S] sh J(1) l ne k v h[unfolded paged_view_def] refl J(3,4,5), of ke ve] obtain g1 g2 where
    g1: "gpu_write G (job_blk ?j) (int l) (int (bj_past ?j)) (concat k @ ke) (concat v @ ve) (int (bj_len ?j)) ?g = Inr g1"
    and g2: "gpu_gather G (job_blk ?j) (int l) (int ?n) (ps_k_tmp st) (ps_v_tmp st) g1
      = Inr (concat (fst h @ k) @ drop (?n * ?w) (ps_k_tmp st), concat (snd h @ v) @ drop (?n * ?w) (ps_v_tmp st), g2)"
    and R: "rect ?n ?w (fst h @ k)" "rect ?n ?w (snd h @ v)"
    and vw: "bm_view bs ?w (bm_of g2) (bj_table ?j) ?n l = (fst h @ k, snd h @ v)"
    and fr: "jobs_frame bs ?w nb (n_layers M) [?j] {l} (bm_of ?g) (bm_of g2)" by blast
  define kt where "kt = concat (fst h @ k) @ drop (?n * ?w) (ps_k_tmp st)"
  define vt where "vt = concat (snd h @ v) @ drop (?n * ?w) (ps_v_tmp st)"
  have lt: "length kt = length (ps_k_tmp st)" "length vt = length (ps_v_tmp st)"
    using rect_data_length[OF R(1)] rect_data_length[OF R(2)] J(4,5) by (simp_all only: kt_def vt_def length_append length_drop)
  have rr: "rows ?w ?n kt = fst h @ k" "rows ?w ?n vt = snd h @ v" "rows (d_q M) (bj_len ?j) (concat q @ qe) = q"
    unfolding kt_def vt_def by (rule rect_rows_append[OF R(1)] rect_rows_append[OF R(2)] rect_rows_append[OF q])+
  have at: "gpu_attention G m (concat q @ qe) kt vt attn (int (bj_len ?j)) (int (bj_past ?j))
      = Inr (concat (row_attn (gpu_rows G M) (bj_past ?j) q (fst h @ k) (snd h @ v)) @ drop (bj_len ?j * d_q M) attn)"
    using gpu_attention_ok[OF S ne order_refl, of "concat q @ qe" "bj_past ?j" kt vt attn] rect_data_length[OF q] lt J(4,5) a unfolding rr by simp
  let ?st = "st\<lparr>ps_pool := g2, ps_k_tmp := kt, ps_v_tmp := vt\<rparr>"
  have e: "int (bj_past ?j) + int (bj_len ?j) = int ?n" by simp
  have run: "paged_attend G m (map paged_item_of js) l i (int (bj_len ?j)) (int (bj_past ?j)) (concat q @ qe) (concat k @ ke) (concat v @ ve) attn st
      = Inr (concat (row_attn (gpu_rows G M) (bj_past ?j) q (fst h @ k) (snd h @ v)) @ drop (bj_len ?j * d_q M) attn, ?st)"
    using i J(2) g1 g2 at unfolding paged_attend_def e kt_def[symmetric] vt_def[symmetric]
    by (simp add: paged_item_of_def ps_table_def)
  have "paged_ready bs nb M js ?st"
    using rd fr lt by (simp add: paged_ready_def jobs_frame_def)
  moreover have "paged_keeps bs nb M js st ?st"
    using jobs_frame_mono[OF fr, of js "{..<n_layers M}"] jm l by (simp add: paged_keeps_def)
  moreover have "paged_view bs M ?st ?j l ?n = (fst h @ k, snd h @ v)" using vw by (simp add: paged_view_def)
  moreover have "paged_view bs M ?st j l' n = paged_view bs M st j l' n"
    if j: "j \<in> set js" "n \<le> bj_past j + bj_len j" "l' \<noteq> l \<or> j \<noteq> ?j" for j l' n
  proof -
    have "l' \<noteq> l \<or> job_writes bs ?j \<inter> set (bj_table j) = {}"
      using j(1,3) rd i jobs_sepD[of bs js i] by (auto simp: paged_ready_def in_set_conv_nth)
    moreover have "job_ok bs nb j" using rd j(1) by (simp add: paged_ready_def)
    ultimately show ?thesis using fr j(2) by (auto simp: paged_view_def job_ok_def jobs_frame_def)
  qed
  ultimately show ?thesis using run by blast
qed

interpretation pb: gpu_batch "\<lambda>G m js. paged_attend G m (map paged_item_of js)" "paged_ready bs nb" "paged_view bs" "paged_keeps bs nb"
  for bs nb
proof (unfold_locales, goal_cases)
  case (1 M js st)
  then show ?case by (auto simp: paged_ready_def distinct_map)
next
  case (2 M js st j l n)
  then have "bm_shape bs (d_kv M) nb (n_layers M) (bm_of (ps_pool st))" "table_ok nb (bj_table j)" "n \<le> length (bj_table j) * bs"
    by (auto simp: paged_ready_def job_ok_def)
  with 2(3) show ?case using bm_shapeD(8,9)[of bs "d_kv M" nb "n_layers M" "bm_of (ps_pool st)" l] bm_shapeD(2)
    unfolding paged_view_def bm_view_def hist_ok_def fst_conv snd_conv by (blast intro: seq_rows_rect)
next
  case (3 M js st)
  then show ?case by (simp add: paged_keeps_def paged_ready_def jobs_frame_refl)
next
  case (4 M js st st1 st2)
  then show ?case using jobs_frame_trans unfolding paged_keeps_def by (metis Un_absorb)
next
  case 5
  then show ?case by (intro paged_attend_ok)
qed

section \<open>Reserving and committing\<close>

text \<open>The loop that reserves is the gathering loop of the host on the abstraction of the pool.\<close>

lemma paged_reserve_sim:
  assumes "res_fold gather_item (map job_item js) (ids, ps, sl, off, ps_tables st, bm_of (ps_pool st)) = Inr (ids', ps', sl', off', tb, mgr')"
    and "\<forall>x \<in> set sl. it_past x + it_len x \<le> mx"
  shows "\<exists>mx' g. res_fold paged_reserve (map paged_item_of js) (map it_past sl, mx, st) = Inr (map it_past sl', mx', st\<lparr>ps_tables := tb, ps_pool := g\<rparr>)
    \<and> bm_of g = mgr' \<and> (\<forall>x \<in> set sl'. it_past x + it_len x \<le> mx')"
  using assms
proof (induction js arbitrary: ids ps sl off st mx)
  case (Cons j js)
  let ?len = "int (bj_len j)"
  from Cons.prems(1) obtain s1 where s1: "gather_item (job_item j) (ids, ps, sl, off, ps_tables st, bm_of (ps_pool st)) = Inr s1"
    "res_fold gather_item (map job_item js) s1 = Inr (ids', ps', sl', off', tb, mgr')" by (auto simp: res_bind_eq_Inr)
  from s1(1) obtain blk blk' m1 where
    b: "ps_tables st (bj_addr j) = Some blk" "reserve blk ?len (bm_of (ps_pool st)) = Inr (blk', m1)"
    and "s1 = (ids @ bj_toks j, ps @ map (\<lambda>t. seq_length blk + int t) [0..<bj_len j],
        sl @ [\<lparr>it_addr = bj_addr j, it_offset = off, it_len = ?len, it_past = seq_length blk\<rparr>], off + ?len, (ps_tables st)(bj_addr j \<mapsto> blk'), m1)"
    by (auto simp: gather_item_def job_item_def deref_def res_bind_eq_Inr Let_def split: if_splits option.splits)
  note rest = s1(2)[unfolded this(3)]
  from b(2) obtain g1 where g1: "gpu_reserve blk ?len (ps_pool st) = Inr (blk', g1)" "bm_of g1 = m1"
    unfolding bm_of_reserve by (cases "gpu_reserve blk ?len (ps_pool st)") auto
  have sq: "seq_length blk' = seq_length blk" using b(2) by (auto simp: reserve_def res_bind_eq_Inr)
  let ?st = "st\<lparr>ps_tables := (ps_tables st)(bj_addr j \<mapsto> blk'), ps_pool := g1\<rparr>"
  let ?sl = "sl @ [\<lparr>it_addr = bj_addr j, it_offset = off, it_len = ?len, it_past = seq_length blk\<rparr>]"
  have "paged_reserve (paged_item_of j) (map it_past sl, mx, st) = Inr (map it_past ?sl, max mx (seq_length blk + ?len), ?st)"
    using b(1) g1(1) sq by (simp add: paged_reserve_def paged_item_of_def ps_table_def ps_put_def Let_def)
  moreover have "\<forall>x \<in> set ?sl. it_past x + it_len x \<le> max mx (seq_length blk + ?len)" using Cons.prems(2) by auto
  ultimately show ?case
    using Cons.IH[of "ids @ bj_toks j" "ps @ map (\<lambda>t. seq_length blk + int t) [0..<bj_len j]" ?sl "off + ?len" ?st "max mx (seq_length blk + ?len)"] rest g1(2)
    by (simp del: fun_upd_apply)
next
  case Nil
  then show ?case by (intro exI[of _ mx] exI[of _ "ps_pool st"]) simp
qed

lemma paged_commit_ok:
  "distinct (map bj_addr js) \<Longrightarrow> \<forall>j \<in> set js. ps_tables st (bj_addr j) = Some (job_blk j) \<Longrightarrow>
   res_fold paged_commit (map paged_item_of js) st = Inr (st\<lparr>ps_tables := store_put (map job_done js) (ps_tables st)\<rparr>)"
proof (induction js arbitrary: st)
  case (Cons j js)
  let ?st = "st\<lparr>ps_tables := (ps_tables st)(bj_addr j \<mapsto> job_blk (job_done j))\<rparr>"
  have "bj_addr k \<noteq> bj_addr j" if "k \<in> set js" for k using Cons.prems(1) that by (metis distinct.simps(2) imageI list.map(2) set_map)
  then have "\<forall>k \<in> set js. ps_tables ?st (bj_addr k) = Some (job_blk k)" using Cons.prems(2) by auto
  moreover have "paged_commit (paged_item_of j) st = Inr ?st"
    using Cons.prems(2) by (simp add: paged_commit_def paged_item_of_def ps_table_def ps_put_def gpu_commit_def job_blk_def job_done_def)
  moreover have "distinct (map bj_addr js)" using Cons.prems(1) by simp
  ultimately show ?case using Cons.IH[of ?st] by (simp del: fun_upd_apply)
qed simp

section \<open>The call\<close>

text \<open>A table of the pool holds the keys and values of a context.\<close>

definition pool_holds :: "gpu \<Rightarrow> model \<Rightarrow> nat \<Rightarrow> gpu_bm \<Rightarrow> int list \<Rightarrow> int list \<Rightarrow> bool" where
  "pool_holds G M bs g t ctx \<longleftrightarrow> (\<forall>l < n_layers M. bm_view bs (d_kv M) (bm_of g) t (length ctx) l = gpu_hist G M ctx l)"

definition paged_job_ok :: "gpu \<Rightarrow> model \<Rightarrow> nat \<Rightarrow> (int \<Rightarrow> int list) \<Rightarrow> paged_store \<Rightarrow> bjob \<Rightarrow> bool" where
  "paged_job_ok G M bs ctx st j \<longleftrightarrow> job_ready bs (bm_of (ps_pool st)) (ps_tables st) j \<and> ids_ok M (bj_toks j)
     \<and> bj_past j = length (ctx (bj_addr j)) \<and> bj_past j \<le> length (bj_table j) * bs \<and> pool_holds G M bs (ps_pool st) (bj_table j) (ctx (bj_addr j))"

lemma paged_batch_ok:
  assumes S: "gpu_setup G M m n" and sh: "bm_shape bs (d_kv M) nb (n_layers M) (bm_of (ps_pool st))"
    and inv: "store_inv (ps_tables st) as (bm_of (ps_pool st))"
    and js: "js \<noteq> []" "distinct (map bj_addr js)" "bj_addr ` set js \<subseteq> set as"
    and rd: "\<forall>j \<in> set js. paged_job_ok G M bs ctx st j \<and> bj_past j + bj_len j \<le> n"
    and need: "sum_list (map (job_need bs) js) \<le> bm_avail (bm_of (ps_pool st))" and n: "job_lens js \<le> n"
  defines "L \<equiv> map (\<lambda>j. last (gpu_logits G M (ctx (bj_addr j) @ bj_toks j))) js"
  shows "\<exists>st' js' m1. gpu_forward_batch_paged G m (map paged_item_of js) st = Inr (mk_mat (length js) (n_vocab M) L, st')
    \<and> rect (length js) (n_vocab M) L \<and> gathered bs (d_kv M) nb (n_layers M) as (ps_tables st) (bm_of (ps_pool st)) js js' m1
    \<and> jobs_frame bs (d_kv M) nb (n_layers M) js' {..<n_layers M} m1 (bm_of (ps_pool st'))
    \<and> ps_tables st' = store_put (map job_done js') (store_put js' (ps_tables st))
    \<and> (\<forall>j \<in> set js'. pool_holds G M bs (ps_pool st') (bj_table j) (ctx (bj_addr j) @ bj_toks j))"
proof -
  have "\<forall>j \<in> set js. job_ready bs (bm_of (ps_pool st)) (ps_tables st) j" using rd by (simp add: paged_job_ok_def)
  from gather_gathered[OF inv sh js(2,3) this need] obtain js' m1 where
    g: "res_fold gather_item (map job_item js) ([], [], [], 0, ps_tables st, bm_of (ps_pool st))
      = Inr (concat (map bj_toks js'), concat (map job_positions js'), job_slots 0 js', int (job_lens js'), store_put js' (ps_tables st), m1)"
      "gathered bs (d_kv M) nb (n_layers M) as (ps_tables st) (bm_of (ps_pool st)) js js' m1" by blast
  have g2: "list_all2 (job_grown bs) js js'" "bm_shape bs (d_kv M) nb (n_layers M) m1" using g(2) by (simp_all add: gathered_def)
  note J = gathered_jobs[OF g(2)]
  note GA = job_grown_all[OF g2(1) J(1)] and LG = job_grown_len[OF _ J(1)]
  have sim0: "\<forall>x \<in> set ([] :: item_slot list). it_past x + it_len x \<le> 0" by simp
  from paged_reserve_sim[OF g(1) sim0] obtain mx g1 where
    r: "res_fold paged_reserve (map paged_item_of js) ([], 0, st) = Inr (map it_past (job_slots 0 js'), mx, st\<lparr>ps_tables := store_put js' (ps_tables st), ps_pool := g1\<rparr>)"
      "bm_of g1 = m1" "\<forall>x \<in> set (job_slots 0 js'). it_past x + it_len x \<le> mx" by auto
  have past: "map it_past (job_slots k ks) = map (\<lambda>j. int (bj_past j)) ks" for k ks by (induction ks arbitrary: k) simp_all
  have mx: "int (bj_past j + bj_len j) \<le> mx" if "j \<in> set js'" for j
  proof -
    from that obtain i where i: "i < length js'" "js' ! i = j" by (auto simp: in_set_conv_nth)
    then have "job_slots 0 js' ! i \<in> set (job_slots 0 js')" by simp
    with r(3) show ?thesis using i by (force simp: job_slots_nth)
  qed
  note S' = gpu_setupD[OF S] and D = gm_dims[OF gpu_setupD(3,4)[OF S]]
  define tmp where "tmp = device_array G (mx * int (d_kv M))"
  have tmp: "(bj_past j + bj_len j) * d_kv M \<le> length tmp" if "j \<in> set js'" for j
  proof -
    have "int (bj_past j + bj_len j) * int (d_kv M) \<le> mx * int (d_kv M)" using mx[OF that] by (intro mult_right_mono) simp_all
    then have "nat (int ((bj_past j + bj_len j) * d_kv M)) \<le> nat (mx * int (d_kv M))" by (intro nat_mono) simp
    then show ?thesis by (simp add: tmp_def device_array_def del: of_nat_mult of_nat_add)
  qed
  let ?st1 = "st\<lparr>ps_tables := store_put js' (ps_tables st), ps_pool := g1, ps_k_tmp := tmp, ps_v_tmp := tmp\<rparr>"
  have same: "bj_past j' = bj_past j \<and> bj_toks j' = bj_toks j \<and> bj_addr j' = bj_addr j" if "job_grown bs j j'" for j j' using LG(1-3)[OF that] by simp
  have small: "gpu_small k (d_kv M)" if "k \<le> n" for k
    unfolding gpu_small_def by (rule gpu_fit[OF gpu_rows_fit_mono[OF S'(6) that] gpu_width_ge(3)])
  have rdy: "paged_ready bs nb M js' ?st1"
    unfolding paged_ready_def
  proof (intro conjI ballI)
    fix j' assume j': "j' \<in> set js'"
    from GA(5)[OF j'] obtain j where j: "j \<in> set js" "job_grown bs j j'" by blast
    show "gpu_small (bj_past j' + bj_len j') (d_kv M)" using small rd j same[OF j(2)] by simp
  qed (use J tmp g2(2) r(2) in auto)
  let ?H = "\<lambda>j. gpu_hist G M (ctx (bj_addr j))"
  have h: "paged_view bs M ?st1 j' l (bj_past j') = ?H j' l" if j': "j' \<in> set js'" and l: "l < n_layers M" for j' l
  proof -
    from GA(5)[OF j'] obtain j where j: "j \<in> set js" "job_grown bs j j'" by blast
    have p: "bj_past j \<le> length (bj_table j) * bs" "bj_past j = length (ctx (bj_addr j))" "pool_holds G M bs (ps_pool st) (bj_table j) (ctx (bj_addr j))"
      using bspec[OF rd j(1)] unfolding paged_job_ok_def by blast+
    show ?thesis using gathered_view[OF g(2) j(2) p(1), of l] p(2,3) l same[OF j(2)] r(2) by (simp add: paged_view_def pool_holds_def)
  qed
  have toks: "bj_toks j' \<noteq> [] \<and> ids_ok M (bj_toks j')" if j': "j' \<in> set js'" for j'
  proof -
    from GA(5)[OF j'] obtain j where j: "j \<in> set js" "job_grown bs j j'" by blast
    show ?thesis using rd j(1) same[OF j(2)] by (simp add: paged_job_ok_def job_ready_def)
  qed
  have lens: "job_lens js' = job_lens js" using arg_cong[OF GA(2), of "\<lambda>xs. sum_list (map length xs)"] by (simp only: list.map_comp comp_def)
  have ne: "js' \<noteq> []" using js(1) GA(4) by auto
  have Sj: "gpu_setup G M m (job_lens js')" unfolding lens by (rule gpu_setup_mono[OF S n])
  let ?spec = "\<lambda>j. gpu_forward_rows G M (bj_past j) (bj_toks j) (?H j)"
  from pb.batch_device_ok[OF Sj ne toks rdy h] obtain st2 where
    2: "gpu_forward_batch_device G m (map bj_toks js') (map (\<lambda>j. int (bj_past j)) js') (paged_attend G m (map paged_item_of js')) ?st1
        = Inr (concat (map (\<lambda>j. last (fst (?spec j))) js'), st2)"
      "rect (length js') (n_vocab M) (map (\<lambda>j. last (fst (?spec j))) js')" "paged_keeps bs nb M js' ?st1 st2"
      "\<forall>j \<in> set js'. \<forall>l < n_layers M. paged_view bs M st2 j l (bj_past j + bj_len j) = snd (?spec j) l" by blast
  have pl: "bj_past j' = length (ctx (bj_addr j'))" if j': "j' \<in> set js'" for j'
  proof -
    from GA(5)[OF j'] obtain j where j: "j \<in> set js" "job_grown bs j j'" by blast
    show ?thesis using rd j(1) same[OF j(2)] by (simp add: paged_job_ok_def)
  qed
  have Lr: "map (\<lambda>j. last (fst (?spec j))) js' = map (\<lambda>j. last (gpu_logits G M (ctx (bj_addr j) @ bj_toks j))) js'"
    by (rule map_cong[OF refl]) (use toks pl gpu_logits_last in auto)
  also have "\<dots> = L" unfolding L_def by (rule list_all2_map_eq[OF g2(1)]) (use same in auto)
  finally have L: "map (\<lambda>j. last (fst (?spec j))) js' = L" .
  have items: "map paged_item_of js' = map paged_item_of js" by (rule list_all2_map_eq[OF g2(1)]) (use same in \<open>simp add: paged_item_of_def\<close>)
  have tb: "ps_tables st2 = store_put js' (ps_tables st)" and fr: "jobs_frame bs (d_kv M) nb (n_layers M) js' {..<n_layers M} m1 (bm_of (ps_pool st2))"
    using 2(3) r(2) by (simp_all add: paged_keeps_def)
  define st' where "st' = st2\<lparr>ps_tables := store_put (map job_done js') (ps_tables st2)\<rparr>"
  have cm: "res_fold paged_commit (map paged_item_of js) st2 = Inr st'"
    unfolding items[symmetric] st'_def using J(5) by (intro paged_commit_ok[OF J(2)]) (simp add: tb)
  have ti: "map pi_tokens (map paged_item_of js) = map bj_toks js'" unfolding items[symmetric] by (simp add: paged_item_of_def)
  have "gpu_forward_batch_paged G m (map paged_item_of js) st = Inr (mk_mat (length js) (n_vocab M) L, st')"
    unfolding gpu_forward_batch_paged_def r(1) res_bind_Inr prod.case Let_def D tmp_def[symmetric] gpu_forward_batch_impl_def past ti
    using 2(1,2) download_ok[of "length js'" "n_vocab M" L] cm by (simp add: L items GA(4) D)
  moreover have "pool_holds G M bs (ps_pool st') (bj_table j) (ctx (bj_addr j) @ bj_toks j)" if "j \<in> set js'" for j
    using bspec[OF 2(4) that] pl[OF that] by (simp add: pool_holds_def paged_view_def st'_def gpu_rows_continue(2))
  ultimately show ?thesis using 2(2) g(2) fr tb GA(4) unfolding L by (intro exI[of _ st'] exI[of _ js'] exI[of _ m1]) (simp add: st'_def)
qed

text \<open>C17: A batch over the paged pool computes for each item what a forward over that item's context
  alone computes. If the tables account for the references of the pool, the blocks an item
  writes are its own, its table holds the context of its sequence and enough blocks are free,
  the call returns; row \<open>k\<close> of the logits is the last row of the uncached forward over context
  and new tokens of item \<open>k\<close>; afterwards the tables of the items hold context and tokens, the
  accounting still holds, and every other sequence keeps its table and what it holds.\<close>

theorem gpu_paged_batch_exact:
  assumes S: "gpu_setup G M m n" and sh: "bm_shape bs (d_kv M) nb (n_layers M) (bm_of (ps_pool st))"
    and inv: "store_inv (ps_tables st) as (bm_of (ps_pool st))"
    and js: "js \<noteq> []" "distinct (map bj_addr js)" "bj_addr ` set js \<subseteq> set as"
    and rd: "\<forall>j \<in> set js. paged_job_ok G M bs ctx st j \<and> ids_ok M (ctx (bj_addr j)) \<and> bj_past j + bj_len j \<le> n"
    and need: "sum_list (map (job_need bs) js) \<le> bm_avail (bm_of (ps_pool st))" and n: "job_lens js \<le> n"
  shows "\<exists>logits st'. gpu_forward_batch_paged G m (map paged_item_of js) st = Inr (logits, st')
    \<and> (\<forall>k < length js. row (n_vocab M) k (t_data logits) = gpu_next_logits G m (ctx (bj_addr (js ! k)) @ bj_toks (js ! k)))
    \<and> store_inv (ps_tables st') as (bm_of (ps_pool st')) \<and> bm_shape bs (d_kv M) nb (n_layers M) (bm_of (ps_pool st'))
    \<and> (\<forall>j \<in> set js. \<exists>t. ps_tables st' (bj_addr j) = Some \<lparr>block_table = t, seq_length = int (bj_past j + bj_len j)\<rparr>
         \<and> pool_holds G M bs (ps_pool st') t (ctx (bj_addr j) @ bj_toks j))
    \<and> (\<forall>a \<in> set as. \<forall>blk c. a \<notin> bj_addr ` set js \<longrightarrow> ps_tables st a = Some blk \<longrightarrow> ps_tables st' a = Some blk
         \<and> (length c \<le> length (block_table blk) * bs \<longrightarrow> pool_holds G M bs (ps_pool st) (block_table blk) c \<longrightarrow>
              pool_holds G M bs (ps_pool st') (block_table blk) c))"
proof -
  let ?L = "map (\<lambda>j. last (gpu_logits G M (ctx (bj_addr j) @ bj_toks j))) js" and ?m = "bm_of (ps_pool st)"
  have "\<forall>j \<in> set js. paged_job_ok G M bs ctx st j \<and> bj_past j + bj_len j \<le> n" using rd by blast
  from paged_batch_ok[OF S sh inv js this need n] obtain st' js' m1 where
    1: "gpu_forward_batch_paged G m (map paged_item_of js) st = Inr (mk_mat (length js) (n_vocab M) ?L, st')" "rect (length js) (n_vocab M) ?L"
      "gathered bs (d_kv M) nb (n_layers M) as (ps_tables st) ?m js js' m1"
      "jobs_frame bs (d_kv M) nb (n_layers M) js' {..<n_layers M} m1 (bm_of (ps_pool st'))"
      "ps_tables st' = store_put (map job_done js') (store_put js' (ps_tables st))"
      "\<forall>j \<in> set js'. pool_holds G M bs (ps_pool st') (bj_table j) (ctx (bj_addr j) @ bj_toks j)" by blast
  note K = gathered_closed[OF 1(3,4), folded 1(5)] and bs = gathered_jobs(1)[OF 1(3)]
  have g: "list_all2 (job_grown bs) js js'" using 1(3) by (simp add: gathered_def)
  have J: "\<exists>t. ps_tables st' (bj_addr j) = Some \<lparr>block_table = t, seq_length = int (bj_past j + bj_len j)\<rparr>
      \<and> pool_holds G M bs (ps_pool st') t (ctx (bj_addr j) @ bj_toks j)" if "j \<in> set js" for j
  proof -
    from job_grown_all(6)[OF g bs that] obtain j' where j': "j' \<in> set js'" "job_grown bs j j'" by blast
    show ?thesis using K(7)[OF j'(1)] bspec[OF 1(6) j'(1)] job_grown_len(1-3)[OF j'(2) bs] by (intro exI[of _ "bj_table j'"]) simp
  qed
  have "row (n_vocab M) k (concat ?L) = gpu_next_logits G m (ctx (bj_addr (js ! k)) @ bj_toks (js ! k))" if k: "k < length js" for k
  proof -
    let ?c = "ctx (bj_addr (js ! k)) @ bj_toks (js ! k)"
    have j: "paged_job_ok G M bs ctx st (js ! k)" "ids_ok M (ctx (bj_addr (js ! k)))" "bj_past (js ! k) + bj_len (js ! k) \<le> n"
      using rd nth_mem[OF k] by blast+
    then have "ids_ok M ?c" "?c \<noteq> []" "length ?c \<le> n" by (auto simp: paged_job_ok_def job_ready_def ids_ok_def)
    then show ?thesis using rect_row[OF 1(2) k] k gpu_next_logits_eq[OF gpu_setup_mono[OF S], of ?c] by simp
  qed
  moreover have "ps_tables st' a = Some blk \<and> (length c \<le> length (block_table blk) * bs \<longrightarrow> pool_holds G M bs (ps_pool st) (block_table blk) c \<longrightarrow>
      pool_holds G M bs (ps_pool st') (block_table blk) c)"
    if a: "a \<in> set as" "a \<notin> bj_addr ` set js" "ps_tables st a = Some blk" for a blk c
  proof -
    have s: "ps_tables st' a = Some blk" using K(3)[OF a(2)] a(3) by simp
    have some: "\<forall>a' \<in> bj_addr ` set js. \<exists>blk'. ps_tables st' a' = Some blk'" using J by blast
    have fr: "\<forall>t i l. table_ok nb t \<longrightarrow> i \<le> length t * bs \<longrightarrow>
        (\<forall>b \<in> set t. \<not> (priv (bm_of (ps_pool st')) b \<and> (\<exists>a' \<in> bj_addr ` set js. b \<in> set (block_table (the (ps_tables st' a')))))) \<longrightarrow>
        bm_view bs (d_kv M) (bm_of (ps_pool st')) t i l = bm_view bs (d_kv M) ?m t i l" using K(8) by simp
    show ?thesis using s batch_frame[OF K(2,1) a(1) s a(2) js(3) some fr] unfolding pool_holds_def by simp
  qed
  ultimately show ?thesis using 1(1) K(1,2) J by (intro exI[of _ "mk_mat (length js) (n_vocab M) ?L"] exI[of _ st']) simp
qed

lemma gpu_paged_batch_exact_witness:
  "\<exists>m g logits st'. gpu_from_safetensors gtoy_config gtoy_weights = Inr m \<and> gpu_bm_new toy_gpu 1 2 2 3 = Inr g
    \<and> gpu_forward_batch_paged toy_gpu m
        [\<lparr>pi_blocks = Some 0, pi_tokens = [1, 0, 1]\<rparr>, \<lparr>pi_blocks = Some 1, pi_tokens = [1]\<rparr>]
        \<lparr>ps_tables = [0 \<mapsto> no_blocks, 1 \<mapsto> no_blocks], ps_pool = g, ps_k_tmp = [], ps_v_tmp = []\<rparr> = Inr (logits, st')
    \<and> row 2 1 (t_data logits) = gpu_next_logits toy_gpu m [1]"
proof -
  from gtoy_setup[of 4] obtain m where m: "gpu_from_safetensors gtoy_config gtoy_weights = Inr m" "gpu_setup toy_gpu gtoy_model m 4" by auto
  have d: "n_layers gtoy_model = 1" "d_kv gtoy_model = 2" "n_vocab gtoy_model = 2" by code_simp+
  from gpu_bm_new_ok[of "n_layers gtoy_model" "d_kv gtoy_model" 2 toy_gpu 3] obtain g where
    g: "gpu_bm_new toy_gpu 1 2 2 3 = Inr g" "bm_shape 2 (d_kv gtoy_model) 3 (n_layers gtoy_model) (bm_of g)" "seqs_inv (bm_of g) []" "bm_avail (bm_of g) = 3"
    unfolding d by auto
  let ?tb = "[0 \<mapsto> no_blocks, 1 \<mapsto> no_blocks] :: seq_store"
  let ?st = "\<lparr>ps_tables = ?tb, ps_pool = g, ps_k_tmp = [], ps_v_tmp = []\<rparr>"
  let ?js = "[\<lparr>bj_addr = 0, bj_toks = [1, 0, 1], bj_past = 0, bj_table = []\<rparr>, \<lparr>bj_addr = 1, bj_toks = [1], bj_past = 0, bj_table = []\<rparr>]"
  have st: "store_inv (ps_tables ?st) [0, 1] (bm_of (ps_pool ?st))"
    using g(3) by (simp add: store_inv_def store_tables_def no_blocks_def seqs_inv_def held_def fun_eq_iff)
  have i: "ids_ok gtoy_model [1, 0, 1]" "ids_ok gtoy_model [1]" by code_simp+
  have "pool_holds toy_gpu gtoy_model 2 g [] []" unfolding pool_holds_def gpu_hist_nil by (simp add: bm_view_def seq_rows_def no_hist_def)
  with i have rd: "\<forall>j \<in> set ?js. paged_job_ok toy_gpu gtoy_model 2 (\<lambda>_. []) ?st j \<and> ids_ok gtoy_model [] \<and> bj_past j + bj_len j \<le> 4"
    by (simp add: paged_job_ok_def job_ready_def job_blk_def no_blocks_def priv_from_def ids_ok_def)
  have need: "sum_list (map (job_need 2) ?js) \<le> bm_avail (bm_of (ps_pool ?st))" by (simp add: g(4) job_need_def nblk_def)
  have sh: "bm_shape 2 (d_kv gtoy_model) 3 (n_layers gtoy_model) (bm_of (ps_pool ?st))" using g(2) by simp
  from gpu_paged_batch_exact[OF m(2) sh st _ _ _ rd need] obtain logits st' where
    b: "gpu_forward_batch_paged toy_gpu m (map paged_item_of ?js) ?st = Inr (logits, st')"
      "\<forall>k < length ?js. row (n_vocab gtoy_model) k (t_data logits) = gpu_next_logits toy_gpu m ([] @ bj_toks (?js ! k))" by auto
  then have "row 2 1 (t_data logits) = gpu_next_logits toy_gpu m [1]" using d(3) b(2)[rule_format, of 1] by simp
  then show ?thesis using m(1) g(1) b(1) by (auto simp: paged_item_of_def)
qed

end
