(* ===== verification/Cuda_Host.thy ===== *)
theory Cuda_Host
  imports Cuda_Rows
begin

text \<open>
  The host entry points of \<open>device.cu\<close> (\<open>engine::cuda::rms_norm\<close> and the others): each
  allocates device buffers, copies its operands in, launches the kernel and copies the result
  back. A host pointer is the list from it to the end of its allocation. The last section
  relates them to the layers of the CPU (\<open>nn.cpp\<close>).
\<close>

section \<open>Copies\<close>

text \<open>A negative size is a huge \<open>size_t\<close>, which \<open>cudaMalloc\<close> refuses.\<close>

definition cuda_malloc :: "gpu \<Rightarrow> int \<Rightarrow> f32 list res" where
  "cuda_malloc G n = (if n < 0 then Inl (RuntimeError ''cuda: malloc'') else Inr (device_array G n))"

definition device_ints :: "gpu \<Rightarrow> int \<Rightarrow> int list" where
  "device_ints G n = replicate (nat n) (uint (g_junk G))"

definition cuda_copy :: "'a list \<Rightarrow> 'a list \<Rightarrow> int \<Rightarrow> 'a list res" where
  "cuda_copy dst src n = res_bind (vec_read src 0 n) (vec_write dst 0)"

definition to_device :: "gpu \<Rightarrow> f32 list \<Rightarrow> int \<Rightarrow> f32 list res" where
  "to_device G src n = res_bind (cuda_malloc G n) (\<lambda>d. cuda_copy d src n)"

lemma cuda_copy_ok [simp]: "length src = n \<Longrightarrow> length dst = n \<Longrightarrow> cuda_copy dst src (int n) = Inr src"
  by (cases "n = 0") (auto simp: cuda_copy_def vec_read_def vec_write_def blit_def slice_def)

lemma to_device_ok [simp]: "length src = n \<Longrightarrow> to_device G src (int n) = Inr src"
  by (simp add: to_device_def cuda_malloc_def device_array_def)

section \<open>The entry points\<close>

definition host_saxpy :: "gpu \<Rightarrow> f32 \<Rightarrow> f32 list \<Rightarrow> f32 list \<Rightarrow> f32 list \<Rightarrow> int \<Rightarrow> f32 list res" where
  "host_saxpy G a x y out n =
     (if n \<le> 0 then Inr out
      else res_bind (to_device G x n) (\<lambda>dx. res_bind (to_device G y n) (\<lambda>dy.
           res_bind (launch G (grid_for n (int kThreads)) (saxpy_kernel (g_fpu G) a dx dy n) (device_array G n)) (\<lambda>dout.
             cuda_copy out dout n))))"

definition host_embedding :: "gpu \<Rightarrow> f32 list \<Rightarrow> int \<Rightarrow> int \<Rightarrow> int list \<Rightarrow> int \<Rightarrow> f32 list \<Rightarrow> f32 list res" where
  "host_embedding G weight vocab hidden ids n_ids out =
     (if n_ids \<le> 0 \<or> hidden \<le> 0 \<or> vocab \<le> 0 then Inr out
      else res_bind (to_device G weight (vocab * hidden)) (\<lambda>dw. res_bind (cuda_copy (device_ints G n_ids) ids n_ids) (\<lambda>dids.
           res_bind (k_embedding G dw dids (device_array G (n_ids * hidden)) n_ids hidden) (\<lambda>dout.
             cuda_copy out dout (n_ids * hidden)))))"

definition host_add_inplace :: "gpu \<Rightarrow> f32 list \<Rightarrow> f32 list \<Rightarrow> int \<Rightarrow> f32 list res" where
  "host_add_inplace G x y n =
     (if n \<le> 0 then Inr x
      else res_bind (to_device G x n) (\<lambda>dx. res_bind (to_device G y n) (\<lambda>dy.
           res_bind (k_add_inplace G dx dy n) (\<lambda>dx. cuda_copy x dx n))))"

definition host_rms_norm :: "gpu \<Rightarrow> f32 list \<Rightarrow> f32 list \<Rightarrow> f32 list \<Rightarrow> int \<Rightarrow> int \<Rightarrow> f64 \<Rightarrow> f32 list res" where
  "host_rms_norm G x weight out rs width eps =
     (if rs \<le> 0 \<or> width \<le> 0 then Inr out
      else res_bind (to_device G x (rs * width)) (\<lambda>dx. res_bind (to_device G weight width) (\<lambda>dw.
           res_bind (k_rms_norm G dx dw (device_array G (rs * width)) rs width eps) (\<lambda>dout.
             cuda_copy out dout (rs * width)))))"

definition host_silu_mul :: "gpu \<Rightarrow> f32 list \<Rightarrow> f32 list \<Rightarrow> f32 list \<Rightarrow> int \<Rightarrow> f32 list res" where
  "host_silu_mul G gate up out n =
     (if n \<le> 0 then Inr out
      else res_bind (to_device G gate n) (\<lambda>dgate. res_bind (to_device G up n) (\<lambda>dup.
           res_bind (k_silu_mul G dgate dup (device_array G n) n) (\<lambda>dout. cuda_copy out dout n))))"

definition host_rope :: "gpu \<Rightarrow> f32 list \<Rightarrow> int \<Rightarrow> int \<Rightarrow> int \<Rightarrow> f64 \<Rightarrow> int list \<Rightarrow> f32 list res" where
  "host_rope G x rs heads hdim theta positions =
     (if rs \<le> 0 \<or> heads \<le> 0 \<or> hdim \<le> 0 then Inr x
      else let n = rs * (heads * hdim)
           in res_bind (to_device G x n) (\<lambda>dx. res_bind (cuda_copy (device_ints G rs) positions rs) (\<lambda>dpos.
              res_bind (k_rope G dx rs heads hdim theta dpos) (\<lambda>dx. cuda_copy x dx n))))"

definition host_linear ::
    "gpu \<Rightarrow> f32 list \<Rightarrow> f32 list \<Rightarrow> f32 list option \<Rightarrow> f32 list \<Rightarrow> int \<Rightarrow> int \<Rightarrow> int \<Rightarrow> f32 list res" where
  "host_linear G x weight bias y rs in_dim out_dim =
     (if rs \<le> 0 \<or> in_dim \<le> 0 \<or> out_dim \<le> 0 then Inr y
      else res_bind (to_device G x (rs * in_dim)) (\<lambda>dx. res_bind (to_device G weight (out_dim * in_dim)) (\<lambda>dw.
           res_bind (case bias of None \<Rightarrow> Inr None | Some b \<Rightarrow> res_bind (to_device G b out_dim) (\<lambda>db. Inr (Some db))) (\<lambda>dbias.
           res_bind (k_linear G dx dw dbias (device_array G (rs * out_dim)) rs in_dim out_dim) (\<lambda>dy.
             cuda_copy y dy (rs * out_dim))))))"

text \<open>The sizes of \<open>attention\<close> are not checked, so an allocation can be refused before any copy.\<close>

definition host_attention ::
    "gpu \<Rightarrow> f32 list \<Rightarrow> f32 list \<Rightarrow> f32 list \<Rightarrow> f32 list \<Rightarrow> int \<Rightarrow> int \<Rightarrow> int \<Rightarrow> int \<Rightarrow> int \<Rightarrow> int \<Rightarrow> f32 list res" where
  "host_attention G q k v out q_len n_keys heads kv_heads hdim query_offset =
     (if q_len \<le> 0 \<or> n_keys \<le> 0 then Inr out
      else let qn = q_len * (heads * hdim); kn = n_keys * (kv_heads * hdim)
           in res_bind (cuda_malloc G qn) (\<lambda>dq. res_bind (cuda_malloc G kn) (\<lambda>dk. res_bind (cuda_malloc G kn) (\<lambda>dv.
              res_bind (cuda_malloc G qn) (\<lambda>dout.
              res_bind (cuda_copy dq q qn) (\<lambda>dq. res_bind (cuda_copy dk k kn) (\<lambda>dk. res_bind (cuda_copy dv v kn) (\<lambda>dv.
              res_bind (k_attention G dq dk dv dout q_len n_keys heads kv_heads hdim query_offset) (\<lambda>dout.
                cuda_copy out dout qn)))))))))"

definition host_argmax :: "gpu \<Rightarrow> f32 list \<Rightarrow> int list \<Rightarrow> int \<Rightarrow> int \<Rightarrow> int list res" where
  "host_argmax G logits out rs cols =
     (if rs \<le> 0 \<or> cols \<le> 0 then Inr out
      else res_bind (to_device G logits (rs * cols)) (\<lambda>dl.
           res_bind (k_argmax G dl (device_ints G rs) rs cols) (\<lambda>dout. cuda_copy out dout rs)))"

section \<open>What they compute\<close>

lemma device_array_length [simp]: "length (device_array G (int n)) = n"
  by (simp add: device_array_def)

lemma device_ints_length [simp]: "length (device_ints G (int n)) = n"
  by (simp add: device_ints_def)

lemma host_saxpy_ok:
  assumes "schedules G" "length x = n" "length y = n" "length out = n" "int n < 2 ^ 38"
  shows "host_saxpy G a x y out (int n) = Inr (map2 (\<lambda>xi yi. f_mad (g_fpu G) a xi yi) x y)"
proof (cases "n = 0")
  case False
  let ?f = "\<lambda>xi yi. f_mad (g_fpu G) a xi yi"
  have "launch G (grid_for (int n) (int kThreads)) (saxpy_kernel (g_fpu G) a x y (int n)) (device_array G (int n))
      = Inr (map (\<lambda>i. ?f (x ! i) (y ! i)) [0..<n])"
    by (rule launch_map) (use assms False in \<open>simp_all add: saxpy_kernel_def mem_simps\<close>)
  moreover have "map (\<lambda>i. ?f (x ! i) (y ! i)) [0..<n] = map2 ?f x y" using assms by (intro nth_equalityI) auto
  ultimately show ?thesis using False assms by (simp add: host_saxpy_def)
qed (use assms in \<open>simp add: host_saxpy_def\<close>)

lemma host_argmax_ok:
  assumes "schedules G" "length x = s * n" "0 < n" "length out = s" "s < 2 ^ 31"
  shows "host_argmax G x out (int s) (int n) = Inr (map gpu_argmax_row (rows n s x))"
proof (cases "s = 0")
  case False
  have "to_device G x (int s * int n) = Inr x" using to_device_ok[of x "s * n" G] assms(2) by simp
  with False show ?thesis
    using assms k_argmax_ok[OF assms(1-3), of "device_ints G (int s)"] by (simp add: host_argmax_def)
qed (use assms in \<open>simp add: host_argmax_def rows_def\<close>)

text \<open>The attention of the device: the online softmax over the keys \<open>0 .. query_offset + i\<close>.\<close>

lemma host_attention_ok:
  assumes G: "schedules G" and nh: "0 < nh" and kv: "0 < nkv" "nkv dvd nh" and dh: "0 < dh" "dh \<le> 256" and s: "0 < s"
    and q: "length q = s * (nh * dh)" and k: "length k = (off + s) * (nkv * dh)" and v: "length v = (off + s) * (nkv * dh)"
    and out: "length out = s * (nh * dh)" and small: "int (s * (nh * dh)) < 2 ^ 38"
  shows "host_attention G q k v out (int s) (int (off + s)) (int nh) (int nkv) (int dh) (int off)
    = Inr (concat (map (\<lambda>i. gpu_attn_row (g_fpu G) (int nh) (int nkv) (int dh) (row (nh * dh) i q)
        (rows (nkv * dh) (off + i + 1) k) (rows (nkv * dh) (off + i + 1) v)) [0..<s]))" (is "_ = Inr ?r")
proof -
  have e: "int s * (int nh * int dh) = int (s * (nh * dh))" "int (off + s) * (int nkv * int dh) = int ((off + s) * (nkv * dh))" by simp_all
  define d where "d = device_array G (int (s * (nh * dh)))"
  have d: "length d = s * (nh * dh)" unfolding d_def by (rule device_array_length)
  have a: "k_attention G q k v d (int s) (int (off + s)) (int nh) (int nkv) (int dh) (int off) = Inr ?r"
    using k_attention_ok[OF G nh kv dh s, of q off k v d] q k v d small by simp
  have "length ?r = s * (nh * dh)"
  proof -
    have "length (rows (nkv * dh) n v ! r) = nkv * dh" if "r < n" "n \<le> off + s" for n r
      using that v length_row[of "off + s" "nkv * dh" v r] by simp
    then have "length (gpu_attn_row (g_fpu G) (int nh) (int nkv) (int dh) (row (nh * dh) i q)
        (rows (nkv * dh) (off + i + 1) k) (rows (nkv * dh) (off + i + 1) v)) = nh * dh" if "i < s" for i
      using that by (intro gpu_attn_row_length[OF kv]) (auto simp: in_set_conv_nth simp del: nth_rows)
    then show ?thesis by (subst length_concat_uniform[where w = "nh * dh"]) auto
  qed
  then show ?thesis using s a q k v out
    unfolding host_attention_def Let_def e by (simp add: cuda_malloc_def d_def[symmetric] d del: of_nat_mult of_nat_add)
qed

section \<open>Agreement with the CPU\<close>

definition tensor_data :: "tensor res \<Rightarrow> f32 list res" where
  "tensor_data r = res_bind r (\<lambda>t. Inr (t_data t))"

lemma tensor_data_mat [simp]: "tensor_data (Inr (mk_mat s c xss)) = Inr (concat xss)"
  by (simp add: tensor_data_def mk_mat_def del: mk_mat_record)

lemma to_device_prod: "length xs = m * n \<Longrightarrow> to_device G xs (int m * int n) = Inr xs"
  using to_device_ok[of xs "m * n" G] by simp

lemma cuda_copy_prod: "length src = m * n \<Longrightarrow> length dst = m * n \<Longrightarrow> cuda_copy dst src (int m * int n) = Inr src"
  using cuda_copy_ok[of src "m * n" dst] by simp

lemma host_elementwise_ok:
  assumes "schedules G" "length x = n" "length y = n" "int n < 2 ^ 38"
  shows "host_add_inplace G x y (int n) = Inr (map2 (f_add (g_fpu G)) x y)"
    and "length out = n \<Longrightarrow> host_silu_mul G x y out (int n) = Inr (map2 (silu (g_fpu G)) x y)"
  using k_add_inplace_ok[OF assms] k_silu_mul_ok[OF assms(1-3) _ assms(4), of "device_array G (int n)"] assms(2,3)
  by (cases "n = 0"; simp add: host_add_inplace_def host_silu_mul_def)+

lemma host_add_inplace_ok:
  assumes "schedules G" "rect s h xss" "rect s h yss" "int (s * h) < 2 ^ 38"
  shows "host_add_inplace G (concat xss) (concat yss) (int (s * h))
    = tensor_data (add_inplace (g_fpu G) (mk_mat s h xss) (mk_mat s h yss))"
proof -
  have "map2 (f_add (g_fpu G)) (concat xss) (concat yss) = concat (map2 (map2 (f_add (g_fpu G))) xss yss)"
    by (rule map2_concat) (use assms in \<open>auto simp: rect_def\<close>)
  then show ?thesis
    using host_elementwise_ok(1)[OF assms(1) rect_data_length[OF assms(2)] rect_data_length[OF assms(3)] assms(4)]
      add_inplace_rows[OF assms(2,3)] by (simp del: of_nat_mult)
qed

lemma host_silu_mul_ok:
  assumes "schedules G" "rect s h gss" "rect s h uss" "length out = s * h" "int (s * h) < 2 ^ 38"
  shows "host_silu_mul G (concat gss) (concat uss) out (int (s * h))
    = tensor_data (silu_mul (g_fpu G) (mk_mat s h gss) (mk_mat s h uss))"
proof -
  have "map2 (silu (g_fpu G)) (concat gss) (concat uss) = concat (map2 (map2 (silu (g_fpu G))) gss uss)"
    by (rule map2_concat) (use assms in \<open>auto simp: rect_def\<close>)
  then show ?thesis
    using host_elementwise_ok(2)[OF assms(1) rect_data_length[OF assms(2)] rect_data_length[OF assms(3)] assms(5,4)]
      silu_mul_rows[OF assms(2,3)] by (simp del: of_nat_mult)
qed

lemma host_embedding_ok:
  assumes "schedules G" "mat vocab h w" "length out = length ids * h" "int (length ids * h) < 2 ^ 38" "0 < h" "ids \<noteq> []"
    and ids: "\<forall>t \<in> set ids. 0 \<le> t \<and> t < int vocab"
  shows "host_embedding G (t_data w) (int vocab) (int h) ids (int (length ids)) out = tensor_data (embedding w ids)"
proof -
  have v: "0 < vocab" using assms(6) ids by (cases ids) auto
  have w: "length (t_data w) = vocab * h" using assms(2) by (simp add: mat_def)
  define d where "d = device_array G (int (length ids) * int h)"
  have d: "length d = length ids * h" using device_array_length[of G "length ids * h"] by (simp add: d_def)
  have k: "k_embedding G (t_data w) ids d (int (length ids)) (int h) = Inr (concat (map (embed_row h w) ids))"
    using k_embedding_ok[OF assms(1) d w assms(4) ids] unfolding embed_row_def .
  have "length (concat (map (embed_row h w) ids)) = length (map (embed_row h w) ids) * h"
    by (rule length_concat_uniform) (use ids embed_row_length[OF assms(2)] in auto)
  then show ?thesis using v w k assms(3,5,6)
    by (simp add: host_embedding_def to_device_prod cuda_copy_prod embedding_rows[OF assms(2) ids] d_def[symmetric])
qed

lemma host_rms_norm_ok:
  assumes "schedules G" "rect s h xss" "vec_ok h w" "length out = s * h" "0 < h" "0 < s" "s < 2 ^ 31"
  shows "host_rms_norm G (concat xss) (t_data w) out (int s) (int h) eps = Inr (concat (map (gpu_rms_row (g_fpu G) (t_data w) eps) xss))"
proof -
  have l: "length (concat xss) = s * h" by (rule rect_data_length[OF assms(2)])
  have w: "length (t_data w) = h" using assms(3) by (simp add: vec_ok_def)
  define d where "d = device_array G (int s * int h)"
  have d: "length d = s * h" using device_array_length[of G "s * h"] by (simp add: d_def)
  have k: "k_rms_norm G (concat xss) (t_data w) d (int s) (int h) eps = Inr (concat (map (gpu_rms_row (g_fpu G) (t_data w) eps) xss))"
    using k_rms_norm_ok[OF assms(1) l w assms(5) d assms(7)] rect_rows[OF assms(2)] by simp
  have "rect s h (map (gpu_rms_row (g_fpu G) (t_data w) eps) xss)"
    by (rule rect_map[OF assms(2)]) (simp add: gpu_rms_row_def Let_def w)
  from rect_data_length[OF this] show ?thesis
    using l w k assms(4-6) by (simp add: host_rms_norm_def to_device_prod cuda_copy_prod d_def[symmetric])
qed

lemma host_rope_ok:
  assumes "schedules G" "rect s (nh * dh) xss" "length ps = s" "0 < nh" "2 \<le> dh" "0 < s" "int (s * (nh * dh)) < 2 ^ 38"
  shows "host_rope G (concat xss) (int s) (int nh) (int dh) theta ps
    = tensor_data (rope_inplace (g_fpu G) (mk_mat s (nh * dh) xss) (int nh) (int dh) theta ps)"
proof -
  have l: "length (concat xss) = s * (nh * dh)" by (rule rect_data_length[OF assms(2)])
  let ?yss = "map2 (rope_row (g_fpu G) (int nh) (int dh) theta) ps xss"
  have k: "k_rope G (concat xss) (int s) (int nh) (int dh) theta ps = Inr (concat ?yss)"
    using k_rope_ok[OF assms(1,4,5) l assms(3,7)] rect_rows[OF assms(2)] by simp
  have "length y = nh * dh" if "y \<in> set ?yss" for y
    using that assms(2) rope_row_length[of _ nh dh] by (auto simp: rect_def set_zip)
  then have "rect s (nh * dh) ?yss" using assms(2,3) by (auto simp: rect_def)
  from rect_data_length[OF this] have y: "length (concat ?yss) = s * (nh * dh)" .
  have e: "int s * (int nh * int dh) = int (s * (nh * dh))" by simp
  show ?thesis using l k y assms(3-6) unfolding host_rope_def Let_def e
    by (simp add: rope_rows[OF assms(2,3)] del: of_nat_mult)
qed

text \<open>\<open>linear\<close>, when cuBLAS multiplies row by row: the product of each row and its bias.\<close>

lemma host_linear_ok:
  assumes G: "schedules G" "sgemm_rowwise G" and x: "length x = s * i" and w: "length w = n * i" and b: "bias_sized n bias"
    and out: "length y = s * n" and pos: "0 < s" "0 < i" "0 < n" and small: "int (s * n) < 2 ^ 38" "s < 2 ^ 31" "i < 2 ^ 31" "n < 2 ^ 31"
  shows "host_linear G x w bias y (int s) (int i) (int n) = Inr (concat (map (gpu_lin_row G i n w bias) (rows i s x)))"
proof -
  define d where "d = device_array G (int s * int n)"
  have d: "length d = s * n" using device_array_length[of G "s * n"] by (simp add: d_def)
  have k: "k_linear G x w bias d (int s) (int i) (int n) = Inr (concat (map (gpu_lin_row G i n w bias) (rows i s x)))"
    by (rule k_linear_ok[OF G pos(2,3) x w d b small])
  have db: "(case bias of None \<Rightarrow> Inr None | Some b \<Rightarrow> res_bind (to_device G b (int n)) (\<lambda>db. Inr (Some db))) = Inr bias"
    using b by (cases bias) (simp_all add: bias_sized_def)
  have "length r = i" if "r \<in> set (rows i s x)" for r using rows_mem_length[of s i x] x that by simp
  then have "rect s n (map (gpu_lin_row G i n w bias) (rows i s x))"
    using gpu_lin_row_length[OF G(2) _ w b] by (auto simp: rect_def)
  from rect_data_length[OF this] show ?thesis
    using x w k pos out db by (simp add: host_linear_def to_device_prod cuda_copy_prod d_def[symmetric])
qed

text \<open>C15: What the entry points of the device compute, for every thread order and every device
  arithmetic. On matrices that a launch can cover, \<open>add_inplace\<close>, \<open>silu_mul\<close>, \<open>embedding\<close>
  (of ids in the vocabulary) and \<open>rope\<close> (of heads of at least two elements) give the data of
  the tensor that the code of \<open>nn.cpp\<close> gives when it is read in the arithmetic of the device:
  its rounding, its contraction of sums of products, its \<open>expf\<close>, \<open>pow\<close>, \<open>cos\<close> and \<open>sin\<close>.
  \<open>rms_norm\<close> gives the row function \<open>gpu_rms_row\<close>, which differs from the one of \<open>nn.cpp\<close>
  only in the order it sums the squares in; over the real numbers the two sums are equal.
  Nothing is claimed of a host whose arithmetic is another one: there ADR-0004 asks for
  agreement within a tolerance.\<close>

theorem host_ops_exact:
  assumes "schedules G" "rect s h xss" "rect s h yss" "length out = s * h" "0 < s" "h = nh * dh" "0 < nh" "2 \<le> dh"
    and "int (s * h) < 2 ^ 38" "s < 2 ^ 31" "length ps = s"
    and "mat vocab h e" "length ids = s" "\<forall>t \<in> set ids. 0 \<le> t \<and> t < int vocab" and "vec_ok h w"
  shows "host_add_inplace G (concat xss) (concat yss) (int (s * h)) = tensor_data (add_inplace (g_fpu G) (mk_mat s h xss) (mk_mat s h yss))
    \<and> host_silu_mul G (concat xss) (concat yss) out (int (s * h)) = tensor_data (silu_mul (g_fpu G) (mk_mat s h xss) (mk_mat s h yss))
    \<and> host_embedding G (t_data e) (int vocab) (int h) ids (int s) out = tensor_data (embedding e ids)
    \<and> host_rope G (concat xss) (int s) (int nh) (int dh) theta ps = tensor_data (rope_inplace (g_fpu G) (mk_mat s h xss) (int nh) (int dh) theta ps)
    \<and> host_rms_norm G (concat xss) (t_data w) out (int s) (int h) eps = Inr (concat (map (gpu_rms_row (g_fpu G) (t_data w) eps) xss))
    \<and> block_fold (+) (\<lambda>acc z. z * z + acc) 0 (zs :: real list) = foldl (\<lambda>acc z. z * z + acc) 0 zs"
proof -
  have h: "0 < h" and ids: "ids \<noteq> []" using assms(5-8,13) by auto
  show ?thesis
    using host_add_inplace_ok[OF assms(1-3,9)] host_silu_mul_ok[OF assms(1-4,9)]
      host_embedding_ok[OF assms(1,12) _ _ h ids assms(14), of out] assms(4,9,13)
      host_rope_ok[OF assms(1) assms(2)[unfolded assms(6)] assms(11,7,8,5) assms(9)[unfolded assms(6)], of theta]
      host_rms_norm_ok[OF assms(1,2,15,4) h assms(5,10), of eps] block_squares[of zs]
    by (simp only: assms(6))
qed

lemma host_ops_exact_witness:
  "host_add_inplace toy_gpu [1, 2] [3, 4] 2 = Inr [4, 6]
    \<and> host_embedding toy_gpu [5, 6, 7, 8] 2 2 [1] 1 [0, 0] = Inr [7, 8]
    \<and> host_rms_norm toy_gpu [1, 2] [1, 1] [0, 0] 1 2 4 = Inr (gpu_rms_row toy_fpu [1, 1] 4 [1, 2])"
proof -
  have R: "rect 1 2 [[1, 2 :: f32]]" "rect 1 2 [[3, 4 :: f32]]" by (simp_all add: rect_def)
  have M: "mat 2 2 \<lparr>t_shape = [2, 2], t_data = [5, 6, 7, 8]\<rparr>" "vec_ok 2 \<lparr>t_shape = [2], t_data = [1, 1]\<rparr>"
    by (simp_all add: mat_def vec_ok_def tensor_ok_def numel_def)
  from host_ops_exact[OF toy_schedules R, of "[0, 0]" 1 2 "[0]" 2 _ "[1]" _, OF _ _ _ _ _ _ _ _ M(1) _ _ M(2), of 3 4 "[]"]
  have "host_add_inplace toy_gpu [1, 2] [3, 4] 2 = tensor_data (add_inplace toy_fpu (mk_mat 1 2 [[1, 2]]) (mk_mat 1 2 [[3, 4]]))"
    "host_embedding toy_gpu [5, 6, 7, 8] 2 2 [1] 1 [0, 0] = tensor_data (embedding \<lparr>t_shape = [2, 2], t_data = [5, 6, 7, 8]\<rparr> [1])"
    "host_rms_norm toy_gpu [1, 2] [1, 1] [0, 0] 1 2 4 = Inr (gpu_rms_row toy_fpu [1, 1] 4 [1, 2])"
    by (simp_all add: toy_gpu_def)
  moreover have "tensor_data (add_inplace toy_fpu (mk_mat 1 2 [[1, 2]]) (mk_mat 1 2 [[3, 4]])) = Inr [4, 6]" by code_simp
  moreover have "tensor_data (embedding \<lparr>t_shape = [2, 2], t_data = [5, 6, 7, 8]\<rparr> [1]) = Inr [7, 8]" by code_simp
  ultimately show ?thesis by simp
qed

text \<open>With heads of one element the CPU has nothing to rotate, while the device launches an empty
  grid, which the runtime refuses.\<close>

lemma rope_head_dim_one:
  assumes "0 < s" "0 < nh" "rect s nh xss" "length ps = s"
  shows "rope_inplace F (mk_mat s nh xss) (int nh) 1 theta ps = Inr (mk_mat s nh xss)"
    and "host_rope G (concat xss) (int s) (int nh) 1 theta ps = Inl (RuntimeError ''cuda: launch: invalid configuration argument'')"
proof -
  show "rope_inplace F (mk_mat s nh xss) (int nh) 1 theta ps = Inr (mk_mat s nh xss)"
    using assms(4) by (simp add: rope_inplace_def)
  have "grid_for 0 (int kThreads) = 0" by code_simp
  then show "host_rope G (concat xss) (int s) (int nh) 1 theta ps = Inl (RuntimeError ''cuda: launch: invalid configuration argument'')"
    using assms rect_data_length[OF assms(3)] by (simp add: host_rope_def to_device_prod k_rope_def launch_def)
qed

end
