(* ===== verification/Model_Quant.thy ===== *)
theory Model_Quant
  imports Model_Chunks
begin

text \<open>
  \<open>Model::quantize\<close> (\<open>model.cpp\<close>) with \<open>quantize_rowwise_int8\<close> (\<open>quant.cpp\<close>): a model whose
  weights have the shapes its configuration asks for stays one when its projections are
  quantized, so whatever holds for well-formed models holds for quantized ones.
\<close>

section \<open>One matrix\<close>

lemma sint_clamp: "-128 \<le> r \<Longrightarrow> r < 128 \<Longrightarrow> sint (word_of_int r :: 8 word) = r"
  by (simp add: sint_sbintrunc' signed_take_bit_int_eq_self)

lemma quantize_row_range: "b \<in> set (snd (quantize_row F xr)) \<Longrightarrow> -127 \<le> sint b \<and> sint b \<le> 127"
  by (auto simp: quantize_row_def Let_def sint_clamp)

definition int8_range :: "quantized_matrix \<Rightarrow> bool" where
  "int8_range q \<longleftrightarrow> (\<forall>b \<in> set (qm_data q). -127 \<le> sint b \<and> sint b \<le> 127)"

lemma quantize_rowwise_range: "quantize_rowwise_int8 F w = Inr q \<Longrightarrow> int8_range q"
  by (auto simp: quantize_rowwise_int8_def res_bind_eq_Inr Let_def int8_range_def quantize_row_range split: if_splits)

section \<open>The loop over the projections\<close>

text \<open>What the loop keeps: it only adds entries, each the quantization of the weight of that name.\<close>

definition quant_grown :: "fpu \<Rightarrow> model \<Rightarrow> model \<Rightarrow> bool" where
  "quant_grown F m u \<longleftrightarrow> m_config u = m_config m \<and> m_weights u = m_weights m \<and> m_quantized u = m_quantized m
     \<and> (\<forall>k q. map_of (m_quant u) k = Some q \<longrightarrow>
          (\<exists>w. map_of (m_weights m) k = Some w \<and> quantize_rowwise_int8 F w = Inr q))"

lemma quantize_key_ok:
  assumes "quant_grown F m u" "map_of (m_weights m) key = Some w" "mat n i w"
  shows "\<exists>v. quantize_key F key u = Inr v \<and> quant_grown F m v
    \<and> dom (map_of (m_quant v)) = insert key (dom (map_of (m_quant u)))"
proof -
  from quantize_ok[OF assms(3)] obtain q where q: "quantize_rowwise_int8 F w = Inr q" by blast
  have "quantize_key F key u = Inr (quant_emplace key q u)"
    using assms(1,2) q by (simp add: quantize_key_def quant_grown_def st_get_def)
  moreover have "quant_grown F m (quant_emplace key q u)"
    using assms(1,2) q by (auto simp: quant_grown_def quant_emplace_def map_add_def split: option.splits if_splits)
  moreover have "dom (map_of (m_quant (quant_emplace key q u))) = insert key (dom (map_of (m_quant u)))"
    by (auto simp: quant_emplace_def map_add_def dom_def split: option.splits if_splits)
  ultimately show ?thesis by blast
qed

lemma quantize_keys_ok:
  assumes "quant_grown F m u" and "\<And>sfx. sfx \<in> set sfxs \<Longrightarrow> \<exists>w n i. map_of (m_weights m) (layer_key l sfx) = Some w \<and> mat n i w"
  shows "\<exists>v. res_fold (\<lambda>sfx. quantize_key F (layer_key l sfx)) sfxs u = Inr v \<and> quant_grown F m v
    \<and> dom (map_of (m_quant v)) = dom (map_of (m_quant u)) \<union> layer_key l ` set sfxs"
  using assms
proof (induction sfxs arbitrary: u)
  case (Cons sfx sfxs)
  from Cons.prems(2)[of sfx] obtain w n i where w: "map_of (m_weights m) (layer_key l sfx) = Some w" "mat n i w" by auto
  from quantize_key_ok[OF Cons.prems(1) w] obtain v where
    v: "quantize_key F (layer_key l sfx) u = Inr v" "quant_grown F m v"
      "dom (map_of (m_quant v)) = insert (layer_key l sfx) (dom (map_of (m_quant u)))" by blast
  from Cons.IH[OF v(2)] Cons.prems(2) obtain v' where
    "res_fold (\<lambda>sfx. quantize_key F (layer_key l sfx)) sfxs v = Inr v'" "quant_grown F m v'"
      "dom (map_of (m_quant v')) = dom (map_of (m_quant v)) \<union> layer_key l ` set sfxs" by auto
  then show ?case using v(1,3) by auto
qed simp

lemma has_proj_weight: "has_proj m name n i \<Longrightarrow> \<exists>w n i. map_of (m_weights m) name = Some w \<and> mat n i w"
  unfolding has_proj_def has_mat_def the_weight_def by fastforce

lemma proj_weights:
  assumes "layer_ok m l" "sfx \<in> set proj_suffixes"
  shows "\<exists>w n i. map_of (m_weights m) (layer_key (int l) sfx) = Some w \<and> mat n i w"
proof -
  have "\<exists>n i. has_proj m (layer_key (int l) sfx) n i"
    using assms by (auto simp: proj_suffixes_def layer_ok_def proj_key_def)
  then show ?thesis using has_proj_weight by blast
qed

lemma has_proj_grown:
  assumes "quant_grown F m u" "has_proj m name n i"
  shows "has_proj (u\<lparr>m_quantized := b\<rparr>) name n i"
proof -
  have "qm_ok n i q" if q: "map_of (m_quant u) name = Some q" for q
  proof -
    from assms(1) q obtain w where w: "map_of (m_weights m) name = Some w" "quantize_rowwise_int8 F w = Inr q"
      unfolding quant_grown_def by blast
    then have "mat n i w" using assms(2) by (simp add: has_proj_def has_mat_def the_weight_def)
    from quantize_ok[OF this, of F] w(2) show ?thesis by auto
  qed
  then show ?thesis using assms by (auto simp: has_proj_def has_mat_def the_weight_def quant_grown_def split: option.splits)
qed

lemma model_ok_grown:
  assumes g: "quant_grown F m u" and m: "model_ok m"
  shows "model_ok (u\<lparr>m_quantized := b\<rparr>)"
proof -
  let ?u = "u\<lparr>m_quantized := b\<rparr>"
  have c: "m_config ?u = m_config m" "m_weights ?u = m_weights m" using g by (simp_all add: quant_grown_def)
  have d: "n_layers ?u = n_layers m" "d_model ?u = d_model m" "d_q ?u = d_q m" "d_kv ?u = d_kv m" "d_ff ?u = d_ff m" "n_vocab ?u = n_vocab m"
    using c(1) by (simp_all add: n_layers_def d_model_def d_q_def d_kv_def d_ff_def n_vocab_def n_heads_def n_kv_def d_head_def)
  have hv: "has_vec ?u = has_vec m" and hm: "has_mat ?u = has_mat m"
    using c(2) by (simp_all add: fun_eq_iff has_vec_def has_mat_def the_weight_def)
  have "layer_ok ?u l" if "layer_ok m l" for l
    using that unfolding layer_ok_def c(1) d hv by (blast intro: has_proj_grown[OF g])
  then show ?thesis using m unfolding model_ok_def c d hv hm by blast
qed

text \<open>C35: Quantizing keeps a model well typed. For a freshly loaded model whose weights have the
  shapes of the configuration \<open>quantize\<close> returns a model of the same configuration and weights
  that is again well formed, in which exactly the seven projections of each layer have an
  int8 matrix, the row-wise quantization of the weight of that name, with all values between
  -127 and 127.\<close>

theorem quantize_well_typed:
  assumes "model_ok m" "m_quant m = []"
  shows "\<exists>m'. quantize F m = Inr m' \<and> model_ok m' \<and> m_config m' = m_config m \<and> m_weights m' = m_weights m \<and> m_quantized m'
    \<and> dom (map_of (m_quant m')) = {layer_key (int l) sfx |l sfx. l < n_layers m \<and> sfx \<in> set proj_suffixes}
    \<and> (\<forall>k q. map_of (m_quant m') k = Some q \<longrightarrow>
         (\<exists>w. map_of (m_weights m) k = Some w \<and> quantize_rowwise_int8 F w = Inr q) \<and> int8_range q)"
proof -
  let ?f = "\<lambda>l. res_fold (\<lambda>sfx. quantize_key F (layer_key (int l) sfx)) proj_suffixes"
  let ?K = "\<lambda>n. {layer_key (int l) sfx |l sfx. l < n \<and> sfx \<in> set proj_suffixes}"
  let ?P = "\<lambda>n u. quant_grown F m u \<and> dom (map_of (m_quant u)) = ?K n"
  have L: "layer_ok m l" if "l < n_layers m" for l using assms(1) that by (simp add: model_ok_def)
  have "\<exists>u. res_fold ?f [0..<n_layers m] m = Inr u \<and> ?P (n_layers m) u"
  proof (rule res_fold_upt_ok[where P = ?P])
    show "?P 0 m" using assms(2) by (simp add: quant_grown_def)
    fix l u assume l: "l < n_layers m" and u: "?P l u"
    from quantize_keys_ok[OF conjunct1[OF u] proj_weights[OF L[OF l]]] obtain v where
      v: "?f l u = Inr v" "quant_grown F m v" "dom (map_of (m_quant v)) = dom (map_of (m_quant u)) \<union> layer_key (int l) ` set proj_suffixes" by blast
    have "dom (map_of (m_quant v)) = ?K (Suc l)" unfolding v(3) conjunct2[OF u] by (auto simp: less_Suc_eq)
    with v show "\<exists>u'. ?f l u = Inr u' \<and> ?P (Suc l) u'" by blast
  qed
  then obtain u where u: "res_fold ?f [0..<n_layers m] m = Inr u" "quant_grown F m u" "dom (map_of (m_quant u)) = ?K (n_layers m)" by blast
  have "quantize F m = Inr (u\<lparr>m_quantized := True\<rparr>)" using u(1) by (simp add: quantize_def n_layers_def)
  moreover have "\<forall>k q. map_of (m_quant u) k = Some q \<longrightarrow>
      (\<exists>w. map_of (m_weights m) k = Some w \<and> quantize_rowwise_int8 F w = Inr q) \<and> int8_range q"
    using u(2) quantize_rowwise_range unfolding quant_grown_def by blast
  ultimately show ?thesis using model_ok_grown[OF u(2) assms(1), of True] u(2,3) by (simp add: quant_grown_def)
qed

lemma quantize_well_typed_witness:
  "\<exists>m'. quantize toy_fpu toy_model = Inr m' \<and> model_ok m' \<and> m_quantized m'
    \<and> (\<exists>q. map_of (m_quant m') (layer_key 0 ''mlp.up_proj.weight'') = Some q \<and> int8_range q)"
proof -
  have "m_quant toy_model = []" by (simp add: toy_model_def from_safetensors_def)
  from quantize_well_typed[OF toy_model_ok this, of toy_fpu] obtain m' where
    m: "quantize toy_fpu toy_model = Inr m'" "model_ok m'" "m_quantized m'"
      "dom (map_of (m_quant m')) = {layer_key (int l) sfx |l sfx. l < n_layers toy_model \<and> sfx \<in> set proj_suffixes}"
      "\<forall>k q. map_of (m_quant m') k = Some q \<longrightarrow> (\<exists>w. map_of (m_weights toy_model) k = Some w \<and> quantize_rowwise_int8 toy_fpu w = Inr q) \<and> int8_range q"
    by blast
  have "n_layers toy_model = 1" by code_simp
  then have "layer_key (int 0) ''mlp.up_proj.weight'' \<in> dom (map_of (m_quant m'))"
    unfolding m(4) mem_Collect_eq by (intro exI[of _ 0] exI[of _ "''mlp.up_proj.weight''"]) (simp add: proj_suffixes_def)
  then obtain q where "map_of (m_quant m') (layer_key 0 ''mlp.up_proj.weight'') = Some q" unfolding domIff of_nat_0 by auto
  moreover from this m(5) have "int8_range q" by blast
  ultimately show ?thesis using m(1-3) by blast
qed

end
