(* ===== verification/Cuda_Memory.thy ===== *)
theory Cuda_Memory
  imports Cuda_Blocks
begin

text \<open>
  The owners of device memory: the constructors, moves and destructors of \<open>DeviceArray\<close>
  (\<open>cuda/model.cu\<close>), \<open>GpuKVCache\<close> (\<open>kv_cache.cu\<close>) and \<open>GpuBlockManager\<close>
  (\<open>block_manager.cu\<close>). Here an allocation is its address (0 is the null pointer) and the memory
  is the list of the addresses in use; what the buffers contain is modelled in \<open>Cuda_Cache\<close> and
  \<open>Cuda_Blocks\<close>. \<open>cudaMalloc\<close> is a parameter that may fail at any call. Exceptions do not undo
  what a constructor has allocated, so an operation returns the memory with the error. A
  \<open>cudaFree\<close> of an address that is not in use is \<open>Undefined\<close>. The locale \<open>device_owner\<close> is the
  contract the three classes share.
\<close>

section \<open>The CUDA allocator\<close>

record cuda_mem =
  cm_live :: "nat list"
  cm_calls :: nat

record cuda_rt =
  rt_malloc :: "nat \<Rightarrow> nat list \<Rightarrow> int \<Rightarrow> nat option"
  rt_error :: string

text \<open>What the runtime documents: a new allocation is none of those in use.\<close>

definition fresh_malloc :: "cuda_rt \<Rightarrow> bool" where
  "fresh_malloc R \<longleftrightarrow> (\<forall>n live bytes p. rt_malloc R n live bytes = Some p \<longrightarrow> p \<notin> set live)"

definition dev_malloc :: "cuda_rt \<Rightarrow> int \<Rightarrow> cuda_mem \<Rightarrow> nat option \<times> cuda_mem" where
  "dev_malloc R bytes h =
     (let h' = h\<lparr>cm_calls := cm_calls h + 1\<rparr>
      in case rt_malloc R (cm_calls h) (cm_live h) bytes of
           None \<Rightarrow> (None, h')
         | Some p \<Rightarrow> (Some p, if p = 0 then h' else h'\<lparr>cm_live := p # cm_live h\<rparr>))"

definition dev_free :: "nat \<Rightarrow> cuda_mem \<Rightarrow> cuda_mem res" where
  "dev_free p h =
     (if p = 0 then Inr h
      else if p \<in> set (cm_live h) then Inr (h\<lparr>cm_live := remove1 p (cm_live h)\<rparr>)
      else Inl Undefined)"

definition dev_free_vec :: "nat list \<Rightarrow> cuda_mem \<Rightarrow> cuda_mem res" where
  "dev_free_vec ps = res_fold (\<lambda>p h. if p \<noteq> 0 then dev_free p h else Inr h) ps"

text \<open>A size in bytes is a product at \<open>size_t\<close>.\<close>

definition size_bytes :: "int \<Rightarrow> int \<Rightarrow> int" where
  "size_bytes n elem = (n * elem) mod 2 ^ 64"

text \<open>The loop of both cache constructors: keys, then values, layer by layer. The first failing
  call throws.\<close>

fun malloc_layers ::
    "cuda_rt \<Rightarrow> string \<Rightarrow> int \<Rightarrow> nat \<Rightarrow> cuda_mem \<Rightarrow> (nat list \<times> nat list) res \<times> cuda_mem" where
  "malloc_layers R prefix bytes 0 h = (Inr ([], []), h)"
| "malloc_layers R prefix bytes (Suc n) h =
     (case dev_malloc R bytes h of
        (None, h) \<Rightarrow> (Inl (RuntimeError (prefix @ ''malloc keys: '' @ rt_error R)), h)
      | (Some k, h) \<Rightarrow>
          (case dev_malloc R bytes h of
             (None, h) \<Rightarrow> (Inl (RuntimeError (prefix @ ''malloc values: '' @ rt_error R)), h)
           | (Some v, h) \<Rightarrow>
               (case malloc_layers R prefix bytes n h of
                  (Inl e, h) \<Rightarrow> (Inl e, h)
                | (Inr (ks, vs), h) \<Rightarrow> (Inr (k # ks, v # vs), h))))"

section \<open>DeviceArray\<close>

record arr_owner =
  ao_ptr :: nat
  ao_n :: int

definition arr_new :: "cuda_rt \<Rightarrow> int \<Rightarrow> int \<Rightarrow> cuda_mem \<Rightarrow> arr_owner res \<times> cuda_mem" where
  "arr_new R elem n h =
     (if 0 < n
      then case dev_malloc R (size_bytes n elem) h of
             (None, h) \<Rightarrow> (Inl (RuntimeError (''cuda: cudaMalloc: '' @ rt_error R)), h)
           | (Some p, h) \<Rightarrow> (Inr \<lparr>ao_ptr = p, ao_n = n\<rparr>, h)
      else (Inr \<lparr>ao_ptr = 0, ao_n = n\<rparr>, h))"

definition arr_release :: "arr_owner \<Rightarrow> cuda_mem \<Rightarrow> cuda_mem res" where
  "arr_release a h = (if ao_ptr a \<noteq> 0 then dev_free (ao_ptr a) h else Inr h)"

text \<open>A move returns the new object and what it leaves behind in the source.\<close>

definition arr_move :: "arr_owner \<Rightarrow> arr_owner \<times> arr_owner" where
  "arr_move other = (\<lparr>ao_ptr = ao_ptr other, ao_n = ao_n other\<rparr>, other\<lparr>ao_ptr := 0, ao_n := 0\<rparr>)"

definition arr_assign :: "arr_owner \<Rightarrow> arr_owner \<Rightarrow> cuda_mem \<Rightarrow> ((arr_owner \<times> arr_owner) \<times> cuda_mem) res" where
  "arr_assign this other h =
     res_bind (if ao_ptr this \<noteq> 0 then dev_free (ao_ptr this) h else Inr h) (\<lambda>h.
       Inr ((this\<lparr>ao_ptr := ao_ptr other, ao_n := ao_n other\<rparr>, other\<lparr>ao_ptr := 0, ao_n := 0\<rparr>), h))"

section \<open>GpuKVCache\<close>

record kv_owner =
  ko_num_layers :: int
  ko_kv_dim :: int
  ko_capacity :: int
  ko_length :: int
  ko_keys :: "nat list"
  ko_values :: "nat list"

definition kv_owner_new :: "cuda_rt \<Rightarrow> int \<Rightarrow> int \<Rightarrow> int \<Rightarrow> cuda_mem \<Rightarrow> kv_owner res \<times> cuda_mem" where
  "kv_owner_new R layers kv_dim cap h =
     (if layers \<le> 0 \<or> kv_dim \<le> 0 \<or> cap \<le> 0
      then (Inl (InvalidArgument ''GpuKVCache: num_layers, kv_dim, capacity must be positive''), h)
      else case malloc_layers R ''cuda kv: '' (size_bytes (cap * kv_dim) 4) (nat layers) h of
             (Inl e, h) \<Rightarrow> (Inl e, h)
           | (Inr (ks, vs), h) \<Rightarrow>
               (Inr \<lparr>ko_num_layers = layers, ko_kv_dim = kv_dim, ko_capacity = cap, ko_length = 0,
                     ko_keys = ks, ko_values = vs\<rparr>, h))"

definition kv_owner_release :: "kv_owner \<Rightarrow> cuda_mem \<Rightarrow> (kv_owner \<times> cuda_mem) res" where
  "kv_owner_release c h =
     res_bind (dev_free_vec (ko_keys c) h) (\<lambda>h. res_bind (dev_free_vec (ko_values c) h) (\<lambda>h.
       Inr (c\<lparr>ko_keys := [], ko_values := []\<rparr>, h)))"

definition kv_owner_move :: "kv_owner \<Rightarrow> kv_owner \<times> kv_owner" where
  "kv_owner_move other =
     (\<lparr>ko_num_layers = ko_num_layers other, ko_kv_dim = ko_kv_dim other, ko_capacity = ko_capacity other,
       ko_length = ko_length other, ko_keys = ko_keys other, ko_values = ko_values other\<rparr>,
      other\<lparr>ko_keys := [], ko_values := [], ko_length := 0\<rparr>)"

definition kv_owner_assign :: "kv_owner \<Rightarrow> kv_owner \<Rightarrow> cuda_mem \<Rightarrow> ((kv_owner \<times> kv_owner) \<times> cuda_mem) res" where
  "kv_owner_assign this other h =
     res_bind (kv_owner_release this h) (\<lambda>(this, h).
       Inr ((this\<lparr>ko_num_layers := ko_num_layers other, ko_kv_dim := ko_kv_dim other,
                  ko_capacity := ko_capacity other, ko_length := ko_length other,
                  ko_keys := ko_keys other, ko_values := ko_values other\<rparr>,
             other\<lparr>ko_keys := [], ko_values := [], ko_length := 0\<rparr>), h))"

section \<open>GpuBlockManager\<close>

record bm_owner =
  bo_num_layers :: int
  bo_kv_dim :: int
  bo_block_size :: int
  bo_alloc :: block_allocator
  bo_keys :: "nat list"
  bo_values :: "nat list"
  bo_table :: nat
  bo_table_cap :: int

definition bm_owner_new :: "cuda_rt \<Rightarrow> int \<Rightarrow> int \<Rightarrow> int \<Rightarrow> int \<Rightarrow> cuda_mem \<Rightarrow> bm_owner res \<times> cuda_mem" where
  "bm_owner_new R layers kv_dim bs nb h =
     (case allocator_new nb of
        Inl e \<Rightarrow> (Inl e, h)
      | Inr al \<Rightarrow>
          if layers \<le> 0 \<or> kv_dim \<le> 0 \<or> bs \<le> 0
          then (Inl (InvalidArgument ''GpuBlockManager: num_layers, kv_dim, block_size must be positive''), h)
          else case malloc_layers R ''cuda block manager: '' (size_bytes (nb * bs * kv_dim) 4) (nat layers) h of
                 (Inl e, h) \<Rightarrow> (Inl e, h)
               | (Inr (ks, vs), h) \<Rightarrow>
                   (Inr \<lparr>bo_num_layers = layers, bo_kv_dim = kv_dim, bo_block_size = bs, bo_alloc = al,
                         bo_keys = ks, bo_values = vs, bo_table = 0, bo_table_cap = 0\<rparr>, h))"

definition bm_owner_release :: "bm_owner \<Rightarrow> cuda_mem \<Rightarrow> (bm_owner \<times> cuda_mem) res" where
  "bm_owner_release g h =
     res_bind (dev_free_vec (bo_keys g) h) (\<lambda>h. res_bind (dev_free_vec (bo_values g) h) (\<lambda>h.
     let g = g\<lparr>bo_keys := [], bo_values := []\<rparr> in
     if bo_table g \<noteq> 0
     then res_bind (dev_free (bo_table g) h) (\<lambda>h. Inr (g\<lparr>bo_table := 0, bo_table_cap := 0\<rparr>, h))
     else Inr (g, h)))"

text \<open>Moving a \<open>BlockAllocator\<close> moves its two vectors, which leaves them empty.\<close>

definition bm_moved_from :: "bm_owner \<Rightarrow> bm_owner" where
  "bm_moved_from other =
     other\<lparr>bo_alloc := \<lparr>free_list = [], ref_counts = []\<rparr>, bo_keys := [], bo_values := [],
           bo_table := 0, bo_table_cap := 0\<rparr>"

definition bm_owner_move :: "bm_owner \<Rightarrow> bm_owner \<times> bm_owner" where
  "bm_owner_move other =
     (\<lparr>bo_num_layers = bo_num_layers other, bo_kv_dim = bo_kv_dim other, bo_block_size = bo_block_size other,
       bo_alloc = bo_alloc other, bo_keys = bo_keys other, bo_values = bo_values other,
       bo_table = bo_table other, bo_table_cap = bo_table_cap other\<rparr>, bm_moved_from other)"

definition bm_owner_assign :: "bm_owner \<Rightarrow> bm_owner \<Rightarrow> cuda_mem \<Rightarrow> ((bm_owner \<times> bm_owner) \<times> cuda_mem) res" where
  "bm_owner_assign this other h =
     res_bind (bm_owner_release this h) (\<lambda>(this, h).
       Inr ((this\<lparr>bo_num_layers := bo_num_layers other, bo_kv_dim := bo_kv_dim other,
                  bo_block_size := bo_block_size other, bo_alloc := bo_alloc other,
                  bo_keys := bo_keys other, bo_values := bo_values other,
                  bo_table := bo_table other, bo_table_cap := bo_table_cap other\<rparr>,
             bm_moved_from other), h))"

text \<open>
  \<open>upload_table\<close> for a table of \<open>need\<close> entries: the pointer is dropped before the larger
  allocation is made, the capacity is only set after it. A copy to the null pointer is refused
  by the runtime. The result is the error thrown, if any, with the manager and the memory.
\<close>

definition bm_owner_upload :: "cuda_rt \<Rightarrow> int \<Rightarrow> bm_owner \<Rightarrow> cuda_mem \<Rightarrow> ((error option \<times> bm_owner) \<times> cuda_mem) res" where
  "bm_owner_upload R need g h =
     (let copy = (\<lambda>g h.
            if bo_table g = 0
            then ((Some (RuntimeError (''cuda block manager: copy block table: '' @ rt_error R)), g), h)
            else ((None, g), h))
      in if need = 0 then Inr ((None, g), h)
         else if bo_table_cap g < need
         then res_bind (if bo_table g \<noteq> 0
                        then res_bind (dev_free (bo_table g) h) (\<lambda>h. Inr (g\<lparr>bo_table := 0\<rparr>, h))
                        else Inr (g, h)) (\<lambda>(g, h).
              case dev_malloc R (size_bytes need 8) h of
                (None, h) \<Rightarrow>
                  Inr ((Some (RuntimeError (''cuda block manager: malloc block table: '' @ rt_error R)), g), h)
              | (Some p, h) \<Rightarrow> Inr (copy (g\<lparr>bo_table := p, bo_table_cap := need\<rparr>) h))
         else Inr (copy g h))"

section \<open>Programs over owners\<close>

text \<open>
  The state of a program: the objects of each class that exist, and the memory. A statement
  constructs an object, move-constructs a new one from another, move-assigns, destroys, or
  uploads a block table. The guard of the assignment operators against self-assignment is in
  \<open>vars_assign\<close>. A statement about an object that does not exist is none and changes nothing.
\<close>

datatype owner_op = MoveNew nat | MoveAssign nat nat | Destroy nat

datatype dev_op =
    NewArr int int
  | NewKv int int int
  | NewBm int int int int
  | ArrOp owner_op
  | KvOp owner_op
  | BmOp owner_op
  | UploadTable nat int

record dev_state =
  ds_arrs :: "arr_owner list"
  ds_kvs :: "kv_owner list"
  ds_bms :: "bm_owner list"
  ds_mem :: cuda_mem

definition dev_start :: dev_state where
  "dev_start = \<lparr>ds_arrs = [], ds_kvs = [], ds_bms = [], ds_mem = \<lparr>cm_live = [], cm_calls = 0\<rparr>\<rparr>"

definition vars_assign ::
    "('o \<Rightarrow> 'o \<Rightarrow> cuda_mem \<Rightarrow> (('o \<times> 'o) \<times> cuda_mem) res) \<Rightarrow> nat \<Rightarrow> nat \<Rightarrow> 'o list \<Rightarrow> cuda_mem
      \<Rightarrow> ('o list \<times> cuda_mem) res" where
  "vars_assign asg i j xs h =
     (if i \<noteq> j then res_bind (asg (xs ! i) (xs ! j) h) (\<lambda>((x, y), h). Inr (xs[i := x, j := y], h))
      else Inr (xs, h))"

definition owner_exec ::
    "('o \<Rightarrow> cuda_mem \<Rightarrow> cuda_mem res) \<Rightarrow> ('o \<Rightarrow> 'o \<times> 'o)
      \<Rightarrow> ('o \<Rightarrow> 'o \<Rightarrow> cuda_mem \<Rightarrow> (('o \<times> 'o) \<times> cuda_mem) res) \<Rightarrow> owner_op \<Rightarrow> 'o list \<Rightarrow> cuda_mem
      \<Rightarrow> ('o list \<times> cuda_mem) res" where
  "owner_exec destroy mv asg op xs h =
     (case op of
        MoveNew i \<Rightarrow>
          if i < length xs then (case mv (xs ! i) of (x, y) \<Rightarrow> Inr (xs[i := y] @ [x], h)) else Inr (xs, h)
      | MoveAssign i j \<Rightarrow>
          if i < length xs \<and> j < length xs then vars_assign asg i j xs h else Inr (xs, h)
      | Destroy i \<Rightarrow>
          if i < length xs
          then res_bind (destroy (xs ! i) h) (\<lambda>h. Inr (take i xs @ drop (Suc i) xs, h))
          else Inr (xs, h))"

definition kv_owner_destroy :: "kv_owner \<Rightarrow> cuda_mem \<Rightarrow> cuda_mem res" where
  "kv_owner_destroy c h = res_bind (kv_owner_release c h) (\<lambda>(c, h). Inr h)"

definition bm_owner_destroy :: "bm_owner \<Rightarrow> cuda_mem \<Rightarrow> cuda_mem res" where
  "bm_owner_destroy g h = res_bind (bm_owner_release g h) (\<lambda>(g, h). Inr h)"

text \<open>A statement that throws is caught by the caller: the error is its result, and what it did
  to the memory stays.\<close>

definition add_new :: "'o res \<times> cuda_mem \<Rightarrow> 'o list \<Rightarrow> error option \<times> 'o list \<times> cuda_mem" where
  "add_new r xs = (case r of (Inl e, h) \<Rightarrow> (Some e, xs, h) | (Inr x, h) \<Rightarrow> (None, xs @ [x], h))"

definition dev_exec :: "cuda_rt \<Rightarrow> dev_op \<Rightarrow> dev_state \<Rightarrow> (error option \<times> dev_state) res" where
  "dev_exec R op s =
     (let h = ds_mem s in
      case op of
        NewArr elem n \<Rightarrow>
          (case add_new (arr_new R elem n h) (ds_arrs s) of (e, xs, h) \<Rightarrow> Inr (e, s\<lparr>ds_arrs := xs, ds_mem := h\<rparr>))
      | NewKv layers kv_dim cap \<Rightarrow>
          (case add_new (kv_owner_new R layers kv_dim cap h) (ds_kvs s) of
             (e, xs, h) \<Rightarrow> Inr (e, s\<lparr>ds_kvs := xs, ds_mem := h\<rparr>))
      | NewBm layers kv_dim bs nb \<Rightarrow>
          (case add_new (bm_owner_new R layers kv_dim bs nb h) (ds_bms s) of
             (e, xs, h) \<Rightarrow> Inr (e, s\<lparr>ds_bms := xs, ds_mem := h\<rparr>))
      | ArrOp q \<Rightarrow>
          res_bind (owner_exec arr_release arr_move arr_assign q (ds_arrs s) h) (\<lambda>(xs, h).
            Inr (None, s\<lparr>ds_arrs := xs, ds_mem := h\<rparr>))
      | KvOp q \<Rightarrow>
          res_bind (owner_exec kv_owner_destroy kv_owner_move kv_owner_assign q (ds_kvs s) h) (\<lambda>(xs, h).
            Inr (None, s\<lparr>ds_kvs := xs, ds_mem := h\<rparr>))
      | BmOp q \<Rightarrow>
          res_bind (owner_exec bm_owner_destroy bm_owner_move bm_owner_assign q (ds_bms s) h) (\<lambda>(xs, h).
            Inr (None, s\<lparr>ds_bms := xs, ds_mem := h\<rparr>))
      | UploadTable i need \<Rightarrow>
          if i < length (ds_bms s)
          then res_bind (bm_owner_upload R need (ds_bms s ! i) h) (\<lambda>((e, g), h).
                 Inr (e, s\<lparr>ds_bms := (ds_bms s)[i := g], ds_mem := h\<rparr>))
          else Inr (None, s))"

fun dev_run :: "cuda_rt \<Rightarrow> dev_op list \<Rightarrow> dev_state \<Rightarrow> (error option list \<times> dev_state) res" where
  "dev_run R [] s = Inr ([], s)"
| "dev_run R (op # ops) s =
     res_bind (dev_exec R op s) (\<lambda>(e, s). res_bind (dev_run R ops s) (\<lambda>(es, s). Inr (e # es, s)))"

section \<open>The contract of an owner\<close>

definition mem_ok :: "cuda_mem \<Rightarrow> bool" where
  "mem_ok h \<longleftrightarrow> distinct (cm_live h) \<and> 0 \<notin> set (cm_live h)"

lemma mem_ok_sub:
  assumes "mem_ok h" "mset (cm_live h') \<subseteq># mset (cm_live h)"
  shows "mem_ok h'"
proof -
  obtain D where "mset (cm_live h) = mset (cm_live h') + D" using assms(2) by (auto simp: mset_subset_eq_exists_conv)
  moreover obtain ds where "mset ds = D" using ex_mset by blast
  ultimately have m: "mset (cm_live h) = mset (cm_live h' @ ds)" by simp
  show ?thesis using assms(1) mset_eq_imp_distinct_iff[OF m] mset_eq_setD[OF m] by (auto simp: mem_ok_def)
qed

definition all_owned :: "('o \<Rightarrow> nat multiset) \<Rightarrow> 'o list \<Rightarrow> nat multiset" where
  "all_owned f xs = sum_list (map f xs)"

lemma all_owned_simps [simp]:
  "all_owned f [] = {#}" "all_owned f (x # xs) = f x + all_owned f xs"
  "all_owned f (xs @ ys) = all_owned f xs + all_owned f ys"
  by (simp_all add: all_owned_def)

lemma all_owned_remove:
  "i < length xs \<Longrightarrow> all_owned f xs = f (xs ! i) + all_owned f (take i xs @ drop (Suc i) xs)"
  by (subst id_take_nth_drop[of i xs]) simp_all

lemma all_owned_update:
  "i < length xs \<Longrightarrow> all_owned f (xs[i := x]) = f x + all_owned f (take i xs @ drop (Suc i) xs)"
  by (simp add: upd_conv_take_nth_drop)

text \<open>
  \<open>owned\<close> is the multiset of the allocations an object is responsible for. Destroying an object
  returns exactly those; a move hands them to the new object; an assignment first returns what
  the target owned and then takes over what the source owned.
\<close>

locale device_owner =
  fixes owned :: "'o \<Rightarrow> nat multiset"
    and destroy :: "'o \<Rightarrow> cuda_mem \<Rightarrow> cuda_mem res"
    and move_new :: "'o \<Rightarrow> 'o \<times> 'o"
    and assign :: "'o \<Rightarrow> 'o \<Rightarrow> cuda_mem \<Rightarrow> (('o \<times> 'o) \<times> cuda_mem) res"
  assumes destroy_owned:
      "mset (cm_live h) = owned x + F \<Longrightarrow> \<exists>h'. destroy x h = Inr h' \<and> mset (cm_live h') = F"
    and move_owned: "move_new x = (y, z) \<Longrightarrow> owned y = owned x \<and> owned z = {#}"
    and assign_destroys: "destroy x h = Inr h' \<Longrightarrow>
      \<exists>x' y'. assign x y h = Inr ((x', y'), h') \<and> owned x' = owned y \<and> owned y' = {#}"
begin

lemma exec_sub:
  assumes live: "mset (cm_live h) = all_owned owned xs + F"
  shows "\<exists>xs' h'. owner_exec destroy move_new assign op xs h = Inr (xs', h')
    \<and> mset (cm_live h') = all_owned owned xs' + F \<and> all_owned owned xs' \<subseteq># all_owned owned xs"
proof (cases op)
  case (MoveNew i)
  obtain y z where m: "move_new (xs ! i) = (y, z)" by (cases "move_new (xs ! i)")
  show ?thesis
    using live move_owned[OF m] all_owned_remove[of i xs owned]
    by (cases "i < length xs") (simp_all add: MoveNew owner_exec_def m all_owned_update)
next
  case (MoveAssign i j)
  show ?thesis
  proof (cases "i < length xs \<and> j < length xs \<and> i \<noteq> j")
    case True
    let ?rest = "take i xs @ drop (Suc i) xs"
    have "mset (cm_live h) = owned (xs ! i) + (all_owned owned ?rest + F)"
      using live all_owned_remove[of i xs owned] True by (simp add: ac_simps)
    from destroy_owned[OF this] obtain h' where
      h': "destroy (xs ! i) h = Inr h'" "mset (cm_live h') = all_owned owned ?rest + F" by blast
    from assign_destroys[OF h'(1), of "xs ! j"] obtain x y where
      a: "assign (xs ! i) (xs ! j) h = Inr ((x, y), h')" "owned x = owned (xs ! j)" "owned y = {#}" by blast
    have "owned (xs ! i) + all_owned owned (xs[i := x, j := y]) + owned (xs ! j)
        = owned (xs ! i) + (all_owned owned (xs[i := x]) - owned (xs ! j)) + owned (xs ! j)"
      using all_owned_remove[of j "xs[i := x]" owned] all_owned_update[of j "xs[i := x]" owned y] True a(3) by simp
    also have "\<dots> = owned (xs ! i) + all_owned owned (xs[i := x])"
      using all_owned_remove[of j "xs[i := x]" owned] True by simp
    also have "\<dots> = owned (xs ! i) + owned (xs ! j) + all_owned owned ?rest"
      using all_owned_update[of i xs owned x] True a(2) by simp
    finally have "all_owned owned (xs[i := x, j := y]) = all_owned owned ?rest" by simp
    then show ?thesis using True a h' all_owned_remove[of i xs owned]
      by (simp add: MoveAssign owner_exec_def vars_assign_def)
  qed (use live in \<open>auto simp: MoveAssign owner_exec_def vars_assign_def\<close>)
next
  case (Destroy i)
  show ?thesis
  proof (cases "i < length xs")
    case True
    have "mset (cm_live h) = owned (xs ! i) + (all_owned owned (take i xs @ drop (Suc i) xs) + F)"
      using live all_owned_remove[OF True, of owned] by (simp add: ac_simps)
    from destroy_owned[OF this] obtain h' where
      "destroy (xs ! i) h = Inr h'" "mset (cm_live h') = all_owned owned (take i xs @ drop (Suc i) xs) + F" by blast
    then show ?thesis using True all_owned_remove[OF True, of owned] by (simp add: Destroy owner_exec_def)
  qed (use live in \<open>simp add: Destroy owner_exec_def\<close>)
qed

lemma exec_owned:
  assumes "mem_ok h" "mset (cm_live h) = all_owned owned xs + F"
  shows "\<exists>xs' h'. owner_exec destroy move_new assign op xs h = Inr (xs', h') \<and> mem_ok h'
    \<and> mset (cm_live h') = all_owned owned xs' + F"
proof -
  from exec_sub[OF assms(2), of op] obtain xs' h' where
    x: "owner_exec destroy move_new assign op xs h = Inr (xs', h')" "mset (cm_live h') = all_owned owned xs' + F"
      "all_owned owned xs' \<subseteq># all_owned owned xs" by blast
  then have "mem_ok h'" using mem_ok_sub[OF assms(1), of h'] assms(2) by (simp add: subset_mset.add_right_mono)
  with x show ?thesis by blast
qed

end

section \<open>The three classes keep it\<close>

definition nonnull :: "nat list \<Rightarrow> nat multiset" where
  "nonnull ps = mset (filter (\<lambda>p. p \<noteq> 0) ps)"

lemma nonnull_simps [simp]:
  "nonnull [] = {#}" "nonnull (0 # ps) = nonnull ps" "0 < p \<Longrightarrow> nonnull (p # ps) = {#p#} + nonnull ps"
  "nonnull (ps @ qs) = nonnull ps + nonnull qs"
  by (simp_all add: nonnull_def)

definition arr_owned :: "arr_owner \<Rightarrow> nat multiset" where
  "arr_owned a = nonnull [ao_ptr a]"

definition kv_owned :: "kv_owner \<Rightarrow> nat multiset" where
  "kv_owned c = nonnull (ko_keys c @ ko_values c)"

definition bm_owned :: "bm_owner \<Rightarrow> nat multiset" where
  "bm_owned g = nonnull (bo_keys g @ bo_values g @ [bo_table g])"

lemma dev_free_owned:
  assumes "mset (cm_live h) = nonnull [p] + F"
  shows "\<exists>h'. dev_free p h = Inr h' \<and> mset (cm_live h') = F"
proof (cases "p = 0")
  case False
  then have "mset (cm_live h) = add_mset p F" using assms by simp
  moreover from this have "p \<in> set (cm_live h)" by (metis set_mset_mset union_single_eq_member)
  ultimately show ?thesis using False by (simp add: dev_free_def)
qed (use assms in \<open>simp add: dev_free_def\<close>)

lemma dev_free_vec_owned:
  "mset (cm_live h) = nonnull ps + F \<Longrightarrow> \<exists>h'. dev_free_vec ps h = Inr h' \<and> mset (cm_live h') = F"
proof (induction ps arbitrary: h)
  case (Cons p ps)
  have "mset (cm_live h) = nonnull [p] + (nonnull ps + F)"
    using Cons.prems by (cases "p = 0") simp_all
  from dev_free_owned[OF this] obtain h1 where
    1: "dev_free p h = Inr h1" "mset (cm_live h1) = nonnull ps + F" by blast
  from Cons.IH[OF 1(2)] 1(1) show ?case
    by (cases "p = 0") (auto simp: dev_free_vec_def dev_free_def[of 0])
qed (simp add: dev_free_vec_def)

lemma kv_release_owned:
  assumes "mset (cm_live h) = kv_owned c + F"
  shows "\<exists>h'. kv_owner_release c h = Inr (c\<lparr>ko_keys := [], ko_values := []\<rparr>, h') \<and> mset (cm_live h') = F"
proof -
  have "mset (cm_live h) = nonnull (ko_keys c) + (nonnull (ko_values c) + F)"
    using assms by (simp add: kv_owned_def ac_simps)
  from dev_free_vec_owned[OF this] obtain h1 where
    1: "dev_free_vec (ko_keys c) h = Inr h1" "mset (cm_live h1) = nonnull (ko_values c) + F" by blast
  from dev_free_vec_owned[OF 1(2)] 1(1) show ?thesis by (auto simp: kv_owner_release_def)
qed

lemma bm_release_owned:
  assumes "mset (cm_live h) = bm_owned g + F"
  shows "\<exists>g' h'. bm_owner_release g h = Inr (g', h') \<and> mset (cm_live h') = F"
proof -
  have "mset (cm_live h) = nonnull (bo_keys g) + (nonnull (bo_values g) + (nonnull [bo_table g] + F))"
    using assms by (simp add: bm_owned_def ac_simps)
  from dev_free_vec_owned[OF this] obtain h1 where
    1: "dev_free_vec (bo_keys g) h = Inr h1"
      "mset (cm_live h1) = nonnull (bo_values g) + (nonnull [bo_table g] + F)" by blast
  from dev_free_vec_owned[OF 1(2)] obtain h2 where
    2: "dev_free_vec (bo_values g) h1 = Inr h2" "mset (cm_live h2) = nonnull [bo_table g] + F" by blast
  from dev_free_owned[OF 2(2)] 1(1) 2 show ?thesis
    by (cases "bo_table g = 0") (auto simp: bm_owner_release_def Let_def)
qed

interpretation arr: device_owner arr_owned arr_release arr_move arr_assign
proof
  fix h :: cuda_mem and x F assume "mset (cm_live h) = arr_owned x + F"
  from dev_free_owned[OF this[unfolded arr_owned_def]]
  show "\<exists>h'. arr_release x h = Inr h' \<and> mset (cm_live h') = F"
    by (cases "ao_ptr x = 0") (auto simp: arr_release_def dev_free_def[of 0])
qed (auto simp: arr_owned_def arr_move_def arr_release_def arr_assign_def)

interpretation kvs: device_owner kv_owned kv_owner_destroy kv_owner_move kv_owner_assign
proof
  fix h :: cuda_mem and x F assume "mset (cm_live h) = kv_owned x + F"
  from kv_release_owned[OF this] show "\<exists>h'. kv_owner_destroy x h = Inr h' \<and> mset (cm_live h') = F"
    by (auto simp: kv_owner_destroy_def)
qed (auto simp: kv_owned_def kv_owner_move_def kv_owner_destroy_def kv_owner_assign_def res_bind_eq_Inr)

interpretation bms: device_owner bm_owned bm_owner_destroy bm_owner_move bm_owner_assign
proof
  fix h :: cuda_mem and x F assume "mset (cm_live h) = bm_owned x + F"
  from bm_release_owned[OF this] show "\<exists>h'. bm_owner_destroy x h = Inr h' \<and> mset (cm_live h') = F"
    by (auto simp: bm_owner_destroy_def)
qed (auto simp: bm_owned_def bm_owner_move_def bm_moved_from_def bm_owner_destroy_def bm_owner_assign_def
       res_bind_eq_Inr)

section \<open>Every allocation has one owner\<close>

lemma dev_malloc_grows:
  assumes "fresh_malloc R" "mem_ok h" "dev_malloc R bytes h = (r, h')"
  shows "mem_ok h'"
    "mset (cm_live h') = mset (cm_live h) + (case r of None \<Rightarrow> {#} | Some p \<Rightarrow> nonnull [p])"
  using assms by (auto simp: dev_malloc_def fresh_malloc_def mem_ok_def Let_def split: option.splits if_splits)

lemma malloc_layers_grows:
  assumes "fresh_malloc R" "mem_ok h" "malloc_layers R prefix bytes n h = (r, h')"
  shows "mem_ok h' \<and> (\<exists>M. mset (cm_live h') = mset (cm_live h) + M
    \<and> (case r of Inl e \<Rightarrow> \<exists>msg. e = RuntimeError msg | Inr (ks, vs) \<Rightarrow> M = nonnull (ks @ vs)))"
  using assms(2,3)
proof (induction n arbitrary: h r h')
  case (Suc n)
  obtain k h1 where 1: "dev_malloc R bytes h = (k, h1)" by (cases "dev_malloc R bytes h")
  note g1 = dev_malloc_grows[OF assms(1) Suc.prems(1) 1]
  show ?case
  proof (cases k)
    case None
    then show ?thesis using 1 g1 Suc.prems(2) by auto
  next
    case (Some k')
    obtain v h2 where 2: "dev_malloc R bytes h1 = (v, h2)" by (cases "dev_malloc R bytes h1")
    note g2 = dev_malloc_grows[OF assms(1) g1(1) 2]
    show ?thesis
    proof (cases v)
      case None
      then show ?thesis using 1 2 g1 g2 Suc.prems(2) Some by auto
    next
      case v': (Some v')
      obtain r3 h3 where 3: "malloc_layers R prefix bytes n h2 = (r3, h3)" by (cases "malloc_layers R prefix bytes n h2")
      from Suc.IH[OF g2(1) 3] obtain M where
        M: "mem_ok h3" "mset (cm_live h3) = mset (cm_live h2) + M"
          "case r3 of Inl e \<Rightarrow> \<exists>msg. e = RuntimeError msg | Inr (ks, vs) \<Rightarrow> M = nonnull (ks @ vs)" by blast
      have r: "h' = h3" "r = (case r3 of Inl e \<Rightarrow> Inl e | Inr (ks, vs) \<Rightarrow> Inr (k' # ks, v' # vs))"
        using Suc.prems(2) 1 2 3 Some v' by (auto split: sum.splits prod.splits)
      have "mset (cm_live h') = mset (cm_live h) + (nonnull [k'] + nonnull [v'] + M)"
        using g1(2) g2(2) M(2) by (simp add: r Some v' ac_simps)
      moreover have "nonnull [k'] + nonnull [v'] + nonnull (ks @ vs) = nonnull ((k' # ks) @ (v' # vs))" for ks vs
        by (simp add: nonnull_def)
      ultimately show ?thesis using M(1,3)
        by (intro conjI exI[of _ "nonnull [k'] + nonnull [v'] + M"]) (auto simp: r simp del: nonnull_simps split: sum.splits)
    qed
  qed
qed auto

text \<open>What a constructor does to the memory: the object owns what was added, or an exception was
  thrown; only one of the runtime, thrown in the middle of the allocations, leaves some behind.\<close>

definition ctor_grows :: "('o \<Rightarrow> nat multiset) \<Rightarrow> 'o res \<Rightarrow> cuda_mem \<Rightarrow> cuda_mem \<Rightarrow> bool" where
  "ctor_grows f r h h' \<longleftrightarrow> mem_ok h' \<and> (\<exists>M. mset (cm_live h') = mset (cm_live h) + M
     \<and> (case r of Inl e \<Rightarrow> M = {#} \<or> (\<exists>msg. e = RuntimeError msg) | Inr x \<Rightarrow> M = f x))"

lemma arr_new_grows:
  assumes "fresh_malloc R" "mem_ok h" "arr_new R elem n h = (r, h')"
  shows "ctor_grows arr_owned r h h' \<and> (\<forall>e. r = Inl e \<longrightarrow> mset (cm_live h') = mset (cm_live h))"
proof (cases "0 < n")
  case True
  obtain p h1 where 1: "dev_malloc R (size_bytes n elem) h = (p, h1)" by (cases "dev_malloc R (size_bytes n elem) h")
  show ?thesis
    using dev_malloc_grows[OF assms(1,2) 1] assms(3) True 1
    by (cases p) (auto simp: ctor_grows_def arr_new_def arr_owned_def)
qed (use assms in \<open>auto simp: ctor_grows_def arr_new_def arr_owned_def\<close>)

lemma kv_owner_new_grows:
  assumes "fresh_malloc R" "mem_ok h" "kv_owner_new R layers kv_dim cap h = (r, h')"
  shows "ctor_grows kv_owned r h h'"
proof (cases "layers \<le> 0 \<or> kv_dim \<le> 0 \<or> cap \<le> 0")
  case True
  then show ?thesis using assms by (auto simp: ctor_grows_def kv_owner_new_def)
next
  case False
  obtain q h1 where 1: "malloc_layers R ''cuda kv: '' (size_bytes (cap * kv_dim) 4) (nat layers) h = (q, h1)"
    by (cases "malloc_layers R ''cuda kv: '' (size_bytes (cap * kv_dim) 4) (nat layers) h")
  from malloc_layers_grows[OF assms(1,2) 1] show ?thesis
    using assms(3) False 1
    by (auto simp: ctor_grows_def kv_owner_new_def kv_owned_def split: sum.splits)
qed

lemma bm_owner_new_grows:
  assumes "fresh_malloc R" "mem_ok h" "bm_owner_new R layers kv_dim bs nb h = (r, h')"
  shows "ctor_grows bm_owned r h h'"
proof (cases "nb < 0 \<or> layers \<le> 0 \<or> kv_dim \<le> 0 \<or> bs \<le> 0")
  case True
  then show ?thesis using assms
    by (cases "nb < 0") (auto simp: ctor_grows_def bm_owner_new_def allocator_new_def)
next
  case False
  obtain q h1 where 1: "malloc_layers R ''cuda block manager: '' (size_bytes (nb * bs * kv_dim) 4) (nat layers) h = (q, h1)"
    by (cases "malloc_layers R ''cuda block manager: '' (size_bytes (nb * bs * kv_dim) 4) (nat layers) h")
  from malloc_layers_grows[OF assms(1,2) 1] show ?thesis
    using assms(3) False 1
    by (auto simp: ctor_grows_def bm_owner_new_def allocator_new_def bm_owned_def split: sum.splits)
qed

lemma bm_upload_owned:
  assumes "fresh_malloc R" "mem_ok h" "mset (cm_live h) = bm_owned g + F"
  shows "\<exists>e g' h'. bm_owner_upload R need g h = Inr ((e, g'), h') \<and> mem_ok h'
    \<and> mset (cm_live h') = bm_owned g' + F"
proof (cases "need = 0 \<or> need \<le> bo_table_cap g")
  case True
  then show ?thesis using assms(2,3) by (auto simp: bm_owner_upload_def Let_def)
next
  case False
  define K where "K = nonnull (bo_keys g @ bo_values g) + F"
  have "mset (cm_live h) = nonnull [bo_table g] + K"
    using assms(3) by (simp add: K_def bm_owned_def ac_simps)
  from dev_free_owned[OF this] obtain h1 where
    1: "dev_free (bo_table g) h = Inr h1" "mset (cm_live h1) = K" by blast
  have ok1: "mem_ok h1"
    using mem_ok_sub[OF assms(2), of h1] 1(2) \<open>mset (cm_live h) = nonnull [bo_table g] + K\<close> by simp
  obtain q h2 where 2: "dev_malloc R (size_bytes need 8) h1 = (q, h2)" by (cases "dev_malloc R (size_bytes need 8) h1")
  note g2 = dev_malloc_grows[OF assms(1) ok1 2]
  have f: "(if bo_table g \<noteq> 0 then res_bind (dev_free (bo_table g) h) (\<lambda>h. Inr (g\<lparr>bo_table := 0\<rparr>, h))
      else Inr (g, h)) = Inr (g\<lparr>bo_table := 0\<rparr>, h1)"
    using 1(1) by (cases "bo_table g = 0") (simp_all add: dev_free_def[of 0])
  have "q = None \<Longrightarrow> mset (cm_live h2) = bm_owned (g\<lparr>bo_table := 0\<rparr>) + F"
    and "q = Some p \<Longrightarrow> mset (cm_live h2) = bm_owned (g\<lparr>bo_table := p, bo_table_cap := need\<rparr>) + F" for p
    using g2(2) 1(2) by (simp_all add: K_def bm_owned_def ac_simps)
  then show ?thesis
    using False g2(1) f 2 by (cases q) (auto simp: bm_owner_upload_def Let_def)
qed

definition state_owned :: "dev_state \<Rightarrow> nat multiset" where
  "state_owned s = all_owned arr_owned (ds_arrs s) + all_owned kv_owned (ds_kvs s) + all_owned bm_owned (ds_bms s)"

text \<open>The constructor of a cache or a pool was ended by the runtime.\<close>

definition ctor_threw :: "dev_op \<Rightarrow> error option \<Rightarrow> bool" where
  "ctor_threw op e \<longleftrightarrow>
     (case op of NewKv _ _ _ \<Rightarrow> \<exists>msg. e = Some (RuntimeError msg)
      | NewBm _ _ _ _ \<Rightarrow> \<exists>msg. e = Some (RuntimeError msg) | _ \<Rightarrow> False)"

lemma add_new_grows:
  assumes "ctor_grows f r h h'" "mset (cm_live h) = all_owned f xs + F"
  shows "\<exists>e xs' M. add_new (r, h') xs = (e, xs', h') \<and> mset (cm_live h') = all_owned f xs' + F + M
    \<and> mem_ok h' \<and> ((\<nexists>msg. e = Some (RuntimeError msg)) \<longrightarrow> M = {#})"
  using assms by (cases r) (auto simp: ctor_grows_def add_new_def)

lemma add_arr_grows:
  assumes "ctor_grows f r h h'" "\<forall>e. r = Inl e \<longrightarrow> mset (cm_live h') = mset (cm_live h)"
    "mset (cm_live h) = all_owned f xs + F"
  shows "\<exists>e xs'. add_new (r, h') xs = (e, xs', h') \<and> mset (cm_live h') = all_owned f xs' + F"
  using assms by (cases r) (auto simp: ctor_grows_def add_new_def)

definition dev_step_ok :: "cuda_rt \<Rightarrow> dev_op \<Rightarrow> dev_state \<Rightarrow> nat multiset \<Rightarrow> bool" where
  "dev_step_ok R op s L \<longleftrightarrow> (\<exists>e s' M. dev_exec R op s = Inr (e, s') \<and> mem_ok (ds_mem s')
     \<and> mset (cm_live (ds_mem s')) = state_owned s' + (L + M) \<and> (\<not> ctor_threw op e \<longrightarrow> M = {#}))"

lemma dev_step_okI:
  assumes "dev_exec R op s = Inr (e, s')" "mem_ok (ds_mem s')"
    "mset (cm_live (ds_mem s')) = state_owned s' + (L + M)" "\<not> ctor_threw op e \<longrightarrow> M = {#}"
  shows "dev_step_ok R op s L"
  using assms unfolding dev_step_ok_def by blast

text \<open>The memory as seen by the objects of one class: the rest is a frame.\<close>

definition arr_frame where
  "arr_frame s L = all_owned kv_owned (ds_kvs s) + all_owned bm_owned (ds_bms s) + L"

definition kv_frame where
  "kv_frame s L = all_owned arr_owned (ds_arrs s) + all_owned bm_owned (ds_bms s) + L"

definition bm_frame where
  "bm_frame s L = all_owned arr_owned (ds_arrs s) + all_owned kv_owned (ds_kvs s) + L"

lemmas frame_defs = state_owned_def arr_frame_def kv_frame_def bm_frame_def

lemma state_frames:
  "state_owned s + L = all_owned arr_owned (ds_arrs s) + arr_frame s L"
  "state_owned s + L = all_owned kv_owned (ds_kvs s) + kv_frame s L"
  "state_owned s + L = all_owned bm_owned (ds_bms s) + bm_frame s L"
  by (simp_all add: frame_defs ac_simps)

lemma dev_exec_arr:
  assumes R: "fresh_malloc R" and ok: "mem_ok (ds_mem s)" and live: "mset (cm_live (ds_mem s)) = state_owned s + L"
  shows "dev_step_ok R (NewArr elem n) s L" "dev_step_ok R (ArrOp q) s L"
proof -
  note a = live[unfolded state_frames(1)]
  obtain r h' where r: "arr_new R elem n (ds_mem s) = (r, h')" by (cases "arr_new R elem n (ds_mem s)")
  note g = arr_new_grows[OF R ok r]
  from add_arr_grows[OF conjunct1[OF g] conjunct2[OF g] a] obtain e xs' where
    n: "add_new (r, h') (ds_arrs s) = (e, xs', h')" "mset (cm_live h') = all_owned arr_owned xs' + arr_frame s L" by blast
  show "dev_step_ok R (NewArr elem n) s L"
    using g n by (intro dev_step_okI[where s' = "s\<lparr>ds_arrs := xs', ds_mem := h'\<rparr>" and M = "{#}"])
      (simp_all add: dev_exec_def r ctor_grows_def frame_defs ac_simps)
  from arr.exec_owned[OF ok a, of q] obtain xs' h' where
    "owner_exec arr_release arr_move arr_assign q (ds_arrs s) (ds_mem s) = Inr (xs', h')" "mem_ok h'"
    "mset (cm_live h') = all_owned arr_owned xs' + arr_frame s L" by blast
  then show "dev_step_ok R (ArrOp q) s L"
    by (intro dev_step_okI[where s' = "s\<lparr>ds_arrs := xs', ds_mem := h'\<rparr>" and M = "{#}"])
      (simp_all add: dev_exec_def frame_defs ac_simps)
qed

lemma dev_exec_kv:
  assumes R: "fresh_malloc R" and ok: "mem_ok (ds_mem s)" and live: "mset (cm_live (ds_mem s)) = state_owned s + L"
  shows "dev_step_ok R (NewKv layers kv_dim cap) s L" "dev_step_ok R (KvOp q) s L"
proof -
  note k = live[unfolded state_frames(2)]
  obtain r h' where r: "kv_owner_new R layers kv_dim cap (ds_mem s) = (r, h')"
    by (cases "kv_owner_new R layers kv_dim cap (ds_mem s)")
  from add_new_grows[OF kv_owner_new_grows[OF R ok r] k] obtain e xs' M where
    "add_new (r, h') (ds_kvs s) = (e, xs', h')" "mset (cm_live h') = all_owned kv_owned xs' + kv_frame s L + M"
    "mem_ok h'" "(\<nexists>msg. e = Some (RuntimeError msg)) \<longrightarrow> M = {#}" by blast
  then show "dev_step_ok R (NewKv layers kv_dim cap) s L"
    by (intro dev_step_okI[where s' = "s\<lparr>ds_kvs := xs', ds_mem := h'\<rparr>" and M = M and e = e])
      (simp_all add: dev_exec_def r ctor_threw_def frame_defs ac_simps)
  from kvs.exec_owned[OF ok k, of q] obtain xs' h' where
    "owner_exec kv_owner_destroy kv_owner_move kv_owner_assign q (ds_kvs s) (ds_mem s) = Inr (xs', h')" "mem_ok h'"
    "mset (cm_live h') = all_owned kv_owned xs' + kv_frame s L" by blast
  then show "dev_step_ok R (KvOp q) s L"
    by (intro dev_step_okI[where s' = "s\<lparr>ds_kvs := xs', ds_mem := h'\<rparr>" and M = "{#}"])
      (simp_all add: dev_exec_def frame_defs ac_simps)
qed

lemma dev_exec_bm:
  assumes R: "fresh_malloc R" and ok: "mem_ok (ds_mem s)" and live: "mset (cm_live (ds_mem s)) = state_owned s + L"
  shows "dev_step_ok R (NewBm layers kv_dim bs nb) s L" "dev_step_ok R (BmOp q) s L"
proof -
  note b = live[unfolded state_frames(3)]
  obtain r h' where r: "bm_owner_new R layers kv_dim bs nb (ds_mem s) = (r, h')"
    by (cases "bm_owner_new R layers kv_dim bs nb (ds_mem s)")
  from add_new_grows[OF bm_owner_new_grows[OF R ok r] b] obtain e xs' M where
    "add_new (r, h') (ds_bms s) = (e, xs', h')" "mset (cm_live h') = all_owned bm_owned xs' + bm_frame s L + M"
    "mem_ok h'" "(\<nexists>msg. e = Some (RuntimeError msg)) \<longrightarrow> M = {#}" by blast
  then show "dev_step_ok R (NewBm layers kv_dim bs nb) s L"
    by (intro dev_step_okI[where s' = "s\<lparr>ds_bms := xs', ds_mem := h'\<rparr>" and M = M and e = e])
      (simp_all add: dev_exec_def r ctor_threw_def frame_defs ac_simps)
  from bms.exec_owned[OF ok b, of q] obtain xs' h' where
    "owner_exec bm_owner_destroy bm_owner_move bm_owner_assign q (ds_bms s) (ds_mem s) = Inr (xs', h')" "mem_ok h'"
    "mset (cm_live h') = all_owned bm_owned xs' + bm_frame s L" by blast
  then show "dev_step_ok R (BmOp q) s L"
    by (intro dev_step_okI[where s' = "s\<lparr>ds_bms := xs', ds_mem := h'\<rparr>" and M = "{#}"])
      (simp_all add: dev_exec_def frame_defs ac_simps)
qed

lemma dev_exec_upload:
  assumes R: "fresh_malloc R" and ok: "mem_ok (ds_mem s)" and live: "mset (cm_live (ds_mem s)) = state_owned s + L"
  shows "dev_step_ok R (UploadTable i need) s L"
proof (cases "i < length (ds_bms s)")
  case True
  let ?rest = "all_owned bm_owned (take i (ds_bms s) @ drop (Suc i) (ds_bms s))"
  have "mset (cm_live (ds_mem s)) = bm_owned (ds_bms s ! i) + (?rest + bm_frame s L)"
    using live[unfolded state_frames(3)] all_owned_remove[OF True, of bm_owned] by (simp add: ac_simps)
  from bm_upload_owned[OF R ok this] obtain e g' h' where
    "bm_owner_upload R need (ds_bms s ! i) (ds_mem s) = Inr ((e, g'), h')" "mem_ok h'"
    "mset (cm_live h') = bm_owned g' + (?rest + bm_frame s L)" by blast
  then show ?thesis using True all_owned_update[OF True, of bm_owned g']
    by (intro dev_step_okI[where s' = "s\<lparr>ds_bms := (ds_bms s)[i := g'], ds_mem := h'\<rparr>" and M = "{#}"])
      (simp_all add: dev_exec_def frame_defs ac_simps)
qed (use ok live in \<open>simp add: dev_exec_def dev_step_ok_def\<close>)

lemma dev_exec_owned:
  assumes "fresh_malloc R" "mem_ok (ds_mem s)" "mset (cm_live (ds_mem s)) = state_owned s + L"
  shows "dev_step_ok R op s L"
  using dev_exec_arr[OF assms] dev_exec_kv[OF assms] dev_exec_bm[OF assms] dev_exec_upload[OF assms]
  by (cases op) auto

lemma dev_run_owned:
  assumes R: "fresh_malloc R" and "mem_ok (ds_mem s)" "mset (cm_live (ds_mem s)) = state_owned s + L"
  shows "\<exists>es s' M. dev_run R ops s = Inr (es, s') \<and> length es = length ops \<and> mem_ok (ds_mem s')
    \<and> mset (cm_live (ds_mem s')) = state_owned s' + L + M
    \<and> ((\<forall>i < length ops. \<not> ctor_threw (ops ! i) (es ! i)) \<longrightarrow> M = {#})"
  using assms(2,3)
proof (induction ops arbitrary: s L)
  case (Cons op ops)
  from dev_exec_owned[OF R Cons.prems, of op, unfolded dev_step_ok_def] obtain e s1 M1 where
    1: "dev_exec R op s = Inr (e, s1)" "mem_ok (ds_mem s1)"
      "mset (cm_live (ds_mem s1)) = state_owned s1 + (L + M1)" "\<not> ctor_threw op e \<longrightarrow> M1 = {#}" by blast
  from Cons.IH[OF 1(2,3)] obtain es s' M where
    2: "dev_run R ops s1 = Inr (es, s')" "length es = length ops" "mem_ok (ds_mem s')"
      "mset (cm_live (ds_mem s')) = state_owned s' + (L + M1) + M"
      "(\<forall>i < length ops. \<not> ctor_threw (ops ! i) (es ! i)) \<longrightarrow> M = {#}" by blast
  have "(\<forall>i < length (op # ops). \<not> ctor_threw ((op # ops) ! i) ((e # es) ! i)) \<longrightarrow> M1 + M = {#}"
    using 1(4) 2(5) by (auto simp: All_less_Suc2)
  then show ?case using 1(1) 2 by (intro exI[of _ "e # es"] exI[of _ s'] exI[of _ "M1 + M"]) (simp add: ac_simps)
qed simp

text \<open>C22: Any program over device arrays, caches and pools (constructions that may fail at any
  allocation, moves, assignments, also of an object to itself, destructions, table uploads) never
  frees an allocation twice or one of another object. At its end the allocations in use are
  those the existing objects own, each by one object, and those lost to constructors of caches
  or pools that the runtime ended with an error; with no such error nothing is lost, so when
  the last object is gone the device memory is empty.\<close>

theorem device_memory_accounted:
  assumes "fresh_malloc R"
  shows "\<exists>es s lost. dev_run R ops dev_start = Inr (es, s) \<and> length es = length ops
    \<and> distinct (cm_live (ds_mem s)) \<and> mset (cm_live (ds_mem s)) = state_owned s + lost
    \<and> ((\<forall>i < length ops. \<not> ctor_threw (ops ! i) (es ! i)) \<longrightarrow> lost = {#})"
proof -
  have "mem_ok (ds_mem dev_start)" "mset (cm_live (ds_mem dev_start)) = state_owned dev_start + {#}"
    by (simp_all add: dev_start_def mem_ok_def state_owned_def)
  from dev_run_owned[OF assms this, of ops] show ?thesis unfolding mem_ok_def by auto
qed

text \<open>A runtime that hands out one address after another.\<close>

definition counting_rt :: "nat \<Rightarrow> cuda_rt" where
  "counting_rt limit = \<lparr>rt_malloc = (\<lambda>n live bytes. if n < limit then Some (Suc (foldr max live 0)) else None),
     rt_error = ''out of memory''\<rparr>"

lemma counting_rt_fresh [simp]: "fresh_malloc (counting_rt limit)"
proof -
  have "p \<le> foldr max live 0" if "p \<in> set live" for p :: nat and live
    using that by (induction live) auto
  then have "Suc (foldr max live 0) \<notin> set live" for live :: "nat list" using Suc_n_not_le_n by blast
  then show ?thesis by (simp add: fresh_malloc_def counting_rt_def)
qed

theorem device_memory_accounted_witness:
  "\<exists>es s lost. dev_run (counting_rt 3) [NewKv 1 4 2, NewKv 2 4 2, KvOp (MoveAssign 0 0), KvOp (Destroy 0)] dev_start = Inr (es, s)
    \<and> length es = 4 \<and> mset (cm_live (ds_mem s)) = state_owned s + lost \<and> lost = {#3#}"
proof -
  have r: "dev_run (counting_rt 3) [NewKv 1 4 2, NewKv 2 4 2, KvOp (MoveAssign 0 0), KvOp (Destroy 0)] dev_start
      = Inr ([None, Some (RuntimeError ''cuda kv: malloc values: out of memory''), None, None],
             \<lparr>ds_arrs = [], ds_kvs = [], ds_bms = [], ds_mem = \<lparr>cm_live = [3], cm_calls = 4\<rparr>\<rparr>)"
    by code_simp
  show ?thesis
    using device_memory_accounted[OF counting_rt_fresh, of 3 "[NewKv 1 4 2, NewKv 2 4 2, KvOp (MoveAssign 0 0), KvOp (Destroy 0)]"]
    unfolding r by (auto simp: state_owned_def)
qed

section \<open>What is lost\<close>

text \<open>
  When call \<open>j\<close> is the first to fail inside the loop of a constructor, the \<open>j\<close> allocations made
  before it stay in use: the exception leaves the constructor, so the destructor does not run,
  and the vectors of raw pointers free nothing.
\<close>

lemma malloc_layers_lost:
  assumes "\<forall>i < j. \<forall>live. \<exists>p > 0. rt_malloc R (cm_calls h + i) live bytes = Some p"
    "\<forall>live. rt_malloc R (cm_calls h + j) live bytes = None" "j < 2 * n"
  shows "\<exists>msg h'. malloc_layers R prefix bytes n h = (Inl (RuntimeError msg), h')
    \<and> length (cm_live h') = length (cm_live h) + j"
  using assms
proof (induction n arbitrary: j h)
  case (Suc n)
  have m: "dev_malloc R bytes h' = (case rt_malloc R (cm_calls h') (cm_live h') bytes of
      None \<Rightarrow> (None, h'\<lparr>cm_calls := cm_calls h' + 1\<rparr>)
    | Some p \<Rightarrow> (Some p, if p = 0 then h'\<lparr>cm_calls := cm_calls h' + 1\<rparr>
        else h'\<lparr>cm_calls := cm_calls h' + 1, cm_live := p # cm_live h'\<rparr>))" for h' :: cuda_mem
    by (simp add: dev_malloc_def Let_def split: option.split)
  consider "j = 0" | "j = 1" | k where "j = Suc (Suc k)" by (metis One_nat_def not0_implies_Suc)
  then show ?case
  proof cases
    case 1
    then show ?thesis using Suc.prems(2) by (auto simp: m)
  next
    case 2
    obtain p where p: "0 < p" "rt_malloc R (cm_calls h) (cm_live h) bytes = Some p"
      using Suc.prems(1)[rule_format, of 0] 2 by auto
    have "rt_malloc R (Suc (cm_calls h)) (p # cm_live h) bytes = None" using Suc.prems(2) 2 by simp
    then show ?thesis using p 2 by (simp add: m)
  next
    case (3 k)
    obtain p where p: "0 < p" "rt_malloc R (cm_calls h) (cm_live h) bytes = Some p"
      using Suc.prems(1)[rule_format, of 0] 3 by auto
    obtain q where q: "0 < q" "rt_malloc R (Suc (cm_calls h)) (p # cm_live h) bytes = Some q"
      using Suc.prems(1)[rule_format, of 1] 3 by auto
    let ?h = "h\<lparr>cm_calls := Suc (Suc (cm_calls h)), cm_live := q # p # cm_live h\<rparr>"
    have "\<forall>i < k. \<forall>live. \<exists>p > 0. rt_malloc R (cm_calls ?h + i) live bytes = Some p"
      using Suc.prems(1)[rule_format, of "Suc (Suc i)" for i] 3 by simp
    moreover have "\<forall>live. rt_malloc R (cm_calls ?h + k) live bytes = None" using Suc.prems(2) 3 by simp
    ultimately obtain msg h' where "malloc_layers R prefix bytes n ?h = (Inl (RuntimeError msg), h')"
      "length (cm_live h') = length (cm_live ?h) + k"
      using Suc.IH[of k ?h] Suc.prems(3) 3 by auto
    then show ?thesis using p q 3 by (simp add: m)
  qed
qed simp

theorem kv_constructor_leaks:
  assumes "0 < layers" "0 < kv_dim" "0 < cap"
    "\<forall>i < j. \<forall>live bytes. \<exists>p > 0. rt_malloc R (cm_calls h + i) live bytes = Some p"
    "\<forall>live bytes. rt_malloc R (cm_calls h + j) live bytes = None" "j < 2 * nat layers"
  shows "\<exists>msg h'. kv_owner_new R layers kv_dim cap h = (Inl (RuntimeError msg), h')
    \<and> length (cm_live h') = length (cm_live h) + j"
  using malloc_layers_lost[of j R h "size_bytes (cap * kv_dim) 4" "nat layers" "''cuda kv: ''"] assms
  by (auto simp: kv_owner_new_def)

text \<open>
  A failed enlargement of the block table leaves a null table with its old capacity: every later
  upload that fits into that capacity copies to the null pointer and throws as well, however
  much memory is free by then.
\<close>

theorem upload_table_stuck:
  assumes "mset (cm_live h) = bm_owned g + F" "0 < bo_table_cap g" "bo_table_cap g < need"
    "\<forall>n live bytes. rt_malloc R n live bytes = None" "0 < need'" "need' \<le> bo_table_cap g"
  shows "\<exists>msg g' h'. bm_owner_upload R need g h = Inr ((Some (RuntimeError msg), g'), h')
    \<and> (\<forall>R' k. \<exists>msg'. bm_owner_upload R' need' g' k = Inr ((Some (RuntimeError msg'), g'), k))"
proof -
  have "mset (cm_live h) = nonnull [bo_table g] + (nonnull (bo_keys g @ bo_values g) + F)"
    using assms(1) by (simp add: bm_owned_def ac_simps)
  from dev_free_owned[OF this] obtain h1 where 1: "dev_free (bo_table g) h = Inr h1" by blast
  then have "(if bo_table g \<noteq> 0 then res_bind (dev_free (bo_table g) h) (\<lambda>h. Inr (g\<lparr>bo_table := 0\<rparr>, h))
      else Inr (g, h)) = Inr (g\<lparr>bo_table := 0\<rparr>, h1)"
    by (cases "bo_table g = 0") (simp_all add: dev_free_def[of 0])
  then show ?thesis using assms(2-6)
    by (auto simp: bm_owner_upload_def dev_malloc_def Let_def)
qed

end
