(* ===== verification/Loading.thy ===== *)
theory Loading
  imports Weights_File Cuda_Decode
begin

text \<open>
  The entry points that read files: \<open>SafeTensors::load\<close>, \<open>Model::from_pretrained\<close>,
  \<open>CudaModel::from_pretrained\<close> with their \<open>read_file\<close> helpers, and \<open>version\<close>. The file system
  is a parameter: the bytes of the file at a path, or \<open>None\<close> when it cannot be opened.
\<close>

type_synonym files = "string \<Rightarrow> 8 word list option"

definition version :: string where
  "version = ''0.0.1''"

definition st_load :: "'j json_lib \<Rightarrow> files \<Rightarrow> string \<Rightarrow> weights res" where
  "st_load J fs path =
     (case fs path of
        None \<Rightarrow> Inl (RuntimeError (''safetensors: cannot open '' @ path))
      | Some buf \<Rightarrow> st_parse J buf)"

definition read_file :: "files \<Rightarrow> string \<Rightarrow> 8 word list res" where
  "read_file fs path =
     (case fs path of None \<Rightarrow> Inl (RuntimeError (''model: cannot open '' @ path)) | Some s \<Rightarrow> Inr s)"

definition from_pretrained :: "'j json_lib \<Rightarrow> files \<Rightarrow> string \<Rightarrow> model res" where
  "from_pretrained J fs model_dir =
     res_bind (res_bind (read_file fs (model_dir @ ''/config.json'')) (config_from_json J)) (\<lambda>config.
     res_bind (st_load J fs (model_dir @ ''/model.safetensors'')) (\<lambda>ws.
       Inr (from_safetensors config ws)))"

definition gpu_read_file :: "files \<Rightarrow> string \<Rightarrow> 8 word list res" where
  "gpu_read_file fs path =
     (case fs path of None \<Rightarrow> Inl (RuntimeError (''CudaModel: cannot open '' @ path)) | Some s \<Rightarrow> Inr s)"

definition gpu_from_pretrained :: "'j json_lib \<Rightarrow> files \<Rightarrow> string \<Rightarrow> gpu_model res" where
  "gpu_from_pretrained J fs model_dir =
     res_bind (res_bind (gpu_read_file fs (model_dir @ ''/config.json'')) (config_from_json J)) (\<lambda>config.
     res_bind (st_load J fs (model_dir @ ''/model.safetensors'')) (\<lambda>ws.
       gpu_from_safetensors config ws))"

section \<open>The two loaders agree\<close>

lemma read_file_eq_Inr [simp]:
  "read_file fs path = Inr s \<longleftrightarrow> fs path = Some s" "gpu_read_file fs path = Inr s \<longleftrightarrow> fs path = Some s"
  by (simp_all add: read_file_def gpu_read_file_def split: option.splits)

lemma from_pretrained_Inr:
  assumes "from_pretrained J fs d = Inr M"
  shows "\<exists>txt buf. fs (d @ ''/config.json'') = Some txt \<and> fs (d @ ''/model.safetensors'') = Some buf
    \<and> config_from_json J txt = Inr (m_config M) \<and> st_parse J buf = Inr (m_weights M)"
  using assms by (auto simp: from_pretrained_def res_bind_eq_Inr st_load_def from_safetensors_def split: option.splits)

text \<open>The device loader succeeds exactly when the host loader does and the file holds every tensor
  that the forward pass needs; the device then has the weights of the host model.\<close>

theorem pretrained_uploaded:
  "case from_pretrained J fs d of
     Inl e \<Rightarrow> \<exists>e'. gpu_from_pretrained J fs d = Inl e'
   | Inr M \<Rightarrow> if \<forall>(n, required) \<in> set (gm_names (m_config M)). required \<longrightarrow> st_contains (m_weights M) n
       then \<exists>m. gpu_from_pretrained J fs d = Inr m \<and> uploaded M m
       else \<exists>n. gpu_from_pretrained J fs d = Inl (RuntimeError (''CudaModel: missing weight '' @ n))"
proof (cases "fs (d @ ''/config.json'')")
  case None
  then show ?thesis by (simp add: from_pretrained_def gpu_from_pretrained_def read_file_def gpu_read_file_def)
next
  case c: (Some body)
  show ?thesis
  proof (cases "config_from_json J body")
    case (Inl e)
    then show ?thesis using c
      by (simp add: from_pretrained_def gpu_from_pretrained_def read_file_def gpu_read_file_def)
  next
    case config: (Inr config)
    show ?thesis
    proof (cases "st_load J fs (d @ ''/model.safetensors'')")
      case (Inl e)
      then show ?thesis using c config
        by (simp add: from_pretrained_def gpu_from_pretrained_def read_file_def gpu_read_file_def)
    next
      case (Inr ws)
      then have "from_pretrained J fs d = Inr (from_safetensors config ws)"
        "gpu_from_pretrained J fs d = gpu_from_safetensors config ws"
        using c config by (simp_all add: from_pretrained_def gpu_from_pretrained_def read_file_def gpu_read_file_def)
      moreover have "m_config (from_safetensors config ws) = config" "m_weights (from_safetensors config ws) = ws"
        by (simp_all add: from_safetensors_def)
      ultimately show ?thesis using gpu_load_ok[of config ws]
        by (cases "gpu_from_safetensors config ws") (simp_all del: split_paired_All)
    qed
  qed
qed

text \<open>Reading the configuration is never undefined.\<close>

lemma res_bind_defined: "m \<noteq> Inl Undefined \<Longrightarrow> (\<And>x. f x \<noteq> Inl Undefined) \<Longrightarrow> res_bind m f \<noteq> Inl Undefined"
  by (cases m) auto

lemma if_defined: "(P \<Longrightarrow> a \<noteq> Inl Undefined) \<Longrightarrow> (\<not> P \<Longrightarrow> b \<noteq> Inl Undefined) \<Longrightarrow> (if P then a else b) \<noteq> Inl Undefined"
  by simp

lemma js_raise_defined: "js_raise r \<noteq> Inl Undefined"
  by (simp add: js_raise_def)

lemma config_from_json_defined: "config_from_json J txt \<noteq> Inl Undefined"
  unfolding config_from_json_def Let_def
  by (intro res_bind_defined if_defined js_raise_defined) simp_all

text \<open>Loading a model from any files is undefined only when a shape in the weights file has a
  product that leaves \<open>int64_t\<close>.\<close>

theorem from_pretrained_defined:
  assumes "from_pretrained J fs d = Inl Undefined"
  shows "\<exists>buf. fs (d @ ''/model.safetensors'') = Some buf \<and> st_parse J buf = Inl Undefined"
proof (rule ccontr)
  assume "\<not> ?thesis"
  then have "st_load J fs (d @ ''/model.safetensors'') \<noteq> Inl Undefined"
    by (auto simp: st_load_def split: option.splits)
  moreover have "read_file fs (d @ ''/config.json'') \<noteq> Inl Undefined"
    by (simp add: read_file_def split: option.splits)
  ultimately have "from_pretrained J fs d \<noteq> Inl Undefined"
    unfolding from_pretrained_def by (intro res_bind_defined config_from_json_defined) simp_all
  with assms show False by simp
qed

end
