(* ===== verification/Bindings.thy ===== *)
theory Bindings
  imports Engine Model_Chunks
begin

text \<open>
  \<open>bindings/module.cpp\<close>: the functions of the Python module that do more than name a member
  function. A NumPy array that pybind11 hands over (C order, converted to \<open>float\<close>) is its shape
  with its elements; a new array is not initialised: its elements are the parameter \<open>junk\<close>. The
  other entries of the module are the modelled functions themselves.
\<close>

record np_array =
  np_shape :: "int list"
  np_data :: "f32 list"

definition np_new :: "f32 \<Rightarrow> int list \<Rightarrow> np_array" where
  "np_new junk shape = \<lparr>np_shape = shape, np_data = replicate (nat (num_elements shape)) junk\<rparr>"

definition matmul_np :: "eigen \<Rightarrow> f32 \<Rightarrow> np_array \<Rightarrow> np_array \<Rightarrow> np_array res" where
  "matmul_np E junk a b =
     (if length (np_shape a) \<noteq> 2 \<or> length (np_shape b) \<noteq> 2
      then Inl (InvalidArgument ''matmul expects two 2D arrays'')
      else let m = np_shape a ! 0; k = np_shape a ! 1; n = np_shape b ! 1 in
        if k \<noteq> np_shape b ! 0
        then Inl (InvalidArgument ''matmul: inner dimensions disagree (a.cols != b.rows)'')
        else res_bind (tensor_make [m, k] (np_data a)) (\<lambda>at.
             res_bind (tensor_make [k, n] (np_data b)) (\<lambda>bt.
             res_bind (matmul E at bt) (\<lambda>ct.
             let out = np_new junk [m, n] in
             res_bind (memcpy (np_data out) 0 (t_data ct) 0 (m * n)) (\<lambda>dat.
               Inr (out\<lparr>np_data := dat\<rparr>))))))"

definition model_forward :: "fpu \<Rightarrow> eigen \<Rightarrow> f32 \<Rightarrow> model \<Rightarrow> int list \<Rightarrow> np_array res" where
  "model_forward F E junk model ids =
     res_bind (forward F E model ids) (\<lambda>logits.
     res_bind (dim logits 0) (\<lambda>s. res_bind (dim logits 1) (\<lambda>v.
     let out = np_new junk [s, v] in
     res_bind (memcpy (np_data out) 0 (t_data logits) 0 (s * v)) (\<lambda>dat. Inr (out\<lparr>np_data := dat\<rparr>)))))"

text \<open>\<open>Engine.__init__\<close>: an argument that the caller leaves out has the default of the module.\<close>

definition py_engine :: "model \<Rightarrow> int \<Rightarrow> int \<Rightarrow> (int \<Rightarrow> 'g) \<Rightarrow> int option \<Rightarrow> int option \<Rightarrow> bool option \<Rightarrow> 'g engine res" where
  "py_engine m block_size nblocks rng seed max_batch enable_prefix_cache =
     engine_new m block_size nblocks (rng (case seed of None \<Rightarrow> 0 | Some s \<Rightarrow> s))
       (case max_batch of None \<Rightarrow> 256 | Some b \<Rightarrow> b)
       (case enable_prefix_cache of None \<Rightarrow> True | Some c \<Rightarrow> c)"

definition py_add_request ::
    "int list \<Rightarrow> sampling_params option \<Rightarrow> int option \<Rightarrow> int option \<Rightarrow> 'g engine \<Rightarrow> (int \<times> 'g engine) res" where
  "py_add_request prompt params max_tokens eos_id self =
     add_request
       \<lparr>rq_prompt = prompt,
        rq_params = (case params of None \<Rightarrow> \<lparr>temperature = 0x3FF0000000000000, top_k = 0, top_p = 0x3FF0000000000000\<rparr> | Some p \<Rightarrow> p),
        rq_max_tokens = (case max_tokens of None \<Rightarrow> 16 | Some n \<Rightarrow> n),
        rq_eos_id = (case eos_id of None \<Rightarrow> - 1 | Some i \<Rightarrow> i)\<rparr> self"

section \<open>What Python sees\<close>

text \<open>A buffer that is copied over in full keeps none of its old elements.\<close>

lemma memcpy_all: "length dst = n \<Longrightarrow> length src = n \<Longrightarrow> memcpy dst 0 src 0 (int n) = Inr src"
  by (simp add: memcpy_def blit_def slice_def)

text \<open>The product of two arrays is the product of the engine: an \<open>[m, n]\<close> array that does not depend
  on the fresh array's elements, and two arrays that do not fit are refused.\<close>

theorem matmul_np_exact:
  assumes "np_shape a = [int m, int k]" "length (np_data a) = m * k"
    and "np_shape b = [int k', int n]" "length (np_data b) = k' * n"
    and "\<And>x y. length x = m * k \<Longrightarrow> length y = k * n \<Longrightarrow> length (mul_nn E m k n x y) = m * n"
  shows "matmul_np E junk a b =
    (if k = k' then Inr \<lparr>np_shape = [int m, int n], np_data = mul_nn E m k n (np_data a) (np_data b)\<rparr>
     else Inl (InvalidArgument ''matmul: inner dimensions disagree (a.cols != b.rows)''))"
proof (cases "k = k'")
  case True
  have "memcpy (np_data (np_new junk [int m, int n])) 0 (mul_nn E m k n (np_data a) (np_data b)) 0 (int m * int n)
      = Inr (mul_nn E m k n (np_data a) (np_data b))"
    using memcpy_all[of "np_data (np_new junk [int m, int n])" "m * n" "mul_nn E m k n (np_data a) (np_data b)"]
      assms(2,4) assms(5)[of "np_data a" "np_data b"] True
    by (simp add: np_new_def nat_mult_distrib)
  moreover have "\<not> int m * int n < 0" by (simp add: not_less)
  ultimately show ?thesis using assms(1-4) True
    by (simp add: matmul_np_def tensor_make_def matmul_def ndim_def dim_def tensor_zeros_def np_new_def Let_def)
qed (use assms in \<open>simp add: matmul_np_def\<close>)

text \<open>\<open>Model.forward\<close> in Python gives the logits of the full forward, row after row.\<close>

theorem model_forward_exact:
  assumes "model_ok m" "eigen_rowwise E" "ids_ok m ids" "ids \<noteq> []"
  shows "\<exists>t. forward F E m ids = Inr t
    \<and> model_forward F E junk m ids = Inr \<lparr>np_shape = [int (length ids), int (n_vocab m)], np_data = t_data t\<rparr>"
proof -
  define yss where "yss = fst (forward_spec F E m 0 ids no_hist)"
  have h: "\<forall>l < n_layers m. hist_ok 0 (d_kv m) (no_hist l)" using no_hist_ok by simp
  have f: "forward F E m ids = Inr (mk_mat (length ids) (n_vocab m) yss)"
    using forward_ok[OF assms(2,1,3,4), of F] by (simp add: yss_def)
  have l: "length (concat yss) = length ids * n_vocab m"
    unfolding yss_def using rect_data_length[OF forward_spec_ok(1)[OF assms(2,1,3) h]] .
  have "memcpy (np_data (np_new junk [int (length ids), int (n_vocab m)])) 0 (concat yss) 0 (int (length ids) * int (n_vocab m))
      = Inr (concat yss)"
    using memcpy_all[of "np_data (np_new junk [int (length ids), int (n_vocab m)])" "length ids * n_vocab m" "concat yss"] l
    by (simp add: np_new_def nat_mult_distrib)
  then show ?thesis by (simp add: f model_forward_def dim_def np_new_def mk_mat_def del: mk_mat_record)
qed

end
